(* ===== verification/Kernel_Prelude.thy ===== *)
theory Kernel_Prelude
  imports Main "HOL-Library.Word"
begin

text \<open>
  Shared vocabulary of the development: the kernel's error numbers as a datatype, the type
  synonyms of the C types that the models use, the flag constants of the system call
  interface, generic facts about list update and counting, and the interface locales that
  several components instantiate (invariants of transition systems, object tables, atomic
  operations).

  The C functions return a negative error number or a non-negative value.  The models return
  a value of the sum type \<open>errno + 'a\<close> (\<open>Inl\<close> is the error), and
  \<open>errno option\<close> where the C value is either \<open>0\<close> or an error.
\<close>

unbundle bit_operations_syntax

section \<open>Error numbers and scalar types\<close>

datatype errno =
    EPERM | ENOENT | EINTR | E2BIG | EAGAIN | ENOMEM | EACCES | EFAULT | EEXIST | EINVAL
  | EFBIG | ENOSPC | ERANGE | ENOSYS | ENOMSG | EIDRM | ERESTARTNOHAND
  | EOther nat

type_synonym u16 = "16 word"
type_synonym u32 = "32 word"
type_synonym u64 = "64 word"

type_synonym addr = nat
type_synonym task = nat
type_synonym pid = nat

section \<open>Constants of the system call interface\<close>

text \<open>Permission bits of \<open>stat.h\<close> and the flags of \<open>ipc.h\<close>, \<open>sem.h\<close> and \<open>msg.h\<close>.\<close>

definition S_IRWXUGO :: u16 where "S_IRWXUGO = 0x1FF"
definition S_IRUGO :: u16 where "S_IRUGO = 0x124"
definition S_IWUGO :: u16 where "S_IWUGO = 0x92"

definition IPC_PRIVATE :: int where "IPC_PRIVATE = 0"
definition IPC_CREAT :: u32 where "IPC_CREAT = 0x200"
definition IPC_EXCL :: u32 where "IPC_EXCL = 0x400"
definition IPC_NOWAIT :: u32 where "IPC_NOWAIT = 0x800"

definition SEM_UNDO :: u16 where "SEM_UNDO = 0x1000"
definition SEMVMX :: int where "SEMVMX = 32767"
definition SEMAEM :: int where "SEMAEM = SEMVMX"

text \<open>The commands of \<open>semctl\<close> and \<open>msgctl\<close>.\<close>

datatype ipc_cmd =
    IPC_RMID | IPC_SET | IPC_STAT | IPC_INFO
  | GETPID | GETVAL | GETALL | GETNCNT | GETZCNT | SETVAL | SETALL | SEM_STAT | SEM_INFO | SEM_STAT_ANY
  | MSG_STAT | MSG_INFO | MSG_STAT_ANY
  | SHM_STAT | SHM_INFO | SHM_STAT_ANY | SHM_LOCK | SHM_UNLOCK
  | OtherCmd int

text \<open>Arithmetic of the C type \<open>int\<close>, which wraps in the kernel's build.\<close>

definition c_int :: "int \<Rightarrow> int" where
  "c_int x = signed_take_bit 31 x"

lemma c_int_id: "- (2 ^ 31) \<le> x \<Longrightarrow> x < 2 ^ 31 \<Longrightarrow> c_int x = x"
  by (simp add: c_int_def signed_take_bit_int_eq_self)

text \<open>Test of a flag bit, as \<open>flags & bit\<close> used as a condition.\<close>

definition has_flag :: "'a::len word \<Rightarrow> 'a word \<Rightarrow> bool" where
  "has_flag flags bits \<longleftrightarrow> flags AND bits \<noteq> 0"

named_theorems abi_defs "unfolding the constants of the system call interface"

declare S_IRWXUGO_def [abi_defs] S_IRUGO_def [abi_defs] S_IWUGO_def [abi_defs]
  IPC_PRIVATE_def [abi_defs] IPC_CREAT_def [abi_defs] IPC_EXCL_def [abi_defs]
  IPC_NOWAIT_def [abi_defs] SEM_UNDO_def [abi_defs] SEMVMX_def [abi_defs]
  SEMAEM_def [abi_defs] has_flag_def [abi_defs]

section \<open>Lists\<close>

lemma list_update_undo:
  assumes "i < length xs" and "f (g (xs ! i)) = xs ! i"
  shows "(xs[i := g (xs ! i)])[i := f (xs[i := g (xs ! i)] ! i)] = xs"
  using assms by simp

lemma filter_length_append_Cons:
  "length (filter P (xs @ y # ys)) = length (filter P (xs @ ys)) + (if P y then 1 else 0)"
  by simp

lemma nth_list_update_if:
  "j < length xs \<Longrightarrow> xs[i := x] ! j = (if i = j then x else xs ! j)"
  by auto

lemma list_update_map_id:
  "(\<And>x. g (h x) = g x) \<Longrightarrow> map g (xs[i := h (xs ! i)]) = map g xs"
  by (simp add: map_update list_update_same_conv) (metis list_update_id map_update)

section \<open>Transition systems and their invariants\<close>

text \<open>
  The states a labelled transition system can reach.  A component's handlers are the labels;
  a label carries the arguments of the call and what its environment answers.
\<close>

inductive reach :: "('s \<Rightarrow> bool) \<Rightarrow> ('s \<Rightarrow> 'e \<Rightarrow> 's \<Rightarrow> bool) \<Rightarrow> 's \<Rightarrow> bool"
  for start :: "'s \<Rightarrow> bool" and step :: "'s \<Rightarrow> 'e \<Rightarrow> 's \<Rightarrow> bool"
where
  reach_start: "start s \<Longrightarrow> reach start step s"
| reach_step: "reach start step s \<Longrightarrow> step s e t \<Longrightarrow> reach start step t"

inductive_cases reach_elim: "reach start step s"

text \<open>The contract of a component whose every step keeps an invariant.\<close>

locale inv_system =
  fixes start :: "'s \<Rightarrow> bool"
    and step :: "'s \<Rightarrow> 'e \<Rightarrow> 's \<Rightarrow> bool"
    and inv :: "'s \<Rightarrow> bool"
  assumes inv_start: "start s \<Longrightarrow> inv s"
    and inv_step: "inv s \<Longrightarrow> step s e t \<Longrightarrow> inv t"
begin

lemma reach_inv: "reach start step s \<Longrightarrow> inv s"
  by (induction rule: reach.induct) (auto intro: inv_start inv_step)

end

section \<open>Object tables\<close>

text \<open>
  The contract between an identifier set and the components that keep their objects in it.
  \<open>add t x t' x'\<close> says that entering \<open>x\<close> into \<open>t\<close> succeeded with table \<open>t'\<close> and that the
  object was stamped to become \<open>x'\<close>; \<open>fail t t'\<close> that entering an object failed and left \<open>t'\<close>.
\<close>

datatype 'o table_event = Added 'o | Removed 'o | Failed

inductive table_run ::
    "('t \<Rightarrow> 'o \<Rightarrow> 't \<Rightarrow> 'o \<Rightarrow> bool) \<Rightarrow> ('t \<Rightarrow> 't \<Rightarrow> bool) \<Rightarrow> ('t \<Rightarrow> 'o \<Rightarrow> 't) \<Rightarrow> ('t \<Rightarrow> int \<Rightarrow> 'o option) \<Rightarrow> ('o \<Rightarrow> int)
       \<Rightarrow> 't \<Rightarrow> 'o table_event list \<Rightarrow> 't \<Rightarrow> bool"
  for add :: "'t \<Rightarrow> 'o \<Rightarrow> 't \<Rightarrow> 'o \<Rightarrow> bool" and fail :: "'t \<Rightarrow> 't \<Rightarrow> bool" and del :: "'t \<Rightarrow> 'o \<Rightarrow> 't"
    and lookup :: "'t \<Rightarrow> int \<Rightarrow> 'o option" and ident :: "'o \<Rightarrow> int"
where
  run_nil: "table_run add fail del lookup ident t [] t"
| run_add: "table_run add fail del lookup ident t es t1 \<Longrightarrow> add t1 x t2 x' \<Longrightarrow>
     table_run add fail del lookup ident t (es @ [Added x']) t2"
| run_del: "table_run add fail del lookup ident t es t1 \<Longrightarrow> lookup t1 (ident x) = Some x \<Longrightarrow>
     table_run add fail del lookup ident t (es @ [Removed x]) (del t1 x)"
| run_fail: "table_run add fail del lookup ident t es t1 \<Longrightarrow> fail t1 t2 \<Longrightarrow>
     table_run add fail del lookup ident t (es @ [Failed]) t2"

locale object_table =
  fixes invar :: "'t \<Rightarrow> bool"
    and lookup :: "'t \<Rightarrow> int \<Rightarrow> 'o option"
    and ident :: "'o \<Rightarrow> int"
    and add :: "'t \<Rightarrow> 'o \<Rightarrow> 't \<Rightarrow> 'o \<Rightarrow> bool"
    and fail :: "'t \<Rightarrow> 't \<Rightarrow> bool"
    and del :: "'t \<Rightarrow> 'o \<Rightarrow> 't"
  assumes add_invar: "invar t \<Longrightarrow> add t x t' x' \<Longrightarrow> invar t'"
    and add_fresh: "invar t \<Longrightarrow> add t x t' x' \<Longrightarrow> lookup t (ident x') = None"
    and add_lookup: "invar t \<Longrightarrow> add t x t' x' \<Longrightarrow>
           lookup t' i = (if i = ident x' then Some x' else lookup t i)"
    and fail_invar: "invar t \<Longrightarrow> fail t t' \<Longrightarrow> invar t'"
    and fail_lookup: "invar t \<Longrightarrow> fail t t' \<Longrightarrow> lookup t' i = lookup t i"
    and del_invar: "invar t \<Longrightarrow> lookup t (ident x) = Some x \<Longrightarrow> invar (del t x)"
    and del_lookup: "invar t \<Longrightarrow> lookup t (ident x) = Some x \<Longrightarrow>
           lookup (del t x) i = (if i = ident x then None else lookup t i)"
    and lookup_ident: "invar t \<Longrightarrow> lookup t i = Some x \<Longrightarrow> ident x = i"
begin

lemma run_invar: "table_run add fail del lookup ident t es t' \<Longrightarrow> invar t \<Longrightarrow> invar t'"
  by (induction rule: table_run.induct) (auto intro: add_invar del_invar fail_invar)

text \<open>An object stays what its identifier finds as long as it is not itself removed.\<close>

lemma run_stable:
  assumes "table_run add fail del lookup ident t es t'" and "invar t"
    and "lookup t i = Some x" and "Removed x \<notin> set es"
  shows "lookup t' i = Some x"
  using assms
proof (induction rule: table_run.induct)
  case (run_nil t)
  then show ?case by simp
next
  case (run_add t es t1 y t2 y')
  then have l: "lookup t1 i = Some x" and inv: "invar t1" by (auto intro: run_invar)
  with add_fresh [OF inv run_add.hyps(2)] have "i \<noteq> ident y'" by auto
  with l show ?case by (simp add: add_lookup [OF inv run_add.hyps(2)])
next
  case (run_del t es t1 y)
  then have l: "lookup t1 i = Some x" and inv: "invar t1" by (auto intro: run_invar)
  have "i \<noteq> ident y"
    using l run_del.hyps(2) run_del.prems(3) by auto
  with l show ?case by (simp add: del_lookup [OF inv run_del.hyps(2)])
next
  case (run_fail t es t1 t2)
  then have l: "lookup t1 i = Some x" and inv: "invar t1" by (auto intro: run_invar)
  with l show ?case by (simp add: fail_lookup [OF inv run_fail.hyps(2)])
qed

text \<open>What an identifier finds was entered on the way or was there from the start and never removed.\<close>

lemma run_source:
  assumes "table_run add fail del lookup ident t es t'" and "invar t" and "lookup t' i = Some x"
  shows "Added x \<in> set es \<or> lookup t i = Some x \<and> Removed x \<notin> set es"
  using assms
proof (induction rule: table_run.induct)
  case (run_nil t)
  then show ?case by simp
next
  case (run_add t es t1 y t2 y')
  have inv: "invar t1" using run_add by (blast intro: run_invar)
  show ?case using run_add.IH run_add.prems add_lookup [OF inv run_add.hyps(2), of i] by (auto split: if_splits)
next
  case (run_del t es t1 y)
  have inv: "invar t1" using run_del by (blast intro: run_invar)
  have i: "i \<noteq> ident y" "lookup t1 i = Some x"
    using run_del.prems(2) del_lookup [OF inv run_del.hyps(2), of i] by (auto split: if_splits)
  have "ident x = i" using lookup_ident [OF inv i(2)] .
  then show ?case using run_del.IH [OF run_del.prems(1) i(2)] i(1) by auto
next
  case (run_fail t es t1 t2)
  have inv: "invar t1" using run_fail by (blast intro: run_invar)
  show ?case using run_fail.IH run_fail.prems fail_lookup [OF inv run_fail.hyps(2), of i] by simp
qed

text \<open>What was entered is found, until it is removed; what was removed is not found at once.\<close>

lemma run_add_then_find:
  assumes "invar t" and "add t x t1 x'" and "table_run add fail del lookup ident t1 es t'"
    and "Removed x' \<notin> set es"
  shows "lookup t' (ident x') = Some x'"
  using assms run_stable [OF assms(3) add_invar [OF assms(1,2)]] by (simp add: add_lookup)

end

end
