(* ===== verification/Ipc_Perm.thy ===== *)
theory Ipc_Perm
  imports Kernel_Prelude
begin

text \<open>
  Permissions of System V IPC objects (\<open>ipc/util.c\<close>): the permission record every IPC object
  starts with, the check \<open>ipcperms\<close>, the conversion to the user-visible structure and
  \<open>ipc_update_perm\<close>.

  What the kernel supplies from outside \<open>ipc/\<close> (credentials, capabilities, the security
  module hooks, user-namespace mappings, the clock) is the record \<open>ipc_env\<close>, an argument of
  every definition that uses it.
\<close>

section \<open>The permission record and its environment\<close>

record kern_ipc_perm =
  deleted :: bool
  perm_id :: int
  key :: int
  uid :: nat
  gid :: nat
  cuid :: nat
  cgid :: nat
  mode :: u16
  perm_seq :: int
  refcount :: int

text \<open>
  An IPC object is a record extension of \<open>kern_ipc_perm\<close>, as the C structures embed it, so
  \<open>container_of\<close> is the identity; \<open>perm_of\<close> is the embedded structure alone.
\<close>

definition perm_of :: "'z kern_ipc_perm_scheme \<Rightarrow> kern_ipc_perm" where
  "perm_of = kern_ipc_perm.truncate"

datatype capability = CAP_IPC_OWNER | CAP_SYS_ADMIN | CAP_SYS_RESOURCE | CAP_IPC_LOCK

text \<open>The user-visible permission structure.\<close>

record ipc64_perm =
  p64_key :: int
  p64_uid :: nat
  p64_gid :: nat
  p64_cuid :: nat
  p64_cgid :: nat
  p64_mode :: u32
  p64_seq :: u16

record ipc_env =
  current_euid :: nat
  current_egid :: nat
  current_tgid :: pid
  current_task :: task
  in_group_p :: "nat \<Rightarrow> bool"
  ns_capable :: "capability \<Rightarrow> bool"
  security_ipc_permission :: "kern_ipc_perm \<Rightarrow> u16 \<Rightarrow> errno option"
  make_kuid :: "nat \<Rightarrow> nat option"
  make_kgid :: "nat \<Rightarrow> nat option"
  from_kuid_munged :: "nat \<Rightarrow> nat"
  from_kgid_munged :: "nat \<Rightarrow> nat"
  ktime_get_real_seconds :: int

section \<open>Operations\<close>

text \<open>
  \<open>ipcperms\<close>: the request is folded onto the low three bits, the granted bits are those of
  the class the caller falls in.  The C function returns \<open>-1\<close> when a bit is missing, which is
  \<open>-EPERM\<close>; callers only test for zero.
\<close>

definition ipcperms :: "ipc_env \<Rightarrow> 'z kern_ipc_perm_scheme \<Rightarrow> u16 \<Rightarrow> errno option" where
  "ipcperms env ipcp flag =
     (let euid = current_euid env;
          fl = (scast flag :: u32);
          requested_mode = signed_drop_bit 6 fl OR signed_drop_bit 3 fl OR fl;
          granted_mode = (ucast (mode ipcp) :: u32);
          granted_mode =
            (if euid = cuid ipcp \<or> euid = uid ipcp then signed_drop_bit 6 granted_mode
             else if in_group_p env (cgid ipcp) \<or> in_group_p env (gid ipcp)
               then signed_drop_bit 3 granted_mode
             else granted_mode)
      in if (requested_mode AND NOT granted_mode) AND 7 \<noteq> 0 \<and> \<not> ns_capable env CAP_IPC_OWNER
         then Some EPERM
         else security_ipc_permission env (perm_of ipcp) flag)"

definition kernel_to_ipc64_perm :: "ipc_env \<Rightarrow> 'z kern_ipc_perm_scheme \<Rightarrow> ipc64_perm" where
  "kernel_to_ipc64_perm env inp =
     \<lparr>p64_key = key inp,
      p64_uid = from_kuid_munged env (uid inp),
      p64_gid = from_kgid_munged env (gid inp),
      p64_cuid = from_kuid_munged env (cuid inp),
      p64_cgid = from_kgid_munged env (cgid inp),
      p64_mode = ucast (mode inp),
      p64_seq = word_of_int (perm_seq inp)\<rparr>"

definition ipc_update_perm ::
    "ipc_env \<Rightarrow> ipc64_perm \<Rightarrow> 'z kern_ipc_perm_scheme \<Rightarrow> errno + 'z kern_ipc_perm_scheme" where
  "ipc_update_perm env inp out =
     (case (make_kuid env (p64_uid inp), make_kgid env (p64_gid inp)) of
        (Some u, Some g) \<Rightarrow>
          Inr (out\<lparr>uid := u, gid := g,
                   mode := (mode out AND NOT S_IRWXUGO) OR (ucast (p64_mode inp) AND S_IRWXUGO)\<rparr>)
      | _ \<Rightarrow> Inl EINVAL)"

section \<open>What the permission check decides\<close>

text \<open>
  The access classes of an object as Unix defines them, stated bit by bit: the shift that
  selects the class of the caller, and whether permission bit \<open>b\<close> (0 execute, 1 write,
  2 read) is asked for in any class of the request.
\<close>

definition class_shift :: "ipc_env \<Rightarrow> 'z kern_ipc_perm_scheme \<Rightarrow> nat" where
  "class_shift env ipcp =
     (if current_euid env = cuid ipcp \<or> current_euid env = uid ipcp then 6
      else if in_group_p env (cgid ipcp) \<or> in_group_p env (gid ipcp) then 3 else 0)"

definition asks :: "u16 \<Rightarrow> nat \<Rightarrow> bool" where
  "asks flag b \<longleftrightarrow> bit flag b \<or> bit flag (b + 3) \<or> bit flag (b + 6)"

definition grants :: "ipc_env \<Rightarrow> 'z kern_ipc_perm_scheme \<Rightarrow> nat \<Rightarrow> bool" where
  "grants env ipcp b \<longleftrightarrow> bit (mode ipcp) (b + class_shift env ipcp)"

lemma low_bits_nonzero: "(w :: u32) AND 7 \<noteq> 0 \<longleftrightarrow> (\<exists>b<3. bit w b)"
proof -
  have m: "7 = (mask 3 :: u32)"
    by (simp add: mask_eq_exp_minus_1)
  have "bit (w AND 7) n \<longleftrightarrow> n < 3 \<and> bit w n" for n
    unfolding m by (cases "n < 3") (simp_all add: bit_simps)
  then show ?thesis
    by (metis bit_0_eq bot_apply bot_bool_def bit_eqI)
qed

lemma ipcperms_requested_bit:
  assumes "b < 3"
  shows "bit (signed_drop_bit 6 (scast flag :: u32) OR signed_drop_bit 3 (scast flag) OR scast flag) b
           \<longleftrightarrow> asks flag b"
  using assms by (auto simp add: asks_def bit_simps min_def add.commute)

lemma ipcperms_granted_bit:
  assumes "b < 3" and "s = 0 \<or> s = 3 \<or> s = (6 :: nat)"
  shows "bit (signed_drop_bit s (ucast (m :: u16) :: u32)) b \<longleftrightarrow> bit m (b + s)"
  using assms by (auto simp add: bit_simps min_def add.commute)

lemma ipcperms_missing:
  "((signed_drop_bit 6 (scast flag :: u32) OR signed_drop_bit 3 (scast flag) OR scast flag)
     AND NOT (signed_drop_bit (class_shift env ipcp) (ucast (mode ipcp)))) AND 7 \<noteq> 0 \<longleftrightarrow>
   (\<exists>b<3. asks flag b \<and> \<not> grants env ipcp b)"
proof -
  have s: "class_shift env ipcp = 0 \<or> class_shift env ipcp = 3 \<or> class_shift env ipcp = 6"
    by (simp add: class_shift_def)
  show ?thesis
    unfolding low_bits_nonzero grants_def bit_and_iff
    using ipcperms_granted_bit [OF _ s] by (auto simp add: ipcperms_requested_bit bit_not_iff)
qed

text \<open>
  \<open>ipcperms\<close> refuses a request exactly when some permission bit that the request names in
  any of its three classes is not granted by the class the caller falls in (owner or creator,
  then group, then other) and the caller lacks \<open>CAP_IPC_OWNER\<close>; otherwise the answer is the
  security module's.
\<close>

theorem ipcperms_decides:
  "ipcperms env ipcp flag =
     (if (\<exists>b<3. asks flag b \<and> \<not> grants env ipcp b) \<and> \<not> ns_capable env CAP_IPC_OWNER
      then Some EPERM
      else security_ipc_permission env (perm_of ipcp) flag)"
proof -
  have "ipcperms env ipcp flag =
     (if ((signed_drop_bit 6 (scast flag :: u32) OR signed_drop_bit 3 (scast flag) OR scast flag)
            AND NOT (signed_drop_bit (class_shift env ipcp) (ucast (mode ipcp)))) AND 7 \<noteq> 0
         \<and> \<not> ns_capable env CAP_IPC_OWNER
      then Some EPERM else security_ipc_permission env (perm_of ipcp) flag)"
    by (simp add: ipcperms_def class_shift_def Let_def signed_drop_bit_0)
  then show ?thesis by (simp only: ipcperms_missing)
qed

text \<open>Who may do what: facts the system call handlers rest on.\<close>

lemma perm_of_simps [simp]:
  "uid (perm_of p) = uid p" "gid (perm_of p) = gid p" "cuid (perm_of p) = cuid p"
  "cgid (perm_of p) = cgid p" "mode (perm_of p) = mode p" "key (perm_of p) = key p"
  "perm_id (perm_of p) = perm_id p" "perm_seq (perm_of p) = perm_seq p"
  "deleted (perm_of p) = deleted p" "refcount (perm_of p) = refcount p"
  by (simp_all add: perm_of_def kern_ipc_perm.truncate_def)

lemma ipc_update_perm_frame:
  assumes "ipc_update_perm env inp out = Inr out'"
  shows "cuid out' = cuid out" and "cgid out' = cgid out" and "key out' = key out"
    and "perm_id out' = perm_id out" and "perm_seq out' = perm_seq out"
    and "deleted out' = deleted out" and "kern_ipc_perm.more out' = kern_ipc_perm.more out"
  using assms by (auto simp: ipc_update_perm_def split: option.splits)

end
