(* ===== verification/Ipc_Ids.thy ===== *)
theory Ipc_Ids
  imports Ipc_Perm
begin

text \<open>
  Identifier sets of System V IPC (\<open>ipc/util.c\<close>): allocation of identifiers with their
  sequence numbers, lookup by identifier and by key, removal, and the common part of the
  \<open>*get\<close> and \<open>*ctl\<close> system calls.

  The model is built for the configuration of the port (\<open>arm64_virt_standard_defconfig\<close>):
  \<open>CONFIG_CHECKPOINT_RESTORE\<close> is off, so \<open>next_id\<close> is always \<open>-1\<close>.  The inline functions of
  \<open>ipc/util.h\<close>, which is not part of the repository, are the fields of \<open>ipc_cfg\<close>; what the code
  relies on is \<open>wf_cfg\<close>.  The IDR's choice of an index is the field \<open>idr_alloc_cyclic\<close> of the
  oracle record, its documented behaviour is \<open>idr_alloc_ok\<close>.
\<close>

section \<open>Configuration, oracles and the identifier set\<close>

record ipc_cfg =
  ipc_mni :: int
  ipc_min_cycle :: int
  ipcmni_seq_shift :: nat
  ipcid_seq_max :: int
  ipcid_to_idx :: "int \<Rightarrow> int"
  ipcid_to_seqx :: "int \<Rightarrow> int"
  ipc_checkid :: "kern_ipc_perm \<Rightarrow> int \<Rightarrow> bool"
  ipc_valid_object :: "kern_ipc_perm \<Rightarrow> bool"
  ipc_get_maxidx :: "int \<Rightarrow> int \<Rightarrow> int"

record ipc_oracle =
  idr_alloc_cyclic :: "(int \<Rightarrow> bool) \<Rightarrow> int \<Rightarrow> int \<Rightarrow> errno + int"
  rhashtable_insert_fast :: "errno option"

record 'z ipc_ids =
  in_use :: int
  ids_seq :: int
  max_idx :: int
  last_idx :: int
  ipcs_idr :: "int \<Rightarrow> 'z kern_ipc_perm_scheme option"
  key_ht :: "int \<Rightarrow> int option"

record ipc_params =
  par_key :: int
  par_flg :: u32
  par_nsems :: int

text \<open>
  What \<open>ipc/util.h\<close> promises: an identifier encodes a sequence number and an index, and the
  two inline predicates read the sequence number and the deletion mark.
\<close>

definition wf_cfg :: "ipc_cfg \<Rightarrow> bool" where
  "wf_cfg cfg \<longleftrightarrow>
     0 < ipc_mni cfg \<and> 0 < ipc_min_cycle cfg \<and> 0 < ipcid_seq_max cfg \<and>
     (\<forall>s i. 0 \<le> s \<and> s < ipcid_seq_max cfg \<and> 0 \<le> i \<and> i < ipc_mni cfg \<longrightarrow>
        ipcid_to_idx cfg (s * 2 ^ ipcmni_seq_shift cfg + i) = i \<and>
        ipcid_to_seqx cfg (s * 2 ^ ipcmni_seq_shift cfg + i) = s) \<and>
     (\<forall>i. 0 \<le> i \<longrightarrow> ipcid_to_seqx cfg i * 2 ^ ipcmni_seq_shift cfg + ipcid_to_idx cfg i = i) \<and>
     (\<forall>p i. ipc_checkid cfg p i \<longleftrightarrow> ipcid_to_seqx cfg i \<noteq> perm_seq p) \<and>
     (\<forall>p. ipc_valid_object cfg p \<longleftrightarrow> \<not> deleted p)"

definition idr_alloc_ok :: "ipc_oracle \<Rightarrow> bool" where
  "idr_alloc_ok orc \<longleftrightarrow>
     (\<forall>used lo hi i. idr_alloc_cyclic orc used lo hi = Inr i \<longrightarrow> lo \<le> i \<and> i < hi \<and> \<not> used i)"

section \<open>Operations\<close>

definition ipc_init_ids :: "'z ipc_ids" where
  "ipc_init_ids =
     \<lparr>in_use = 0, ids_seq = 0, max_idx = -1, last_idx = -1,
      ipcs_idr = (\<lambda>_. None), key_ht = (\<lambda>_. None)\<rparr>"

text \<open>The hash table holds the objects with a key; an entry is the index of its object.\<close>

definition ipc_findkey :: "'z ipc_ids \<Rightarrow> int \<Rightarrow> 'z kern_ipc_perm_scheme option" where
  "ipc_findkey ids k = (case key_ht ids k of None \<Rightarrow> None | Some i \<Rightarrow> ipcs_idr ids i)"

definition ipc_idr_alloc ::
    "ipc_cfg \<Rightarrow> ipc_oracle \<Rightarrow> 'z ipc_ids \<Rightarrow> 'z kern_ipc_perm_scheme
       \<Rightarrow> (errno + int) \<times> 'z ipc_ids \<times> 'z kern_ipc_perm_scheme" where
  "ipc_idr_alloc cfg orc ids new =
     (let max_i = max (in_use ids * 3 div 2) (ipc_min_cycle cfg);
          max_i = min max_i (ipc_mni cfg)
      in case idr_alloc_cyclic orc (\<lambda>i. ipcs_idr ids i \<noteq> None) 0 max_i of
           Inl e \<Rightarrow> (Inl e, ids, new)
         | Inr idx \<Rightarrow>
             let ids1 = (if idx \<le> last_idx ids
                         then (let s = ids_seq ids + 1
                               in if s \<ge> ipcid_seq_max cfg then ids\<lparr>ids_seq := 0\<rparr>
                                  else ids\<lparr>ids_seq := s\<rparr>)
                         else ids);
                 ids2 = ids1\<lparr>last_idx := idx\<rparr>;
                 new1 = new\<lparr>perm_seq := ids_seq ids2,
                            perm_id := ids_seq ids2 * 2 ^ ipcmni_seq_shift cfg + idx\<rparr>
             in (Inr idx, ids2\<lparr>ipcs_idr := (ipcs_idr ids2)(idx \<mapsto> new1)\<rparr>, new1))"

definition ipc_addid ::
    "ipc_cfg \<Rightarrow> ipc_env \<Rightarrow> ipc_oracle \<Rightarrow> 'z ipc_ids \<Rightarrow> 'z kern_ipc_perm_scheme \<Rightarrow> int
       \<Rightarrow> (errno + int) \<times> 'z ipc_ids \<times> 'z kern_ipc_perm_scheme" where
  "ipc_addid cfg env orc ids new limit =
     (let new1 = new\<lparr>refcount := 1\<rparr>;
          limit = (if limit > ipc_mni cfg then ipc_mni cfg else limit)
      in if in_use ids \<ge> limit then (Inl ENOSPC, ids, new1)
         else
           let new2 = new1\<lparr>cuid := current_euid env, uid := current_euid env,
                           gid := current_egid env, cgid := current_egid env,
                           deleted := False\<rparr>
           in case ipc_idr_alloc cfg orc ids new2 of
                (Inl e, ids1, new3) \<Rightarrow> (Inl e, ids1, new3\<lparr>deleted := True\<rparr>)
              | (Inr idx, ids1, new3) \<Rightarrow>
                  if key new3 \<noteq> IPC_PRIVATE \<and> rhashtable_insert_fast orc \<noteq> None
                  then (Inl (the (rhashtable_insert_fast orc)),
                        ids1\<lparr>ipcs_idr := (ipcs_idr ids1)(idx := None)\<rparr>,
                        new3\<lparr>deleted := True\<rparr>)
                  else
                    let ids2 = (if key new3 \<noteq> IPC_PRIVATE
                                then ids1\<lparr>key_ht := (key_ht ids1)(key new3 \<mapsto> idx)\<rparr> else ids1);
                        ids3 = ids2\<lparr>in_use := in_use ids2 + 1\<rparr>
                    in (Inr idx,
                        (if idx > max_idx ids3 then ids3\<lparr>max_idx := idx\<rparr> else ids3),
                        new3))"

text \<open>The walk of \<open>ipc_rmid\<close> down to the highest index still in use.\<close>

fun next_lower :: "(int \<Rightarrow> bool) \<Rightarrow> nat \<Rightarrow> int" where
  "next_lower used 0 = -1"
| "next_lower used (Suc n) = (if used (int n) then int n else next_lower used n)"

definition ipc_kht_remove :: "'z ipc_ids \<Rightarrow> 'z kern_ipc_perm_scheme \<Rightarrow> 'z ipc_ids" where
  "ipc_kht_remove ids ipcp =
     (if key ipcp \<noteq> IPC_PRIVATE then ids\<lparr>key_ht := (key_ht ids)(key ipcp := None)\<rparr> else ids)"

definition ipc_rmid ::
    "ipc_cfg \<Rightarrow> 'z ipc_ids \<Rightarrow> 'z kern_ipc_perm_scheme
       \<Rightarrow> 'z ipc_ids \<times> 'z kern_ipc_perm_scheme" where
  "ipc_rmid cfg ids ipcp =
     (let idx = ipcid_to_idx cfg (perm_id ipcp);
          ids1 = ids\<lparr>ipcs_idr := (ipcs_idr ids)(idx := None)\<rparr>;
          ids2 = ipc_kht_remove ids1 ipcp;
          ids3 = ids2\<lparr>in_use := in_use ids2 - 1\<rparr>;
          ids4 = (if idx = max_idx ids3
                  then ids3\<lparr>max_idx := next_lower (\<lambda>i. ipcs_idr ids3 i \<noteq> None) (nat idx)\<rparr>
                  else ids3)
      in (ids4, ipcp\<lparr>deleted := True\<rparr>))"

text \<open>The object stays in the set under its index; only its key changes.\<close>

definition ipc_set_key_private ::
    "ipc_cfg \<Rightarrow> 'z ipc_ids \<Rightarrow> 'z kern_ipc_perm_scheme \<Rightarrow> 'z ipc_ids \<times> 'z kern_ipc_perm_scheme" where
  "ipc_set_key_private cfg ids ipcp =
     (let ids1 = ipc_kht_remove ids ipcp;
          ipcp1 = ipcp\<lparr>key := IPC_PRIVATE\<rparr>
      in (ids1\<lparr>ipcs_idr := (ipcs_idr ids1)(ipcid_to_idx cfg (perm_id ipcp) \<mapsto> ipcp1)\<rparr>, ipcp1))"

definition ipc_rcu_getref :: "'z kern_ipc_perm_scheme \<Rightarrow> bool \<times> 'z kern_ipc_perm_scheme" where
  "ipc_rcu_getref ptr =
     (if refcount ptr = 0 then (False, ptr) else (True, ptr\<lparr>refcount := refcount ptr + 1\<rparr>))"

text \<open>The flag says whether the object is handed to \<open>call_rcu\<close> for freeing.\<close>

definition ipc_rcu_putref :: "'z kern_ipc_perm_scheme \<Rightarrow> bool \<times> 'z kern_ipc_perm_scheme" where
  "ipc_rcu_putref ptr =
     (let r = refcount ptr - 1 in (r = 0, ptr\<lparr>refcount := r\<rparr>))"

definition ipc_obtain_object_idr ::
    "ipc_cfg \<Rightarrow> 'z ipc_ids \<Rightarrow> int \<Rightarrow> errno + 'z kern_ipc_perm_scheme" where
  "ipc_obtain_object_idr cfg ids i =
     (case ipcs_idr ids (ipcid_to_idx cfg i) of None \<Rightarrow> Inl EINVAL | Some out \<Rightarrow> Inr out)"

definition ipc_obtain_object_check ::
    "ipc_cfg \<Rightarrow> 'z ipc_ids \<Rightarrow> int \<Rightarrow> errno + 'z kern_ipc_perm_scheme" where
  "ipc_obtain_object_check cfg ids i =
     (case ipc_obtain_object_idr cfg ids i of
        Inl e \<Rightarrow> Inl e
      | Inr out \<Rightarrow> if ipc_checkid cfg (perm_of out) i then Inl EINVAL else Inr out)"

text \<open>
  The creation routine, the security check and the extra checks of the caller are
  arguments, as the members of \<open>struct ipc_ops\<close>; \<open>ids_of\<close> selects the identifier set in
  the namespace.
\<close>

definition ipcget_new ::
    "('ns \<Rightarrow> ipc_params \<Rightarrow> (errno + int) \<times> 'ns) \<Rightarrow> 'ns \<Rightarrow> ipc_params \<Rightarrow> (errno + int) \<times> 'ns" where
  "ipcget_new getnew ns params = getnew ns params"

definition ipc_check_perms ::
    "ipc_env \<Rightarrow> ('z kern_ipc_perm_scheme \<Rightarrow> u32 \<Rightarrow> errno option)
       \<Rightarrow> 'z kern_ipc_perm_scheme \<Rightarrow> ipc_params \<Rightarrow> errno + int" where
  "ipc_check_perms env associate ipcp params =
     (if ipcperms env ipcp (ucast (par_flg params)) \<noteq> None then Inl EACCES
      else case associate ipcp (par_flg params) of
             Some e \<Rightarrow> Inl e
           | None \<Rightarrow> Inr (perm_id ipcp))"

definition ipcget_public ::
    "ipc_env \<Rightarrow> ('ns \<Rightarrow> 'z ipc_ids) \<Rightarrow> ('ns \<Rightarrow> ipc_params \<Rightarrow> (errno + int) \<times> 'ns)
       \<Rightarrow> ('z kern_ipc_perm_scheme \<Rightarrow> u32 \<Rightarrow> errno option)
       \<Rightarrow> ('z kern_ipc_perm_scheme \<Rightarrow> ipc_params \<Rightarrow> errno option) option
       \<Rightarrow> 'ns \<Rightarrow> ipc_params \<Rightarrow> (errno + int) \<times> 'ns" where
  "ipcget_public env ids_of getnew associate more_checks ns params =
     (let flg = par_flg params
      in case ipc_findkey (ids_of ns) (par_key params) of
           None \<Rightarrow>
             if \<not> has_flag flg IPC_CREAT then (Inl ENOENT, ns) else getnew ns params
         | Some ipcp \<Rightarrow>
             if has_flag flg IPC_CREAT \<and> has_flag flg IPC_EXCL then (Inl EEXIST, ns)
             else case (case more_checks of None \<Rightarrow> None | Some chk \<Rightarrow> chk ipcp params) of
                    Some e \<Rightarrow> (Inl e, ns)
                  | None \<Rightarrow> (ipc_check_perms env associate ipcp params, ns))"

definition ipcget ::
    "ipc_env \<Rightarrow> ('ns \<Rightarrow> 'z ipc_ids) \<Rightarrow> ('ns \<Rightarrow> ipc_params \<Rightarrow> (errno + int) \<times> 'ns)
       \<Rightarrow> ('z kern_ipc_perm_scheme \<Rightarrow> u32 \<Rightarrow> errno option)
       \<Rightarrow> ('z kern_ipc_perm_scheme \<Rightarrow> ipc_params \<Rightarrow> errno option) option
       \<Rightarrow> 'ns \<Rightarrow> ipc_params \<Rightarrow> (errno + int) \<times> 'ns" where
  "ipcget env ids_of getnew associate more_checks ns params =
     (if par_key params = IPC_PRIVATE then ipcget_new getnew ns params
      else ipcget_public env ids_of getnew associate more_checks ns params)"

definition ipcctl_obtain_check ::
    "ipc_cfg \<Rightarrow> ipc_env \<Rightarrow> 'z ipc_ids \<Rightarrow> int \<Rightarrow> errno + 'z kern_ipc_perm_scheme" where
  "ipcctl_obtain_check cfg env ids i =
     (case ipc_obtain_object_check cfg ids i of
        Inl e \<Rightarrow> Inl e
      | Inr ipcp \<Rightarrow>
          if current_euid env = cuid ipcp \<or> current_euid env = uid ipcp
             \<or> ns_capable env CAP_SYS_ADMIN
          then Inr ipcp else Inl EPERM)"

section \<open>The invariant of an identifier set\<close>

text \<open>
  The set holds as many objects as \<open>in_use\<close> says, every object sits at the index its
  identifier encodes, \<open>max_idx\<close> is the highest index in use, and the key table is exactly the
  objects that have a key.
\<close>

definition obj_ok :: "ipc_cfg \<Rightarrow> int \<Rightarrow> 'z kern_ipc_perm_scheme \<Rightarrow> bool" where
  "obj_ok cfg i p \<longleftrightarrow>
     0 \<le> i \<and> i < ipc_mni cfg \<and> 0 \<le> perm_seq p \<and> perm_seq p < ipcid_seq_max cfg \<and>
     perm_id p = perm_seq p * 2 ^ ipcmni_seq_shift cfg + i \<and> \<not> deleted p"

definition ids_inv :: "ipc_cfg \<Rightarrow> 'z ipc_ids \<Rightarrow> bool" where
  "ids_inv cfg ids \<longleftrightarrow>
     finite (dom (ipcs_idr ids)) \<and>
     in_use ids = int (card (dom (ipcs_idr ids))) \<and>
     0 \<le> ids_seq ids \<and> ids_seq ids < ipcid_seq_max cfg \<and>
     (\<forall>i p. ipcs_idr ids i = Some p \<longrightarrow> obj_ok cfg i p \<and> i \<le> max_idx ids) \<and>
     (if dom (ipcs_idr ids) = {} then max_idx ids = -1 else max_idx ids \<in> dom (ipcs_idr ids)) \<and>
     (\<forall>k i. key_ht ids k = Some i \<longleftrightarrow>
        k \<noteq> IPC_PRIVATE \<and> (\<exists>p. ipcs_idr ids i = Some p \<and> key p = k))"

lemma ids_inv_init: "wf_cfg cfg \<Longrightarrow> ids_inv cfg ipc_init_ids"
  by (simp add: ids_inv_def ipc_init_ids_def wf_cfg_def)

lemma obj_ok_decode:
  assumes "wf_cfg cfg" and "obj_ok cfg i p"
  shows "ipcid_to_idx cfg (perm_id p) = i" and "ipcid_to_seqx cfg (perm_id p) = perm_seq p"
  using assms by (auto simp: wf_cfg_def obj_ok_def)

lemma ids_invD:
  assumes "ids_inv cfg ids" and "ipcs_idr ids i = Some p"
  shows "obj_ok cfg i p" and "i \<le> max_idx ids"
  using assms by (auto simp: ids_inv_def)

lemma key_ht_iff:
  "ids_inv cfg ids \<Longrightarrow> key_ht ids k = Some i \<longleftrightarrow>
     k \<noteq> IPC_PRIVATE \<and> (\<exists>p. ipcs_idr ids i = Some p \<and> key p = k)"
  by (simp add: ids_inv_def)

lemma ipc_findkey_iff:
  assumes "ids_inv cfg ids"
  shows "ipc_findkey ids k = Some p \<longleftrightarrow>
           k \<noteq> IPC_PRIVATE \<and> key p = k \<and> (\<exists>i. ipcs_idr ids i = Some p)"
proof
  assume "ipc_findkey ids k = Some p"
  then obtain i where "key_ht ids k = Some i" and "ipcs_idr ids i = Some p"
    by (auto simp: ipc_findkey_def split: option.splits)
  with key_ht_iff [OF assms, of k i] show "k \<noteq> IPC_PRIVATE \<and> key p = k \<and> (\<exists>i. ipcs_idr ids i = Some p)"
    by auto
next
  assume "k \<noteq> IPC_PRIVATE \<and> key p = k \<and> (\<exists>i. ipcs_idr ids i = Some p)"
  then obtain i where "k \<noteq> IPC_PRIVATE" "key p = k" and i: "ipcs_idr ids i = Some p" by blast
  then have "key_ht ids k = Some i" by (simp add: key_ht_iff [OF assms])
  with i show "ipc_findkey ids k = Some p" by (simp add: ipc_findkey_def)
qed

lemma ipc_findkey_None:
  assumes "ids_inv cfg ids"
  shows "ipc_findkey ids k = None \<longleftrightarrow> key_ht ids k = None"
proof
  assume fk: "ipc_findkey ids k = None"
  show "key_ht ids k = None"
  proof (rule ccontr)
    assume "key_ht ids k \<noteq> None"
    then obtain i where i: "key_ht ids k = Some i" by blast
    then obtain p where "ipcs_idr ids i = Some p" using key_ht_iff [OF assms] by blast
    with i fk show False by (simp add: ipc_findkey_def)
  qed
qed (simp add: ipc_findkey_def)

subsection \<open>Lookup\<close>

lemma ipc_obtain_object_check_iff:
  assumes "wf_cfg cfg" and "ids_inv cfg ids"
  shows "ipc_obtain_object_check cfg ids i = Inr p \<longleftrightarrow>
           ipcs_idr ids (ipcid_to_idx cfg i) = Some p \<and> ipcid_to_seqx cfg i = perm_seq p"
  using assms
  by (auto simp: ipc_obtain_object_check_def ipc_obtain_object_idr_def wf_cfg_def
      split: option.splits if_splits)

lemma ipc_obtain_object_check_err:
  "ipc_obtain_object_check cfg ids i = Inl e \<Longrightarrow> e = EINVAL"
  by (auto simp: ipc_obtain_object_check_def ipc_obtain_object_idr_def
      split: option.splits if_splits)

lemma obtain_own_id:
  assumes "wf_cfg cfg" and "ids_inv cfg ids" and "ipcs_idr ids i = Some p"
  shows "ipc_obtain_object_check cfg ids (perm_id p) = Inr p"
  using assms ids_invD(1) [OF assms(2,3)]
  by (simp add: ipc_obtain_object_check_iff obj_ok_decode)

subsection \<open>Updating an object in place\<close>

text \<open>A handler changes an object it has looked up; its identity fields stay as they are.\<close>

definition put_obj :: "'z ipc_ids \<Rightarrow> int \<Rightarrow> 'z kern_ipc_perm_scheme \<Rightarrow> 'z ipc_ids" where
  "put_obj ids idx p = ids\<lparr>ipcs_idr := (ipcs_idr ids)(idx \<mapsto> p)\<rparr>"

definition same_identity :: "'z kern_ipc_perm_scheme \<Rightarrow> 'z kern_ipc_perm_scheme \<Rightarrow> bool" where
  "same_identity p q \<longleftrightarrow>
     perm_id p = perm_id q \<and> perm_seq p = perm_seq q \<and> key p = key q \<and> deleted p = deleted q"

lemma ids_invI:
  assumes "finite (dom (ipcs_idr ids))" and "in_use ids = int (card (dom (ipcs_idr ids)))"
    and "0 \<le> ids_seq ids" and "ids_seq ids < ipcid_seq_max cfg"
    and "\<And>i p. ipcs_idr ids i = Some p \<Longrightarrow> obj_ok cfg i p"
    and "\<And>i p. ipcs_idr ids i = Some p \<Longrightarrow> i \<le> max_idx ids"
    and "if dom (ipcs_idr ids) = {} then max_idx ids = -1 else max_idx ids \<in> dom (ipcs_idr ids)"
    and "\<And>k i. key_ht ids k = Some i \<longleftrightarrow>
           k \<noteq> IPC_PRIVATE \<and> (\<exists>p. ipcs_idr ids i = Some p \<and> key p = k)"
  shows "ids_inv cfg ids"
  unfolding ids_inv_def using assms by blast

lemma ids_invE:
  assumes "ids_inv cfg ids"
  shows "finite (dom (ipcs_idr ids))" and "in_use ids = int (card (dom (ipcs_idr ids)))"
    and "0 \<le> ids_seq ids" and "ids_seq ids < ipcid_seq_max cfg"
    and "if dom (ipcs_idr ids) = {} then max_idx ids = -1 else max_idx ids \<in> dom (ipcs_idr ids)"
  using assms by (simp_all add: ids_inv_def)

lemma ids_inv_put_obj:
  assumes inv: "ids_inv cfg ids" and at: "ipcs_idr ids idx = Some p" and same: "same_identity q p"
  shows "ids_inv cfg (put_obj ids idx q)"
proof (rule ids_invI)
  have d: "dom (ipcs_idr (put_obj ids idx q)) = dom (ipcs_idr ids)"
    using at by (auto simp: put_obj_def)
  note e = ids_invE [OF inv]
  show "finite (dom (ipcs_idr (put_obj ids idx q)))"
    and "in_use (put_obj ids idx q) = int (card (dom (ipcs_idr (put_obj ids idx q))))"
    and "if dom (ipcs_idr (put_obj ids idx q)) = {} then max_idx (put_obj ids idx q) = -1
         else max_idx (put_obj ids idx q) \<in> dom (ipcs_idr (put_obj ids idx q))"
    using e unfolding d by (simp_all add: put_obj_def)
  show "0 \<le> ids_seq (put_obj ids idx q)" and "ids_seq (put_obj ids idx q) < ipcid_seq_max cfg"
    using e by (simp_all add: put_obj_def)
next
  fix i r assume r: "ipcs_idr (put_obj ids idx q) i = Some r"
  show "obj_ok cfg i r"
    using r ids_invD(1) [OF inv at] ids_invD(1) [OF inv, of i r] same
    by (auto simp: put_obj_def obj_ok_def same_identity_def split: if_splits)
  show "i \<le> max_idx (put_obj ids idx q)"
    using r ids_invD(2) [OF inv at] ids_invD(2) [OF inv, of i r]
    by (auto simp: put_obj_def split: if_splits)
next
  fix k i
  show "key_ht (put_obj ids idx q) k = Some i \<longleftrightarrow>
          k \<noteq> IPC_PRIVATE \<and> (\<exists>r. ipcs_idr (put_obj ids idx q) i = Some r \<and> key r = k)"
    using at same key_ht_iff [OF inv, of k i] by (auto simp: put_obj_def same_identity_def)
qed

subsection \<open>Adding an identifier\<close>

definition bump_seq :: "ipc_cfg \<Rightarrow> 'z ipc_ids \<Rightarrow> int \<Rightarrow> int" where
  "bump_seq cfg ids idx =
     (if idx \<le> last_idx ids
      then if ids_seq ids + 1 \<ge> ipcid_seq_max cfg then 0 else ids_seq ids + 1
      else ids_seq ids)"

definition stamped :: "ipc_cfg \<Rightarrow> 'z ipc_ids \<Rightarrow> int \<Rightarrow> 'z kern_ipc_perm_scheme \<Rightarrow> 'z kern_ipc_perm_scheme" where
  "stamped cfg ids idx new =
     new\<lparr>perm_seq := bump_seq cfg ids idx,
         perm_id := bump_seq cfg ids idx * 2 ^ ipcmni_seq_shift cfg + idx\<rparr>"

lemma bump_seq_range:
  "ids_inv cfg ids \<Longrightarrow> 0 \<le> bump_seq cfg ids idx \<and> bump_seq cfg ids idx < ipcid_seq_max cfg"
  by (auto simp: ids_inv_def bump_seq_def)

lemma ipc_idr_alloc_Inr:
  assumes "ipc_idr_alloc cfg orc ids new = (Inr idx, ids', new')" and "idr_alloc_ok orc"
  shows "ipcs_idr ids idx = None" and "0 \<le> idx" and "idx < ipc_mni cfg"
    and "new' = stamped cfg ids idx new"
    and "ids' = ids\<lparr>ids_seq := bump_seq cfg ids idx, last_idx := idx,
                    ipcs_idr := (ipcs_idr ids)(idx \<mapsto> stamped cfg ids idx new)\<rparr>"
proof -
  let ?hi = "min (max (in_use ids * 3 div 2) (ipc_min_cycle cfg)) (ipc_mni cfg)"
  have a: "idr_alloc_cyclic orc (\<lambda>i. ipcs_idr ids i \<noteq> None) 0 ?hi = Inr idx"
    using assms(1) by (simp add: ipc_idr_alloc_def Let_def split: sum.splits)
  with assms(2) have "0 \<le> idx \<and> idx < ?hi \<and> \<not> ipcs_idr ids idx \<noteq> None"
    unfolding idr_alloc_ok_def by blast
  then show "ipcs_idr ids idx = None" and "0 \<le> idx" and "idx < ipc_mni cfg"
    by auto
  from assms(1) a show "new' = stamped cfg ids idx new"
    and "ids' = ids\<lparr>ids_seq := bump_seq cfg ids idx, last_idx := idx,
                    ipcs_idr := (ipcs_idr ids)(idx \<mapsto> stamped cfg ids idx new)\<rparr>"
    by (auto simp: ipc_idr_alloc_def Let_def bump_seq_def stamped_def split: if_splits)
qed

lemma ipc_idr_alloc_Inl:
  "ipc_idr_alloc cfg orc ids new = (Inl e, ids', new') \<Longrightarrow> ids' = ids \<and> new' = new"
  by (simp add: ipc_idr_alloc_def Let_def split: sum.splits)

text \<open>The object as \<open>ipc_addid\<close> sets it up before it gets an identifier.\<close>

definition fresh_perm :: "ipc_env \<Rightarrow> 'z kern_ipc_perm_scheme \<Rightarrow> 'z kern_ipc_perm_scheme" where
  "fresh_perm env new =
     new\<lparr>refcount := 1, cuid := current_euid env, uid := current_euid env,
         gid := current_egid env, cgid := current_egid env, deleted := False\<rparr>"

lemma ipc_addid_Inr:
  assumes "ipc_addid cfg env orc ids new limit = (Inr idx, ids', new')" and "idr_alloc_ok orc"
  shows "ipcs_idr ids idx = None" and "0 \<le> idx" and "idx < ipc_mni cfg"
    and "in_use ids < limit" and "in_use ids < ipc_mni cfg"
    and "new' = stamped cfg ids idx (fresh_perm env new)"
    and "ids' = ids\<lparr>ids_seq := bump_seq cfg ids idx, last_idx := idx,
           ipcs_idr := (ipcs_idr ids)(idx \<mapsto> new'),
           key_ht := (if key new \<noteq> IPC_PRIVATE then (key_ht ids)(key new \<mapsto> idx) else key_ht ids),
           in_use := in_use ids + 1, max_idx := max idx (max_idx ids)\<rparr>"
proof -
  have lim: "\<not> in_use ids \<ge> (if limit > ipc_mni cfg then ipc_mni cfg else limit)"
    using assms(1) by (auto simp: ipc_addid_def Let_def)
  then show "in_use ids < limit" and "in_use ids < ipc_mni cfg" by (auto split: if_splits)
  obtain ids1 new3 where a: "ipc_idr_alloc cfg orc ids (fresh_perm env new) = (Inr idx, ids1, new3)"
    using assms(1) lim
    by (auto simp: ipc_addid_def Let_def fresh_perm_def split: prod.splits sum.splits if_splits)
  note f = ipc_idr_alloc_Inr [OF a assms(2)]
  show "ipcs_idr ids idx = None" and "0 \<le> idx" and "idx < ipc_mni cfg" by (rule f)+
  have k: "key new3 = key new" by (simp add: f(4) stamped_def fresh_perm_def)
  from assms(1) lim a have n: "new' = new3 \<and> (key new = IPC_PRIVATE \<or> rhashtable_insert_fast orc = None)"
    by (auto simp: ipc_addid_def Let_def fresh_perm_def k split: if_splits)
  then show new': "new' = stamped cfg ids idx (fresh_perm env new)" by (simp add: f(4))
  from assms(1) lim a n show "ids' = ids\<lparr>ids_seq := bump_seq cfg ids idx, last_idx := idx,
           ipcs_idr := (ipcs_idr ids)(idx \<mapsto> new'),
           key_ht := (if key new \<noteq> IPC_PRIVATE then (key_ht ids)(key new \<mapsto> idx) else key_ht ids),
           in_use := in_use ids + 1, max_idx := max idx (max_idx ids)\<rparr>"
    by (auto simp: ipc_addid_def Let_def fresh_perm_def k f(5) new' max_def split: if_splits)
qed

lemma ids_inv_seq:
  "ids_inv cfg ids \<Longrightarrow> 0 \<le> s \<Longrightarrow> s < ipcid_seq_max cfg \<Longrightarrow>
     ids_inv cfg (ids\<lparr>ids_seq := s, last_idx := l\<rparr>)"
  by (simp add: ids_inv_def)

lemma ids_inv_enter:
  assumes inv: "ids_inv cfg ids" and free: "ipcs_idr ids idx = None"
    and ok: "obj_ok cfg idx p" and nokey: "key p = IPC_PRIVATE \<or> key_ht ids (key p) = None"
  shows "ids_inv cfg (ids\<lparr>ipcs_idr := (ipcs_idr ids)(idx \<mapsto> p),
           key_ht := (if key p \<noteq> IPC_PRIVATE then (key_ht ids)(key p \<mapsto> idx) else key_ht ids),
           in_use := in_use ids + 1, max_idx := max idx (max_idx ids)\<rparr>)"
    (is "ids_inv cfg ?n")
proof (rule ids_invI)
  note e = ids_invE [OF inv]
  have d: "dom (ipcs_idr ?n) = insert idx (dom (ipcs_idr ids))" by auto
  have nd: "idx \<notin> dom (ipcs_idr ids)" using free by auto
  show "finite (dom (ipcs_idr ?n))" and "in_use ?n = int (card (dom (ipcs_idr ?n)))"
    unfolding d using e nd by simp_all
  show "0 \<le> ids_seq ?n" and "ids_seq ?n < ipcid_seq_max cfg" using e by simp_all
  have "idx \<ge> 0" using ok by (simp add: obj_ok_def)
  then show "if dom (ipcs_idr ?n) = {} then max_idx ?n = -1 else max_idx ?n \<in> dom (ipcs_idr ?n)"
    unfolding d using e(5) by (auto simp: max_def split: if_splits)
next
  fix i r assume "ipcs_idr ?n i = Some r"
  then consider "i = idx" "r = p" | "i \<noteq> idx" "ipcs_idr ids i = Some r"
    by (auto split: if_splits)
  then show "obj_ok cfg i r" and "i \<le> max_idx ?n"
    using ok ids_invD [OF inv, of i r] by (cases; simp)+
next
  fix k i
  show "key_ht ?n k = Some i \<longleftrightarrow> k \<noteq> IPC_PRIVATE \<and> (\<exists>r. ipcs_idr ?n i = Some r \<and> key r = k)"
    using nokey free key_ht_iff [OF inv, of k i] key_ht_iff [OF inv, of k idx]
    by (cases "i = idx") (auto split: if_splits)
qed

lemma ipc_addid_inv:
  assumes "wf_cfg cfg" and "idr_alloc_ok orc" and inv: "ids_inv cfg ids"
    and nokey: "key new = IPC_PRIVATE \<or> ipc_findkey ids (key new) = None"
    and add: "ipc_addid cfg env orc ids new limit = (Inr idx, ids', new')"
  shows "ids_inv cfg ids'" and "obj_ok cfg idx new'"
proof -
  note f = ipc_addid_Inr [OF add assms(2)]
  let ?i1 = "ids\<lparr>ids_seq := bump_seq cfg ids idx, last_idx := idx\<rparr>"
  have i1: "ids_inv cfg ?i1"
    using bump_seq_range [OF inv] by (intro ids_inv_seq [OF inv]) auto
  show ok: "obj_ok cfg idx new'"
    using f(2,3) bump_seq_range [OF inv, of idx]
    by (simp add: obj_ok_def f(6) stamped_def fresh_perm_def)
  have k: "key new' = key new" by (simp add: f(6) stamped_def fresh_perm_def)
  have "key new' = IPC_PRIVATE \<or> key_ht ?i1 (key new') = None"
    using nokey ipc_findkey_None [OF inv] by (simp add: k)
  from ids_inv_enter [OF i1 _ ok this] f(1) show "ids_inv cfg ids'"
    by (cases "key new = IPC_PRIVATE") (simp_all add: f(7) k)
qed

lemma ipc_addid_Inl:
  assumes "ipc_addid cfg env orc ids new limit = (Inl e, ids', new')" and "idr_alloc_ok orc"
  shows "ipcs_idr ids' = ipcs_idr ids" and "key_ht ids' = key_ht ids"
    and "in_use ids' = in_use ids" and "max_idx ids' = max_idx ids"
    and "\<exists>s l. (s = ids_seq ids \<or> s = bump_seq cfg ids l) \<and> ids_seq ids' = s"
    and "ids' = ids \<or> (\<exists>l. ids_seq ids' = bump_seq cfg ids l \<and> last_idx ids' = l)"
proof -
  consider "ids' = ids" | ids1 new3 idx
    where "ipc_idr_alloc cfg orc ids (fresh_perm env new) = (Inr idx, ids1, new3)"
      and "ids' = ids1\<lparr>ipcs_idr := (ipcs_idr ids1)(idx := None)\<rparr>"
    using assms(1) ipc_idr_alloc_Inl
    by (fastforce simp: ipc_addid_def Let_def fresh_perm_def split: prod.splits sum.splits if_splits)
  then have "ids' = ids \<or> (\<exists>l. ids' = ids\<lparr>ids_seq := bump_seq cfg ids l, last_idx := l\<rparr>)"
  proof cases
    case 2
    note f = ipc_idr_alloc_Inr [OF 2(1) assms(2)]
    have "(ipcs_idr ids)(idx := None) = ipcs_idr ids" using f(1) by auto
    with 2(2) f(5) show ?thesis by auto
  qed simp
  then show "ipcs_idr ids' = ipcs_idr ids" and "key_ht ids' = key_ht ids"
    and "in_use ids' = in_use ids" and "max_idx ids' = max_idx ids"
    and "\<exists>s l. (s = ids_seq ids \<or> s = bump_seq cfg ids l) \<and> ids_seq ids' = s"
    and "ids' = ids \<or> (\<exists>l. ids_seq ids' = bump_seq cfg ids l \<and> last_idx ids' = l)"
    by auto
qed

lemma ipc_addid_Inl_inv:
  assumes "ids_inv cfg ids" and "idr_alloc_ok orc"
    and "ipc_addid cfg env orc ids new limit = (Inl e, ids', new')"
  shows "ids_inv cfg ids'"
proof -
  note f = ipc_addid_Inl [OF assms(3,2)]
  from f(5) bump_seq_range [OF assms(1)] assms(1)
  have "0 \<le> ids_seq ids' \<and> ids_seq ids' < ipcid_seq_max cfg"
    by (auto simp: ids_inv_def)
  with assms(1) f(1-4) show ?thesis by (simp add: ids_inv_def)
qed

subsection \<open>Removing an identifier\<close>

lemma next_lower_none: "(\<forall>m<n. \<not> used (int m)) \<Longrightarrow> next_lower used n = -1"
  by (induction n) auto

lemma next_lower_found:
  assumes "m < n" and "used (int m)"
  shows "used (next_lower used n)" and "int m \<le> next_lower used n" and "next_lower used n < int n"
  using assms by (induction n) (auto simp: less_Suc_eq)

lemma ids_inv_rmid:
  assumes cfg: "wf_cfg cfg" and inv: "ids_inv cfg ids"
    and at: "ipcs_idr ids (ipcid_to_idx cfg (perm_id p)) = Some p"
    and rm: "ipc_rmid cfg ids p = (ids', p')"
  shows "ids_inv cfg ids'" and "ipcs_idr ids' = (ipcs_idr ids)(ipcid_to_idx cfg (perm_id p) := None)"
    and "key_ht ids' = (if key p = IPC_PRIVATE then key_ht ids else (key_ht ids)(key p := None))"
    and "p' = p\<lparr>deleted := True\<rparr>"
proof -
  let ?x = "ipcid_to_idx cfg (perm_id p)"
  note e = ids_invE [OF inv]
  have ids': "ids' = ids\<lparr>ipcs_idr := (ipcs_idr ids)(?x := None),
      key_ht := (if key p = IPC_PRIVATE then key_ht ids else (key_ht ids)(key p := None)),
      in_use := in_use ids - 1,
      max_idx := (if ?x = max_idx ids
        then next_lower (\<lambda>i. ((ipcs_idr ids)(?x := None)) i \<noteq> None) (nat ?x) else max_idx ids)\<rparr>"
    using rm by (auto simp: ipc_rmid_def ipc_kht_remove_def Let_def)
  then show idr: "ipcs_idr ids' = (ipcs_idr ids)(?x := None)"
    and kht: "key_ht ids' = (if key p = IPC_PRIVATE then key_ht ids else (key_ht ids)(key p := None))"
    by simp_all
  show "p' = p\<lparr>deleted := True\<rparr>" using rm by (simp add: ipc_rmid_def Let_def)
  have x: "?x \<in> dom (ipcs_idr ids)" "0 \<le> ?x"
    using at ids_invD(1) [OF inv at] by (auto simp: obj_ok_def)
  have d: "dom (ipcs_idr ids') = dom (ipcs_idr ids) - {?x}" by (simp add: idr)
  have c: "card (dom (ipcs_idr ids) - {?x}) + 1 = card (dom (ipcs_idr ids))"
    using card_Suc_Diff1 [OF e(1) x(1)] by simp
  define used where "used = (\<lambda>i. ((ipcs_idr ids)(?x := None)) i \<noteq> None)"
  have below: "0 \<le> i \<and> i < ?x" if "used i" and "?x = max_idx ids" for i
  proof -
    from that obtain r where "ipcs_idr ids i = Some r" and "i \<noteq> ?x"
      by (auto simp: used_def split: if_splits)
    with ids_invD [OF inv this(1)] that(2) show ?thesis by (auto simp: obj_ok_def)
  qed
  have nl: "used (next_lower used (nat ?x)) \<and> i \<le> next_lower used (nat ?x)"
    if "used i" and "?x = max_idx ids" for i
    using below [OF that] next_lower_found [of "nat i" "nat ?x" used] that(1) by auto
  have nn: "next_lower used (nat ?x) = -1" if "\<forall>i. \<not> used i"
    using that by (intro next_lower_none) auto
  show "ids_inv cfg ids'"
  proof (rule ids_invI)
    show "finite (dom (ipcs_idr ids'))" and "in_use ids' = int (card (dom (ipcs_idr ids')))"
      unfolding d using e c by (simp_all add: ids')
    show "0 \<le> ids_seq ids'" and "ids_seq ids' < ipcid_seq_max cfg" using e by (simp_all add: ids')
    show "if dom (ipcs_idr ids') = {} then max_idx ids' = -1 else max_idx ids' \<in> dom (ipcs_idr ids')"
    proof (cases "?x = max_idx ids")
      case True
      then have m: "max_idx ids' = next_lower used (nat ?x)" by (simp add: ids' used_def)
      have dd: "dom (ipcs_idr ids') = {i. used i}" by (simp add: idr dom_def used_def)
      show ?thesis unfolding m dd using nl [OF _ True] nn by auto
    next
      case False
      then have "max_idx ids' = max_idx ids" by (simp add: ids')
      with False e(5) x(1) show ?thesis unfolding d by (auto split: if_splits)
    qed
  next
    fix i r assume r: "ipcs_idr ids' i = Some r"
    then have r': "ipcs_idr ids i = Some r" "used i" "i \<noteq> ?x" by (auto simp: idr used_def split: if_splits)
    show "obj_ok cfg i r" using ids_invD(1) [OF inv r'(1)] .
    show "i \<le> max_idx ids'"
      using ids_invD(2) [OF inv r'(1)] nl [OF r'(2)]
      by (cases "?x = max_idx ids") (simp_all add: ids' used_def)
  next
    fix k i
    note at_k = key_ht_iff [OF inv, of k i]
    show "key_ht ids' k = Some i \<longleftrightarrow> k \<noteq> IPC_PRIVATE \<and> (\<exists>r. ipcs_idr ids' i = Some r \<and> key r = k)"
    proof (cases "k = key p \<and> k \<noteq> IPC_PRIVATE")
      case True
      then have "key_ht ids k = Some ?x" using at by (simp add: key_ht_iff [OF inv])
      with at_k True have "i = ?x" if "ipcs_idr ids i = Some r" "key r = k" for r
        using that by auto
      with True show ?thesis by (auto simp: kht idr)
    next
      case False
      then have l: "key_ht ids' k = key_ht ids k" by (auto simp: kht)
      show ?thesis
      proof (cases "i = ?x")
        case True
        with False at_k at show ?thesis unfolding l by (auto simp: idr)
      next
        case i: False
        with at_k show ?thesis unfolding l by (simp add: idr)
      qed
    qed
  qed
qed


section \<open>The identifier set as an object table\<close>

text \<open>
  The operations a component sees: lookup by a non-negative identifier, entering an object
  whose key is not taken, and removal of an object that is in the set.
\<close>

definition find_id :: "ipc_cfg \<Rightarrow> 'z ipc_ids \<Rightarrow> int \<Rightarrow> 'z kern_ipc_perm_scheme option" where
  "find_id cfg ids i =
     (if i < 0 then None
      else case ipc_obtain_object_check cfg ids i of Inl _ \<Rightarrow> None | Inr p \<Rightarrow> Some p)"

definition adds ::
    "ipc_cfg \<Rightarrow> ipc_env \<Rightarrow> ipc_oracle \<Rightarrow> int \<Rightarrow> 'z ipc_ids \<Rightarrow> 'z kern_ipc_perm_scheme
       \<Rightarrow> 'z ipc_ids \<Rightarrow> 'z kern_ipc_perm_scheme \<Rightarrow> bool" where
  "adds cfg env orc limit ids new ids' new' \<longleftrightarrow>
     (key new = IPC_PRIVATE \<or> ipc_findkey ids (key new) = None) \<and>
     (case ipc_addid cfg env orc ids new limit of
        (Inl _, _) \<Rightarrow> False | (Inr _, t, x) \<Rightarrow> t = ids' \<and> x = new')"

definition table_ok :: "ipc_cfg \<Rightarrow> ipc_oracle \<Rightarrow> 'z ipc_ids \<Rightarrow> bool" where
  "table_ok cfg orc ids \<longleftrightarrow> wf_cfg cfg \<and> idr_alloc_ok orc \<and> ids_inv cfg ids"

text \<open>
  What the operations of a run do: each has its own caller, limit and state of the IDR.  Only the
  documented behaviour of the IDR is known.
\<close>

definition set_ok :: "ipc_cfg \<Rightarrow> 'z ipc_ids \<Rightarrow> bool" where
  "set_ok cfg ids \<longleftrightarrow> wf_cfg cfg \<and> ids_inv cfg ids"

definition enters ::
    "ipc_cfg \<Rightarrow> 'z ipc_ids \<Rightarrow> 'z kern_ipc_perm_scheme \<Rightarrow> 'z ipc_ids \<Rightarrow> 'z kern_ipc_perm_scheme \<Rightarrow> bool" where
  "enters cfg ids new ids' new' \<longleftrightarrow>
     (\<exists>env orc limit. idr_alloc_ok orc \<and> adds cfg env orc limit ids new ids' new')"

definition enter_fails :: "ipc_cfg \<Rightarrow> 'z ipc_ids \<Rightarrow> 'z ipc_ids \<Rightarrow> bool" where
  "enter_fails cfg ids ids' \<longleftrightarrow>
     (\<exists>env orc limit new e new'. idr_alloc_ok orc \<and> ipc_addid cfg env orc ids new limit = (Inl e, ids', new'))"

abbreviation removes :: "ipc_cfg \<Rightarrow> 'z ipc_ids \<Rightarrow> 'z kern_ipc_perm_scheme \<Rightarrow> 'z ipc_ids" where
  "removes cfg ids p \<equiv> fst (ipc_rmid cfg ids p)"

lemma find_id_iff:
  assumes "wf_cfg cfg" and "ids_inv cfg ids"
  shows "find_id cfg ids i = Some p \<longleftrightarrow>
           i = perm_id p \<and> ipcs_idr ids (ipcid_to_idx cfg i) = Some p"
proof
  assume "find_id cfg ids i = Some p"
  then have i: "0 \<le> i" and o: "ipc_obtain_object_check cfg ids i = Inr p"
    by (auto simp: find_id_def split: if_splits sum.splits)
  then have at: "ipcs_idr ids (ipcid_to_idx cfg i) = Some p" and s: "ipcid_to_seqx cfg i = perm_seq p"
    using ipc_obtain_object_check_iff [OF assms] by auto
  have "ipcid_to_seqx cfg i * 2 ^ ipcmni_seq_shift cfg + ipcid_to_idx cfg i = i"
    using assms(1) i unfolding wf_cfg_def by blast
  with ids_invD(1) [OF assms(2) at] s at
  show "i = perm_id p \<and> ipcs_idr ids (ipcid_to_idx cfg i) = Some p"
    by (simp add: obj_ok_def)
next
  assume "i = perm_id p \<and> ipcs_idr ids (ipcid_to_idx cfg i) = Some p"
  then have a: "i = perm_id p" "ipcs_idr ids (ipcid_to_idx cfg i) = Some p" by blast+
  then have "obj_ok cfg (ipcid_to_idx cfg i) p" using ids_invD(1) [OF assms(2)] by blast
  with a have "0 \<le> i" by (metis obj_ok_def add_nonneg_nonneg mult_nonneg_nonneg zero_le_numeral zero_le_power)
  moreover have "ipc_obtain_object_check cfg ids (perm_id p) = Inr p"
    using a by (intro obtain_own_id [OF assms, of "ipcid_to_idx cfg i"]) simp
  ultimately show "find_id cfg ids i = Some p" using a by (simp add: find_id_def)
qed

lemma addsD:
  assumes "adds cfg env orc limit ids new ids' new'"
  obtains idx where "ipc_addid cfg env orc ids new limit = (Inr idx, ids', new')"
    and "key new = IPC_PRIVATE \<or> ipc_findkey ids (key new) = None"
  using assms by (auto simp: adds_def split: prod.splits sum.splits)

lemma adds_facts:
  assumes ok: "table_ok cfg orc ids" and add: "adds cfg env orc limit ids new ids' new'"
  shows "ids_inv cfg ids'"
    and "\<exists>idx. ipcid_to_idx cfg (perm_id new') = idx \<and> ipcs_idr ids idx = None \<and>
           ipcs_idr ids' = (ipcs_idr ids)(idx \<mapsto> new') \<and> obj_ok cfg idx new' \<and>
           perm_seq new' = bump_seq cfg ids idx \<and> ids_seq ids' = bump_seq cfg ids idx \<and>
           last_idx ids' = idx"
proof -
  from addsD [OF add] obtain idx where
    a: "ipc_addid cfg env orc ids new limit = (Inr idx, ids', new')"
    and k: "key new = IPC_PRIVATE \<or> ipc_findkey ids (key new) = None" by blast
  have ok': "wf_cfg cfg" "idr_alloc_ok orc" "ids_inv cfg ids" using ok by (simp_all add: table_ok_def)
  note f = ipc_addid_Inr [OF a ok'(2)] and g = ipc_addid_inv [OF ok' k a]
  show "ids_inv cfg ids'" by (rule g(1))
  show "\<exists>idx. ipcid_to_idx cfg (perm_id new') = idx \<and> ipcs_idr ids idx = None \<and>
           ipcs_idr ids' = (ipcs_idr ids)(idx \<mapsto> new') \<and> obj_ok cfg idx new' \<and>
           perm_seq new' = bump_seq cfg ids idx \<and> ids_seq ids' = bump_seq cfg ids idx \<and>
           last_idx ids' = idx"
    using f(1) obj_ok_decode(1) [OF ok'(1) g(2)] g(2)
    by (intro exI [of _ idx]) (simp add: f(7), simp add: f(6) stamped_def)
qed

interpretation ipc_table: object_table
  "set_ok cfg" "find_id cfg" perm_id "enters cfg" "enter_fails cfg" "removes cfg" for cfg
proof unfold_locales
  fix t x t' x' i
  assume t: "set_ok cfg t" and "enters cfg t x t' x'"
  then obtain env orc limit where ok: "table_ok cfg orc t" and add: "adds cfg env orc limit t x t' x'"
    by (auto simp: enters_def set_ok_def table_ok_def)
  have w: "wf_cfg cfg" "ids_inv cfg t" using ok by (simp_all add: table_ok_def)
  from adds_facts(2) [OF ok add] obtain idx where
    f: "ipcid_to_idx cfg (perm_id x') = idx" "ipcs_idr t idx = None"
      "ipcs_idr t' = (ipcs_idr t)(idx \<mapsto> x')" by blast
  note inv' = adds_facts(1) [OF ok add]
  show "set_ok cfg t'" using ok inv' by (simp add: table_ok_def set_ok_def)
  show "find_id cfg t (perm_id x') = None"
    using find_id_iff [OF w, of "perm_id x'"] f by (cases "find_id cfg t (perm_id x')") auto
  have "find_id cfg t' i = Some y \<longleftrightarrow> (if i = perm_id x' then Some x' else find_id cfg t i) = Some y" for y
    using find_id_iff [OF w, of i y] find_id_iff [OF w(1) inv', of i y] f
      find_id_iff [OF w(1) inv', of "perm_id x'" x'] find_id_iff [OF w(1) inv', of "perm_id x'" y]
    by (auto split: if_splits)
  then show "find_id cfg t' i = (if i = perm_id x' then Some x' else find_id cfg t i)"
    by (metis not_Some_eq)
next
  fix t t' i
  assume ok: "set_ok cfg t" and "enter_fails cfg t t'"
  then obtain env orc limit new e new' where orc: "idr_alloc_ok orc" and
    a: "ipc_addid cfg env orc t new limit = (Inl e, t', new')"
    by (auto simp: enter_fails_def)
  show "set_ok cfg t'" using ok ipc_addid_Inl_inv [OF _ orc a] by (simp add: set_ok_def)
  show "find_id cfg t' i = find_id cfg t i"
    using ipc_addid_Inl(1) [OF a orc] by (simp add: find_id_def ipc_obtain_object_check_def ipc_obtain_object_idr_def)
next
  fix t x i
  assume ok: "set_ok cfg t" and l: "find_id cfg t (perm_id x) = Some x"
  have w: "wf_cfg cfg" "ids_inv cfg t" using ok by (simp_all add: set_ok_def)
  obtain t' p' where r: "ipc_rmid cfg t x = (t', p')" by force
  from l have at: "ipcs_idr t (ipcid_to_idx cfg (perm_id x)) = Some x"
    using find_id_iff [OF w] by blast
  note f = ids_inv_rmid [OF w at r]
  show "set_ok cfg (removes cfg t x)" using ok f(1) by (simp add: set_ok_def r)
  have "find_id cfg t' i = Some y \<longleftrightarrow> (if i = perm_id x then None else find_id cfg t i) = Some y" for y
    using find_id_iff [OF w, of i y] find_id_iff [OF w(1) f(1), of i y] at l
    by (auto simp: f(2) split: if_splits)
  then show "find_id cfg (removes cfg t x) i = (if i = perm_id x then None else find_id cfg t i)"
    by (simp add: r) (metis not_Some_eq)
next
  fix t i x
  assume "set_ok cfg t" and "find_id cfg t i = Some x"
  then show "perm_id x = i" using find_id_iff [of cfg t i x] by (simp add: set_ok_def)
qed

lemma adds_enters:
  "table_ok cfg orc t \<Longrightarrow> adds cfg env orc limit t x t' x' \<Longrightarrow> set_ok cfg t \<and> enters cfg t x t' x'"
  by (auto simp: table_ok_def set_ok_def enters_def)

subsection \<open>Identifiers are not reused within a sequence period\<close>

text \<open>The stamp of the last identifier handed out, in the order in which stamps grow.\<close>

definition stamp_le :: "int \<times> int \<Rightarrow> int \<times> int \<Rightarrow> bool" where
  "stamp_le a b \<longleftrightarrow> fst a < fst b \<or> (fst a = fst b \<and> snd a \<le> snd b)"

lemma stamp_le_trans: "stamp_le a b \<Longrightarrow> stamp_le b c \<Longrightarrow> stamp_le a c"
  by (auto simp: stamp_le_def)

definition ids_stamp :: "'z ipc_ids \<Rightarrow> int \<times> int" where
  "ids_stamp ids = (ids_seq ids, last_idx ids)"

definition obj_stamp :: "ipc_cfg \<Rightarrow> 'z kern_ipc_perm_scheme \<Rightarrow> int \<times> int" where
  "obj_stamp cfg p = (ipcid_to_seqx cfg (perm_id p), ipcid_to_idx cfg (perm_id p))"

text \<open>The events that may advance the sequence number.\<close>

definition is_added :: "'o table_event \<Rightarrow> bool" where
  "is_added e = (case e of Added _ \<Rightarrow> True | Removed _ \<Rightarrow> False | Failed \<Rightarrow> True)"

lemma is_added_simps [simp]: "is_added (Added x)" "\<not> is_added (Removed x)" "is_added Failed"
  by (simp_all add: is_added_def)

lemma ipc_rmid_stamp: "ids_stamp (removes cfg ids p) = ids_stamp ids"
  by (simp add: ipc_rmid_def ipc_kht_remove_def Let_def ids_stamp_def)

lemma enters_stamp:
  assumes ok: "set_ok cfg t" and add: "enters cfg t x t' x'" and room: "ids_seq t + 1 < ipcid_seq_max cfg"
  shows "stamp_le (ids_stamp t) (ids_stamp t')" and "ids_stamp t \<noteq> ids_stamp t'"
    and "obj_stamp cfg x' = ids_stamp t'" and "ids_seq t' \<le> ids_seq t + 1"
proof -
  obtain env orc limit where o: "table_ok cfg orc t" "adds cfg env orc limit t x t' x'"
    using assms by (auto simp: enters_def set_ok_def table_ok_def)
  from adds_facts(2) [OF o] obtain idx where
    f: "ipcid_to_idx cfg (perm_id x') = idx" "obj_ok cfg idx x'"
      "perm_seq x' = bump_seq cfg t idx" "ids_seq t' = bump_seq cfg t idx" "last_idx t' = idx"
    by blast
  have "ipcid_to_seqx cfg (perm_id x') = perm_seq x'"
    using obj_ok_decode(2) [OF _ f(2)] ok by (simp add: set_ok_def)
  then show "obj_stamp cfg x' = ids_stamp t'" using f by (simp add: obj_stamp_def ids_stamp_def)
  show "stamp_le (ids_stamp t) (ids_stamp t')" and "ids_stamp t \<noteq> ids_stamp t'"
    and "ids_seq t' \<le> ids_seq t + 1"
    using f room by (auto simp: stamp_le_def ids_stamp_def bump_seq_def)
qed

lemma fails_stamp:
  assumes add: "enter_fails cfg t t'" and room: "ids_seq t + 1 < ipcid_seq_max cfg"
  shows "stamp_le (ids_stamp t) (ids_stamp t')" and "ids_seq t' \<le> ids_seq t + 1"
proof -
  obtain env orc limit new e new' where orc: "idr_alloc_ok orc" and
    a: "ipc_addid cfg env orc t new limit = (Inl e, t', new')"
    using add by (auto simp: enter_fails_def)
  from ipc_addid_Inl(6) [OF a orc]
  show "stamp_le (ids_stamp t) (ids_stamp t')" and "ids_seq t' \<le> ids_seq t + 1"
    using room by (auto simp: stamp_le_def ids_stamp_def bump_seq_def split: if_splits)
qed

lemma run_stamps:
  assumes "table_run (enters cfg) (enter_fails cfg) (removes cfg) (find_id cfg) perm_id t es t'"
    and "set_ok cfg t"
    and "ids_seq t + int (length (filter is_added es)) < ipcid_seq_max cfg"
  shows "(\<forall>x. Added x \<in> set es \<longrightarrow> stamp_le (obj_stamp cfg x) (ids_stamp t') \<and>
           stamp_le (ids_stamp t) (obj_stamp cfg x) \<and> obj_stamp cfg x \<noteq> ids_stamp t) \<and>
         distinct (map (obj_stamp cfg) [x. Added x \<leftarrow> es]) \<and>
         stamp_le (ids_stamp t) (ids_stamp t') \<and>
         ids_seq t' \<le> ids_seq t + int (length (filter is_added es))"
  using assms
proof (induction rule: table_run.induct)
  case (run_nil t)
  then show ?case by (simp add: stamp_le_def)
next
  case (run_add t es t1 x t2 x')
  have ok1: "set_ok cfg t1"
    using ipc_table.run_invar [OF run_add.hyps(1) run_add.prems(1)] .
  from run_add have ih: "\<forall>x. Added x \<in> set es \<longrightarrow> stamp_le (obj_stamp cfg x) (ids_stamp t1) \<and>
      stamp_le (ids_stamp t) (obj_stamp cfg x) \<and> obj_stamp cfg x \<noteq> ids_stamp t"
    "distinct (map (obj_stamp cfg) [x. Added x \<leftarrow> es])" "stamp_le (ids_stamp t) (ids_stamp t1)"
    "ids_seq t1 \<le> ids_seq t + int (length (filter is_added es))" by simp_all
  have room: "ids_seq t1 + 1 < ipcid_seq_max cfg"
    using ih(4) run_add.prems(2) by simp
  note st = enters_stamp [OF ok1 run_add.hyps(2) room]
  have new: "obj_stamp cfg y \<noteq> obj_stamp cfg x'" if "Added y \<in> set es" for y
  proof
    assume "obj_stamp cfg y = obj_stamp cfg x'"
    with ih(1) that st(3) have "stamp_le (ids_stamp t2) (ids_stamp t1)" by metis
    with st(1,2) show False by (auto simp: stamp_le_def prod_eq_iff)
  qed
  have "Added y \<in> set es" if "y \<in> set [x. Added x \<leftarrow> es]" for y
    using that by (auto split: table_event.splits)
  with new have "obj_stamp cfg x' \<notin> set (map (obj_stamp cfg) [x. Added x \<leftarrow> es])" by fastforce
  moreover have le2: "stamp_le (ids_stamp t) (ids_stamp t2)" using ih(3) st(1) stamp_le_trans by blast
  moreover have "stamp_le (obj_stamp cfg y) (ids_stamp t2) \<and> stamp_le (ids_stamp t) (obj_stamp cfg y) \<and>
      obj_stamp cfg y \<noteq> ids_stamp t" if "Added y \<in> set (es @ [Added x'])" for y
  proof (cases "y = x'")
    case True
    have "ids_stamp t2 \<noteq> ids_stamp t" using ih(3) st(1,2) by (auto simp: stamp_le_def prod_eq_iff)
    then show ?thesis using True st(3) le2 by (simp add: stamp_le_def)
  next
    case False
    then have "Added y \<in> set es" using that by simp
    then show ?thesis using ih(1) stamp_le_trans [OF _ st(1)] by blast
  qed
  ultimately show ?case using ih(2,4) st(4) by simp
next
  case (run_del t es t1 x)
  then show ?case
    using ipc_rmid_stamp [of cfg t1 x] by (auto simp: ids_stamp_def)
next
  case (run_fail t es t1 t2)
  then have ih: "\<forall>x. Added x \<in> set es \<longrightarrow> stamp_le (obj_stamp cfg x) (ids_stamp t1) \<and>
      stamp_le (ids_stamp t) (obj_stamp cfg x) \<and> obj_stamp cfg x \<noteq> ids_stamp t"
    "distinct (map (obj_stamp cfg) [x. Added x \<leftarrow> es])" "stamp_le (ids_stamp t) (ids_stamp t1)"
    "ids_seq t1 \<le> ids_seq t + int (length (filter is_added es))" by simp_all
  have room: "ids_seq t1 + 1 < ipcid_seq_max cfg" using ih(4) run_fail.prems(2) by simp
  note st = fails_stamp [OF run_fail.hyps(2) room]
  show ?case using ih(1,2,4) st(2) stamp_le_trans [OF _ st(1)] ih(3) by auto
qed


section \<open>Properties\<close>

text \<open>
  A configuration and an index allocator for concrete runs: 32768 identifiers of fifteen
  index bits, and the lowest free index.
\<close>

definition sample_cfg :: ipc_cfg where
  "sample_cfg =
     \<lparr>ipc_mni = 32768, ipc_min_cycle = 4, ipcmni_seq_shift = 15, ipcid_seq_max = 65535,
      ipcid_to_idx = (\<lambda>i. i mod 32768), ipcid_to_seqx = (\<lambda>i. i div 32768),
      ipc_checkid = (\<lambda>p i. i div 32768 \<noteq> perm_seq p), ipc_valid_object = (\<lambda>p. \<not> deleted p),
      ipc_get_maxidx = (\<lambda>used m. m)\<rparr>"

definition sample_orc :: ipc_oracle where
  "sample_orc =
     \<lparr>idr_alloc_cyclic = (\<lambda>used lo hi.
        case find (\<lambda>i. \<not> used i) [lo..hi - 1] of None \<Rightarrow> Inl ENOSPC | Some i \<Rightarrow> Inr i),
      rhashtable_insert_fast = None\<rparr>"

definition sample_env :: ipc_env where
  "sample_env =
     \<lparr>current_euid = 0, current_egid = 0, current_tgid = 1, current_task = 1,
      in_group_p = (\<lambda>_. False), ns_capable = (\<lambda>_. True),
      security_ipc_permission = (\<lambda>_ _. None), make_kuid = (\<lambda>u. Some u),
      make_kgid = (\<lambda>g. Some g), from_kuid_munged = id, from_kgid_munged = id,
      ktime_get_real_seconds = 100\<rparr>"

definition sample_perm :: kern_ipc_perm where
  "sample_perm =
     \<lparr>deleted = False, perm_id = 0, key = 7, uid = 0, gid = 0, cuid = 0, cgid = 0,
      mode = 0x180, perm_seq = 0, refcount = 0\<rparr>"

lemma wf_sample_cfg: "wf_cfg sample_cfg"
  by (simp add: wf_cfg_def sample_cfg_def)

lemma idr_alloc_ok_sample: "idr_alloc_ok sample_orc"
  by (auto simp: idr_alloc_ok_def sample_orc_def find_Some_iff split: option.splits)

lemma table_ok_sample: "table_ok sample_cfg sample_orc ipc_init_ids"
  by (simp add: table_ok_def wf_sample_cfg idr_alloc_ok_sample ids_inv_init)


definition sample_private :: kern_ipc_perm where
  "sample_private = sample_perm\<lparr>key := IPC_PRIVATE\<rparr>"

lemma sample_addid:
  assumes "in_use ids = 0" and "ipcs_idr ids 0 = None"
  shows "ipc_addid sample_cfg sample_env sample_orc ids sample_private 32000 =
    (Inr 0,
     ids\<lparr>ids_seq := bump_seq sample_cfg ids 0, last_idx := 0,
         ipcs_idr := (ipcs_idr ids)(0 \<mapsto> stamped sample_cfg ids 0 (fresh_perm sample_env sample_private)),
         in_use := 1, max_idx := max 0 (max_idx ids)\<rparr>,
     stamped sample_cfg ids 0 (fresh_perm sample_env sample_private))"
proof -
  have m: "min (max (in_use ids * 3 div 2) (ipc_min_cycle sample_cfg)) (ipc_mni sample_cfg) = 4"
    using assms by (simp add: sample_cfg_def)
  have i: "idr_alloc_cyclic sample_orc (\<lambda>i. ipcs_idr ids i \<noteq> None) 0 4 = Inr 0"
    using assms by (simp add: sample_orc_def upto.simps)
  have "ipc_idr_alloc sample_cfg sample_orc ids (fresh_perm sample_env sample_private) =
    (Inr 0,
     ids\<lparr>ids_seq := bump_seq sample_cfg ids 0, last_idx := 0,
         ipcs_idr := (ipcs_idr ids)(0 \<mapsto> stamped sample_cfg ids 0 (fresh_perm sample_env sample_private))\<rparr>,
     stamped sample_cfg ids 0 (fresh_perm sample_env sample_private))"
    unfolding ipc_idr_alloc_def Let_def m i
    by (simp add: bump_seq_def stamped_def)
  moreover have "key (stamped sample_cfg ids 0 (fresh_perm sample_env sample_private)) = IPC_PRIVATE"
    by (simp add: stamped_def fresh_perm_def sample_private_def)
  moreover have "(if 32000 > ipc_mni sample_cfg then ipc_mni sample_cfg else 32000) = 32000"
    by (simp add: sample_cfg_def)
  ultimately show ?thesis
    using assms by (simp add: ipc_addid_def fresh_perm_def [symmetric] Let_def max_def)
qed

lemma sample_adds:
  assumes "in_use ids = 0" and "ipcs_idr ids 0 = None"
  shows "\<exists>ids' new'. adds sample_cfg sample_env sample_orc 32000 ids sample_private ids' new'"
    and "adds sample_cfg sample_env sample_orc 32000 ids sample_private ids' new' \<Longrightarrow>
      new' = stamped sample_cfg ids 0 (fresh_perm sample_env sample_private) \<and>
      ids' = ids\<lparr>ids_seq := bump_seq sample_cfg ids 0, last_idx := 0,
         ipcs_idr := (ipcs_idr ids)(0 \<mapsto> stamped sample_cfg ids 0 (fresh_perm sample_env sample_private)),
         in_use := 1, max_idx := max 0 (max_idx ids)\<rparr>"
  unfolding adds_def sample_addid [OF assms] by (auto simp: sample_private_def)

text \<open>
  Entering an object whose key is not taken: on success the set stays well formed, counts
  one more object, the returned identifier finds the object, every other identifier finds
  what it found before, and the object belongs to the caller with a reference count of one; on
  failure no lookup changes, and a full set fails with \<open>ENOSPC\<close>.
\<close>

theorem ipc_addid_spec:
  assumes "table_ok cfg orc ids"
    and "key new = IPC_PRIVATE \<or> ipc_findkey ids (key new) = None"
  shows "case ipc_addid cfg env orc ids new limit of
      (Inr idx, ids', new') \<Rightarrow>
        table_ok cfg orc ids' \<and> in_use ids' = in_use ids + 1 \<and> in_use ids' \<le> limit \<and>
        find_id cfg ids (perm_id new') = None \<and>
        (\<forall>i. find_id cfg ids' i = (if i = perm_id new' then Some new' else find_id cfg ids i)) \<and>
        (key new \<noteq> IPC_PRIVATE \<longrightarrow> ipc_findkey ids' (key new) = Some new') \<and>
        uid new' = current_euid env \<and> cuid new' = current_euid env \<and> refcount new' = 1
    | (Inl e, ids', new') \<Rightarrow>
        table_ok cfg orc ids' \<and> find_id cfg ids' = find_id cfg ids \<and>
        (in_use ids \<ge> min limit (ipc_mni cfg) \<longrightarrow> e = ENOSPC)"
proof -
  obtain r ids' new' where a: "ipc_addid cfg env orc ids new limit = (r, ids', new')"
    by (metis prod_cases3)
  have w: "wf_cfg cfg" "idr_alloc_ok orc" "ids_inv cfg ids" using assms(1) by (simp_all add: table_ok_def)
  show ?thesis
  proof (cases r)
    case (Inl e)
    note f = ipc_addid_Inl [OF a [unfolded Inl] w(2)] and g = ipc_addid_Inl_inv [OF w(3,2) a [unfolded Inl]]
    have "find_id cfg ids' = find_id cfg ids"
      using f(1) by (auto simp: find_id_def ipc_obtain_object_check_def ipc_obtain_object_idr_def)
    moreover have "e = ENOSPC" if "in_use ids \<ge> min limit (ipc_mni cfg)"
      using that a Inl by (auto simp: ipc_addid_def Let_def min_def split: if_splits)
    ultimately show ?thesis using w g by (simp add: a Inl table_ok_def)
  next
    case (Inr idx)
    have add: "adds cfg env orc limit ids new ids' new'" using assms(2) by (simp add: adds_def a Inr)
    have st: "set_ok cfg ids" "enters cfg ids new ids' new'" using adds_enters [OF assms(1) add] by simp_all
    note f = ipc_addid_Inr [OF a [unfolded Inr] w(2)]
    have fr: "uid new' = current_euid env \<and> cuid new' = current_euid env \<and> refcount new' = 1"
      by (simp add: f(6) stamped_def fresh_perm_def)
    have "ipc_findkey ids' (key new) = Some new'" if "key new \<noteq> IPC_PRIVATE"
      using that by (simp add: f(7) ipc_findkey_def)
    moreover have "in_use ids' = in_use ids + 1" by (simp add: f(7))
    ultimately show ?thesis
      using fr f(4) ipc_table.add_invar [OF st] ipc_table.add_fresh [OF st]
        ipc_table.add_lookup [OF st] w by (simp add: a Inr table_ok_def set_ok_def)
  qed
qed

theorem ipc_addid_spec_witness:
  "case ipc_addid sample_cfg sample_env sample_orc ipc_init_ids sample_private 32000 of
     (Inr idx, ids', new') \<Rightarrow> find_id sample_cfg ids' 0 = Some new' \<and> in_use ids' = 1
   | (Inl e, ids', new') \<Rightarrow> False"
proof -
  have k: "key sample_private = IPC_PRIVATE \<or> ipc_findkey ipc_init_ids (key sample_private) = None"
    by (simp add: sample_private_def)
  have i: "in_use ipc_init_ids = 0" "ipcs_idr ipc_init_ids 0 = None"
    by (simp_all add: ipc_init_ids_def)
  have p: "perm_id (stamped sample_cfg ipc_init_ids 0 (fresh_perm sample_env sample_private)) = 0"
    by (simp add: stamped_def bump_seq_def ipc_init_ids_def)
  show ?thesis
    using ipc_addid_spec [OF table_ok_sample k, of 32000 sample_env] unfolding sample_addid [OF i]
    by (simp add: p)
qed

text \<open>
  C30.  Identifiers over any run of insertions, failed insertions and removals, each by another caller and with
  another choice of the IDR: the identifier handed out for an object finds this object as long as the object
  is not removed, and once it is removed it finds nothing, not even an object entered later, until as many
  insertions were tried as the sequence number has room for.
\<close>

theorem ipc_ids_no_stale_lookup:
  assumes "wf_cfg cfg" and "ids_inv cfg ids" and "enters cfg ids new ids1 new1"
    and "table_run (enters cfg) (enter_fails cfg) (removes cfg) (find_id cfg) perm_id ids1 es ids2"
  shows "(Removed new1 \<notin> set es \<longrightarrow> ipc_obtain_object_check cfg ids2 (perm_id new1) = Inr new1) \<and>
    (Removed new1 \<in> set es \<and> ids_seq ids + int (length (filter is_added es)) + 1 < ipcid_seq_max cfg \<longrightarrow>
       isl (ipc_obtain_object_check cfg ids2 (perm_id new1)))"
proof (intro conjI impI)
  have ok: "set_ok cfg ids" using assms(1,2) by (simp add: set_ok_def)
  note ok1 = ipc_table.add_invar [OF ok assms(3)]
  {
    assume "Removed new1 \<notin> set es"
    from ipc_table.run_add_then_find [OF ok assms(3,4) this]
    show "ipc_obtain_object_check cfg ids2 (perm_id new1) = Inr new1"
      by (simp add: find_id_def split: if_splits sum.splits)
  next
    assume r: "Removed new1 \<in> set es \<and> ids_seq ids + int (length (filter is_added es)) + 1 < ipcid_seq_max cfg"
    note st = enters_stamp [OF ok assms(3)]
    have room: "ids_seq ids + 1 < ipcid_seq_max cfg" "ids_seq ids1 + int (length (filter is_added es)) < ipcid_seq_max cfg"
      using r st(4) by linarith+
    have l1: "find_id cfg ids1 (perm_id new1) = Some new1" using ipc_table.add_lookup [OF ok assms(3)] by simp
    have "find_id cfg ids2 (perm_id new1) \<noteq> Some x" for x
    proof
      assume x: "find_id cfg ids2 (perm_id new1) = Some x"
      then have i: "perm_id x = perm_id new1"
        using ipc_table.lookup_ident [OF ipc_table.run_invar [OF assms(4) ok1]] by blast
      have "\<not> (find_id cfg ids1 (perm_id new1) = Some x \<and> Removed x \<notin> set es)" using l1 r by auto
      then have "Added x \<in> set es" using ipc_table.run_source [OF assms(4) ok1 x] by blast
      then have "obj_stamp cfg x \<noteq> ids_stamp ids1" using run_stamps [OF assms(4) ok1 room(2)] by blast
      then show False using st(3) [OF room(1)] i by (simp add: obj_stamp_def)
    qed
    then have n: "find_id cfg ids2 (perm_id new1) = None" by (metis not_Some_eq)
    have "0 \<le> perm_id new1" using l1 by (simp add: find_id_def split: if_splits)
    then show "isl (ipc_obtain_object_check cfg ids2 (perm_id new1))"
      using n by (simp add: find_id_def split: if_splits sum.splits)
  }
qed

text \<open>A second caller, to whom the IDR gives the highest free index.\<close>

definition other_env :: ipc_env where
  "other_env = sample_env\<lparr>current_euid := 1000, current_task := 2, ktime_get_real_seconds := 200\<rparr>"

definition other_orc :: ipc_oracle where
  "other_orc =
     \<lparr>idr_alloc_cyclic = (\<lambda>used lo hi.
        case find (\<lambda>i. \<not> used i) (rev [lo..hi - 1]) of None \<Rightarrow> Inl ENOSPC | Some i \<Rightarrow> Inr i),
      rhashtable_insert_fast = None\<rparr>"

lemma find_in: "find P xs = Some x \<Longrightarrow> P x \<and> x \<in> set xs"
  by (induction xs) (auto split: if_splits)

lemma idr_alloc_ok_other: "idr_alloc_ok other_orc"
  by (auto simp: idr_alloc_ok_def other_orc_def split: option.splits dest!: find_in)

text \<open>
  An object is entered, the second caller enters another one and takes it out again: the first is still
  found.  Then it is removed and the second caller enters one more: it is not found any more.
\<close>

definition step_ids :: "ipc_env \<Rightarrow> ipc_oracle \<Rightarrow> unit ipc_ids \<Rightarrow> unit ipc_ids \<times> kern_ipc_perm" where
  "step_ids env orc ids = snd (ipc_addid sample_cfg env orc ids sample_private 32000)"

lemma step_enters:
  assumes "step_ids env orc ids = (ids', x)" and "\<not> isl (fst (ipc_addid sample_cfg env orc ids sample_private 32000))"
    and "idr_alloc_ok orc"
  shows "enters sample_cfg ids sample_private ids' x"
proof -
  obtain i where "ipc_addid sample_cfg env orc ids sample_private 32000 = (Inr i, ids', x)"
    using assms(1,2) by (cases "ipc_addid sample_cfg env orc ids sample_private 32000"; cases "fst (ipc_addid sample_cfg env orc ids sample_private 32000)")
      (auto simp: step_ids_def)
  moreover have "key sample_private = IPC_PRIVATE" by (simp add: sample_private_def)
  ultimately have "adds sample_cfg env orc 32000 ids sample_private ids' x" by (simp add: adds_def)
  then show ?thesis using assms(3) unfolding enters_def by blast
qed

theorem ipc_ids_no_stale_lookup_witness:
  "let (ids1, a) = step_ids sample_env sample_orc ipc_init_ids; (ids2, b) = step_ids other_env other_orc ids1;
       ids3 = removes sample_cfg ids2 b; ids4 = removes sample_cfg ids3 a; (ids5, d) = step_ids other_env other_orc ids4
   in perm_id a = 0 \<and> perm_id b = 3 \<and> perm_id d = 32771 \<and>
      ipc_obtain_object_check sample_cfg ids3 (perm_id a) = Inr a \<and>
      isl (ipc_obtain_object_check sample_cfg ids5 (perm_id a))"
proof -
  obtain ids1 a where s1: "step_ids sample_env sample_orc ipc_init_ids = (ids1, a)" by force
  obtain ids2 b where s2: "step_ids other_env other_orc ids1 = (ids2, b)" by force
  define ids3 where "ids3 = removes sample_cfg ids2 b"
  define ids4 where "ids4 = removes sample_cfg ids3 a"
  obtain ids5 d where s5: "step_ids other_env other_orc ids4 = (ids5, d)" by force
  have e1: "ids1 = fst (step_ids sample_env sample_orc ipc_init_ids)" "a = snd (step_ids sample_env sample_orc ipc_init_ids)"
    using s1 by simp_all
  have e2: "ids2 = fst (step_ids other_env other_orc ids1)" "b = snd (step_ids other_env other_orc ids1)" using s2 by simp_all
  have e5: "d = snd (step_ids other_env other_orc ids4)" using s5 by simp
  have ok: "\<not> isl (fst (ipc_addid sample_cfg sample_env sample_orc (ipc_init_ids :: unit ipc_ids) sample_private 32000))"
    "\<not> isl (fst (ipc_addid sample_cfg other_env other_orc ids1 sample_private 32000))"
    "\<not> isl (fst (ipc_addid sample_cfg other_env other_orc ids4 sample_private 32000))"
    unfolding ids4_def ids3_def e2 e1 by code_simp+
  note en = step_enters [OF s1 ok(1) idr_alloc_ok_sample] step_enters [OF s2 ok(2) idr_alloc_ok_other]
    step_enters [OF s5 ok(3) idr_alloc_ok_other]
  have i: "perm_id a = 0" "perm_id b = 3" "perm_id d = 32771" "ids_seq (ipc_init_ids :: unit ipc_ids) = 0"
    unfolding e5 ids4_def ids3_def e2 e1 by code_simp+
  have start: "set_ok sample_cfg (ipc_init_ids :: unit ipc_ids)" "wf_cfg sample_cfg" "ids_inv sample_cfg (ipc_init_ids :: unit ipc_ids)"
    by (simp_all add: set_ok_def wf_sample_cfg ids_inv_init)
  note inv1 = ipc_table.add_invar [OF start(1) en(1)]
  have fb: "find_id sample_cfg ids2 (perm_id b) = Some b" "find_id sample_cfg ids2 (perm_id a) = Some a"
    using ipc_table.add_lookup [OF inv1 en(2)] ipc_table.add_lookup [OF start(1) en(1)] i(1,2) by simp_all
  have fa: "find_id sample_cfg ids3 (perm_id a) = Some a"
    using ipc_table.del_lookup [OF ipc_table.add_invar [OF inv1 en(2)] fb(1)] fb(2) i(1,2) by (simp add: ids3_def)
  let ?run = "table_run (enters sample_cfg) (enter_fails sample_cfg) (removes sample_cfg) (find_id sample_cfg) perm_id ids1"
  have r3: "?run (([] @ [Added b]) @ [Removed b]) ids3" unfolding ids3_def
    by (rule run_del, rule run_add, rule run_nil) (rule en(2) fb(1))+
  have "?run ((([] @ [Added b]) @ [Removed b]) @ [Removed a]) ids4" unfolding ids4_def by (rule run_del [OF r3 fa])
  then have r5: "?run (((([] @ [Added b]) @ [Removed b]) @ [Removed a]) @ [Added d]) ids5"
    by (rule run_add) (rule en(3))
  have "a \<noteq> b" using i(1,2) by auto
  then have "ipc_obtain_object_check sample_cfg ids3 (perm_id a) = Inr a"
    "isl (ipc_obtain_object_check sample_cfg ids5 (perm_id a))"
    using ipc_ids_no_stale_lookup [OF start(2,3) en(1) r3] ipc_ids_no_stale_lookup [OF start(2,3) en(1) r5] i(4)
    by (simp_all add: sample_cfg_def)
  then show ?thesis using i by (simp add: s1 s2 s5 ids3_def [symmetric] ids4_def [symmetric])
qed

text \<open>
  Identifiers are not reused within a period of the sequence counter: all identifiers
  handed out in a run of fewer insertions than the counter has room for are pairwise
  different, whatever is removed in between.
\<close>

theorem ipc_ids_not_reused:
  assumes "set_ok cfg ids"
    and "table_run (enters cfg) (enter_fails cfg) (removes cfg) (find_id cfg) perm_id ids es ids'"
    and "ids_seq ids + int (length (filter is_added es)) < ipcid_seq_max cfg"
  shows "distinct [perm_id x. Added x \<leftarrow> es]"
proof -
  have "distinct (map (obj_stamp cfg) [x. Added x \<leftarrow> es])"
    using run_stamps [OF assms(2,1,3)] by blast
  then have "distinct (map ((\<lambda>i. (ipcid_to_seqx cfg i, ipcid_to_idx cfg i)) \<circ> perm_id) [x. Added x \<leftarrow> es])"
    by (simp add: obj_stamp_def [abs_def] comp_def)
  then have "distinct (map perm_id [x. Added x \<leftarrow> es])"
    by (unfold map_map [symmetric]) (drule distinct_map [THEN iffD1, THEN conjunct1])
  moreover have "map perm_id [x. Added x \<leftarrow> es] = [perm_id x. Added x \<leftarrow> es]"
    by (induction es) (auto split: table_event.splits)
  ultimately show ?thesis by simp
qed

theorem ipc_ids_not_reused_witness:
  "\<exists>ids1 new1 ids2 new2.
     adds sample_cfg sample_env sample_orc 32000 ipc_init_ids sample_private ids1 new1 \<and>
     adds sample_cfg sample_env sample_orc 32000 (removes sample_cfg ids1 new1) sample_private ids2 new2 \<and>
     perm_id new1 \<noteq> perm_id new2"
proof -
  let ?add = "adds sample_cfg sample_env sample_orc 32000"
  obtain ids1 new1 where a: "?add ipc_init_ids sample_private ids1 new1"
    using sample_adds(1) [of ipc_init_ids] by (auto simp: ipc_init_ids_def)
  note ea = adds_enters [OF table_ok_sample a]
  have f: "find_id sample_cfg ids1 (perm_id new1) = Some new1"
    using ipc_table.add_lookup [OF ea [THEN conjunct1] ea [THEN conjunct2]] by simp
  have "in_use (removes sample_cfg ids1 new1) = 0 \<and> ipcs_idr (removes sample_cfg ids1 new1) 0 = None"
    using sample_adds(2) [OF _ _ a] by (simp add: ipc_init_ids_def ipc_rmid_def ipc_kht_remove_def
        Let_def stamped_def fresh_perm_def bump_seq_def sample_cfg_def sample_private_def)
  then obtain ids2 new2 where b: "?add (removes sample_cfg ids1 new1) sample_private ids2 new2"
    using sample_adds(1) [of "removes sample_cfg ids1 new1"] by auto
  have eb: "enters sample_cfg (removes sample_cfg ids1 new1) sample_private ids2 new2"
    using b idr_alloc_ok_sample by (auto simp: enters_def)
  have "table_run (enters sample_cfg) (enter_fails sample_cfg) (removes sample_cfg) (find_id sample_cfg) perm_id ipc_init_ids
          ((([] @ [Added new1]) @ [Removed new1]) @ [Added new2]) ids2"
    by (rule run_add, rule run_del, rule run_add, rule run_nil) (use ea f eb in blast)+
  from ipc_ids_not_reused [OF _ this] ea
  have "perm_id new1 \<noteq> perm_id new2" by (simp add: ipc_init_ids_def sample_cfg_def)
  with a b show ?thesis by blast
qed


text \<open>
  Removing an object that is in the set keeps the set well formed, makes its identifier
  and its key unknown at once, leaves every other identifier and key as they were, and marks
  the object deleted for those who still hold a reference.
\<close>

theorem ipc_rmid_spec:
  assumes "table_ok cfg orc ids" and "find_id cfg ids (perm_id p) = Some p"
  shows "case ipc_rmid cfg ids p of (ids', p') \<Rightarrow>
      table_ok cfg orc ids' \<and> in_use ids' = in_use ids - 1 \<and> p' = p\<lparr>deleted := True\<rparr> \<and>
      (\<forall>i. find_id cfg ids' i = (if i = perm_id p then None else find_id cfg ids i)) \<and>
      (\<forall>k. ipc_findkey ids' k = (if k = key p then None else ipc_findkey ids k))"
proof -
  have w: "wf_cfg cfg" "ids_inv cfg ids" using assms(1) by (simp_all add: table_ok_def)
  obtain ids' p' where r: "ipc_rmid cfg ids p = (ids', p')" by force
  let ?x = "ipcid_to_idx cfg (perm_id p)"
  have at: "ipcs_idr ids ?x = Some p" using assms(2) find_id_iff [OF w] by blast
  note f = ids_inv_rmid [OF w at r]
  have st: "set_ok cfg ids" using w by (simp add: set_ok_def)
  have "ipc_findkey ids' k = Some q \<longleftrightarrow> (if k = key p then None else ipc_findkey ids k) = Some q" for k q
  proof (cases "k = key p \<and> k \<noteq> IPC_PRIVATE")
    case True
    then show ?thesis by (auto simp: ipc_findkey_def f(3))
  next
    case False
    have "ipcs_idr ids' i = Some q \<longleftrightarrow> ipcs_idr ids i = Some q"
      if "key q = k" "k \<noteq> IPC_PRIVATE" for i
      using that False at by (cases "i = ?x") (auto simp: f(2))
    then show ?thesis
      using False by (auto simp: ipc_findkey_iff [OF f(1)] ipc_findkey_iff [OF w(2)])
  qed
  then have "ipc_findkey ids' k = (if k = key p then None else ipc_findkey ids k)" for k
    by (metis not_Some_eq)
  moreover have "in_use ids' = in_use ids - 1"
    using r by (auto simp: ipc_rmid_def ipc_kht_remove_def Let_def split: if_splits)
  ultimately show ?thesis
    using ipc_table.del_invar [OF st assms(2)] ipc_table.del_lookup [OF st assms(2)] assms(1)
    by (simp add: r f(4) table_ok_def set_ok_def)
qed

theorem ipc_rmid_spec_witness:
  "\<exists>ids1 new1. adds sample_cfg sample_env sample_orc 32000 ipc_init_ids sample_private ids1 new1 \<and>
     find_id sample_cfg (fst (ipc_rmid sample_cfg ids1 new1)) (perm_id new1) = None"
proof -
  obtain ids1 new1 where
    a: "adds sample_cfg sample_env sample_orc 32000 ipc_init_ids sample_private ids1 new1"
    using sample_adds(1) [of ipc_init_ids] by (auto simp: ipc_init_ids_def)
  note ea = adds_enters [OF table_ok_sample a]
  have f: "find_id sample_cfg ids1 (perm_id new1) = Some new1"
    using ipc_table.add_lookup [OF ea [THEN conjunct1] ea [THEN conjunct2]] by simp
  have ok1: "table_ok sample_cfg sample_orc ids1"
    using ipc_table.add_invar [OF ea [THEN conjunct1] ea [THEN conjunct2]] idr_alloc_ok_sample
    by (simp add: set_ok_def table_ok_def)
  have "find_id sample_cfg (fst (ipc_rmid sample_cfg ids1 new1)) (perm_id new1) = None"
    using ipc_rmid_spec [OF ok1 f] by (simp add: split_beta)
  with a show ?thesis by blast
qed

end
