(* ===== verification/Sem_Array.thy ===== *)
theory Sem_Array
  imports Ipc_Ids
begin

text \<open>
  Semaphore arrays of \<open>ipc/sem.c\<close>: the data structures, the wait queues and their merging, the
  hysteresis between the global lock and the per-semaphore locks, and undo structures.

  Intrusive lists are HOL lists of the entries they link.  The undo structures are shared by
  the array (\<open>list_id\<close>), by the owning process group (\<open>list_proc\<close>) and by sleeping operations,
  so they live in a store from addresses to \<open>sem_undo\<close> and the lists hold addresses.
  \<open>int\<close> and \<open>short\<close> fields are integers: the theorems on ranges show that the values stay
  within the C types.
\<close>

section \<open>Data\<close>

record sembuf =
  sem_num :: nat
  sem_op :: int
  sem_flg :: u16

text \<open>
  A queue entry; \<open>nsops\<close> is the length of \<open>q_sops\<close>, \<open>q_blocking\<close> is the operation the C pointer
  \<open>blocking\<close> points to, and \<open>None\<close> as status is the completion code \<open>0\<close>.
\<close>

record sem_queue =
  q_sleeper :: task
  q_undo :: "addr option"
  q_pid :: pid
  q_status :: "errno option"
  q_sops :: "sembuf list"
  q_blocking :: "sembuf option"
  q_alter :: bool
  q_dupsop :: bool

abbreviation nsops :: "sem_queue \<Rightarrow> nat" where
  "nsops q \<equiv> length (q_sops q)"

record sem =
  semval :: int
  sempid :: "pid option"
  sem_pending_alter :: "sem_queue list"
  sem_pending_const :: "sem_queue list"
  sem_otime :: int

record sem_array = kern_ipc_perm +
  sem_ctime :: int
  pending_alter :: "sem_queue list"
  pending_const :: "sem_queue list"
  list_id :: "addr list"
  sem_nsems :: nat
  complex_count :: int
  use_global_lock :: u32
  sems :: "sem list"

record sem_undo =
  un_ulp :: addr
  un_semid :: int
  semadj :: "int list"

record sem_undo_list =
  refcnt :: int
  list_proc :: "addr list"

text \<open>What the operations on one array work on: the array, the undo structures, the wake queue.\<close>

record sem_ctx =
  c_sma :: sem_array
  c_undo :: "addr \<Rightarrow> sem_undo option"
  c_wake :: "sem_queue list"

definition USE_GLOBAL_LOCK_HYSTERESIS :: u32 where "USE_GLOBAL_LOCK_HYSTERESIS = 10"
definition SEM_GLOBAL_LOCK :: int where "SEM_GLOBAL_LOCK = -1"

text \<open>\<open>array_index_nospec\<close> of \<open>nospec.h\<close>: an index out of bounds becomes \<open>0\<close>.\<close>

definition array_index_nospec :: "nat \<Rightarrow> nat \<Rightarrow> nat" where
  "array_index_nospec i n = (if i < n then i else 0)"

section \<open>Access to one semaphore and to one wait queue\<close>

definition upd_sem :: "nat \<Rightarrow> (sem \<Rightarrow> sem) \<Rightarrow> sem_array \<Rightarrow> sem_array" where
  "upd_sem i f sma = sma\<lparr>sems := (sems sma)[i := f (sems sma ! i)]\<rparr>"

text \<open>The wait queues of an array, as the pointer \<open>pending_list\<close> of the C code selects them.\<close>

datatype pend = GAlter | GConst | SAlter nat | SConst nat

fun get_list :: "pend \<Rightarrow> sem_array \<Rightarrow> sem_queue list" where
  "get_list GAlter sma = pending_alter sma"
| "get_list GConst sma = pending_const sma"
| "get_list (SAlter i) sma = sem_pending_alter (sems sma ! i)"
| "get_list (SConst i) sma = sem_pending_const (sems sma ! i)"

fun set_list :: "pend \<Rightarrow> sem_queue list \<Rightarrow> sem_array \<Rightarrow> sem_array" where
  "set_list GAlter l sma = sma\<lparr>pending_alter := l\<rparr>"
| "set_list GConst l sma = sma\<lparr>pending_const := l\<rparr>"
| "set_list (SAlter i) l sma = upd_sem i (sem_pending_alter_update (\<lambda>_. l)) sma"
| "set_list (SConst i) l sma = upd_sem i (sem_pending_const_update (\<lambda>_. l)) sma"

fun valid_pend :: "nat \<Rightarrow> pend \<Rightarrow> bool" where
  "valid_pend n GAlter = True"
| "valid_pend n GConst = True"
| "valid_pend n (SAlter i) = (i < n)"
| "valid_pend n (SConst i) = (i < n)"

definition list_add_tail :: "pend \<Rightarrow> sem_queue \<Rightarrow> sem_array \<Rightarrow> sem_array" where
  "list_add_tail p q sma = set_list p (get_list p sma @ [q]) sma"

section \<open>Merging and unmerging of wait queues\<close>

definition unmerge_queues :: "sem_array \<Rightarrow> sem_array" where
  "unmerge_queues sma =
     (if complex_count sma \<noteq> 0 then sma
      else (fold (\<lambda>q. list_add_tail (SAlter (sem_num (hd (q_sops q)))) q) (pending_alter sma) sma)
             \<lparr>pending_alter := []\<rparr>)"

text \<open>\<open>list_splice_init\<close> puts the per-semaphore queue in front of the global one.\<close>

definition splice_alter :: "nat \<Rightarrow> sem_array \<Rightarrow> sem_array" where
  "splice_alter i sma =
     set_list (SAlter i) [] (set_list GAlter (get_list (SAlter i) sma @ get_list GAlter sma) sma)"

definition merge_queues :: "sem_array \<Rightarrow> sem_array" where
  "merge_queues sma = fold splice_alter [0..<sem_nsems sma] sma"

section \<open>Global and per-semaphore locking\<close>

text \<open>
  The spinlocks themselves are not state of the model: a handler runs while it owns its lock.
  \<open>complexmode_enter\<close> waits for the holders of per-semaphore locks, which changes no data.
\<close>

definition complexmode_enter :: "sem_array \<Rightarrow> sem_array" where
  "complexmode_enter sma =
     (if use_global_lock sma > 0
      then sma\<lparr>use_global_lock := USE_GLOBAL_LOCK_HYSTERESIS\<rparr>
      else sma\<lparr>use_global_lock := USE_GLOBAL_LOCK_HYSTERESIS\<rparr>)"

definition complexmode_tryleave :: "sem_array \<Rightarrow> sem_array" where
  "complexmode_tryleave sma =
     (if complex_count sma \<noteq> 0 then sma
      else if use_global_lock sma = 1 then sma\<lparr>use_global_lock := 0\<rparr>
      else sma\<lparr>use_global_lock := use_global_lock sma - 1\<rparr>)"

text \<open>
  \<open>sem_lock\<close> reads \<open>use_global_lock\<close> without the array's lock: \<open>r1\<close> and \<open>r2\<close> are the values of
  the first and the second read, \<open>sma\<close> is the array at the moment the lock that is kept was
  acquired.  \<open>lock_reads_ok\<close> is what the locking protocol gives: while the per-semaphore lock
  is held nobody completes \<open>complexmode_enter\<close>, so the second read is still current.
\<close>

definition sem_lock ::
    "u32 \<Rightarrow> u32 \<Rightarrow> sem_array \<Rightarrow> sembuf list \<Rightarrow> int \<Rightarrow> int \<times> sem_array" where
  "sem_lock r1 r2 sma sops n =
     (if n \<noteq> 1 then (SEM_GLOBAL_LOCK, complexmode_enter sma)
      else if r1 = 0 \<and> r2 = 0 then (int (sem_num (hd sops)), sma)
      else if use_global_lock sma = 0 then (int (sem_num (hd sops)), sma)
      else (SEM_GLOBAL_LOCK, sma))"

definition lock_reads_ok :: "u32 \<Rightarrow> u32 \<Rightarrow> sem_array \<Rightarrow> bool" where
  "lock_reads_ok r1 r2 sma \<longleftrightarrow> (r1 = 0 \<and> r2 = 0 \<longrightarrow> use_global_lock sma = 0)"

definition sem_lock_all :: "sem_array \<Rightarrow> sem_array" where
  "sem_lock_all sma = snd (sem_lock 0 0 sma [] (-1))"

definition sem_unlock :: "sem_array \<Rightarrow> int \<Rightarrow> sem_array" where
  "sem_unlock sma locknum =
     (if locknum = SEM_GLOBAL_LOCK then complexmode_tryleave (unmerge_queues sma) else sma)"

section \<open>Shared state of a context\<close>

definition c_nsems :: "sem_ctx \<Rightarrow> nat" where
  "c_nsems c = sem_nsems (c_sma c)"

definition semval_at :: "sem_ctx \<Rightarrow> nat \<Rightarrow> int" where
  "semval_at c i = semval (sems (c_sma c) ! i)"

definition set_semval :: "nat \<Rightarrow> int \<Rightarrow> sem_ctx \<Rightarrow> sem_ctx" where
  "set_semval i v c = c\<lparr>c_sma := upd_sem i (\<lambda>s. s\<lparr>semval := v\<rparr>) (c_sma c)\<rparr>"

text \<open>\<open>ipc_update_pid\<close> stores the new pid; the reference counts of \<open>struct pid\<close> are not modelled.\<close>

definition ipc_update_pid :: "nat \<Rightarrow> pid option \<Rightarrow> sem_ctx \<Rightarrow> sem_ctx" where
  "ipc_update_pid i p c = c\<lparr>c_sma := upd_sem i (\<lambda>s. s\<lparr>sempid := p\<rparr>) (c_sma c)\<rparr>"

definition undo_of :: "sem_ctx \<Rightarrow> addr option \<Rightarrow> sem_undo" where
  "undo_of c un = the (c_undo c (the un))"

definition semadj_at :: "sem_ctx \<Rightarrow> addr option \<Rightarrow> nat \<Rightarrow> int" where
  "semadj_at c un i = semadj (undo_of c un) ! i"

definition set_semadj :: "addr option \<Rightarrow> nat \<Rightarrow> int \<Rightarrow> sem_ctx \<Rightarrow> sem_ctx" where
  "set_semadj un i v c =
     c\<lparr>c_undo := (c_undo c)(the un \<mapsto> (undo_of c un)\<lparr>semadj := (semadj (undo_of c un))[i := v]\<rparr>)\<rparr>"

end
