(* ===== verification/Sem_Semop.thy ===== *)
theory Sem_Semop
  imports Sem_Array
begin

text \<open>
  Atomic execution of a sequence of semaphore operations (\<open>perform_atomic_semop\<close> and
  \<open>perform_atomic_semop_slow\<close> of \<open>ipc/sem.c\<close>) and its refinement: both routines implement the
  all-or-nothing execution of the sequence on the semaphore values and adjustments.
\<close>

section \<open>The two routines\<close>

text \<open>The return value: \<open>0\<close>, \<open>1\<close> (the caller must sleep) or a negative error number.\<close>

datatype semop_res = SemDone | SemSleep | SemErr errno

text \<open>How the scan over the operations ends: at the end, or with one of the two \<open>goto\<close>s.\<close>

datatype scan_exit = ScanEnd | ScanBlock sembuf | ScanRange

text \<open>\<open>dn\<close> holds the operations already executed, the latest first, for the walk back.\<close>

fun slow_scan ::
    "addr option \<Rightarrow> sembuf list \<Rightarrow> sembuf list \<Rightarrow> sem_ctx \<Rightarrow> scan_exit \<times> sembuf list \<times> sem_ctx" where
  "slow_scan un dn [] c = (ScanEnd, dn, c)"
| "slow_scan un dn (sop # rest) c =
     (let idx = array_index_nospec (sem_num sop) (c_nsems c);
          result = semval_at c idx
      in if sem_op sop = 0 \<and> result \<noteq> 0 then (ScanBlock sop, dn, c)
         else
           let result = result + sem_op sop
           in if result < 0 then (ScanBlock sop, dn, c)
              else if result > SEMVMX then (ScanRange, dn, c)
              else if has_flag (sem_flg sop) SEM_UNDO then
                let undo = semadj_at c un (sem_num sop) - sem_op sop
                in if undo < - SEMAEM - 1 \<or> undo > SEMAEM then (ScanRange, dn, c)
                   else slow_scan un (sop # dn) rest
                          (set_semval idx result (set_semadj un (sem_num sop) undo c))
              else slow_scan un (sop # dn) rest (set_semval idx result c))"

fun slow_pids :: "pid \<Rightarrow> sembuf list \<Rightarrow> sem_ctx \<Rightarrow> sem_ctx" where
  "slow_pids p [] c = c"
| "slow_pids p (sop # dn) c = slow_pids p dn (ipc_update_pid (sem_num sop) (Some p) c)"

fun slow_undo :: "addr option \<Rightarrow> sembuf list \<Rightarrow> sem_ctx \<Rightarrow> sem_ctx" where
  "slow_undo un [] c = c"
| "slow_undo un (sop # dn) c =
     (let c1 = set_semval (sem_num sop) (semval_at c (sem_num sop) - sem_op sop) c;
          c2 = (if has_flag (sem_flg sop) SEM_UNDO
                then set_semadj un (sem_num sop) (semadj_at c1 un (sem_num sop) + sem_op sop) c1
                else c1)
      in slow_undo un dn c2)"

definition block_result :: "sembuf \<Rightarrow> semop_res" where
  "block_result sop = (if has_flag (sem_flg sop) (ucast IPC_NOWAIT) then SemErr EAGAIN else SemSleep)"

definition perform_atomic_semop_slow ::
    "sem_ctx \<Rightarrow> sem_queue \<Rightarrow> semop_res \<times> sem_queue \<times> sem_ctx" where
  "perform_atomic_semop_slow c q =
     (case slow_scan (q_undo q) [] (q_sops q) c of
        (ScanEnd, dn, c1) \<Rightarrow> (SemDone, q, slow_pids (q_pid q) dn c1)
      | (ScanRange, dn, c1) \<Rightarrow> (SemErr ERANGE, q, slow_undo (q_undo q) dn c1)
      | (ScanBlock sop, dn, c1) \<Rightarrow>
          (block_result sop, q\<lparr>q_blocking := Some sop\<rparr>, slow_undo (q_undo q) dn c1))"

text \<open>The two passes of the fast routine: the check and the commit.\<close>

fun fast_check :: "addr option \<Rightarrow> sembuf list \<Rightarrow> sem_ctx \<Rightarrow> scan_exit" where
  "fast_check un [] c = ScanEnd"
| "fast_check un (sop # rest) c =
     (let idx = array_index_nospec (sem_num sop) (c_nsems c);
          result = semval_at c idx
      in if sem_op sop = 0 \<and> result \<noteq> 0 then ScanBlock sop
         else
           let result = result + sem_op sop
           in if result < 0 then ScanBlock sop
              else if result > SEMVMX then ScanRange
              else if has_flag (sem_flg sop) SEM_UNDO then
                let undo = semadj_at c un (sem_num sop) - sem_op sop
                in if undo < - SEMAEM - 1 \<or> undo > SEMAEM then ScanRange
                   else fast_check un rest c
              else fast_check un rest c)"

fun fast_commit :: "addr option \<Rightarrow> pid \<Rightarrow> sembuf list \<Rightarrow> sem_ctx \<Rightarrow> sem_ctx" where
  "fast_commit un p [] c = c"
| "fast_commit un p (sop # rest) c =
     (let c1 = (if has_flag (sem_flg sop) SEM_UNDO
                then set_semadj un (sem_num sop) (semadj_at c un (sem_num sop) - sem_op sop) c
                else c);
          c2 = set_semval (sem_num sop) (semval_at c1 (sem_num sop) + sem_op sop) c1;
          c3 = ipc_update_pid (sem_num sop) (Some p) c2
      in fast_commit un p rest c3)"

definition perform_atomic_semop ::
    "sem_ctx \<Rightarrow> sem_queue \<Rightarrow> semop_res \<times> sem_queue \<times> sem_ctx" where
  "perform_atomic_semop c q =
     (if q_dupsop q then perform_atomic_semop_slow c q
      else case fast_check (q_undo q) (q_sops q) c of
             ScanEnd \<Rightarrow> (SemDone, q, fast_commit (q_undo q) (q_pid q) (q_sops q) c)
           | ScanRange \<Rightarrow> (SemErr ERANGE, q, c)
           | ScanBlock sop \<Rightarrow> (block_result sop, q\<lparr>q_blocking := Some sop\<rparr>, c))"

section \<open>Specification: execution in sequence, all or nothing\<close>

text \<open>Why a single operation cannot be executed on value \<open>v\<close> with adjustment \<open>a\<close>, if it cannot.\<close>

definition sop_stop :: "sembuf \<Rightarrow> int \<Rightarrow> int \<Rightarrow> scan_exit option" where
  "sop_stop sop v a =
     (if (sem_op sop = 0 \<and> v \<noteq> 0) \<or> v + sem_op sop < 0 then Some (ScanBlock sop)
      else if v + sem_op sop > SEMVMX then Some ScanRange
      else if has_flag (sem_flg sop) SEM_UNDO
              \<and> (a - sem_op sop < - SEMAEM - 1 \<or> a - sem_op sop > SEMAEM) then Some ScanRange
      else None)"

text \<open>
  The values and the adjustments after executing the operations one after the other, or what
  stopped the execution.
\<close>

fun run_sops :: "sembuf list \<Rightarrow> int list \<times> int list \<Rightarrow> scan_exit \<times> (int list \<times> int list)" where
  "run_sops [] (vs, adj) = (ScanEnd, vs, adj)"
| "run_sops (sop # rest) (vs, adj) =
     (let i = sem_num sop
      in case sop_stop sop (vs ! i) (adj ! i) of
           Some e \<Rightarrow> (e, vs, adj)
         | None \<Rightarrow> run_sops rest
             (vs[i := vs ! i + sem_op sop],
              if has_flag (sem_flg sop) SEM_UNDO then adj[i := adj ! i - sem_op sop] else adj))"

text \<open>The part of a context that the operations of a queue entry read and write.\<close>

definition vals :: "sem_ctx \<Rightarrow> int list" where
  "vals c = map semval (sems (c_sma c))"

definition adjs :: "sem_ctx \<Rightarrow> addr option \<Rightarrow> int list" where
  "adjs c un = (case un of None \<Rightarrow> [] | Some a \<Rightarrow> semadj (undo_of c un))"

text \<open>The context after a complete execution by process \<open>p\<close>.\<close>

definition commit ::
    "addr option \<Rightarrow> pid \<Rightarrow> sembuf list \<Rightarrow> int list \<times> int list \<Rightarrow> sem_ctx \<Rightarrow> sem_ctx" where
  "commit un p sops st c =
     c\<lparr>c_sma := (c_sma c)\<lparr>sems :=
         map (\<lambda>i. (sems (c_sma c) ! i)
           \<lparr>semval := fst st ! i,
            sempid := (if i \<in> sem_num ` set sops then Some p else sempid (sems (c_sma c) ! i))\<rparr>)
         [0..<length (sems (c_sma c))]\<rparr>,
       c_undo := (case un of None \<Rightarrow> c_undo c
                  | Some a \<Rightarrow> (c_undo c)(a \<mapsto> (undo_of c un)\<lparr>semadj := snd st\<rparr>))\<rparr>"

definition semop_spec :: "sem_ctx \<Rightarrow> sem_queue \<Rightarrow> semop_res \<times> sem_queue \<times> sem_ctx" where
  "semop_spec c q =
     (case run_sops (q_sops q) (vals c, adjs c (q_undo q)) of
        (ScanEnd, st) \<Rightarrow> (SemDone, q, commit (q_undo q) (q_pid q) (q_sops q) st c)
      | (ScanRange, st) \<Rightarrow> (SemErr ERANGE, q, c)
      | (ScanBlock sop, st) \<Rightarrow> (block_result sop, q\<lparr>q_blocking := Some sop\<rparr>, c))"


section \<open>Both routines implement the specification\<close>

text \<open>What the callers establish before they call the routines.\<close>

definition ctx_ok :: "sem_ctx \<Rightarrow> bool" where
  "ctx_ok c \<longleftrightarrow> length (sems (c_sma c)) = c_nsems c \<and> 0 < c_nsems c"

definition undo_ok :: "sem_ctx \<Rightarrow> addr option \<Rightarrow> bool" where
  "undo_ok c un \<longleftrightarrow>
     (case un of None \<Rightarrow> True
      | Some a \<Rightarrow> (case c_undo c a of None \<Rightarrow> False | Some u \<Rightarrow> length (semadj u) = c_nsems c))"

definition sops_ok :: "nat \<Rightarrow> addr option \<Rightarrow> sembuf list \<Rightarrow> bool" where
  "sops_ok n un sops \<longleftrightarrow>
     (\<forall>sop \<in> set sops. sem_num sop < n \<and> (has_flag (sem_flg sop) SEM_UNDO \<longrightarrow> un \<noteq> None))"

text \<open>No operation follows one that alters the same semaphore.\<close>

fun nodup_alter :: "sembuf list \<Rightarrow> bool" where
  "nodup_alter [] = True"
| "nodup_alter (s # rest) =
     ((sem_op s \<noteq> 0 \<longrightarrow> (\<forall>t \<in> set rest. sem_num t \<noteq> sem_num s)) \<and> nodup_alter rest)"

text \<open>
  A context with the values, the adjustments of \<open>un\<close> and the process ids replaced.  All steps
  of the two routines stay within this shape.
\<close>

definition putc ::
    "addr option \<Rightarrow> int list \<times> int list \<Rightarrow> pid option list \<Rightarrow> sem_ctx \<Rightarrow> sem_ctx" where
  "putc un st ps c =
     c\<lparr>c_sma := (c_sma c)\<lparr>sems :=
         map (\<lambda>i. (sems (c_sma c) ! i)\<lparr>semval := fst st ! i, sempid := ps ! i\<rparr>)
         [0..<length (sems (c_sma c))]\<rparr>,
       c_undo := (case un of None \<Rightarrow> c_undo c
                  | Some a \<Rightarrow> (c_undo c)(a \<mapsto> (undo_of c un)\<lparr>semadj := snd st\<rparr>))\<rparr>"

definition pids :: "sem_ctx \<Rightarrow> pid option list" where
  "pids c = map sempid (sems (c_sma c))"

lemma length_vals [simp]: "length (vals c) = length (sems (c_sma c))"
  and length_pids [simp]: "length (pids c) = length (sems (c_sma c))"
  by (simp_all add: vals_def pids_def)

lemma vals_nth: "i < length (sems (c_sma c)) \<Longrightarrow> vals c ! i = semval_at c i"
  by (simp add: vals_def semval_at_def)

lemma putc_id:
  assumes "undo_ok c un"
  shows "putc un (vals c, adjs c un) (pids c) c = c"
proof -
  have "map (\<lambda>i. (sems (c_sma c) ! i)\<lparr>semval := vals c ! i, sempid := pids c ! i\<rparr>)
         [0..<length (sems (c_sma c))] = sems (c_sma c)"
    by (rule nth_equalityI) (simp_all add: vals_def pids_def)
  moreover have "(c_undo c)(a \<mapsto> undo_of c (Some a)) = c_undo c" if "un = Some a" for a
    using assms that by (auto simp: undo_ok_def undo_of_def split: option.splits)
  ultimately show ?thesis
    by (cases un) (simp_all add: putc_def adjs_def)
qed

lemma putc_nsems [simp]: "c_nsems (putc un st ps c) = c_nsems c"
  by (simp add: putc_def c_nsems_def)

lemma putc_semval:
  "i < length (sems (c_sma c)) \<Longrightarrow> semval_at (putc un (vs, adj) ps c) i = vs ! i"
  by (simp add: putc_def semval_at_def)

lemma putc_semadj:
  "un \<noteq> None \<Longrightarrow> semadj_at (putc un (vs, adj) ps c) un i = adj ! i"
  by (auto simp: putc_def semadj_at_def undo_of_def)

lemma putc_set_semval:
  assumes "length vs = length (sems (c_sma c))" and "i < length vs"
  shows "set_semval i v (putc un (vs, adj) ps c) = putc un (vs[i := v], adj) ps c"
proof -
  have "(map (\<lambda>j. (sems (c_sma c) ! j)\<lparr>semval := vs ! j, sempid := ps ! j\<rparr>)
           [0..<length (sems (c_sma c))])[i := (sems (c_sma c) ! i)\<lparr>sempid := ps ! i, semval := v\<rparr>] =
        map (\<lambda>j. (sems (c_sma c) ! j)\<lparr>semval := vs[i := v] ! j, sempid := ps ! j\<rparr>)
           [0..<length (sems (c_sma c))]"
    using assms by (intro nth_equalityI) (simp_all add: nth_list_update_if)
  then show ?thesis using assms
    by (intro sem_ctx.equality) (simp_all add: set_semval_def upd_sem_def putc_def split: option.split)
qed

lemma putc_update_pid:
  assumes "length ps = length (sems (c_sma c))" and "i < length ps"
  shows "ipc_update_pid i p (putc un st ps c) = putc un st (ps[i := p]) c"
proof -
  have "(map (\<lambda>j. (sems (c_sma c) ! j)\<lparr>semval := fst st ! j, sempid := ps ! j\<rparr>)
           [0..<length (sems (c_sma c))])[i := (sems (c_sma c) ! i)\<lparr>semval := fst st ! i, sempid := p\<rparr>] =
        map (\<lambda>j. (sems (c_sma c) ! j)\<lparr>semval := fst st ! j, sempid := ps[i := p] ! j\<rparr>)
           [0..<length (sems (c_sma c))]"
    using assms by (intro nth_equalityI) (simp_all add: nth_list_update_if)
  then show ?thesis using assms
    by (intro sem_ctx.equality) (simp_all add: ipc_update_pid_def upd_sem_def putc_def)
qed

lemma putc_set_semadj:
  "un \<noteq> None \<Longrightarrow> set_semadj un i a (putc un (vs, adj) ps c) = putc un (vs, adj[i := a]) ps c"
  by (auto simp: putc_def set_semadj_def undo_of_def)

lemmas putc_simps = putc_semval putc_semadj putc_set_semval putc_set_semadj putc_update_pid

subsection \<open>The slow routine\<close>

lemma slow_scan_Cons:
  "slow_scan un dn (s # rest) c =
     (let idx = array_index_nospec (sem_num s) (c_nsems c)
      in case sop_stop s (semval_at c idx) (semadj_at c un (sem_num s)) of
           Some e \<Rightarrow> (e, dn, c)
         | None \<Rightarrow> slow_scan un (s # dn) rest
             (set_semval idx (semval_at c idx + sem_op s)
                (if has_flag (sem_flg s) SEM_UNDO
                 then set_semadj un (sem_num s) (semadj_at c un (sem_num s) - sem_op s) c else c)))"
  by (simp add: Let_def sop_stop_def)

lemma fast_check_Cons:
  "fast_check un (s # rest) c =
     (let idx = array_index_nospec (sem_num s) (c_nsems c)
      in case sop_stop s (semval_at c idx) (semadj_at c un (sem_num s)) of
           Some e \<Rightarrow> e | None \<Rightarrow> fast_check un rest c)"
  by (simp add: Let_def sop_stop_def)

lemma sop_stop_no_undo:
  "\<not> has_flag (sem_flg s) SEM_UNDO \<Longrightarrow> sop_stop s v a = sop_stop s v b"
  by (simp add: sop_stop_def)

lemma sop_stop_End: "sop_stop s v a \<noteq> Some ScanEnd"
  by (simp add: sop_stop_def)

declare slow_scan.simps(2) [simp del] fast_check.simps(2) [simp del]

lemma run_sops_length:
  "run_sops sops (vs, adj) = (r, vs', adj') \<Longrightarrow> length vs' = length vs \<and> length adj' = length adj"
  by (induction sops arbitrary: vs adj) (auto simp: Let_def split: if_splits option.splits)

text \<open>
  The scan follows the specification, and walking back from where it stopped gives the context
  it started from.
\<close>

lemma slow_scan_run:
  assumes "sops_ok (length vs) un sops" and "length vs = length (sems (c_sma c))"
    and "ctx_ok c" and "un \<noteq> None \<longrightarrow> length adj = length vs"
    and "slow_scan un dn sops (putc un (vs, adj) ps c) = (r, dn', c')"
  shows "\<exists>st. run_sops sops (vs, adj) = (r, st) \<and> c' = putc un st ps c \<and>
     slow_undo un dn' c' = slow_undo un dn (putc un (vs, adj) ps c) \<and>
     (r = ScanEnd \<longrightarrow> dn' = rev sops @ dn)"
  using assms
proof (induction sops arbitrary: vs adj dn)
  case Nil
  then show ?case by simp
next
  case (Cons s rest)
  let ?i = "sem_num s" and ?P = "\<lambda>vs adj. putc un (vs, adj) ps c"
  let ?v = "vs ! ?i + sem_op s" and ?a = "adj ! ?i - sem_op s"
  let ?adj' = "if has_flag (sem_flg s) SEM_UNDO then adj[?i := ?a] else adj"
  have i: "?i < length vs" "?i < length (sems (c_sma c))" "array_index_nospec ?i (c_nsems c) = ?i"
    and un: "has_flag (sem_flg s) SEM_UNDO \<Longrightarrow> un \<noteq> None"
    and ok: "sops_ok (length vs) un rest"
    using Cons.prems(1-3) by (auto simp: sops_ok_def ctx_ok_def array_index_nospec_def)
  note p = putc_simps [where un = un and c = c]
  have rewind: "slow_undo un (s # dn) (?P (vs[?i := ?v]) ?adj') = slow_undo un dn (?P vs adj)"
    using i un Cons.prems(2,4) by (cases "has_flag (sem_flg s) SEM_UNDO") (simp_all add: Let_def p)
  have st: "sop_stop s (vs ! ?i) (semadj_at (?P vs adj) un ?i) = sop_stop s (vs ! ?i) (adj ! ?i)"
    using un by (cases "has_flag (sem_flg s) SEM_UNDO") (simp_all add: p sop_stop_no_undo)
  show ?case
  proof (cases "sop_stop s (vs ! ?i) (adj ! ?i)")
    case (Some e)
    then have "slow_scan un dn (s # rest) (?P vs adj) = (e, dn, ?P vs adj)"
      by (simp add: slow_scan_Cons i p st)
    with Some Cons.prems(5) sop_stop_End [of s] show ?thesis by auto
  next
    case None
    have "set_semval ?i ?v (if has_flag (sem_flg s) SEM_UNDO
        then set_semadj un ?i (semadj_at (?P vs adj) un ?i - sem_op s) (?P vs adj) else ?P vs adj)
      = ?P (vs[?i := ?v]) ?adj'"
      using i un Cons.prems(2) by (simp add: p)
    then have step: "slow_scan un (s # dn) rest (?P (vs[?i := ?v]) ?adj') = (r, dn', c')"
      using Cons.prems(5) None by (simp add: slow_scan_Cons Let_def i p st)
    have "\<exists>st. run_sops rest (vs[?i := ?v], ?adj') = (r, st) \<and> c' = putc un st ps c \<and>
       slow_undo un dn' c' = slow_undo un (s # dn) (?P (vs[?i := ?v]) ?adj') \<and>
       (r = ScanEnd \<longrightarrow> dn' = rev rest @ s # dn)"
      using ok Cons.prems(2-4) step by (intro Cons.IH) simp_all
    moreover have "run_sops (s # rest) (vs, adj) = run_sops rest (vs[?i := ?v], ?adj')"
      using None by (simp add: Let_def)
    ultimately show ?thesis unfolding rewind by simp
  qed
qed


subsection \<open>Process ids\<close>

lemma commit_putc:
  assumes "undo_ok c un" and "length ps' = length (sems (c_sma c))"
    and "\<And>i. i < length (sems (c_sma c)) \<Longrightarrow>
           ps' ! i = (if i \<in> sem_num ` set sops then Some p else pids c ! i)"
  shows "putc un st ps' c = commit un p sops st c"
proof -
  have "map (\<lambda>i. (sems (c_sma c) ! i)\<lparr>semval := fst st ! i, sempid := ps' ! i\<rparr>)
          [0..<length (sems (c_sma c))] =
        map (\<lambda>i. (sems (c_sma c) ! i)\<lparr>semval := fst st ! i,
            sempid := (if i \<in> sem_num ` set sops then Some p else sempid (sems (c_sma c) ! i))\<rparr>)
          [0..<length (sems (c_sma c))]"
    using assms(2,3) by (intro map_cong) (auto simp: pids_def)
  then show ?thesis by (simp only: putc_def commit_def)
qed

lemma slow_pids_putc:
  assumes "\<And>s. s \<in> set dn \<Longrightarrow> sem_num s < length ps" and "length ps = length (sems (c_sma c))"
  shows "\<exists>ps'. slow_pids p dn (putc un st ps c) = putc un st ps' c \<and> length ps' = length ps \<and>
     (\<forall>i < length ps. ps' ! i = (if i \<in> sem_num ` set dn then Some p else ps ! i))"
  using assms
proof (induction dn arbitrary: ps)
  case Nil
  then show ?case by auto
next
  case (Cons s dn)
  have i: "sem_num s < length ps" using Cons.prems(1) by simp
  have "slow_pids p (s # dn) (putc un st ps c) = slow_pids p dn (putc un st (ps[sem_num s := Some p]) c)"
    using i Cons.prems(2) by (simp add: putc_update_pid)
  moreover from Cons.IH [of "ps[sem_num s := Some p]"] Cons.prems obtain ps' where
    "slow_pids p dn (putc un st (ps[sem_num s := Some p]) c) = putc un st ps' c"
    "length ps' = length ps"
    "\<forall>i < length ps. ps' ! i = (if i \<in> sem_num ` set dn then Some p else ps[sem_num s := Some p] ! i)"
    by auto
  ultimately show ?case using i by (intro exI [of _ ps']) (auto simp: nth_list_update_if)
qed

lemma perform_slow_spec:
  assumes "ctx_ok c" and "undo_ok c (q_undo q)" and "sops_ok (c_nsems c) (q_undo q) (q_sops q)"
  shows "perform_atomic_semop_slow c q = semop_spec c q"
proof -
  let ?un = "q_undo q"
  have l: "length (vals c) = length (sems (c_sma c))" "length (vals c) = c_nsems c"
    "?un \<noteq> None \<longrightarrow> length (adjs c ?un) = length (vals c)"
    using assms(1,2) by (auto simp: ctx_ok_def undo_ok_def adjs_def undo_of_def split: option.splits)
  obtain r dn c' where s: "slow_scan ?un [] (q_sops q) c = (r, dn, c')" by (metis prod_cases3)
  have pid: "putc ?un (vals c, adjs c ?un) (pids c) c = c" by (rule putc_id [OF assms(2)])
  from s have "slow_scan ?un [] (q_sops q) (putc ?un (vals c, adjs c ?un) (pids c) c) = (r, dn, c')"
    by (simp add: pid)
  from slow_scan_run [OF _ l(1) assms(1) l(3) this] assms(3) l(2) pid
  obtain st where st: "run_sops (q_sops q) (vals c, adjs c ?un) = (r, st)"
    "c' = putc ?un st (pids c) c" "slow_undo ?un dn c' = c" "r = ScanEnd \<longrightarrow> dn = rev (q_sops q)"
    by auto
  show ?thesis
  proof (cases r)
    case ScanEnd
    have in_range: "sem_num x < length (pids c)" if "x \<in> set dn" for x
      using that ScanEnd st(4) assms(1,3) by (simp add: sops_ok_def ctx_ok_def)
    obtain ps' where ps': "slow_pids (q_pid q) dn (putc ?un st (pids c) c) = putc ?un st ps' c"
      "length ps' = length (pids c)"
      "\<forall>i < length (pids c). ps' ! i = (if i \<in> sem_num ` set dn then Some (q_pid q) else pids c ! i)"
      using slow_pids_putc [of dn "pids c" c "q_pid q" ?un st] in_range by auto
    have "putc ?un st ps' c = commit ?un (q_pid q) (q_sops q) st c"
      using ps' ScanEnd st(4) by (intro commit_putc [OF assms(2)]) simp_all
    then show ?thesis using s st ScanEnd ps'(1)
      by (simp add: perform_atomic_semop_slow_def semop_spec_def)
  qed (use s st in \<open>simp_all add: perform_atomic_semop_slow_def semop_spec_def\<close>)
qed

subsection \<open>The fast routine\<close>

lemma fast_check_run:
  assumes "sops_ok (length vs) un sops" and "length vs = c_nsems c" and "nodup_alter sops"
    and "\<And>s. s \<in> set sops \<Longrightarrow> semval_at c (sem_num s) = vs ! sem_num s"
    and "\<And>s. s \<in> set sops \<Longrightarrow> has_flag (sem_flg s) SEM_UNDO \<Longrightarrow>
           semadj_at c un (sem_num s) = adj ! sem_num s"
  shows "fast_check un sops c = fst (run_sops sops (vs, adj))"
  using assms
proof (induction sops arbitrary: vs adj)
  case Nil
  then show ?case by simp
next
  case (Cons s rest)
  let ?i = "sem_num s"
  have i: "?i < length vs" "array_index_nospec ?i (c_nsems c) = ?i" "sops_ok (length vs) un rest"
    using Cons.prems(1,2) by (auto simp: sops_ok_def array_index_nospec_def)
  have st: "sop_stop s (semval_at c ?i) (semadj_at c un ?i) = sop_stop s (vs ! ?i) (adj ! ?i)"
    using Cons.prems(4,5) [of s] by (cases "has_flag (sem_flg s) SEM_UNDO") (simp_all add: sop_stop_no_undo)
  show ?case
  proof (cases "sop_stop s (vs ! ?i) (adj ! ?i)")
    case (Some e)
    then show ?thesis by (simp add: fast_check_Cons i st Let_def)
  next
    case None
    let ?vs' = "vs[?i := vs ! ?i + sem_op s]"
    let ?adj' = "if has_flag (sem_flg s) SEM_UNDO then adj[?i := adj ! ?i - sem_op s] else adj"
    have same: "?vs' ! sem_num t = vs ! sem_num t \<and> ?adj' ! sem_num t = adj ! sem_num t"
      if "t \<in> set rest" for t
      using Cons.prems(3) that
      by (cases "sem_op s = 0") (simp_all, metis nth_list_update_neq)
    have "fast_check un rest c = fst (run_sops rest (?vs', ?adj'))"
      using Cons.prems i(3) same by (intro Cons.IH) simp_all
    then show ?thesis using None by (simp add: fast_check_Cons i st Let_def)
  qed
qed


lemma fast_commit_run:
  assumes "sops_ok (length vs) un sops" and "length vs = length (sems (c_sma c))"
    and "length ps = length vs" and "un \<noteq> None \<longrightarrow> length adj = length vs"
    and "run_sops sops (vs, adj) = (ScanEnd, st)"
  shows "\<exists>ps'. fast_commit un p sops (putc un (vs, adj) ps c) = putc un st ps' c \<and>
     length ps' = length ps \<and>
     (\<forall>i < length ps. ps' ! i = (if i \<in> sem_num ` set sops then Some p else ps ! i))"
  using assms
proof (induction sops arbitrary: vs adj ps)
  case Nil
  then show ?case by auto
next
  case (Cons s rest)
  let ?i = "sem_num s"
  let ?vs' = "vs[?i := vs ! ?i + sem_op s]" and ?ps1 = "ps[?i := Some p]"
  let ?adj' = "if has_flag (sem_flg s) SEM_UNDO then adj[?i := adj ! ?i - sem_op s] else adj"
  have i: "?i < length vs" "?i < length (sems (c_sma c))" "sops_ok (length vs) un rest"
    and un: "has_flag (sem_flg s) SEM_UNDO \<Longrightarrow> un \<noteq> None"
    using Cons.prems(1,2) by (auto simp: sops_ok_def)
  have "fast_commit un p (s # rest) (putc un (vs, adj) ps c)
      = fast_commit un p rest (putc un (?vs', ?adj') ?ps1 c)"
    using i un Cons.prems(2,3)
    by (cases "has_flag (sem_flg s) SEM_UNDO") (simp_all add: Let_def putc_simps)
  moreover have "run_sops rest (?vs', ?adj') = (ScanEnd, st)"
    using Cons.prems(5) sop_stop_End [of s] by (auto simp: Let_def split: option.splits)
  then have "\<exists>ps'. fast_commit un p rest (putc un (?vs', ?adj') ?ps1 c) = putc un st ps' c \<and>
     length ps' = length ?ps1 \<and>
     (\<forall>j < length ?ps1. ps' ! j = (if j \<in> sem_num ` set rest then Some p else ?ps1 ! j))"
    using Cons.prems(2-4) i(3) by (intro Cons.IH) simp_all
  then obtain ps' where
    "fast_commit un p rest (putc un (?vs', ?adj') ?ps1 c) = putc un st ps' c"
    "length ps' = length ps"
    "\<forall>j < length ps. ps' ! j = (if j \<in> sem_num ` set rest then Some p else ?ps1 ! j)"
    by (elim exE conjE) simp
  ultimately show ?case using i Cons.prems(3) by (intro exI [of _ ps']) (auto simp: nth_list_update_if)
qed

lemma perform_spec:
  assumes "ctx_ok c" and "undo_ok c (q_undo q)" and "sops_ok (c_nsems c) (q_undo q) (q_sops q)"
    and "q_dupsop q \<or> nodup_alter (q_sops q)"
  shows "perform_atomic_semop c q = semop_spec c q"
proof (cases "q_dupsop q")
  case True
  then show ?thesis by (simp add: perform_atomic_semop_def perform_slow_spec [OF assms(1-3)])
next
  case False
  let ?un = "q_undo q"
  have l: "length (vals c) = length (sems (c_sma c))" "length (vals c) = c_nsems c"
    "?un \<noteq> None \<longrightarrow> length (adjs c ?un) = length (vals c)"
    using assms(1,2) by (auto simp: ctx_ok_def undo_ok_def adjs_def undo_of_def split: option.splits)
  have v: "semval_at c (sem_num s) = vals c ! sem_num s" if "s \<in> set (q_sops q)" for s
    using that assms(1,3) by (simp add: vals_nth sops_ok_def ctx_ok_def)
  have a: "semadj_at c ?un (sem_num s) = adjs c ?un ! sem_num s"
    if "s \<in> set (q_sops q)" "has_flag (sem_flg s) SEM_UNDO" for s
    using that assms(3) by (auto simp: sops_ok_def semadj_at_def adjs_def)
  have chk: "fast_check ?un (q_sops q) c = fst (run_sops (q_sops q) (vals c, adjs c ?un))"
    using assms(3,4) False l v a by (intro fast_check_run) simp_all
  obtain r st where r: "run_sops (q_sops q) (vals c, adjs c ?un) = (r, st)" by (rule prod.exhaust)
  show ?thesis
  proof (cases r)
    case ScanEnd
    from fast_commit_run [OF _ l(1) _ l(3) r [unfolded ScanEnd], of "pids c" "q_pid q"] assms(3) l
    obtain ps' where ps': "fast_commit ?un (q_pid q) (q_sops q) c = putc ?un st ps' c"
      "length ps' = length (pids c)"
      "\<forall>i < length (pids c). ps' ! i = (if i \<in> sem_num ` set (q_sops q) then Some (q_pid q) else pids c ! i)"
      by (auto simp: putc_id [OF assms(2)])
    have "putc ?un st ps' c = commit ?un (q_pid q) (q_sops q) st c"
      using ps' by (intro commit_putc [OF assms(2)]) simp_all
    then show ?thesis using False chk r ScanEnd ps'(1)
      by (simp add: perform_atomic_semop_def semop_spec_def)
  qed (use False chk r in \<open>simp_all add: perform_atomic_semop_def semop_spec_def\<close>)
qed

section \<open>The detection of repeated semaphores\<close>

text \<open>
  The scan of \<open>do_semtimedop\<close> over the operations: the highest semaphore number, whether some
  operation has \<open>SEM_UNDO\<close>, whether some operation alters the array, and whether an operation
  may hit a semaphore that an earlier one altered, found by a mask of 64 bits.
\<close>

record sops_scan =
  sc_max :: nat
  sc_undos :: bool
  sc_alter :: bool
  sc_dupsop :: bool
  sc_dup :: u64

definition scan_sop :: "sembuf \<Rightarrow> sops_scan \<Rightarrow> sops_scan" where
  "scan_sop sop st =
     (let mask = (push_bit (sem_num sop mod 64) 1 :: u64);
          st = (if sem_num sop \<ge> sc_max st then st\<lparr>sc_max := sem_num sop\<rparr> else st);
          st = (if has_flag (sem_flg sop) SEM_UNDO then st\<lparr>sc_undos := True\<rparr> else st);
          st = (if has_flag (sc_dup st) mask then st\<lparr>sc_dupsop := True\<rparr> else st)
      in if sem_op sop \<noteq> 0 then st\<lparr>sc_alter := True, sc_dup := sc_dup st OR mask\<rparr> else st)"

definition scan_sops :: "sembuf list \<Rightarrow> sops_scan" where
  "scan_sops sops =
     fold scan_sop sops
       \<lparr>sc_max = 0, sc_undos = False, sc_alter = False, sc_dupsop = False, sc_dup = 0\<rparr>"


lemma has_flag_bit: "has_flag w (2 ^ n) \<longleftrightarrow> bit w n"
  by (simp add: has_flag_def bit_iff_and_push_bit_not_eq_0)

lemma scan_sop_simps:
  "sc_max (scan_sop s st) = max (sem_num s) (sc_max st)"
  "sc_undos (scan_sop s st) \<longleftrightarrow> sc_undos st \<or> has_flag (sem_flg s) SEM_UNDO"
  "sc_alter (scan_sop s st) \<longleftrightarrow> sc_alter st \<or> sem_op s \<noteq> 0"
  "sc_dupsop (scan_sop s st) \<longleftrightarrow> sc_dupsop st \<or> bit (sc_dup st) (sem_num s mod 64)"
  "bit (sc_dup (scan_sop s st)) n \<longleftrightarrow>
     bit (sc_dup st) n \<or> (sem_op s \<noteq> 0 \<and> n = sem_num s mod 64)"
  by (simp_all add: scan_sop_def Let_def has_flag_bit max_def bit_simps) auto

lemma fold_scan_sop:
  "sc_max (fold scan_sop sops st) = fold (max \<circ> sem_num) sops (sc_max st)"
  "sc_undos (fold scan_sop sops st) \<longleftrightarrow> sc_undos st \<or> (\<exists>s \<in> set sops. has_flag (sem_flg s) SEM_UNDO)"
  "sc_alter (fold scan_sop sops st) \<longleftrightarrow> sc_alter st \<or> (\<exists>s \<in> set sops. sem_op s \<noteq> 0)"
  by (induction sops arbitrary: st) (simp_all add: scan_sop_simps disj_assoc)

lemma fold_scan_sop_nodup:
  "\<not> sc_dupsop (fold scan_sop sops st) \<Longrightarrow>
     \<not> sc_dupsop st \<and> nodup_alter sops \<and> (\<forall>s \<in> set sops. \<not> bit (sc_dup st) (sem_num s mod 64))"
proof (induction sops arbitrary: st)
  case (Cons s rest)
  then have "\<not> sc_dupsop (scan_sop s st)" "nodup_alter rest"
    "\<forall>t \<in> set rest. \<not> bit (sc_dup (scan_sop s st)) (sem_num t mod 64)"
    by auto
  then show ?case by (auto simp: scan_sop_simps)
qed simp

lemma max_fold_ge: "x \<in> set sops \<Longrightarrow> sem_num x \<le> fold (max \<circ> sem_num) sops (m :: nat)"
  and max_fold_start: "m \<le> fold (max \<circ> sem_num) sops (m :: nat)"
proof -
  show start: "m \<le> fold (max \<circ> sem_num) sops (m :: nat)" for m sops
    by (induction sops arbitrary: m) (simp_all, metis max.cobounded2 order_trans)
  show "x \<in> set sops \<Longrightarrow> sem_num x \<le> fold (max \<circ> sem_num) sops (m :: nat)"
    by (induction sops arbitrary: m) (simp_all, metis max.cobounded1 order_trans start)
qed

lemma scan_sops_facts:
  shows "\<And>s. s \<in> set sops \<Longrightarrow> sem_num s \<le> sc_max (scan_sops sops)"
    and "sc_undos (scan_sops sops) \<longleftrightarrow> (\<exists>s \<in> set sops. has_flag (sem_flg s) SEM_UNDO)"
    and "sc_alter (scan_sops sops) \<longleftrightarrow> (\<exists>s \<in> set sops. sem_op s \<noteq> 0)"
    and "sc_dupsop (scan_sops sops) \<or> nodup_alter sops"
  using fold_scan_sop_nodup [of sops]
  by (auto simp: scan_sops_def fold_scan_sop max_fold_ge)


section \<open>What an execution does to values and adjustments\<close>

lemma run_sops_ConsE:
  assumes "run_sops (s # rest) (vs, adj) = (ScanEnd, st)"
  shows "sop_stop s (vs ! sem_num s) (adj ! sem_num s) = None"
    and "run_sops rest (vs[sem_num s := vs ! sem_num s + sem_op s],
           if has_flag (sem_flg s) SEM_UNDO
           then adj[sem_num s := adj ! sem_num s - sem_op s] else adj) = (ScanEnd, st)"
  using assms sop_stop_End [of s] by (auto simp: Let_def split: option.splits)

lemma run_sops_frame:
  "run_sops sops (vs, adj) = (ScanEnd, vs', adj') \<Longrightarrow> i \<notin> sem_num ` set sops \<Longrightarrow>
     vs' ! i = vs ! i \<and> adj' ! i = adj ! i"
proof (induction sops arbitrary: vs adj)
  case (Cons s rest)
  from Cons.IH [OF run_sops_ConsE(2) [OF Cons.prems(1)]] Cons.prems(2) show ?case
    by (auto split: if_splits)
qed simp

lemma run_sops_const:
  "run_sops sops (vs, adj) = (ScanEnd, st) \<Longrightarrow> \<forall>s \<in> set sops. sem_op s = 0 \<Longrightarrow> st = (vs, adj)"
proof (induction sops arbitrary: vs adj)
  case (Cons s rest)
  from Cons.IH [OF run_sops_ConsE(2) [OF Cons.prems(1)]] Cons.prems(2) show ?case
    by (auto split: if_splits)
qed simp

definition vals_in_range :: "int list \<Rightarrow> bool" where
  "vals_in_range vs \<longleftrightarrow> (\<forall>v \<in> set vs. 0 \<le> v \<and> v \<le> SEMVMX)"

definition adjs_in_range :: "int list \<Rightarrow> bool" where
  "adjs_in_range adj \<longleftrightarrow> (\<forall>a \<in> set adj. - SEMAEM - 1 \<le> a \<and> a \<le> SEMAEM)"

lemma in_range_update:
  "vals_in_range vs \<Longrightarrow> 0 \<le> v \<Longrightarrow> v \<le> SEMVMX \<Longrightarrow> vals_in_range (vs[i := v])"
  "adjs_in_range adj \<Longrightarrow> - SEMAEM - 1 \<le> a \<Longrightarrow> a \<le> SEMAEM \<Longrightarrow> adjs_in_range (adj[i := a])"
  using set_update_subset_insert [of vs i v] set_update_subset_insert [of adj i a]
  by (auto simp: vals_in_range_def adjs_in_range_def)

lemma run_sops_in_range:
  "run_sops sops (vs, adj) = (ScanEnd, vs', adj') \<Longrightarrow> vals_in_range vs \<Longrightarrow> adjs_in_range adj \<Longrightarrow>
     vals_in_range vs' \<and> adjs_in_range adj'"
proof (induction sops arbitrary: vs adj)
  case (Cons s rest)
  have "\<not> (vs ! sem_num s + sem_op s < 0 \<or> vs ! sem_num s + sem_op s > SEMVMX) \<and>
      (has_flag (sem_flg s) SEM_UNDO \<longrightarrow>
        \<not> (adj ! sem_num s - sem_op s < - SEMAEM - 1 \<or> adj ! sem_num s - sem_op s > SEMAEM))"
    using run_sops_ConsE(1) [OF Cons.prems(1)] by (auto simp: sop_stop_def split: if_splits)
  then show ?case
    using Cons.prems(2,3) by (intro Cons.IH [OF run_sops_ConsE(2) [OF Cons.prems(1)]])
      (auto simp: in_range_update)
qed simp

lemma run_sops_sum:
  assumes "run_sops sops (vs, adj) = (ScanEnd, vs', adj')"
    and "\<forall>s \<in> set sops. sem_num s = i \<longrightarrow> has_flag (sem_flg s) SEM_UNDO"
    and "i < length vs" and "i < length adj"
  shows "vs' ! i + adj' ! i = vs ! i + adj ! i"
  using assms
proof (induction sops arbitrary: vs adj)
  case (Cons s rest)
  from Cons.IH [OF run_sops_ConsE(2) [OF Cons.prems(1)]] Cons.prems(2-4) show ?case
    by (cases "sem_num s = i") auto
qed simp

lemma vals_commit:
  assumes "length (fst st) = length (sems (c_sma c))"
  shows "vals (commit un p sops st c) = fst st"
  using assms by (intro nth_equalityI) (simp_all add: vals_def commit_def)

lemma adjs_commit: "un \<noteq> None \<Longrightarrow> adjs (commit un p sops st c) un = snd st"
  by (auto simp: adjs_def commit_def undo_of_def)

lemma semop_spec_cases:
  obtains (completed) vs' adj' where
    "run_sops (q_sops q) (vals c, adjs c (q_undo q)) = (ScanEnd, vs', adj')"
    "semop_spec c q = (SemDone, q, commit (q_undo q) (q_pid q) (q_sops q) (vs', adj') c)"
  | (range) "semop_spec c q = (SemErr ERANGE, q, c)"
  | (block) sop st where
    "run_sops (q_sops q) (vals c, adjs c (q_undo q)) = (ScanBlock sop, st)"
    "semop_spec c q = (block_result sop, q\<lparr>q_blocking := Some sop\<rparr>, c)"
proof -
  obtain r vs' adj' where r: "run_sops (q_sops q) (vals c, adjs c (q_undo q)) = (r, vs', adj')"
    by (metis prod_cases3)
  then show ?thesis using that by (cases r) (auto simp: semop_spec_def)
qed

lemma block_result_neq [simp]: "block_result sop \<noteq> SemDone" "SemDone \<noteq> block_result sop"
  by (simp_all add: block_result_def)

section \<open>Properties\<close>

text \<open>
  The entry that \<open>do_semtimedop\<close> builds: its flags come from the scan over the operations, the
  highest semaphore number was checked, and there is an undo structure when one is needed.
\<close>

definition entry_ok :: "sem_ctx \<Rightarrow> sem_queue \<Rightarrow> bool" where
  "entry_ok c q \<longleftrightarrow>
     ctx_ok c \<and> undo_ok c (q_undo q) \<and> q_sops q \<noteq> [] \<and>
     sc_max (scan_sops (q_sops q)) < c_nsems c \<and>
     (sc_undos (scan_sops (q_sops q)) \<longrightarrow> q_undo q \<noteq> None) \<and>
     q_alter q = sc_alter (scan_sops (q_sops q)) \<and>
     q_dupsop q = sc_dupsop (scan_sops (q_sops q))"

lemma entry_okD:
  assumes "entry_ok c q"
  shows "ctx_ok c" and "undo_ok c (q_undo q)" and "sops_ok (c_nsems c) (q_undo q) (q_sops q)"
    and "q_dupsop q \<or> nodup_alter (q_sops q)" and "q_sops q \<noteq> []"
    and "q_alter q \<longleftrightarrow> (\<exists>s \<in> set (q_sops q). sem_op s \<noteq> 0)"
  using assms scan_sops_facts(1) [of _ "q_sops q"] scan_sops_facts(4) [of "q_sops q"]
  by (auto simp: entry_ok_def sops_ok_def scan_sops_facts(2,3) intro: le_less_trans)

lemma perform_entry: "entry_ok c q \<Longrightarrow> perform_atomic_semop c q = semop_spec c q"
  using entry_okD [of c q] by (intro perform_spec)

text \<open>An array of two semaphores with values 3 and 0, and an undo structure at address 2.\<close>

definition sample_sem :: "int \<Rightarrow> sem" where
  "sample_sem v = \<lparr>semval = v, sempid = None, sem_pending_alter = [], sem_pending_const = [],
     sem_otime = 0\<rparr>"

definition sample_sma :: sem_array where
  "sample_sma = kern_ipc_perm.extend sample_perm
     \<lparr>sem_ctime = 0, pending_alter = [], pending_const = [], list_id = [2], sem_nsems = 2,
      complex_count = 0, use_global_lock = 10, sems = [sample_sem 3, sample_sem 0]\<rparr>"

definition sample_ctx :: sem_ctx where
  "sample_ctx = \<lparr>c_sma = sample_sma,
     c_undo = [2 \<mapsto> \<lparr>un_ulp = 0, un_semid = 0, semadj = [0, 0]\<rparr>], c_wake = []\<rparr>"

definition sample_q :: "sembuf list \<Rightarrow> sem_queue" where
  "sample_q sops = \<lparr>q_sleeper = 5, q_undo = Some 2, q_pid = 9, q_status = None, q_sops = sops,
     q_blocking = None, q_alter = sc_alter (scan_sops sops), q_dupsop = sc_dupsop (scan_sops sops)\<rparr>"

definition sample_sops :: "sembuf list" where
  "sample_sops = [\<lparr>sem_num = 0, sem_op = -2, sem_flg = 0x1000\<rparr>, \<lparr>sem_num = 1, sem_op = 1, sem_flg = 0x1000\<rparr>]"

lemmas sample_defs = sample_sem_def sample_sma_def sample_ctx_def sample_q_def sample_sops_def
  sample_perm_def kern_ipc_perm.defs

lemma sample_scan: "scan_sops sample_sops =
    \<lparr>sc_max = 1, sc_undos = True, sc_alter = True, sc_dupsop = False, sc_dup = 3\<rparr>"
  by (simp add: scan_sops_def sample_sops_def scan_sop_def abi_defs)

lemma entry_ok_sample: "entry_ok sample_ctx (sample_q sample_sops)"
  unfolding entry_ok_def
  by (simp add: sample_q_def sample_scan)
    (simp add: sample_defs ctx_ok_def undo_ok_def c_nsems_def)


text \<open>
  C1.  The routine that \<open>do_semtimedop\<close> and the wakeup code call executes the operations of an
  entry in sequence, all or nothing: the values, adjustments and process ids of a completed
  entry are those of the sequential execution, an entry that cannot be completed changes no
  value and no adjustment and names the operation that blocked.  This holds for the two-pass
  routine as well as for the routine that executes and walks back.
\<close>

theorem perform_atomic_semop_refines:
  assumes "entry_ok c q"
  shows "perform_atomic_semop c q = semop_spec c q"
  using assms by (rule perform_entry)

theorem perform_atomic_semop_refines_witness:
  "entry_ok sample_ctx (sample_q sample_sops) \<and>
   fst (perform_atomic_semop sample_ctx (sample_q sample_sops)) = SemDone \<and>
   vals (snd (snd (perform_atomic_semop sample_ctx (sample_q sample_sops)))) = [1, 1]"
proof -
  have run: "run_sops sample_sops ([3, 0], [0, 0]) = (ScanEnd, [1, 1], [2, -1])"
    by (simp add: sample_sops_def sop_stop_def abi_defs)
  have v: "vals sample_ctx = [3, 0]" "adjs sample_ctx (Some 2) = [0, 0]"
    by (simp_all add: sample_defs vals_def adjs_def undo_of_def)
  have l: "length (sems (c_sma sample_ctx)) = 2" by (simp add: sample_defs)
  show ?thesis
    unfolding perform_atomic_semop_refines [OF entry_ok_sample]
    by (intro conjI entry_ok_sample) (simp_all add: semop_spec_def sample_q_def v run vals_commit l)
qed

text \<open>
  C36.  The test for repeated semaphores is safe: on every entry whose flags the scan with the
  64-bit mask computed, the fast two-pass routine and the slow routine give the same result,
  the same queue entry and the same state.
\<close>

theorem fast_path_equals_slow_path:
  assumes "entry_ok c q"
  shows "perform_atomic_semop c q = perform_atomic_semop_slow c q"
  using perform_entry [OF assms] perform_slow_spec [OF entry_okD(1-3) [OF assms]] by simp

theorem fast_path_equals_slow_path_witness:
  "\<not> q_dupsop (sample_q sample_sops) \<and>
   perform_atomic_semop sample_ctx (sample_q sample_sops) =
   perform_atomic_semop_slow sample_ctx (sample_q sample_sops)"
  using fast_path_equals_slow_path [OF entry_ok_sample] by (simp add: sample_q_def sample_scan)

text \<open>
  Semaphore values stay between 0 and \<open>SEMVMX\<close> and adjustments within a \<open>short\<close>: the
  arithmetic of the C code never leaves its types.
\<close>

theorem perform_atomic_semop_bounds:
  assumes "entry_ok c q" and "vals_in_range (vals c)" and "adjs_in_range (adjs c (q_undo q))"
  shows "case perform_atomic_semop c q of (_, _, c') \<Rightarrow>
     vals_in_range (vals c') \<and> adjs_in_range (adjs c' (q_undo q))"
  unfolding perform_entry [OF assms(1)]
proof (cases rule: semop_spec_cases [of q c])
  case (completed vs' adj')
  have "length vs' = length (sems (c_sma c))" using run_sops_length [OF completed(1)] by simp
  with completed assms(2,3) run_sops_in_range [OF completed(1)]
  show "case semop_spec c q of (_, _, c') \<Rightarrow> vals_in_range (vals c') \<and> adjs_in_range (adjs c' (q_undo q))"
    by (cases "q_undo q") (simp_all add: vals_commit adjs_commit, simp add: adjs_def adjs_in_range_def)
qed (use assms in simp_all)

theorem perform_atomic_semop_bounds_witness:
  "case perform_atomic_semop sample_ctx (sample_q sample_sops) of (_, _, c') \<Rightarrow>
     vals_in_range (vals c') \<and> adjs_in_range (adjs c' (Some 2))"
proof -
  have "vals_in_range (vals sample_ctx)" "adjs_in_range (adjs sample_ctx (q_undo (sample_q sample_sops)))"
    by (simp_all add: sample_defs vals_def adjs_def undo_of_def vals_in_range_def adjs_in_range_def abi_defs)
  from perform_atomic_semop_bounds [OF entry_ok_sample this] show ?thesis by (simp add: sample_q_def)
qed

text \<open>
  The undo bookkeeping balances: when every operation of an entry on a semaphore carries
  \<open>SEM_UNDO\<close>, the sum of the semaphore's value and the recorded adjustment is the same after
  the call as before, so adding the adjustment at exit gives back what the process took.
\<close>

theorem semadj_balances_semval:
  assumes "entry_ok c q" and "q_undo q = Some a" and "i < c_nsems c"
    and "\<forall>s \<in> set (q_sops q). sem_num s = i \<longrightarrow> has_flag (sem_flg s) SEM_UNDO"
  shows "case perform_atomic_semop c q of (_, _, c') \<Rightarrow>
     semval_at c' i + semadj_at c' (Some a) i = semval_at c i + semadj_at c (Some a) i"
  unfolding perform_entry [OF assms(1)]
proof (cases rule: semop_spec_cases [of q c])
  case (completed vs' adj')
  note ok = entry_okD [OF assms(1)]
  have n: "i < length (sems (c_sma c))" "i < length (adjs c (Some a))"
    using ok(1,2) assms(2,3) by (auto simp: ctx_ok_def undo_ok_def adjs_def undo_of_def split: option.splits)
  let ?c' = "commit (q_undo q) (q_pid q) (q_sops q) (vs', adj') c"
  have "semval_at ?c' i = vs' ! i" "semadj_at ?c' (Some a) i = adj' ! i"
    using n assms(2) by (simp_all add: commit_def semval_at_def semadj_at_def undo_of_def)
  moreover have "vals c ! i = semval_at c i" "adjs c (Some a) ! i = semadj_at c (Some a) i"
    using n by (simp_all add: vals_nth adjs_def semadj_at_def)
  ultimately show "case semop_spec c q of (_, _, c') \<Rightarrow>
      semval_at c' i + semadj_at c' (Some a) i = semval_at c i + semadj_at c (Some a) i"
    using run_sops_sum [OF completed(1) assms(4)] n completed(2) assms(2) by simp
qed simp_all

theorem semadj_balances_semval_witness:
  "case perform_atomic_semop sample_ctx (sample_q sample_sops) of (_, _, c') \<Rightarrow>
     semval_at c' 0 + semadj_at c' (Some 2) 0 = 3"
proof -
  have "\<forall>s \<in> set (q_sops (sample_q sample_sops)). sem_num s = 0 \<longrightarrow> has_flag (sem_flg s) SEM_UNDO"
    by (simp add: sample_q_def sample_sops_def abi_defs)
  moreover have "q_undo (sample_q sample_sops) = Some 2" "0 < c_nsems sample_ctx"
    "semval_at sample_ctx 0 + semadj_at sample_ctx (Some 2) 0 = 3"
    by (simp_all add: sample_defs c_nsems_def semval_at_def semadj_at_def undo_of_def)
  ultimately show ?thesis
    using semadj_balances_semval [OF entry_ok_sample, of 2 0] by simp
qed

end
