(* ===== verification/Sem_Wakeup.thy ===== *)
theory Sem_Wakeup
  imports Sem_Semop
begin

text \<open>
  Waking of sleeping operations (\<open>ipc/sem.c\<close>): \<open>wake_const_ops\<close>, \<open>do_smart_wakeup_zero\<close>,
  \<open>update_queue\<close>, \<open>do_smart_update\<close> and the counting of waiters, with the invariant of the wait
  queues and the theorem that no sleeping operation is left behind that could be completed.

  A loop over a wait queue is a recursion over the entries still to be visited; \<open>dn\<close> holds the
  entries visited and kept, so that the queue is \<open>dn\<close> followed by the entries to visit, and
  \<open>list_del\<close> of the visited entry leaves \<open>dn @ rest\<close>.
\<close>

section \<open>Operations\<close>

definition wake_up_sem_queue_prepare :: "sem_queue \<Rightarrow> errno option \<Rightarrow> sem_ctx \<Rightarrow> sem_ctx" where
  "wake_up_sem_queue_prepare q error c = c\<lparr>c_wake := c_wake c @ [q\<lparr>q_status := error\<rparr>]\<rparr>"

definition unlink_queue ::
    "pend \<Rightarrow> sem_queue list \<Rightarrow> sem_queue list \<Rightarrow> sem_queue \<Rightarrow> sem_ctx \<Rightarrow> sem_ctx" where
  "unlink_queue p dn rest q c =
     (let sma1 = set_list p (dn @ rest) (c_sma c);
          sma2 = (if nsops q > 1 then sma1\<lparr>complex_count := complex_count sma1 - 1\<rparr> else sma1)
      in c\<lparr>c_sma := sma2\<rparr>)"

definition check_restart :: "sem_array \<Rightarrow> sem_queue \<Rightarrow> bool" where
  "check_restart sma q =
     (if pending_alter sma \<noteq> [] then True else if nsops q > 1 then True else False)"

fun const_loop ::
    "pend \<Rightarrow> sem_queue list \<Rightarrow> sem_queue list \<Rightarrow> bool \<Rightarrow> sem_ctx \<Rightarrow> bool \<times> sem_ctx" where
  "const_loop p dn [] completed c = (completed, c)"
| "const_loop p dn (q # rest) completed c =
     (case perform_atomic_semop c q of
        (SemSleep, q1, c1) \<Rightarrow>
          const_loop p (dn @ [q1]) rest completed (c1\<lparr>c_sma := set_list p (dn @ q1 # rest) (c_sma c1)\<rparr>)
      | (SemErr e, q1, c1) \<Rightarrow>
          const_loop p dn rest completed
            (wake_up_sem_queue_prepare q1 (Some e) (unlink_queue p dn rest q1 c1))
      | (SemDone, q1, c1) \<Rightarrow>
          const_loop p dn rest True
            (wake_up_sem_queue_prepare q1 None (unlink_queue p dn rest q1 c1)))"

text \<open>\<open>None\<close> stands for the C argument \<open>semnum == -1\<close>.\<close>

definition wake_const_ops :: "nat option \<Rightarrow> sem_ctx \<Rightarrow> bool \<times> sem_ctx" where
  "wake_const_ops semnum c =
     (let p = (case semnum of None \<Rightarrow> GConst | Some i \<Rightarrow> SConst i)
      in const_loop p [] (get_list p (c_sma c)) False c)"

fun zero_loop :: "nat list \<Rightarrow> bool \<Rightarrow> bool \<Rightarrow> sem_ctx \<Rightarrow> bool \<times> bool \<times> sem_ctx" where
  "zero_loop [] got_zero completed c = (got_zero, completed, c)"
| "zero_loop (num # rest) got_zero completed c =
     (if semval_at c num = 0
      then case wake_const_ops (Some num) c of
             (fin, c1) \<Rightarrow> zero_loop rest True (completed \<or> fin) c1
      else zero_loop rest got_zero completed c)"

definition do_smart_wakeup_zero :: "sembuf list option \<Rightarrow> sem_ctx \<Rightarrow> bool \<times> sem_ctx" where
  "do_smart_wakeup_zero sops c =
     (let nums = (case sops of Some l \<Rightarrow> map sem_num l | None \<Rightarrow> [0..<c_nsems c])
      in case zero_loop nums False False c of
           (got_zero, completed, c1) \<Rightarrow>
             if got_zero
             then case wake_const_ops None c1 of (fin, c2) \<Rightarrow> (completed \<or> fin, c2)
             else (completed, c1))"

definition semval_is_zero :: "nat option \<Rightarrow> sem_ctx \<Rightarrow> bool" where
  "semval_is_zero semnum c = (case semnum of None \<Rightarrow> False | Some i \<Rightarrow> semval_at c i = 0)"

definition alter_list :: "nat option \<Rightarrow> pend" where
  "alter_list semnum = (case semnum of None \<Rightarrow> GAlter | Some i \<Rightarrow> SAlter i)"

text \<open>The \<open>goto again\<close> of the C code starts over at the head of the queue that is left.\<close>

function update_loop ::
    "nat option \<Rightarrow> sem_queue list \<Rightarrow> sem_queue list \<Rightarrow> bool \<Rightarrow> sem_ctx \<Rightarrow> bool \<times> sem_ctx" where
  "update_loop semnum dn [] completed c = (completed, c)"
| "update_loop semnum dn (q # rest) completed c =
     (let p = alter_list semnum
      in if semval_is_zero semnum c then (completed, c)
         else case perform_atomic_semop c q of
                (SemSleep, q1, c1) \<Rightarrow>
                  update_loop semnum (dn @ [q1]) rest completed
                    (c1\<lparr>c_sma := set_list p (dn @ q1 # rest) (c_sma c1)\<rparr>)
              | (SemErr e, q1, c1) \<Rightarrow>
                  update_loop semnum dn rest completed
                    (wake_up_sem_queue_prepare q1 (Some e) (unlink_queue p dn rest q1 c1))
              | (SemDone, q1, c1) \<Rightarrow>
                  let c2 = snd (do_smart_wakeup_zero (Some (q_sops q1)) (unlink_queue p dn rest q1 c1));
                      restart = check_restart (c_sma c2) q1;
                      c3 = wake_up_sem_queue_prepare q1 None c2
                  in if restart then update_loop semnum [] (dn @ rest) True c3
                     else update_loop semnum dn rest True c3)"
  by pat_completeness auto
termination
  by (relation "measures [\<lambda>(semnum, dn, todo, _). length dn + length todo,
                          \<lambda>(semnum, dn, todo, _). length todo]") auto

definition update_queue :: "nat option \<Rightarrow> sem_ctx \<Rightarrow> bool \<times> sem_ctx" where
  "update_queue semnum c = update_loop semnum [] (get_list (alter_list semnum) (c_sma c)) False c"

definition set_semotime :: "int \<Rightarrow> sembuf list option \<Rightarrow> sem_ctx \<Rightarrow> sem_ctx" where
  "set_semotime now sops c =
     (let i = (case sops of None \<Rightarrow> 0 | Some l \<Rightarrow> sem_num (hd l))
      in c\<lparr>c_sma := upd_sem i (\<lambda>s. s\<lparr>sem_otime := now\<rparr>) (c_sma c)\<rparr>)"

fun update_nums :: "nat list \<Rightarrow> bool \<Rightarrow> sem_ctx \<Rightarrow> bool \<times> sem_ctx" where
  "update_nums [] otime c = (otime, c)"
| "update_nums (i # rest) otime c =
     (case update_queue (Some i) c of (fin, c1) \<Rightarrow> update_nums rest (otime \<or> fin) c1)"

definition do_smart_update :: "int \<Rightarrow> sembuf list option \<Rightarrow> bool \<Rightarrow> sem_ctx \<Rightarrow> sem_ctx" where
  "do_smart_update now sops otime c =
     (case do_smart_wakeup_zero sops c of
        (fin, c1) \<Rightarrow>
          let (otime2, c2) =
            (if pending_alter (c_sma c1) \<noteq> []
             then (case update_queue None c1 of (f, c') \<Rightarrow> (otime \<or> fin \<or> f, c'))
             else update_nums
                    (case sops of
                       None \<Rightarrow> [0..<c_nsems c1]
                     | Some l \<Rightarrow> map sem_num (filter (\<lambda>sop. sem_op sop > 0) l))
                    (otime \<or> fin) c1)
          in if otime2 then set_semotime now sops c2 else c2)"

text \<open>\<open>pr_info_once\<close> only logs.\<close>

definition check_qop :: "nat \<Rightarrow> sem_queue \<Rightarrow> bool \<Rightarrow> nat" where
  "check_qop semnum q count_zero =
     (let sop = the (q_blocking q)
      in if sem_num sop \<noteq> semnum then 0
         else if count_zero \<and> sem_op sop = 0 then 1
         else if \<not> count_zero \<and> sem_op sop < 0 then 1
         else 0)"

definition count_semcnt :: "sem_array \<Rightarrow> nat \<Rightarrow> bool \<Rightarrow> nat" where
  "count_semcnt sma semnum count_zero =
     (let l = get_list (if count_zero then SConst semnum else SAlter semnum) sma;
          n1 = length l;
          n2 = n1 + sum_list (map (\<lambda>q. check_qop semnum q count_zero) (pending_alter sma))
      in if count_zero
         then n2 + sum_list (map (\<lambda>q. check_qop semnum q count_zero) (pending_const sma))
         else n2)"


section \<open>Wait queues of a context\<close>

abbreviation queue_of :: "pend \<Rightarrow> sem_ctx \<Rightarrow> sem_queue list" where
  "queue_of p c \<equiv> get_list p (c_sma c)"

text \<open>The context with one queue replaced and the count of complex operations set.\<close>

definition put_queue :: "pend \<Rightarrow> sem_queue list \<Rightarrow> int \<Rightarrow> sem_ctx \<Rightarrow> sem_ctx" where
  "put_queue p l n c = c\<lparr>c_sma := (set_list p l (c_sma c))\<lparr>complex_count := n\<rparr>\<rparr>"

lemma set_list_simps [simp]:
  "sem_nsems (set_list p l sma) = sem_nsems sma"
  "complex_count (set_list p l sma) = complex_count sma"
  "use_global_lock (set_list p l sma) = use_global_lock sma"
  "length (sems (set_list p l sma)) = length (sems sma)"
  "map semval (sems (set_list p l sma)) = map semval (sems sma)"
  by (cases p; simp add: upd_sem_def list_update_map_id)+

lemma get_list_set_list:
  assumes "valid_pend (length (sems sma)) p"
  shows "get_list p' (set_list p l sma) = (if p' = p then l else get_list p' sma)"
  using assms by (cases p; cases p') (auto simp: upd_sem_def nth_list_update)

lemma get_list_complex [simp]:
  "get_list p (sma\<lparr>complex_count := n\<rparr>) = get_list p sma"
  "get_list p (sma\<lparr>use_global_lock := w\<rparr>) = get_list p sma"
  by (cases p; simp)+

lemma put_queue_simps [simp]:
  "c_nsems (put_queue p l n c) = c_nsems c"
  "vals (put_queue p l n c) = vals c"
  "length (sems (c_sma (put_queue p l n c))) = length (sems (c_sma c))"
  "c_undo (put_queue p l n c) = c_undo c"
  "c_wake (put_queue p l n c) = c_wake c"
  "complex_count (c_sma (put_queue p l n c)) = n"
  "use_global_lock (c_sma (put_queue p l n c)) = use_global_lock (c_sma c)"
  by (simp_all add: put_queue_def c_nsems_def vals_def)

lemma queue_of_put_queue:
  "valid_pend (length (sems (c_sma c))) p \<Longrightarrow>
     queue_of p' (put_queue p l n c) = (if p' = p then l else queue_of p' c)"
  by (simp add: put_queue_def get_list_set_list)

lemma set_list_put_queue:
  "c\<lparr>c_sma := set_list p l (c_sma c)\<rparr> = put_queue p l (complex_count (c_sma c)) c"
  by (simp add: put_queue_def)

lemma unlink_queue_put_queue:
  "unlink_queue p dn rest q c =
     put_queue p (dn @ rest) (complex_count (c_sma c) - (if nsops q > 1 then 1 else 0)) c"
  by (simp add: unlink_queue_def put_queue_def Let_def)

lemma wake_prepare_simps [simp]:
  "c_sma (wake_up_sem_queue_prepare q e c) = c_sma c"
  "c_undo (wake_up_sem_queue_prepare q e c) = c_undo c"
  "vals (wake_up_sem_queue_prepare q e c) = vals c"
  "c_nsems (wake_up_sem_queue_prepare q e c) = c_nsems c"
  by (simp_all add: wake_up_sem_queue_prepare_def vals_def c_nsems_def)

lemma semval_at_vals:
  "vals c' = vals c \<Longrightarrow> i < length (sems (c_sma c)) \<Longrightarrow> semval_at c' i = semval_at c i"
  by (metis length_vals vals_nth)

section \<open>The invariant of the wait queues\<close>

definition nowait :: "sembuf \<Rightarrow> bool" where
  "nowait sop = has_flag (sem_flg sop) (ucast IPC_NOWAIT)"

lemma block_result_nowait: "block_result sop = (if nowait sop then SemErr EAGAIN else SemSleep)"
  by (simp add: block_result_def nowait_def)

text \<open>An operation that sleeps although it alters only one semaphore is a decrement.\<close>

definition simple_dec :: "sem_queue \<Rightarrow> bool" where
  "simple_dec q \<longleftrightarrow> sem_op (hd (q_sops q)) < 0 \<and> \<not> nowait (hd (q_sops q))"

fun place_ok :: "pend \<Rightarrow> sem_queue \<Rightarrow> bool" where
  "place_ok GAlter q = (q_alter q \<and> (nsops q = 1 \<longrightarrow> simple_dec q))"
| "place_ok GConst q = (\<not> q_alter q \<and> nsops q > 1)"
| "place_ok (SAlter i) q = (q_alter q \<and> nsops q = 1 \<and> simple_dec q \<and> sem_num (hd (q_sops q)) = i)"
| "place_ok (SConst i) q = (\<not> q_alter q \<and> nsops q = 1 \<and> sem_num (hd (q_sops q)) = i)"

definition complex_entries :: "sem_ctx \<Rightarrow> int" where
  "complex_entries c = int (length (filter (\<lambda>q. nsops q > 1) (queue_of GAlter c @ queue_of GConst c)))"

definition entries_ok :: "sem_ctx \<Rightarrow> bool" where
  "entries_ok c \<longleftrightarrow>
     (\<forall>p. valid_pend (c_nsems c) p \<longrightarrow> (\<forall>q \<in> set (queue_of p c). entry_ok c q \<and> place_ok p q))"

definition one_mode :: "sem_ctx \<Rightarrow> bool" where
  "one_mode c \<longleftrightarrow> (queue_of GAlter c \<noteq> [] \<or> complex_count (c_sma c) \<noteq> 0 \<longrightarrow>
     (\<forall>i < c_nsems c. queue_of (SAlter i) c = []))"

definition wq_inv :: "sem_ctx \<Rightarrow> bool" where
  "wq_inv c \<longleftrightarrow> ctx_ok c \<and> vals_in_range (vals c) \<and> entries_ok c \<and>
     complex_count (c_sma c) = complex_entries c \<and> one_mode c"

lemma wq_invD:
  assumes "wq_inv c"
  shows "ctx_ok c" and "vals_in_range (vals c)" and "entries_ok c"
    and "complex_count (c_sma c) = complex_entries c" and "one_mode c"
    and "length (sems (c_sma c)) = c_nsems c"
  using assms by (simp_all add: wq_inv_def ctx_ok_def)

text \<open>Whether an entry is well formed depends on the shape of the context only.\<close>

definition same_shape :: "sem_ctx \<Rightarrow> sem_ctx \<Rightarrow> bool" where
  "same_shape c c' \<longleftrightarrow>
     c_nsems c' = c_nsems c \<and> length (sems (c_sma c')) = length (sems (c_sma c)) \<and>
     (\<forall>a. map_option (length \<circ> semadj) (c_undo c' a) = map_option (length \<circ> semadj) (c_undo c a))"

lemma same_shape_undo_ok: "same_shape c c' \<Longrightarrow> undo_ok c' un = undo_ok c un"
proof (cases un)
  case (Some a)
  assume s: "same_shape c c'"
  then have "map_option (length \<circ> semadj) (c_undo c' a) = map_option (length \<circ> semadj) (c_undo c a)"
    by (simp add: same_shape_def)
  with s Some show ?thesis
    by (cases "c_undo c a"; cases "c_undo c' a") (simp_all add: undo_ok_def same_shape_def)
qed (simp add: undo_ok_def)

lemma same_shape_entry_ok: "same_shape c c' \<Longrightarrow> entry_ok c' q = entry_ok c q"
  using same_shape_undo_ok [of c c' "q_undo q"] by (simp add: entry_ok_def ctx_ok_def same_shape_def)

lemma same_shape_refl [simp]: "same_shape c c"
  and same_shape_put_queue [simp]: "same_shape c (put_queue p l n c)"
  and same_shape_wake [simp]: "same_shape c (wake_up_sem_queue_prepare q e c)"
  by (simp_all add: same_shape_def)

lemma same_shape_trans: "same_shape c c' \<Longrightarrow> same_shape c' c'' \<Longrightarrow> same_shape c c''"
  by (simp add: same_shape_def)

lemma entry_ok_put_queue [simp]: "entry_ok (put_queue p l n c) q = entry_ok c q"
  by (rule same_shape_entry_ok) simp

lemma entry_ok_wake [simp]: "entry_ok (wake_up_sem_queue_prepare r e c) q = entry_ok c q"
  by (rule same_shape_entry_ok) simp

lemma wq_inv_wake [simp]: "wq_inv (wake_up_sem_queue_prepare q e c) = wq_inv c"
  by (simp add: wq_inv_def entries_ok_def one_mode_def complex_entries_def ctx_ok_def)

lemma entry_ok_blocking [simp]: "entry_ok c (q\<lparr>q_blocking := b\<rparr>) = entry_ok c q"
  by (simp add: entry_ok_def)

lemma place_ok_blocking [simp]: "place_ok p (q\<lparr>q_blocking := b\<rparr>) = place_ok p q"
  by (cases p) (simp_all add: simple_dec_def)

declare get_list.simps [simp del]

lemma wq_inv_put_queue:
  assumes inv: "wq_inv c" and p: "valid_pend (c_nsems c) p"
    and l: "\<And>q. q \<in> set l \<Longrightarrow> entry_ok c q \<and> place_ok p q"
    and mode: "one_mode (put_queue p l n c)" and n: "n = complex_entries (put_queue p l m c)"
  shows "wq_inv (put_queue p l n c)"
proof -
  note i = wq_invD [OF inv]
  have pv: "valid_pend (length (sems (c_sma c))) p" using p i(6) by simp
  note q = queue_of_put_queue [OF pv]
  have "entries_ok (put_queue p l n c)"
    using i(3) l by (auto simp: entries_ok_def q)
  moreover have "complex_entries (put_queue p l n c) = n"
    unfolding n by (simp add: complex_entries_def q)
  ultimately show ?thesis using i(1,2) mode by (simp add: wq_inv_def ctx_ok_def)
qed

lemma queue_entry_ok:
  assumes "wq_inv c" and "valid_pend (c_nsems c) p" and "q \<in> set (queue_of p c)"
  shows "entry_ok c q" and "place_ok p q"
  using wq_invD(3) [OF assms(1)] assms(2,3) by (auto simp: entries_ok_def)

lemma complex_entries_0:
  "complex_entries c = 0 \<Longrightarrow> r \<in> set (queue_of GAlter c @ queue_of GConst c) \<Longrightarrow> \<not> nsops r > 1"
  unfolding complex_entries_def of_nat_eq_0_iff length_0_conv filter_empty_conv by auto

lemma complex_queued:
  "wq_inv c \<Longrightarrow> q \<in> set (queue_of GAlter c @ queue_of GConst c) \<Longrightarrow> nsops q > 1 \<Longrightarrow>
     complex_count (c_sma c) \<noteq> 0"
  using complex_entries_0 [of c q] wq_invD(4) [of c] by auto

text \<open>The two changes the loops make to a queue: an entry gets its blocking operation, or leaves.\<close>

lemma one_mode_shrink:
  assumes inv: "wq_inv c" and p: "valid_pend (c_nsems c) p" and at: "queue_of p c = dn @ q # rest"
    and n: "n = complex_count (c_sma c) \<or> (n = complex_count (c_sma c) - 1 \<and> nsops q > 1)"
  shows "one_mode (put_queue p l n c)"
proof -
  note m = wq_invD(5) [OF inv]
  have pv: "valid_pend (length (sems (c_sma c))) p" using p wq_invD(6) [OF inv] by simp
  have pl: "place_ok p q" using queue_entry_ok(2) [OF inv p] at by simp
  show ?thesis
  proof (cases p)
    case GAlter
    then have "\<forall>i < c_nsems c. queue_of (SAlter i) c = []" using m at by (simp add: one_mode_def)
    then show ?thesis unfolding GAlter by (simp add: one_mode_def queue_of_put_queue)
  next
    case GConst
    have "q \<in> set (queue_of GAlter c @ queue_of GConst c)" using at GConst by simp
    from complex_queued [OF inv this] pl GConst
    have "\<forall>i < c_nsems c. queue_of (SAlter i) c = []" using m by (simp add: one_mode_def)
    then show ?thesis unfolding GConst by (simp add: one_mode_def queue_of_put_queue)
  next
    case (SAlter i)
    have "queue_of GAlter c = [] \<and> complex_count (c_sma c) = 0"
    proof (rule ccontr)
      assume "\<not> (queue_of GAlter c = [] \<and> complex_count (c_sma c) = 0)"
      then have "\<forall>i < c_nsems c. queue_of (SAlter i) c = []" using m unfolding one_mode_def by blast
      with SAlter p at show False by simp
    qed
    moreover have "n = complex_count (c_sma c)" using n pl SAlter by auto
    ultimately show ?thesis using pv unfolding SAlter by (simp add: one_mode_def queue_of_put_queue)
  next
    case (SConst i)
    have "n = complex_count (c_sma c)" using n pl SConst by auto
    then show ?thesis using m pv unfolding SConst by (simp add: one_mode_def queue_of_put_queue)
  qed
qed

lemma wq_inv_keep:
  assumes inv: "wq_inv c" and p: "valid_pend (c_nsems c) p" and at: "queue_of p c = dn @ q # rest"
  shows "wq_inv (put_queue p (dn @ q\<lparr>q_blocking := b\<rparr> # rest) (complex_count (c_sma c)) c)"
proof (rule wq_inv_put_queue [OF inv p])
  note i = wq_invD [OF inv]
  have pv: "valid_pend (length (sems (c_sma c))) p" using p i(6) by simp
  show "entry_ok c r \<and> place_ok p r" if "r \<in> set (dn @ q\<lparr>q_blocking := b\<rparr> # rest)" for r
    using that queue_entry_ok [OF inv p] at by auto
  show "one_mode (put_queue p (dn @ q\<lparr>q_blocking := b\<rparr> # rest) (complex_count (c_sma c)) c)"
    by (rule one_mode_shrink [OF inv p at]) simp
  show "complex_count (c_sma c) =
      complex_entries (put_queue p (dn @ q\<lparr>q_blocking := b\<rparr> # rest) 0 c)"
    using i(4) at pv by (cases p) (simp_all add: complex_entries_def queue_of_put_queue)
qed

lemma wq_inv_unlink:
  assumes inv: "wq_inv c" and p: "valid_pend (c_nsems c) p" and at: "queue_of p c = dn @ q # rest"
  shows "wq_inv (unlink_queue p dn rest q c)"
  unfolding unlink_queue_put_queue
proof (rule wq_inv_put_queue [OF inv p])
  note i = wq_invD [OF inv]
  have pv: "valid_pend (length (sems (c_sma c))) p" using p i(6) by simp
  show "entry_ok c r \<and> place_ok p r" if "r \<in> set (dn @ rest)" for r
    using that queue_entry_ok [OF inv p] at by auto
  show "one_mode (put_queue p (dn @ rest) (complex_count (c_sma c) - (if nsops q > 1 then 1 else 0)) c)"
    by (rule one_mode_shrink [OF inv p at]) simp
  have pl: "place_ok p q" using queue_entry_ok(2) [OF inv p] at by simp
  show "complex_count (c_sma c) - (if nsops q > 1 then 1 else 0) =
      complex_entries (put_queue p (dn @ rest) 0 c)"
    using i(4) at pl pv by (cases p) (simp_all add: complex_entries_def queue_of_put_queue)
qed

subsection \<open>Executing an entry\<close>


text \<open>The entry would still have to sleep: what \<open>update_queue\<close> tests for complex operations.\<close>

definition sleeps :: "sem_ctx \<Rightarrow> sem_queue \<Rightarrow> bool" where
  "sleeps c q \<longleftrightarrow>
     (case run_sops (q_sops q) (vals c, adjs c (q_undo q)) of
        (ScanBlock sop, _) \<Rightarrow> \<not> nowait sop | _ \<Rightarrow> False)"

lemma perform_cases:
  assumes "entry_ok c q"
  obtains (completed) vs adj where
    "run_sops (q_sops q) (vals c, adjs c (q_undo q)) = (ScanEnd, vs, adj)"
    "perform_atomic_semop c q = (SemDone, q, commit (q_undo q) (q_pid q) (q_sops q) (vs, adj) c)"
  | (failed) e q1 where "perform_atomic_semop c q = (SemErr e, q1, c)"
      "q1 = q \<or> (\<exists>b. q1 = q\<lparr>q_blocking := b\<rparr>)" "\<not> sleeps c q"
  | (blocked) sop where "sleeps c q" "sop \<in> set (q_sops q)"
      "perform_atomic_semop c q = (SemSleep, q\<lparr>q_blocking := Some sop\<rparr>, c)"
proof -
  have mem: "run_sops sops st = (ScanBlock sop, st') \<Longrightarrow> sop \<in> set sops" for sops st sop st'
  proof (induction sops st rule: run_sops.induct)
    case (2 s rest vs adj)
    then show ?case
      by (auto simp: Let_def sop_stop_def split: if_splits option.splits)
  qed simp
  show ?thesis
  proof (cases rule: semop_spec_cases [of q c])
    case (completed vs' adj')
    then show ?thesis using that(1) perform_entry [OF assms] by simp
  next
    case range
    then have "\<not> sleeps c q"
      by (auto simp: semop_spec_def sleeps_def block_result_def split: prod.splits scan_exit.splits if_splits)
    then show ?thesis using that(2) range perform_entry [OF assms] by simp
  next
    case (block sop st)
    then show ?thesis
    proof (cases "nowait sop")
      case True
      then show ?thesis using that(2) block perform_entry [OF assms]
        by (simp add: block_result_nowait sleeps_def) blast
    next
      case False
      then show ?thesis using that(3) block perform_entry [OF assms] mem [OF block(1)]
        by (simp add: block_result_nowait sleeps_def)
    qed
  qed
qed

lemma commit_facts:
  assumes "entry_ok c q" and "run_sops (q_sops q) (vals c, adjs c (q_undo q)) = (ScanEnd, vs, adj)"
    and c': "c' = commit (q_undo q) (q_pid q) (q_sops q) (vs, adj) c"
  shows "same_shape c c'" and "c_nsems c' = c_nsems c" and "vals c' = vs"
    and "complex_count (c_sma c') = complex_count (c_sma c)"
    and "use_global_lock (c_sma c') = use_global_lock (c_sma c)"
    and "c_wake c' = c_wake c"
    and "\<And>p. valid_pend (c_nsems c) p \<Longrightarrow> queue_of p c' = queue_of p c"
    and "\<And>i. i < c_nsems c \<Longrightarrow> i \<notin> sem_num ` set (q_sops q) \<Longrightarrow> semval_at c' i = semval_at c i"
proof -
  note ok = entry_okD [OF assms(1)]
  have len: "length vs = length (sems (c_sma c))" "length adj = length (adjs c (q_undo q))"
    using run_sops_length [OF assms(2)] by simp_all
  have n: "length (sems (c_sma c)) = c_nsems c" using ok(1) by (simp add: ctx_ok_def)
  show ns: "c_nsems c' = c_nsems c" and "complex_count (c_sma c') = complex_count (c_sma c)"
    and "use_global_lock (c_sma c') = use_global_lock (c_sma c)" and "c_wake c' = c_wake c"
    by (simp_all add: c' commit_def c_nsems_def)
  show v: "vals c' = vs" using len by (simp add: c' vals_commit)
  show "queue_of p c' = queue_of p c" if "valid_pend (c_nsems c) p" for p
    using that n by (cases p) (simp_all add: c' commit_def get_list.simps)
  have "map_option (length \<circ> semadj) (c_undo c' a) = map_option (length \<circ> semadj) (c_undo c a)" for a
    using len(2) ok(2) by (cases "q_undo q")
      (auto simp: c' commit_def adjs_def undo_of_def undo_ok_def split: option.splits)
  then show "same_shape c c'" using ns by (simp add: same_shape_def c' commit_def)
  show "semval_at c' i = semval_at c i" if "i < c_nsems c" "i \<notin> sem_num ` set (q_sops q)" for i
  proof -
    have "vs ! i = vals c ! i" using run_sops_frame [OF assms(2) that(2)] by simp
    moreover have "semval_at c' i = vs ! i" using that(1) n by (simp add: c' commit_def semval_at_def)
    ultimately show ?thesis using that(1) n by (simp add: vals_nth)
  qed
qed

lemma vals_in_range_run:
  assumes "run_sops sops (vs, adj) = (ScanEnd, vs', adj')" and "vals_in_range vs"
  shows "vals_in_range vs'"
  using assms
proof (induction sops arbitrary: vs adj)
  case (Cons s rest)
  have "\<not> (vs ! sem_num s + sem_op s < 0 \<or> vs ! sem_num s + sem_op s > SEMVMX)"
    using run_sops_ConsE(1) [OF Cons.prems(1)] by (auto simp: sop_stop_def split: if_splits)
  then show ?case using Cons.prems(2)
    by (intro Cons.IH [OF run_sops_ConsE(2) [OF Cons.prems(1)]]) (simp add: in_range_update)
qed simp

lemma wq_inv_commit:
  assumes inv: "wq_inv c" and q: "entry_ok c q"
    and run: "run_sops (q_sops q) (vals c, adjs c (q_undo q)) = (ScanEnd, vs, adj)"
    and c': "c' = commit (q_undo q) (q_pid q) (q_sops q) (vs, adj) c"
  shows "wq_inv c'"
proof -
  note i = wq_invD [OF inv] and f = commit_facts [OF q run c']
  have "ctx_ok c'" using i(1) f(1) by (simp add: ctx_ok_def same_shape_def)
  moreover have "vals_in_range (vals c')" using vals_in_range_run [OF run i(2)] f(3) by simp
  moreover have "entries_ok c'"
    using i(3) by (auto simp: entries_ok_def f(2,7) same_shape_entry_ok [OF f(1)])
  moreover have "complex_count (c_sma c') = complex_entries c'"
    using i(4) f(4) f(7) [of GAlter] f(7) [of GConst] by (simp add: complex_entries_def)
  moreover have "one_mode c'"
    using i(5) by (simp add: one_mode_def f(2,4,7))
  ultimately show ?thesis by (simp add: wq_inv_def)
qed


section \<open>Waking the operations that wait for zero\<close>

text \<open>Some semaphore of the entry is not zero.\<close>

definition nonzero :: "sem_ctx \<Rightarrow> sem_queue \<Rightarrow> bool" where
  "nonzero c q \<longleftrightarrow> (\<exists>s \<in> set (q_sops q). semval_at c (sem_num s) \<noteq> 0)"

definition const_quiet :: "sem_ctx \<Rightarrow> bool" where
  "const_quiet c \<longleftrightarrow>
     (\<forall>q \<in> set (queue_of GConst c). nonzero c q) \<and>
     (\<forall>i < c_nsems c. \<forall>q \<in> set (queue_of (SConst i) c). nonzero c q)"

text \<open>The context after waiters for zero were handled: only their queues changed.\<close>

definition same_state :: "sem_ctx \<Rightarrow> sem_ctx \<Rightarrow> bool" where
  "same_state c c' \<longleftrightarrow> same_shape c c' \<and> vals c' = vals c \<and> c_undo c' = c_undo c \<and>
     use_global_lock (c_sma c') = use_global_lock (c_sma c)"

lemma same_state_refl [simp]: "same_state c c"
  and same_state_put_queue [simp]: "same_state c (put_queue p l n c)"
  and same_state_wake [simp]: "same_state c (wake_up_sem_queue_prepare q e c)"
  by (simp_all add: same_state_def)

lemma same_state_trans: "same_state c c' \<Longrightarrow> same_state c' c'' \<Longrightarrow> same_state c c''"
  by (auto simp: same_state_def intro: same_shape_trans)

lemma same_stateD:
  assumes "same_state c c'"
  shows "c_nsems c' = c_nsems c" and "vals c' = vals c" and "length (sems (c_sma c')) = length (sems (c_sma c))"
    and "\<And>i. i < length (sems (c_sma c)) \<Longrightarrow> semval_at c' i = semval_at c i"
    and "\<And>q. sleeps c' q = sleeps c q" and "\<And>q. entry_ok c' q = entry_ok c q"
  using assms semval_at_vals [of c' c] same_shape_entry_ok [of c c']
  by (auto simp: same_state_def same_shape_def sleeps_def adjs_def undo_of_def split: option.splits)

lemma nonzero_same_state:
  assumes "same_state c c'" and "entry_ok c q"
  shows "nonzero c' q = nonzero c q"
proof -
  have "sem_num s < length (sems (c_sma c))" if "s \<in> set (q_sops q)" for s
    using that entry_okD(1,3) [OF assms(2)] by (simp add: ctx_ok_def sops_ok_def)
  then show ?thesis using same_stateD(4) [OF assms(1)] by (auto simp: nonzero_def)
qed

text \<open>Executing an operation that only waits for zero changes process ids at most.\<close>

lemma commit_const_same_state:
  assumes q: "entry_ok c q" "\<not> q_alter q"
    and run: "run_sops (q_sops q) (vals c, adjs c (q_undo q)) = (ScanEnd, vs, adj)"
    and c': "c' = commit (q_undo q) (q_pid q) (q_sops q) (vs, adj) c"
  shows "same_state c c'"
proof -
  have "\<forall>s \<in> set (q_sops q). sem_op s = 0" using q entry_okD(6) [OF q(1)] by simp
  then have st: "vs = vals c" "adj = adjs c (q_undo q)" using run_sops_const [OF run] by simp_all
  have "c_undo c' = c_undo c"
    using entry_okD(2) [OF q(1)] unfolding c' st
    by (cases "q_undo q") (auto simp: commit_def adjs_def undo_of_def undo_ok_def split: option.splits)
  then show ?thesis using commit_facts [OF q(1) run c'] by (simp add: same_state_def st)
qed

lemma sleeps_const_nonzero:
  assumes "entry_ok c q" and "\<not> q_alter q" and "sleeps c q"
  shows "nonzero c q"
proof -
  have "nonzero c q" if "run_sops sops (vals c, adj) = (ScanBlock sop, st)"
    and "set sops \<subseteq> set (q_sops q)" for sops adj sop st
    using that
  proof (induction sops arbitrary: adj)
    case (Cons s rest)
    have op: "sem_op s = 0" using Cons.prems(2) assms(2) entry_okD(6) [OF assms(1)] by simp
    have n: "sem_num s < length (sems (c_sma c))"
      using Cons.prems(2) entry_okD(1,3) [OF assms(1)] by (simp add: ctx_ok_def sops_ok_def)
    show ?case
    proof (cases "vals c ! sem_num s = 0")
      case True
      then have "(vals c)[sem_num s := 0] = vals c" by (metis list_update_id)
      then have "\<exists>adj1. run_sops rest (vals c, adj1) = (ScanBlock sop, st)"
        using Cons.prems(1) op True
        by (auto simp: Let_def sop_stop_def split: if_splits)
      with Cons.IH Cons.prems(2) show ?thesis by auto
    next
      case False
      then show ?thesis using Cons.prems(2) n by (auto simp: nonzero_def vals_nth)
    qed
  qed simp
  with assms(3) show ?thesis by (auto simp: sleeps_def split: prod.splits scan_exit.splits)
qed


text \<open>
  One step of \<open>wake_const_ops\<close>: whatever happens to the entry, the state stays the same up to
  the queue, and an entry that is kept has a semaphore that is not zero.
\<close>

definition const_pend :: "pend \<Rightarrow> bool" where
  "const_pend p = (case p of GConst \<Rightarrow> True | SConst _ \<Rightarrow> True | _ \<Rightarrow> False)"

lemma const_pend_place: "const_pend p \<Longrightarrow> place_ok p q \<Longrightarrow> \<not> q_alter q"
  by (cases p) (simp_all add: const_pend_def)

lemma leave_queue:
  assumes inv: "wq_inv c" and p: "valid_pend (c_nsems c) p" and at: "queue_of p c = dn @ q # rest"
    and q1: "nsops q1 = nsops q"
    and c2: "c2 = wake_up_sem_queue_prepare q1 e (unlink_queue p dn rest q1 c)"
  shows "wq_inv c2" and "same_state c c2" and "queue_of p c2 = dn @ rest"
    and "\<And>p'. p' \<noteq> p \<Longrightarrow> queue_of p' c2 = queue_of p' c"
proof -
  have pv: "valid_pend (length (sems (c_sma c))) p" using p wq_invD(6) [OF inv] by simp
  have u: "unlink_queue p dn rest q1 c = unlink_queue p dn rest q c"
    by (simp add: unlink_queue_put_queue q1)
  show "wq_inv c2" unfolding c2 u using wq_inv_unlink [OF inv p at] by simp
  show "same_state c c2" unfolding c2 unlink_queue_put_queue
    by (rule same_state_trans [OF same_state_put_queue same_state_wake])
  show "queue_of p c2 = dn @ rest" and "\<And>p'. p' \<noteq> p \<Longrightarrow> queue_of p' c2 = queue_of p' c"
    by (simp_all add: c2 unlink_queue_put_queue queue_of_put_queue [OF pv])
qed

lemma stay_in_queue:
  assumes inv: "wq_inv c" and p: "valid_pend (c_nsems c) p" and at: "queue_of p c = dn @ q # rest"
    and c2: "c2 = c\<lparr>c_sma := set_list p (dn @ q\<lparr>q_blocking := b\<rparr> # rest) (c_sma c)\<rparr>"
  shows "wq_inv c2" and "same_state c c2" and "queue_of p c2 = dn @ q\<lparr>q_blocking := b\<rparr> # rest"
    and "\<And>p'. p' \<noteq> p \<Longrightarrow> queue_of p' c2 = queue_of p' c"
proof -
  have pv: "valid_pend (length (sems (c_sma c))) p" using p wq_invD(6) [OF inv] by simp
  have e: "c2 = put_queue p (dn @ q\<lparr>q_blocking := b\<rparr> # rest) (complex_count (c_sma c)) c"
    by (simp add: c2 set_list_put_queue)
  show "wq_inv c2" unfolding e by (rule wq_inv_keep [OF inv p at])
  show "same_state c c2" by (simp add: e)
  show "queue_of p c2 = dn @ q\<lparr>q_blocking := b\<rparr> # rest"
    and "\<And>p'. p' \<noteq> p \<Longrightarrow> queue_of p' c2 = queue_of p' c"
    by (simp_all add: e queue_of_put_queue [OF pv])
qed

lemma nonzero_list_same_state:
  "same_state c c' \<Longrightarrow> (\<And>q. q \<in> set l \<Longrightarrow> entry_ok c q) \<Longrightarrow> \<forall>q \<in> set l. nonzero c q \<Longrightarrow>
     \<forall>q \<in> set l. nonzero c' q"
  by (simp add: nonzero_same_state)

lemma const_step:
  assumes inv: "wq_inv c" and p: "valid_pend (c_nsems c) p" and cp: "const_pend p"
    and at: "queue_of p c = dn @ q # rest" and dn: "\<forall>q \<in> set dn. nonzero c q"
  obtains dn2 fin2 c2 where "const_loop p dn (q # rest) fin c = const_loop p dn2 rest fin2 c2"
    and "wq_inv c2" and "same_state c c2" and "queue_of p c2 = dn2 @ rest"
    and "\<forall>q \<in> set dn2. nonzero c2 q"
    and "\<And>p'. p' \<noteq> p \<Longrightarrow> valid_pend (c_nsems c) p' \<Longrightarrow> queue_of p' c2 = queue_of p' c"
proof -
  have q: "entry_ok c q" "\<not> q_alter q" and dn_ok: "\<And>r. r \<in> set dn \<Longrightarrow> entry_ok c r"
    using queue_entry_ok [OF inv p] at const_pend_place [OF cp, of q] by auto
  note nz = nonzero_list_same_state [OF _ dn_ok dn]
  from q(1) show ?thesis
  proof (cases rule: perform_cases)
    case (completed vs adj)
    define c1 where "c1 = commit (q_undo q) (q_pid q) (q_sops q) (vs, adj) c"
    define c2 where "c2 = wake_up_sem_queue_prepare q None (unlink_queue p dn rest q c1)"
    note s = commit_const_same_state [OF q completed(1) c1_def]
    note f = commit_facts [OF q(1) completed(1) c1_def]
    have "queue_of p c1 = dn @ q # rest" "valid_pend (c_nsems c1) p" using at p f by simp_all
    note l = leave_queue [OF wq_inv_commit [OF inv q(1) completed(1) c1_def] this(2,1) refl c2_def]
    have "same_state c c2" by (rule same_state_trans [OF s l(2)])
    then show ?thesis using that [of dn True c2] completed(2) l f(7) nz
      by (simp add: c1_def c2_def)
  next
    case (failed e q1)
    define c2 where "c2 = wake_up_sem_queue_prepare q1 (Some e) (unlink_queue p dn rest q1 c)"
    have "nsops q1 = nsops q" using failed(2) by auto
    note l = leave_queue [OF inv p at this c2_def]
    show ?thesis using that [of dn fin c2] failed(1) l nz [OF l(2)] by (simp add: c2_def)
  next
    case (blocked sop)
    define c2 where "c2 = c\<lparr>c_sma := set_list p (dn @ q\<lparr>q_blocking := Some sop\<rparr> # rest) (c_sma c)\<rparr>"
    note l = stay_in_queue [OF inv p at c2_def]
    have "nonzero c2 q" using sleeps_const_nonzero [OF q blocked(1)] nonzero_same_state [OF l(2) q(1)] by simp
    then have "\<forall>r \<in> set (dn @ [q\<lparr>q_blocking := Some sop\<rparr>]). nonzero c2 r"
      using nz [OF l(2)] by (auto simp: nonzero_def)
    then show ?thesis using that [of "dn @ [q\<lparr>q_blocking := Some sop\<rparr>]" fin c2] blocked(3) l
      by (simp add: c2_def)
  qed
qed

lemma const_loop_inv:
  assumes "wq_inv c" and "valid_pend (c_nsems c) p" and "const_pend p"
    and "queue_of p c = dn @ todo" and "\<forall>q \<in> set dn. nonzero c q"
    and "const_loop p dn todo fin c = (fin', c')"
  shows "wq_inv c' \<and> same_state c c' \<and> (\<forall>q \<in> set (queue_of p c'). nonzero c' q) \<and>
     (\<forall>p'. p' \<noteq> p \<longrightarrow> valid_pend (c_nsems c) p' \<longrightarrow> queue_of p' c' = queue_of p' c)"
  using assms
proof (induction todo arbitrary: dn fin c)
  case Nil
  then show ?case by simp
next
  case (Cons q rest)
  obtain dn2 fin2 c2 where st: "const_loop p dn (q # rest) fin c = const_loop p dn2 rest fin2 c2"
    and c2: "wq_inv c2" "same_state c c2" "queue_of p c2 = dn2 @ rest" "\<forall>q \<in> set dn2. nonzero c2 q"
    and fr: "\<And>p'. p' \<noteq> p \<Longrightarrow> valid_pend (c_nsems c) p' \<Longrightarrow> queue_of p' c2 = queue_of p' c"
    using const_step [OF Cons.prems(1-5), of fin] by metis
  have n: "c_nsems c2 = c_nsems c" by (rule same_stateD(1) [OF c2(2)])
  have "wq_inv c' \<and> same_state c2 c' \<and> (\<forall>q \<in> set (queue_of p c'). nonzero c' q) \<and>
     (\<forall>p'. p' \<noteq> p \<longrightarrow> valid_pend (c_nsems c2) p' \<longrightarrow> queue_of p' c' = queue_of p' c2)"
    using Cons.prems(2,3,6) st n by (intro Cons.IH [OF c2(1) _ _ c2(3,4)]) simp_all
  then show ?case using same_state_trans [OF c2(2)] fr n by simp
qed


lemma simple_sops:
  assumes "nsops q = 1" shows "q_sops q = [hd (q_sops q)]"
  using assms by (cases "q_sops q") auto

lemma nonzero_simple: "nsops q = 1 \<Longrightarrow> nonzero c q \<longleftrightarrow> semval_at c (sem_num (hd (q_sops q))) \<noteq> 0"
  unfolding nonzero_def by (subst simple_sops) auto

lemma no_const_waiter_at_zero:
  assumes "wq_inv c" and "i < c_nsems c" and "semval_at c i = 0"
    and "\<forall>q \<in> set (queue_of (SConst i) c). nonzero c q"
  shows "queue_of (SConst i) c = []"
proof (rule ccontr)
  assume "queue_of (SConst i) c \<noteq> []"
  then obtain q where q: "q \<in> set (queue_of (SConst i) c)" by (cases "queue_of (SConst i) c") auto
  then have "place_ok (SConst i) q" using queue_entry_ok(2) [OF assms(1), of "SConst i"] assms(2) by simp
  with q assms(3,4) show False by (auto simp: nonzero_simple)
qed

lemma wake_const_ops_inv:
  assumes "wq_inv c" and "valid_pend (c_nsems c) p" and "p = (case num of None \<Rightarrow> GConst | Some i \<Rightarrow> SConst i)"
    and "wake_const_ops num c = (fin, c')"
  shows "wq_inv c'" and "same_state c c'" and "\<forall>q \<in> set (queue_of p c'). nonzero c' q"
    and "\<And>p'. p' \<noteq> p \<Longrightarrow> valid_pend (c_nsems c) p' \<Longrightarrow> queue_of p' c' = queue_of p' c"
proof -
  have "const_pend p" using assms(3) by (cases num) (simp_all add: const_pend_def)
  moreover have "const_loop p [] (queue_of p c) False c = (fin, c')"
    using assms(3,4) by (simp add: wake_const_ops_def Let_def)
  ultimately have "wq_inv c' \<and> same_state c c' \<and> (\<forall>q \<in> set (queue_of p c'). nonzero c' q) \<and>
     (\<forall>p'. p' \<noteq> p \<longrightarrow> valid_pend (c_nsems c) p' \<longrightarrow> queue_of p' c' = queue_of p' c)"
    using assms(1,2) by (intro const_loop_inv [of c p "[]" "queue_of p c" False fin c']) simp_all
  then show "wq_inv c'" and "same_state c c'" and "\<forall>q \<in> set (queue_of p c'). nonzero c' q"
    and "\<And>p'. p' \<noteq> p \<Longrightarrow> valid_pend (c_nsems c) p' \<Longrightarrow> queue_of p' c' = queue_of p' c"
    by simp_all
qed

lemma zero_loop_inv:
  assumes "wq_inv c" and "\<forall>i \<in> set nums. i < c_nsems c"
    and "zero_loop nums got fin c = (got', fin', c')"
  shows "wq_inv c' \<and> same_state c c' \<and>
     (got' \<longleftrightarrow> got \<or> (\<exists>i \<in> set nums. semval_at c i = 0)) \<and>
     (\<forall>p. valid_pend (c_nsems c) p \<longrightarrow> queue_of p c' =
        (if p \<in> SConst ` {i \<in> set nums. semval_at c i = 0} then [] else queue_of p c))"
  using assms
proof (induction nums arbitrary: got fin c)
  case Nil
  then show ?case by simp
next
  case (Cons i rest)
  have i: "i < c_nsems c" and n: "length (sems (c_sma c)) = c_nsems c"
    using Cons.prems(2) wq_invD(6) [OF Cons.prems(1)] by simp_all
  show ?case
  proof (cases "semval_at c i = 0")
    case False
    then have e: "{j \<in> set (i # rest). semval_at c j = 0} = {j \<in> set rest. semval_at c j = 0}"
      and b: "(\<exists>j \<in> set (i # rest). semval_at c j = 0) = (\<exists>j \<in> set rest. semval_at c j = 0)"
      by auto
    have z: "zero_loop rest got fin c = (got', fin', c')" using Cons.prems(3) False by simp
    show ?thesis unfolding e b using Cons.prems(2) by (intro Cons.IH [OF Cons.prems(1) _ z]) simp
  next
    case True
    obtain f c1 where w: "wake_const_ops (Some i) c = (f, c1)" by force
    have vp: "valid_pend (c_nsems c) (SConst i)" "SConst i = (case Some i of None \<Rightarrow> GConst | Some j \<Rightarrow> SConst j)"
      using i by simp_all
    note g = wake_const_ops_inv [OF Cons.prems(1) vp w]
    note inv1 = g(1) and st = g(2)
    note d = same_stateD [OF st]
    have v: "semval_at c1 j = semval_at c j" if "j < c_nsems c" for j using d(4) that n by simp
    have e: "queue_of (SConst i) c1 = []"
      using g(3) i inv1 True v [OF i] d(1) by (intro no_const_waiter_at_zero) simp_all
    have z: "zero_loop rest True (fin \<or> f) c1 = (got', fin', c')" using Cons.prems(3) True w by simp
    have "wq_inv c' \<and> same_state c1 c' \<and>
     (got' \<longleftrightarrow> True \<or> (\<exists>i \<in> set rest. semval_at c1 i = 0)) \<and>
     (\<forall>p. valid_pend (c_nsems c1) p \<longrightarrow> queue_of p c' =
        (if p \<in> SConst ` {i \<in> set rest. semval_at c1 i = 0} then [] else queue_of p c1))"
      using Cons.prems(2) d(1) by (intro Cons.IH [OF inv1 _ z]) simp
    moreover have "{j \<in> set rest. semval_at c1 j = 0} = {j \<in> set rest. semval_at c j = 0}"
      using v Cons.prems(2) by auto
    moreover have "queue_of p c1 = (if p = SConst i then [] else queue_of p c)"
      if "valid_pend (c_nsems c) p" for p using g(4) [of p] that e i by auto
    moreover have e: "{j \<in> set (i # rest). semval_at c j = 0} = insert i {j \<in> set rest. semval_at c j = 0}"
      and b: "(\<exists>j \<in> set (i # rest). semval_at c j = 0) = True"
      using True by auto
    ultimately show ?thesis unfolding e b using same_state_trans [OF st] d(1) by simp
  qed
qed


text \<open>
  Waiters for zero after the semaphores in \<open>M\<close> may have changed: those of other semaphores are
  still blocked, and a complex one that is not has a semaphore in \<open>M\<close> that became zero.
\<close>

definition const_quiet_but :: "nat set \<Rightarrow> sem_ctx \<Rightarrow> bool" where
  "const_quiet_but M c \<longleftrightarrow>
     (\<forall>q \<in> set (queue_of GConst c). nonzero c q \<or>
        (\<exists>s \<in> set (q_sops q). sem_num s \<in> M \<and> semval_at c (sem_num s) = 0)) \<and>
     (\<forall>i < c_nsems c. i \<notin> M \<longrightarrow> (\<forall>q \<in> set (queue_of (SConst i) c). nonzero c q))"

definition same_alters :: "sem_ctx \<Rightarrow> sem_ctx \<Rightarrow> bool" where
  "same_alters c c' \<longleftrightarrow> queue_of GAlter c' = queue_of GAlter c \<and>
     (\<forall>i < c_nsems c. queue_of (SAlter i) c' = queue_of (SAlter i) c)"

lemma const_quietI:
  assumes inv: "wq_inv c" and g: "\<forall>q \<in> set (queue_of GConst c). nonzero c q"
    and s: "\<And>i. i < c_nsems c \<Longrightarrow> semval_at c i = 0 \<Longrightarrow> queue_of (SConst i) c = []"
  shows "const_quiet c"
proof -
  have "nonzero c q" if "i < c_nsems c" "q \<in> set (queue_of (SConst i) c)" for i q
  proof -
    have "place_ok (SConst i) q" using queue_entry_ok(2) [OF inv, of "SConst i"] that by simp
    moreover have "semval_at c i \<noteq> 0" using s [of i] that by auto
    ultimately show ?thesis by (auto simp: nonzero_simple)
  qed
  with g show ?thesis by (simp add: const_quiet_def)
qed

lemma wakeup_zero_inv:
  assumes inv: "wq_inv c" and nums: "nums = (case sops of Some l \<Rightarrow> map sem_num l | None \<Rightarrow> [0..<c_nsems c])"
    and lt: "\<forall>i \<in> set nums. i < c_nsems c" and quiet: "const_quiet_but (set nums) c"
    and run: "do_smart_wakeup_zero sops c = (fin, c')"
  shows "wq_inv c'" and "same_state c c'" and "const_quiet c'" and "same_alters c c'"
proof -
  obtain got f1 c1 where z: "zero_loop nums False False c = (got, f1, c1)" by (metis prod_cases3)
  have "wq_inv c1 \<and> same_state c c1 \<and>
     (got \<longleftrightarrow> False \<or> (\<exists>i \<in> set nums. semval_at c i = 0)) \<and>
     (\<forall>p. valid_pend (c_nsems c) p \<longrightarrow> queue_of p c1 =
        (if p \<in> SConst ` {i \<in> set nums. semval_at c i = 0} then [] else queue_of p c))"
    by (rule zero_loop_inv [OF inv lt z])
  then have inv1: "wq_inv c1" and st1: "same_state c c1"
    and got: "got \<longleftrightarrow> (\<exists>i \<in> set nums. semval_at c i = 0)"
    and q1: "\<And>p. valid_pend (c_nsems c) p \<Longrightarrow> queue_of p c1 =
        (if p \<in> SConst ` {i \<in> set nums. semval_at c i = 0} then [] else queue_of p c)"
    by simp_all
  note d1 = same_stateD [OF st1]
  have n: "length (sems (c_sma c)) = c_nsems c" by (rule wq_invD(6) [OF inv])
  have s1: "queue_of (SConst i) c1 = []" if "i < c_nsems c1" "semval_at c1 i = 0" for i
  proof (cases "i \<in> set nums")
    case True
    then show ?thesis using q1 [of "SConst i"] that d1(1,4) n by (simp add: image_iff)
  next
    case False
    then have "queue_of (SConst i) c1 = queue_of (SConst i) c"
      using q1 [of "SConst i"] that d1(1) by (auto simp: image_iff)
    moreover have "\<forall>q \<in> set (queue_of (SConst i) c). nonzero c q"
      using quiet that d1(1) False by (simp add: const_quiet_but_def)
    ultimately show ?thesis
      using no_const_waiter_at_zero [OF inv] that d1(1,4) n by simp
  qed
  have a1: "same_alters c c1" using q1 by (auto simp: same_alters_def image_iff)
  show "wq_inv c'" and "same_state c c'" and "const_quiet c'" and "same_alters c c'"
  proof -
    have "wq_inv c' \<and> same_state c c' \<and> const_quiet c' \<and> same_alters c c'"
    proof (cases got)
      case False
      then have c': "c' = c1" using run z by (simp add: do_smart_wakeup_zero_def nums)
      have "\<forall>q \<in> set (queue_of GConst c1). nonzero c1 q"
      proof
        fix q assume "q \<in> set (queue_of GConst c1)"
        then have q: "q \<in> set (queue_of GConst c)" using q1 [of GConst] by (auto split: if_splits)
        have "nonzero c q" using quiet q got False by (auto simp: const_quiet_but_def)
        then show "nonzero c1 q"
          using nonzero_same_state [OF st1] queue_entry_ok(1) [OF inv _ q] by simp
      qed
      then have "const_quiet c1" by (rule const_quietI [OF inv1 _ s1])
      with inv1 st1 a1 show ?thesis unfolding c' by blast
    next
      case True
      obtain f2 c2 where w: "wake_const_ops None c1 = (f2, c2)" by force
      then have c': "c' = c2" using run z True by (simp add: do_smart_wakeup_zero_def nums)
      have vp: "valid_pend (c_nsems c1) GConst" "GConst = (case None of None \<Rightarrow> GConst | Some j \<Rightarrow> SConst j)"
        by simp_all
      note g = wake_const_ops_inv [OF inv1 vp w] and d2 = same_stateD [OF g(2)]
      have "queue_of (SConst i) c2 = []" if "i < c_nsems c2" "semval_at c2 i = 0" for i
      proof -
        have i: "i < c_nsems c1" "i < length (sems (c_sma c1))" using that(1) d2(1) d1(1,3) n by simp_all
        have "queue_of (SConst i) c2 = queue_of (SConst i) c1" using i(1) by (intro g(4)) simp_all
        also have "\<dots> = []" using that(2) d2(4) [OF i(2)] by (intro s1 [OF i(1)]) simp
        finally show ?thesis .
      qed
      then have "const_quiet c2" by (rule const_quietI [OF g(1,3)])
      moreover have "same_alters c c2"
        using a1 unfolding same_alters_def by (simp add: g(4) d1(1))
      ultimately show ?thesis using g(1) same_state_trans [OF st1 g(2)] by (simp add: c')
    qed
    then show "wq_inv c'" and "same_state c c'" and "const_quiet c'" and "same_alters c c'" by simp_all
  qed
qed


section \<open>Waking the operations that alter semaphores\<close>

definition alter_pend :: "pend \<Rightarrow> bool" where
  "alter_pend p = (case p of GAlter \<Rightarrow> True | SAlter _ \<Rightarrow> True | _ \<Rightarrow> False)"

lemma alter_pend_simps [simp]:
  "alter_pend GAlter" "alter_pend (SAlter i)" "\<not> alter_pend GConst" "\<not> alter_pend (SConst i)"
  "alter_pend (alter_list num)"
  by (simp_all add: alter_pend_def alter_list_def split: option.split)

lemma const_quiet_transfer:
  assumes "wq_inv c" and "same_state c c'" and "const_quiet c"
    and "\<And>p. \<not> alter_pend p \<Longrightarrow> queue_of p c' = queue_of p c"
  shows "const_quiet c'"
proof -
  have "nonzero c' q = nonzero c q" if "q \<in> set (queue_of p c)" "valid_pend (c_nsems c) p" for p q
    using nonzero_same_state [OF assms(2)] queue_entry_ok(1) [OF assms(1) that(2,1)] by simp
  from this [of _ GConst] this [of _ "SConst _"] assms(3) show ?thesis
    by (simp add: const_quiet_def assms(4) same_stateD(1) [OF assms(2)])
qed

lemma const_quiet_commit:
  assumes inv: "wq_inv c" and q: "entry_ok c q"
    and run: "run_sops (q_sops q) (vals c, adjs c (q_undo q)) = (ScanEnd, vs, adj)"
    and c': "c' = commit (q_undo q) (q_pid q) (q_sops q) (vs, adj) c" and quiet: "const_quiet c"
  shows "const_quiet_but (sem_num ` set (q_sops q)) c'"
proof -
  note f = commit_facts [OF q run c']
  have num: "sem_num s < c_nsems c" if "r \<in> set (queue_of p c)" "valid_pend (c_nsems c) p"
    "s \<in> set (q_sops r)" for p r s
    using entry_okD(3) [OF queue_entry_ok(1) [OF inv that(2,1)]] that(3) by (simp add: sops_ok_def)
  have "nonzero c' r \<or> (\<exists>s \<in> set (q_sops r). sem_num s \<in> sem_num ` set (q_sops q) \<and> semval_at c' (sem_num s) = 0)"
    if r: "r \<in> set (queue_of GConst c)" for r
  proof -
    obtain s where s: "s \<in> set (q_sops r)" "semval_at c (sem_num s) \<noteq> 0"
      using quiet r by (auto simp: const_quiet_def nonzero_def)
    show ?thesis
      using s f(8) [OF num [OF r _ s(1)]] by (cases "semval_at c' (sem_num s) = 0") (auto simp: nonzero_def)
  qed
  moreover have "nonzero c' r" if "i < c_nsems c" "i \<notin> sem_num ` set (q_sops q)"
    "r \<in> set (queue_of (SConst i) c)" for i r
  proof -
    have "place_ok (SConst i) r" using queue_entry_ok(2) [OF inv _ that(3)] that(1) by simp
    moreover have "nonzero c r" using quiet that(1,3) by (auto simp: const_quiet_def)
    ultimately show ?thesis using f(8) [OF that(1,2)] by (auto simp: nonzero_simple)
  qed
  ultimately show ?thesis by (simp add: const_quiet_but_def f(2,7))
qed

lemma const_quiet_but_transfer:
  assumes "wq_inv c" and "same_state c c'" and "const_quiet_but M c"
    and "\<And>p. \<not> alter_pend p \<Longrightarrow> queue_of p c' = queue_of p c"
  shows "const_quiet_but M c'"
proof -
  have eq: "nonzero c' q = nonzero c q" if "q \<in> set (queue_of p c)" "valid_pend (c_nsems c) p" for p q
    using nonzero_same_state [OF assms(2)] queue_entry_ok(1) [OF assms(1) that(2,1)] by simp
  have v: "semval_at c' (sem_num s) = semval_at c (sem_num s)"
    if "q \<in> set (queue_of GConst c)" "s \<in> set (q_sops q)" for q s
  proof -
    have "entry_ok c q" using queue_entry_ok(1) [OF assms(1) _ that(1)] by simp
    then have "sem_num s < length (sems (c_sma c))"
      using entry_okD(1,3) that(2) by (simp add: ctx_ok_def sops_ok_def)
    then show ?thesis by (rule same_stateD(4) [OF assms(2)])
  qed
  show ?thesis
    using assms(3) eq [of _ GConst] eq [of _ "SConst _"] v
    unfolding const_quiet_but_def by (simp add: assms(4) same_stateD(1) [OF assms(2)])
qed

text \<open>What \<open>update_queue\<close> does when an entry was executed.\<close>

lemma update_done:
  assumes inv: "wq_inv c" and quiet: "const_quiet c" and p: "valid_pend (c_nsems c) p" "alter_pend p"
    and at: "queue_of p c = dn @ q # rest"
    and run: "run_sops (q_sops q) (vals c, adjs c (q_undo q)) = (ScanEnd, vs, adj)"
    and c1: "c1 = commit (q_undo q) (q_pid q) (q_sops q) (vs, adj) c"
    and c2: "c2 = snd (do_smart_wakeup_zero (Some (q_sops q)) (unlink_queue p dn rest q c1))"
  shows "wq_inv c2" and "const_quiet c2" and "same_shape c c2" and "vals c2 = vs"
    and "queue_of p c2 = dn @ rest"
    and "\<And>p'. alter_pend p' \<Longrightarrow> p' \<noteq> p \<Longrightarrow> valid_pend (c_nsems c) p' \<Longrightarrow> queue_of p' c2 = queue_of p' c"
    and "use_global_lock (c_sma c2) = use_global_lock (c_sma c)"
proof -
  have q: "entry_ok c q" using queue_entry_ok(1) [OF inv p(1)] at by simp
  note f = commit_facts [OF q run c1] and inv1 = wq_inv_commit [OF inv q run c1]
  have pv: "valid_pend (length (sems (c_sma c1))) p" "valid_pend (c_nsems c1) p"
    using p(1) wq_invD(6) [OF inv1] f(2) by simp_all
  have at1: "queue_of p c1 = dn @ q # rest" using at f(7) [OF p(1)] by simp
  define u where "u = unlink_queue p dn rest q c1"
  have invu: "wq_inv u" unfolding u_def by (rule wq_inv_unlink [OF inv1 pv(2) at1])
  have stu: "same_state c1 u" by (simp add: u_def unlink_queue_put_queue)
  have qu: "queue_of p' u = (if p' = p then dn @ rest else queue_of p' c1)" for p'
    by (simp add: u_def unlink_queue_put_queue queue_of_put_queue [OF pv(1)])
  have "const_quiet_but (sem_num ` set (q_sops q)) u"
    using p(2) by (intro const_quiet_but_transfer [OF inv1 stu const_quiet_commit [OF inv q run c1 quiet]])
      (auto simp: qu)
  then have qb: "const_quiet_but (set (map sem_num (q_sops q))) u" by simp
  have lt: "\<forall>i \<in> set (map sem_num (q_sops q)). i < c_nsems u"
    using entry_okD(3) [OF q] same_stateD(1) [OF stu] f(2) by (simp add: sops_ok_def)
  obtain fin where "do_smart_wakeup_zero (Some (q_sops q)) u = (fin, c2)"
    using c2 unfolding u_def by (metis prod.collapse)
  note w = wakeup_zero_inv [OF invu _ lt qb this]
  show "wq_inv c2" and "const_quiet c2" using w by simp_all
  have st: "same_state c1 c2" using same_state_trans [OF stu] w(2) by simp
  then show "same_shape c c2" "use_global_lock (c_sma c2) = use_global_lock (c_sma c)"
    using same_shape_trans [OF f(1)] f(5) by (simp_all add: same_state_def)
  show "vals c2 = vs" using same_stateD(2) [OF st] f(3) by simp
  have al: "same_alters u c2" using w(4) by simp
  have qa: "queue_of p' c2 = queue_of p' u" if "alter_pend p'" "valid_pend (c_nsems c) p'" for p'
    using al that same_stateD(1) [OF stu] f(2)
    by (cases p') (simp_all add: same_alters_def alter_pend_def)
  show "queue_of p c2 = dn @ rest" using qa [OF p(2,1)] qu by simp
  show "queue_of p' c2 = queue_of p' c" if "alter_pend p'" "p' \<noteq> p" "valid_pend (c_nsems c) p'" for p'
    using qa [OF that(1,3)] qu that(2) f(7) [OF that(3)] by simp
qed


lemma sleeps_blocking [simp]: "sleeps c (q\<lparr>q_blocking := b\<rparr>) = sleeps c q"
  by (simp add: sleeps_def)

text \<open>One visited entry of \<open>update_queue\<close> that was not executed: kept asleep or sent away.\<close>

lemma update_step:
  assumes inv: "wq_inv c" and quiet: "const_quiet c" and p: "valid_pend (c_nsems c) (alter_list num)"
    and at: "queue_of (alter_list num) c = dn @ q # rest" and nz: "\<not> semval_is_zero num c"
  obtains (kept) q1 c2 where "update_loop num dn (q # rest) fin c = update_loop num (dn @ [q1]) rest fin c2"
      and "queue_of (alter_list num) c2 = dn @ q1 # rest" and "q1 = q \<or> (\<exists>b. q1 = q\<lparr>q_blocking := b\<rparr>)"
      and "sleeps c q" and "wq_inv c2" and "same_state c c2" and "const_quiet c2"
      and "\<And>p'. p' \<noteq> alter_list num \<Longrightarrow> queue_of p' c2 = queue_of p' c"
  | (sent) c2 where "update_loop num dn (q # rest) fin c = update_loop num dn rest fin c2"
      and "queue_of (alter_list num) c2 = dn @ rest"
      and "wq_inv c2" and "same_state c c2" and "const_quiet c2"
      and "\<And>p'. p' \<noteq> alter_list num \<Longrightarrow> queue_of p' c2 = queue_of p' c"
  | (executed) vs adj c2 where
      "update_loop num dn (q # rest) fin c =
         (if check_restart (c_sma c2) q then update_loop num [] (dn @ rest) True c2
          else update_loop num dn rest True c2)"
      and "run_sops (q_sops q) (vals c, adjs c (q_undo q)) = (ScanEnd, vs, adj)"
      and "wq_inv c2" and "const_quiet c2" and "same_shape c c2" and "vals c2 = vs"
      and "queue_of (alter_list num) c2 = dn @ rest"
      and "\<And>p'. alter_pend p' \<Longrightarrow> p' \<noteq> alter_list num \<Longrightarrow> valid_pend (c_nsems c) p' \<Longrightarrow>
             queue_of p' c2 = queue_of p' c"
      and "use_global_lock (c_sma c2) = use_global_lock (c_sma c)"
proof -
  have q: "entry_ok c q" using queue_entry_ok(1) [OF inv p] at by simp
  have ap: "p' \<noteq> alter_list num" if "\<not> alter_pend p'" for p' using that by auto
  from q show ?thesis
  proof (cases rule: perform_cases)
    case (completed vs adj)
    define c1 where "c1 = commit (q_undo q) (q_pid q) (q_sops q) (vs, adj) c"
    define c2 where "c2 = snd (do_smart_wakeup_zero (Some (q_sops q)) (unlink_queue (alter_list num) dn rest q c1))"
    define c3 where "c3 = wake_up_sem_queue_prepare q None c2"
    note d = update_done [OF inv quiet p _ at completed(1) c1_def c2_def]
    have st: "same_state c2 c3" and sma: "c_sma c3 = c_sma c2" by (simp_all add: c3_def)
    have eqn: "update_loop num dn (q # rest) fin c =
         (if check_restart (c_sma c3) q then update_loop num [] (dn @ rest) True c3
          else update_loop num dn rest True c3)"
      using completed nz by (simp add: Let_def c1_def c2_def c3_def)
    have "const_quiet c3" using d(1) st d(2) by (rule const_quiet_transfer) (simp_all add: sma)
    moreover have "same_shape c c3" using same_shape_trans [OF d(3)] by (simp add: c3_def)
    moreover have "wq_inv c3" "vals c3 = vs" using d(1,4) by (simp_all add: c3_def)
    moreover have "queue_of (alter_list num) c3 = dn @ rest" "use_global_lock (c_sma c3) = use_global_lock (c_sma c)"
      using d(5,7) by (simp_all add: sma)
    moreover have "queue_of p' c3 = queue_of p' c"
      if "alter_pend p'" "p' \<noteq> alter_list num" "valid_pend (c_nsems c) p'" for p'
      unfolding sma using that by (intro d(6)) simp_all
    ultimately show ?thesis by (intro executed [OF eqn completed(1)])
  next
    case (failed e q1)
    define c2 where "c2 = wake_up_sem_queue_prepare q1 (Some e) (unlink_queue (alter_list num) dn rest q1 c)"
    have "nsops q1 = nsops q" using failed(2) by auto
    note l = leave_queue [OF inv p at this c2_def]
    have "const_quiet c2" by (intro const_quiet_transfer [OF inv l(2) quiet] l(4) ap)
    moreover have "update_loop num dn (q # rest) fin c = update_loop num dn rest fin c2"
      using failed(1) nz by (simp add: Let_def c2_def)
    ultimately show ?thesis by (intro sent [OF _ l(3,1,2) _ l(4)])
  next
    case (blocked sop)
    define q1 where "q1 = q\<lparr>q_blocking := Some sop\<rparr>"
    define c2 where "c2 = c\<lparr>c_sma := set_list (alter_list num) (dn @ q1 # rest) (c_sma c)\<rparr>"
    note l = stay_in_queue [OF inv p at c2_def [unfolded q1_def], folded q1_def]
    have "const_quiet c2" by (intro const_quiet_transfer [OF inv l(2) quiet] l(4) ap)
    moreover have "update_loop num dn (q # rest) fin c = update_loop num (dn @ [q1]) rest fin c2"
      using blocked(3) nz by (simp add: Let_def c2_def q1_def)
    moreover have "q1 = q \<or> (\<exists>b. q1 = q\<lparr>q_blocking := b\<rparr>)" by (auto simp: q1_def)
    ultimately show ?thesis by (intro kept [OF _ l(3) _ blocked(1) l(1,2) _ l(4)])
  qed
qed

lemma update_loop_global:
  assumes "length dn + length todo = N"
    and "wq_inv c" and "const_quiet c" and "\<forall>i < c_nsems c. queue_of (SAlter i) c = []"
    and "queue_of GAlter c = dn @ todo" and "\<forall>q \<in> set dn. sleeps c q"
    and "update_loop None dn todo fin c = (fin', c')"
  shows "wq_inv c' \<and> const_quiet c' \<and> same_shape c c' \<and>
     use_global_lock (c_sma c') = use_global_lock (c_sma c) \<and>
     (\<forall>i < c_nsems c. queue_of (SAlter i) c' = []) \<and> (\<forall>q \<in> set (queue_of GAlter c'). sleeps c' q)"
    (is "?post c")
  using assms
proof (induction N arbitrary: dn todo fin c rule: less_induct)
  case (less N)
  note outer = less.IH
  from less.prems show ?case
  proof (induction todo arbitrary: dn fin c)
    case Nil
    then show ?case by auto
  next
    case (Cons q rest)
    note inv = Cons.prems(2) and sa = Cons.prems(4) and at = Cons.prems(5)
    have al: "alter_list None = GAlter" by (simp add: alter_list_def)
    have p: "valid_pend (c_nsems c) (alter_list None)" "\<not> semval_is_zero None c"
      "queue_of (alter_list None) c = dn @ q # rest"
      using at by (simp_all add: al semval_is_zero_def)
    from inv Cons.prems(3) p(1,3,2) show ?case
    proof (cases rule: update_step [where fin = fin])
      case (kept q1 c2)
      note d = same_stateD [OF kept(6)]
      have post2: "?post c2"
      proof (rule Cons.IH [OF _ kept(5,7)])
        show "\<forall>i < c_nsems c2. queue_of (SAlter i) c2 = []" using sa kept(8) d(1) al by simp
        show "queue_of GAlter c2 = (dn @ [q1]) @ rest" using kept(2) al by simp
        show "\<forall>r \<in> set (dn @ [q1]). sleeps c2 r" using Cons.prems(6) kept(3,4) d(5) by auto
        show "update_loop None (dn @ [q1]) rest fin c2 = (fin', c')" using kept(1) Cons.prems(7) by simp
        show "length (dn @ [q1]) + length rest = N"
          using Cons.prems(1) by simp
      qed
      then show ?thesis using kept(6) d(1) same_shape_trans [of c c2 c'] by (simp add: same_state_def)
    next
      case (sent c2)
      note d = same_stateD [OF sent(4)]
      have post2: "?post c2"
      proof (rule outer [OF _ refl sent(3,5)])
        show "length dn + length rest < N" using Cons.prems(1) by simp
        show "\<forall>i < c_nsems c2. queue_of (SAlter i) c2 = []" using sa sent(6) d(1) al by simp
        show "queue_of GAlter c2 = dn @ rest" using sent(2) al by simp
        show "\<forall>r \<in> set dn. sleeps c2 r" using Cons.prems(6) d(5) by simp
        show "update_loop None dn rest fin c2 = (fin', c')" using sent(1) Cons.prems(7) by simp
      qed
      then show ?thesis using sent(4) d(1) same_shape_trans [of c c2 c'] by (simp add: same_state_def)
    next
      case (executed vs adj c2)
      have n: "c_nsems c2 = c_nsems c" using executed(5) by (simp add: same_shape_def)
      have ga: "queue_of GAlter c2 = dn @ rest" using executed(7) al by simp
      have sa2: "\<forall>i < c_nsems c2. queue_of (SAlter i) c2 = []"
        using sa executed(8) [of "SAlter _"] n al by simp
      have post2: "?post c2"
      proof (cases "check_restart (c_sma c2) q")
        case True
        show ?thesis
        proof (rule outer [OF _ refl executed(3,4) sa2])
          show "length [] + length (dn @ rest) < N"
            using Cons.prems(1) by simp
          show "queue_of GAlter c2 = [] @ (dn @ rest)" using ga by simp
          show "update_loop None [] (dn @ rest) True c2 = (fin', c')"
            using executed(1) Cons.prems(7) True by simp
        qed simp
      next
        case False
        then have "dn @ rest = []" using ga by (simp add: check_restart_def get_list.simps split: if_splits)
        then have "c' = c2" using executed(1) Cons.prems(7) False by simp
        then show ?thesis using executed(3,4) sa2 ga \<open>dn @ rest = []\<close> by simp
      qed
      then show ?thesis using executed(5,9) n same_shape_trans [of c c2 c'] by simp
    qed
  qed
qed


text \<open>A simple decrement that would make the value of its semaphore negative.\<close>

definition stuck :: "sem_ctx \<Rightarrow> nat \<Rightarrow> sem_queue \<Rightarrow> bool" where
  "stuck c i q \<longleftrightarrow> semval_at c i + sem_op (hd (q_sops q)) < 0"

lemma simple_dec_run:
  assumes "entry_ok c q" and "place_ok (SAlter i) q" and "i < c_nsems c"
  shows "sleeps c q \<longleftrightarrow> stuck c i q"
    and "run_sops (q_sops q) (vals c, adjs c (q_undo q)) = (ScanEnd, vs, adj) \<Longrightarrow>
           vs = (vals c)[i := vals c ! i + sem_op (hd (q_sops q))]"
proof -
  define s where "s = hd (q_sops q)"
  have q: "q_sops q = [s]" "sem_num s = i" "sem_op s < 0" "\<not> nowait s"
    using assms(2) simple_sops [of q] by (auto simp: s_def simple_dec_def)
  have v: "vals c ! i = semval_at c i"
    using entry_okD(1) [OF assms(1)] assms(3) by (simp add: vals_nth ctx_ok_def)
  show "sleeps c q \<longleftrightarrow> stuck c i q"
    using q v by (simp add: sleeps_def stuck_def sop_stop_def Let_def split: prod.splits scan_exit.splits)
  show "vs = (vals c)[i := vals c ! i + sem_op (hd (q_sops q))]"
    if "run_sops (q_sops q) (vals c, adjs c (q_undo q)) = (ScanEnd, vs, adj)"
    using that q run_sops_ConsE(2) [of s "[]" "vals c" "adjs c (q_undo q)" "(vs, adj)"] by simp
qed

lemma semval_at_list_update:
  assumes "vals c2 = (vals c)[i := v]" and "same_shape c c2" and "j < length (sems (c_sma c))"
  shows "semval_at c2 j = (if i = j then v else semval_at c j)"
  using assms vals_nth [of j c] vals_nth [of j c2] nth_list_update_if [of j "vals c" i v]
  by (auto simp: same_shape_def split: if_splits)

lemma update_loop_local:
  assumes "wq_inv c" and "const_quiet c" and "i < c_nsems c" and "queue_of GAlter c = []"
    and "queue_of (SAlter i) c = dn @ todo" and "\<forall>q \<in> set dn. stuck c i q"
    and "update_loop (Some i) dn todo fin c = (fin', c')"
  shows "wq_inv c' \<and> const_quiet c' \<and> same_shape c c' \<and>
     use_global_lock (c_sma c') = use_global_lock (c_sma c) \<and> queue_of GAlter c' = [] \<and>
     (\<forall>q \<in> set (queue_of (SAlter i) c'). stuck c' i q) \<and>
     (\<forall>j < c_nsems c. j \<noteq> i \<longrightarrow>
        semval_at c' j = semval_at c j \<and> queue_of (SAlter j) c' = queue_of (SAlter j) c)"
    (is "?post c")
  using assms
proof (induction todo arbitrary: dn fin c)
  case Nil
  then show ?case by simp
next
  case (Cons q rest)
  note inv = Cons.prems(1) and i = Cons.prems(3) and ga = Cons.prems(4) and at = Cons.prems(5)
  have al: "alter_list (Some i) = SAlter i" by (simp add: alter_list_def)
  have len: "length (sems (c_sma c)) = c_nsems c" by (rule wq_invD(6) [OF inv])
  have p: "valid_pend (c_nsems c) (alter_list (Some i))"
    "queue_of (alter_list (Some i)) c = dn @ q # rest" using i at by (simp_all add: al)
  have ok: "entry_ok c r" "place_ok (SAlter i) r" if "r \<in> set (dn @ q # rest)" for r
    using queue_entry_ok [OF inv p(1)] that at by (simp_all add: al)
  have chain: "?post c" if "?post c2" "same_shape c c2" "use_global_lock (c_sma c2) = use_global_lock (c_sma c)"
      "\<And>j. j < c_nsems c \<Longrightarrow> j \<noteq> i \<Longrightarrow>
         semval_at c2 j = semval_at c j \<and> queue_of (SAlter j) c2 = queue_of (SAlter j) c" for c2
    using that same_shape_trans [of c c2 c'] by (auto simp: same_shape_def)
  show ?case
  proof (cases "semval_is_zero (Some i) c")
    case True
    then have "semval_at c i = 0" and c': "c' = c"
      using Cons.prems(7) by (simp_all add: semval_is_zero_def)
    then have "stuck c i r" if "r \<in> set (dn @ q # rest)" for r
      using ok(2) [OF that] by (simp add: stuck_def simple_dec_def)
    then show ?thesis using Cons.prems(1-5) by (simp add: c')
  next
    case False
    from inv Cons.prems(2) p False show ?thesis
    proof (cases rule: update_step [where fin = fin])
      case (kept q1 c2)
      note d = same_stateD [OF kept(6)]
      have v: "semval_at c2 j = semval_at c j" if "j < c_nsems c" for j using d(4) that len by simp
      have "stuck c i q" using kept(4) simple_dec_run(1) [OF ok i, of q] by simp
      then have "\<forall>r \<in> set (dn @ [q1]). stuck c2 i r"
        using Cons.prems(6) kept(3) v [OF i] by (auto simp: stuck_def)
      moreover have "queue_of GAlter c2 = []" using kept(8) [of GAlter] ga al by simp
      ultimately have "?post c2"
        using kept(1,2) Cons.prems(7) i d(1) al by (intro Cons.IH [OF kept(5,7), of "dn @ [q1]" fin]) simp_all
      then show ?thesis using kept(6,8) v al by (intro chain [of c2]) (simp_all add: same_state_def)
    next
      case (sent c2)
      note d = same_stateD [OF sent(4)]
      have v: "semval_at c2 j = semval_at c j" if "j < c_nsems c" for j using d(4) that len by simp
      have "\<forall>r \<in> set dn. stuck c2 i r" using Cons.prems(6) v [OF i] by (auto simp: stuck_def)
      moreover have "queue_of GAlter c2 = []" using sent(6) [of GAlter] ga al by simp
      ultimately have "?post c2"
        using sent(1,2) Cons.prems(7) i d(1) al by (intro Cons.IH [OF sent(3,5), of dn fin]) simp_all
      then show ?thesis using sent(4,6) v al by (intro chain [of c2]) (simp_all add: same_state_def)
    next
      case (executed vs adj c2)
      have ga2: "queue_of GAlter c2 = []" using executed(8) [of GAlter] ga al by simp
      have ns: "nsops q = 1" using ok(2) [of q] by simp
      have "\<not> check_restart (c_sma c2) q"
        using ga2 ns by (simp add: check_restart_def get_list.simps)
      then have run: "update_loop (Some i) dn rest True c2 = (fin', c')"
        using executed(1) Cons.prems(7) by simp
      have "vals c2 = (vals c)[i := vals c ! i + sem_op (hd (q_sops q))]"
        using simple_dec_run(2) [OF ok i executed(2)] executed(6) by simp
      note v = semval_at_list_update [OF this executed(5), unfolded len]
      have "sem_op (hd (q_sops q)) < 0" using ok(2) [of q] by (simp add: simple_dec_def)
      then have "\<forall>r \<in> set dn. stuck c2 i r"
        using Cons.prems(6) v [OF i] i len by (auto simp: stuck_def vals_nth)
      then have "?post c2"
        using executed(5,7) run ga2 i al
        by (intro Cons.IH [OF executed(3,4), of dn True]) (simp_all add: same_shape_def)
      then show ?thesis using executed(5,8,9) v al by (intro chain [of c2]) simp_all
    qed
  qed
qed


section \<open>The invariant that no executable operation sleeps\<close>

text \<open>
  \<open>quiet\<close>: no entry in a wait queue could be executed now.  For the queues of altering
  operations it says in addition that the entry would be told to sleep again.
\<close>

definition alter_quiet :: "sem_ctx \<Rightarrow> bool" where
  "alter_quiet c \<longleftrightarrow>
     (\<forall>q \<in> set (queue_of GAlter c). sleeps c q) \<and>
     (\<forall>i < c_nsems c. \<forall>q \<in> set (queue_of (SAlter i) c). stuck c i q)"

definition quiet :: "sem_ctx \<Rightarrow> bool" where
  "quiet c \<longleftrightarrow> const_quiet c \<and> alter_quiet c"

lemma update_nums_inv:
  assumes "wq_inv c" and "const_quiet c" and "queue_of GAlter c = []"
    and "\<forall>i \<in> set nums. i < c_nsems c"
    and "\<forall>i < c_nsems c. i \<notin> set nums \<longrightarrow> (\<forall>q \<in> set (queue_of (SAlter i) c). stuck c i q)"
    and "update_nums nums ot c = (ot', c')"
  shows "wq_inv c' \<and> quiet c' \<and> same_shape c c' \<and>
    use_global_lock (c_sma c') = use_global_lock (c_sma c) \<and> queue_of GAlter c' = []"
    (is "?post c")
  using assms
proof (induction nums arbitrary: ot c)
  case Nil
  then show ?case by (simp add: quiet_def alter_quiet_def)
next
  case (Cons i rest)
  obtain f c1 where u: "update_queue (Some i) c = (f, c1)" by force
  have i: "i < c_nsems c" using Cons.prems(4) by simp
  have "update_loop (Some i) [] (queue_of (SAlter i) c) False c = (f, c1)"
    using u by (simp add: update_queue_def alter_list_def)
  then have l: "wq_inv c1" "const_quiet c1" "same_shape c c1"
    "use_global_lock (c_sma c1) = use_global_lock (c_sma c)" "queue_of GAlter c1 = []"
    "\<forall>q \<in> set (queue_of (SAlter i) c1). stuck c1 i q"
    "\<forall>j < c_nsems c. j \<noteq> i \<longrightarrow>
        semval_at c1 j = semval_at c j \<and> queue_of (SAlter j) c1 = queue_of (SAlter j) c"
    using update_loop_local [OF Cons.prems(1,2) i Cons.prems(3), of "[]" "queue_of (SAlter i) c" False f c1]
    by simp_all
  have n: "c_nsems c1 = c_nsems c" using l(3) by (simp add: same_shape_def)
  have "?post c1"
  proof (rule Cons.IH [OF l(1,2,5)])
    show "\<forall>j \<in> set rest. j < c_nsems c1" using Cons.prems(4) n by simp
    show "\<forall>j < c_nsems c1. j \<notin> set rest \<longrightarrow> (\<forall>q \<in> set (queue_of (SAlter j) c1). stuck c1 j q)"
    proof (intro allI impI)
      fix j assume j: "j < c_nsems c1" "j \<notin> set rest"
      show "\<forall>q \<in> set (queue_of (SAlter j) c1). stuck c1 j q"
        using l(6,7) j n Cons.prems(5) by (cases "j = i") (auto simp: stuck_def)
    qed
    show "update_nums rest (ot \<or> f) c1 = (ot', c')" using Cons.prems(6) u by simp
  qed
  then show ?case using l(3,4) same_shape_trans [of c c1 c'] by simp
qed

lemma set_semotime_inv:
  assumes "c' = set_semotime now sops c"
  shows "wq_inv c' = wq_inv c" and "quiet c' = quiet c" and "same_shape c c'"
    and "use_global_lock (c_sma c') = use_global_lock (c_sma c)"
    and "\<And>p. queue_of p c' = queue_of p c"
proof -
  let ?i = "case sops of None \<Rightarrow> 0 | Some l \<Rightarrow> sem_num (hd l)"
  have q: "queue_of p c' = queue_of p c" for p
    by (cases p; cases "?i < length (sems (c_sma c))")
      (auto simp: assms set_semotime_def upd_sem_def get_list.simps nth_list_update Let_def
        list_update_beyond not_less)
  have v: "vals c' = vals c" "c_undo c' = c_undo c" "length (sems (c_sma c')) = length (sems (c_sma c))"
    "c_nsems c' = c_nsems c" "complex_count (c_sma c') = complex_count (c_sma c)"
    and g: "use_global_lock (c_sma c') = use_global_lock (c_sma c)"
    by (simp_all add: assms set_semotime_def upd_sem_def vals_def list_update_map_id c_nsems_def Let_def)
  have s: "semval_at c' j = semval_at c j" for j
    by (cases "?i < length (sems (c_sma c))"; cases "j = ?i")
      (simp_all add: assms set_semotime_def upd_sem_def semval_at_def Let_def list_update_beyond not_less)
  show sh: "same_shape c c'" using v by (simp add: same_shape_def)
  show "wq_inv c' = wq_inv c"
    by (simp add: wq_inv_def ctx_ok_def v q entries_ok_def one_mode_def complex_entries_def
        same_shape_entry_ok [OF sh])
  show "quiet c' = quiet c"
    by (simp add: quiet_def const_quiet_def alter_quiet_def nonzero_def stuck_def sleeps_def q v s
        adjs_def undo_of_def cong: option.case_cong)
  show "use_global_lock (c_sma c') = use_global_lock (c_sma c)" by (rule g)
  show "queue_of p c' = queue_of p c" for p by (rule q)
qed


subsection \<open>\<open>do_smart_update\<close> restores the invariant\<close>

lemma run_sops_noninc:
  assumes "run_sops sops (vs, adj) = (ScanEnd, vs', adj')" and "i < length vs"
    and "\<forall>s \<in> set sops. sem_num s = i \<longrightarrow> sem_op s \<le> 0"
  shows "vs' ! i \<le> vs ! i"
  using assms
proof (induction sops arbitrary: vs adj)
  case (Cons s rest)
  let ?vs = "vs[sem_num s := vs ! sem_num s + sem_op s]"
  have "vs' ! i \<le> ?vs ! i"
    using Cons.prems(2,3) by (intro Cons.IH [OF run_sops_ConsE(2) [OF Cons.prems(1)]]) simp_all
  moreover have "?vs ! i \<le> vs ! i" using Cons.prems(2,3) by (cases "sem_num s = i") auto
  ultimately show ?case by simp
qed simp

text \<open>The second half of \<open>do_smart_update\<close>, for any list \<open>nums\<close> that covers the increased semaphores.\<close>

lemma smart_alters:
  assumes inv: "wq_inv c" and cq: "const_quiet c" and lt: "\<forall>i \<in> set nums. i < c_nsems c"
    and st: "\<And>i q. i < c_nsems c \<Longrightarrow> i \<notin> set nums \<Longrightarrow> q \<in> set (queue_of (SAlter i) c) \<Longrightarrow> stuck c i q"
    and run: "(if pending_alter (c_sma c) \<noteq> []
               then (case update_queue None c of (f, c') \<Rightarrow> (ot \<or> f, c'))
               else update_nums nums ot c) = (ot', c')"
  shows "wq_inv c' \<and> quiet c' \<and> same_shape c c' \<and> use_global_lock (c_sma c') = use_global_lock (c_sma c)"
proof (cases "queue_of GAlter c = []")
  case True
  then have u: "update_nums nums ot c = (ot', c')" using run by (simp add: get_list.simps)
  have "\<forall>i < c_nsems c. i \<notin> set nums \<longrightarrow> (\<forall>q \<in> set (queue_of (SAlter i) c). stuck c i q)"
    using st by blast
  from update_nums_inv [OF inv cq True lt this u] show ?thesis by simp
next
  case False
  have sa: "\<forall>i < c_nsems c. queue_of (SAlter i) c = []"
    using wq_invD(5) [OF inv] False by (simp add: one_mode_def)
  obtain f where "update_loop None [] (queue_of GAlter c) False c = (f, c')"
    using run False by (auto simp: get_list.simps update_queue_def alter_list_def split: prod.splits)
  from update_loop_global [OF refl inv cq sa _ _ this]
  have g: "wq_inv c'" "const_quiet c'" "same_shape c c'"
    "use_global_lock (c_sma c') = use_global_lock (c_sma c)"
    "\<forall>i < c_nsems c. queue_of (SAlter i) c' = []" "\<forall>q \<in> set (queue_of GAlter c'). sleeps c' q"
    by simp_all
  then show ?thesis by (simp add: quiet_def alter_quiet_def same_shape_def)
qed

lemma do_smart_update_unfold:
  assumes "do_smart_wakeup_zero sops c = (fin, c1)"
    and nums: "nums = (case sops of None \<Rightarrow> [0..<c_nsems c1]
                       | Some l \<Rightarrow> map sem_num (filter (\<lambda>sop. sem_op sop > 0) l))"
    and s: "wq_inv c1" "const_quiet c1" "\<forall>i \<in> set nums. i < c_nsems c1"
      "\<And>i q. i < c_nsems c1 \<Longrightarrow> i \<notin> set nums \<Longrightarrow> q \<in> set (queue_of (SAlter i) c1) \<Longrightarrow> stuck c1 i q"
    and c': "c' = do_smart_update now sops ot c"
  shows "wq_inv c'" and "quiet c'" and "same_shape c1 c'"
    and "use_global_lock (c_sma c') = use_global_lock (c_sma c1)"
proof -
  obtain ot2 c2 where r: "(if pending_alter (c_sma c1) \<noteq> []
      then (case update_queue None c1 of (f, c') \<Rightarrow> ((ot \<or> fin) \<or> f, c'))
      else update_nums nums (ot \<or> fin) c1) = (ot2, c2)" by (metis surj_pair)
  note a = smart_alters [OF s r]
  have "c' = (if ot2 then set_semotime now sops c2 else c2)"
    using r by (auto simp: c' do_smart_update_def assms(1) nums split: if_splits prod.splits)
  with a set_semotime_inv [of "set_semotime now sops c2" now sops c2] same_shape_trans [of c1 c2]
  show "wq_inv c'" and "quiet c'" and "same_shape c1 c'"
    and "use_global_lock (c_sma c') = use_global_lock (c_sma c1)"
    by (auto split: if_splits)
qed

lemma do_smart_update_all:
  assumes inv: "wq_inv c" and c': "c' = do_smart_update now None ot c"
  shows "wq_inv c'" and "quiet c'" and "same_shape c c'"
    and "use_global_lock (c_sma c') = use_global_lock (c_sma c)"
proof -
  obtain fin c1 where z: "do_smart_wakeup_zero None c = (fin, c1)" by force
  have "const_quiet_but (set [0..<c_nsems c]) c"
  proof -
    have "nonzero c q \<or> (\<exists>s \<in> set (q_sops q). sem_num s \<in> set [0..<c_nsems c] \<and> semval_at c (sem_num s) = 0)"
      if "q \<in> set (queue_of GConst c)" for q
    proof -
      have "entry_ok c q" using queue_entry_ok(1) [OF inv _ that] by simp
      then have "hd (q_sops q) \<in> set (q_sops q)" "sem_num (hd (q_sops q)) < c_nsems c"
        using entry_okD(3,5) [of c q] by (simp_all add: sops_ok_def)
      then show ?thesis by (auto simp: nonzero_def)
    qed
    then show ?thesis by (simp add: const_quiet_but_def)
  qed
  note w = wakeup_zero_inv [OF inv _ _ this z, simplified]
  note d = do_smart_update_unfold [OF z refl w(1,3) _ _ c']
  have d: "wq_inv c'" "quiet c'" "same_shape c1 c'" "use_global_lock (c_sma c') = use_global_lock (c_sma c1)"
    by (rule d; simp)+
  then show "wq_inv c'" and "quiet c'" and "same_shape c c'"
    and "use_global_lock (c_sma c') = use_global_lock (c_sma c)"
    using w(2) same_shape_trans [of c c1 c'] by (simp_all add: same_state_def)
qed

lemma do_smart_update_sops:
  assumes inv: "wq_inv c" and quiet: "quiet c" and q: "entry_ok c q"
    and run: "run_sops (q_sops q) (vals c, adjs c (q_undo q)) = (ScanEnd, vs, adj)"
    and c1: "c1 = commit (q_undo q) (q_pid q) (q_sops q) (vs, adj) c"
    and c': "c' = do_smart_update now (Some (q_sops q)) ot c1"
  shows "wq_inv c'" and "quiet c'" and "same_shape c c'"
    and "use_global_lock (c_sma c') = use_global_lock (c_sma c)"
proof -
  note f = commit_facts [OF q run c1] and inv1 = wq_inv_commit [OF inv q run c1]
  have cq: "const_quiet_but (set (map sem_num (q_sops q))) c1"
    using const_quiet_commit [OF inv q run c1] quiet by (simp add: quiet_def)
  have lt: "\<forall>i \<in> set (map sem_num (q_sops q)). i < c_nsems c1"
    using entry_okD(3) [OF q] f(2) by (simp add: sops_ok_def)
  obtain fin c2 where z: "do_smart_wakeup_zero (Some (q_sops q)) c1 = (fin, c2)" by force
  have w: "wq_inv c2" "same_state c1 c2" "const_quiet c2" "same_alters c1 c2"
    using wakeup_zero_inv [OF inv1 _ lt cq z] by simp_all
  let ?nums = "map sem_num (filter (\<lambda>sop. sem_op sop > 0) (q_sops q))"
  have n: "c_nsems c2 = c_nsems c" using same_stateD(1) [OF w(2)] f(2) by simp
  have len: "length (sems (c_sma c)) = c_nsems c" by (rule wq_invD(6) [OF inv])
  have "stuck c2 i r" if i: "i < c_nsems c2" "i \<notin> set ?nums" and r: "r \<in> set (queue_of (SAlter i) c2)" for i r
  proof -
    have "r \<in> set (queue_of (SAlter i) c)"
      using r w(4) i(1) n f(2,7) by (simp add: same_alters_def)
    then have "stuck c i r" using quiet i(1) n by (simp add: quiet_def alter_quiet_def)
    moreover have "vs ! i \<le> vals c ! i"
      using i len n by (intro run_sops_noninc [OF run]) (auto simp: not_less [symmetric])
    moreover have "semval_at c2 i = vs ! i"
      using same_stateD(2,3) [OF w(2)] f(1,3) i(1) n len vals_nth [of i c2] by (simp add: same_shape_def)
    ultimately show ?thesis using i(1) n len vals_nth [of i c] by (simp add: stuck_def)
  qed
  moreover have "\<forall>i \<in> set ?nums. i < c_nsems c2" using lt n f(2) by auto
  ultimately have d: "wq_inv c'" "quiet c'" "same_shape c2 c'"
    "use_global_lock (c_sma c') = use_global_lock (c_sma c2)"
    using do_smart_update_unfold [OF z _ w(1,3) _ _ c', of ?nums] by simp_all
  then show "wq_inv c'" and "quiet c'" and "same_shape c c'"
    and "use_global_lock (c_sma c') = use_global_lock (c_sma c)"
    using w(2) f(1,5) same_shape_trans [of c c1 c'] same_shape_trans [of c1 c2 c']
    by (simp_all add: same_state_def)
qed

end
