(* ===== verification/Sem_Modes.thy ===== *)
theory Sem_Modes
  imports Sem_Wakeup
begin

text \<open>
  Switching between the global queue and the per-semaphore queues, and between the global lock
  and the per-semaphore locks: what \<open>merge_queues\<close>, \<open>unmerge_queues\<close>, \<open>sem_lock\<close> and \<open>sem_unlock\<close> do
  to the wait queues, and the invariant of an array that nobody has locked.
\<close>

section \<open>Unmerging\<close>

lemma upd_sem_nsems [simp]:
  "sem_nsems (upd_sem i f sma) = sem_nsems sma" "length (sems (upd_sem i f sma)) = length (sems sma)"
  by (simp_all add: upd_sem_def)

text \<open>A context in which only wait queues differ, and the counters of the array.\<close>

definition same_but_queues :: "sem_ctx \<Rightarrow> sem_ctx \<Rightarrow> bool" where
  "same_but_queues c c' \<longleftrightarrow> c_undo c' = c_undo c \<and> vals c' = vals c \<and> c_nsems c' = c_nsems c \<and>
     length (sems (c_sma c')) = length (sems (c_sma c))"

lemma same_but_queuesD:
  assumes "same_but_queues c c'"
  shows "same_shape c c'" and "\<And>q. entry_ok c' q = entry_ok c q" and "\<And>q. sleeps c' q = sleeps c q"
    and "\<And>i. i < length (sems (c_sma c)) \<Longrightarrow> semval_at c' i = semval_at c i"
proof -
  show sh: "same_shape c c'" using assms by (simp add: same_but_queues_def same_shape_def)
  show "entry_ok c' q = entry_ok c q" for q by (rule same_shape_entry_ok [OF sh])
  show "sleeps c' q = sleeps c q" for q
    using assms by (simp add: same_but_queues_def sleeps_def adjs_def undo_of_def cong: option.case_cong)
  show "semval_at c' i = semval_at c i" if "i < length (sems (c_sma c))" for i
    using assms that semval_at_vals [of c' c] by (simp add: same_but_queues_def)
qed

lemma same_but_queues_nonzero:
  "same_but_queues c c' \<Longrightarrow> entry_ok c q \<Longrightarrow> nonzero c' q = nonzero c q"
  using same_but_queuesD(4) [of c c'] entry_okD(1,3) [of c q]
  by (auto simp: nonzero_def ctx_ok_def sops_ok_def)

definition home :: "sem_queue \<Rightarrow> nat" where
  "home q = sem_num (hd (q_sops q))"

lemma fold_add_tail:
  assumes "\<And>q. q \<in> set l \<Longrightarrow> home q < length (sems sma)"
    and "sma' = fold (\<lambda>q. list_add_tail (SAlter (sem_num (hd (q_sops q)))) q) l sma"
  shows "get_list p sma' =
      (case p of SAlter i \<Rightarrow> get_list p sma @ filter (\<lambda>q. home q = i) l | _ \<Rightarrow> get_list p sma)"
    and "sem_nsems sma' = sem_nsems sma" and "length (sems sma') = length (sems sma)"
    and "map semval (sems sma') = map semval (sems sma)"
    and "complex_count sma' = complex_count sma" and "use_global_lock sma' = use_global_lock sma"
proof -
  have "get_list p sma' =
        (case p of SAlter i \<Rightarrow> get_list p sma @ filter (\<lambda>q. home q = i) l | _ \<Rightarrow> get_list p sma) \<and>
      sem_nsems sma' = sem_nsems sma \<and> length (sems sma') = length (sems sma) \<and>
      map semval (sems sma') = map semval (sems sma) \<and>
      complex_count sma' = complex_count sma \<and> use_global_lock sma' = use_global_lock sma"
    using assms
  proof (induction l arbitrary: sma)
    case Nil
    then show ?case by (cases p) simp_all
  next
    case (Cons q l)
    let ?s = "list_add_tail (SAlter (home q)) q sma"
    have h: "home q < length (sems sma)" using Cons.prems(1) by simp
    have "length (sems ?s) = length (sems sma)" by (simp add: list_add_tail_def)
    from Cons.IH [of ?s] Cons.prems this show ?case
      using h by (cases p)
        (simp_all add: list_add_tail_def get_list_set_list home_def [symmetric] del: set_list.simps)
  qed
  then show "get_list p sma' =
      (case p of SAlter i \<Rightarrow> get_list p sma @ filter (\<lambda>q. home q = i) l | _ \<Rightarrow> get_list p sma)"
    and "sem_nsems sma' = sem_nsems sma" and "length (sems sma') = length (sems sma)"
    and "map semval (sems sma') = map semval (sems sma)"
    and "complex_count sma' = complex_count sma" and "use_global_lock sma' = use_global_lock sma"
    by simp_all
qed

lemma unmerge_queues_lists:
  assumes "complex_count sma = 0" and "\<And>q. q \<in> set (pending_alter sma) \<Longrightarrow> home q < length (sems sma)"
  shows "get_list p (unmerge_queues sma) =
      (case p of SAlter i \<Rightarrow> get_list p sma @ filter (\<lambda>q. home q = i) (pending_alter sma)
       | GAlter \<Rightarrow> [] | _ \<Rightarrow> get_list p sma)"
    and "sem_nsems (unmerge_queues sma) = sem_nsems sma"
    and "length (sems (unmerge_queues sma)) = length (sems sma)"
    and "map semval (sems (unmerge_queues sma)) = map semval (sems sma)"
    and "complex_count (unmerge_queues sma) = 0"
    and "use_global_lock (unmerge_queues sma) = use_global_lock sma"
proof -
  define s where "s = fold (\<lambda>q. list_add_tail (SAlter (sem_num (hd (q_sops q)))) q) (pending_alter sma) sma"
  note f = fold_add_tail [OF assms(2) s_def]
  have u: "unmerge_queues sma = s\<lparr>pending_alter := []\<rparr>"
    using assms(1) by (simp add: unmerge_queues_def s_def)
  have "get_list p (s\<lparr>pending_alter := []\<rparr>) = (if p = GAlter then [] else get_list p s)"
    by (cases p) (simp_all add: get_list.simps)
  then show "get_list p (unmerge_queues sma) =
      (case p of SAlter i \<Rightarrow> get_list p sma @ filter (\<lambda>q. home q = i) (pending_alter sma)
       | GAlter \<Rightarrow> [] | _ \<Rightarrow> get_list p sma)"
    using f(1) [of p] by (cases p) (simp_all add: u)
  show "sem_nsems (unmerge_queues sma) = sem_nsems sma"
    and "length (sems (unmerge_queues sma)) = length (sems sma)"
    and "map semval (sems (unmerge_queues sma)) = map semval (sems sma)"
    and "complex_count (unmerge_queues sma) = 0"
    and "use_global_lock (unmerge_queues sma) = use_global_lock sma"
    using f(2-6) assms(1) by (simp_all add: u)
qed


lemma no_complex_entries:
  assumes "wq_inv c" and "complex_count (c_sma c) = 0" and "q \<in> set (queue_of GAlter c)"
  shows "place_ok (SAlter (home q)) q" and "home q < c_nsems c"
proof -
  have "\<not> nsops q > 1" using complex_entries_0 [of c q] wq_invD(4) [OF assms(1)] assms(2,3) by simp
  moreover have ok: "entry_ok c q" "place_ok GAlter q"
    using queue_entry_ok [OF assms(1) _ assms(3)] by simp_all
  ultimately have "nsops q = 1" using entry_okD(5) [OF ok(1)] by (cases "q_sops q") auto
  with ok(2) show "place_ok (SAlter (home q)) q" by (simp add: home_def)
  show "home q < c_nsems c"
    using entry_okD(3,5) [OF ok(1)] by (simp add: home_def sops_ok_def)
qed

text \<open>Transfer of the invariants to a context whose altering entries were moved between queues.\<close>

lemma moved_alters_inv:
  assumes inv: "wq_inv c" and q: "quiet c" and sb: "same_but_queues c c'"
    and const: "queue_of GConst c' = queue_of GConst c" "\<And>i. i < c_nsems c \<Longrightarrow> queue_of (SConst i) c' = queue_of (SConst i) c"
    and cc: "complex_count (c_sma c') = complex_entries c'" and mode: "one_mode c'"
    and ga: "\<And>r. r \<in> set (queue_of GAlter c') \<Longrightarrow> entry_ok c r \<and> place_ok GAlter r \<and> sleeps c r"
    and sa: "\<And>i r. i < c_nsems c \<Longrightarrow> r \<in> set (queue_of (SAlter i) c') \<Longrightarrow>
               entry_ok c r \<and> place_ok (SAlter i) r \<and> stuck c i r"
  shows "wq_inv c'" and "quiet c'"
proof -
  note d = same_but_queuesD [OF sb]
  have n: "c_nsems c' = c_nsems c" "vals c' = vals c" using sb by (simp_all add: same_but_queues_def)
  have len: "length (sems (c_sma c)) = c_nsems c" by (rule wq_invD(6) [OF inv])
  have "entry_ok c' r \<and> place_ok p r" if "valid_pend (c_nsems c') p" "r \<in> set (queue_of p c')" for p r
    using that queue_entry_ok [OF inv, of p r] const ga sa by (cases p) (simp_all add: n d(2))
  then have "entries_ok c'" by (simp add: entries_ok_def)
  moreover have "ctx_ok c'" using wq_invD(1) [OF inv] sb by (simp add: ctx_ok_def same_but_queues_def)
  ultimately show "wq_inv c'" using wq_invD(2) [OF inv] cc mode by (simp add: wq_inv_def n)
  have nz: "nonzero c' r = nonzero c r" if "r \<in> set (queue_of p c)" "valid_pend (c_nsems c) p" for p r
    using same_but_queues_nonzero [OF sb] queue_entry_ok(1) [OF inv that(2,1)] by simp
  have "const_quiet c'"
    using q nz [of _ GConst] nz [of _ "SConst _"] unfolding quiet_def const_quiet_def by (simp add: const n)
  moreover have "alter_quiet c'"
    using ga sa d(3,4) len by (simp add: alter_quiet_def n stuck_def)
  ultimately show "quiet c'" by (simp add: quiet_def)
qed

lemma unmerge_inv:
  assumes inv: "wq_inv c" and q: "quiet c" and c': "c' = c\<lparr>c_sma := unmerge_queues (c_sma c)\<rparr>"
  shows "wq_inv c'" and "quiet c'" and "complex_count (c_sma c') = complex_count (c_sma c)"
    and "use_global_lock (c_sma c') = use_global_lock (c_sma c)"
    and "complex_count (c_sma c) = 0 \<Longrightarrow> queue_of GAlter c' = []"
    and "same_shape c c'"
proof -
  have all: "wq_inv c' \<and> quiet c' \<and> complex_count (c_sma c') = complex_count (c_sma c) \<and>
      use_global_lock (c_sma c') = use_global_lock (c_sma c) \<and>
      (complex_count (c_sma c) = 0 \<longrightarrow> queue_of GAlter c' = []) \<and> same_shape c c'"
  proof (cases "complex_count (c_sma c) = 0")
    case False
    then have "c' = c" by (simp add: c' unmerge_queues_def)
    then show ?thesis using inv q False by simp
  next
    case True
    have len: "length (sems (c_sma c)) = c_nsems c" by (rule wq_invD(6) [OF inv])
    note nc = no_complex_entries [OF inv True, unfolded get_list.simps]
    note u = unmerge_queues_lists [OF True, of, unfolded len, OF nc(2)]
    have sb: "same_but_queues c c'"
      using u(2-4) len by (simp add: same_but_queues_def c' vals_def c_nsems_def)
    have ql: "queue_of GAlter c' = []" "queue_of GConst c' = queue_of GConst c"
      "\<And>i. queue_of (SConst i) c' = queue_of (SConst i) c"
      "\<And>i. queue_of (SAlter i) c' = queue_of (SAlter i) c @ filter (\<lambda>q. home q = i) (queue_of GAlter c)"
      using u(1) by (simp_all add: c' get_list.simps(1))
    have "\<not> nsops r > 1" if "r \<in> set (queue_of GConst c)" for r
      using that wq_invD(4) [OF inv] True complex_entries_0 [of c r] by simp
    moreover have cc0: "complex_count (c_sma c') = 0" "use_global_lock (c_sma c') = use_global_lock (c_sma c)"
      using u(5,6) by (simp_all add: c')
    ultimately have cc: "complex_count (c_sma c') = complex_entries c'"
      by (simp add: complex_entries_def ql filter_empty_conv)
    have sa: "entry_ok c r \<and> place_ok (SAlter i) r \<and> stuck c i r"
      if i: "i < c_nsems c" and r: "r \<in> set (queue_of (SAlter i) c')" for i r
    proof (cases "r \<in> set (queue_of (SAlter i) c)")
      case True
      then show ?thesis using queue_entry_ok [OF inv _ True] i q by (simp add: quiet_def alter_quiet_def)
    next
      case False
      then have g: "r \<in> set (queue_of GAlter c)" "home r = i" using r ql(4) by auto
      have "place_ok (SAlter i) r" using no_complex_entries(1) [OF inv \<open>complex_count (c_sma c) = 0\<close> g(1)] g(2) by simp
      moreover have "entry_ok c r" using queue_entry_ok(1) [OF inv _ g(1)] by simp
      moreover have "sleeps c r" using q g(1) by (simp add: quiet_def alter_quiet_def)
      ultimately show ?thesis using simple_dec_run(1) i by blast
    qed
    note m = moved_alters_inv [OF inv q sb ql(2) ql(3) cc _ _ sa]
    show ?thesis
      using m cc0 True same_but_queuesD(1) [OF sb] by (simp add: ql one_mode_def)
  qed
  then show "wq_inv c'" and "quiet c'" and "complex_count (c_sma c') = complex_count (c_sma c)"
    and "use_global_lock (c_sma c') = use_global_lock (c_sma c)"
    and "complex_count (c_sma c) = 0 \<Longrightarrow> queue_of GAlter c' = []"
    and "same_shape c c'" by simp_all
qed


section \<open>Merging\<close>

lemma fold_splice_alter:
  assumes "k \<le> length (sems sma)" and "sma' = fold splice_alter [0..<k] sma"
  shows "get_list p sma' =
      (case p of GAlter \<Rightarrow> concat (map (\<lambda>i. get_list (SAlter i) sma) (rev [0..<k])) @ get_list GAlter sma
       | SAlter i \<Rightarrow> if i < k then [] else get_list p sma | _ \<Rightarrow> get_list p sma) \<and>
     sem_nsems sma' = sem_nsems sma \<and> length (sems sma') = length (sems sma) \<and>
     map semval (sems sma') = map semval (sems sma) \<and>
     complex_count sma' = complex_count sma \<and> use_global_lock sma' = use_global_lock sma"
  using assms
proof (induction k arbitrary: p sma')
  case 0
  then show ?case by (cases p) simp_all
next
  case (Suc k)
  define s where "s = fold splice_alter [0..<k] sma"
  note ih = Suc.IH [OF _ s_def]
  have len: "k < length (sems s)" using ih Suc.prems(1) by simp
  have s': "sma' = splice_alter k s" by (simp add: Suc.prems(2) s_def)
  have g: "get_list p sma' = (if p = SAlter k then [] else if p = GAlter
      then get_list (SAlter k) s @ get_list GAlter s else get_list p s)" for p
    using len unfolding s' splice_alter_def
    by (simp add: get_list_set_list del: set_list.simps)
  show ?case
    using ih Suc.prems(1) g [of p] less_Suc_eq
    by (cases p) (auto simp: s' splice_alter_def simp del: set_list.simps)
qed

lemma merge_inv:
  assumes inv: "wq_inv c" and q: "quiet c" and cc0: "queue_of GAlter c = []"
    and c': "c' = c\<lparr>c_sma := merge_queues (c_sma c)\<rparr>"
  shows "wq_inv c'" and "quiet c'" and "same_but_queues c c'"
    and "complex_count (c_sma c') = complex_count (c_sma c)"
    and "use_global_lock (c_sma c') = use_global_lock (c_sma c)"
    and "\<forall>i < c_nsems c. queue_of (SAlter i) c' = []"
proof -
  have len: "length (sems (c_sma c)) = c_nsems c" by (rule wq_invD(6) [OF inv])
  have k: "sem_nsems (c_sma c) \<le> length (sems (c_sma c))" using len by (simp add: c_nsems_def)
  note m = fold_splice_alter [OF k refl, folded merge_queues_def]
  show sb: "same_but_queues c c'" using m by (simp add: same_but_queues_def c' vals_def c_nsems_def)
  show cc: "complex_count (c_sma c') = complex_count (c_sma c)"
    and "use_global_lock (c_sma c') = use_global_lock (c_sma c)" using m by (simp_all add: c')
  have ga: "queue_of GAlter c' = concat (map (\<lambda>i. queue_of (SAlter i) c) (rev [0..<c_nsems c]))"
    using m [of GAlter] cc0 by (simp add: c' c_nsems_def)
  have const: "queue_of GConst c' = queue_of GConst c" "queue_of (SConst i) c' = queue_of (SConst i) c" for i
    using m by (simp_all add: c')
  show sa: "\<forall>i < c_nsems c. queue_of (SAlter i) c' = []"
    using m [of "SAlter _"] by (simp add: c' c_nsems_def)
  have from_sa: "entry_ok c r \<and> place_ok GAlter r \<and> sleeps c r \<and> nsops r = 1"
    if r: "r \<in> set (queue_of GAlter c')" for r
  proof -
    obtain i where i: "i < c_nsems c" "r \<in> set (queue_of (SAlter i) c)"
      using r unfolding ga by auto
    then have "entry_ok c r" "place_ok (SAlter i) r" "stuck c i r"
      using queue_entry_ok [OF inv, of "SAlter i" r] q by (simp_all add: quiet_def alter_quiet_def)
    then show ?thesis using simple_dec_run(1) [of c r i] i(1) by simp
  qed
  then have "filter (\<lambda>q. nsops q > 1) (queue_of GAlter c') = []" by (auto simp: filter_empty_conv)
  then have "complex_entries c' = complex_entries c"
    by (simp add: complex_entries_def const cc0)
  then have "complex_count (c_sma c') = complex_entries c'" using cc wq_invD(4) [OF inv] by simp
  note mv = moved_alters_inv [OF inv q sb const this]
  have "one_mode c'" using sa sb by (simp add: one_mode_def same_but_queues_def)
  with mv from_sa sa show "wq_inv c'" and "quiet c'" by simp_all
qed

section \<open>The array between two calls\<close>

text \<open>
  Nobody holds a lock: the queues are well formed and quiet, there is no global queue of
  altering operations unless a complex one is among the sleepers, and as long as a complex
  operation sleeps everybody has to take the global lock.
\<close>

definition idle_inv :: "sem_ctx \<Rightarrow> bool" where
  "idle_inv c \<longleftrightarrow> wq_inv c \<and> quiet c \<and>
     (complex_count (c_sma c) = 0 \<longrightarrow> queue_of GAlter c = []) \<and>
     (complex_count (c_sma c) \<noteq> 0 \<longrightarrow> use_global_lock (c_sma c) \<noteq> 0)"

text \<open>What the owner of a lock relies on, by the lock that \<open>sem_lock\<close> returned.\<close>

definition locked_inv :: "int \<Rightarrow> sem_ctx \<Rightarrow> bool" where
  "locked_inv locknum c \<longleftrightarrow>
     (if locknum = SEM_GLOBAL_LOCK then use_global_lock (c_sma c) \<noteq> 0
      else complex_count (c_sma c) = 0 \<and> queue_of GAlter c = [] \<and> use_global_lock (c_sma c) = 0)"

lemma wq_inv_lockword [simp]:
  "wq_inv (c\<lparr>c_sma := (c_sma c)\<lparr>use_global_lock := w\<rparr>\<rparr>) = wq_inv c"
  "quiet (c\<lparr>c_sma := (c_sma c)\<lparr>use_global_lock := w\<rparr>\<rparr>) = quiet c"
proof -
  let ?c' = "c\<lparr>c_sma := (c_sma c)\<lparr>use_global_lock := w\<rparr>\<rparr>"
  have v: "vals ?c' = vals c" "c_nsems ?c' = c_nsems c" "semval_at ?c' = semval_at c"
    by (simp_all add: vals_def c_nsems_def semval_at_def fun_eq_iff)
  have sh: "same_shape c ?c'" by (simp add: same_shape_def c_nsems_def)
  show "wq_inv ?c' = wq_inv c"
    using same_shape_entry_ok [OF sh]
    by (simp add: wq_inv_def entries_ok_def one_mode_def complex_entries_def ctx_ok_def v)
  show "quiet ?c' = quiet c"
    by (simp add: quiet_def const_quiet_def alter_quiet_def nonzero_def stuck_def sleeps_def
        adjs_def undo_of_def v cong: option.case_cong)
qed

lemma sem_lock_inv:
  assumes "idle_inv c" and "lock_reads_ok r1 r2 (c_sma c)"
    and "sem_lock r1 r2 (c_sma c) sops n = (locknum, sma)" and c': "c' = c\<lparr>c_sma := sma\<rparr>"
  shows "wq_inv c'" and "quiet c'" and "locked_inv locknum c'"
    and "complex_count sma = 0 \<Longrightarrow> queue_of GAlter c' = []" and "same_but_queues c c'"
    and "locknum = SEM_GLOBAL_LOCK \<or> (n = 1 \<and> locknum = int (sem_num (hd sops)))"
proof -
  have i: "wq_inv c" "quiet c" "complex_count (c_sma c) = 0 \<longrightarrow> queue_of GAlter c = []"
    "complex_count (c_sma c) \<noteq> 0 \<longrightarrow> use_global_lock (c_sma c) \<noteq> 0"
    using assms(1) by (simp_all add: idle_inv_def)
  have enter: "complexmode_enter (c_sma c) = (c_sma c)\<lparr>use_global_lock := 10\<rparr>"
    by (simp add: complexmode_enter_def USE_GLOBAL_LOCK_HYSTERESIS_def)
  have "(locknum = SEM_GLOBAL_LOCK \<and> sma = complexmode_enter (c_sma c)) \<or>
      (n = 1 \<and> locknum = int (sem_num (hd sops)) \<and> use_global_lock (c_sma c) = 0 \<and> sma = c_sma c) \<or>
      (locknum = SEM_GLOBAL_LOCK \<and> use_global_lock (c_sma c) \<noteq> 0 \<and> sma = c_sma c)"
    using assms(2,3) unfolding sem_lock_def lock_reads_ok_def
    by (simp only: prod.inject split: if_splits) blast+
  then consider (all) "locknum = SEM_GLOBAL_LOCK" "sma = (c_sma c)\<lparr>use_global_lock := 10\<rparr>"
    | (one) "n = 1" "locknum = int (sem_num (hd sops))" "use_global_lock (c_sma c) = 0" "sma = c_sma c"
    | (still) "locknum = SEM_GLOBAL_LOCK" "use_global_lock (c_sma c) \<noteq> 0" "sma = c_sma c"
    unfolding enter by blast
  then have "wq_inv c' \<and> quiet c' \<and> locked_inv locknum c' \<and>
      (complex_count sma = 0 \<longrightarrow> queue_of GAlter c' = []) \<and> same_but_queues c c' \<and>
      (locknum = SEM_GLOBAL_LOCK \<or> (n = 1 \<and> locknum = int (sem_num (hd sops))))"
  proof cases
    case all
    then show ?thesis
      using i by (simp add: c' locked_inv_def same_but_queues_def vals_def c_nsems_def)
  next
    case one
    then show ?thesis
      using i by (simp add: c' locked_inv_def same_but_queues_def SEM_GLOBAL_LOCK_def)
  next
    case still
    then show ?thesis using i by (simp add: c' locked_inv_def same_but_queues_def)
  qed
  then show "wq_inv c'" and "quiet c'" and "locked_inv locknum c'"
    and "complex_count sma = 0 \<Longrightarrow> queue_of GAlter c' = []" and "same_but_queues c c'"
    and "locknum = SEM_GLOBAL_LOCK \<or> (n = 1 \<and> locknum = int (sem_num (hd sops)))"
    by simp_all
qed

lemma sem_unlock_inv:
  assumes "wq_inv c" and "quiet c" and "locked_inv locknum c"
    and c': "c' = c\<lparr>c_sma := sem_unlock (c_sma c) locknum\<rparr>"
  shows "idle_inv c'" and "same_shape c c'"
proof -
  have "idle_inv c' \<and> same_shape c c'"
  proof (cases "locknum = SEM_GLOBAL_LOCK")
    case False
    then show ?thesis using assms by (simp add: idle_inv_def locked_inv_def sem_unlock_def)
  next
    case True
    define u where "u = c\<lparr>c_sma := unmerge_queues (c_sma c)\<rparr>"
    note m = unmerge_inv [OF assms(1,2) u_def]
    have "\<exists>w. c' = u\<lparr>c_sma := (c_sma u)\<lparr>use_global_lock := w\<rparr>\<rparr> \<and>
        (complex_count (c_sma u) \<noteq> 0 \<longrightarrow> w = use_global_lock (c_sma u))"
      using True by (auto simp: c' u_def sem_unlock_def complexmode_tryleave_def
          intro: exI [of _ "use_global_lock (unmerge_queues (c_sma c))"])
    then obtain w where w: "c' = u\<lparr>c_sma := (c_sma u)\<lparr>use_global_lock := w\<rparr>\<rparr>"
      "complex_count (c_sma u) \<noteq> 0 \<longrightarrow> w = use_global_lock (c_sma u)" by blast
    have "idle_inv c'"
      using m w assms(3) True by (simp add: idle_inv_def locked_inv_def)
    moreover have "same_shape c c'"
      using m(6) by (simp add: same_shape_def w(1) c_nsems_def)
    ultimately show ?thesis by blast
  qed
  then show "idle_inv c'" and "same_shape c c'" by simp_all
qed

end
