(* ===== verification/Sem_Timedop.thy ===== *)
theory Sem_Timedop
  imports Sem_Modes
begin

text \<open>
  The handlers of \<open>ipc/sem.c\<close> that work on one array while they own its lock: the locked part of
  \<open>do_semtimedop\<close>, the part after a sleep, setting of values, the adjustments at process exit and
  the removal of an array; and the theorem that all of them keep the invariant of an idle array,
  so that no operation sleeps that could be executed.
\<close>

section \<open>Operations\<close>

definition enqueue_semop :: "sem_queue \<Rightarrow> sem_array \<Rightarrow> sem_array" where
  "enqueue_semop q sma =
     (if nsops q = 1 then
        let idx = array_index_nospec (sem_num (hd (q_sops q))) (sem_nsems sma)
        in if q_alter q
           then if complex_count sma \<noteq> 0 then list_add_tail GAlter q sma
                else list_add_tail (SAlter idx) q sma
           else list_add_tail (SConst idx) q sma
      else
        let sma1 = (if complex_count sma = 0 then merge_queues sma else sma);
            sma2 = (if q_alter q then list_add_tail GAlter q sma1 else list_add_tail GConst q sma1)
        in sma2\<lparr>complex_count := complex_count sma2 + 1\<rparr>)"

datatype semop_outcome = Returned "errno option" | Sleeping

abbreviation unlock_ctx :: "int \<Rightarrow> sem_ctx \<Rightarrow> sem_ctx" where
  "unlock_ctx locknum c \<equiv> c\<lparr>c_sma := sem_unlock (c_sma c) locknum\<rparr>"

text \<open>From \<open>sem_lock\<close> to the return or to \<open>schedule\<close>.\<close>

definition semtimedop_locked ::
    "ipc_cfg \<Rightarrow> int \<Rightarrow> task \<Rightarrow> int \<Rightarrow> sem_queue \<Rightarrow> sem_ctx \<Rightarrow> semop_outcome \<times> sem_ctx" where
  "semtimedop_locked cfg now current locknum queue c =
     (if \<not> ipc_valid_object cfg (perm_of (c_sma c)) then (Returned (Some EIDRM), unlock_ctx locknum c)
      else if q_undo queue \<noteq> None \<and> un_semid (undo_of c (q_undo queue)) = -1
      then (Returned (Some EIDRM), unlock_ctx locknum c)
      else case perform_atomic_semop c queue of
             (SemDone, q1, c1) \<Rightarrow>
               let c2 = (if q_alter queue then do_smart_update now (Some (q_sops queue)) True c1
                         else set_semotime now (Some (q_sops queue)) c1)
               in (Returned None, unlock_ctx locknum c2)
           | (SemErr e, q1, c1) \<Rightarrow> (Returned (Some e), unlock_ctx locknum c1)
           | (SemSleep, q1, c1) \<Rightarrow>
               let q2 = q1\<lparr>q_status := Some EINTR, q_sleeper := current\<rparr>
               in (Sleeping, unlock_ctx locknum (c1\<lparr>c_sma := enqueue_semop q2 (c_sma c1)\<rparr>)))"

definition semtimedop_start ::
    "ipc_cfg \<Rightarrow> int \<Rightarrow> task \<Rightarrow> u32 \<Rightarrow> u32 \<Rightarrow> sem_queue \<Rightarrow> sem_ctx \<Rightarrow> semop_outcome \<times> sem_ctx" where
  "semtimedop_start cfg now current r1 r2 queue c =
     (case sem_lock r1 r2 (c_sma c) (q_sops queue) (int (nsops queue)) of
        (locknum, sma) \<Rightarrow> semtimedop_locked cfg now current locknum queue (c\<lparr>c_sma := sma\<rparr>))"

text \<open>The entry of a sleeping task and its place in the queues.\<close>

definition all_pends :: "nat \<Rightarrow> pend list" where
  "all_pends n = GAlter # GConst # map SAlter [0..<n] @ map SConst [0..<n]"

definition split_sleeper ::
    "task \<Rightarrow> sem_queue list \<Rightarrow> (sem_queue list \<times> sem_queue \<times> sem_queue list) option" where
  "split_sleeper t l =
     (case dropWhile (\<lambda>q. q_sleeper q \<noteq> t) l of
        [] \<Rightarrow> None | q # rest \<Rightarrow> Some (takeWhile (\<lambda>q. q_sleeper q \<noteq> t) l, q, rest))"

fun find_queued ::
    "task \<Rightarrow> pend list \<Rightarrow> sem_array \<Rightarrow> (pend \<times> sem_queue list \<times> sem_queue \<times> sem_queue list) option" where
  "find_queued t [] sma = None"
| "find_queued t (p # ps) sma =
     (case split_sleeper t (get_list p sma) of
        Some (dn, q, rest) \<Rightarrow> Some (p, dn, q, rest) | None \<Rightarrow> find_queued t ps sma)"

definition queued_at ::
    "task \<Rightarrow> sem_array \<Rightarrow> (pend \<times> sem_queue list \<times> sem_queue \<times> sem_queue list) option" where
  "queued_at t sma = find_queued t (all_pends (sem_nsems sma)) sma"

text \<open>
  \<open>queue.status\<close> of the sleeping task \<open>t\<close>: \<open>-EINTR\<close> while its entry is queued, then what the
  waker stored.
\<close>

definition queue_status :: "task \<Rightarrow> sem_ctx \<Rightarrow> errno option" where
  "queue_status t c =
     (case queued_at t (c_sma c) of
        Some _ \<Rightarrow> Some EINTR
      | None \<Rightarrow> (case find (\<lambda>q. q_sleeper q = t) (rev (c_wake c)) of
                   Some q \<Rightarrow> q_status q | None \<Rightarrow> Some EINTR))"

definition unlink_sleeper :: "task \<Rightarrow> sem_ctx \<Rightarrow> sem_ctx" where
  "unlink_sleeper t c =
     (case queued_at t (c_sma c) of
        None \<Rightarrow> c | Some (p, dn, q, rest) \<Rightarrow> unlink_queue p dn rest q c)"

text \<open>
  One turn of the sleep loop after \<open>schedule\<close>: \<open>status\<close> is what the read without the lock saw,
  \<open>timed_out\<close> says that there is a timeout and no jiffies are left, \<open>signal\<close> is
  \<open>signal_pending(current)\<close>.
\<close>

definition semtimedop_resume ::
    "ipc_cfg \<Rightarrow> task \<Rightarrow> u32 \<Rightarrow> u32 \<Rightarrow> errno option \<Rightarrow> bool \<Rightarrow> bool \<Rightarrow> sembuf list \<Rightarrow> sem_ctx
       \<Rightarrow> semop_outcome \<times> sem_ctx" where
  "semtimedop_resume cfg current r1 r2 status timed_out signal sops c =
     (if status \<noteq> Some EINTR then (Returned status, c)
      else case sem_lock r1 r2 (c_sma c) sops (int (length sops)) of
             (locknum, sma) \<Rightarrow>
               let c1 = c\<lparr>c_sma := sma\<rparr>
               in if \<not> ipc_valid_object cfg (perm_of sma) then (Returned (Some EINTR), unlock_ctx locknum c1)
                  else
                    let error = queue_status current c1
                    in if error \<noteq> Some EINTR then (Returned error, unlock_ctx locknum c1)
                       else if timed_out
                       then (Returned (Some EAGAIN), unlock_ctx locknum (unlink_sleeper current c1))
                       else if signal
                       then (Returned (Some EINTR), unlock_ctx locknum (unlink_sleeper current c1))
                       else (Sleeping, unlock_ctx locknum c1))"

text \<open>The locked part of \<open>semctl_setval\<close>.\<close>

definition clear_semadj :: "nat \<Rightarrow> addr list \<Rightarrow> sem_ctx \<Rightarrow> sem_ctx" where
  "clear_semadj semnum uns c = fold (\<lambda>un. set_semadj (Some un) semnum 0) uns c"

definition setval_locked :: "int \<Rightarrow> pid \<Rightarrow> nat \<Rightarrow> int \<Rightarrow> sem_ctx \<Rightarrow> sem_ctx" where
  "setval_locked now tgid semnum val c =
     (let semnum = array_index_nospec semnum (c_nsems c);
          c1 = clear_semadj semnum (list_id (c_sma c)) c;
          c2 = set_semval semnum val c1;
          c3 = ipc_update_pid semnum (Some tgid) c2;
          c4 = c3\<lparr>c_sma := (c_sma c3)\<lparr>sem_ctime := now\<rparr>\<rparr>;
          c5 = do_smart_update now None False c4
      in unlock_ctx SEM_GLOBAL_LOCK c5)"

text \<open>The locked part of \<open>SETALL\<close>.\<close>

definition setall_values :: "pid \<Rightarrow> int list \<Rightarrow> nat list \<Rightarrow> sem_ctx \<Rightarrow> sem_ctx" where
  "setall_values tgid sem_io is c =
     fold (\<lambda>i c. ipc_update_pid i (Some tgid) (set_semval i (sem_io ! i) c)) is c"

definition setall_locked :: "int \<Rightarrow> pid \<Rightarrow> int list \<Rightarrow> sem_ctx \<Rightarrow> sem_ctx" where
  "setall_locked now tgid sem_io c =
     (let nsems = c_nsems c;
          c1 = setall_values tgid sem_io [0..<nsems] c;
          c2 = fold (\<lambda>un. fold (\<lambda>i. set_semadj (Some un) i 0) [0..<nsems]) (list_id (c_sma c1)) c1;
          c3 = c2\<lparr>c_sma := (c_sma c2)\<lparr>sem_ctime := now\<rparr>\<rparr>;
          c4 = do_smart_update now None False c3
      in unlock_ctx SEM_GLOBAL_LOCK c4)"

text \<open>The adjustments of \<open>exit_sem\<close> for the undo structure \<open>un\<close>, with the lock held.\<close>

definition exit_adjust :: "pid \<Rightarrow> addr \<Rightarrow> nat \<Rightarrow> sem_ctx \<Rightarrow> sem_ctx" where
  "exit_adjust tgid un i c =
     (if semadj_at c (Some un) i \<noteq> 0
      then let v = semval_at c i + semadj_at c (Some un) i;
               v = (if v < 0 then 0 else v);
               v = (if v > SEMVMX then SEMVMX else v)
           in ipc_update_pid i (Some tgid) (set_semval i v c)
      else c)"

definition exit_sem_locked :: "int \<Rightarrow> pid \<Rightarrow> addr \<Rightarrow> sem_ctx \<Rightarrow> sem_ctx" where
  "exit_sem_locked now tgid un c =
     (let c1 = c\<lparr>c_sma := (c_sma c)\<lparr>list_id := remove1 un (list_id (c_sma c))\<rparr>\<rparr>;
          c2 = fold (exit_adjust tgid un) [0..<c_nsems c1] c1;
          c3 = do_smart_update now None True c2
      in unlock_ctx SEM_GLOBAL_LOCK c3)"

text \<open>
  The part of \<open>freeary\<close> that works on the array: the undo structures are invalidated and
  everybody is woken with \<open>EIDRM\<close>.
\<close>

definition invalidate_undo :: "addr \<Rightarrow> sem_ctx \<Rightarrow> sem_ctx" where
  "invalidate_undo un c = c\<lparr>c_undo := (c_undo c)(un \<mapsto> (undo_of c (Some un))\<lparr>un_semid := -1\<rparr>)\<rparr>"

fun drain :: "pend \<Rightarrow> sem_queue list \<Rightarrow> sem_ctx \<Rightarrow> sem_ctx" where
  "drain p [] c = c"
| "drain p (q # rest) c =
     drain p rest (wake_up_sem_queue_prepare q (Some EIDRM) (unlink_queue p [] rest q c))"

definition drain_queue :: "pend \<Rightarrow> sem_ctx \<Rightarrow> sem_ctx" where
  "drain_queue p c = drain p (get_list p (c_sma c)) c"

definition freeary_locked :: "sem_ctx \<Rightarrow> sem_ctx" where
  "freeary_locked c =
     (let c1 = (fold invalidate_undo (list_id (c_sma c)) c);
          c2 = c1\<lparr>c_sma := (c_sma c1)\<lparr>list_id := []\<rparr>\<rparr>;
          c3 = drain_queue GAlter (drain_queue GConst c2)
      in fold (\<lambda>i c. ipc_update_pid i None (drain_queue (SAlter i) (drain_queue (SConst i) c)))
           [0..<c_nsems c3] c3)"


section \<open>Going to sleep\<close>

text \<open>What an entry has to satisfy to be quiet in a queue.\<close>

definition waits :: "sem_ctx \<Rightarrow> pend \<Rightarrow> sem_queue \<Rightarrow> bool" where
  "waits c p q = (case p of GAlter \<Rightarrow> sleeps c q | SAlter i \<Rightarrow> stuck c i q | _ \<Rightarrow> nonzero c q)"

lemma quiet_waits:
  "quiet c \<longleftrightarrow> (\<forall>p. valid_pend (c_nsems c) p \<longrightarrow> (\<forall>q \<in> set (queue_of p c). waits c p q))"
proof
  assume q: "quiet c"
  show "\<forall>p. valid_pend (c_nsems c) p \<longrightarrow> (\<forall>q \<in> set (queue_of p c). waits c p q)"
  proof (intro allI impI ballI)
    fix p r assume "valid_pend (c_nsems c) p" "r \<in> set (queue_of p c)"
    with q show "waits c p r"
      by (cases p) (auto simp: quiet_def const_quiet_def alter_quiet_def waits_def)
  qed
next
  assume a: "\<forall>p. valid_pend (c_nsems c) p \<longrightarrow> (\<forall>q \<in> set (queue_of p c). waits c p q)"
  from a [rule_format, of GAlter] a [rule_format, of GConst] a [rule_format, of "SAlter _"]
    a [rule_format, of "SConst _"]
  show "quiet c" by (simp add: quiet_def const_quiet_def alter_quiet_def waits_def)
qed

lemma waits_same_state:
  assumes "same_state c c'" and "entry_ok c q" and "valid_pend (c_nsems c) p"
  shows "waits c' p q = waits c p q"
proof -
  have "length (sems (c_sma c)) = c_nsems c" using entry_okD(1) [OF assms(2)] by (simp add: ctx_ok_def)
  then show ?thesis
    using assms(3) nonzero_same_state [OF assms(1,2)] same_stateD(4,5) [OF assms(1)]
    by (cases p) (simp_all add: waits_def stuck_def)
qed

text \<open>Replacing one queue by entries that wait keeps the array quiet.\<close>

lemma put_queue_inv:
  assumes inv: "wq_inv c" and q: "quiet c" and p: "valid_pend (c_nsems c) p"
    and l: "\<And>r. r \<in> set l \<Longrightarrow> entry_ok c r \<and> place_ok p r \<and> waits c p r"
    and mode: "one_mode (put_queue p l n c)" and n: "n = complex_entries (put_queue p l m c)"
  shows "wq_inv (put_queue p l n c)" and "quiet (put_queue p l n c)"
proof -
  show "wq_inv (put_queue p l n c)" using l by (intro wq_inv_put_queue [OF inv p _ mode n]) simp
  have pv: "valid_pend (length (sems (c_sma c))) p" using p wq_invD(6) [OF inv] by simp
  have st: "same_state c (put_queue p l n c)" by simp
  show "quiet (put_queue p l n c)" unfolding quiet_waits
  proof (intro allI impI ballI)
    fix p' r assume p': "valid_pend (c_nsems (put_queue p l n c)) p'" and r: "r \<in> set (queue_of p' (put_queue p l n c))"
    have "entry_ok c r \<and> waits c p' r"
      using r p' l queue_entry_ok(1) [OF inv, of p' r] q
      by (cases "p' = p") (auto simp: queue_of_put_queue [OF pv] quiet_waits)
    then show "waits (put_queue p l n c) p' r" using p' waits_same_state [OF st] by simp
  qed
qed

lemma append_inv:
  assumes inv: "wq_inv c" and q: "quiet c" and p: "valid_pend (c_nsems c) p"
    and e: "entry_ok c r" "place_ok p r" "waits c p r"
    and mode: "one_mode (put_queue p (queue_of p c @ [r]) n c)"
    and n: "n = complex_count (c_sma c) + (if nsops r > 1 then 1 else 0)"
  shows "wq_inv (put_queue p (queue_of p c @ [r]) n c)" and "quiet (put_queue p (queue_of p c @ [r]) n c)"
proof -
  have pv: "valid_pend (length (sems (c_sma c))) p" using p wq_invD(6) [OF inv] by simp
  have "n = complex_entries (put_queue p (queue_of p c @ [r]) 0 c)"
    using n e(2) pv wq_invD(4) [OF inv]
    by (cases p) (simp_all add: complex_entries_def queue_of_put_queue)
  moreover have "entry_ok c x \<and> place_ok p x \<and> waits c p x" if "x \<in> set (queue_of p c @ [r])" for x
    using that e queue_entry_ok [OF inv p, of x] q p by (auto simp: quiet_waits)
  ultimately show "wq_inv (put_queue p (queue_of p c @ [r]) n c)"
    and "quiet (put_queue p (queue_of p c @ [r]) n c)"
    using put_queue_inv [OF inv q p _ mode] by simp_all
qed

lemma add_tail_put_queue:
  "c\<lparr>c_sma := list_add_tail p q (c_sma c)\<rparr> = put_queue p (queue_of p c @ [q]) (complex_count (c_sma c)) c"
  by (simp add: list_add_tail_def set_list_put_queue)

lemma sleeping_simple:
  assumes "entry_ok c q" and "nsops q = 1" and "sleeps c q" and "vals_in_range (vals c)"
  shows "q_alter q \<Longrightarrow> place_ok (SAlter (home q)) q \<and> stuck c (home q) q"
    and "\<not> q_alter q \<Longrightarrow> place_ok (SConst (home q)) q \<and> nonzero c q"
    and "home q < c_nsems c"
proof -
  define s where "s = hd (q_sops q)"
  have q: "q_sops q = [s]" using simple_sops [OF assms(2)] by (simp add: s_def)
  have ctx: "length (sems (c_sma c)) = c_nsems c" "sem_num s < c_nsems c"
    using entry_okD(1,3) [OF assms(1)] q by (simp_all add: ctx_ok_def sops_ok_def)
  show h: "home q < c_nsems c" using ctx by (simp add: home_def s_def)
  have v: "vals c ! sem_num s = semval_at c (sem_num s)" "0 \<le> semval_at c (sem_num s)"
    using ctx assms(4) nth_mem [of "sem_num s" "vals c"] by (auto simp: vals_nth vals_in_range_def)
  have al: "q_alter q \<longleftrightarrow> sem_op s \<noteq> 0" using entry_okD(6) [OF assms(1)] q by simp
  have sl: "(sem_op s = 0 \<and> semval_at c (sem_num s) \<noteq> 0) \<or> semval_at c (sem_num s) + sem_op s < 0" "\<not> nowait s"
    using assms(3) v by (auto simp: sleeps_def q sop_stop_def Let_def split: if_splits)
  show "place_ok (SAlter (home q)) q \<and> stuck c (home q) q" if "q_alter q"
    using that al sl v assms(2) by (auto simp: home_def s_def [symmetric] simple_dec_def stuck_def)
  show "place_ok (SConst (home q)) q \<and> nonzero c q" if "\<not> q_alter q"
    using that sleeps_const_nonzero [OF assms(1) that assms(3)] assms(2) by (simp add: home_def)
qed


lemma locked_inv_put_queue:
  assumes "locked_inv k c" and "valid_pend (length (sems (c_sma c))) p"
    and "k = SEM_GLOBAL_LOCK \<or> (p \<noteq> GAlter \<and> n = complex_count (c_sma c))"
  shows "locked_inv k (put_queue p l n c)"
  using assms by (auto simp: locked_inv_def queue_of_put_queue)

lemma enqueue_simple:
  assumes inv: "wq_inv c" and q: "quiet c" and gc: "complex_count (c_sma c) = 0 \<Longrightarrow> queue_of GAlter c = []"
    and lk: "locked_inv k c" and e: "entry_ok c r" "sleeps c r" and simple: "nsops r = 1"
    and c': "c' = c\<lparr>c_sma := enqueue_semop r (c_sma c)\<rparr>"
  shows "wq_inv c'" and "quiet c'" and "locked_inv k c'" and "same_shape c c'"
proof -
  let ?n = "complex_count (c_sma c)"
  define p where "p = (if q_alter r then (if ?n \<noteq> 0 then GAlter else SAlter (home r)) else SConst (home r))"
  note h = sleeping_simple [OF e(1) simple e(2) wq_invD(2) [OF inv]]
  have pv: "valid_pend (c_nsems c) p" "valid_pend (length (sems (c_sma c))) p"
    using h(3) wq_invD(6) [OF inv] by (simp_all add: p_def)
  have eq: "c' = put_queue p (queue_of p c @ [r]) ?n c"
    using h(3) simple by (simp add: c' enqueue_semop_def p_def add_tail_put_queue [symmetric]
        array_index_nospec_def home_def c_nsems_def Let_def)
  have pl: "place_ok p r" "waits c p r" using h(1,2) e(2) by (auto simp: p_def waits_def)
  have "one_mode (put_queue p (queue_of p c @ [r]) ?n c)"
    using wq_invD(5) [OF inv] gc pv(2)
    by (cases "q_alter r"; cases "?n = 0") (auto simp: one_mode_def queue_of_put_queue p_def)
  note a = append_inv [OF inv q pv(1) e(1) pl this]
  show "wq_inv c'" and "quiet c'" using a simple unfolding eq by simp_all
  show "same_shape c c'" by (simp add: eq)
  have "k = SEM_GLOBAL_LOCK \<or> p \<noteq> GAlter" using lk by (auto simp: locked_inv_def p_def split: if_splits)
  then show "locked_inv k c'" unfolding eq by (intro locked_inv_put_queue [OF lk pv(2)]) simp
qed

lemma enqueue_complex:
  assumes inv: "wq_inv c" and q: "quiet c" and gc: "complex_count (c_sma c) = 0 \<Longrightarrow> queue_of GAlter c = []"
    and lk: "use_global_lock (c_sma c) \<noteq> 0" and e: "entry_ok c r" "sleeps c r" and complex: "nsops r > 1"
    and c': "c' = c\<lparr>c_sma := enqueue_semop r (c_sma c)\<rparr>"
  shows "wq_inv c'" and "quiet c'" and "use_global_lock (c_sma c') \<noteq> 0" and "same_shape c c'"
proof -
  let ?n = "complex_count (c_sma c)"
  define c1 where "c1 = c\<lparr>c_sma := (if ?n = 0 then merge_queues (c_sma c) else c_sma c)\<rparr>"
  have "wq_inv c1 \<and> quiet c1 \<and> same_but_queues c c1 \<and> complex_count (c_sma c1) = ?n \<and>
      use_global_lock (c_sma c1) = use_global_lock (c_sma c) \<and>
      (\<forall>i < c_nsems c1. queue_of (SAlter i) c1 = [])"
  proof (cases "?n = 0")
    case True
    then have "c1 = c\<lparr>c_sma := merge_queues (c_sma c)\<rparr>" by (simp add: c1_def)
    note m = merge_inv [OF inv q gc [OF True] this]
    have "c_nsems c1 = c_nsems c" using m(3) by (simp add: same_but_queues_def)
    with m show ?thesis by metis
  next
    case False
    then have "c1 = c" by (simp add: c1_def)
    then show ?thesis using inv q wq_invD(5) [OF inv] False
      unfolding one_mode_def same_but_queues_def by blast
  qed
  then have inv1: "wq_inv c1" and q1: "quiet c1" and sb: "same_but_queues c c1"
    and n1: "complex_count (c_sma c1) = ?n" "use_global_lock (c_sma c1) = use_global_lock (c_sma c)"
    and sa: "\<forall>i < c_nsems c1. queue_of (SAlter i) c1 = []" by blast+
  note d = same_but_queuesD [OF sb]
  define p where "p = (if q_alter r then GAlter else GConst)"
  have pv: "valid_pend (c_nsems c1) p" "valid_pend (length (sems (c_sma c1))) p" by (simp_all add: p_def)
  have eq: "c' = put_queue p (queue_of p c1 @ [r]) (?n + 1) c1"
    using complex n1(1) by (simp add: c' enqueue_semop_def c1_def p_def put_queue_def list_add_tail_def Let_def)
  have "nonzero c1 r" if "\<not> q_alter r"
    using sleeps_const_nonzero [OF e(1) that e(2)] same_but_queues_nonzero [OF sb e(1)] by simp
  then have w: "waits c1 p r" using e(2) d(3) [of r] by (simp add: p_def waits_def)
  have pl: "place_ok p r" using complex by (simp add: p_def)
  have mode: "one_mode (put_queue p (queue_of p c1 @ [r]) (?n + 1) c1)"
    using sa pv(2) by (auto simp: one_mode_def queue_of_put_queue p_def)
  have nn: "?n + 1 = complex_count (c_sma c1) + (if nsops r > 1 then 1 else 0)"
    and ent: "entry_ok c1 r" using complex n1(1) e(1) d(2) [of r] by simp_all
  note a = append_inv [OF inv1 q1 pv(1) ent pl w mode nn]
  show "wq_inv c'" and "quiet c'" unfolding eq by (rule a)+
  show "use_global_lock (c_sma c') \<noteq> 0" using lk n1(2) by (simp add: eq)
  show "same_shape c c'" unfolding eq by (rule same_shape_trans [OF d(1)]) simp
qed

lemma enqueue_inv:
  assumes "wq_inv c" and "quiet c" and "complex_count (c_sma c) = 0 \<Longrightarrow> queue_of GAlter c = []"
    and "locked_inv k c" and "k = SEM_GLOBAL_LOCK \<or> nsops r = 1" and "entry_ok c r" and "sleeps c r"
    and "c' = c\<lparr>c_sma := enqueue_semop r (c_sma c)\<rparr>"
  shows "wq_inv c'" and "quiet c'" and "locked_inv k c'" and "same_shape c c'"
proof -
  have "wq_inv c' \<and> quiet c' \<and> locked_inv k c' \<and> same_shape c c'"
  proof (cases "nsops r = 1")
    case True
    then show ?thesis using enqueue_simple [OF assms(1-4,6,7) True assms(8)] by blast
  next
    case False
    then have "nsops r > 1" using entry_okD(5) [OF assms(6)] by (cases "q_sops r") auto
    moreover have "k = SEM_GLOBAL_LOCK" "use_global_lock (c_sma c) \<noteq> 0"
      using assms(4,5) False by (auto simp: locked_inv_def)
    ultimately show ?thesis
      using enqueue_complex [OF assms(1-3) _ assms(6,7) _ assms(8)] by (simp add: locked_inv_def)
  qed
  then show "wq_inv c'" and "quiet c'" and "locked_inv k c'" and "same_shape c c'" by blast+
qed


section \<open>Per-semaphore mode is kept\<close>

text \<open>
  Waking under a per-semaphore lock does not add complex operations and does not touch the
  global queue of altering operations.  An undo structure keeps its owner and its array.
\<close>

definition undo_kept :: "(addr \<Rightarrow> sem_undo option) \<Rightarrow> (addr \<Rightarrow> sem_undo option) \<Rightarrow> bool" where
  "undo_kept m m' \<longleftrightarrow>
     (\<forall>a u. m a = Some u \<longrightarrow> (\<exists>u'. m' a = Some u' \<and> un_semid u' = un_semid u \<and> un_ulp u' = un_ulp u))"

lemma undo_kept_refl [simp]: "undo_kept m m"
  by (simp add: undo_kept_def)

lemma undo_kept_trans: "undo_kept m m' \<Longrightarrow> undo_kept m' m'' \<Longrightarrow> undo_kept m m''"
  unfolding undo_kept_def by metis

lemma undo_kept_semadj [simp]: "undo_kept (c_undo c) (c_undo (set_semadj un i v c))"
  by (auto simp: undo_kept_def set_semadj_def undo_of_def)

definition fewer :: "bool \<Rightarrow> sem_ctx \<Rightarrow> sem_ctx \<Rightarrow> bool" where
  "fewer g c c' \<longleftrightarrow> complex_count (c_sma c') \<le> complex_count (c_sma c) \<and>
     list_id (c_sma c') = list_id (c_sma c) \<and> perm_of (c_sma c') = perm_of (c_sma c) \<and>
     sem_nsems (c_sma c') = sem_nsems (c_sma c) \<and> undo_kept (c_undo c) (c_undo c') \<and>
     (g \<longrightarrow> pending_alter (c_sma c') = pending_alter (c_sma c))"

lemma perm_of_array_updates [simp]:
  "perm_of (sma\<lparr>sems := x\<rparr>) = perm_of sma" "perm_of (sma\<lparr>pending_alter := l\<rparr>) = perm_of sma"
  "perm_of (sma\<lparr>pending_const := l\<rparr>) = perm_of sma" "perm_of (sma\<lparr>complex_count := n\<rparr>) = perm_of sma"
  "perm_of (sma\<lparr>use_global_lock := w\<rparr>) = perm_of sma" "perm_of (sma\<lparr>list_id := u\<rparr>) = perm_of sma"
  "perm_of (sma\<lparr>sem_ctime := z\<rparr>) = perm_of sma"
  by (simp_all add: perm_of_def kern_ipc_perm.truncate_def)

lemma fewer_refl [simp]: "fewer g c c"
  by (simp add: fewer_def)

lemma fewer_trans: "fewer g c c' \<Longrightarrow> fewer g c' c'' \<Longrightarrow> fewer g c c''"
  by (auto simp: fewer_def intro: undo_kept_trans)

lemma fewer_basic [simp]:
  "fewer g c (set_semval i v c)" "fewer g c (set_semadj un i v c)" "fewer g c (ipc_update_pid i p c)"
  "fewer g c (wake_up_sem_queue_prepare q e c)"
proof -
  show "fewer g c (set_semadj un i v c)"
    unfolding fewer_def using undo_kept_semadj by (simp add: set_semadj_def)
qed (simp_all add: fewer_def set_semval_def ipc_update_pid_def upd_sem_def wake_up_sem_queue_prepare_def)

lemma pending_alter_set_list: "p \<noteq> GAlter \<Longrightarrow> pending_alter (set_list p l sma) = pending_alter sma"
  by (cases p) (simp_all add: upd_sem_def)

lemma set_list_head [simp]:
  "list_id (set_list p l sma) = list_id sma" "perm_of (set_list p l sma) = perm_of sma"
  "sem_nsems (set_list p l sma) = sem_nsems sma"
  by (cases p; simp add: upd_sem_def)+

lemma fewer_queue:
  "g \<longrightarrow> p \<noteq> GAlter \<Longrightarrow> fewer g c (c\<lparr>c_sma := set_list p l (c_sma c)\<rparr>)"
  "g \<longrightarrow> p \<noteq> GAlter \<Longrightarrow> fewer g c (unlink_queue p dn rest q c)"
  by (auto simp: fewer_def unlink_queue_def Let_def pending_alter_set_list)

lemma fewer_slow_scan: "slow_scan un dn sops c = (r, dn', c') \<Longrightarrow> fewer g c c'"
proof (induction sops arbitrary: dn c)
  case (Cons s rest)
  let ?i = "array_index_nospec (sem_num s) (c_nsems c)"
  define c2 where "c2 = set_semval ?i (semval_at c ?i + sem_op s)
    (if has_flag (sem_flg s) SEM_UNDO
     then set_semadj un (sem_num s) (semadj_at c un (sem_num s) - sem_op s) c else c)"
  have f: "fewer g c c2" unfolding c2_def using fewer_basic(1,2) fewer_trans by (metis (full_types))
  show ?case
  proof (cases "sop_stop s (semval_at c ?i) (semadj_at c un (sem_num s))")
    case (Some e)
    then show ?thesis using Cons.prems by (simp add: slow_scan_Cons Let_def)
  next
    case None
    then have "slow_scan un (s # dn) rest c2 = (r, dn', c')"
      using Cons.prems unfolding slow_scan_Cons c2_def by (simp only: Let_def option.case)
    from fewer_trans [OF f Cons.IH [OF this]] show ?thesis .
  qed
qed simp

lemma fewer_slow_walks: "fewer g c (slow_pids p dn c)" "fewer g c (slow_undo un dn c)"
proof -
  show "fewer g c (slow_pids p dn c)"
    by (induction dn arbitrary: c) (simp_all, meson fewer_basic(3) fewer_trans)
  show "fewer g c (slow_undo un dn c)"
    by (induction dn arbitrary: c) (simp_all add: Let_def, meson fewer_basic(1,2) fewer_trans)
qed

lemma fewer_fast_commit: "fewer g c (fast_commit un p sops c)"
  by (induction sops arbitrary: c) (simp_all add: Let_def, meson fewer_basic(1-3) fewer_trans)

lemma fewer_perform:
  assumes "perform_atomic_semop c q = (r, q1, c')" shows "fewer g c c'"
proof (cases "q_dupsop q")
  case True
  obtain e dn c1 where s: "slow_scan (q_undo q) [] (q_sops q) c = (e, dn, c1)" by (metis prod_cases3)
  then have "c' = slow_pids (q_pid q) dn c1 \<or> c' = slow_undo (q_undo q) dn c1"
    using assms True by (cases e) (auto simp: perform_atomic_semop_def perform_atomic_semop_slow_def)
  then show ?thesis using fewer_slow_scan [OF s] fewer_slow_walks fewer_trans by metis
next
  case False
  then show ?thesis using assms fewer_fast_commit
    by (auto simp: perform_atomic_semop_def split: scan_exit.splits)
qed

lemma fewer_const_loop:
  "p \<noteq> GAlter \<Longrightarrow> const_loop p dn todo fin c = (fin', c') \<Longrightarrow> fewer g c c'"
proof (induction todo arbitrary: dn fin c)
  case (Cons q rest)
  obtain r q1 c1 where r: "perform_atomic_semop c q = (r, q1, c1)" by (metis prod_cases3)
  have pg: "g \<longrightarrow> p \<noteq> GAlter" using Cons.prems(1) by simp
  note f1 = fewer_perform [OF r, of g] and fq = fewer_queue [OF pg, of c1]
  note f2 = fewer_trans [OF fq(2) fewer_basic(4)] and ih = Cons.IH [OF Cons.prems(1)]
  show ?case
  proof (cases r)
    case SemDone
    with Cons.prems(2) r show ?thesis by (simp, intro fewer_trans [OF f1 fewer_trans [OF f2 ih]])
  next
    case SemSleep
    with Cons.prems(2) r show ?thesis by (simp, intro fewer_trans [OF f1 fewer_trans [OF fq(1) ih]])
  next
    case (SemErr e)
    with Cons.prems(2) r show ?thesis by (simp, intro fewer_trans [OF f1 fewer_trans [OF f2 ih]])
  qed
qed simp

lemma fewer_wake_const_ops: "wake_const_ops num c = (fin, c') \<Longrightarrow> fewer g c c'"
  unfolding wake_const_ops_def Let_def by (erule fewer_const_loop [rotated]) (simp split: option.split)

lemma fewer_zero_loop: "zero_loop nums got fin c = (got', fin', c') \<Longrightarrow> fewer g c c'"
proof (induction nums arbitrary: got fin c)
  case (Cons i rest)
  obtain f c1 where w: "wake_const_ops (Some i) c = (f, c1)" by force
  show ?case
  proof (cases "semval_at c i = 0")
    case True
    then have "zero_loop rest True (fin \<or> f) c1 = (got', fin', c')" using Cons.prems w by simp
    from fewer_trans [OF fewer_wake_const_ops [OF w] Cons.IH [OF this]] show ?thesis .
  next
    case False
    then show ?thesis using Cons.prems Cons.IH by simp
  qed
qed simp

lemma fewer_wakeup_zero:
  assumes "do_smart_wakeup_zero sops c = (fin, c')" shows "fewer g c c'"
proof -
  let ?nums = "case sops of Some l \<Rightarrow> map sem_num l | None \<Rightarrow> [0..<c_nsems c]"
  obtain got f1 c1 where z: "zero_loop ?nums False False c = (got, f1, c1)" by (metis prod_cases3)
  obtain f2 c2 where w: "wake_const_ops None c1 = (f2, c2)" by force
  have "c' = c1 \<or> c' = c2" using assms z w by (auto simp: do_smart_wakeup_zero_def Let_def split: if_splits)
  then show ?thesis using fewer_zero_loop [OF z] fewer_wake_const_ops [OF w] fewer_trans by blast
qed

lemma fewer_update_loop:
  "update_loop num dn todo fin c = (fin', c') \<Longrightarrow> g \<longrightarrow> num \<noteq> None \<Longrightarrow> fewer g c c'"
proof (induction num dn todo fin c rule: update_loop.induct)
  case (2 num dn q rest fin c)
  have p: "g \<longrightarrow> alter_list num \<noteq> GAlter" using 2(6) by (auto simp: alter_list_def)
  obtain r q1 c1 where r: "perform_atomic_semop c q = (r, q1, c1)" by (metis prod_cases3)
  note f1 = fewer_perform [OF r, of g] and fq = fewer_queue [OF p, of c1]
  show ?case
  proof (cases "semval_is_zero num c")
    case True
    then show ?thesis using 2(5) by simp
  next
    case nz: False
    show ?thesis
    proof (cases r)
      case SemSleep
      define c2 where "c2 = c1\<lparr>c_sma := set_list (alter_list num) (dn @ q1 # rest) (c_sma c1)\<rparr>"
      have "update_loop num (dn @ [q1]) rest fin c2 = (fin', c')"
        using 2(5) nz r SemSleep by (simp add: c2_def Let_def)
      from 2(3) [OF refl nz r [unfolded SemSleep, symmetric] refl refl, folded c2_def, OF this 2(6)]
      show ?thesis using fewer_trans [OF fewer_trans [OF f1 fq(1)]] by (simp add: c2_def)
    next
      case (SemErr e)
      define c2 where "c2 = wake_up_sem_queue_prepare q1 (Some e) (unlink_queue (alter_list num) dn rest q1 c1)"
      have "update_loop num dn rest fin c2 = (fin', c')"
        using 2(5) nz r SemErr by (simp add: c2_def Let_def)
      from 2(4) [OF refl nz r [unfolded SemErr, symmetric] refl refl, folded c2_def, OF this 2(6)]
      show ?thesis using fewer_trans [OF fewer_trans [OF f1 fewer_trans [OF fq(2) fewer_basic(4)]]]
        by (simp add: c2_def)
    next
      case SemDone
      define u where "u = unlink_queue (alter_list num) dn rest q1 c1"
      define c2 where "c2 = snd (do_smart_wakeup_zero (Some (q_sops q1)) u)"
      define c3 where "c3 = wake_up_sem_queue_prepare q1 None c2"
      have "fewer g u c2" unfolding c2_def by (rule fewer_wakeup_zero [OF surjective_pairing])
      then have f3: "fewer g c c3"
        using fewer_trans [OF f1 fq(2)] fewer_basic(4) fewer_trans unfolding u_def c3_def by meson
      note ih = 2(1,2) [OF refl nz r [unfolded SemDone, symmetric] refl refl refl refl refl,
          folded u_def, folded c2_def, folded c3_def]
      have "update_loop num dn (q # rest) fin c =
          (if check_restart (c_sma c2) q1 then update_loop num [] (dn @ rest) True c3
           else update_loop num dn rest True c3)"
        using nz r SemDone by (simp add: c2_def c3_def u_def Let_def)
      then show ?thesis using 2(5,6) ih fewer_trans [OF f3] by (simp split: if_splits)
    qed
  qed
qed simp


lemma fewer_update_nums: "update_nums nums ot c = (ot', c') \<Longrightarrow> fewer g c c'"
proof (induction nums arbitrary: ot c)
  case (Cons i rest)
  obtain f c1 where u: "update_queue (Some i) c = (f, c1)" by force
  then have n: "update_nums rest (ot \<or> f) c1 = (ot', c')" using Cons.prems by simp
  have "fewer g c c1" by (rule fewer_update_loop [OF u [unfolded update_queue_def]]) simp
  from fewer_trans [OF this Cons.IH [OF n]] show ?case .
qed simp

lemma fewer_set_semotime [simp]: "fewer g c (set_semotime now sops c)"
  by (simp add: fewer_def set_semotime_def upd_sem_def Let_def)

lemma fewer_do_smart_update:
  assumes "g \<longrightarrow> pending_alter (c_sma c) = []" and "c' = do_smart_update now sops ot c"
  shows "fewer g c c'"
proof -
  obtain fin c1 where z: "do_smart_wakeup_zero sops c = (fin, c1)" by force
  note f1 = fewer_wakeup_zero [OF z, of g]
  let ?nums = "case sops of None \<Rightarrow> [0..<c_nsems c1] | Some l \<Rightarrow> map sem_num (filter (\<lambda>sop. sem_op sop > 0) l)"
  obtain ot2 c2 where u: "update_nums ?nums (ot \<or> fin) c1 = (ot2, c2)" by force
  obtain f3 c3 where w: "update_queue None c1 = (f3, c3)" by force
  have "\<exists>x ot4. fewer g c1 x \<and> c' = (if ot4 then set_semotime now sops x else x)"
  proof (cases "pending_alter (c_sma c1) = []")
    case True
    then have "c' = (if ot2 then set_semotime now sops c2 else c2)"
      by (simp add: assms(2) do_smart_update_def z u)
    then show ?thesis using fewer_update_nums [OF u] by blast
  next
    case False
    then have "\<not> g" using f1 assms(1) by (auto simp: fewer_def)
    then have "fewer g c1 c3" by (intro fewer_update_loop [OF w [unfolded update_queue_def]]) simp
    moreover have "c' = (if ot \<or> fin \<or> f3 then set_semotime now sops c3 else c3)"
      using False by (simp add: assms(2) do_smart_update_def z w)
    ultimately show ?thesis by blast
  qed
  then show ?thesis using fewer_trans [OF f1] fewer_trans fewer_set_semotime by (metis (full_types))
qed

lemma locked_inv_fewer:
  assumes "locked_inv k c" and "k = SEM_GLOBAL_LOCK \<or> fewer True c c'" and "wq_inv c'"
    and "use_global_lock (c_sma c') = use_global_lock (c_sma c)"
  shows "locked_inv k c'"
proof -
  have "0 \<le> complex_count (c_sma c')" unfolding wq_invD(4) [OF assms(3)] complex_entries_def by simp
  then show ?thesis using assms by (auto simp: locked_inv_def fewer_def get_list.simps)
qed

section \<open>The handlers keep an idle array quiet\<close>

lemma entry_ok_sleeper [simp]: "entry_ok c (q\<lparr>q_status := s, q_sleeper := t\<rparr>) = entry_ok c q"
  by (simp add: entry_ok_def)

lemma sleeps_sleeper [simp]: "sleeps c (q\<lparr>q_status := s, q_sleeper := t\<rparr>) = sleeps c q"
  by (simp add: sleeps_def)

lemma const_commit_quiet:
  assumes inv: "wq_inv c" and q: "quiet c" and e: "entry_ok c r" "\<not> q_alter r"
    and run: "run_sops (q_sops r) (vals c, adjs c (q_undo r)) = (ScanEnd, vs, adj)"
    and c1: "c1 = commit (q_undo r) (q_pid r) (q_sops r) (vs, adj) c"
  shows "quiet c1"
  unfolding quiet_waits
proof (intro allI impI ballI)
  note st = commit_const_same_state [OF e run c1] and f = commit_facts [OF e(1) run c1]
  fix p x assume p: "valid_pend (c_nsems c1) p" and x: "x \<in> set (queue_of p c1)"
  then have p': "valid_pend (c_nsems c) p" and x': "x \<in> set (queue_of p c)" using f(2,7) by simp_all
  have "waits c p x" using q p' x' by (simp add: quiet_waits)
  then show "waits c1 p x" using waits_same_state [OF st queue_entry_ok(1) [OF inv p' x'] p'] by simp
qed

lemma semtimedop_locked_inv:
  assumes inv: "wq_inv c" and q: "quiet c" and gc: "complex_count (c_sma c) = 0 \<Longrightarrow> queue_of GAlter c = []"
    and lk: "locked_inv k c" and k: "k = SEM_GLOBAL_LOCK \<or> nsops r = 1" and e: "entry_ok c r"
    and run: "semtimedop_locked cfg now t k r c = (out, c')"
  shows "idle_inv c' \<and> same_shape c c'"
proof -
  have unlock: "idle_inv c' \<and> same_shape c c'"
    if "wq_inv c2" "quiet c2" "locked_inv k c2" "same_shape c c2" "c' = unlock_ctx k c2" for c2
    using sem_unlock_inv [OF that(1-3,5)] same_shape_trans [OF that(4)] by blast
  show ?thesis
  proof (cases "\<not> ipc_valid_object cfg (perm_of (c_sma c)) \<or>
      q_undo r \<noteq> None \<and> un_semid (undo_of c (q_undo r)) = -1")
    case True
    then have "c' = unlock_ctx k c" using run by (auto simp: semtimedop_locked_def split: if_splits)
    then show ?thesis using unlock [OF inv q lk] by simp
  next
    case False
    from e show ?thesis
    proof (cases rule: perform_cases)
      case (completed vs adj)
      define c1 where "c1 = commit (q_undo r) (q_pid r) (q_sops r) (vs, adj) c"
      define c2 where "c2 = (if q_alter r then do_smart_update now (Some (q_sops r)) True c1
                             else set_semotime now (Some (q_sops r)) c1)"
      note f = commit_facts [OF e completed(1) c1_def] and i1 = wq_inv_commit [OF inv e completed(1) c1_def]
      have c': "c' = unlock_ctx k c2"
        using run False completed(2) by (auto simp: semtimedop_locked_def c1_def c2_def Let_def)
      have l1: "locked_inv k c1" using lk f(4,5,7) by (simp add: locked_inv_def)
      show ?thesis
      proof (cases "q_alter r")
        case True
        then have c2: "c2 = do_smart_update now (Some (q_sops r)) True c1" by (simp add: c2_def)
        note d = do_smart_update_sops [OF inv q e completed(1) c1_def c2]
        have "k = SEM_GLOBAL_LOCK \<or> pending_alter (c_sma c1) = []"
          using l1 by (auto simp: locked_inv_def get_list.simps split: if_splits)
        then have "k = SEM_GLOBAL_LOCK \<or> fewer True c1 c2" using fewer_do_smart_update [OF _ c2, of True] by blast
        from locked_inv_fewer [OF l1 this d(1)] d(4) f(5) have "locked_inv k c2" by simp
        from unlock [OF d(1,2) this d(3) c'] show ?thesis .
      next
        case False
        then have c2: "c2 = set_semotime now (Some (q_sops r)) c1" by (simp add: c2_def)
        note t = set_semotime_inv [OF c2]
        have "wq_inv c2" "quiet c2" "same_shape c c2" "use_global_lock (c_sma c2) = use_global_lock (c_sma c1)"
          using t i1 const_commit_quiet [OF inv q e False completed(1) c1_def] same_shape_trans [OF f(1)] by auto
        moreover have "fewer True c1 c2" unfolding c2 by simp
        ultimately show ?thesis using unlock locked_inv_fewer [OF l1] c' by blast
      qed
    next
      case (failed err q1)
      then have "c' = unlock_ctx k c" using run False by (auto simp: semtimedop_locked_def)
      then show ?thesis using unlock [OF inv q lk] by simp
    next
      case (blocked sop)
      define r2 where "r2 = r\<lparr>q_blocking := Some sop, q_status := Some EINTR, q_sleeper := t\<rparr>"
      define c2 where "c2 = c\<lparr>c_sma := enqueue_semop r2 (c_sma c)\<rparr>"
      have e2: "entry_ok c r2" "sleeps c r2" "k = SEM_GLOBAL_LOCK \<or> nsops r2 = 1"
        using e blocked(1) k by (simp_all add: r2_def)
      note n = enqueue_inv [OF inv q gc lk e2(3,1,2) c2_def]
      have "c' = unlock_ctx k c2"
        using run False blocked(3) by (auto simp: semtimedop_locked_def c2_def r2_def)
      from unlock [OF n(1-4) this] show ?thesis .
    qed
  qed
qed

lemma semtimedop_start_inv:
  assumes idle: "idle_inv c" and reads: "lock_reads_ok r1 r2 (c_sma c)" and e: "entry_ok c r"
    and run: "semtimedop_start cfg now t r1 r2 r c = (out, c')"
  shows "idle_inv c'" and "same_shape c c'"
proof -
  obtain k sma where s: "sem_lock r1 r2 (c_sma c) (q_sops r) (int (nsops r)) = (k, sma)" by force
  define c1 where "c1 = c\<lparr>c_sma := sma\<rparr>"
  note l = sem_lock_inv [OF idle reads s c1_def]
  have e1: "entry_ok c1 r" using same_but_queuesD(2) [OF l(5)] e by simp
  have k: "k = SEM_GLOBAL_LOCK \<or> nsops r = 1" using l(6) by auto
  have gc: "complex_count (c_sma c1) = 0 \<Longrightarrow> queue_of GAlter c1 = []" using l(4) by (simp add: c1_def)
  have "semtimedop_locked cfg now t k r c1 = (out, c')"
    using run by (simp add: semtimedop_start_def s c1_def)
  from semtimedop_locked_inv [OF l(1,2) gc l(3) k e1 this] same_shape_trans [OF same_but_queuesD(1) [OF l(5)]]
  show "idle_inv c'" and "same_shape c c'" by blast+
qed


subsection \<open>What a handler leaves alone\<close>

text \<open>The permission record, the list of undo structures and the size are not touched by semaphore
  operations.\<close>

definition head_of :: "sem_array \<Rightarrow> addr list \<times> kern_ipc_perm \<times> nat" where
  "head_of sma = (list_id sma, perm_of sma, sem_nsems sma)"

lemma head_of_basic [simp]:
  "head_of (list_add_tail p q sma) = head_of sma" "head_of (splice_alter i sma) = head_of sma"
  "head_of (sma\<lparr>complex_count := n\<rparr>) = head_of sma" "head_of (sma\<lparr>use_global_lock := w\<rparr>) = head_of sma"
  "head_of (sma\<lparr>pending_alter := l\<rparr>) = head_of sma"
  by (simp_all add: head_of_def list_add_tail_def splice_alter_def del: set_list.simps)

lemma fold_keeps: "(\<And>x s. h (f x s) = h s) \<Longrightarrow> h (fold f xs s) = h s"
  by (induction xs arbitrary: s) simp_all

lemma head_of_modes [simp]:
  "head_of (merge_queues sma) = head_of sma" "head_of (unmerge_queues sma) = head_of sma"
  "head_of (complexmode_enter sma) = head_of sma" "head_of (complexmode_tryleave sma) = head_of sma"
  by (simp_all add: merge_queues_def unmerge_queues_def complexmode_enter_def complexmode_tryleave_def fold_keeps)

lemma head_of_unlock [simp]: "head_of (sem_unlock sma k) = head_of sma"
  by (simp add: sem_unlock_def)

lemma head_of_lock: "sem_lock r1 r2 sma sops n = (k, sma') \<Longrightarrow> head_of sma' = head_of sma"
  unfolding sem_lock_def by (auto split: if_splits)

lemma head_of_enqueue [simp]: "head_of (enqueue_semop q sma) = head_of sma"
  by (simp add: enqueue_semop_def Let_def)

lemma head_of_fewer: "fewer g c c' \<Longrightarrow> head_of (c_sma c') = head_of (c_sma c)"
  by (simp add: fewer_def head_of_def)

lemma head_of_update [simp]:
  "head_of (c_sma (do_smart_update now sops ot c)) = head_of (c_sma c)"
  "head_of (c_sma (set_semotime now sops c)) = head_of (c_sma c)"
  using head_of_fewer [OF fewer_do_smart_update [of False c _ now sops ot]]
    head_of_fewer [OF fewer_set_semotime [of False c now sops]] by simp_all

lemma semtimedop_locked_head:
  assumes "semtimedop_locked cfg now t k r c = (out, c')"
  shows "head_of (c_sma c') = head_of (c_sma c)"
proof -
  obtain res q1 c1 where p: "perform_atomic_semop c r = (res, q1, c1)" by (metis prod_cases3)
  note h1 = head_of_fewer [OF fewer_perform [OF p, of False]]
  show ?thesis
    using assms h1 by (cases res) (auto simp: semtimedop_locked_def p Let_def split: if_splits)
qed

end
