(* ===== verification/Sem_System.thy ===== *)
theory Sem_System
  imports Sem_Timedop
begin

text \<open>
  One semaphore array as a transition system whose steps are the locked handlers of
  \<open>ipc/sem.c\<close> in any order, and its invariant: the array is well formed and no sleeping operation
  could be executed.  The steps of different tasks interleave at the granularity of the lock.
\<close>

section \<open>Giving up a sleep\<close>

lemma split_sleeperD:
  "split_sleeper t l = Some (dn, q, rest) \<Longrightarrow> l = dn @ q # rest \<and> q_sleeper q = t"
  unfolding split_sleeper_def
  by (auto split: list.splits simp: dropWhile_eq_Cons_conv)

lemma find_queuedD:
  "find_queued t ps sma = Some (p, dn, q, rest) \<Longrightarrow>
     p \<in> set ps \<and> get_list p sma = dn @ q # rest \<and> q_sleeper q = t"
  by (induction ps) (auto split: option.splits dest: split_sleeperD)

lemma all_pends_valid: "p \<in> set (all_pends n) \<longleftrightarrow> valid_pend n p"
  by (cases p) (auto simp: all_pends_def)

lemma queued_atD:
  assumes "queued_at t sma = Some (p, dn, q, rest)"
  shows "valid_pend (sem_nsems sma) p" and "get_list p sma = dn @ q # rest" and "q_sleeper q = t"
  using find_queuedD [OF assms [unfolded queued_at_def]] by (simp_all add: all_pends_valid)

lemma unlink_quiet:
  assumes inv: "wq_inv c" and q: "quiet c" and p: "valid_pend (c_nsems c) p"
    and at: "queue_of p c = dn @ r # rest"
  shows "quiet (unlink_queue p dn rest r c)"
  unfolding quiet_waits
proof (intro allI impI ballI)
  let ?c = "unlink_queue p dn rest r c"
  have pv: "valid_pend (length (sems (c_sma c))) p" using p wq_invD(6) [OF inv] by simp
  have st: "same_state c ?c" by (simp add: unlink_queue_put_queue)
  fix p' x assume "valid_pend (c_nsems ?c) p'" and x: "x \<in> set (queue_of p' ?c)"
  then have p': "valid_pend (c_nsems c) p'" by (simp add: unlink_queue_put_queue)
  have x': "x \<in> set (queue_of p' c)"
    using x at by (auto simp: unlink_queue_put_queue queue_of_put_queue [OF pv] split: if_splits)
  show "waits ?c p' x"
    using q p' x' waits_same_state [OF st queue_entry_ok(1) [OF inv p' x'] p'] by (simp add: quiet_waits)
qed

lemma unlink_sleeper_inv:
  assumes inv: "wq_inv c" and q: "quiet c" and lk: "locked_inv k c" and c': "c' = unlink_sleeper t c"
  shows "wq_inv c' \<and> quiet c' \<and> locked_inv k c' \<and> same_shape c c' \<and> head_of (c_sma c') = head_of (c_sma c)"
proof (cases "queued_at t (c_sma c)")
  case None
  then show ?thesis using inv q lk by (simp add: c' unlink_sleeper_def)
next
  case (Some x)
  then obtain p dn r rest where at: "queued_at t (c_sma c) = Some (p, dn, r, rest)" by (metis prod_cases4)
  note d = queued_atD [OF at, folded c_nsems_def]
  have eq: "c' = unlink_queue p dn rest r c" by (simp add: c' unlink_sleeper_def at)
  have "k = SEM_GLOBAL_LOCK \<or> p \<noteq> GAlter" using lk d(2) by (auto simp: locked_inv_def)
  then have f: "k = SEM_GLOBAL_LOCK \<or> fewer True c c'" using fewer_queue(2) [of True p] by (auto simp: eq)
  have i: "wq_inv c'" unfolding eq by (rule wq_inv_unlink [OF inv d(1,2)])
  have "locked_inv k c'"
    using locked_inv_fewer [OF lk f i] by (simp add: eq unlink_queue_put_queue)
  moreover have "head_of (c_sma c') = head_of (c_sma c)"
    unfolding eq by (rule head_of_fewer [OF fewer_queue(2), of False]) simp
  ultimately show ?thesis
    using i unlink_quiet [OF inv q d(1,2)] by (simp add: eq unlink_queue_put_queue)
qed

lemma semtimedop_resume_inv:
  assumes idle: "idle_inv c" and reads: "lock_reads_ok r1 r2 (c_sma c)"
    and run: "semtimedop_resume cfg t r1 r2 status timed_out signal sops c = (out, c')"
  shows "idle_inv c'" and "same_shape c c'" and "head_of (c_sma c') = head_of (c_sma c)"
proof -
  obtain k sma where s: "sem_lock r1 r2 (c_sma c) sops (int (length sops)) = (k, sma)" by force
  define c1 where "c1 = c\<lparr>c_sma := sma\<rparr>"
  note l = sem_lock_inv [OF idle reads s c1_def]
  have h1: "head_of (c_sma c1) = head_of (c_sma c)" using head_of_lock [OF s] by (simp add: c1_def)
  note u = unlink_sleeper_inv [OF l(1,2,3) refl, of t]
  have "c' = c \<or> c' = unlock_ctx k c1 \<or> c' = unlock_ctx k (unlink_sleeper t c1)"
    using run by (auto simp: semtimedop_resume_def s c1_def Let_def split: if_splits)
  then consider "c' = c" | c2 where "c' = unlock_ctx k c2" "wq_inv c2" "quiet c2" "locked_inv k c2"
      "same_shape c1 c2" "head_of (c_sma c2) = head_of (c_sma c)"
    using l(1-3) u h1 by (elim disjE) auto
  then have "idle_inv c' \<and> same_shape c c' \<and> head_of (c_sma c') = head_of (c_sma c)"
  proof cases
    case 1
    then show ?thesis using idle by simp
  next
    case 2
    note v = sem_unlock_inv [OF 2(2-4,1)]
    have "same_shape c c'"
      using same_shape_trans [OF same_but_queuesD(1) [OF l(5)] same_shape_trans [OF 2(5) v(2)]] .
    then show ?thesis using v(1) 2(1,6) by simp
  qed
  then show "idle_inv c'" and "same_shape c c'" and "head_of (c_sma c') = head_of (c_sma c)" by simp_all
qed

section \<open>Setting values\<close>

definition same_queues :: "sem_ctx \<Rightarrow> sem_ctx \<Rightarrow> bool" where
  "same_queues c c' \<longleftrightarrow> same_shape c c' \<and> (\<forall>p. queue_of p c' = queue_of p c) \<and>
     complex_count (c_sma c') = complex_count (c_sma c) \<and>
     use_global_lock (c_sma c') = use_global_lock (c_sma c) \<and>
     list_id (c_sma c') = list_id (c_sma c) \<and> perm_of (c_sma c') = perm_of (c_sma c)"

lemma same_queues_refl [simp]: "same_queues c c"
  by (simp add: same_queues_def)

lemma same_queues_trans: "same_queues c c' \<Longrightarrow> same_queues c' c'' \<Longrightarrow> same_queues c c''"
  using same_shape_trans by (auto simp: same_queues_def)

lemma wq_inv_same_queues:
  assumes "wq_inv c" and "same_queues c c'" and "vals_in_range (vals c')"
  shows "wq_inv c'"
  using assms same_shape_entry_ok [of c c']
  by (simp add: wq_inv_def same_queues_def entries_ok_def one_mode_def complex_entries_def ctx_ok_def
      same_shape_def)

lemma get_list_upd_sem:
  "(\<And>s. sem_pending_alter (f s) = sem_pending_alter s) \<Longrightarrow> (\<And>s. sem_pending_const (f s) = sem_pending_const s)
     \<Longrightarrow> get_list p (upd_sem i f sma) = get_list p sma"
  by (cases p; cases "i < length (sems sma)")
    (auto simp: get_list.simps upd_sem_def nth_list_update list_update_beyond not_less)

lemma same_queues_sem [simp]:
  "same_queues c (set_semval i v c)" "same_queues c (ipc_update_pid i p c)"
  "same_queues c (c\<lparr>c_sma := (c_sma c)\<lparr>sem_ctime := t\<rparr>\<rparr>)"
proof -
  show "same_queues c (set_semval i v c)" "same_queues c (ipc_update_pid i p c)"
    unfolding same_queues_def set_semval_def ipc_update_pid_def
    by (simp_all add: get_list_upd_sem same_shape_def c_nsems_def) (simp_all add: upd_sem_def)
  have "get_list q (sma\<lparr>sem_ctime := t\<rparr>) = get_list q sma" for q sma by (cases q) (simp_all add: get_list.simps)
  then show "same_queues c (c\<lparr>c_sma := (c_sma c)\<lparr>sem_ctime := t\<rparr>\<rparr>)"
    by (simp add: same_queues_def same_shape_def c_nsems_def)
qed

lemma same_queues_semadj:
  "undo_ok c (Some un) \<Longrightarrow> same_queues c (set_semadj (Some un) i v c)"
  by (auto simp: same_queues_def same_shape_def set_semadj_def c_nsems_def undo_of_def undo_ok_def
      split: option.splits)

lemma vals_updates:
  "vals (set_semval i v c) = (vals c)[i := v]" "vals (ipc_update_pid i p c) = vals c"
  "vals (set_semadj un i v c) = vals c" "vals (c\<lparr>c_sma := (c_sma c)\<lparr>sem_ctime := t\<rparr>\<rparr>) = vals c"
proof -
  show "vals (ipc_update_pid i p c) = vals c"
    by (simp add: vals_def ipc_update_pid_def upd_sem_def list_update_map_id)
qed (simp_all add: vals_def set_semval_def set_semadj_def upd_sem_def map_update)

text \<open>The undo structures an array lists exist and have one adjustment per semaphore.\<close>

definition undos_ok :: "sem_ctx \<Rightarrow> bool" where
  "undos_ok c \<longleftrightarrow> (\<forall>un \<in> set (list_id (c_sma c)). undo_ok c (Some un))"

lemma undos_ok_shape:
  "undos_ok c \<Longrightarrow> same_shape c c' \<Longrightarrow> set (list_id (c_sma c')) \<subseteq> set (list_id (c_sma c)) \<Longrightarrow> undos_ok c'"
  using same_shape_undo_ok [of c c'] by (auto simp: undos_ok_def)

lemma fold_semadj:
  assumes "\<forall>un \<in> set uns. undo_ok c (Some un)"
  shows "same_queues c (fold (\<lambda>un. set_semadj (Some un) i 0) uns c) \<and>
    vals (fold (\<lambda>un. set_semadj (Some un) i 0) uns c) = vals c"
  using assms
proof (induction uns arbitrary: c)
  case (Cons un uns)
  let ?c = "set_semadj (Some un) i 0 c"
  have s: "same_queues c ?c" using Cons.prems by (intro same_queues_semadj) simp
  then have "\<forall>u \<in> set uns. undo_ok ?c (Some u)"
    using Cons.prems same_shape_undo_ok [of c ?c] by (simp add: same_queues_def)
  from Cons.IH [OF this] same_queues_trans [OF s] show ?case by (simp add: vals_updates)
qed simp

lemma lock_all_inv:
  assumes "idle_inv c" and c': "c' = c\<lparr>c_sma := sem_lock_all (c_sma c)\<rparr>"
  shows "wq_inv c'" and "quiet c'" and "locked_inv SEM_GLOBAL_LOCK c'" and "same_shape c c'"
    and "head_of (c_sma c') = head_of (c_sma c)" and "c_nsems c' = c_nsems c"
    and "\<And>p. queue_of p c' = queue_of p c" and "vals c' = vals c"
proof -
  have a: "sem_lock_all (c_sma c) = complexmode_enter (c_sma c)" by (simp add: sem_lock_all_def sem_lock_def)
  then have s: "sem_lock 1 1 (c_sma c) [] (-1) = (SEM_GLOBAL_LOCK, sem_lock_all (c_sma c))"
    by (simp add: sem_lock_def)
  have r: "lock_reads_ok 1 1 (c_sma c)" by (simp add: lock_reads_ok_def)
  note l = sem_lock_inv [OF assms(1) r s c']
  show "wq_inv c'" and "quiet c'" and "locked_inv SEM_GLOBAL_LOCK c'" and "same_shape c c'"
    using l(1,2,3) same_but_queuesD(1) [OF l(5)] by simp_all
  show "head_of (c_sma c') = head_of (c_sma c)" using head_of_lock [OF s] by (simp add: c')
  show "c_nsems c' = c_nsems c" "vals c' = vals c" using l(5) by (simp_all add: same_but_queues_def)
  show "queue_of p c' = queue_of p c" for p by (simp add: c' a complexmode_enter_def)
qed

text \<open>
  The common end of the handlers that may have changed any value: wake everybody who can run
  now and drop the global lock.
\<close>

lemma update_all_inv:
  assumes inv: "wq_inv c" and lk: "use_global_lock (c_sma c) \<noteq> 0"
    and c': "c' = unlock_ctx SEM_GLOBAL_LOCK (do_smart_update now None ot c)"
  shows "idle_inv c'" and "same_shape c c'" and "head_of (c_sma c') = head_of (c_sma c)"
proof -
  define u where "u = do_smart_update now None ot c"
  note d = do_smart_update_all [OF inv u_def]
  have "locked_inv SEM_GLOBAL_LOCK u" using lk d(4) by (simp add: locked_inv_def)
  note v = sem_unlock_inv [OF d(1,2) this c' [folded u_def]]
  show "idle_inv c'" and "same_shape c c'" using v same_shape_trans [OF d(3)] by blast+
  show "head_of (c_sma c') = head_of (c_sma c)" by (simp add: c')
qed

lemma setval_inv:
  assumes idle: "idle_inv c" and un: "undos_ok c" and v: "0 \<le> val" "val \<le> SEMVMX"
    and c': "c' = setval_locked now tgid semnum val (c\<lparr>c_sma := sem_lock_all (c_sma c)\<rparr>)"
  shows "idle_inv c'" and "undos_ok c'"
proof -
  define c0 where "c0 = c\<lparr>c_sma := sem_lock_all (c_sma c)\<rparr>"
  note l = lock_all_inv [OF idle c0_def]
  let ?i = "array_index_nospec semnum (c_nsems c0)"
  define c1 where "c1 = clear_semadj ?i (list_id (c_sma c0)) c0"
  define c4 where "c4 = (ipc_update_pid ?i (Some tgid) (set_semval ?i val c1))
      \<lparr>c_sma := (c_sma (ipc_update_pid ?i (Some tgid) (set_semval ?i val c1)))\<lparr>sem_ctime := now\<rparr>\<rparr>"
  have un0: "undos_ok c0" using undos_ok_shape [OF un l(4)] l(5) by (simp add: head_of_def)
  have s1: "same_queues c0 c1" "vals c1 = vals c0"
    unfolding c1_def clear_semadj_def using fold_semadj un0 [unfolded undos_ok_def] by blast+
  have s4: "same_queues c0 c4"
    using same_queues_trans [OF s1(1)] same_queues_trans same_queues_sem unfolding c4_def by metis
  have "vals c4 = (vals c0)[?i := val]" by (simp add: c4_def vals_updates s1(2))
  then have "vals_in_range (vals c4)" using wq_invD(2) [OF l(1)] v by (simp add: in_range_update)
  from wq_inv_same_queues [OF l(1) s4 this] have i4: "wq_inv c4" .
  have g: "use_global_lock (c_sma c4) \<noteq> 0" using s4 l(3) by (simp add: same_queues_def locked_inv_def)
  have "c' = unlock_ctx SEM_GLOBAL_LOCK (do_smart_update now None False c4)"
    unfolding c' c0_def [symmetric] setval_locked_def Let_def c4_def c1_def by (rule refl)
  note u = update_all_inv [OF i4 g this]
  show "idle_inv c'" by (rule u(1))
  show "undos_ok c'"
    using undos_ok_shape [OF un0 same_shape_trans [of c0 c4 c']] u(2,3) s4
    by (simp add: same_queues_def head_of_def)
qed


text \<open>Loops over the semaphores that only assign values in range and process ids.\<close>

lemma fold_in_range:
  assumes "\<And>i c. i \<in> set is \<Longrightarrow> vals_in_range (vals c) \<Longrightarrow> same_queues c (f i c) \<and> vals_in_range (vals (f i c))"
    and "vals_in_range (vals c)"
  shows "same_queues c (fold f is c) \<and> vals_in_range (vals (fold f is c))"
  using assms
proof (induction "is" arbitrary: c)
  case (Cons i rest)
  have s: "same_queues c (f i c)" "vals_in_range (vals (f i c))" using Cons.prems by simp_all
  have "same_queues (f i c) (fold f rest (f i c)) \<and> vals_in_range (vals (fold f rest (f i c)))"
    using Cons.prems(1) s(2) by (intro Cons.IH) simp_all
  then show ?case using same_queues_trans [OF s(1)] by simp
qed simp

lemma fold_fold_semadj:
  assumes "\<forall>un \<in> set uns. undo_ok c (Some un)"
  shows "same_queues c (fold (\<lambda>un. fold (\<lambda>i. set_semadj (Some un) i 0) is) uns c) \<and>
    vals (fold (\<lambda>un. fold (\<lambda>i. set_semadj (Some un) i 0) is) uns c) = vals c"
  using assms
proof (induction uns arbitrary: c)
  case (Cons un uns)
  have inner: "same_queues c (fold (\<lambda>i. set_semadj (Some un) i 0) is c) \<and>
      vals (fold (\<lambda>i. set_semadj (Some un) i 0) is c) = vals c" if "undo_ok c (Some un)" for c
    using that
  proof (induction "is" arbitrary: c)
    case (Cons i rest)
    note s = same_queues_semadj [OF Cons.prems, of i 0]
    then have "undo_ok (set_semadj (Some un) i 0 c) (Some un)"
      using Cons.prems same_shape_undo_ok [of c "set_semadj (Some un) i 0 c"] by (simp add: same_queues_def)
    from Cons.IH [OF this] same_queues_trans [OF s] show ?case by (simp add: vals_updates)
  qed simp
  let ?c = "fold (\<lambda>i. set_semadj (Some un) i 0) is c"
  have s: "same_queues c ?c" "vals ?c = vals c" using inner [of c] Cons.prems by simp_all
  then have "\<forall>u \<in> set uns. undo_ok ?c (Some u)"
    using Cons.prems same_shape_undo_ok [of c ?c] by (simp add: same_queues_def)
  from Cons.IH [OF this] same_queues_trans [OF s(1)] s(2) show ?case by simp
qed simp

lemma setall_inv:
  assumes idle: "idle_inv c" and un: "undos_ok c" and v: "vals_in_range sem_io" "length sem_io = c_nsems c"
    and c': "c' = setall_locked now tgid sem_io (c\<lparr>c_sma := sem_lock_all (c_sma c)\<rparr>)"
  shows "idle_inv c'" and "undos_ok c'"
proof -
  define c0 where "c0 = c\<lparr>c_sma := sem_lock_all (c_sma c)\<rparr>"
  note l = lock_all_inv [OF idle c0_def]
  define c1 where "c1 = setall_values tgid sem_io [0..<c_nsems c0] c0"
  define c2 where "c2 = fold (\<lambda>un. fold (\<lambda>i. set_semadj (Some un) i 0) [0..<c_nsems c0]) (list_id (c_sma c1)) c1"
  define c3 where "c3 = c2\<lparr>c_sma := (c_sma c2)\<lparr>sem_ctime := now\<rparr>\<rparr>"
  have un0: "undos_ok c0" using undos_ok_shape [OF un l(4)] l(5) by (simp add: head_of_def)
  have step: "same_queues x (ipc_update_pid i (Some tgid) (set_semval i (sem_io ! i) x)) \<and>
      vals_in_range (vals (ipc_update_pid i (Some tgid) (set_semval i (sem_io ! i) x)))"
    if "i \<in> set [0..<c_nsems c0]" "vals_in_range (vals x)" for i x
  proof -
    have "sem_io ! i \<in> set sem_io" using that(1) v(2) l(6) by simp
    then have "0 \<le> sem_io ! i" "sem_io ! i \<le> SEMVMX" using v(1) by (simp_all add: vals_in_range_def)
    then show ?thesis
      using that(2) same_queues_trans [OF same_queues_sem(1,2)] by (simp add: vals_updates in_range_update)
  qed
  have "same_queues c0 c1 \<and> vals_in_range (vals c1)"
    unfolding c1_def setall_values_def using step wq_invD(2) [OF l(1)] by (rule fold_in_range)
  then have s1: "same_queues c0 c1" "vals_in_range (vals c1)" by simp_all
  have "undos_ok c1" using undos_ok_shape [OF un0] s1(1) by (simp add: same_queues_def)
  then have s2: "same_queues c1 c2" "vals c2 = vals c1"
    unfolding c2_def using fold_fold_semadj [of "list_id (c_sma c1)" c1 "[0..<c_nsems c0]"]
    by (simp_all add: undos_ok_def)
  have s3: "same_queues c0 c3"
    using same_queues_trans [OF s1(1) same_queues_trans [OF s2(1) same_queues_sem(3)]] by (simp add: c3_def)
  have "vals_in_range (vals c3)" by (simp add: c3_def vals_updates s2(2) s1(2))
  from wq_inv_same_queues [OF l(1) s3 this] have i3: "wq_inv c3" .
  have g: "use_global_lock (c_sma c3) \<noteq> 0" using s3 l(3) by (simp add: same_queues_def locked_inv_def)
  have "c' = unlock_ctx SEM_GLOBAL_LOCK (do_smart_update now None False c3)"
    unfolding c' c0_def [symmetric] setall_locked_def Let_def c3_def c2_def c1_def by (rule refl)
  note u = update_all_inv [OF i3 g this]
  show "idle_inv c'" by (rule u(1))
  show "undos_ok c'"
    using undos_ok_shape [OF un0 same_shape_trans [of c0 c3 c']] u(2,3) s3
    by (simp add: same_queues_def head_of_def)
qed

section \<open>Adjustments at exit\<close>

lemma same_queues_list_id:
  "same_shape c (c\<lparr>c_sma := (c_sma c)\<lparr>list_id := l\<rparr>\<rparr>)"
  "wq_inv (c\<lparr>c_sma := (c_sma c)\<lparr>list_id := l\<rparr>\<rparr>) = wq_inv c"
  "vals (c\<lparr>c_sma := (c_sma c)\<lparr>list_id := l\<rparr>\<rparr>) = vals c"
proof -
  let ?c = "c\<lparr>c_sma := (c_sma c)\<lparr>list_id := l\<rparr>\<rparr>"
  have q: "get_list p (sma\<lparr>list_id := l\<rparr>) = get_list p sma" for p sma
    by (cases p) (simp_all add: get_list.simps)
  show sh: "same_shape c ?c" by (simp add: same_shape_def c_nsems_def)
  show v: "vals ?c = vals c" by (simp add: vals_def)
  show "wq_inv ?c = wq_inv c"
    using same_shape_entry_ok [OF sh] v
    by (simp add: wq_inv_def entries_ok_def one_mode_def complex_entries_def ctx_ok_def q c_nsems_def)
qed

lemma exit_adjust_step:
  "vals_in_range (vals c) \<Longrightarrow> same_queues c (exit_adjust tgid un i c) \<and> vals_in_range (vals (exit_adjust tgid un i c))"
  using same_queues_trans [OF same_queues_sem(1,2)]
  by (auto simp: exit_adjust_def Let_def vals_updates in_range_update SEMVMX_def)

lemma exit_sem_inv:
  assumes idle: "idle_inv c" and un: "undos_ok c"
    and c': "c' = exit_sem_locked now tgid a (c\<lparr>c_sma := sem_lock_all (c_sma c)\<rparr>)"
  shows "idle_inv c'" and "undos_ok c'"
proof -
  define c0 where "c0 = c\<lparr>c_sma := sem_lock_all (c_sma c)\<rparr>"
  note l = lock_all_inv [OF idle c0_def]
  define c1 where "c1 = c0\<lparr>c_sma := (c_sma c0)\<lparr>list_id := remove1 a (list_id (c_sma c0))\<rparr>\<rparr>"
  define c2 where "c2 = fold (exit_adjust tgid a) [0..<c_nsems c1] c1"
  have s1: "same_shape c0 c1" "wq_inv c1" "vals c1 = vals c0"
    unfolding c1_def using same_queues_list_id l(1) by simp_all
  have un1: "undos_ok c1"
    using undos_ok_shape [OF un same_shape_trans [OF l(4) s1(1)]] l(5) set_remove1_subset
    by (fastforce simp: c1_def head_of_def)
  have "same_queues c1 c2 \<and> vals_in_range (vals c2)"
    unfolding c2_def using exit_adjust_step wq_invD(2) [OF s1(2)] by (rule fold_in_range)
  then have s2: "same_queues c1 c2" "vals_in_range (vals c2)" by simp_all
  from wq_inv_same_queues [OF s1(2) s2] have i2: "wq_inv c2" .
  have g: "use_global_lock (c_sma c2) \<noteq> 0" using s2(1) l(3) by (simp add: same_queues_def locked_inv_def c1_def)
  have "c' = unlock_ctx SEM_GLOBAL_LOCK (do_smart_update now None True c2)"
    unfolding c' c0_def [symmetric] exit_sem_locked_def Let_def c2_def c1_def by (rule refl)
  note u = update_all_inv [OF i2 g this]
  show "idle_inv c'" by (rule u(1))
  show "undos_ok c'"
    using undos_ok_shape [OF un1 same_shape_trans [of c1 c2 c']] u(2,3) s2(1)
    by (simp add: same_queues_def head_of_def)
qed


section \<open>Removal\<close>

abbreviation idrm :: "sem_queue list \<Rightarrow> sem_queue list" where
  "idrm l \<equiv> map (\<lambda>q. q\<lparr>q_status := Some EIDRM\<rparr>) l"

lemma drain_inv:
  assumes "wq_inv c" and "valid_pend (c_nsems c) p" and "queue_of p c = l" and "c' = drain p l c"
  shows "wq_inv c' \<and> same_state c c' \<and> queue_of p c' = [] \<and>
    (\<forall>p'. p' \<noteq> p \<longrightarrow> queue_of p' c' = queue_of p' c) \<and> c_wake c' = c_wake c @ idrm l \<and>
    head_of (c_sma c') = head_of (c_sma c)"
  using assms
proof (induction l arbitrary: c)
  case Nil
  then show ?case by simp
next
  case (Cons q rest)
  define c2 where "c2 = wake_up_sem_queue_prepare q (Some EIDRM) (unlink_queue p [] rest q c)"
  have at: "queue_of p c = [] @ q # rest" using Cons.prems(3) by simp
  note l = leave_queue [OF Cons.prems(1,2) at refl c2_def]
  have w: "c_wake c2 = c_wake c @ [q\<lparr>q_status := Some EIDRM\<rparr>]"
    by (simp add: c2_def wake_up_sem_queue_prepare_def unlink_queue_put_queue)
  have h: "head_of (c_sma c2) = head_of (c_sma c)"
    unfolding c2_def by (simp add: head_of_fewer [OF fewer_queue(2) [of False]])
  have "wq_inv c' \<and> same_state c2 c' \<and> queue_of p c' = [] \<and>
    (\<forall>p'. p' \<noteq> p \<longrightarrow> queue_of p' c' = queue_of p' c2) \<and> c_wake c' = c_wake c2 @ idrm rest \<and>
    head_of (c_sma c') = head_of (c_sma c2)"
    using Cons.prems(2,4) l(3) same_stateD(1) [OF l(2)]
    by (intro Cons.IH [OF l(1)]) (simp_all add: c2_def)
  then show ?case using same_state_trans [OF l(2)] l(4) w h by simp
qed

lemmas drain_queue_inv = drain_inv [OF _ _ refl, folded drain_queue_def]

lemma wq_inv_update_pid: "wq_inv c \<Longrightarrow> wq_inv (ipc_update_pid i p c)"
  using wq_inv_same_queues [of c "ipc_update_pid i p c"] wq_invD(2) [of c] by (simp add: vals_updates)

definition free_sem :: "nat \<Rightarrow> sem_ctx \<Rightarrow> sem_ctx" where
  "free_sem i c = ipc_update_pid i None (drain_queue (SAlter i) (drain_queue (SConst i) c))"

lemma free_sem_inv:
  assumes inv: "wq_inv c" and i: "i < c_nsems c" and c': "c' = free_sem i c"
  shows "wq_inv c'" and "same_shape c c'" and "use_global_lock (c_sma c') = use_global_lock (c_sma c)"
    and "c_wake c' = c_wake c @ idrm (queue_of (SConst i) c) @ idrm (queue_of (SAlter i) c)"
    and "\<And>p. queue_of p c' = (if p = SConst i \<or> p = SAlter i then [] else queue_of p c)"
    and "head_of (c_sma c') = head_of (c_sma c)"
proof -
  define c1 where "c1 = drain_queue (SConst i) c"
  define c2 where "c2 = drain_queue (SAlter i) c1"
  have v: "valid_pend (c_nsems c) (SConst i)" using i by simp
  have d1: "wq_inv c1" "same_state c c1" "queue_of (SConst i) c1 = []"
      "\<forall>p'. p' \<noteq> SConst i \<longrightarrow> queue_of p' c1 = queue_of p' c" "c_wake c1 = c_wake c @ idrm (queue_of (SConst i) c)"
      "head_of (c_sma c1) = head_of (c_sma c)"
    using drain_queue_inv [OF inv v c1_def] by blast+
  have v1: "valid_pend (c_nsems c1) (SAlter i)" using i same_stateD(1) [OF d1(2)] by simp
  have d2: "wq_inv c2" "same_state c1 c2" "queue_of (SAlter i) c2 = []"
      "\<forall>p'. p' \<noteq> SAlter i \<longrightarrow> queue_of p' c2 = queue_of p' c1" "c_wake c2 = c_wake c1 @ idrm (queue_of (SAlter i) c1)"
      "head_of (c_sma c2) = head_of (c_sma c1)"
    using drain_queue_inv [OF d1(1) v1 c2_def] by blast+
  have eq: "c' = ipc_update_pid i None c2" by (simp add: c' free_sem_def c1_def c2_def)
  have st: "same_state c c2" by (rule same_state_trans [OF d1(2) d2(2)])
  have sq: "same_queues c2 c'" by (simp add: eq)
  show "wq_inv c'" unfolding eq by (rule wq_inv_update_pid [OF d2(1)])
  show "same_shape c c'" "use_global_lock (c_sma c') = use_global_lock (c_sma c)"
    using st sq same_shape_trans by (auto simp: same_state_def same_queues_def)
  show "c_wake c' = c_wake c @ idrm (queue_of (SConst i) c) @ idrm (queue_of (SAlter i) c)"
    using d1(4,5) d2(5) by (simp add: eq ipc_update_pid_def)
  show "queue_of p c' = (if p = SConst i \<or> p = SAlter i then [] else queue_of p c)" for p
    using sq d1(3,4) d2(3,4) by (simp add: same_queues_def)
  show "head_of (c_sma c') = head_of (c_sma c)" using sq d1(6) d2(6) by (simp add: same_queues_def same_shape_def c_nsems_def head_of_def)
qed

lemma fold_free_sem:
  assumes "wq_inv c" and "\<forall>i \<in> set is. i < c_nsems c" and "distinct is" and "c' = fold free_sem is c"
  shows "wq_inv c' \<and> same_shape c c' \<and> use_global_lock (c_sma c') = use_global_lock (c_sma c) \<and>
    c_wake c' = c_wake c @ concat (map (\<lambda>i. idrm (queue_of (SConst i) c) @ idrm (queue_of (SAlter i) c)) is) \<and>
    (\<forall>p. queue_of p c' = (if p \<in> SConst ` set is \<union> SAlter ` set is then [] else queue_of p c)) \<and>
    head_of (c_sma c') = head_of (c_sma c)"
  using assms
proof (induction "is" arbitrary: c)
  case Nil
  then show ?case by simp
next
  case (Cons i rest)
  define c1 where "c1 = free_sem i c"
  have i: "i < c_nsems c" using Cons.prems(2) by simp
  note f = free_sem_inv [OF Cons.prems(1) i c1_def]
  have "\<forall>j \<in> set rest. j < c_nsems c1" using Cons.prems(2) f(2) by (simp add: same_shape_def)
  moreover have "distinct rest" "c' = fold free_sem rest c1" using Cons.prems(3,4) by (simp_all add: c1_def)
  ultimately have ih: "wq_inv c' \<and> same_shape c1 c' \<and> use_global_lock (c_sma c') = use_global_lock (c_sma c1) \<and>
    c_wake c' = c_wake c1 @ concat (map (\<lambda>i. idrm (queue_of (SConst i) c1) @ idrm (queue_of (SAlter i) c1)) rest) \<and>
    (\<forall>p. queue_of p c' = (if p \<in> SConst ` set rest \<union> SAlter ` set rest then [] else queue_of p c1)) \<and>
    head_of (c_sma c') = head_of (c_sma c1)"
    by (intro Cons.IH [OF f(1)])
  have m: "map (\<lambda>i. idrm (queue_of (SConst i) c1) @ idrm (queue_of (SAlter i) c1)) rest =
        map (\<lambda>i. idrm (queue_of (SConst i) c) @ idrm (queue_of (SAlter i) c)) rest"
    using Cons.prems(3) by (intro map_cong) (auto simp: f(5))
  have "queue_of p c' = (if p \<in> SConst ` set (i # rest) \<union> SAlter ` set (i # rest) then [] else queue_of p c)" for p
    using ih f(5) [of p] by auto
  with ih [unfolded m] f(3,4,6) same_shape_trans [OF f(2), of c'] show ?case by simp
qed


lemma fold_invalidate:
  assumes "\<forall>un \<in> set uns. undo_ok c (Some un)" and "c' = fold invalidate_undo uns c"
  shows "same_shape c c' \<and> c_sma c' = c_sma c \<and> c_wake c' = c_wake c \<and>
    (\<forall>a. a \<in> set uns \<or> (c_undo c a \<noteq> None \<and> un_semid (the (c_undo c a)) = -1) \<longrightarrow>
       c_undo c' a \<noteq> None \<and> un_semid (the (c_undo c' a)) = -1)"
  using assms
proof (induction uns arbitrary: c)
  case Nil
  then show ?case by simp
next
  case (Cons un uns)
  define c1 where "c1 = invalidate_undo un c"
  have ok: "undo_ok c (Some un)" using Cons.prems(1) by simp
  have s1: "same_shape c c1" "c_sma c1 = c_sma c" "c_wake c1 = c_wake c"
    using ok by (auto simp: c1_def invalidate_undo_def same_shape_def c_nsems_def undo_ok_def undo_of_def
        split: option.splits)
  have u1: "c_undo c1 un \<noteq> None \<and> un_semid (the (c_undo c1 un)) = -1"
    and o1: "c_undo c a \<noteq> None \<and> un_semid (the (c_undo c a)) = -1 \<Longrightarrow>
      c_undo c1 a \<noteq> None \<and> un_semid (the (c_undo c1 a)) = -1" for a
    by (simp_all add: c1_def invalidate_undo_def)
  have "\<forall>u \<in> set uns. undo_ok c1 (Some u)" using Cons.prems(1) same_shape_undo_ok [OF s1(1)] by simp
  from Cons.IH [OF this] Cons.prems(2) s1 u1 o1 same_shape_trans [OF s1(1)] show ?case
    by (auto simp: c1_def [symmetric])
qed

lemma freeary_locked_inv:
  assumes inv: "wq_inv c" and un: "undos_ok c" and c': "c' = freeary_locked c"
  shows "wq_inv c'" and "same_shape c c'" and "\<And>p. valid_pend (c_nsems c) p \<Longrightarrow> queue_of p c' = []"
    and "c_wake c' = c_wake c @ idrm (queue_of GConst c @ queue_of GAlter c @
           concat (map (\<lambda>i. queue_of (SConst i) c @ queue_of (SAlter i) c) [0..<c_nsems c]))"
    and "use_global_lock (c_sma c') = use_global_lock (c_sma c)"
    and "list_id (c_sma c') = []" and "perm_of (c_sma c') = perm_of (c_sma c)"
proof -
  define c1 where "c1 = fold invalidate_undo (list_id (c_sma c)) c"
  define c2 where "c2 = c1\<lparr>c_sma := (c_sma c1)\<lparr>list_id := []\<rparr>\<rparr>"
  define d1 where "d1 = drain_queue GConst c2"
  define d2 where "d2 = drain_queue GAlter d1"
  have s1: "same_shape c c1" "c_sma c1 = c_sma c" "c_wake c1 = c_wake c"
    using fold_invalidate [OF un [unfolded undos_ok_def] c1_def] by simp_all
  have "vals c1 = vals c" using s1(2) by (simp add: vals_def)
  then have inv1: "wq_inv c1"
    using wq_inv_same_queues [OF inv, of c1] s1 wq_invD(2) [OF inv] by (simp add: same_queues_def)
  have inv2: "wq_inv c2" "same_shape c c2"
    using inv1 s1(1) same_shape_trans same_queues_list_id [where c = c1 and l = "[]"] by (auto simp: c2_def)
  have q2: "queue_of p c2 = queue_of p c" for p
    using s1(2) by (cases p) (simp_all add: c2_def get_list.simps)
  have e1: "wq_inv d1" "same_state c2 d1" "queue_of GConst d1 = []"
      "\<forall>p'. p' \<noteq> GConst \<longrightarrow> queue_of p' d1 = queue_of p' c2" "c_wake d1 = c_wake c2 @ idrm (queue_of GConst c2)"
      "head_of (c_sma d1) = head_of (c_sma c2)"
    using drain_queue_inv [OF inv2(1) _ d1_def] by simp_all
  have e2: "wq_inv d2" "same_state d1 d2" "queue_of GAlter d2 = []"
      "\<forall>p'. p' \<noteq> GAlter \<longrightarrow> queue_of p' d2 = queue_of p' d1" "c_wake d2 = c_wake d1 @ idrm (queue_of GAlter d1)"
      "head_of (c_sma d2) = head_of (c_sma d1)"
    using drain_queue_inv [OF e1(1) _ d2_def] by simp_all
  have sh: "same_shape c d2"
    using same_shape_trans [OF inv2(2)] same_state_trans [OF e1(2) e2(2)] by (simp add: same_state_def)
  have n: "c_nsems d2 = c_nsems c" using sh by (simp add: same_shape_def)
  have "c' = fold free_sem [0..<c_nsems d2] d2"
    by (simp add: c' freeary_locked_def c1_def c2_def d1_def d2_def Let_def free_sem_def [abs_def])
  then have f: "wq_inv c'" "same_shape d2 c'" "use_global_lock (c_sma c') = use_global_lock (c_sma d2)"
      "c_wake c' = c_wake d2 @ concat (map (\<lambda>i. idrm (queue_of (SConst i) d2) @ idrm (queue_of (SAlter i) d2)) [0..<c_nsems d2])"
      "\<And>p. queue_of p c' = (if p \<in> SConst ` set [0..<c_nsems d2] \<union> SAlter ` set [0..<c_nsems d2] then [] else queue_of p d2)"
      "head_of (c_sma c') = head_of (c_sma d2)"
    using fold_free_sem [OF e2(1), of "[0..<c_nsems d2]" c'] by simp_all
  show "wq_inv c'" by (rule f(1))
  show "same_shape c c'" by (rule same_shape_trans [OF sh f(2)])
  show "queue_of p c' = []" if "valid_pend (c_nsems c) p" for p
    using that e1(3) e2(3,4) by (cases p) (simp_all add: f(5) n)
  have sq: "queue_of (SConst i) d2 = queue_of (SConst i) c" "queue_of (SAlter i) d2 = queue_of (SAlter i) c" for i
    using e1(4) e2(4) q2 by simp_all
  have "c_wake d2 = c_wake c @ idrm (queue_of GConst c @ queue_of GAlter c)"
    using e1(4,5) e2(5) q2 s1(3) by (simp add: c2_def)
  then show "c_wake c' = c_wake c @ idrm (queue_of GConst c @ queue_of GAlter c @
           concat (map (\<lambda>i. queue_of (SConst i) c @ queue_of (SAlter i) c) [0..<c_nsems c]))"
    using f(4) by (simp add: sq n map_concat comp_def)
  show "use_global_lock (c_sma c') = use_global_lock (c_sma c)"
    using f(3) e1(2) e2(2) s1(2) by (simp add: same_state_def c2_def)
  show "list_id (c_sma c') = []" "perm_of (c_sma c') = perm_of (c_sma c)"
    using f(6) e1(6) e2(6) s1(2) by (simp_all add: head_of_def c2_def)
qed


section \<open>The transition system of one array\<close>

datatype sem_event =
    EvSemop task | EvResume task | EvSetval nat int | EvSetall "int list" | EvExit addr
  | EvNewUndo addr | EvRead | EvRmid

abbreviation lock_ctx :: "sem_ctx \<Rightarrow> sem_ctx" where
  "lock_ctx c \<equiv> c\<lparr>c_sma := sem_lock_all (c_sma c)\<rparr>"

text \<open>Linking of a new undo structure in \<open>find_alloc_undo\<close>, with the lock held.\<close>

definition link_undo :: "addr \<Rightarrow> addr \<Rightarrow> int \<Rightarrow> sem_ctx \<Rightarrow> sem_ctx" where
  "link_undo a ulp semid c =
     c\<lparr>c_undo := (c_undo c)(a \<mapsto> \<lparr>un_ulp = ulp, un_semid = semid, semadj = replicate (c_nsems c) 0\<rparr>),
       c_sma := (c_sma c)\<lparr>list_id := a # list_id (c_sma c)\<rparr>\<rparr>"

text \<open>The array as \<open>newary\<close> sets it up: all values zero, nobody waiting.\<close>

definition sem_start :: "sem_ctx \<Rightarrow> bool" where
  "sem_start c \<longleftrightarrow> ctx_ok c \<and> list_id (c_sma c) = [] \<and> complex_count (c_sma c) = 0 \<and>
     pending_alter (c_sma c) = [] \<and> pending_const (c_sma c) = [] \<and>
     (\<forall>s \<in> set (sems (c_sma c)). semval s = 0 \<and> sem_pending_alter s = [] \<and> sem_pending_const s = [])"

inductive sem_step :: "ipc_cfg \<Rightarrow> sem_ctx \<Rightarrow> sem_event \<Rightarrow> sem_ctx \<Rightarrow> bool"
  for cfg :: ipc_cfg
where
  step_semop: "entry_ok c q \<Longrightarrow> lock_reads_ok r1 r2 (c_sma c) \<Longrightarrow>
     semtimedop_start cfg now t r1 r2 q c = (out, c') \<Longrightarrow> sem_step cfg c (EvSemop t) c'"
| step_resume: "lock_reads_ok r1 r2 (c_sma c) \<Longrightarrow>
     semtimedop_resume cfg t r1 r2 status timed_out signal sops c = (out, c') \<Longrightarrow>
     sem_step cfg c (EvResume t) c'"
| step_setval: "0 \<le> val \<Longrightarrow> val \<le> SEMVMX \<Longrightarrow> c' = setval_locked now tgid i val (lock_ctx c) \<Longrightarrow>
     sem_step cfg c (EvSetval i val) c'"
| step_setall: "vals_in_range sem_io \<Longrightarrow> length sem_io = c_nsems c \<Longrightarrow>
     c' = setall_locked now tgid sem_io (lock_ctx c) \<Longrightarrow> sem_step cfg c (EvSetall sem_io) c'"
| step_exit: "c' = exit_sem_locked now tgid a (lock_ctx c) \<Longrightarrow> sem_step cfg c (EvExit a) c'"
| step_undo: "c_undo c a = None \<Longrightarrow>
     c' = unlock_ctx SEM_GLOBAL_LOCK (link_undo a ulp semid (lock_ctx c)) \<Longrightarrow>
     sem_step cfg c (EvNewUndo a) c'"
| step_read: "c' = unlock_ctx SEM_GLOBAL_LOCK (lock_ctx c) \<Longrightarrow> sem_step cfg c EvRead c'"
| step_rmid: "f = freeary_locked (lock_ctx c) \<Longrightarrow>
     c' = unlock_ctx SEM_GLOBAL_LOCK (f\<lparr>c_sma := (c_sma f)\<lparr>deleted := True\<rparr>\<rparr>) \<Longrightarrow>
     sem_step cfg c EvRmid c'"

inductive_cases sem_step_elim: "sem_step cfg c ev c'"

definition array_inv :: "sem_ctx \<Rightarrow> bool" where
  "array_inv c \<longleftrightarrow> idle_inv c \<and> undos_ok c"

lemma sem_start_inv:
  assumes "sem_start c" shows "array_inv c"
proof -
  have n: "length (sems (c_sma c)) = c_nsems c" using assms by (simp add: sem_start_def ctx_ok_def)
  have q: "queue_of p c = []" if "valid_pend (c_nsems c) p" for p
    using that assms nth_mem n by (cases p) (auto simp: sem_start_def get_list.simps)
  have "wq_inv c"
    using assms q [of GAlter] q [of GConst] q
    by (auto simp: wq_inv_def sem_start_def vals_in_range_def vals_def entries_ok_def complex_entries_def
        one_mode_def SEMVMX_def)
  moreover have "quiet c" using q by (simp add: quiet_waits)
  ultimately show ?thesis
    using assms q [of GAlter] by (simp add: array_inv_def idle_inv_def undos_ok_def sem_start_def)
qed

text \<open>A new undo structure is not referred to by anybody who is already queued.\<close>

lemma link_undo_inv:
  assumes inv: "wq_inv c" and q: "quiet c" and un: "undos_ok c" and fresh: "c_undo c a = None"
    and c': "c' = link_undo a ulp semid c"
  shows "wq_inv c'" and "quiet c'" and "undos_ok c'"
    and "use_global_lock (c_sma c') = use_global_lock (c_sma c)"
proof -
  have ql: "queue_of p c' = queue_of p c" for p
    by (cases p) (simp_all add: c' link_undo_def get_list.simps)
  have v: "vals c' = vals c" "c_nsems c' = c_nsems c" "\<And>i. semval_at c' i = semval_at c i"
    "length (sems (c_sma c')) = length (sems (c_sma c))" "complex_count (c_sma c') = complex_count (c_sma c)"
    by (simp_all add: c' link_undo_def vals_def c_nsems_def semval_at_def)
  have u: "undo_ok c' un" if "undo_ok c un" for un
    using that fresh by (cases un) (auto simp: undo_ok_def c' link_undo_def c_nsems_def split: option.splits)
  have ua: "undo_ok c' (Some a)" by (simp add: undo_ok_def c' link_undo_def c_nsems_def)
  have adj: "adjs c' un = adjs c un" if "undo_ok c un" for un
    using that fresh by (cases un) (auto simp: adjs_def undo_of_def undo_ok_def c' link_undo_def split: option.splits)
  have e: "entry_ok c' r" if "entry_ok c r" for r
    using that u by (simp add: entry_ok_def ctx_ok_def v)
  show "wq_inv c'"
    using inv e by (auto simp: wq_inv_def entries_ok_def one_mode_def complex_entries_def ctx_ok_def v ql)
  show "quiet c'" unfolding quiet_waits
  proof (intro allI impI ballI)
    fix p r assume p: "valid_pend (c_nsems c') p" and r: "r \<in> set (queue_of p c')"
    then have "waits c p r" "undo_ok c (q_undo r)"
      using q queue_entry_ok(1) [OF inv, of p r] entry_okD(2) by (simp_all add: quiet_waits v ql)
    then show "waits c' p r"
      using adj by (cases p) (simp_all add: waits_def stuck_def nonzero_def sleeps_def v)
  qed
  show "undos_ok c'" using un u ua by (auto simp: undos_ok_def c' link_undo_def)
  show "use_global_lock (c_sma c') = use_global_lock (c_sma c)" by (simp add: c' link_undo_def)
qed

lemma get_list_deleted [simp]: "get_list p ((sma :: sem_array)\<lparr>deleted := d\<rparr>) = get_list p sma"
  by (cases p) (simp_all add: get_list.simps)

lemma wq_inv_deleted:
  "wq_inv (c\<lparr>c_sma := (c_sma c)\<lparr>deleted := d\<rparr>\<rparr>) = wq_inv c"
proof -
  let ?c = "c\<lparr>c_sma := (c_sma c)\<lparr>deleted := d\<rparr>\<rparr>"
  have sh: "same_shape c ?c" and v: "vals ?c = vals c" by (simp_all add: same_shape_def c_nsems_def vals_def)
  show "wq_inv ?c = wq_inv c"
    using same_shape_entry_ok [OF sh] v
    by (simp add: wq_inv_def entries_ok_def one_mode_def complex_entries_def ctx_ok_def c_nsems_def)
qed


lemma undos_ok_head:
  "undos_ok c \<Longrightarrow> same_shape c c' \<Longrightarrow> head_of (c_sma c') = head_of (c_sma c) \<Longrightarrow> undos_ok c'"
  using undos_ok_shape [of c c'] by (simp add: head_of_def)

lemma unlock_array_inv:
  assumes "wq_inv c" and "quiet c" and "locked_inv k c" and "undos_ok c"
  shows "array_inv (unlock_ctx k c)"
  using sem_unlock_inv [OF assms(1-3) refl] undos_ok_head [OF assms(4)] by (simp add: array_inv_def)

lemma rmid_inv:
  assumes idle: "idle_inv c" and un: "undos_ok c" and f: "f = freeary_locked (lock_ctx c)"
    and c': "c' = unlock_ctx SEM_GLOBAL_LOCK (f\<lparr>c_sma := (c_sma f)\<lparr>deleted := True\<rparr>\<rparr>)"
  shows "array_inv c'"
proof -
  note l = lock_all_inv [OF idle refl]
  note fr = freeary_locked_inv [OF l(1) undos_ok_head [OF un l(4,5)] f]
  define g where "g = f\<lparr>c_sma := (c_sma f)\<lparr>deleted := True\<rparr>\<rparr>"
  have n: "c_nsems g = c_nsems (lock_ctx c)" using fr(2) by (simp add: g_def c_nsems_def same_shape_def)
  have q: "queue_of p g = []" if "valid_pend (c_nsems g) p" for p
    using fr(3) that n by (simp add: g_def)
  have "wq_inv g" using fr(1) by (simp add: g_def wq_inv_deleted)
  moreover have "quiet g" using q by (simp add: quiet_waits)
  moreover have "locked_inv SEM_GLOBAL_LOCK g" using l(3) fr(5) by (simp add: locked_inv_def g_def)
  moreover have "undos_ok g" using fr(6) by (simp add: undos_ok_def g_def)
  ultimately show ?thesis unfolding c' g_def [symmetric] by (rule unlock_array_inv)
qed

lemma sem_step_inv:
  assumes "array_inv c" and "sem_step cfg c ev c'"
  shows "array_inv c'"
  using assms(2,1)
proof (cases rule: sem_step.cases)
  case (step_semop q r1 r2 now t out)
  have i: "idle_inv c" "undos_ok c" using assms(1) by (simp_all add: array_inv_def)
  obtain k sma where s: "sem_lock r1 r2 (c_sma c) (q_sops q) (int (nsops q)) = (k, sma)" by force
  have "head_of (c_sma c') = head_of (c_sma c)"
    using step_semop(4) semtimedop_locked_head head_of_lock [OF s] by (fastforce simp: semtimedop_start_def s)
  then show ?thesis
    using semtimedop_start_inv [OF i(1) step_semop(3,2,4)] undos_ok_head [OF i(2)] by (simp add: array_inv_def)
next
  case (step_resume r1 r2 t status timed_out signal sops out)
  have i: "idle_inv c" "undos_ok c" using assms(1) by (simp_all add: array_inv_def)
  show ?thesis
    using semtimedop_resume_inv [OF i(1) step_resume(2,3)] undos_ok_head [OF i(2)] by (simp add: array_inv_def)
next
  case (step_setval val now tgid i)
  then show ?thesis using setval_inv assms(1) by (simp add: array_inv_def)
next
  case (step_setall sem_io now tgid)
  then show ?thesis using setall_inv assms(1) by (simp add: array_inv_def)
next
  case (step_exit now tgid a)
  then show ?thesis using exit_sem_inv assms(1) by (simp add: array_inv_def)
next
  case (step_undo a ulp semid)
  have i: "idle_inv c" "undos_ok c" using assms(1) by (simp_all add: array_inv_def)
  note l = lock_all_inv [OF i(1) refl]
  have "c_undo (lock_ctx c) a = None" using step_undo(2) by simp
  note u = link_undo_inv [OF l(1,2) undos_ok_head [OF i(2) l(4,5)] this refl, of ulp semid]
  show ?thesis unfolding step_undo(3)
    using u l(3) by (intro unlock_array_inv) (simp_all add: locked_inv_def)
next
  case step_read
  have i: "idle_inv c" "undos_ok c" using assms(1) by (simp_all add: array_inv_def)
  note l = lock_all_inv [OF i(1) refl]
  show ?thesis unfolding step_read(2) by (rule unlock_array_inv [OF l(1-3) undos_ok_head [OF i(2) l(4,5)]])
next
  case (step_rmid f)
  then show ?thesis using rmid_inv assms(1) by (simp add: array_inv_def)
qed

interpretation sem_sys: inv_system sem_start "sem_step cfg" array_inv for cfg
  by unfold_locales (auto intro: sem_start_inv sem_step_inv)

section \<open>Properties\<close>

lemma run_sops_all_zero:
  "run_sops sops (vs, adj) = (ScanEnd, st) \<Longrightarrow> \<forall>s \<in> set sops. sem_op s = 0 \<Longrightarrow>
     \<forall>s \<in> set sops. vs ! sem_num s = 0"
proof (induction sops arbitrary: adj)
  case (Cons s rest)
  have z: "vs ! sem_num s = 0" "sem_op s = 0"
    using run_sops_ConsE(1) [OF Cons.prems(1)] Cons.prems(2) by (auto simp: sop_stop_def split: if_splits)
  then have "vs[sem_num s := vs ! sem_num s + sem_op s] = vs" by (metis add.right_neutral list_update_id)
  then show ?case using Cons.IH run_sops_ConsE(2) [OF Cons.prems(1)] Cons.prems(2) z by auto
qed simp

lemma waits_not_done:
  assumes "entry_ok c q" and "place_ok p q" and "waits c p q" and "valid_pend (c_nsems c) p"
  shows "fst (perform_atomic_semop c q) \<noteq> SemDone"
  using assms(1)
proof (cases rule: perform_cases)
  case (completed vs adj)
  have n: "sem_num s < length (sems (c_sma c))" if "s \<in> set (q_sops q)" for s
    using that entry_okD(1,3) [OF assms(1)] by (simp add: ctx_ok_def sops_ok_def)
  have "\<not> sleeps c q" using completed(1) by (simp add: sleeps_def)
  moreover have "\<not> nonzero c q" if "\<not> q_alter q"
    using run_sops_all_zero [OF completed(1)] that entry_okD(6) [OF assms(1)] n
    by (auto simp: nonzero_def vals_nth)
  ultimately have False
    using assms simple_dec_run(1) [OF assms(1)] by (cases p) (auto simp: waits_def)
  then show ?thesis ..
qed (simp_all)

text \<open>
  C2.  No lost wakeups: in every state of a semaphore array that any sequence of semaphore
  operations, timeouts, signals, \<open>SETVAL\<close>, \<open>SETALL\<close>, undo adjustments and removal leads to, no
  operation sleeps that could be executed on the current values.
\<close>

theorem no_lost_wakeups:
  assumes "reach sem_start (sem_step cfg) c"
    and "valid_pend (c_nsems c) p" and "q \<in> set (get_list p (c_sma c))"
  shows "fst (perform_atomic_semop c q) \<noteq> SemDone"
proof -
  have i: "wq_inv c" "quiet c"
    using sem_sys.reach_inv [OF assms(1)] by (simp_all add: array_inv_def idle_inv_def)
  show ?thesis
    using queue_entry_ok [OF i(1) assms(2,3)] i(2) assms(2,3)
    by (intro waits_not_done [of c q p]) (simp_all add: quiet_waits)
qed


text \<open>A concrete run: on a new array of two semaphores a decrement of the first one goes to sleep.\<close>

definition fresh_ctx :: sem_ctx where
  "fresh_ctx = \<lparr>c_sma = sample_sma\<lparr>list_id := [], sems := [sample_sem 0, sample_sem 0]\<rparr>,
     c_undo = (\<lambda>_. None), c_wake = []\<rparr>"

definition dec_sop :: sembuf where
  "dec_sop = \<lparr>sem_num = 0, sem_op = -1, sem_flg = 0\<rparr>"

definition dec_q :: sem_queue where
  "dec_q = (sample_q [dec_sop])\<lparr>q_undo := None\<rparr>"

definition dec_waiting :: sem_queue where
  "dec_waiting = dec_q\<lparr>q_blocking := Some dec_sop, q_status := Some EINTR, q_sleeper := 5\<rparr>"

definition waiting_ctx :: sem_ctx where
  "waiting_ctx = fresh_ctx\<lparr>c_sma := (c_sma fresh_ctx)
     \<lparr>sems := [(sample_sem 0)\<lparr>sem_pending_alter := [dec_waiting]\<rparr>, sample_sem 0], use_global_lock := 9\<rparr>\<rparr>"

lemma sem_start_fresh: "sem_start fresh_ctx"
  by (simp add: sem_start_def fresh_ctx_def sample_sma_def sample_sem_def ctx_ok_def c_nsems_def
      kern_ipc_perm.defs)

lemma dec_sop_simps [simp]: "sem_num dec_sop = 0" "sem_op dec_sop = -1" "sem_flg dec_sop = 0"
  by (simp_all add: dec_sop_def)

lemma scan_dec: "scan_sops [dec_sop] = \<lparr>sc_max = 0, sc_undos = False, sc_alter = True, sc_dupsop = False, sc_dup = 1\<rparr>"
  by (simp add: scan_sops_def dec_sop_def scan_sop_def abi_defs)

lemma entry_ok_dec: "entry_ok fresh_ctx dec_q"
  unfolding entry_ok_def
  by (simp add: dec_q_def sample_q_def scan_dec)
    (simp add: fresh_ctx_def sample_sma_def ctx_ok_def undo_ok_def c_nsems_def kern_ipc_perm.defs)

lemma step_waiting: "sem_step sample_cfg fresh_ctx (EvSemop 5) waiting_ctx"
proof (rule step_semop [OF entry_ok_dec])
  show "lock_reads_ok 1 1 (c_sma fresh_ctx)" by (simp add: lock_reads_ok_def)
  have lock: "sem_lock 1 1 (c_sma fresh_ctx) (q_sops dec_q) (int (nsops dec_q)) = (SEM_GLOBAL_LOCK, c_sma fresh_ctx)"
    by (simp add: sem_lock_def dec_q_def sample_q_def fresh_ctx_def sample_sma_def kern_ipc_perm.defs)
  have v: "ipc_valid_object sample_cfg (perm_of (c_sma fresh_ctx))"
    by (simp add: sample_cfg_def fresh_ctx_def sample_sma_def sample_perm_def kern_ipc_perm.defs)
  have "semval_at fresh_ctx 0 = 0" "c_nsems fresh_ctx = 2"
    by (simp_all add: semval_at_def fresh_ctx_def sample_sma_def sample_sem_def c_nsems_def kern_ipc_perm.defs)
  then have p: "perform_atomic_semop fresh_ctx dec_q = (SemSleep, dec_q\<lparr>q_blocking := Some dec_sop\<rparr>, fresh_ctx)"
    by (simp add: perform_atomic_semop_def dec_q_def sample_q_def scan_dec fast_check_Cons Let_def
        array_index_nospec_def sop_stop_def block_result_def abi_defs)
  have e: "enqueue_semop dec_waiting (c_sma fresh_ctx) = list_add_tail (SAlter 0) dec_waiting (c_sma fresh_ctx)"
    by (simp add: enqueue_semop_def dec_waiting_def dec_q_def sample_q_def scan_dec fresh_ctx_def sample_sma_def
        array_index_nospec_def kern_ipc_perm.defs)
  have u: "sem_unlock (list_add_tail (SAlter 0) dec_waiting (c_sma fresh_ctx)) SEM_GLOBAL_LOCK = c_sma waiting_ctx"
    by (simp add: sem_unlock_def list_add_tail_def get_list.simps upd_sem_def unmerge_queues_def
        complexmode_tryleave_def waiting_ctx_def fresh_ctx_def sample_sma_def sample_sem_def kern_ipc_perm.defs)
  have "semtimedop_locked sample_cfg 100 5 SEM_GLOBAL_LOCK dec_q fresh_ctx =
      (Sleeping, unlock_ctx SEM_GLOBAL_LOCK (fresh_ctx\<lparr>c_sma := enqueue_semop dec_waiting (c_sma fresh_ctx)\<rparr>))"
    using v p by (simp add: semtimedop_locked_def dec_waiting_def dec_q_def sample_q_def)
  then show "semtimedop_start sample_cfg 100 5 1 1 dec_q fresh_ctx = (Sleeping, waiting_ctx)"
    unfolding semtimedop_start_def lock e by (simp add: u waiting_ctx_def)
qed

theorem no_lost_wakeups_witness:
  "dec_waiting \<in> set (get_list (SAlter 0) (c_sma waiting_ctx)) \<and>
   fst (perform_atomic_semop waiting_ctx dec_waiting) \<noteq> SemDone"
proof -
  have r: "reach sem_start (sem_step sample_cfg) waiting_ctx"
    using reach_step [of sem_start "sem_step sample_cfg", OF reach_start [of sem_start, OF sem_start_fresh] step_waiting] .
  have m: "dec_waiting \<in> set (get_list (SAlter 0) (c_sma waiting_ctx))" "c_nsems waiting_ctx = 2"
    by (simp_all add: get_list.simps waiting_ctx_def fresh_ctx_def c_nsems_def sample_sma_def kern_ipc_perm.defs)
  with no_lost_wakeups [OF r, of "SAlter 0" dec_waiting] show ?thesis by simp
qed


text \<open>
  C38.  Well-formedness of every reachable array nobody has locked.  There are as many semaphores as the array
  says and their values lie between 0 and \<open>SEMVMX\<close>.  On the queues of a semaphore sleep single operations on
  this very semaphore, decrements on the one and waits for zero on the other; on the global queue of
  waits for zero only complex operations sleep, on the global altering queue only entries that
  alter something; every entry names existing semaphores only and its undo structure has an adjustment
  for each of them.  While anything sleeps on the global altering queue or a complex operation sleeps, all
  decrements sleep there and not with their semaphores.  The counter of complex operations is exact, and while
  \<open>use_global_lock\<close> is zero, so that a simple operation may take just the lock of its own semaphore,
  nothing sleeps on the global queues.
\<close>

theorem array_reachable_inv:
  assumes "reach sem_start (sem_step cfg) c"
  shows "length (sems (c_sma c)) = c_nsems c \<and> (\<forall>s \<in> set (sems (c_sma c)). 0 \<le> semval s \<and> semval s \<le> SEMVMX) \<and>
    (\<forall>i < c_nsems c.
       (\<forall>q \<in> set (sem_pending_alter (sems (c_sma c) ! i)).
          \<exists>sop. q_sops q = [sop] \<and> sem_num sop = i \<and> sem_op sop < 0) \<and>
       (\<forall>q \<in> set (sem_pending_const (sems (c_sma c) ! i)).
          \<exists>sop. q_sops q = [sop] \<and> sem_num sop = i \<and> sem_op sop = 0)) \<and>
    (\<forall>q \<in> set (pending_const (c_sma c)). length (q_sops q) > 1 \<and> (\<forall>sop \<in> set (q_sops q). sem_op sop = 0)) \<and>
    (\<forall>q \<in> set (pending_alter (c_sma c)). \<exists>sop \<in> set (q_sops q). sem_op sop \<noteq> 0) \<and>
    (\<forall>p. valid_pend (c_nsems c) p \<longrightarrow> (\<forall>q \<in> set (get_list p (c_sma c)).
       (\<forall>sop \<in> set (q_sops q). sem_num sop < c_nsems c) \<and>
       (\<forall>a. q_undo q = Some a \<longrightarrow> (\<exists>u. c_undo c a = Some u \<and> length (semadj u) = c_nsems c)))) \<and>
    (pending_alter (c_sma c) \<noteq> [] \<or> complex_count (c_sma c) \<noteq> 0 \<longrightarrow>
       (\<forall>i < c_nsems c. sem_pending_alter (sems (c_sma c) ! i) = [])) \<and>
    complex_count (c_sma c) =
      int (length (filter (\<lambda>q. length (q_sops q) > 1) (pending_alter (c_sma c) @ pending_const (c_sma c)))) \<and>
    (use_global_lock (c_sma c) = 0 \<longrightarrow> pending_alter (c_sma c) = [] \<and> pending_const (c_sma c) = [])"
proof -
  have i: "idle_inv c" "wq_inv c"
    using sem_sys.reach_inv [OF assms] by (simp_all add: array_inv_def idle_inv_def)
  note cc = wq_invD(4) [OF i(2)] and len = wq_invD(6) [OF i(2)] and entry = queue_entry_ok [OF i(2)]
  have vals: "\<forall>s \<in> set (sems (c_sma c)). 0 \<le> semval s \<and> semval s \<le> SEMVMX"
    using wq_invD(2) [OF i(2)] by (simp add: vals_in_range_def vals_def)
  have alter: "\<exists>sop. q_sops q = [sop] \<and> sem_num sop = k \<and> sem_op sop < 0"
    if "q \<in> set (sem_pending_alter (sems (c_sma c) ! k))" "k < c_nsems c" for q k
    using entry(2) [of "SAlter k" q] that by (cases "q_sops q") (auto simp: get_list.simps simple_dec_def)
  have const: "\<exists>sop. q_sops q = [sop] \<and> sem_num sop = k \<and> sem_op sop = 0"
    if "q \<in> set (sem_pending_const (sems (c_sma c) ! k))" "k < c_nsems c" for q k
    using entry [of "SConst k" q] entry_okD(6) [of c q] that by (cases "q_sops q") (auto simp: get_list.simps)
  have gconst: "length (q_sops q) > 1 \<and> (\<forall>sop \<in> set (q_sops q). sem_op sop = 0)" if "q \<in> set (pending_const (c_sma c))" for q
    using entry [of GConst q] entry_okD(6) [of c q] that by (auto simp: get_list.simps)
  have galter: "\<exists>sop \<in> set (q_sops q). sem_op sop \<noteq> 0" if "q \<in> set (pending_alter (c_sma c))" for q
    using entry [of GAlter q] entry_okD(6) [of c q] that by (auto simp: get_list.simps)
  have sops: "(\<forall>sop \<in> set (q_sops q). sem_num sop < c_nsems c) \<and>
      (\<forall>a. q_undo q = Some a \<longrightarrow> (\<exists>u. c_undo c a = Some u \<and> length (semadj u) = c_nsems c))"
    if "valid_pend (c_nsems c) p" "q \<in> set (get_list p (c_sma c))" for p q
    using entry_okD(2,3) [OF entry(1) [OF that]] by (auto simp: sops_ok_def undo_ok_def split: option.splits)
  have mode: "pending_alter (c_sma c) \<noteq> [] \<or> complex_count (c_sma c) \<noteq> 0 \<longrightarrow>
      (\<forall>i < c_nsems c. sem_pending_alter (sems (c_sma c) ! i) = [])"
    using wq_invD(5) [OF i(2)] by (simp add: one_mode_def get_list.simps)
  have "pending_alter (c_sma c) = [] \<and> pending_const (c_sma c) = []" if "use_global_lock (c_sma c) = 0"
  proof
    have z: "complex_count (c_sma c) = 0" using i(1) that by (auto simp: idle_inv_def)
    then show "pending_alter (c_sma c) = []" using i(1) by (simp add: idle_inv_def get_list.simps)
    show "pending_const (c_sma c) = []"
    proof (rule ccontr)
      assume "pending_const (c_sma c) \<noteq> []"
      then obtain r where r: "r \<in> set (queue_of GConst c)" by (cases "queue_of GConst c") (auto simp: get_list.simps)
      then have "nsops r > 1" using entry(2) [OF _ r] by simp
      then show False using complex_entries_0 [of c r] r z cc by simp
    qed
  qed
  then show ?thesis using vals alter const gconst galter sops mode cc len
    by (auto simp: complex_entries_def get_list.simps)
qed

text \<open>The sleeping decrement is on the queue of the semaphore it waits for.\<close>

theorem array_reachable_inv_witness:
  "sem_pending_alter (sems (c_sma waiting_ctx) ! 0) = [dec_waiting] \<and>
   (\<exists>sop. q_sops dec_waiting = [sop] \<and> sem_num sop = 0 \<and> sem_op sop < 0) \<and> complex_count (c_sma waiting_ctx) = 0"
proof -
  have "reach sem_start (sem_step sample_cfg) waiting_ctx"
    using reach_step [of sem_start "sem_step sample_cfg", OF reach_start [of sem_start, OF sem_start_fresh] step_waiting] .
  note inv = array_reachable_inv [OF this]
  have q: "sem_pending_alter (sems (c_sma waiting_ctx) ! 0) = [dec_waiting]" "0 < c_nsems waiting_ctx"
    "pending_alter (c_sma waiting_ctx) = []" "pending_const (c_sma waiting_ctx) = []"
    by (simp_all add: waiting_ctx_def fresh_ctx_def c_nsems_def sample_sma_def kern_ipc_perm.defs)
  have "\<exists>sop. q_sops dec_waiting = [sop] \<and> sem_num sop = 0 \<and> sem_op sop < 0"
    using inv q(1,2) by (metis list.set_intros(1))
  moreover have "complex_count (c_sma waiting_ctx) = 0" using inv q(3,4) by simp
  ultimately show ?thesis using q(1) by blast
qed

text \<open>
  C29.  Removing an array in any reachable state empties every wait queue and puts each sleeper,
  once and in queue order, on the wake queue with the status \<open>EIDRM\<close>.
\<close>

theorem freeary_wakes_everybody:
  assumes "reach sem_start (sem_step cfg) c" and "c' = freeary_locked (lock_ctx c)"
  shows "(\<forall>p. valid_pend (c_nsems c) p \<longrightarrow> get_list p (c_sma c') = []) \<and>
    c_wake c' = c_wake c @ map (\<lambda>q. q\<lparr>q_status := Some EIDRM\<rparr>)
      (pending_const (c_sma c) @ pending_alter (c_sma c) @
       concat (map (\<lambda>i. sem_pending_const (sems (c_sma c) ! i) @ sem_pending_alter (sems (c_sma c) ! i))
         [0..<c_nsems c]))"
proof -
  have i: "idle_inv c" "undos_ok c" using sem_sys.reach_inv [OF assms(1)] by (simp_all add: array_inv_def)
  note l = lock_all_inv [OF i(1) refl]
  note f = freeary_locked_inv [OF l(1) undos_ok_head [OF i(2) l(4,5)] assms(2)]
  have q: "queue_of p (lock_ctx c) = queue_of p c" for p by (rule l(7))
  show ?thesis
    using f(3,4) l(6) by (simp add: q [simplified] get_list.simps)
qed

theorem freeary_wakes_everybody_witness:
  "map q_status (c_wake (freeary_locked (lock_ctx waiting_ctx))) = [Some EIDRM]"
proof -
  have r: "reach sem_start (sem_step sample_cfg) waiting_ctx"
    using reach_step [of sem_start "sem_step sample_cfg", OF reach_start [of sem_start, OF sem_start_fresh] step_waiting] .
  have w: "c_wake waiting_ctx = []" "c_nsems waiting_ctx = 2" "pending_const (c_sma waiting_ctx) = []"
    "pending_alter (c_sma waiting_ctx) = []"
    "sems (c_sma waiting_ctx) = [(sample_sem 0)\<lparr>sem_pending_alter := [dec_waiting]\<rparr>, sample_sem 0]"
    by (simp_all add: waiting_ctx_def fresh_ctx_def sample_sma_def c_nsems_def kern_ipc_perm.defs)
  show ?thesis
    using freeary_wakes_everybody [OF r refl] by (simp add: w sample_sem_def upt_rec)
qed

text \<open>
  A sleeper that reads its status without the lock just before the array is removed
  returns \<open>EINTR\<close>, although \<open>freeary\<close> stored \<open>EIDRM\<close> for it: the check of the deletion mark
  comes before the second read of the status.
\<close>

theorem removal_race_returns_EINTR:
  assumes "\<not> ipc_valid_object cfg (perm_of (c_sma c))"
    and "sem_lock r1 r2 (c_sma c) sops (int (length sops)) = (k, sma)"
  shows "fst (semtimedop_resume cfg t r1 r2 (Some EINTR) timed_out signal sops c) = Returned (Some EINTR)"
  using assms head_of_lock [OF assms(2)] by (simp add: semtimedop_resume_def head_of_def)

theorem removal_race_returns_EINTR_witness:
  "let f = freeary_locked (lock_ctx waiting_ctx);
       c = unlock_ctx SEM_GLOBAL_LOCK (f\<lparr>c_sma := (c_sma f)\<lparr>deleted := True\<rparr>\<rparr>)
   in fst (semtimedop_resume sample_cfg 5 0 0 (Some EINTR) False False [dec_sop] c) = Returned (Some EINTR)"
proof -
  define f where "f = freeary_locked (lock_ctx waiting_ctx)"
  define g where "g = f\<lparr>c_sma := (c_sma f)\<lparr>deleted := True\<rparr>\<rparr>"
  obtain k sma where s: "sem_lock 0 0 (c_sma (unlock_ctx SEM_GLOBAL_LOCK g)) [dec_sop] (int (length [dec_sop])) = (k, sma)"
    by force
  have "perm_of (c_sma (unlock_ctx SEM_GLOBAL_LOCK g)) = perm_of (c_sma g)"
    using head_of_unlock [of "c_sma g" SEM_GLOBAL_LOCK] by (simp add: head_of_def)
  then have "\<not> ipc_valid_object sample_cfg (perm_of (c_sma (unlock_ctx SEM_GLOBAL_LOCK g)))"
    by (simp only: sample_cfg_def ipc_cfg.simps) (simp add: g_def)
  from removal_race_returns_EINTR [OF this s, of 5 False False] show ?thesis
    by (simp add: Let_def f_def g_def)
qed

end
