(* ===== verification/Sem_Syscall.thy ===== *)
theory Sem_Syscall
  imports Sem_System
begin

text \<open>
  Semaphore arrays in a namespace (\<open>ipc/sem.c\<close>): initialisation, lookup, \<open>semget\<close> and the removal
  of an array.

  A namespace keeps its arrays in the identifier set, the undo structures and the undo lists of
  process groups in stores, and the log of woken entries.  What the kernel decides outside
  \<open>ipc/sem.c\<close> (security hooks, memory allocation, access to user memory) is the record
  \<open>sem_hooks\<close>.  Where a handler drops its lock and takes it again, the argument \<open>other\<close> is what
  other tasks do to the namespace in between.
\<close>

section \<open>State\<close>

record sem_ns =
  ns_ids :: "unit sem_array_ext ipc_ids"
  ns_undo :: "addr \<Rightarrow> sem_undo option"
  ns_ulists :: "addr \<Rightarrow> sem_undo_list option"
  ns_task_ul :: "task \<Rightarrow> addr option"
  ns_wake :: "sem_queue list"
  used_sems :: int
  sc_semmsl :: int
  sc_semmns :: int
  sc_semopm :: int
  sc_semmni :: int

record sem_hooks =
  security_sem_alloc :: "kern_ipc_perm \<Rightarrow> errno option"
  security_sem_associate :: "kern_ipc_perm \<Rightarrow> u32 \<Rightarrow> errno option"
  security_sem_semctl :: "kern_ipc_perm option \<Rightarrow> ipc_cmd \<Rightarrow> errno option"
  security_sem_semop :: "kern_ipc_perm \<Rightarrow> sembuf list \<Rightarrow> bool \<Rightarrow> errno option"
  mem_ok :: bool
  ulist_mem_ok :: bool
  user_ok :: bool
  new_undo_addr :: addr
  new_ulist_addr :: addr
  pid_vnr :: "pid option \<Rightarrow> int"

record semid64_ds =
  s64_perm :: ipc64_perm
  s64_otime :: int
  s64_ctime :: int
  s64_nsems :: nat

record seminfo =
  semmap :: int
  semmni :: int
  semmns :: int
  semmnu :: int
  semmsl :: int
  semopm :: int
  semume :: int
  semusz :: int
  semvmx :: int
  semaem :: int

definition SEMMNI :: int where "SEMMNI = 32000"
definition SEMMSL :: int where "SEMMSL = 32000"
definition SEMMNS :: int where "SEMMNS = SEMMNI * SEMMSL"
definition SEMOPM :: int where "SEMOPM = 500"
definition SEMMNU :: int where "SEMMNU = SEMMNS"
definition SEMMAP :: int where "SEMMAP = SEMMNS"
definition SEMUME :: int where "SEMUME = SEMOPM"
definition SEMUSZ :: int where "SEMUSZ = 20"

declare SEMMNI_def [abi_defs] SEMMSL_def [abi_defs] SEMMNS_def [abi_defs] SEMOPM_def [abi_defs]

definition SEMMSL_FAST :: nat where "SEMMSL_FAST = 256"

definition sem_init_ns :: "sem_ns \<Rightarrow> sem_ns" where
  "sem_init_ns ns =
     ns\<lparr>sc_semmsl := SEMMSL, sc_semmns := SEMMNS, sc_semopm := SEMOPM, sc_semmni := SEMMNI,
        used_sems := 0, ns_ids := ipc_init_ids\<rparr>"

text \<open>
  The context of an array, and writing a context back to the namespace: the array is stored at
  its index as long as it is in the identifier set.
\<close>

definition ctx_of :: "sem_ns \<Rightarrow> sem_array \<Rightarrow> sem_ctx" where
  "ctx_of ns sma = \<lparr>c_sma = sma, c_undo = ns_undo ns, c_wake = []\<rparr>"

definition put_sma :: "ipc_cfg \<Rightarrow> sem_ns \<Rightarrow> sem_array \<Rightarrow> sem_ns" where
  "put_sma cfg ns sma =
     (if deleted sma then ns
      else ns\<lparr>ns_ids := put_obj (ns_ids ns) (ipcid_to_idx cfg (perm_id sma)) sma\<rparr>)"

definition put_ctx :: "ipc_cfg \<Rightarrow> sem_ns \<Rightarrow> sem_ctx \<Rightarrow> sem_ns" where
  "put_ctx cfg ns c =
     (put_sma cfg ns (c_sma c))\<lparr>ns_undo := c_undo c, ns_wake := ns_wake ns @ c_wake c\<rparr>"

text \<open>
  The array behind a pointer that was kept while the lock was dropped.  The array is recognised by
  its identifier: within one such window the sequence numbers of its index do not run through
  all their values.
\<close>

definition reget :: "ipc_cfg \<Rightarrow> sem_ns \<Rightarrow> sem_array \<Rightarrow> sem_array" where
  "reget cfg ns sma =
     (case ipcs_idr (ns_ids ns) (ipcid_to_idx cfg (perm_id sma)) of
        Some s \<Rightarrow> if perm_id s = perm_id sma then s else sma\<lparr>deleted := True\<rparr>
      | None \<Rightarrow> sma\<lparr>deleted := True\<rparr>)"

definition sem_obtain_object :: "ipc_cfg \<Rightarrow> sem_ns \<Rightarrow> int \<Rightarrow> errno + sem_array" where
  "sem_obtain_object cfg ns i = ipc_obtain_object_idr cfg (ns_ids ns) i"

definition sem_obtain_object_check :: "ipc_cfg \<Rightarrow> sem_ns \<Rightarrow> int \<Rightarrow> errno + sem_array" where
  "sem_obtain_object_check cfg ns i = ipc_obtain_object_check cfg (ns_ids ns) i"

definition sem_lock_and_putref :: "sem_array \<Rightarrow> sem_array" where
  "sem_lock_and_putref sma = snd (ipc_rcu_putref (sem_lock_all sma))"

definition sem_rmid :: "ipc_cfg \<Rightarrow> sem_ns \<Rightarrow> sem_array \<Rightarrow> sem_ns \<times> sem_array" where
  "sem_rmid cfg ns sma =
     (case ipc_rmid cfg (ns_ids ns) sma of (ids', sma') \<Rightarrow> (ns\<lparr>ns_ids := ids'\<rparr>, sma'))"

section \<open>Creation\<close>

text \<open>
  \<open>kvzalloc\<close> zeroes the structure; the bound on \<open>nsems\<close> is the one of the C expression with the
  sizes of the two structures as arguments.
\<close>

definition zero_sem :: sem where
  "zero_sem = \<lparr>semval = 0, sempid = None, sem_pending_alter = [], sem_pending_const = [], sem_otime = 0\<rparr>"

definition zero_sma :: "nat \<Rightarrow> sem_array" where
  "zero_sma n = kern_ipc_perm.extend
     \<lparr>deleted = False, perm_id = 0, key = 0, uid = 0, gid = 0, cuid = 0, cgid = 0, mode = 0,
      perm_seq = 0, refcount = 0\<rparr>
     \<lparr>sem_ctime = 0, pending_alter = [], pending_const = [], list_id = [], sem_nsems = 0,
      complex_count = 0, use_global_lock = 0, sems = replicate n zero_sem\<rparr>"

definition sem_alloc :: "int \<Rightarrow> int \<Rightarrow> bool \<Rightarrow> int \<Rightarrow> sem_array option" where
  "sem_alloc sizeof_sma sizeof_sem ok nsems =
     (if nsems > (2 ^ 31 - 1 - sizeof_sma) div sizeof_sem then None
      else if \<not> ok then None else Some (zero_sma (nat nsems)))"

definition newary ::
    "ipc_cfg \<Rightarrow> ipc_env \<Rightarrow> ipc_oracle \<Rightarrow> sem_hooks \<Rightarrow> int \<Rightarrow> int \<Rightarrow> sem_ns \<Rightarrow> ipc_params
       \<Rightarrow> (errno + int) \<times> sem_ns" where
  "newary cfg env orc hk sz_sma sz_sem ns params =
     (let nsems = par_nsems params
      in if nsems = 0 then (Inl EINVAL, ns)
         else if c_int (used_sems ns + nsems) > sc_semmns ns then (Inl ENOSPC, ns)
         else case sem_alloc sz_sma sz_sem (mem_ok hk) nsems of
           None \<Rightarrow> (Inl ENOMEM, ns)
         | Some sma0 \<Rightarrow>
             let sma1 = sma0\<lparr>mode := ucast (par_flg params) AND S_IRWXUGO, key := par_key params\<rparr>
             in case security_sem_alloc hk (perm_of sma1) of
                  Some e \<Rightarrow> (Inl e, ns)
                | None \<Rightarrow>
                    let sma2 = sma1\<lparr>complex_count := 0, use_global_lock := USE_GLOBAL_LOCK_HYSTERESIS,
                          pending_alter := [], pending_const := [], list_id := [],
                          sem_nsems := nat nsems, sem_ctime := ktime_get_real_seconds env\<rparr>
                    in case ipc_addid cfg env orc (ns_ids ns) sma2 (sc_semmni ns) of
                         (Inl e, ids1, sma3) \<Rightarrow> (Inl e, ns\<lparr>ns_ids := ids1\<rparr>)
                       | (Inr idx, ids1, sma3) \<Rightarrow>
                           let sma4 = sem_unlock sma3 SEM_GLOBAL_LOCK
                           in (Inr (perm_id sma4),
                               ns\<lparr>ns_ids := put_obj ids1 idx sma4, used_sems := used_sems ns + nsems\<rparr>))"

definition sem_more_checks :: "sem_array \<Rightarrow> ipc_params \<Rightarrow> errno option" where
  "sem_more_checks sma params = (if par_nsems params > int (sem_nsems sma) then Some EINVAL else None)"

definition ksys_semget ::
    "ipc_cfg \<Rightarrow> ipc_env \<Rightarrow> ipc_oracle \<Rightarrow> sem_hooks \<Rightarrow> int \<Rightarrow> int \<Rightarrow> sem_ns \<Rightarrow> int \<Rightarrow> int \<Rightarrow> u32
       \<Rightarrow> (errno + int) \<times> sem_ns" where
  "ksys_semget cfg env orc hk sz_sma sz_sem ns k nsems semflg =
     (if nsems < 0 \<or> nsems > sc_semmsl ns then (Inl EINVAL, ns)
      else ipcget env ns_ids (newary cfg env orc hk sz_sma sz_sem)
             (\<lambda>p. security_sem_associate hk (perm_of p)) (Some sem_more_checks)
             ns \<lparr>par_key = k, par_flg = semflg, par_nsems = nsems\<rparr>)"

section \<open>Removal\<close>

text \<open>\<open>freeary\<close> also takes the undo structures of the array off the lists of their processes.\<close>

definition unlink_proc :: "addr list \<Rightarrow> sem_ns \<Rightarrow> sem_ns" where
  "unlink_proc uns ns =
     ns\<lparr>ns_ulists := (\<lambda>u. map_option (\<lambda>l. l\<lparr>list_proc := filter (\<lambda>a. a \<notin> set uns) (list_proc l)\<rparr>) (ns_ulists ns u))\<rparr>"

definition freeary :: "ipc_cfg \<Rightarrow> sem_ns \<Rightarrow> sem_array \<Rightarrow> sem_ns" where
  "freeary cfg ns sma =
     (let c1 = freeary_locked (ctx_of ns sma);
          ns1 = unlink_proc (list_id sma) ns;
          ns2 = ns1\<lparr>ns_undo := c_undo c1, ns_wake := ns_wake ns1 @ c_wake c1\<rparr>;
          (ns3, sma1) = sem_rmid cfg ns2 (c_sma c1)
      in ns3\<lparr>used_sems := used_sems ns3 - int (sem_nsems sma1)\<rparr>)"

end
