(* ===== verification/Sem_Ctl.thy ===== *)
theory Sem_Ctl
  imports Sem_Syscall
begin

text \<open>
  \<open>semctl\<close> of \<open>ipc/sem.c\<close>: status, limits, reading and setting of values, permissions and removal.
  A handler returns the result of the system call, what it copies to user memory, and the
  namespace.  \<open>usr\<close> are the \<open>ushort\<close> values at the user's pointer.
\<close>

section \<open>Status and limits\<close>

datatype sem_out =
    NoOut | OutSemid64 semid64_ds | OutSemidOld semid64_ds | OutSeminfo seminfo | OutArray "u16 list"

datatype ipc_version = IPC_OLD | IPC_64 | OtherVersion

text \<open>
  \<open>Inl\<close> is a non-zero result, which \<open>ksys_semctl\<close> turns into \<open>EFAULT\<close> whatever it is; the old
  layout carries the same fields in the types of the architecture.
\<close>

definition copy_semid_to_user :: "sem_hooks \<Rightarrow> semid64_ds \<Rightarrow> ipc_version \<Rightarrow> errno + sem_out" where
  "copy_semid_to_user hk ds version =
     (case version of
        IPC_64 \<Rightarrow> if user_ok hk then Inr (OutSemid64 ds) else Inl EFAULT
      | IPC_OLD \<Rightarrow> if user_ok hk then Inr (OutSemidOld ds) else Inl EFAULT
      | OtherVersion \<Rightarrow> Inl EINVAL)"

definition copy_semid_from_user :: "sem_hooks \<Rightarrow> ipc64_perm \<Rightarrow> ipc_version \<Rightarrow> errno + ipc64_perm" where
  "copy_semid_from_user hk usr_perm version =
     (case version of
        IPC_64 \<Rightarrow> if user_ok hk then Inr usr_perm else Inl EFAULT
      | IPC_OLD \<Rightarrow> if user_ok hk then Inr usr_perm else Inl EFAULT
      | OtherVersion \<Rightarrow> Inl EINVAL)"

definition get_semotime :: "sem_array \<Rightarrow> int" where
  "get_semotime sma =
     fold (\<lambda>i res. let to = sem_otime (sems sma ! i) in if to > res then to else res)
       [1..<sem_nsems sma] (sem_otime (sems sma ! 0))"

definition semctl_stat ::
    "ipc_cfg \<Rightarrow> ipc_env \<Rightarrow> sem_hooks \<Rightarrow> sem_ns \<Rightarrow> int \<Rightarrow> ipc_cmd \<Rightarrow> errno + int \<times> semid64_ds" where
  "semctl_stat cfg env hk ns semid cmd =
     (case (if cmd = SEM_STAT \<or> cmd = SEM_STAT_ANY then sem_obtain_object cfg ns semid
            else sem_obtain_object_check cfg ns semid) of
        Inl e \<Rightarrow> Inl e
      | Inr sma \<Rightarrow>
          if cmd \<noteq> SEM_STAT_ANY \<and> ipcperms env sma S_IRUGO \<noteq> None then Inl EACCES
          else case security_sem_semctl hk (Some (perm_of sma)) cmd of
                 Some e \<Rightarrow> Inl e
               | None \<Rightarrow>
                   if \<not> ipc_valid_object cfg (perm_of sma) then Inl EIDRM
                   else Inr (if cmd = IPC_STAT then 0 else perm_id sma,
                             \<lparr>s64_perm = kernel_to_ipc64_perm env sma, s64_otime = get_semotime sma,
                              s64_ctime = sem_ctime sma, s64_nsems = sem_nsems sma\<rparr>))"

definition semctl_info ::
    "ipc_cfg \<Rightarrow> sem_hooks \<Rightarrow> sem_ns \<Rightarrow> ipc_cmd \<Rightarrow> errno + int \<times> seminfo" where
  "semctl_info cfg hk ns cmd =
     (case security_sem_semctl hk None cmd of
        Some e \<Rightarrow> Inl e
      | None \<Rightarrow>
          let info = \<lparr>semmap = SEMMAP, semmni = sc_semmni ns, semmns = sc_semmns ns, semmnu = SEMMNU,
                      semmsl = sc_semmsl ns, semopm = sc_semopm ns, semume = SEMUME,
                      semusz = (if cmd = SEM_INFO then in_use (ns_ids ns) else SEMUSZ),
                      semvmx = SEMVMX,
                      semaem = (if cmd = SEM_INFO then used_sems ns else SEMAEM)\<rparr>;
              max_i = ipc_get_maxidx cfg (in_use (ns_ids ns)) (max_idx (ns_ids ns))
          in if \<not> user_ok hk then Inl EFAULT
             else Inr (if max_i < 0 then 0 else max_i, info))"

section \<open>Values\<close>

definition semctl_setval ::
    "ipc_cfg \<Rightarrow> ipc_env \<Rightarrow> sem_hooks \<Rightarrow> sem_ns \<Rightarrow> int \<Rightarrow> int \<Rightarrow> int \<Rightarrow> (errno + int) \<times> sem_ns" where
  "semctl_setval cfg env hk ns semid semnum val =
     (if val > SEMVMX \<or> val < 0 then (Inl ERANGE, ns)
      else case sem_obtain_object_check cfg ns semid of
        Inl e \<Rightarrow> (Inl e, ns)
      | Inr sma \<Rightarrow>
          if semnum < 0 \<or> semnum \<ge> int (sem_nsems sma) then (Inl EINVAL, ns)
          else if ipcperms env sma S_IWUGO \<noteq> None then (Inl EACCES, ns)
          else if security_sem_semctl hk (Some (perm_of sma)) SETVAL \<noteq> None then (Inl EACCES, ns)
          else
            let sma1 = sem_lock_all sma
            in if \<not> ipc_valid_object cfg (perm_of sma1)
               then (Inl EIDRM, put_sma cfg ns (sem_unlock sma1 SEM_GLOBAL_LOCK))
               else (Inr 0,
                     put_ctx cfg ns
                       (setval_locked (ktime_get_real_seconds env) (current_tgid env) (nat semnum) val
                          (ctx_of ns sma1))))"

text \<open>
  \<open>semctl_main\<close> drops everything but a reference while it allocates the buffer and copies from
  user memory.  \<open>sem_io\<close> is an array of \<open>ushort\<close>, so values are stored modulo \<open>2 ^ 16\<close>;
  a buffer of the user that is too short makes the copy fail.
\<close>

definition getall ::
    "ipc_cfg \<Rightarrow> sem_hooks \<Rightarrow> (sem_ns \<Rightarrow> sem_ns) \<Rightarrow> sem_ns \<Rightarrow> sem_array
       \<Rightarrow> (errno + int) \<times> sem_out \<times> sem_ns" where
  "getall cfg hk other ns sma =
     (let finish = (\<lambda>ns sma.
            (if user_ok hk then Inr 0 else Inl EFAULT,
             if user_ok hk
             then OutArray (map (\<lambda>i. word_of_int (semval (sems sma ! i))) [0..<sem_nsems sma]) else NoOut,
             put_sma cfg ns (sem_unlock sma SEM_GLOBAL_LOCK)));
          fail = (\<lambda>ns sma. (Inl EIDRM, NoOut, put_sma cfg ns (sem_unlock sma SEM_GLOBAL_LOCK)));
          sma1 = sem_lock_all sma
      in if \<not> ipc_valid_object cfg (perm_of sma1) then fail ns sma1
         else if sem_nsems sma > SEMMSL_FAST
         then case ipc_rcu_getref sma1 of
                (False, sma2) \<Rightarrow> fail ns sma2
              | (True, sma2) \<Rightarrow>
                  let ns1 = other (put_sma cfg ns (sem_unlock sma2 SEM_GLOBAL_LOCK));
                      sma3 = reget cfg ns1 sma2
                  in if \<not> mem_ok hk then (Inl ENOMEM, NoOut, put_sma cfg ns1 (snd (ipc_rcu_putref sma3)))
                     else let sma4 = sem_lock_and_putref sma3
                          in if \<not> ipc_valid_object cfg (perm_of sma4) then fail ns1 sma4
                             else finish ns1 sma4
         else finish ns sma1)"

definition setall ::
    "ipc_cfg \<Rightarrow> ipc_env \<Rightarrow> sem_hooks \<Rightarrow> (sem_ns \<Rightarrow> sem_ns) \<Rightarrow> sem_ns \<Rightarrow> sem_array \<Rightarrow> u16 list
       \<Rightarrow> (errno + int) \<times> sem_out \<times> sem_ns" where
  "setall cfg env hk other ns sma usr =
     (case ipc_rcu_getref sma of
        (False, sma1) \<Rightarrow> (Inl EIDRM, NoOut, ns)
      | (True, sma1) \<Rightarrow>
          let nsems = sem_nsems sma;
              ns1 = other (put_sma cfg ns sma1);
              sma2 = reget cfg ns1 sma1;
              drop_ref = (\<lambda>e. (Inl e, NoOut, put_sma cfg ns1 (snd (ipc_rcu_putref sma2))))
          in if nsems > SEMMSL_FAST \<and> \<not> mem_ok hk then drop_ref ENOMEM
             else if \<not> user_ok hk \<or> length usr < nsems then drop_ref EFAULT
             else if \<exists>v \<in> set (take nsems usr). uint v > SEMVMX then drop_ref ERANGE
             else let sma3 = sem_lock_and_putref sma2
                  in if \<not> ipc_valid_object cfg (perm_of sma3)
                     then (Inl EIDRM, NoOut, put_sma cfg ns1 (sem_unlock sma3 SEM_GLOBAL_LOCK))
                     else (Inr 0, NoOut,
                           put_ctx cfg ns1
                             (setall_locked (ktime_get_real_seconds env) (current_tgid env) (map uint (take nsems usr))
                                (ctx_of ns1 sma3))))"

definition semctl_main ::
    "ipc_cfg \<Rightarrow> ipc_env \<Rightarrow> sem_hooks \<Rightarrow> (sem_ns \<Rightarrow> sem_ns) \<Rightarrow> sem_ns \<Rightarrow> int \<Rightarrow> int \<Rightarrow> ipc_cmd \<Rightarrow> u16 list
       \<Rightarrow> (errno + int) \<times> sem_out \<times> sem_ns" where
  "semctl_main cfg env hk other ns semid semnum cmd usr =
     (case sem_obtain_object_check cfg ns semid of
        Inl e \<Rightarrow> (Inl e, NoOut, ns)
      | Inr sma \<Rightarrow>
          if ipcperms env sma (if cmd = SETALL then S_IWUGO else S_IRUGO) \<noteq> None then (Inl EACCES, NoOut, ns)
          else case security_sem_semctl hk (Some (perm_of sma)) cmd of
            Some e \<Rightarrow> (Inl e, NoOut, ns)
          | None \<Rightarrow>
              if cmd = GETALL then getall cfg hk other ns sma
              else if cmd = SETALL then setall cfg env hk other ns sma usr
              else if semnum < 0 \<or> semnum \<ge> int (sem_nsems sma) then (Inl EINVAL, NoOut, ns)
              else
                let sma1 = sem_lock_all sma;
                    i = array_index_nospec (nat semnum) (sem_nsems sma);
                    curr = sems sma1 ! i;
                    ns1 = put_sma cfg ns (sem_unlock sma1 SEM_GLOBAL_LOCK)
                in if \<not> ipc_valid_object cfg (perm_of sma1) then (Inl EIDRM, NoOut, ns1)
                   else ((case cmd of
                            GETVAL \<Rightarrow> Inr (semval curr)
                          | GETPID \<Rightarrow> Inr (pid_vnr hk (sempid curr))
                          | GETNCNT \<Rightarrow> Inr (int (count_semcnt sma1 i False))
                          | GETZCNT \<Rightarrow> Inr (int (count_semcnt sma1 i True))
                          | _ \<Rightarrow> Inl EINVAL), NoOut, ns1))"

section \<open>Permissions, removal and the dispatcher\<close>

definition semctl_down ::
    "ipc_cfg \<Rightarrow> ipc_env \<Rightarrow> sem_hooks \<Rightarrow> sem_ns \<Rightarrow> int \<Rightarrow> ipc_cmd \<Rightarrow> ipc64_perm \<Rightarrow> (errno + int) \<times> sem_ns" where
  "semctl_down cfg env hk ns semid cmd perm64 =
     (case ipcctl_obtain_check cfg env (ns_ids ns) semid of
        Inl e \<Rightarrow> (Inl e, ns)
      | Inr sma \<Rightarrow>
          case security_sem_semctl hk (Some (perm_of sma)) cmd of
            Some e \<Rightarrow> (Inl e, ns)
          | None \<Rightarrow>
              (case cmd of
                 IPC_RMID \<Rightarrow> (Inr 0, freeary cfg ns (sem_lock_all sma))
               | IPC_SET \<Rightarrow>
                   let sma1 = sem_lock_all sma
                   in (case ipc_update_perm env perm64 sma1 of
                         Inl e \<Rightarrow> (Inl e, put_sma cfg ns (sem_unlock sma1 SEM_GLOBAL_LOCK))
                       | Inr sma2 \<Rightarrow>
                           (Inr 0, put_sma cfg ns
                              (sem_unlock (sma2\<lparr>sem_ctime := ktime_get_real_seconds env\<rparr>) SEM_GLOBAL_LOCK)))
               | _ \<Rightarrow> (Inl EINVAL, ns)))"

text \<open>
  \<open>arg\<close> is the fourth argument of the call, an \<open>unsigned long\<close>: as \<open>val\<close> it is converted to \<open>int\<close>
  (the machine is little-endian), as a pointer it reaches \<open>usr_vals\<close> or \<open>usr_perm\<close>.
\<close>

definition ksys_semctl ::
    "ipc_cfg \<Rightarrow> ipc_env \<Rightarrow> sem_hooks \<Rightarrow> (sem_ns \<Rightarrow> sem_ns) \<Rightarrow> sem_ns \<Rightarrow> int \<Rightarrow> int \<Rightarrow> ipc_cmd \<Rightarrow> u64
       \<Rightarrow> u16 list \<Rightarrow> ipc64_perm \<Rightarrow> ipc_version \<Rightarrow> (errno + int) \<times> sem_out \<times> sem_ns" where
  "ksys_semctl cfg env hk other ns semid semnum cmd arg usr_vals usr_perm version =
     (if semid < 0 then (Inl EINVAL, NoOut, ns)
      else if cmd \<in> {IPC_INFO, SEM_INFO}
      then (case semctl_info cfg hk ns cmd of
              Inl e \<Rightarrow> (Inl e, NoOut, ns) | Inr (r, info) \<Rightarrow> (Inr r, OutSeminfo info, ns))
      else if cmd \<in> {IPC_STAT, SEM_STAT, SEM_STAT_ANY}
      then (case semctl_stat cfg env hk ns semid cmd of
              Inl e \<Rightarrow> (Inl e, NoOut, ns)
            | Inr (r, ds) \<Rightarrow>
                (case copy_semid_to_user hk ds version of
                   Inl _ \<Rightarrow> (Inl EFAULT, NoOut, ns) | Inr out \<Rightarrow> (Inr r, out, ns)))
      else if cmd \<in> {GETALL, GETVAL, GETPID, GETNCNT, GETZCNT, SETALL}
      then semctl_main cfg env hk other ns semid semnum cmd usr_vals
      else if cmd = SETVAL
      then (case semctl_setval cfg env hk ns semid semnum (c_int (uint arg)) of (r, ns1) \<Rightarrow> (r, NoOut, ns1))
      else if cmd = IPC_SET
      then (case copy_semid_from_user hk usr_perm version of
              Inl _ \<Rightarrow> (Inl EFAULT, NoOut, ns)
            | Inr perm64 \<Rightarrow> (case semctl_down cfg env hk ns semid cmd perm64 of (r, ns1) \<Rightarrow> (r, NoOut, ns1)))
      else if cmd = IPC_RMID
      then (case semctl_down cfg env hk ns semid cmd usr_perm of (r, ns1) \<Rightarrow> (r, NoOut, ns1))
      else (Inl EINVAL, NoOut, ns))"

end
