(* ===== verification/Sem_Undo.thy ===== *)
theory Sem_Undo
  imports Sem_Ctl
begin

text \<open>
  Undo structures and the entry of \<open>semtimedop\<close> (\<open>ipc/sem.c\<close>): the undo list of a process group, the
  search for the undo structure of an array, the unlocked part of \<open>do_semtimedop\<close>, sharing at
  \<open>clone\<close> and the adjustments at process exit.

  An undo structure is on the list of its process group (\<open>list_proc\<close>) and on the list of its
  array (\<open>list_id\<close>).  The store keeps structures that \<open>kfree_rcu\<close> frees; nothing links them any more.
\<close>

section \<open>Undo lists\<close>

definition get_undo_list :: "sem_hooks \<Rightarrow> task \<Rightarrow> sem_ns \<Rightarrow> (errno + addr) \<times> sem_ns" where
  "get_undo_list hk current ns =
     (case ns_task_ul ns current of
        Some ulp \<Rightarrow> (Inr ulp, ns)
      | None \<Rightarrow>
          if \<not> ulist_mem_ok hk then (Inl ENOMEM, ns)
          else let ulp = new_ulist_addr hk
               in (Inr ulp,
                   ns\<lparr>ns_ulists := (ns_ulists ns)(ulp \<mapsto> \<lparr>refcnt = 1, list_proc = []\<rparr>),
                      ns_task_ul := (ns_task_ul ns)(current \<mapsto> ulp)\<rparr>))"

text \<open>\<open>__lookup_undo\<close> walks the list of the process group.\<close>

fun lookup_undo_walk :: "(addr \<Rightarrow> sem_undo option) \<Rightarrow> int \<Rightarrow> addr list \<Rightarrow> addr option" where
  "lookup_undo_walk undo semid [] = None"
| "lookup_undo_walk undo semid (un # rest) =
     (if un_semid (the (undo un)) = semid then Some un else lookup_undo_walk undo semid rest)"

definition proc_of :: "sem_ns \<Rightarrow> addr \<Rightarrow> addr list" where
  "proc_of ns ulp = list_proc (the (ns_ulists ns ulp))"

definition set_proc :: "addr \<Rightarrow> addr list \<Rightarrow> sem_ns \<Rightarrow> sem_ns" where
  "set_proc ulp l ns =
     ns\<lparr>ns_ulists := (ns_ulists ns)(ulp \<mapsto> (the (ns_ulists ns ulp))\<lparr>list_proc := l\<rparr>)\<rparr>"

definition lookup_undo :: "addr \<Rightarrow> int \<Rightarrow> sem_ns \<Rightarrow> addr option \<times> sem_ns" where
  "lookup_undo ulp semid ns =
     (case lookup_undo_walk (ns_undo ns) semid (proc_of ns ulp) of
        None \<Rightarrow> (None, ns)
      | Some un \<Rightarrow> (Some un, set_proc ulp (un # remove1 un (proc_of ns ulp)) ns))"

definition find_alloc_undo ::
    "ipc_cfg \<Rightarrow> ipc_env \<Rightarrow> sem_hooks \<Rightarrow> (sem_ns \<Rightarrow> sem_ns) \<Rightarrow> sem_ns \<Rightarrow> int \<Rightarrow> (errno + addr) \<times> sem_ns" where
  "find_alloc_undo cfg env hk other ns semid =
     (case get_undo_list hk (current_task env) ns of
        (Inl e, ns1) \<Rightarrow> (Inl e, ns1)
      | (Inr ulp, ns1) \<Rightarrow>
          case lookup_undo ulp semid ns1 of
            (Some un, ns2) \<Rightarrow> (Inr un, ns2)
          | (None, ns2) \<Rightarrow>
              case sem_obtain_object_check cfg ns2 semid of
                Inl e \<Rightarrow> (Inl e, ns2)
              | Inr sma \<Rightarrow>
                  case ipc_rcu_getref sma of
                    (False, sma1) \<Rightarrow> (Inl EIDRM, ns2)
                  | (True, sma1) \<Rightarrow>
                      let ns3 = other (put_sma cfg ns2 sma1);
                          sma2 = reget cfg ns3 sma1
                      in if \<not> mem_ok hk then (Inl ENOMEM, put_sma cfg ns3 (snd (ipc_rcu_putref sma2)))
                         else
                           let sma3 = sem_lock_and_putref sma2
                           in if \<not> ipc_valid_object cfg (perm_of sma3)
                              then (Inl EIDRM, put_sma cfg ns3 (sem_unlock sma3 SEM_GLOBAL_LOCK))
                              else case lookup_undo ulp semid ns3 of
                                (Some un, ns4) \<Rightarrow> (Inr un, put_sma cfg ns4 (sem_unlock sma3 SEM_GLOBAL_LOCK))
                              | (None, ns4) \<Rightarrow>
                                  let new = new_undo_addr hk;
                                      ns5 = set_proc ulp (new # proc_of ns4 ulp) ns4
                                  in (Inr new,
                                      put_ctx cfg ns5
                                        (unlock_ctx SEM_GLOBAL_LOCK (link_undo new ulp semid (ctx_of ns5 sma3)))))"

section \<open>The entry of semtimedop\<close>

definition SEMOPM_FAST :: nat where "SEMOPM_FAST = 64"

text \<open>
  \<open>tsops\<close> is what the user's pointer reaches; \<open>timeout\<close> are its seconds and nanoseconds.  \<open>other1\<close>
  runs while \<open>find_alloc_undo\<close> holds no lock, \<open>other2\<close> between the search for the undo structure and
  the lock of the array.  \<open>nsops\<close> is compared with \<open>sc_semopm\<close> as an unsigned number.
\<close>

definition do_semtimedop ::
    "ipc_cfg \<Rightarrow> ipc_env \<Rightarrow> sem_hooks \<Rightarrow> (sem_ns \<Rightarrow> sem_ns) \<Rightarrow> (sem_ns \<Rightarrow> sem_ns) \<Rightarrow> u32 \<Rightarrow> u32
       \<Rightarrow> sem_ns \<Rightarrow> int \<Rightarrow> sembuf list \<Rightarrow> nat \<Rightarrow> (int \<times> int) option \<Rightarrow> semop_outcome \<times> sem_ns" where
  "do_semtimedop cfg env hk other1 other2 r1 r2 ns semid tsops n timeout =
     (if n < 1 \<or> semid < 0 then (Returned (Some EINVAL), ns)
      else if int n > sc_semopm ns mod 2 ^ 32 then (Returned (Some E2BIG), ns)
      else if n > SEMOPM_FAST \<and> \<not> mem_ok hk then (Returned (Some ENOMEM), ns)
      else if \<not> user_ok hk \<or> length tsops < n then (Returned (Some EFAULT), ns)
      else if (case timeout of None \<Rightarrow> False
               | Some (tv_sec, tv_nsec) \<Rightarrow> tv_sec < 0 \<or> tv_nsec < 0 \<or> tv_nsec \<ge> 1000000000)
      then (Returned (Some EINVAL), ns)
      else
        let sops = take n tsops;
            sc = scan_sops sops;
            start = (\<lambda>un ns1.
              case sem_obtain_object_check cfg ns1 semid of
                Inl e \<Rightarrow> (Returned (Some e), ns1)
              | Inr sma \<Rightarrow>
                  if sc_max sc \<ge> sem_nsems sma then (Returned (Some EFBIG), ns1)
                  else if ipcperms env sma (if sc_alter sc then S_IWUGO else S_IRUGO) \<noteq> None
                  then (Returned (Some EACCES), ns1)
                  else case security_sem_semop hk (perm_of sma) sops (sc_alter sc) of
                    Some e \<Rightarrow> (Returned (Some e), ns1)
                  | None \<Rightarrow>
                      let queue = \<lparr>q_sleeper = current_task env, q_undo = un, q_pid = current_tgid env,
                                   q_status = Some EINTR, q_sops = sops, q_blocking = None,
                                   q_alter = sc_alter sc, q_dupsop = sc_dupsop sc\<rparr>
                      in case semtimedop_start cfg (ktime_get_real_seconds env) (current_task env) r1 r2 queue
                                (ctx_of ns1 sma) of
                           (out, c) \<Rightarrow> (out, put_ctx cfg ns1 c))
        in if sc_undos sc
           then (case find_alloc_undo cfg env hk other1 ns semid of
                   (Inl e, ns1) \<Rightarrow> (Returned (Some e), ns1)
                 | (Inr un, ns1) \<Rightarrow> start (Some un) (other2 ns1))
           else start None ns)"

section \<open>Sharing at clone, adjustments at exit\<close>

definition copy_semundo :: "sem_hooks \<Rightarrow> task \<Rightarrow> bool \<Rightarrow> task \<Rightarrow> sem_ns \<Rightarrow> errno option \<times> sem_ns" where
  "copy_semundo hk current clone_sysvsem tsk ns =
     (if clone_sysvsem
      then case get_undo_list hk current ns of
             (Inl e, ns1) \<Rightarrow> (Some e, ns1)
           | (Inr ulp, ns1) \<Rightarrow>
               let l = the (ns_ulists ns1 ulp)
               in (None, ns1\<lparr>ns_ulists := (ns_ulists ns1)(ulp \<mapsto> l\<lparr>refcnt := refcnt l + 1\<rparr>),
                             ns_task_ul := (ns_task_ul ns1)(tsk \<mapsto> ulp)\<rparr>)
      else (None, ns\<lparr>ns_task_ul := (ns_task_ul ns)(tsk := None)\<rparr>))"

text \<open>
  One turn of the loop of \<open>exit_sem\<close>: \<open>None\<close> when the list is empty.  Where the C code says
  \<open>continue\<close> the turn changes nothing but the lock state of the array; the list is expected to
  change by the removal that runs in parallel.
\<close>

definition exit_sem_turn :: "ipc_cfg \<Rightarrow> int \<Rightarrow> pid \<Rightarrow> addr \<Rightarrow> sem_ns \<Rightarrow> sem_ns option" where
  "exit_sem_turn cfg now tgid ulp ns =
     (case proc_of ns ulp of
        [] \<Rightarrow> None
      | first # _ \<Rightarrow>
          let semid = un_semid (the (ns_undo ns first))
          in if semid = -1 then Some ns
             else case sem_obtain_object_check cfg ns semid of
                    Inl _ \<Rightarrow> Some ns
                  | Inr sma \<Rightarrow>
                      let sma1 = sem_lock_all sma
                      in if \<not> ipc_valid_object cfg (perm_of sma1)
                         then Some (put_sma cfg ns (sem_unlock sma1 SEM_GLOBAL_LOCK))
                         else case lookup_undo_walk (ns_undo ns) semid (proc_of ns ulp) of
                           None \<Rightarrow> Some (put_sma cfg ns (sem_unlock sma1 SEM_GLOBAL_LOCK))
                         | Some un \<Rightarrow>
                             let ns1 = set_proc ulp (remove1 un (proc_of ns ulp)) ns
                             in Some (put_ctx cfg ns1 (exit_sem_locked now tgid un (ctx_of ns1 sma1))))"

partial_function (option) exit_sem_loop ::
    "ipc_cfg \<Rightarrow> int \<Rightarrow> pid \<Rightarrow> addr \<Rightarrow> sem_ns \<Rightarrow> sem_ns option" where
  "exit_sem_loop cfg now tgid ulp ns =
     (case exit_sem_turn cfg now tgid ulp ns of
        None \<Rightarrow> Some (ns\<lparr>ns_ulists := (ns_ulists ns)(ulp := None)\<rparr>)
      | Some ns1 \<Rightarrow> exit_sem_loop cfg now tgid ulp ns1)"

definition exit_sem :: "ipc_cfg \<Rightarrow> int \<Rightarrow> pid \<Rightarrow> task \<Rightarrow> sem_ns \<Rightarrow> sem_ns option" where
  "exit_sem cfg now tgid tsk ns =
     (case ns_task_ul ns tsk of
        None \<Rightarrow> Some ns
      | Some ulp \<Rightarrow>
          let ns1 = ns\<lparr>ns_task_ul := (ns_task_ul ns)(tsk := None)\<rparr>;
              l = the (ns_ulists ns1 ulp);
              ns2 = ns1\<lparr>ns_ulists := (ns_ulists ns1)(ulp \<mapsto> l\<lparr>refcnt := refcnt l - 1\<rparr>)\<rparr>
          in if refcnt l - 1 \<noteq> 0 then Some ns2 else exit_sem_loop cfg now tgid ulp ns2)"

end
