(* ===== verification/Sem_Namespace.thy ===== *)
theory Sem_Namespace
  imports Sem_Undo
begin

text \<open>
  The invariant of a namespace of semaphore arrays: the identifier set is well formed, the undo
  structures that an array lists are exactly those its users list, an undo list has as many
  references as tasks that use it, and \<open>used_sems\<close> counts the semaphores.  Every system call
  keeps it, so the loop of \<open>exit_sem\<close> ends and leaves no adjustment of the exiting process group behind.
\<close>

section \<open>What handlers keep\<close>

definition kept :: "sem_ctx \<Rightarrow> sem_ctx \<Rightarrow> bool" where
  "kept c c' \<longleftrightarrow> head_of (c_sma c') = head_of (c_sma c) \<and> undo_kept (c_undo c) (c_undo c')"

lemma kept_refl [simp]: "kept c c"
  by (simp add: kept_def)

lemma kept_trans: "kept c c' \<Longrightarrow> kept c' c'' \<Longrightarrow> kept c c''"
  by (auto simp: kept_def intro: undo_kept_trans)

lemma kept_fewer: "fewer g c c' \<Longrightarrow> kept c c'"
  by (simp add: kept_def head_of_fewer) (simp add: fewer_def)

lemma kept_sma: "head_of sma = head_of (c_sma c) \<Longrightarrow> kept c (c\<lparr>c_sma := sma\<rparr>)"
  by (simp add: kept_def)

lemma kept_unlock [simp]: "kept c (unlock_ctx k c)"
  by (rule kept_sma) simp

lemma kept_smart_update [simp]: "kept c (do_smart_update now sops ot c)" "kept c (set_semotime now sops c)"
  using kept_fewer [OF fewer_do_smart_update [of False c _ now sops ot]] kept_fewer [OF fewer_set_semotime]
  by simp_all

lemma kept_basic [simp]:
  "kept c (set_semval i v c)" "kept c (set_semadj un i v c)" "kept c (ipc_update_pid i p c)"
  using kept_fewer [OF fewer_basic(1)] kept_fewer [OF fewer_basic(2)] kept_fewer [OF fewer_basic(3)] by blast+

lemma kept_ctime [simp]: "kept c (c\<lparr>c_sma := (c_sma c)\<lparr>sem_ctime := t\<rparr>\<rparr>)"
  by (rule kept_sma) (simp add: head_of_def)

lemma kept_fold: "(\<And>x c. kept c (f x c)) \<Longrightarrow> kept c (fold f xs c)"
  by (induction xs arbitrary: c) (auto intro: kept_trans)

lemma kept_setval: "kept c (setval_locked now tgid i v c)"
proof -
  have "kept c (clear_semadj j l c)" for j l unfolding clear_semadj_def by (rule kept_fold) simp
  from kept_trans [OF kept_trans [OF kept_trans [OF kept_trans [OF kept_trans [OF this kept_basic(1)]
      kept_basic(3)] kept_ctime] kept_smart_update(1)] kept_unlock]
  show ?thesis unfolding setval_locked_def Let_def .
qed

lemma kept_setall: "kept c (setall_locked now tgid sem_io c)"
proof -
  define c1 where "c1 = setall_values tgid sem_io [0..<c_nsems c] c"
  define c2 where "c2 = fold (\<lambda>un. fold (\<lambda>i. set_semadj (Some un) i 0) [0..<c_nsems c]) (list_id (c_sma c1)) c1"
  have "kept c c1" unfolding c1_def setall_values_def
    by (rule kept_fold) (rule kept_trans [OF kept_basic(1,3)])
  moreover have "kept c1 c2" unfolding c2_def by (rule kept_fold) (rule kept_fold, simp)
  moreover have "kept c2 (setall_locked now tgid sem_io c)"
    unfolding setall_locked_def Let_def c1_def [symmetric] c2_def [symmetric]
    by (rule kept_trans [OF kept_trans [OF kept_ctime kept_smart_update(1)] kept_unlock])
  ultimately show ?thesis by (blast intro: kept_trans)
qed

lemma kept_semtimedop_locked:
  assumes "semtimedop_locked cfg now t k r c = (out, c')" shows "kept c c'"
proof -
  obtain res q1 c1 where p: "perform_atomic_semop c r = (res, q1, c1)" by (metis prod_cases3)
  have k: "kept c c1" by (rule kept_fewer [OF fewer_perform [OF p, of False]])
  have u: "undo_kept (c_undo c) (c_undo (do_smart_update now sops ot c1))"
    "undo_kept (c_undo c) (c_undo (set_semotime now sops c1))" for sops ot
    using kept_trans [OF k kept_smart_update(1)] kept_trans [OF k kept_smart_update(2)] by (simp_all add: kept_def)
  show ?thesis
    using assms k u by (cases res) (auto simp: semtimedop_locked_def p Let_def kept_def split: if_splits)
qed

lemma kept_semtimedop_start:
  assumes "semtimedop_start cfg now t r1 r2 q c = (out, c')" shows "kept c c'"
proof -
  obtain k sma where s: "sem_lock r1 r2 (c_sma c) (q_sops q) (int (nsops q)) = (k, sma)" by force
  have "kept c (c\<lparr>c_sma := sma\<rparr>)" by (rule kept_sma [OF head_of_lock [OF s]])
  with assms show ?thesis using kept_semtimedop_locked kept_trans by (force simp: semtimedop_start_def s)
qed

lemma head_of_lock_all [simp]: "head_of (sem_lock_all sma) = head_of sma"
  using head_of_lock [of 0 0 sma "[]" "-1"] by (metis prod.collapse sem_lock_all_def)

section \<open>The invariant\<close>

abbreviation arr :: "sem_ns \<Rightarrow> int \<Rightarrow> sem_array option" where
  "arr ns \<equiv> ipcs_idr (ns_ids ns)"

definition procs :: "sem_ns \<Rightarrow> addr \<Rightarrow> addr list" where
  "procs ns u = (case ns_ulists ns u of None \<Rightarrow> [] | Some l \<Rightarrow> list_proc l)"

text \<open>Both lists an undo structure is on agree, and a process group has one structure per array.\<close>

definition undo_links :: "sem_ns \<Rightarrow> bool" where
  "undo_links ns \<longleftrightarrow>
     (\<forall>i sma. arr ns i = Some sma \<longrightarrow> distinct (list_id sma)) \<and>
     (\<forall>u. distinct (procs ns u)) \<and>
     (\<forall>i sma a. arr ns i = Some sma \<longrightarrow> a \<in> set (list_id sma) \<longrightarrow>
        (\<exists>un. ns_undo ns a = Some un \<and> un_semid un = perm_id sma \<and> a \<in> set (procs ns (un_ulp un)))) \<and>
     (\<forall>u a. a \<in> set (procs ns u) \<longrightarrow>
        (\<exists>un i sma. ns_undo ns a = Some un \<and> un_ulp un = u \<and> arr ns i = Some sma \<and>
           un_semid un = perm_id sma \<and> a \<in> set (list_id sma))) \<and>
     (\<forall>u a b. a \<in> set (procs ns u) \<longrightarrow> b \<in> set (procs ns u) \<longrightarrow>
        un_semid (the (ns_undo ns a)) = un_semid (the (ns_undo ns b)) \<longrightarrow> a = b)"

lemma undo_linksD:
  assumes "undo_links ns"
  shows "arr ns i = Some sma \<Longrightarrow> distinct (list_id sma)" and "distinct (procs ns u)"
    and "a \<in> set (procs ns u) \<Longrightarrow> b \<in> set (procs ns u) \<Longrightarrow>
      un_semid (the (ns_undo ns a)) = un_semid (the (ns_undo ns b)) \<Longrightarrow> a = b"
  using assms unfolding undo_links_def by blast+

lemma links_arrE:
  assumes "undo_links ns" and "arr ns i = Some sma" and "a \<in> set (list_id sma)"
  obtains un where "ns_undo ns a = Some un" and "un_semid un = perm_id sma" and "a \<in> set (procs ns (un_ulp un))"
  using assms unfolding undo_links_def by blast

lemma links_procE:
  assumes "undo_links ns" and "a \<in> set (procs ns u)"
  obtains un i sma where "ns_undo ns a = Some un" and "un_ulp un = u" and "arr ns i = Some sma"
    and "un_semid un = perm_id sma" and "a \<in> set (list_id sma)"
  using assms unfolding undo_links_def by blast

definition users :: "sem_ns \<Rightarrow> addr \<Rightarrow> task set" where
  "users ns u = {t. ns_task_ul ns t = Some u}"

definition list_refs :: "sem_ns \<Rightarrow> bool" where
  "list_refs ns \<longleftrightarrow>
     (\<forall>u l. ns_ulists ns u = Some l \<longrightarrow> finite (users ns u) \<and> refcnt l = int (card (users ns u))) \<and>
     (\<forall>t u. ns_task_ul ns t = Some u \<longrightarrow> ns_ulists ns u \<noteq> None)"

definition sems_total :: "sem_ns \<Rightarrow> int" where
  "sems_total ns = (\<Sum>i \<in> dom (arr ns). int (sem_nsems (the (arr ns i))))"

definition ns_inv :: "ipc_cfg \<Rightarrow> sem_ns \<Rightarrow> bool" where
  "ns_inv cfg ns \<longleftrightarrow>
     ids_inv cfg (ns_ids ns) \<and> undo_links ns \<and> list_refs ns \<and> used_sems ns = sems_total ns"

lemma ns_invD:
  assumes "ns_inv cfg ns"
  shows "ids_inv cfg (ns_ids ns)" and "undo_links ns" and "list_refs ns" and "used_sems ns = sems_total ns"
  using assms by (simp_all add: ns_inv_def)

subsection \<open>Updating one array\<close>

definition put_arr :: "int \<Rightarrow> sem_array \<Rightarrow> (addr \<Rightarrow> sem_undo option) \<Rightarrow> sem_queue list \<Rightarrow> sem_ns \<Rightarrow> sem_ns" where
  "put_arr i sma m w ns = ns\<lparr>ns_ids := put_obj (ns_ids ns) i sma, ns_undo := m, ns_wake := w\<rparr>"

lemma put_arr_simps [simp]:
  "arr (put_arr i sma m w ns) = (arr ns)(i \<mapsto> sma)" "ns_undo (put_arr i sma m w ns) = m"
  "procs (put_arr i sma m w ns) = procs ns" "users (put_arr i sma m w ns) = users ns"
  "ns_ulists (put_arr i sma m w ns) = ns_ulists ns" "ns_task_ul (put_arr i sma m w ns) = ns_task_ul ns"
  "used_sems (put_arr i sma m w ns) = used_sems ns"
  by (simp_all add: put_arr_def put_obj_def procs_def [abs_def] users_def [abs_def])

lemma undo_keptD: "undo_kept m m' \<Longrightarrow> m a = Some u \<Longrightarrow> \<exists>u'. m' a = Some u' \<and> un_semid u' = un_semid u \<and> un_ulp u' = un_ulp u"
  unfolding undo_kept_def by blast

lemma undo_links_put_arr:
  assumes l: "undo_links ns" and at: "arr ns i = Some sma" and k: "undo_kept (ns_undo ns) m"
    and same: "list_id sma' = list_id sma" "perm_id sma' = perm_id sma"
  shows "undo_links (put_arr i sma' m w ns)"
proof -
  let ?ns = "put_arr i sma' m w ns"
  have old: "\<exists>s. arr ns j = Some s \<and> list_id s = list_id s' \<and> perm_id s = perm_id s'" if "arr ?ns j = Some s'" for j s'
    using that at same by (cases "j = i") auto
  have new: "\<exists>s'. arr ?ns j = Some s' \<and> list_id s = list_id s' \<and> perm_id s = perm_id s'" if "arr ns j = Some s" for j s
    using that at same by (cases "j = i") auto
  have sid: "un_semid (the (m a)) = un_semid (the (ns_undo ns a))" if "a \<in> set (procs ns u)" for a u
    using links_procE [OF l that] undo_keptD [OF k] by (metis option.sel)
  show ?thesis unfolding undo_links_def
  proof (intro conjI allI impI)
    show "distinct (list_id s)" if "arr ?ns j = Some s" for j s
      using old [OF that] undo_linksD(1) [OF l] by metis
    show "distinct (procs ?ns u)" for u using undo_linksD(2) [OF l] by simp
    show "\<exists>un. ns_undo ?ns a = Some un \<and> un_semid un = perm_id s \<and> a \<in> set (procs ?ns (un_ulp un))"
      if s: "arr ?ns j = Some s" and a: "a \<in> set (list_id s)" for j s a
    proof -
      obtain s0 where s0: "arr ns j = Some s0" "list_id s0 = list_id s" "perm_id s0 = perm_id s" using old [OF s] by blast
      have a0: "a \<in> set (list_id s0)" using a s0(2) by simp
      obtain un where un: "ns_undo ns a = Some un" "un_semid un = perm_id s0" "a \<in> set (procs ns (un_ulp un))"
        by (rule links_arrE [OF l s0(1) a0])
      obtain un' where "m a = Some un'" "un_semid un' = un_semid un" "un_ulp un' = un_ulp un"
        using undo_keptD [OF k un(1)] by blast
      then show ?thesis using un(2,3) s0(3) by simp
    qed
    show "\<exists>un j s. ns_undo ?ns a = Some un \<and> un_ulp un = u \<and> arr ?ns j = Some s \<and>
        un_semid un = perm_id s \<and> a \<in> set (list_id s)" if "a \<in> set (procs ?ns u)" for u a
    proof -
      have a: "a \<in> set (procs ns u)" using that by simp
      obtain un j s where un: "ns_undo ns a = Some un" "un_ulp un = u" "arr ns j = Some s"
          "un_semid un = perm_id s" "a \<in> set (list_id s)"
        by (rule links_procE [OF l a])
      obtain un' where u': "m a = Some un'" "un_semid un' = un_semid un" "un_ulp un' = un_ulp un"
        using undo_keptD [OF k un(1)] by blast
      obtain s' where s': "arr ?ns j = Some s'" "list_id s = list_id s'" "perm_id s = perm_id s'"
        using new [OF un(3)] by blast
      show ?thesis using un(2,4,5) u' s' by (intro exI [of _ un'] exI [of _ j] exI [of _ s']) simp
    qed
    show "a = b" if "a \<in> set (procs ?ns u)" "b \<in> set (procs ?ns u)"
        "un_semid (the (ns_undo ?ns a)) = un_semid (the (ns_undo ?ns b))" for u a b
      using that sid [of a u] sid [of b u] by (intro undo_linksD(3) [OF l, of a u b]) simp_all
  qed
qed

lemma ns_inv_put_arr:
  assumes inv: "ns_inv cfg ns" and at: "arr ns i = Some sma" and k: "undo_kept (ns_undo ns) m"
    and same: "list_id sma' = list_id sma" "sem_nsems sma' = sem_nsems sma" "same_identity sma' sma"
  shows "ns_inv cfg (put_arr i sma' m w ns)"
proof -
  have "ids_inv cfg (ns_ids (put_arr i sma' m w ns))"
    using ids_inv_put_obj [OF ns_invD(1) [OF inv] at same(3)] by (simp add: put_arr_def)
  moreover have "undo_links (put_arr i sma' m w ns)"
    using undo_links_put_arr [OF ns_invD(2) [OF inv] at k same(1)] same(3) by (simp add: same_identity_def)
  moreover have "sems_total (put_arr i sma' m w ns) = sems_total ns"
    using at same(2) by (auto simp: sems_total_def insert_absorb domI intro!: sum.cong)
  ultimately show ?thesis using ns_invD(3,4) [OF inv] by (simp add: ns_inv_def list_refs_def)
qed

subsection \<open>Storing an array a handler worked on\<close>

text \<open>What identifies an array in the namespace; handlers that do not remove it keep its tag.\<close>

definition tag_of :: "sem_array \<Rightarrow> int \<times> int \<times> int \<times> bool \<times> addr list \<times> nat" where
  "tag_of sma = (perm_id sma, perm_seq sma, key sma, deleted sma, list_id sma, sem_nsems sma)"

lemma tag_of_head: "head_of a = head_of b \<Longrightarrow> tag_of a = tag_of b"
  by (simp add: tag_of_def head_of_def perm_of_def kern_ipc_perm.truncate_def)

lemma tag_of_ops [simp]:
  "tag_of (sem_lock_all sma) = tag_of sma" "tag_of (sem_unlock sma k) = tag_of sma"
  "tag_of (snd (ipc_rcu_putref sma)) = tag_of sma" "tag_of (snd (ipc_rcu_getref sma)) = tag_of sma"
  "tag_of (sem_lock_and_putref sma) = tag_of sma" "tag_of (sma\<lparr>sem_ctime := t\<rparr>) = tag_of sma"
proof -
  show p: "tag_of (snd (ipc_rcu_putref s)) = tag_of s" for s
    by (simp add: ipc_rcu_putref_def tag_of_def Let_def)
  show l: "tag_of (sem_lock_all sma) = tag_of sma" by (rule tag_of_head) simp
  show "tag_of (sem_lock_and_putref sma) = tag_of sma" by (simp add: sem_lock_and_putref_def p l)
  show "tag_of (snd (ipc_rcu_getref sma)) = tag_of sma" by (simp add: ipc_rcu_getref_def tag_of_def)
  show "tag_of (sem_unlock sma k) = tag_of sma" by (rule tag_of_head) simp
  show "tag_of (sma\<lparr>sem_ctime := t\<rparr>) = tag_of sma" by (simp add: tag_of_def)
qed

lemma tag_of_update_perm: "ipc_update_perm env p sma = Inr sma' \<Longrightarrow> tag_of sma' = tag_of sma"
  by (auto simp: ipc_update_perm_def tag_of_def split: option.splits)

lemma tag_of_getref: "ipc_rcu_getref sma = (b, sma') \<Longrightarrow> tag_of sma' = tag_of sma"
  using tag_of_ops(4) [of sma] by simp

lemma deleted_tag: "tag_of a = tag_of b \<Longrightarrow> deleted a = deleted b"
  by (simp add: tag_of_def)

text \<open>An array in the hands of a handler is either removed or the one in the namespace.\<close>

definition linked :: "ipc_cfg \<Rightarrow> sem_ns \<Rightarrow> sem_array \<Rightarrow> bool" where
  "linked cfg ns sma \<longleftrightarrow>
     deleted sma \<or> (\<exists>s. arr ns (ipcid_to_idx cfg (perm_id sma)) = Some s \<and> tag_of s = tag_of sma)"

lemma linked_tag: "linked cfg ns sma \<Longrightarrow> tag_of sma' = tag_of sma \<Longrightarrow> linked cfg ns sma'"
  by (auto simp: linked_def tag_of_def)

lemma linked_reget: "linked cfg ns (reget cfg ns sma)"
  by (auto simp: linked_def reget_def split: option.splits)

lemma obtain_arr:
  "sem_obtain_object_check cfg ns i = Inr sma \<Longrightarrow> arr ns (ipcid_to_idx cfg i) = Some sma"
  by (auto simp: sem_obtain_object_check_def ipc_obtain_object_check_def ipc_obtain_object_idr_def
      split: option.splits if_splits)

lemma arr_in_set:
  assumes "wf_cfg cfg" and "ns_inv cfg ns" and "arr ns i = Some sma"
  shows "ipcid_to_idx cfg (perm_id sma) = i" and "\<not> deleted sma" and "linked cfg ns sma"
proof -
  have ok: "obj_ok cfg i sma" by (rule ids_invD(1) [OF ns_invD(1) [OF assms(2)] assms(3)])
  show "ipcid_to_idx cfg (perm_id sma) = i" by (rule obj_ok_decode(1) [OF assms(1) ok])
  then show "\<not> deleted sma" and "linked cfg ns sma" using ok assms(3) by (simp_all add: obj_ok_def linked_def)
qed

lemma valid_object: "wf_cfg cfg \<Longrightarrow> ipc_valid_object cfg (perm_of sma) \<longleftrightarrow> \<not> deleted sma"
  by (simp add: wf_cfg_def perm_of_def kern_ipc_perm.truncate_def)

lemma put_ctx_inv:
  assumes inv: "ns_inv cfg ns" and l: "linked cfg ns (c_sma c)" and d: "\<not> deleted (c_sma c)" and k: "undo_kept (ns_undo ns) (c_undo c)"
  shows "ns_inv cfg (put_ctx cfg ns c)"
proof -
  let ?i = "ipcid_to_idx cfg (perm_id (c_sma c))"
  obtain s where s: "arr ns ?i = Some s" "tag_of s = tag_of (c_sma c)" using l d by (auto simp: linked_def)
  have eq: "put_ctx cfg ns c = put_arr ?i (c_sma c) (c_undo c) (ns_wake ns @ c_wake c) ns"
    using d by (simp add: put_ctx_def put_sma_def put_arr_def)
  show ?thesis unfolding eq
    by (rule ns_inv_put_arr [OF inv s(1) k]) (use s(2) in \<open>simp_all add: tag_of_def same_identity_def\<close>)
qed

lemma put_sma_inv:
  assumes inv: "ns_inv cfg ns" and l: "linked cfg ns sma" shows "ns_inv cfg (put_sma cfg ns sma)"
proof (cases "deleted sma")
  case True
  then show ?thesis using inv by (simp add: put_sma_def)
next
  case False
  let ?i = "ipcid_to_idx cfg (perm_id sma)"
  obtain s where s: "arr ns ?i = Some s" "tag_of s = tag_of sma" using l False by (auto simp: linked_def)
  have eq: "put_sma cfg ns sma = put_arr ?i sma (ns_undo ns) (ns_wake ns) ns"
    using False by (simp add: put_sma_def put_arr_def)
  show ?thesis unfolding eq
    by (rule ns_inv_put_arr [OF inv s(1) undo_kept_refl]) (use s(2) in \<open>simp_all add: tag_of_def same_identity_def\<close>)
qed

lemma kept_ctx_inv:
  assumes "ns_inv cfg ns" and l: "linked cfg ns sma" and d: "\<not> deleted sma" and k: "kept (ctx_of ns sma) c"
  shows "ns_inv cfg (put_ctx cfg ns c)"
proof -
  have t: "tag_of (c_sma c) = tag_of sma" using k by (intro tag_of_head) (simp add: kept_def ctx_of_def)
  show ?thesis
    using linked_tag [OF l t] d deleted_tag [OF t] k
    by (intro put_ctx_inv [OF assms(1)]) (simp_all add: kept_def ctx_of_def)
qed

section \<open>System calls keep the invariant\<close>

text \<open>What other tasks do while a handler holds no lock keeps the invariant, too.\<close>

definition keeps_inv :: "ipc_cfg \<Rightarrow> (sem_ns \<Rightarrow> sem_ns) \<Rightarrow> bool" where
  "keeps_inv cfg other \<longleftrightarrow> (\<forall>ns. ns_inv cfg ns \<longrightarrow> ns_inv cfg (other ns))"

lemma semctl_setval_inv:
  assumes wf: "wf_cfg cfg" and inv: "ns_inv cfg ns" and run: "semctl_setval cfg env hk ns semid semnum v = (r, ns')"
  shows "ns_inv cfg ns'"
proof (cases "sem_obtain_object_check cfg ns semid")
  case (Inl e)
  then show ?thesis using run inv by (auto simp: semctl_setval_def split: if_splits)
next
  case (Inr sma)
  note a = arr_in_set [OF wf inv obtain_arr [OF Inr]]
  have l: "linked cfg ns (sem_lock_all sma)" and d: "\<not> deleted (sem_lock_all sma)"
    using linked_tag [OF a(3)] a(2) deleted_tag [OF tag_of_ops(1)] by simp_all
  let ?c = "setval_locked (ktime_get_real_seconds env) (current_tgid env) (nat semnum) v (ctx_of ns (sem_lock_all sma))"
  have "ns' = ns \<or> ns' = put_ctx cfg ns ?c"
    using run Inr d by (auto simp: semctl_setval_def Let_def valid_object [OF wf] split: if_splits)
  then show ?thesis using inv kept_ctx_inv [OF inv l d kept_setval] by auto
qed

lemma getall_inv:
  assumes wf: "wf_cfg cfg" and inv: "ns_inv cfg ns" and o: "keeps_inv cfg other" and at: "arr ns i = Some sma"
    and run: "getall cfg hk other ns sma = (r, out, ns')"
  shows "ns_inv cfg ns'"
proof -
  note a = arr_in_set [OF wf inv at]
  obtain b sma2 where g: "ipc_rcu_getref (sem_lock_all sma) = (b, sma2)" by force
  have t2: "tag_of sma2 = tag_of sma" using tag_of_getref [OF g] by simp
  define ns1 where "ns1 = other (put_sma cfg ns (sem_unlock sma2 SEM_GLOBAL_LOCK))"
  have i1: "ns_inv cfg ns1" unfolding ns1_def
    using put_sma_inv [OF inv linked_tag [OF a(3)]] t2 o by (simp add: keeps_inv_def)
  define sma3 where "sma3 = reget cfg ns1 sma2"
  have l3: "linked cfg ns1 s" if "tag_of s = tag_of sma3" for s
    using linked_tag [OF linked_reget that [unfolded sma3_def]] .
  have l: "linked cfg ns s" if "tag_of s = tag_of sma" for s using linked_tag [OF a(3) that] .
  have "(\<exists>s. ns' = put_sma cfg ns s \<and> tag_of s = tag_of sma) \<or> (\<exists>s. ns' = put_sma cfg ns1 s \<and> tag_of s = tag_of sma3)"
    using run t2
    by (auto simp: getall_def Let_def g ns1_def [symmetric] sma3_def [symmetric] split: if_splits bool.splits)
  then show ?thesis using put_sma_inv [OF inv l] put_sma_inv [OF i1 l3] by auto
qed

lemma setall_ns_inv:
  assumes wf: "wf_cfg cfg" and inv: "ns_inv cfg ns" and o: "keeps_inv cfg other" and at: "arr ns i = Some sma"
    and run: "setall cfg env hk other ns sma usr = (r, out, ns')"
  shows "ns_inv cfg ns'"
proof -
  note a = arr_in_set [OF wf inv at]
  obtain b sma1 where g: "ipc_rcu_getref sma = (b, sma1)" by force
  define ns1 where "ns1 = other (put_sma cfg ns sma1)"
  have i1: "ns_inv cfg ns1" unfolding ns1_def
    using put_sma_inv [OF inv linked_tag [OF a(3) tag_of_getref [OF g]]] o by (simp add: keeps_inv_def)
  define sma2 where "sma2 = reget cfg ns1 sma1"
  have l2: "linked cfg ns1 s" if "tag_of s = tag_of sma2" for s
    using linked_tag [OF linked_reget that [unfolded sma2_def]] .
  define sma3 where "sma3 = sem_lock_and_putref sma2"
  have t3: "tag_of sma3 = tag_of sma2" by (simp add: sma3_def)
  let ?c = "setall_locked (ktime_get_real_seconds env) (current_tgid env) (map uint (take (sem_nsems sma) usr)) (ctx_of ns1 sma3)"
  have "ns' = ns \<or> (\<exists>s. ns' = put_sma cfg ns1 s \<and> tag_of s = tag_of sma2) \<or> \<not> deleted sma3 \<and> ns' = put_ctx cfg ns1 ?c"
    using run t3
    by (auto simp: setall_def Let_def g ns1_def [symmetric] sma2_def [symmetric] sma3_def [symmetric]
        valid_object [OF wf] split: if_splits bool.splits)
  then show ?thesis
    using inv put_sma_inv [OF i1 l2] kept_ctx_inv [OF i1 l2 [OF t3] _ kept_setall] by auto
qed

lemma semctl_main_inv:
  assumes wf: "wf_cfg cfg" and inv: "ns_inv cfg ns" and o: "keeps_inv cfg other"
    and run: "semctl_main cfg env hk other ns semid semnum cmd usr = (r, out, ns')"
  shows "ns_inv cfg ns'"
proof (cases "sem_obtain_object_check cfg ns semid")
  case (Inl e)
  then show ?thesis using run inv by (auto simp: semctl_main_def)
next
  case (Inr sma)
  note at = obtain_arr [OF Inr]
  have l: "linked cfg ns (sem_unlock (sem_lock_all sma) k)" for k
    using linked_tag [OF arr_in_set(3) [OF wf inv at]] by simp
  have "ns' = ns \<or> getall cfg hk other ns sma = (r, out, ns') \<or> setall cfg env hk other ns sma usr = (r, out, ns')
      \<or> ns' = put_sma cfg ns (sem_unlock (sem_lock_all sma) SEM_GLOBAL_LOCK)"
    using run Inr by (auto simp: semctl_main_def Let_def split: if_splits option.splits)
  then show ?thesis
    using inv getall_inv [OF wf inv o at] setall_ns_inv [OF wf inv o at] put_sma_inv [OF inv l] by blast
qed

subsection \<open>Removal of an array\<close>

lemma drain_undo [simp]: "c_undo (drain p l c) = c_undo c"
  by (induction p l c rule: drain.induct) (simp_all add: wake_up_sem_queue_prepare_def unlink_queue_def Let_def)

lemma fold_invalidate_undo:
  "c_undo (fold invalidate_undo uns c) a =
     (if a \<in> set uns then Some ((undo_of c (Some a))\<lparr>un_semid := -1\<rparr>) else c_undo c a)"
proof (induction uns arbitrary: c)
  case (Cons un uns)
  show ?case by (auto simp: Cons.IH, auto simp: invalidate_undo_def undo_of_def)
qed simp

lemma freeary_undo:
  "c_undo (freeary_locked c) a =
     (if a \<in> set (list_id (c_sma c)) then Some ((undo_of c (Some a))\<lparr>un_semid := -1\<rparr>) else c_undo c a)"
proof -
  have "c_undo (fold (\<lambda>i c. ipc_update_pid i None (drain_queue (SAlter i) (drain_queue (SConst i) c))) is c) = c_undo c"
    for "is" c by (induction "is" arbitrary: c) (simp_all add: ipc_update_pid_def drain_queue_def)
  then show ?thesis by (simp add: freeary_locked_def Let_def drain_queue_def fold_invalidate_undo)
qed

lemma kept_drain: "kept c (drain p l c)"
proof (induction p l c rule: drain.induct)
  case (2 p q rest c)
  have "kept c (wake_up_sem_queue_prepare q (Some EIDRM) (unlink_queue p [] rest q c))"
    by (rule kept_fewer [OF fewer_trans [OF fewer_queue(2) fewer_basic(4)], of False]) simp
  then show ?case using 2 kept_trans by simp
qed simp

lemma freeary_head:
  "perm_of (c_sma (freeary_locked c)) = perm_of (c_sma c) \<and> sem_nsems (c_sma (freeary_locked c)) = sem_nsems (c_sma c)"
proof -
  define c1 where "c1 = fold invalidate_undo (list_id (c_sma c)) c"
  define c2 where "c2 = c1\<lparr>c_sma := (c_sma c1)\<lparr>list_id := []\<rparr>\<rparr>"
  have "c_sma (fold invalidate_undo uns d) = c_sma d" for uns d
    by (induction uns arbitrary: d) (simp_all add: invalidate_undo_def)
  then have s: "perm_of (c_sma c2) = perm_of (c_sma c)" "sem_nsems (c_sma c2) = sem_nsems (c_sma c)"
    by (simp_all add: c2_def c1_def)
  have dq: "kept d (drain_queue p d)" for p d by (simp add: drain_queue_def kept_drain)
  have "kept c2 (drain_queue GAlter (drain_queue GConst c2))" by (rule kept_trans [OF dq dq])
  moreover have "kept d (fold (\<lambda>i c. ipc_update_pid i None (drain_queue (SAlter i) (drain_queue (SConst i) c))) is d)" for "is" d
    by (rule kept_fold) (rule kept_trans [OF kept_trans [OF dq dq] kept_basic(3)])
  ultimately have "kept c2 (freeary_locked c)"
    unfolding freeary_locked_def Let_def c1_def [symmetric] c2_def [symmetric] by (rule kept_trans)
  then show ?thesis using s by (simp add: kept_def head_of_def)
qed

lemma ipc_rmid_same:
  "perm_id p = perm_id q \<Longrightarrow> key p = key q \<Longrightarrow> fst (ipc_rmid cfg ids p) = fst (ipc_rmid cfg ids q)"
  by (simp add: ipc_rmid_def ipc_kht_remove_def Let_def)

lemma freeary_fields:
  assumes wf: "wf_cfg cfg" and inv: "ns_inv cfg ns" and at: "arr ns i = Some sma" and t: "tag_of sma1 = tag_of sma"
    and ns': "ns' = freeary cfg ns sma1"
  shows "ids_inv cfg (ns_ids ns')" and "arr ns' = (arr ns)(i := None)"
    and "ns_undo ns' = (\<lambda>a. if a \<in> set (list_id sma) then Some ((the (ns_undo ns a))\<lparr>un_semid := -1\<rparr>) else ns_undo ns a)"
    and "ns_ulists ns' = (\<lambda>u. map_option (\<lambda>l. l\<lparr>list_proc := filter (\<lambda>a. a \<notin> set (list_id sma)) (list_proc l)\<rparr>) (ns_ulists ns u))"
    and "ns_task_ul ns' = ns_task_ul ns" and "used_sems ns' = used_sems ns - int (sem_nsems sma)"
proof -
  define f where "f = c_sma (freeary_locked (ctx_of ns sma1))"
  have h: "perm_of f = perm_of sma1" "sem_nsems f = sem_nsems sma1"
    using freeary_head [of "ctx_of ns sma1"] by (simp_all add: f_def ctx_of_def)
  then have k: "perm_id f = perm_id sma" "key f = key sma" "sem_nsems f = sem_nsems sma"
    using t by (simp_all add: perm_of_def kern_ipc_perm.truncate_def tag_of_def)
  obtain ids1 p1 where r: "ipc_rmid cfg (ns_ids ns) f = (ids1, p1)" by force
  have p1: "sem_nsems p1 = sem_nsems sma" using r k(3) by (auto simp: ipc_rmid_def Let_def)
  note a = arr_in_set [OF wf inv at]
  have "ipc_rmid cfg (ns_ids ns) sma = (ids1, snd (ipc_rmid cfg (ns_ids ns) sma))"
    using ipc_rmid_same [OF k(1,2), of cfg "ns_ids ns"] r by (metis fst_conv prod.collapse)
  note m = ids_inv_rmid [OF wf ns_invD(1) [OF inv] _ this, unfolded a(1), OF at]
  have l: "list_id sma1 = list_id sma" using t by (simp add: tag_of_def)
  have n: "ns_ids ns' = ids1" "ns_task_ul ns' = ns_task_ul ns" "used_sems ns' = used_sems ns - int (sem_nsems sma)"
    "ns_ulists ns' = ns_ulists (unlink_proc (list_id sma) ns)" "ns_undo ns' = c_undo (freeary_locked (ctx_of ns sma1))"
    using r by (simp_all add: ns' freeary_def sem_rmid_def f_def [symmetric] unlink_proc_def Let_def p1 l split_beta)
  show "ids_inv cfg (ns_ids ns')" "arr ns' = (arr ns)(i := None)" using m(1,2) n(1) by simp_all
  show "ns_undo ns' = (\<lambda>a. if a \<in> set (list_id sma) then Some ((the (ns_undo ns a))\<lparr>un_semid := -1\<rparr>) else ns_undo ns a)"
    unfolding n(5) by (rule ext) (simp add: freeary_undo ctx_of_def undo_of_def l)
  show "ns_ulists ns' = (\<lambda>u. map_option (\<lambda>l. l\<lparr>list_proc := filter (\<lambda>a. a \<notin> set (list_id sma)) (list_proc l)\<rparr>) (ns_ulists ns u))"
    by (simp add: n(4) unlink_proc_def)
  show "ns_task_ul ns' = ns_task_ul ns" "used_sems ns' = used_sems ns - int (sem_nsems sma)" by (simp_all add: n)
qed

lemma freeary_ns_inv:
  assumes wf: "wf_cfg cfg" and inv: "ns_inv cfg ns" and at: "arr ns i = Some sma" and t: "tag_of sma1 = tag_of sma"
    and ns': "ns' = freeary cfg ns sma1"
  shows "ns_inv cfg ns'"
proof -
  note f = freeary_fields [OF wf inv at t ns'] and l = ns_invD(2) [OF inv]
  have pr: "procs ns' u = filter (\<lambda>a. a \<notin> set (list_id sma)) (procs ns u)" for u
    by (simp add: procs_def f(4) split: option.splits)
  have und: "ns_undo ns' a = ns_undo ns a" if "a \<notin> set (list_id sma)" for a using that by (simp add: f(3))
  have other: "a \<notin> set (list_id sma)" if j: "arr ns j = Some s" "j \<noteq> i" and a: "a \<in> set (list_id s)" for j s a
  proof
    assume a': "a \<in> set (list_id sma)"
    have "perm_id s = perm_id sma" using links_arrE [OF l j(1) a] links_arrE [OF l at a'] by (metis option.inject)
    then show False using arr_in_set(1) [OF wf inv j(1)] arr_in_set(1) [OF wf inv at] j(2) by simp
  qed
  have "undo_links ns'" unfolding undo_links_def
  proof (intro conjI allI impI)
    show "distinct (list_id s)" if "arr ns' j = Some s" for j s
      using that undo_linksD(1) [OF l] by (simp add: f(2) split: if_splits)
    show "distinct (procs ns' u)" for u by (simp add: pr undo_linksD(2) [OF l])
    show "\<exists>un. ns_undo ns' a = Some un \<and> un_semid un = perm_id s \<and> a \<in> set (procs ns' (un_ulp un))"
      if "arr ns' j = Some s" and a: "a \<in> set (list_id s)" for j s a
    proof -
      have j: "arr ns j = Some s" "j \<noteq> i" using that by (simp_all add: f(2) split: if_splits)
      obtain un where un: "ns_undo ns a = Some un" "un_semid un = perm_id s" "a \<in> set (procs ns (un_ulp un))"
        by (rule links_arrE [OF l j(1) a])
      then show ?thesis using und [OF other [OF j a]] other [OF j a] by (simp add: pr)
    qed
    show "\<exists>un j s. ns_undo ns' a = Some un \<and> un_ulp un = u \<and> arr ns' j = Some s \<and>
        un_semid un = perm_id s \<and> a \<in> set (list_id s)" if "a \<in> set (procs ns' u)" for u a
    proof -
      have a: "a \<in> set (procs ns u)" "a \<notin> set (list_id sma)" using that by (simp_all add: pr)
      obtain un j s where un: "ns_undo ns a = Some un" "un_ulp un = u" "arr ns j = Some s"
          "un_semid un = perm_id s" "a \<in> set (list_id s)" by (rule links_procE [OF l a(1)])
      have "j \<noteq> i" using un(3,5) a(2) at by auto
      then show ?thesis using un und [OF a(2)] f(2) by (metis fun_upd_other)
    qed
    show "a = b" if "a \<in> set (procs ns' u)" "b \<in> set (procs ns' u)"
        "un_semid (the (ns_undo ns' a)) = un_semid (the (ns_undo ns' b))" for u a b
      using that und by (intro undo_linksD(3) [OF l, of a u b]) (simp_all add: pr)
  qed
  moreover have "list_refs ns'" using ns_invD(3) [OF inv] by (auto simp: list_refs_def f(4,5) users_def)
  moreover have "used_sems ns' = sems_total ns'"
  proof -
    have fin: "finite (dom (arr ns))" using ns_invD(1) [OF inv] by (simp add: ids_inv_def)
    have "sems_total ns = int (sem_nsems sma) + (\<Sum>j \<in> dom (arr ns) - {i}. int (sem_nsems (the (arr ns j))))"
      unfolding sems_total_def using at fin by (subst sum.remove [of _ i]) auto
    moreover have "sems_total ns' = (\<Sum>j \<in> dom (arr ns) - {i}. int (sem_nsems (the (arr ns j))))"
      unfolding sems_total_def f(2) dom_fun_upd by (auto intro!: sum.cong)
    ultimately show ?thesis using ns_invD(4) [OF inv] f(6) by simp
  qed
  ultimately show ?thesis using f(1) by (simp add: ns_inv_def)
qed

lemma semctl_down_inv:
  assumes wf: "wf_cfg cfg" and inv: "ns_inv cfg ns" and run: "semctl_down cfg env hk ns semid cmd p = (r, ns')"
  shows "ns_inv cfg ns'"
proof (cases "ipcctl_obtain_check cfg env (ns_ids ns) semid")
  case (Inl e)
  then show ?thesis using run inv by (auto simp: semctl_down_def)
next
  case (Inr sma)
  have "sem_obtain_object_check cfg ns semid = Inr sma"
    using Inr by (auto simp: ipcctl_obtain_check_def sem_obtain_object_check_def split: sum.splits if_splits)
  note at = obtain_arr [OF this]
  have l: "linked cfg ns s" if "tag_of s = tag_of sma" for s
    using linked_tag [OF arr_in_set(3) [OF wf inv at] that] .
  have "ns' = ns \<or> ns' = freeary cfg ns (sem_lock_all sma) \<or> (\<exists>s. ns' = put_sma cfg ns s \<and> tag_of s = tag_of sma)"
    using run Inr tag_of_update_perm [of env p "sem_lock_all sma"]
    by (auto simp: semctl_down_def Let_def split: option.splits ipc_cmd.splits sum.splits)
  then show ?thesis using inv freeary_ns_inv [OF wf inv at _ refl, of "sem_lock_all sma"] put_sma_inv [OF inv l] by auto
qed

lemma ksys_semctl_inv:
  assumes wf: "wf_cfg cfg" and inv: "ns_inv cfg ns" and o: "keeps_inv cfg other"
    and run: "ksys_semctl cfg env hk other ns semid semnum cmd arg usr_vals usr_perm version = (r, out, ns')"
  shows "ns_inv cfg ns'"
proof -
  have "ns' = ns \<or> semctl_main cfg env hk other ns semid semnum cmd usr_vals = (r, out, ns') \<or>
      semctl_setval cfg env hk ns semid semnum (c_int (uint arg)) = (r, ns') \<or>
      (\<exists>p. semctl_down cfg env hk ns semid cmd p = (r, ns'))"
    using run by (auto simp: ksys_semctl_def split: if_splits sum.splits prod.splits)
  then show ?thesis
    by (elim disjE exE)
      (simp add: inv, erule semctl_main_inv [OF wf inv o], erule semctl_setval_inv [OF wf inv],
        erule semctl_down_inv [OF wf inv])
qed

subsection \<open>Creation of an array\<close>

lemma unlock_fresh:
  assumes "complex_count sma = 0" and "pending_alter sma = []"
  shows "sem_unlock sma SEM_GLOBAL_LOCK =
    sma\<lparr>use_global_lock := (if use_global_lock sma = 1 then 0 else use_global_lock sma - 1)\<rparr>"
  using assms by (simp add: sem_unlock_def unmerge_queues_def complexmode_tryleave_def)

definition fresh_array :: "sem_array \<Rightarrow> nat \<Rightarrow> bool" where
  "fresh_array sma n \<longleftrightarrow> list_id sma = [] \<and> sem_nsems sma = n \<and> sems sma = replicate n zero_sem \<and>
     complex_count sma = 0 \<and> pending_alter sma = [] \<and> pending_const sma = []"

lemma fresh_array_start: "fresh_array sma n \<Longrightarrow> 0 < n \<Longrightarrow> sem_start (ctx_of ns sma)"
  by (simp add: fresh_array_def sem_start_def ctx_of_def ctx_ok_def c_nsems_def zero_sem_def)

lemma fresh_array_stamp:
  "fresh_array sma n \<Longrightarrow> fresh_array (stamped cfg ids idx (fresh_perm env sma)) n"
  "fresh_array sma n \<Longrightarrow> fresh_array (sem_unlock sma SEM_GLOBAL_LOCK) n"
  by (simp_all add: fresh_array_def stamped_def fresh_perm_def unlock_fresh)

lemma newary_Inr:
  assumes wf: "wf_cfg cfg" and orc: "idr_alloc_ok orc" and ids: "ids_inv cfg (ns_ids ns)"
    and k: "par_key p = IPC_PRIVATE \<or> ipc_findkey (ns_ids ns) (par_key p) = None"
    and run: "newary cfg env orc hk z1 z2 ns p = (Inr semid, ns')"
  obtains idx sma where "arr ns idx = None" and "arr ns' = (arr ns)(idx \<mapsto> sma)" and "ids_inv cfg (ns_ids ns')"
    and "perm_id sma = semid" and "key sma = par_key p" and "fresh_array sma (nat (par_nsems p))"
    and "par_nsems p \<noteq> 0" and "ns_undo ns' = ns_undo ns" and "ns_ulists ns' = ns_ulists ns"
    and "ns_task_ul ns' = ns_task_ul ns" and "used_sems ns' = used_sems ns + par_nsems p"
proof -
  define sma2 where "sma2 = (zero_sma (nat (par_nsems p)))\<lparr>mode := ucast (par_flg p) AND S_IRWXUGO,
      key := par_key p, complex_count := 0, use_global_lock := USE_GLOBAL_LOCK_HYSTERESIS, pending_alter := [],
      pending_const := [], list_id := [], sem_nsems := nat (par_nsems p), sem_ctime := ktime_get_real_seconds env\<rparr>"
  obtain x ids1 sma3 where a: "ipc_addid cfg env orc (ns_ids ns) sma2 (sc_semmni ns) = (x, ids1, sma3)"
    by (metis prod_cases3)
  obtain idx where x: "x = Inr idx" and n0: "par_nsems p \<noteq> 0" and s: "semid = perm_id (sem_unlock sma3 SEM_GLOBAL_LOCK)"
    and ns': "ns' = ns\<lparr>ns_ids := put_obj ids1 idx (sem_unlock sma3 SEM_GLOBAL_LOCK), used_sems := used_sems ns + par_nsems p\<rparr>"
    using run a by (cases x) (auto simp: newary_def sem_alloc_def Let_def sma2_def split: if_splits option.splits)
  have k2: "key sma2 = IPC_PRIVATE \<or> ipc_findkey (ns_ids ns) (key sma2) = None" using k by (simp add: sma2_def)
  note f = ipc_addid_Inr [OF a [unfolded x] orc] and g = ipc_addid_inv [OF wf orc ids k2 a [unfolded x]]
  have fr: "fresh_array sma3 (nat (par_nsems p))" unfolding f(6)
    by (rule fresh_array_stamp(1)) (simp add: fresh_array_def sma2_def zero_sma_def kern_ipc_perm.defs)
  have at: "ipcs_idr ids1 idx = Some sma3" by (simp add: f(7))
  have sid: "same_identity (sem_unlock sma3 SEM_GLOBAL_LOCK) sma3"
    using tag_of_ops(2) [of sma3 SEM_GLOBAL_LOCK] by (simp add: tag_of_def same_identity_def)
  have ids': "ids_inv cfg (ns_ids ns')" using ids_inv_put_obj [OF g(1) at sid] by (simp add: ns')
  have "key (sem_unlock sma3 SEM_GLOBAL_LOCK) = par_key p"
    using sid by (simp add: same_identity_def f(6) stamped_def fresh_perm_def sma2_def)
  moreover have "arr ns' = (arr ns)(idx \<mapsto> sem_unlock sma3 SEM_GLOBAL_LOCK)" by (simp add: ns' put_obj_def f(7))
  ultimately show ?thesis
    using that [OF f(1) _ ids'] s fresh_array_stamp(2) [OF fr] n0 by (simp add: ns')
qed

lemma newary_Inl:
  assumes orc: "idr_alloc_ok orc" and ids: "ids_inv cfg (ns_ids ns)"
    and run: "newary cfg env orc hk z1 z2 ns p = (Inl e, ns')"
  shows "\<exists>ids'. ns' = ns\<lparr>ns_ids := ids'\<rparr> \<and> ids_inv cfg ids' \<and> ipcs_idr ids' = arr ns"
proof -
  have "ns' = ns \<or> (\<exists>sma2 e' ids1 sma3. ipc_addid cfg env orc (ns_ids ns) sma2 (sc_semmni ns) = (Inl e', ids1, sma3)
      \<and> ns' = ns\<lparr>ns_ids := ids1\<rparr>)"
    using run by (auto simp: newary_def Let_def split: if_splits option.splits prod.splits sum.splits)
  then show ?thesis
  proof (elim disjE exE conjE)
    fix sma2 e' ids1 sma3
    assume a: "ipc_addid cfg env orc (ns_ids ns) sma2 (sc_semmni ns) = (Inl e', ids1, sma3)" and "ns' = ns\<lparr>ns_ids := ids1\<rparr>"
    then show ?thesis using ipc_addid_Inl(1) [OF a orc] ipc_addid_Inl_inv [OF ids orc a] by blast
  qed (use ids in \<open>auto intro: exI [of _ "ns_ids ns"]\<close>)
qed

lemma ns_inv_same_arr:
  assumes "ns_inv cfg ns" and "ids_inv cfg ids'" and "ipcs_idr ids' = arr ns"
  shows "ns_inv cfg (ns\<lparr>ns_ids := ids'\<rparr>)"
  using assms by (simp add: ns_inv_def undo_links_def list_refs_def sems_total_def procs_def users_def)

lemma newary_inv:
  assumes wf: "wf_cfg cfg" and orc: "idr_alloc_ok orc" and inv: "ns_inv cfg ns" and n: "0 \<le> par_nsems p"
    and k: "par_key p = IPC_PRIVATE \<or> ipc_findkey (ns_ids ns) (par_key p) = None"
    and run: "newary cfg env orc hk z1 z2 ns p = (r, ns')"
  shows "ns_inv cfg ns'"
proof (cases r)
  case (Inl e)
  show ?thesis
    using newary_Inl [OF orc ns_invD(1) [OF inv] run [unfolded Inl]] ns_inv_same_arr [OF inv] by auto
next
  case (Inr semid)
  note ids = ns_invD(1) [OF inv] and l = ns_invD(2) [OF inv]
  obtain idx sma where f: "arr ns idx = None" "arr ns' = (arr ns)(idx \<mapsto> sma)" "ids_inv cfg (ns_ids ns')"
      "fresh_array sma (nat (par_nsems p))" "ns_undo ns' = ns_undo ns" "ns_ulists ns' = ns_ulists ns"
      "ns_task_ul ns' = ns_task_ul ns" "used_sems ns' = used_sems ns + par_nsems p"
    by (rule newary_Inr [OF wf orc ids k run [unfolded Inr]])
  have pr: "procs ns' = procs ns" by (simp add: procs_def [abs_def] f)
  have e: "list_id sma = []" "sem_nsems sma = nat (par_nsems p)" using f(4) by (simp_all add: fresh_array_def)
  have old: "arr ns j = Some s" if "arr ns' j = Some s" "a \<in> set (list_id s)" for j s a
    using that e by (auto simp: f(2) split: if_splits)
  have new: "arr ns' j = Some s" if "arr ns j = Some s" for j s using that f(1) by (auto simp: f(2))
  have "undo_links ns'" unfolding undo_links_def
  proof (intro conjI allI impI)
    show "distinct (list_id s)" if "arr ns' j = Some s" for j s
      using that undo_linksD(1) [OF l] e by (auto simp: f(2) split: if_splits)
    show "distinct (procs ns' u)" for u by (simp add: pr undo_linksD(2) [OF l])
    show "\<exists>un. ns_undo ns' a = Some un \<and> un_semid un = perm_id s \<and> a \<in> set (procs ns' (un_ulp un))"
      if "arr ns' j = Some s" "a \<in> set (list_id s)" for j s a
      using links_arrE [OF l old [OF that] that(2)] by (auto simp: pr f(5))
    show "\<exists>un j s. ns_undo ns' a = Some un \<and> un_ulp un = u \<and> arr ns' j = Some s \<and>
        un_semid un = perm_id s \<and> a \<in> set (list_id s)" if "a \<in> set (procs ns' u)" for u a
      using links_procE [OF l that [unfolded pr]] new f(5) by metis
    show "a = b" if "a \<in> set (procs ns' u)" "b \<in> set (procs ns' u)"
        "un_semid (the (ns_undo ns' a)) = un_semid (the (ns_undo ns' b))" for u a b
      using that by (intro undo_linksD(3) [OF l, of a u b]) (simp_all add: pr f(5))
  qed
  moreover have "list_refs ns'" using ns_invD(3) [OF inv] by (simp add: list_refs_def users_def f(6,7))
  moreover have "used_sems ns' = sems_total ns'"
  proof -
    have fin: "finite (dom (arr ns))" using ids by (simp add: ids_inv_def)
    have "idx \<notin> dom (arr ns)" using f(1) by auto
    then have "(\<Sum>j \<in> dom (arr ns). int (sem_nsems (the (arr ns' j)))) = sems_total ns"
      unfolding sems_total_def by (intro sum.cong) (auto simp: f(2))
    then have "sems_total ns' = int (sem_nsems sma) + sems_total ns"
      using fin \<open>idx \<notin> dom (arr ns)\<close> unfolding sems_total_def [of ns'] by (simp add: f(2))
    then show ?thesis using ns_invD(4) [OF inv] n by (simp add: f(8) e(2))
  qed
  ultimately show ?thesis using f(3) by (simp add: ns_inv_def)
qed

lemma ksys_semget_inv:
  assumes "wf_cfg cfg" and "idr_alloc_ok orc" and inv: "ns_inv cfg ns"
    and run: "ksys_semget cfg env orc hk z1 z2 ns k nsems flg = (r, ns')"
  shows "ns_inv cfg ns'"
proof -
  let ?p = "\<lparr>par_key = k, par_flg = flg, par_nsems = nsems\<rparr>"
  have "ns' = ns \<or> (0 \<le> nsems \<and> (k = IPC_PRIVATE \<or> ipc_findkey (ns_ids ns) k = None) \<and>
      newary cfg env orc hk z1 z2 ns ?p = (r, ns'))"
    using run by (auto simp: ksys_semget_def ipcget_def ipcget_new_def ipcget_public_def Let_def
        split: if_splits option.splits)
  then show ?thesis using inv newary_inv [OF assms(1,2) inv, of ?p] by auto
qed

subsection \<open>Undo lists\<close>

lemma undo_links_reorder:
  assumes l: "undo_links ns" and same: "arr ns' = arr ns" "ns_undo ns' = ns_undo ns"
    and pr: "\<And>u. set (procs ns' u) = set (procs ns u)" "\<And>u. distinct (procs ns' u)"
  shows "undo_links ns'"
  using l unfolding undo_links_def same pr(1) by (simp add: pr(2))

lemma get_undo_list_inv:
  assumes inv: "ns_inv cfg ns" and fresh: "ns_ulists ns (new_ulist_addr hk) = None"
    and run: "get_undo_list hk t ns = (r, ns')"
  shows "ns_inv cfg ns'" and "\<And>ulp. r = Inr ulp \<Longrightarrow> ns_task_ul ns' t = Some ulp"
    and "arr ns' = arr ns" and "ns_undo ns' = ns_undo ns" and "\<And>a. t \<noteq> a \<Longrightarrow> ns_task_ul ns' a = ns_task_ul ns a"
proof -
  let ?u = "new_ulist_addr hk"
  define new where "new = ns\<lparr>ns_ulists := (ns_ulists ns)(?u \<mapsto> \<lparr>refcnt = 1, list_proc = []\<rparr>), ns_task_ul := (ns_task_ul ns)(t \<mapsto> ?u)\<rparr>"
  have c: "ns' = ns \<and> (\<forall>ulp. r = Inr ulp \<longrightarrow> ns_task_ul ns t = Some ulp) \<or> ns_task_ul ns t = None \<and> ns' = new \<and> r = Inr ?u"
    using run by (auto simp: get_undo_list_def new_def Let_def split: option.splits if_splits)
  have "ns_inv cfg new" if none: "ns_task_ul ns t = None"
  proof -
    note refs = ns_invD(3) [OF inv]
    have nou: "ns_task_ul ns x \<noteq> Some ?u" for x using refs fresh unfolding list_refs_def by blast
    have us: "users new u = (if u = ?u then {t} else users ns u)" for u
      using none nou by (auto simp: users_def new_def)
    have "undo_links new"
      by (rule undo_links_reorder [OF ns_invD(2) [OF inv]])
        (use fresh undo_linksD(2) [OF ns_invD(2) [OF inv]] in \<open>auto simp: new_def procs_def\<close>)
    moreover have "list_refs new"
      using refs us by (auto simp: list_refs_def new_def)
    moreover have "sems_total new = sems_total ns" by (simp add: sems_total_def new_def)
    ultimately show ?thesis using ns_invD(1,4) [OF inv] by (simp add: ns_inv_def new_def)
  qed
  with c inv show "ns_inv cfg ns'" by auto
  show "r = Inr ulp \<Longrightarrow> ns_task_ul ns' t = Some ulp" for ulp using c by (auto simp: new_def)
  show "arr ns' = arr ns" "ns_undo ns' = ns_undo ns" "t \<noteq> a \<Longrightarrow> ns_task_ul ns' a = ns_task_ul ns a" for a
    using c by (auto simp: new_def)
qed

lemma lookup_walk_Some: "lookup_undo_walk m semid l = Some un \<Longrightarrow> un \<in> set l \<and> un_semid (the (m un)) = semid"
  by (induction l) (auto split: if_splits)

lemma lookup_walk_None: "lookup_undo_walk m semid l = None \<Longrightarrow> a \<in> set l \<Longrightarrow> un_semid (the (m a)) \<noteq> semid"
  by (induction l) (auto split: if_splits)

lemma set_proc_simps [simp]:
  "arr (set_proc u l ns) = arr ns" "ns_ids (set_proc u l ns) = ns_ids ns" "ns_undo (set_proc u l ns) = ns_undo ns"
  "ns_task_ul (set_proc u l ns) = ns_task_ul ns" "used_sems (set_proc u l ns) = used_sems ns"
  "ns_wake (set_proc u l ns) = ns_wake ns"
  "procs (set_proc u l ns) v = (if v = u then l else procs ns v)" "users (set_proc u l ns) = users ns"
  by (simp_all add: set_proc_def procs_def users_def [abs_def])

lemma proc_of_procs: "ns_ulists ns u \<noteq> None \<Longrightarrow> proc_of ns u = procs ns u"
  by (auto simp: proc_of_def procs_def)

lemma list_refs_set_proc: "list_refs ns \<Longrightarrow> ns_ulists ns u \<noteq> None \<Longrightarrow> list_refs (set_proc u l ns)"
  by (auto simp: list_refs_def set_proc_def users_def)

lemma lookup_undo_inv:
  assumes inv: "ns_inv cfg ns" and u: "ns_ulists ns ulp \<noteq> None" and run: "lookup_undo ulp semid ns = (r, ns')"
  shows "ns_inv cfg ns'" and "arr ns' = arr ns" and "ns_undo ns' = ns_undo ns" and "ns_task_ul ns' = ns_task_ul ns"
    and "ns_ulists ns' ulp \<noteq> None"
    and "r = None \<Longrightarrow> a \<in> set (procs ns' ulp) \<Longrightarrow> un_semid (the (ns_undo ns' a)) \<noteq> semid"
proof -
  note l = ns_invD(2) [OF inv]
  have c: "ns' = ns \<and> (r = None \<longrightarrow> (\<forall>a \<in> set (procs ns ulp). un_semid (the (ns_undo ns a)) \<noteq> semid)) \<or>
      (\<exists>un \<in> set (procs ns ulp). r \<noteq> None \<and> ns' = set_proc ulp (un # remove1 un (procs ns ulp)) ns)"
    using run lookup_walk_Some [of "ns_undo ns" semid "procs ns ulp"] lookup_walk_None [of "ns_undo ns" semid "procs ns ulp"]
    by (auto simp: lookup_undo_def proc_of_procs [OF u] split: option.splits)
  have "ns_inv cfg (set_proc ulp (un # remove1 un (procs ns ulp)) ns)" (is "ns_inv cfg ?ns") if un: "un \<in> set (procs ns ulp)" for un
  proof -
    have "undo_links ?ns"
      by (rule undo_links_reorder [OF l]) (use un undo_linksD(2) [OF l] in \<open>auto simp: set_remove1_eq\<close>)
    moreover have "sems_total ?ns = sems_total ns" by (simp add: sems_total_def)
    ultimately show ?thesis
      using ns_invD(1,4) [OF inv] list_refs_set_proc [OF ns_invD(3) [OF inv] u] by (simp add: ns_inv_def)
  qed
  with c inv show "ns_inv cfg ns'" by auto
  show "arr ns' = arr ns" "ns_undo ns' = ns_undo ns" "ns_task_ul ns' = ns_task_ul ns" "ns_ulists ns' ulp \<noteq> None"
    using c u by (auto, simp add: set_proc_def)
  show "r = None \<Longrightarrow> a \<in> set (procs ns' ulp) \<Longrightarrow> un_semid (the (ns_undo ns' a)) \<noteq> semid" using c by auto
qed

lemma link_fields:
  assumes wf: "wf_cfg cfg" and inv: "ns_inv cfg ns" and at: "arr ns i = Some sma" and t: "tag_of sma3 = tag_of sma"
    and ns': "ns' = put_ctx cfg (set_proc ulp l ns)
      (unlock_ctx SEM_GLOBAL_LOCK (link_undo a ulp semid (ctx_of (set_proc ulp l ns) sma3)))"
  obtains s where "arr ns' = (arr ns)(i \<mapsto> s)" and "list_id s = a # list_id sma" and "perm_id s = perm_id sma"
    and "sem_nsems s = sem_nsems sma" and "ids_inv cfg (ns_ids ns')"
    and "ns_undo ns' = (ns_undo ns)(a \<mapsto> \<lparr>un_ulp = ulp, un_semid = semid, semadj = replicate (sem_nsems sma) 0\<rparr>)"
    and "ns_ulists ns' = ns_ulists (set_proc ulp l ns)" and "ns_task_ul ns' = ns_task_ul ns" and "used_sems ns' = used_sems ns"
proof -
  define s where "s = sem_unlock (sma3\<lparr>list_id := a # list_id sma3\<rparr>) SEM_GLOBAL_LOCK"
  have "tag_of s = tag_of (sma3\<lparr>list_id := a # list_id sma3\<rparr>)" by (simp add: s_def)
  then have f: "list_id s = a # list_id sma" "perm_id s = perm_id sma" "sem_nsems s = sem_nsems sma"
      "same_identity s sma" "deleted s = deleted sma" and n3: "sem_nsems sma3 = sem_nsems sma"
    using t by (simp_all add: tag_of_def same_identity_def)
  note a = arr_in_set [OF wf inv at]
  have e: "ns' = put_arr i s ((ns_undo ns)(a \<mapsto> \<lparr>un_ulp = ulp, un_semid = semid, semadj = replicate (sem_nsems sma) 0\<rparr>))
      (ns_wake ns) (set_proc ulp l ns)"
    using a(1,2) f(2,5) n3
    by (simp add: ns' put_ctx_def put_sma_def link_undo_def ctx_of_def c_nsems_def s_def [symmetric] put_arr_def)
  show ?thesis
  proof (rule that [of s])
    show "ids_inv cfg (ns_ids ns')"
      using ids_inv_put_obj [OF ns_invD(1) [OF inv] at f(4)] by (simp add: e put_arr_def)
  qed (simp_all add: e f)
qed

lemma link_ns_inv:
  assumes wf: "wf_cfg cfg" and inv: "ns_inv cfg ns" and at: "arr ns i = Some sma" and t: "tag_of sma3 = tag_of sma"
    and u: "ns_ulists ns ulp \<noteq> None" and fresh: "ns_undo ns a = None"
    and one: "\<And>b. b \<in> set (procs ns ulp) \<Longrightarrow> un_semid (the (ns_undo ns b)) \<noteq> perm_id sma"
    and ns': "ns' = put_ctx cfg (set_proc ulp (a # procs ns ulp) ns)
      (unlock_ctx SEM_GLOBAL_LOCK (link_undo a ulp (perm_id sma) (ctx_of (set_proc ulp (a # procs ns ulp) ns) sma3)))"
  shows "ns_inv cfg ns'" and "ns_task_ul ns' = ns_task_ul ns"
proof -
  note l = ns_invD(2) [OF inv]
  obtain s where f: "arr ns' = (arr ns)(i \<mapsto> s)" "list_id s = a # list_id sma" "perm_id s = perm_id sma"
      "sem_nsems s = sem_nsems sma" "ids_inv cfg (ns_ids ns')"
      "ns_undo ns' = (ns_undo ns)(a \<mapsto> \<lparr>un_ulp = ulp, un_semid = perm_id sma, semadj = replicate (sem_nsems sma) 0\<rparr>)"
      "ns_ulists ns' = ns_ulists (set_proc ulp (a # procs ns ulp) ns)" "ns_task_ul ns' = ns_task_ul ns" "used_sems ns' = used_sems ns"
    by (rule link_fields [OF wf inv at t ns'])
  show "ns_task_ul ns' = ns_task_ul ns" by (rule f(8))
  have pr: "procs ns' v = (if v = ulp then a # procs ns ulp else procs ns v)" for v
    using set_proc_simps(7) [of ulp "a # procs ns ulp" ns v] by (simp add: procs_def f(7))
  have nol: "b \<noteq> a" if "arr ns j = Some x" "b \<in> set (list_id x)" for b j x
    using links_arrE [OF l that] fresh by (metis option.discI)
  have nop: "b \<noteq> a" if "b \<in> set (procs ns v)" for b v
    using links_procE [OF l that] fresh by (metis option.discI)
  have old: "ns_undo ns' b = ns_undo ns b" if "b \<noteq> a" for b using that by (simp add: f(6))
  have "undo_links ns'" unfolding undo_links_def
  proof (intro conjI allI impI)
    show "distinct (list_id x)" if "arr ns' j = Some x" for j x
      using that undo_linksD(1) [OF l] nol [OF at] at f(2) by (cases "j = i") (auto simp: f(1))
    show "distinct (procs ns' v)" for v using undo_linksD(2) [OF l] nop by (auto simp: pr)
    show "\<exists>un. ns_undo ns' b = Some un \<and> un_semid un = perm_id x \<and> b \<in> set (procs ns' (un_ulp un))"
      if x: "arr ns' j = Some x" and b: "b \<in> set (list_id x)" for j x b
    proof (cases "b = a")
      case True
      have "j = i" using x b nol [of j x b] True by (auto simp: f(1) split: if_splits)
      then show ?thesis using True x f(3) by (simp add: f(1,6) pr)
    next
      case False
      obtain y where y: "arr ns j = Some y" "b \<in> set (list_id y)" "perm_id y = perm_id x"
        using x b at False f(2,3) by (cases "j = i") (auto simp: f(1))
      obtain un where "ns_undo ns b = Some un" "un_semid un = perm_id y" "b \<in> set (procs ns (un_ulp un))"
        by (rule links_arrE [OF l y(1,2)])
      then show ?thesis using y(3) old [OF False] by (auto simp: pr)
    qed
    show "\<exists>un j x. ns_undo ns' b = Some un \<and> un_ulp un = v \<and> arr ns' j = Some x \<and>
        un_semid un = perm_id x \<and> b \<in> set (list_id x)" if b: "b \<in> set (procs ns' v)" for v b
    proof (cases "b = a")
      case True
      have v: "v = ulp" using b nop [of b v] True by (auto simp: pr split: if_splits)
      show ?thesis using True v f(2,3) by (intro exI [of _ "the (ns_undo ns' a)"] exI [of _ i] exI [of _ s]) (simp add: f(1,6))
    next
      case False
      then have "b \<in> set (procs ns v)" using b by (auto simp: pr split: if_splits)
      from links_procE [OF l this] obtain un j x where un: "ns_undo ns b = Some un" "un_ulp un = v" "arr ns j = Some x"
          "un_semid un = perm_id x" "b \<in> set (list_id x)" by metis
      obtain y where "arr ns' j = Some y" "perm_id y = perm_id x" "b \<in> set (list_id y)"
        using un(3,5) at f(2,3) by (cases "j = i") (auto simp: f(1))
      then show ?thesis using un old [OF False] by metis
    qed
    show "b = d" if "b \<in> set (procs ns' v)" "d \<in> set (procs ns' v)"
        "un_semid (the (ns_undo ns' b)) = un_semid (the (ns_undo ns' d))" for v b d
    proof -
      have "x = a \<or> x \<noteq> a \<and> x \<in> set (procs ns v)" if "x \<in> set (procs ns' v)" for x
        using that nop by (auto simp: pr split: if_splits)
      moreover have "v = ulp" if "a \<in> set (procs ns' v)" using that nop [of a v] by (auto simp: pr split: if_splits)
      moreover have "un_semid (the (ns_undo ns' a)) = perm_id sma" by (simp add: f(6))
      ultimately show ?thesis
        using that one [of b] one [of d] undo_linksD(3) [OF l, of b v d] old [of b] old [of d] by metis
    qed
  qed
  moreover have "list_refs ns'"
    using list_refs_set_proc [OF ns_invD(3) [OF inv] u, of "a # procs ns ulp"]
    by (simp add: list_refs_def f(7,8) users_def)
  moreover have "sems_total ns' = sems_total ns"
    using at f(4) by (auto simp: sems_total_def f(1) insert_absorb domI intro!: sum.cong)
  ultimately show "ns_inv cfg ns'" using f(5,9) ns_invD(4) [OF inv] by (simp add: ns_inv_def)
qed

text \<open>What other tasks do while a task without locks is about to link an undo structure at address \<open>a\<close>.\<close>

definition bystander :: "ipc_cfg \<Rightarrow> task \<Rightarrow> addr \<Rightarrow> (sem_ns \<Rightarrow> sem_ns) \<Rightarrow> bool" where
  "bystander cfg t a other \<longleftrightarrow>
     (\<forall>ns. ns_inv cfg ns \<longrightarrow> ns_inv cfg (other ns) \<and> ns_task_ul (other ns) t = ns_task_ul ns t \<and>
        (ns_undo ns a = None \<longrightarrow> ns_undo (other ns) a = None))"

lemma obtain_id:
  assumes wf: "wf_cfg cfg" and inv: "ns_inv cfg ns" and "0 \<le> i" and ob: "sem_obtain_object_check cfg ns i = Inr sma"
  shows "perm_id sma = i"
proof -
  have ids: "ids_inv cfg (ns_ids ns)" by (rule ns_invD(1) [OF inv])
  from ob have "ipc_obtain_object_check cfg (ns_ids ns) i = Inr sma" by (simp add: sem_obtain_object_check_def)
  then have "arr ns (ipcid_to_idx cfg i) = Some sma" "ipcid_to_seqx cfg i = perm_seq sma"
    using ipc_obtain_object_check_iff [OF wf ids] by blast+
  then show ?thesis using wf assms(3) ids_invD(1) [OF ids] by (auto simp: wf_cfg_def obj_ok_def)
qed

lemma put_sma_simps [simp]:
  "ns_undo (put_sma cfg ns sma) = ns_undo ns" "ns_task_ul (put_sma cfg ns sma) = ns_task_ul ns"
  "ns_ulists (put_sma cfg ns sma) = ns_ulists ns"
  by (simp_all add: put_sma_def)

lemma task_list: "ns_inv cfg ns \<Longrightarrow> ns_task_ul ns t = Some u \<Longrightarrow> ns_ulists ns u \<noteq> None"
  using ns_invD(3) unfolding list_refs_def by blast

lemma find_alloc_undo_inv:
  assumes wf: "wf_cfg cfg" and inv: "ns_inv cfg ns" and o: "bystander cfg (current_task env) (new_undo_addr hk) other"
    and fresh: "ns_ulists ns (new_ulist_addr hk) = None" "ns_undo ns (new_undo_addr hk) = None" and id: "0 \<le> semid"
    and run: "find_alloc_undo cfg env hk other ns semid = (r, ns')"
  shows "ns_inv cfg ns'"
proof -
  let ?t = "current_task env" and ?a = "new_undo_addr hk"
  obtain r1 ns1 where g: "get_undo_list hk ?t ns = (r1, ns1)" by force
  note g1 = get_undo_list_inv [OF inv fresh(1) g]
  show ?thesis
  proof (cases r1)
    case (Inl e)
    then show ?thesis using run g g1(1) by (simp add: find_alloc_undo_def)
  next
    case (Inr ulp)
    note tl = g1(2) [OF Inr]
    obtain r2 ns2 where lk: "lookup_undo ulp semid ns1 = (r2, ns2)" by force
    note i2 = lookup_undo_inv [OF g1(1) task_list [OF g1(1) tl] lk]
    show ?thesis
    proof (cases "r2 = None \<and> (\<exists>sma. sem_obtain_object_check cfg ns2 semid = Inr sma \<and> fst (ipc_rcu_getref sma))")
      case False
      then have "ns' = ns2"
        using run g lk Inr
        by (auto simp: find_alloc_undo_def split: option.splits sum.splits prod.splits if_splits)
      then show ?thesis using i2(1) by simp
    next
      case True
      then obtain sma sma1 where ob: "sem_obtain_object_check cfg ns2 semid = Inr sma" and r2: "r2 = None"
        and gr: "ipc_rcu_getref sma = (True, sma1)" by (metis (full_types) prod.collapse)
      note at = arr_in_set [OF wf i2(1) obtain_arr [OF ob]]
      define ns3 where "ns3 = other (put_sma cfg ns2 sma1)"
      have p2: "ns_inv cfg (put_sma cfg ns2 sma1)" by (rule put_sma_inv [OF i2(1) linked_tag [OF at(3) tag_of_getref [OF gr]]])
      have i3: "ns_inv cfg ns3" "ns_task_ul ns3 ?t = Some ulp" "ns_undo ns3 ?a = None"
        using o p2 tl i2(3,4) g1(4) fresh(2) by (simp_all add: bystander_def ns3_def)
      define sma2 where "sma2 = reget cfg ns3 sma1"
      define sma3 where "sma3 = sem_lock_and_putref sma2"
      have t3: "tag_of sma3 = tag_of sma2" by (simp add: sma3_def)
      have l3: "linked cfg n s" if "tag_of s = tag_of sma2" "arr n = arr ns3" for s n
        using linked_tag [OF linked_reget [of cfg ns3 sma1] that(1) [unfolded sma2_def]] that(2) by (simp add: linked_def)
      obtain r4 ns4 where lk4: "lookup_undo ulp semid ns3 = (r4, ns4)" by force
      note i4 = lookup_undo_inv [OF i3(1) task_list [OF i3(1,2)] lk4]
      define ns6 where "ns6 = put_ctx cfg (set_proc ulp (?a # procs ns4 ulp) ns4)
          (unlock_ctx SEM_GLOBAL_LOCK (link_undo ?a ulp semid (ctx_of (set_proc ulp (?a # procs ns4 ulp) ns4) sma3)))"
      have c: "(\<exists>s. ns' = put_sma cfg ns3 s \<and> tag_of s = tag_of sma2) \<or> (\<exists>s. ns' = put_sma cfg ns4 s \<and> tag_of s = tag_of sma2) \<or>
          \<not> deleted sma3 \<and> r4 = None \<and> ns' = ns6"
        using run t3
        by (auto simp: find_alloc_undo_def g Inr lk r2 ob gr Let_def ns3_def [symmetric] sma2_def [symmetric]
            sma3_def [symmetric] lk4 proc_of_procs [OF i4(5)] ns6_def valid_object [OF wf] split: option.splits if_splits)
      have sid: "perm_id sma2 = semid"
        using obtain_id [OF wf i2(1) id ob] tag_of_getref [OF gr]
        by (auto simp: sma2_def reget_def tag_of_def split: option.splits)
      have "ns_inv cfg ns6" if d: "\<not> deleted sma3" and r4: "r4 = None"
      proof -
        have "linked cfg ns4 sma3" by (rule l3 [OF t3 i4(2)])
        then obtain s where s: "arr ns4 (ipcid_to_idx cfg (perm_id sma3)) = Some s" "tag_of s = tag_of sma3"
          using d by (auto simp: linked_def)
        have ps: "perm_id s = semid" using s(2) t3 sid by (simp add: tag_of_def)
        show ?thesis unfolding ns6_def ps [symmetric]
          by (rule link_ns_inv(1) [OF wf i4(1) s(1) s(2) [symmetric] i4(5) _ _ refl])
            (use i3(3) i4(3) i4(6) [OF r4] ps in simp_all)
      qed
      with c show ?thesis using put_sma_inv [OF i3(1) l3] put_sma_inv [OF i4(1) l3 [OF _ i4(2)]] by auto
    qed
  qed
qed

lemma do_semtimedop_inv:
  assumes wf: "wf_cfg cfg" and inv: "ns_inv cfg ns" and o: "bystander cfg (current_task env) (new_undo_addr hk) other1"
    and o2: "keeps_inv cfg other2"
    and fresh: "ns_ulists ns (new_ulist_addr hk) = None" "ns_undo ns (new_undo_addr hk) = None"
    and run: "do_semtimedop cfg env hk other1 other2 r1 r2 ns semid tsops n timeout = (r, ns')"
  shows "ns_inv cfg ns'"
proof -
  define early where "early = (\<lambda>ns1. ns_inv cfg ns1 \<and> (ns' = ns1 \<or> (\<exists>sma q out c. sem_obtain_object_check cfg ns1 semid = Inr sma \<and>
     semtimedop_start cfg (ktime_get_real_seconds env) (current_task env) r1 r2 q (ctx_of ns1 sma) = (out, c) \<and>
     ns' = put_ctx cfg ns1 c)))"
  have e1: "early ns1" if "ns_inv cfg ns1" "ns' = ns1" for ns1 using that by (simp add: early_def)
  have e2: "early ns1" if "ns_inv cfg ns1" "sem_obtain_object_check cfg ns1 semid = Inr sma"
      "semtimedop_start cfg (ktime_get_real_seconds env) (current_task env) r1 r2 q (ctx_of ns1 sma) = (out, c)"
      "ns' = put_ctx cfg ns1 c" for ns1 sma q out c
    unfolding early_def using that by blast
  have fin: "ns_inv cfg ns'" if e: "early ns1" for ns1
  proof -
    have i1: "ns_inv cfg ns1" using e by (simp add: early_def)
    from e consider "ns' = ns1" | sma q out c where "sem_obtain_object_check cfg ns1 semid = Inr sma"
      "semtimedop_start cfg (ktime_get_real_seconds env) (current_task env) r1 r2 q (ctx_of ns1 sma) = (out, c)"
      "ns' = put_ctx cfg ns1 c" unfolding early_def by blast
    then show ?thesis
    proof cases
      case 2
      note a = arr_in_set [OF wf i1 obtain_arr [OF 2(1)]]
      show ?thesis unfolding 2(3) by (rule kept_ctx_inv [OF i1 a(3,2) kept_semtimedop_start [OF 2(2)]])
    qed (simp add: i1)
  qed
  show ?thesis
  proof (cases "ns' = ns")
    case False
    then have id: "0 \<le> semid" using run by (auto simp: do_semtimedop_def split: if_splits)
    have "\<exists>ns1. early ns1"
    proof (cases "sc_undos (scan_sops (take n tsops))")
      case True
      obtain r1' ns1 where fa: "find_alloc_undo cfg env hk other1 ns semid = (r1', ns1)" by force
      note i1 = find_alloc_undo_inv [OF wf inv o fresh id fa]
      have i2: "ns_inv cfg (other2 ns1)" using o2 i1 by (simp add: keeps_inv_def)
      have "early ns1 \<or> early (other2 ns1)"
        using run True fa i1 i2 False
        by (auto simp: do_semtimedop_def Let_def split: if_splits option.splits sum.splits prod.splits intro: e1 e2)
      then show ?thesis by blast
    next
      case nou: False
      have "early ns"
        using run nou inv False
        by (auto simp: do_semtimedop_def Let_def split: if_splits option.splits sum.splits prod.splits intro: e1 e2)
      then show ?thesis by blast
    qed
    then show ?thesis using fin by blast
  qed (simp add: inv)
qed

lemma copy_semundo_inv:
  assumes inv: "ns_inv cfg ns" and fresh: "ns_ulists ns (new_ulist_addr hk) = None" and new: "ns_task_ul ns tsk = None"
    and t: "tsk \<noteq> t" and run: "copy_semundo hk t b tsk ns = (r, ns')"
  shows "ns_inv cfg ns'"
proof (cases b)
  case False
  then have "ns' = ns" using run new by (simp add: copy_semundo_def fun_upd_idem)
  then show ?thesis using inv by simp
next
  case True
  obtain r1 ns1 where g: "get_undo_list hk t ns = (r1, ns1)" by force
  note g1 = get_undo_list_inv [OF inv fresh g]
  show ?thesis
  proof (cases r1)
    case (Inl e)
    then show ?thesis using run True g g1(1) by (simp add: copy_semundo_def)
  next
    case (Inr ulp)
    then obtain l where l: "ns_ulists ns1 ulp = Some l" using task_list [OF g1(1) g1(2) [OF Inr]] by blast
    have e: "ns' = ns1\<lparr>ns_ulists := (ns_ulists ns1)(ulp \<mapsto> l\<lparr>refcnt := refcnt l + 1\<rparr>), ns_task_ul := (ns_task_ul ns1)(tsk \<mapsto> ulp)\<rparr>"
      using run True g Inr l by (simp add: copy_semundo_def)
    have n1: "ns_task_ul ns1 tsk = None" using g1(5) t new by metis
    have us: "users ns' u = (if u = ulp then insert tsk (users ns1 u) else users ns1 u)" for u
      using n1 by (auto simp: users_def e)
    have nin: "tsk \<notin> users ns1 ulp" using n1 by (simp add: users_def)
    have pr: "procs ns' u = procs ns1 u" for u using l by (simp add: procs_def e)
    have "undo_links ns'"
      by (rule undo_links_reorder [OF ns_invD(2) [OF g1(1)]]) (simp_all add: pr undo_linksD(2) [OF ns_invD(2) [OF g1(1)]], simp_all add: e)
    moreover have "list_refs ns'"
      using ns_invD(3) [OF g1(1)] l nin unfolding list_refs_def us by (auto simp: e)
    moreover have "sems_total ns' = sems_total ns1" by (simp add: sems_total_def e)
    ultimately show ?thesis using ns_invD(1,4) [OF g1(1)] by (simp add: ns_inv_def e)
  qed
qed

subsection \<open>Exit of a process\<close>

lemma exit_locked_kept:
  "kept (c\<lparr>c_sma := (c_sma c)\<lparr>list_id := remove1 un (list_id (c_sma c))\<rparr>\<rparr>) (exit_sem_locked now tgid un c)"
proof -
  have "kept d (exit_adjust tgid un i d)" for i d
    using kept_trans [OF kept_basic(1,3)] by (simp add: exit_adjust_def Let_def)
  then have "kept d (fold (exit_adjust tgid un) is d)" for "is" d by (rule kept_fold)
  from kept_trans [OF kept_trans [OF this kept_smart_update(1)] kept_unlock]
  show ?thesis unfolding exit_sem_locked_def Let_def .
qed

lemma undo_links_unlink:
  assumes l: "undo_links ns" and p: "procs ns ulp = un # rest"
    and f: "ns_undo ns un = Some U" "un_ulp U = ulp" "arr ns i = Some sma" "un_semid U = perm_id sma" "un \<in> set (list_id sma)"
    and inj: "\<And>j x. arr ns j = Some x \<Longrightarrow> perm_id x = perm_id sma \<Longrightarrow> j = i"
    and ar: "arr ns' = (arr ns)(i \<mapsto> s)" and g: "list_id s = remove1 un (list_id sma)" "perm_id s = perm_id sma"
    and und: "ns_undo ns' = m" and uk: "undo_kept (ns_undo ns) m"
    and pr: "\<And>v. procs ns' v = (if v = ulp then rest else procs ns v)"
  shows "undo_links ns'"
proof -
  have nrest: "un \<notin> set rest" using undo_linksD(2) [OF l, of ulp] p by simp
  have nun: "un \<notin> set (procs ns' v)" for v
  proof (cases "v = ulp")
    case False
    have "un \<notin> set (procs ns v)"
    proof
      assume "un \<in> set (procs ns v)"
      from links_procE [OF l this] show False using f(1,2) False by (metis option.inject)
    qed
    then show ?thesis using False by (simp add: pr)
  qed (simp add: pr nrest)
  have sub: "b \<in> set (procs ns v)" if "b \<in> set (procs ns' v)" for b v using that p by (auto simp: pr split: if_splits)
  have sup: "b \<in> set (procs ns' v)" if "b \<in> set (procs ns v)" "b \<noteq> un" for b v using that p by (auto simp: pr split: if_splits)
  have sid: "un_semid (the (ns_undo ns' b)) = un_semid (the (ns_undo ns b))" if "b \<in> set (procs ns v)" for b v
    using links_procE [OF l that] undo_keptD [OF uk] by (metis option.sel und)
  show ?thesis unfolding undo_links_def
  proof (intro conjI allI impI)
    show "distinct (list_id x)" if "arr ns' j = Some x" for j x
      using that undo_linksD(1) [OF l] f(3) g(1) by (cases "j = i") (auto simp: ar)
    show "distinct (procs ns' v)" for v using undo_linksD(2) [OF l, of v] p by (auto simp: pr)
    show "\<exists>un'. ns_undo ns' b = Some un' \<and> un_semid un' = perm_id x \<and> b \<in> set (procs ns' (un_ulp un'))"
      if x: "arr ns' j = Some x" and b: "b \<in> set (list_id x)" for j x b
    proof -
      obtain y where y: "arr ns j = Some y" "b \<in> set (list_id y)" "perm_id y = perm_id x" "b \<noteq> un"
      proof (cases "j = i")
        case True
        then show ?thesis using that [of sma] x b f(3) g undo_linksD(1) [OF l f(3)] by (auto simp: ar)
      next
        case False
        then have y: "arr ns j = Some x" using x by (simp add: ar)
        have "b \<noteq> un"
        proof
          assume "b = un"
          then have "perm_id x = perm_id sma" using links_arrE [OF l y b] f(1,4) by (metis option.inject)
          then show False using inj [OF y] False by simp
        qed
        then show ?thesis using that [OF y b] by simp
      qed
      obtain V where V: "ns_undo ns b = Some V" "un_semid V = perm_id y" "b \<in> set (procs ns (un_ulp V))"
        by (rule links_arrE [OF l y(1,2)])
      obtain V' where "m b = Some V'" "un_semid V' = un_semid V" "un_ulp V' = un_ulp V"
        using undo_keptD [OF uk V(1)] by blast
      then show ?thesis using V sup [OF V(3) y(4)] y(3) by (simp add: und)
    qed
    show "\<exists>V j x. ns_undo ns' b = Some V \<and> un_ulp V = v \<and> arr ns' j = Some x \<and>
        un_semid V = perm_id x \<and> b \<in> set (list_id x)" if b: "b \<in> set (procs ns' v)" for v b
    proof -
      have bu: "b \<noteq> un" using b nun [of v] by auto
      from links_procE [OF l sub [OF b]] obtain V j x where V: "ns_undo ns b = Some V" "un_ulp V = v" "arr ns j = Some x"
          "un_semid V = perm_id x" "b \<in> set (list_id x)" by metis
      obtain V' where V': "m b = Some V'" "un_semid V' = un_semid V" "un_ulp V' = un_ulp V"
        using undo_keptD [OF uk V(1)] by blast
      obtain y where "arr ns' j = Some y" "perm_id y = perm_id x" "b \<in> set (list_id y)"
        using V(3,5) f(3) g bu by (cases "j = i") (auto simp: ar)
      then show ?thesis using V V' und by metis
    qed
    show "b = d" if "b \<in> set (procs ns' v)" "d \<in> set (procs ns' v)"
        "un_semid (the (ns_undo ns' b)) = un_semid (the (ns_undo ns' d))" for v b d
      using that sid [OF sub [OF that(1)]] sid [OF sub [OF that(2)]]
      by (intro undo_linksD(3) [OF l, of b v d]) (simp_all add: sub)
  qed
qed

lemma exit_turn_inv:
  assumes wf: "wf_cfg cfg" and inv: "ns_inv cfg ns" and u: "ns_ulists ns ulp \<noteq> None" and p: "procs ns ulp = un # rest"
  obtains ns' where "exit_sem_turn cfg now tgid ulp ns = Some ns'" and "ns_inv cfg ns'" and "procs ns' ulp = rest"
    and "ns_ulists ns' ulp \<noteq> None" and "ns_task_ul ns' = ns_task_ul ns"
proof -
  note l = ns_invD(2) [OF inv] and ids = ns_invD(1) [OF inv]
  have un: "un \<in> set (procs ns ulp)" using p by simp
  obtain U i sma where f: "ns_undo ns un = Some U" "un_ulp U = ulp" "arr ns i = Some sma" "un_semid U = perm_id sma"
      "un \<in> set (list_id sma)" by (rule links_procE [OF l un])
  note a = arr_in_set [OF wf inv f(3)]
  have pos: "perm_id sma \<noteq> -1"
    using ids_invD(1) [OF ids f(3)] by (auto simp: obj_ok_def) (smt (verit) mult_nonneg_nonneg zero_le_power)
  define s1 where "s1 = sem_lock_all sma"
  define ns1 where "ns1 = set_proc ulp rest ns"
  define c where "c = exit_sem_locked now tgid un (ctx_of ns1 s1)"
  define ns' where "ns' = put_ctx cfg ns1 c"
  have t1: "tag_of s1 = tag_of sma" by (simp add: s1_def)
  have run: "exit_sem_turn cfg now tgid ulp ns = Some ns'"
    using obtain_own_id [OF wf ids f(3)] a(2) deleted_tag [OF t1] f(1,4) pos p
    by (simp add: exit_sem_turn_def proc_of_procs [OF u] sem_obtain_object_check_def s1_def [symmetric] valid_object [OF wf]
        ns1_def [symmetric] ns'_def c_def)
  have k: "kept (ctx_of ns1 (s1\<lparr>list_id := remove1 un (list_id s1)\<rparr>)) c"
    using exit_locked_kept [where c = "ctx_of ns1 s1" and un = un and now = now and tgid = tgid] by (simp add: ctx_of_def c_def)
  have t: "tag_of (c_sma c) = tag_of (s1\<lparr>list_id := remove1 un (list_id s1)\<rparr>)"
    using k by (intro tag_of_head) (simp add: kept_def ctx_of_def)
  then have g: "list_id (c_sma c) = remove1 un (list_id sma)" "sem_nsems (c_sma c) = sem_nsems sma"
      "perm_id (c_sma c) = perm_id sma" "same_identity (c_sma c) sma" "deleted (c_sma c) = deleted sma"
    using t1 by (simp_all add: tag_of_def same_identity_def)
  have uk: "undo_kept (ns_undo ns) (c_undo c)" using k by (simp add: kept_def ctx_of_def ns1_def)
  have e: "ns' = put_arr i (c_sma c) (c_undo c) (ns_wake ns @ c_wake c) ns1"
    using a(1,2) g(3,5) by (simp add: ns'_def put_ctx_def put_sma_def put_arr_def ns1_def)
  have pr: "procs ns' v = (if v = ulp then rest else procs ns v)" for v by (simp add: e ns1_def)
  have ar: "arr ns' = (arr ns)(i \<mapsto> c_sma c)" and und: "ns_undo ns' = c_undo c" by (simp_all add: e ns1_def)
  have inj: "j = i" if "arr ns j = Some x" "perm_id x = perm_id sma" for j x
    using arr_in_set(1) [OF wf inv that(1)] a(1) that(2) by simp
  have "undo_links ns'"
    by (rule undo_links_unlink [OF l p f inj ar g(1,3) und uk pr])
  moreover have "list_refs ns'"
    using list_refs_set_proc [OF ns_invD(3) [OF inv] u, of rest] by (simp add: list_refs_def e ns1_def)
  moreover have "sems_total ns' = sems_total ns"
    using f(3) g(2) by (auto simp: sems_total_def ar insert_absorb domI intro!: sum.cong)
  moreover have "ids_inv cfg (ns_ids ns')"
    using ids_inv_put_obj [OF ids f(3) g(4)] by (simp add: e put_arr_def ns1_def)
  ultimately have "ns_inv cfg ns'" using ns_invD(4) [OF inv] by (simp add: ns_inv_def e ns1_def)
  then show ?thesis
    by (rule that [OF run]) (simp_all add: pr e ns1_def, simp add: set_proc_def)
qed

lemma exit_turn_done: "procs ns ulp = [] \<Longrightarrow> ns_ulists ns ulp \<noteq> None \<Longrightarrow> exit_sem_turn cfg now tgid ulp ns = None"
  by (simp add: exit_sem_turn_def proc_of_procs)

lemma exit_loop_inv:
  assumes wf: "wf_cfg cfg" and "ns_inv cfg ns" and "ns_ulists ns ulp \<noteq> None" and "users ns ulp = {}"
  shows "\<exists>ns'. exit_sem_loop cfg now tgid ulp ns = Some ns' \<and> ns_inv cfg ns' \<and> ns_ulists ns' ulp = None \<and>
    ns_task_ul ns' = ns_task_ul ns"
  using assms(2-)
proof (induction "procs ns ulp" arbitrary: ns)
  case Nil
  define ns' where "ns' = ns\<lparr>ns_ulists := (ns_ulists ns)(ulp := None)\<rparr>"
  note inv = Nil.prems(1)
  have pr: "procs ns' v = procs ns v" for v using Nil.hyps by (simp add: ns'_def procs_def)
  have "undo_links ns'"
    by (rule undo_links_reorder [OF ns_invD(2) [OF inv]])
      (simp_all add: pr undo_linksD(2) [OF ns_invD(2) [OF inv]], simp_all add: ns'_def)
  moreover have "list_refs ns'"
    using ns_invD(3) [OF inv] Nil.prems(3) by (auto simp: list_refs_def ns'_def users_def)
  ultimately have "ns_inv cfg ns'" using ns_invD(1,4) [OF inv] by (simp add: ns_inv_def ns'_def sems_total_def)
  then show ?case
    using exit_turn_done [OF Nil.hyps [symmetric] Nil.prems(2)]
    by (subst exit_sem_loop.simps) (simp add: ns'_def [symmetric], simp add: ns'_def)
next
  case (Cons un rest)
  obtain ns1 where t: "exit_sem_turn cfg now tgid ulp ns = Some ns1" "ns_inv cfg ns1" "procs ns1 ulp = rest"
      "ns_ulists ns1 ulp \<noteq> None" "ns_task_ul ns1 = ns_task_ul ns"
    by (rule exit_turn_inv [OF wf Cons.prems(1,2) Cons.hyps(2) [symmetric]])
  have "users ns1 ulp = {}" using Cons.prems(3) t(5) by (simp add: users_def)
  from Cons.hyps(1) [OF t(3) [symmetric] t(2,4) this] t(1,5) show ?case
    by (subst exit_sem_loop.simps) simp
qed

lemma exit_sem_inv_ns:
  assumes wf: "wf_cfg cfg" and inv: "ns_inv cfg ns"
  shows "\<exists>ns'. exit_sem cfg now tgid tsk ns = Some ns' \<and> ns_inv cfg ns' \<and> ns_task_ul ns' tsk = None \<and>
    (\<forall>u. users ns u = {tsk} \<longrightarrow> ns_ulists ns' u = None)"
proof (cases "ns_task_ul ns tsk")
  case None
  then have "tsk \<notin> users ns u" for u by (simp add: users_def)
  then have "users ns u \<noteq> {tsk}" for u by blast
  then show ?thesis using None inv by (simp add: exit_sem_def)
next
  case (Some ulp)
  note refs = ns_invD(3) [OF inv]
  obtain l where l: "ns_ulists ns ulp = Some l" using task_list [OF inv Some] by blast
  have card: "finite (users ns ulp)" "refcnt l = int (card (users ns ulp))" using refs l unfolding list_refs_def by blast+
  have tin: "tsk \<in> users ns ulp" using Some by (simp add: users_def)
  define ns2 where "ns2 = ns\<lparr>ns_task_ul := (ns_task_ul ns)(tsk := None),
      ns_ulists := (ns_ulists ns)(ulp \<mapsto> l\<lparr>refcnt := refcnt l - 1\<rparr>)\<rparr>"
  have us: "users ns2 u = users ns u - {tsk}" for u by (auto simp: users_def ns2_def)
  have ou: "tsk \<notin> users ns u" if "u \<noteq> ulp" for u using that Some by (simp add: users_def)
  have pr: "procs ns2 u = procs ns u" for u using l by (simp add: procs_def ns2_def)
  have "undo_links ns2"
    by (rule undo_links_reorder [OF ns_invD(2) [OF inv]])
      (simp_all add: pr undo_linksD(2) [OF ns_invD(2) [OF inv]], simp_all add: ns2_def)
  moreover have "list_refs ns2"
    using refs l card tin ou unfolding list_refs_def us
    by (auto simp: ns2_def int_ops(6) card_gt_0_iff Suc_le_eq)
  ultimately have i2: "ns_inv cfg ns2" using ns_invD(1,4) [OF inv] by (simp add: ns_inv_def ns2_def sems_total_def)
  have run: "exit_sem cfg now tgid tsk ns = (if refcnt l - 1 \<noteq> 0 then Some ns2 else exit_sem_loop cfg now tgid ulp ns2)"
    using Some l by (simp add: exit_sem_def ns2_def Let_def)
  have only: "u = ulp" if "users ns u = {tsk}" for u
    using that Some singletonI [of tsk] unfolding users_def that [symmetric] by simp
  show ?thesis
  proof (cases "refcnt l - 1 = 0")
    case False
    then have "users ns ulp \<noteq> {tsk}" using card by auto
    then show ?thesis using False run i2 only by (auto simp: ns2_def)
  next
    case True
    then have "card (users ns ulp) = 1" using card(2) by simp
    then have "users ns ulp = {tsk}" using tin by (metis card_1_singletonE singletonD)
    then have "users ns2 ulp = {}" by (simp add: us)
    from exit_loop_inv [OF wf i2 _ this, of now tgid] obtain ns' where
      "exit_sem_loop cfg now tgid ulp ns2 = Some ns'" "ns_inv cfg ns'" "ns_ulists ns' ulp = None" "ns_task_ul ns' = ns_task_ul ns2"
      by (auto simp: ns2_def)
    then show ?thesis using run True only by (auto simp: ns2_def)
  qed
qed

end
