(* ===== verification/Sem_Process.thy ===== *)
theory Sem_Process
  imports Sem_Namespace
begin

text \<open>
  A namespace of semaphore arrays as a transition system: the system calls of \<open>ipc/sem.c\<close> and the
  hooks at \<open>clone\<close> and \<open>exit\<close> and the turns of sleeping operations, with the calls of other tasks in the windows in which a handler holds
  no lock.  The properties that span the system calls.
\<close>

section \<open>The transition system\<close>

datatype sem_call = CallSemget | CallSemctl | CallSemop | CallResume | CallClone | CallExit

text \<open>
  A turn of the sleep loop of \<open>do_semtimedop\<close> for the array at index \<open>i\<close>.  When the array was removed meanwhile
  the memory is still there, but the object is not valid any more: the call ends with the status that it
  saw without the lock and changes nothing.  A turn wakes nobody.
\<close>

definition do_semtimedop_resume ::
    "ipc_cfg \<Rightarrow> task \<Rightarrow> u32 \<Rightarrow> u32 \<Rightarrow> errno option \<Rightarrow> bool \<Rightarrow> bool \<Rightarrow> sembuf list \<Rightarrow> int \<Rightarrow> sem_ns
       \<Rightarrow> semop_outcome \<times> sem_ns" where
  "do_semtimedop_resume cfg current r1 r2 status timed_out signal sops i ns =
     (case arr ns i of
        None \<Rightarrow> (Returned status, ns)
      | Some sma \<Rightarrow>
          (case semtimedop_resume cfg current r1 r2 status timed_out signal sops ((ctx_of ns sma)\<lparr>c_wake := ns_wake ns\<rparr>) of
             (out, c) \<Rightarrow> (out, put_ctx cfg ns (c\<lparr>c_wake := []\<rparr>))))"

lemma kept_unlink: "kept c (unlink_queue p dn rest q c)"
  by (rule kept_fewer [OF fewer_queue(2), of False]) simp

lemma kept_unlink_sleeper: "kept c (unlink_sleeper t c)"
  using kept_unlink by (auto simp: unlink_sleeper_def split: option.split prod.split)

lemma kept_semtimedop_resume:
  assumes "semtimedop_resume cfg t r1 r2 status timed_out signal sops c = (out, c')"
  shows "kept c c'"
proof -
  obtain k sma where s: "sem_lock r1 r2 (c_sma c) sops (int (length sops)) = (k, sma)" by force
  have k: "kept c (c\<lparr>c_sma := sma\<rparr>)" by (rule kept_sma [OF head_of_lock [OF s]])
  show ?thesis
    using assms k kept_trans [OF k kept_unlock] kept_trans [OF kept_trans [OF k kept_unlink_sleeper] kept_unlock]
    by (auto simp: semtimedop_resume_def s Let_def split: if_splits)
qed

lemma do_semtimedop_resume_inv:
  assumes wf: "wf_cfg cfg" and inv: "ns_inv cfg ns"
    and run: "do_semtimedop_resume cfg t r1 r2 status timed_out signal sops i ns = (out, ns')"
  shows "ns_inv cfg ns'"
proof (cases "arr ns i")
  case (Some sma)
  obtain c where r: "semtimedop_resume cfg t r1 r2 status timed_out signal sops ((ctx_of ns sma)\<lparr>c_wake := ns_wake ns\<rparr>) = (out, c)"
    and ns': "ns' = put_ctx cfg ns (c\<lparr>c_wake := []\<rparr>)"
    using run Some by (auto simp: do_semtimedop_resume_def split: prod.splits)
  have "kept (ctx_of ns sma) (c\<lparr>c_wake := []\<rparr>)" using kept_semtimedop_resume [OF r] by (simp add: kept_def)
  note a = arr_in_set [OF wf inv Some]
  from kept_ctx_inv [OF inv a(3,2)] show ?thesis unfolding ns' by (simp add: \<open>kept (ctx_of ns sma) (c\<lparr>c_wake := []\<rparr>)\<close>)
qed (use run inv in \<open>simp add: do_semtimedop_resume_def\<close>)

text \<open>
  \<open>ns_run\<close> is a sequence of calls.  In a window other tasks run a sequence of calls; they do not
  change which undo list the waiting task uses, nor do they get the address that the allocator
  gives to it.
\<close>

inductive ns_step :: "ipc_cfg \<Rightarrow> sem_ns \<Rightarrow> sem_call \<Rightarrow> sem_ns \<Rightarrow> bool"
  and ns_run :: "ipc_cfg \<Rightarrow> sem_ns \<Rightarrow> sem_ns \<Rightarrow> bool"
  for cfg :: ipc_cfg
where
  call_semget: "idr_alloc_ok orc \<Longrightarrow> ksys_semget cfg env orc hk z1 z2 ns k nsems flg = (r, ns') \<Longrightarrow>
     ns_step cfg ns CallSemget ns'"
| call_semctl: "(\<And>n. ns_run cfg n (other n)) \<Longrightarrow>
     ksys_semctl cfg env hk other ns semid semnum cmd arg vals64 perm64 version = (r, out, ns') \<Longrightarrow>
     ns_step cfg ns CallSemctl ns'"
| call_semop: "(\<And>n. ns_run cfg n (other1 n)) \<Longrightarrow> (\<And>n. ns_run cfg n (other2 n)) \<Longrightarrow>
     (\<And>n. ns_task_ul (other1 n) (current_task env) = ns_task_ul n (current_task env)) \<Longrightarrow>
     (\<And>n. ns_undo n (new_undo_addr hk) = None \<Longrightarrow> ns_undo (other1 n) (new_undo_addr hk) = None) \<Longrightarrow>
     ns_ulists ns (new_ulist_addr hk) = None \<Longrightarrow> ns_undo ns (new_undo_addr hk) = None \<Longrightarrow>
     do_semtimedop cfg env hk other1 other2 r1 r2 ns semid tsops n timeout = (r, ns') \<Longrightarrow>
     ns_step cfg ns CallSemop ns'"
| call_resume: "do_semtimedop_resume cfg t r1 r2 status timed_out signal sops i ns = (out, ns') \<Longrightarrow> ns_step cfg ns CallResume ns'"
| call_clone: "ns_ulists ns (new_ulist_addr hk) = None \<Longrightarrow> ns_task_ul ns tsk = None \<Longrightarrow> tsk \<noteq> t \<Longrightarrow>
     copy_semundo hk t b tsk ns = (r, ns') \<Longrightarrow> ns_step cfg ns CallClone ns'"
| call_exit: "exit_sem cfg now tgid tsk ns = Some ns' \<Longrightarrow> ns_step cfg ns CallExit ns'"
| run_none: "ns_run cfg ns ns"
| run_call: "ns_run cfg ns ns1 \<Longrightarrow> ns_step cfg ns1 ev ns2 \<Longrightarrow> ns_run cfg ns ns2"

text \<open>After \<open>sem_init_ns\<close>, before any task has an undo list.\<close>

definition ns_start :: "ipc_cfg \<Rightarrow> sem_ns \<Rightarrow> bool" where
  "ns_start cfg ns \<longleftrightarrow> wf_cfg cfg \<and>
     (\<exists>ns0. ns = sem_init_ns ns0 \<and> ns_ulists ns0 = (\<lambda>_. None) \<and> ns_task_ul ns0 = (\<lambda>_. None))"

lemma ns_start_inv: "ns_start cfg ns \<Longrightarrow> ns_inv cfg ns"
  using ids_inv_init [of cfg]
  by (auto simp: ns_start_def sem_init_ns_def ns_inv_def undo_links_def list_refs_def sems_total_def procs_def
      ipc_init_ids_def)

lemma ns_step_inv_aux:
  assumes wf: "wf_cfg cfg"
  shows "ns_step cfg ns ev ns' \<Longrightarrow> ns_inv cfg ns \<longrightarrow> ns_inv cfg ns'"
    and "ns_run cfg ns ns' \<Longrightarrow> ns_inv cfg ns \<longrightarrow> ns_inv cfg ns'"
proof (induction rule: ns_step_ns_run.inducts)
  case (call_semget orc env hk z1 z2 ns k nsems flg r ns')
  then show ?case using ksys_semget_inv [OF wf] by blast
next
  case (call_semctl other env hk ns semid semnum cmd arg vals64 perm64 version r out ns')
  have "keeps_inv cfg other" using call_semctl(2) by (simp add: keeps_inv_def)
  then show ?case using ksys_semctl_inv [OF wf _ _ call_semctl(3)] by blast
next
  case (call_semop other1 other2 env hk ns r1 r2 semid tsops n timeout r ns')
  have "bystander cfg (current_task env) (new_undo_addr hk) other1"
    using call_semop(2,6,7) by (simp add: bystander_def)
  moreover have "keeps_inv cfg other2" using call_semop(4) by (simp add: keeps_inv_def)
  ultimately show ?case using do_semtimedop_inv [OF wf] call_semop(5,8,9) by blast
next
  case (call_resume t r1 r2 status timed_out signal sops i ns out ns')
  then show ?case using do_semtimedop_resume_inv [OF wf] by blast
next
  case (call_clone ns hk tsk t b r ns')
  then show ?case using copy_semundo_inv by blast
next
  case (call_exit now tgid tsk ns ns')
  then show ?case using exit_sem_inv_ns [OF wf, of ns now tgid tsk] by auto
qed blast+

interpretation sem_ns_sys: inv_system "ns_start cfg" "ns_step cfg" "\<lambda>ns. wf_cfg cfg \<and> ns_inv cfg ns" for cfg
proof unfold_locales
  show "wf_cfg cfg \<and> ns_inv cfg ns" if "ns_start cfg ns" for ns
    using that ns_start_inv by (simp add: ns_start_def)
  show "wf_cfg cfg \<and> ns_inv cfg ns'" if "wf_cfg cfg \<and> ns_inv cfg ns" "ns_step cfg ns ev ns'" for ns ev ns'
    using that ns_step_inv_aux(1) by blast
qed

section \<open>Sample environment\<close>

definition sample_hk :: sem_hooks where
  "sample_hk =
     \<lparr>security_sem_alloc = (\<lambda>_. None), security_sem_associate = (\<lambda>_ _. None),
      security_sem_semctl = (\<lambda>_ _. None), security_sem_semop = (\<lambda>_ _ _. None), mem_ok = True,
      ulist_mem_ok = True, user_ok = True, new_undo_addr = 7, new_ulist_addr = 3,
      pid_vnr = (\<lambda>p. case p of None \<Rightarrow> 0 | Some x \<Rightarrow> int x)\<rparr>"

definition blank_ns :: sem_ns where
  "blank_ns =
     \<lparr>ns_ids = ipc_init_ids, ns_undo = (\<lambda>_. None), ns_ulists = (\<lambda>_. None), ns_task_ul = (\<lambda>_. None),
      ns_wake = [], used_sems = 0, sc_semmsl = 0, sc_semmns = 0, sc_semopm = 0, sc_semmni = 0\<rparr>"

definition sample_ns :: sem_ns where
  "sample_ns = sem_init_ns blank_ns"

lemma ns_start_sample: "ns_start sample_cfg sample_ns"
  unfolding ns_start_def sample_ns_def using wf_sample_cfg by (auto simp: blank_ns_def)

lemma sample_semget:
  "fst (ksys_semget sample_cfg sample_env sample_orc sample_hk 128 64 sample_ns 0 2 0x180) = Inr 0 \<and>
   used_sems (snd (ksys_semget sample_cfg sample_env sample_orc sample_hk 128 64 sample_ns 0 2 0x180)) = 2"
  by code_simp

definition array_ns :: sem_ns where
  "array_ns = snd (ksys_semget sample_cfg sample_env sample_orc sample_hk 128 64 sample_ns 0 2 0x180)"

definition undo_ns :: sem_ns where
  "undo_ns = snd (do_semtimedop sample_cfg sample_env sample_hk id id 1 1 array_ns 0
     [\<lparr>sem_num = 0, sem_op = 5, sem_flg = SEM_UNDO\<rparr>] 1 None)"

lemma array_ns_inv: "ns_inv sample_cfg array_ns"
  unfolding array_ns_def
  by (rule ksys_semget_inv [OF wf_sample_cfg idr_alloc_ok_sample ns_start_inv [OF ns_start_sample] prod.collapse [symmetric]])

lemma undo_ns_inv: "ns_inv sample_cfg undo_ns"
proof -
  have "bystander sample_cfg (current_task sample_env) (new_undo_addr sample_hk) id" "keeps_inv sample_cfg id"
    by (simp_all add: bystander_def keeps_inv_def)
  moreover have "ns_ulists array_ns (new_ulist_addr sample_hk) = None" "ns_undo array_ns (new_undo_addr sample_hk) = None"
    by code_simp+
  ultimately show ?thesis
    unfolding undo_ns_def by (intro do_semtimedop_inv [OF wf_sample_cfg array_ns_inv _ _ _ _ prod.collapse [symmetric]])
qed

section \<open>Properties\<close>

text \<open>
  C3.  Every reachable namespace is consistent: the identifier set is well formed, the undo
  structures an array lists are those the process groups list, one per process group and array,
  every undo list has as many references as tasks that use it, and \<open>used_sems\<close> is the number of
  semaphores of all arrays.
\<close>

theorem namespace_reachable_inv:
  assumes "reach (ns_start cfg) (ns_step cfg) ns"
  shows "ns_inv cfg ns"
  using sem_ns_sys.reach_inv [OF assms] by simp

theorem namespace_reachable_inv_witness:
  "\<exists>ns. reach (ns_start sample_cfg) (ns_step sample_cfg) ns \<and> used_sems ns = 2 \<and> ns_inv sample_cfg ns"
proof -
  obtain r ns where g: "ksys_semget sample_cfg sample_env sample_orc sample_hk 128 64 sample_ns 0 2 0x180 = (r, ns)"
    by force
  have "ns_step sample_cfg sample_ns CallSemget ns" by (rule call_semget [OF idr_alloc_ok_sample g])
  with reach_start [of "ns_start sample_cfg", OF ns_start_sample]
  have r: "reach (ns_start sample_cfg) (ns_step sample_cfg) ns" by (rule reach_step)
  moreover have "used_sems ns = 2" using sample_semget g by simp
  ultimately show ?thesis using namespace_reachable_inv [OF r] by blast
qed

text \<open>
  C19.  Exit of a task in a consistent namespace returns: the loop over the undo structures ends.
  The task has no undo list any more; when it was the last user of its list, the list is freed and
  no array lists an undo structure of this process group.
\<close>

theorem exit_sem_returns:
  assumes "wf_cfg cfg" and "ns_inv cfg ns"
  shows "\<exists>ns'. exit_sem cfg now tgid tsk ns = Some ns' \<and> ns_inv cfg ns' \<and> ns_task_ul ns' tsk = None \<and>
    (\<forall>u. users ns u = {tsk} \<longrightarrow> ns_ulists ns' u = None \<and>
       (\<forall>i sma a un. ipcs_idr (ns_ids ns') i = Some sma \<and> a \<in> set (list_id sma) \<and> ns_undo ns' a = Some un \<longrightarrow>
          un_ulp un \<noteq> u))"
proof -
  obtain ns' where e: "exit_sem cfg now tgid tsk ns = Some ns'" "ns_inv cfg ns'" "ns_task_ul ns' tsk = None"
      "\<And>u. users ns u = {tsk} \<Longrightarrow> ns_ulists ns' u = None"
    using exit_sem_inv_ns [OF assms] by blast
  have "un_ulp un \<noteq> u" if "ns_ulists ns' u = None" "arr ns' i = Some sma" "a \<in> set (list_id sma)" "ns_undo ns' a = Some un"
    for u i sma a un
  proof -
    have "a \<in> set (procs ns' (un_ulp un))"
      using links_arrE [OF ns_invD(2) [OF e(2)] that(2,3)] that(4) by (metis option.inject)
    then show ?thesis using that(1) by (auto simp: procs_def)
  qed
  with e show ?thesis by blast
qed

theorem exit_sem_returns_witness:
  "ns_task_ul undo_ns 1 = Some 3 \<and> proc_of undo_ns 3 = [7] \<and>
   (\<exists>ns'. exit_sem sample_cfg 100 1 1 undo_ns = Some ns' \<and> ns_inv sample_cfg ns' \<and> ns_task_ul ns' 1 = None)"
proof -
  have "ns_task_ul undo_ns 1 = Some 3" "proc_of undo_ns 3 = [7]" by code_simp+
  then show ?thesis using exit_sem_returns [OF wf_sample_cfg undo_ns_inv] by blast
qed

text \<open>
  The successful outcomes of \<open>semget\<close>: either the key is in use and the call returns the
  identifier of that array, which has enough semaphores and grants the requested access, or the
  key is \<open>IPC_PRIVATE\<close> or unused with \<open>IPC_CREAT\<close> and the identifier, unknown before, finds a new
  array of the requested size with all values zero and nobody waiting.
\<close>

theorem semget_success:
  assumes "wf_cfg cfg" and "idr_alloc_ok orc" and "ns_inv cfg ns"
    and run: "ksys_semget cfg env orc hk z1 z2 ns k nsems flg = (Inr semid, ns')"
  shows "(\<exists>sma. k \<noteq> IPC_PRIVATE \<and> ipc_findkey (ns_ids ns) k = Some sma \<and> semid = perm_id sma \<and> ns' = ns \<and>
        \<not> (has_flag flg IPC_CREAT \<and> has_flag flg IPC_EXCL) \<and> nsems \<le> int (sem_nsems sma) \<and>
        ipcperms env sma (ucast flg) = None) \<or>
    (\<exists>sma. (k = IPC_PRIVATE \<or> ipc_findkey (ns_ids ns) k = None \<and> has_flag flg IPC_CREAT) \<and>
        sem_obtain_object_check cfg ns semid = Inl EINVAL \<and> sem_obtain_object_check cfg ns' semid = Inr sma \<and>
        perm_id sma = semid \<and> key sma = k \<and> int (sem_nsems sma) = nsems \<and> sem_start (ctx_of ns' sma))"
    (is "?old \<or> ?new")
proof -
  let ?p = "\<lparr>par_key = k, par_flg = flg, par_nsems = nsems\<rparr>"
  have c: "?old \<or> 0 \<le> nsems \<and> (k = IPC_PRIVATE \<or> ipc_findkey (ns_ids ns) k = None \<and> has_flag flg IPC_CREAT) \<and>
      newary cfg env orc hk z1 z2 ns ?p = (Inr semid, ns')"
    using run by (auto simp: ksys_semget_def ipcget_def ipcget_new_def ipcget_public_def Let_def sem_more_checks_def
        ipc_check_perms_def split: if_splits option.splits)
  show ?thesis
  proof (cases ?old)
    case False
    then have n: "0 \<le> nsems" and k: "k = IPC_PRIVATE \<or> ipc_findkey (ns_ids ns) k = None \<and> has_flag flg IPC_CREAT"
      and na: "newary cfg env orc hk z1 z2 ns ?p = (Inr semid, ns')" using c by blast+
    have k': "par_key ?p = IPC_PRIVATE \<or> ipc_findkey (ns_ids ns) (par_key ?p) = None" using k by auto
    obtain idx sma where f: "arr ns idx = None" "arr ns' = (arr ns)(idx \<mapsto> sma)" "ids_inv cfg (ns_ids ns')" "perm_id sma = semid"
        "key sma = k" "fresh_array sma (nat nsems)" "nsems \<noteq> 0"
      by (rule newary_Inr [OF assms(1,2) ns_invD(1) [OF assms(3)] k' na]) simp
    have at: "arr ns' idx = Some sma" by (simp add: f(2))
    have "sem_obtain_object_check cfg ns' semid = Inr sma"
      using obtain_own_id [OF assms(1) f(3) at] f(4) by (simp add: sem_obtain_object_check_def)
    moreover have "ipcid_to_idx cfg semid = idx" using obj_ok_decode(1) [OF assms(1) ids_invD(1) [OF f(3) at]] f(4) by simp
    then have "sem_obtain_object_check cfg ns semid = Inl EINVAL"
      using f(1) by (simp add: sem_obtain_object_check_def ipc_obtain_object_check_def ipc_obtain_object_idr_def)
    moreover have "sem_start (ctx_of ns' sma)" using fresh_array_start [OF f(6)] n f(7) by simp
    moreover have "int (sem_nsems sma) = nsems" using f(6) n by (simp add: fresh_array_def)
    ultimately have ?new using k f(4,5) by blast
    then show ?thesis ..
  qed blast
qed

theorem semget_success_witness:
  "\<exists>sma ns'. ksys_semget sample_cfg sample_env sample_orc sample_hk 128 64 sample_ns 0 2 0x180 = (Inr 0, ns') \<and>
     sem_obtain_object_check sample_cfg ns' 0 = Inr sma \<and> sem_nsems sma = 2 \<and> sem_start (ctx_of ns' sma)"
proof -
  obtain ns' where g: "ksys_semget sample_cfg sample_env sample_orc sample_hk 128 64 sample_ns 0 2 0x180 = (Inr 0, ns')"
    using sample_semget by (metis prod.collapse)
  have k: "(0::int) = IPC_PRIVATE" by (simp add: IPC_PRIVATE_def)
  show ?thesis
    using semget_success [OF wf_sample_cfg idr_alloc_ok_sample ns_start_inv [OF ns_start_sample] g] g k by auto
qed

end
