(* ===== verification/Sem_Values.thy ===== *)
theory Sem_Values
  imports Sem_Process
begin

text \<open>
  What \<open>semctl\<close> and \<open>exit_sem\<close> do to the values of an array on which nobody waits: setting and
  reading of all values is a round trip, and the adjustments at exit are clamped to the range of
  semaphore values.
\<close>

section \<open>Arrays without waiters\<close>

definition no_waiters :: "sem_ctx \<Rightarrow> bool" where
  "no_waiters c \<longleftrightarrow> (\<forall>p. valid_pend (c_nsems c) p \<longrightarrow> queue_of p c = [])"

lemma no_waitersD:
  assumes "no_waiters c"
  shows "pending_alter (c_sma c) = []" and "pending_const (c_sma c) = []"
    and "i < c_nsems c \<Longrightarrow> queue_of (SAlter i) c = []" and "i < c_nsems c \<Longrightarrow> queue_of (SConst i) c = []"
proof -
  have q: "queue_of p c = []" if "valid_pend (c_nsems c) p" for p using assms that unfolding no_waiters_def by blast
  show "pending_alter (c_sma c) = []" "pending_const (c_sma c) = []" using q [of GAlter] q [of GConst] by (simp_all add: get_list.simps)
  show "i < c_nsems c \<Longrightarrow> queue_of (SAlter i) c = []" "i < c_nsems c \<Longrightarrow> queue_of (SConst i) c = []"
    by (rule q, simp)+
qed

lemma zero_loop_no_waiters:
  assumes "no_waiters c" and "\<forall>i \<in> set nums. i < c_nsems c"
  shows "\<exists>got'. zero_loop nums got fin c = (got', fin, c)"
  using assms(2)
proof (induction nums arbitrary: got)
  case (Cons i nums)
  have "wake_const_ops (Some i) c = (False, c)"
    using no_waitersD(4) [OF assms(1), of i] Cons.prems by (simp add: wake_const_ops_def)
  then show ?case using Cons by simp
qed simp

lemma update_nums_no_waiters:
  assumes "no_waiters c" and "\<forall>i \<in> set nums. i < c_nsems c"
  shows "update_nums nums ot c = (ot, c)"
  using assms(2)
proof (induction nums)
  case (Cons i nums)
  have "update_queue (Some i) c = (False, c)"
    using no_waitersD(3) [OF assms(1), of i] Cons.prems by (simp add: update_queue_def alter_list_def)
  then show ?case using Cons by simp
qed simp

lemma smart_update_no_waiters:
  assumes "no_waiters c"
  shows "do_smart_update now None ot c = (if ot then set_semotime now None c else c)"
proof -
  obtain got where "zero_loop [0..<c_nsems c] False False c = (got, False, c)"
    using zero_loop_no_waiters [OF assms, of "[0..<c_nsems c]" False False] by auto
  moreover have "wake_const_ops None c = (False, c)"
    using no_waitersD(2) [OF assms] by (simp add: wake_const_ops_def get_list.simps)
  ultimately have "do_smart_wakeup_zero None c = (False, c)" by (simp add: do_smart_wakeup_zero_def)
  then show ?thesis
    using no_waitersD(1) [OF assms] update_nums_no_waiters [OF assms, of "[0..<c_nsems c]"]
    by (simp add: do_smart_update_def Let_def)
qed

lemma no_waiters_same_queues: "no_waiters c \<Longrightarrow> same_queues c c' \<Longrightarrow> no_waiters c'"
  by (simp add: no_waiters_def same_queues_def same_shape_def)

section \<open>Values under locking and reference counting\<close>

definition svals :: "sem_array \<Rightarrow> int list" where
  "svals sma = map semval (sems sma)"

lemma vals_svals: "vals c = svals (c_sma c)"
  by (simp add: vals_def svals_def)

lemma svals_set_list: "svals (set_list p l sma) = svals sma"
  by (cases p) (simp_all add: svals_def upd_sem_def list_update_map_id)

lemma svals_ops [simp]:
  "svals (sem_lock_all sma) = svals sma" "svals (sem_unlock sma k) = svals sma"
  "svals (snd (ipc_rcu_putref sma)) = svals sma" "svals (snd (ipc_rcu_getref sma)) = svals sma"
  "svals (sem_lock_and_putref sma) = svals sma" "svals (sma\<lparr>deleted := d\<rparr>) = svals sma"
proof -
  show "svals (sma\<lparr>deleted := d\<rparr>) = svals sma" by (simp add: svals_def)
  have e: "svals (complexmode_enter s) = svals s" "svals (complexmode_tryleave s) = svals s" for s
    by (simp_all add: complexmode_enter_def complexmode_tryleave_def svals_def)
  show l: "svals (sem_lock_all sma) = svals sma" for sma by (simp add: sem_lock_all_def sem_lock_def e)
  have "svals (s\<lparr>pending_alter := l\<rparr>) = svals s" for s l by (simp add: svals_def)
  moreover have "svals (fold (\<lambda>q. list_add_tail (f q) q) l s) = svals s" for f l s
    by (rule fold_keeps [of svals]) (simp add: list_add_tail_def svals_set_list)
  ultimately have "svals (unmerge_queues s) = svals s" for s by (simp add: unmerge_queues_def)
  then show "svals (sem_unlock sma k) = svals sma" by (simp add: sem_unlock_def e)
  show p: "svals (snd (ipc_rcu_putref s)) = svals s" for s by (simp add: ipc_rcu_putref_def svals_def Let_def)
  show "svals (snd (ipc_rcu_getref sma)) = svals sma" by (simp add: ipc_rcu_getref_def svals_def)
  show "svals (sem_lock_and_putref sma) = svals sma" by (simp add: sem_lock_and_putref_def p l)
qed

lemma setall_values_vals:
  assumes "length sem_io = c_nsems c" and "length (sems (c_sma c)) = c_nsems c" and "n \<le> c_nsems c"
  shows "vals (setall_values tgid sem_io [0..<n] c) = take n sem_io @ drop n (vals c) \<and>
    same_queues c (setall_values tgid sem_io [0..<n] c)"
  using assms(3)
proof (induction n)
  case (Suc n)
  define c1 where "c1 = setall_values tgid sem_io [0..<n] c"
  have ih: "vals c1 = take n sem_io @ drop n (vals c)" "same_queues c c1" using Suc by (simp_all add: c1_def)
  have e: "setall_values tgid sem_io [0..<Suc n] c = ipc_update_pid n (Some tgid) (set_semval n (sem_io ! n) c1)"
    by (simp add: setall_values_def c1_def)
  have "(take n sem_io @ drop n (vals c))[n := sem_io ! n] = take (Suc n) sem_io @ drop (Suc n) (vals c)"
    using Suc.prems assms by (simp add: list_update_append take_Suc_conv_app_nth vals_def drop_map [symmetric] Cons_nth_drop_Suc [symmetric])
  then show ?case
    unfolding e using ih same_queues_trans same_queues_sem(1,2) by (metis vals_updates(1,2))
qed (simp add: setall_values_def)

lemma setall_locked_vals:
  assumes nw: "no_waiters c" and len: "length sem_io = c_nsems c" "length (sems (c_sma c)) = c_nsems c"
  shows "vals (setall_locked now tgid sem_io c) = sem_io"
proof -
  define c1 where "c1 = setall_values tgid sem_io [0..<c_nsems c] c"
  have v: "vals c1 = sem_io" "same_queues c c1"
    using setall_values_vals [OF len, of "c_nsems c" tgid] len by (simp_all add: c1_def vals_def)
  define c2 where "c2 = fold (\<lambda>un. fold (\<lambda>i. set_semadj (Some un) i 0) [0..<c_nsems c]) (list_id (c_sma c1)) c1"
  have "c_sma (fold (\<lambda>i. set_semadj (Some un) i 0) is d) = c_sma d" for un "is" d
    by (rule fold_keeps [of c_sma]) (simp add: set_semadj_def)
  then have s: "c_sma c2 = c_sma c1" unfolding c2_def by (rule fold_keeps [of c_sma])
  define c3 where "c3 = c2\<lparr>c_sma := (c_sma c2)\<lparr>sem_ctime := now\<rparr>\<rparr>"
  have "no_waiters c2" using no_waiters_same_queues [OF nw v(2)] by (simp add: no_waiters_def s c_nsems_def)
  then have "no_waiters c3" using no_waiters_same_queues same_queues_sem(3) unfolding c3_def by blast
  then have "setall_locked now tgid sem_io c = unlock_ctx SEM_GLOBAL_LOCK c3"
    unfolding setall_locked_def Let_def c1_def [symmetric] c2_def [symmetric] c3_def [symmetric]
    by (simp add: smart_update_no_waiters)
  then show ?thesis using v(1) by (simp add: vals_svals c3_def s) (simp add: svals_def)
qed

section \<open>SETALL and GETALL\<close>

lemma arr_put_ctx: "\<not> deleted (c_sma c) \<Longrightarrow> arr (put_ctx cfg ns c) = (arr ns)(ipcid_to_idx cfg (perm_id (c_sma c)) \<mapsto> c_sma c)"
  by (simp add: put_ctx_def put_sma_def put_obj_def)

lemma getall_out:
  assumes "getall cfg hk id ns sma = (Inr r, out, ns')" and "wf_cfg cfg"
    and "arr ns (ipcid_to_idx cfg (perm_id sma)) = Some sma" and n: "sem_nsems sma = length (sems sma)"
  shows "out = OutArray (map word_of_int (svals sma))"
proof -
  have fin: "map (\<lambda>i. word_of_int (semval (sems s ! i))) [0..<sem_nsems s] = (map word_of_int (svals sma) :: u16 list)"
    if "svals s = svals sma" "sem_nsems s = sem_nsems sma" for s
  proof -
    have l: "length (sems s) = sem_nsems s" using that n unfolding svals_def by (metis length_map)
    then have "map (\<lambda>i. word_of_int (semval (sems s ! i))) [0..<sem_nsems s] = (map word_of_int (svals s) :: u16 list)"
      by (intro nth_equalityI) (simp_all add: svals_def)
    then show ?thesis by (simp add: that)
  qed
  obtain b sma2 where g: "ipc_rcu_getref (sem_lock_all sma) = (b, sma2)" by force
  have t2: "tag_of sma2 = tag_of sma" "svals sma2 = svals sma"
    using tag_of_getref [OF g] svals_ops(4) [of "sem_lock_all sma"] g by simp_all
  define ns1 where "ns1 = put_sma cfg ns (sem_unlock sma2 SEM_GLOBAL_LOCK)"
  have r: "svals (reget cfg ns1 sma2) = svals sma" "sem_nsems (reget cfg ns1 sma2) = sem_nsems sma"
    using assms(3) t2 tag_of_ops(2) [of sma2 SEM_GLOBAL_LOCK]
    by (auto simp: ns1_def reget_def put_sma_def put_obj_def tag_of_def split: option.splits)
  have t: "sem_nsems (sem_lock_all s) = sem_nsems s" "sem_nsems (sem_lock_and_putref s) = sem_nsems s" for s
    using tag_of_ops(1,5) [of s] by (simp_all add: tag_of_def)
  let ?out = "\<lambda>s. OutArray (map (\<lambda>i. word_of_int (semval (sems s ! i))) [0..<sem_nsems s])"
  have "out = ?out (sem_lock_all sma) \<or> out = ?out (sem_lock_and_putref (reget cfg ns1 sma2))"
    using assms(1) by (auto simp: getall_def Let_def g ns1_def [symmetric] split: if_splits bool.splits)
  then show ?thesis
    using fin [of "sem_lock_all sma"] fin [of "sem_lock_and_putref (reget cfg ns1 sma2)"] r t by auto
qed

lemma setall_Inr:
  assumes "setall cfg env hk id ns sma usr = (Inr r, out, ns')" and wf: "wf_cfg cfg" and inv: "ns_inv cfg ns"
    and at: "arr ns i = Some sma"
  shows "\<exists>sma3. tag_of sma3 = tag_of sma \<and> sems sma3 = sems sma \<and> (\<forall>p. get_list p sma3 = get_list p sma) \<and>
    sem_nsems sma \<le> length usr \<and>
    ns' = put_ctx cfg (put_sma cfg ns (snd (ipc_rcu_getref sma)))
      (setall_locked (ktime_get_real_seconds env) (current_tgid env) (map uint (take (sem_nsems sma) usr))
        (ctx_of (put_sma cfg ns (snd (ipc_rcu_getref sma))) sma3))"
proof -
  note a = arr_in_set [OF wf inv at]
  obtain b sma1 where g: "ipc_rcu_getref sma = (b, sma1)" by force
  have t1: "tag_of sma1 = tag_of sma" by (rule tag_of_getref [OF g])
  have q1: "sems sma1 = sems sma \<and> (\<forall>p. get_list p sma1 = get_list p sma)"
  proof -
    have "get_list p (sma\<lparr>refcount := x\<rparr>) = get_list p sma" for p x by (cases p) (simp_all add: get_list.simps)
    then show ?thesis using g by (auto simp: ipc_rcu_getref_def split: if_splits)
  qed
  define ns1 where "ns1 = put_sma cfg ns sma1"
  have "arr ns1 (ipcid_to_idx cfg (perm_id sma1)) = Some sma1"
    using t1 a(1,2) deleted_tag [OF t1] by (simp add: ns1_def put_sma_def put_obj_def)
  then have rg: "reget cfg ns1 sma1 = sma1" by (simp add: reget_def)
  define sma3 where "sma3 = sem_lock_and_putref sma1"
  have q3: "sems sma3 = sems sma1 \<and> (\<forall>p. get_list p sma3 = get_list p sma1)"
  proof -
    have "get_list p (s\<lparr>refcount := x\<rparr>) = get_list p s" "get_list p (s\<lparr>use_global_lock := w\<rparr>) = get_list p s"
      for p x w and s :: sem_array by (cases p; simp add: get_list.simps)+
    then show ?thesis
      by (simp add: sma3_def sem_lock_and_putref_def ipc_rcu_putref_def sem_lock_all_def sem_lock_def complexmode_enter_def Let_def)
  qed
  have t3: "tag_of sma3 = tag_of sma" using t1 by (simp add: sma3_def)
  have "sem_nsems sma \<le> length usr \<and> ns' = put_ctx cfg ns1
      (setall_locked (ktime_get_real_seconds env) (current_tgid env) (map uint (take (sem_nsems sma) usr)) (ctx_of ns1 sma3))"
    using assms(1) by (auto simp: setall_def g Let_def ns1_def [symmetric] rg sma3_def [symmetric] split: bool.splits if_splits)
  then show ?thesis using t3 q1 q3 g by (intro exI [of _ sma3]) (simp add: ns1_def)
qed

text \<open>
   Round trip of the values: when nobody waits on the array, a successful \<open>GETALL\<close> after a
  successful \<open>SETALL\<close> returns exactly the values that were set, as many as the array has semaphores.
\<close>

theorem setall_getall_roundtrip:
  assumes wf: "wf_cfg cfg" and inv: "ns_inv cfg ns" and ob: "sem_obtain_object_check cfg ns semid = Inr sma"
    and nw: "no_waiters (ctx_of ns sma)" and len: "length (sems sma) = sem_nsems sma"
    and set: "semctl_main cfg env hk id ns semid n1 SETALL usr = (Inr r1, out1, ns')"
    and get: "semctl_main cfg env' hk' id ns' semid n2 GETALL usr' = (Inr r2, out2, ns'')"
  shows "out2 = OutArray (take (sem_nsems sma) usr)"
proof -
  note at = obtain_arr [OF ob] and a = arr_in_set [OF wf inv obtain_arr [OF ob]]
  have "setall cfg env hk id ns sma usr = (Inr r1, out1, ns')"
    using set ob by (auto simp: semctl_main_def split: if_splits option.splits)
  from setall_Inr [OF this wf inv at] obtain sma3 where s3: "tag_of sma3 = tag_of sma" "sems sma3 = sems sma"
      "\<forall>p. get_list p sma3 = get_list p sma" "sem_nsems sma \<le> length usr"
    and ns': "ns' = put_ctx cfg (put_sma cfg ns (snd (ipc_rcu_getref sma)))
      (setall_locked (ktime_get_real_seconds env) (current_tgid env) (map uint (take (sem_nsems sma) usr))
        (ctx_of (put_sma cfg ns (snd (ipc_rcu_getref sma))) sma3))" by blast
  define ns1 where "ns1 = put_sma cfg ns (snd (ipc_rcu_getref sma))"
  define sem_io where "sem_io = map uint (take (sem_nsems sma) usr)"
  define c where "c = setall_locked (ktime_get_real_seconds env) (current_tgid env) sem_io (ctx_of ns1 sma3)"
  have n3: "sem_nsems sma3 = sem_nsems sma" using s3(1) by (simp add: tag_of_def)
  have "vals c = sem_io" unfolding c_def
    by (rule setall_locked_vals)
      (use nw s3 len n3 in \<open>simp_all add: no_waiters_def ctx_of_def c_nsems_def sem_io_def\<close>)
  then have sv: "svals (c_sma c) = sem_io" by (simp add: vals_svals)
  have tc: "tag_of (c_sma c) = tag_of sma"
    using kept_setall [of "ctx_of ns1 sma3" "ktime_get_real_seconds env" "current_tgid env" sem_io] s3(1)
      tag_of_head [of "c_sma c" sma3] by (simp add: kept_def ctx_of_def c_def)
  have f: "perm_id (c_sma c) = perm_id sma" "perm_seq (c_sma c) = perm_seq sma" "\<not> deleted (c_sma c)"
      "sem_nsems (c_sma c) = sem_nsems sma" using tc a(2) by (simp_all add: tag_of_def)
  have "ns' = put_ctx cfg ns1 c" unfolding ns' c_def ns1_def sem_io_def ..
  then have at': "arr ns' (ipcid_to_idx cfg semid) = Some (c_sma c)"
    using f(1,3) a(1) by (simp add: arr_put_ctx)
  have "sem_obtain_object_check cfg ns' semid = Inr (c_sma c)"
    using ob at' at f(2) wf
    by (auto simp: sem_obtain_object_check_def ipc_obtain_object_check_def ipc_obtain_object_idr_def wf_cfg_def
        perm_of_def kern_ipc_perm.truncate_def split: if_splits)
  then have g: "getall cfg hk' id ns' (c_sma c) = (Inr r2, out2, ns'')"
    using get by (auto simp: semctl_main_def split: if_splits option.splits)
  have "length (sems (c_sma c)) = sem_nsems sma"
    using sv s3(4) unfolding svals_def sem_io_def by (metis length_map length_take min_absorb2)
  then have "out2 = OutArray (map word_of_int (svals (c_sma c)))"
    using getall_out [OF g wf] at' f(1,4) a(1) by simp
  then show ?thesis by (simp add: sv sem_io_def comp_def)
qed

lemma no_waitersI:
  assumes "pending_alter sma = []" and "pending_const sma = []" and "length (sems sma) = sem_nsems sma"
    and "list_all (\<lambda>s. sem_pending_alter s = [] \<and> sem_pending_const s = []) (sems sma)"
  shows "no_waiters (ctx_of ns sma)"
  unfolding no_waiters_def
proof (intro allI impI)
  fix p assume "valid_pend (c_nsems (ctx_of ns sma)) p"
  then show "queue_of p (ctx_of ns sma) = []"
    using assms by (cases p) (simp_all add: get_list.simps ctx_of_def c_nsems_def list_all_length)
qed

definition array_sma :: sem_array where
  "array_sma = projr (sem_obtain_object_check sample_cfg array_ns 0)"

lemma array_sma_facts:
  "sem_obtain_object_check sample_cfg array_ns 0 = Inr array_sma" "length (sems array_sma) = sem_nsems array_sma"
  "no_waiters (ctx_of array_ns array_sma)" "sem_nsems array_sma = 2"
proof -
  have "isl (sem_obtain_object_check sample_cfg array_ns 0) = False" by code_simp
  then show "sem_obtain_object_check sample_cfg array_ns 0 = Inr array_sma" unfolding array_sma_def by (metis sum.collapse(2))
  show l: "length (sems array_sma) = sem_nsems array_sma" and "sem_nsems array_sma = 2" by code_simp+
  show "no_waiters (ctx_of array_ns array_sma)" by (rule no_waitersI [OF _ _ l]) code_simp+
qed

definition set_ns :: sem_ns where
  "set_ns = snd (snd (semctl_main sample_cfg sample_env sample_hk id array_ns 0 0 SETALL [3, 4]))"

theorem setall_getall_roundtrip_witness:
  "fst (semctl_main sample_cfg sample_env sample_hk id set_ns 0 0 GETALL []) = Inr 0 \<and>
   fst (snd (semctl_main sample_cfg sample_env sample_hk id set_ns 0 0 GETALL [])) = OutArray [3, 4]"
proof -
  let ?s = "semctl_main sample_cfg sample_env sample_hk id array_ns 0 0 SETALL [3, 4]"
  let ?g = "semctl_main sample_cfg sample_env sample_hk id set_ns 0 0 GETALL []"
  have r: "fst ?s = Inr 0" "fst ?g = Inr 0" by code_simp+
  have s: "?s = (Inr 0, fst (snd ?s), set_ns)" unfolding set_ns_def using r(1) by (metis prod.collapse)
  have g: "?g = (Inr 0, fst (snd ?g), snd (snd ?g))" using r(2) by (metis prod.collapse)
  show ?thesis
    using setall_getall_roundtrip [OF wf_sample_cfg array_ns_inv array_sma_facts(1,3,2) s g] r(2)
    by (simp add: array_sma_facts(4))
qed

section \<open>Adjustments at exit\<close>

lemma fold_exit_adjust:
  assumes "length (sems (c_sma c)) = c_nsems c" and "n \<le> c_nsems c"
  shows "c_undo (fold (exit_adjust tgid un) [0..<n] c) = c_undo c \<and>
    length (sems (c_sma (fold (exit_adjust tgid un) [0..<n] c))) = c_nsems c \<and>
    vals (fold (exit_adjust tgid un) [0..<n] c) =
      map (\<lambda>i. if semadj_at c (Some un) i = 0 then semval_at c i
               else max 0 (min SEMVMX (semval_at c i + semadj_at c (Some un) i))) [0..<n] @ drop n (vals c)"
  using assms(2)
proof (induction n)
  case (Suc n)
  define d where "d = fold (exit_adjust tgid un) [0..<n] c"
  let ?f = "\<lambda>i. if semadj_at c (Some un) i = 0 then semval_at c i
               else max 0 (min SEMVMX (semval_at c i + semadj_at c (Some un) i))"
  have ih: "c_undo d = c_undo c" "length (sems (c_sma d)) = c_nsems c" "vals d = map ?f [0..<n] @ drop n (vals c)"
    using Suc by (simp_all add: d_def)
  have n: "n < length (sems (c_sma d))" "n < length (vals c)" using Suc.prems ih(2) assms(1) by (simp_all add: vals_def)
  have vc: "vals c ! n = semval_at c n" using n(2) by (intro vals_nth) (simp add: vals_def)
  have "semval_at d n = vals d ! n" using vals_nth [OF n(1)] by simp
  also have "\<dots> = semval_at c n" using n(2) vc by (simp add: ih(3) nth_append)
  finally have v: "semval_at d n = semval_at c n" .
  have a: "semadj_at d (Some un) n = semadj_at c (Some un) n" by (simp add: semadj_at_def undo_of_def ih(1))
  have e: "fold (exit_adjust tgid un) [0..<Suc n] c = exit_adjust tgid un n d" by (simp add: d_def)
  have dr: "drop n (vals c) = semval_at c n # drop (Suc n) (vals c)"
    using n(2) vc by (metis Cons_nth_drop_Suc)
  have "vals (exit_adjust tgid un n d) = (vals d)[n := ?f n]"
  proof (cases "semadj_at c (Some un) n = 0")
    case True
    have "(vals d)[n := semval_at c n] = vals d" using v vals_nth [OF n(1)] by (metis list_update_id)
    then show ?thesis using True a by (simp add: exit_adjust_def)
  next
    case False
    then show ?thesis using a v by (simp add: exit_adjust_def Let_def vals_updates max_def min_def SEMVMX_def)
  qed
  then have "vals (exit_adjust tgid un n d) = map ?f [0..<Suc n] @ drop (Suc n) (vals c)"
    by (simp add: ih(3) dr list_update_append)
  moreover have "c_undo (exit_adjust tgid un n d) = c_undo c" "length (sems (c_sma (exit_adjust tgid un n d))) = c_nsems c"
    using ih(1,2) by (simp_all add: exit_adjust_def set_semval_def ipc_update_pid_def upd_sem_def Let_def)
  ultimately show ?case unfolding e by blast
qed (use assms in \<open>simp add: vals_def\<close>)

lemma same_queues_exit: "same_queues c (fold (exit_adjust tgid un) is c)"
proof (induction "is" arbitrary: c)
  case (Cons i "is")
  have "same_queues c (exit_adjust tgid un i c)"
    using same_queues_trans [OF same_queues_sem(1,2)] by (simp add: exit_adjust_def Let_def)
  then show ?case using Cons same_queues_trans by fastforce
qed simp

text \<open>
  Exit of the last task of a process group, when nobody waits on the array: every semaphore
  with a non-zero recorded adjustment becomes its value plus the adjustment, clamped to the range
  from zero to \<open>SEMVMX\<close>, and the others keep their values.
\<close>

theorem exit_sem_clamps:
  assumes nw: "no_waiters c" and len: "length (sems (c_sma c)) = c_nsems c"
  shows "vals (exit_sem_locked now tgid un c) =
    map (\<lambda>i. if semadj_at c (Some un) i = 0 then semval_at c i
             else max 0 (min SEMVMX (semval_at c i + semadj_at c (Some un) i))) [0..<c_nsems c]"
proof -
  define c1 where "c1 = c\<lparr>c_sma := (c_sma c)\<lparr>list_id := remove1 un (list_id (c_sma c))\<rparr>\<rparr>"
  define c2 where "c2 = fold (exit_adjust tgid un) [0..<c_nsems c1] c1"
  have n1: "c_nsems c1 = c_nsems c" by (simp add: c1_def c_nsems_def)
  have l1: "length (sems (c_sma c1)) = c_nsems c" "length (vals c1) = c_nsems c" using len by (simp_all add: c1_def vals_def)
  have same: "semadj_at c1 = semadj_at c" "semval_at c1 = semval_at c"
    by (simp_all add: c1_def semadj_at_def [abs_def] semval_at_def [abs_def] undo_of_def)
  have "get_list p (sma\<lparr>list_id := l\<rparr>) = get_list p sma" for p l and sma :: sem_array
    by (cases p) (simp_all add: get_list.simps)
  then have "no_waiters c1" using nw n1 by (simp add: no_waiters_def c1_def)
  then have nw2: "no_waiters c2" unfolding c2_def using no_waiters_same_queues same_queues_exit by blast
  have e: "exit_sem_locked now tgid un c = unlock_ctx SEM_GLOBAL_LOCK (set_semotime now None c2)"
    using smart_update_no_waiters [OF nw2, of now True]
    by (simp add: exit_sem_locked_def c2_def c1_def Let_def)
  have "vals (exit_sem_locked now tgid un c) = vals c2"
    by (simp add: e vals_svals) (simp add: set_semotime_def svals_def upd_sem_def list_update_map_id)
  also have "\<dots> = map (\<lambda>i. if semadj_at c (Some un) i = 0 then semval_at c i
             else max 0 (min SEMVMX (semval_at c i + semadj_at c (Some un) i))) [0..<c_nsems c]"
    using fold_exit_adjust [of c1 "c_nsems c1" tgid un] len l1 same by (simp add: c2_def n1)
  finally show ?thesis .
qed

definition clamp_sma :: sem_array where
  "clamp_sma = (zero_sma 2)\<lparr>sem_nsems := 2, list_id := [7],
     sems := [zero_sem\<lparr>semval := 3\<rparr>, zero_sem\<lparr>semval := 32766\<rparr>]\<rparr>"

definition clamp_ctx :: sem_ctx where
  "clamp_ctx = ctx_of (blank_ns\<lparr>ns_undo := [7 \<mapsto> \<lparr>un_ulp = 3, un_semid = 0, semadj = [-5, 2]\<rparr>]\<rparr>) clamp_sma"

theorem exit_sem_clamps_witness:
  "vals clamp_ctx = [3, 32766] \<and> vals (exit_sem_locked 100 1 7 clamp_ctx) = [0, 32767]"
proof -
  have nw: "no_waiters clamp_ctx" unfolding clamp_ctx_def
    by (rule no_waitersI) (simp_all add: clamp_sma_def zero_sma_def zero_sem_def kern_ipc_perm.defs)
  have n: "c_nsems clamp_ctx = 2" and l: "length (sems (c_sma clamp_ctx)) = c_nsems clamp_ctx"
    by (simp_all add: clamp_ctx_def ctx_of_def c_nsems_def clamp_sma_def)
  have "[0..<2] = [0, 1 :: nat]" by (simp add: upt_rec)
  then have "vals (exit_sem_locked 100 1 7 clamp_ctx) = [0, 32767]"
    unfolding exit_sem_clamps [OF nw l] n
    by (simp add: semadj_at_def semval_at_def undo_of_def clamp_ctx_def ctx_of_def clamp_sma_def SEMVMX_def)
  then show ?thesis by (simp add: vals_def clamp_ctx_def ctx_of_def clamp_sma_def)
qed

end
