(* ===== verification/Msg_Queue.thy ===== *)
theory Msg_Queue
  imports Ipc_Ids
begin

text \<open>
  Message queues of \<open>ipc/msg.c\<close>: the data structures and the operations on one queue while its lock
  is held, up to sending and receiving.

  Receivers and senders live on the stacks of the sleeping tasks.  A receiver that was taken off
  the queue by somebody else carries its result in \<open>r_msg\<close> and is kept in \<open>mc_done\<close>, where the
  sleeper finds it; \<open>mc_wake\<close> is the log of the tasks handed to \<open>wake_up_q\<close>.  Sizes are \<open>u64\<close> like
  \<open>size_t\<close> and \<open>unsigned long\<close>, the counters of the namespace are \<open>u32\<close> like \<open>atomic_t\<close>.

  The functions of \<open>ipc/msgutil.c\<close> (\<open>load_msg\<close>, \<open>store_msg\<close>) and the security hooks are the record
  \<open>msg_hooks\<close>.
\<close>

section \<open>Data\<close>

type_synonym byte = "8 word"

record msg_msg =
  m_type :: int
  m_ts :: u64
  m_text :: "byte list"

datatype search_mode = SEARCH_ANY | SEARCH_EQUAL | SEARCH_NOTEQUAL | SEARCH_LESSEQUAL | SEARCH_NUMBER

record msg_receiver =
  r_tsk :: task
  r_mode :: search_mode
  r_msgtype :: int
  r_maxsize :: u64
  r_msg :: "errno + msg_msg"

record msg_sender =
  s_tsk :: task
  s_msgsz :: u64

record msg_queue = kern_ipc_perm +
  q_stime :: int
  q_rtime :: int
  q_ctime :: int
  q_cbytes :: u64
  q_qnum :: u64
  q_qbytes :: u64
  q_lspid :: "pid option"
  q_lrpid :: "pid option"
  q_messages :: "msg_msg list"
  q_receivers :: "msg_receiver list"
  q_senders :: "msg_sender list"

record msg_hooks =
  security_msg_queue_alloc :: "kern_ipc_perm \<Rightarrow> errno option"
  security_msg_queue_associate :: "kern_ipc_perm \<Rightarrow> u32 \<Rightarrow> errno option"
  security_msg_queue_msgctl :: "kern_ipc_perm option \<Rightarrow> ipc_cmd \<Rightarrow> errno option"
  security_msg_queue_msgsnd :: "kern_ipc_perm \<Rightarrow> msg_msg \<Rightarrow> u32 \<Rightarrow> errno option"
  security_msg_queue_msgrcv :: "kern_ipc_perm \<Rightarrow> msg_msg \<Rightarrow> task \<Rightarrow> int \<Rightarrow> search_mode \<Rightarrow> errno option"
  load_msg :: "byte list \<Rightarrow> u64 \<Rightarrow> errno + byte list"
  store_msg :: "byte list \<Rightarrow> u64 \<Rightarrow> byte list option"
  task_pid :: "task \<Rightarrow> pid"
  msg_pid_vnr :: "pid option \<Rightarrow> int"
  capable :: "capability \<Rightarrow> bool"
  msg_mem_ok :: bool
  msg_user_ok :: bool

text \<open>What an operation on one queue works on: the queue and the counters of its namespace.\<close>

record msg_ctx =
  mc_q :: msg_queue
  mc_bytes :: u32
  mc_hdrs :: u32
  mc_wake :: "task list"
  mc_done :: "msg_receiver list"

definition MSG_NOERROR :: u32 where "MSG_NOERROR = 0x1000"
definition MSG_EXCEPT :: u32 where "MSG_EXCEPT = 0x2000"
definition MSG_COPY :: u32 where "MSG_COPY = 0x4000"
definition INT_MAX :: u64 where "INT_MAX = 0x7FFFFFFF"
definition LONG_MAX :: int where "LONG_MAX = 2 ^ 63 - 1"
definition LONG_MIN :: int where "LONG_MIN = - (2 ^ 63)"

declare MSG_NOERROR_def [abi_defs] MSG_EXCEPT_def [abi_defs] MSG_COPY_def [abi_defs] INT_MAX_def [abi_defs]

section \<open>Senders\<close>

definition msg_fits_inqueue :: "msg_queue \<Rightarrow> u64 \<Rightarrow> bool" where
  "msg_fits_inqueue msq msgsz \<longleftrightarrow>
     msgsz + q_cbytes msq \<le> q_qbytes msq \<and> 1 + q_qnum msq \<le> q_qbytes msq"

definition ss_add :: "task \<Rightarrow> u64 \<Rightarrow> msg_queue \<Rightarrow> msg_queue" where
  "ss_add current msgsz msq = msq\<lparr>q_senders := q_senders msq @ [\<lparr>s_tsk = current, s_msgsz = msgsz\<rparr>]\<rparr>"

text \<open>The entry of a task; one that a removal has cut off is not on the list any more.\<close>

definition ss_del :: "task \<Rightarrow> msg_queue \<Rightarrow> msg_queue" where
  "ss_del current msq = msq\<lparr>q_senders := filter (\<lambda>s. s_tsk s \<noteq> current) (q_senders msq)\<rparr>"

text \<open>
  The loop of \<open>ss_wakeup\<close> over the senders in front of the cursor (\<open>dn\<close>) and from the cursor on.
  The successor is read before the body runs, so an entry that moves itself from the last place
  to the last place ends the loop.
\<close>

partial_function (option) ss_wakeup_loop ::
    "msg_queue \<Rightarrow> bool \<Rightarrow> task option \<Rightarrow> msg_sender list \<Rightarrow> msg_sender list \<Rightarrow> task list
       \<Rightarrow> (msg_sender list \<times> task list) option" where
  "ss_wakeup_loop msq kill stop_tsk dn todo wake_q =
     (case todo of
        [] \<Rightarrow> Some (dn, wake_q)
      | mss # rest \<Rightarrow>
          if kill then ss_wakeup_loop msq kill stop_tsk dn rest (wake_q @ [s_tsk mss])
          else if stop_tsk = Some (s_tsk mss) then Some (dn @ mss # rest, wake_q)
          else if \<not> msg_fits_inqueue msq (s_msgsz mss)
          then let stop = (if stop_tsk = None then Some (s_tsk mss) else stop_tsk)
               in if rest = [] then Some (dn @ [mss], wake_q)
                  else ss_wakeup_loop msq kill stop dn (rest @ [mss]) wake_q
          else ss_wakeup_loop msq kill stop_tsk (dn @ [mss]) rest (wake_q @ [s_tsk mss]))"

definition ss_wakeup :: "bool \<Rightarrow> msg_ctx \<Rightarrow> msg_ctx" where
  "ss_wakeup kill c =
     (case ss_wakeup_loop (mc_q c) kill None [] (q_senders (mc_q c)) [] of
        Some (l, w) \<Rightarrow> c\<lparr>mc_q := (mc_q c)\<lparr>q_senders := l\<rparr>, mc_wake := mc_wake c @ w\<rparr>
      | None \<Rightarrow> c)"

section \<open>Receivers\<close>

definition expunge_all :: "errno \<Rightarrow> msg_ctx \<Rightarrow> msg_ctx" where
  "expunge_all res c =
     c\<lparr>mc_q := (mc_q c)\<lparr>q_receivers := map (\<lambda>r. r\<lparr>r_msg := Inl res\<rparr>) (q_receivers (mc_q c))\<rparr>,
       mc_wake := mc_wake c @ map r_tsk (q_receivers (mc_q c))\<rparr>"

definition testmsg :: "msg_msg \<Rightarrow> int \<Rightarrow> search_mode \<Rightarrow> bool" where
  "testmsg msg type smode =
     (case smode of
        SEARCH_ANY \<Rightarrow> True
      | SEARCH_NUMBER \<Rightarrow> True
      | SEARCH_LESSEQUAL \<Rightarrow> m_type msg \<le> type
      | SEARCH_EQUAL \<Rightarrow> m_type msg = type
      | SEARCH_NOTEQUAL \<Rightarrow> m_type msg \<noteq> type)"

text \<open>The loop of \<open>pipelined_send\<close>: \<open>dn\<close> are the receivers that were passed over.\<close>

fun pipelined_loop ::
    "msg_hooks \<Rightarrow> int \<Rightarrow> msg_msg \<Rightarrow> msg_receiver list \<Rightarrow> msg_receiver list \<Rightarrow> msg_ctx \<Rightarrow> bool \<times> msg_ctx" where
  "pipelined_loop hk now msg dn [] c = (False, c)"
| "pipelined_loop hk now msg dn (msr # rest) c =
     (if testmsg msg (r_msgtype msr) (r_mode msr) \<and>
         security_msg_queue_msgrcv hk (perm_of (mc_q c)) msg (r_tsk msr) (r_msgtype msr) (r_mode msr) = None
      then
        let c1 = c\<lparr>mc_q := (mc_q c)\<lparr>q_receivers := dn @ rest\<rparr>, mc_wake := mc_wake c @ [r_tsk msr]\<rparr>
        in if r_maxsize msr < m_ts msg
           then pipelined_loop hk now msg dn rest (c1\<lparr>mc_done := mc_done c1 @ [msr\<lparr>r_msg := Inl E2BIG\<rparr>]\<rparr>)
           else (True, c1\<lparr>mc_q := (mc_q c1)\<lparr>q_lrpid := Some (task_pid hk (r_tsk msr)), q_rtime := now\<rparr>,
                          mc_done := mc_done c1 @ [msr\<lparr>r_msg := Inr msg\<rparr>]\<rparr>)
      else pipelined_loop hk now msg (dn @ [msr]) rest c)"

definition pipelined_send :: "msg_hooks \<Rightarrow> int \<Rightarrow> msg_msg \<Rightarrow> msg_ctx \<Rightarrow> bool \<times> msg_ctx" where
  "pipelined_send hk now msg c = pipelined_loop hk now msg [] (q_receivers (mc_q c)) c"

section \<open>Selecting a message\<close>

definition convert_mode :: "int \<Rightarrow> u32 \<Rightarrow> search_mode \<times> int" where
  "convert_mode msgtyp msgflg =
     (if has_flag msgflg MSG_COPY then (SEARCH_NUMBER, msgtyp)
      else if msgtyp = 0 then (SEARCH_ANY, msgtyp)
      else if msgtyp < 0
      then (SEARCH_LESSEQUAL, if msgtyp = LONG_MIN then LONG_MAX else - msgtyp)
      else if has_flag msgflg MSG_EXCEPT then (SEARCH_NOTEQUAL, msgtyp)
      else (SEARCH_EQUAL, msgtyp))"

text \<open>
  \<open>find_msg\<close> updates the type it searches for.  The result is the position of the message, or
  \<open>None\<close> for \<open>-EAGAIN\<close>; \<open>i\<close> is the position of the cursor.
\<close>

fun find_msg_loop ::
    "(msg_msg \<Rightarrow> int \<Rightarrow> bool) \<Rightarrow> search_mode \<Rightarrow> nat \<Rightarrow> msg_msg list \<Rightarrow> int \<Rightarrow> int \<Rightarrow> nat option
       \<Rightarrow> nat option \<times> int" where
  "find_msg_loop ok smode i [] msgtyp count found = (found, msgtyp)"
| "find_msg_loop ok smode i (msg # rest) msgtyp count found =
     (if testmsg msg msgtyp smode \<and> ok msg msgtyp
      then if smode = SEARCH_LESSEQUAL \<and> m_type msg \<noteq> 1
           then find_msg_loop ok smode (Suc i) rest (m_type msg - 1) (count + 1) (Some i)
           else if smode = SEARCH_NUMBER
           then if msgtyp = count then (Some i, msgtyp)
                else find_msg_loop ok smode (Suc i) rest msgtyp (count + 1) found
           else (Some i, msgtyp)
      else find_msg_loop ok smode (Suc i) rest msgtyp count found)"

definition find_msg :: "msg_hooks \<Rightarrow> task \<Rightarrow> msg_queue \<Rightarrow> int \<Rightarrow> search_mode \<Rightarrow> nat option \<times> int" where
  "find_msg hk current msq msgtyp smode =
     find_msg_loop
       (\<lambda>msg ty. security_msg_queue_msgrcv hk (perm_of msq) msg current ty smode = None)
       smode 0 (q_messages msq) msgtyp 0 None"

section \<open>Sending and receiving with the lock held\<close>

datatype snd_outcome = SndReturned "errno option" | SndSleeping

text \<open>One turn of the loop of \<open>do_msgsnd\<close> up to the return or to \<open>schedule\<close>.\<close>

definition msgsnd_turn ::
    "ipc_cfg \<Rightarrow> ipc_env \<Rightarrow> msg_hooks \<Rightarrow> msg_msg \<Rightarrow> u64 \<Rightarrow> u32 \<Rightarrow> msg_ctx \<Rightarrow> snd_outcome \<times> msg_ctx" where
  "msgsnd_turn cfg env hk msg msgsz msgflg c =
     (let msq = mc_q c; now = ktime_get_real_seconds env
      in if ipcperms env msq S_IWUGO \<noteq> None then (SndReturned (Some EACCES), c)
         else if \<not> ipc_valid_object cfg (perm_of msq) then (SndReturned (Some EIDRM), c)
         else case security_msg_queue_msgsnd hk (perm_of msq) msg msgflg of
           Some e \<Rightarrow> (SndReturned (Some e), c)
         | None \<Rightarrow>
             if msg_fits_inqueue msq msgsz
             then
               let c1 = c\<lparr>mc_q := msq\<lparr>q_lspid := Some (current_tgid env), q_stime := now\<rparr>\<rparr>
               in (case pipelined_send hk now msg c1 of
                     (True, c2) \<Rightarrow> (SndReturned None, c2)
                   | (False, c2) \<Rightarrow>
                       (SndReturned None,
                        c2\<lparr>mc_q := (mc_q c2)\<lparr>q_messages := q_messages (mc_q c2) @ [msg],
                                             q_cbytes := q_cbytes (mc_q c2) + msgsz,
                                             q_qnum := q_qnum (mc_q c2) + 1\<rparr>,
                           mc_bytes := mc_bytes c2 + ucast msgsz,
                           mc_hdrs := mc_hdrs c2 + 1\<rparr>))
             else if has_flag msgflg IPC_NOWAIT then (SndReturned (Some EAGAIN), c)
             else
               let msq1 = ss_add (current_task env) msgsz msq
               in case ipc_rcu_getref msq1 of
                    (False, msq2) \<Rightarrow> (SndReturned (Some EIDRM), c\<lparr>mc_q := msq2\<rparr>)
                  | (True, msq2) \<Rightarrow> (SndSleeping, c\<lparr>mc_q := msq2\<rparr>))"

text \<open>After \<open>schedule\<close>: the sender takes itself off the list and starts over unless a signal is pending.\<close>

definition msgsnd_resume ::
    "ipc_cfg \<Rightarrow> ipc_env \<Rightarrow> msg_hooks \<Rightarrow> bool \<Rightarrow> msg_msg \<Rightarrow> u64 \<Rightarrow> u32 \<Rightarrow> msg_ctx \<Rightarrow> snd_outcome \<times> msg_ctx" where
  "msgsnd_resume cfg env hk signal msg msgsz msgflg c =
     (let msq = snd (ipc_rcu_putref (mc_q c))
      in if \<not> ipc_valid_object cfg (perm_of msq) then (SndReturned (Some EIDRM), c\<lparr>mc_q := msq\<rparr>)
         else
           let c1 = c\<lparr>mc_q := ss_del (current_task env) msq\<rparr>
           in if signal then (SndReturned (Some ERESTARTNOHAND), c1)
              else msgsnd_turn cfg env hk msg msgsz msgflg c1)"

datatype rcv_outcome = RcvReturned "errno + msg_msg" | RcvSleeping

definition take_message :: "ipc_env \<Rightarrow> nat \<Rightarrow> msg_ctx \<Rightarrow> msg_ctx" where
  "take_message env i c =
     (let msq = mc_q c; msg = q_messages msq ! i
      in ss_wakeup False
           (c\<lparr>mc_q := msq\<lparr>q_messages := take i (q_messages msq) @ drop (Suc i) (q_messages msq),
                          q_qnum := q_qnum msq - 1, q_rtime := ktime_get_real_seconds env,
                          q_lrpid := Some (current_tgid env), q_cbytes := q_cbytes msq - m_ts msg\<rparr>,
              mc_bytes := mc_bytes c - ucast (m_ts msg), mc_hdrs := mc_hdrs c - 1\<rparr>))"

text \<open>
  One turn of the loop of \<open>do_msgrcv\<close>.  The configuration has no checkpoint/restore support, so a
  call with \<open>MSG_COPY\<close> never gets here.
\<close>

definition msgrcv_turn ::
    "ipc_cfg \<Rightarrow> ipc_env \<Rightarrow> msg_hooks \<Rightarrow> u64 \<Rightarrow> u32 \<Rightarrow> int \<Rightarrow> search_mode \<Rightarrow> msg_ctx
       \<Rightarrow> rcv_outcome \<times> msg_ctx" where
  "msgrcv_turn cfg env hk bufsz msgflg msgtyp smode c =
     (let msq = mc_q c
      in if ipcperms env msq S_IRUGO \<noteq> None then (RcvReturned (Inl EACCES), c)
         else if \<not> ipc_valid_object cfg (perm_of msq) then (RcvReturned (Inl EIDRM), c)
         else case find_msg hk (current_task env) msq msgtyp smode of
           (Some i, _) \<Rightarrow>
             let msg = q_messages msq ! i
             in if bufsz < m_ts msg \<and> \<not> has_flag msgflg MSG_NOERROR then (RcvReturned (Inl E2BIG), c)
                else (RcvReturned (Inr msg), take_message env i c)
         | (None, msgtyp1) \<Rightarrow>
             if has_flag msgflg IPC_NOWAIT then (RcvReturned (Inl ENOMSG), c)
             else
               let msr_d = \<lparr>r_tsk = current_task env, r_mode = smode, r_msgtype = msgtyp1,
                            r_maxsize = (if has_flag msgflg MSG_NOERROR then INT_MAX else bufsz),
                            r_msg = Inl EAGAIN\<rparr>
               in (RcvSleeping, c\<lparr>mc_q := msq\<lparr>q_receivers := q_receivers msq @ [msr_d]\<rparr>\<rparr>))"

text \<open>
  \<open>msr_d.r_msg\<close> of a sleeping task: in its entry on the queue, else in the result that was left
  for it.
\<close>

definition receiver_result :: "task \<Rightarrow> msg_ctx \<Rightarrow> errno + msg_msg" where
  "receiver_result t c =
     (case find (\<lambda>r. r_tsk r = t) (q_receivers (mc_q c)) of
        Some r \<Rightarrow> r_msg r
      | None \<Rightarrow> (case find (\<lambda>r. r_tsk r = t) (rev (mc_done c)) of
                   Some r \<Rightarrow> r_msg r | None \<Rightarrow> Inl EAGAIN))"

text \<open>
  After \<open>schedule\<close>: \<open>seen\<close> is what the read without the lock saw.  The entry is taken off the list
  before the next turn.
\<close>

definition msgrcv_resume ::
    "ipc_cfg \<Rightarrow> ipc_env \<Rightarrow> msg_hooks \<Rightarrow> errno + msg_msg \<Rightarrow> bool \<Rightarrow> u64 \<Rightarrow> u32 \<Rightarrow> int \<Rightarrow> search_mode \<Rightarrow> msg_ctx
       \<Rightarrow> rcv_outcome \<times> msg_ctx" where
  "msgrcv_resume cfg env hk seen signal bufsz msgflg msgtyp smode c =
     (if seen \<noteq> Inl EAGAIN then (RcvReturned seen, c)
      else
        let msg = receiver_result (current_task env) c
        in if msg \<noteq> Inl EAGAIN then (RcvReturned msg, c)
           else
             let c1 = c\<lparr>mc_q := (mc_q c)\<lparr>q_receivers :=
                          filter (\<lambda>r. r_tsk r \<noteq> current_task env) (q_receivers (mc_q c))\<rparr>\<rparr>
             in if signal then (RcvReturned (Inl ERESTARTNOHAND), c1)
                else msgrcv_turn cfg env hk bufsz msgflg msgtyp smode c1)"

definition do_msg_fill :: "msg_hooks \<Rightarrow> msg_msg \<Rightarrow> u64 \<Rightarrow> (errno + u64) \<times> (int \<times> byte list) option" where
  "do_msg_fill hk msg bufsz =
     (if \<not> msg_user_ok hk then (Inl EFAULT, None)
      else let msgsz = (if bufsz > m_ts msg then m_ts msg else bufsz)
           in case store_msg hk (m_text msg) msgsz of
                None \<Rightarrow> (Inl EFAULT, None)
              | Some bytes \<Rightarrow> (Inr msgsz, Some (m_type msg, bytes)))"

end
