(* ===== verification/Msg_Syscall.thy ===== *)
theory Msg_Syscall
  imports Msg_Queue
begin

text \<open>
  The system calls of \<open>ipc/msg.c\<close> on a namespace: \<open>msgget\<close>, \<open>msgctl\<close>, \<open>msgsnd\<close> and \<open>msgrcv\<close>.  A call
  that sleeps ends in the outcome \<open>Sleeping\<close>; what happens after the wakeup is the \<open>wake\<close> variant of
  the call, which finds the queue behind the pointer the sleeper kept.
\<close>

section \<open>State\<close>

record msg_ns =
  mns_ids :: "unit msg_queue_ext ipc_ids"
  msg_bytes :: u32
  msg_hdrs :: u32
  mns_wake :: "task list"
  mns_done :: "msg_receiver list"
  msg_ctlmax :: u32
  msg_ctlmnb :: u32
  msg_ctlmni :: u32

record msqid64_ds =
  mq64_perm :: ipc64_perm
  mq64_stime :: int
  mq64_rtime :: int
  mq64_ctime :: int
  mq64_cbytes :: u64
  mq64_qnum :: u64
  mq64_qbytes :: u64
  mq64_lspid :: int
  mq64_lrpid :: int

record msqid_ds =
  mqo_perm :: ipc64_perm
  mqo_stime :: int
  mqo_rtime :: int
  mqo_ctime :: int
  mqo_cbytes :: u16
  mqo_lcbytes :: u64
  mqo_qnum :: u16
  mqo_qbytes :: u16
  mqo_lqbytes :: u64
  mqo_lspid :: int
  mqo_lrpid :: int

record msginfo =
  msgpool :: int
  msgmap :: int
  msgmax :: int
  msgmnb :: int
  msgmni :: int
  msgssz :: int
  msgtql :: int
  msgseg :: int

datatype msg_version = MSG_IPC_OLD | MSG_IPC_64 | MSG_OtherVersion

datatype msg_out = MsgNoOut | OutMsqid64 msqid64_ds | OutMsqidOld msqid_ds | OutMsginfo msginfo

text \<open>The limits of \<open>msg.h\<close>.\<close>

definition MSGMNI :: u32 where "MSGMNI = 32000"
definition MSGMAX :: u32 where "MSGMAX = 8192"
definition MSGMNB :: u32 where "MSGMNB = 16384"
definition MSGPOOL :: int where "MSGPOOL = 32000 * 16384 div 1024"
definition MSGTQL :: int where "MSGTQL = 16384"
definition MSGMAP :: int where "MSGMAP = 16384"
definition MSGSSZ :: int where "MSGSSZ = 16"
definition MSGSEG :: int where "MSGSEG = 0xFFFF"
definition USHRT_MAX :: u64 where "USHRT_MAX = 0xFFFF"

definition msg_init_ns :: "msg_ns \<Rightarrow> msg_ns" where
  "msg_init_ns ns =
     ns\<lparr>msg_ctlmax := MSGMAX, msg_ctlmnb := MSGMNB, msg_ctlmni := MSGMNI,
        msg_bytes := 0, msg_hdrs := 0, mns_ids := ipc_init_ids\<rparr>"

definition mctx_of :: "msg_ns \<Rightarrow> msg_queue \<Rightarrow> msg_ctx" where
  "mctx_of ns msq =
     \<lparr>mc_q = msq, mc_bytes = msg_bytes ns, mc_hdrs = msg_hdrs ns, mc_wake = mns_wake ns, mc_done = mns_done ns\<rparr>"

text \<open>Writing a context to the namespace; a queue that was removed is not in the set any more.\<close>

definition put_mctx :: "ipc_cfg \<Rightarrow> msg_ns \<Rightarrow> msg_ctx \<Rightarrow> msg_ns" where
  "put_mctx cfg ns c =
     ns\<lparr>mns_ids := (if deleted (mc_q c) then mns_ids ns
                    else put_obj (mns_ids ns) (ipcid_to_idx cfg (perm_id (mc_q c))) (mc_q c)),
        msg_bytes := mc_bytes c, msg_hdrs := mc_hdrs c, mns_wake := mc_wake c, mns_done := mc_done c\<rparr>"

definition msq_obtain_object :: "ipc_cfg \<Rightarrow> msg_ns \<Rightarrow> int \<Rightarrow> errno + msg_queue" where
  "msq_obtain_object cfg ns i = ipc_obtain_object_idr cfg (mns_ids ns) i"

definition msq_obtain_object_check :: "ipc_cfg \<Rightarrow> msg_ns \<Rightarrow> int \<Rightarrow> errno + msg_queue" where
  "msq_obtain_object_check cfg ns i = ipc_obtain_object_check cfg (mns_ids ns) i"

definition msg_rmid :: "ipc_cfg \<Rightarrow> msg_ns \<Rightarrow> msg_queue \<Rightarrow> msg_ns \<times> msg_queue" where
  "msg_rmid cfg ns s = (case ipc_rmid cfg (mns_ids ns) s of (ids', s') \<Rightarrow> (ns\<lparr>mns_ids := ids'\<rparr>, s'))"

text \<open>
  The queue behind a pointer that a sleeper kept.  Nobody is on the lists of a removed queue: the
  results of its receivers are in \<open>mns_done\<close>, its senders were cut off.
\<close>

definition msq_reget :: "ipc_cfg \<Rightarrow> msg_ns \<Rightarrow> msg_queue \<Rightarrow> msg_queue" where
  "msq_reget cfg ns msq =
     (case ipcs_idr (mns_ids ns) (ipcid_to_idx cfg (perm_id msq)) of
        Some q \<Rightarrow> if perm_id q = perm_id msq then q
                  else msq\<lparr>deleted := True, q_receivers := [], q_senders := []\<rparr>
      | None \<Rightarrow> msq\<lparr>deleted := True, q_receivers := [], q_senders := []\<rparr>)"

section \<open>Creation and removal\<close>

definition newque ::
    "ipc_cfg \<Rightarrow> ipc_env \<Rightarrow> ipc_oracle \<Rightarrow> msg_hooks \<Rightarrow> msg_ns \<Rightarrow> ipc_params \<Rightarrow> (errno + int) \<times> msg_ns" where
  "newque cfg env orc hk ns params =
     (if \<not> msg_mem_ok hk then (Inl ENOMEM, ns)
      else
        let msq = kern_ipc_perm.extend
              \<lparr>deleted = False, perm_id = 0, key = par_key params, uid = 0, gid = 0, cuid = 0, cgid = 0,
               mode = ucast (par_flg params) AND S_IRWXUGO, perm_seq = 0, refcount = 0\<rparr>
              \<lparr>q_stime = 0, q_rtime = 0, q_ctime = ktime_get_real_seconds env, q_cbytes = 0, q_qnum = 0,
               q_qbytes = ucast (msg_ctlmnb ns), q_lspid = None, q_lrpid = None, q_messages = [],
               q_receivers = [], q_senders = []\<rparr>
        in case security_msg_queue_alloc hk (perm_of msq) of
             Some e \<Rightarrow> (Inl e, ns)
           | None \<Rightarrow>
               (case ipc_addid cfg env orc (mns_ids ns) msq (sint (msg_ctlmni ns)) of
                  (Inl e, ids1, _) \<Rightarrow> (Inl e, ns\<lparr>mns_ids := ids1\<rparr>)
                | (Inr idx, ids1, msq1) \<Rightarrow> (Inr (perm_id msq1), ns\<lparr>mns_ids := ids1\<rparr>)))"

definition ksys_msgget ::
    "ipc_cfg \<Rightarrow> ipc_env \<Rightarrow> ipc_oracle \<Rightarrow> msg_hooks \<Rightarrow> msg_ns \<Rightarrow> int \<Rightarrow> u32 \<Rightarrow> (errno + int) \<times> msg_ns" where
  "ksys_msgget cfg env orc hk ns k msgflg =
     ipcget env mns_ids (newque cfg env orc hk) (\<lambda>p. security_msg_queue_associate hk (perm_of p)) None
       ns \<lparr>par_key = k, par_flg = msgflg, par_nsems = 0\<rparr>"

text \<open>The messages are freed after the queue is out of the identifier set.\<close>

definition freeque :: "ipc_cfg \<Rightarrow> msg_ns \<Rightarrow> msg_queue \<Rightarrow> msg_ns" where
  "freeque cfg ns msq =
     (let c1 = ss_wakeup True (expunge_all EIDRM (mctx_of ns msq));
          (ns1, msq1) = msg_rmid cfg ns (mc_q c1);
          ns2 = ns1\<lparr>mns_wake := mc_wake c1,
                    mns_done := mns_done ns1 @ q_receivers msq1\<rparr>;
          ns3 = fold (\<lambda>msg n. n\<lparr>msg_hdrs := msg_hdrs n - 1\<rparr>) (q_messages msq1) ns2
      in ns3\<lparr>msg_bytes := msg_bytes ns3 - ucast (q_cbytes msq1)\<rparr>)"

section \<open>Control\<close>

definition copy_msqid_to_user :: "msg_hooks \<Rightarrow> msqid64_ds \<Rightarrow> msg_version \<Rightarrow> errno + msg_out" where
  "copy_msqid_to_user hk ds version =
     (case version of
        MSG_IPC_64 \<Rightarrow> if msg_user_ok hk then Inr (OutMsqid64 ds) else Inl EFAULT
      | MSG_IPC_OLD \<Rightarrow>
          let out = \<lparr>mqo_perm = mq64_perm ds, mqo_stime = mq64_stime ds, mqo_rtime = mq64_rtime ds,
                     mqo_ctime = mq64_ctime ds,
                     mqo_cbytes = (if mq64_cbytes ds > USHRT_MAX then ucast USHRT_MAX else ucast (mq64_cbytes ds)),
                     mqo_lcbytes = mq64_cbytes ds,
                     mqo_qnum = (if mq64_qnum ds > USHRT_MAX then ucast USHRT_MAX else ucast (mq64_qnum ds)),
                     mqo_qbytes = (if mq64_qbytes ds > USHRT_MAX then ucast USHRT_MAX else ucast (mq64_qbytes ds)),
                     mqo_lqbytes = mq64_qbytes ds, mqo_lspid = mq64_lspid ds, mqo_lrpid = mq64_lrpid ds\<rparr>
          in if msg_user_ok hk then Inr (OutMsqidOld out) else Inl EFAULT
      | MSG_OtherVersion \<Rightarrow> Inl EINVAL)"

text \<open>What \<open>IPC_SET\<close> uses of the structure in user memory: the permissions and the size limit.\<close>

definition copy_msqid_from_user ::
    "msg_hooks \<Rightarrow> msqid64_ds \<Rightarrow> msqid_ds \<Rightarrow> msg_version \<Rightarrow> errno + ipc64_perm \<times> u64" where
  "copy_msqid_from_user hk usr64 usr_old version =
     (case version of
        MSG_IPC_64 \<Rightarrow> if msg_user_ok hk then Inr (mq64_perm usr64, mq64_qbytes usr64) else Inl EFAULT
      | MSG_IPC_OLD \<Rightarrow>
          if \<not> msg_user_ok hk then Inl EFAULT
          else Inr (mqo_perm usr_old,
                    if mqo_qbytes usr_old = 0 then mqo_lqbytes usr_old else ucast (mqo_qbytes usr_old))
      | MSG_OtherVersion \<Rightarrow> Inl EINVAL)"

text \<open>
  The size limit is an \<open>int\<close> parameter: it is compared with the unsigned \<open>msg_ctlmnb\<close> and converted
  to \<open>unsigned long\<close>, which extends its sign.  \<open>msgctl_set\<close> is the part of \<open>IPC_SET\<close> under the lock.
\<close>

definition msgctl_set :: "ipc_env \<Rightarrow> ipc64_perm \<Rightarrow> u32 \<Rightarrow> msg_ctx \<Rightarrow> errno + msg_ctx" where
  "msgctl_set env perm64 msg_qbytes c =
     (case ipc_update_perm env perm64 (mc_q c) of
        Inl e \<Rightarrow> Inl e
      | Inr msq1 \<Rightarrow>
          let msq2 = msq1\<lparr>q_qbytes := scast msg_qbytes, q_ctime := ktime_get_real_seconds env\<rparr>
          in Inr (ss_wakeup False (expunge_all EAGAIN (c\<lparr>mc_q := msq2\<rparr>))))"

definition msgctl_down ::
    "ipc_cfg \<Rightarrow> ipc_env \<Rightarrow> msg_hooks \<Rightarrow> msg_ns \<Rightarrow> int \<Rightarrow> ipc_cmd \<Rightarrow> ipc64_perm \<Rightarrow> u32
       \<Rightarrow> (errno + int) \<times> msg_ns" where
  "msgctl_down cfg env hk ns msqid cmd perm64 msg_qbytes =
     (case ipcctl_obtain_check cfg env (mns_ids ns) msqid of
        Inl e \<Rightarrow> (Inl e, ns)
      | Inr msq \<Rightarrow>
          case security_msg_queue_msgctl hk (Some (perm_of msq)) cmd of
            Some e \<Rightarrow> (Inl e, ns)
          | None \<Rightarrow>
              (case cmd of
                 IPC_RMID \<Rightarrow> (Inr 0, freeque cfg ns msq)
               | IPC_SET \<Rightarrow>
                   if msg_qbytes > msg_ctlmnb ns \<and> \<not> capable hk CAP_SYS_RESOURCE then (Inl EPERM, ns)
                   else (case msgctl_set env perm64 msg_qbytes (mctx_of ns msq) of
                           Inl e \<Rightarrow> (Inl e, ns)
                         | Inr c \<Rightarrow> (Inr 0, put_mctx cfg ns c))
               | _ \<Rightarrow> (Inl EINVAL, ns)))"

definition msgctl_info :: "ipc_cfg \<Rightarrow> msg_hooks \<Rightarrow> msg_ns \<Rightarrow> ipc_cmd \<Rightarrow> errno + int \<times> msginfo" where
  "msgctl_info cfg hk ns cmd =
     (case security_msg_queue_msgctl hk None cmd of
        Some e \<Rightarrow> Inl e
      | None \<Rightarrow>
          let i = (cmd = MSG_INFO);
              max_i = ipc_get_maxidx cfg (in_use (mns_ids ns)) (max_idx (mns_ids ns))
          in Inr (if max_i < 0 then 0 else max_i,
                  \<lparr>msgpool = (if i then in_use (mns_ids ns) else MSGPOOL),
                   msgmap = (if i then sint (msg_hdrs ns) else MSGMAP),
                   msgmax = sint (msg_ctlmax ns), msgmnb = sint (msg_ctlmnb ns),
                   msgmni = sint (msg_ctlmni ns), msgssz = MSGSSZ,
                   msgtql = (if i then sint (msg_bytes ns) else MSGTQL), msgseg = MSGSEG\<rparr>))"

definition msgctl_stat ::
    "ipc_cfg \<Rightarrow> ipc_env \<Rightarrow> msg_hooks \<Rightarrow> msg_ns \<Rightarrow> int \<Rightarrow> ipc_cmd \<Rightarrow> errno + int \<times> msqid64_ds" where
  "msgctl_stat cfg env hk ns msqid cmd =
     (case (if cmd = MSG_STAT \<or> cmd = MSG_STAT_ANY then msq_obtain_object cfg ns msqid
            else msq_obtain_object_check cfg ns msqid) of
        Inl e \<Rightarrow> Inl e
      | Inr msq \<Rightarrow>
          if cmd \<noteq> MSG_STAT_ANY \<and> ipcperms env msq S_IRUGO \<noteq> None then Inl EACCES
          else case security_msg_queue_msgctl hk (Some (perm_of msq)) cmd of
                 Some e \<Rightarrow> Inl e
               | None \<Rightarrow>
                   if \<not> ipc_valid_object cfg (perm_of msq) then Inl EIDRM
                   else Inr (if cmd = IPC_STAT then 0 else perm_id msq,
                             \<lparr>mq64_perm = kernel_to_ipc64_perm env msq, mq64_stime = q_stime msq,
                              mq64_rtime = q_rtime msq, mq64_ctime = q_ctime msq,
                              mq64_cbytes = q_cbytes msq, mq64_qnum = q_qnum msq, mq64_qbytes = q_qbytes msq,
                              mq64_lspid = msg_pid_vnr hk (q_lspid msq),
                              mq64_lrpid = msg_pid_vnr hk (q_lrpid msq)\<rparr>))"

text \<open>\<open>cmd_neg\<close> says that the number of the command is negative.\<close>

definition ksys_msgctl ::
    "ipc_cfg \<Rightarrow> ipc_env \<Rightarrow> msg_hooks \<Rightarrow> msg_ns \<Rightarrow> int \<Rightarrow> bool \<Rightarrow> ipc_cmd \<Rightarrow> msqid64_ds \<Rightarrow> msqid_ds \<Rightarrow> msg_version
       \<Rightarrow> (errno + int) \<times> msg_out \<times> msg_ns" where
  "ksys_msgctl cfg env hk ns msqid cmd_neg cmd usr64 usr_old version =
     (if msqid < 0 \<or> cmd_neg then (Inl EINVAL, MsgNoOut, ns)
      else if cmd \<in> {IPC_INFO, MSG_INFO}
      then (case msgctl_info cfg hk ns cmd of
              Inl e \<Rightarrow> (Inl e, MsgNoOut, ns)
            | Inr (r, info) \<Rightarrow>
                if msg_user_ok hk then (Inr r, OutMsginfo info, ns) else (Inl EFAULT, MsgNoOut, ns))
      else if cmd \<in> {MSG_STAT, MSG_STAT_ANY, IPC_STAT}
      then (case msgctl_stat cfg env hk ns msqid cmd of
              Inl e \<Rightarrow> (Inl e, MsgNoOut, ns)
            | Inr (r, ds) \<Rightarrow>
                (case copy_msqid_to_user hk ds version of
                   Inl _ \<Rightarrow> (Inl EFAULT, MsgNoOut, ns) | Inr out \<Rightarrow> (Inr r, out, ns)))
      else if cmd = IPC_SET
      then (case copy_msqid_from_user hk usr64 usr_old version of
              Inl _ \<Rightarrow> (Inl EFAULT, MsgNoOut, ns)
            | Inr (perm64, qbytes) \<Rightarrow>
                (case msgctl_down cfg env hk ns msqid cmd perm64 (ucast qbytes) of (r, ns1) \<Rightarrow> (r, MsgNoOut, ns1)))
      else if cmd = IPC_RMID
      then (case msgctl_down cfg env hk ns msqid cmd (mq64_perm usr64) 0 of (r, ns1) \<Rightarrow> (r, MsgNoOut, ns1))
      else (Inl EINVAL, MsgNoOut, ns))"

section \<open>Send and receive\<close>

definition do_msgsnd ::
    "ipc_cfg \<Rightarrow> ipc_env \<Rightarrow> msg_hooks \<Rightarrow> msg_ns \<Rightarrow> int \<Rightarrow> int \<Rightarrow> byte list \<Rightarrow> u64 \<Rightarrow> u32
       \<Rightarrow> snd_outcome \<times> msg_ns" where
  "do_msgsnd cfg env hk ns msqid mtype mtext msgsz msgflg =
     (if msgsz > ucast (msg_ctlmax ns) \<or> sint msgsz < 0 \<or> msqid < 0 then (SndReturned (Some EINVAL), ns)
      else if mtype < 1 then (SndReturned (Some EINVAL), ns)
      else case load_msg hk mtext msgsz of
        Inl e \<Rightarrow> (SndReturned (Some e), ns)
      | Inr text \<Rightarrow>
          let msg = \<lparr>m_type = mtype, m_ts = msgsz, m_text = text\<rparr>
          in case msq_obtain_object_check cfg ns msqid of
               Inl e \<Rightarrow> (SndReturned (Some e), ns)
             | Inr msq \<Rightarrow>
                 (case msgsnd_turn cfg env hk msg msgsz msgflg (mctx_of ns msq) of
                    (out, c) \<Rightarrow> (out, put_mctx cfg ns c)))"

definition do_msgsnd_wake ::
    "ipc_cfg \<Rightarrow> ipc_env \<Rightarrow> msg_hooks \<Rightarrow> bool \<Rightarrow> msg_ns \<Rightarrow> msg_queue \<Rightarrow> msg_msg \<Rightarrow> u32 \<Rightarrow> snd_outcome \<times> msg_ns" where
  "do_msgsnd_wake cfg env hk signal ns msq msg msgflg =
     (case msgsnd_resume cfg env hk signal msg (m_ts msg) msgflg (mctx_of ns (msq_reget cfg ns msq)) of
        (out, c) \<Rightarrow> (out, put_mctx cfg ns c))"

definition ksys_msgsnd ::
    "ipc_cfg \<Rightarrow> ipc_env \<Rightarrow> msg_hooks \<Rightarrow> msg_ns \<Rightarrow> int \<Rightarrow> int \<Rightarrow> byte list \<Rightarrow> u64 \<Rightarrow> u32
       \<Rightarrow> snd_outcome \<times> msg_ns" where
  "ksys_msgsnd cfg env hk ns msqid mtype mtext msgsz msgflg =
     (if \<not> msg_user_ok hk then (SndReturned (Some EFAULT), ns)
      else do_msgsnd cfg env hk ns msqid mtype mtext msgsz msgflg)"

text \<open>\<open>prepare_copy\<close> of a kernel without checkpoint/restore support.\<close>

definition prepare_copy :: "errno + msg_msg" where
  "prepare_copy = Inl ENOSYS"

definition do_msgrcv ::
    "ipc_cfg \<Rightarrow> ipc_env \<Rightarrow> msg_hooks \<Rightarrow> msg_ns \<Rightarrow> int \<Rightarrow> u64 \<Rightarrow> int \<Rightarrow> u32 \<Rightarrow> rcv_outcome \<times> msg_ns" where
  "do_msgrcv cfg env hk ns msqid bufsz msgtyp msgflg =
     (if msqid < 0 \<or> sint bufsz < 0 then (RcvReturned (Inl EINVAL), ns)
      else if has_flag msgflg MSG_COPY \<and> (has_flag msgflg MSG_EXCEPT \<or> \<not> has_flag msgflg IPC_NOWAIT)
      then (RcvReturned (Inl EINVAL), ns)
      else if has_flag msgflg MSG_COPY \<and> isl prepare_copy then (RcvReturned (Inl (projl prepare_copy)), ns)
      else case convert_mode msgtyp msgflg of
        (smode, msgtyp1) \<Rightarrow>
          (case msq_obtain_object_check cfg ns msqid of
             Inl e \<Rightarrow> (RcvReturned (Inl e), ns)
           | Inr msq \<Rightarrow>
               (case msgrcv_turn cfg env hk bufsz msgflg msgtyp1 smode (mctx_of ns msq) of
                  (out, c) \<Rightarrow> (out, put_mctx cfg ns c))))"

definition do_msgrcv_wake ::
    "ipc_cfg \<Rightarrow> ipc_env \<Rightarrow> msg_hooks \<Rightarrow> errno + msg_msg \<Rightarrow> bool \<Rightarrow> msg_ns \<Rightarrow> msg_queue \<Rightarrow> u64 \<Rightarrow> int \<Rightarrow> u32
       \<Rightarrow> rcv_outcome \<times> msg_ns" where
  "do_msgrcv_wake cfg env hk seen signal ns msq bufsz msgtyp msgflg =
     (case convert_mode msgtyp msgflg of
        (smode, msgtyp1) \<Rightarrow>
          (case msgrcv_resume cfg env hk seen signal bufsz msgflg msgtyp1 smode (mctx_of ns (msq_reget cfg ns msq)) of
             (out, c) \<Rightarrow> (out, put_mctx cfg ns c)))"

text \<open>The end of \<open>do_msgrcv\<close>, after the locks are dropped: the message goes to user memory.\<close>

definition msgrcv_finish ::
    "msg_hooks \<Rightarrow> errno + msg_msg \<Rightarrow> u64 \<Rightarrow> (errno + u64) \<times> (int \<times> byte list) option" where
  "msgrcv_finish hk msg bufsz =
     (case msg of Inl e \<Rightarrow> (Inl e, None) | Inr m \<Rightarrow> do_msg_fill hk m bufsz)"

end
