(* ===== verification/Msg_System.thy ===== *)
theory Msg_System
  imports Msg_Syscall "HOL-Library.Multiset"
begin

text \<open>
  One message queue as a transition system whose steps are the locked sections of \<open>msgsnd\<close>,
  \<open>msgrcv\<close> and \<open>msgctl\<close> in any order, and what it guarantees: the counters, the order of messages
  and the absence of lost wakeups.
\<close>

section \<open>The loop over the senders\<close>

definition senders_ok :: "msg_queue \<Rightarrow> bool" where
  "senders_ok msq \<longleftrightarrow> distinct (map s_tsk (q_senders msq))"

lemma ss_loop_stopped:
  assumes "s_tsk m \<notin> set (map s_tsk todo)"
  shows "ss_wakeup_loop msq False (Some (s_tsk m)) dn (todo @ m # moved) w =
    Some (dn @ filter (\<lambda>s. msg_fits_inqueue msq (s_msgsz s)) todo @ m # moved @
            filter (\<lambda>s. \<not> msg_fits_inqueue msq (s_msgsz s)) todo,
          w @ map s_tsk (filter (\<lambda>s. msg_fits_inqueue msq (s_msgsz s)) todo))"
  using assms
proof (induction todo arbitrary: dn moved w)
  case Nil
  then show ?case by (subst ss_wakeup_loop.simps) simp
next
  case (Cons s todo)
  have ne: "s_tsk m \<noteq> s_tsk s" "s_tsk m \<notin> set (map s_tsk todo)" using Cons.prems by auto
  show ?case
  proof (cases "msg_fits_inqueue msq (s_msgsz s)")
    case True
    then show ?thesis using ne Cons.IH [OF ne(2), of "dn @ [s]" moved "w @ [s_tsk s]"]
      by (subst ss_wakeup_loop.simps) simp
  next
    case False
    then show ?thesis using ne Cons.IH [OF ne(2), of dn "moved @ [s]" w]
      by (subst ss_wakeup_loop.simps) (simp add: Let_def)
  qed
qed

lemma ss_loop_running:
  assumes "distinct (map s_tsk todo)"
  shows "ss_wakeup_loop msq False None dn todo w =
    Some (dn @ filter (\<lambda>s. msg_fits_inqueue msq (s_msgsz s)) todo @
            filter (\<lambda>s. \<not> msg_fits_inqueue msq (s_msgsz s)) todo,
          w @ map s_tsk (filter (\<lambda>s. msg_fits_inqueue msq (s_msgsz s)) todo))"
  using assms
proof (induction todo arbitrary: dn w)
  case Nil
  then show ?case by (subst ss_wakeup_loop.simps) simp
next
  case (Cons s todo)
  show ?case
  proof (cases "msg_fits_inqueue msq (s_msgsz s)")
    case True
    then show ?thesis using Cons by (subst ss_wakeup_loop.simps) simp
  next
    case False
    have "s_tsk s \<notin> set (map s_tsk todo)" using Cons.prems by auto
    from ss_loop_stopped [OF this, of msq dn "[]" w] False show ?thesis
      by (subst ss_wakeup_loop.simps) (auto simp: Let_def filter_empty_conv)
  qed
qed

lemma ss_loop_kill: "ss_wakeup_loop msq True stop dn todo w = Some (dn, w @ map s_tsk todo)"
proof (induction todo arbitrary: w)
  case Nil
  then show ?case by (subst ss_wakeup_loop.simps) simp
next
  case (Cons s todo)
  then show ?case by (subst ss_wakeup_loop.simps) simp
qed

abbreviation fitting :: "msg_queue \<Rightarrow> msg_sender list" where
  "fitting msq \<equiv> filter (\<lambda>s. msg_fits_inqueue msq (s_msgsz s)) (q_senders msq)"

abbreviation nonfitting :: "msg_queue \<Rightarrow> msg_sender list" where
  "nonfitting msq \<equiv> filter (\<lambda>s. \<not> msg_fits_inqueue msq (s_msgsz s)) (q_senders msq)"

lemma ss_wakeup_eq:
  "senders_ok (mc_q c) \<Longrightarrow> ss_wakeup False c =
     c\<lparr>mc_q := (mc_q c)\<lparr>q_senders := fitting (mc_q c) @ nonfitting (mc_q c)\<rparr>,
       mc_wake := mc_wake c @ map s_tsk (fitting (mc_q c))\<rparr>"
  by (simp add: ss_wakeup_def senders_ok_def ss_loop_running)

lemma ss_wakeup_kill:
  "ss_wakeup True c = c\<lparr>mc_q := (mc_q c)\<lparr>q_senders := []\<rparr>, mc_wake := mc_wake c @ map s_tsk (q_senders (mc_q c))\<rparr>"
  by (simp add: ss_wakeup_def ss_loop_kill)

section \<open>Which message is selected\<close>

text \<open>
  What \<open>msgrcv(2)\<close> promises.  The types that a call asks for are all of them for 0, the given one (or,
  with \<open>MSG_EXCEPT\<close>, all others) for a positive argument, and those up to its absolute value for a
  negative one.  Of the messages the security module grants the call gets the oldest that is asked for,
  for a negative argument the oldest of the lowest type; with \<open>MSG_COPY\<close> the argument is a position.
\<close>

definition asked_for :: "int \<Rightarrow> u32 \<Rightarrow> int \<Rightarrow> bool" where
  "asked_for msgtyp flg t \<longleftrightarrow>
     has_flag flg MSG_COPY \<or> msgtyp = 0 \<or> msgtyp < 0 \<and> t \<le> \<bar>msgtyp\<bar> \<or>
     msgtyp > 0 \<and> (t = msgtyp) = (\<not> has_flag flg MSG_EXCEPT)"

definition chosen :: "int \<Rightarrow> u32 \<Rightarrow> (msg_msg \<Rightarrow> bool) \<Rightarrow> msg_msg list \<Rightarrow> nat option" where
  "chosen msgtyp flg granted ms =
     (let cand = filter (\<lambda>(i, m). asked_for msgtyp flg (m_type m) \<and> granted m) (enumerate 0 ms)
      in if has_flag flg MSG_COPY
         then if 0 \<le> msgtyp \<and> nat msgtyp < length cand then Some (fst (cand ! nat msgtyp)) else None
         else case if msgtyp < 0 then sort_key (\<lambda>(i, m). m_type m) cand else cand of
                [] \<Rightarrow> None
              | (i, m) # _ \<Rightarrow> Some i)"

lemma find_first:
  assumes "smode \<noteq> SEARCH_LESSEQUAL" and "smode \<noteq> SEARCH_NUMBER"
  shows "fst (find_msg_loop ok smode i ms mt cnt found) =
    (case filter (\<lambda>(j, m). testmsg m mt smode \<and> ok m mt) (enumerate i ms) of [] \<Rightarrow> found | (j, m) # _ \<Rightarrow> Some j)"
  using assms by (induction ms arbitrary: i) auto

lemma find_nth:
  "fst (find_msg_loop ok SEARCH_NUMBER i ms mt cnt None) =
    (let cand = filter (\<lambda>(j, m). ok m mt) (enumerate i ms)
     in if cnt \<le> mt \<and> nat (mt - cnt) < length cand then Some (fst (cand ! nat (mt - cnt))) else None)"
proof (induction ms arbitrary: i cnt)
  case (Cons m ms)
  have n: "nat (mt - cnt) = Suc (nat (mt - (cnt + 1)))" if "cnt < mt" using that by simp
  show ?case
  proof (cases "ok m mt")
    case True
    then show ?thesis using Cons n by (cases "cnt < mt") (auto simp: testmsg_def Let_def)
  next
    case False
    then show ?thesis using Cons by (simp add: testmsg_def Let_def)
  qed
qed (simp add: Let_def)

text \<open>The lowered bound finds the head of the stable sort of the candidates by their types.\<close>

lemma find_least:
  assumes "\<forall>m \<in> set ms. 1 \<le> m_type m"
  shows "fst (find_msg_loop (\<lambda>m _. acc m) SEARCH_LESSEQUAL i ms mt cnt found) =
    (case sort_key (\<lambda>(j, m). m_type m) (filter (\<lambda>(j, m). m_type m \<le> mt \<and> acc m) (enumerate i ms)) of
       [] \<Rightarrow> found | (j, m) # _ \<Rightarrow> Some j)"
  using assms
proof (induction ms arbitrary: i mt cnt found)
  case (Cons m ms)
  let ?f = "\<lambda>(j :: nat, m). m_type m"
  let ?cand = "\<lambda>b. filter (\<lambda>(j, m). m_type m \<le> b \<and> acc m) (enumerate (Suc i) ms)"
  show ?case
  proof (cases "m_type m \<le> mt \<and> acc m")
    case False
    then show ?thesis using Cons by (auto simp: testmsg_def)
  next
    case True
    define L where "L = sort_key ?f (?cand mt)"
    have all: "?f y \<ge> 1" if "y \<in> set L" for y
      using that Cons.prems by (auto simp: L_def in_set_enumerate_eq)
    have sorted: "sorted (map ?f L)" by (simp add: L_def)
    have low: "sort_key ?f (?cand (m_type m - 1)) = filter (\<lambda>y. ?f y \<le> m_type m - 1) L"
      unfolding L_def filter_sort using True by (intro arg_cong [where f = "sort_key ?f"]) (auto intro: filter_cong)
    have goal: "fst (find_msg_loop (\<lambda>m _. acc m) SEARCH_LESSEQUAL i (m # ms) mt cnt found) =
        (case insort_key ?f (i, m) L of [] \<Rightarrow> found | (j, m) # _ \<Rightarrow> Some j)"
    proof (cases "m_type m = 1")
      case one: True
      have "insort_key ?f (i, m) L = (i, m) # L"
        by (rule insort_is_Cons) (use all one in auto)
      then show ?thesis using True one by (simp add: testmsg_def)
    next
      case False
      then have r: "fst (find_msg_loop (\<lambda>m _. acc m) SEARCH_LESSEQUAL i (m # ms) mt cnt found) =
          (case filter (\<lambda>y. ?f y \<le> m_type m - 1) L of [] \<Rightarrow> Some i | (j, m) # _ \<Rightarrow> Some j)"
        using Cons True low by (simp add: testmsg_def)
      show ?thesis
      proof (cases L)
        case (Cons y ys)
        obtain j x where y: "y = (j, x)" by force
        have ge: "m_type x \<le> ?f z" if "z \<in> set ys" for z using sorted that by (auto simp: Cons y)
        show ?thesis
        proof (cases "m_type x \<le> m_type m - 1")
          case True
          then show ?thesis unfolding r by (simp add: Cons y)
        next
          case False
          then have "filter (\<lambda>y. ?f y \<le> m_type m - 1) L = []"
            using ge by (fastforce simp: Cons y filter_empty_conv)
          then show ?thesis unfolding r using False by (simp add: Cons y)
        qed
      next
        case Nil
        then show ?thesis unfolding r by simp
      qed
    qed
    then show ?thesis using True by (simp add: L_def)
  qed
qed simp

lemma find_msg_chosen:
  assumes mode: "convert_mode msgtyp flg = (smode, ty)"
    and types: "\<forall>m \<in> set (q_messages msq). 1 \<le> m_type m \<and> m_type m \<le> LONG_MAX" and arg: "LONG_MIN \<le> msgtyp"
    and neg: "msgtyp < 0 \<Longrightarrow> \<not> has_flag flg MSG_COPY \<Longrightarrow>
      \<forall>m ty'. (security_msg_queue_msgrcv hk (perm_of msq) m t ty' smode = None) =
              (security_msg_queue_msgrcv hk (perm_of msq) m t ty smode = None)"
  shows "fst (find_msg hk t msq ty smode) =
    chosen msgtyp flg (\<lambda>m. security_msg_queue_msgrcv hk (perm_of msq) m t ty smode = None) (q_messages msq)"
proof -
  let ?ok = "\<lambda>m. security_msg_queue_msgrcv hk (perm_of msq) m t ty smode = None"
  consider (copy) "has_flag flg MSG_COPY" | (neg) "\<not> has_flag flg MSG_COPY" "msgtyp < 0"
    | (any) "\<not> has_flag flg MSG_COPY" "msgtyp = 0" | (pos) "\<not> has_flag flg MSG_COPY" "0 < msgtyp" by linarith
  then show ?thesis
  proof cases
    case copy
    then have "smode = SEARCH_NUMBER" "ty = msgtyp" using mode by (simp_all add: convert_mode_def)
    then show ?thesis using copy by (simp add: find_msg_def find_nth chosen_def asked_for_def Let_def)
  next
    case neg
    then have m: "smode = SEARCH_LESSEQUAL" "ty = (if msgtyp = LONG_MIN then LONG_MAX else - msgtyp)"
      using mode by (auto simp: convert_mode_def split: if_splits)
    have le: "m_type x \<le> ty \<longleftrightarrow> m_type x \<le> - msgtyp" if "x \<in> set (q_messages msq)" for x
      using that types m(2) by (auto simp: LONG_MIN_def LONG_MAX_def)
    have "(\<lambda>m ty'. security_msg_queue_msgrcv hk (perm_of msq) m t ty' smode = None) = (\<lambda>m _. ?ok m)"
      using assms(4) neg by blast
    moreover have "filter (\<lambda>(j, m). m_type m \<le> ty \<and> ?ok m) (enumerate 0 (q_messages msq)) =
        filter (\<lambda>(i, m). asked_for msgtyp flg (m_type m) \<and> ?ok m) (enumerate 0 (q_messages msq))"
      by (rule filter_cong) (use neg le in \<open>auto simp: asked_for_def in_set_enumerate_eq\<close>)
    ultimately show ?thesis using neg m(1) types by (simp add: find_msg_def find_least chosen_def Let_def)
  next
    case any
    then have "smode = SEARCH_ANY" "ty = msgtyp" using mode by (simp_all add: convert_mode_def)
    then show ?thesis using any by (simp add: find_msg_def find_first chosen_def asked_for_def testmsg_def Let_def)
  next
    case pos
    then have "smode = (if has_flag flg MSG_EXCEPT then SEARCH_NOTEQUAL else SEARCH_EQUAL)" "ty = msgtyp"
      using mode by (simp_all add: convert_mode_def split: if_splits)
    moreover from this have "testmsg m ty smode \<longleftrightarrow> asked_for msgtyp flg (m_type m)" for m
      using pos by (simp add: testmsg_def asked_for_def)
    ultimately show ?thesis using pos by (simp add: find_msg_def find_first chosen_def Let_def)
  qed
qed

text \<open>
  For messages that the module judges alike, whatever it does with others: a search that fails has not
  skipped one it may take, and one that succeeds passes over no older message of the same type.
\<close>

lemma find_none:
  assumes "find_msg_loop ok smode i ms mt cnt found = (None, mt')" and "smode \<noteq> SEARCH_NUMBER"
  shows "mt' = mt \<and> found = None \<and> (\<forall>m \<in> set ms. \<not> (testmsg m mt smode \<and> ok m mt))"
  using assms
proof (induction ms arbitrary: i mt cnt found)
  case (Cons m ms)
  show ?case
  proof (cases "testmsg m mt smode \<and> ok m mt")
    case True
    then show ?thesis using Cons.prems Cons.IH by (fastforce split: if_splits)
  next
    case False
    then have "find_msg_loop ok smode (Suc i) ms mt cnt found = (None, mt')" using Cons.prems(1) by auto
    from Cons.IH [OF this Cons.prems(2)] False show ?thesis by auto
  qed
qed simp

lemma find_alike:
  assumes ok: "\<And>m b. J m \<Longrightarrow> ok m b = a" and "smode \<noteq> SEARCH_NUMBER"
    and "find_msg_loop ok smode i ms mt cnt found = (r, mt')"
  shows "r = found \<or> (\<exists>k < length ms. r = Some (i + k) \<and> testmsg (ms ! k) mt smode \<and> (J (ms ! k) \<longrightarrow> a) \<and>
    (\<forall>j < k. J (ms ! j) \<longrightarrow> J (ms ! k) \<longrightarrow> m_type (ms ! j) \<noteq> m_type (ms ! k)))"
  using assms(3)
proof (induction ms arbitrary: i mt cnt found)
  case (Cons m ms)
  have same: "testmsg m b smode = testmsg m' b smode" if "m_type m = m_type m'" for b m'
    using that by (simp add: testmsg_def split: search_mode.split)
  show ?case
  proof (cases "testmsg m mt smode \<and> ok m mt")
    case False
    then have "find_msg_loop ok smode (Suc i) ms mt cnt found = (r, mt')" using Cons.prems by auto
    from Cons.IH [OF this] show ?thesis
    proof (elim disjE exE conjE)
      fix k assume k: "k < length ms" "r = Some (Suc i + k)" "testmsg (ms ! k) mt smode" "J (ms ! k) \<longrightarrow> a"
        "\<forall>j < k. J (ms ! j) \<longrightarrow> J (ms ! k) \<longrightarrow> m_type (ms ! j) \<noteq> m_type (ms ! k)"
      have "J m \<longrightarrow> J (ms ! k) \<longrightarrow> m_type m \<noteq> m_type (ms ! k)" 
      proof (intro impI notI)
        assume J: "J m" "J (ms ! k)" and e: "m_type m = m_type (ms ! k)"
        have "ok m mt" using J k(4) ok by blast
        moreover have "testmsg m mt smode" using same [OF e] k(3) by blast
        ultimately show False using False by blast
      qed
      then show ?thesis using k by (intro disjI2 exI [of _ "Suc k"]) (auto simp: less_Suc_eq_0_disj)
    qed simp
  next
    case True
    show ?thesis
    proof (cases "smode = SEARCH_LESSEQUAL \<and> m_type m \<noteq> 1")
      case False
      then have "r = Some i" using Cons.prems True assms(2) by auto
      then show ?thesis using True ok by (intro disjI2 exI [of _ 0]) auto
    next
      case lower: True
      then have "find_msg_loop ok smode (Suc i) ms (m_type m - 1) (cnt + 1) (Some i) = (r, mt')"
        using Cons.prems True by simp
      from Cons.IH [OF this] show ?thesis
      proof (elim disjE exE conjE)
        assume "r = Some i"
        then show ?thesis using True ok by (intro disjI2 exI [of _ 0]) auto
      next
        fix k assume k: "k < length ms" "r = Some (Suc i + k)" "testmsg (ms ! k) (m_type m - 1) smode" "J (ms ! k) \<longrightarrow> a"
          "\<forall>j < k. J (ms ! j) \<longrightarrow> J (ms ! k) \<longrightarrow> m_type (ms ! j) \<noteq> m_type (ms ! k)"
        then show ?thesis using lower True
          by (intro disjI2 exI [of _ "Suc k"]) (auto simp: less_Suc_eq_0_disj testmsg_def)
      qed
    qed
  qed
qed simp

section \<open>Handing a message to a waiting receiver\<close>

text \<open>The types that a mode of search stands for.\<close>

definition types_of :: "search_mode \<Rightarrow> int \<Rightarrow> int set" where
  "types_of smode ty =
     (case smode of SEARCH_ANY \<Rightarrow> UNIV | SEARCH_NUMBER \<Rightarrow> UNIV | SEARCH_LESSEQUAL \<Rightarrow> {..ty}
      | SEARCH_EQUAL \<Rightarrow> {ty} | SEARCH_NOTEQUAL \<Rightarrow> - {ty})"

lemma testmsg_types: "testmsg m ty smode \<longleftrightarrow> m_type m \<in> types_of smode ty"
  by (simp add: testmsg_def types_of_def split: search_mode.split)

text \<open>
  The security modules that may be asked during a run are the set \<open>HK\<close>; nothing is assumed of them.
  \<open>judged HK qid v m\<close>: they judge the message by the task that receives it (\<open>v\<close>) whenever it is in the
  queue \<open>qid\<close>.  Without a module every message is judged by \<open>v t = True\<close>; a module that compares the
  labels of the queue, of the message and of the task judges messages of one label alike.
\<close>

definition judged :: "msg_hooks set \<Rightarrow> int \<Rightarrow> (task \<Rightarrow> bool) \<Rightarrow> msg_msg \<Rightarrow> bool" where
  "judged HK qid v m \<longleftrightarrow>
     (\<forall>hk \<in> HK. \<forall>p t ty smode. perm_id p = qid \<longrightarrow> (security_msg_queue_msgrcv hk p m t ty smode = None) = v t)"

definition takes :: "(task \<Rightarrow> bool) \<Rightarrow> msg_receiver \<Rightarrow> msg_msg \<Rightarrow> bool" where
  "takes v r m \<longleftrightarrow> m_type m \<in> types_of (r_mode r) (r_msgtype r) \<and> v (r_tsk r)"

lemma takes_type: "m_type m = m_type m' \<Longrightarrow> takes v r m = takes v r m'"
  by (simp add: takes_def)

lemma perm_id_perm_of [simp]: "perm_id (perm_of q) = perm_id q"
  by (simp add: perm_of_simps)

definition handed :: "msg_ctx \<Rightarrow> msg_ctx \<Rightarrow> msg_msg list" where
  "handed c c' = map projr (filter (\<lambda>x. \<not> isl x) (map r_msg (drop (length (mc_done c)) (mc_done c'))))"

text \<open>What handing over leaves alone.\<close>

definition store_of :: "msg_ctx \<Rightarrow> msg_msg list \<times> u64 \<times> u64 \<times> u64 \<times> msg_sender list \<times> bool \<times> int \<times> u32 \<times> u32" where
  "store_of c = (q_messages (mc_q c), q_cbytes (mc_q c), q_qnum (mc_q c), q_qbytes (mc_q c), q_senders (mc_q c),
     deleted (mc_q c), perm_id (mc_q c), mc_bytes c, mc_hdrs c)"

lemma pipelined_loop_spec:
  assumes sec: "\<And>m. J m \<Longrightarrow> judged {hk} qid v m" and "perm_id (mc_q c) = qid" and "q_receivers (mc_q c) = dn @ todo"
    and "\<forall>r \<in> set dn. J msg \<longrightarrow> \<not> takes v r msg" and "pipelined_loop hk now msg dn todo c = (b, c')"
  shows "store_of c' = store_of c \<and> set (mc_wake c) \<subseteq> set (mc_wake c') \<and> set (q_receivers (mc_q c')) \<subseteq> set (q_receivers (mc_q c)) \<and>
    (if b then (\<exists>r \<in> set (q_receivers (mc_q c)). J msg \<longrightarrow> takes v r msg) \<and> handed c c' = [msg]
     else (\<forall>r \<in> set (q_receivers (mc_q c')). J msg \<longrightarrow> \<not> takes v r msg) \<and> handed c c' = []) \<and>
    length (mc_done c) \<le> length (mc_done c') \<and> take (length (mc_done c)) (mc_done c') = mc_done c"
  using assms(2-)
proof (induction todo arbitrary: dn c)
  case Nil
  then show ?case by (auto simp: handed_def)
next
  case (Cons r todo)
  let ?hit = "testmsg msg (r_msgtype r) (r_mode r) \<and>
    security_msg_queue_msgrcv hk (perm_of (mc_q c)) msg (r_tsk r) (r_msgtype r) (r_mode r) = None"
  have hit: "J msg \<longrightarrow> ?hit = takes v r msg"
    using sec [of msg] Cons.prems(1) by (auto simp: judged_def takes_def testmsg_types)
  show ?case
  proof (cases ?hit)
    case False
    then have l: "pipelined_loop hk now msg (dn @ [r]) todo c = (b, c')"
      using Cons.prems(4) by auto
    show ?thesis by (rule Cons.IH [OF _ _ _ l]) (use Cons.prems(1-3) False hit in auto)
  next
    case tk: True
    define c1 where "c1 = c\<lparr>mc_q := (mc_q c)\<lparr>q_receivers := dn @ todo\<rparr>, mc_wake := mc_wake c @ [r_tsk r]\<rparr>"
    have st: "store_of c1 = store_of c" by (simp add: store_of_def c1_def)
    show ?thesis
    proof (cases "r_maxsize r < m_ts msg")
      case small: True
      define c2 where "c2 = c1\<lparr>mc_done := mc_done c1 @ [r\<lparr>r_msg := Inl E2BIG\<rparr>]\<rparr>"
      have l: "pipelined_loop hk now msg dn todo c2 = (b, c')"
        using Cons.prems(4) tk small by (simp add: c1_def c2_def Let_def)
      have q2: "perm_id (mc_q c2) = qid" "q_receivers (mc_q c2) = dn @ todo" using Cons.prems(1) by (simp_all add: c2_def c1_def)
      note ih = Cons.IH [OF q2 Cons.prems(3) l]
      have d2: "mc_done c2 = mc_done c @ [r\<lparr>r_msg := Inl E2BIG\<rparr>]" by (simp add: c2_def c1_def)
      have pre: "take (Suc (length (mc_done c))) (mc_done c') = mc_done c @ [r\<lparr>r_msg := Inl E2BIG\<rparr>]"
        "Suc (length (mc_done c)) \<le> length (mc_done c')" using ih d2 by simp_all
      have tk': "take (length (mc_done c)) (mc_done c') = mc_done c"
        using arg_cong [OF pre(1), of "take (length (mc_done c))"] by simp
      have "drop (length (mc_done c)) (mc_done c') = r\<lparr>r_msg := Inl E2BIG\<rparr> # drop (Suc (length (mc_done c))) (mc_done c')"
        using pre by (metis Cons_nth_drop_Suc Suc_le_lessD lessI nth_append_length nth_take)
      then have "handed c c' = handed c2 c'" using d2 by (simp add: handed_def)
      moreover have "store_of c2 = store_of c" "set (mc_wake c) \<subseteq> set (mc_wake c2)"
        using st by (auto simp: c2_def store_of_def c1_def)
      ultimately show ?thesis using ih q2 Cons.prems(2) pre(2) tk' by auto
    next
      case False
      define c2 where "c2 = c1\<lparr>mc_q := (mc_q c1)\<lparr>q_lrpid := Some (task_pid hk (r_tsk r)), q_rtime := now\<rparr>,
        mc_done := mc_done c1 @ [r\<lparr>r_msg := Inr msg\<rparr>]\<rparr>"
      have "b" "c' = c2" using Cons.prems(4) tk False by (simp_all add: c1_def c2_def Let_def)
      then show ?thesis using Cons.prems(2) tk hit by (auto simp: c2_def c1_def store_of_def handed_def)
    qed
  qed
qed

section \<open>The cases of a turn\<close>

abbreviation sender_stamp :: "ipc_env \<Rightarrow> msg_ctx \<Rightarrow> msg_ctx" where
  "sender_stamp env c \<equiv>
     c\<lparr>mc_q := (mc_q c)\<lparr>q_lspid := Some (current_tgid env), q_stime := ktime_get_real_seconds env\<rparr>\<rparr>"

abbreviation enqueue :: "msg_msg \<Rightarrow> u64 \<Rightarrow> msg_ctx \<Rightarrow> msg_ctx" where
  "enqueue msg msgsz c \<equiv>
     c\<lparr>mc_q := (mc_q c)\<lparr>q_messages := q_messages (mc_q c) @ [msg], q_cbytes := q_cbytes (mc_q c) + msgsz,
                         q_qnum := q_qnum (mc_q c) + 1\<rparr>,
       mc_bytes := mc_bytes c + ucast msgsz, mc_hdrs := mc_hdrs c + 1\<rparr>"

lemma msgsnd_turn_cases:
  assumes "msgsnd_turn cfg env hk msg msgsz msgflg c = (out, c')"
  obtains (err) e where "out = SndReturned (Some e)" "c' = c"
  | (asleep) n where "out \<noteq> SndReturned None" "\<not> msg_fits_inqueue (mc_q c) msgsz"
      "c' = c\<lparr>mc_q := (ss_add (current_task env) msgsz (mc_q c))\<lparr>refcount := n\<rparr>\<rparr>"
  | (direct) "out = SndReturned None"
      "pipelined_send hk (ktime_get_real_seconds env) msg (sender_stamp env c) = (True, c')"
  | (queued) c2 where "out = SndReturned None" "msg_fits_inqueue (mc_q c) msgsz"
      "pipelined_send hk (ktime_get_real_seconds env) msg (sender_stamp env c) = (False, c2)" "c' = enqueue msg msgsz c2"
proof (cases "\<exists>e. out = SndReturned (Some e) \<and> c' = c")
  case True
  then show ?thesis using err by blast
next
  case False
  let ?run = "pipelined_send hk (ktime_get_real_seconds env) msg (sender_stamp env c)"
  have ok: "ipcperms env (mc_q c) S_IWUGO = None" "ipc_valid_object cfg (perm_of (mc_q c))"
    "security_msg_queue_msgsnd hk (perm_of (mc_q c)) msg msgflg = None"
    using assms False by (auto simp: msgsnd_turn_def Let_def split: if_splits option.splits)
  show ?thesis
  proof (cases "msg_fits_inqueue (mc_q c) msgsz")
    case True
    then have t: "(case ?run of (True, c2) \<Rightarrow> (SndReturned None, c2) | (False, c2) \<Rightarrow> (SndReturned None, enqueue msg msgsz c2)) = (out, c')"
      using assms ok by (simp add: msgsnd_turn_def Let_def)
    obtain b c2 where r: "?run = (b, c2)" by force
    show ?thesis
    proof (cases b)
      case True
      then show ?thesis using t r direct by simp
    next
      case False
      then show ?thesis using t r queued \<open>msg_fits_inqueue (mc_q c) msgsz\<close> by simp
    qed
  next
    case nofit: False
    then have t: "(case ipc_rcu_getref (ss_add (current_task env) msgsz (mc_q c)) of
          (False, msq2) \<Rightarrow> (SndReturned (Some EIDRM), c\<lparr>mc_q := msq2\<rparr>)
        | (True, msq2) \<Rightarrow> (SndSleeping, c\<lparr>mc_q := msq2\<rparr>)) = (out, c')"
      using assms ok False by (auto simp: msgsnd_turn_def Let_def split: if_splits)
    show ?thesis
    proof (cases "refcount (ss_add (current_task env) msgsz (mc_q c)) = 0")
      case True
      then show ?thesis using t nofit by (intro asleep [of 0]) (auto simp: ipc_rcu_getref_def)
    next
      case False
      then show ?thesis using t nofit
        by (intro asleep [of "refcount (ss_add (current_task env) msgsz (mc_q c)) + 1"]) (auto simp: ipc_rcu_getref_def)
    qed
  qed
qed

lemma msgrcv_turn_cases:
  assumes "msgrcv_turn cfg env hk bufsz msgflg ty smode c = (out, c')"
  obtains (err) e where "out = RcvReturned (Inl e)" "c' = c"
  | (asleep) ty1 size where "out = RcvSleeping" "find_msg hk (current_task env) (mc_q c) ty smode = (None, ty1)"
      "c' = c\<lparr>mc_q := (mc_q c)\<lparr>q_receivers := q_receivers (mc_q c) @
         [\<lparr>r_tsk = current_task env, r_mode = smode, r_msgtype = ty1, r_maxsize = size, r_msg = Inl EAGAIN\<rparr>]\<rparr>\<rparr>"
  | (taken) i where "out = RcvReturned (Inr (q_messages (mc_q c) ! i))"
      "fst (find_msg hk (current_task env) (mc_q c) ty smode) = Some i" "c' = take_message env i c"
proof (cases "\<exists>e. out = RcvReturned (Inl e) \<and> c' = c")
  case True
  then show ?thesis using err by blast
next
  case False
  have ok: "ipcperms env (mc_q c) S_IRUGO = None" "ipc_valid_object cfg (perm_of (mc_q c))"
    using assms False by (auto simp: msgrcv_turn_def Let_def split: if_splits option.splits)
  obtain f ty1 where f: "find_msg hk (current_task env) (mc_q c) ty smode = (f, ty1)" by force
  show ?thesis
  proof (cases f)
    case None
    then show ?thesis using assms ok False f
      by (intro asleep [of ty1 "if has_flag msgflg MSG_NOERROR then INT_MAX else bufsz"])
         (auto simp: msgrcv_turn_def Let_def split: if_splits)
  next
    case (Some i)
    then show ?thesis using assms ok False f
      by (intro taken [of i]) (auto simp: msgrcv_turn_def Let_def split: if_splits)
  qed
qed

section \<open>The transition system\<close>

text \<open>
  The queue with the history of the messages that were accepted and of those that reached a
  receiver.  A task that runs is not waiting to be woken any more.
\<close>

record msg_sys =
  sy_ctx :: msg_ctx
  sy_sent :: "msg_msg list"
  sy_rcvd :: "msg_msg list"

datatype msg_event = EvSend snd_outcome | EvReceive rcv_outcome | EvSet

definition running :: "task \<Rightarrow> msg_ctx \<Rightarrow> msg_ctx" where
  "running t c = c\<lparr>mc_wake := filter (\<lambda>x. x \<noteq> t) (mc_wake c)\<rparr>"

definition accepted :: "snd_outcome \<Rightarrow> msg_msg \<Rightarrow> msg_msg list" where
  "accepted out msg = (if out = SndReturned None then [msg] else [])"

definition delivered :: "rcv_outcome \<Rightarrow> msg_msg list" where
  "delivered out = (case out of RcvReturned (Inr m) \<Rightarrow> [m] | _ \<Rightarrow> [])"

abbreviation sending :: "msg_ctx \<Rightarrow> task set" where
  "sending c \<equiv> s_tsk ` set (q_senders (mc_q c))"

text \<open>
  A task is on one list at most.  What \<open>do_msgsnd\<close> checked before the loop is known of the message,
  \<open>do_msgrcv\<close> has refused \<open>MSG_COPY\<close>, and a receiver that resumes has not been given a result.
  \<open>load_msg\<close> has allocated the message while those on the queue are allocated, so together they
  are smaller than the kernel's half of the address space; 48 is the size of the header of a message.
  Every step may be judged by another of the security modules \<open>HK\<close>, and \<open>IPC_SET\<close> stores any limit.
\<close>

definition in_memory :: "msg_msg list \<Rightarrow> bool" where
  "in_memory ms \<longleftrightarrow> sum_list (map (\<lambda>m. unat (m_ts m) + 48) ms) < 2 ^ 63"

inductive msg_step :: "ipc_cfg \<Rightarrow> msg_hooks set \<Rightarrow> msg_sys \<Rightarrow> msg_event \<Rightarrow> msg_sys \<Rightarrow> bool"
  for cfg :: ipc_cfg and HK :: "msg_hooks set"
where
  step_send: "hk \<in> HK \<Longrightarrow> current_task env \<notin> sending c \<Longrightarrow> 1 \<le> m_type msg \<Longrightarrow> 0 \<le> sint (m_ts msg) \<Longrightarrow>
     in_memory (msg # q_messages (mc_q c)) \<Longrightarrow>
     msgsnd_turn cfg env hk msg (m_ts msg) flg (running (current_task env) c) = (out, c') \<Longrightarrow>
     msg_step cfg HK \<lparr>sy_ctx = c, sy_sent = st, sy_rcvd = rc\<rparr> (EvSend out)
       \<lparr>sy_ctx = c', sy_sent = st @ accepted out msg, sy_rcvd = rc @ handed c c'\<rparr>"
| step_send_resume: "hk \<in> HK \<Longrightarrow> 1 \<le> m_type msg \<Longrightarrow> 0 \<le> sint (m_ts msg) \<Longrightarrow>
     in_memory (msg # q_messages (mc_q c)) \<Longrightarrow>
     msgsnd_resume cfg env hk signal msg (m_ts msg) flg (running (current_task env) c) = (out, c') \<Longrightarrow>
     msg_step cfg HK \<lparr>sy_ctx = c, sy_sent = st, sy_rcvd = rc\<rparr> (EvSend out)
       \<lparr>sy_ctx = c', sy_sent = st @ accepted out msg, sy_rcvd = rc @ handed c c'\<rparr>"
| step_receive: "hk \<in> HK \<Longrightarrow> current_task env \<notin> sending c \<Longrightarrow> smode \<noteq> SEARCH_NUMBER \<Longrightarrow>
     msgrcv_turn cfg env hk bufsz flg ty smode (running (current_task env) c) = (out, c') \<Longrightarrow>
     msg_step cfg HK \<lparr>sy_ctx = c, sy_sent = st, sy_rcvd = rc\<rparr> (EvReceive out)
       \<lparr>sy_ctx = c', sy_sent = st, sy_rcvd = rc @ delivered out\<rparr>"
| step_receive_resume: "hk \<in> HK \<Longrightarrow> current_task env \<notin> sending c \<Longrightarrow> smode \<noteq> SEARCH_NUMBER \<Longrightarrow>
     receiver_result (current_task env) c = Inl EAGAIN \<Longrightarrow>
     msgrcv_resume cfg env hk (Inl EAGAIN) signal bufsz flg ty smode (running (current_task env) c) = (out, c') \<Longrightarrow>
     msg_step cfg HK \<lparr>sy_ctx = c, sy_sent = st, sy_rcvd = rc\<rparr> (EvReceive out)
       \<lparr>sy_ctx = c', sy_sent = st, sy_rcvd = rc @ delivered out\<rparr>"
| step_set: "msgctl_set env perm64 limit c = Inr c' \<Longrightarrow>
     msg_step cfg HK \<lparr>sy_ctx = c, sy_sent = st, sy_rcvd = rc\<rparr> EvSet \<lparr>sy_ctx = c', sy_sent = st, sy_rcvd = rc\<rparr>"

text \<open>A queue as \<open>newque\<close> creates it.\<close>

definition msg_start :: "msg_sys \<Rightarrow> bool" where
  "msg_start s \<longleftrightarrow> sy_sent s = [] \<and> sy_rcvd s = [] \<and>
     (let q = mc_q (sy_ctx s) in \<not> deleted q \<and> q_messages q = [] \<and> q_receivers q = [] \<and> q_senders q = [] \<and>
        q_cbytes q = 0 \<and> q_qnum q = 0)"

section \<open>Invariants\<close>

definition queue_counts :: "msg_queue \<Rightarrow> bool" where
  "queue_counts q \<longleftrightarrow>
     (\<forall>m \<in> set (q_messages q). 1 \<le> m_type m) \<and>
     unat (q_cbytes q) = sum_list (map (unat \<circ> m_ts) (q_messages q)) \<and>
     unat (q_qnum q) = length (q_messages q) \<and> in_memory (q_messages q)"

definition senders_wait :: "msg_ctx \<Rightarrow> bool" where
  "senders_wait c \<longleftrightarrow> senders_ok (mc_q c) \<and>
     (\<forall>x \<in> set (q_senders (mc_q c)). 0 \<le> sint (s_msgsz x) \<and>
        (s_tsk x \<in> set (mc_wake c) \<or> \<not> msg_fits_inqueue (mc_q c) (s_msgsz x)))"

definition receivers_wait :: "(task \<Rightarrow> bool) \<Rightarrow> (msg_msg \<Rightarrow> bool) \<Rightarrow> msg_queue \<Rightarrow> bool" where
  "receivers_wait v J q \<longleftrightarrow> (\<forall>r \<in> set (q_receivers q). \<forall>m \<in> set (q_messages q). J m \<longrightarrow> \<not> takes v r m)"

text \<open>The messages of one type among those of \<open>J\<close>, and the order of the messages; none is lost or doubled.\<close>

abbreviation of_type :: "(msg_msg \<Rightarrow> bool) \<Rightarrow> int \<Rightarrow> msg_msg list \<Rightarrow> msg_msg list" where
  "of_type J ty ms \<equiv> filter (\<lambda>m. m_type m = ty \<and> J m) ms"

definition fifo :: "(msg_msg \<Rightarrow> bool) \<Rightarrow> msg_msg list \<Rightarrow> msg_msg list \<Rightarrow> msg_msg list \<Rightarrow> bool" where
  "fifo J sent rcvd pending \<longleftrightarrow> mset sent = mset rcvd + mset pending \<and>
     (\<forall>ty. of_type J ty sent = of_type J ty rcvd @ of_type J ty pending)"

text \<open>The context of an invariant, and the invariant for every verdict.\<close>

definition ctx_inv :: "int \<Rightarrow> (task \<Rightarrow> bool) \<Rightarrow> (msg_msg \<Rightarrow> bool) \<Rightarrow> msg_ctx \<Rightarrow> bool" where
  "ctx_inv qid v J c \<longleftrightarrow> perm_id (mc_q c) = qid \<and> \<not> deleted (mc_q c) \<and> queue_counts (mc_q c) \<and> senders_wait c \<and>
     receivers_wait v J (mc_q c)"

definition sys_inv :: "int \<Rightarrow> (task \<Rightarrow> bool) \<Rightarrow> (msg_msg \<Rightarrow> bool) \<Rightarrow> msg_sys \<Rightarrow> bool" where
  "sys_inv qid v J s \<longleftrightarrow> ctx_inv qid v J (sy_ctx s) \<and> fifo J (sy_sent s) (sy_rcvd s) (q_messages (mc_q (sy_ctx s)))"

definition msg_inv :: "msg_hooks set \<Rightarrow> msg_sys \<Rightarrow> bool" where
  "msg_inv HK s \<longleftrightarrow>
     (let qid = perm_id (mc_q (sy_ctx s)) in \<forall>v. sys_inv qid v (judged HK qid v) s)"

lemma msg_start_inv: "msg_start s \<Longrightarrow> msg_inv HK s"
  by (auto simp: msg_start_def msg_inv_def sys_inv_def ctx_inv_def queue_counts_def senders_wait_def senders_ok_def
      receivers_wait_def fifo_def in_memory_def Let_def)

text \<open>Sizes up to \<open>LONG_MAX\<close> and counters of what is in memory do not wrap.\<close>

lemma in_memory_counts:
  "in_memory ms \<Longrightarrow> sum_list (map (unat \<circ> m_ts) ms) < 2 ^ 63 \<and> length ms < 2 ^ 63"
proof -
  have "sum_list (map (\<lambda>m. unat (m_ts m) + 48) ms) = sum_list (map (unat \<circ> m_ts) ms) + 48 * length ms"
    by (induction ms) simp_all
  then show "in_memory ms \<Longrightarrow> ?thesis" unfolding in_memory_def by linarith
qed

lemma in_memory_simps [simp]:
  "in_memory (ms @ [m]) = in_memory (m # ms)"
  by (simp add: in_memory_def add_ac)

lemma in_memory_remove:
  "in_memory ms \<Longrightarrow> i < length ms \<Longrightarrow> in_memory (take i ms @ drop (Suc i) ms)"
proof -
  assume m: "in_memory ms" and i: "i < length ms"
  have "ms = take i ms @ ms ! i # drop (Suc i) ms" using i by (rule id_take_nth_drop)
  from m [unfolded in_memory_def, folded this] arg_cong [OF this, of "\<lambda>l. sum_list (map (\<lambda>m. unat (m_ts m) + 48) l)"]
  show ?thesis using m by (simp add: in_memory_def)
qed

lemma uint_nonneg: "0 \<le> sint (w :: 'a :: len word) \<Longrightarrow> uint w = sint w"
proof -
  assume "0 \<le> sint w"
  moreover have "sint w < 2 ^ LENGTH('a)"
    by (rule order_less_le_trans [OF sint_lt power_increasing]) simp_all
  ultimately show ?thesis by (simp add: uint_sint take_bit_int_eq_self)
qed

lemma nonneg_size: "0 \<le> sint (w :: u64) \<Longrightarrow> unat w < 2 ^ 63"
  using uint_nonneg [of w] sint_lt [of w] by (simp add: unat_eq_nat_uint nat_less_iff)

lemma fits_unat:
  assumes "0 \<le> sint sz" and "unat (q_cbytes q) < 2 ^ 63" and "unat (q_qnum q) < 2 ^ 63"
  shows "msg_fits_inqueue q sz \<longleftrightarrow>
    unat sz + unat (q_cbytes q) \<le> unat (q_qbytes q) \<and> 1 + unat (q_qnum q) \<le> unat (q_qbytes q)"
proof -
  have "unat (sz + q_cbytes q) = unat sz + unat (q_cbytes q)"
    using nonneg_size [OF assms(1)] assms(2) by (simp add: unat_word_ariths)
  moreover have "unat (1 + q_qnum q) = 1 + unat (q_qnum q)" using assms(3) by (simp add: unat_word_ariths)
  ultimately show ?thesis by (simp add: msg_fits_inqueue_def word_le_nat_alt)
qed

lemma queue_counts_small: "queue_counts q \<Longrightarrow> unat (q_cbytes q) < 2 ^ 63 \<and> unat (q_qnum q) < 2 ^ 63"
  using in_memory_counts [of "q_messages q"] by (simp add: queue_counts_def)

text \<open>\<open>more_full q' q\<close>: what does not fit in \<open>q\<close> does not fit in \<open>q'\<close> either.\<close>

definition more_full :: "msg_queue \<Rightarrow> msg_queue \<Rightarrow> bool" where
  "more_full q' q \<longleftrightarrow> q_qbytes q' = q_qbytes q \<and> q_cbytes q \<le> q_cbytes q' \<and> q_qnum q \<le> q_qnum q'"

lemma more_full_fits:
  assumes "more_full q' q" and "queue_counts q" and "queue_counts q'" and "0 \<le> sint sz" and "msg_fits_inqueue q' sz"
  shows "msg_fits_inqueue q sz"
  using assms queue_counts_small [OF assms(2)] queue_counts_small [OF assms(3)]
  by (simp add: more_full_def fits_unat word_le_nat_alt)

lemma senders_wait_full:
  assumes "senders_wait c" and "queue_counts (mc_q c)" and "queue_counts (mc_q c')" and "more_full (mc_q c') (mc_q c)"
    and "q_senders (mc_q c') = q_senders (mc_q c)" and "set (mc_wake c) \<subseteq> set (mc_wake c')"
  shows "senders_wait c'"
  using assms more_full_fits [OF assms(4,2,3)] by (fastforce simp: senders_wait_def senders_ok_def)

lemma senders_wait_running:
  "senders_wait c \<Longrightarrow> t \<notin> sending c \<Longrightarrow> senders_wait (running t c)"
  by (auto simp: senders_wait_def running_def senders_ok_def)

lemma running_simps [simp]:
  "mc_q (running t c) = mc_q c" "mc_done (running t c) = mc_done c" "handed (running t c) c' = handed c c'"
  by (simp_all add: running_def handed_def)

lemma senders_wait_woken:
  assumes "senders_ok (mc_q c)" and "\<forall>x \<in> set (q_senders (mc_q c)). 0 \<le> sint (s_msgsz x)"
  shows "senders_wait (ss_wakeup False c)"
proof -
  let ?q = "mc_q c"
  have f: "msg_fits_inqueue (?q\<lparr>q_senders := l\<rparr>) sz = msg_fits_inqueue ?q sz" for l sz
    by (simp add: msg_fits_inqueue_def)
  have "distinct (map s_tsk (fitting ?q @ nonfitting ?q))"
    using assms(1) by (auto simp: senders_ok_def distinct_map inj_on_def)
  then show ?thesis using assms by (auto simp: ss_wakeup_eq senders_wait_def senders_ok_def f)
qed

section \<open>Preservation\<close>

lemma fifo_direct:
  assumes "fifo J sent rcvd pending" and "J msg \<Longrightarrow> of_type J (m_type msg) pending = []"
  shows "fifo J (sent @ [msg]) (rcvd @ [msg]) pending"
  using assms by (auto simp: fifo_def)

lemma fifo_queue: "fifo J sent rcvd pending \<Longrightarrow> fifo J (sent @ [msg]) rcvd (pending @ [msg])"
  by (simp add: fifo_def)

lemma fifo_take:
  assumes "fifo J sent rcvd pending" and "i < length pending"
    and "\<forall>j < i. J (pending ! j) \<longrightarrow> J (pending ! i) \<longrightarrow> m_type (pending ! j) \<noteq> m_type (pending ! i)"
  shows "fifo J sent (rcvd @ [pending ! i]) (take i pending @ drop (Suc i) pending)"
proof -
  have e: "of_type J (m_type (pending ! i)) (take i pending) = []" if "J (pending ! i)"
    using assms(3) that by (force simp: filter_empty_conv in_set_conv_nth)
  have split: "pending = take i pending @ pending ! i # drop (Suc i) pending"
    using assms(2) by (simp add: id_take_nth_drop)
  have "mset pending = add_mset (pending ! i) (mset (take i pending @ drop (Suc i) pending))"
    by (subst split) simp
  moreover have "of_type J ty pending = of_type J ty (take i pending @ pending ! i # drop (Suc i) pending)" for ty
    using split by simp
  ultimately show ?thesis using assms(1) e by (auto simp: fifo_def)
qed

lemma pipelined_send_spec:
  assumes "\<And>m. J m \<Longrightarrow> judged {hk} (perm_id (mc_q c)) v m" and "pipelined_send hk now msg c = (b, c')"
  shows "store_of c' = store_of c" "set (mc_wake c) \<subseteq> set (mc_wake c')"
    "set (q_receivers (mc_q c')) \<subseteq> set (q_receivers (mc_q c))"
    "b \<Longrightarrow> (\<exists>r \<in> set (q_receivers (mc_q c)). J msg \<longrightarrow> takes v r msg) \<and> handed c c' = [msg]"
    "\<not> b \<Longrightarrow> (\<forall>r \<in> set (q_receivers (mc_q c')). J msg \<longrightarrow> \<not> takes v r msg) \<and> handed c c' = []"
  using pipelined_loop_spec [OF assms(1), where dn = "[]" and todo = "q_receivers (mc_q c)" and c = c and msg = msg
      and now = now and b = b and c' = c'] assms(2)
  by (simp_all add: pipelined_send_def)

lemma handed_cong: "mc_done c1 = mc_done c \<Longrightarrow> mc_done c2 = mc_done c' \<Longrightarrow> handed c1 c2 = handed c c'"
  by (simp add: handed_def)

lemma handed_none [simp]: "mc_done c' = mc_done c \<Longrightarrow> handed c c' = []"
  by (simp add: handed_def)

lemma queue_counts_enqueue:
  assumes "queue_counts q" and "in_memory (msg # q_messages q)" and "1 \<le> m_type msg"
    and q': "q_messages q' = q_messages q @ [msg]" "q_cbytes q' = q_cbytes q + m_ts msg" "q_qnum q' = q_qnum q + 1"
      "q_qbytes q' = q_qbytes q"
  shows "queue_counts q' \<and> more_full q' q"
proof -
  have "sum_list (map (unat \<circ> m_ts) (msg # q_messages q)) < 2 ^ 63 \<and> length (msg # q_messages q) < 2 ^ 63"
    by (rule in_memory_counts [OF assms(2)])
  then have u: "unat (q_cbytes q + m_ts msg) = unat (q_cbytes q) + unat (m_ts msg)" "unat (q_qnum q + 1) = unat (q_qnum q) + 1"
    using assms(1) by (simp_all add: queue_counts_def unat_word_ariths)
  show ?thesis using assms(1-3) u by (auto simp: queue_counts_def more_full_def q' word_le_nat_alt)
qed

lemma queue_counts_cong:
  "q_messages q' = q_messages q \<Longrightarrow> q_cbytes q' = q_cbytes q \<Longrightarrow> q_qnum q' = q_qnum q \<Longrightarrow> q_qbytes q' = q_qbytes q \<Longrightarrow>
   queue_counts q' = queue_counts q \<and> more_full q' q"
  by (simp add: queue_counts_def more_full_def)

lemma ctx_inv_pipelined:
  assumes "ctx_inv qid v J c" and "store_of c' = store_of c" and "set (mc_wake c) \<subseteq> set (mc_wake c')"
    and "set (q_receivers (mc_q c')) \<subseteq> set (q_receivers (mc_q c))"
  shows "ctx_inv qid v J c'"
proof -
  have st: "q_messages (mc_q c') = q_messages (mc_q c)" "q_cbytes (mc_q c') = q_cbytes (mc_q c)"
    "q_qnum (mc_q c') = q_qnum (mc_q c)" "q_qbytes (mc_q c') = q_qbytes (mc_q c)"
    "q_senders (mc_q c') = q_senders (mc_q c)" "deleted (mc_q c') = deleted (mc_q c)" "perm_id (mc_q c') = perm_id (mc_q c)"
    using assms(2) by (simp_all add: store_of_def)
  note qc = queue_counts_cong [OF st(1-4)]
  have "senders_wait c'"
    by (rule senders_wait_full [of c]) (use assms(1,3) qc st(5) in \<open>simp_all add: ctx_inv_def\<close>)
  then show ?thesis using assms(1,4) qc st(1,6,7) by (auto simp: ctx_inv_def receivers_wait_def)
qed

lemma msgsnd_turn_inv:
  assumes sec: "\<And>m. J m \<Longrightarrow> judged {hk} qid v m" and inv: "ctx_inv qid v J c" and ff: "fifo J st rc (q_messages (mc_q c))"
    and msg: "1 \<le> m_type msg" "0 \<le> sint (m_ts msg)" and mem: "in_memory (msg # q_messages (mc_q c))"
    and t: "current_task env \<notin> sending c"
    and run: "msgsnd_turn cfg env hk msg (m_ts msg) flg c = (out, c')"
  shows "ctx_inv qid v J c' \<and> fifo J (st @ accepted out msg) (rc @ handed c c') (q_messages (mc_q c'))"
  using run
proof (cases rule: msgsnd_turn_cases)
  case (err e)
  then show ?thesis using inv ff by (simp add: accepted_def)
next
  case (asleep n)
  have "senders_wait c'"
    using inv asleep t msg(2) by (auto simp: ctx_inv_def senders_wait_def senders_ok_def ss_add_def msg_fits_inqueue_def)
  then show ?thesis using inv ff asleep
    by (simp add: ctx_inv_def accepted_def ss_add_def receivers_wait_def queue_counts_def)
next
  case direct
  let ?c1 = "sender_stamp env c"
  have q1: "perm_id (mc_q ?c1) = qid" using inv by (simp add: ctx_inv_def)
  note ps = pipelined_send_spec [OF sec [folded q1] direct(2)]
  have inv1: "ctx_inv qid v J ?c1" by (rule ctx_inv_pipelined [OF inv]) (simp_all add: store_of_def)
  have h: "handed c c' = [msg]" using ps(4) handed_cong [of ?c1 c c' c'] by simp
  obtain r where r: "r \<in> set (q_receivers (mc_q c))" "J msg \<longrightarrow> takes v r msg" using ps(4) by auto
  have "m_type m \<noteq> m_type msg" if "m \<in> set (q_messages (mc_q c))" "J m" "J msg" for m
    using that r inv takes_type [of m msg v r] unfolding ctx_inv_def receivers_wait_def by blast
  then have "J msg \<Longrightarrow> of_type J (m_type msg) (q_messages (mc_q c)) = []" by (auto simp: filter_empty_conv)
  from fifo_direct [OF ff this] show ?thesis
    using ctx_inv_pipelined [OF inv1 ps(1-3)] h direct ps(1) by (simp add: accepted_def store_of_def)
next
  case (queued c2)
  let ?c1 = "sender_stamp env c"
  have q1: "perm_id (mc_q ?c1) = qid" using inv by (simp add: ctx_inv_def)
  note ps = pipelined_send_spec [OF sec [folded q1] queued(3)]
  have inv1: "ctx_inv qid v J ?c1" by (rule ctx_inv_pipelined [OF inv]) (simp_all add: store_of_def)
  have h: "handed c c' = []" using ps(5) queued(4) handed_cong [of ?c1 c c2 c'] by simp
  have inv2: "ctx_inv qid v J c2" by (rule ctx_inv_pipelined [OF inv1 ps(1-3)])
  have m2: "q_messages (mc_q c2) = q_messages (mc_q c)" using ps(1) by (simp add: store_of_def)
  have qc: "queue_counts (mc_q c') \<and> more_full (mc_q c') (mc_q c2)"
    by (intro queue_counts_enqueue [of _ msg]) (use inv2 msg mem m2 queued(4) in \<open>simp_all add: ctx_inv_def\<close>)
  have "senders_wait c'"
    by (rule senders_wait_full [of c2]) (use inv2 qc queued(4) in \<open>simp_all add: ctx_inv_def\<close>)
  moreover have "receivers_wait v J (mc_q c')"
    using inv2 ps(5) queued(4) by (auto simp: ctx_inv_def receivers_wait_def)
  ultimately have "ctx_inv qid v J c'" using inv2 qc queued(4) by (simp add: ctx_inv_def)
  then show ?thesis using fifo_queue [OF ff] m2 h queued by (simp add: accepted_def)
qed

lemma take_message_inv:
  assumes inv: "ctx_inv qid v J c" and i: "i < length (q_messages (mc_q c))"
  shows "ctx_inv qid v J (take_message env i c) \<and>
    q_messages (mc_q (take_message env i c)) = take i (q_messages (mc_q c)) @ drop (Suc i) (q_messages (mc_q c))"
proof -
  let ?q = "mc_q c"
  let ?ms = "q_messages ?q"
  define q1 where "q1 = ?q\<lparr>q_messages := take i ?ms @ drop (Suc i) ?ms, q_qnum := q_qnum ?q - 1,
    q_rtime := ktime_get_real_seconds env, q_lrpid := Some (current_tgid env), q_cbytes := q_cbytes ?q - m_ts (?ms ! i)\<rparr>"
  define c1 where "c1 = c\<lparr>mc_q := q1, mc_bytes := mc_bytes c - ucast (m_ts (?ms ! i)), mc_hdrs := mc_hdrs c - 1\<rparr>"
  have tm: "take_message env i c = ss_wakeup False c1"
    by (simp add: take_message_def Let_def c1_def q1_def)
  have split: "?ms = take i ?ms @ ?ms ! i # drop (Suc i) ?ms" using i by (rule id_take_nth_drop)
  have qc: "queue_counts ?q" using inv by (simp add: ctx_inv_def)
  have sum: "unat (q_cbytes ?q) = sum_list (map (unat \<circ> m_ts) (take i ?ms @ drop (Suc i) ?ms)) + unat (m_ts (?ms ! i))"
    using qc arg_cong [OF split, of "\<lambda>l. sum_list (map (unat \<circ> m_ts) l)"] by (simp add: queue_counts_def)
  have num: "unat (q_qnum ?q) = length (take i ?ms @ drop (Suc i) ?ms) + 1"
    using qc i by (simp add: queue_counts_def)
  have u: "unat (q_cbytes ?q - m_ts (?ms ! i)) = unat (q_cbytes ?q) - unat (m_ts (?ms ! i))"
    "unat (q_qnum ?q - 1) = unat (q_qnum ?q) - 1"
    using sum num by (simp_all add: unat_sub word_le_nat_alt)
  have "set (take i ?ms @ drop (Suc i) ?ms) \<subseteq> set ?ms" by (auto dest: in_set_takeD in_set_dropD)
  moreover have "queue_counts q1"
    using qc sum num u calculation in_memory_remove [OF _ i] by (auto simp: queue_counts_def q1_def)
  moreover have so: "senders_ok (mc_q c1)" "\<forall>x \<in> set (q_senders (mc_q c1)). 0 \<le> sint (s_msgsz x)"
    using inv by (simp_all add: ctx_inv_def senders_wait_def senders_ok_def c1_def q1_def)
  moreover have "mc_q c1 = q1" by (simp add: c1_def)
  ultimately have "ctx_inv qid v J (ss_wakeup False c1)"
    using senders_wait_woken [OF so] inv
    by (auto simp: ctx_inv_def ss_wakeup_eq receivers_wait_def queue_counts_def q1_def)
  then show ?thesis using so by (simp add: tm ss_wakeup_eq c1_def q1_def)
qed

lemma msgrcv_turn_inv:
  assumes sec: "\<And>m. J m \<Longrightarrow> judged {hk} qid v m" and inv: "ctx_inv qid v J c" and ff: "fifo J st rc (q_messages (mc_q c))"
    and mode: "smode \<noteq> SEARCH_NUMBER" and run: "msgrcv_turn cfg env hk bufsz flg ty smode c = (out, c')"
  shows "ctx_inv qid v J c' \<and> fifo J st (rc @ delivered out) (q_messages (mc_q c'))"
proof -
  let ?ms = "q_messages (mc_q c)" and ?t = "current_task env"
  let ?ok = "\<lambda>m b. security_msg_queue_msgrcv hk (perm_of (mc_q c)) m ?t b smode = None"
  have ok: "?ok m b = v ?t" if "J m" for m b
    using sec [OF that] inv by (simp add: judged_def ctx_inv_def)
  from run show ?thesis
  proof (cases rule: msgrcv_turn_cases)
    case (err e)
    then show ?thesis using inv ff by (simp add: delivered_def)
  next
    case (asleep ty1 size)
    have "ty1 = ty" "\<forall>m \<in> set ?ms. \<not> (testmsg m ty smode \<and> ?ok m ty)"
      using find_none [OF _ mode] asleep(2) unfolding find_msg_def by blast+
    then have "\<not> (m_type m \<in> types_of smode ty \<and> v ?t)" "ty1 = ty" if "m \<in> set ?ms" "J m" for m
      using that ok by (auto simp: testmsg_types)
    then show ?thesis using inv ff asleep
      by (auto simp: ctx_inv_def delivered_def receivers_wait_def takes_def queue_counts_def
          senders_wait_def senders_ok_def msg_fits_inqueue_def)
  next
    case (taken i)
    obtain mt' where f: "find_msg_loop ?ok smode 0 ?ms ty 0 None = (Some i, mt')"
      using taken(2) unfolding find_msg_def by (metis prod.collapse)
    from find_alike [of J ?ok "v ?t", OF ok mode f] have i: "i < length ?ms"
      "\<forall>j < i. J (?ms ! j) \<longrightarrow> J (?ms ! i) \<longrightarrow> m_type (?ms ! j) \<noteq> m_type (?ms ! i)" by auto
    from fifo_take [OF ff i] show ?thesis
      using take_message_inv [OF inv i(1), of env] taken by (simp add: delivered_def)
  qed
qed

text \<open>A task that resumes leaves its list.\<close>

lemma leave_senders_inv:
  assumes "ctx_inv qid v J c"
  shows "ctx_inv qid v J ((running t c)\<lparr>mc_q := ss_del t (snd (ipc_rcu_putref (mc_q c)))\<rparr>)"
  using assms
  by (auto simp: ctx_inv_def running_def ss_del_def ipc_rcu_putref_def Let_def queue_counts_def senders_wait_def
      senders_ok_def receivers_wait_def msg_fits_inqueue_def distinct_map inj_on_def)

lemma leave_receivers_inv:
  assumes "ctx_inv qid v J c" and "t \<notin> sending c"
  shows "ctx_inv qid v J ((running t c)\<lparr>mc_q := (mc_q c)\<lparr>q_receivers := filter P (q_receivers (mc_q c))\<rparr>\<rparr>)"
  using assms
  by (auto simp: ctx_inv_def running_def queue_counts_def senders_wait_def senders_ok_def receivers_wait_def
      msg_fits_inqueue_def)

lemma running_inv: "ctx_inv qid v J c \<Longrightarrow> t \<notin> sending c \<Longrightarrow> ctx_inv qid v J (running t c)"
  by (simp add: ctx_inv_def senders_wait_running)

lemma msgsnd_resume_inv:
  assumes wf: "wf_cfg cfg" and sec: "\<And>m. J m \<Longrightarrow> judged {hk} qid v m" and inv: "ctx_inv qid v J c" and ff: "fifo J st rc (q_messages (mc_q c))"
    and msg: "1 \<le> m_type msg" "0 \<le> sint (m_ts msg)" and mem: "in_memory (msg # q_messages (mc_q c))"
    and run: "msgsnd_resume cfg env hk signal msg (m_ts msg) flg (running (current_task env) c) = (out, c')"
  shows "ctx_inv qid v J c' \<and> fifo J (st @ accepted out msg) (rc @ handed c c') (q_messages (mc_q c'))"
proof -
  let ?t = "current_task env"
  let ?q = "snd (ipc_rcu_putref (mc_q c))"
  define c1 where "c1 = (running ?t c)\<lparr>mc_q := ss_del ?t ?q\<rparr>"
  have inv1: "ctx_inv qid v J c1" unfolding c1_def by (rule leave_senders_inv [OF inv])
  have ff1: "fifo J st rc (q_messages (mc_q c1))" and d1: "mc_done c1 = mc_done c" and t1: "?t \<notin> sending c1"
    and mem1: "in_memory (msg # q_messages (mc_q c1))"
    using ff mem by (auto simp: c1_def ss_del_def ipc_rcu_putref_def Let_def)
  have "ipc_valid_object cfg (perm_of ?q)"
    using inv wf by (simp add: ctx_inv_def wf_cfg_def ipc_rcu_putref_def Let_def)
  then have r: "(if signal then (SndReturned (Some ERESTARTNOHAND), c1)
      else msgsnd_turn cfg env hk msg (m_ts msg) flg c1) = (out, c')"
    using run by (simp add: msgsnd_resume_def Let_def c1_def split: if_splits)
  show ?thesis
  proof (cases signal)
    case True
    then have "out = SndReturned (Some ERESTARTNOHAND)" "c' = c1" using r by simp_all
    then show ?thesis using inv1 ff1 d1 by (simp add: accepted_def)
  next
    case False
    then have "msgsnd_turn cfg env hk msg (m_ts msg) flg c1 = (out, c')" using r by simp
    from msgsnd_turn_inv [OF sec inv1 ff1 msg mem1 t1 this] show ?thesis
      using handed_cong [of c1 c c' c'] d1 by simp
  qed
qed

lemma msgrcv_resume_inv:
  assumes sec: "\<And>m. J m \<Longrightarrow> judged {hk} qid v m" and inv: "ctx_inv qid v J c" and ff: "fifo J st rc (q_messages (mc_q c))"
    and t: "current_task env \<notin> sending c" and mode: "smode \<noteq> SEARCH_NUMBER"
    and res: "receiver_result (current_task env) c = Inl EAGAIN"
    and run: "msgrcv_resume cfg env hk (Inl EAGAIN) signal bufsz flg ty smode (running (current_task env) c) = (out, c')"
  shows "ctx_inv qid v J c' \<and> fifo J st (rc @ delivered out) (q_messages (mc_q c'))"
proof -
  let ?t = "current_task env"
  define c1 where "c1 = (running ?t c)\<lparr>mc_q := (mc_q c)\<lparr>q_receivers := filter (\<lambda>r. r_tsk r \<noteq> ?t) (q_receivers (mc_q c))\<rparr>\<rparr>"
  have inv1: "ctx_inv qid v J c1" unfolding c1_def by (rule leave_receivers_inv [OF inv t])
  have ff1: "fifo J st rc (q_messages (mc_q c1))" using ff by (simp add: c1_def)
  have "receiver_result ?t (running ?t c) = Inl EAGAIN" using res by (simp add: receiver_result_def split: option.splits)
  then have r: "(if signal then (RcvReturned (Inl ERESTARTNOHAND), c1)
      else msgrcv_turn cfg env hk bufsz flg ty smode c1) = (out, c')"
    using run by (simp add: msgrcv_resume_def Let_def c1_def split: if_splits)
  show ?thesis
  proof (cases signal)
    case True
    then have "out = RcvReturned (Inl ERESTARTNOHAND)" "c' = c1" using r by simp_all
    then show ?thesis using inv1 ff1 by (simp add: delivered_def)
  next
    case False
    then have "msgrcv_turn cfg env hk bufsz flg ty smode c1 = (out, c')" using r by simp
    from msgrcv_turn_inv [OF sec inv1 ff1 mode this] show ?thesis .
  qed
qed

text \<open>\<open>IPC_SET\<close> stores the limit with its sign extended.\<close>

lemma msgctl_set_cases:
  assumes "msgctl_set env perm64 limit c = Inr c'"
  obtains c1 where "c' = ss_wakeup False c1" "mc_wake c1 = mc_wake c @ map r_tsk (q_receivers (mc_q c))"
    "mc_done c1 = mc_done c" "deleted (mc_q c1) = deleted (mc_q c)" "perm_id (mc_q c1) = perm_id (mc_q c)"
    "q_messages (mc_q c1) = q_messages (mc_q c)" "q_cbytes (mc_q c1) = q_cbytes (mc_q c)"
    "q_qnum (mc_q c1) = q_qnum (mc_q c)" "q_qbytes (mc_q c1) = scast limit" "q_senders (mc_q c1) = q_senders (mc_q c)"
    "q_receivers (mc_q c1) = map (\<lambda>r. r\<lparr>r_msg := Inl EAGAIN\<rparr>) (q_receivers (mc_q c))"
  using assms that
  by (auto simp: msgctl_set_def Let_def ipc_update_perm_def expunge_all_def split: option.splits)

lemma msgctl_set_inv:
  assumes inv: "ctx_inv qid v J c" and run: "msgctl_set env perm64 limit c = Inr c'"
  shows "ctx_inv qid v J c' \<and> q_messages (mc_q c') = q_messages (mc_q c)"
proof -
  obtain c1 where c1: "c' = ss_wakeup False c1" "deleted (mc_q c1) = deleted (mc_q c)" "perm_id (mc_q c1) = perm_id (mc_q c)"
    "q_messages (mc_q c1) = q_messages (mc_q c)" "q_cbytes (mc_q c1) = q_cbytes (mc_q c)"
    "q_qnum (mc_q c1) = q_qnum (mc_q c)" "q_qbytes (mc_q c1) = scast limit" "q_senders (mc_q c1) = q_senders (mc_q c)"
    "q_receivers (mc_q c1) = map (\<lambda>r. r\<lparr>r_msg := Inl EAGAIN\<rparr>) (q_receivers (mc_q c))"
    using run by (rule msgctl_set_cases)
  have so: "senders_ok (mc_q c1)" "\<forall>x \<in> set (q_senders (mc_q c1)). 0 \<le> sint (s_msgsz x)"
    using inv c1 by (simp_all add: ctx_inv_def senders_wait_def senders_ok_def)
  have "queue_counts (mc_q c1)" "receivers_wait v J (mc_q c1)"
    using inv c1 by (auto simp: ctx_inv_def queue_counts_def receivers_wait_def takes_def)
  then show ?thesis using senders_wait_woken [OF so] so inv c1
    by (auto simp: ctx_inv_def ss_wakeup_eq queue_counts_def receivers_wait_def)
qed

lemma sys_inv_alt:
  "sys_inv qid v J \<lparr>sy_ctx = c, sy_sent = st, sy_rcvd = rc\<rparr> \<longleftrightarrow> ctx_inv qid v J c \<and> fifo J st rc (q_messages (mc_q c))"
  by (simp add: sys_inv_def)

lemma msg_step_inv:
  assumes wf: "wf_cfg cfg" and J: "\<And>hk m. hk \<in> HK \<Longrightarrow> J m \<Longrightarrow> judged {hk} qid v m" and inv: "sys_inv qid v J s"
    and st: "msg_step cfg HK s ev s'"
  shows "sys_inv qid v J s'"
  using st
proof (cases rule: msg_step.cases)
  case (step_send hk env c msg flg out c' st rc)
  have i: "ctx_inv qid v J (running (current_task env) c)" and ff: "fifo J st rc (q_messages (mc_q c))"
    using inv step_send running_inv by (simp_all add: sys_inv_alt)
  show ?thesis using msgsnd_turn_inv [OF J [OF step_send(4)] i] step_send ff by (simp add: sys_inv_alt)
next
  case (step_send_resume hk msg c env signal flg out c' st rc)
  have i: "ctx_inv qid v J c" and ff: "fifo J st rc (q_messages (mc_q c))"
    using inv step_send_resume by (simp_all add: sys_inv_alt)
  show ?thesis using msgsnd_resume_inv [OF wf J [OF step_send_resume(4)] i ff] step_send_resume by (simp add: sys_inv_alt)
next
  case (step_receive hk env c smode bufsz flg ty out c' st rc)
  have i: "ctx_inv qid v J (running (current_task env) c)" and ff: "fifo J st rc (q_messages (mc_q c))"
    using inv step_receive running_inv by (simp_all add: sys_inv_alt)
  show ?thesis using msgrcv_turn_inv [OF J [OF step_receive(4)] i] step_receive ff by (simp add: sys_inv_alt)
next
  case (step_receive_resume hk env c smode signal bufsz flg ty out c' st rc)
  have i: "ctx_inv qid v J c" and ff: "fifo J st rc (q_messages (mc_q c))"
    using inv step_receive_resume by (simp_all add: sys_inv_alt)
  show ?thesis using msgrcv_resume_inv [OF J [OF step_receive_resume(4)] i ff] step_receive_resume by (simp add: sys_inv_alt)
next
  case (step_set env perm64 limit c c' st rc)
  then show ?thesis using msgctl_set_inv [OF _ step_set(4), of qid v J] inv by (simp add: sys_inv_alt)
qed

interpretation msg_queue_sys: inv_system msg_start "msg_step cfg HK" "\<lambda>s. wf_cfg cfg \<longrightarrow> msg_inv HK s" for cfg HK
proof unfold_locales
  show "wf_cfg cfg \<longrightarrow> msg_inv HK s" if "msg_start s" for s
    using that by (simp add: msg_start_inv)
next
  fix s ev s'
  assume inv: "wf_cfg cfg \<longrightarrow> msg_inv HK s" and st: "msg_step cfg HK s ev s'"
  show "wf_cfg cfg \<longrightarrow> msg_inv HK s'"
  proof
    assume wf: "wf_cfg cfg"
    define qid where "qid = perm_id (mc_q (sy_ctx s))"
    have i: "sys_inv qid v (judged HK qid v) s'" for v
    proof (rule msg_step_inv [OF wf _ _ st])
      show "judged {hk} qid v m" if "hk \<in> HK" "judged HK qid v m" for hk m using that by (simp add: judged_def)
      show "sys_inv qid v (judged HK qid v) s" using inv wf by (simp add: msg_inv_def Let_def qid_def)
    qed
    moreover have "perm_id (mc_q (sy_ctx s')) = qid" using i [of "\<lambda>_. True"] by (simp add: sys_inv_def ctx_inv_def)
    ultimately show "msg_inv HK s'" by (simp add: msg_inv_def Let_def)
  qed
qed

end
