(* ===== verification/Msg_Props.thy ===== *)
theory Msg_Props
  imports Msg_System
begin

text \<open>
  The properties of message queues: message selection, the guarantees of the transition system,
  waking senders, removal, the size limit of \<open>IPC_SET\<close> and a message through both system calls.
\<close>

section \<open>Sample environment\<close>

definition sample_mhk :: msg_hooks where
  "sample_mhk =
     \<lparr>security_msg_queue_alloc = (\<lambda>_. None), security_msg_queue_associate = (\<lambda>_ _. None),
      security_msg_queue_msgctl = (\<lambda>_ _. None), security_msg_queue_msgsnd = (\<lambda>_ _ _. None),
      security_msg_queue_msgrcv = (\<lambda>_ _ _ _ _. None), load_msg = (\<lambda>b n. Inr (take (unat n) b)),
      store_msg = (\<lambda>b n. Some (take (unat n) b)), task_pid = id,
      msg_pid_vnr = (\<lambda>p. case p of None \<Rightarrow> 0 | Some x \<Rightarrow> int x), capable = (\<lambda>_. True),
      msg_mem_ok = True, msg_user_ok = True\<rparr>"

definition sample_mns :: msg_ns where
  "sample_mns = msg_init_ns
     \<lparr>mns_ids = ipc_init_ids, msg_bytes = 0, msg_hdrs = 0, mns_wake = [], mns_done = [], msg_ctlmax = 0,
      msg_ctlmnb = 0, msg_ctlmni = 0\<rparr>"

text \<open>After \<open>msgget\<close>: the queue 0.\<close>

definition queue_mns :: msg_ns where
  "queue_mns = snd (ksys_msgget sample_cfg sample_env sample_orc sample_mhk sample_mns 0 0x180)"

definition sample_mq :: msg_queue where
  "sample_mq = projr (msq_obtain_object_check sample_cfg queue_mns 0)"

lemma queue_mns_get: "msq_obtain_object_check sample_cfg queue_mns 0 = Inr sample_mq"
  by code_simp

definition sample_msg :: "int \<Rightarrow> byte list \<Rightarrow> msg_msg" where
  "sample_msg ty txt = \<lparr>m_type = ty, m_ts = 3, m_text = txt\<rparr>"

lemma judged_sample: "judged {sample_mhk} qid (\<lambda>_. True) m"
  by (simp add: judged_def sample_mhk_def)

section \<open>Selection\<close>

text \<open>
  C28.  Message selection: with the arguments of \<open>msgrcv\<close> converted by \<open>convert_mode\<close>, \<open>find_msg\<close> picks what
  \<open>chosen\<close> says of the arguments themselves: among the messages the security module grants, the oldest
  that is asked for, for a negative type the head of the stable sort by type, with \<open>MSG_COPY\<close> the one
  at the given position, and nothing when there is none.  In a search for the least type, where the
  type asked for is lowered on the way, the verdict of the module must not depend on it.
\<close>

theorem find_msg_selects:
  assumes "convert_mode msgtyp flg = (smode, ty)"
    and "\<forall>m \<in> set (q_messages msq). 1 \<le> m_type m \<and> m_type m \<le> LONG_MAX" and "LONG_MIN \<le> msgtyp"
    and "msgtyp < 0 \<Longrightarrow> \<not> has_flag flg MSG_COPY \<Longrightarrow>
      \<forall>m ty'. (security_msg_queue_msgrcv hk (perm_of msq) m t ty' smode = None) =
              (security_msg_queue_msgrcv hk (perm_of msq) m t ty smode = None)"
  shows "fst (find_msg hk t msq ty smode) =
    chosen msgtyp flg (\<lambda>m. security_msg_queue_msgrcv hk (perm_of msq) m t ty smode = None) (q_messages msq)"
  by (rule find_msg_chosen [OF assms])

text \<open>Types up to 4, all types but 9, and the copy of the fourth message.\<close>

theorem find_msg_selects_witness:
  "let msq = sample_mq\<lparr>q_messages := map (\<lambda>ty. sample_msg ty []) [9, 4, 2, 4, 2]\<rparr>
   in fst (find_msg sample_mhk 1 msq 4 SEARCH_LESSEQUAL) = Some 2 \<and>
      fst (find_msg sample_mhk 1 msq 9 SEARCH_NOTEQUAL) = Some 1 \<and>
      fst (find_msg sample_mhk 1 msq 3 SEARCH_NUMBER) = Some 3"
proof -
  define msq where "msq = sample_mq\<lparr>q_messages := map (\<lambda>ty. sample_msg ty []) [9, 4, 2, 4, 2]\<rparr>"
  have types: "\<forall>m \<in> set (q_messages msq). 1 \<le> m_type m \<and> m_type m \<le> LONG_MAX"
    by (simp add: msq_def sample_msg_def LONG_MAX_def)
  have modes: "convert_mode (-4) 0 = (SEARCH_LESSEQUAL, 4)" "convert_mode 9 MSG_EXCEPT = (SEARCH_NOTEQUAL, 9)"
    "convert_mode 3 MSG_COPY = (SEARCH_NUMBER, 3)" by code_simp+
  have range: "LONG_MIN \<le> -4" "LONG_MIN \<le> 9" "LONG_MIN \<le> 3" by (simp_all add: LONG_MIN_def)
  have "chosen (-4) 0 (\<lambda>m. True) (q_messages msq) = Some 2" "chosen 9 MSG_EXCEPT (\<lambda>m. True) (q_messages msq) = Some 1"
    "chosen 3 MSG_COPY (\<lambda>m. True) (q_messages msq) = Some 3" unfolding msq_def by code_simp+
  then show ?thesis
    using find_msg_selects [OF modes(1) types range(1), of sample_mhk 1] find_msg_selects [OF modes(2) types range(2), of sample_mhk 1]
      find_msg_selects [OF modes(3) types range(3), of sample_mhk 1]
    unfolding Let_def msq_def [symmetric] by (simp add: sample_mhk_def)
qed

section \<open>Reachable queues\<close>

text \<open>
  A run for the witnesses: task 8 waits for type 4, task 1 sends two such messages, of which the first
  is handed over, \<open>IPC_SET\<close> lowers the limit to 5 bytes, task 5 waits with three bytes that do not fit,
  and task 9 waits for type 7.
\<close>

definition start_sys :: msg_sys where
  "start_sys = \<lparr>sy_ctx = mctx_of queue_mns sample_mq, sy_sent = [], sy_rcvd = []\<rparr>"

definition run_by :: "task \<Rightarrow> ipc_env" where
  "run_by t = sample_env\<lparr>current_task := t\<rparr>"

definition do_send :: "task \<Rightarrow> byte list \<Rightarrow> msg_sys \<Rightarrow> msg_sys" where
  "do_send t txt s =
     (case msgsnd_turn sample_cfg (run_by t) sample_mhk (sample_msg 4 txt) (m_ts (sample_msg 4 txt)) 0 (running t (sy_ctx s)) of
        (out, c') \<Rightarrow> \<lparr>sy_ctx = c', sy_sent = sy_sent s @ accepted out (sample_msg 4 txt),
                      sy_rcvd = sy_rcvd s @ handed (sy_ctx s) c'\<rparr>)"

definition do_receive :: "task \<Rightarrow> int \<Rightarrow> msg_sys \<Rightarrow> msg_sys" where
  "do_receive t ty s =
     (case msgrcv_turn sample_cfg (run_by t) sample_mhk 100 0 ty SEARCH_EQUAL (running t (sy_ctx s)) of
        (out, c') \<Rightarrow> \<lparr>sy_ctx = c', sy_sent = sy_sent s, sy_rcvd = sy_rcvd s @ delivered out\<rparr>)"

definition sample_perm64 :: ipc64_perm where
  "sample_perm64 = \<lparr>p64_key = 0, p64_uid = 0, p64_gid = 0, p64_cuid = 0, p64_cgid = 0, p64_mode = 0x180, p64_seq = 0\<rparr>"

text \<open>\<open>IPC_SET\<close> while no sender waits.\<close>

definition do_limit :: "u32 \<Rightarrow> msg_sys \<Rightarrow> msg_sys" where
  "do_limit limit s = s\<lparr>sy_ctx := expunge_all EAGAIN ((sy_ctx s)\<lparr>mc_q :=
     (projr (ipc_update_perm sample_env sample_perm64 (mc_q (sy_ctx s))))\<lparr>q_qbytes := scast limit, q_ctime := 100\<rparr>\<rparr>)\<rparr>"

abbreviation sample_steps :: "msg_sys \<Rightarrow> bool" where
  "sample_steps \<equiv> reach msg_start (msg_step sample_cfg {sample_mhk})"

lemma do_send_reach:
  assumes "sample_steps s" and "t \<notin> sending (sy_ctx s)" and "in_memory (sample_msg 4 txt # q_messages (mc_q (sy_ctx s)))"
  shows "sample_steps (do_send t txt s)"
proof -
  let ?m = "sample_msg 4 txt"
  obtain c st rc where s: "s = \<lparr>sy_ctx = c, sy_sent = st, sy_rcvd = rc\<rparr>" by (cases s)
  have me: "current_task (run_by t) = t" by (simp add: run_by_def)
  obtain out c' where r: "msgsnd_turn sample_cfg (run_by t) sample_mhk ?m (m_ts ?m) 0 (running (current_task (run_by t)) c) = (out, c')"
    by force
  have d: "do_send t txt s = \<lparr>sy_ctx = c', sy_sent = st @ accepted out ?m, sy_rcvd = rc @ handed c c'\<rparr>"
    using r by (simp add: do_send_def s me)
  have "current_task (run_by t) \<notin> sending c" "1 \<le> m_type ?m" "0 \<le> sint (m_ts ?m)" "in_memory (?m # q_messages (mc_q c))"
    using assms(2,3) by (simp_all add: s me) (simp_all add: sample_msg_def)
  from step_send [where HK = "{sample_mhk}", OF singletonI this r] have
    "msg_step sample_cfg {sample_mhk} s (EvSend out) (do_send t txt s)" unfolding d by (simp only: s)
  with assms(1) show ?thesis by (rule reach_step)
qed

lemma do_receive_reach:
  assumes "sample_steps s" and "t \<notin> sending (sy_ctx s)"
  shows "sample_steps (do_receive t ty s)"
proof -
  obtain c st rc where s: "s = \<lparr>sy_ctx = c, sy_sent = st, sy_rcvd = rc\<rparr>" by (cases s)
  have me: "current_task (run_by t) = t" by (simp add: run_by_def)
  obtain out c' where r: "msgrcv_turn sample_cfg (run_by t) sample_mhk 100 0 ty SEARCH_EQUAL (running (current_task (run_by t)) c) = (out, c')"
    by force
  have d: "do_receive t ty s = \<lparr>sy_ctx = c', sy_sent = st, sy_rcvd = rc @ delivered out\<rparr>"
    using r by (simp add: do_receive_def s me)
  have "current_task (run_by t) \<notin> sending c" "SEARCH_EQUAL \<noteq> SEARCH_NUMBER" using assms(2) by (simp_all add: s me)
  from step_receive [where HK = "{sample_mhk}", OF singletonI this r] have
    "msg_step sample_cfg {sample_mhk} s (EvReceive out) (do_receive t ty s)" unfolding d by (simp only: s)
  with assms(1) show ?thesis by (rule reach_step)
qed

lemma do_limit_reach:
  assumes "sample_steps s" and "q_senders (mc_q (sy_ctx s)) = []"
  shows "sample_steps (do_limit limit s)"
proof -
  obtain c st rc where s: "s = \<lparr>sy_ctx = c, sy_sent = st, sy_rcvd = rc\<rparr>" by (cases s)
  have idle: "ss_wakeup False c' = c'" if "q_senders (mc_q c') = []" for c'
    using that by (simp add: ss_wakeup_eq senders_ok_def)
  have "msgctl_set sample_env sample_perm64 limit c = Inr (sy_ctx (do_limit limit s))"
    using assms(2) by (simp add: s do_limit_def msgctl_set_def ipc_update_perm_def sample_env_def sample_perm64_def
        expunge_all_def idle Let_def)
  from step_set [OF this, of sample_cfg "{sample_mhk}" st rc] have "msg_step sample_cfg {sample_mhk} s EvSet (do_limit limit s)"
    unfolding s by (simp add: do_limit_def)
  with assms(1) show ?thesis by (rule reach_step)
qed

lemma start_sys_reach: "sample_steps start_sys"
proof (rule reach_start)
  have "\<not> deleted sample_mq" "q_messages sample_mq = []" "q_receivers sample_mq = []" "q_senders sample_mq = []"
    "q_cbytes sample_mq = 0" "q_qnum sample_mq = 0"
    by code_simp+
  then show "msg_start start_sys" by (simp add: msg_start_def start_sys_def mctx_of_def)
qed

definition sent_sys :: msg_sys where
  "sent_sys = do_send 1 [4, 5, 6] (do_send 1 [1, 2, 3] (do_receive 8 4 start_sys))"

definition busy_sys :: msg_sys where
  "busy_sys = do_receive 9 7 (do_send 5 [7, 8, 9] (do_limit 5 sent_sys))"

lemma sent_sys_reach: "sample_steps sent_sys"
proof -
  let ?s1 = "do_receive 8 4 start_sys" and ?s2 = "do_send 1 [1, 2, 3] (do_receive 8 4 start_sys)"
  have "q_senders (mc_q (sy_ctx start_sys)) = []" "q_senders (mc_q (sy_ctx ?s1)) = []" "q_senders (mc_q (sy_ctx ?s2)) = []"
    "q_messages (mc_q (sy_ctx ?s1)) = []" "q_messages (mc_q (sy_ctx ?s2)) = []"
    by code_simp+
  then show ?thesis unfolding sent_sys_def
    by (intro do_send_reach do_receive_reach start_sys_reach) (simp_all add: in_memory_def sample_msg_def)
qed

lemma busy_sys_reach: "sample_steps busy_sys"
proof -
  let ?s1 = "do_limit 5 sent_sys" and ?s2 = "do_send 5 [7, 8, 9] (do_limit 5 sent_sys)"
  have "q_senders (mc_q (sy_ctx sent_sys)) = []" "q_senders (mc_q (sy_ctx ?s1)) = []"
    "map s_tsk (q_senders (mc_q (sy_ctx ?s2))) = [5]" "q_messages (mc_q (sy_ctx ?s1)) = [sample_msg 4 [4, 5, 6]]"
    by code_simp+
  then show ?thesis unfolding busy_sys_def
    by (intro do_receive_reach do_send_reach do_limit_reach sent_sys_reach)
      (auto simp: in_memory_def sample_msg_def)
qed

lemma reachable_msg_inv:
  "wf_cfg cfg \<Longrightarrow> reach msg_start (msg_step cfg HK) s \<Longrightarrow> msg_inv HK s"
  using msg_queue_sys.reach_inv by blast

lemma reachable_sys_inv:
  "wf_cfg cfg \<Longrightarrow> reach msg_start (msg_step cfg HK) s \<Longrightarrow> qid = perm_id (mc_q (sy_ctx s)) \<Longrightarrow> sys_inv qid v (judged HK qid v) s"
  using reachable_msg_inv by (simp add: msg_inv_def Let_def)

lemmas sys_inv_defs = sys_inv_def ctx_inv_def

text \<open>
  Accounting: under any order of sends, receives, wakeups and limit changes, \<open>q_cbytes\<close> is the
  sum of the sizes of the queued messages and \<open>q_qnum\<close> their number, and neither wraps around.
\<close>

theorem queue_accounting:
  assumes "wf_cfg cfg" and "reach msg_start (msg_step cfg HK) s"
  shows "let q = mc_q (sy_ctx s) in
    unat (q_cbytes q) = sum_list (map (unat \<circ> m_ts) (q_messages q)) \<and> unat (q_qnum q) = length (q_messages q)"
  using reachable_sys_inv [OF assms refl, of "\<lambda>_. True"] by (simp add: sys_inv_defs queue_counts_def Let_def)

theorem queue_accounting_witness:
  "unat (q_cbytes (mc_q (sy_ctx busy_sys))) = sum_list (map (unat \<circ> m_ts) (q_messages (mc_q (sy_ctx busy_sys))))"
  using queue_accounting [OF wf_sample_cfg busy_sys_reach] unfolding Let_def by blast

text \<open>
  C16.  No lost wakeups, for any security modules and any limits \<open>IPC_SET\<close> stores: in every reachable
  queue no waiting receiver could take a queued message, that is, one of the types it waits for that
  the modules, judging it by the receiving task, grant it; and every waiting sender is about to run
  or its message does not fit.
\<close>

theorem no_sleeper_misses:
  assumes "wf_cfg cfg" and "reach msg_start (msg_step cfg HK) s"
  shows "(\<forall>r \<in> set (q_receivers (mc_q (sy_ctx s))). \<forall>m \<in> set (q_messages (mc_q (sy_ctx s))). \<forall>v.
       judged HK (perm_id (mc_q (sy_ctx s))) v m \<longrightarrow> m_type m \<in> types_of (r_mode r) (r_msgtype r) \<longrightarrow> \<not> v (r_tsk r)) \<and>
    (\<forall>x \<in> set (q_senders (mc_q (sy_ctx s))).
       s_tsk x \<in> set (mc_wake (sy_ctx s)) \<or> \<not> msg_fits_inqueue (mc_q (sy_ctx s)) (s_msgsz x))"
  using reachable_sys_inv [OF assms refl]
  by (auto simp: sys_inv_defs receivers_wait_def senders_wait_def takes_def)

text \<open>A queue with a message, a receiver that waits for another type and a sender that waits for room.\<close>

theorem no_sleeper_misses_witness:
  "map r_tsk (q_receivers (mc_q (sy_ctx busy_sys))) = [9] \<and> map s_tsk (q_senders (mc_q (sy_ctx busy_sys))) = [5] \<and>
   map m_type (q_messages (mc_q (sy_ctx busy_sys))) = [4] \<and> mc_wake (sy_ctx busy_sys) = [8] \<and>
   4 \<notin> types_of (r_mode (hd (q_receivers (mc_q (sy_ctx busy_sys))))) (r_msgtype (hd (q_receivers (mc_q (sy_ctx busy_sys))))) \<and>
   \<not> msg_fits_inqueue (mc_q (sy_ctx busy_sys)) (s_msgsz (hd (q_senders (mc_q (sy_ctx busy_sys)))))"
proof -
  let ?q = "mc_q (sy_ctx busy_sys)"
  have e: "map r_tsk (q_receivers ?q) = [9]" "map s_tsk (q_senders ?q) = [5]" "map m_type (q_messages ?q) = [4]"
    "mc_wake (sy_ctx busy_sys) = [8]"
    by code_simp+
  then obtain r x m where l: "q_receivers ?q = [r]" "q_senders ?q = [x]" "q_messages ?q = [m]" "m_type m = 4" "s_tsk x = 5"
    by auto
  have "m_type m \<in> types_of (r_mode r) (r_msgtype r) \<longrightarrow> \<not> True" "s_tsk x \<in> set [8] \<or> \<not> msg_fits_inqueue ?q (s_msgsz x)"
    using no_sleeper_misses [OF wf_sample_cfg busy_sys_reach] judged_sample [of "perm_id ?q" m] l e(4) by auto
  then show ?thesis using e l by simp
qed

text \<open>
  C4.  The queue refines first-in first-out channels, for any security modules and any limits.  Nothing
  that was accepted is lost or doubled: the accepted messages are those delivered and those queued.
  Those of one type that the modules judge alike are delivered and queued in the order they were
  accepted, also when a message is handed to a receiver directly.
\<close>

theorem per_type_fifo:
  assumes "wf_cfg cfg" and "reach msg_start (msg_step cfg HK) s"
  shows "mset (sy_sent s) = mset (sy_rcvd s) + mset (q_messages (mc_q (sy_ctx s))) \<and>
    filter (\<lambda>m. m_type m = ty \<and> judged HK (perm_id (mc_q (sy_ctx s))) v m) (sy_sent s) =
      filter (\<lambda>m. m_type m = ty \<and> judged HK (perm_id (mc_q (sy_ctx s))) v m) (sy_rcvd s) @
      filter (\<lambda>m. m_type m = ty \<and> judged HK (perm_id (mc_q (sy_ctx s))) v m) (q_messages (mc_q (sy_ctx s)))"
  using reachable_sys_inv [OF assms refl, of v] by (simp_all add: sys_inv_def fifo_def)

text \<open>The first of two messages of type 4 was handed to task 8, the second is queued.\<close>

theorem per_type_fifo_witness:
  "sy_sent busy_sys = [sample_msg 4 [1, 2, 3], sample_msg 4 [4, 5, 6]] \<and>
   filter (\<lambda>m. m_type m = 4) (sy_rcvd busy_sys) = [sample_msg 4 [1, 2, 3]] \<and>
   filter (\<lambda>m. m_type m = 4) (q_messages (mc_q (sy_ctx busy_sys))) = [sample_msg 4 [4, 5, 6]]"
proof -
  have e: "sy_sent busy_sys = [sample_msg 4 [1, 2, 3], sample_msg 4 [4, 5, 6]]" "length (sy_rcvd busy_sys) = 1"
    "list_all (\<lambda>m. m_type m = 4) (sy_rcvd busy_sys)"
    by code_simp+
  then show ?thesis
    using per_type_fifo [OF wf_sample_cfg busy_sys_reach, of 4 "\<lambda>_. True"]
    by (cases "sy_rcvd busy_sys") (auto simp: judged_sample sample_msg_def)
qed

section \<open>Wakeups and removal\<close>

text \<open>
  Waking senders terminates although it moves entries of the list it walks: with the senders of
  distinct tasks, exactly those whose message fits are woken, in their order, and they stay in
  front of the others.
\<close>

theorem ss_wakeup_wakes_fitting:
  assumes "distinct (map s_tsk (q_senders msq))"
  shows "ss_wakeup_loop msq False None [] (q_senders msq) [] =
    Some (filter (\<lambda>s. msg_fits_inqueue msq (s_msgsz s)) (q_senders msq) @
            filter (\<lambda>s. \<not> msg_fits_inqueue msq (s_msgsz s)) (q_senders msq),
          map s_tsk (filter (\<lambda>s. msg_fits_inqueue msq (s_msgsz s)) (q_senders msq)))"
  using ss_loop_running [OF assms, of msq "[]" "[]"] by simp

theorem ss_wakeup_wakes_fitting_witness:
  "let msq = sample_mq\<lparr>q_qbytes := 8, q_senders := [\<lparr>s_tsk = 5, s_msgsz = 9\<rparr>, \<lparr>s_tsk = 6, s_msgsz = 4\<rparr>]\<rparr>
   in ss_wakeup_loop msq False None [] (q_senders msq) [] =
      Some ([\<lparr>s_tsk = 6, s_msgsz = 4\<rparr>, \<lparr>s_tsk = 5, s_msgsz = 9\<rparr>], [6])"
proof -
  define msq where "msq = sample_mq\<lparr>q_qbytes := 8, q_senders := [\<lparr>s_tsk = 5, s_msgsz = 9\<rparr>, \<lparr>s_tsk = 6, s_msgsz = 4\<rparr>]\<rparr>"
  have "\<not> msg_fits_inqueue msq 9" "msg_fits_inqueue msq 4" unfolding msq_def by code_simp+
  then show ?thesis using ss_wakeup_wakes_fitting [of msq] unfolding Let_def msq_def [symmetric]
    by (simp add: msq_def)
qed

lemma find_map_result:
  "t \<in> r_tsk ` set rs \<Longrightarrow>
   find (\<lambda>r. r_tsk r = t) (rev (done @ map (\<lambda>r. r\<lparr>r_msg := x\<rparr>) rs)) \<noteq> None \<and>
   (\<forall>r. find (\<lambda>r. r_tsk r = t) (rev (done @ map (\<lambda>r. r\<lparr>r_msg := x\<rparr>) rs)) = Some r \<longrightarrow> r_msg r = x)"
proof (induction rs rule: rev_induct)
  case (snoc y rs)
  then show ?case by (cases "r_tsk y = t") auto
qed simp

lemma fold_hdrs:
  "fold (\<lambda>msg n. n\<lparr>msg_hdrs := msg_hdrs n - 1\<rparr>) ms (ns :: msg_ns) = ns\<lparr>msg_hdrs := msg_hdrs ns - of_nat (length ms)\<rparr>"
proof (induction ms arbitrary: ns)
  case (Cons m ms)
  then show ?case by (simp add: diff_diff_eq)
qed simp

lemma ipc_rmid_parts:
  "snd (ipc_rmid cfg ids p) = p\<lparr>deleted := True\<rparr>"
  "ipcs_idr (fst (ipc_rmid cfg ids p)) = (ipcs_idr ids)(ipcid_to_idx cfg (perm_id p) := None)"
  by (simp_all add: ipc_rmid_def Let_def ipc_kht_remove_def)

lemma freeque_eq:
  "freeque cfg ns msq =
     ns\<lparr>mns_ids := fst (ipc_rmid cfg (mns_ids ns)
          (msq\<lparr>q_receivers := map (\<lambda>r. r\<lparr>r_msg := Inl EIDRM\<rparr>) (q_receivers msq), q_senders := []\<rparr>)),
        msg_bytes := msg_bytes ns - ucast (q_cbytes msq),
        msg_hdrs := msg_hdrs ns - of_nat (length (q_messages msq)),
        mns_wake := mns_wake ns @ map r_tsk (q_receivers msq) @ map s_tsk (q_senders msq),
        mns_done := mns_done ns @ map (\<lambda>r. r\<lparr>r_msg := Inl EIDRM\<rparr>) (q_receivers msq)\<rparr>"
proof -
  define q1 where "q1 = msq\<lparr>q_receivers := map (\<lambda>r. r\<lparr>r_msg := Inl EIDRM\<rparr>) (q_receivers msq), q_senders := []\<rparr>"
  have c1: "ss_wakeup True (expunge_all EIDRM (mctx_of ns msq)) =
      (mctx_of ns q1)\<lparr>mc_wake := mns_wake ns @ map r_tsk (q_receivers msq) @ map s_tsk (q_senders msq)\<rparr>"
    by (simp add: ss_wakeup_kill expunge_all_def mctx_of_def q1_def)
  obtain ids' where r: "ipc_rmid cfg (mns_ids ns) q1 = (ids', q1\<lparr>deleted := True\<rparr>)"
    using ipc_rmid_parts(1) [of cfg "mns_ids ns" q1] by (metis prod.collapse)
  show ?thesis unfolding q1_def [symmetric] freeque_def c1
    by (simp add: msg_rmid_def r mctx_of_def Let_def fold_hdrs) (simp add: q1_def)
qed

lemma freeque_simps:
  "mns_wake (freeque cfg ns msq) = mns_wake ns @ map r_tsk (q_receivers msq) @ map s_tsk (q_senders msq)"
  "mns_done (freeque cfg ns msq) = mns_done ns @ map (\<lambda>r. r\<lparr>r_msg := Inl EIDRM\<rparr>) (q_receivers msq)"
  "ipcs_idr (mns_ids (freeque cfg ns msq)) (ipcid_to_idx cfg (perm_id msq)) = None"
  "msg_hdrs (freeque cfg ns msq) = msg_hdrs ns - of_nat (length (q_messages msq))"
  "msg_bytes (freeque cfg ns msq) = msg_bytes ns - ucast (q_cbytes msq)"
  by (simp_all add: freeque_eq ipc_rmid_parts)

text \<open>
   Removal ends every wait: all waiting receivers and senders are woken; a receiver finds the
  result \<open>EIDRM\<close>, a sender that runs again returns \<open>EIDRM\<close>; the identifier is free and the counters of
  the namespace drop by what the queue held.
\<close>

theorem freeque_ends_waits:
  assumes "wf_cfg cfg" and "ns' = freeque cfg ns msq"
  shows "set (map r_tsk (q_receivers msq)) \<union> set (map s_tsk (q_senders msq)) \<subseteq> set (mns_wake ns') \<and>
    (\<forall>t \<in> r_tsk ` set (q_receivers msq). receiver_result t (mctx_of ns' (msq_reget cfg ns' msq)) = Inl EIDRM) \<and>
    (\<forall>env hk signal msg flg. fst (do_msgsnd_wake cfg env hk signal ns' msq msg flg) = SndReturned (Some EIDRM)) \<and>
    ipcs_idr (mns_ids ns') (ipcid_to_idx cfg (perm_id msq)) = None \<and>
    msg_hdrs ns' = msg_hdrs ns - of_nat (length (q_messages msq)) \<and> msg_bytes ns' = msg_bytes ns - ucast (q_cbytes msq)"
proof -
  have rg: "msq_reget cfg ns' msq = msq\<lparr>deleted := True, q_receivers := [], q_senders := []\<rparr>"
    by (simp add: msq_reget_def assms(2) freeque_simps)
  have dn: "mns_done ns' = mns_done ns @ map (\<lambda>r. r\<lparr>r_msg := Inl EIDRM\<rparr>) (q_receivers msq)"
    by (simp add: assms(2) freeque_simps)
  have "receiver_result t (mctx_of ns' (msq_reget cfg ns' msq)) = Inl EIDRM" if "t \<in> r_tsk ` set (q_receivers msq)" for t
    using find_map_result [OF that, of "mns_done ns" "Inl EIDRM"]
    by (auto simp: receiver_result_def rg mctx_of_def dn)
  moreover have "fst (do_msgsnd_wake cfg env hk signal ns' msq msg flg) = SndReturned (Some EIDRM)" for env hk signal msg flg
    using assms(1) by (simp add: do_msgsnd_wake_def rg mctx_of_def msgsnd_resume_def ipc_rcu_putref_def wf_cfg_def Let_def)
  ultimately show ?thesis by (simp add: assms(2) freeque_simps)
qed

theorem freeque_ends_waits_witness:
  "let msq = sample_mq\<lparr>q_receivers := [\<lparr>r_tsk = 8, r_mode = SEARCH_ANY, r_msgtype = 0, r_maxsize = 3, r_msg = Inl EAGAIN\<rparr>]\<rparr>;
       ns' = freeque sample_cfg queue_mns msq
   in receiver_result 8 (mctx_of ns' (msq_reget sample_cfg ns' msq)) = Inl EIDRM"
  using freeque_ends_waits [OF wf_sample_cfg refl, of
      "sample_mq\<lparr>q_receivers := [\<lparr>r_tsk = 8, r_mode = SEARCH_ANY, r_msgtype = 0, r_maxsize = 3, r_msg = Inl EAGAIN\<rparr>]\<rparr>" queue_mns]
  by (simp add: Let_def)

section \<open>The size limit\<close>

lemma scast_ucast_eq:
  "(scast (ucast (v :: u64) :: u32) = v) \<longleftrightarrow> uint v < 2 ^ 31 \<or> 2 ^ 64 - 2 ^ 31 \<le> uint v"
proof -
  let ?s = "signed_take_bit 31 (uint v)"
  have v: "0 \<le> uint v" "uint v < 2 ^ 64" using uint_lt2p [of v] by simp_all
  have r: "- (2 ^ 31) \<le> ?s" "?s < 2 ^ 31"
    using signed_take_bit_int_greater_eq_minus_exp [of 31 "uint v"] signed_take_bit_int_less_exp [of 31 "uint v"] by simp_all
  have s: "sint (ucast v :: u32) = ?s" by (simp add: sint_uint unsigned_ucast_eq signed_take_bit_eq_iff_take_bit_eq)
  have "uint (scast (ucast v :: u32) :: u64) = ?s mod 2 ^ 64"
    unfolding scast_eq s uint_word_of_int_eq by (simp add: take_bit_eq_mod)
  then have e: "(scast (ucast v :: u32) = v) \<longleftrightarrow> ?s mod 2 ^ 64 = uint v" by (simp add: word_uint_eq_iff)
  show ?thesis
  proof
    assume "scast (ucast v :: u32) = v"
    then have m: "?s mod 2 ^ 64 = uint v" using e by simp
    show "uint v < 2 ^ 31 \<or> 2 ^ 64 - 2 ^ 31 \<le> uint v"
    proof (cases "0 \<le> ?s")
      case True
      then show ?thesis using m r by simp
    next
      case False
      have "?s mod 2 ^ 64 = (?s + 2 ^ 64) mod 2 ^ 64" by (rule mod_add_self2 [symmetric])
      also have "\<dots> = ?s + 2 ^ 64" by (rule mod_pos_pos_trivial) (use r False in simp_all)
      finally show ?thesis using m r by linarith
    qed
  next
    assume h: "uint v < 2 ^ 31 \<or> 2 ^ 64 - 2 ^ 31 \<le> uint v"
    show "scast (ucast v :: u32) = v"
    proof (cases "uint v < 2 ^ 31")
      case True
      then have "?s = uint v" using v by (intro signed_take_bit_int_eq_self) linarith+
      then show ?thesis using e v by simp
    next
      case False
      have "?s = signed_take_bit 31 (uint v - 2 ^ 64)"
        unfolding signed_take_bit_eq_iff_take_bit_eq take_bit_eq_mod by (simp add: mod_diff_eq mod_eq_dvd_iff)
      also have "\<dots> = uint v - 2 ^ 64" using v h False by (intro signed_take_bit_int_eq_self) linarith+
      finally show ?thesis using e v by simp
    qed
  qed
qed

text \<open>
  The limit that \<open>IPC_SET\<close> stores is the value in the user's structure only below \<open>2 ^ 31\<close> or
  from \<open>2 ^ 64 - 2 ^ 31\<close> on: \<open>msgctl_down\<close> takes it as an \<open>int\<close>, which drops the upper half and then
  extends the sign.
\<close>

theorem ipc_set_limit_exact:
  assumes "msgctl_set env perm64 (ucast v) c = Inr c'" and "senders_ok (mc_q c)"
  shows "q_qbytes (mc_q c') = v \<longleftrightarrow> uint v < 2 ^ 31 \<or> 2 ^ 64 - 2 ^ 31 \<le> uint v"
proof -
  obtain c1 where c1: "c' = ss_wakeup False c1" "q_qbytes (mc_q c1) = scast (ucast v :: u32)"
    "q_senders (mc_q c1) = q_senders (mc_q c)"
    using assms(1) by (rule msgctl_set_cases)
  then have "q_qbytes (mc_q c') = scast (ucast v :: u32)"
    using assms(2) by (simp add: ss_wakeup_eq senders_ok_def)
  then show ?thesis by (simp add: scast_ucast_eq)
qed

theorem ipc_set_limit_exact_witness:
  "let c' = projr (msgctl_set sample_env \<lparr>p64_key = 0, p64_uid = 0, p64_gid = 0, p64_cuid = 0, p64_cgid = 0, p64_mode = 0, p64_seq = 0\<rparr>
        (ucast (0x100000000 :: u64)) (mctx_of queue_mns sample_mq))
   in q_qbytes (mc_q c') \<noteq> 0x100000000"
proof -
  let ?p = "\<lparr>p64_key = 0, p64_uid = 0, p64_gid = 0, p64_cuid = 0, p64_cgid = 0, p64_mode = 0, p64_seq = 0\<rparr>"
  let ?r = "msgctl_set sample_env ?p (ucast (0x100000000 :: u64)) (mctx_of queue_mns sample_mq)"
  have "?r = Inr (projr ?r)" by (simp add: msgctl_set_def ipc_update_perm_def sample_env_def Let_def)
  moreover have "senders_ok (mc_q (mctx_of queue_mns sample_mq))" by code_simp
  ultimately show ?thesis using ipc_set_limit_exact [of sample_env ?p "0x100000000"] by (simp add: Let_def)
qed

section \<open>A message through both calls\<close>

lemma newque_ids_inv:
  assumes "wf_cfg cfg" and "idr_alloc_ok orc" and "ids_inv cfg (mns_ids ns)"
    and "par_key params = IPC_PRIVATE \<or> ipc_findkey (mns_ids ns) (par_key params) = None"
    and "newque cfg env orc hk ns params = (r, ns')"
  shows "ids_inv cfg (mns_ids ns')"
proof -
  define msq where "msq = kern_ipc_perm.extend
      \<lparr>deleted = False, perm_id = 0, key = par_key params, uid = 0, gid = 0, cuid = 0, cgid = 0,
       mode = ucast (par_flg params) AND S_IRWXUGO, perm_seq = 0, refcount = 0\<rparr>
      \<lparr>q_stime = 0, q_rtime = 0, q_ctime = ktime_get_real_seconds env, q_cbytes = 0, q_qnum = 0,
       q_qbytes = ucast (msg_ctlmnb ns), q_lspid = None, q_lrpid = None, q_messages = [],
       q_receivers = [], q_senders = []\<rparr>"
  obtain a ids1 q1 where ad: "ipc_addid cfg env orc (mns_ids ns) msq (sint (msg_ctlmni ns)) = (a, ids1, q1)"
    by (metis prod.collapse)
  have k: "key msq = par_key params" by (simp add: msq_def kern_ipc_perm.defs)
  have "ids_inv cfg ids1"
    using ipc_addid_inv(1) [OF assms(1-3), of msq env] ipc_addid_Inl_inv [OF assms(3,2)] ad assms(4) k
    by (cases a) auto
  moreover have "mns_ids ns' = mns_ids ns \<or> mns_ids ns' = ids1"
    using assms(5) ad unfolding newque_def Let_def msq_def [symmetric]
    by (auto split: if_splits option.splits sum.splits)
  ultimately show ?thesis using assms(3) by auto
qed

lemma ksys_msgget_ids_inv:
  assumes "wf_cfg cfg" and "idr_alloc_ok orc" and "ids_inv cfg (mns_ids ns)"
    and run: "ksys_msgget cfg env orc hk ns k flg = (r, ns')"
  shows "ids_inv cfg (mns_ids ns')"
proof -
  let ?p = "\<lparr>par_key = k, par_flg = flg, par_nsems = 0\<rparr>"
  have "ns' = ns \<or> (k = IPC_PRIVATE \<or> ipc_findkey (mns_ids ns) k = None) \<and> newque cfg env orc hk ns ?p = (r, ns')"
    using run by (auto simp: ksys_msgget_def ipcget_def ipcget_new_def ipcget_public_def Let_def
        split: if_splits option.splits)
  then show ?thesis using assms(3) newque_ids_inv [OF assms(1-3), of ?p] by auto
qed

lemma queue_mns_inv: "ids_inv sample_cfg (mns_ids queue_mns)"
proof -
  have "ids_inv sample_cfg (mns_ids sample_mns)"
    by (simp add: sample_mns_def msg_init_ns_def ids_inv_init [OF wf_sample_cfg])
  then show ?thesis unfolding queue_mns_def
    by (rule ksys_msgget_ids_inv [OF wf_sample_cfg idr_alloc_ok_sample _ prod.collapse [symmetric]])
qed

lemma perm_of_queue [simp]:
  "perm_of (msq\<lparr>q_messages := a\<rparr>) = perm_of (msq :: msg_queue)" "perm_of (msq\<lparr>q_cbytes := b\<rparr>) = perm_of msq"
  "perm_of (msq\<lparr>q_qnum := b\<rparr>) = perm_of msq" "perm_of (msq\<lparr>q_lspid := d\<rparr>) = perm_of msq"
  "perm_of (msq\<lparr>q_stime := e\<rparr>) = perm_of msq"
  by (simp_all add: perm_of_def kern_ipc_perm.defs)

lemma ipcperms_cong: "perm_of p = perm_of q \<Longrightarrow> ipcperms env p flag = ipcperms env q flag"
proof -
  assume e: "perm_of p = perm_of q"
  then have "uid p = uid q" "gid p = gid q" "cuid p = cuid q" "cgid p = cgid q" "mode p = mode q"
    by (metis perm_of_simps)+
  then show ?thesis unfolding ipcperms_def by (simp only: e)
qed

lemma msgsnd_turn_empty:
  assumes "q_receivers (mc_q c) = []" and "msgsnd_turn cfg env hk msg msgsz flg c = (SndReturned None, c')"
  shows "c' = enqueue msg msgsz (sender_stamp env c)"
  using assms(2)
proof (cases rule: msgsnd_turn_cases)
  case direct
  then show ?thesis using assms(1) by (simp add: pipelined_send_def)
next
  case (queued c2)
  then show ?thesis using assms(1) by (simp add: pipelined_send_def)
qed simp_all

text \<open>
   Round trip: what \<open>msgsnd\<close> put on an empty queue that nobody waits on, the next \<open>msgrcv\<close> of the
  same type or of any type returns unchanged, when it may read the queue and its buffer is large enough.
\<close>

theorem msgsnd_msgrcv_roundtrip:
  assumes wf: "wf_cfg cfg" and ids: "ids_inv cfg (mns_ids ns)"
    and get: "msq_obtain_object_check cfg ns msqid = Inr msq" and empty: "q_messages msq = []" "q_receivers msq = []"
    and snd: "ksys_msgsnd cfg env hk ns msqid mtype mtext msgsz flg = (SndReturned None, ns1)"
    and load: "load_msg hk mtext msgsz = Inr text"
    and rcv: "ipcperms env' msq S_IRUGO = None" "\<And>p m ty md. security_msg_queue_msgrcv hk p m (current_task env') ty md = None"
    and args: "0 \<le> sint bufsz" "msgsz \<le> bufsz" "\<not> has_flag flg' MSG_COPY" "\<not> has_flag flg' MSG_EXCEPT"
      "msgtyp = 0 \<or> msgtyp = mtype"
  shows "fst (do_msgrcv cfg env' hk ns1 msqid bufsz msgtyp flg') =
    RcvReturned (Inr \<lparr>m_type = mtype, m_ts = msgsz, m_text = text\<rparr>)"
proof -
  let ?m = "\<lparr>m_type = mtype, m_ts = msgsz, m_text = text\<rparr>"
  have ok: "0 \<le> msqid" "1 \<le> mtype" using snd by (auto simp: ksys_msgsnd_def do_msgsnd_def split: if_splits)
  obtain c' where t: "msgsnd_turn cfg env hk ?m msgsz flg (mctx_of ns msq) = (SndReturned None, c')" "ns1 = put_mctx cfg ns c'"
    using snd get load by (auto simp: ksys_msgsnd_def do_msgsnd_def Let_def split: if_splits prod.splits)
  define q1 where "q1 = mc_q c'"
  have c': "c' = enqueue ?m msgsz (sender_stamp env (mctx_of ns msq))"
    by (rule msgsnd_turn_empty [OF _ t(1)]) (simp add: mctx_of_def empty(2))
  then have q1: "q_messages q1 = [?m]" "perm_of q1 = perm_of msq" "perm_id q1 = perm_id msq"
    "perm_seq q1 = perm_seq msq" "deleted q1 = deleted msq" "key q1 = key msq"
    by (simp_all add: q1_def mctx_of_def empty(1))
  let ?i = "ipcid_to_idx cfg msqid"
  have at: "ipcs_idr (mns_ids ns) ?i = Some msq" "ipcid_to_seqx cfg msqid = perm_seq msq"
    using get ipc_obtain_object_check_iff [OF wf ids] by (simp_all add: msq_obtain_object_check_def)
  have nd: "\<not> deleted msq" and ix: "ipcid_to_idx cfg (perm_id msq) = ?i"
    using ids_invD(1) [OF ids at(1)] obj_ok_decode(1) [OF wf ids_invD(1) [OF ids at(1)]] by (simp_all add: obj_ok_def)
  have m1: "mns_ids ns1 = put_obj (mns_ids ns) ?i q1"
    using t(2) q1 nd ix by (simp add: put_mctx_def q1_def)
  have "ids_inv cfg (mns_ids ns1)" unfolding m1
    by (rule ids_inv_put_obj [OF ids at(1)]) (simp add: same_identity_def q1)
  from ipc_obtain_object_check_iff [OF wf this, of msqid q1] have get1: "msq_obtain_object_check cfg ns1 msqid = Inr q1"
    using at(2) q1(4) by (simp add: msq_obtain_object_check_def m1 put_obj_def)
  obtain smode ty where cm: "convert_mode msgtyp flg' = (smode, ty)" by force
  then have sm: "smode \<noteq> SEARCH_LESSEQUAL" "smode \<noteq> SEARCH_NUMBER" "testmsg ?m ty smode"
    using args(3-5) ok(2) by (auto simp: convert_mode_def testmsg_def split: if_splits)
  have f: "find_msg hk (current_task env') q1 ty smode = (Some 0, ty)"
    using sm rcv(2) by (simp add: find_msg_def q1(1))
  have "fst (msgrcv_turn cfg env' hk bufsz flg' ty smode (mctx_of ns1 q1)) = RcvReturned (Inr ?m)"
    using rcv(1) f nd wf args(2) q1(1,2,5) ipcperms_cong [OF q1(2)]
    by (simp add: msgrcv_turn_def mctx_of_def Let_def wf_cfg_def not_less)
  then show ?thesis using args(1,3) ok(1) cm get1 by (auto simp: do_msgrcv_def split: prod.split)
qed

theorem msgsnd_msgrcv_roundtrip_witness:
  "let ns1 = snd (ksys_msgsnd sample_cfg sample_env sample_mhk queue_mns 0 4 [7, 8] 2 0)
   in fst (do_msgrcv sample_cfg sample_env sample_mhk ns1 0 10 0 0) =
      RcvReturned (Inr \<lparr>m_type = 4, m_ts = 2, m_text = [7, 8]\<rparr>)"
proof -
  let ?r = "ksys_msgsnd sample_cfg sample_env sample_mhk queue_mns 0 4 [7, 8] 2 0"
  have "fst ?r = SndReturned None" by code_simp
  then have r: "?r = (SndReturned None, snd ?r)" by (metis prod.collapse)
  have e: "q_messages sample_mq = []" "q_receivers sample_mq = []" "load_msg sample_mhk [7, 8] 2 = Inr [7, 8]"
    "ipcperms sample_env sample_mq S_IRUGO = None"
    by code_simp+
  show ?thesis unfolding Let_def
    by (rule msgsnd_msgrcv_roundtrip [OF wf_sample_cfg queue_mns_inv queue_mns_get e(1,2) r e(3,4)])
       (simp_all add: abi_defs sample_mhk_def)
qed

end
