(* ===== verification/Shm_Segment.thy ===== *)
theory Shm_Segment
  imports Ipc_Ids
begin

text \<open>
  Shared memory of \<open>ipc/shm.c\<close>: segments, their creation and destruction, and the attach count that
  mappings keep through \<open>shm_open\<close> and \<open>shm_close\<close>.

  A segment is in the list of its creator until it is destroyed or the creator exits; the lists hold
  identifiers.  Calls into the memory management and the file system are logged in \<open>sns_log\<close>,
  what they answer is the record \<open>shm_hooks\<close>.
\<close>

section \<open>Data\<close>

type_synonym filp = nat

record shmid_kernel = kern_ipc_perm +
  shm_file :: "filp option"
  shm_nattch :: u64
  shm_segsz :: u64
  shm_atim :: int
  shm_dtim :: int
  shm_ctim :: int
  shm_cprid :: "pid option"
  shm_lprid :: "pid option"
  mlock_user :: "nat option"
  shm_creator :: task

record shm_file_data =
  sfd_id :: int
  sfd_file :: filp

datatype shm_event =
    ShmemLock filp bool "nat option" | UserShmUnlock u64 nat | Fput filp | ShmemUnlockMapping filp
  | SetIno filp int

record shm_ns =
  sns_ids :: "unit shmid_kernel_ext ipc_ids"
  shm_ctlmax :: u64
  shm_ctlall :: u64
  shm_ctlmni :: u32
  shm_rmid_forced :: bool
  shm_tot :: u64
  task_clist :: "task \<Rightarrow> int list"
  sns_log :: "shm_event list"

record shm_hooks =
  security_shm_alloc :: "kern_ipc_perm \<Rightarrow> errno option"
  security_shm_associate :: "kern_ipc_perm \<Rightarrow> u32 \<Rightarrow> errno option"
  security_shm_shmctl :: "kern_ipc_perm option \<Rightarrow> ipc_cmd \<Rightarrow> errno option"
  security_shm_shmat :: "kern_ipc_perm \<Rightarrow> u64 \<Rightarrow> u32 \<Rightarrow> errno option"
  shm_mem_ok :: bool
  shm_user_ok :: bool
  hstate_sizelog :: "u32 \<Rightarrow> u64 option"
  hugetlb_file_setup :: "u64 \<Rightarrow> bool \<Rightarrow> u32 \<Rightarrow> errno + filp \<times> nat option"
  shmem_kernel_file_setup :: "u64 \<Rightarrow> bool \<Rightarrow> errno + filp"
  overcommit_never :: bool
  is_file_hugepages :: "filp \<Rightarrow> bool"
  i_size_read :: "filp \<Rightarrow> u64"
  nrpages :: "filp \<Rightarrow> u64"
  swapped :: "filp \<Rightarrow> u64"
  pages_per_huge_page :: "filp \<Rightarrow> u64"
  shmem_lock :: "filp \<Rightarrow> errno option"
  rlimit_memlock :: bool
  current_user :: nat
  shm_pid_vnr :: "pid option \<Rightarrow> int"

definition SHM_DEST :: u16 where "SHM_DEST = 0x200"
definition SHM_LOCKED :: u16 where "SHM_LOCKED = 0x400"
definition SHMMIN :: u64 where "SHMMIN = 1"
definition SHMMNI :: u32 where "SHMMNI = 4096"
definition SHMMAX :: u64 where "SHMMAX = - 1 - 0x1000000"
definition SHMALL :: u64 where "SHMALL = - 1 - 0x1000000"
definition SHM_HUGETLB :: u32 where "SHM_HUGETLB = 0x800"
definition SHM_NORESERVE :: u32 where "SHM_NORESERVE = 0x1000"
definition PAGE_SIZE :: u64 where "PAGE_SIZE = 0x1000"
definition PAGE_SHIFT :: nat where "PAGE_SHIFT = 12"

declare SHM_DEST_def [abi_defs] SHM_LOCKED_def [abi_defs] SHMMIN_def [abi_defs] SHM_HUGETLB_def [abi_defs]
  SHM_NORESERVE_def [abi_defs] PAGE_SIZE_def [abi_defs] PAGE_SHIFT_def [abi_defs]

definition shm_log :: "shm_event \<Rightarrow> shm_ns \<Rightarrow> shm_ns" where
  "shm_log e ns = ns\<lparr>sns_log := sns_log ns @ [e]\<rparr>"

definition shm_init_ns :: "shm_ns \<Rightarrow> shm_ns" where
  "shm_init_ns ns =
     ns\<lparr>shm_ctlmax := SHMMAX, shm_ctlall := SHMALL, shm_ctlmni := SHMMNI, shm_rmid_forced := False, shm_tot := 0,
        sns_ids := ipc_init_ids\<rparr>"

text \<open>Writing a segment that was changed under its lock back to the set.\<close>

definition put_shp :: "ipc_cfg \<Rightarrow> shm_ns \<Rightarrow> shmid_kernel \<Rightarrow> shm_ns" where
  "put_shp cfg ns shp = ns\<lparr>sns_ids := put_obj (sns_ids ns) (ipcid_to_idx cfg (perm_id shp)) shp\<rparr>"

definition shm_obtain_object :: "ipc_cfg \<Rightarrow> shm_ns \<Rightarrow> int \<Rightarrow> errno + shmid_kernel" where
  "shm_obtain_object cfg ns i = ipc_obtain_object_idr cfg (sns_ids ns) i"

definition shm_obtain_object_check :: "ipc_cfg \<Rightarrow> shm_ns \<Rightarrow> int \<Rightarrow> errno + shmid_kernel" where
  "shm_obtain_object_check cfg ns i = ipc_obtain_object_check cfg (sns_ids ns) i"

definition shm_lock :: "ipc_cfg \<Rightarrow> shm_ns \<Rightarrow> int \<Rightarrow> errno + shmid_kernel" where
  "shm_lock cfg ns i =
     (case ipc_obtain_object_idr cfg (sns_ids ns) i of
        Inl e \<Rightarrow> Inl e
      | Inr shp \<Rightarrow> if ipc_valid_object cfg (perm_of shp) then Inr shp else Inl EIDRM)"

section \<open>Removal\<close>

definition shm_clist_rm :: "shmid_kernel \<Rightarrow> shm_ns \<Rightarrow> shm_ns" where
  "shm_clist_rm shp ns =
     (let t = shm_creator shp
      in if perm_id shp \<in> set (task_clist ns t)
         then ns\<lparr>task_clist := (task_clist ns)(t := removeAll (perm_id shp) (task_clist ns t))\<rparr>
         else ns)"

definition shm_rmid :: "ipc_cfg \<Rightarrow> shmid_kernel \<Rightarrow> shm_ns \<Rightarrow> shm_ns \<times> shmid_kernel" where
  "shm_rmid cfg s ns =
     (let ns1 = shm_clist_rm s ns
      in case ipc_rmid cfg (sns_ids ns1) s of (ids', s') \<Rightarrow> (ns1\<lparr>sns_ids := ids'\<rparr>, s'))"

definition seg_pages :: "u64 \<Rightarrow> u64" where
  "seg_pages sz = drop_bit PAGE_SHIFT (sz + PAGE_SIZE - 1)"

definition shm_destroy :: "ipc_cfg \<Rightarrow> shm_hooks \<Rightarrow> shm_ns \<Rightarrow> shmid_kernel \<Rightarrow> shm_ns" where
  "shm_destroy cfg hk ns shp =
     (let f = the (shm_file shp);
          shp1 = shp\<lparr>shm_file := None\<rparr>;
          ns1 = ns\<lparr>shm_tot := shm_tot ns - seg_pages (shm_segsz shp)\<rparr>;
          (ns2, shp2) = shm_rmid cfg shp1 ns1;
          ns3 = (if \<not> is_file_hugepages hk f then shm_log (ShmemLock f False (mlock_user shp2)) ns2
                 else case mlock_user shp2 of
                        Some u \<Rightarrow> shm_log (UserShmUnlock (i_size_read hk f) u) ns2
                      | None \<Rightarrow> ns2)
      in shm_log (Fput f) ns3)"

definition do_shm_rmid :: "ipc_cfg \<Rightarrow> shm_hooks \<Rightarrow> shm_ns \<Rightarrow> shmid_kernel \<Rightarrow> shm_ns" where
  "do_shm_rmid cfg hk ns shp =
     (if shm_nattch shp \<noteq> 0
      then let shp1 = shp\<lparr>mode := mode shp OR SHM_DEST\<rparr>
           in ns\<lparr>sns_ids := fst (ipc_set_key_private cfg (sns_ids ns) shp1)\<rparr>
      else shm_destroy cfg hk ns shp)"

definition shm_may_destroy :: "shm_ns \<Rightarrow> shmid_kernel \<Rightarrow> bool" where
  "shm_may_destroy ns shp \<longleftrightarrow> shm_nattch shp = 0 \<and> (shm_rmid_forced ns \<or> has_flag (mode shp) SHM_DEST)"

section \<open>Mappings\<close>

text \<open>\<open>shm_open_area\<close> is \<open>__shm_open\<close>: a mapping of the file is added.\<close>

definition shm_open_area ::
    "ipc_cfg \<Rightarrow> ipc_env \<Rightarrow> shm_ns \<Rightarrow> shm_file_data \<Rightarrow> errno option \<times> shm_ns" where
  "shm_open_area cfg env ns sfd =
     (case shm_lock cfg ns (sfd_id sfd) of
        Inl e \<Rightarrow> (Some e, ns)
      | Inr shp \<Rightarrow>
          if shm_file shp \<noteq> Some (sfd_file sfd) then (Some EINVAL, ns)
          else (None, put_shp cfg ns
                 (shp\<lparr>shm_atim := ktime_get_real_seconds env, shm_lprid := Some (current_tgid env),
                      shm_nattch := shm_nattch shp + 1\<rparr>)))"

text \<open>\<open>fork\<close>, once for every mapping: an error is only warned about.\<close>

definition shm_open :: "ipc_cfg \<Rightarrow> ipc_env \<Rightarrow> shm_ns \<Rightarrow> shm_file_data \<Rightarrow> shm_ns" where
  "shm_open cfg env ns sfd = snd (shm_open_area cfg env ns sfd)"

definition destroy_or_put :: "ipc_cfg \<Rightarrow> shm_hooks \<Rightarrow> shm_ns \<Rightarrow> shmid_kernel \<Rightarrow> shm_ns" where
  "destroy_or_put cfg hk ns shp =
     (if shm_may_destroy ns shp then shm_destroy cfg hk ns shp else put_shp cfg ns shp)"

definition shm_close :: "ipc_cfg \<Rightarrow> ipc_env \<Rightarrow> shm_hooks \<Rightarrow> shm_ns \<Rightarrow> shm_file_data \<Rightarrow> shm_ns" where
  "shm_close cfg env hk ns sfd =
     (case shm_lock cfg ns (sfd_id sfd) of
        Inl _ \<Rightarrow> ns
      | Inr shp \<Rightarrow>
          destroy_or_put cfg hk ns
            (shp\<lparr>shm_lprid := Some (current_tgid env), shm_dtim := ktime_get_real_seconds env,
                 shm_nattch := shm_nattch shp - 1\<rparr>))"

text \<open>\<open>call\<close> is what the \<open>mmap\<close> operation of the real file answers.\<close>

definition shm_mmap ::
    "ipc_cfg \<Rightarrow> ipc_env \<Rightarrow> shm_hooks \<Rightarrow> errno option \<Rightarrow> shm_ns \<Rightarrow> shm_file_data \<Rightarrow> errno option \<times> shm_ns" where
  "shm_mmap cfg env hk call ns sfd =
     (case shm_open_area cfg env ns sfd of
        (Some e, ns1) \<Rightarrow> (Some e, ns1)
      | (None, ns1) \<Rightarrow>
          (case call of Some e \<Rightarrow> (Some e, shm_close cfg env hk ns1 sfd) | None \<Rightarrow> (None, ns1)))"

section \<open>Orphans\<close>

definition shm_try_destroy_orphaned :: "ipc_cfg \<Rightarrow> shm_hooks \<Rightarrow> shm_ns \<Rightarrow> shmid_kernel \<Rightarrow> shm_ns" where
  "shm_try_destroy_orphaned cfg hk ns shp =
     (if perm_id shp \<in> set (task_clist ns (shm_creator shp)) then ns
      else if shm_may_destroy ns shp then shm_destroy cfg hk ns shp else ns)"

text \<open>\<open>idr_for_each\<close> visits the indices in ascending order, up to the highest one in use.\<close>

definition shm_destroy_orphaned :: "ipc_cfg \<Rightarrow> shm_hooks \<Rightarrow> shm_ns \<Rightarrow> shm_ns" where
  "shm_destroy_orphaned cfg hk ns =
     (if in_use (sns_ids ns) \<noteq> 0
      then fold (\<lambda>i n. case ipcs_idr (sns_ids n) (int i) of
                          None \<Rightarrow> n | Some shp \<Rightarrow> shm_try_destroy_orphaned cfg hk n shp)
             [0..<nat (max_idx (sns_ids ns) + 1)] ns
      else ns)"

text \<open>
  \<open>exit_shm\<close>: one turn of the loop takes the first segment off the list of the task.  When the segment may
  have to be destroyed, the task drops its lock before it takes the one of the segment, and \<open>other\<close> is what
  other tasks do meanwhile; \<open>ns_alive\<close> is the answer of \<open>get_ipc_ns_not_zero\<close>.  A segment that was removed
  meanwhile is left alone; the task holds a reference, and its identifier names the segment.
\<close>

definition exit_unlink :: "task \<Rightarrow> shm_ns \<Rightarrow> (int \<times> shm_ns) option" where
  "exit_unlink t ns =
     (case task_clist ns t of
        [] \<Rightarrow> None
      | i # rest \<Rightarrow> Some (i, ns\<lparr>task_clist := (task_clist ns)(t := rest)\<rparr>))"

definition exit_destroy :: "ipc_cfg \<Rightarrow> shm_hooks \<Rightarrow> int \<Rightarrow> shm_ns \<Rightarrow> shm_ns" where
  "exit_destroy cfg hk i ns =
     (case ipcs_idr (sns_ids ns) (ipcid_to_idx cfg i) of
        None \<Rightarrow> ns
      | Some shp \<Rightarrow>
          if perm_id shp \<noteq> i \<or> \<not> ipc_valid_object cfg (perm_of shp) then ns
          else if shm_may_destroy ns shp then shm_destroy cfg hk ns shp else ns)"

definition exit_shm_turn ::
    "ipc_cfg \<Rightarrow> shm_hooks \<Rightarrow> bool \<Rightarrow> (shm_ns \<Rightarrow> shm_ns) \<Rightarrow> task \<Rightarrow> shm_ns \<Rightarrow> shm_ns option" where
  "exit_shm_turn cfg hk ns_alive other t ns =
     (case exit_unlink t ns of
        None \<Rightarrow> None
      | Some (i, ns1) \<Rightarrow>
          Some (if \<not> shm_rmid_forced ns \<or> \<not> ns_alive then ns1 else exit_destroy cfg hk i (other ns1)))"

partial_function (option) exit_shm ::
    "ipc_cfg \<Rightarrow> shm_hooks \<Rightarrow> bool \<Rightarrow> (shm_ns \<Rightarrow> shm_ns) \<Rightarrow> task \<Rightarrow> shm_ns \<Rightarrow> shm_ns option" where
  "exit_shm cfg hk ns_alive other t ns =
     (case exit_shm_turn cfg hk ns_alive other t ns of
        None \<Rightarrow> Some ns
      | Some ns1 \<Rightarrow> exit_shm cfg hk ns_alive other t ns1)"

section \<open>Creation\<close>

definition newseg ::
    "ipc_cfg \<Rightarrow> ipc_env \<Rightarrow> ipc_oracle \<Rightarrow> shm_hooks \<Rightarrow> shm_ns \<Rightarrow> ipc_params \<Rightarrow> (errno + int) \<times> shm_ns" where
  "newseg cfg env orc hk ns params =
     (let sz = (word_of_int (par_nsems params) :: u64);
          shmflg = par_flg params;
          numpages = seg_pages sz;
          huge = drop_bit 26 shmflg AND 0x3F
      in if sz < SHMMIN \<or> shm_ctlmax ns < sz then (Inl EINVAL, ns)
         else if push_bit PAGE_SHIFT numpages < sz then (Inl ENOSPC, ns)
         else if shm_tot ns + numpages < shm_tot ns \<or> shm_ctlall ns < shm_tot ns + numpages then (Inl ENOSPC, ns)
         else if \<not> shm_mem_ok hk then (Inl ENOMEM, ns)
         else
           let perm = \<lparr>deleted = False, perm_id = 0, key = par_key params, uid = 0, gid = 0, cuid = 0, cgid = 0,
                       mode = ucast shmflg AND S_IRWXUGO, perm_seq = 0, refcount = 0\<rparr>
           in case security_shm_alloc hk perm of
                Some e \<Rightarrow> (Inl e, ns)
              | None \<Rightarrow>
                  (case (if has_flag shmflg SHM_HUGETLB
                         then (case hstate_sizelog hk huge of
                                 None \<Rightarrow> Inl EINVAL
                               | Some hps \<Rightarrow>
                                   hugetlb_file_setup hk ((sz + hps - 1) AND NOT (hps - 1)) (has_flag shmflg SHM_NORESERVE) huge)
                         else (case shmem_kernel_file_setup hk sz (has_flag shmflg SHM_NORESERVE \<and> \<not> overcommit_never hk) of
                                 Inl e \<Rightarrow> Inl e | Inr f \<Rightarrow> Inr (f, None))) of
                     Inl e \<Rightarrow> (Inl e, ns)
                   | Inr (f, mu) \<Rightarrow>
                       let shp = kern_ipc_perm.extend perm
                             \<lparr>shm_file = Some f, shm_nattch = 0, shm_segsz = sz, shm_atim = 0, shm_dtim = 0,
                              shm_ctim = ktime_get_real_seconds env, shm_cprid = Some (current_tgid env),
                              shm_lprid = None, mlock_user = mu, shm_creator = current_task env\<rparr>
                       in (case ipc_addid cfg env orc (sns_ids ns) shp (sint (shm_ctlmni ns)) of
                             (Inl e, ids1, _) \<Rightarrow>
                               let ns1 = ns\<lparr>sns_ids := ids1\<rparr>;
                                   ns2 = (case mu of
                                            Some u \<Rightarrow> if is_file_hugepages hk f then shm_log (UserShmUnlock sz u) ns1 else ns1
                                          | None \<Rightarrow> ns1)
                               in (Inl e, shm_log (Fput f) ns2)
                           | (Inr idx, ids1, shp1) \<Rightarrow>
                               (Inr (perm_id shp1),
                                (shm_log (SetIno f (perm_id shp1))
                                   (ns\<lparr>sns_ids := ids1,
                                       task_clist := (task_clist ns)(current_task env := perm_id shp1 # task_clist ns (current_task env))\<rparr>))
                                  \<lparr>shm_tot := shm_tot ns + numpages\<rparr>))))"

definition shm_more_checks :: "shmid_kernel \<Rightarrow> ipc_params \<Rightarrow> errno option" where
  "shm_more_checks shp params = (if shm_segsz shp < word_of_int (par_nsems params) then Some EINVAL else None)"

text \<open>The union of the parameters holds the size.\<close>

definition ksys_shmget ::
    "ipc_cfg \<Rightarrow> ipc_env \<Rightarrow> ipc_oracle \<Rightarrow> shm_hooks \<Rightarrow> shm_ns \<Rightarrow> int \<Rightarrow> u64 \<Rightarrow> u32 \<Rightarrow> (errno + int) \<times> shm_ns" where
  "ksys_shmget cfg env orc hk ns k sz shmflg =
     ipcget env sns_ids (newseg cfg env orc hk) (\<lambda>p. security_shm_associate hk (perm_of p)) (Some shm_more_checks)
       ns \<lparr>par_key = k, par_flg = shmflg, par_nsems = uint sz\<rparr>"

end
