(* ===== verification/Shm_Syscall.thy ===== *)
theory Shm_Syscall
  imports Shm_Segment
begin

text \<open>
  The system calls of \<open>ipc/shm.c\<close> on a namespace: \<open>shmctl\<close>, \<open>shmat\<close> and \<open>shmdt\<close>.  \<open>do_shmat\<close> is cut where it
  holds no lock: \<open>shmat_begin\<close> finds the segment and pins it by its attach count, \<open>shmat_map\<close> creates
  the mapping, \<open>shmat_end\<close> drops the pin.
\<close>

section \<open>Control\<close>

record shmid64_ds =
  shm64_perm :: ipc64_perm
  shm64_segsz :: u64
  shm64_atime :: int
  shm64_dtime :: int
  shm64_ctime :: int
  shm64_cpid :: int
  shm64_lpid :: int
  shm64_nattch :: u64

record shminfo64 =
  shmmax :: u64
  shmmin :: u64
  shmmni :: u64
  shmseg :: u64
  shmall :: u64

record shm_info =
  used_ids :: int
  info_tot :: u64
  info_rss :: u64
  info_swp :: u64
  swap_attempts :: u64
  swap_successes :: u64

datatype shm_version = SHM_IPC_OLD | SHM_IPC_64 | SHM_OtherVersion

text \<open>The old structures have narrower fields.\<close>

record shmid_ds_old =
  shmo_perm :: ipc64_perm
  shmo_segsz :: u32
  shmo_atime :: int
  shmo_dtime :: int
  shmo_ctime :: int
  shmo_cpid :: int
  shmo_lpid :: int
  shmo_nattch :: u16

record shminfo_old =
  io_max :: u32
  io_min :: u32
  io_mni :: u32
  io_seg :: u32
  io_all :: u32

datatype shm_out =
    ShmNoOut | OutShmid64 shmid64_ds | OutShmidOld shmid_ds_old | OutShminfo64 shminfo64 | OutShminfoOld shminfo_old
  | OutShmInfo shm_info

definition copy_shmid_to_user :: "shm_hooks \<Rightarrow> shmid64_ds \<Rightarrow> shm_version \<Rightarrow> errno + shm_out" where
  "copy_shmid_to_user hk ds version =
     (case version of
        SHM_IPC_64 \<Rightarrow> if shm_user_ok hk then Inr (OutShmid64 ds) else Inl EFAULT
      | SHM_IPC_OLD \<Rightarrow>
          if shm_user_ok hk
          then Inr (OutShmidOld
                 \<lparr>shmo_perm = shm64_perm ds, shmo_segsz = ucast (shm64_segsz ds), shmo_atime = shm64_atime ds,
                  shmo_dtime = shm64_dtime ds, shmo_ctime = shm64_ctime ds, shmo_cpid = shm64_cpid ds,
                  shmo_lpid = shm64_lpid ds, shmo_nattch = ucast (shm64_nattch ds)\<rparr>)
          else Inl EFAULT
      | SHM_OtherVersion \<Rightarrow> Inl EINVAL)"

text \<open>What \<open>IPC_SET\<close> uses: the permissions of either structure.\<close>

definition copy_shmid_from_user ::
    "shm_hooks \<Rightarrow> ipc64_perm \<Rightarrow> ipc64_perm \<Rightarrow> shm_version \<Rightarrow> errno + ipc64_perm" where
  "copy_shmid_from_user hk usr64 usr_old version =
     (case version of
        SHM_IPC_64 \<Rightarrow> if shm_user_ok hk then Inr usr64 else Inl EFAULT
      | SHM_IPC_OLD \<Rightarrow> if shm_user_ok hk then Inr usr_old else Inl EFAULT
      | SHM_OtherVersion \<Rightarrow> Inl EINVAL)"

definition copy_shminfo_to_user :: "shm_hooks \<Rightarrow> shminfo64 \<Rightarrow> shm_version \<Rightarrow> errno + shm_out" where
  "copy_shminfo_to_user hk info version =
     (case version of
        SHM_IPC_64 \<Rightarrow> if shm_user_ok hk then Inr (OutShminfo64 info) else Inl EFAULT
      | SHM_IPC_OLD \<Rightarrow>
          if shm_user_ok hk
          then Inr (OutShminfoOld
                 \<lparr>io_max = (if 0x7FFFFFFF < shmmax info then 0x7FFFFFFF else ucast (shmmax info)),
                  io_min = ucast (shmmin info), io_mni = ucast (shmmni info), io_seg = ucast (shmseg info),
                  io_all = ucast (shmall info)\<rparr>)
          else Inl EFAULT
      | SHM_OtherVersion \<Rightarrow> Inl EINVAL)"

definition shm_add_rss_swap :: "shm_hooks \<Rightarrow> shmid_kernel \<Rightarrow> u64 \<times> u64 \<Rightarrow> u64 \<times> u64" where
  "shm_add_rss_swap hk shp a =
     (let f = the (shm_file shp); (rss, swp) = a
      in if is_file_hugepages hk f then (rss + pages_per_huge_page hk f * nrpages hk f, swp)
         else (rss + nrpages hk f, swp + swapped hk f))"

text \<open>The loop of \<open>shm_get_stat\<close> counts the objects it found, not the indices it tried.\<close>

partial_function (option) shm_stat_loop ::
    "shm_hooks \<Rightarrow> (int \<Rightarrow> shmid_kernel option) \<Rightarrow> int \<Rightarrow> int \<Rightarrow> int \<Rightarrow> u64 \<times> u64 \<Rightarrow> (u64 \<times> u64) option" where
  "shm_stat_loop hk idr used found next_id a =
     (if found < used
      then case idr next_id of
             None \<Rightarrow> shm_stat_loop hk idr used found (next_id + 1) a
           | Some shp \<Rightarrow> shm_stat_loop hk idr used (found + 1) (next_id + 1) (shm_add_rss_swap hk shp a)
      else Some a)"

definition shm_get_stat :: "shm_hooks \<Rightarrow> shm_ns \<Rightarrow> (u64 \<times> u64) option" where
  "shm_get_stat hk ns = shm_stat_loop hk (ipcs_idr (sns_ids ns)) (in_use (sns_ids ns)) 0 0 (0, 0)"

definition shmctl_down ::
    "ipc_cfg \<Rightarrow> ipc_env \<Rightarrow> shm_hooks \<Rightarrow> shm_ns \<Rightarrow> int \<Rightarrow> ipc_cmd \<Rightarrow> ipc64_perm \<Rightarrow> (errno + int) \<times> shm_ns" where
  "shmctl_down cfg env hk ns shmid cmd perm64 =
     (case ipcctl_obtain_check cfg env (sns_ids ns) shmid of
        Inl e \<Rightarrow> (Inl e, ns)
      | Inr shp \<Rightarrow>
          (case security_shm_shmctl hk (Some (perm_of shp)) cmd of
             Some e \<Rightarrow> (Inl e, ns)
           | None \<Rightarrow>
               (case cmd of
                  IPC_RMID \<Rightarrow> (Inr 0, do_shm_rmid cfg hk ns shp)
                | IPC_SET \<Rightarrow>
                    (case ipc_update_perm env perm64 shp of
                       Inl e \<Rightarrow> (Inl e, ns)
                     | Inr shp1 \<Rightarrow> (Inr 0, put_shp cfg ns (shp1\<lparr>shm_ctim := ktime_get_real_seconds env\<rparr>)))
                | _ \<Rightarrow> (Inl EINVAL, ns))))"

definition shmctl_ipc_info :: "ipc_cfg \<Rightarrow> shm_hooks \<Rightarrow> shm_ns \<Rightarrow> errno + int \<times> shminfo64" where
  "shmctl_ipc_info cfg hk ns =
     (case security_shm_shmctl hk None IPC_INFO of
        Some e \<Rightarrow> Inl e
      | None \<Rightarrow>
          let m = ipc_get_maxidx cfg (in_use (sns_ids ns)) (max_idx (sns_ids ns))
          in Inr (if m < 0 then 0 else m,
                  \<lparr>shmmax = shm_ctlmax ns, shmmin = SHMMIN, shmmni = scast (shm_ctlmni ns), shmseg = scast (shm_ctlmni ns),
                   shmall = shm_ctlall ns\<rparr>))"

definition shmctl_shm_info :: "ipc_cfg \<Rightarrow> shm_hooks \<Rightarrow> shm_ns \<Rightarrow> (errno + int \<times> shm_info) option" where
  "shmctl_shm_info cfg hk ns =
     (case security_shm_shmctl hk None SHM_INFO of
        Some e \<Rightarrow> Some (Inl e)
      | None \<Rightarrow>
          (case shm_get_stat hk ns of
             None \<Rightarrow> None
           | Some (rss, swp) \<Rightarrow>
               let m = ipc_get_maxidx cfg (in_use (sns_ids ns)) (max_idx (sns_ids ns))
               in Some (Inr (if m < 0 then 0 else m,
                     \<lparr>used_ids = in_use (sns_ids ns), info_tot = shm_tot ns, info_rss = rss, info_swp = swp,
                      swap_attempts = 0, swap_successes = 0\<rparr>))))"

definition shmctl_stat ::
    "ipc_cfg \<Rightarrow> ipc_env \<Rightarrow> shm_hooks \<Rightarrow> shm_ns \<Rightarrow> int \<Rightarrow> ipc_cmd \<Rightarrow> errno + int \<times> shmid64_ds" where
  "shmctl_stat cfg env hk ns shmid cmd =
     (case (if cmd = SHM_STAT \<or> cmd = SHM_STAT_ANY then shm_obtain_object cfg ns shmid
            else shm_obtain_object_check cfg ns shmid) of
        Inl e \<Rightarrow> Inl e
      | Inr shp \<Rightarrow>
          if cmd \<noteq> SHM_STAT_ANY \<and> ipcperms env shp S_IRUGO \<noteq> None then Inl EACCES
          else case security_shm_shmctl hk (Some (perm_of shp)) cmd of
                 Some e \<Rightarrow> Inl e
               | None \<Rightarrow>
                   if \<not> ipc_valid_object cfg (perm_of shp) then Inl EIDRM
                   else Inr (if cmd = IPC_STAT then 0 else perm_id shp,
                             \<lparr>shm64_perm = kernel_to_ipc64_perm env shp, shm64_segsz = shm_segsz shp,
                              shm64_atime = shm_atim shp, shm64_dtime = shm_dtim shp, shm64_ctime = shm_ctim shp,
                              shm64_cpid = shm_pid_vnr hk (shm_cprid shp), shm64_lpid = shm_pid_vnr hk (shm_lprid shp),
                              shm64_nattch = shm_nattch shp\<rparr>))"

definition shmctl_do_lock ::
    "ipc_cfg \<Rightarrow> ipc_env \<Rightarrow> shm_hooks \<Rightarrow> shm_ns \<Rightarrow> int \<Rightarrow> ipc_cmd \<Rightarrow> (errno + int) \<times> shm_ns" where
  "shmctl_do_lock cfg env hk ns shmid cmd =
     (case shm_obtain_object_check cfg ns shmid of
        Inl e \<Rightarrow> (Inl e, ns)
      | Inr shp \<Rightarrow>
          case security_shm_shmctl hk (Some (perm_of shp)) cmd of
            Some e \<Rightarrow> (Inl e, ns)
          | None \<Rightarrow>
              if \<not> ipc_valid_object cfg (perm_of shp) then (Inl EIDRM, ns)
              else if \<not> ns_capable env CAP_IPC_LOCK \<and>
                      (current_euid env \<noteq> uid shp \<and> current_euid env \<noteq> cuid shp \<or> cmd = SHM_LOCK \<and> \<not> rlimit_memlock hk)
              then (Inl EPERM, ns)
              else
                let f = the (shm_file shp)
                in if is_file_hugepages hk f then (Inr 0, ns)
                   else if cmd = SHM_LOCK
                   then let ns1 = shm_log (ShmemLock f True (Some (current_user hk))) ns
                        in (case shmem_lock hk f of
                              Some e \<Rightarrow> (Inl e, ns1)
                            | None \<Rightarrow>
                                (Inr 0,
                                 if has_flag (mode shp) SHM_LOCKED then ns1
                                 else put_shp cfg ns1 (shp\<lparr>mode := mode shp OR SHM_LOCKED, mlock_user := Some (current_user hk)\<rparr>)))
                   else if \<not> has_flag (mode shp) SHM_LOCKED then (Inr 0, ns)
                   else (Inr 0,
                         shm_log (ShmemUnlockMapping f)
                           (put_shp cfg (shm_log (ShmemLock f False (mlock_user shp)) ns)
                              (shp\<lparr>mode := mode shp AND NOT SHM_LOCKED, mlock_user := None\<rparr>))))"

text \<open>\<open>None\<close> when a handler does not return; \<open>cmd_neg\<close> says that the number of the command is negative.\<close>

definition ksys_shmctl ::
    "ipc_cfg \<Rightarrow> ipc_env \<Rightarrow> shm_hooks \<Rightarrow> shm_ns \<Rightarrow> int \<Rightarrow> bool \<Rightarrow> ipc_cmd \<Rightarrow> ipc64_perm \<Rightarrow> ipc64_perm \<Rightarrow> shm_version
       \<Rightarrow> ((errno + int) \<times> shm_out \<times> shm_ns) option" where
  "ksys_shmctl cfg env hk ns shmid cmd_neg cmd usr64 usr_old version =
     (if cmd_neg \<or> shmid < 0 then Some (Inl EINVAL, ShmNoOut, ns)
      else if cmd = IPC_INFO
      then Some (case shmctl_ipc_info cfg hk ns of
              Inl e \<Rightarrow> (Inl e, ShmNoOut, ns)
            | Inr (r, info) \<Rightarrow>
                (case copy_shminfo_to_user hk info version of
                   Inl _ \<Rightarrow> (Inl EFAULT, ShmNoOut, ns) | Inr out \<Rightarrow> (Inr r, out, ns)))
      else if cmd = SHM_INFO
      then (case shmctl_shm_info cfg hk ns of
              None \<Rightarrow> None
            | Some (Inl e) \<Rightarrow> Some (Inl e, ShmNoOut, ns)
            | Some (Inr (r, info)) \<Rightarrow>
                Some (if shm_user_ok hk then (Inr r, OutShmInfo info, ns) else (Inl EFAULT, ShmNoOut, ns)))
      else if cmd \<in> {SHM_STAT, SHM_STAT_ANY, IPC_STAT}
      then Some (case shmctl_stat cfg env hk ns shmid cmd of
              Inl e \<Rightarrow> (Inl e, ShmNoOut, ns)
            | Inr (r, ds) \<Rightarrow>
                (case copy_shmid_to_user hk ds version of
                   Inl _ \<Rightarrow> (Inl EFAULT, ShmNoOut, ns) | Inr out \<Rightarrow> (Inr r, out, ns)))
      else if cmd = IPC_SET
      then Some (case copy_shmid_from_user hk usr64 usr_old version of
              Inl _ \<Rightarrow> (Inl EFAULT, ShmNoOut, ns)
            | Inr perm64 \<Rightarrow>
                (case shmctl_down cfg env hk ns shmid cmd perm64 of (r, ns1) \<Rightarrow> (r, ShmNoOut, ns1)))
      else if cmd = IPC_RMID
      then Some (case shmctl_down cfg env hk ns shmid cmd usr64 of (r, ns1) \<Rightarrow> (r, ShmNoOut, ns1))
      else if cmd \<in> {SHM_LOCK, SHM_UNLOCK}
      then Some (case shmctl_do_lock cfg env hk ns shmid cmd of (r, ns1) \<Rightarrow> (r, ShmNoOut, ns1))
      else Some (Inl EINVAL, ShmNoOut, ns))"

section \<open>Attach\<close>

definition SHM_RDONLY :: u32 where "SHM_RDONLY = 0x1000"
definition SHM_RND :: u32 where "SHM_RND = 0x2000"
definition SHM_REMAP :: u32 where "SHM_REMAP = 0x4000"
definition SHM_EXEC :: u32 where "SHM_EXEC = 0x8000"
definition S_IXUGO :: u16 where "S_IXUGO = 0x49"

record vm_area =
  vm_start :: u64
  vm_end :: u64
  vm_pgoff :: u64
  vm_file :: filp
  vm_shm :: "shm_file_data option"

text \<open>
  What the memory management answers during one attach: \<open>do_mmap\<close> decides on the address before it
  calls the \<open>mmap\<close> operation of the file, whose inner call answers \<open>call_mmap\<close>.  Mappings that \<open>SHM_REMAP\<close>
  replaces are closed before by calls of their own.
\<close>

record mm_hooks =
  sfd_alloc_ok :: bool
  alloc_file_clone :: "filp \<Rightarrow> errno + filp"
  security_mmap_file :: "errno option"
  mmap_lock_ok :: bool
  find_vma_intersection :: "u64 \<Rightarrow> u64 \<Rightarrow> bool"
  do_mmap :: "u64 \<Rightarrow> u64 \<Rightarrow> errno + u64"
  call_mmap :: "errno option"

text \<open>The checks of the address, for an architecture that does not force \<open>SHMLBA\<close>.\<close>

definition shmat_addr :: "u64 \<Rightarrow> u32 \<Rightarrow> u64 \<Rightarrow> errno + u64" where
  "shmat_addr addr shmflg shmlba =
     (if addr \<noteq> 0
      then if addr AND (shmlba - 1) \<noteq> 0
           then if has_flag shmflg SHM_RND
                then let a = addr AND NOT (shmlba - 1)
                     in if a = 0 \<and> has_flag shmflg SHM_REMAP then Inl EINVAL else Inr a
                else if addr AND (PAGE_SIZE - 1) \<noteq> 0 then Inl EINVAL else Inr addr
           else Inr addr
      else if has_flag shmflg SHM_REMAP then Inl EINVAL else Inr addr)"

definition shmat_acc_mode :: "u32 \<Rightarrow> u16" where
  "shmat_acc_mode shmflg =
     (let m = (if has_flag shmflg SHM_RDONLY then S_IRUGO else S_IRUGO OR S_IWUGO)
      in if has_flag shmflg SHM_EXEC then m OR S_IXUGO else m)"

definition shmat_begin ::
    "ipc_cfg \<Rightarrow> ipc_env \<Rightarrow> shm_hooks \<Rightarrow> shm_ns \<Rightarrow> int \<Rightarrow> u64 \<Rightarrow> u32 \<Rightarrow> u64
       \<Rightarrow> (errno + u64 \<times> u64 \<times> shm_file_data) \<times> shm_ns" where
  "shmat_begin cfg env hk ns shmid shmaddr shmflg shmlba =
     (if shmid < 0 then (Inl EINVAL, ns)
      else case shmat_addr shmaddr shmflg shmlba of
        Inl e \<Rightarrow> (Inl e, ns)
      | Inr addr \<Rightarrow>
          case shm_obtain_object_check cfg ns shmid of
            Inl e \<Rightarrow> (Inl e, ns)
          | Inr shp \<Rightarrow>
              if ipcperms env shp (shmat_acc_mode shmflg) \<noteq> None then (Inl EACCES, ns)
              else case security_shm_shmat hk (perm_of shp) shmaddr shmflg of
                     Some e \<Rightarrow> (Inl e, ns)
                   | None \<Rightarrow>
                       if \<not> ipc_valid_object cfg (perm_of shp) then (Inl EIDRM, ns)
                       else
                         let f = the (shm_file shp)
                         in (Inr (addr, i_size_read hk f, \<lparr>sfd_id = perm_id shp, sfd_file = f\<rparr>),
                             put_shp cfg ns (shp\<lparr>shm_nattch := shm_nattch shp + 1\<rparr>)))"

text \<open>The result is the address of the mapping; the file reference of a failed attempt is dropped.\<close>

definition shmat_map ::
    "ipc_cfg \<Rightarrow> ipc_env \<Rightarrow> shm_hooks \<Rightarrow> mm_hooks \<Rightarrow> shm_ns \<Rightarrow> u64 \<Rightarrow> u64 \<Rightarrow> shm_file_data \<Rightarrow> u32
       \<Rightarrow> (errno + u64 \<times> vm_area) \<times> shm_ns" where
  "shmat_map cfg env hk mm ns addr sz sfd shmflg =
     (if \<not> sfd_alloc_ok mm then (Inl ENOMEM, shm_log (Fput (sfd_file sfd)) ns)
      else case alloc_file_clone mm (sfd_file sfd) of
        Inl e \<Rightarrow> (Inl e, shm_log (Fput (sfd_file sfd)) ns)
      | Inr outer \<Rightarrow>
          case security_mmap_file mm of
            Some e \<Rightarrow> (Inl e, shm_log (Fput outer) ns)
          | None \<Rightarrow>
              if \<not> mmap_lock_ok mm then (Inl EINTR, shm_log (Fput outer) ns)
              else if addr \<noteq> 0 \<and> \<not> has_flag shmflg SHM_REMAP \<and>
                      (addr + sz < addr \<or> find_vma_intersection mm addr (addr + sz))
              then (Inl EINVAL, shm_log (Fput outer) ns)
              else case do_mmap mm addr sz of
                Inl e \<Rightarrow> (Inl e, shm_log (Fput outer) ns)
              | Inr a \<Rightarrow>
                  (case shm_mmap cfg env hk (call_mmap mm) ns sfd of
                     (Some e, ns1) \<Rightarrow> (Inl e, shm_log (Fput outer) ns1)
                   | (None, ns1) \<Rightarrow>
                       (Inr (a, \<lparr>vm_start = a, vm_end = a + sz, vm_pgoff = 0, vm_file = outer, vm_shm = Some sfd\<rparr>),
                        shm_log (Fput outer) ns1)))"

text \<open>
  The end of \<open>do_shmat\<close>.  The result of \<open>shm_lock\<close> is used without a check; \<open>None\<close> is the access
  through an error pointer.
\<close>

definition shmat_end :: "ipc_cfg \<Rightarrow> shm_hooks \<Rightarrow> shm_ns \<Rightarrow> int \<Rightarrow> shm_ns option" where
  "shmat_end cfg hk ns shmid =
     (case shm_lock cfg ns shmid of
        Inl _ \<Rightarrow> None
      | Inr shp \<Rightarrow> Some (destroy_or_put cfg hk ns (shp\<lparr>shm_nattch := shm_nattch shp - 1\<rparr>)))"

definition do_shmat ::
    "ipc_cfg \<Rightarrow> ipc_env \<Rightarrow> shm_hooks \<Rightarrow> mm_hooks \<Rightarrow> (shm_ns \<Rightarrow> shm_ns) \<Rightarrow> (shm_ns \<Rightarrow> shm_ns)
       \<Rightarrow> shm_ns \<Rightarrow> int \<Rightarrow> u64 \<Rightarrow> u32 \<Rightarrow> u64 \<Rightarrow> ((errno + u64 \<times> vm_area) \<times> shm_ns) option" where
  "do_shmat cfg env hk mm other1 other2 ns shmid shmaddr shmflg shmlba =
     (case shmat_begin cfg env hk ns shmid shmaddr shmflg shmlba of
        (Inl e, ns1) \<Rightarrow> Some (Inl e, ns1)
      | (Inr (addr, sz, sfd), ns1) \<Rightarrow>
          (case shmat_map cfg env hk mm (other1 ns1) addr sz sfd shmflg of
             (r, ns2) \<Rightarrow>
               (case shmat_end cfg hk (other2 ns2) shmid of
                  None \<Rightarrow> None
                | Some ns3 \<Rightarrow> Some (r, ns3))))"

section \<open>Detach\<close>

text \<open>Whether the area is a piece of a segment that was attached at an address.\<close>

definition attached_at :: "u64 \<Rightarrow> vm_area \<Rightarrow> bool" where
  "attached_at addr v \<longleftrightarrow> vm_shm v \<noteq> None \<and> (vm_start v - addr) div PAGE_SIZE = vm_pgoff v"

text \<open>\<open>do_munmap\<close> of a whole area removes it and calls its \<open>close\<close> operation.\<close>

definition unmap_area :: "ipc_cfg \<Rightarrow> ipc_env \<Rightarrow> shm_hooks \<Rightarrow> vm_area \<Rightarrow> shm_ns \<Rightarrow> shm_ns" where
  "unmap_area cfg env hk v ns = shm_close cfg env hk ns (the (vm_shm v))"

fun shmdt_find ::
    "ipc_cfg \<Rightarrow> ipc_env \<Rightarrow> shm_hooks \<Rightarrow> u64 \<Rightarrow> vm_area list \<Rightarrow> vm_area list \<Rightarrow> shm_ns
       \<Rightarrow> (filp \<times> u64) option \<times> vm_area list \<times> vm_area list \<times> shm_ns" where
  "shmdt_find cfg env hk addr kept [] ns = (None, kept, [], ns)"
| "shmdt_find cfg env hk addr kept (v # next) ns =
     (if attached_at addr v
      then (Some (vm_file v, i_size_read hk (sfd_file (the (vm_shm v)))), kept, next, unmap_area cfg env hk v ns)
      else shmdt_find cfg env hk addr (kept @ [v]) next ns)"

fun shmdt_rest ::
    "ipc_cfg \<Rightarrow> ipc_env \<Rightarrow> shm_hooks \<Rightarrow> u64 \<Rightarrow> u64 \<Rightarrow> filp \<Rightarrow> vm_area list \<Rightarrow> vm_area list \<Rightarrow> shm_ns
       \<Rightarrow> vm_area list \<times> shm_ns" where
  "shmdt_rest cfg env hk addr sz f kept [] ns = (kept, ns)"
| "shmdt_rest cfg env hk addr sz f kept (v # next) ns =
     (if sint (vm_end v - addr) \<le> sint sz
      then if attached_at addr v \<and> vm_file v = f
           then shmdt_rest cfg env hk addr sz f kept next (unmap_area cfg env hk v ns)
           else shmdt_rest cfg env hk addr sz f (kept @ [v]) next ns
      else (kept @ v # next, ns))"

definition PAGE_ALIGN :: "u64 \<Rightarrow> u64" where
  "PAGE_ALIGN sz = (sz + PAGE_SIZE - 1) AND NOT (PAGE_SIZE - 1)"

text \<open>
  On the areas of the calling process in the order of their addresses; \<open>find_vma\<close> skips those that
  end at or below the address.
\<close>

definition ksys_shmdt ::
    "ipc_cfg \<Rightarrow> ipc_env \<Rightarrow> shm_hooks \<Rightarrow> bool \<Rightarrow> vm_area list \<Rightarrow> shm_ns \<Rightarrow> u64 \<Rightarrow> errno option \<times> vm_area list \<times> shm_ns" where
  "ksys_shmdt cfg env hk lock_ok areas ns addr =
     (if addr AND (PAGE_SIZE - 1) \<noteq> 0 then (Some EINVAL, areas, ns)
      else if \<not> lock_ok then (Some EINTR, areas, ns)
      else case shmdt_find cfg env hk addr (takeWhile (\<lambda>v. vm_end v \<le> addr) areas)
                  (dropWhile (\<lambda>v. vm_end v \<le> addr) areas) ns of
        (None, kept, next, ns1) \<Rightarrow> (Some EINVAL, kept @ next, ns1)
      | (Some (f, sz), kept, next, ns1) \<Rightarrow>
          (case shmdt_rest cfg env hk addr (PAGE_ALIGN sz) f kept next ns1 of
             (areas', ns2) \<Rightarrow> (None, areas', ns2)))"

end
