(* ===== verification/Shm_System.thy ===== *)
theory Shm_System
  imports Shm_Syscall "HOL-Library.Multiset"
begin

text \<open>
  The shared memory of a namespace as a transition system.  Its state is the namespace and the
  multiset of references: one for every mapping of a segment, one for every \<open>shmat\<close> that has pinned its
  segment.  The steps are the locked sections of the system calls, of \<open>fork\<close>, of the removal of mappings and
  of the exit of tasks.
\<close>

section \<open>Segments by identifier\<close>

abbreviation seg :: "ipc_cfg \<Rightarrow> shm_ns \<Rightarrow> int \<Rightarrow> shmid_kernel option" where
  "seg cfg ns \<equiv> find_id cfg (sns_ids ns)"

lemma find_id_put_obj:
  assumes wf: "wf_cfg cfg" and inv: "ids_inv cfg ids" and at: "find_id cfg ids (perm_id p) = Some p"
    and same: "same_identity q p"
  shows "ids_inv cfg (put_obj ids (ipcid_to_idx cfg (perm_id q)) q)"
    and "find_id cfg (put_obj ids (ipcid_to_idx cfg (perm_id q)) q) = (find_id cfg ids)(perm_id p \<mapsto> q)"
proof -
  let ?x = "ipcid_to_idx cfg (perm_id q)"
  have id: "perm_id q = perm_id p" using same by (simp add: same_identity_def)
  have tab: "ipcs_idr ids ?x = Some p" using at find_id_iff [OF wf inv] id by simp
  show inv': "ids_inv cfg (put_obj ids ?x q)" by (rule ids_inv_put_obj [OF inv tab same])
  have "find_id cfg (put_obj ids ?x q) i = Some r \<longleftrightarrow> ((find_id cfg ids)(perm_id p \<mapsto> q)) i = Some r" for i r
    using find_id_iff [OF wf inv, of i r] find_id_iff [OF wf inv', of i r] id tab
    by (auto simp: put_obj_def split: if_splits)
  then show "find_id cfg (put_obj ids ?x q) = (find_id cfg ids)(perm_id p \<mapsto> q)"
    by (intro ext) (metis not_Some_eq)
qed

lemma find_id_rmid:
  assumes wf: "wf_cfg cfg" and inv: "ids_inv cfg ids" and at: "find_id cfg ids (perm_id p) = Some p"
    and same: "same_identity q p"
  shows "ids_inv cfg (fst (ipc_rmid cfg ids q))"
    and "find_id cfg (fst (ipc_rmid cfg ids q)) = (find_id cfg ids)(perm_id p := None)"
proof -
  have e: "fst (ipc_rmid cfg ids q) = fst (ipc_rmid cfg ids p)"
    using same by (simp add: same_identity_def ipc_rmid_def ipc_kht_remove_def Let_def)
  have tab: "ipcs_idr ids (ipcid_to_idx cfg (perm_id p)) = Some p" using at find_id_iff [OF wf inv] by blast
  obtain ids' p' where r: "ipc_rmid cfg ids p = (ids', p')" by force
  note f = ids_inv_rmid [OF wf inv tab r]
  show "ids_inv cfg (fst (ipc_rmid cfg ids q))" using f(1) r e by simp
  have "find_id cfg ids' i = Some y \<longleftrightarrow> ((find_id cfg ids)(perm_id p := None)) i = Some y" for i y
    using find_id_iff [OF wf inv, of i y] find_id_iff [OF wf f(1), of i y] tab at
    by (auto simp: f(2) split: if_splits)
  then show "find_id cfg (fst (ipc_rmid cfg ids q)) = (find_id cfg ids)(perm_id p := None)"
    unfolding e r by (intro ext) (metis fst_conv not_Some_eq)
qed

text \<open>Taking the key of an object away keeps the set well formed.\<close>

lemma find_id_set_key_private:
  assumes wf: "wf_cfg cfg" and inv: "ids_inv cfg ids" and at: "find_id cfg ids (perm_id p) = Some p"
    and same: "same_identity q p"
  shows "ids_inv cfg (fst (ipc_set_key_private cfg ids q))"
    and "find_id cfg (fst (ipc_set_key_private cfg ids q)) = (find_id cfg ids)(perm_id p \<mapsto> q\<lparr>key := IPC_PRIVATE\<rparr>)"
proof -
  let ?x = "ipcid_to_idx cfg (perm_id q)" and ?q = "q\<lparr>key := IPC_PRIVATE\<rparr>"
  define ids' where "ids' = fst (ipc_set_key_private cfg ids q)"
  have id: "perm_id q = perm_id p" "key q = key p" "perm_seq q = perm_seq p" "deleted q = deleted p"
    using same by (simp_all add: same_identity_def)
  have tab: "ipcs_idr ids ?x = Some p" using at find_id_iff [OF wf inv] id by simp
  have e: "ids' = ids\<lparr>ipcs_idr := (ipcs_idr ids)(?x \<mapsto> ?q),
      key_ht := (if key p = IPC_PRIVATE then key_ht ids else (key_ht ids)(key p := None))\<rparr>"
    by (simp add: ids'_def ipc_set_key_private_def ipc_kht_remove_def Let_def id)
  have d: "dom (ipcs_idr ids') = dom (ipcs_idr ids)" using tab by (auto simp: e)
  note f = ids_invE [OF inv]
  have inv': "ids_inv cfg ids'"
  proof (rule ids_invI)
    show "finite (dom (ipcs_idr ids'))" "in_use ids' = int (card (dom (ipcs_idr ids')))"
      "if dom (ipcs_idr ids') = {} then max_idx ids' = -1 else max_idx ids' \<in> dom (ipcs_idr ids')"
      unfolding d using f by (simp_all add: e)
    show "0 \<le> ids_seq ids'" "ids_seq ids' < ipcid_seq_max cfg" using f by (simp_all add: e)
  next
    fix i r assume r: "ipcs_idr ids' i = Some r"
    show "obj_ok cfg i r" "i \<le> max_idx ids'"
      using r ids_invD [OF inv tab] ids_invD [OF inv, of i r] id by (auto simp: e obj_ok_def split: if_splits)
  next
    fix k i
    show "key_ht ids' k = Some i \<longleftrightarrow> k \<noteq> IPC_PRIVATE \<and> (\<exists>r. ipcs_idr ids' i = Some r \<and> key r = k)"
      using tab key_ht_iff [OF inv, of k i] key_ht_iff [OF inv, of k ?x]
      by (cases "i = ?x") (auto simp: e split: if_splits)
  qed
  then show "ids_inv cfg (fst (ipc_set_key_private cfg ids q))" by (simp add: ids'_def)
  have "find_id cfg ids' i = Some r \<longleftrightarrow> ((find_id cfg ids)(perm_id p \<mapsto> ?q)) i = Some r" for i r
    using find_id_iff [OF wf inv, of i r] find_id_iff [OF wf inv', of i r] id tab
    by (auto simp: e split: if_splits)
  then show "find_id cfg (fst (ipc_set_key_private cfg ids q)) = (find_id cfg ids)(perm_id p \<mapsto> ?q)"
    unfolding ids'_def [symmetric] by (intro ext) (metis not_Some_eq)
qed

lemma finite_find_id:
  assumes wf: "wf_cfg cfg" and inv: "ids_inv cfg ids"
  shows "finite (dom (find_id cfg ids))"
proof -
  have "dom (find_id cfg ids) \<subseteq> (\<lambda>x. perm_id (the (ipcs_idr ids x))) ` dom (ipcs_idr ids)"
    using find_id_iff [OF wf inv] by force
  with ids_invE(1) [OF inv] show ?thesis by (rule finite_surj)
qed

section \<open>The invariant\<close>

type_synonym shm_state = "shm_ns \<times> shm_file_data multiset"

definition attaches :: "shm_file_data multiset \<Rightarrow> int \<Rightarrow> nat" where
  "attaches refs i = count (image_mset sfd_id refs) i"

lemma attaches_simps [simp]:
  "attaches {#} i = 0"
  "attaches (add_mset r refs) i = (if sfd_id r = i then Suc (attaches refs i) else attaches refs i)"
  by (simp_all add: attaches_def)

lemma attaches_remove [simp]:
  "r \<in># refs \<Longrightarrow> attaches (refs - {#r#}) i = (if sfd_id r = i then attaches refs i - 1 else attaches refs i)"
  by (simp add: attaches_def image_mset_Diff)

lemma attaches_pos: "0 < attaches refs i \<longleftrightarrow> (\<exists>r \<in># refs. sfd_id r = i)"
  by (auto simp: attaches_def count_greater_zero_iff)

lemma attaches_le_size: "attaches refs i \<le> size refs"
  unfolding attaches_def by (metis count_le_size size_image_mset)

definition seg_ok :: "shm_file_data multiset \<Rightarrow> shmid_kernel \<Rightarrow> bool" where
  "seg_ok refs shp \<longleftrightarrow>
     shm_file shp \<noteq> None \<and> unat (shm_nattch shp) = attaches refs (perm_id shp) \<and>
     (has_flag (mode shp) SHM_DEST \<longrightarrow> key shp = IPC_PRIVATE \<and> 0 < attaches refs (perm_id shp))"

definition refs_ok :: "(int \<Rightarrow> shmid_kernel option) \<Rightarrow> shm_file_data multiset \<Rightarrow> bool" where
  "refs_ok sg refs \<longleftrightarrow> size refs < 2 ^ 64 \<and>
     (\<forall>r \<in># refs. \<exists>shp. sg (sfd_id r) = Some shp \<and> shm_file shp = Some (sfd_file r))"

definition clists_ok :: "(int \<Rightarrow> shmid_kernel option) \<Rightarrow> (task \<Rightarrow> int list) \<Rightarrow> bool" where
  "clists_ok sg cl \<longleftrightarrow>
     (\<forall>t. distinct (cl t) \<and> (\<forall>i \<in> set (cl t). \<exists>shp. sg i = Some shp \<and> shm_creator shp = t))"

definition pages_of :: "shmid_kernel \<Rightarrow> nat" where
  "pages_of shp = unat (seg_pages (shm_segsz shp))"

definition pages_total :: "(int \<Rightarrow> shmid_kernel option) \<Rightarrow> nat" where
  "pages_total sg = (\<Sum>i \<in> dom sg. pages_of (the (sg i)))"

definition shm_inv :: "ipc_cfg \<Rightarrow> shm_state \<Rightarrow> bool" where
  "shm_inv cfg s \<longleftrightarrow>
     (case s of (ns, refs) \<Rightarrow>
        ids_inv cfg (sns_ids ns) \<and> refs_ok (seg cfg ns) refs \<and>
        (\<forall>i shp. seg cfg ns i = Some shp \<longrightarrow> seg_ok refs shp) \<and>
        clists_ok (seg cfg ns) (task_clist ns) \<and> unat (shm_tot ns) = pages_total (seg cfg ns))"

lemma shm_invI:
  assumes "ids_inv cfg (sns_ids ns)" and "refs_ok (seg cfg ns) refs"
    and "\<And>i shp. seg cfg ns i = Some shp \<Longrightarrow> seg_ok refs shp"
    and "clists_ok (seg cfg ns) (task_clist ns)" and "unat (shm_tot ns) = pages_total (seg cfg ns)"
  shows "shm_inv cfg (ns, refs)"
  using assms by (simp add: shm_inv_def)

lemma shm_invD:
  assumes "shm_inv cfg (ns, refs)"
  shows "ids_inv cfg (sns_ids ns)" and "refs_ok (seg cfg ns) refs"
    and "\<And>i shp. seg cfg ns i = Some shp \<Longrightarrow> seg_ok refs shp"
    and "clists_ok (seg cfg ns) (task_clist ns)" and "unat (shm_tot ns) = pages_total (seg cfg ns)"
  using assms by (simp_all add: shm_inv_def)

lemma seg_id: "wf_cfg cfg \<Longrightarrow> ids_inv cfg (sns_ids ns) \<Longrightarrow> seg cfg ns i = Some shp \<Longrightarrow> perm_id shp = i"
  using find_id_iff [of cfg "sns_ids ns" i shp] by simp

lemma pages_total_upd:
  assumes "finite (dom sg)"
  shows "sg i = None \<Longrightarrow> pages_total (sg(i \<mapsto> x)) = pages_total sg + pages_of x"
    and "sg i = Some y \<Longrightarrow> pages_of x = pages_of y \<Longrightarrow> pages_total (sg(i \<mapsto> x)) = pages_total sg"
    and "sg i = Some y \<Longrightarrow> pages_total sg = pages_total (sg(i := None)) + pages_of y"
proof -
  have other: "(\<Sum>j \<in> dom sg - {i}. pages_of (the ((sg(i := z)) j))) = (\<Sum>j \<in> dom sg - {i}. pages_of (the (sg j)))" for z
    by (rule sum.cong) auto
  have none: "pages_total (sg(i := None)) = (\<Sum>j \<in> dom sg - {i}. pages_of (the (sg j)))"
    using other [of None] by (simp add: pages_total_def)
  have some: "pages_total (sg(i \<mapsto> x)) = pages_of x + (\<Sum>j \<in> dom sg - {i}. pages_of (the (sg j)))" for x
    using other [of "Some x"] sum.remove [of "insert i (dom sg)" i "\<lambda>j. pages_of (the ((sg(i \<mapsto> x)) j))"] assms
    by (simp add: pages_total_def insert_Diff_if)
  have at: "pages_total sg = pages_of y + (\<Sum>j \<in> dom sg - {i}. pages_of (the (sg j)))" if "sg i = Some y" for y
    using some [of y] that by (simp add: fun_upd_idem)
  show "sg i = None \<Longrightarrow> pages_total (sg(i \<mapsto> x)) = pages_total sg + pages_of x"
    using some [of x] by (simp add: pages_total_def domIff)
  show "sg i = Some y \<Longrightarrow> pages_of x = pages_of y \<Longrightarrow> pages_total (sg(i \<mapsto> x)) = pages_total sg"
    using some [of x] at by simp
  show "sg i = Some y \<Longrightarrow> pages_total sg = pages_total (sg(i := None)) + pages_of y"
    using none at by simp
qed

text \<open>Two ways to change the set: an object is changed in place, or it is destroyed.\<close>

definition same_segment :: "shmid_kernel \<Rightarrow> shmid_kernel \<Rightarrow> bool" where
  "same_segment p q \<longleftrightarrow> perm_id p = perm_id q \<and> shm_file p = shm_file q \<and> shm_segsz p = shm_segsz q \<and>
     shm_creator p = shm_creator q"

text \<open>The references of all other segments stay as they are.\<close>

definition refs_change :: "int \<Rightarrow> filp \<Rightarrow> shm_file_data multiset \<Rightarrow> shm_file_data multiset \<Rightarrow> bool" where
  "refs_change i f refs refs' \<longleftrightarrow> size refs' < 2 ^ 64 \<and> (\<forall>j. j \<noteq> i \<longrightarrow> attaches refs' j = attaches refs j) \<and>
     (\<forall>r \<in># refs'. r \<in># refs \<or> sfd_id r = i \<and> sfd_file r = f)"

lemma shm_inv_changed:
  assumes wf: "wf_cfg cfg" and inv: "shm_inv cfg (ns, refs)" and at: "seg cfg ns i = Some shp"
    and same: "same_segment shp' shp" and ch: "refs_change i (the (shm_file shp)) refs refs'" and ok: "seg_ok refs' shp'"
    and ids: "ids_inv cfg (sns_ids ns')" and sg: "seg cfg ns' = (seg cfg ns)(i \<mapsto> shp')"
    and rest: "task_clist ns' = task_clist ns" "shm_tot ns' = shm_tot ns"
  shows "shm_inv cfg (ns', refs')"
proof (rule shm_invI)
  note d = shm_invD [OF inv]
  have f: "shm_file shp \<noteq> None" using d(3) [OF at] by (simp add: seg_ok_def)
  show "ids_inv cfg (sns_ids ns')" by (fact ids)
  show "refs_ok (seg cfg ns') refs'"
    using d(2) ch f same at unfolding refs_ok_def refs_change_def sg same_segment_def
    by (smt (verit) fun_upd_apply option.collapse option.inject)
  show "seg_ok refs' x" if "seg cfg ns' j = Some x" for j x
  proof (cases "j = i")
    case True then show ?thesis using that ok sg by simp
  next
    case False
    then have "seg cfg ns j = Some x" "perm_id x \<noteq> i" using that sg seg_id [OF wf d(1)] by auto
    then show ?thesis using d(3) ch by (simp add: seg_ok_def refs_change_def)
  qed
  show "clists_ok (seg cfg ns') (task_clist ns')"
    using d(4) same at unfolding clists_ok_def sg rest same_segment_def by (metis fun_upd_apply option.inject)
  show "unat (shm_tot ns') = pages_total (seg cfg ns')"
    unfolding rest sg using d(5) pages_total_upd(2) [OF finite_find_id [OF wf d(1)] at, of shp'] same
    by (simp add: same_segment_def pages_of_def)
qed

lemma shm_inv_removed:
  assumes wf: "wf_cfg cfg" and inv: "shm_inv cfg (ns, refs)" and at: "seg cfg ns i = Some shp"
    and none: "attaches refs' i = 0" and ch: "refs_change i f refs refs'"
    and ids: "ids_inv cfg (sns_ids ns')" and sg: "seg cfg ns' = (seg cfg ns)(i := None)"
    and cl: "task_clist ns' = (task_clist ns)(shm_creator shp := removeAll i (task_clist ns (shm_creator shp)))"
    and tot: "shm_tot ns' = shm_tot ns - seg_pages (shm_segsz shp)"
  shows "shm_inv cfg (ns', refs')"
proof (rule shm_invI)
  note d = shm_invD [OF inv]
  have ne: "sfd_id r \<noteq> i" if "r \<in># refs'" for r using that none attaches_pos [of refs' i] by auto
  show "ids_inv cfg (sns_ids ns')" by (fact ids)
  show "refs_ok (seg cfg ns') refs'"
    using d(2) ch ne unfolding refs_ok_def refs_change_def sg by (metis fun_upd_other)
  show "seg_ok refs' x" if "seg cfg ns' j = Some x" for j x
  proof -
    from that have "seg cfg ns j = Some x" "j \<noteq> i" unfolding sg by (auto split: if_splits)
    then have "seg_ok refs x" "perm_id x \<noteq> i" using d(3) seg_id [OF wf d(1)] by auto
    then show ?thesis using ch by (simp add: seg_ok_def refs_change_def)
  qed
  show "clists_ok (seg cfg ns') (task_clist ns')" unfolding clists_ok_def
  proof (intro allI conjI ballI)
    fix t
    show "distinct (task_clist ns' t)" using d(4) by (simp add: clists_ok_def cl distinct_removeAll)
    fix j assume "j \<in> set (task_clist ns' t)"
    then have j: "j \<in> set (task_clist ns t)" "t = shm_creator shp \<longrightarrow> j \<noteq> i" unfolding cl by (auto split: if_splits)
    then obtain x where x: "seg cfg ns j = Some x" "shm_creator x = t" using d(4) by (auto simp: clists_ok_def)
    then have "j \<noteq> i" using at j(2) by auto
    then show "\<exists>x. seg cfg ns' j = Some x \<and> shm_creator x = t" using x by (simp add: sg)
  qed
  have p: "pages_total (seg cfg ns) = pages_total ((seg cfg ns)(i := None)) + pages_of shp"
    by (rule pages_total_upd(3) [OF finite_find_id [OF wf d(1)] at])
  then have "seg_pages (shm_segsz shp) \<le> shm_tot ns" using d(5) by (simp add: word_le_nat_alt pages_of_def)
  then show "unat (shm_tot ns') = pages_total (seg cfg ns')" unfolding tot sg
    using d(5) p by (simp add: unat_sub pages_of_def)
qed

section \<open>The operations keep the invariant\<close>

lemma shm_log_simps [simp]:
  "sns_ids (shm_log e ns) = sns_ids ns" "task_clist (shm_log e ns) = task_clist ns" "shm_tot (shm_log e ns) = shm_tot ns"
  "shm_rmid_forced (shm_log e ns) = shm_rmid_forced ns" "shm_ctlall (shm_log e ns) = shm_ctlall ns"
  by (simp_all add: shm_log_def)

lemma shm_inv_log [simp]: "shm_inv cfg (shm_log e ns, refs) = shm_inv cfg (ns, refs)"
  by (simp add: shm_inv_def)

lemma shm_lock_seg:
  assumes wf: "wf_cfg cfg" and inv: "shm_inv cfg (ns, refs)" and at: "seg cfg ns i = Some shp"
  shows "shm_lock cfg ns i = Inr shp"
proof -
  have tab: "ipcs_idr (sns_ids ns) (ipcid_to_idx cfg i) = Some shp"
    using at find_id_iff [OF wf shm_invD(1) [OF inv]] by blast
  then have "\<not> deleted shp" using ids_invD(1) [OF shm_invD(1) [OF inv]] by (auto simp: obj_ok_def)
  then show ?thesis using tab wf by (simp add: shm_lock_def ipc_obtain_object_idr_def wf_cfg_def)
qed

lemma shm_obtain_check_seg:
  assumes "wf_cfg cfg" and "shm_inv cfg (ns, refs)" and "shm_obtain_object_check cfg ns i = Inr shp" and "0 \<le> i"
  shows "seg cfg ns i = Some shp"
  using assms by (simp add: shm_obtain_object_check_def find_id_def)

lemma put_shp_inv:
  assumes wf: "wf_cfg cfg" and inv: "shm_inv cfg (ns, refs)" and at: "seg cfg ns i = Some shp"
    and id: "same_identity shp' shp" and same: "same_segment shp' shp"
    and ch: "refs_change i (the (shm_file shp)) refs refs'" and ok: "seg_ok refs' shp'"
  shows "shm_inv cfg (put_shp cfg ns shp', refs')" and "seg cfg (put_shp cfg ns shp') = (seg cfg ns)(i \<mapsto> shp')"
proof -
  note d = shm_invD [OF inv]
  have at': "seg cfg ns (perm_id shp) = Some shp" and i: "perm_id shp = i" using at seg_id [OF wf d(1) at] by simp_all
  note f = find_id_put_obj [OF wf d(1) at' id]
  show sg: "seg cfg (put_shp cfg ns shp') = (seg cfg ns)(i \<mapsto> shp')" using f(2) i by (simp add: put_shp_def)
  show "shm_inv cfg (put_shp cfg ns shp', refs')"
    by (rule shm_inv_changed [OF wf inv at same ch ok _ sg]) (use f(1) in \<open>simp_all add: put_shp_def\<close>)
qed

text \<open>\<open>shm_destroy\<close> takes the segment out of the set, out of the list of its creator and off the total.\<close>

lemma shm_destroy_fields:
  assumes wf: "wf_cfg cfg" and ids: "ids_inv cfg (sns_ids ns)" and at: "seg cfg ns i = Some shp"
    and id: "same_identity q shp" and same: "same_segment q shp"
  shows "ids_inv cfg (sns_ids (shm_destroy cfg hk ns q))" and "seg cfg (shm_destroy cfg hk ns q) = (seg cfg ns)(i := None)"
    and "task_clist (shm_destroy cfg hk ns q) =
           (task_clist ns)(shm_creator shp := removeAll i (task_clist ns (shm_creator shp)))"
    and "shm_tot (shm_destroy cfg hk ns q) = shm_tot ns - seg_pages (shm_segsz shp)"
    and "shm_rmid_forced (shm_destroy cfg hk ns q) = shm_rmid_forced ns"
proof -
  have at': "seg cfg ns (perm_id shp) = Some shp" and i: "perm_id shp = i" using at seg_id [OF wf ids at] by simp_all
  let ?q = "q\<lparr>shm_file := None\<rparr>"
  have idq: "same_identity ?q shp" using id by (simp add: same_identity_def)
  note f = find_id_rmid [OF wf ids at' idq]
  define ns1 where "ns1 = shm_clist_rm ?q (ns\<lparr>shm_tot := shm_tot ns - seg_pages (shm_segsz q)\<rparr>)"
  have s1: "sns_ids ns1 = sns_ids ns" "shm_tot ns1 = shm_tot ns - seg_pages (shm_segsz shp)"
    "shm_rmid_forced ns1 = shm_rmid_forced ns"
    "task_clist ns1 = (task_clist ns)(shm_creator shp := removeAll i (task_clist ns (shm_creator shp)))"
    using same i by (auto simp: ns1_def shm_clist_rm_def Let_def same_segment_def)
  let ?n = "shm_destroy cfg hk ns q"
  have e: "sns_ids ?n = fst (ipc_rmid cfg (sns_ids ns) ?q)" "task_clist ?n = task_clist ns1" "shm_tot ?n = shm_tot ns1"
    "shm_rmid_forced ?n = shm_rmid_forced ns1"
    unfolding shm_destroy_def Let_def shm_rmid_def ns1_def [symmetric] s1(1)
    by (simp_all add: split_beta split: option.splits)
  show "ids_inv cfg (sns_ids ?n)" "seg cfg ?n = (seg cfg ns)(i := None)" using f i e(1) by simp_all
  show "task_clist ?n = (task_clist ns)(shm_creator shp := removeAll i (task_clist ns (shm_creator shp)))"
    "shm_tot ?n = shm_tot ns - seg_pages (shm_segsz shp)" "shm_rmid_forced ?n = shm_rmid_forced ns"
    using e s1 by simp_all
qed

lemma shm_destroy_inv:
  assumes wf: "wf_cfg cfg" and inv: "shm_inv cfg (ns, refs)" and at: "seg cfg ns i = Some shp"
    and id: "same_identity q shp" and same: "same_segment q shp"
    and none: "attaches refs' i = 0" and ch: "refs_change i f refs refs'"
  shows "shm_inv cfg (shm_destroy cfg hk ns q, refs')"
  by (rule shm_inv_removed [OF wf inv at none ch shm_destroy_fields(1-4) [OF wf shm_invD(1) [OF inv] at id same]])

lemma refs_change_same [simp]: "refs_change i f refs refs \<longleftrightarrow> size refs < 2 ^ 64"
  by (simp add: refs_change_def)

lemma refs_change_add: "size refs + 1 < 2 ^ 64 \<Longrightarrow> refs_change (sfd_id r) (sfd_file r) refs (add_mset r refs)"
  by (simp add: refs_change_def)

lemma refs_change_remove: "r \<in># refs \<Longrightarrow> size refs < 2 ^ 64 \<Longrightarrow> refs_change (sfd_id r) f refs (refs - {#r#})"
  by (auto simp: refs_change_def size_Diff_singleton dest: in_diffD)

lemma refs_okD:
  assumes "refs_ok sg refs" and "r \<in># refs"
  obtains shp where "sg (sfd_id r) = Some shp" and "shm_file shp = Some (sfd_file r)"
  using assms by (auto simp: refs_ok_def)

text \<open>A reference is added: \<open>shm_open\<close>, \<open>shm_mmap\<close> and the pin of \<open>shmat\<close>.\<close>

lemma add_ref_ok:
  assumes wf: "wf_cfg cfg" and inv: "shm_inv cfg (ns, refs)" and at: "seg cfg ns (sfd_id r) = Some shp"
    and f: "shm_file shp = Some (sfd_file r)" and room: "size refs + 1 < 2 ^ 64"
  shows "seg_ok (add_mset r refs) (shp\<lparr>shm_nattch := shm_nattch shp + 1\<rparr>)"
proof -
  have ok: "seg_ok refs shp" and i: "perm_id shp = sfd_id r"
    using shm_invD(3) [OF inv at] seg_id [OF wf shm_invD(1) [OF inv] at] by simp_all
  have "unat (shm_nattch shp) \<le> size refs" using ok attaches_le_size [of refs] by (simp add: seg_ok_def)
  then have "unat (shm_nattch shp + 1) = unat (shm_nattch shp) + 1"
    using room unat_add_lem [of "shm_nattch shp" 1] by simp
  then show ?thesis using ok i by (auto simp: seg_ok_def)
qed

lemma shm_open_area_ref:
  assumes wf: "wf_cfg cfg" and inv: "shm_inv cfg (ns, refs)" and r: "r \<in># refs" and room: "size refs + 1 < 2 ^ 64"
  obtains ns' where "shm_open_area cfg env ns r = (None, ns')" and "shm_inv cfg (ns', add_mset r refs)"
proof -
  obtain shp where at: "seg cfg ns (sfd_id r) = Some shp" and f: "shm_file shp = Some (sfd_file r)"
    using refs_okD [OF shm_invD(2) [OF inv] r] .
  let ?s = "shp\<lparr>shm_atim := ktime_get_real_seconds env, shm_lprid := Some (current_tgid env), shm_nattch := shm_nattch shp + 1\<rparr>"
  have o: "shm_open_area cfg env ns r = (None, put_shp cfg ns ?s)"
    by (simp add: shm_open_area_def shm_lock_seg [OF wf inv at] f)
  have "shm_inv cfg (put_shp cfg ns ?s, add_mset r refs)"
    by (rule put_shp_inv(1) [OF wf inv at])
      (use add_ref_ok [OF wf inv at f room] refs_change_add [OF room, of r] f
        in \<open>simp_all add: same_identity_def same_segment_def seg_ok_def\<close>)
  with o show ?thesis by (rule that)
qed

text \<open>A reference is dropped: \<open>shm_close\<close> and the end of \<open>shmat\<close>.\<close>

lemma drop_ref:
  assumes wf: "wf_cfg cfg" and inv: "shm_inv cfg (ns, refs)" and r: "r \<in># refs"
    and at: "seg cfg ns (sfd_id r) = Some shp" and id: "same_identity q shp" and same: "same_segment q shp"
    and q: "shm_nattch q = shm_nattch shp - 1" "mode q = mode shp"
  shows "shm_inv cfg (destroy_or_put cfg hk ns q, refs - {#r#})"
    and "seg cfg (destroy_or_put cfg hk ns q) (sfd_id r) =
          (if shm_nattch shp = 1 \<and> (shm_rmid_forced ns \<or> has_flag (mode shp) SHM_DEST) then None else Some q)"
    and "j \<noteq> sfd_id r \<Longrightarrow> seg cfg (destroy_or_put cfg hk ns q) j = seg cfg ns j"
proof -
  note d = shm_invD [OF inv]
  let ?i = "sfd_id r"
  have sz: "size refs < 2 ^ 64" using d(2) by (simp add: refs_ok_def)
  have ok: "seg_ok refs shp" and i: "perm_id shp = ?i" "perm_id q = ?i"
    using d(3) [OF at] seg_id [OF wf d(1) at] id by (simp_all add: same_identity_def)
  have pos: "0 < attaches refs ?i" using r by (auto simp: attaches_pos)
  then have un: "unat (shm_nattch shp) = attaches refs ?i" "1 \<le> shm_nattch shp"
    using ok i by (simp_all add: seg_ok_def word_le_nat_alt)
  then have n: "unat (shm_nattch q) = attaches (refs - {#r#}) ?i" using r q(1) by (simp add: unat_sub)
  have z: "shm_nattch q = 0 \<longleftrightarrow> attaches (refs - {#r#}) ?i = 0" "shm_nattch q = 0 \<longleftrightarrow> shm_nattch shp = 1"
    using n q(1) by (metis unat_eq_zero, simp)
  note f = shm_destroy_fields [OF wf d(1) at id same, of hk]
  have gone: "shm_inv cfg (shm_destroy cfg hk ns q, refs - {#r#})" if "shm_nattch q = 0"
    using that z by (intro shm_destroy_inv [OF wf inv at id same _ refs_change_remove [OF r sz]]) simp
  have kept: "seg_ok (refs - {#r#}) q" if "\<not> shm_may_destroy ns q"
    using that ok n z(1) i id same q(2) unfolding seg_ok_def shm_may_destroy_def same_identity_def same_segment_def
    by auto
  note p = put_shp_inv [OF wf inv at id same refs_change_remove [OF r sz]]
  show "shm_inv cfg (destroy_or_put cfg hk ns q, refs - {#r#})"
    using gone p(1) kept by (auto simp: destroy_or_put_def shm_may_destroy_def)
  show "seg cfg (destroy_or_put cfg hk ns q) ?i =
          (if shm_nattch shp = 1 \<and> (shm_rmid_forced ns \<or> has_flag (mode shp) SHM_DEST) then None else Some q)"
    using f(2) p(2) kept z(2) q(2) by (auto simp: destroy_or_put_def shm_may_destroy_def)
  show "j \<noteq> ?i \<Longrightarrow> seg cfg (destroy_or_put cfg hk ns q) j = seg cfg ns j"
    using f(2) p(2) kept by (auto simp: destroy_or_put_def)
qed

text \<open>The flag bits of the mode.\<close>

lemma has_dest: "has_flag (m :: u16) SHM_DEST \<longleftrightarrow> bit m 9"
proof -
  have d: "SHM_DEST = 2 ^ 9" by (simp add: SHM_DEST_def)
  show ?thesis unfolding has_flag_def d and_exp_eq_0_iff_not_bit by simp
qed

lemma dest_bits:
  "has_flag (m OR SHM_DEST) SHM_DEST" "has_flag (m OR SHM_LOCKED) SHM_DEST = has_flag m SHM_DEST"
  "has_flag (m AND NOT SHM_LOCKED) SHM_DEST = has_flag m SHM_DEST" "\<not> has_flag (m AND S_IRWXUGO) SHM_DEST"
  "has_flag ((m AND NOT S_IRWXUGO) OR (m' AND S_IRWXUGO)) SHM_DEST = has_flag m SHM_DEST"
proof -
  have b: "bit SHM_DEST 9" "\<not> bit SHM_LOCKED 9" "\<not> bit S_IRWXUGO 9"
    by (simp_all add: SHM_DEST_def SHM_LOCKED_def S_IRWXUGO_def bit_numeral_rec)
  then show "has_flag (m OR SHM_DEST) SHM_DEST" "has_flag (m OR SHM_LOCKED) SHM_DEST = has_flag m SHM_DEST"
    "has_flag (m AND NOT SHM_LOCKED) SHM_DEST = has_flag m SHM_DEST" "\<not> has_flag (m AND S_IRWXUGO) SHM_DEST"
    "has_flag ((m AND NOT S_IRWXUGO) OR (m' AND S_IRWXUGO)) SHM_DEST = has_flag m SHM_DEST"
    by (simp_all add: has_dest bit_or_iff bit_and_iff bit_not_iff)
qed

text \<open>\<open>newseg\<close>: what it entered, or that nothing changed but the log and the allocator.\<close>

lemma newseg_Inr:
  assumes "newseg cfg env orc hk ns params = (Inr i, ns')"
  obtains f shp ids1 idx shp1 where
    "ipc_addid cfg env orc (sns_ids ns) shp (sint (shm_ctlmni ns)) = (Inr idx, ids1, shp1)" and "i = perm_id shp1"
    and "key shp = par_key params" and "mode shp = ucast (par_flg params) AND S_IRWXUGO" and "shm_file shp = Some f"
    and "shm_nattch shp = 0" and "shm_segsz shp = word_of_int (par_nsems params)" and "shm_creator shp = current_task env"
    and "sns_ids ns' = ids1" and "shm_tot ns' = shm_tot ns + seg_pages (shm_segsz shp)"
    and "task_clist ns' = (task_clist ns)(current_task env := i # task_clist ns (current_task env))"
    and "shm_tot ns \<le> shm_tot ns + seg_pages (shm_segsz shp)" and "shm_tot ns + seg_pages (shm_segsz shp) \<le> shm_ctlall ns"
  using assms
  by (auto simp: newseg_def Let_def not_less kern_ipc_perm.extend_def
      split: if_splits option.splits sum.splits prod.splits)

lemma newseg_Inl:
  assumes "newseg cfg env orc hk ns params = (Inl e, ns')"
  shows "task_clist ns' = task_clist ns \<and> shm_tot ns' = shm_tot ns \<and> shm_rmid_forced ns' = shm_rmid_forced ns \<and>
    (sns_ids ns' = sns_ids ns \<or>
     (\<exists>shp e' shp1. ipc_addid cfg env orc (sns_ids ns) shp (sint (shm_ctlmni ns)) = (Inl e', sns_ids ns', shp1)))"
  using assms
  by (auto simp: newseg_def Let_def split: if_splits option.splits sum.splits prod.splits)

lemma find_id_cong: "ipcs_idr ids' = ipcs_idr ids \<Longrightarrow> find_id cfg ids' = find_id cfg ids"
  by (intro ext) (simp add: find_id_def ipc_obtain_object_check_def ipc_obtain_object_idr_def)

lemma newseg_Inl_inv:
  assumes orc: "idr_alloc_ok orc" and inv: "shm_inv cfg (ns, refs)"
    and run: "newseg cfg env orc hk ns params = (Inl e, ns')"
  shows "shm_inv cfg (ns', refs)" and "seg cfg ns' = seg cfg ns"
proof -
  note f = newseg_Inl [OF run] and d = shm_invD [OF inv]
  have "ids_inv cfg (sns_ids ns') \<and> ipcs_idr (sns_ids ns') = ipcs_idr (sns_ids ns)"
    using conjunct2 [OF conjunct2 [OF conjunct2 [OF f]]]
  proof (elim disjE exE)
    fix shp e' shp1 assume a: "ipc_addid cfg env orc (sns_ids ns) shp (sint (shm_ctlmni ns)) = (Inl e', sns_ids ns', shp1)"
    show ?thesis using ipc_addid_Inl_inv [OF d(1) orc a] ipc_addid_Inl(1) [OF a orc] by simp
  qed (use d(1) in simp)
  then have i: "ids_inv cfg (sns_ids ns')" and sg: "seg cfg ns' = seg cfg ns"
    using find_id_cong [of "sns_ids ns'" "sns_ids ns" cfg] by blast+
  show "seg cfg ns' = seg cfg ns" by (fact sg)
  show "shm_inv cfg (ns', refs)" by (rule shm_invI) (use d f i in \<open>simp_all add: sg\<close>)
qed

lemma newseg_Inr_inv:
  assumes wf: "wf_cfg cfg" and orc: "idr_alloc_ok orc" and inv: "shm_inv cfg (ns, refs)"
    and nokey: "par_key params = IPC_PRIVATE \<or> ipc_findkey (sns_ids ns) (par_key params) = None"
    and run: "newseg cfg env orc hk ns params = (Inr i, ns')"
  shows "shm_inv cfg (ns', refs)" and "seg cfg ns i = None"
    and "\<exists>shp. seg cfg ns' = (seg cfg ns)(i \<mapsto> shp) \<and> shm_nattch shp = 0 \<and> shm_segsz shp = word_of_int (par_nsems params) \<and>
          key shp = par_key params \<and> shm_creator shp = current_task env"
    and "unat (shm_tot ns') \<le> unat (shm_ctlall ns)"
proof -
  note d = shm_invD [OF inv]
  obtain f shp ids1 idx shp1 where
    add: "ipc_addid cfg env orc (sns_ids ns) shp (sint (shm_ctlmni ns)) = (Inr idx, ids1, shp1)" and i: "i = perm_id shp1"
    and s: "key shp = par_key params" "mode shp = ucast (par_flg params) AND S_IRWXUGO" "shm_file shp = Some f"
      "shm_nattch shp = 0" "shm_segsz shp = word_of_int (par_nsems params)" "shm_creator shp = current_task env"
    and n: "sns_ids ns' = ids1" "shm_tot ns' = shm_tot ns + seg_pages (shm_segsz shp)"
      "task_clist ns' = (task_clist ns)(current_task env := i # task_clist ns (current_task env))"
    and b: "shm_tot ns \<le> shm_tot ns + seg_pages (shm_segsz shp)" "shm_tot ns + seg_pages (shm_segsz shp) \<le> shm_ctlall ns"
    using newseg_Inr [OF run] .
  have tab: "table_ok cfg orc (sns_ids ns)" using wf orc d(1) by (simp add: table_ok_def)
  have ad: "adds cfg env orc (sint (shm_ctlmni ns)) (sns_ids ns) shp ids1 shp1"
    using add nokey s(1) by (simp add: adds_def)
  have s1: "shp1 = stamped cfg (sns_ids ns) idx (fresh_perm env shp)" by (rule ipc_addid_Inr(6) [OF add orc])
  have e1: "key shp1 = key shp" "mode shp1 = mode shp" "shm_file shp1 = shm_file shp" "shm_nattch shp1 = 0"
    "shm_segsz shp1 = shm_segsz shp" "shm_creator shp1 = shm_creator shp"
    by (simp_all add: s1 stamped_def fresh_perm_def s(4))
  have st: "set_ok cfg (sns_ids ns)" "enters cfg (sns_ids ns) shp ids1 shp1" using adds_enters [OF tab ad] by simp_all
  have ids: "ids_inv cfg (sns_ids ns')" using ipc_table.add_invar [OF st] n(1) by (simp add: set_ok_def)
  show fresh: "seg cfg ns i = None" using ipc_table.add_fresh [OF st] i by simp
  have sg: "seg cfg ns' = (seg cfg ns)(i \<mapsto> shp1)" using ipc_table.add_lookup [OF st] n(1) i by auto
  then show "\<exists>shp. seg cfg ns' = (seg cfg ns)(i \<mapsto> shp) \<and> shm_nattch shp = 0 \<and>
      shm_segsz shp = word_of_int (par_nsems params) \<and> key shp = par_key params \<and> shm_creator shp = current_task env"
    using e1 s by auto
  show "unat (shm_tot ns') \<le> unat (shm_ctlall ns)" using b n(2) by (simp add: word_le_nat_alt)
  have none: "attaches refs i = 0" using d(2) fresh attaches_pos [of refs i] by (fastforce simp: refs_ok_def)
  show "shm_inv cfg (ns', refs)"
  proof (rule shm_invI)
    show "ids_inv cfg (sns_ids ns')" by (fact ids)
    show "refs_ok (seg cfg ns') refs" using d(2) fresh unfolding refs_ok_def sg by fastforce
    show "seg_ok refs x" if "seg cfg ns' j = Some x" for j x
      using that d(3) e1 s none i dest_bits(4) by (auto simp: sg seg_ok_def split: if_splits)
    show "clists_ok (seg cfg ns') (task_clist ns')"
      unfolding clists_ok_def
    proof (intro allI conjI ballI)
      fix t
      have notin: "i \<notin> set (task_clist ns t)" using d(4) fresh by (force simp: clists_ok_def)
      then show "distinct (task_clist ns' t)" using d(4) by (auto simp: clists_ok_def n(3))
      fix j assume "j \<in> set (task_clist ns' t)"
      then consider "j = i" "t = current_task env" | "j \<in> set (task_clist ns t)" by (auto simp: n(3) split: if_splits)
      then show "\<exists>x. seg cfg ns' j = Some x \<and> shm_creator x = t"
      proof cases
        case 2 then show ?thesis using d(4) notin unfolding clists_ok_def sg by (metis fun_upd_other)
      qed (simp add: sg e1(6) s(6))
    qed
    have "unat (shm_tot ns') = unat (shm_tot ns) + pages_of shp1"
      unfolding n(2) pages_of_def e1(5) using b(1) unat_plus_simple by blast
    then show "unat (shm_tot ns') = pages_total (seg cfg ns')"
      using d(5) pages_total_upd(1) [OF finite_find_id [OF wf d(1)] fresh] by (simp add: sg)
  qed
qed

lemma ksys_shmget_inv:
  assumes wf: "wf_cfg cfg" and orc: "idr_alloc_ok orc" and inv: "shm_inv cfg (ns, refs)"
    and run: "ksys_shmget cfg env orc hk ns k sz flg = (r, ns')"
  shows "shm_inv cfg (ns', refs)"
proof -
  let ?p = "\<lparr>par_key = k, par_flg = flg, par_nsems = uint sz\<rparr>"
  consider "ns' = ns" | "newseg cfg env orc hk ns ?p = (r, ns')" "k = IPC_PRIVATE \<or> ipc_findkey (sns_ids ns) k = None"
    using run by (auto simp: ksys_shmget_def ipcget_def ipcget_new_def ipcget_public_def Let_def
        split: if_splits option.splits)
  then show ?thesis
  proof cases
    case 2
    then show ?thesis
      using newseg_Inl_inv(1) [OF orc inv] newseg_Inr_inv(1) [OF wf orc inv, of ?p] by (cases r) auto
  qed (simp add: inv)
qed

text \<open>\<open>shmat\<close>: the pin, the mapping and the end.\<close>

lemma shmat_begin_inv:
  assumes wf: "wf_cfg cfg" and inv: "shm_inv cfg (ns, refs)" and room: "size refs + 1 < 2 ^ 64"
    and run: "shmat_begin cfg env hk ns shmid shmaddr flg lba = (Inr (addr, sz, sfd), ns')"
  shows "shm_inv cfg (ns', add_mset sfd refs)" and "sfd_id sfd = shmid"
proof -
  obtain shp where sh: "shm_obtain_object_check cfg ns shmid = Inr shp" "0 \<le> shmid"
    and sfd: "sfd = \<lparr>sfd_id = perm_id shp, sfd_file = the (shm_file shp)\<rparr>"
    and ns': "ns' = put_shp cfg ns (shp\<lparr>shm_nattch := shm_nattch shp + 1\<rparr>)"
    using run by (auto simp: shmat_begin_def Let_def split: if_splits sum.splits option.splits)
  note at = shm_obtain_check_seg [OF wf inv sh] and d = shm_invD [OF inv]
  have i: "sfd_id sfd = shmid" using seg_id [OF wf d(1) at] sfd by simp
  have f: "shm_file shp = Some (sfd_file sfd)" using d(3) [OF at] sfd by (auto simp: seg_ok_def)
  show "sfd_id sfd = shmid" by (fact i)
  show "shm_inv cfg (ns', add_mset sfd refs)" unfolding ns'
    by (rule put_shp_inv(1) [OF wf inv at])
      (use add_ref_ok [OF wf inv _ f room] at i f refs_change_add [OF room, of sfd]
        in \<open>simp_all add: same_identity_def same_segment_def\<close>)
qed

lemma shm_close_ref:
  assumes wf: "wf_cfg cfg" and inv: "shm_inv cfg (ns, refs)" and r: "r \<in># refs"
  obtains shp q where "seg cfg ns (sfd_id r) = Some shp" and "mode q = mode shp"
    and "shm_inv cfg (shm_close cfg env hk ns r, refs - {#r#})"
    and "seg cfg (shm_close cfg env hk ns r) (sfd_id r) =
           (if shm_nattch shp = 1 \<and> (shm_rmid_forced ns \<or> has_flag (mode shp) SHM_DEST) then None else Some q)"
    and "\<And>j. j \<noteq> sfd_id r \<Longrightarrow> seg cfg (shm_close cfg env hk ns r) j = seg cfg ns j"
proof -
  obtain shp where at: "seg cfg ns (sfd_id r) = Some shp" using refs_okD [OF shm_invD(2) [OF inv] r] .
  let ?q = "shp\<lparr>shm_lprid := Some (current_tgid env), shm_dtim := ktime_get_real_seconds env, shm_nattch := shm_nattch shp - 1\<rparr>"
  have c: "shm_close cfg env hk ns r = destroy_or_put cfg hk ns ?q"
    by (simp add: shm_close_def shm_lock_seg [OF wf inv at])
  have s: "same_identity ?q shp" "same_segment ?q shp" by (simp_all add: same_identity_def same_segment_def)
  note dr = drop_ref [OF wf inv r at s]
  show ?thesis by (rule that [OF at, of ?q]) (use dr in \<open>simp_all add: c\<close>)
qed

lemma shmat_end_ref:
  assumes wf: "wf_cfg cfg" and inv: "shm_inv cfg (ns, refs)" and r: "r \<in># refs"
  obtains ns' where "shmat_end cfg hk ns (sfd_id r) = Some ns'" and "shm_inv cfg (ns', refs - {#r#})"
proof -
  obtain shp where at: "seg cfg ns (sfd_id r) = Some shp" using refs_okD [OF shm_invD(2) [OF inv] r] .
  let ?q = "shp\<lparr>shm_nattch := shm_nattch shp - 1\<rparr>"
  have c: "shmat_end cfg hk ns (sfd_id r) = Some (destroy_or_put cfg hk ns ?q)"
    by (simp add: shmat_end_def shm_lock_seg [OF wf inv at])
  have s: "same_identity ?q shp" "same_segment ?q shp" by (simp_all add: same_identity_def same_segment_def)
  show ?thesis by (rule that [OF c drop_ref(1) [OF wf inv r at s]]) simp_all
qed

lemma shm_mmap_inv:
  assumes wf: "wf_cfg cfg" and inv: "shm_inv cfg (ns, refs)" and r: "r \<in># refs" and room: "size refs + 1 < 2 ^ 64"
    and run: "shm_mmap cfg env hk call ns r = (res, ns')"
  shows "res = call" and "shm_inv cfg (ns', if call = None then add_mset r refs else refs)"
proof -
  obtain ns1 where o: "shm_open_area cfg env ns r = (None, ns1)" and i1: "shm_inv cfg (ns1, add_mset r refs)"
    using shm_open_area_ref [OF wf inv r room] .
  show "res = call" using run o by (simp add: shm_mmap_def split: option.splits)
  show "shm_inv cfg (ns', if call = None then add_mset r refs else refs)"
  proof (cases call)
    case None
    then show ?thesis using run o i1 by (simp add: shm_mmap_def)
  next
    case (Some e)
    then have n: "ns' = shm_close cfg env hk ns1 r" using run o by (simp add: shm_mmap_def)
    have "r \<in># add_mset r refs" by simp
    from shm_close_ref [OF wf i1 this] have "shm_inv cfg (shm_close cfg env hk ns1 r, add_mset r refs - {#r#})" by metis
    then show ?thesis using n Some by simp
  qed
qed

text \<open>\<open>IPC_RMID\<close>, \<open>IPC_SET\<close> and the locking of pages.\<close>

lemma refs_bound: "shm_inv cfg (ns, refs) \<Longrightarrow> refs_change i f refs refs"
  using shm_invD(2) [of cfg ns refs] by (simp add: refs_ok_def)

lemma do_shm_rmid_inv:
  assumes wf: "wf_cfg cfg" and inv: "shm_inv cfg (ns, refs)" and at: "seg cfg ns i = Some shp"
  shows "shm_inv cfg (do_shm_rmid cfg hk ns shp, refs)"
proof (cases "shm_nattch shp = 0")
  case True
  have "attaches refs i = 0" using shm_invD(3) [OF inv at] seg_id [OF wf shm_invD(1) [OF inv] at] True
    by (simp add: seg_ok_def)
  then show ?thesis using True shm_destroy_inv [OF wf inv at _ _ _ refs_bound [OF inv]]
    by (simp add: do_shm_rmid_def same_identity_def same_segment_def)
next
  case False
  note d = shm_invD [OF inv]
  let ?q = "shp\<lparr>mode := mode shp OR SHM_DEST\<rparr>"
  have i: "perm_id shp = i" by (rule seg_id [OF wf d(1) at])
  have pos: "0 < attaches refs i" using d(3) [OF at] i False by (simp add: seg_ok_def) (metis gr0I unat_eq_zero)
  have "seg cfg ns (perm_id shp) = Some shp" "same_identity ?q shp" using at i by (simp_all add: same_identity_def)
  note k = find_id_set_key_private [OF wf d(1) this]
  show ?thesis
    by (rule shm_inv_changed [OF wf inv at, of "?q\<lparr>key := IPC_PRIVATE\<rparr>"])
      (use k False i d(3) [OF at] pos refs_bound [OF inv] in
        \<open>simp_all add: do_shm_rmid_def same_segment_def seg_ok_def\<close>)
qed

lemma plain_update_inv:
  assumes wf: "wf_cfg cfg" and inv: "shm_inv cfg (ns, refs)" and at: "seg cfg ns i = Some shp"
    and "same_identity q shp" and "same_segment q shp" and "shm_nattch q = shm_nattch shp"
    and "has_flag (mode q) SHM_DEST = has_flag (mode shp) SHM_DEST"
  shows "shm_inv cfg (put_shp cfg ns q, refs)"
  using shm_invD(3) [OF inv at] assms(4-)
  by (intro put_shp_inv(1) [OF wf inv at _ _ refs_bound [OF inv]]) (auto simp: seg_ok_def same_identity_def same_segment_def)

lemma update_perm_frame:
  assumes "ipc_update_perm env p (shp :: shmid_kernel) = Inr shp'"
  shows "same_identity shp' shp \<and> same_segment shp' shp \<and> shm_nattch shp' = shm_nattch shp \<and>
    has_flag (mode shp') SHM_DEST = has_flag (mode shp) SHM_DEST"
  using assms by (auto simp: ipc_update_perm_def same_identity_def same_segment_def dest_bits split: option.splits)

lemma shmctl_down_inv:
  assumes wf: "wf_cfg cfg" and inv: "shm_inv cfg (ns, refs)" and id: "0 \<le> shmid"
    and run: "shmctl_down cfg env hk ns shmid cmd perm64 = (r, ns')"
  shows "shm_inv cfg (ns', refs)"
proof -
  have cmd: "cmd = IPC_RMID \<or> cmd = IPC_SET \<or> ns' = ns"
    using run by (cases cmd) (simp_all add: shmctl_down_def split: sum.splits option.splits)
  have obt: "shm_obtain_object_check cfg ns shmid = Inr shp" if "ipcctl_obtain_check cfg env (sns_ids ns) shmid = Inr shp" for shp
    using that by (simp add: ipcctl_obtain_check_def shm_obtain_object_check_def split: sum.splits if_splits)
  from cmd show ?thesis
  proof (elim disjE)
    assume "cmd = IPC_RMID"
    then have "ns' = ns \<or> (\<exists>shp. shm_obtain_object_check cfg ns shmid = Inr shp \<and> ns' = do_shm_rmid cfg hk ns shp)"
      using run by (auto simp: shmctl_down_def obt split: sum.splits option.splits)
    then show ?thesis using inv do_shm_rmid_inv [OF wf inv shm_obtain_check_seg [OF wf inv _ id]] by auto
  next
    assume "cmd = IPC_SET"
    then have "ns' = ns \<or> (\<exists>shp shp1. shm_obtain_object_check cfg ns shmid = Inr shp \<and> ipc_update_perm env perm64 shp = Inr shp1 \<and>
        ns' = put_shp cfg ns (shp1\<lparr>shm_ctim := ktime_get_real_seconds env\<rparr>))"
      using run by (auto simp: shmctl_down_def obt split: sum.splits option.splits)
    then show ?thesis
    proof (elim disjE exE conjE)
      fix shp shp1 assume o: "shm_obtain_object_check cfg ns shmid = Inr shp" and u: "ipc_update_perm env perm64 shp = Inr shp1"
        and n: "ns' = put_shp cfg ns (shp1\<lparr>shm_ctim := ktime_get_real_seconds env\<rparr>)"
      show ?thesis unfolding n
        by (rule plain_update_inv [OF wf inv shm_obtain_check_seg [OF wf inv o id]])
          (use update_perm_frame [OF u] in \<open>simp_all add: same_identity_def same_segment_def\<close>)
    qed (use inv in simp)
  qed (use inv in simp)
qed

lemma shmctl_do_lock_inv:
  assumes wf: "wf_cfg cfg" and inv: "shm_inv cfg (ns, refs)" and id: "0 \<le> shmid"
    and run: "shmctl_do_lock cfg env hk ns shmid cmd = (r, ns')"
  shows "shm_inv cfg (ns', refs)"
proof -
  have logs: "put_shp cfg (shm_log e ns) q = shm_log e (put_shp cfg ns q)" for e q
    by (simp add: put_shp_def shm_log_def)
  consider "ns' = ns" | e where "ns' = shm_log e ns"
    | shp q e where "shm_obtain_object_check cfg ns shmid = Inr shp" "ns' = shm_log e (put_shp cfg ns q)"
      "q = shp\<lparr>mode := mode shp OR SHM_LOCKED, mlock_user := Some (current_user hk)\<rparr>"
    | shp q e e' where "shm_obtain_object_check cfg ns shmid = Inr shp" "ns' = shm_log e' (shm_log e (put_shp cfg ns q))"
      "q = shp\<lparr>mode := mode shp AND NOT SHM_LOCKED, mlock_user := None\<rparr>"
    using run by (auto simp: shmctl_do_lock_def Let_def logs split: sum.splits option.splits if_splits)
  then show ?thesis
  proof cases
    case 3
    then show ?thesis
      using plain_update_inv [OF wf inv shm_obtain_check_seg [OF wf inv 3(1) id], of q]
      by (simp add: same_identity_def same_segment_def dest_bits)
  next
    case 4
    then show ?thesis
      using plain_update_inv [OF wf inv shm_obtain_check_seg [OF wf inv 4(1) id], of q]
      by (simp add: same_identity_def same_segment_def dest_bits)
  qed (use inv in simp_all)
qed

text \<open>The exit of a creator and the removal of orphans.\<close>

lemma unused_destroy_inv:
  assumes wf: "wf_cfg cfg" and inv: "shm_inv cfg (ns, refs)" and at: "seg cfg ns i = Some shp" and may: "shm_may_destroy ns shp"
  shows "shm_inv cfg (shm_destroy cfg hk ns shp, refs)"
proof -
  have "attaches refs i = 0"
    using shm_invD(3) [OF inv at] seg_id [OF wf shm_invD(1) [OF inv] at] may by (simp add: seg_ok_def shm_may_destroy_def)
  then show ?thesis
    using shm_destroy_inv [OF wf inv at _ _ _ refs_bound [OF inv]] by (simp add: same_identity_def same_segment_def)
qed

lemma idr_seg:
  "wf_cfg cfg \<Longrightarrow> shm_inv cfg (ns, refs) \<Longrightarrow> ipcs_idr (sns_ids ns) x = Some shp \<Longrightarrow> seg cfg ns (perm_id shp) = Some shp"
  using find_id_iff [of cfg "sns_ids ns" "perm_id shp" shp] obj_ok_decode(1) [of cfg x shp] ids_invD(1) [of cfg "sns_ids ns" x shp]
    shm_invD(1) [of cfg ns refs] by simp

lemma exit_destroy_seg:
  assumes wf: "wf_cfg cfg" and inv: "shm_inv cfg (ns, refs)"
  shows "exit_destroy cfg hk i ns =
    (case seg cfg ns i of
       None \<Rightarrow> ns
     | Some shp \<Rightarrow> if shm_may_destroy ns shp then shm_destroy cfg hk ns shp else ns)"
proof (cases "seg cfg ns i")
  case None
  then have "perm_id shp \<noteq> i" if "ipcs_idr (sns_ids ns) (ipcid_to_idx cfg i) = Some shp" for shp
    using that idr_seg [OF wf inv that] by auto
  then show ?thesis using None by (simp add: exit_destroy_def split: option.splits)
next
  case (Some shp)
  then have "ipcs_idr (sns_ids ns) (ipcid_to_idx cfg i) = Some shp" "perm_id shp = i"
    using find_id_iff [OF wf shm_invD(1) [OF inv], of i shp] by blast+
  moreover have "\<not> deleted shp" using calculation ids_invD(1) [OF shm_invD(1) [OF inv]] by (auto simp: obj_ok_def)
  ultimately show ?thesis using Some wf by (simp add: exit_destroy_def wf_cfg_def)
qed

lemma exit_destroy_inv: "wf_cfg cfg \<Longrightarrow> shm_inv cfg (ns, refs) \<Longrightarrow> shm_inv cfg (exit_destroy cfg hk i ns, refs)"
  using unused_destroy_inv [of cfg ns refs i] by (auto simp: exit_destroy_seg split: option.splits)

lemma exit_unlink_inv:
  assumes inv: "shm_inv cfg (ns, refs)" and run: "exit_unlink t ns = Some (i, ns')"
  shows "shm_inv cfg (ns', refs)"
proof -
  obtain rest where cl: "task_clist ns t = i # rest" and ns': "ns' = ns\<lparr>task_clist := (task_clist ns)(t := rest)\<rparr>"
    using run by (auto simp: exit_unlink_def split: list.splits)
  have "clists_ok (seg cfg ns) ((task_clist ns)(t := rest))"
    using shm_invD(4) [OF inv] cl unfolding clists_ok_def
    by (metis distinct.simps(2) fun_upd_apply list.set_intros(2))
  then show ?thesis using shm_invD [OF inv] by (intro shm_invI) (simp_all add: ns')
qed

lemma shm_try_destroy_orphaned_inv:
  "wf_cfg cfg \<Longrightarrow> shm_inv cfg (ns, refs) \<Longrightarrow> ipcs_idr (sns_ids ns) x = Some shp \<Longrightarrow>
     shm_inv cfg (shm_try_destroy_orphaned cfg hk ns shp, refs)"
  using unused_destroy_inv [OF _ _ idr_seg] by (simp add: shm_try_destroy_orphaned_def)

lemma shm_destroy_orphaned_inv:
  assumes wf: "wf_cfg cfg" and inv: "shm_inv cfg (ns, refs)"
  shows "shm_inv cfg (shm_destroy_orphaned cfg hk ns, refs)"
proof -
  let ?f = "\<lambda>i n. case ipcs_idr (sns_ids n) (int i) of None \<Rightarrow> n | Some shp \<Rightarrow> shm_try_destroy_orphaned cfg hk n shp"
  have "shm_inv cfg (fold ?f is n, refs)" if "shm_inv cfg (n, refs)" for "is" n
    using that
  proof (induction "is" arbitrary: n)
    case (Cons i "is")
    have "shm_inv cfg (?f i n, refs)"
      using Cons.prems shm_try_destroy_orphaned_inv [OF wf Cons.prems] by (cases "ipcs_idr (sns_ids n) (int i)") simp_all
    then show ?case using Cons.IH by simp
  qed simp
  then show ?thesis using inv by (simp add: shm_destroy_orphaned_def)
qed

section \<open>The transition system\<close>

datatype shm_label =
    ShmGet "errno + int" | ShmPin int | ShmMap shm_file_data "errno option" | ShmFork shm_file_data
  | ShmClose shm_file_data | ShmUnpin int | ShmCtl int ipc_cmd | ShmLockPages int ipc_cmd
  | ShmUnlink task int | ShmReap int | ShmOrphans | ShmForced bool

text \<open>
  Every task may take any step at any time.  A mapping is made, copied and removed only through a reference that
  exists, and there are fewer references than the counter can hold.  \<open>ShmUnlink\<close> and \<open>ShmReap\<close> are the two
  sections of a turn of \<open>exit_shm\<close>; \<open>ShmForced\<close> is the administrator changing \<open>kernel.shm_rmid_forced\<close>.
\<close>

inductive shm_step :: "ipc_cfg \<Rightarrow> shm_state \<Rightarrow> shm_label \<Rightarrow> shm_state \<Rightarrow> bool" for cfg :: ipc_cfg
where
  step_get: "idr_alloc_ok orc \<Longrightarrow> ksys_shmget cfg env orc hk ns k sz flg = (r, ns') \<Longrightarrow>
     shm_step cfg (ns, refs) (ShmGet r) (ns', refs)"
| step_pin: "size refs + 1 < 2 ^ 64 \<Longrightarrow> shmat_begin cfg env hk ns shmid shmaddr flg lba = (Inr (addr, sz, sfd), ns') \<Longrightarrow>
     shm_step cfg (ns, refs) (ShmPin shmid) (ns', add_mset sfd refs)"
| step_map: "sfd \<in># refs \<Longrightarrow> size refs + 1 < 2 ^ 64 \<Longrightarrow> shm_mmap cfg env hk call ns sfd = (res, ns') \<Longrightarrow>
     shm_step cfg (ns, refs) (ShmMap sfd res) (ns', if res = None then add_mset sfd refs else refs)"
| step_fork: "sfd \<in># refs \<Longrightarrow> size refs + 1 < 2 ^ 64 \<Longrightarrow>
     shm_step cfg (ns, refs) (ShmFork sfd) (shm_open cfg env ns sfd, add_mset sfd refs)"
| step_close: "sfd \<in># refs \<Longrightarrow> shm_step cfg (ns, refs) (ShmClose sfd) (shm_close cfg env hk ns sfd, refs - {#sfd#})"
| step_unpin: "sfd \<in># refs \<Longrightarrow> shmat_end cfg hk ns (sfd_id sfd) = Some ns' \<Longrightarrow>
     shm_step cfg (ns, refs) (ShmUnpin (sfd_id sfd)) (ns', refs - {#sfd#})"
| step_ctl: "0 \<le> shmid \<Longrightarrow> shmctl_down cfg env hk ns shmid cmd perm64 = (r, ns') \<Longrightarrow>
     shm_step cfg (ns, refs) (ShmCtl shmid cmd) (ns', refs)"
| step_lock: "0 \<le> shmid \<Longrightarrow> shmctl_do_lock cfg env hk ns shmid cmd = (r, ns') \<Longrightarrow>
     shm_step cfg (ns, refs) (ShmLockPages shmid cmd) (ns', refs)"
| step_unlink: "exit_unlink t ns = Some (i, ns') \<Longrightarrow> shm_step cfg (ns, refs) (ShmUnlink t i) (ns', refs)"
| step_reap: "shm_step cfg (ns, refs) (ShmReap i) (exit_destroy cfg hk i ns, refs)"
| step_orphans: "shm_step cfg (ns, refs) ShmOrphans (shm_destroy_orphaned cfg hk ns, refs)"
| step_forced: "shm_step cfg (ns, refs) (ShmForced b) (ns\<lparr>shm_rmid_forced := b\<rparr>, refs)"

definition shm_start :: "shm_state \<Rightarrow> bool" where
  "shm_start s \<longleftrightarrow> (\<exists>ns. s = (shm_init_ns ns, {#}) \<and> (\<forall>t. task_clist ns t = []))"

lemma shm_start_inv: "wf_cfg cfg \<Longrightarrow> shm_start s \<Longrightarrow> shm_inv cfg s"
proof -
  assume wf: "wf_cfg cfg" and "shm_start s"
  then obtain ns where s: "s = (shm_init_ns ns, {#})" and cl: "\<forall>t. task_clist ns t = []" by (auto simp: shm_start_def)
  have sg: "seg cfg (shm_init_ns ns) = (\<lambda>_. None)"
    by (intro ext) (simp add: shm_init_ns_def find_id_def ipc_obtain_object_check_def ipc_obtain_object_idr_def ipc_init_ids_def)
  show ?thesis unfolding s
    by (rule shm_invI, unfold sg)
      (use wf cl ids_inv_init [OF wf] in \<open>simp_all add: shm_init_ns_def refs_ok_def clists_ok_def pages_total_def\<close>)
qed

lemma shm_step_inv:
  assumes wf: "wf_cfg cfg" and inv: "shm_inv cfg s" and st: "shm_step cfg s l s'"
  shows "shm_inv cfg s'"
  using st
proof cases
  case (step_get orc env hk ns k sz flg r ns' refs)
  then show ?thesis using ksys_shmget_inv [OF wf _ _ step_get(5)] inv by simp
next
  case (step_pin refs env hk ns shmid shmaddr flg lba addr sz sfd ns')
  then show ?thesis using shmat_begin_inv(1) [OF wf _ _ step_pin(5)] inv by simp
next
  case (step_map sfd refs env hk call ns res ns')
  then show ?thesis using shm_mmap_inv [OF wf _ _ _ step_map(6)] inv by simp
next
  case (step_fork sfd refs ns env)
  then obtain ns' where "shm_open_area cfg env ns sfd = (None, ns')" "shm_inv cfg (ns', add_mset sfd refs)"
    using shm_open_area_ref [OF wf, of ns refs] inv by metis
  then show ?thesis using step_fork by (simp add: shm_open_def)
next
  case (step_close sfd refs ns env hk)
  then show ?thesis using shm_close_ref [OF wf, of ns refs sfd] inv by metis
next
  case (step_unpin sfd refs hk ns ns')
  then show ?thesis using shmat_end_ref [OF wf, of ns refs sfd hk] inv by (metis option.inject)
next
  case (step_ctl shmid env hk ns cmd perm64 r ns' refs)
  then show ?thesis using shmctl_down_inv [OF wf _ _ step_ctl(5)] inv by simp
next
  case (step_lock shmid env hk ns cmd r ns' refs)
  then show ?thesis using shmctl_do_lock_inv [OF wf _ _ step_lock(5)] inv by simp
next
  case (step_unlink t ns i ns' refs)
  then show ?thesis using exit_unlink_inv [OF _ step_unlink(4)] inv by simp
next
  case (step_reap ns refs i hk)
  then show ?thesis using exit_destroy_inv [OF wf] inv by simp
next
  case (step_orphans ns refs hk)
  then show ?thesis using shm_destroy_orphaned_inv [OF wf] inv by simp
next
  case (step_forced ns refs b)
  then show ?thesis using inv by (simp add: shm_inv_def)
qed

interpretation shm_sys: inv_system shm_start "shm_step cfg" "\<lambda>s. wf_cfg cfg \<longrightarrow> shm_inv cfg s" for cfg
  by unfold_locales (auto intro: shm_start_inv shm_step_inv)

end
