(* ===== verification/Shm_Props.thy ===== *)
theory Shm_Props
  imports Shm_System
begin

text \<open>
  Properties of shared memory: segments in use are never destroyed, a removed segment goes with its last
  reference, the page total is exact, the exit of a creator ends and cleans up, \<open>shmctl\<close> returns, and \<open>shmdt\<close>
  detaches the pieces of one attachment and nothing else.
\<close>

lemma reach_shm_inv: "wf_cfg cfg \<Longrightarrow> reach shm_start (shm_step cfg) s \<Longrightarrow> shm_inv cfg s"
  using shm_sys.reach_inv by blast

lemma seg_obtain: "seg cfg ns i = Some shp \<Longrightarrow> shm_obtain_object_check cfg ns i = Inr shp"
  by (simp add: shm_obtain_object_check_def find_id_def split: if_splits sum.splits)

section \<open>Removal\<close>

abbreviation close_all :: "ipc_cfg \<Rightarrow> ipc_env \<Rightarrow> shm_hooks \<Rightarrow> shm_file_data list \<Rightarrow> shm_ns \<Rightarrow> shm_ns" where
  "close_all cfg env hk rs ns \<equiv> fold (\<lambda>r n. shm_close cfg env hk n r) rs ns"

lemma no_refs_Nil:
  assumes "mset rs \<subseteq># R" and "\<forall>r \<in> set rs. sfd_id r = i" and "attaches R i = 0"
  shows "rs = []"
proof (cases rs)
  case (Cons r rs')
  then have "r \<in># R" using mset_subset_eqD [OF assms(1), of r] by simp
  then show ?thesis using attaches_pos [of R i] assms(2,3) Cons by auto
qed simp

lemma close_marked:
  assumes wf: "wf_cfg cfg"
  shows "shm_inv cfg (n, R) \<Longrightarrow> seg cfg n i = Some shp \<Longrightarrow> has_flag (mode shp) SHM_DEST \<Longrightarrow>
    mset rs \<subseteq># R \<Longrightarrow> \<forall>r \<in> set rs. sfd_id r = i \<Longrightarrow>
    seg cfg (close_all cfg env hk rs n) i = None \<longleftrightarrow> length rs = attaches R i"
proof (induction rs arbitrary: n R shp)
  case Nil
  have "0 < attaches R i"
    using shm_invD(3) [OF Nil.prems(1,2)] seg_id [OF wf shm_invD(1) [OF Nil.prems(1)] Nil.prems(2)] Nil.prems(3)
    by (simp add: seg_ok_def)
  then show ?case using Nil.prems(2) by simp
next
  case (Cons r rs)
  have r: "r \<in># R" "sfd_id r = i" and rs: "mset rs \<subseteq># R - {#r#}" "\<forall>r \<in> set rs. sfd_id r = i"
    using Cons.prems(4,5) by (auto simp: insert_subset_eq_iff)
  let ?n = "shm_close cfg env hk n r"
  obtain q where q: "mode q = mode shp" and inv': "shm_inv cfg (?n, R - {#r#})"
    and sg: "seg cfg ?n i = (if shm_nattch shp = 1 \<and> (shm_rmid_forced n \<or> has_flag (mode shp) SHM_DEST) then None else Some q)"
    using shm_close_ref [OF wf Cons.prems(1) r(1)] Cons.prems(2) r(2) by (metis option.inject)
  have na: "unat (shm_nattch shp) = attaches R i"
    using shm_invD(3) [OF Cons.prems(1,2)] seg_id [OF wf shm_invD(1) [OF Cons.prems(1)] Cons.prems(2)] by (simp add: seg_ok_def)
  have at: "attaches R i = Suc (attaches (R - {#r#}) i)"
    using r attaches_pos [of R i] by auto
  show ?case
  proof (cases "shm_nattch shp = 1")
    case True
    then have z: "attaches (R - {#r#}) i = 0" using na at by simp
    then have "rs = []" by (rule no_refs_Nil [OF rs])
    then show ?thesis using sg True Cons.prems(3) at z by simp
  next
    case False
    then have "seg cfg ?n i = Some q" using sg by simp
    from Cons.IH [OF inv' this _ rs] show ?thesis using Cons.prems(3) q at by simp
  qed
qed

lemma rmid_marks:
  assumes wf: "wf_cfg cfg" and inv: "shm_inv cfg (ns, refs)" and at: "seg cfg ns i = Some shp"
  shows "if attaches refs i = 0 then seg cfg (do_shm_rmid cfg hk ns shp) i = None
    else \<exists>q. seg cfg (do_shm_rmid cfg hk ns shp) i = Some q \<and> has_flag (mode q) SHM_DEST"
proof -
  note d = shm_invD [OF inv]
  have i: "perm_id shp = i" by (rule seg_id [OF wf d(1) at])
  have na: "shm_nattch shp = 0 \<longleftrightarrow> attaches refs i = 0" using d(3) [OF at] i by (metis seg_ok_def unat_eq_zero)
  have "seg cfg ns (perm_id shp) = Some shp" using at i by simp
  note k = find_id_set_key_private(2) [OF wf d(1) this, of "shp\<lparr>mode := mode shp OR SHM_DEST\<rparr>"]
  show ?thesis
    using k i shm_destroy_fields(2) [OF wf d(1) at, of shp hk]
    by (simp add: do_shm_rmid_def na same_identity_def same_segment_def dest_bits(1))
qed

lemma rmid_close_all:
  assumes wf: "wf_cfg cfg" and inv: "shm_inv cfg (ns, refs)" and at: "seg cfg ns i = Some shp"
    and rs: "mset rs \<subseteq># refs" "\<forall>r \<in> set rs. sfd_id r = i"
  shows "seg cfg (close_all cfg env hk rs (do_shm_rmid cfg hk ns shp)) i = None \<longleftrightarrow> length rs = attaches refs i"
proof (cases "attaches refs i = 0")
  case True
  then have "rs = []" by (rule no_refs_Nil [OF rs])
  then show ?thesis using rmid_marks [OF wf inv at, of hk] True by simp
next
  case False
  then obtain q where "seg cfg (do_shm_rmid cfg hk ns shp) i = Some q" "has_flag (mode q) SHM_DEST"
    using rmid_marks [OF wf inv at, of hk] by auto
  from close_marked [OF wf do_shm_rmid_inv [OF wf inv at] this rs] show ?thesis .
qed

lemma rmid_hides_key:
  assumes wf: "wf_cfg cfg" and inv: "shm_inv cfg (ns, refs)" and at: "seg cfg ns i = Some shp"
  shows "ipc_findkey (sns_ids (do_shm_rmid cfg hk ns shp)) (key shp) = None"
proof (rule ccontr)
  let ?ns = "do_shm_rmid cfg hk ns shp"
  note d = shm_invD [OF inv]
  have inv': "shm_inv cfg (?ns, refs)" by (rule do_shm_rmid_inv [OF wf inv at])
  have i: "seg cfg ns (perm_id shp) = Some shp" "perm_id shp = i" using seg_id [OF wf d(1) at] at by simp_all
  assume "ipc_findkey (sns_ids ?ns) (key shp) \<noteq> None"
  then obtain q x where q: "key q = key shp" "key shp \<noteq> IPC_PRIVATE" "ipcs_idr (sns_ids ?ns) x = Some q"
    using ipc_findkey_iff [OF shm_invD(1) [OF inv']] by blast
  from idr_seg [OF wf inv' q(3)] have sq: "seg cfg ?ns (perm_id q) = Some q" .
  have "seg cfg ?ns = (seg cfg ns)(i := None) \<or> (\<exists>p. seg cfg ?ns = (seg cfg ns)(i \<mapsto> p) \<and> key p = IPC_PRIVATE)"
    using find_id_set_key_private(2) [OF wf d(1) i(1), of "shp\<lparr>mode := mode shp OR SHM_DEST\<rparr>"] i(2)
      shm_destroy_fields(2) [OF wf d(1) at, of shp hk]
    by (auto simp: do_shm_rmid_def same_identity_def same_segment_def)
  then have "perm_id q \<noteq> i" "seg cfg ns (perm_id q) = Some q" using sq q(1,2) by (auto split: if_splits)
  then have "ipc_findkey (sns_ids ns) (key shp) = Some q" "ipc_findkey (sns_ids ns) (key shp) = Some shp"
    using ipc_findkey_iff [OF d(1)] find_id_iff [OF wf d(1)] q(1,2) at by blast+
  then show False using \<open>perm_id q \<noteq> i\<close> i(2) by simp
qed

section \<open>The exit of a creator\<close>

lemma shm_destroy_clist: "length (task_clist (shm_destroy cfg hk ns shp) t) \<le> length (task_clist ns t)"
proof -
  have "task_clist (shm_destroy cfg hk ns shp) = task_clist (shm_clist_rm (shp\<lparr>shm_file := None\<rparr>) ns)"
    by (simp add: shm_destroy_def shm_rmid_def shm_clist_rm_def Let_def split_beta split: option.splits)
  then show ?thesis by (simp add: shm_clist_rm_def Let_def length_removeAll_less_eq)
qed

lemma exit_destroy_clist: "length (task_clist (exit_destroy cfg hk i ns) t) \<le> length (task_clist ns t)"
  using shm_destroy_clist [of cfg hk ns _ t] by (simp add: exit_destroy_def split: option.splits)

lemma exit_shm_ends:
  assumes others: "\<And>n. length (task_clist (other n) t) \<le> length (task_clist n t)"
  shows "\<exists>ns'. exit_shm cfg hk alive other t ns = Some ns' \<and> task_clist ns' t = []"
proof (induction "length (task_clist ns t)" arbitrary: ns rule: less_induct)
  case less
  show ?case
  proof (cases "task_clist ns t")
    case Nil
    then show ?thesis by (subst exit_shm.simps) (simp add: exit_shm_turn_def exit_unlink_def)
  next
    case (Cons i rest)
    let ?n = "ns\<lparr>task_clist := (task_clist ns)(t := rest)\<rparr>"
    let ?m = "if \<not> shm_rmid_forced ns \<or> \<not> alive then ?n else exit_destroy cfg hk i (other ?n)"
    have tr: "exit_shm_turn cfg hk alive other t ns = Some ?m" by (simp add: exit_shm_turn_def exit_unlink_def Cons)
    have "length (task_clist (exit_destroy cfg hk i (other ?n)) t) \<le> length (task_clist ?n t)"
      using exit_destroy_clist others le_trans by blast
    then have "length (task_clist ?m t) < length (task_clist ns t)" by (simp add: Cons)
    from less [OF this] tr show ?thesis by (subst exit_shm.simps) simp
  qed
qed

text \<open>When nobody interferes: the segments of the task that nobody uses are gone, all others are as they were.\<close>

lemma exit_destroy_spec:
  assumes wf: "wf_cfg cfg" and inv: "shm_inv cfg (ns, refs)" and forced: "shm_rmid_forced ns"
    and at: "seg cfg ns i = Some shp" and cr: "shm_creator shp = t" and nin: "i \<notin> set (task_clist ns t)"
  shows "seg cfg (exit_destroy cfg hk i ns) j = (if j = i \<and> attaches refs i = 0 then None else seg cfg ns j)"
    and "task_clist (exit_destroy cfg hk i ns) t = task_clist ns t" and "shm_rmid_forced (exit_destroy cfg hk i ns)"
proof -
  note d = shm_invD [OF inv]
  have na: "shm_nattch shp = 0 \<longleftrightarrow> attaches refs i = 0"
    using d(3) [OF at] seg_id [OF wf d(1) at] by (metis seg_ok_def unat_eq_zero)
  have e: "exit_destroy cfg hk i ns = (if attaches refs i = 0 then shm_destroy cfg hk ns shp else ns)"
    using na forced by (simp add: exit_destroy_seg [OF wf inv] at shm_may_destroy_def)
  note f = shm_destroy_fields [OF wf d(1) at, of shp hk]
  show "seg cfg (exit_destroy cfg hk i ns) j = (if j = i \<and> attaches refs i = 0 then None else seg cfg ns j)"
    using f(2) by (simp add: e same_identity_def same_segment_def)
  show "task_clist (exit_destroy cfg hk i ns) t = task_clist ns t" "shm_rmid_forced (exit_destroy cfg hk i ns)"
    using f(3,5) cr nin forced by (simp_all add: e same_identity_def same_segment_def)
qed

lemma exit_shm_cleans:
  assumes wf: "wf_cfg cfg"
  shows "shm_inv cfg (ns, refs) \<Longrightarrow> shm_rmid_forced ns \<Longrightarrow> exit_shm cfg hk True id t ns = Some ns' \<Longrightarrow>
    seg cfg ns' j = (if j \<in> set (task_clist ns t) \<and> attaches refs j = 0 then None else seg cfg ns j)"
proof (induction "task_clist ns t" arbitrary: ns)
  case Nil
  then have "exit_shm_turn cfg hk True id t ns = None" by (simp add: exit_shm_turn_def exit_unlink_def flip: Nil.hyps)
  then have "ns' = ns" using Nil.prems(3) by (subst (asm) exit_shm.simps) simp
  then show ?case by (simp flip: Nil.hyps)
next
  case (Cons i rest)
  let ?n = "ns\<lparr>task_clist := (task_clist ns)(t := rest)\<rparr>"
  let ?m = "exit_destroy cfg hk i ?n"
  have un: "exit_unlink t ns = Some (i, ?n)" by (simp add: exit_unlink_def flip: Cons.hyps(2))
  note inv1 = exit_unlink_inv [OF Cons.prems(1) un]
  have c: "distinct (i # rest)" "\<exists>shp. seg cfg ns i = Some shp \<and> shm_creator shp = t"
    using shm_invD(4) [OF Cons.prems(1)] Cons.hyps(2) unfolding clists_ok_def by (metis, metis list.set_intros(1))
  then obtain shp where shp: "seg cfg ?n i = Some shp" "shm_creator shp = t" by auto
  note sp = exit_destroy_spec [OF wf inv1 _ shp, of hk]
  have "exit_shm_turn cfg hk True id t ns = Some ?m" using un Cons.prems(2) by (simp add: exit_shm_turn_def)
  then have run: "exit_shm cfg hk True id t ?m = Some ns'"
    using Cons.prems(3) by (subst (asm) exit_shm.simps) simp
  have ih: "seg cfg ns' j = (if j \<in> set rest \<and> attaches refs j = 0 then None else seg cfg ?m j)"
    using Cons.hyps(1) [of ?m] sp(2,3) c(1) Cons.prems(2) exit_destroy_inv [OF wf inv1] run by simp
  then show ?case using sp(1) c(1) Cons.prems(2) by (auto simp flip: Cons.hyps(2))
qed

section \<open>Statistics\<close>

definition add_at :: "shm_hooks \<Rightarrow> (int \<Rightarrow> shmid_kernel option) \<Rightarrow> int \<Rightarrow> u64 \<times> u64 \<Rightarrow> u64 \<times> u64" where
  "add_at hk idr i a = (case idr i of None \<Rightarrow> a | Some shp \<Rightarrow> shm_add_rss_swap hk shp a)"

lemma fold_add_at_none: "(\<And>i. i \<in> set is \<Longrightarrow> idr i = None) \<Longrightarrow> fold (add_at hk idr) is a = a"
  by (induction "is") (simp_all add: add_at_def)

lemma shm_stat_loop_sums:
  assumes fin: "finite (dom idr)" and pos: "\<And>i. i \<in> dom idr \<Longrightarrow> 0 \<le> i \<and> i \<le> m" and m: "dom idr \<noteq> {} \<Longrightarrow> m \<in> dom idr"
    and used: "used = int (card (dom idr))"
  shows "0 \<le> n \<Longrightarrow> found = int (card {i \<in> dom idr. i < n}) \<Longrightarrow>
    shm_stat_loop hk idr used found n a = Some (fold (add_at hk idr) [n..m] a)"
proof (induction "nat (m + 1 - n)" arbitrary: n found a rule: less_induct)
  case less
  let ?below = "\<lambda>n. {i \<in> dom idr. i < n}"
  show ?case
  proof (cases "found < used")
    case False
    have "?below n = dom idr"
      using False less.prems(2) used fin by (intro card_seteq) auto
    then have "\<forall>i \<in> set [n..m]. idr i = None"
      by (metis (mono_tags, lifting) atLeastAtMost_iff domIff mem_Collect_eq not_le set_upto)
    then show ?thesis using False fold_add_at_none [of "[n..m]" idr hk a] by (subst shm_stat_loop.simps) simp
  next
    case True
    then have "?below n \<noteq> dom idr" using less.prems(2) used by auto
    then obtain i where "i \<in> dom idr" "n \<le> i" by fastforce
    then have nm: "n \<le> m" using pos by fastforce
    have up: "[n..m] = n # [n + 1..m]" using nm by (simp add: upto_rec1)
    have dec: "nat (m + 1 - (n + 1)) < nat (m + 1 - n)" using nm by simp
    show ?thesis
    proof (cases "idr n")
      case None
      then have "?below (n + 1) = ?below n" by auto (metis domI less_le_not_le option.distinct(1) zle_add1_eq_le order_neq_le_trans)
      then have "shm_stat_loop hk idr used found (n + 1) a = Some (fold (add_at hk idr) [n + 1..m] a)"
        using less.prems by (intro less.hyps [OF dec]) simp_all
      then show ?thesis using True None by (subst shm_stat_loop.simps) (simp add: up add_at_def)
    next
      case (Some shp)
      then have "?below (n + 1) = insert n (?below n)" by auto
      then have "int (card (?below (n + 1))) = found + 1" using fin less.prems(2) by simp
      then have "shm_stat_loop hk idr used (found + 1) (n + 1) (shm_add_rss_swap hk shp a) =
          Some (fold (add_at hk idr) [n + 1..m] (shm_add_rss_swap hk shp a))"
        using less.prems(1) by (intro less.hyps [OF dec]) simp_all
      then show ?thesis using True Some by (subst shm_stat_loop.simps) (simp add: up add_at_def)
    qed
  qed
qed

lemma shm_get_stat_sums:
  assumes "ids_inv cfg (sns_ids ns)"
  shows "shm_get_stat hk ns = Some (fold (add_at hk (ipcs_idr (sns_ids ns))) [0..max_idx (sns_ids ns)] (0, 0))"
proof -
  note e = ids_invE [OF assms]
  have range: "0 \<le> i \<and> i \<le> max_idx (sns_ids ns)" if "i \<in> dom (ipcs_idr (sns_ids ns))" for i
    using that ids_invD [OF assms] by (auto simp: obj_ok_def)
  have "{i \<in> dom (ipcs_idr (sns_ids ns)). i < 0} = {}" using range by fastforce
  then show ?thesis unfolding shm_get_stat_def
    by (intro shm_stat_loop_sums [OF e(1) range]) (use e in \<open>auto split: if_splits\<close>)
qed

section \<open>Detaching\<close>

text \<open>
  What the memory management keeps of the areas of a process: they are in the order of their addresses, none is
  empty, they do not overlap, start at a page and end in the lower half of the address space, and the
  offset of an area in its file, in pages, is that of a \<open>loff_t\<close>.
\<close>

definition areas_ok :: "vm_area list \<Rightarrow> bool" where
  "areas_ok areas \<longleftrightarrow> sorted_wrt (\<lambda>v w. vm_end v \<le> vm_start w) areas \<and>
     (\<forall>v \<in> set areas. vm_start v < vm_end v \<and> vm_end v < 2 ^ 63 \<and> 4096 dvd uint (vm_start v) \<and>
        4096 * uint (vm_pgoff v) < 2 ^ 63)"

text \<open>
  What \<open>shmdt(2)\<close> promises, on integers: an area is a piece of what was attached at an address when it
  maps a segment and lies where the pages at its offset would be if the segment began there.
\<close>

definition piece_at :: "int \<Rightarrow> vm_area \<Rightarrow> bool" where
  "piece_at a v \<longleftrightarrow> (case vm_shm v of None \<Rightarrow> False | Some sfd \<Rightarrow> uint (vm_start v) = a + 4096 * uint (vm_pgoff v))"

text \<open>
  The pieces that go away together with the first one: those of its file that end within the pages of
  the segment.
\<close>

definition detached :: "shm_hooks \<Rightarrow> int \<Rightarrow> vm_area \<Rightarrow> vm_area \<Rightarrow> bool" where
  "detached hk a v0 v \<longleftrightarrow> v = v0 \<or>
     piece_at a v \<and> vm_file v = vm_file v0 \<and>
     uint (vm_end v) \<le> a + 4096 * ((uint (i_size_read hk (sfd_file (the (vm_shm v0)))) + 4095) div 4096)"

text \<open>The same with the tests of the code.\<close>

definition shmdt_first :: "u64 \<Rightarrow> vm_area list \<Rightarrow> vm_area option" where
  "shmdt_first addr areas = find (\<lambda>v. addr < vm_end v \<and> attached_at addr v) areas"

definition shmdt_gone :: "shm_hooks \<Rightarrow> u64 \<Rightarrow> vm_area \<Rightarrow> vm_area \<Rightarrow> bool" where
  "shmdt_gone hk addr v0 v \<longleftrightarrow> v = v0 \<or>
     addr < vm_end v \<and> attached_at addr v \<and> vm_file v = vm_file v0 \<and>
     sint (vm_end v - addr) \<le> sint (PAGE_ALIGN (i_size_read hk (sfd_file (the (vm_shm v0)))))"

abbreviation unmap_all :: "ipc_cfg \<Rightarrow> ipc_env \<Rightarrow> shm_hooks \<Rightarrow> vm_area list \<Rightarrow> shm_ns \<Rightarrow> shm_ns" where
  "unmap_all cfg env hk vs ns \<equiv> fold (unmap_area cfg env hk) vs ns"

lemma shmdt_find_none: "\<forall>v \<in> set l. \<not> attached_at addr v \<Longrightarrow> shmdt_find cfg env hk addr kept l ns = (None, kept @ l, [], ns)"
  by (induction l arbitrary: kept) simp_all

lemma shmdt_find_some:
  "\<forall>v \<in> set pre. \<not> attached_at addr v \<Longrightarrow> attached_at addr v0 \<Longrightarrow>
   shmdt_find cfg env hk addr kept (pre @ v0 # post) ns =
     (Some (vm_file v0, i_size_read hk (sfd_file (the (vm_shm v0)))), kept @ pre, post, unmap_area cfg env hk v0 ns)"
  by (induction pre arbitrary: kept) simp_all

lemma shmdt_rest_filter:
  assumes "sorted_wrt (\<lambda>v w. sint (vm_end w - addr) \<le> sint sz \<longrightarrow> sint (vm_end v - addr) \<le> sint sz) l"
  shows "shmdt_rest cfg env hk addr sz f kept l ns =
    (kept @ filter (\<lambda>v. \<not> (sint (vm_end v - addr) \<le> sint sz \<and> attached_at addr v \<and> vm_file v = f)) l,
     unmap_all cfg env hk (filter (\<lambda>v. sint (vm_end v - addr) \<le> sint sz \<and> attached_at addr v \<and> vm_file v = f) l) ns)"
  using assms
proof (induction l arbitrary: kept ns)
  case (Cons v l)
  show ?case
  proof (cases "sint (vm_end v - addr) \<le> sint sz")
    case False
    then have "\<forall>w \<in> set l. \<not> sint (vm_end w - addr) \<le> sint sz" using Cons.prems by auto
    then have "filter (\<lambda>v. sint (vm_end v - addr) \<le> sint sz \<and> attached_at addr v \<and> vm_file v = f) l = []"
      "filter (\<lambda>v. \<not> (sint (vm_end v - addr) \<le> sint sz \<and> attached_at addr v \<and> vm_file v = f)) l = l"
      by (auto simp: filter_empty_conv filter_id_conv)
    then show ?thesis using False by simp
  next
    case True
    then show ?thesis using Cons by simp
  qed
qed simp

lemma find_skip:
  "\<forall>v \<in> set tk. \<not> P v \<Longrightarrow> \<forall>v \<in> set dr. P v \<Longrightarrow> find (\<lambda>v. P v \<and> Q v) (tk @ dr) = find Q dr"
proof (induction tk)
  case Nil
  then show ?case by (induction dr) auto
qed auto

lemma find_splits:
  assumes "find P l = Some v"
  obtains pre post where "l = pre @ v # post" and "P v" and "\<forall>w \<in> set pre. \<not> P w"
  using assms
proof (induction l arbitrary: thesis)
  case (Cons w l)
  show ?case
  proof (cases "P w")
    case True
    then show ?thesis using Cons.prems(1) [of "[]" l] Cons.prems(2) by simp
  next
    case False
    then obtain pre post where "l = pre @ v # post" "P v" "\<forall>w \<in> set pre. \<not> P w" using Cons.IH Cons.prems(2) by auto
    then show ?thesis using Cons.prems(1) [of "w # pre" post] False by simp
  qed
qed simp

text \<open>Distances from an address below both ends compare like the ends.\<close>

lemma sint_dist:
  assumes "addr < (e :: u64)" and "e < 2 ^ 63"
  shows "sint (e - addr) = uint e - uint addr"
proof -
  have u: "uint e < 2 ^ 63" "uint addr < uint e" "0 \<le> uint addr" using assms by (simp_all add: word_less_def)
  have d: "uint (e - addr) = uint e - uint addr"
    using assms(1) by (simp add: uint_sub_lem [THEN iffD1] word_le_def word_less_def)
  have "- (2 ^ 63) \<le> uint e - uint addr" "uint e - uint addr < 2 ^ 63" using u by linarith+
  then have "signed_take_bit 63 (uint e - uint addr) = uint e - uint addr" by (rule signed_take_bit_int_eq_self)
  then show ?thesis by (simp add: sint_uint d)
qed

lemma areas_split:
  assumes ok: "areas_ok areas"
  shows "\<forall>v \<in> set (dropWhile (\<lambda>v. vm_end v \<le> addr) areas). addr < vm_end v"
proof -
  have mono: "sorted_wrt (\<lambda>v w. vm_end v \<le> vm_end w) areas"
    by (rule sorted_wrt_mono_rel [of areas "\<lambda>v w. vm_end v \<le> vm_start w"])
      (use ok in \<open>auto simp: areas_ok_def intro: order_trans less_imp_le\<close>)
  then show ?thesis by (induction areas) (auto simp: not_le intro: less_le_trans)
qed

lemma shmdt_rest_areas:
  assumes ok: "areas_ok (pre @ v0 # post)" and v0: "addr < vm_end v0"
  shows "shmdt_rest cfg env hk addr sz f kept post ns =
    (kept @ filter (\<lambda>v. \<not> (sint (vm_end v - addr) \<le> sint sz \<and> attached_at addr v \<and> vm_file v = f)) post,
     unmap_all cfg env hk (filter (\<lambda>v. sint (vm_end v - addr) \<le> sint sz \<and> attached_at addr v \<and> vm_file v = f) post) ns)"
proof (rule shmdt_rest_filter, rule sorted_wrt_mono_rel)
  show "sorted_wrt (\<lambda>v w. vm_end v \<le> vm_start w) post" using ok by (simp add: areas_ok_def sorted_wrt_append)
  fix v w assume m: "v \<in> set post" "w \<in> set post" and le: "vm_end v \<le> vm_start w"
  have b: "addr < vm_end v" "vm_end v < 2 ^ 63" "vm_end w < 2 ^ 63" "vm_start w < vm_end w"
  proof -
    have "vm_end v0 \<le> vm_start v" "vm_start v < vm_end v" using ok m(1) by (simp_all add: areas_ok_def sorted_wrt_append)
    then show "addr < vm_end v" using v0 by (meson le_less_trans less_trans less_le_trans)
    show "vm_end v < 2 ^ 63" "vm_end w < 2 ^ 63" "vm_start w < vm_end w" using ok m by (simp_all add: areas_ok_def)
  qed
  then have "addr < vm_end w" "uint (vm_end v) \<le> uint (vm_end w)" using le by (simp_all add: word_less_def word_le_def)
  then show "sint (vm_end w - addr) \<le> sint sz \<longrightarrow> sint (vm_end v - addr) \<le> sint sz" using b by (simp add: sint_dist)
qed

lemma areas_distinct:
  assumes "areas_ok (pre @ v0 # post)"
  shows "v0 \<notin> set post"
  using assms by (auto simp: areas_ok_def sorted_wrt_append dest: leD)

lemma shmdt_code:
  assumes ok: "areas_ok areas" and "addr AND (PAGE_SIZE - 1) = 0"
  shows "ksys_shmdt cfg env hk True areas ns addr =
    (case shmdt_first addr areas of
       None \<Rightarrow> (Some EINVAL, areas, ns)
     | Some v0 \<Rightarrow> (None, filter (\<lambda>v. \<not> shmdt_gone hk addr v0 v) areas,
                     unmap_all cfg env hk (filter (shmdt_gone hk addr v0) areas) ns))"
proof -
  define tk where "tk = takeWhile (\<lambda>v. vm_end v \<le> addr) areas"
  define dr where "dr = dropWhile (\<lambda>v. vm_end v \<le> addr) areas"
  have ar: "areas = tk @ dr" by (simp add: tk_def dr_def)
  have lo: "\<forall>v \<in> set tk. vm_end v \<le> addr" by (auto simp: tk_def dest: set_takeWhileD)
  have hi: "\<forall>v \<in> set dr. addr < vm_end v" using areas_split [OF ok] by (simp add: dr_def)
  have fst: "shmdt_first addr areas = find (attached_at addr) dr"
    unfolding shmdt_first_def ar using lo hi by (intro find_skip) (auto simp: not_less)
  note run = ksys_shmdt_def [of cfg env hk True areas ns addr, folded tk_def dr_def]
  show ?thesis
  proof (cases "find (attached_at addr) dr")
    case None
    then have "shmdt_find cfg env hk addr tk dr ns = (None, areas, [], ns)" using ar by (simp add: find_None_iff shmdt_find_none)
    then show ?thesis using assms(2) unfolding run fst None by simp
  next
    case (Some v0)
    then obtain pre post where dr: "dr = pre @ v0 # post" and v0: "attached_at addr v0" "\<forall>v \<in> set pre. \<not> attached_at addr v"
      by (rule find_splits)
    have ok': "areas_ok ((tk @ pre) @ v0 # post)" using ok ar dr by simp
    have a0: "addr < vm_end v0" and post: "\<forall>v \<in> set post. addr < vm_end v" using hi dr by auto
    let ?sz = "PAGE_ALIGN (i_size_read hk (sfd_file (the (vm_shm v0))))"
    have g: "shmdt_gone hk addr v0 v \<longleftrightarrow> sint (vm_end v - addr) \<le> sint ?sz \<and> attached_at addr v \<and> vm_file v = vm_file v0"
      if "v \<in> set post" for v using that post areas_distinct [OF ok'] by (auto simp: shmdt_gone_def)
    have n: "\<not> shmdt_gone hk addr v0 v" if "v \<in> set (tk @ pre)" for v
      using that lo v0 a0 by (auto simp: shmdt_gone_def not_le)
    have keep: "filter (\<lambda>v. \<not> shmdt_gone hk addr v0 v) areas = tk @ pre @ filter (\<lambda>v. \<not> shmdt_gone hk addr v0 v) post"
      and gone: "filter (shmdt_gone hk addr v0) areas = v0 # filter (shmdt_gone hk addr v0) post"
      using n by (auto simp: ar dr filter_id_conv filter_empty_conv shmdt_gone_def [of hk addr v0 v0])
    let ?g = "\<lambda>v. sint (vm_end v - addr) \<le> sint ?sz \<and> attached_at addr v \<and> vm_file v = vm_file v0"
    have "filter (\<lambda>v. \<not> shmdt_gone hk addr v0 v) post = filter (\<lambda>v. \<not> ?g v) post"
      "filter (shmdt_gone hk addr v0) post = filter ?g post" by (auto intro!: filter_cong simp: g)
    then have "shmdt_rest cfg env hk addr ?sz (vm_file v0) (tk @ pre) post (unmap_area cfg env hk v0 ns) =
        (filter (\<lambda>v. \<not> shmdt_gone hk addr v0 v) areas, unmap_all cfg env hk (filter (shmdt_gone hk addr v0) areas) ns)"
      unfolding shmdt_rest_areas [OF ok' a0] keep gone by simp
    then show ?thesis using assms(2) unfolding run fst Some by (simp add: dr shmdt_find_some [OF v0(2,1)])
  qed
qed

text \<open>The tests of the code, on words, are those of the specification.\<close>

lemma page_aligned: "(addr :: u64) AND (PAGE_SIZE - 1) = 0 \<longleftrightarrow> 4096 dvd uint addr"
proof -
  have "PAGE_SIZE - 1 = mask 12" by (simp add: PAGE_SIZE_def mask_eq_exp_minus_1)
  then have "addr AND (PAGE_SIZE - 1) = take_bit 12 addr" by (simp add: take_bit_eq_mask)
  moreover have "uint (take_bit 12 addr) = uint addr mod 4096" by (simp add: take_bit_eq_mod uint_mod)
  ultimately show ?thesis by (simp add: word_uint_eq_iff dvd_eq_mod_eq_0)
qed

lemma page_align:
  assumes "uint sz + 4095 < 2 ^ 63"
  shows "uint (PAGE_ALIGN sz) = 4096 * ((uint sz + 4095) div 4096)"
proof -
  let ?x = "sz + PAGE_SIZE - 1"
  have m: "PAGE_SIZE - 1 = mask 12" by (simp add: PAGE_SIZE_def mask_eq_exp_minus_1)
  have x: "uint ?x = uint sz + 4095"
  proof -
    have "?x = sz + 0xFFF" by (simp add: PAGE_SIZE_def)
    then show ?thesis using assms by (simp only:) (simp add: uint_word_ariths)
  qed
  have "?x AND NOT (mask 12) = ?x - take_bit 12 ?x"
  proof -
    have "?x - take_bit 12 ?x = ?x AND NOT (take_bit 12 ?x)" by (rule disjunctive_diff) (simp add: bit_simps)
    also have "\<dots> = ?x AND NOT (mask 12)" by (rule bit_word_eqI) (auto simp: bit_simps)
    finally show ?thesis by simp
  qed
  moreover have "uint (?x - take_bit 12 ?x) = uint ?x - uint ?x mod 4096"
  proof -
    have t: "uint (take_bit 12 ?x) = uint ?x mod 4096" by (simp add: take_bit_eq_mod uint_mod)
    then have "take_bit 12 ?x \<le> ?x" by (simp add: word_le_def zmod_le_nonneg_dividend)
    then have "uint (?x - take_bit 12 ?x) = uint ?x - uint (take_bit 12 ?x)" by (simp only: word_le_def uint_sub_lem)
    then show ?thesis unfolding t .
  qed
  ultimately show ?thesis unfolding PAGE_ALIGN_def m x by (simp add: minus_mod_eq_mult_div)
qed

lemma area_okD:
  assumes "areas_ok areas" and "v \<in> set areas"
  shows "vm_start v < vm_end v" "uint (vm_end v) < 2 ^ 63" "4096 dvd uint (vm_start v)" "4096 * uint (vm_pgoff v) < 2 ^ 63"
  using assms by (auto simp: areas_ok_def word_less_def)

lemma attached_piece:
  assumes "areas_ok areas" and "v \<in> set areas" and al: "4096 dvd uint addr" and hi: "addr < vm_end v"
  shows "attached_at addr v = piece_at (uint addr) v"
proof -
  note v = area_okD [OF assms(1,2)]
  let ?s = "uint (vm_start v)" and ?a = "uint addr" and ?o = "uint (vm_pgoff v)"
  have b: "0 \<le> ?s" "0 \<le> ?a" "?s < uint (vm_end v)" "?a < uint (vm_end v)" "0 \<le> ?o"
    using v(1) hi by (simp_all add: word_less_def)
  have q: "(vm_start v - addr) div PAGE_SIZE = vm_pgoff v \<longleftrightarrow> uint (vm_start v - addr) div 4096 = ?o"
    by (simp add: word_uint_eq_iff uint_div PAGE_SIZE_def)
  have "uint (vm_start v - addr) div 4096 = ?o \<longleftrightarrow> ?s = ?a + 4096 * ?o"
  proof (cases "?a \<le> ?s")
    case True
    then have "uint (vm_start v - addr) = ?s - ?a" by (simp add: uint_sub_lem word_le_def)
    moreover have "4096 dvd ?s - ?a" using v(3) al by simp
    ultimately show ?thesis by auto
  next
    case False
    then have "uint (vm_start v - addr) = ?s - ?a + 2 ^ 64" using b by (simp add: uint_sub_if_size word_size)
    moreover have "9223372036854775808 div 4096 \<le> (?s - ?a + 2 ^ 64) div 4096"
    proof (rule zdiv_mono1)
      have "?a < 9223372036854775808" using b(4) v(2) by simp
      moreover have "(2 :: int) ^ 64 = 2 * 9223372036854775808" by simp
      ultimately show "9223372036854775808 \<le> ?s - ?a + 2 ^ 64" using b(1) by linarith
    qed simp
    moreover have "?o < 9223372036854775808 div 4096" using v(4) by simp
    moreover have "?s \<noteq> ?a + 4096 * ?o" using False b(5) by linarith
    ultimately show ?thesis by simp
  qed
  then show ?thesis by (simp add: attached_at_def piece_at_def q split: option.split)
qed

lemma not_below:
  "areas_ok areas \<Longrightarrow> v \<in> set areas \<Longrightarrow> piece_at (uint addr) v \<Longrightarrow> addr < vm_end v"
proof -
  assume a: "areas_ok areas" "v \<in> set areas" "piece_at (uint addr) v"
  have "uint (vm_start v) < uint (vm_end v)" using area_okD(1) [OF a(1,2)] by (simp add: word_less_def)
  moreover have "uint addr \<le> uint (vm_start v)" using a(3) by (auto simp: piece_at_def split: option.splits)
  ultimately show ?thesis by (simp add: word_less_def)
qed

lemma shmdt_first_piece:
  assumes "areas_ok areas" and "4096 dvd uint addr"
  shows "shmdt_first addr areas = find (piece_at (uint addr)) areas"
  unfolding shmdt_first_def
  by (rule find_cong [OF refl]) (use attached_piece [OF assms(1) _ assms(2)] not_below [OF assms(1)] in blast)

lemma gone_detached:
  assumes ok: "areas_ok areas" and "4096 dvd uint addr" and "v \<in> set areas"
    and sz: "uint (i_size_read hk (sfd_file (the (vm_shm v0)))) + 4095 < 2 ^ 63"
  shows "shmdt_gone hk addr v0 v = detached hk (uint addr) v0 v"
proof -
  let ?sz = "PAGE_ALIGN (i_size_read hk (sfd_file (the (vm_shm v0))))"
  let ?n = "4096 * ((uint (i_size_read hk (sfd_file (the (vm_shm v0)))) + 4095) div 4096)"
  have u: "uint ?sz = ?n" by (rule page_align [OF sz])
  have "?n < 2 ^ 63" using sz by linarith
  moreover have "0 \<le> ?n" by (simp add: pos_imp_zdiv_nonneg_iff)
  ultimately have "sint ?sz = ?n" unfolding sint_uint u by (intro signed_take_bit_int_eq_self) simp_all
  moreover have "sint (vm_end v - addr) = uint (vm_end v) - uint addr" if "addr < vm_end v"
    by (rule sint_dist [OF that]) (use assms(3) ok in \<open>simp add: areas_ok_def\<close>)
  ultimately show ?thesis
    using attached_piece [OF ok assms(3,2)] not_below [OF ok assms(3), of addr]
    by (auto simp: shmdt_gone_def detached_def)
qed

section \<open>Properties\<close>

text \<open>
  C5.  A segment lives as long as somebody uses it: in every reachable state, through every removal, exit and
  change of policy, the identifier of a mapping or of an attach in progress finds the segment it was made
  for, with the same file, the attach count is the number of these references, copying a mapping succeeds, and
  the end of \<open>shmat\<close>, which does not check its lookup, never runs into an error pointer.
\<close>

theorem attached_segment_lives:
  assumes "wf_cfg cfg" and "reach shm_start (shm_step cfg) (ns, refs)" and "r \<in># refs"
  shows "\<exists>shp. shm_obtain_object_check cfg ns (sfd_id r) = Inr shp \<and> shm_file shp = Some (sfd_file r) \<and>
      unat (shm_nattch shp) = attaches refs (sfd_id r) \<and>
      fst (shm_open_area cfg env ns r) = None \<and> shmat_end cfg hk ns (sfd_id r) \<noteq> None"
proof -
  note inv = reach_shm_inv [OF assms(1,2)]
  obtain shp where at: "seg cfg ns (sfd_id r) = Some shp" and f: "shm_file shp = Some (sfd_file r)"
    using refs_okD [OF shm_invD(2) [OF inv] assms(3)] .
  have "unat (shm_nattch shp) = attaches refs (sfd_id r)"
    using shm_invD(3) [OF inv at] seg_id [OF assms(1) shm_invD(1) [OF inv] at] by (simp add: seg_ok_def)
  then show ?thesis
    using seg_obtain [OF at] f shm_lock_seg [OF assms(1) inv at] by (simp add: shm_open_area_def shmat_end_def)
qed

text \<open>
  C17.  \<open>IPC_RMID\<close> removes the key at once and the segment exactly with its last reference: after the removal the
  references are closed in any order, and the identifier finds nothing precisely when all of them are.
\<close>

theorem rmid_takes_effect_with_last_close:
  assumes "wf_cfg cfg" and "reach shm_start (shm_step cfg) (ns, refs)"
    and "shm_obtain_object_check cfg ns i = Inr shp" and "0 \<le> i"
    and "mset rs \<subseteq># refs" and "\<forall>r \<in> set rs. sfd_id r = i"
  shows "(seg cfg (close_all cfg env hk rs (do_shm_rmid cfg hk ns shp)) i = None \<longleftrightarrow> length rs = attaches refs i) \<and>
    ipc_findkey (sns_ids (do_shm_rmid cfg hk ns shp)) (key shp) = None"
proof -
  note inv = reach_shm_inv [OF assms(1,2)]
  note at = shm_obtain_check_seg [OF assms(1) inv assms(3,4)]
  show ?thesis using rmid_close_all [OF assms(1) inv at assms(5,6)] rmid_hides_key [OF assms(1) inv at] by blast
qed

text \<open>
  C39.  \<open>shmdt\<close> detaches one attachment.  An address that is no page boundary fails with \<open>EINVAL\<close>, a fatal signal
  while waiting for the lock with \<open>EINTR\<close>, and both change nothing.  Otherwise the first piece of a segment that
  lies where it would if its segment began at the address is taken; without one the call fails with \<open>EINVAL\<close>.
  It and the pieces of the same file there, up to the size of the segment in whole pages, are removed and closed in the
  order of their addresses; all other areas stay, mappings of ordinary files at the same place included.
  The areas are those the memory management keeps (\<open>areas_ok\<close>), and the sizes of files are those of a \<open>loff_t\<close>.
\<close>

theorem shmdt_detaches:
  assumes ok: "areas_ok areas" and sizes: "\<forall>f. uint (i_size_read hk f) + 4095 < 2 ^ 63"
  shows "ksys_shmdt cfg env hk lock_ok areas ns addr =
    (if \<not> 4096 dvd uint addr then (Some EINVAL, areas, ns)
     else if \<not> lock_ok then (Some EINTR, areas, ns)
     else case find (piece_at (uint addr)) areas of
       None \<Rightarrow> (Some EINVAL, areas, ns)
     | Some v0 \<Rightarrow> (None, filter (\<lambda>v. \<not> detached hk (uint addr) v0 v) areas,
                     fold (unmap_area cfg env hk) (filter (detached hk (uint addr) v0) areas) ns))"
proof (cases "4096 dvd uint addr \<and> lock_ok")
  case False
  then show ?thesis using page_aligned [of addr] by (auto simp: ksys_shmdt_def)
next
  case True
  then have al: "4096 dvd uint addr" "addr AND (PAGE_SIZE - 1) = 0" by (simp_all add: page_aligned)
  have "filter (\<lambda>v. \<not> shmdt_gone hk addr v0 v) areas = filter (\<lambda>v. \<not> detached hk (uint addr) v0 v) areas"
    "filter (shmdt_gone hk addr v0) areas = filter (detached hk (uint addr) v0) areas" for v0
    using gone_detached [OF ok al(1)] sizes by (auto intro!: filter_cong)
  then show ?thesis using shmdt_code [OF ok al(2)] True
    by (simp add: shmdt_first_piece [OF ok al(1)] split: option.split)
qed

text \<open>
   \<open>shm_tot\<close> is exactly the number of pages of all segments, so the subtraction in \<open>shm_destroy\<close> never wraps;
  creating a segment adds its pages and leaves the total within the limit \<open>shm_ctlall\<close>.
\<close>

theorem shm_tot_exact:
  assumes "wf_cfg cfg" and "reach shm_start (shm_step cfg) (ns, refs)" and "idr_alloc_ok orc"
  shows "unat (shm_tot ns) = (\<Sum>i \<in> dom (seg cfg ns). unat (seg_pages (shm_segsz (the (seg cfg ns i))))) \<and>
    (case ksys_shmget cfg env orc hk ns IPC_PRIVATE sz flg of
       (Inl e, ns') \<Rightarrow> shm_tot ns' = shm_tot ns
     | (Inr i, ns') \<Rightarrow> unat (shm_tot ns') = unat (shm_tot ns) + unat (seg_pages sz) \<and> shm_tot ns' \<le> shm_ctlall ns)"
proof -
  note inv = reach_shm_inv [OF assms(1,2)]
  let ?p = "\<lparr>par_key = IPC_PRIVATE, par_flg = flg, par_nsems = uint sz\<rparr>"
  obtain r ns' where run: "newseg cfg env orc hk ns ?p = (r, ns')" by force
  have k: "ksys_shmget cfg env orc hk ns IPC_PRIVATE sz flg = (r, ns')"
    by (simp add: ksys_shmget_def ipcget_def ipcget_new_def run)
  have t: "unat (shm_tot ns) = (\<Sum>i \<in> dom (seg cfg ns). unat (seg_pages (shm_segsz (the (seg cfg ns i)))))"
    using shm_invD(5) [OF inv] by (simp add: pages_total_def pages_of_def)
  show ?thesis
  proof (cases r)
    case (Inl e)
    then show ?thesis using t k newseg_Inl [of cfg env orc hk ns ?p e ns'] run by simp
  next
    case (Inr i)
    have run': "newseg cfg env orc hk ns ?p = (Inr i, ns')" using run Inr by simp
    have kp: "par_key ?p = IPC_PRIVATE \<or> ipc_findkey (sns_ids ns) (par_key ?p) = None" by simp
    note f = newseg_Inr_inv [OF assms(1,3) inv kp run']
    obtain shp where sg: "seg cfg ns' = (seg cfg ns)(i \<mapsto> shp)" and sz: "shm_segsz shp = sz" using f(3) by auto
    have "unat (shm_tot ns') = unat (shm_tot ns) + unat (seg_pages sz)"
      using shm_invD(5) [OF f(1)] shm_invD(5) [OF inv] sz
        pages_total_upd(1) [OF finite_find_id [OF assms(1) shm_invD(1) [OF inv]] f(2), of shp]
      by (simp add: sg pages_of_def)
    then show ?thesis using t k Inr f(4) by (simp add: word_le_nat_alt)
  qed
qed

text \<open>
  C40.  The loop of \<open>exit_shm\<close> ends whatever other tasks do to the segments meanwhile, provided that they enter none
  into the list of the exiting task, and leaves that list empty.  Under \<open>shm_rmid_forced\<close>, when no other task
  interferes, exactly the segments of the task that nobody uses are gone and all others are unchanged.
\<close>

theorem exit_shm_returns:
  assumes "wf_cfg cfg" and "reach shm_start (shm_step cfg) (ns, refs)"
    and "\<And>n. length (task_clist (other n) t) \<le> length (task_clist n t)"
  shows "\<exists>ns'. exit_shm cfg hk ns_alive other t ns = Some ns' \<and> task_clist ns' t = [] \<and>
    (other = id \<and> ns_alive \<and> shm_rmid_forced ns \<longrightarrow>
       (\<forall>j. seg cfg ns' j = (if j \<in> set (task_clist ns t) \<and> attaches refs j = 0 then None else seg cfg ns j)))"
proof -
  obtain ns' where r: "exit_shm cfg hk ns_alive other t ns = Some ns'" "task_clist ns' t = []"
    using exit_shm_ends [OF assms(3)] by blast
  then show ?thesis
    using exit_shm_cleans [OF assms(1) reach_shm_inv [OF assms(1,2)]] by auto
qed

text \<open>
   \<open>shmctl\<close> returns: the loop behind \<open>SHM_INFO\<close> counts objects and not indices, and ends in every reachable
  state after it has added the pages of each segment once, in the order of the indices.
\<close>

theorem shmctl_returns:
  assumes "wf_cfg cfg" and "reach shm_start (shm_step cfg) (ns, refs)"
  shows "shm_get_stat hk ns = Some (fold (add_at hk (ipcs_idr (sns_ids ns))) [0..max_idx (sns_ids ns)] (0, 0)) \<and>
    ksys_shmctl cfg env hk ns shmid cmd_neg cmd usr64 usr_old version \<noteq> None"
proof -
  have g: "shm_get_stat hk ns = Some (fold (add_at hk (ipcs_idr (sns_ids ns))) [0..max_idx (sns_ids ns)] (0, 0))"
    by (rule shm_get_stat_sums [OF shm_invD(1) [OF reach_shm_inv [OF assms]]])
  then have "shmctl_shm_info cfg hk ns \<noteq> None" by (simp add: shmctl_shm_info_def Let_def split_beta split: option.splits)
  then obtain v where v: "shmctl_shm_info cfg hk ns = Some v" by blast
  have "ksys_shmctl cfg env hk ns shmid cmd_neg cmd usr64 usr_old version \<noteq> None"
    unfolding ksys_shmctl_def v by (cases v) (simp_all add: split_beta del: not_None_eq)
  with g show ?thesis by blast
qed

section \<open>Witnesses\<close>

definition sample_shm_hooks :: shm_hooks where
  "sample_shm_hooks =
     \<lparr>security_shm_alloc = (\<lambda>_. None), security_shm_associate = (\<lambda>_ _. None), security_shm_shmctl = (\<lambda>_ _. None),
      security_shm_shmat = (\<lambda>_ _ _. None), shm_mem_ok = True, shm_user_ok = True, hstate_sizelog = (\<lambda>_. None),
      hugetlb_file_setup = (\<lambda>_ _ _. Inl EINVAL), shmem_kernel_file_setup = (\<lambda>_ _. Inr 7), overcommit_never = False,
      is_file_hugepages = (\<lambda>_. False), i_size_read = (\<lambda>_. 5000), nrpages = (\<lambda>_. 2), swapped = (\<lambda>_. 1),
      pages_per_huge_page = (\<lambda>_. 512), shmem_lock = (\<lambda>_. None), rlimit_memlock = True, current_user = 0,
      shm_pid_vnr = (\<lambda>_. 1)\<rparr>"

text \<open>A namespace with one segment of 5000 bytes that is attached once.\<close>

definition sample_shm0 :: shm_ns where
  "sample_shm0 =
     shm_init_ns \<lparr>sns_ids = ipc_init_ids, shm_ctlmax = 0, shm_ctlall = 0, shm_ctlmni = 0, shm_rmid_forced = True, shm_tot = 0,
       task_clist = (\<lambda>_. []), sns_log = []\<rparr>"

definition sample_shm1 :: shm_ns where
  "sample_shm1 = snd (ksys_shmget sample_cfg sample_env sample_orc sample_shm_hooks sample_shm0 IPC_PRIVATE 5000 0x180)"

definition sample_shm2 :: shm_ns where
  "sample_shm2 = snd (shmat_begin sample_cfg sample_env sample_shm_hooks sample_shm1 0 0 0 0x1000)"

definition sample_sfd :: shm_file_data where
  "sample_sfd = \<lparr>sfd_id = 0, sfd_file = 7\<rparr>"

lemma sample_get: "fst (ksys_shmget sample_cfg sample_env sample_orc sample_shm_hooks sample_shm0 IPC_PRIVATE 5000 0x180) = Inr 0"
  by code_simp

lemma sample_begin: "fst (shmat_begin sample_cfg sample_env sample_shm_hooks sample_shm1 0 0 0 0x1000) = Inr (0, 5000, sample_sfd)"
  by code_simp

lemma sample_start: "shm_start (sample_shm0, {#})"
  by (auto simp: shm_start_def sample_shm0_def)

lemma sample_reach0: "reach shm_start (shm_step sample_cfg) (sample_shm0, {#})"
  by (rule reach_start) (rule sample_start)

lemma sample_reach1: "reach shm_start (shm_step sample_cfg) (sample_shm1, {#})"
proof (rule reach_step [OF sample_reach0])
  have "ksys_shmget sample_cfg sample_env sample_orc sample_shm_hooks sample_shm0 IPC_PRIVATE 5000 0x180 = (Inr 0, sample_shm1)"
    using sample_get by (simp add: sample_shm1_def prod_eq_iff)
  from step_get [OF idr_alloc_ok_sample this]
  show "shm_step sample_cfg (sample_shm0, {#}) (ShmGet (Inr 0)) (sample_shm1, {#})" .
qed

lemma sample_reach2: "reach shm_start (shm_step sample_cfg) (sample_shm2, {#sample_sfd#})"
proof (rule reach_step [OF sample_reach1])
  have "shmat_begin sample_cfg sample_env sample_shm_hooks sample_shm1 0 0 0 0x1000 = (Inr (0, 5000, sample_sfd), sample_shm2)"
    using sample_begin by (simp add: sample_shm2_def prod_eq_iff)
  from step_pin [OF _ this, of "{#}"] show "shm_step sample_cfg (sample_shm1, {#}) (ShmPin 0) (sample_shm2, {#sample_sfd#})" by simp
qed

lemma sample_attached: "sample_sfd \<in># {#sample_sfd#}" "sfd_id sample_sfd = 0" "sfd_file sample_sfd = 7"
  by (simp_all add: sample_sfd_def)

lemma sample_seg: "\<exists>shp. shm_obtain_object_check sample_cfg sample_shm2 0 = Inr shp"
proof -
  have "isl (shm_obtain_object_check sample_cfg sample_shm2 0) = False" by code_simp
  then show ?thesis by (cases "shm_obtain_object_check sample_cfg sample_shm2 0") auto
qed

theorem attached_segment_lives_witness:
  "\<exists>shp. shm_obtain_object_check sample_cfg sample_shm2 0 = Inr shp \<and> shm_file shp = Some 7 \<and> unat (shm_nattch shp) = 1 \<and>
     shmat_end sample_cfg sample_shm_hooks sample_shm2 0 \<noteq> None"
  using attached_segment_lives [OF wf_sample_cfg sample_reach2 sample_attached(1), of sample_env sample_shm_hooks]
  by (auto simp: sample_attached(2,3))

theorem rmid_takes_effect_with_last_close_witness:
  "\<exists>shp. shm_obtain_object_check sample_cfg sample_shm2 0 = Inr shp \<and>
     seg sample_cfg (do_shm_rmid sample_cfg sample_shm_hooks sample_shm2 shp) 0 \<noteq> None \<and>
     seg sample_cfg (shm_close sample_cfg sample_env sample_shm_hooks
       (do_shm_rmid sample_cfg sample_shm_hooks sample_shm2 shp) sample_sfd) 0 = None"
proof -
  obtain shp where s: "shm_obtain_object_check sample_cfg sample_shm2 0 = Inr shp" using sample_seg by blast
  note t = rmid_takes_effect_with_last_close [OF wf_sample_cfg sample_reach2 s, of _ sample_env sample_shm_hooks]
  have "seg sample_cfg (do_shm_rmid sample_cfg sample_shm_hooks sample_shm2 shp) 0 \<noteq> None"
    using t [of "[]"] by (simp add: sample_attached(2))
  moreover have "seg sample_cfg (shm_close sample_cfg sample_env sample_shm_hooks
       (do_shm_rmid sample_cfg sample_shm_hooks sample_shm2 shp) sample_sfd) 0 = None"
    using t [of "[sample_sfd]"] by (simp add: sample_attached(2))
  ultimately show ?thesis using s by blast
qed

theorem shm_tot_exact_witness:
  "unat (shm_tot sample_shm0) = (\<Sum>i \<in> dom (seg sample_cfg sample_shm0). unat (seg_pages (shm_segsz (the (seg sample_cfg sample_shm0 i))))) \<and>
   unat (shm_tot sample_shm1) = 2"
proof -
  have "ksys_shmget sample_cfg sample_env sample_orc sample_shm_hooks sample_shm0 IPC_PRIVATE 5000 0x180 = (Inr 0, sample_shm1)"
    using sample_get by (simp add: sample_shm1_def prod_eq_iff)
  moreover have "unat (shm_tot sample_shm0) = 0" "unat (seg_pages 5000) = 2" by code_simp+
  ultimately show ?thesis
    using shm_tot_exact [OF wf_sample_cfg sample_reach0 idr_alloc_ok_sample,
        where env = sample_env and hk = sample_shm_hooks and sz = 5000 and flg = "0x180"] by simp
qed

theorem exit_shm_returns_witness:
  "\<exists>ns'. exit_shm sample_cfg sample_shm_hooks True id 1 (sample_shm1\<lparr>shm_rmid_forced := True\<rparr>) = Some ns' \<and>
     task_clist ns' 1 = [] \<and> seg sample_cfg ns' 0 = None"
proof -
  let ?ns = "sample_shm1\<lparr>shm_rmid_forced := True\<rparr>"
  have "reach shm_start (shm_step sample_cfg) (?ns, {#})" by (rule reach_step [OF sample_reach1 step_forced])
  from exit_shm_returns [OF wf_sample_cfg this, of id 1 sample_shm_hooks True] obtain ns' where
    r: "exit_shm sample_cfg sample_shm_hooks True id 1 ?ns = Some ns'" "task_clist ns' 1 = []"
      "\<forall>j. seg sample_cfg ns' j = (if j \<in> set (task_clist ?ns 1) \<and> attaches {#} j = 0 then None else seg sample_cfg ?ns j)"
    by auto
  have "task_clist sample_shm1 1 = [0]" by code_simp
  then have "seg sample_cfg ns' 0 = None" using r(3) by simp
  with r show ?thesis by blast
qed

theorem shmctl_returns_witness:
  "shm_get_stat sample_shm_hooks sample_shm2 = Some (2, 1) \<and>
   ksys_shmctl sample_cfg sample_env sample_shm_hooks sample_shm2 0 False SHM_INFO (kernel_to_ipc64_perm sample_env sample_perm)
       (kernel_to_ipc64_perm sample_env sample_perm) SHM_IPC_64 \<noteq> None"
proof -
  have "fold (add_at sample_shm_hooks (ipcs_idr (sns_ids sample_shm2))) [0..max_idx (sns_ids sample_shm2)] (0, 0) = (2, 1)"
    by code_simp
  then show ?thesis
    using shmctl_returns [OF wf_sample_cfg sample_reach2, of sample_shm_hooks sample_env 0 False SHM_INFO
        "kernel_to_ipc64_perm sample_env sample_perm" "kernel_to_ipc64_perm sample_env sample_perm" SHM_IPC_64] by simp
qed

text \<open>
  A foreign mapping where the segment was attached, two pieces of the attachment and a mapping of the same file
  where a third piece would be, but not as a segment.
\<close>

definition sample_areas :: "vm_area list" where
  "sample_areas =
     [\<lparr>vm_start = 0x10000, vm_end = 0x11000, vm_pgoff = 0, vm_file = 9, vm_shm = None\<rparr>,
      \<lparr>vm_start = 0x11000, vm_end = 0x12000, vm_pgoff = 1, vm_file = 8, vm_shm = Some sample_sfd\<rparr>,
      \<lparr>vm_start = 0x12000, vm_end = 0x13000, vm_pgoff = 2, vm_file = 8, vm_shm = None\<rparr>,
      \<lparr>vm_start = 0x13000, vm_end = 0x14000, vm_pgoff = 3, vm_file = 8, vm_shm = Some sample_sfd\<rparr>]"

theorem shmdt_detaches_witness:
  "fst (ksys_shmdt sample_cfg sample_env sample_shm_hooks True sample_areas sample_shm2 0x10000) = None \<and>
   map vm_start (fst (snd (ksys_shmdt sample_cfg sample_env sample_shm_hooks True sample_areas sample_shm2 0x10000))) =
     [0x10000, 0x12000, 0x13000]"
proof -
  have ok: "areas_ok sample_areas" and sz: "\<forall>f. uint (i_size_read sample_shm_hooks f) + 4095 < 2 ^ 63"
    by (simp_all add: areas_ok_def sample_areas_def sample_shm_hooks_def)
  have f: "find (piece_at (uint (0x10000 :: u64))) sample_areas = Some (sample_areas ! 1)"
    and g: "map vm_start (filter (\<lambda>v. \<not> detached sample_shm_hooks (uint (0x10000 :: u64)) (sample_areas ! 1) v) sample_areas) =
      [0x10000, 0x12000, 0x13000]"
    by (simp_all add: sample_areas_def piece_at_def detached_def sample_shm_hooks_def)
  show ?thesis using shmdt_detaches [OF ok sz, of sample_cfg sample_env True sample_shm2 "0x10000"] f g by simp
qed

end
