(* ===== verification/Initramfs_Fsm.thy ===== *)
theory Initramfs_Fsm
  imports Kernel_Prelude
begin

text \<open>
  The initramfs unpacker of \<open>init/initramfs.c\<close>: the link hash, header parsing and the state machine
  that turns a cpio archive, given in pieces, into operations on the root file system.

  The static variables of the file are the record \<open>ird\<close>.  A pointer into the input is the list of
  the bytes from it to the end of the input; the three buffers are lists of bytes.  The calls into
  the virtual file system are logged in \<open>ird_log\<close>; their results, the memory allocator and
  \<open>simple_strtoul\<close> are the record \<open>ird_hooks\<close>.  An action ends in \<open>Again\<close> (it returned 0), \<open>Stop\<close> (it
  returned 1) or \<open>Crash\<close>: a panic or an access outside an object.
\<close>

section \<open>Data\<close>

type_synonym u8 = "8 word"
type_synonym cstring = "u8 list"

datatype fs_event =
    FsRmdir cstring | FsUnlink cstring | FsLink cstring cstring | FsSymlink cstring cstring
  | FsOpen cstring bool u16 | FsFchown u32 u32 | FsFchmod u16 | FsTruncate u64 | FsUtimes u64 | FsFput
  | FsWrite "u8 list" u64
  | FsMkdir cstring u16 | FsMknod cstring u16 u32 | FsChown cstring u32 u32 bool | FsChmod cstring u16
  | FsUtime cstring u64 | FsUtimeNull u64

text \<open>
  What a decompressor does with an input: the pieces it hands to \<open>flush_buffer\<close>, whether it called
  \<open>error\<close>, whether its result is not zero, and how far it got in the input.
\<close>

record decompressor =
  dc_chunks :: "u8 list list"
  dc_error :: bool
  dc_res :: bool
  dc_inptr :: u64

record ird_hooks =
  init_stat :: "fs_event list \<Rightarrow> cstring \<Rightarrow> u16 option"
  init_link :: "fs_event list \<Rightarrow> cstring \<Rightarrow> cstring \<Rightarrow> errno option"
  filp_open :: "fs_event list \<Rightarrow> cstring \<Rightarrow> bool \<Rightarrow> u16 \<Rightarrow> bool"
  kernel_write :: "nat \<Rightarrow> u8 list \<Rightarrow> u64 \<Rightarrow> errno + u64"
  simple_strtoul :: "u8 list \<Rightarrow> u64"
  encode_dev :: "u64 \<Rightarrow> u64 \<Rightarrow> u32"
  kmalloc_ok :: bool
  kstrdup_ok :: "cstring \<Rightarrow> bool"
  kmalloc_bytes :: "nat \<Rightarrow> u8 list"
  decompress_method :: "u8 list \<Rightarrow> decompressor option \<times> bool"

definition PATH_MAX :: u64 where "PATH_MAX = 4096"

definition S_IFMT :: u16 where "S_IFMT = 0xF000"

definition S_ISLNK :: "u16 \<Rightarrow> bool" where "S_ISLNK m \<longleftrightarrow> m AND S_IFMT = 0xA000"
definition S_ISREG :: "u16 \<Rightarrow> bool" where "S_ISREG m \<longleftrightarrow> m AND S_IFMT = 0x8000"
definition S_ISDIR :: "u16 \<Rightarrow> bool" where "S_ISDIR m \<longleftrightarrow> m AND S_IFMT = 0x4000"
definition S_ISCHR :: "u16 \<Rightarrow> bool" where "S_ISCHR m \<longleftrightarrow> m AND S_IFMT = 0x2000"
definition S_ISBLK :: "u16 \<Rightarrow> bool" where "S_ISBLK m \<longleftrightarrow> m AND S_IFMT = 0x6000"
definition S_ISFIFO :: "u16 \<Rightarrow> bool" where "S_ISFIFO m \<longleftrightarrow> m AND S_IFMT = 0x1000"
definition S_ISSOCK :: "u16 \<Rightarrow> bool" where "S_ISSOCK m \<longleftrightarrow> m AND S_IFMT = 0xC000"

definition N_ALIGN :: "u64 \<Rightarrow> u64" where
  "N_ALIGN len = ((len + 1) AND NOT 3) + 2"

text \<open>The string at a pointer; \<open>None\<close> when no terminator follows in the object.\<close>

definition c_str :: "u8 list \<Rightarrow> cstring option" where
  "c_str mem = (if 0 \<in> set mem then Some (takeWhile (\<lambda>b. b \<noteq> 0) mem) else None)"

record link_hash =
  lh_ino :: u32
  lh_minor :: u32
  lh_major :: u32
  lh_mode :: u16
  lh_name :: cstring

datatype fsm_state = Start | Collect | GotHeader | SkipIt | GotName | CopyFile | GotSymlink | Reset

datatype buf_id = HeaderBuf | SymlinkBuf | NameBuf

datatype char_ptr = InInput "u8 list" | InBuf buf_id

datatype ird_message =
    IncorrectCpio | NoCpioMagic | BrokenPadding | WriteError | JunkWithin | DecompressorFailed
  | NotConfigured | InvalidMagic | JunkAtEnd | DecompressorError

record ird =
  message :: "ird_message option"
  head :: "link_hash list list"
  dir_list :: "(cstring option \<times> u64) list"
  h_mtime :: u64
  h_ino :: u64
  h_major :: u64
  h_minor :: u64
  h_nlink :: u64
  h_mode :: u16
  body_len :: u64
  name_len :: u64
  h_uid :: u32
  h_gid :: u32
  h_rdev :: u32
  fstate :: fsm_state
  next_state :: fsm_state
  victim :: "u8 list"
  byte_count :: u64
  this_header :: u64
  next_header :: u64
  collected :: char_ptr
  remains :: u64
  collect :: "buf_id \<times> nat"
  header_buf :: "u8 list"
  symlink_buf :: "u8 list"
  name_buf :: "u8 list"
  wfile_pos :: u64
  my_inptr :: u64
  writes :: nat
  ird_log :: "fs_event list"

datatype act_result = Again ird | Stop ird | Crash

text \<open>The memory behind \<open>collected\<close>.\<close>

definition buf_of :: "ird \<Rightarrow> buf_id \<Rightarrow> u8 list" where
  "buf_of st b = (case b of HeaderBuf \<Rightarrow> header_buf st | SymlinkBuf \<Rightarrow> symlink_buf st | NameBuf \<Rightarrow> name_buf st)"

definition set_buf :: "buf_id \<Rightarrow> u8 list \<Rightarrow> ird \<Rightarrow> ird" where
  "set_buf b l st =
     (case b of HeaderBuf \<Rightarrow> st\<lparr>header_buf := l\<rparr> | SymlinkBuf \<Rightarrow> st\<lparr>symlink_buf := l\<rparr> | NameBuf \<Rightarrow> st\<lparr>name_buf := l\<rparr>)"

definition collected_mem :: "ird \<Rightarrow> u8 list" where
  "collected_mem st = (case collected st of InInput l \<Rightarrow> l | InBuf b \<Rightarrow> buf_of st b)"

definition log_event :: "fs_event \<Rightarrow> ird \<Rightarrow> ird" where
  "log_event e st = st\<lparr>ird_log := ird_log st @ [e]\<rparr>"

section \<open>Writing\<close>

text \<open>
  \<open>xwrite\<close> repeats interrupted writes, so it returns only if the file system makes progress.  The
  result is the sum of what was written or the error of the first write.
\<close>

partial_function (option) xwrite_loop ::
    "ird_hooks \<Rightarrow> u8 list \<Rightarrow> u64 \<Rightarrow> u64 \<Rightarrow> ird \<Rightarrow> ((errno + u64) \<times> ird) option" where
  "xwrite_loop hk p count out st =
     (if count = 0 then Some (Inr out, st)
      else
        let st1 = st\<lparr>writes := Suc (writes st)\<rparr>
        in case kernel_write hk (writes st) (take (unat count) p) (wfile_pos st) of
             Inl e \<Rightarrow>
               if e = EINTR \<or> e = EAGAIN then xwrite_loop hk p count out st1
               else Some (if out \<noteq> 0 then Inr out else Inl e, st1)
           | Inr rv \<Rightarrow>
               if rv = 0 then Some (Inr out, st1)
               else xwrite_loop hk (drop (unat rv) p) (count - rv) (out + rv)
                      (log_event (FsWrite (take (unat rv) p) (wfile_pos st)) (st1\<lparr>wfile_pos := wfile_pos st + rv\<rparr>)))"

definition xwrite :: "ird_hooks \<Rightarrow> u8 list \<Rightarrow> u64 \<Rightarrow> ird \<Rightarrow> ((errno + u64) \<times> ird) option" where
  "xwrite hk p count st = xwrite_loop hk p count 0 st"

definition error :: "ird_message \<Rightarrow> ird \<Rightarrow> ird" where
  "error x st = (if message st = None then st\<lparr>message := Some x\<rparr> else st)"

section \<open>Hard links and directory times\<close>

definition hash :: "u32 \<Rightarrow> u32 \<Rightarrow> u32 \<Rightarrow> nat" where
  "hash maj mnr i =
     (let tmp = (scast (i + mnr + push_bit 3 maj) :: u64);
          tmp = tmp + drop_bit 5 tmp
      in unat (tmp AND 0x1F))"

text \<open>The walk over a chain: the name of the entry, or the chain with the new entry at its end.\<close>

fun find_link_walk :: "u32 \<Rightarrow> u32 \<Rightarrow> u32 \<Rightarrow> u16 \<Rightarrow> cstring \<Rightarrow> link_hash list \<Rightarrow> cstring option \<times> link_hash list" where
  "find_link_walk maj mnr i m name [] =
     (None, [\<lparr>lh_ino = i, lh_minor = mnr, lh_major = maj, lh_mode = m, lh_name = name\<rparr>])"
| "find_link_walk maj mnr i m name (p # rest) =
     (if lh_ino p \<noteq> i \<or> lh_minor p \<noteq> mnr \<or> lh_major p \<noteq> maj \<or> (lh_mode p XOR m) AND S_IFMT \<noteq> 0
      then (case find_link_walk maj mnr i m name rest of (r, rest') \<Rightarrow> (r, p # rest'))
      else (Some (lh_name p), p # rest))"

text \<open>\<open>None\<close> when no memory is left or the name does not fit in the entry.\<close>

definition find_link ::
    "ird_hooks \<Rightarrow> u32 \<Rightarrow> u32 \<Rightarrow> u32 \<Rightarrow> u16 \<Rightarrow> cstring \<Rightarrow> ird \<Rightarrow> (cstring option \<times> ird) option" where
  "find_link hk maj mnr i m name st =
     (let h = hash maj mnr i
      in case find_link_walk maj mnr i m name (head st ! h) of
           (Some old, _) \<Rightarrow> Some (Some old, st)
         | (None, chain) \<Rightarrow>
             if \<not> kmalloc_ok hk \<or> unat (N_ALIGN PATH_MAX) < length name + 1 then None
             else Some (None, st\<lparr>head := (head st)[h := chain]\<rparr>))"

definition free_hash :: "ird \<Rightarrow> ird" where
  "free_hash st = st\<lparr>head := replicate 32 []\<rparr>"

definition do_utime :: "cstring \<Rightarrow> u64 \<Rightarrow> ird \<Rightarrow> ird" where
  "do_utime filename t st = log_event (FsUtime filename t) st"

text \<open>
  The entry of a directory is kept even when \<open>kstrdup\<close> has no memory for its name: the null pointer is not
  looked at before \<open>dir_utime\<close> hands it to \<open>init_utimes\<close>.
\<close>

definition dir_add :: "ird_hooks \<Rightarrow> cstring \<Rightarrow> u64 \<Rightarrow> ird \<Rightarrow> ird option" where
  "dir_add hk name t st =
     (if kmalloc_ok hk
      then Some (st\<lparr>dir_list := (if kstrdup_ok hk name then Some name else None, t) # dir_list st\<rparr>)
      else None)"

definition dir_utime :: "ird \<Rightarrow> ird" where
  "dir_utime st =
     fold (\<lambda>(name, t) s.
         (case name of Some f \<Rightarrow> do_utime f t | None \<Rightarrow> log_event (FsUtimeNull t)) (s\<lparr>dir_list := tl (dir_list s)\<rparr>))
       (dir_list st) st"

section \<open>The header\<close>

text \<open>A read of bytes of an object; \<open>None\<close> when it runs over the end.\<close>

definition get_bytes :: "u8 list \<Rightarrow> nat \<Rightarrow> nat \<Rightarrow> u8 list option" where
  "get_bytes mem off n = (if off + n \<le> length mem then Some (take n (drop off mem)) else None)"

text \<open>The loop of \<open>parse_header\<close>: fields of eight digits from an offset on.\<close>

fun parse_fields :: "ird_hooks \<Rightarrow> u8 list \<Rightarrow> nat \<Rightarrow> nat \<Rightarrow> u64 list option" where
  "parse_fields hk s off 0 = Some []"
| "parse_fields hk s off (Suc n) =
     (case get_bytes s off 8 of
        None \<Rightarrow> None
      | Some buf \<Rightarrow> map_option (\<lambda>l. simple_strtoul hk buf # l) (parse_fields hk s (off + 8) n))"

definition set_header :: "ird_hooks \<Rightarrow> u64 list \<Rightarrow> ird \<Rightarrow> ird" where
  "set_header hk parsed st =
     st\<lparr>h_ino := parsed ! 0, h_mode := ucast (parsed ! 1), h_uid := ucast (parsed ! 2),
        h_gid := ucast (parsed ! 3), h_nlink := parsed ! 4, h_mtime := parsed ! 5,
        body_len := parsed ! 6, h_major := parsed ! 7, h_minor := parsed ! 8,
        h_rdev := encode_dev hk (parsed ! 9) (parsed ! 10), name_len := parsed ! 11\<rparr>"

definition parse_header :: "ird_hooks \<Rightarrow> u8 list \<Rightarrow> ird \<Rightarrow> ird option" where
  "parse_header hk s st =
     (case parse_fields hk s 6 12 of None \<Rightarrow> None | Some parsed \<Rightarrow> Some (set_header hk parsed st))"

section \<open>Reading\<close>

definition eat :: "u32 \<Rightarrow> ird \<Rightarrow> ird" where
  "eat n st =
     st\<lparr>victim := drop (unat n) (victim st), this_header := this_header st + ucast n,
        byte_count := byte_count st - ucast n\<rparr>"

definition read_into :: "buf_id \<Rightarrow> u32 \<Rightarrow> fsm_state \<Rightarrow> ird \<Rightarrow> ird" where
  "read_into buf sz next st =
     (if ucast sz \<le> byte_count st
      then (eat sz (st\<lparr>collected := InInput (victim st)\<rparr>))\<lparr>fstate := next\<rparr>
      else st\<lparr>collect := (buf, 0), collected := InBuf buf, remains := ucast sz, next_state := next, fstate := Collect\<rparr>)"

definition do_start :: "ird \<Rightarrow> act_result" where
  "do_start st = Again (read_into HeaderBuf 0x6E GotHeader st)"

text \<open>\<open>memcpy\<close> into a buffer at an offset; \<open>None\<close> when it runs over the end.\<close>

definition put_bytes :: "u8 list \<Rightarrow> nat \<Rightarrow> u8 list \<Rightarrow> u8 list option" where
  "put_bytes buf off data =
     (if off + length data \<le> length buf then Some (take off buf @ data @ drop (off + length data) buf) else None)"

definition do_collect :: "ird \<Rightarrow> act_result" where
  "do_collect st =
     (let n = (if byte_count st < remains st then byte_count st else remains st);
          (b, off) = collect st
      in case get_bytes (victim st) 0 (unat n) of
           None \<Rightarrow> Crash
         | Some data \<Rightarrow>
      case put_bytes (buf_of st b) off data of
           None \<Rightarrow> Crash
         | Some mem \<Rightarrow>
             let st1 = (eat (ucast n) (set_buf b mem st))\<lparr>collect := (b, off + unat n), remains := remains st - n\<rparr>
             in if remains st1 \<noteq> 0 then Stop st1 else Again (st1\<lparr>fstate := next_state st1\<rparr>))"

definition do_header :: "ird_hooks \<Rightarrow> ird \<Rightarrow> act_result" where
  "do_header hk st =
     (let mem = collected_mem st
      in case get_bytes mem 0 6 of
        None \<Rightarrow> Crash
      | Some magic \<Rightarrow>
         if magic = [0x30, 0x37, 0x30, 0x37, 0x30, 0x37] then Stop (error IncorrectCpio st)
         else if magic \<noteq> [0x30, 0x37, 0x30, 0x37, 0x30, 0x31] then Stop (error NoCpioMagic st)
         else case parse_header hk mem st of
           None \<Rightarrow> Crash
         | Some st1 \<Rightarrow>
           let nh = this_header st1 + N_ALIGN (name_len st1) + body_len st1;
               st2 = st1\<lparr>next_header := (nh + 3) AND NOT 3, fstate := SkipIt\<rparr>
           in if name_len st2 = 0 \<or> PATH_MAX < name_len st2 then Again st2
              else if S_ISLNK (h_mode st2)
              then if PATH_MAX < body_len st2 then Again st2
                   else Again (st2\<lparr>collect := (SymlinkBuf, 0), collected := InBuf SymlinkBuf,
                                   remains := N_ALIGN (name_len st2) + body_len st2,
                                   next_state := GotSymlink, fstate := Collect\<rparr>)
              else if S_ISREG (h_mode st2) \<or> body_len st2 = 0
              then Again (read_into NameBuf (ucast (N_ALIGN (name_len st2))) GotName st2)
              else Again st2)"

definition do_skip :: "ird \<Rightarrow> act_result" where
  "do_skip st =
     (if this_header st + byte_count st < next_header st then Stop (eat (ucast (byte_count st)) st)
      else let st1 = eat (ucast (next_header st - this_header st)) st
           in Again (st1\<lparr>fstate := next_state st1\<rparr>))"

text \<open>The loop of \<open>do_reset\<close> over the zero bytes at the cursor; \<open>None\<close> when it reads past the input.\<close>

fun eat_zeros :: "u8 list \<Rightarrow> ird \<Rightarrow> ird option" where
  "eat_zeros [] st = (if byte_count st \<noteq> 0 then None else Some st)"
| "eat_zeros (b # rest) st = (if byte_count st \<noteq> 0 \<and> b = 0 then eat_zeros rest (eat 1 st) else Some st)"

definition do_reset :: "ird \<Rightarrow> act_result" where
  "do_reset st =
     (case eat_zeros (victim st) st of
        None \<Rightarrow> Crash
      | Some st1 \<Rightarrow>
          Stop (if byte_count st1 \<noteq> 0 \<and> this_header st1 AND 3 \<noteq> 0 then error BrokenPadding st1 else st1))"

section \<open>Creating the files\<close>

definition clean_path :: "ird_hooks \<Rightarrow> cstring \<Rightarrow> u16 \<Rightarrow> ird \<Rightarrow> ird" where
  "clean_path hk path fmode st =
     (case init_stat hk (ird_log st) path of
        None \<Rightarrow> st
      | Some m \<Rightarrow>
          if (m XOR fmode) AND S_IFMT \<noteq> 0
          then log_event (if S_ISDIR m then FsRmdir path else FsUnlink path) st
          else st)"

text \<open>The result of \<open>maybe_link\<close> is -1, 0 or 1.\<close>

definition maybe_link :: "ird_hooks \<Rightarrow> cstring \<Rightarrow> ird \<Rightarrow> (int \<times> ird) option" where
  "maybe_link hk path st =
     (if 2 \<le> h_nlink st
      then (case find_link hk (ucast (h_major st)) (ucast (h_minor st)) (ucast (h_ino st)) (h_mode st) path st of
              None \<Rightarrow> None
            | Some (None, st1) \<Rightarrow> Some (0, st1)
            | Some (Some old, st1) \<Rightarrow>
                let st2 = log_event (FsLink old path) (clean_path hk path 0 st1)
                in Some (if init_link hk (ird_log (clean_path hk path 0 st1)) old path = None then 1 else -1, st2))
      else Some (0, st))"

definition TRAILER :: cstring where
  "TRAILER = [0x54, 0x52, 0x41, 0x49, 0x4C, 0x45, 0x52, 0x21, 0x21, 0x21]"

definition open_file :: "ird_hooks \<Rightarrow> cstring \<Rightarrow> int \<Rightarrow> ird \<Rightarrow> ird" where
  "open_file hk path ml st =
     (let st1 = log_event (FsOpen path (ml \<noteq> 1) (h_mode st)) st
      in if \<not> filp_open hk (ird_log st) path (ml \<noteq> 1) (h_mode st) then st1
         else
           let st2 = log_event (FsFchmod (h_mode st)) (log_event (FsFchown (h_uid st) (h_gid st)) (st1\<lparr>wfile_pos := 0\<rparr>));
               st3 = (if body_len st \<noteq> 0 then log_event (FsTruncate (body_len st)) st2 else st2)
           in st3\<lparr>fstate := CopyFile\<rparr>)"

definition do_name :: "ird_hooks \<Rightarrow> ird \<Rightarrow> act_result" where
  "do_name hk st =
     (let st1 = st\<lparr>fstate := SkipIt, next_state := Reset\<rparr>
      in case c_str (collected_mem st) of
           None \<Rightarrow> Crash
         | Some path \<Rightarrow>
             if path = TRAILER then Again (free_hash st1)
             else
               let st2 = clean_path hk path (h_mode st) st1
               in if S_ISREG (h_mode st)
                  then (case maybe_link hk path st2 of
                          None \<Rightarrow> Crash
                        | Some (ml, st3) \<Rightarrow> Again (if 0 \<le> ml then open_file hk path ml st3 else st3))
                  else if S_ISDIR (h_mode st)
                  then (case dir_add hk path (h_mtime st)
                               (log_event (FsChmod path (h_mode st)) (log_event (FsChown path (h_uid st) (h_gid st) True)
                                  (log_event (FsMkdir path (h_mode st)) st2))) of
                          None \<Rightarrow> Crash
                        | Some st3 \<Rightarrow> Again st3)
                  else if S_ISBLK (h_mode st) \<or> S_ISCHR (h_mode st) \<or> S_ISFIFO (h_mode st) \<or> S_ISSOCK (h_mode st)
                  then (case maybe_link hk path st2 of
                          None \<Rightarrow> Crash
                        | Some (ml, st3) \<Rightarrow>
                            Again (if ml = 0
                                   then do_utime path (h_mtime st)
                                          (log_event (FsChmod path (h_mode st)) (log_event (FsChown path (h_uid st) (h_gid st) True)
                                             (log_event (FsMknod path (h_mode st) (h_rdev st)) st3)))
                                   else st3))
                  else Again st2)"

text \<open>The bytes that are written have to be there: \<open>kernel_write\<close> reads all of them.\<close>

definition do_copy :: "ird_hooks \<Rightarrow> ird \<Rightarrow> act_result option" where
  "do_copy hk st =
     (if body_len st \<le> byte_count st
      then if get_bytes (victim st) 0 (unat (body_len st)) = None then Some Crash
           else (case xwrite hk (victim st) (body_len st) st of
              None \<Rightarrow> None
            | Some (r, st1) \<Rightarrow>
                let st2 = (if r \<noteq> Inr (body_len st) then error WriteError st1 else st1);
                    st3 = log_event FsFput (log_event (FsUtimes (h_mtime st)) st2)
                in Some (Again ((eat (ucast (body_len st)) st3)\<lparr>fstate := SkipIt\<rparr>)))
      else if get_bytes (victim st) 0 (unat (byte_count st)) = None then Some Crash
           else (case xwrite hk (victim st) (byte_count st) st of
              None \<Rightarrow> None
            | Some (r, st1) \<Rightarrow>
                let st2 = (if r \<noteq> Inr (byte_count st) then error WriteError st1 else st1)
                in Some (Stop (eat (ucast (byte_count st)) (st2\<lparr>body_len := body_len st - byte_count st\<rparr>)))))"

text \<open>\<open>collected\<close> points to the buffer; the terminator is written into it first.\<close>

definition do_symlink :: "ird_hooks \<Rightarrow> ird \<Rightarrow> act_result" where
  "do_symlink hk st =
     (let mem = collected_mem st; i = unat (N_ALIGN (name_len st) + body_len st)
      in if length mem \<le> i then Crash
         else
           let mem1 = mem[i := 0];
               st1 = (case collected st of InInput _ \<Rightarrow> st\<lparr>collected := InInput mem1\<rparr> | InBuf b \<Rightarrow> set_buf b mem1 st)
           in case (c_str mem1, c_str (drop (unat (N_ALIGN (name_len st))) mem1)) of
                (Some path, Some target) \<Rightarrow>
                  Again ((do_utime path (h_mtime st)
                            (log_event (FsChown path (h_uid st) (h_gid st) False)
                              (log_event (FsSymlink target path) (clean_path hk path 0 st1))))
                         \<lparr>fstate := SkipIt, next_state := Reset\<rparr>)
              | _ \<Rightarrow> Crash)"

section \<open>The machine\<close>

definition actions :: "ird_hooks \<Rightarrow> ird \<Rightarrow> act_result option" where
  "actions hk st =
     (case fstate st of
        Start \<Rightarrow> Some (do_start st)
      | Collect \<Rightarrow> Some (do_collect st)
      | GotHeader \<Rightarrow> Some (do_header hk st)
      | SkipIt \<Rightarrow> Some (do_skip st)
      | GotName \<Rightarrow> Some (do_name hk st)
      | CopyFile \<Rightarrow> do_copy hk st
      | GotSymlink \<Rightarrow> Some (do_symlink hk st)
      | Reset \<Rightarrow> Some (do_reset st))"

partial_function (option) write_loop :: "ird_hooks \<Rightarrow> ird \<Rightarrow> ird option option" where
  "write_loop hk st =
     (case actions hk st of
        None \<Rightarrow> None
      | Some Crash \<Rightarrow> Some None
      | Some (Stop st1) \<Rightarrow> Some (Some st1)
      | Some (Again st1) \<Rightarrow> write_loop hk st1)"

text \<open>
  The outer option says whether the function returns, the inner one is \<open>None\<close> after a crash.
\<close>

definition write_buffer :: "ird_hooks \<Rightarrow> u8 list \<Rightarrow> u64 \<Rightarrow> ird \<Rightarrow> (u64 \<times> ird) option option" where
  "write_buffer hk buf len st =
     (case write_loop hk (st\<lparr>byte_count := len, victim := buf\<rparr>) of
        None \<Rightarrow> None
      | Some None \<Rightarrow> Some None
      | Some (Some st1) \<Rightarrow> Some (Some (len - byte_count st1, st1)))"

partial_function (option) flush_loop :: "ird_hooks \<Rightarrow> u8 list \<Rightarrow> u64 \<Rightarrow> ird \<Rightarrow> ird option option" where
  "flush_loop hk buf len st =
     (case write_buffer hk buf len st of
        None \<Rightarrow> None
      | Some None \<Rightarrow> Some None
      | Some (Some (written, st1)) \<Rightarrow>
          if written < len \<and> message st1 = None
          then let c = buf ! unat written
               in if c = 0x30 then flush_loop hk (drop (unat written) buf) (len - written) (st1\<lparr>fstate := Start\<rparr>)
                  else if c = 0 then flush_loop hk (drop (unat written) buf) (len - written) (st1\<lparr>fstate := Reset\<rparr>)
                  else flush_loop hk buf len (error JunkWithin st1)
          else Some (Some st1))"

definition flush_buffer :: "ird_hooks \<Rightarrow> u8 list \<Rightarrow> ird \<Rightarrow> ird option option" where
  "flush_buffer hk buf st =
     (if message st \<noteq> None then Some (Some st) else flush_loop hk buf (of_nat (length buf)) st)"

fun flush_all :: "ird_hooks \<Rightarrow> u8 list list \<Rightarrow> ird \<Rightarrow> ird option option" where
  "flush_all hk [] st = Some (Some st)"
| "flush_all hk (c # cs) st =
     (case flush_buffer hk c st of
        None \<Rightarrow> None | Some None \<Rightarrow> Some None | Some (Some st1) \<Rightarrow> flush_all hk cs st1)"

text \<open>One compressed archive: everything the decompressor does.\<close>

definition unpack_compressed :: "ird_hooks \<Rightarrow> u8 list \<Rightarrow> ird \<Rightarrow> ird option option" where
  "unpack_compressed hk buf st =
     (case decompress_method hk buf of
        (Some d, _) \<Rightarrow>
          (case flush_all hk (dc_chunks d) st of
             None \<Rightarrow> None
           | Some None \<Rightarrow> Some None
           | Some (Some st1) \<Rightarrow>
               let st2 = (if dc_error d then error DecompressorError st1 else st1);
                   st3 = (if dc_res d then error DecompressorFailed st2 else st2)
               in Some (Some (st3\<lparr>my_inptr := dc_inptr d\<rparr>)))
      | (None, True) \<Rightarrow> Some (Some (if message st = None then st\<lparr>message := Some NotConfigured\<rparr> else st))
      | (None, False) \<Rightarrow> Some (Some (error InvalidMagic st)))"

partial_function (option) unpack_loop :: "ird_hooks \<Rightarrow> u8 list \<Rightarrow> u64 \<Rightarrow> ird \<Rightarrow> ird option option" where
  "unpack_loop hk buf len st =
     (if message st \<noteq> None \<or> len = 0 then Some (Some st)
      else if hd buf = 0x30 \<and> this_header st AND 3 = 0
      then (case write_buffer hk buf len (st\<lparr>fstate := Start\<rparr>) of
              None \<Rightarrow> None
            | Some None \<Rightarrow> Some None
            | Some (Some (written, st1)) \<Rightarrow> unpack_loop hk (drop (unat written) buf) (len - written) st1)
      else if hd buf = 0
      then unpack_loop hk (tl buf) (len - 1) (st\<lparr>this_header := this_header st + 1\<rparr>)
      else
        (case unpack_compressed hk buf (st\<lparr>this_header := 0\<rparr>) of
           None \<Rightarrow> None
         | Some None \<Rightarrow> Some None
         | Some (Some st1) \<Rightarrow>
             let st2 = (if fstate st1 \<noteq> Reset then error JunkAtEnd st1 else st1);
                 st3 = st2\<lparr>this_header := this_header st + my_inptr st2\<rparr>
             in unpack_loop hk (drop (unat (my_inptr st3)) buf) (len - my_inptr st3) st3))"

definition unpack_to_rootfs :: "ird_hooks \<Rightarrow> u8 list \<Rightarrow> u64 \<Rightarrow> ird \<Rightarrow> (ird_message option \<times> ird) option option" where
  "unpack_to_rootfs hk buf len st =
     (if \<not> kmalloc_ok hk then Some None
      else
        let st1 = st\<lparr>header_buf := kmalloc_bytes hk 0x6E,
                     symlink_buf := kmalloc_bytes hk (unat (PATH_MAX + N_ALIGN PATH_MAX + 1)),
                     name_buf := kmalloc_bytes hk (unat (N_ALIGN PATH_MAX)),
                     fstate := Start, this_header := 0, message := None\<rparr>
        in case unpack_loop hk buf len st1 of
             None \<Rightarrow> None
           | Some None \<Rightarrow> Some None
           | Some (Some st2) \<Rightarrow> let st3 = dir_utime st2 in Some (Some (message st3, st3)))"

end
