(* ===== verification/Initramfs_Inv.thy ===== *)
theory Initramfs_Inv
  imports Initramfs_Fsm "HOL-Library.Sublist"
begin

text \<open>
  The invariant of the unpacker's state machine: the bytes that are left, where the collected bytes go
  and how the positions of headers relate.  Every action keeps it and makes progress, so a call of
  \<open>write_buffer\<close> returns; and no action takes back a file operation or an error.
\<close>

section \<open>Alignment\<close>

lemma unat_align4: "unat (w AND - 4 :: u64) = unat w - unat w mod 4"
proof -
  have e: "- 4 = (NOT (mask 2) :: u64)" by (simp add: mask_eq_exp_minus_1)
  let ?h = "w AND NOT (mask 2)"
  have "w = ?h OR (w AND mask 2)" by (simp flip: bit.conj_disj_distrib)
  also have "\<dots> = ?h + (w AND mask 2)"
    by (rule disjunctive_add [symmetric]) (auto simp: bit_and_iff bit_not_iff)
  finally have d: "w - ?h = w AND mask 2" by (metis add_diff_cancel_left')
  have le: "?h \<le> w" by (rule word_and_le2)
  then have "unat w - unat ?h = unat (w AND mask 2)" by (simp add: unat_sub flip: d)
  also have "\<dots> = unat w mod 4" by (simp add: take_bit_eq_mod unat_mod_distrib flip: take_bit_eq_mask)
  finally show ?thesis using le unfolding e by (simp add: word_le_nat_alt)
qed

lemma N_ALIGN_unat:
  assumes "unat len < 2 ^ 32"
  shows "unat (N_ALIGN len) = (unat len + 1) - (unat len + 1) mod 4 + 2"
proof -
  have "unat (len + 1) = unat len + 1" using assms by (simp add: unat_word_ariths)
  then have "unat ((len + 1) AND NOT 3) = (unat len + 1) - (unat len + 1) mod 4" by (simp add: unat_align4)
  then show ?thesis using assms by (simp add: N_ALIGN_def unat_word_ariths)
qed

lemma N_ALIGN_bounds:
  assumes "unat len < 2 ^ 32"
  shows "2 \<le> unat (N_ALIGN len)" "unat (N_ALIGN len) \<le> unat len + 3"
  using N_ALIGN_unat [OF assms] by simp_all

lemma N_ALIGN_path: "len \<le> PATH_MAX \<Longrightarrow> unat (N_ALIGN len) \<le> 4098"
proof -
  assume "len \<le> PATH_MAX"
  then have l: "unat len \<le> 4096" by (simp add: PATH_MAX_def word_le_nat_alt)
  then have "unat (N_ALIGN len) = (unat len + 1) - (unat len + 1) mod 4 + 2" by (intro N_ALIGN_unat) simp
  also have "\<dots> \<le> 4098"
  proof (cases "unat len = 4096")
    case False
    then show ?thesis using l by simp
  qed simp
  finally show ?thesis .
qed

lemma align_up:
  assumes "unat (nh :: u64) < 2 ^ 63"
  shows "unat nh \<le> unat ((nh + 3) AND NOT 3)"
proof -
  have "unat (nh + 3) = unat nh + 3" using assms by (simp add: unat_word_ariths)
  then show ?thesis by (simp add: unat_align4)
qed

lemma unat_small:
  "k < 2 ^ 32 \<Longrightarrow> unat (of_nat k :: u64) = k" "k < 2 ^ 32 \<Longrightarrow> unat (of_nat k :: u32) = k"
  by (simp_all add: unsigned_of_nat take_bit_nat_eq_self)

lemma ucast_small: "unat (w :: u64) < 2 ^ 32 \<Longrightarrow> unat (ucast w :: u32) = unat w"
  by (simp add: unsigned_ucast_eq take_bit_nat_eq_self)

lemma ucast_up: "unat (ucast (n :: u32) :: u64) = unat n"
  by (simp add: unsigned_ucast_eq take_bit_nat_eq_self less_trans [OF unsigned_less [of n]])

lemma ucast_of_nat32: "k < 2 ^ 32 \<Longrightarrow> (ucast (of_nat k :: u64) :: u32) = of_nat k"
  by (rule word_unat_eq_iff [THEN iffD2]) (simp add: ucast_small unat_small)

section \<open>What the actions rely on\<close>

text \<open>
  Eight hex digits give less than \<open>2 ^ 32\<close>.  A write is not interrupted forever and reports no more
  than it was given.
\<close>

definition strtoul_ok :: "ird_hooks \<Rightarrow> bool" where
  "strtoul_ok hk \<longleftrightarrow> (\<forall>s. length s \<le> 8 \<longrightarrow> unat (simple_strtoul hk s) < 2 ^ 32)"

definition interrupted :: "errno + u64 \<Rightarrow> bool" where
  "interrupted r \<longleftrightarrow> r = Inl EINTR \<or> r = Inl EAGAIN"

definition write_ok :: "ird_hooks \<Rightarrow> bool" where
  "write_ok hk \<longleftrightarrow>
     (\<forall>n. \<exists>k. \<forall>data pos. \<not> interrupted (kernel_write hk (n + k) data pos)) \<and>
     (\<forall>n data pos rv. kernel_write hk n data pos = Inr rv \<longrightarrow> unat rv \<le> length data)"

definition kmalloc_size_ok :: "ird_hooks \<Rightarrow> bool" where
  "kmalloc_size_ok hk \<longleftrightarrow> (\<forall>n. length (kmalloc_bytes hk n) = n)"

definition bufs_ok :: "ird \<Rightarrow> bool" where
  "bufs_ok st \<longleftrightarrow> length (header_buf st) = 110 \<and> length (symlink_buf st) = 8195 \<and> length (name_buf st) = 4098"

text \<open>The rest of the input, and positions that do not wrap.\<close>

definition input_ok :: "ird \<Rightarrow> bool" where
  "input_ok st \<longleftrightarrow> length (victim st) < 2 ^ 32 \<and> byte_count st = of_nat (length (victim st)) \<and>
     unat (this_header st) + length (victim st) < 2 ^ 62"

abbreviation idle_next :: "ird \<Rightarrow> bool" where
  "idle_next st \<equiv> next_state st \<in> {Start, GotHeader, Reset}"

definition collect_ok :: "ird \<Rightarrow> bool" where
  "collect_ok st \<longleftrightarrow> (case collect st of (b, off) \<Rightarrow>
     0 < unat (remains st) \<and> unat (remains st) < 2 ^ 32 \<and> collected st = InBuf b \<and>
     (case b of
        HeaderBuf \<Rightarrow> next_state st = GotHeader \<and> off + unat (remains st) = 110
      | NameBuf \<Rightarrow> next_state st = GotName \<and> off + unat (remains st) \<le> 4098 \<and>
          unat (this_header st) + unat (remains st) + unat (body_len st) \<le> unat (next_header st)
      | SymlinkBuf \<Rightarrow> next_state st = GotSymlink \<and>
          off + unat (remains st) = unat (N_ALIGN (name_len st)) + unat (body_len st) \<and>
          unat (N_ALIGN (name_len st)) + unat (body_len st) \<le> 8194 \<and>
          unat (this_header st) + unat (remains st) \<le> unat (next_header st)))"

definition state_ok :: "ird \<Rightarrow> bool" where
  "state_ok st \<longleftrightarrow>
     (case fstate st of
        Start \<Rightarrow> idle_next st
      | GotHeader \<Rightarrow> idle_next st \<and> 110 \<le> length (collected_mem st)
      | SkipIt \<Rightarrow> idle_next st \<and> this_header st \<le> next_header st \<and>
          (next_state st \<noteq> Reset \<longrightarrow> this_header st < next_header st) \<and>
          (next_state st = GotHeader \<longrightarrow> 110 \<le> length (collected_mem st))
      | Collect \<Rightarrow> collect_ok st
      | GotName \<Rightarrow> unat (this_header st) + unat (body_len st) \<le> unat (next_header st)
      | CopyFile \<Rightarrow> next_state st = Reset \<and> unat (this_header st) + unat (body_len st) \<le> unat (next_header st)
      | GotSymlink \<Rightarrow> collected st = InBuf SymlinkBuf \<and>
          unat (N_ALIGN (name_len st)) + unat (body_len st) \<le> 8194 \<and> this_header st \<le> next_header st
      | Reset \<Rightarrow> next_state st = Reset)"

definition ird_ok :: "ird \<Rightarrow> bool" where
  "ird_ok st \<longleftrightarrow> bufs_ok st \<and> input_ok st \<and> unat (body_len st) < 2 ^ 32 \<and> unat (name_len st) < 2 ^ 32 \<and> state_ok st"

fun rank :: "fsm_state \<Rightarrow> nat" where
  "rank GotHeader = 7"
| "rank Start = 6"
| "rank GotName = 5"
| "rank GotSymlink = 4"
| "rank CopyFile = 3"
| "rank SkipIt = 2"
| "rank Collect = 1"
| "rank Reset = 0"

definition work :: "ird \<Rightarrow> nat" where
  "work st = 8 * length (victim st) + rank (fstate st)"

section \<open>Consuming input\<close>

text \<open>The part of the state that reading and file operations leave alone.\<close>

lemma eat_ok:
  assumes "input_ok st" and "unat n \<le> length (victim st)"
  shows "input_ok (eat n st)" "victim (eat n st) = drop (unat n) (victim st)"
    "unat (this_header (eat n st)) = unat (this_header st) + unat n"
proof -
  have l: "length (victim st) < 2 ^ 32" "byte_count st = of_nat (length (victim st))"
    "unat (this_header st) + length (victim st) < 2 ^ 62" using assms(1) by (simp_all add: input_ok_def)
  have n: "unat (ucast n :: u64) = unat n" by (rule ucast_up)
  show th: "unat (this_header (eat n st)) = unat (this_header st) + unat n"
    using l(3) assms(2) n by (simp add: eat_def unat_word_ariths)
  show v: "victim (eat n st) = drop (unat n) (victim st)" by (simp add: eat_def)
  have "byte_count (eat n st) = of_nat (length (victim st) - unat n)"
    using l(2) assms(2) by (simp add: eat_def of_nat_diff)
  then show "input_ok (eat n st)" using l th v assms(2) by (simp add: input_ok_def)
qed

lemma eat_frame [simp]:
  "fstate (eat n st) = fstate st" "next_state (eat n st) = next_state st" "next_header (eat n st) = next_header st"
  "collected (eat n st) = collected st" "collect (eat n st) = collect st" "remains (eat n st) = remains st"
  "body_len (eat n st) = body_len st" "name_len (eat n st) = name_len st" "header_buf (eat n st) = header_buf st"
  "symlink_buf (eat n st) = symlink_buf st" "name_buf (eat n st) = name_buf st" "message (eat n st) = message st"
  "ird_log (eat n st) = ird_log st" "h_mode (eat n st) = h_mode st" "head (eat n st) = head st"
  by (simp_all add: eat_def)

lemma byte_count_le:
  assumes "input_ok st"
  shows "(ucast (n :: u32) \<le> byte_count st) = (unat n \<le> length (victim st))" "unat (byte_count st) = length (victim st)"
proof -
  have l: "length (victim st) < 2 ^ 32" "byte_count st = of_nat (length (victim st))"
    using assms by (simp_all add: input_ok_def)
  show u: "unat (byte_count st) = length (victim st)" using l by (simp add: unat_small)
  have "unat (ucast n :: u64) = unat n" by (rule ucast_up)
  then show "(ucast n \<le> byte_count st) = (unat n \<le> length (victim st))" by (simp add: word_le_nat_alt u)
qed

text \<open>What \<open>collected\<close> points to depends on it and on the buffers only.\<close>

lemma collected_mem_cong:
  "collected s' = collected s \<Longrightarrow> header_buf s' = header_buf s \<Longrightarrow> symlink_buf s' = symlink_buf s \<Longrightarrow> name_buf s' = name_buf s \<Longrightarrow>
   collected_mem s' = collected_mem s"
  by (simp add: collected_mem_def buf_of_def cong: char_ptr.case_cong buf_id.case_cong)

lemma collected_mem_eat [simp]: "collected_mem (eat n st) = collected_mem st"
  by (rule collected_mem_cong) simp_all

lemma collected_mem_upd [simp]:
  "collected_mem (st\<lparr>fstate := x\<rparr>) = collected_mem st"
  by (rule collected_mem_cong) simp_all

lemma get_bytes_some [simp]: "off + n \<le> length mem \<Longrightarrow> get_bytes mem off n = Some (take n (drop off mem))"
  by (simp add: get_bytes_def)

text \<open>What one action has to achieve.\<close>

definition good_step :: "ird \<Rightarrow> act_result \<Rightarrow> bool" where
  "good_step st r \<longleftrightarrow>
     (case r of
        Again st' \<Rightarrow> ird_ok st' \<and> work st' < work st
      | Stop st' \<Rightarrow> ird_ok st' \<and> length (victim st') \<le> length (victim st) \<and>
          (victim st' = [] \<or> message st' \<noteq> None \<or> fstate st' = Reset)
      | Crash \<Rightarrow> fstate st = GotName)"

lemma do_start_good:
  assumes ok: "ird_ok st" and st: "fstate st = Start"
  shows "good_step st (do_start st)"
proof (cases "110 \<le> length (victim st)")
  case True
  define s1 where "s1 = st\<lparr>collected := InInput (victim st)\<rparr>"
  have i1: "input_ok s1" "victim s1 = victim st" using ok by (simp_all add: ird_ok_def input_ok_def s1_def)
  have u: "unat (0x6E :: u32) = 110" by simp
  have mem: "collected_mem s1 = victim st" by (simp add: s1_def collected_mem_def)
  have e: "input_ok (eat 0x6E s1)" "victim (eat 0x6E s1) = drop 110 (victim st)"
    using eat_ok(1,2) [OF i1(1), of "0x6E"] True i1(2) u by auto
  have "ucast (0x6E :: u32) \<le> byte_count st"
    using True byte_count_le(1) [of st "0x6E"] ok u unfolding ird_ok_def by metis
  then have "do_start st = Again ((eat 0x6E s1)\<lparr>fstate := GotHeader\<rparr>)"
    by (simp add: do_start_def read_into_def s1_def)
  then show ?thesis using e ok st True mem
    by (simp add: good_step_def ird_ok_def bufs_ok_def state_ok_def work_def input_ok_def s1_def)
next
  case False
  have u: "unat (0x6E :: u32) = 110" by simp
  have "\<not> ucast (0x6E :: u32) \<le> byte_count st"
    using False byte_count_le(1) [of st "0x6E"] ok u unfolding ird_ok_def by metis
  then show ?thesis using ok st
    by (simp add: do_start_def read_into_def good_step_def ird_ok_def bufs_ok_def state_ok_def work_def input_ok_def
        collect_ok_def)
qed

lemma put_bytes_length: "put_bytes buf off data = Some buf' \<Longrightarrow> length buf' = length buf"
  by (auto simp: put_bytes_def split: if_splits)

lemma set_buf_frame [simp]:
  "fstate (set_buf b l st) = fstate st" "next_state (set_buf b l st) = next_state st"
  "next_header (set_buf b l st) = next_header st" "this_header (set_buf b l st) = this_header st"
  "collected (set_buf b l st) = collected st" "collect (set_buf b l st) = collect st"
  "remains (set_buf b l st) = remains st" "body_len (set_buf b l st) = body_len st"
  "name_len (set_buf b l st) = name_len st" "victim (set_buf b l st) = victim st"
  "byte_count (set_buf b l st) = byte_count st" "message (set_buf b l st) = message st"
  "ird_log (set_buf b l st) = ird_log st" "h_mode (set_buf b l st) = h_mode st"
  by (simp_all add: set_buf_def split: buf_id.split)

lemma set_buf_ok: "bufs_ok st \<Longrightarrow> length l = length (buf_of st b) \<Longrightarrow> bufs_ok (set_buf b l st)"
  by (simp add: bufs_ok_def set_buf_def buf_of_def split: buf_id.splits)

lemma buf_of_length:
  "bufs_ok st \<Longrightarrow> length (buf_of st b) = (case b of HeaderBuf \<Rightarrow> 110 | SymlinkBuf \<Rightarrow> 8195 | NameBuf \<Rightarrow> 4098)"
  by (simp add: bufs_ok_def buf_of_def split: buf_id.split)

lemma input_ok_cong:
  "victim s' = victim s \<Longrightarrow> byte_count s' = byte_count s \<Longrightarrow> this_header s' = this_header s \<Longrightarrow> input_ok s' = input_ok s"
  by (simp add: input_ok_def)

text \<open>Collecting stays within the buffer.\<close>

lemma do_collect_steps:
  assumes ok: "ird_ok st" and st: "fstate st = Collect" and c: "collect st = (b, off)"
  defines "n \<equiv> min (length (victim st)) (unat (remains st))"
  obtains mem st1 where
    "put_bytes (buf_of st b) off (take n (victim st)) = Some mem"
    "st1 = (eat (of_nat n) (set_buf b mem st))\<lparr>collect := (b, off + n), remains := remains st - of_nat n\<rparr>"
    "do_collect st = (if n < unat (remains st) then Stop st1 else Again (st1\<lparr>fstate := next_state st\<rparr>))"
    "input_ok st1" "bufs_ok st1" "victim st1 = drop n (victim st)"
    "unat (this_header st1) = unat (this_header st) + n" "unat (remains st1) = unat (remains st) - n"
proof -
  have i: "input_ok st" "bufs_ok st" and co: "collect_ok st" using ok st by (simp_all add: ird_ok_def state_ok_def)
  have r: "unat (remains st) < 2 ^ 32" and cap: "off + unat (remains st) \<le> length (buf_of st b)"
    using co c i(2) by (auto simp: collect_ok_def buf_of_length split: buf_id.splits)
  define nw :: u64 where "nw = (if byte_count st < remains st then byte_count st else remains st)"
  have nw: "unat nw = n" using byte_count_le(2) [OF i(1)] by (auto simp: nw_def n_def word_less_nat_alt)
  have nle: "n < 2 ^ 32" using r by (simp add: n_def)
  have nw': "nw = of_nat n" using nw by auto
  have u32: "(ucast nw :: u32) = of_nat n" "unat (of_nat n :: u32) = n"
    using nle by (simp_all only: nw' ucast_of_nat32 unat_small)
  have "off + length (take n (victim st)) \<le> length (buf_of st b)" using cap by (simp add: n_def)
  then obtain mem where m: "put_bytes (buf_of st b) off (take n (victim st)) = Some mem" by (simp add: put_bytes_def)
  define s0 where "s0 = set_buf b mem st"
  define st1 where "st1 = (eat (of_nat n) s0)\<lparr>collect := (b, off + n), remains := remains st - of_nat n\<rparr>"
  have i0: "input_ok s0" "victim s0 = victim st" "this_header s0 = this_header st"
    using i(1) by (simp_all add: s0_def input_ok_def)
  have le: "unat (of_nat n :: u32) \<le> length (victim s0)" using u32 i0 by (simp add: n_def)
  note e = eat_ok [OF i0(1) le]
  have rem: "unat (remains st - of_nat n) = unat (remains st) - n"
  proof -
    have "unat (of_nat n :: u64) = n" using nw nw' by simp
    moreover have "(of_nat n :: u64) \<le> remains st" using calculation by (simp add: word_le_nat_alt n_def)
    ultimately show ?thesis by (simp add: unat_sub)
  qed
  have rz: "(remains st - of_nat n \<noteq> 0) = (n < unat (remains st))"
  proof -
    have "n \<le> unat (remains st)" by (simp add: n_def)
    then show ?thesis using rem by (metis diff_is_0_eq' le_neq_implies_less less_irrefl unat_eq_zero zero_less_diff)
  qed
  show ?thesis
  proof (rule that [of mem st1])
    show "put_bytes (buf_of st b) off (take n (victim st)) = Some mem" by (rule m)
    show "st1 = (eat (of_nat n) (set_buf b mem st))\<lparr>collect := (b, off + n), remains := remains st - of_nat n\<rparr>"
      by (simp add: st1_def s0_def)
    have "do_collect st = (let s1 = (eat (ucast nw) (set_buf b mem st))\<lparr>collect := (b, off + unat nw), remains := remains st - nw\<rparr>
        in if remains s1 \<noteq> 0 then Stop s1 else Again (s1\<lparr>fstate := next_state s1\<rparr>))"
      unfolding do_collect_def nw_def [symmetric] c using m by (simp add: nw n_def)
    also have "\<dots> = (if n < unat (remains st) then Stop st1 else Again (st1\<lparr>fstate := next_state st\<rparr>))"
      unfolding u32(1) nw' using rz by (auto simp: Let_def st1_def s0_def unat_small(1) [OF nle] ucast_of_nat32 [OF nle])
    finally show "do_collect st = (if n < unat (remains st) then Stop st1 else Again (st1\<lparr>fstate := next_state st\<rparr>))" .
    show "input_ok st1" using e(1) by (simp add: input_ok_def st1_def)
    show "bufs_ok st1" using set_buf_ok [OF i(2), of mem b] put_bytes_length [OF m]
      by (simp add: bufs_ok_def st1_def s0_def)
    show "victim st1 = drop n (victim st)" using e(2) u32 i0 by (simp add: st1_def)
    show "unat (this_header st1) = unat (this_header st) + n" using e(3) u32 i0 by (simp add: st1_def)
    show "unat (remains st1) = unat (remains st) - n" using rem by (simp add: st1_def)
  qed
qed

lemma do_collect_good:
  assumes ok: "ird_ok st" and st: "fstate st = Collect"
  shows "good_step st (do_collect st)"
proof -
  obtain b off where c: "collect st = (b, off)" by force
  define n where "n = min (length (victim st)) (unat (remains st))"
  obtain mem st1 where
    st1: "st1 = (eat (of_nat n) (set_buf b mem st))\<lparr>collect := (b, off + n), remains := remains st - of_nat n\<rparr>" and
    run: "do_collect st = (if n < unat (remains st) then Stop st1 else Again (st1\<lparr>fstate := next_state st\<rparr>))" and
    i: "input_ok st1" "bufs_ok st1" "victim st1 = drop n (victim st)"
      "unat (this_header st1) = unat (this_header st) + n" "unat (remains st1) = unat (remains st) - n"
    unfolding n_def using do_collect_steps [OF ok st c] .
  have f: "fstate st1 = Collect" "next_state st1 = next_state st" "collected st1 = collected st" "collect st1 = (b, off + n)"
    "body_len st1 = body_len st" "name_len st1 = name_len st" "next_header st1 = next_header st"
    using st by (simp_all add: st1)
  have co: "collect_ok st" and bl: "unat (body_len st) < 2 ^ 32" "unat (name_len st) < 2 ^ 32"
    using ok st by (simp_all add: ird_ok_def state_ok_def)
  show ?thesis
  proof (cases "n < unat (remains st)")
    case True
    have "collect_ok st1" using co c True i(4,5) f by (auto simp: collect_ok_def split: buf_id.splits)
    moreover have "victim st1 = []" using True i(3) by (simp add: n_def)
    ultimately show ?thesis using run True i f bl by (simp add: good_step_def ird_ok_def state_ok_def)
  next
    case False
    then have n: "n = unat (remains st)" "0 < n" "n \<le> length (victim st)"
      using co c by (auto simp: n_def collect_ok_def)
    have hdr: "110 \<le> length (collected_mem st1)" if "b = HeaderBuf"
      using co c that f(3) i(2) by (simp add: collect_ok_def collected_mem_def buf_of_def bufs_ok_def)
    have "state_ok (st1\<lparr>fstate := next_state st\<rparr>)"
      using co c i(4) f n hdr by (auto simp: state_ok_def collect_ok_def word_le_nat_alt split: buf_id.splits)
    moreover have "input_ok (st1\<lparr>fstate := next_state st\<rparr>)" "bufs_ok (st1\<lparr>fstate := next_state st\<rparr>)"
      using i by (simp_all add: input_ok_def bufs_ok_def)
    moreover have "work (st1\<lparr>fstate := next_state st\<rparr>) < work st"
    proof -
      have "rank x \<le> 7" for x by (cases x) simp_all
      then have "rank (next_state st) \<le> 7" .
      then show ?thesis using n i(3) st by (simp add: work_def)
    qed
    ultimately show ?thesis using run False f bl by (simp add: good_step_def ird_ok_def)
  qed
qed

lemma do_skip_good:
  assumes ok: "ird_ok st" and st: "fstate st = SkipIt"
  shows "good_step st (do_skip st)"
proof -
  have i: "input_ok st" and so: "idle_next st" "this_header st \<le> next_header st"
    "next_state st \<noteq> Reset \<Longrightarrow> this_header st < next_header st"
    and mem: "next_state st = GotHeader \<Longrightarrow> 110 \<le> length (collected_mem st)"
    using ok st by (auto simp: ird_ok_def state_ok_def)
  have bc: "unat (byte_count st) = length (victim st)" "length (victim st) < 2 ^ 32"
    using byte_count_le(2) [OF i] i by (simp_all add: input_ok_def)
  have sum: "unat (this_header st + byte_count st) = unat (this_header st) + length (victim st)"
    using i bc by (simp add: input_ok_def unat_word_ariths)
  show ?thesis
  proof (cases "this_header st + byte_count st < next_header st")
    case True
    have u: "unat (ucast (byte_count st) :: u32) = length (victim st)" using bc by (simp add: ucast_small)
    note e = eat_ok [OF i, of "ucast (byte_count st)"]
    have e': "input_ok (eat (ucast (byte_count st)) st)" "victim (eat (ucast (byte_count st)) st) = []"
      "unat (this_header (eat (ucast (byte_count st)) st)) = unat (this_header st) + length (victim st)"
      using e u by simp_all
    have "this_header (eat (ucast (byte_count st)) st) < next_header st"
      using True sum e'(3) by (simp add: word_less_nat_alt)
    then show ?thesis using True e' ok st so mem
      by (simp add: do_skip_def good_step_def ird_ok_def state_ok_def bufs_ok_def)
  next
    case False
    define d where "d = next_header st - this_header st"
    have d: "unat d = unat (next_header st) - unat (this_header st)" using so(2) by (simp add: d_def unat_sub)
    have le: "unat (next_header st) \<le> unat (this_header st) + length (victim st)"
      using False sum by (simp add: word_less_nat_alt)
    have ge: "unat (this_header st) \<le> unat (next_header st)" using so(2) by (simp add: word_le_nat_alt)
    have u: "unat (ucast d :: u32) = unat d" by (rule ucast_small) (use d le bc(2) in linarith)
    have dl: "unat (ucast d :: u32) \<le> length (victim st)" using u d le by linarith
    note e = eat_ok [OF i dl]
    have th: "this_header (eat (ucast d) st) = next_header st"
      using e(3) u d ge by (intro word_unat_eq_iff [THEN iffD2]) simp
    have run: "do_skip st = Again ((eat (ucast d) st)\<lparr>fstate := next_state st\<rparr>)"
      using False by (simp add: do_skip_def Let_def d_def)
    have "state_ok ((eat (ucast d) st)\<lparr>fstate := next_state st\<rparr>)" using so(1) mem by (auto simp: state_ok_def)
    moreover have "work ((eat (ucast d) st)\<lparr>fstate := next_state st\<rparr>) < work st"
    proof (cases "next_state st = Reset")
      case True
      then show ?thesis using e(2) st by (simp add: work_def)
    next
      case False
      then have "0 < unat (ucast d :: u32)" using so(3) u d by (simp add: word_less_nat_alt)
      moreover have "rank (next_state st) \<le> 7" using so(1) by auto
      ultimately show ?thesis using e(2) st dl by (simp add: work_def)
    qed
    moreover have "input_ok ((eat (ucast d) st)\<lparr>fstate := next_state st\<rparr>)" using e(1) by (simp add: input_ok_def)
    ultimately show ?thesis using run ok by (simp add: good_step_def ird_ok_def bufs_ok_def)
  qed
qed

lemma eat_zeros_ok:
  assumes "input_ok st" and "victim st = l"
  shows "\<exists>s. eat_zeros l st = Some s \<and> input_ok s \<and> fstate s = fstate st \<and> next_state s = next_state st \<and>
    body_len s = body_len st \<and> name_len s = name_len st \<and> message s = message st \<and>
    header_buf s = header_buf st \<and> symlink_buf s = symlink_buf st \<and>
    name_buf s = name_buf st \<and> ird_log s = ird_log st \<and> victim s = dropWhile (\<lambda>b. b = 0) l"
  using assms
proof (induction l arbitrary: st)
  case Nil
  then show ?case using byte_count_le(2) [OF Nil.prems(1)] by (simp add: unat_eq_zero)
next
  case (Cons b l)
  have bc: "byte_count st \<noteq> 0" using byte_count_le(2) [OF Cons.prems(1)] Cons.prems(2) by auto
  show ?case
  proof (cases "b = 0")
    case True
    note e = eat_ok [OF Cons.prems(1), of 1]
    have "input_ok (eat 1 st)" "victim (eat 1 st) = l" using e Cons.prems(2) by simp_all
    from Cons.IH [OF this] show ?thesis using True bc by simp
  next
    case False
    then show ?thesis using Cons.prems by simp
  qed
qed

lemma error_frame [simp]:
  "fstate (error x st) = fstate st" "next_state (error x st) = next_state st" "victim (error x st) = victim st"
  "byte_count (error x st) = byte_count st" "this_header (error x st) = this_header st"
  "next_header (error x st) = next_header st" "body_len (error x st) = body_len st" "name_len (error x st) = name_len st"
  "header_buf (error x st) = header_buf st" "symlink_buf (error x st) = symlink_buf st" "name_buf (error x st) = name_buf st"
  "ird_log (error x st) = ird_log st" "message (error x st) \<noteq> None"
  by (auto simp: error_def)

lemma do_reset_good:
  assumes ok: "ird_ok st" and st: "fstate st = Reset"
  shows "good_step st (do_reset st)"
proof -
  have "input_ok st" using ok by (simp add: ird_ok_def)
  from eat_zeros_ok [OF this refl] ok st show ?thesis
    by (auto simp: do_reset_def good_step_def ird_ok_def bufs_ok_def state_ok_def input_ok_def length_dropWhile_le)
qed

text \<open>File operations change the log, the write position, the link hash and the directory list only.\<close>

definition same_machine :: "ird \<Rightarrow> ird \<Rightarrow> bool" where
  "same_machine s' s \<longleftrightarrow>
     next_state s' = next_state s \<and> victim s' = victim s \<and> byte_count s' = byte_count s \<and>
     this_header s' = this_header s \<and> next_header s' = next_header s \<and> body_len s' = body_len s \<and>
     name_len s' = name_len s \<and> header_buf s' = header_buf s \<and> symlink_buf s' = symlink_buf s \<and>
     name_buf s' = name_buf s \<and> collected s' = collected s \<and> collect s' = collect s \<and> remains s' = remains s \<and>
     h_mode s' = h_mode s \<and> h_mtime s' = h_mtime s \<and> h_uid s' = h_uid s \<and> h_gid s' = h_gid s"

lemma same_machine_refl [simp]: "same_machine s s"
  by (simp add: same_machine_def)

lemma same_machine_trans: "same_machine a b \<Longrightarrow> same_machine b c \<Longrightarrow> same_machine a c"
  by (simp add: same_machine_def)

lemma same_log [simp]: "same_machine (log_event e s) t = same_machine s t"
  by (simp add: same_machine_def log_event_def)

lemma same_upd [simp]:
  "same_machine (s\<lparr>fstate := x\<rparr>) t = same_machine s t" "same_machine (s\<lparr>wfile_pos := p\<rparr>) t = same_machine s t"
  "same_machine (s\<lparr>writes := n\<rparr>) t = same_machine s t" "same_machine (s\<lparr>head := h\<rparr>) t = same_machine s t"
  "same_machine (s\<lparr>dir_list := d\<rparr>) t = same_machine s t" "same_machine (error m s) t = same_machine s t"
  by (simp_all add: same_machine_def error_def)

lemma fstate_log [simp]: "fstate (log_event e s) = fstate s"
  by (simp add: log_event_def)

lemma clean_path_same [simp]: "same_machine (clean_path hk p m s) t = same_machine s t" "fstate (clean_path hk p m s) = fstate s"
  by (simp_all add: clean_path_def split: option.split)

lemma find_link_same:
  "find_link hk a b c d n s = Some (r, s') \<Longrightarrow> same_machine s' s \<and> fstate s' = fstate s"
  by (auto simp: find_link_def Let_def split: option.splits prod.splits if_splits)

lemma maybe_link_same:
  assumes "maybe_link hk p s = Some (ml, s')"
  shows "same_machine s' s \<and> fstate s' = fstate s"
proof (cases "2 \<le> h_nlink s")
  case True
  then obtain r s1 where l: "find_link hk (ucast (h_major s)) (ucast (h_minor s)) (ucast (h_ino s)) (h_mode s) p s = Some (r, s1)"
    using assms by (auto simp: maybe_link_def split: option.splits)
  then have "s' = s1 \<or> (\<exists>e. s' = log_event e (clean_path hk p 0 s1))"
    using assms True by (auto simp: maybe_link_def Let_def split: option.splits)
  then show ?thesis using find_link_same [OF l] by auto
next
  case False
  then show ?thesis using assms by (simp add: maybe_link_def)
qed

lemma open_file_same: "same_machine (open_file hk p ml s) t = same_machine s t"
  by (simp add: open_file_def Let_def)

lemma open_file_state: "fstate s = SkipIt \<Longrightarrow> fstate (open_file hk p ml s) \<in> {SkipIt, CopyFile}"
  by (simp add: open_file_def Let_def)

lemma do_name_cases:
  assumes "do_name hk st = r"
  obtains "r = Crash" | st' where "r = Again st'" "same_machine st' (st\<lparr>next_state := Reset\<rparr>)" "fstate st' \<in> {SkipIt, CopyFile}"
proof -
  define st1 where "st1 = st\<lparr>fstate := SkipIt, next_state := Reset\<rparr>"
  have s1: "same_machine st1 (st\<lparr>next_state := Reset\<rparr>)" "fstate st1 = SkipIt" by (simp_all add: st1_def same_machine_def)
  have ml: "same_machine s' (st\<lparr>next_state := Reset\<rparr>) \<and> fstate s' = SkipIt"
    if "maybe_link hk p (clean_path hk p m st1) = Some (k, s')" for p m k s'
    using maybe_link_same [OF that] s1 by (auto intro: same_machine_trans)
  show ?thesis
    using assms that s1 ml open_file_state open_file_same unfolding do_name_def st1_def [symmetric]
    by (auto simp: Let_def dir_add_def do_utime_def free_hash_def split: option.splits if_splits prod.splits)
qed

lemma same_machine_input:
  assumes "same_machine s' s" and "bufs_ok s" and "input_ok s"
  shows "bufs_ok s'" "input_ok s'"
  using assms by (simp_all add: same_machine_def bufs_ok_def input_ok_def)

lemma do_name_good:
  assumes ok: "ird_ok st" and st: "fstate st = GotName"
  shows "good_step st (do_name hk st)"
proof (cases rule: do_name_cases [OF refl, of hk st])
  case 1
  then show ?thesis using st by (simp add: good_step_def)
next
  case (2 st')
  have b: "bufs_ok (st\<lparr>next_state := Reset\<rparr>)" "input_ok (st\<lparr>next_state := Reset\<rparr>)"
    using ok by (simp_all add: ird_ok_def bufs_ok_def input_ok_def)
  have "state_ok st'" using 2(2,3) ok st
    by (auto simp: ird_ok_def state_ok_def same_machine_def word_le_nat_alt)
  moreover have "work st' < work st" using 2(2,3) st by (auto simp: work_def same_machine_def)
  moreover have "body_len st' = body_len st" "name_len st' = name_len st" using 2(2) by (simp_all add: same_machine_def)
  ultimately show ?thesis using 2(1) same_machine_input [OF 2(2) b] ok by (simp add: good_step_def ird_ok_def)
qed

subsection \<open>The header\<close>

lemma parse_fields_total:
  "off + 8 * n \<le> length s \<Longrightarrow>
   parse_fields hk s off n = Some (map (\<lambda>i. simple_strtoul hk (take 8 (drop (off + 8 * i) s))) [0..<n])"
proof (induction n arbitrary: off)
  case (Suc n)
  have "parse_fields hk s (off + 8) n = Some (map (\<lambda>i. simple_strtoul hk (take 8 (drop (off + 8 * Suc i) s))) [0..<n])"
    using Suc.IH [of "off + 8"] Suc.prems by (simp add: add.assoc)
  moreover have "map (\<lambda>i. simple_strtoul hk (take 8 (drop (off + 8 * i) s))) [0..<Suc n] =
      simple_strtoul hk (take 8 (drop off s)) # map (\<lambda>i. simple_strtoul hk (take 8 (drop (off + 8 * Suc i) s))) [0..<n]"
    by (simp add: upt_conv_Cons map_Suc_upt [symmetric] comp_def del: upt_Suc)
  ultimately show ?case using Suc.prems by simp
qed simp

text \<open>The header of a memory of sufficient size.\<close>

definition header_at :: "ird_hooks \<Rightarrow> u8 list \<Rightarrow> ird \<Rightarrow> ird" where
  "header_at hk s st = set_header hk (map (\<lambda>i. simple_strtoul hk (take 8 (drop (6 + 8 * i) s))) [0..<12]) st"

lemma parse_header_total: "102 \<le> length s \<Longrightarrow> parse_header hk s st = Some (header_at hk s st)"
  by (simp add: parse_header_def parse_fields_total header_at_def)

lemma header_at_frame:
  "fstate (header_at hk s st) = fstate st" "next_state (header_at hk s st) = next_state st"
  "victim (header_at hk s st) = victim st" "byte_count (header_at hk s st) = byte_count st"
  "this_header (header_at hk s st) = this_header st" "header_buf (header_at hk s st) = header_buf st"
  "symlink_buf (header_at hk s st) = symlink_buf st" "name_buf (header_at hk s st) = name_buf st"
  "message (header_at hk s st) = message st" "ird_log (header_at hk s st) = ird_log st"
  "collected (header_at hk s st) = collected st"
  "body_len (header_at hk s st) = simple_strtoul hk (take 8 (drop 54 s))"
  "name_len (header_at hk s st) = simple_strtoul hk (take 8 (drop 94 s))"
  by (simp_all add: header_at_def set_header_def)

text \<open>After a header: the state before the case distinction on the kind of file.\<close>

definition after_header :: "ird_hooks \<Rightarrow> ird \<Rightarrow> ird" where
  "after_header hk st =
     (let st1 = header_at hk (collected_mem st) st
      in st1\<lparr>next_header := (this_header st1 + N_ALIGN (name_len st1) + body_len st1 + 3) AND NOT 3, fstate := SkipIt\<rparr>)"

lemma after_header_ok:
  assumes ok: "ird_ok st" and st: "fstate st = GotHeader" and sk: "strtoul_ok hk"
  shows "ird_ok (after_header hk st)" "fstate (after_header hk st) = SkipIt" "victim (after_header hk st) = victim st"
    "unat (this_header (after_header hk st)) + unat (N_ALIGN (name_len (after_header hk st))) + unat (body_len (after_header hk st))
       \<le> unat (next_header (after_header hk st))"
proof -
  let ?s = "after_header hk st"
  let ?nh = "this_header st + N_ALIGN (name_len ?s) + body_len ?s"
  have f: "fstate ?s = SkipIt" "next_state ?s = next_state st" "victim ?s = victim st" "byte_count ?s = byte_count st"
    "this_header ?s = this_header st" "next_header ?s = (?nh + 3) AND NOT 3" "header_buf ?s = header_buf st"
    "symlink_buf ?s = symlink_buf st" "name_buf ?s = name_buf st" "collected ?s = collected st"
    by (simp_all add: after_header_def Let_def header_at_frame)
  have mem: "110 \<le> length (collected_mem ?s)"
    using ok st f collected_mem_cong [of ?s st] by (simp add: ird_ok_def state_ok_def)
  have b: "unat (body_len ?s) < 2 ^ 32" "unat (name_len ?s) < 2 ^ 32"
    using sk by (simp_all add: after_header_def Let_def header_at_frame strtoul_ok_def)
  have i: "input_ok st" "bufs_ok st" "idle_next st" using ok st by (auto simp: ird_ok_def state_ok_def)
  have th: "unat (this_header st) < 2 ^ 62" using i(1) by (simp add: input_ok_def)
  note na = N_ALIGN_bounds [OF b(2)]
  have u: "unat ?nh = unat (this_header st) + unat (N_ALIGN (name_len ?s)) + unat (body_len ?s)"
    using th na b by (simp add: unat_word_ariths)
  have "unat ?nh < 2 ^ 63" using u th na b by simp
  then have le: "unat ?nh \<le> unat (next_header ?s)" unfolding f(6) by (rule align_up)
  then have lt: "unat (this_header st) < unat (next_header ?s)" using u na(1) by linarith
  show "fstate ?s = SkipIt" "victim ?s = victim st" by (rule f)+
  show "unat (this_header ?s) + unat (N_ALIGN (name_len ?s)) + unat (body_len ?s) \<le> unat (next_header ?s)"
    using le u f(5) by simp
  show "ird_ok ?s" using i b lt f mem
    by (simp add: ird_ok_def bufs_ok_def input_ok_def state_ok_def word_le_nat_alt word_less_nat_alt)
qed

lemma do_header_good:
  assumes ok: "ird_ok st" and st: "fstate st = GotHeader" and sk: "strtoul_ok hk"
  shows "good_step st (do_header hk st)"
proof -
  let ?s = "after_header hk st"
  note ah = after_header_ok [OF ok st sk]
  have mem: "110 \<le> length (collected_mem st)" using ok st by (simp add: ird_ok_def state_ok_def)
  have em: "collected_mem (error x st) = collected_mem st" for x
    by (rule collected_mem_cong) (simp_all add: error_def)
  have err: "good_step st (Stop (error x st))" for x
    using ok st em by (simp add: good_step_def ird_ok_def bufs_ok_def input_ok_def state_ok_def)
  have skip: "good_step st (Again ?s)" using ah(1-3) st by (simp add: good_step_def work_def)
  have b: "unat (body_len ?s) < 2 ^ 32" "unat (name_len ?s) < 2 ^ 32" "bufs_ok ?s" "input_ok ?s"
    using ah(1) by (simp_all add: ird_ok_def)
  note na = N_ALIGN_bounds [OF b(2)]
  define link where "link = ?s\<lparr>collect := (SymlinkBuf, 0), collected := InBuf SymlinkBuf,
    remains := N_ALIGN (name_len ?s) + body_len ?s, next_state := GotSymlink, fstate := Collect\<rparr>"
  define nm where "nm = read_into NameBuf (ucast (N_ALIGN (name_len ?s))) GotName ?s"
  have link: "good_step st (Again link)" if "name_len ?s \<le> PATH_MAX" "body_len ?s \<le> PATH_MAX"
  proof -
    have n: "unat (N_ALIGN (name_len ?s)) \<le> 4098" "unat (body_len ?s) \<le> 4096"
      using N_ALIGN_path [OF that(1)] that(2) by (simp_all add: PATH_MAX_def word_le_nat_alt)
    have r: "unat (N_ALIGN (name_len ?s) + body_len ?s) = unat (N_ALIGN (name_len ?s)) + unat (body_len ?s)"
      using n by (simp add: unat_word_ariths)
    have "collect_ok link" using n r na ah(4) by (simp add: collect_ok_def link_def)
    then show ?thesis using b ah(3) st
      by (simp add: good_step_def ird_ok_def state_ok_def bufs_ok_def input_ok_def work_def link_def)
  qed
  have name: "good_step st (Again nm)" if p: "name_len ?s \<le> PATH_MAX"
  proof -
    let ?sz = "ucast (N_ALIGN (name_len ?s)) :: u32"
    have n: "unat (N_ALIGN (name_len ?s)) \<le> 4098" by (rule N_ALIGN_path [OF p])
    have sz: "unat ?sz = unat (N_ALIGN (name_len ?s))" by (rule ucast_small) (use n in simp)
    show ?thesis
    proof (cases "unat ?sz \<le> length (victim ?s)")
      case True
      define s1 where "s1 = ?s\<lparr>collected := InInput (victim ?s)\<rparr>"
      have i1: "input_ok s1" "victim s1 = victim ?s" "this_header s1 = this_header ?s"
        using b(4) by (simp_all add: s1_def input_ok_def)
      note e = eat_ok [OF i1(1), of ?sz, unfolded i1(2,3), OF True]
      have "nm = (eat ?sz s1)\<lparr>fstate := GotName\<rparr>"
        using True byte_count_le(1) [OF b(4), of ?sz] unfolding nm_def read_into_def s1_def by simp
      moreover have "input_ok ((eat ?sz s1)\<lparr>fstate := GotName\<rparr>)" using e(1) by (simp add: input_ok_def)
      moreover have "state_ok ((eat ?sz s1)\<lparr>fstate := GotName\<rparr>)"
        using e(3) sz ah(4) by (simp add: state_ok_def s1_def)
      ultimately show ?thesis using e(2) True sz na b ah(3) st
        by (simp add: good_step_def ird_ok_def bufs_ok_def work_def s1_def)
    next
      case False
      then have "nm = ?s\<lparr>collect := (NameBuf, 0), collected := InBuf NameBuf, remains := ucast ?sz,
          next_state := GotName, fstate := Collect\<rparr>"
        using byte_count_le(1) [OF b(4), of ?sz] unfolding nm_def read_into_def by simp
      moreover have "unat (ucast ?sz :: u64) = unat ?sz" by (rule ucast_up)
      ultimately show ?thesis using sz n na b ah(3,4) st
        by (simp add: good_step_def ird_ok_def state_ok_def collect_ok_def bufs_ok_def input_ok_def work_def)
    qed
  qed
  have "do_header hk st \<in> {Stop (error IncorrectCpio st), Stop (error NoCpioMagic st), Again ?s} \<or>
      name_len ?s \<le> PATH_MAX \<and> (do_header hk st = Again link \<and> body_len ?s \<le> PATH_MAX \<or> do_header hk st = Again nm)"
    using mem unfolding do_header_def link_def nm_def after_header_def Let_def
    by (simp add: parse_header_total not_less del: One_nat_def)
  then show ?thesis using err skip link name by (elim disjE conjE) auto
qed

subsection \<open>Writing\<close>

text \<open>What a call of \<open>xwrite\<close> logs: the pieces of the data it wrote, one after the other.\<close>

fun written :: "fs_event list \<Rightarrow> u8 list" where
  "written [] = []"
| "written (FsWrite d p # es) = d @ written es"
| "written (e # es) = written es"

lemma written_append [simp]: "written (xs @ ys) = written xs @ written ys"
  by (induction xs rule: written.induct) simp_all

text \<open>Writes at consecutive positions from one on.\<close>

fun placed :: "u64 \<Rightarrow> fs_event list \<Rightarrow> bool" where
  "placed pos [] = True"
| "placed pos (FsWrite d p # es) = (p = pos \<and> placed (pos + of_nat (length d)) es)"
| "placed pos (e # es) = False"

lemma placed_append:
  "placed pos (xs @ ys) = (placed pos xs \<and> placed (pos + of_nat (length (written xs))) ys)"
  by (induction pos xs rule: placed.induct) (auto simp: add.assoc)

text \<open>
  The result of \<open>xwrite_loop\<close> after \<open>out\<close> bytes: the machine is untouched, and what was written is a
  prefix of the data as long as the result says.
\<close>

definition xwrite_post :: "u8 list \<Rightarrow> u64 \<Rightarrow> ird \<Rightarrow> errno + u64 \<Rightarrow> ird \<Rightarrow> bool" where
  "xwrite_post p out st r st' \<longleftrightarrow>
     same_machine st' st \<and> fstate st' = fstate st \<and> message st' = message st \<and> head st' = head st \<and>
     (\<exists>k ws. k \<le> length p \<and> ird_log st' = ird_log st @ ws \<and> written ws = take k p \<and>
        placed (wfile_pos st) ws \<and> wfile_pos st' = wfile_pos st + of_nat k \<and>
        (\<forall>n. r = Inr n \<longrightarrow> n = out + of_nat k))"

lemma take_add_drop: "a \<le> length p \<Longrightarrow> take a p @ take b (drop a p) = take (a + b) p"
  by (simp add: take_add)

lemma xwrite_post_step:
  assumes post: "xwrite_post (drop (unat rv) p) (out + rv) st2 r st'" and rv: "unat rv \<le> length p"
    and st2: "st2 = log_event (FsWrite (take (unat rv) p) (wfile_pos st)) (st1\<lparr>wfile_pos := wfile_pos st + rv\<rparr>)"
    and st1: "st1 = st\<lparr>writes := w\<rparr>"
  shows "xwrite_post p out st r st'"
proof -
  obtain k ws where k: "k \<le> length (drop (unat rv) p)" "ird_log st' = ird_log st2 @ ws" "written ws = take k (drop (unat rv) p)"
    "placed (wfile_pos st2) ws" "wfile_pos st' = wfile_pos st2 + of_nat k" "\<forall>n. r = Inr n \<longrightarrow> n = out + rv + of_nat k"
    using post by (auto simp: xwrite_post_def)
  have m: "same_machine st' st" "fstate st' = fstate st" "message st' = message st" "head st' = head st"
    using post by (simp_all add: xwrite_post_def st2 st1 same_machine_def log_event_def)
  let ?ws = "FsWrite (take (unat rv) p) (wfile_pos st) # ws"
  have "ird_log st' = ird_log st @ ?ws" "wfile_pos st' = wfile_pos st + of_nat (unat rv + k)"
    using k(2,5) by (simp_all add: st2 st1 log_event_def)
  moreover have "written ?ws = take (unat rv + k) p" "unat rv + k \<le> length p"
    using k(1,3) rv take_add_drop [OF rv, of k] by simp_all
  moreover have "\<forall>n. r = Inr n \<longrightarrow> n = out + of_nat (unat rv + k)" using k(6) by (simp add: add.assoc)
  moreover have "placed (wfile_pos st) ?ws" using k(4) rv by (simp add: st2 st1 log_event_def)
  ultimately show ?thesis using m unfolding xwrite_post_def by blast
qed

lemma xwrite_post_same:
  assumes "xwrite_post p out (st\<lparr>writes := w\<rparr>) r st'"
  shows "xwrite_post p out st r st'"
  using assms by (simp add: xwrite_post_def same_machine_def)

lemma xwrite_turn:
  assumes hk: "write_ok hk" and le: "unat count \<le> length p"
    and ih: "\<And>count' p' out' st'. unat count' < unat count \<Longrightarrow> unat count' \<le> length p' \<Longrightarrow>
      \<exists>r s. xwrite_loop hk p' count' out' st' = Some (r, s) \<and> xwrite_post p' out' st' r s"
    and ni: "\<not> interrupted (kernel_write hk (writes st) (take (unat count) p) (wfile_pos st))"
  shows "\<exists>r s. xwrite_loop hk p count out st = Some (r, s) \<and> xwrite_post p out st r s"
proof (cases "count = 0")
  case True
  have "xwrite_post p out st (Inr out) st"
    unfolding xwrite_post_def by (intro conjI exI [of _ 0] exI [of _ "[]"]) simp_all
  then show ?thesis using True by (subst xwrite_loop.simps) auto
next
  case False
  let ?s1 = "st\<lparr>writes := Suc (writes st)\<rparr>"
  have post0: "xwrite_post p out st x ?s1" if "\<forall>n. x = Inr n \<longrightarrow> n = out" for x
    unfolding xwrite_post_def using that by (intro conjI exI [of _ 0] exI [of _ "[]"]) simp_all
  show ?thesis
  proof (cases "kernel_write hk (writes st) (take (unat count) p) (wfile_pos st)")
    case (Inl e)
    then have "e \<noteq> EINTR" "e \<noteq> EAGAIN" using ni by (auto simp: interrupted_def)
    then have "xwrite_loop hk p count out st = Some (if out \<noteq> 0 then Inr out else Inl e, ?s1)"
      using False Inl by (subst xwrite_loop.simps) simp
    then show ?thesis using post0 [of "if out \<noteq> 0 then Inr out else Inl e"] by auto
  next
    case (Inr rv)
    then have "unat rv \<le> length (take (unat count) p)" using hk unfolding write_ok_def by blast
    then have rv: "unat rv \<le> unat count" "unat rv \<le> length p" by simp_all
    show ?thesis
    proof (cases "rv = 0")
      case True
      then have "xwrite_loop hk p count out st = Some (Inr out, ?s1)"
        using False Inr by (subst xwrite_loop.simps) simp
      then show ?thesis using post0 [of "Inr out"] by auto
    next
      case nz: False
      define s2 where "s2 = log_event (FsWrite (take (unat rv) p) (wfile_pos st)) (?s1\<lparr>wfile_pos := wfile_pos st + rv\<rparr>)"
      have step: "xwrite_loop hk p count out st = xwrite_loop hk (drop (unat rv) p) (count - rv) (out + rv) s2"
        using False Inr nz by (subst xwrite_loop.simps) (simp add: s2_def Let_def)
      have u: "unat (count - rv) = unat count - unat rv" using rv(1) by (simp add: unat_sub word_le_nat_alt)
      have "0 < unat rv" using nz by (simp add: unat_gt_0)
      then have "unat (count - rv) < unat count" "unat (count - rv) \<le> length (drop (unat rv) p)"
        using u rv(1) le by simp_all
      from ih [OF this, of "out + rv" s2] obtain r s where
        l: "xwrite_loop hk (drop (unat rv) p) (count - rv) (out + rv) s2 = Some (r, s)"
          "xwrite_post (drop (unat rv) p) (out + rv) s2 r s" by blast
      then show ?thesis using step xwrite_post_step [OF l(2) rv(2) s2_def refl] by auto
    qed
  qed
qed

lemma xwrite_loop_returns:
  assumes hk: "write_ok hk" and "unat count \<le> length p"
  shows "\<exists>r s. xwrite_loop hk p count out st = Some (r, s) \<and> xwrite_post p out st r s"
  using assms(2)
proof (induction "unat count" arbitrary: p count out st rule: less_induct)
  case less
  obtain k where k: "\<forall>data pos. \<not> interrupted (kernel_write hk (writes st + k) data pos)"
    using hk unfolding write_ok_def by blast
  then show ?case
  proof (induction k arbitrary: st)
    case 0
    then show ?case by (intro xwrite_turn [OF hk less.prems less.hyps]) simp_all
  next
    case (Suc k)
    let ?r = "kernel_write hk (writes st) (take (unat count) p) (wfile_pos st)"
    let ?s1 = "st\<lparr>writes := Suc (writes st)\<rparr>"
    show ?case
    proof (cases "interrupted ?r \<and> count \<noteq> 0")
      case True
      have "\<exists>r s. xwrite_loop hk p count out ?s1 = Some (r, s) \<and> xwrite_post p out ?s1 r s"
        by (rule Suc.IH) (use Suc.prems in simp)
      moreover have "xwrite_loop hk p count out st = xwrite_loop hk p count out ?s1"
        using True by (subst xwrite_loop.simps) (auto simp: interrupted_def)
      ultimately show ?thesis using xwrite_post_same by metis
    next
      case False
      show ?thesis
      proof (cases "count = 0")
        case True
        have "xwrite_post p out st (Inr out) st"
          unfolding xwrite_post_def by (intro conjI exI [of _ 0] exI [of _ "[]"]) simp_all
        then show ?thesis using True by (subst xwrite_loop.simps) auto
      next
        case nz: False
        then show ?thesis using False by (intro xwrite_turn [OF hk less.prems less.hyps]) simp_all
      qed
    qed
  qed
qed

lemma xwrite_returns:
  assumes "write_ok hk" and "unat count \<le> length p"
  obtains r s where "xwrite hk p count st = Some (r, s)" "xwrite_post p 0 st r s"
  using xwrite_loop_returns [OF assms, of 0 st] that by (auto simp: xwrite_def)

text \<open>\<open>eat\<close> after a file operation, for a length that fits.\<close>

lemma eat_word:
  assumes "input_ok s" and "unat w \<le> length (victim s)"
  shows "input_ok (eat (ucast (w :: u64)) s)" "victim (eat (ucast w) s) = drop (unat w) (victim s)"
    "unat (this_header (eat (ucast w) s)) = unat (this_header s) + unat w"
proof -
  have "unat w < 2 ^ 32" using assms by (simp add: input_ok_def)
  then have u: "unat (ucast w :: u32) = unat w" by (rule ucast_small)
  have le: "unat (ucast w :: u32) \<le> length (victim s)" using u assms(2) by simp
  show "input_ok (eat (ucast w) s)" "victim (eat (ucast w) s) = drop (unat w) (victim s)"
    "unat (this_header (eat (ucast w) s)) = unat (this_header s) + unat w"
    using eat_ok [OF assms(1) le] u by simp_all
qed

lemma do_copy_good:
  assumes ok: "ird_ok st" and st: "fstate st = CopyFile" and hk: "write_ok hk"
  shows "\<exists>r. do_copy hk st = Some r \<and> good_step st r"
proof -
  have i: "input_ok st" "bufs_ok st" and nx: "next_state st = Reset"
    and le: "unat (this_header st) + unat (body_len st) \<le> unat (next_header st)"
    using ok st by (simp_all add: ird_ok_def state_ok_def)
  have bc: "unat (byte_count st) = length (victim st)" by (rule byte_count_le(2) [OF i(1)])
  define n where "n = (if body_len st \<le> byte_count st then body_len st else byte_count st)"
  have n: "unat n \<le> length (victim st)" using bc by (auto simp: n_def word_le_nat_alt)
  have rd: "get_bytes (victim st) 0 (unat n) \<noteq> None" using n by simp
  obtain r s where x: "xwrite hk (victim st) n st = Some (r, s)" "xwrite_post (victim st) 0 st r s"
    by (rule xwrite_returns [OF hk n])
  define s1 where "s1 = (if r \<noteq> Inr n then error WriteError s else s)"
  have sm: "same_machine s1 st" using x(2) by (simp add: s1_def xwrite_post_def)
  note b1 = same_machine_input [OF sm i(2,1)]
  show ?thesis
  proof (cases "body_len st \<le> byte_count st")
    case True
    define s2 where "s2 = log_event FsFput (log_event (FsUtimes (h_mtime st)) s1)"
    have sm2: "same_machine s2 st" using sm by (simp add: s2_def)
    note b2 = same_machine_input [OF sm2 i(2,1)]
    have v2: "victim s2 = victim st" "this_header s2 = this_header st" "next_header s2 = next_header st"
      "next_state s2 = Reset" "body_len s2 = body_len st" "name_len s2 = name_len st"
      using sm2 nx by (simp_all add: same_machine_def)
    have run: "do_copy hk st = Some (Again ((eat (ucast n) s2)\<lparr>fstate := SkipIt\<rparr>))"
      using True x(1) rd by (simp add: do_copy_def n_def s2_def s1_def Let_def)
    note e = eat_word [OF b2(2), of n, unfolded v2(1,2), OF n]
    have "ird_ok ((eat (ucast n) s2)\<lparr>fstate := SkipIt\<rparr>)"
      using e b2(1) v2 le ok True by (simp add: ird_ok_def bufs_ok_def input_ok_def state_ok_def word_le_nat_alt n_def)
    moreover have "work ((eat (ucast n) s2)\<lparr>fstate := SkipIt\<rparr>) < work st" using e(2) st by (simp add: work_def)
    ultimately show ?thesis using run by (simp add: good_step_def)
  next
    case False
    define s2 where "s2 = s1\<lparr>body_len := body_len st - byte_count st\<rparr>"
    have v2: "victim s2 = victim st" "this_header s2 = this_header st" "next_header s2 = next_header st"
      "next_state s2 = Reset" "body_len s2 = body_len st - byte_count st" "name_len s2 = name_len st"
      using sm nx by (simp_all add: same_machine_def s2_def)
    have b2: "bufs_ok s2" "input_ok s2" using b1 by (simp_all add: s2_def bufs_ok_def input_ok_def)
    have fs: "fstate s2 = CopyFile" using x(2) st by (simp add: s2_def s1_def xwrite_post_def)
    have run: "do_copy hk st = Some (Stop (eat (ucast n) s2))"
      using False x(1) rd by (simp add: do_copy_def n_def s2_def s1_def Let_def)
    note e = eat_word [OF b2(2), of n, unfolded v2(1,2), OF n]
    have bl: "unat (body_len st - byte_count st) = unat (body_len st) - unat (byte_count st)"
      using False by (simp add: unat_sub)
    have nb: "n = byte_count st" using False by (simp add: n_def)
    have "unat (body_len st) - unat (byte_count st) < 2 ^ 32" using ok by (auto simp: ird_ok_def)
    then have "ird_ok (eat (ucast n) s2)"
      using e b2(1) v2 le ok bl nb False fs by (simp add: ird_ok_def bufs_ok_def state_ok_def word_le_nat_alt)
    then show ?thesis using run e(2) nb bc by (simp add: good_step_def)
  qed
qed

lemma c_str_Some: "i < length l \<Longrightarrow> l ! i = 0 \<Longrightarrow> \<exists>s. c_str l = Some s"
  by (metis c_str_def nth_mem)

lemma do_symlink_good:
  assumes ok: "ird_ok st" and st: "fstate st = GotSymlink"
  shows "good_step st (do_symlink hk st)"
proof -
  have c: "collected st = InBuf SymlinkBuf" and n: "unat (N_ALIGN (name_len st)) + unat (body_len st) \<le> 8194"
    and th: "this_header st \<le> next_header st" and i: "bufs_ok st" "input_ok st"
    using ok st by (simp_all add: ird_ok_def state_ok_def)
  define mem where "mem = symlink_buf st"
  define k where "k = unat (N_ALIGN (name_len st) + body_len st)"
  have k: "k = unat (N_ALIGN (name_len st)) + unat (body_len st)" using n by (simp add: k_def unat_word_ariths)
  have l: "length mem = 8195" using i(1) by (simp add: bufs_ok_def mem_def)
  define m1 where "m1 = mem[k := 0]"
  have kl: "k < length mem" using k n l by simp
  obtain path where p: "c_str m1 = Some path" using c_str_Some [of k m1] kl by (auto simp: m1_def)
  obtain tgt where t: "c_str (drop (unat (N_ALIGN (name_len st))) m1) = Some tgt"
  proof -
    have "unat (body_len st) < length (drop (unat (N_ALIGN (name_len st))) m1)" using kl k by (simp add: m1_def)
    moreover have "drop (unat (N_ALIGN (name_len st))) m1 ! unat (body_len st) = 0" using kl k by (simp add: m1_def)
    ultimately show ?thesis using c_str_Some that by blast
  qed
  define s1 where "s1 = set_buf SymlinkBuf m1 st"
  define s2 where "s2 = do_utime path (h_mtime st) (log_event (FsChown path (h_uid st) (h_gid st) False)
    (log_event (FsSymlink tgt path) (clean_path hk path 0 s1)))"
  have cm: "collected_mem st = mem" by (simp add: collected_mem_def c buf_of_def mem_def)
  have run: "do_symlink hk st = Again (s2\<lparr>fstate := SkipIt, next_state := Reset\<rparr>)"
    using kl p t unfolding do_symlink_def cm k_def [symmetric] Let_def m1_def [symmetric]
    by (simp add: c s2_def s1_def)
  have sm: "same_machine s2 s1" by (simp add: s2_def do_utime_def)
  have "bufs_ok s1" using i(1) l by (simp add: s1_def set_buf_def bufs_ok_def m1_def)
  moreover have "input_ok s1" using i(2) by (simp add: s1_def input_ok_def)
  ultimately have "bufs_ok s2" "input_ok s2" by (rule same_machine_input [OF sm])+
  then have "ird_ok (s2\<lparr>fstate := SkipIt, next_state := Reset\<rparr>)"
    using sm th ok by (simp add: ird_ok_def bufs_ok_def input_ok_def state_ok_def same_machine_def s1_def)
  moreover have "work (s2\<lparr>fstate := SkipIt, next_state := Reset\<rparr>) < work st"
    using sm st by (simp add: work_def same_machine_def s1_def)
  ultimately show ?thesis using run by (simp add: good_step_def)
qed

lemma actions_good:
  assumes "ird_ok st" and "strtoul_ok hk" and "write_ok hk"
  shows "\<exists>r. actions hk st = Some r \<and> good_step st r"
  using assms do_start_good do_collect_good do_header_good do_skip_good do_name_good do_copy_good do_symlink_good
    do_reset_good
  by (cases "fstate st") (simp_all add: actions_def)

lemma work_length: "work st' < work st \<Longrightarrow> length (victim st') \<le> length (victim st)"
proof -
  have "rank x \<le> 7" for x by (cases x) simp_all
  then have "rank (fstate st) \<le> 7" .
  then show "work st' < work st \<Longrightarrow> length (victim st') \<le> length (victim st)" by (simp add: work_def)
qed

definition write_result :: "ird \<Rightarrow> ird \<Rightarrow> bool" where
  "write_result st st' \<longleftrightarrow> ird_ok st' \<and> length (victim st') \<le> length (victim st) \<and>
     (victim st' = [] \<or> message st' \<noteq> None \<or> fstate st' = Reset)"

lemma write_loop_returns:
  assumes hk: "strtoul_ok hk" "write_ok hk" and "ird_ok st"
  shows "write_loop hk st = Some None \<or> (\<exists>st'. write_loop hk st = Some (Some st') \<and> write_result st st')"
  using assms(3)
proof (induction "work st" arbitrary: st rule: less_induct)
  case less
  obtain r where r: "actions hk st = Some r" "good_step st r" using actions_good [OF less.prems hk] by blast
  show ?case
  proof (cases r)
    case (Again s1)
    then have s1: "ird_ok s1" "work s1 < work st" using r(2) by (simp_all add: good_step_def)
    have "write_loop hk st = write_loop hk s1" using r(1) Again by (subst write_loop.simps) simp
    then show ?thesis using less.hyps [OF s1(2,1)] work_length [OF s1(2)] by (auto simp: write_result_def)
  next
    case (Stop s1)
    then have "write_loop hk st = Some (Some s1)" using r(1) by (subst write_loop.simps) simp
    then show ?thesis using r(2) Stop by (simp add: good_step_def write_result_def)
  next
    case Crash
    then show ?thesis using r by (subst write_loop.simps) simp
  qed
qed

section \<open>What is done stays done\<close>

text \<open>The log is only extended, and an error that was recorded stays recorded.\<close>

definition grows :: "ird \<Rightarrow> ird \<Rightarrow> bool" where
  "grows s s' \<longleftrightarrow> prefix (ird_log s) (ird_log s') \<and> (message s' = None \<longrightarrow> message s = None)"

lemma grows_refl [simp]: "grows s s"
  by (simp add: grows_def)

lemma grows_trans: "grows a b \<Longrightarrow> grows b c \<Longrightarrow> grows a c"
  by (auto simp: grows_def)

lemma grows_steps [simp]:
  "grows a s \<Longrightarrow> grows a (log_event e s)" "grows a s \<Longrightarrow> grows a (error m s)" "grows a s \<Longrightarrow> grows a (eat n s)"
  "grows a s \<Longrightarrow> grows a (set_buf b l s)"
  "grows a s \<Longrightarrow> grows a (read_into b z x s)" "grows a s \<Longrightarrow> grows a (set_header hk fs s)"
  by (auto simp: grows_def log_event_def error_def read_into_def set_header_def)

lemma grows_cong: "grows a s \<Longrightarrow> ird_log s' = ird_log s \<Longrightarrow> message s' = message s \<Longrightarrow> grows a s'"
  by (simp add: grows_def)

lemma grows_upd [simp]:
  "grows a s \<Longrightarrow> grows a (s\<lparr>fstate := x\<rparr>)" "grows a s \<Longrightarrow> grows a (s\<lparr>next_state := x\<rparr>)" "grows a s \<Longrightarrow> grows a (s\<lparr>head := h\<rparr>)"
  "grows a s \<Longrightarrow> grows a (s\<lparr>dir_list := d\<rparr>)" "grows a s \<Longrightarrow> grows a (s\<lparr>wfile_pos := p\<rparr>)" "grows a s \<Longrightarrow> grows a (s\<lparr>writes := n\<rparr>)"
  "grows a s \<Longrightarrow> grows a (s\<lparr>body_len := l\<rparr>)" "grows a s \<Longrightarrow> grows a (s\<lparr>next_header := l\<rparr>)" "grows a s \<Longrightarrow> grows a (s\<lparr>collected := c\<rparr>)"
  "grows a s \<Longrightarrow> grows a (s\<lparr>collect := cp\<rparr>)" "grows a s \<Longrightarrow> grows a (s\<lparr>remains := l\<rparr>)"
  by (simp_all add: grows_def)

lemma grows_xwrite:
  assumes x: "xwrite_loop hk p count out st = Some res"
  shows "grows st (snd res)"
proof (rule xwrite_loop.raw_induct [where P = "\<lambda>_ _ _ _ st res. grows st (snd res)", OF _ x])
  fix f hk p count out st and res :: "(errno + u64) \<times> ird"
  assume ih: "\<And>hk p count out st res. f hk p count out st = Some res \<Longrightarrow> grows st (snd res)"
    and body: "(if count = 0 then Some (Inr out, st)
      else let st1 = st\<lparr>writes := Suc (writes st)\<rparr>
        in case kernel_write hk (writes st) (take (unat count) p) (wfile_pos st) of
             Inl e \<Rightarrow> if e = EINTR \<or> e = EAGAIN then f hk p count out st1
               else Some (if out \<noteq> 0 then Inr out else Inl e, st1)
           | Inr rv \<Rightarrow> if rv = 0 then Some (Inr out, st1)
               else f hk (drop (unat rv) p) (count - rv) (out + rv)
                      (log_event (FsWrite (take (unat rv) p) (wfile_pos st)) (st1\<lparr>wfile_pos := wfile_pos st + rv\<rparr>))) = Some res"
  have "grows st (snd res)" if "f hk p' c' o' s' = Some res" "grows st s'" for p' c' o' s'
    by (rule grows_trans [OF that(2) ih [OF that(1)]])
  then show "grows st (snd res)" using body by (auto simp: Let_def split: if_splits sum.splits)
qed

lemma grows_clean [simp]: "grows a s \<Longrightarrow> grows a (clean_path hk p m s)"
  by (auto simp: clean_path_def split: option.split)

lemma grows_find_link: "find_link hk a b c d n s = Some (r, s') \<Longrightarrow> grows s s'"
  by (auto simp: find_link_def Let_def split: option.splits prod.splits if_splits)

lemma grows_maybe_link: "maybe_link hk p s = Some (ml, s') \<Longrightarrow> grows s s'"
  by (auto simp: maybe_link_def Let_def split: option.splits if_splits dest!: grows_find_link)

lemma grows_open [simp]: "grows a s \<Longrightarrow> grows a (open_file hk p ml s)"
  by (auto simp: open_file_def Let_def)

lemma grows_zeros: "eat_zeros l s = Some s' \<Longrightarrow> grows s s'"
proof (induction l arbitrary: s)
  case (Cons b l)
  then show ?case using grows_trans [of s "eat 1 s" s'] by (auto split: if_splits)
qed (auto split: if_splits)

fun act_state :: "act_result \<Rightarrow> ird option" where
  "act_state (Again s) = Some s"
| "act_state (Stop s) = Some s"
| "act_state Crash = None"

lemma grows_do_name: "act_state (do_name hk st) = Some s \<Longrightarrow> grows st s"
proof -
  assume a: "act_state (do_name hk st) = Some s"
  let ?s0 = "\<lambda>p. clean_path hk p (h_mode st) (st\<lparr>fstate := SkipIt, next_state := Reset\<rparr>)"
  have c: "grows st (?s0 p)" for p by simp
  have m: "grows st s'" if "maybe_link hk q (?s0 p) = Some (ml, s')" for p q s' ml
    using grows_maybe_link [OF that] c grows_trans by blast
  show ?thesis using a
    by (auto simp: do_name_def Let_def dir_add_def free_hash_def do_utime_def intro: c
        split: option.splits if_splits prod.splits dest!: m)
qed

lemma grows_action:
  assumes "actions hk st = Some r" and "act_state r = Some s"
  shows "grows st s"
proof (cases "fstate st")
  case Start
  then show ?thesis using assms by (auto simp: actions_def do_start_def)
next
  case Collect
  then show ?thesis using assms by (auto simp: actions_def do_collect_def Let_def split: option.splits prod.splits if_splits)
next
  case GotHeader
  then show ?thesis using assms
    by (auto simp: actions_def do_header_def parse_header_def Let_def split: option.splits if_splits)
next
  case SkipIt
  then show ?thesis using assms by (auto simp: actions_def do_skip_def Let_def split: if_splits)
next
  case GotName
  then show ?thesis using assms grows_do_name by (auto simp: actions_def)
next
  case CopyFile
  then show ?thesis using assms
    by (auto simp: actions_def do_copy_def xwrite_def Let_def split: option.splits prod.splits if_splits dest!: grows_xwrite)
next
  case GotSymlink
  then show ?thesis using assms
    by (auto simp: actions_def do_symlink_def do_utime_def Let_def split: option.splits if_splits char_ptr.splits)
next
  case Reset
  then show ?thesis using assms
    by (auto simp: actions_def do_reset_def split: option.splits if_splits dest!: grows_zeros)
qed

lemma grows_loop:
  assumes w: "write_loop hk st = Some (Some s)"
  shows "grows st s"
proof -
  have "Some s = Some s' \<Longrightarrow> grows st s'" for s'
  proof (rule write_loop.raw_induct [where P = "\<lambda>_ st r. r = Some s' \<longrightarrow> grows st s'", OF _ w, THEN mp])
    fix f :: "ird_hooks \<Rightarrow> ird \<Rightarrow> ird option option" and hk st and r :: "ird option"
    assume ih: "\<And>hk st r. f hk st = Some r \<Longrightarrow> r = Some s' \<longrightarrow> grows st s'"
      and body: "(case actions hk st of None \<Rightarrow> None | Some Crash \<Rightarrow> Some None | Some (Stop st1) \<Rightarrow> Some (Some st1)
        | Some (Again st1) \<Rightarrow> f hk st1) = Some r"
    show "r = Some s' \<longrightarrow> grows st s'"
    proof (cases "actions hk st")
      case (Some x)
      show ?thesis
      proof (cases x)
        case (Again s1)
        have "grows st s1" using grows_action [OF Some] Again by simp
        then show ?thesis using ih body Some Again grows_trans by auto
      qed (use body Some grows_action [OF Some] in auto)
    qed (use body in simp)
  qed
  then show ?thesis by simp
qed

lemma grows_buffer: "write_buffer hk c l st = Some (Some (w, s)) \<Longrightarrow> grows st s"
  using grows_cong [of st st "st\<lparr>byte_count := l, victim := c\<rparr>"] grows_trans
  by (auto simp: write_buffer_def split: option.splits dest!: grows_loop)

end
