(* ===== verification/Initramfs_Props.thy ===== *)
theory Initramfs_Props
  imports Initramfs_Inv
begin

text \<open>
  The properties of the initramfs unpacker: every piece of input is processed in finite time, where
  a crash can come from, header parsing, hard links, and independence of how the input is cut into
  pieces.
\<close>

section \<open>Sample environment\<close>

definition hex_val :: "u8 \<Rightarrow> nat" where
  "hex_val c = (if 0x30 \<le> c \<and> c \<le> 0x39 then unat c - 0x30 else if 0x61 \<le> c \<and> c \<le> 0x66 then unat c - 87 else 0)"

definition fresh_bytes :: "nat \<Rightarrow> u8 list" where
  "fresh_bytes n = replicate n 0"

lemma length_fresh_bytes [simp]: "length (fresh_bytes n) = n"
  by (simp add: fresh_bytes_def)

definition sample_ihk :: ird_hooks where
  "sample_ihk =
     \<lparr>init_stat = (\<lambda>_ _. None), init_link = (\<lambda>_ _ _. None), filp_open = (\<lambda>_ _ _ _. True),
      kernel_write = (\<lambda>n data pos. Inr (of_nat (min 4 (length data)))),
      simple_strtoul = (\<lambda>s. of_nat (foldl (\<lambda>a c. 16 * a + hex_val c) 0 s mod 2 ^ 32)),
      encode_dev = (\<lambda>a b. ucast (256 * a + b)), kmalloc_ok = True, kstrdup_ok = (\<lambda>_. True), kmalloc_bytes = fresh_bytes,
      decompress_method = (\<lambda>_. (None, False))\<rparr>"

text \<open>The static variables at boot, with the buffers of \<open>unpack_to_rootfs\<close>.\<close>

definition boot_ird :: ird where
  "boot_ird =
     \<lparr>message = None, head = replicate 32 [], dir_list = [], h_mtime = 0, h_ino = 0, h_major = 0, h_minor = 0,
      h_nlink = 0, h_mode = 0, body_len = 0, name_len = 0, h_uid = 0, h_gid = 0, h_rdev = 0, fstate = Start,
      next_state = Start, victim = [], byte_count = 0, this_header = 0, next_header = 0, collected = InInput [],
      remains = 0, collect = (HeaderBuf, 0), header_buf = fresh_bytes 110, symlink_buf = fresh_bytes 8195,
      name_buf = fresh_bytes 4098, wfile_pos = 0, my_inptr = 0, writes = 0, ird_log = []\<rparr>"

lemma strtoul_ok_sample: "strtoul_ok sample_ihk"
  by (simp add: strtoul_ok_def sample_ihk_def unat_small)

lemma write_ok_sample: "write_ok sample_ihk"
proof -
  have "unat (of_nat (min 4 (length data)) :: u64) = min 4 (length data)" for data :: "u8 list"
    by (intro unat_small) (simp add: min_def)
  then show ?thesis by (simp add: write_ok_def sample_ihk_def interrupted_def)
qed

definition feed :: "u8 list \<Rightarrow> ird \<Rightarrow> ird" where
  "feed buf st = st\<lparr>byte_count := of_nat (length buf), victim := buf\<rparr>"


section \<open>Progress\<close>



text \<open>
  C37.  Memory safety: every read of the header, of the collected bytes, of the input that is copied, collected or
  skipped as padding, and every write into a buffer is checked against the end of its object, and
  an action of a machine in its invariant crashes only on a file name: one that is not terminated in
  the memory it was read from, or when the entry of a hard link or directory cannot be allocated or
  the entry of a link is too small for the name.  In particular no header is read past its 110 bytes, whether it lies
  in the input or was collected, and no collected header, name or link target runs over its buffer.
\<close>

theorem crash_only_on_names:
  assumes "ird_ok st" and "strtoul_ok hk" and "write_ok hk" and "actions hk st = Some Crash"
  shows "fstate st = GotName \<and>
    (0 \<notin> set (collected_mem st) \<or> \<not> kmalloc_ok hk \<or> 4097 < length (takeWhile (\<lambda>b. b \<noteq> 0) (collected_mem st)))"
proof -
  have g: "fstate st = GotName" using actions_good [OF assms(1-3)] assms(4) by (auto simp: good_step_def)
  have n: "unat (N_ALIGN PATH_MAX) = 4098" by (simp add: N_ALIGN_unat PATH_MAX_def)
  have fl: "\<not> kmalloc_ok hk \<or> 4097 < length p" if "find_link hk a b c m p s = None" for a b c m p s
    using that n by (auto simp: find_link_def Let_def split: prod.splits option.splits if_splits)
  have ml: "\<not> kmalloc_ok hk \<or> 4097 < length p" if "maybe_link hk p s = None" for p s
    using that fl by (auto simp: maybe_link_def Let_def split: option.splits if_splits)
  have "do_name hk st = Crash" using assms(4) g by (simp add: actions_def)
  then show ?thesis using g ml
    by (auto simp: do_name_def Let_def c_str_def dir_add_def split: option.splits if_splits prod.splits)
qed

text \<open>
  A name without terminator; and a header that is in the input exactly, with 110 bytes: it is read without a
  crash, as the theorem says of every header in the invariant, although one byte less in its fields would be a crash.
\<close>

theorem crash_only_on_names_witness:
  "let st = boot_ird\<lparr>fstate := GotName, collected := InInput [0x61]\<rparr>
   in actions sample_ihk st = Some Crash \<and> (0 \<notin> set (collected_mem st) \<or> \<not> kmalloc_ok sample_ihk \<or>
        4097 < length (takeWhile (\<lambda>b. b \<noteq> 0) (collected_mem st)))"
proof -
  define st where "st = boot_ird\<lparr>fstate := GotName, collected := InInput [0x61]\<rparr>"
  have ok: "ird_ok st" by (simp add: st_def ird_ok_def bufs_ok_def input_ok_def state_ok_def boot_ird_def)
  have c: "actions sample_ihk st = Some Crash"
    by (simp add: st_def actions_def do_name_def Let_def collected_mem_def c_str_def boot_ird_def)
  show ?thesis unfolding Let_def st_def [symmetric]
    using crash_only_on_names [OF ok strtoul_ok_sample write_ok_sample c] c by blast
qed

text \<open>Outside the invariant a short header is a crash.\<close>

lemma short_header_crashes:
  assumes "length (collected_mem st) < 102" and "take 6 (collected_mem st) = [0x30, 0x37, 0x30, 0x37, 0x30, 0x31]"
  shows "do_header hk st = Crash"
proof -
  have short: "parse_fields hk m off n = None" if "length m < off + 8 * n" "off \<le> length m" for m off n
    using that
  proof (induction n arbitrary: off)
    case (Suc n)
    then show ?case by (cases "off + 8 \<le> length m") (simp_all add: get_bytes_def)
  qed simp
  have "6 \<le> length (collected_mem st)" using arg_cong [OF assms(2), of length] by simp
  then show ?thesis using assms short [of "collected_mem st" 6 12] by (simp add: do_header_def parse_header_def)
qed

section \<open>The header\<close>

text \<open>The text form of a header: the magic number and twelve fields of eight hex digits.\<close>

definition hex_digit :: "nat \<Rightarrow> u8" where
  "hex_digit d = (if d < 10 then of_nat (0x30 + d) else of_nat (87 + d))"

definition hex8 :: "nat \<Rightarrow> u8 list" where
  "hex8 n = map (\<lambda>i. hex_digit (n div 16 ^ (7 - i) mod 16)) [0..<8]"

definition header_text :: "nat list \<Rightarrow> u8 list" where
  "header_text fs = [0x30, 0x37, 0x30, 0x37, 0x30, 0x31] @ concat (map hex8 fs)"

definition strtoul_hex :: "ird_hooks \<Rightarrow> bool" where
  "strtoul_hex hk \<longleftrightarrow> (\<forall>n < 2 ^ 32. simple_strtoul hk (hex8 n) = of_nat n)"

lemma length_hex8 [simp]: "length (hex8 n) = 8"
  by (simp add: hex8_def)

lemma take_field:
  assumes "i < length fs"
  shows "take 8 (drop (8 * i) (concat (map hex8 fs) @ rest)) = hex8 (fs ! i)"
  using assms
proof (induction fs arbitrary: i)
  case (Cons f fs)
  then show ?case by (cases i) simp_all
qed simp

lemma parse_field:
  assumes "strtoul_hex hk" and "length fs = 12" and "\<forall>f \<in> set fs. f < 2 ^ 32" and "i < 12"
  shows "simple_strtoul hk (take 8 (drop (6 + 8 * i) (header_text fs @ hex8 check))) = of_nat (fs ! i)"
proof -
  have "drop (6 + 8 * i) (header_text fs @ hex8 check) = drop (8 * i) (concat (map hex8 fs) @ hex8 check)"
    unfolding header_text_def append_assoc drop_append [of _ "[_, _, _, _, _, _]"] by simp
  then show ?thesis using assms take_field [of i fs "hex8 check"] by (simp add: strtoul_hex_def)
qed

text \<open>
  Header round trip: from the text form of twelve 32 bit fields, with the checksum field after them, \<open>parse_header\<close> recovers every
  field at its width: the mode is cut to 16 bits, the device number is encoded from its two fields.
\<close>

theorem parse_header_roundtrip:
  assumes "strtoul_hex hk" and "length fs = 12" and "\<forall>f \<in> set fs. f < 2 ^ 32"
  shows "parse_header hk (header_text fs @ hex8 check) st = Some
    (st\<lparr>h_ino := of_nat (fs ! 0), h_mode := ucast (of_nat (fs ! 1) :: u64), h_uid := of_nat (fs ! 2),
       h_gid := of_nat (fs ! 3), h_nlink := of_nat (fs ! 4), h_mtime := of_nat (fs ! 5), body_len := of_nat (fs ! 6),
       h_major := of_nat (fs ! 7), h_minor := of_nat (fs ! 8),
       h_rdev := encode_dev hk (of_nat (fs ! 9)) (of_nat (fs ! 10)), name_len := of_nat (fs ! 11)\<rparr>)"
proof -
  note f = parse_field [OF assms]
  have "length (concat (map hex8 fs)) = 8 * length fs" by (induction fs) simp_all
  then have "102 \<le> length (header_text fs @ hex8 check)" using assms(2) by (simp add: header_text_def)
  note p = parse_header_total [OF this]
  have "(ucast (of_nat (fs ! i) :: u64) :: u32) = of_nat (fs ! i)" if "i < 12" for i
    using assms that by (intro ucast_of_nat32) simp
  then show ?thesis unfolding p header_at_def set_header_def
    using f [of 0] f [of 1] f [of 2] f [of 3] f [of 4] f [of 5] f [of 6] f [of 7] f [of 8] f [of 9] f [of 10] f [of 11]
    by simp
qed

lemma hex_val_digit: "d < 16 \<Longrightarrow> hex_val (hex_digit d) = d"
proof -
  assume d: "d < 16"
  have "unat (48 + of_nat d :: u8) = 48 + d" "unat (87 + of_nat d :: u8) = 87 + d"
    using d by (simp_all add: unat_word_ariths unsigned_of_nat take_bit_nat_eq_self)
  then show ?thesis using d by (auto simp: hex_val_def hex_digit_def word_le_nat_alt)
qed

lemma digits_value: "foldl (\<lambda>a k. 16 * a + n div 16 ^ k mod 16) (n div 16 ^ m) (rev [0..<m]) = (n :: nat)"
proof (induction m)
  case (Suc m)
  have "16 * (n div 16 ^ Suc m) + n div 16 ^ m mod 16 = n div 16 ^ m"
    by (simp add: div_mult2_eq power_Suc2 del: power_Suc)
  then show ?case using Suc by simp
qed simp

lemma strtoul_hex_sample: "strtoul_hex sample_ihk"
proof -
  have h: "hex8 n = map (\<lambda>k. hex_digit (n div 16 ^ k mod 16)) (rev [0..<8])" for n
    by (simp add: hex8_def upt_rec)
  have "foldl (\<lambda>a c. 16 * a + hex_val c) 0 (hex8 n) = n" if "n < 2 ^ 32" for n
    using digits_value [of n 8] that unfolding h foldl_map by (simp add: hex_val_digit)
  then show ?thesis by (simp add: strtoul_hex_def sample_ihk_def)
qed

theorem parse_header_roundtrip_witness:
  "body_len (the (parse_header sample_ihk (header_text [1, 33188, 0, 0, 1, 0, 300, 0, 0, 0, 0, 5] @ hex8 0) boot_ird)) = 300"
  using parse_header_roundtrip [OF strtoul_hex_sample, of "[1, 33188, 0, 0, 1, 0, 300, 0, 0, 0, 0, 5]" 0 boot_ird] by simp

section \<open>Hard links\<close>

text \<open>The link hash as a map from device, inode and file type to the first name.\<close>

definition link_of :: "ird \<Rightarrow> u32 \<times> u32 \<times> u32 \<times> u16 \<Rightarrow> cstring option" where
  "link_of st k = (case k of (maj, mnr, i, ty) \<Rightarrow>
     map_option lh_name
       (find (\<lambda>p. lh_ino p = i \<and> lh_minor p = mnr \<and> lh_major p = maj \<and> lh_mode p AND S_IFMT = ty) (head st ! hash maj mnr i)))"

lemma same_type: "((a XOR b) AND S_IFMT = 0) = (a AND S_IFMT = b AND (S_IFMT :: u16))"
  by (auto simp: bit_eq_iff bit_and_iff bit_xor_iff)

lemma find_link_walk_spec:
  assumes "find_link_walk maj mnr i m name chain = (r, chain')"
  shows "r = map_option lh_name (find (\<lambda>p. lh_ino p = i \<and> lh_minor p = mnr \<and> lh_major p = maj \<and>
           lh_mode p AND S_IFMT = m AND S_IFMT) chain)"
    and "chain' = (if r = None
           then chain @ [\<lparr>lh_ino = i, lh_minor = mnr, lh_major = maj, lh_mode = m, lh_name = name\<rparr>] else chain)"
  using assms
proof (induction chain arbitrary: r chain')
  case (Cons p chain)
  {
    case 1
    then show ?case using Cons.IH by (auto simp: same_type split: if_splits prod.splits)
  next
    case 2
    then show ?case using Cons.IH by (auto simp: same_type split: if_splits prod.splits)
  }
qed auto

lemma hash_lt: "hash a b c < 32"
proof -
  have "w AND 0x1F \<le> (0x1F :: u64)" for w by (rule word_and_le1)
  then have "unat (w AND 0x1F :: u64) \<le> 31" for w by (simp add: word_le_nat_alt)
  then have "unat (w AND 0x1F :: u64) < 32" for w by (rule le_less_trans) simp
  then show ?thesis unfolding hash_def Let_def .
qed

lemma find_append: "find P (xs @ ys) = (case find P xs of None \<Rightarrow> find P ys | Some x \<Rightarrow> Some x)"
  by (induction xs) simp_all

text \<open>
  C32.  The link hash implements a map: \<open>find_link\<close> returns the name that was entered first for the same
  device, inode and file type; when there is none, it enters the name under that key and
  changes no other key, whatever chains the keys share.
\<close>

theorem find_link_refines:
  assumes "length (head st) = 32" and "find_link hk maj mnr i m name st = Some (r, st')"
  shows "r = link_of st (maj, mnr, i, m AND S_IFMT) \<and>
    link_of st' = (if r = None then (link_of st)((maj, mnr, i, m AND S_IFMT) \<mapsto> name) else link_of st)"
proof -
  let ?h = "hash maj mnr i"
  obtain r1 chain where w: "find_link_walk maj mnr i m name (head st ! ?h) = (r1, chain)" by force
  note spec = find_link_walk_spec [OF w]
  have r: "r = r1" and st': "r1 = None \<Longrightarrow> st' = st\<lparr>head := (head st)[?h := chain]\<rparr>" "r1 \<noteq> None \<Longrightarrow> st' = st"
    using assms(2) w by (auto simp: find_link_def Let_def split: option.splits if_splits)
  have lk: "r1 = link_of st (maj, mnr, i, m AND S_IFMT)" using spec(1) by (simp add: link_of_def)
  show ?thesis
  proof (cases "r1 = None")
    case False
    then show ?thesis using r lk st'(2) by auto
  next
    case True
    let ?e = "\<lparr>lh_ino = i, lh_minor = mnr, lh_major = maj, lh_mode = m, lh_name = name\<rparr>"
    have hd: "head st' ! hash a b c = (if hash a b c = ?h then head st ! ?h @ [?e] else head st ! hash a b c)" for a b c
      using st'(1) True spec(2) hash_lt [of maj mnr i] assms(1) by (simp add: nth_list_update)
    have none: "find (\<lambda>p. lh_ino p = i \<and> lh_minor p = mnr \<and> lh_major p = maj \<and> lh_mode p AND S_IFMT = m AND S_IFMT)
        (head st ! ?h) = None" using spec(1) True by simp
    have "link_of st' (a, b, c, t) = ((link_of st)((maj, mnr, i, m AND S_IFMT) \<mapsto> name)) (a, b, c, t)" for a b c t
      using none by (auto simp: link_of_def hd find_append split: option.split)
    then show ?thesis using r lk True by auto
  qed
qed

lemma boot_find_link:
  "find_link sample_ihk maj mnr i m [0x61] boot_ird = Some (None, snd (the (find_link sample_ihk maj mnr i m [0x61] boot_ird)))"
proof -
  have "head boot_ird ! hash maj mnr i = []" using hash_lt [of maj mnr i] by (simp add: boot_ird_def)
  then show ?thesis by (simp add: find_link_def Let_def sample_ihk_def N_ALIGN_def PATH_MAX_def)
qed

theorem find_link_refines_witness:
  "let st1 = snd (the (find_link sample_ihk 8 1 77 0x81A4 [0x61] boot_ird))
   in link_of st1 (8, 1, 77, 0x8000) = Some [0x61] \<and> link_of st1 (8, 1, 78, 0x8000) = link_of boot_ird (8, 1, 78, 0x8000)"
proof -
  have "length (head boot_ird) = 32" by (simp add: boot_ird_def)
  moreover have "0x81A4 AND S_IFMT = 0x8000" by (simp add: S_IFMT_def)
  ultimately show ?thesis using find_link_refines [OF _ boot_find_link, of 8 1 77 "0x81A4"] unfolding Let_def by simp
qed

section \<open>Input in pieces\<close>

text \<open>
  Feeding the pieces of an input one after the other, as the decompressors do.
\<close>

fun write_pieces :: "ird_hooks \<Rightarrow> u8 list list \<Rightarrow> ird \<Rightarrow> ird option option" where
  "write_pieces hk [] st = Some (Some st)"
| "write_pieces hk (c # cs) st =
     (case write_buffer hk c (of_nat (length c)) st of
        None \<Rightarrow> None | Some None \<Rightarrow> Some None | Some (Some (w, st1)) \<Rightarrow> write_pieces hk cs st1)"

text \<open>Between two pieces nothing of the input is left.\<close>

definition between :: "ird \<Rightarrow> nat \<Rightarrow> bool" where
  "between st room \<longleftrightarrow> bufs_ok st \<and> unat (body_len st) < 2 ^ 32 \<and> unat (name_len st) < 2 ^ 32 \<and> state_ok st \<and>
     unat (this_header st) + room < 2 ^ 62"

lemma feed_frame [simp]:
  "fstate (feed c st) = fstate st" "next_state (feed c st) = next_state st" "this_header (feed c st) = this_header st"
  "next_header (feed c st) = next_header st" "body_len (feed c st) = body_len st" "name_len (feed c st) = name_len st"
  "header_buf (feed c st) = header_buf st" "symlink_buf (feed c st) = symlink_buf st" "name_buf (feed c st) = name_buf st"
  "collected (feed c st) = collected st" "collect (feed c st) = collect st" "remains (feed c st) = remains st"
  "message (feed c st) = message st" "ird_log (feed c st) = ird_log st" "victim (feed c st) = c"
  "byte_count (feed c st) = of_nat (length c)"
  by (simp_all add: feed_def)

lemma collected_mem_feed [simp]: "collected_mem (feed c st) = collected_mem st"
  by (rule collected_mem_cong) simp_all

lemma state_ok_feed [simp]: "state_ok (feed c st) = state_ok st"
  by (auto simp: state_ok_def collect_ok_def split: fsm_state.split prod.split buf_id.split)

lemma between_feed: "between st room \<Longrightarrow> length c \<le> room \<Longrightarrow> length c < 2 ^ 32 \<Longrightarrow> ird_ok (feed c st)"
  by (simp add: between_def ird_ok_def input_ok_def bufs_ok_def)

lemma grows_pieces: "write_pieces hk cs st = Some (Some s) \<Longrightarrow> grows st s"
proof (induction cs arbitrary: st)
  case (Cons c cs)
  then obtain w s1 where "write_buffer hk c (of_nat (length c)) st = Some (Some (w, s1))" "write_pieces hk cs s1 = Some (Some s)"
    by (auto split: option.splits prod.splits)
  then show ?case using grows_buffer Cons.IH grows_trans by blast
qed simp

lemma eat_more [simp]: "wfile_pos (eat n s) = wfile_pos s" "h_mtime (eat n s) = h_mtime s"
  by (simp_all add: eat_def)

lemma log_error_more [simp]:
  "wfile_pos (error m s) = wfile_pos s" "h_mtime (error m s) = h_mtime s" "ird_log (error m s) = ird_log s"
  "wfile_pos (feed c s) = wfile_pos s" "h_mtime (feed c s) = h_mtime s"
  by (simp_all add: error_def feed_def)

lemma copy_piece:
  assumes hk: "write_ok hk" and b: "between st room" and st: "fstate st = CopyFile"
    and c: "length c \<le> room" "length c < unat (body_len st)"
  obtains st' ws where "write_buffer hk c (of_nat (length c)) st = Some (Some (of_nat (length c), st'))"
    "between st' (room - length c)" "fstate st' = CopyFile" "unat (body_len st') = unat (body_len st) - length c"
    "ird_log st' = ird_log st @ ws" "placed (wfile_pos st) ws" "h_mtime st' = h_mtime st"
    "message st' = None \<Longrightarrow> message st = None \<and> written ws = c \<and> wfile_pos st' = wfile_pos st + of_nat (length c)"
proof -
  let ?s = "feed c st"
  have cl: "length c < 2 ^ 32" using b c(2) by (simp add: between_def)
  have ok: "ird_ok ?s" by (rule between_feed [OF b c(1) cl])
  have s: "fstate ?s = CopyFile" "victim ?s = c" "byte_count ?s = of_nat (length c)" "body_len ?s = body_len st"
    using st by simp_all
  have nle: "\<not> body_len ?s \<le> byte_count ?s" using c(2) cl s by (simp add: word_le_nat_alt unat_small)
  have le: "unat (byte_count ?s) \<le> length c" using cl s by (simp add: unat_small)
  obtain r s1 where x: "xwrite hk c (byte_count ?s) ?s = Some (r, s1)" "xwrite_post c 0 ?s r s1"
    by (rule xwrite_returns [OF hk le])
  obtain k ws where w: "k \<le> length c" "ird_log s1 = ird_log ?s @ ws" "written ws = take k c" "\<forall>n. r = Inr n \<longrightarrow> n = of_nat k"
    and m: "message s1 = message ?s" and pl: "placed (wfile_pos st) ws" "wfile_pos s1 = wfile_pos st + of_nat k"
    using x(2) by (auto simp: xwrite_post_def)
  define s2 where "s2 = (if r \<noteq> Inr (byte_count ?s) then error WriteError s1 else s1)"
  define st' where "st' = eat (ucast (byte_count ?s)) (s2\<lparr>body_len := body_len ?s - byte_count ?s\<rparr>)"
  have run: "do_copy hk ?s = Some (Stop st')"
    using nle x(1) le unfolding do_copy_def s(2) by (simp add: s2_def st'_def Let_def)
  obtain r' where g: "do_copy hk ?s = Some r'" "good_step ?s r'" using do_copy_good [OF ok s(1) hk] by blast
  have gs: "good_step ?s (Stop st')" using run g by simp
  have sm: "same_machine s2 ?s" using x(2) by (simp add: s2_def xwrite_post_def)
  define s3 where "s3 = s2\<lparr>body_len := body_len ?s - byte_count ?s\<rparr>"
  have i3: "input_ok s3" "victim s3 = c" "this_header s3 = this_header st"
    using same_machine_input [OF sm] ok sm by (simp_all add: s3_def ird_ok_def input_ok_def same_machine_def)
  have e: "victim st' = []" "unat (this_header st') = unat (this_header st) + length c"
    using eat_word(2,3) [OF i3(1), of "byte_count ?s"] i3(2,3) cl by (simp_all add: st'_def s3_def unat_small)
  have ok': "ird_ok st'" using gs by (simp add: good_step_def)
  then have bc: "byte_count st' = 0" using e(1) by (simp add: ird_ok_def input_ok_def)
  have fs: "fstate st' = CopyFile" using x(2) st by (simp add: st'_def s2_def xwrite_post_def)
  have "write_loop hk ?s = Some (Some st')" using run s(1) by (subst write_loop.simps) (simp add: actions_def)
  then have wb: "write_buffer hk c (of_nat (length c)) st = Some (Some (of_nat (length c), st'))"
    using bc by (simp add: write_buffer_def feed_def)
  have bl: "unat (body_len st') = unat (body_len st) - length c"
    using nle cl by (simp add: st'_def unat_sub unat_small)
  have lg: "ird_log st' = ird_log st @ ws" using w(2) by (simp add: st'_def s2_def)
  have mt: "h_mtime st' = h_mtime st" using sm by (simp add: st'_def same_machine_def)
  have ms: "message st = None \<and> written ws = c \<and> wfile_pos st' = wfile_pos st + of_nat (length c)" if "message st' = None"
  proof -
    have "message s2 = None" using that by (simp add: st'_def)
    then have "r = Inr (byte_count ?s)" "message s1 = None" by (auto simp: s2_def split: if_splits)
    moreover have "length c = k" if "(of_nat (length c) :: u64) = of_nat k"
    proof -
      have "length c = unat (of_nat (length c) :: u64)" by (rule unat_small(1) [OF cl, symmetric])
      also have "\<dots> = k" unfolding that by (rule unat_small(1)) (use w(1) cl in linarith)
      finally show ?thesis .
    qed
    ultimately have "length c = k" "message s1 = None" using w(4) by auto
    then show ?thesis using w(3) m pl(2) by (simp add: st'_def s2_def)
  qed
  have "between st' (room - length c)"
    using b ok' e(2) c(1) by (simp add: between_def ird_ok_def)
  then show ?thesis by (rule that [OF wb _ fs bl lg pl(1) mt ms])
qed

text \<open>The piece that completes the body: what is left of it is written, then the file is closed.\<close>

lemma copy_last:
  assumes hk: "write_ok hk" and b: "between st room" and st: "fstate st = CopyFile"
    and c: "length c \<le> room" "length c < 2 ^ 32" "unat (body_len st) \<le> length c"
    and run: "write_buffer hk c (of_nat (length c)) st = Some (Some (w, st'))" and msg: "message st' = None"
  obtains ws later where "ird_log st' = ird_log st @ ws @ [FsUtimes (h_mtime st), FsFput] @ later"
    "placed (wfile_pos st) ws" "written ws = take (unat (body_len st)) c" "message st = None"
proof -
  let ?s = "feed c st"
  have ok: "ird_ok ?s" by (rule between_feed [OF b c(1,2)])
  have s: "fstate ?s = CopyFile" "victim ?s = c" "byte_count ?s = of_nat (length c)" "body_len ?s = body_len st"
    using st by simp_all
  have le: "body_len ?s \<le> byte_count ?s" using c(2,3) by (simp add: word_le_nat_alt unat_small)
  obtain r s1 where x: "xwrite hk c (body_len st) ?s = Some (r, s1)" "xwrite_post c 0 ?s r s1"
    by (rule xwrite_returns [OF hk c(3)])
  obtain k ws where p: "k \<le> length c" "ird_log s1 = ird_log ?s @ ws" "written ws = take k c" "placed (wfile_pos st) ws"
    "\<forall>n. r = Inr n \<longrightarrow> n = of_nat k" and m: "message s1 = message ?s" and sm: "same_machine s1 ?s"
    using x(2) by (auto simp: xwrite_post_def)
  define s2 where "s2 = (if r \<noteq> Inr (body_len st) then error WriteError s1 else s1)"
  define s3 where "s3 = log_event FsFput (log_event (FsUtimes (h_mtime st)) s2)"
  define s4 where "s4 = (eat (ucast (body_len st)) s3)\<lparr>fstate := SkipIt\<rparr>"
  have act: "actions hk ?s = Some (Again s4)"
    using s le x(1) c(3) by (simp add: actions_def do_copy_def s4_def s3_def s2_def Let_def)
  then have "write_loop hk ?s = write_loop hk s4" by (subst write_loop.simps) simp
  then have "write_loop hk s4 = Some (Some st')"
    using run by (auto simp: write_buffer_def feed_def split: option.splits)
  then have g: "grows s4 st'" by (rule grows_loop)
  have m2: "message s2 = None" using g msg by (simp add: grows_def s4_def s3_def log_event_def)
  then have r: "r = Inr (body_len st)" and m1: "message s1 = None" by (auto simp: s2_def error_def split: if_splits)
  have k: "k = unat (body_len st)" using p(1,5) r c(2) by (simp add: unat_small)
  have l4: "ird_log s4 = ird_log st @ ws @ [FsUtimes (h_mtime st), FsFput]"
    using p(2) by (simp add: s4_def s3_def s2_def log_event_def)
  obtain later where "ird_log st' = ird_log s4 @ later" using g by (auto simp: grows_def prefix_def)
  then have "ird_log st' = ird_log st @ ws @ [FsUtimes (h_mtime st), FsFput] @ later" using l4 by simp
  then show ?thesis by (rule that) (use p m1 m k in simp_all)
qed

text \<open>
  C27.  The contents of a file do not depend on the pieces the archive arrives in.  Wherever the input is cut,
  within the body or behind its end: after any sequence of pieces without an error the first
  \<open>body_len\<close> bytes of their concatenation were written, in order and each at its place in the file;
  as long as the body is not complete nothing else happens, and when it is, the times are set and
  the file is closed directly behind the last byte, whatever the rest of the input does later.
\<close>

theorem file_body_pieces:
  assumes "write_ok hk" and "between st (length (concat cs))" and "fstate st = CopyFile" and "\<forall>c \<in> set cs. length c < 2 ^ 32"
    and "write_pieces hk cs st = Some (Some st')" and "message st' = None"
  shows "\<exists>ws. placed (wfile_pos st) ws \<and> written ws = take (unat (body_len st)) (concat cs) \<and>
    (if cs = [] \<or> length (concat cs) < unat (body_len st)
     then ird_log st' = ird_log st @ ws \<and> fstate st' = CopyFile \<and> unat (body_len st') = unat (body_len st) - length (concat cs)
     else \<exists>later. ird_log st' = ird_log st @ ws @ [FsUtimes (h_mtime st), FsFput] @ later)"
  using assms(2-)
proof (induction cs arbitrary: st)
  case Nil
  then show ?case by (intro exI [of _ "[]"]) simp
next
  case (Cons c cs)
  have l: "length c \<le> length (concat (c # cs))" "length c < 2 ^ 32" using Cons.prems(3) by simp_all
  obtain w s1 where run: "write_buffer hk c (of_nat (length c)) st = Some (Some (w, s1))" "write_pieces hk cs s1 = Some (Some st')"
    using Cons.prems(4) by (auto split: option.splits prod.splits)
  have g: "grows s1 st'" by (rule grows_pieces [OF run(2)])
  have m1: "message s1 = None" using g Cons.prems(5) by (simp add: grows_def)
  show ?case
  proof (cases "length c < unat (body_len st)")
    case True
    obtain ws where p: "between s1 (length (concat (c # cs)) - length c)" "fstate s1 = CopyFile"
      "unat (body_len s1) = unat (body_len st) - length c" "ird_log s1 = ird_log st @ ws" "placed (wfile_pos st) ws"
      "h_mtime s1 = h_mtime st" "written ws = c" "wfile_pos s1 = wfile_pos st + of_nat (length c)"
      by (rule copy_piece [OF assms(1) Cons.prems(1,2) l(1) True]) (use run(1) m1 in auto)
    have b1: "between s1 (length (concat cs))" and ps: "\<forall>c \<in> set cs. length c < 2 ^ 32" using p(1) Cons.prems(3) by simp_all
    obtain ws2 where ih: "placed (wfile_pos s1) ws2" "written ws2 = take (unat (body_len s1)) (concat cs)"
      "if cs = [] \<or> length (concat cs) < unat (body_len s1)
       then ird_log st' = ird_log s1 @ ws2 \<and> fstate st' = CopyFile \<and> unat (body_len st') = unat (body_len s1) - length (concat cs)
       else \<exists>later. ird_log st' = ird_log s1 @ ws2 @ [FsUtimes (h_mtime s1), FsFput] @ later"
      using Cons.IH [OF b1 p(2) ps run(2) Cons.prems(5)] by blast
    have pw: "placed (wfile_pos st) (ws @ ws2)" using p(5,7,8) ih(1) by (simp add: placed_append)
    have ww: "written (ws @ ws2) = take (unat (body_len st)) (concat (c # cs))"
      using p(3,7) ih(2) True by (simp)
    have fin: "cs = [] \<or> length (concat cs) < unat (body_len s1) \<longleftrightarrow> length (concat (c # cs)) < unat (body_len st)"
      using p(3) True by auto
    show ?thesis
    proof (cases "length (concat (c # cs)) < unat (body_len st)")
      case less: True
      then show ?thesis using pw ww ih(3) p(3,4) fin by (intro exI [of _ "ws @ ws2"]) simp
    next
      case False
      then show ?thesis using pw ww ih(3) p(4,6) fin by (intro exI [of _ "ws @ ws2"]) auto
    qed
  next
    case False
    then have bl: "unat (body_len st) \<le> length c" by simp
    obtain ws later where p: "ird_log s1 = ird_log st @ ws @ [FsUtimes (h_mtime st), FsFput] @ later"
      "placed (wfile_pos st) ws" "written ws = take (unat (body_len st)) c"
      using copy_last [OF assms(1) Cons.prems(1,2) l bl run(1) m1] by metis
    obtain more where "ird_log st' = ird_log s1 @ more" using g by (auto simp: grows_def prefix_def)
    then have "\<exists>later. ird_log st' = ird_log st @ ws @ [FsUtimes (h_mtime st), FsFput] @ later" using p(1) by simp
    then show ?thesis using p(2,3) bl by (intro exI [of _ ws]) simp
  qed
qed

definition copy_ird :: ird where
  "copy_ird = boot_ird\<lparr>fstate := CopyFile, next_state := Reset, body_len := 3, next_header := 12\<rparr>"

lemma sample_xwrite:
  assumes "0 < n" and "n \<le> 4" and "n \<le> length c"
  shows "xwrite sample_ihk c (of_nat n) st = Some (Inr (of_nat n),
    log_event (FsWrite (take n c) (wfile_pos st)) (st\<lparr>writes := Suc (writes st), wfile_pos := wfile_pos st + of_nat n\<rparr>))"
proof -
  have u: "unat (of_nat n :: u64) = n" using assms(2) by (intro unat_small) simp
  then have nz: "(of_nat n :: u64) \<noteq> 0" using assms(1) by auto
  have "kernel_write sample_ihk (writes st) (take (unat (of_nat n :: u64)) c) (wfile_pos st) = Inr (of_nat n)"
    using u assms(2,3) by (simp add: sample_ihk_def min_absorb2)
  then show ?thesis using nz u unfolding xwrite_def
    by (subst xwrite_loop.simps) (simp add: xwrite_loop.simps [of _ _ 0])
qed

text \<open>The first piece ends within the body, the second one completes it and begins the padding.\<close>

lemma copy_run: "\<exists>st'. write_pieces sample_ihk [[1, 2], [3, 0]] copy_ird = Some (Some st') \<and> message st' = None"
proof -
  let ?a = "feed [1, 2] copy_ird"
  have c: "fstate copy_ird = CopyFile" "body_len copy_ird = 3" "message copy_ird = None" "this_header copy_ird = 0"
    "next_header copy_ird = 12"
    by (simp_all add: copy_ird_def boot_ird_def)
  have "xwrite sample_ihk [1, 2] 2 ?a = Some (Inr 2, log_event (FsWrite [1, 2] (wfile_pos ?a))
      (?a\<lparr>writes := Suc (writes ?a), wfile_pos := wfile_pos ?a + 2\<rparr>))"
    using sample_xwrite [of 2 "[1, 2]" ?a] by simp
  then have "\<exists>s1. do_copy sample_ihk ?a = Some (Stop s1) \<and> fstate s1 = CopyFile \<and> body_len s1 = 1 \<and> message s1 = None \<and>
      this_header s1 = 2 \<and> next_header s1 = 12"
    using c by (simp add: do_copy_def Let_def log_event_def eat_def)
  then obtain s1 where a: "do_copy sample_ihk ?a = Some (Stop s1)" and s1: "fstate s1 = CopyFile" "body_len s1 = 1"
    "message s1 = None" "this_header s1 = 2" "next_header s1 = 12" by blast
  have "write_loop sample_ihk ?a = Some (Some s1)" using a c by (subst write_loop.simps) (simp add: actions_def)
  then have w1: "\<exists>w. write_buffer sample_ihk [1, 2] 2 copy_ird = Some (Some (w, s1))" by (simp add: write_buffer_def feed_def)
  let ?b = "feed [3, 0] s1"
  have "xwrite sample_ihk [3, 0] 1 ?b = Some (Inr 1, log_event (FsWrite [3] (wfile_pos ?b))
      (?b\<lparr>writes := Suc (writes ?b), wfile_pos := wfile_pos ?b + 1\<rparr>))"
    using sample_xwrite [of 1 "[3, 0]" ?b] by simp
  then have "\<exists>s2. do_copy sample_ihk ?b = Some (Again s2) \<and> fstate s2 = SkipIt \<and> message s2 = None \<and>
      this_header s2 = 3 \<and> next_header s2 = 12 \<and> byte_count s2 = 1"
    using s1 by (simp add: do_copy_def Let_def log_event_def eat_def)
  then obtain s2 where b: "do_copy sample_ihk ?b = Some (Again s2)" and s2: "fstate s2 = SkipIt" "message s2 = None"
    "this_header s2 = 3" "next_header s2 = 12" "byte_count s2 = 1" by blast
  have "write_loop sample_ihk ?b = write_loop sample_ihk s2" using b s1 by (subst write_loop.simps) (simp add: actions_def)
  also have "\<dots> = Some (Some (eat (ucast (byte_count s2)) s2))"
    using s2 by (subst write_loop.simps) (simp add: actions_def do_skip_def)
  finally have "\<exists>w s3. write_buffer sample_ihk [3, 0] 2 s1 = Some (Some (w, s3)) \<and> message s3 = None"
    using s2(2) by (simp add: write_buffer_def feed_def)
  then show ?thesis using w1 by auto
qed

theorem file_body_pieces_witness:
  "\<exists>st' ws later. write_pieces sample_ihk [[1, 2], [3, 0]] copy_ird = Some (Some st') \<and> written ws = [1, 2, 3] \<and>
     ird_log st' = ird_log copy_ird @ ws @ [FsUtimes 0, FsFput] @ later"
proof -
  obtain st' where st': "write_pieces sample_ihk [[1, 2], [3, 0]] copy_ird = Some (Some st')" "message st' = None"
    using copy_run by blast
  have b: "between copy_ird (length (concat [[1, 2], [3, 0 :: u8]]))" and f: "fstate copy_ird = CopyFile"
    and l: "\<forall>c \<in> set [[1, 2], [3, 0 :: u8]]. length c < 2 ^ 32"
    and h: "h_mtime copy_ird = 0" "unat (body_len copy_ird) = 3"
    by (simp_all add: between_def copy_ird_def boot_ird_def bufs_ok_def state_ok_def)
  from file_body_pieces [OF write_ok_sample b f l st'] st'(1) h show ?thesis by auto
qed

text \<open>The bytes of a header, name or link that were collected so far.\<close>

definition gathered :: "ird \<Rightarrow> u8 list" where
  "gathered st = (case collect st of (b, off) \<Rightarrow> take off (buf_of st b))"

lemma buf_of_set: "buf_of (set_buf b l st) b = l"
  by (simp add: buf_of_def set_buf_def split: buf_id.split)

lemma collect_piece:
  assumes b: "between st room" and st: "fstate st = Collect" and c: "length c \<le> room" "length c < unat (remains st)"
  obtains st' where "write_buffer hk c (of_nat (length c)) st = Some (Some (of_nat (length c), st'))"
    "between st' (room - length c)" "fstate st' = Collect" "unat (remains st') = unat (remains st) - length c"
    "next_state st' = next_state st" "gathered st' = gathered st @ c" "fst (collect st') = fst (collect st)"
proof -
  let ?s = "feed c st"
  have co: "collect_ok st" using b st by (simp add: between_def state_ok_def)
  have cl: "length c < 2 ^ 32" using co c(2) by (auto simp: collect_ok_def)
  have ok: "ird_ok ?s" by (rule between_feed [OF b c(1) cl])
  have s: "fstate ?s = Collect" using st by simp
  obtain bf off where cf: "collect ?s = (bf, off)" by force
  define n where "n = min (length (victim ?s)) (unat (remains ?s))"
  have n: "n = length c" using c(2) by (simp add: n_def)
  obtain mem st1 where p: "put_bytes (buf_of ?s bf) off (take n (victim ?s)) = Some mem"
    "st1 = (eat (of_nat n) (set_buf bf mem ?s))\<lparr>collect := (bf, off + n), remains := remains ?s - of_nat n\<rparr>"
    "do_collect ?s = (if n < unat (remains ?s) then Stop st1 else Again (st1\<lparr>fstate := next_state ?s\<rparr>))"
    "input_ok st1" "bufs_ok st1" "victim st1 = drop n (victim ?s)"
    "unat (this_header st1) = unat (this_header ?s) + n" "unat (remains st1) = unat (remains ?s) - n"
    unfolding n_def using do_collect_steps [OF ok s cf] .
  have run: "do_collect ?s = Stop st1" using p(3) n c(2) by simp
  have ok1: "ird_ok st1" using do_collect_good [OF ok s] run by (simp add: good_step_def)
  have "byte_count st1 = 0" using p(4,6) n by (simp add: input_ok_def)
  moreover have "write_loop hk ?s = Some (Some st1)" using run s by (subst write_loop.simps) (simp add: actions_def)
  ultimately have wb: "write_buffer hk c (of_nat (length c)) st = Some (Some (of_nat (length c), st1))"
    by (simp add: write_buffer_def feed_def)
  have mem: "buf_of st1 bf = mem" using p(2) buf_of_set [of bf mem ?s] by (simp add: buf_of_def split: buf_id.splits)
  have "take (off + n) mem = take off (buf_of ?s bf) @ c"
    using p(1) n by (auto simp: put_bytes_def split: if_splits)
  then have g: "gathered st1 = gathered st @ c"
    using cf mem p(2) by (simp add: gathered_def) (simp add: buf_of_def split: buf_id.split)
  have "between st1 (room - length c)"
    using b ok1 p(7) n c(1) by (simp add: between_def ird_ok_def)
  then show ?thesis
    by (rule that [OF wb _ _ _ _ g]) (use p(2,8) n st cf in simp_all)
qed

text \<open>
  What is collected does not depend on the pieces either: as long as a header, name or link target
  is not complete, the buffer holds the bytes of all pieces so far in order, and only the
  number of missing bytes changes.
\<close>

theorem collected_pieces:
  assumes "between st (length (concat cs))" and "fstate st = Collect" and "length (concat cs) < unat (remains st)"
  shows "\<exists>st'. write_pieces hk cs st = Some (Some st') \<and> gathered st' = gathered st @ concat cs \<and> fstate st' = Collect \<and>
    next_state st' = next_state st \<and> unat (remains st') = unat (remains st) - length (concat cs)"
  using assms
proof (induction cs arbitrary: st)
  case (Cons c cs)
  have l: "length c \<le> length (concat (c # cs))" "length c < unat (remains st)" using Cons.prems(3) by simp_all
  obtain s1 where p: "write_buffer hk c (of_nat (length c)) st = Some (Some (of_nat (length c), s1))"
    "between s1 (length (concat (c # cs)) - length c)" "fstate s1 = Collect" "unat (remains s1) = unat (remains st) - length c"
    "next_state s1 = next_state st" "gathered s1 = gathered st @ c"
    using collect_piece [OF Cons.prems(1,2) l] by metis
  have "between s1 (length (concat cs))" "length (concat cs) < unat (remains s1)" using p(2,4) Cons.prems(3) by simp_all
  from Cons.IH [OF this(1) p(3) this(2)] show ?case using p by auto
qed simp

theorem collected_pieces_witness:
  "\<exists>st'. write_pieces sample_ihk [[1, 2], [], [3]] (boot_ird\<lparr>fstate := Collect, next_state := GotHeader, remains := 110,
       collected := InBuf HeaderBuf\<rparr>) = Some (Some st') \<and> gathered st' = [1, 2, 3]"
proof -
  let ?st = "boot_ird\<lparr>fstate := Collect, next_state := GotHeader, remains := 110, collected := InBuf HeaderBuf\<rparr>"
  have "between ?st (length (concat [[1, 2], [], [3 :: u8]]))"
    by (simp add: between_def boot_ird_def bufs_ok_def state_ok_def collect_ok_def)
  moreover have "length (concat [[1, 2], [], [3 :: u8]]) < unat (remains ?st)" by simp
  moreover have "gathered ?st = []" by (simp add: gathered_def boot_ird_def)
  ultimately show ?thesis using collected_pieces [of ?st "[[1, 2], [], [3]]" sample_ihk] by auto
qed

section \<open>Malformed entries\<close>

text \<open>
  An entry that is skipped for its name length after its header was collected from several
  pieces: the machine comes back to the same header and reads it again, because \<open>next_state\<close> still
  is the state that collecting the header left there.
\<close>

theorem skipped_header_read_again:
  assumes "ird_ok st" and "strtoul_ok hk" and "fstate st = GotHeader" and "next_state st = GotHeader" and "collected st = InBuf b"
    and "take 6 (collected_mem st) = [0x30, 0x37, 0x30, 0x37, 0x30, 0x31]"
    and "simple_strtoul hk (take 8 (drop 94 (collected_mem st))) = 0"
    and "unat (next_header (after_header hk st)) \<le> unat (this_header st) + length (victim st)"
  shows "\<exists>s1 s2. actions hk st = Some (Again s1) \<and> actions hk s1 = Some (Again s2) \<and>
    fstate s2 = GotHeader \<and> collected_mem s2 = collected_mem st \<and> length (victim s2) < length (victim st)"
proof -
  let ?s1 = "after_header hk st"
  note ah = after_header_ok [OF assms(1,3,2)]
  have mem: "110 \<le> length (collected_mem st)" using assms(1,3) by (simp add: ird_ok_def state_ok_def)
  have nl: "name_len ?s1 = 0" using assms(7) by (simp add: after_header_def Let_def header_at_frame)
  have a1: "actions hk st = Some (Again ?s1)"
    using assms(3,6) nl mem
    by (simp add: actions_def do_header_def parse_header_total Let_def) (simp add: after_header_def Let_def)
  have f1: "next_state ?s1 = GotHeader" "this_header ?s1 = this_header st" "byte_count ?s1 = byte_count st"
    "collected ?s1 = collected st" "header_buf ?s1 = header_buf st" "symlink_buf ?s1 = symlink_buf st" "name_buf ?s1 = name_buf st"
    using assms(4) by (simp_all add: after_header_def Let_def header_at_frame)
  have i: "input_ok st" using assms(1) by (simp add: ird_ok_def)
  have "unat (this_header st + byte_count st) = unat (this_header st) + length (victim st)"
    using i byte_count_le(2) [OF i] by (simp add: input_ok_def unat_word_ariths)
  then have nst: "\<not> this_header ?s1 + byte_count ?s1 < next_header ?s1" using assms(8) f1 by (simp add: word_less_nat_alt)
  let ?s2 = "(eat (ucast (next_header ?s1 - this_header ?s1)) ?s1)\<lparr>fstate := GotHeader\<rparr>"
  have sk: "do_skip ?s1 = Again ?s2" using nst f1(1) by (simp add: do_skip_def Let_def)
  then have a2: "actions hk ?s1 = Some (Again ?s2)" using ah(2) by (simp add: actions_def)
  have "work ?s2 < work ?s1" using do_skip_good [OF ah(1,2)] sk by (simp add: good_step_def)
  then have "length (victim ?s2) < length (victim st)" using ah(2,3) by (simp add: work_def)
  moreover have "collected_mem ?s2 = collected_mem st"
    using f1(4-) assms(5) by (simp add: collected_mem_def buf_of_def split: buf_id.split)
  ultimately show ?thesis using a1 a2 by (intro exI [of _ ?s1] exI [of _ ?s2]) simp
qed

definition null_header :: "u8 list" where
  "null_header = header_text (replicate 12 0) @ hex8 0"

lemma null_header_facts:
  "length null_header = 110" "take 6 null_header = [0x30, 0x37, 0x30, 0x37, 0x30, 0x31]"
  "simple_strtoul sample_ihk (take 8 (drop 94 null_header)) = 0"
  "simple_strtoul sample_ihk (take 8 (drop 54 null_header)) = 0"
proof -
  show "length null_header = 110"
    by (simp add: null_header_def header_text_def length_concat sum_list_replicate)
  show "take 6 null_header = [0x30, 0x37, 0x30, 0x37, 0x30, 0x31]" by (simp add: null_header_def header_text_def)
  note pf = parse_field [OF strtoul_hex_sample, of "replicate 12 0" _ 0, folded null_header_def]
  show "simple_strtoul sample_ihk (take 8 (drop 94 null_header)) = 0" using pf [of 11] by simp
  show "simple_strtoul sample_ihk (take 8 (drop 54 null_header)) = 0" using pf [of 6] by simp
qed

theorem skipped_header_read_again_witness:
  "\<exists>s1 s2. let st = feed (replicate 20 1) (boot_ird\<lparr>fstate := GotHeader, next_state := GotHeader, collected := InBuf HeaderBuf,
       header_buf := null_header\<rparr>)
   in actions sample_ihk st = Some (Again s1) \<and> actions sample_ihk s1 = Some (Again s2) \<and> fstate s2 = GotHeader \<and>
      collected_mem s2 = null_header"
proof -
  define st where "st = feed (replicate 20 1) (boot_ird\<lparr>fstate := GotHeader, next_state := GotHeader,
    collected := InBuf HeaderBuf, header_buf := null_header\<rparr>)"
  have f: "fstate st = GotHeader" "next_state st = GotHeader" "collected st = InBuf HeaderBuf" "this_header st = 0"
    "victim st = replicate 20 1" "collected_mem st = null_header"
    by (simp_all add: st_def collected_mem_def buf_of_def boot_ird_def)
  have ok: "ird_ok st" using null_header_facts(1)
    by (simp add: st_def ird_ok_def bufs_ok_def input_ok_def state_ok_def boot_ird_def collected_mem_def buf_of_def)
  have "next_header (after_header sample_ihk st) = 4"
    using null_header_facts f by (simp add: after_header_def Let_def header_at_frame N_ALIGN_def)
  then have n: "unat (next_header (after_header sample_ihk st)) \<le> unat (this_header st) + length (victim st)" using f by simp
  show ?thesis unfolding st_def [symmetric] Let_def
    using skipped_header_read_again [OF ok strtoul_ok_sample f(1-3) _ _ n] null_header_facts f(6) by auto
qed

section \<open>Directories\<close>

text \<open>
  A directory entry: the directory is made, owned and given its mode under the name that ends at
  the first zero byte of the collected memory, its time is kept for later, and the machine
  skips to the next header.  The name is not limited by \<open>name_len\<close>.
\<close>

theorem directory_entry:
  assumes "0 \<in> set (collected_mem st)" and "path = takeWhile (\<lambda>b. b \<noteq> 0) (collected_mem st)" and "path \<noteq> TRAILER"
    and "S_ISDIR (h_mode st)" and "kmalloc_ok hk" and "init_stat hk (ird_log st) path = None"
  shows "\<exists>st'. do_name hk st = Again st' \<and> fstate st' = SkipIt \<and> next_state st' = Reset \<and>
    dir_list st' = (if kstrdup_ok hk path then Some path else None, h_mtime st) # dir_list st \<and>
    ird_log st' = ird_log st @
      [FsMkdir path (h_mode st), FsChown path (h_uid st) (h_gid st) True, FsChmod path (h_mode st)]"
proof -
  have "\<not> S_ISREG (h_mode st)" using assms(4) by (auto simp: S_ISDIR_def S_ISREG_def)
  moreover have "c_str (collected_mem st) = Some path" using assms(1,2) by (simp add: c_str_def)
  ultimately show ?thesis using assms(3-6)
    by (simp add: do_name_def Let_def clean_path_def dir_add_def log_event_def)
qed

theorem directory_entry_witness:
  "let st = boot_ird\<lparr>h_mode := 0x41ED, name_len := 1, collected := InInput [0x61, 0x62, 0x63, 0, 7]\<rparr>
   in \<exists>st'. do_name sample_ihk st = Again st' \<and> FsMkdir [0x61, 0x62, 0x63] 0x41ED \<in> set (ird_log st')"
proof -
  let ?st = "boot_ird\<lparr>h_mode := 0x41ED, name_len := 1, collected := InInput [0x61, 0x62, 0x63, 0, 7]\<rparr>"
  have "collected_mem ?st = [0x61, 0x62, 0x63, 0, 7]" "S_ISDIR (h_mode ?st)" "kmalloc_ok sample_ihk"
    "init_stat sample_ihk (ird_log ?st) [0x61, 0x62, 0x63] = None" "[0x61, 0x62, 0x63] \<noteq> TRAILER"
    by (simp_all add: collected_mem_def S_ISDIR_def S_IFMT_def sample_ihk_def TRAILER_def)
  then show ?thesis using directory_entry [of ?st "[0x61, 0x62, 0x63]" sample_ihk] unfolding Let_def by auto
qed

text \<open>\<open>init_utimes\<close> on the entries of the list, with a null pointer where \<open>kstrdup\<close> had no memory.\<close>

definition utime_of :: "cstring option \<times> u64 \<Rightarrow> fs_event" where
  "utime_of e = (case e of (Some f, t) \<Rightarrow> FsUtime f t | (None, t) \<Rightarrow> FsUtimeNull t)"

lemma dir_utime_fold:
  assumes "dir_list s = l"
  shows "ird_log (dir_utime s) = ird_log s @ map utime_of l \<and> dir_list (dir_utime s) = []"
proof -
  let ?f = "\<lambda>(name, t) s. (case name of Some f \<Rightarrow> do_utime f t | None \<Rightarrow> log_event (FsUtimeNull t)) (s\<lparr>dir_list := tl (dir_list s)\<rparr>)"
  have "ird_log (fold ?f l s) = ird_log s @ map utime_of l \<and> dir_list (fold ?f l s) = []"
    using assms
  proof (induction l arbitrary: s)
    case (Cons x l)
    obtain n t where x: "x = (n, t)" by force
    have "dir_list (?f x s) = l" "ird_log (?f x s) = ird_log s @ [utime_of x]"
      using Cons.prems by (simp_all add: x do_utime_def log_event_def utime_of_def split: option.split)
    from Cons.IH [OF this(1)] this(2) show ?case by simp
  qed simp
  then show ?thesis using assms by (simp add: dir_utime_def)
qed

text \<open>
  At the end the times of the directories are set, the directory that was entered last first, so
  that filling a directory does not change its time any more, and the list is empty.
\<close>

lemma dir_utime_applies:
  "ird_log (dir_utime st) = ird_log st @ map utime_of (dir_list st) \<and> dir_list (dir_utime st) = []"
  by (rule dir_utime_fold) simp

end
