(* ===== verification/Hid_Bits.thy ===== *)
theory Hid_Bits
  imports Kernel_Prelude
begin

text \<open>
  Bit fields of HID reports (\<open>drivers/hid/hid-core.c\<close>): the conversions between \<open>n\<close>-bit and 32-bit signed
  values, and reading and writing a field of a report, which is a little endian stream of bits.

  The C type \<open>s32\<close> is a 32-bit word that is read by \<open>sint\<close>.  A result \<open>None\<close> is undefined behaviour of the C
  program: a shift by the width of its operand or more, or an access outside the report.
\<close>

section \<open>Definitions\<close>

type_synonym u8 = "8 word"
type_synonym s32 = "32 word"

definition snto32 :: "u32 \<Rightarrow> nat \<Rightarrow> s32 option" where
  "snto32 value n =
     (if value = 0 \<or> n = 0 then Some 0
      else if n = 8 then Some (scast (ucast value :: 8 word))
      else if n = 16 then Some (scast (ucast value :: 16 word))
      else if n = 32 then Some value
      else if n > 32 then None
      else Some (if value AND push_bit (n - 1) 1 \<noteq> 0 then value OR push_bit n (NOT 0) else value))"

definition s32ton :: "s32 \<Rightarrow> nat \<Rightarrow> u32 option" where
  "s32ton value n =
     (if n = 0 \<or> n > 32 then None
      else
        let a = signed_drop_bit (n - 1) value
        in if a \<noteq> 0 \<and> a \<noteq> - 1
           then Some (if sint value < 0 then push_bit (n - 1) 1 else push_bit (n - 1) 1 - 1)
           else if n = 32 then None
           else Some (value AND (push_bit n 1 - 1)))"

text \<open>
  The loop of \<open>hid_core_extract\<close>: \<open>bits_to_copy\<close> is always \<open>8 - bit_shift\<close>.
\<close>

function extract_loop :: "u8 list \<Rightarrow> nat \<Rightarrow> nat \<Rightarrow> nat \<Rightarrow> int \<Rightarrow> u32 \<Rightarrow> u32 option" where
  "extract_loop report idx bit_nr bit_shift n value =
     (if n > 0
      then if idx < length report
           then extract_loop report (idx + 1) (bit_nr + (8 - bit_shift)) 0 (n - int (8 - bit_shift))
                  (value OR push_bit bit_nr (drop_bit bit_shift (ucast (report ! idx))))
           else None
      else Some value)"
  by pat_completeness auto
termination
  by (relation "measure (\<lambda>(report, idx, bit_nr, bit_shift, n, value). 2 * nat n + (if bit_shift = 0 then 0 else 1))") auto

definition hid_core_extract :: "u8 list \<Rightarrow> nat \<Rightarrow> nat \<Rightarrow> u32 option" where
  "hid_core_extract report offset n =
     (let msk = (if n < 32 then push_bit n 1 - 1 else NOT 0)
      in map_option (\<lambda>value. value AND msk) (extract_loop report (offset div 8) 0 (offset mod 8) (int n) 0))"

definition hid_field_extract :: "u8 list \<Rightarrow> nat \<Rightarrow> nat \<Rightarrow> u32 option" where
  "hid_field_extract report offset n = hid_core_extract report offset (if n > 32 then 32 else n)"

text \<open>Clearing bits of a byte and putting in what the store into it keeps of a value.\<close>

definition set_byte :: "u8 \<Rightarrow> u8 \<Rightarrow> nat \<Rightarrow> u32 \<Rightarrow> u8" where
  "set_byte b msk shift value = (b AND NOT (push_bit shift msk)) OR ucast (push_bit shift value)"

function implement_loop :: "u8 list \<Rightarrow> nat \<Rightarrow> nat \<Rightarrow> nat \<Rightarrow> u32 \<Rightarrow> u8 list option" where
  "implement_loop report idx bit_shift n value =
     (if 8 - bit_shift \<le> n
      then if idx < length report
           then implement_loop (report[idx := set_byte (report ! idx) 0xFF bit_shift value]) (idx + 1) 0 (n - (8 - bit_shift))
                  (drop_bit (8 - bit_shift) value)
           else None
      else if n \<noteq> 0
      then if idx < length report then Some (report[idx := set_byte (report ! idx) (push_bit n 1 - 1) bit_shift value])
           else None
      else Some report)"
  by pat_completeness auto
termination
  by (relation "measure (\<lambda>(report, idx, bit_shift, n, value). 2 * n + (if bit_shift = 0 then 0 else 1))") auto

definition hid_core_implement :: "u8 list \<Rightarrow> nat \<Rightarrow> nat \<Rightarrow> u32 \<Rightarrow> u8 list option" where
  "hid_core_implement report offset n value = implement_loop report (offset div 8) (offset mod 8) n value"

definition implement :: "u8 list \<Rightarrow> nat \<Rightarrow> nat \<Rightarrow> u32 \<Rightarrow> u8 list option" where
  "implement report offset n value =
     (let (n, value) =
        (if n > 32 then (32, value)
         else if n < 32
         then let m = push_bit n 1 - 1 in (n, if value > m then value AND m else value)
         else (n, value))
      in hid_core_implement report offset n value)"

declare extract_loop.simps [simp del] implement_loop.simps [simp del]

section \<open>A report as a stream of bits\<close>

definition rbit :: "u8 list \<Rightarrow> nat \<Rightarrow> bool" where
  "rbit report k \<longleftrightarrow> bit (report ! (k div 8)) (k mod 8)"

lemma low_mask: "push_bit n 1 - 1 = (mask n :: 'a::len word)"
  by (simp add: mask_eq_exp_minus_1 push_bit_eq_mult)

lemma rbit_at: "s + j < 8 \<Longrightarrow> rbit report (8 * idx + s + j) \<longleftrightarrow> bit (report ! idx) (s + j)"
  by (simp add: rbit_def add.assoc)

lemma extract_loop_bits:
  "bit_shift < 8 \<Longrightarrow> extract_loop report idx bit_nr bit_shift n val = Some w \<Longrightarrow>
   \<forall>i < nat (int bit_nr + n). i < 32 \<longrightarrow> \<not> (bit_nr \<le> i \<and> bit val i) \<Longrightarrow>
   i < nat (int bit_nr + n) \<Longrightarrow> i < 32 \<Longrightarrow>
   bit w i \<longleftrightarrow> (if bit_nr \<le> i then rbit report (8 * idx + bit_shift + (i - bit_nr)) else bit val i)"
proof (induction report idx bit_nr bit_shift n val arbitrary: i rule: extract_loop.induct)
  case (1 report idx bit_nr bit_shift n val)
  let ?v = "val OR push_bit bit_nr (drop_bit bit_shift (ucast (report ! idx) :: u32))" and ?b = "8 - bit_shift"
  show ?case
  proof (cases "n > 0")
    case False
    then have "w = val" using 1(3) by (subst (asm) extract_loop.simps) simp
    moreover have "i < bit_nr" using 1(5) False by linarith
    ultimately show ?thesis by simp
  next
    case True
    then have idx: "idx < length report"
      and run: "extract_loop report (idx + 1) (bit_nr + ?b) 0 (n - int ?b) ?v = Some w"
      using 1(3) by (subst (asm) extract_loop.simps, simp split: if_splits)+
    have vb: "bit ?v j \<longleftrightarrow> bit val j \<or> bit_nr \<le> j \<and> bit (report ! idx) (bit_shift + (j - bit_nr))" if "j < 32" for j
      using that by (auto simp: bit_simps dest: bit_imp_le_length)
    have e: "int (bit_nr + ?b) + (n - int ?b) = int bit_nr + n" by simp
    have fresh: "\<forall>j < nat (int (bit_nr + ?b) + (n - int ?b)). j < 32 \<longrightarrow> \<not> (bit_nr + ?b \<le> j \<and> bit ?v j)"
    proof (intro allI impI notI)
      fix j assume j: "j < nat (int (bit_nr + ?b) + (n - int ?b))" "j < 32" "bit_nr + ?b \<le> j \<and> bit ?v j"
      then have "\<not> bit val j" using 1(4) e by auto
      moreover have "8 \<le> bit_shift + (j - bit_nr)" using j(3) 1(2) by auto
      then have "\<not> bit (report ! idx) (bit_shift + (j - bit_nr))" by (auto dest: bit_imp_le_length)
      ultimately show False using j vb by auto
    qed
    have ih: "bit w i \<longleftrightarrow> (if bit_nr + ?b \<le> i then rbit report (8 * (idx + 1) + 0 + (i - (bit_nr + ?b))) else bit ?v i)"
      by (rule 1(1) [OF True idx _ run fresh]) (use 1(5,6) e in simp_all)
    show ?thesis
    proof (cases "bit_nr + ?b \<le> i")
      case True
      then have "8 * (idx + 1) + 0 + (i - (bit_nr + ?b)) = 8 * idx + bit_shift + (i - bit_nr)" using 1(2) by simp
      with ih True have "bit w i \<longleftrightarrow> rbit report (8 * idx + bit_shift + (i - bit_nr))" by (metis if_True)
      moreover have "bit_nr \<le> i" using True by simp
      ultimately show ?thesis by simp
    next
      case False
      then have "bit_nr \<le> i \<Longrightarrow> rbit report (8 * idx + bit_shift + (i - bit_nr)) \<longleftrightarrow> bit (report ! idx) (bit_shift + (i - bit_nr))"
        using 1(2) by (intro rbit_at) auto
      then show ?thesis using ih False vb [of i] 1(4,5,6) by auto
    qed
  qed
qed

lemma extract_loop_defined:
  "bit_shift < 8 \<Longrightarrow> 8 * int idx + int bit_shift + n \<le> 8 * int (length report) \<Longrightarrow>
   \<exists>w. extract_loop report idx bit_nr bit_shift n val = Some w"
proof (induction report idx bit_nr bit_shift n val rule: extract_loop.induct)
  case (1 report idx bit_nr bit_shift n val)
  show ?case
  proof (cases "n > 0")
    case True
    then have idx: "idx < length report" using 1(2,3) by auto
    have "\<exists>w. extract_loop report (idx + 1) (bit_nr + (8 - bit_shift)) 0 (n - int (8 - bit_shift))
        (val OR push_bit bit_nr (drop_bit bit_shift (ucast (report ! idx)))) = Some w"
      by (rule 1(1) [OF True idx]) (use 1(2,3) in auto)
    then show ?thesis using True idx by (subst extract_loop.simps) simp
  qed (subst extract_loop.simps, simp)
qed

lemma hid_field_extract_bits:
  assumes "offset + min n 32 \<le> 8 * length report"
  obtains w where "hid_field_extract report offset n = Some w"
    and "\<And>i. bit w i \<longleftrightarrow> i < min n 32 \<and> rbit report (offset + i)"
proof -
  define m where "m = min n 32"
  have s: "offset mod 8 < 8" "8 * (offset div 8) + offset mod 8 = offset" by simp_all
  have "8 * int (offset div 8) + int (offset mod 8) + int m \<le> 8 * int (length report)"
    using assms s(2) unfolding m_def by linarith
  from extract_loop_defined [OF s(1) this] obtain v where
    v: "extract_loop report (offset div 8) 0 (offset mod 8) (int m) 0 = Some v" by blast
  have vb: "bit v i \<longleftrightarrow> rbit report (offset + i)" if "i < m" for i
    using extract_loop_bits [OF s(1) v, of i] that s(2) by (simp add: m_def)
  define msk where "msk = (if m < 32 then push_bit m 1 - 1 else NOT 0 :: u32)"
  have mb: "bit msk i \<longleftrightarrow> i < m" if "i < 32" for i
    using that m_def unfolding msk_def low_mask by (auto simp: bit_simps)
  have "hid_field_extract report offset n = Some (v AND msk)"
    using v by (auto simp: hid_field_extract_def hid_core_extract_def m_def msk_def min_def)
  moreover have "bit (v AND msk) i \<longleftrightarrow> i < min n 32 \<and> rbit report (offset + i)" for i
    using vb [of i] mb [of i] bit_imp_le_length [of v i] unfolding m_def by (auto simp: bit_and_iff)
  ultimately show ?thesis by (rule that)
qed

lemma set_byte_bits:
  "shift < 8 \<Longrightarrow> j < 8 \<Longrightarrow>
   bit (set_byte b msk shift v) j \<longleftrightarrow> bit b j \<and> \<not> (shift \<le> j \<and> bit msk (j - shift)) \<or> shift \<le> j \<and> bit v (j - shift)"
  by (auto simp: set_byte_def bit_simps)

lemma rbit_update:
  assumes "idx < length report"
  shows "rbit (report[idx := b]) k \<longleftrightarrow> (if k div 8 = idx then bit b (k mod 8) else rbit report k)"
  using assms by (auto simp: rbit_def nth_list_update)

lemma byte_of:
  fixes k idx s :: nat
  assumes "s < 8"
  shows "k div 8 = idx \<and> s \<le> k mod 8 \<longleftrightarrow> 8 * idx + s \<le> k \<and> k < 8 * idx + 8" and "k div 8 = idx \<Longrightarrow> k mod 8 = k - 8 * idx"
proof -
  define q r where "q = k div 8" and "r = k mod 8"
  have k: "k = 8 * q + r" "r < 8" by (simp_all add: q_def r_def)
  have "q = idx \<and> s \<le> r \<longleftrightarrow> 8 * idx + s \<le> 8 * q + r \<and> 8 * q + r < 8 * idx + 8"
    using k(2) assms by (cases q idx rule: linorder_cases) auto
  then show "k div 8 = idx \<and> s \<le> k mod 8 \<longleftrightarrow> 8 * idx + s \<le> k \<and> k < 8 * idx + 8"
    unfolding k(1) [symmetric] by (simp add: q_def r_def)
  show "k div 8 = idx \<Longrightarrow> k mod 8 = k - 8 * idx" by (simp add: modulo_nat_def)
qed

lemma implement_loop_bits:
  "bit_shift < 8 \<Longrightarrow> 8 * idx + bit_shift + n \<le> 8 * length report \<Longrightarrow> \<forall>i \<ge> n. \<not> bit v i \<Longrightarrow>
   \<exists>report'. implement_loop report idx bit_shift n v = Some report' \<and> length report' = length report \<and>
     (\<forall>k. rbit report' k \<longleftrightarrow>
        (if 8 * idx + bit_shift \<le> k \<and> k < 8 * idx + bit_shift + n then bit v (k - (8 * idx + bit_shift)) else rbit report k))"
proof (induction report idx bit_shift n v rule: implement_loop.induct)
  case (1 report idx bit_shift n v)
  let ?b = "8 - bit_shift" and ?p = "8 * idx + bit_shift"
  show ?case
  proof (cases "?b \<le> n")
    case True
    then have idx: "idx < length report" using 1(2,3) by auto
    define r1 where "r1 = report[idx := set_byte (report ! idx) 0xFF bit_shift v]"
    have r1: "rbit r1 k \<longleftrightarrow> (if ?p \<le> k \<and> k < 8 * idx + 8 then bit v (k - ?p) else rbit report k)" for k
    proof (cases "k div 8 = idx")
      case True
      have "bit (0xFF :: u8) j" if "j < 8" for j using that by (simp add: bit_numeral_rec less_Suc_eq numeral_nat) auto
      then have "rbit r1 k \<longleftrightarrow> (if bit_shift \<le> k mod 8 then bit v (k mod 8 - bit_shift) else bit (report ! idx) (k mod 8))"
        unfolding r1_def rbit_update [OF idx] using True 1(2) by (auto simp: set_byte_bits)
      then show ?thesis using True byte_of [OF 1(2), of k idx] by (auto simp: rbit_def diff_diff_left)
    next
      case False
      then show ?thesis unfolding r1_def rbit_update [OF idx] using byte_of(1) [OF 1(2), of k idx] by auto
    qed
    obtain report' where run: "implement_loop r1 (idx + 1) 0 (n - ?b) (drop_bit ?b v) = Some report'"
      and len: "length report' = length r1"
      and rb: "\<And>k. rbit report' k \<longleftrightarrow> (if 8 * (idx + 1) + 0 \<le> k \<and> k < 8 * (idx + 1) + 0 + (n - ?b)
          then bit (drop_bit ?b v) (k - (8 * (idx + 1) + 0)) else rbit r1 k)"
      using 1(1) [OF True idx] 1(2-4) True unfolding r1_def by (auto simp: bit_simps)
    have "implement_loop report idx bit_shift n v = Some report'"
      using True idx run unfolding r1_def by (subst implement_loop.simps) simp
    moreover have "rbit report' k \<longleftrightarrow> (if ?p \<le> k \<and> k < ?p + n then bit v (k - ?p) else rbit report k)" for k
      using rb [of k] r1 [of k] 1(2) True by (auto simp: bit_simps add.commute)
    ultimately show ?thesis using len by (auto simp: r1_def)
  next
    case False
    show ?thesis
    proof (cases "n = 0")
      case True
      then show ?thesis using 1(2) by (subst implement_loop.simps) auto
    next
      case n: False
      then have idx: "idx < length report" using 1(2,3) by auto
      have "rbit (report[idx := set_byte (report ! idx) (mask n) bit_shift v]) k \<longleftrightarrow>
          (if ?p \<le> k \<and> k < ?p + n then bit v (k - ?p) else rbit report k)" for k
      proof (cases "k div 8 = idx")
        case True
        have km: "k mod 8 < 8" "k mod 8 = k - 8 * idx" "8 * idx \<le> k" using True by (auto simp: modulo_nat_def)
        have "rbit (report[idx := set_byte (report ! idx) (mask n) bit_shift v]) k \<longleftrightarrow>
            (if bit_shift \<le> k mod 8 \<and> k mod 8 < bit_shift + n then bit v (k mod 8 - bit_shift) else bit (report ! idx) (k mod 8))"
          unfolding rbit_update [OF idx] using True 1(2,4) False km(1) by (auto simp: set_byte_bits bit_mask_iff)
        then show ?thesis using True km by (auto simp: rbit_def diff_diff_left)
      next
        case o: False
        then show ?thesis unfolding rbit_update [OF idx] using byte_of(1) [OF 1(2), of k idx] False by auto
      qed
      then show ?thesis using False n idx by (subst implement_loop.simps) (simp add: low_mask del: push_bit_of_1)
    qed
  qed
qed

lemma implement_mask:
  assumes "n < 32"
  shows "(if v > mask n then v AND mask n else v) = take_bit n (v :: u32)"
proof (cases "v > mask n")
  case False
  have "uint (mask n :: u32) = mask n"
    using assms by (subst mask_bin) (simp add: uint_word_of_int_eq min_def)
  also have "\<dots> = 2 ^ n - 1" by (simp add: mask_eq_exp_minus_1)
  finally have "uint (mask n :: u32) = 2 ^ n - 1" .
  then have "uint v < 2 ^ n" using False by (simp add: not_less word_le_def)
  then have "uint (take_bit n v) = uint v" by (simp add: unsigned_take_bit_eq take_bit_int_eq_self)
  then show ?thesis using False by (simp add: word_uint_eq_iff)
qed (simp add: take_bit_eq_mask)

lemma implement_bits:
  assumes "offset + min n 32 \<le> 8 * length report"
  obtains report' where "implement report offset n v = Some report'" and "length report' = length report"
    and "\<And>k. rbit report' k \<longleftrightarrow> (if offset \<le> k \<and> k < offset + min n 32 then bit v (k - offset) else rbit report k)"
proof -
  define m where "m = min n 32"
  define u where "u = take_bit m v"
  have s: "offset mod 8 < 8" "8 * (offset div 8) + offset mod 8 = offset" by simp_all
  have zero: "\<forall>i \<ge> m. \<not> bit u i" by (simp add: u_def bit_take_bit_iff)
  have fits: "8 * (offset div 8) + offset mod 8 + m \<le> 8 * length report" using assms s(2) by (simp add: m_def)
  from implement_loop_bits [OF s(1) fits zero] obtain report' where
    run: "implement_loop report (offset div 8) (offset mod 8) m u = Some report'" and len: "length report' = length report"
    and rb: "\<And>k. rbit report' k \<longleftrightarrow> (if offset \<le> k \<and> k < offset + m then bit u (k - offset) else rbit report k)"
    using s(2) by auto
  have "v = u" if "32 \<le> n" using that by (simp add: u_def m_def min_def take_bit_word_eq_self)
  then have "implement report offset n v = Some report'"
    using run implement_mask [of n v] unfolding implement_def hid_core_implement_def low_mask
    by (cases n "32 :: nat" rule: linorder_cases) (simp_all add: m_def u_def min_def)
  moreover have "rbit report' k \<longleftrightarrow> (if offset \<le> k \<and> k < offset + min n 32 then bit v (k - offset) else rbit report k)" for k
    using rb [of k] by (auto simp: m_def u_def bit_take_bit_iff)
  ultimately show ?thesis using len by (intro that)
qed

section \<open>Signed values\<close>

lemma snto32_bits:
  assumes "1 \<le> n" and "n \<le> 32" and zero: "\<forall>i \<ge> n. \<not> bit v i"
  obtains w where "snto32 v n = Some w" and "\<And>i. i < 32 \<Longrightarrow> bit w i \<longleftrightarrow> bit v (min i (n - 1))"
proof -
  consider "v = 0" | "v \<noteq> 0" "n = 8" | "v \<noteq> 0" "n = 16" | "v \<noteq> 0" "n = 32" | "v \<noteq> 0" "n \<noteq> 8" "n \<noteq> 16" "n < 32"
    using assms by linarith
  then show ?thesis
  proof cases
    case 1
    then show ?thesis by (intro that [of 0]) (simp_all add: snto32_def)
  next
    case 2
    then show ?thesis by (intro that [of "scast (ucast v :: 8 word)"]) (auto simp: snto32_def bit_simps min_def)
  next
    case 3
    then show ?thesis by (intro that [of "scast (ucast v :: 16 word)"]) (auto simp: snto32_def bit_simps min_def)
  next
    case 4
    then show ?thesis by (intro that [of v]) (auto simp: snto32_def min_def)
  next
    case 5
    let ?w = "if v AND push_bit (n - 1) 1 \<noteq> 0 then v OR push_bit n (NOT 0) else v"
    have t: "v AND push_bit (n - 1) 1 \<noteq> 0 \<longleftrightarrow> bit v (n - 1)"
      by (metis and_exp_eq_0_iff_not_bit push_bit_of_1)
    show ?thesis
    proof (rule that [of ?w])
      show "snto32 v n = Some ?w" using 5 assms by (simp add: snto32_def)
      fix i :: nat assume "i < 32"
      then show "bit ?w i \<longleftrightarrow> bit v (min i (n - 1))"
        unfolding t using zero assms(1) by (auto simp: bit_simps min_def not_le)
    qed
  qed
qed

text \<open>The nearest value that \<open>n\<close> bits can hold.\<close>

definition clamp :: "nat \<Rightarrow> int \<Rightarrow> int" where
  "clamp n x = max (- (2 ^ (n - 1))) (min (2 ^ (n - 1) - 1) x)"

lemma div_pow_cases:
  fixes x :: int
  assumes "0 < p"
  shows "x div p = 0 \<longleftrightarrow> 0 \<le> x \<and> x < p" and "x div p = - 1 \<longleftrightarrow> - p \<le> x \<and> x < 0"
proof -
  show z: "x div p = 0 \<longleftrightarrow> 0 \<le> x \<and> x < p" for x using assms by (auto simp: zdiv_eq_0_iff)
  have "(x + p) div p = x div p + 1" using assms by (intro div_add_self2) simp
  then show "x div p = - 1 \<longleftrightarrow> - p \<le> x \<and> x < 0" using z [of "x + p"] by auto
qed

lemma s32ton_clamps:
  assumes n: "1 \<le> n" "n \<le> 31"
  shows "s32ton v n = Some (word_of_int (take_bit n (clamp n (sint v))))"
proof -
  let ?k = "n - 1" and ?x = "sint v"
  define a where "a = signed_drop_bit ?k v"
  have pos: "(0 :: int) < 2 ^ ?k" by simp
  have sa: "sint a = ?x div 2 ^ ?k" by (simp add: a_def sint_signed_drop_bit_eq drop_bit_eq_div)
  have "a = 0 \<longleftrightarrow> sint a = 0" "a = - 1 \<longleftrightarrow> sint a = - 1" by (auto intro: signed_word_eqI)
  then have in_range: "a = 0 \<or> a = - 1 \<longleftrightarrow> - (2 ^ ?k) \<le> ?x \<and> ?x < 2 ^ ?k"
    unfolding sa div_pow_cases [OF pos] using pos by linarith
  have wi: "v = word_of_int ?x" by simp
  have low: "v AND mask n = word_of_int (take_bit n ?x)" by (subst wi) (rule and_mask_wi)
  have p: "(2 :: int) ^ n = 2 * 2 ^ ?k" using n by (simp flip: power_Suc)
  show ?thesis
  proof (cases "a = 0 \<or> a = - 1")
    case True
    then have "clamp n ?x = ?x" using in_range by (simp add: clamp_def)
    then show ?thesis using True n low unfolding s32ton_def Let_def a_def [symmetric] low_mask by auto
  next
    case False
    have "(0 :: int) \<le> 2 ^ ?k - 1" "2 ^ ?k - 1 < (2 :: int) ^ n" using p pos by linarith+
    then have tk1: "take_bit n (2 ^ ?k - 1) = (2 ^ ?k - 1 :: int)" by (rule take_bit_int_eq_self)
    have tk2: "take_bit n (- (2 ^ ?k)) = (2 ^ ?k :: int)"
      using p pos by (auto simp: take_bit_eq_mod mod_pos_pos_trivial zmod_zminus1_eq_if)
    have "clamp n ?x = (if ?x < 0 then - (2 ^ ?k) else 2 ^ ?k - 1)"
    proof -
      have "?x < - (2 ^ ?k) \<or> 2 ^ ?k \<le> ?x" using False in_range by linarith
      moreover have "max (- P) (min (P - 1) x) = (if x < 0 then - P else P - 1)" if "x < - P \<or> P \<le> x" "0 < P" for x P :: int
        using that by (auto simp: max_def min_def)
      ultimately show ?thesis using pos unfolding clamp_def by blast
    qed
    then have "word_of_int (take_bit n (clamp n ?x)) = (if ?x < 0 then push_bit ?k 1 else push_bit ?k 1 - 1 :: u32)"
      using tk1 tk2 by (simp add: push_bit_eq_mult)
    then show ?thesis using False n unfolding s32ton_def Let_def a_def [symmetric] by simp
  qed
qed

text \<open>Converting to \<open>n\<close> bits and back saturates.\<close>

lemma snto32_s32ton:
  assumes n: "1 \<le> n" "n \<le> 31"
  shows "\<exists>u. s32ton v n = Some u \<and> snto32 u n = Some (word_of_int (clamp n (sint v)))"
proof -
  let ?c = "clamp n (sint v)"
  let ?u = "word_of_int (take_bit n ?c) :: u32"
  have "\<forall>i \<ge> n. \<not> bit ?u i" by (auto simp: bit_word_of_int_iff bit_take_bit_iff)
  then obtain w where w: "snto32 ?u n = Some w" and wb: "\<And>i. i < 32 \<Longrightarrow> bit w i \<longleftrightarrow> bit ?u (min i (n - 1))"
    using snto32_bits [of n ?u] n by auto
  have "- (2 ^ (n - 1)) \<le> ?c" "?c < 2 ^ (n - 1)" by (auto simp: clamp_def)
  then have c: "signed_take_bit (n - 1) ?c = ?c" by (rule signed_take_bit_int_eq_self)
  have "bit w i \<longleftrightarrow> bit (word_of_int ?c :: u32) i" if "i < 32" for i
  proof -
    have "bit w i \<longleftrightarrow> bit ?c (min i (n - 1))"
      using wb [OF that] n that by (auto simp: bit_word_of_int_iff bit_take_bit_iff min_def)
    also have "\<dots> \<longleftrightarrow> bit (signed_take_bit (n - 1) ?c) i" by (simp add: bit_signed_take_bit_iff min.commute)
    finally show ?thesis unfolding c using that by (simp add: bit_word_of_int_iff)
  qed
  then have "w = word_of_int ?c" by (intro bit_word_eqI) simp
  then show ?thesis using w s32ton_clamps [OF n] by simp
qed

text \<open>Where the conversions are defined at all.\<close>

lemma s32ton_undefined: "s32ton v n = None \<longleftrightarrow> n = 0 \<or> n \<ge> 32"
proof (cases "n = 32")
  case True
  have "signed_drop_bit 31 v = 0 \<or> signed_drop_bit 31 v = - 1"
  proof -
    have "sint (signed_drop_bit 31 v) = sint v div 2 ^ 31" by (simp add: sint_signed_drop_bit_eq drop_bit_eq_div)
    moreover have "- (2 ^ 31) \<le> sint v" "sint v < 2 ^ 31" using sint_ge [of v] sint_lt [of v] by simp_all
    ultimately have "sint (signed_drop_bit 31 v) = 0 \<or> sint (signed_drop_bit 31 v) = - 1"
      using div_pow_cases [of "2 ^ 31" "sint v"] by auto
    then show ?thesis by (auto intro: signed_word_eqI)
  qed
  then show ?thesis using True by (auto simp: s32ton_def Let_def)
qed (use s32ton_clamps [of n v] in \<open>auto simp: s32ton_def not_le\<close>)

lemma snto32_undefined: "snto32 v n = None \<longleftrightarrow> v \<noteq> 0 \<and> n > 32"
  by (auto simp: snto32_def)

end
