(* ===== verification/Hid_Parser.thy ===== *)
theory Hid_Parser
  imports Hid_Bits "HOL-Library.Signed_Division"
begin

text \<open>
  The parser of HID report descriptors (\<open>drivers/hid/hid-core.c\<close>): items are fetched from the descriptor and
  dispatched to the handlers of main, global and local items, which build the reports, fields and collections
  of the device.

  Limits and identifiers of headers that are not part of the repository are the fields of \<open>hid_cfg\<close>; what
  the kernel answers (allocations, whether the device has a name, the fixup of its driver) is \<open>hid_hooks\<close>.  The
  arrays of usages and values of a field and the arrays of the parser are lists of the entries in use;
  \<open>maxfield\<close>, \<open>usage_index\<close>, \<open>maxcollection\<close> and the stack pointers are their lengths.
\<close>

section \<open>Data\<close>

record hid_cfg =
  HID_MAX_IDS :: nat
  HID_MAX_FIELDS :: nat
  HID_MAX_USAGES :: nat
  HID_MAX_BUFFER_SIZE :: nat
  HID_COLLECTION_STACK_SIZE :: nat
  HID_GLOBAL_STACK_SIZE :: nat
  HID_DEFAULT_NUM_COLLECTIONS :: nat
  USB_VENDOR_ID_MICROSOFT :: u32
  USB_DEVICE_ID_MS_POWER_COVER :: u32
  USB_VENDOR_ID_WACOM :: u32
  USB_VENDOR_ID_SYNAPTICS :: u32

text \<open>Tags, types and usages of the HID specification.\<close>

definition HID_ITEM_TAG_LONG :: nat where "HID_ITEM_TAG_LONG = 15"
definition HID_MAIN_ITEM_TAG_INPUT :: nat where "HID_MAIN_ITEM_TAG_INPUT = 8"
definition HID_MAIN_ITEM_TAG_OUTPUT :: nat where "HID_MAIN_ITEM_TAG_OUTPUT = 9"
definition HID_MAIN_ITEM_TAG_BEGIN_COLLECTION :: nat where "HID_MAIN_ITEM_TAG_BEGIN_COLLECTION = 10"
definition HID_MAIN_ITEM_TAG_FEATURE :: nat where "HID_MAIN_ITEM_TAG_FEATURE = 11"
definition HID_MAIN_ITEM_TAG_END_COLLECTION :: nat where "HID_MAIN_ITEM_TAG_END_COLLECTION = 12"
definition HID_MAIN_ITEM_CONSTANT :: u32 where "HID_MAIN_ITEM_CONSTANT = 1"
definition HID_MAIN_ITEM_VARIABLE :: u32 where "HID_MAIN_ITEM_VARIABLE = 2"
definition HID_COLLECTION_PHYSICAL :: u32 where "HID_COLLECTION_PHYSICAL = 0"
definition HID_COLLECTION_APPLICATION :: u32 where "HID_COLLECTION_APPLICATION = 1"
definition HID_COLLECTION_LOGICAL :: u32 where "HID_COLLECTION_LOGICAL = 2"
definition HID_INPUT_REPORT :: nat where "HID_INPUT_REPORT = 0"
definition HID_OUTPUT_REPORT :: nat where "HID_OUTPUT_REPORT = 1"
definition HID_FEATURE_REPORT :: nat where "HID_FEATURE_REPORT = 2"
definition HID_UP_KEYBOARD :: u32 where "HID_UP_KEYBOARD = 0x00070000"
definition HID_UP_SENSOR :: u32 where "HID_UP_SENSOR = 0x00200000"
definition HID_UP_GENDESK :: u32 where "HID_UP_GENDESK = 0x00010000"
definition HID_UP_MSVENDOR :: u32 where "HID_UP_MSVENDOR = 0xFF000000"
definition HID_UP_GOOGLEVENDOR :: u32 where "HID_UP_GOOGLEVENDOR = 0xFFD10000"
definition HID_GD_POINTER :: u32 where "HID_GD_POINTER = 0x00010001"
definition HID_GD_RESOLUTION_MULTIPLIER :: u32 where "HID_GD_RESOLUTION_MULTIPLIER = 0x00010048"
definition HID_DG_CONTACTID :: u32 where "HID_DG_CONTACTID = 0x000D0051"

datatype hid_format = HID_ITEM_FORMAT_SHORT | HID_ITEM_FORMAT_LONG

datatype hid_data = DNone | DU8 u8 | DU16 u16 | DU32 u32 | DLong "u8 list"

record hid_item =
  item_format :: hid_format
  item_size :: nat
  item_type :: nat
  item_tag :: nat
  item_data :: hid_data

record hid_global =
  usage_page :: u32
  logical_minimum :: s32
  logical_maximum :: s32
  physical_minimum :: s32
  physical_maximum :: s32
  unit_exponent :: s32
  unit_code :: u32
  report_id :: u32
  report_size :: u32
  report_count :: u32

record local_usage =
  lu_usage :: u32
  lu_size :: nat
  lu_collection :: nat

record hid_local =
  usages :: "local_usage list"
  usage_minimum :: u32
  delimiter_depth :: nat
  delimiter_branch :: nat

record hid_collection =
  c_type :: u32
  c_usage :: u32
  c_level :: nat
  c_parent_idx :: int

record hid_usage =
  hid :: u32
  collection_index :: nat
  usage_index :: nat
  u_code :: u16
  u_type :: u8
  resolution_multiplier :: int

record hid_field =
  f_physical :: u32
  f_logical :: u32
  f_application :: u32
  f_usage :: "hid_usage list"
  f_value :: "s32 list"
  f_flags :: u32
  f_report_offset :: u32
  f_report_type :: nat
  f_report_size :: u32
  f_report_count :: u32
  f_logical_minimum :: s32
  f_logical_maximum :: s32
  f_physical_minimum :: s32
  f_physical_maximum :: s32
  f_unit_exponent :: s32
  f_unit :: u32

record hid_report =
  r_id :: nat
  r_type :: nat
  r_size :: u32
  r_application :: u32
  r_field :: "hid_field list"

record hid_report_enum =
  numbered :: bool
  report_list :: "nat list"
  report_id_hash :: "nat \<Rightarrow> hid_report option"

datatype hid_group =
    HID_GROUP_ANY | HID_GROUP_GENERIC | HID_GROUP_MULTITOUCH | HID_GROUP_SENSOR_HUB | HID_GROUP_MULTITOUCH_WIN_8 | HID_GROUP_RMI
  | HID_GROUP_WACOM | HID_GROUP_VIVALDI

record hid_device =
  report_enum :: "nat \<Rightarrow> hid_report_enum"
  collection :: "hid_collection list"
  collection_size :: nat
  maxapplication :: nat
  dev_rdesc :: "u8 list option"
  rdesc :: "u8 list option"
  stat_parsed :: bool
  dev_group :: hid_group
  dev_vendor :: u32
  dev_product :: u32

record hid_parser =
  p_global :: hid_global
  global_stack :: "hid_global list"
  p_local :: hid_local
  collection_stack :: "nat list"
  collection_stack_size :: nat
  p_device :: hid_device
  scan_mt_win_8 :: bool
  scan_gd_pointer :: bool
  scan_vendor_specific :: bool

text \<open>
  The answers of the allocators depend on what is already there, so that a later allocation can fail after earlier
  ones did not; \<open>kmemdup_ok\<close> counts the copies of one call.  \<open>longdata_bits\<close> is what reading a number out of the data of a long item
  finds, the low bits of an address.
\<close>

record hid_hooks =
  alloc_report_ok :: "hid_device \<Rightarrow> nat \<Rightarrow> bool"
  alloc_field_ok :: "hid_report \<Rightarrow> nat \<Rightarrow> bool"
  krealloc_stack_ok :: "nat \<Rightarrow> bool"
  alloc_collection_ok :: "nat \<Rightarrow> bool"
  alloc_parser_ok :: bool
  kmemdup_ok :: "nat \<Rightarrow> u8 list \<Rightarrow> bool"
  report_fixup :: "u8 list \<Rightarrow> u8 list"
  dev_name_set :: bool
  longdata_bits :: "u8 list \<Rightarrow> u32"

definition empty_enum :: hid_report_enum where
  "empty_enum = \<lparr>numbered = False, report_list = [], report_id_hash = (\<lambda>_. None)\<rparr>"

definition zero_local :: hid_local where
  "zero_local = \<lparr>usages = [], usage_minimum = 0, delimiter_depth = 0, delimiter_branch = 0\<rparr>"

definition zero_global :: hid_global where
  "zero_global = \<lparr>usage_page = 0, logical_minimum = 0, logical_maximum = 0, physical_minimum = 0, physical_maximum = 0,
     unit_exponent = 0, unit_code = 0, report_id = 0, report_size = 0, report_count = 0\<rparr>"

definition zero_parser :: "hid_device \<Rightarrow> hid_parser" where
  "zero_parser dev = \<lparr>p_global = zero_global, global_stack = [], p_local = zero_local, collection_stack = [],
     collection_stack_size = 0, p_device = dev, scan_mt_win_8 = False, scan_gd_pointer = False, scan_vendor_specific = False\<rparr>"

section \<open>Reports and fields\<close>

text \<open>The same report is in the table and in the list; the list holds the numbers.\<close>

definition put_report :: "hid_report \<Rightarrow> hid_device \<Rightarrow> hid_device" where
  "put_report report dev =
     (let e = report_enum dev (r_type report)
      in dev\<lparr>report_enum := (report_enum dev)(r_type report := e\<lparr>report_id_hash := (report_id_hash e)(r_id report \<mapsto> report)\<rparr>)\<rparr>)"

definition hid_register_report ::
    "hid_cfg \<Rightarrow> hid_hooks \<Rightarrow> hid_device \<Rightarrow> nat \<Rightarrow> nat \<Rightarrow> u32 \<Rightarrow> (hid_report \<times> hid_device) option" where
  "hid_register_report cfg hk dev type i application =
     (let e = report_enum dev type
      in if i \<ge> HID_MAX_IDS cfg then None
         else case report_id_hash e i of
                Some report \<Rightarrow> Some (report, dev)
              | None \<Rightarrow>
                  if \<not> alloc_report_ok hk dev i then None
                  else
                    let report = \<lparr>r_id = i, r_type = type, r_size = 0, r_application = application, r_field = []\<rparr>;
                        e' = e\<lparr>numbered := numbered e \<or> i \<noteq> 0, report_id_hash := (report_id_hash e)(i \<mapsto> report),
                               report_list := report_list e @ [i]\<rparr>
                    in Some (report, dev\<lparr>report_enum := (report_enum dev)(type := e')\<rparr>))"

text \<open>The new field has room for its usages and values; the caller fills it.\<close>

definition hid_register_field :: "hid_cfg \<Rightarrow> hid_hooks \<Rightarrow> hid_report \<Rightarrow> nat \<Rightarrow> hid_field \<Rightarrow> hid_report option" where
  "hid_register_field cfg hk report n field =
     (if length (r_field report) = HID_MAX_FIELDS cfg then None
      else if \<not> alloc_field_ok hk report n then None
      else Some (report\<lparr>r_field := r_field report @ [field\<lparr>f_value := replicate n 0\<rparr>]\<rparr>))"

section \<open>Collections\<close>

definition open_collection :: "hid_cfg \<Rightarrow> hid_hooks \<Rightarrow> hid_parser \<Rightarrow> u32 \<Rightarrow> errno option \<times> hid_parser" where
  "open_collection cfg hk p type =
     (let usage = (case usages (p_local p) of [] \<Rightarrow> 0 | u # _ \<Rightarrow> lu_usage u);
          full = length (collection_stack p) = collection_stack_size p;
          new_size = collection_stack_size p + HID_COLLECTION_STACK_SIZE cfg
      in if full \<and> \<not> krealloc_stack_ok hk new_size then (Some ENOMEM, p)
         else
           let p1 = (if full then p\<lparr>collection_stack_size := new_size\<rparr> else p);
               dev = p_device p1;
               cfull = length (collection dev) = collection_size dev
           in if cfull \<and> \<not> alloc_collection_ok hk (collection_size dev * 2) then (Some ENOMEM, p1)
              else
                let dev1 = (if cfull then dev\<lparr>collection_size := collection_size dev * 2\<rparr> else dev);
                    idx = length (collection dev1);
                    level = length (collection_stack p1);
                    c = \<lparr>c_type = type, c_usage = usage, c_level = level,
                         c_parent_idx = (if level = 0 then -1 else int (collection_stack p1 ! (level - 1)))\<rparr>;
                    dev2 = dev1\<lparr>collection := collection dev1 @ [c],
                                maxapplication := maxapplication dev1 + (if type = HID_COLLECTION_APPLICATION then 1 else 0)\<rparr>
                in (None, p1\<lparr>collection_stack := collection_stack p1 @ [idx], p_device := dev2\<rparr>))"

definition close_collection :: "hid_parser \<Rightarrow> errno option \<times> hid_parser" where
  "close_collection p =
     (if collection_stack p = [] then (Some EINVAL, p)
      else (None, p\<lparr>collection_stack := butlast (collection_stack p)\<rparr>))"

definition hid_lookup_collection :: "hid_parser \<Rightarrow> u32 \<Rightarrow> u32" where
  "hid_lookup_collection p type =
     (case find (\<lambda>i. c_type (collection (p_device p) ! i) = type) (rev (collection_stack p)) of
        Some i \<Rightarrow> c_usage (collection (p_device p) ! i)
      | None \<Rightarrow> 0)"

section \<open>Usages and fields of the parser\<close>

definition complete_usage :: "hid_parser \<Rightarrow> u32 \<Rightarrow> u32" where
  "complete_usage p usage = (usage AND 0xFFFF) OR push_bit 16 (usage_page (p_global p) AND 0xFFFF)"

definition hid_add_usage :: "hid_cfg \<Rightarrow> hid_parser \<Rightarrow> u32 \<Rightarrow> nat \<Rightarrow> errno option \<times> hid_parser" where
  "hid_add_usage cfg p usage sz =
     (if length (usages (p_local p)) \<ge> HID_MAX_USAGES cfg then (Some EPERM, p)
      else
        let u = \<lparr>lu_usage = (if sz \<le> 2 then complete_usage p usage else usage), lu_size = sz,
                 lu_collection = (if collection_stack p = [] then 0 else last (collection_stack p))\<rparr>
        in (None, p\<lparr>p_local := (p_local p)\<lparr>usages := usages (p_local p) @ [u]\<rparr>\<rparr>))"

text \<open>Excess values repeat the last usage.\<close>

definition field_usage :: "local_usage list \<Rightarrow> nat \<Rightarrow> hid_usage" where
  "field_usage us i =
     (let u = us ! (if i \<ge> length us then length us - 1 else i)
      in \<lparr>hid = lu_usage u, collection_index = lu_collection u, usage_index = i, u_code = 0, u_type = 0, resolution_multiplier = 1\<rparr>)"

text \<open>How \<open>hid_add_field\<close> fills the field.\<close>

definition new_field :: "hid_parser \<Rightarrow> nat \<Rightarrow> u32 \<Rightarrow> u32 \<Rightarrow> hid_field" where
  "new_field p type flags offset =
     (let g = p_global p; us = usages (p_local p)
      in \<lparr>f_physical = hid_lookup_collection p HID_COLLECTION_PHYSICAL,
          f_logical = hid_lookup_collection p HID_COLLECTION_LOGICAL,
          f_application = hid_lookup_collection p HID_COLLECTION_APPLICATION,
          f_usage = map (field_usage us) [0..<max (length us) (unat (report_count g))], f_value = [], f_flags = flags,
          f_report_offset = offset, f_report_type = type, f_report_size = report_size g, f_report_count = report_count g,
          f_logical_minimum = logical_minimum g, f_logical_maximum = logical_maximum g,
          f_physical_minimum = physical_minimum g, f_physical_maximum = physical_maximum g,
          f_unit_exponent = unit_exponent g, f_unit = unit_code g\<rparr>)"

definition hid_add_field :: "hid_cfg \<Rightarrow> hid_hooks \<Rightarrow> hid_parser \<Rightarrow> nat \<Rightarrow> u32 \<Rightarrow> errno option \<times> hid_parser" where
  "hid_add_field cfg hk p type flags =
     (let application = hid_lookup_collection p HID_COLLECTION_APPLICATION; g = p_global p; us = usages (p_local p)
      in case hid_register_report cfg hk (p_device p) type (unat (report_id g)) application of
           None \<Rightarrow> (Some EPERM, p)
         | Some (report, dev) \<Rightarrow>
             if sint (logical_minimum g) < 0 \<and> sint (logical_maximum g) < sint (logical_minimum g) \<or>
                sint (logical_minimum g) \<ge> 0 \<and> logical_maximum g < logical_minimum g
             then (Some EPERM, p\<lparr>p_device := dev\<rparr>)
             else
               let offset = r_size report;
                   report1 = report\<lparr>r_size := r_size report + report_size g * report_count g\<rparr>;
                   p1 = p\<lparr>p_device := put_report report1 dev\<rparr>
               in if unat (r_size report1) > (HID_MAX_BUFFER_SIZE cfg - 1) * 8 then (Some EPERM, p1)
                  else if us = [] then (None, p1)
                  else
                    (case hid_register_field cfg hk report1 (max (length us) (unat (report_count g))) (new_field p type flags offset) of
                       None \<Rightarrow> (None, p1)
                     | Some report2 \<Rightarrow> (None, p\<lparr>p_device := put_report report2 dev\<rparr>)))"

section \<open>Items\<close>

definition item_udata :: "hid_hooks \<Rightarrow> hid_item \<Rightarrow> u32" where
  "item_udata hk item =
     (case item_data item of
        DLong d \<Rightarrow>
          (if item_size item = 1 then ucast (ucast (longdata_bits hk d) :: u8)
           else if item_size item = 2 then ucast (ucast (longdata_bits hk d) :: u16)
           else if item_size item = 4 then longdata_bits hk d else 0)
      | DU8 b \<Rightarrow> if item_size item = 1 then ucast b else 0
      | DU16 w \<Rightarrow> if item_size item = 2 then ucast w else 0
      | DU32 w \<Rightarrow> if item_size item = 4 then w else 0
      | DNone \<Rightarrow> 0)"

definition item_sdata :: "hid_hooks \<Rightarrow> hid_item \<Rightarrow> s32" where
  "item_sdata hk item =
     (if item_size item = 1 then scast (ucast (item_udata hk item) :: u8)
      else if item_size item = 2 then scast (ucast (item_udata hk item) :: u16)
      else item_udata hk item)"

definition hid_parser_global :: "hid_cfg \<Rightarrow> hid_hooks \<Rightarrow> hid_parser \<Rightarrow> hid_item \<Rightarrow> errno option \<times> hid_parser" where
  "hid_parser_global cfg hk p item =
     (let g = p_global p; u = item_udata hk item; s = item_sdata hk item; tag = item_tag item;
          upd = (\<lambda>g'. (None, p\<lparr>p_global := g'\<rparr>))
      in if tag = 10
         then (if length (global_stack p) = HID_GLOBAL_STACK_SIZE cfg then (Some EPERM, p)
               else (None, p\<lparr>global_stack := global_stack p @ [g]\<rparr>))
         else if tag = 11
         then (if global_stack p = [] then (Some EPERM, p)
               else (None, p\<lparr>p_global := last (global_stack p), global_stack := butlast (global_stack p)\<rparr>))
         else if tag = 0 then upd (g\<lparr>usage_page := u\<rparr>)
         else if tag = 1 then upd (g\<lparr>logical_minimum := s\<rparr>)
         else if tag = 2 then upd (g\<lparr>logical_maximum := if sint (logical_minimum g) < 0 then s else u\<rparr>)
         else if tag = 3 then upd (g\<lparr>physical_minimum := s\<rparr>)
         else if tag = 4 then upd (g\<lparr>physical_maximum := if sint (physical_minimum g) < 0 then s else u\<rparr>)
         else if tag = 5
         then upd (g\<lparr>unit_exponent := if s AND 0xFFFFFFF0 = 0 then the (snto32 s 4) else s\<rparr>)
         else if tag = 6 then upd (g\<lparr>unit_code := u\<rparr>)
         else if tag = 7 then (if u > 256 then Some EPERM else None, p\<lparr>p_global := g\<lparr>report_size := u\<rparr>\<rparr>)
         else if tag = 9
         then (if unat u > HID_MAX_USAGES cfg then Some EPERM else None, p\<lparr>p_global := g\<lparr>report_count := u\<rparr>\<rparr>)
         else if tag = 8
         then (if u = 0 \<or> unat u \<ge> HID_MAX_IDS cfg then Some EPERM else None, p\<lparr>p_global := g\<lparr>report_id := u\<rparr>\<rparr>)
         else (Some EPERM, p))"

text \<open>The loop over a range of usages ends at the latest when the table is full.\<close>

function usage_range :: "hid_cfg \<Rightarrow> u32 \<Rightarrow> u32 \<Rightarrow> nat \<Rightarrow> hid_parser \<Rightarrow> errno option \<times> hid_parser" where
  "usage_range cfg n data sz p =
     (if n \<le> data
      then case hid_add_usage cfg p n sz of
             (Some e, p1) \<Rightarrow> (Some EPERM, p1)
           | (None, p1) \<Rightarrow> usage_range cfg (n + 1) data sz p1
      else (None, p))"
  by pat_completeness auto
termination
  by (relation "measure (\<lambda>(cfg, n, data, sz, p). HID_MAX_USAGES cfg - length (usages (p_local p)))")
    (auto simp: hid_add_usage_def Let_def split: if_splits)

declare usage_range.simps [simp del]

definition hid_parser_local :: "hid_cfg \<Rightarrow> hid_hooks \<Rightarrow> hid_parser \<Rightarrow> hid_item \<Rightarrow> errno option \<times> hid_parser" where
  "hid_parser_local cfg hk p item =
     (let data = item_udata hk item; l = p_local p; tag = item_tag item
      in if tag = 10
         then (if data \<noteq> 0
               then if delimiter_depth l \<noteq> 0 then (Some EPERM, p)
                    else (None, p\<lparr>p_local := l\<lparr>delimiter_depth := delimiter_depth l + 1, delimiter_branch := delimiter_branch l + 1\<rparr>\<rparr>)
               else if delimiter_depth l < 1 then (Some EPERM, p)
               else (None, p\<lparr>p_local := l\<lparr>delimiter_depth := delimiter_depth l - 1\<rparr>\<rparr>))
         else if tag = 0
         then (if delimiter_branch l > 1 then (None, p) else hid_add_usage cfg p data (item_size item))
         else if tag = 1
         then (if delimiter_branch l > 1 then (None, p) else (None, p\<lparr>p_local := l\<lparr>usage_minimum := data\<rparr>\<rparr>))
         else if tag = 2
         then (if delimiter_branch l > 1 then (None, p)
               else
                 let idx = (of_nat (length (usages l)) :: u32);
                     over = unat (data - usage_minimum l + idx) \<ge> HID_MAX_USAGES cfg;
                     data1 = (if over \<and> dev_name_set hk then of_nat (HID_MAX_USAGES cfg) - idx + usage_minimum l - 1 else data)
                 in if over \<and> data1 = 0 then (Some EPERM, p)
                    else usage_range cfg (usage_minimum l) data1 (item_size item) p)
         else (None, p))"

fun concat_pages :: "hid_parser \<Rightarrow> local_usage list \<Rightarrow> local_usage list" where
  "concat_pages p [] = []"
| "concat_pages p (u # us) =
     (if lu_size u > 2 then u # concat_pages p us
      else if drop_bit 16 (lu_usage u) = usage_page (p_global p) then u # us
      else u\<lparr>lu_usage := complete_usage p (lu_usage u)\<rparr> # concat_pages p us)"

text \<open>The loop runs from the last usage down.\<close>

definition hid_concatenate_last_usage_page :: "hid_parser \<Rightarrow> hid_parser" where
  "hid_concatenate_last_usage_page p =
     p\<lparr>p_local := (p_local p)\<lparr>usages := rev (concat_pages p (rev (usages (p_local p))))\<rparr>\<rparr>"

definition hid_parser_main :: "hid_cfg \<Rightarrow> hid_hooks \<Rightarrow> hid_parser \<Rightarrow> hid_item \<Rightarrow> errno option \<times> hid_parser" where
  "hid_parser_main cfg hk p item =
     (let p1 = hid_concatenate_last_usage_page p; data = item_udata hk item; tag = item_tag item;
          (ret, p2) =
            (if tag = HID_MAIN_ITEM_TAG_BEGIN_COLLECTION then open_collection cfg hk p1 (data AND 0xFF)
             else if tag = HID_MAIN_ITEM_TAG_END_COLLECTION then close_collection p1
             else if tag = HID_MAIN_ITEM_TAG_INPUT then hid_add_field cfg hk p1 HID_INPUT_REPORT data
             else if tag = HID_MAIN_ITEM_TAG_OUTPUT then hid_add_field cfg hk p1 HID_OUTPUT_REPORT data
             else if tag = HID_MAIN_ITEM_TAG_FEATURE then hid_add_field cfg hk p1 HID_FEATURE_REPORT data
             else (None, p1))
      in (ret, p2\<lparr>p_local := zero_local\<rparr>))"

definition hid_parser_reserved :: "hid_parser \<Rightarrow> hid_item \<Rightarrow> errno option \<times> hid_parser" where
  "hid_parser_reserved p item = (None, p)"

text \<open>\<open>fetch_item\<close>: the pointers are what is left of the descriptor.\<close>

definition get_unaligned_le16 :: "u8 \<Rightarrow> u8 \<Rightarrow> u16" where
  "get_unaligned_le16 a b = ucast a OR push_bit 8 (ucast b)"

definition get_unaligned_le32 :: "u8 \<Rightarrow> u8 \<Rightarrow> u8 \<Rightarrow> u8 \<Rightarrow> u32" where
  "get_unaligned_le32 a b c d = ucast a OR push_bit 8 (ucast b) OR push_bit 16 (ucast c) OR push_bit 24 (ucast d)"

definition fetch_item :: "u8 list \<Rightarrow> (hid_item \<times> u8 list) option" where
  "fetch_item start =
     (case start of
        [] \<Rightarrow> None
      | b # rest \<Rightarrow>
          let ty = unat (drop_bit 2 b AND 3); tag = unat (drop_bit 4 b AND 15)
          in if tag = HID_ITEM_TAG_LONG
             then (case rest of
                     sz # t # rest2 \<Rightarrow>
                       if length rest2 < unat sz then None
                       else Some (\<lparr>item_format = HID_ITEM_FORMAT_LONG, item_size = unat sz, item_type = ty, item_tag = unat t,
                                   item_data = DLong (take (unat sz) rest2)\<rparr>, drop (unat sz) rest2)
                   | _ \<Rightarrow> None)
             else
               let short = (\<lambda>sz d. \<lparr>item_format = HID_ITEM_FORMAT_SHORT, item_size = sz, item_type = ty, item_tag = tag, item_data = d\<rparr>)
               in if b AND 3 = 0 then Some (short 0 DNone, rest)
                  else if b AND 3 = 1
                  then (case rest of x # r \<Rightarrow> Some (short 1 (DU8 x), r) | _ \<Rightarrow> None)
                  else if b AND 3 = 2
                  then (case rest of x # y # r \<Rightarrow> Some (short 2 (DU16 (get_unaligned_le16 x y)), r) | _ \<Rightarrow> None)
                  else (case rest of x # y # z # w # r \<Rightarrow> Some (short 4 (DU32 (get_unaligned_le32 x y z w)), r) | _ \<Rightarrow> None))"

lemma fetch_item_shorter: "fetch_item start = Some (item, rest) \<Longrightarrow> length rest < length start"
  by (auto simp: fetch_item_def Let_def split: list.splits if_splits)

section \<open>Scanning\<close>

definition hid_scan_input_usage :: "u32 \<Rightarrow> hid_parser \<Rightarrow> hid_parser" where
  "hid_scan_input_usage usage p =
     (if usage = HID_DG_CONTACTID then p\<lparr>p_device := (p_device p)\<lparr>dev_group := HID_GROUP_MULTITOUCH\<rparr>\<rparr> else p)"

definition hid_scan_feature_usage :: "u32 \<Rightarrow> hid_parser \<Rightarrow> hid_parser" where
  "hid_scan_feature_usage usage p =
     (let g = p_global p;
          p1 = (if usage = 0xFF0000C5 \<and> report_count g = 256 \<and> report_size g = 8 then p\<lparr>scan_mt_win_8 := True\<rparr> else p)
      in if usage = 0xFF0000C6 \<and> report_count g = 1 \<and> report_size g = 8 then p1\<lparr>scan_mt_win_8 := True\<rparr> else p1)"

definition hid_scan_collection :: "hid_cfg \<Rightarrow> hid_parser \<Rightarrow> u32 \<Rightarrow> hid_parser" where
  "hid_scan_collection cfg p type =
     (let page = push_bit 16 (usage_page (p_global p)); us = map lu_usage (usages (p_local p));
          setg = (\<lambda>gr p. p\<lparr>p_device := (p_device p)\<lparr>dev_group := gr\<rparr>\<rparr>);
          p1 = (if page = HID_UP_SENSOR \<and> type = HID_COLLECTION_PHYSICAL then setg HID_GROUP_SENSOR_HUB p else p);
          d1 = p_device p1;
          p2 = (if dev_vendor d1 = USB_VENDOR_ID_MICROSOFT cfg \<and> dev_product d1 = USB_DEVICE_ID_MS_POWER_COVER cfg \<and>
                   dev_group d1 = HID_GROUP_MULTITOUCH
                then setg HID_GROUP_GENERIC p1 else p1);
          p3 = (if page = HID_UP_GENDESK \<and> HID_GD_POINTER \<in> set us then p2\<lparr>scan_gd_pointer := True\<rparr> else p2);
          p4 = (if page \<ge> HID_UP_MSVENDOR then p3\<lparr>scan_vendor_specific := True\<rparr> else p3)
      in if page = HID_UP_GOOGLEVENDOR \<and> (HID_UP_GOOGLEVENDOR OR 1) \<in> set us then setg HID_GROUP_VIVALDI p4 else p4)"

definition hid_scan_main :: "hid_cfg \<Rightarrow> hid_hooks \<Rightarrow> hid_parser \<Rightarrow> hid_item \<Rightarrow> errno option \<times> hid_parser" where
  "hid_scan_main cfg hk p item =
     (let p1 = hid_concatenate_last_usage_page p; data = item_udata hk item; tag = item_tag item;
          us = map lu_usage (usages (p_local p1));
          p2 = (if tag = HID_MAIN_ITEM_TAG_BEGIN_COLLECTION then hid_scan_collection cfg p1 (data AND 0xFF)
                else if tag = HID_MAIN_ITEM_TAG_INPUT
                then if has_flag data HID_MAIN_ITEM_CONSTANT then p1 else fold hid_scan_input_usage us p1
                else if tag = HID_MAIN_ITEM_TAG_FEATURE then fold hid_scan_feature_usage us p1
                else p1)
      in (None, p2\<lparr>p_local := zero_local\<rparr>))"

text \<open>The tables of handlers, by the type of the item.\<close>

definition dispatch ::
    "(hid_parser \<Rightarrow> hid_item \<Rightarrow> errno option \<times> hid_parser) \<Rightarrow> hid_cfg \<Rightarrow> hid_hooks \<Rightarrow> hid_parser \<Rightarrow> hid_item
       \<Rightarrow> errno option \<times> hid_parser" where
  "dispatch main cfg hk p item =
     (if item_type item = 0 then main p item
      else if item_type item = 1 then hid_parser_global cfg hk p item
      else if item_type item = 2 then hid_parser_local cfg hk p item
      else hid_parser_reserved p item)"

function scan_loop :: "hid_cfg \<Rightarrow> hid_hooks \<Rightarrow> hid_parser \<Rightarrow> u8 list \<Rightarrow> hid_parser" where
  "scan_loop cfg hk p start =
     (case fetch_item start of
        None \<Rightarrow> p
      | Some (item, next) \<Rightarrow> scan_loop cfg hk (snd (dispatch (hid_scan_main cfg hk) cfg hk p item)) next)"
  by pat_completeness auto
termination
  by (relation "measure (\<lambda>(cfg, hk, p, start). length start)") (auto dest: fetch_item_shorter)

declare scan_loop.simps [simp del]

definition hid_scan_report :: "hid_cfg \<Rightarrow> hid_hooks \<Rightarrow> hid_device \<Rightarrow> errno option \<times> hid_device" where
  "hid_scan_report cfg hk dev =
     (if \<not> alloc_parser_ok hk then (Some ENOMEM, dev)
      else
        let p = scan_loop cfg hk (zero_parser (dev\<lparr>dev_group := HID_GROUP_GENERIC\<rparr>)) (case dev_rdesc dev of None \<Rightarrow> [] | Some d \<Rightarrow> d);
            d1 = p_device p;
            d2 = (if scan_mt_win_8 p \<and> dev_group d1 = HID_GROUP_MULTITOUCH then d1\<lparr>dev_group := HID_GROUP_MULTITOUCH_WIN_8\<rparr> else d1)
        in (None,
            if dev_vendor d2 = USB_VENDOR_ID_WACOM cfg then d2\<lparr>dev_group := HID_GROUP_WACOM\<rparr>
            else if dev_vendor d2 = USB_VENDOR_ID_SYNAPTICS cfg \<and> dev_group d2 = HID_GROUP_GENERIC \<and>
                    scan_vendor_specific p \<and> scan_gd_pointer p
            then d2\<lparr>dev_group := HID_GROUP_RMI\<rparr> else d2))"

definition hid_parse_report :: "hid_hooks \<Rightarrow> hid_device \<Rightarrow> u8 list \<Rightarrow> errno option \<times> hid_device" where
  "hid_parse_report hk dev start =
     (if kmemdup_ok hk 0 start then (None, dev\<lparr>dev_rdesc := Some start\<rparr>) else (Some ENOMEM, dev\<lparr>dev_rdesc := None\<rparr>))"

text \<open>\<open>None\<close> when the head of an empty list is used as a report.\<close>

definition hid_validate_values ::
    "hid_cfg \<Rightarrow> hid_device \<Rightarrow> nat \<Rightarrow> nat \<Rightarrow> nat \<Rightarrow> nat \<Rightarrow> hid_report option option" where
  "hid_validate_values cfg dev type i field_index report_counts =
     (let e = report_enum dev type;
          check = (\<lambda>report. if length (r_field report) \<le> field_index then None
                   else if unat (f_report_count (r_field report ! field_index)) < report_counts then None
                   else Some report)
      in if type > HID_FEATURE_REPORT then Some None
         else if i \<ge> HID_MAX_IDS cfg then Some None
         else if i = 0
         then (case report_list e of
                 [] \<Rightarrow> None
               | j # _ \<Rightarrow> (case report_id_hash e j of None \<Rightarrow> None | Some report \<Rightarrow> Some (check report)))
         else (case report_id_hash e i of None \<Rightarrow> Some None | Some report \<Rightarrow> Some (check report)))"

section \<open>Resolution multipliers\<close>

text \<open>Entries of the array that no collection was stored in are zero.\<close>

definition coll_at :: "hid_device \<Rightarrow> nat \<Rightarrow> hid_collection" where
  "coll_at dev i =
     (if i < length (collection dev) then collection dev ! i
      else \<lparr>c_type = 0, c_usage = 0, c_level = 0, c_parent_idx = 0\<rparr>)"

definition hid_calculate_multiplier :: "hid_field \<Rightarrow> int" where
  "hid_calculate_multiplier f =
     (let v = sint (hd (f_value f)); lmin = sint (f_logical_minimum f); lmax = sint (f_logical_maximum f);
          pmin = sint (f_physical_minimum f); pmax = sint (f_physical_maximum f)
      in if c_int (lmax - lmin) = 0 then 1
         else
           let m = c_int (c_int (c_int (c_int (v - lmin) sdiv c_int (lmax - lmin)) * c_int (pmax - pmin)) + pmin)
           in if m = 0 \<or> m > 255 \<or> m < -255 then 1 else m)"

text \<open>Climbing to the top or to a collection; \<open>None\<close> when the climb does not end.\<close>

partial_function (option) climb_to :: "hid_device \<Rightarrow> nat option \<Rightarrow> nat \<Rightarrow> nat option" where
  "climb_to dev target i =
     (if c_parent_idx (coll_at dev i) \<noteq> -1 \<and> Some i \<noteq> target then climb_to dev target (nat (c_parent_idx (coll_at dev i)))
      else Some i)"

partial_function (option) climb_logical :: "hid_device \<Rightarrow> nat \<Rightarrow> nat option" where
  "climb_logical dev i =
     (if c_parent_idx (coll_at dev i) \<noteq> -1 \<and> c_type (coll_at dev i) \<noteq> HID_COLLECTION_LOGICAL
      then climb_logical dev (nat (c_parent_idx (coll_at dev i)))
      else Some i)"

definition multiply_usage :: "hid_device \<Rightarrow> nat option \<Rightarrow> int \<Rightarrow> hid_usage \<Rightarrow> hid_usage option" where
  "multiply_usage dev mc m u =
     map_option (\<lambda>j. if c_parent_idx (coll_at dev j) \<noteq> -1 \<or> mc = None then u\<lparr>resolution_multiplier := m\<rparr> else u)
       (climb_to dev mc (collection_index u))"

definition hid_apply_multiplier_to_field :: "hid_device \<Rightarrow> nat option \<Rightarrow> int \<Rightarrow> hid_field \<Rightarrow> hid_field option" where
  "hid_apply_multiplier_to_field dev mc m f =
     map_option (\<lambda>us. f\<lparr>f_usage := us\<rparr>) (those (map (multiply_usage dev mc m) (f_usage f)))"

definition reports :: "hid_device \<Rightarrow> nat \<Rightarrow> hid_report list" where
  "reports dev type = map (\<lambda>i. the (report_id_hash (report_enum dev type) i)) (report_list (report_enum dev type))"

definition hid_apply_multiplier :: "hid_device \<Rightarrow> hid_field \<Rightarrow> hid_device option" where
  "hid_apply_multiplier dev multiplier =
     (case climb_logical dev (collection_index (hd (f_usage multiplier))) of
        None \<Rightarrow> None
      | Some mc \<Rightarrow>
          let m = hid_calculate_multiplier multiplier
          in (case those (map (\<lambda>rep. map_option (\<lambda>fs. rep\<lparr>r_field := fs\<rparr>)
                                (those (map (hid_apply_multiplier_to_field dev (Some mc) m) (r_field rep))))
                           (reports dev HID_INPUT_REPORT)) of
                None \<Rightarrow> None
              | Some reps \<Rightarrow> Some (fold put_report reps dev)))"

fun apply_multipliers :: "hid_field list \<Rightarrow> hid_device \<Rightarrow> hid_device option" where
  "apply_multipliers [] dev = Some dev"
| "apply_multipliers (f # fs) dev =
     (case hid_apply_multiplier dev f of None \<Rightarrow> None | Some dev1 \<Rightarrow> apply_multipliers fs dev1)"

definition multiplier_fields :: "hid_device \<Rightarrow> hid_field list" where
  "multiplier_fields dev =
     [f. rep \<leftarrow> reports dev HID_FEATURE_REPORT, f \<leftarrow> r_field rep, \<not> f_report_count f < 1, u \<leftarrow> f_usage f,
         hid u = HID_GD_RESOLUTION_MULTIPLIER]"

text \<open>Applying a multiplier changes input reports only, so that the fields can be collected first.\<close>

definition hid_setup_resolution_multiplier :: "hid_device \<Rightarrow> hid_device option" where
  "hid_setup_resolution_multiplier dev = apply_multipliers (multiplier_fields dev) dev"

section \<open>Opening a device\<close>

definition hid_close_report :: "hid_device \<Rightarrow> hid_device" where
  "hid_close_report dev =
     dev\<lparr>report_enum := (\<lambda>type. if type < 3 then empty_enum else report_enum dev type), rdesc := None, collection := [],
         collection_size := 0, maxapplication := 0, stat_parsed := False\<rparr>"

text \<open>The structure is zeroed when it is allocated; the transport driver fills in the identifiers later.\<close>

definition hid_allocate_device :: hid_device where
  "hid_allocate_device =
     hid_close_report \<lparr>report_enum = (\<lambda>_. empty_enum), collection = [], collection_size = 0, maxapplication = 0, dev_rdesc = None,
       rdesc = None, stat_parsed = False, dev_group = HID_GROUP_ANY, dev_vendor = 0, dev_product = 0\<rparr>"

function parse_loop :: "hid_cfg \<Rightarrow> hid_hooks \<Rightarrow> hid_parser \<Rightarrow> u8 list \<Rightarrow> errno option \<times> hid_parser" where
  "parse_loop cfg hk p start =
     (case fetch_item start of
        None \<Rightarrow> (Some EINVAL, p)
      | Some (item, next) \<Rightarrow>
          if item_format item \<noteq> HID_ITEM_FORMAT_SHORT then (Some EINVAL, p)
          else (case dispatch (hid_parser_main cfg hk) cfg hk p item of
                  (Some e, p1) \<Rightarrow> (Some EINVAL, p1)
                | (None, p1) \<Rightarrow>
                    if next = []
                    then if collection_stack p1 \<noteq> [] then (Some EINVAL, p1)
                         else if delimiter_depth (p_local p1) \<noteq> 0 then (Some EINVAL, p1)
                         else (None, p1)
                    else parse_loop cfg hk p1 next))"
  by pat_completeness auto
termination
  by (relation "measure (\<lambda>(cfg, hk, p, start). length start)") (auto dest: fetch_item_shorter)

declare parse_loop.simps [simp del]

abbreviation EBUSY :: errno where "EBUSY \<equiv> EOther 16"
abbreviation ENODEV :: errno where "ENODEV \<equiv> EOther 19"

text \<open>\<open>None\<close> when the function does not return.  A device that is not open has no collections yet.\<close>

definition hid_open_report :: "hid_cfg \<Rightarrow> hid_hooks \<Rightarrow> hid_device \<Rightarrow> (errno option \<times> hid_device) option" where
  "hid_open_report cfg hk dev =
     (if stat_parsed dev then Some (Some EBUSY, dev)
      else case dev_rdesc dev of
        None \<Rightarrow> Some (Some ENODEV, dev)
      | Some buf \<Rightarrow>
          if \<not> kmemdup_ok hk 0 buf then Some (Some ENOMEM, dev)
          else
            let start = report_fixup hk buf
            in if \<not> kmemdup_ok hk 1 start then Some (Some ENOMEM, dev)
               else
                 let dev1 = dev\<lparr>rdesc := Some start\<rparr>
                 in if \<not> alloc_parser_ok hk then Some (Some ENOMEM, hid_close_report dev1)
                    else if \<not> alloc_collection_ok hk (HID_DEFAULT_NUM_COLLECTIONS cfg)
                    then Some (Some ENOMEM, hid_close_report dev1)
                    else
                      let dev2 = dev1\<lparr>collection_size := HID_DEFAULT_NUM_COLLECTIONS cfg\<rparr>
                      in (case parse_loop cfg hk (zero_parser dev2) start of
                            (Some e, p) \<Rightarrow> Some (Some e, hid_close_report (p_device p))
                          | (None, p) \<Rightarrow>
                              (case hid_setup_resolution_multiplier (p_device p) of
                                 None \<Rightarrow> None
                               | Some dev3 \<Rightarrow> Some (None, dev3\<lparr>stat_parsed := True\<rparr>))))"

end
