(* ===== verification/Hid_Report.thy ===== *)
theory Hid_Report
  imports Hid_Parser
begin

text \<open>
  Reports in operation (\<open>drivers/hid/hid-core.c\<close>): what arrives from a device is split into the values of the
  fields and reported to the listeners, and the values of an output or feature report are put into a buffer.

  A buffer is the list of its bytes.  The result \<open>None\<close> is an access outside an array or a buffer, or a shift
  that the C language does not define.  The driver and the listeners are the fields of \<open>hid_driver\<close> and
  \<open>hid_env\<close>: they answer and may rewrite the data that arrived, and do not change the report structures; what
  they are told is the list of events.
\<close>

section \<open>The environment\<close>

definition HID_CLAIMED_INPUT :: u32 where "HID_CLAIMED_INPUT = 1"
definition HID_CLAIMED_HIDDEV :: u32 where "HID_CLAIMED_HIDDEV = 2"
definition HID_CLAIMED_HIDRAW :: u32 where "HID_CLAIMED_HIDRAW = 4"
definition HID_ANY_ID :: u32 where "HID_ANY_ID = 0xFFFFFFFF"

text \<open>The tables of a driver are given up to their terminator.\<close>

record hid_usage_id =
  uid_hid :: u32
  uid_type :: u32
  uid_code :: u32

record hid_driver =
  report_table :: "u32 list option"
  usage_table :: "hid_usage_id list option"
  drv_event :: "(hid_field \<Rightarrow> hid_usage \<Rightarrow> s32 \<Rightarrow> int) option"
  drv_raw_event :: "(hid_report \<Rightarrow> u8 list \<Rightarrow> u32 \<Rightarrow> int \<times> u8 list) option"
  drv_report :: bool

record hid_env =
  debug_open :: bool
  hdriver :: "hid_driver option"
  claimed :: u32
  hiddev_event_set :: bool
  hiddev_report_set :: bool
  hidraw_report_event :: "u8 list \<Rightarrow> u32 \<Rightarrow> int"
  alloc_values_ok :: "nat \<Rightarrow> bool"
  input_lock_free :: bool

datatype hid_event =
    DumpInput hid_usage s32 | DriverEvent hid_usage s32 | InputEvent hid_usage s32 | HiddevEvent hid_usage s32
  | DumpReport "u8 list" | HiddevReport nat | HidrawReport "u8 list" | DriverReport nat | InputReport nat

section \<open>Matching\<close>

fun search :: "s32 list \<Rightarrow> s32 \<Rightarrow> bool" where
  "search [] v = False"
| "search (x # xs) v = (if x = v then True else search xs v)"

definition hid_match_report :: "hid_driver \<Rightarrow> hid_report \<Rightarrow> bool" where
  "hid_match_report drv report =
     (case report_table drv of
        None \<Rightarrow> True
      | Some ids \<Rightarrow> list_ex (\<lambda>t. t = HID_ANY_ID \<or> t = of_nat (r_type report)) ids)"

definition hid_match_usage :: "hid_driver \<Rightarrow> hid_usage \<Rightarrow> bool" where
  "hid_match_usage drv usage =
     (case usage_table drv of
        None \<Rightarrow> True
      | Some ids \<Rightarrow> list_ex (\<lambda>i. (uid_hid i = HID_ANY_ID \<or> uid_hid i = hid usage) \<and>
                                 (uid_type i = HID_ANY_ID \<or> uid_type i = ucast (u_type usage)) \<and>
                                 (uid_code i = HID_ANY_ID \<or> uid_code i = ucast (u_code usage))) ids)"

section \<open>Input\<close>

definition hid_process_event :: "hid_env \<Rightarrow> hid_field \<Rightarrow> hid_usage \<Rightarrow> s32 \<Rightarrow> bool \<Rightarrow> hid_event list" where
  "hid_process_event env field usage v interrupt =
     (let dump = (if debug_open env then [DumpInput usage v] else []);
          (told, stop) =
            (case hdriver env of
               None \<Rightarrow> ([], False)
             | Some drv \<Rightarrow>
                 (case drv_event drv of
                    None \<Rightarrow> ([], False)
                  | Some event \<Rightarrow> if hid_match_usage drv usage then ([DriverEvent usage v], event field usage v < 0) else ([], False)))
      in if stop then dump @ told
         else dump @ told @
              (if has_flag (claimed env) HID_CLAIMED_INPUT then [InputEvent usage v] else []) @
              (if has_flag (claimed env) HID_CLAIMED_HIDDEV \<and> interrupt \<and> hiddev_event_set env then [HiddevEvent usage v] else []))"

text \<open>
  The value at position \<open>n\<close> of a field, and the usage that a value of an array field selects: the index
  \<open>value - min\<close> is compared as an unsigned number.
\<close>

definition read_value :: "hid_field \<Rightarrow> u8 list \<Rightarrow> nat \<Rightarrow> s32 option" where
  "read_value field data n =
     (let sz = unat (f_report_size field)
      in case hid_field_extract data (unat (f_report_offset field + of_nat n * f_report_size field)) sz of
           None \<Rightarrow> None
         | Some v \<Rightarrow> if sint (f_logical_minimum field) < 0 then snto32 v sz else Some v)"

definition usage_slot :: "hid_field \<Rightarrow> s32 \<Rightarrow> hid_usage option" where
  "usage_slot field v =
     (let mn = f_logical_minimum field; mx = f_logical_maximum field
      in if sint v \<ge> sint mn \<and> sint v \<le> sint mx \<and> v - mn < of_nat (length (f_usage field))
         then Some (f_usage field ! unat (v - mn)) else None)"

definition rollover :: "hid_field \<Rightarrow> s32 \<Rightarrow> bool" where
  "rollover field v =
     (\<not> has_flag (f_flags field) HID_MAIN_ITEM_VARIABLE \<and>
      (case usage_slot field v of None \<Rightarrow> False | Some u \<Rightarrow> hid u = HID_UP_KEYBOARD + 1))"

text \<open>The first loop: \<open>Some None\<close> is the exit on ErrorRollOver.\<close>

fun read_values :: "hid_field \<Rightarrow> u8 list \<Rightarrow> nat list \<Rightarrow> s32 list option option" where
  "read_values field data [] = Some (Some [])"
| "read_values field data (n # ns) =
     (case read_value field data n of
        None \<Rightarrow> None
      | Some v \<Rightarrow>
          if rollover field v then Some None
          else (case read_values field data ns of
                  Some (Some vs) \<Rightarrow> Some (Some (v # vs))
                | r \<Rightarrow> r))"

text \<open>One turn of the second loop: \<open>old\<close> are the values of the previous report, \<open>new\<close> those of this one.\<close>

definition key_event :: "hid_env \<Rightarrow> hid_field \<Rightarrow> bool \<Rightarrow> s32 list \<Rightarrow> s32 \<Rightarrow> s32 \<Rightarrow> hid_event list" where
  "key_event env field interrupt others v what =
     (case usage_slot field v of
        None \<Rightarrow> []
      | Some u \<Rightarrow> if hid u \<noteq> 0 \<and> \<not> search others v then hid_process_event env field u what interrupt else [])"

definition report_value ::
    "hid_env \<Rightarrow> hid_field \<Rightarrow> bool \<Rightarrow> s32 list \<Rightarrow> s32 list \<Rightarrow> nat \<Rightarrow> hid_event list option" where
  "report_value env field interrupt old new n =
     (if has_flag (f_flags field) HID_MAIN_ITEM_VARIABLE
      then if n < length (f_usage field) then Some (hid_process_event env field (f_usage field ! n) (new ! n) interrupt) else None
      else if n < length old
      then Some (key_event env field interrupt new (old ! n) 0 @
                 key_event env field interrupt (take (length new) old) (new ! n) 1)
      else None)"

definition hid_input_field :: "hid_env \<Rightarrow> hid_field \<Rightarrow> u8 list \<Rightarrow> bool \<Rightarrow> (hid_field \<times> hid_event list) option" where
  "hid_input_field env field data interrupt =
     (let count = unat (f_report_count field)
      in if \<not> alloc_values_ok env count then Some (field, [])
         else case read_values field data [0..<count] of
                None \<Rightarrow> None
              | Some None \<Rightarrow> Some (field, [])
              | Some (Some new) \<Rightarrow>
                  (case those (map (report_value env field interrupt (f_value field) new) [0..<count]) of
                     None \<Rightarrow> None
                   | Some evs \<Rightarrow>
                       if count \<le> length (f_value field)
                       then Some (field\<lparr>f_value := new @ drop count (f_value field)\<rparr>, concat evs)
                       else None))"

section \<open>Output\<close>

fun output_values :: "hid_field \<Rightarrow> nat list \<Rightarrow> u8 list \<Rightarrow> u8 list option" where
  "output_values field [] data = Some data"
| "output_values field (n # ns) data =
     (let off = unat (f_report_offset field + of_nat n * f_report_size field); sz = unat (f_report_size field)
      in if n \<ge> length (f_value field) then None
         else case (if sint (f_logical_minimum field) < 0 then s32ton (f_value field ! n) sz else Some (f_value field ! n)) of
                None \<Rightarrow> None
              | Some v \<Rightarrow> (case implement data off sz v of None \<Rightarrow> None | Some data1 \<Rightarrow> output_values field ns data1))"

definition hid_output_field :: "hid_field \<Rightarrow> u8 list \<Rightarrow> u8 list option" where
  "hid_output_field field data = output_values field [0..<unat (f_report_count field)] data"

definition hid_compute_report_size :: "hid_report \<Rightarrow> nat" where
  "hid_compute_report_size report = (if r_size report \<noteq> 0 then unat (drop_bit 3 (r_size report - 1)) + 1 else 0)"

fun output_fields :: "hid_field list \<Rightarrow> u8 list \<Rightarrow> u8 list option" where
  "output_fields [] data = Some data"
| "output_fields (f # fs) data =
     (case hid_output_field f data of None \<Rightarrow> None | Some data1 \<Rightarrow> output_fields fs data1)"

definition hid_output_report :: "hid_report \<Rightarrow> u8 list \<Rightarrow> u8 list option" where
  "hid_output_report report data =
     (let hdr = (if r_id report > 0 then 1 else 0); sz = hid_compute_report_size report
      in if length data < hdr + sz then None
         else map_option (\<lambda>body. (if r_id report > 0 then [of_nat (r_id report)] else []) @ body)
                (output_fields (r_field report) (replicate sz 0 @ drop (hdr + sz) data)))"

text \<open>\<open>buf\<close> is what the allocator of the kernel gives for a length, \<open>report_len\<close> the inline function of the header.\<close>

definition hid_alloc_report_buf :: "(hid_report \<Rightarrow> nat) \<Rightarrow> (nat \<Rightarrow> u8 list option) \<Rightarrow> hid_report \<Rightarrow> u8 list option" where
  "hid_alloc_report_buf report_len buf report = buf (report_len report + 7)"

text \<open>
  With the debug code compiled in, the usage at \<open>offset\<close> is read for the dump before \<open>offset\<close> is checked.
\<close>

definition hid_set_field ::
    "bool \<Rightarrow> hid_field option \<Rightarrow> nat \<Rightarrow> s32 \<Rightarrow> (errno option \<times> hid_field option \<times> hid_event list) option" where
  "hid_set_field debug_fs fld offset v =
     (case fld of
        None \<Rightarrow> Some (Some EPERM, None, [])
      | Some field \<Rightarrow>
          if debug_fs \<and> offset \<ge> length (f_usage field) then None
          else
          let sz = unat (f_report_size field);
              dump = (if debug_fs then [DumpInput (f_usage field ! offset) v] else []);
              store = Some (None, Some (field\<lparr>f_value := (f_value field)[offset := v]\<rparr>), dump)
          in if offset \<ge> unat (f_report_count field) then Some (Some EPERM, fld, dump)
             else if offset \<ge> length (f_value field) then None
             else if sint (f_logical_minimum field) < 0
             then (case s32ton v sz of
                     None \<Rightarrow> None
                   | Some u \<Rightarrow> (case snto32 u sz of
                                 None \<Rightarrow> None
                               | Some w \<Rightarrow> if v \<noteq> w then Some (Some EPERM, fld, dump) else store))
             else store)"

section \<open>Whole reports\<close>

definition hid_get_report :: "hid_report_enum \<Rightarrow> u8 list \<Rightarrow> hid_report option option" where
  "hid_get_report e data =
     (if numbered e
      then case data of [] \<Rightarrow> None | b # _ \<Rightarrow> Some (report_id_hash e (unat b))
      else Some (report_id_hash e 0))"

fun input_fields :: "hid_env \<Rightarrow> u8 list \<Rightarrow> bool \<Rightarrow> hid_field list \<Rightarrow> (hid_field list \<times> hid_event list) option" where
  "input_fields env data interrupt [] = Some ([], [])"
| "input_fields env data interrupt (f # fs) =
     (case hid_input_field env f data interrupt of
        None \<Rightarrow> None
      | Some (f1, ev1) \<Rightarrow>
          (case input_fields env data interrupt fs of
             None \<Rightarrow> None
           | Some (fs1, ev2) \<Rightarrow> Some (f1 # fs1, ev1 @ ev2)))"

text \<open>The bytes from \<open>csize\<close> to \<open>rsize\<close> are cleared; the buffer has to reach that far.\<close>

definition pad_report :: "u8 list \<Rightarrow> nat \<Rightarrow> nat \<Rightarrow> u8 list option" where
  "pad_report cdata csize rsize =
     (if csize < rsize
      then if rsize \<le> length cdata then Some (take csize cdata @ replicate (rsize - csize) 0 @ drop rsize cdata) else None
      else Some cdata)"

definition hid_report_raw_event ::
    "hid_cfg \<Rightarrow> hid_env \<Rightarrow> hid_device \<Rightarrow> nat \<Rightarrow> u8 list \<Rightarrow> u32 \<Rightarrow> bool \<Rightarrow> (int \<times> hid_device \<times> hid_event list) option" where
  "hid_report_raw_event cfg env dev type data sz interrupt =
     (let e = report_enum dev type
      in case hid_get_report e data of
           None \<Rightarrow> None
         | Some None \<Rightarrow> Some (0, dev, [])
         | Some (Some report) \<Rightarrow>
             let cdata = (if numbered e then tl data else data);
                 csize = (if numbered e then sz - 1 else sz);
                 rsize0 = hid_compute_report_size report;
                 rsize = (if numbered e \<and> rsize0 \<ge> HID_MAX_BUFFER_SIZE cfg then HID_MAX_BUFFER_SIZE cfg - 1
                          else if rsize0 > HID_MAX_BUFFER_SIZE cfg then HID_MAX_BUFFER_SIZE cfg else rsize0)
             in (case pad_report cdata (unat csize) rsize of
                   None \<Rightarrow> None
                 | Some cdata1 \<Rightarrow>
                     let data1 = (if numbered e then hd data # cdata1 else cdata1);
                         ev1 = (if has_flag (claimed env) HID_CLAIMED_HIDDEV \<and> hiddev_report_set env then [HiddevReport (r_id report)] else []);
                         raw = has_flag (claimed env) HID_CLAIMED_HIDRAW;
                         ev2 = (if raw then [HidrawReport data1] else []);
                         ret = (if raw then hidraw_report_event env data1 sz else 0);
                         ev4 = (if has_flag (claimed env) HID_CLAIMED_INPUT then [InputReport (r_id report)] else [])
                     in if ret \<noteq> 0 then Some (ret, dev, ev1 @ ev2)
                        else if claimed env \<noteq> HID_CLAIMED_HIDRAW \<and> r_field report \<noteq> []
                        then (case input_fields env cdata1 interrupt (r_field report) of
                                None \<Rightarrow> None
                              | Some (fs, ev3) \<Rightarrow>
                                  Some (ret, put_report (report\<lparr>r_field := fs\<rparr>) dev,
                                    ev1 @ ev2 @ ev3 @
                                    (case hdriver env of None \<Rightarrow> [] | Some drv \<Rightarrow> if drv_report drv then [DriverReport (r_id report)] else []) @
                                    ev4))
                        else Some (ret, dev, ev1 @ ev2 @ ev4)))"

definition hid_input_report ::
    "hid_cfg \<Rightarrow> hid_env \<Rightarrow> hid_device option \<Rightarrow> nat \<Rightarrow> u8 list \<Rightarrow> u32 \<Rightarrow> bool
       \<Rightarrow> (int \<times> hid_device option \<times> hid_event list) option" where
  "hid_input_report cfg env hdev type data sz interrupt =
     (case hdev of
        None \<Rightarrow> Some (- 19, hdev, [])
      | Some dev \<Rightarrow>
          if \<not> input_lock_free env then Some (- 16, hdev, [])
          else (case hdriver env of
            None \<Rightarrow> Some (- 19, hdev, [])
          | Some drv \<Rightarrow>
              if sz = 0 then Some (- 1, hdev, [])
              else
                let ev0 = (if debug_open env then [DumpReport data] else [])
                in (case hid_get_report (report_enum dev type) data of
                      None \<Rightarrow> None
                    | Some None \<Rightarrow> Some (- 1, hdev, ev0)
                    | Some (Some report) \<Rightarrow>
                        let (ret, data1) = (case drv_raw_event drv of
                               None \<Rightarrow> (0, data)
                             | Some raw_event \<Rightarrow> if hid_match_report drv report then raw_event report data sz else (0, data))
                        in if ret < 0 then Some (ret, hdev, ev0)
                           else (case hid_report_raw_event cfg env dev type data1 sz interrupt of
                                   None \<Rightarrow> None
                                 | Some (r, dev1, evs) \<Rightarrow> Some (r, Some dev1, ev0 @ evs)))))"

text \<open>
  The generic request of a report from the device or to it: \<open>raw_request\<close> is the transport, which answers with
  a number of bytes or an error and leaves what it read in the buffer.
\<close>

datatype hid_req = HID_REQ_GET_REPORT | HID_REQ_SET_REPORT | HID_REQ_OTHER nat

definition hid_request ::
    "hid_cfg \<Rightarrow> hid_env \<Rightarrow> (hid_report \<Rightarrow> nat) \<Rightarrow> (nat \<Rightarrow> u8 list option)
       \<Rightarrow> (nat \<Rightarrow> u8 list \<Rightarrow> nat \<Rightarrow> nat \<Rightarrow> hid_req \<Rightarrow> int \<times> u8 list)
       \<Rightarrow> hid_device \<Rightarrow> hid_report \<Rightarrow> hid_req \<Rightarrow> (int \<times> hid_device option \<times> hid_event list) option" where
  "hid_request cfg env report_len alloc raw_request dev report reqtype =
     (case hid_alloc_report_buf report_len alloc report of
        None \<Rightarrow> Some (- 12, Some dev, [])
      | Some buf \<Rightarrow>
          (case (if reqtype = HID_REQ_SET_REPORT then hid_output_report report buf else Some buf) of
             None \<Rightarrow> None
           | Some buf1 \<Rightarrow>
               let (ret, buf2) = raw_request (r_id report) buf1 (report_len report) (r_type report) reqtype
               in if ret < 0 then Some (ret, Some dev, [])
                  else if reqtype = HID_REQ_GET_REPORT
                  then (case hid_input_report cfg env (Some dev) (r_type report) buf2 (of_int ret) False of
                          None \<Rightarrow> None
                        | Some (r, dev1, evs) \<Rightarrow> Some (0, dev1, evs))
                  else Some (0, Some dev, [])))"

end
