(* ===== verification/Hid_Inv.thy ===== *)
theory Hid_Inv
  imports Hid_Report
begin

text \<open>
  Well-formedness of a HID device and its preservation: every field lies within its report, the fields of a
  report do not overlap, the arrays of a field are long enough, and the collections form a forest.  The
  invariant holds of every device that the operations can reach.
\<close>

section \<open>Well-formed devices\<close>

text \<open>What the limits of the headers have to satisfy so that a report size does not wrap and arrays grow.\<close>

definition cfg_ok :: "hid_cfg \<Rightarrow> bool" where
  "cfg_ok cfg \<longleftrightarrow>
     256 * HID_MAX_USAGES cfg + 8 * HID_MAX_BUFFER_SIZE cfg < 2 ^ 32 \<and> 1 \<le> HID_MAX_BUFFER_SIZE cfg \<and>
     1 \<le> HID_COLLECTION_STACK_SIZE cfg \<and> 1 \<le> HID_DEFAULT_NUM_COLLECTIONS cfg"

text \<open>An item outside every collection has collection index 0, also when there is no collection at all.\<close>

definition idx_ok :: "nat \<Rightarrow> nat \<Rightarrow> bool" where
  "idx_ok nc i \<longleftrightarrow> i < nc \<or> i = 0"

definition f_start :: "hid_field \<Rightarrow> nat" where
  "f_start f = unat (f_report_offset f)"

definition f_end :: "hid_field \<Rightarrow> nat" where
  "f_end f = unat (f_report_offset f) + unat (f_report_size f) * unat (f_report_count f)"

definition field_ok :: "hid_cfg \<Rightarrow> nat \<Rightarrow> hid_field \<Rightarrow> bool" where
  "field_ok cfg nc f \<longleftrightarrow>
     unat (f_report_size f) \<le> 256 \<and> unat (f_report_count f) \<le> length (f_value f) \<and> f_usage f \<noteq> [] \<and>
     length (f_usage f) = length (f_value f) \<and> length (f_usage f) \<le> HID_MAX_USAGES cfg \<and>
     map usage_index (f_usage f) = [0..<length (f_usage f)] \<and> list_all (\<lambda>u. idx_ok nc (collection_index u)) (f_usage f) \<and>
     (if sint (f_logical_minimum f) < 0 then sint (f_logical_minimum f) \<le> sint (f_logical_maximum f)
      else f_logical_minimum f \<le> f_logical_maximum f)"

definition report_ok :: "hid_cfg \<Rightarrow> nat \<Rightarrow> hid_report \<Rightarrow> bool" where
  "report_ok cfg nc r \<longleftrightarrow>
     unat (r_size r) \<le> (HID_MAX_BUFFER_SIZE cfg - 1) * 8 \<and> length (r_field r) \<le> HID_MAX_FIELDS cfg \<and>
     list_all (field_ok cfg nc) (r_field r) \<and> list_all (\<lambda>f. f_end f \<le> unat (r_size r)) (r_field r) \<and>
     sorted_wrt (\<lambda>f g. f_end f \<le> f_start g) (r_field r)"

definition enum_ok :: "hid_cfg \<Rightarrow> nat \<Rightarrow> nat \<Rightarrow> hid_report_enum \<Rightarrow> bool" where
  "enum_ok cfg nc type e \<longleftrightarrow>
     distinct (report_list e) \<and> set (report_list e) = dom (report_id_hash e) \<and>
     (\<forall>i r. report_id_hash e i = Some r \<longrightarrow>
        r_id r = i \<and> r_type r = type \<and> i < HID_MAX_IDS cfg \<and> (i \<noteq> 0 \<longrightarrow> numbered e) \<and> report_ok cfg nc r)"

definition coll_ok :: "hid_collection list \<Rightarrow> bool" where
  "coll_ok cs \<longleftrightarrow> (\<forall>i < length cs. c_parent_idx (cs ! i) = - 1 \<or> 0 \<le> c_parent_idx (cs ! i) \<and> c_parent_idx (cs ! i) < int i)"

definition dev_ok :: "hid_cfg \<Rightarrow> hid_device \<Rightarrow> bool" where
  "dev_ok cfg dev \<longleftrightarrow>
     (\<forall>t < 3. enum_ok cfg (length (collection dev)) t (report_enum dev t)) \<and>
     coll_ok (collection dev) \<and> length (collection dev) \<le> collection_size dev"

definition dev_closed :: "hid_device \<Rightarrow> bool" where
  "dev_closed dev \<longleftrightarrow> (\<forall>t < 3. report_enum dev t = empty_enum) \<and> collection dev = []"

text \<open>A parsed device is well-formed, any other has no reports and no collections.\<close>

definition dev_inv :: "hid_cfg \<Rightarrow> hid_device \<Rightarrow> bool" where
  "dev_inv cfg dev \<longleftrightarrow> (if stat_parsed dev then dev_ok cfg dev else dev_closed dev)"

definition global_ok :: "hid_cfg \<Rightarrow> hid_global \<Rightarrow> bool" where
  "global_ok cfg g \<longleftrightarrow> unat (report_size g) \<le> 256 \<and> unat (report_count g) \<le> HID_MAX_USAGES cfg"

definition parser_ok :: "hid_cfg \<Rightarrow> hid_parser \<Rightarrow> bool" where
  "parser_ok cfg p \<longleftrightarrow>
     dev_ok cfg (p_device p) \<and> 1 \<le> collection_size (p_device p) \<and> global_ok cfg (p_global p) \<and> list_all (global_ok cfg) (global_stack p) \<and>
     length (global_stack p) \<le> HID_GLOBAL_STACK_SIZE cfg \<and>
     length (usages (p_local p)) \<le> HID_MAX_USAGES cfg \<and>
     list_all (\<lambda>u. idx_ok (length (collection (p_device p))) (lu_collection u)) (usages (p_local p)) \<and>
     list_all (\<lambda>i. i < length (collection (p_device p))) (collection_stack p) \<and>
     length (collection_stack p) \<le> collection_stack_size p"

lemma idx_ok_mono: "idx_ok nc i \<Longrightarrow> nc \<le> nc' \<Longrightarrow> idx_ok nc' i"
  by (auto simp: idx_ok_def)

lemma field_ok_mono: "field_ok cfg nc f \<Longrightarrow> nc \<le> nc' \<Longrightarrow> field_ok cfg nc' f"
  by (auto simp: field_ok_def list_all_iff intro: idx_ok_mono)

lemma report_ok_mono: "report_ok cfg nc r \<Longrightarrow> nc \<le> nc' \<Longrightarrow> report_ok cfg nc' r"
  by (auto simp: report_ok_def list_all_iff intro: field_ok_mono)

lemma enum_ok_mono: "enum_ok cfg nc t e \<Longrightarrow> nc \<le> nc' \<Longrightarrow> enum_ok cfg nc' t e"
  unfolding enum_ok_def by (blast intro: report_ok_mono)

lemma empty_enum_ok: "enum_ok cfg nc t empty_enum"
  by (simp add: enum_ok_def empty_enum_def)

lemma enum_report:
  assumes "enum_ok cfg nc t e" and "report_id_hash e i = Some r"
  shows "r_id r = i" and "r_type r = t" and "i < HID_MAX_IDS cfg" and "report_ok cfg nc r"
  using assms by (auto simp: enum_ok_def)

text \<open>Replacing a report by a well-formed one of the same number.\<close>

lemma put_report_simps [simp]:
  "collection (put_report r dev) = collection dev" "collection_size (put_report r dev) = collection_size dev"
  "stat_parsed (put_report r dev) = stat_parsed dev"
  by (simp_all add: put_report_def Let_def)

lemma put_report_ok:
  assumes "dev_ok cfg dev" and "report_ok cfg (length (collection dev)) r"
    and "report_id_hash (report_enum dev (r_type r)) (r_id r) \<noteq> None"
  shows "dev_ok cfg (put_report r dev)"
proof -
  let ?nc = "length (collection dev)"
  have "enum_ok cfg ?nc t (report_enum (put_report r dev) t)" if t: "t < 3" for t
  proof -
    have e: "enum_ok cfg ?nc t (report_enum dev t)" using assms(1) t by (simp add: dev_ok_def)
    show ?thesis
      using e assms(2,3) unfolding enum_ok_def put_report_def Let_def by (auto simp: insert_absorb domIff)
  qed
  then show ?thesis using assms(1) by (simp add: dev_ok_def)
qed

section \<open>The parser keeps the invariant\<close>

lemma register_report_ok:
  assumes dev: "dev_ok cfg dev" and t: "t < 3"
    and reg: "hid_register_report cfg hk dev t i application = Some (r, dev')"
  shows "dev_ok cfg dev'" and "report_id_hash (report_enum dev' t) i = Some r" and "r_id r = i" and "r_type r = t"
    and "report_ok cfg (length (collection dev)) r" and "collection dev' = collection dev"
    and "collection_size dev' = collection_size dev"
proof -
  let ?nc = "length (collection dev)"
  have e: "enum_ok cfg ?nc t (report_enum dev t)" using dev t by (simp add: dev_ok_def)
  have "dev_ok cfg dev' \<and> report_id_hash (report_enum dev' t) i = Some r \<and> r_id r = i \<and> r_type r = t \<and>
      report_ok cfg ?nc r \<and> collection dev' = collection dev \<and> collection_size dev' = collection_size dev"
  proof (cases "report_id_hash (report_enum dev t) i")
    case (Some q)
    then have "r = q" "dev' = dev" using reg by (auto simp: hid_register_report_def Let_def split: if_splits)
    then show ?thesis using Some dev enum_report [OF e Some] by simp
  next
    case None
    then have i: "i < HID_MAX_IDS cfg"
      and r: "r = \<lparr>r_id = i, r_type = t, r_size = 0, r_application = application, r_field = []\<rparr>"
      and d: "dev' = dev\<lparr>report_enum := (report_enum dev)(t := (report_enum dev t)
            \<lparr>numbered := numbered (report_enum dev t) \<or> i \<noteq> 0, report_id_hash := (report_id_hash (report_enum dev t))(i \<mapsto> r),
              report_list := report_list (report_enum dev t) @ [i]\<rparr>)\<rparr>"
      using reg by (auto simp: hid_register_report_def Let_def split: if_splits)
    have ro: "report_ok cfg ?nc r" by (simp add: r report_ok_def)
    have "enum_ok cfg ?nc t (report_enum dev' t)"
      using e None i ro unfolding enum_ok_def d by (auto simp: r)
    then show ?thesis using dev ro by (auto simp: dev_ok_def d r)
  qed
  then show "dev_ok cfg dev'" "report_id_hash (report_enum dev' t) i = Some r" "r_id r = i" "r_type r = t"
    "report_ok cfg ?nc r" "collection dev' = collection dev" "collection_size dev' = collection_size dev" by auto
qed

text \<open>Growing a report by the size of an item: the sum does not wrap.\<close>

lemma grow_no_wrap:
  assumes "cfg_ok cfg" and "report_ok cfg nc r" and "global_ok cfg g"
  shows "unat (r_size r + report_size g * report_count g) = unat (r_size r) + unat (report_size g) * unat (report_count g)"
proof -
  have "unat (report_size g) * unat (report_count g) \<le> 256 * HID_MAX_USAGES cfg"
    using assms(3) by (intro mult_mono) (auto simp: global_ok_def)
  moreover have "unat (r_size r) \<le> 8 * HID_MAX_BUFFER_SIZE cfg" using assms(2) by (auto simp: report_ok_def)
  ultimately have s: "unat (r_size r) + unat (report_size g) * unat (report_count g) < 2 ^ 32"
    using assms(1) by (simp add: cfg_ok_def)
  then have "unat (report_size g) * unat (report_count g) < 2 ^ LENGTH(32)" by simp
  then have m: "unat (report_size g * report_count g) = unat (report_size g) * unat (report_count g)"
    by (rule unat_mult_lem [THEN iffD1])
  have "unat (r_size r) + unat (report_size g * report_count g) < 2 ^ LENGTH(32)" using s by (simp add: m)
  then show ?thesis unfolding m [symmetric] by (rule unat_add_lem [THEN iffD1])
qed

lemma zero_local_ok: "usages zero_local = []"
  by (simp add: zero_local_def)

text \<open>What a main item that succeeds does to the report: it grows, and a field is appended at its old end.\<close>

lemma add_field_report:
  assumes cfg: "cfg_ok cfg" and r: "report_ok cfg nc r" and g: "global_ok cfg g"
    and lim: "unat (r_size r + report_size g * report_count g) \<le> (HID_MAX_BUFFER_SIZE cfg - 1) * 8"
  shows "report_ok cfg nc (r\<lparr>r_size := r_size r + report_size g * report_count g\<rparr>)"
    and "field_ok cfg nc f \<Longrightarrow> f_report_offset f = r_size r \<Longrightarrow> f_report_size f = report_size g \<Longrightarrow>
         f_report_count f = report_count g \<Longrightarrow> length (r_field r) < HID_MAX_FIELDS cfg \<Longrightarrow>
         report_ok cfg nc (r\<lparr>r_size := r_size r + report_size g * report_count g, r_field := r_field r @ [f]\<rparr>)"
  using grow_no_wrap [OF cfg r g] lim r
  by (auto simp: report_ok_def list_all_iff f_end_def f_start_def sorted_wrt_append intro: trans_le_add1)

lemma field_usage_index: "map (usage_index \<circ> field_usage us) [0..<n] = [0..<n]"
  by (simp add: field_usage_def Let_def comp_def)

lemma field_usage_idx:
  "us \<noteq> [] \<Longrightarrow> list_all (\<lambda>u. idx_ok nc (lu_collection u)) us \<Longrightarrow> idx_ok nc (collection_index (field_usage us i))"
  by (auto simp: field_usage_def Let_def list_all_iff)

lemma add_field_ok:
  assumes cfg: "cfg_ok cfg" and p: "parser_ok cfg p" and t: "t < 3" and add: "hid_add_field cfg hk p t flags = (None, p')"
  shows "parser_ok cfg p'"
proof -
  let ?nc = "length (collection (p_device p))" and ?g = "p_global p" and ?us = "usages (p_local p)"
  have g: "global_ok cfg ?g" and us: "length ?us \<le> HID_MAX_USAGES cfg"
    and usi: "list_all (\<lambda>u. idx_ok ?nc (lu_collection u)) ?us" using p by (auto simp: parser_ok_def)
  obtain r dev where reg: "hid_register_report cfg hk (p_device p) t (unat (report_id ?g))
      (hid_lookup_collection p HID_COLLECTION_APPLICATION) = Some (r, dev)"
    using add by (auto simp: hid_add_field_def Let_def split: option.splits)
  have "dev_ok cfg (p_device p)" using p by (simp add: parser_ok_def)
  note R = register_report_ok [OF this t reg]
  define r1 where "r1 = r\<lparr>r_size := r_size r + report_size ?g * report_count ?g\<rparr>"
  note add' = add [unfolded hid_add_field_def Let_def reg option.case prod.case, folded r1_def]
  have lim: "unat (r_size r + report_size ?g * report_count ?g) \<le> (HID_MAX_BUFFER_SIZE cfg - 1) * 8"
    using add' by (auto simp: r1_def split: if_splits)
  note RF = add_field_report [OF cfg R(5) g lim]
  have put: "parser_ok cfg (p\<lparr>p_device := put_report q dev\<rparr>)"
    if "report_ok cfg ?nc q" "r_id q = r_id r" "r_type q = r_type r" for q
  proof -
    have "dev_ok cfg (put_report q dev)" using put_report_ok [OF R(1), of q] that R by simp
    then show ?thesis using p R(6,7) by (auto simp: parser_ok_def)
  qed
  have r1: "parser_ok cfg (p\<lparr>p_device := put_report r1 dev\<rparr>)" using RF(1) by (intro put) (simp_all add: r1_def)
  show ?thesis
  proof (cases "p' = p\<lparr>p_device := put_report r1 dev\<rparr>")
    case True then show ?thesis using r1 by simp
  next
    case False
    define n where "n = max (length ?us) (unat (report_count ?g))"
    define f where "f = (new_field p t flags (r_size r))\<lparr>f_value := replicate n 0\<rparr>"
    have ne: "?us \<noteq> []" and len: "length (r_field r) \<noteq> HID_MAX_FIELDS cfg"
      and p': "p' = p\<lparr>p_device := put_report (r1\<lparr>r_field := r_field r @ [f]\<rparr>) dev\<rparr>"
      using False add' by (auto simp: hid_register_field_def r1_def f_def n_def split: if_splits)
    have f: "f_report_offset f = r_size r" "f_report_size f = report_size ?g" "f_report_count f = report_count ?g"
        "f_logical_minimum f = logical_minimum ?g" "f_logical_maximum f = logical_maximum ?g"
        "f_usage f = map (field_usage ?us) [0..<n]" "f_value f = replicate n 0"
      by (simp_all add: f_def new_field_def n_def Let_def)
    have lg: "if sint (logical_minimum ?g) < 0 then sint (logical_minimum ?g) \<le> sint (logical_maximum ?g)
        else logical_minimum ?g \<le> logical_maximum ?g"
      using add' by (auto split: if_splits)
    have "field_ok cfg ?nc f"
      using f g us ne lg field_usage_idx [OF ne usi] field_usage_index [of ?us n] by (auto simp: field_ok_def global_ok_def list_all_iff n_def)
    moreover have "length (r_field r) < HID_MAX_FIELDS cfg" using len R(5) by (auto simp: report_ok_def)
    ultimately have "report_ok cfg ?nc (r1\<lparr>r_field := r_field r @ [f]\<rparr>)"
      using RF(2) [of f] f(1-3) by (simp add: r1_def)
    then show ?thesis unfolding p' by (intro put) (simp_all add: r1_def)
  qed
qed

lemma add_usage_ok:
  assumes "parser_ok cfg p" and "hid_add_usage cfg p u n = (None, p')"
  shows "parser_ok cfg p'"
  using assms by (auto simp: hid_add_usage_def Let_def parser_ok_def idx_ok_def list_all_iff split: if_splits)

lemma usage_range_ok: "parser_ok cfg p \<Longrightarrow> usage_range cfg n data k p = (None, p') \<Longrightarrow> parser_ok cfg p'"
proof (induction cfg n data k p rule: usage_range.induct)
  case (1 cfg n data k p)
  show ?case
  proof (cases "n \<le> data")
    case True
    then obtain p1 where "hid_add_usage cfg p n k = (None, p1)" "usage_range cfg (n + 1) data k p1 = (None, p')"
      using 1(3) by (subst (asm) usage_range.simps) (auto split: prod.splits option.splits)
    then show ?thesis using 1(1) [OF True] 1(2) add_usage_ok by metis
  qed (use 1(2,3) in \<open>subst (asm) usage_range.simps, simp\<close>)
qed

lemma local_ok:
  assumes "parser_ok cfg p" and "hid_parser_local cfg hk p item = (None, p')"
  shows "parser_ok cfg p'"
  using assms add_usage_ok [OF assms(1)] usage_range_ok [OF assms(1)]
  by (auto simp: hid_parser_local_def Let_def parser_ok_def split: if_splits)

lemma global_item_ok:
  assumes "parser_ok cfg p" and "hid_parser_global cfg hk p item = (None, p')"
  shows "parser_ok cfg p'"
proof -
  have "global_ok cfg (last (global_stack p))" if "global_stack p \<noteq> []"
    using assms(1) that by (auto simp: parser_ok_def list_all_iff)
  moreover have "list_all (global_ok cfg) (butlast (global_stack p))"
    using assms(1) by (auto simp: parser_ok_def list_all_iff dest: in_set_butlastD)
  moreover have "unat u \<le> 256" if "\<not> 256 < u" for u :: u32
    using that by (simp add: word_less_nat_alt)
  ultimately show ?thesis
    using assms by (auto simp: hid_parser_global_def Let_def parser_ok_def global_ok_def split: if_splits)
qed

lemma dev_ok_push:
  assumes "dev_ok cfg dev" and "c_parent_idx c = - 1 \<or> 0 \<le> c_parent_idx c \<and> c_parent_idx c < int (length (collection dev))"
    and "report_enum dev' = report_enum dev" and "collection dev' = collection dev @ [c]"
    and "Suc (length (collection dev)) \<le> collection_size dev'"
  shows "dev_ok cfg dev'"
  using assms by (auto simp: dev_ok_def coll_ok_def nth_append less_Suc_eq intro: enum_ok_mono)

lemma open_collection_ok:
  assumes cfg: "cfg_ok cfg" and op: "open_collection cfg hk p type = (None, p')" and p: "parser_ok cfg p"
  shows "parser_ok cfg p'"
proof -
  have sizes: "1 \<le> HID_COLLECTION_STACK_SIZE cfg" "1 \<le> collection_size (p_device p)"
    using cfg p by (auto simp: cfg_ok_def parser_ok_def)
  define p1 where "p1 = (if length (collection_stack p) = collection_stack_size p
      then p\<lparr>collection_stack_size := collection_stack_size p + HID_COLLECTION_STACK_SIZE cfg\<rparr> else p)"
  let ?dev = "p_device p" and ?level = "length (collection_stack p)"
  have same: "p_device p1 = ?dev" "collection_stack p1 = collection_stack p" by (simp_all add: p1_def)
  have room: "?level < collection_stack_size p1" using p sizes(1) by (auto simp: p1_def parser_ok_def)
  define dev1 where "dev1 = (if length (collection ?dev) = collection_size ?dev
      then ?dev\<lparr>collection_size := collection_size ?dev * 2\<rparr> else ?dev)"
  have cdev: "collection dev1 = collection ?dev" "report_enum dev1 = report_enum ?dev" by (simp_all add: dev1_def)
  have croom: "length (collection ?dev) < collection_size dev1"
    using p sizes(2) by (auto simp: dev1_def parser_ok_def dev_ok_def)
  define c where "c = \<lparr>c_type = type, c_usage = (case usages (p_local p) of [] \<Rightarrow> 0 | u # _ \<Rightarrow> lu_usage u), c_level = ?level,
      c_parent_idx = (if ?level = 0 then -1 else int (collection_stack p ! (?level - 1)))\<rparr>"
  have p': "p' = p1\<lparr>collection_stack := collection_stack p @ [length (collection ?dev)],
      p_device := dev1\<lparr>collection := collection ?dev @ [c],
        maxapplication := maxapplication dev1 + (if type = HID_COLLECTION_APPLICATION then 1 else 0)\<rparr>\<rparr>"
    using op unfolding open_collection_def Let_def p1_def [symmetric]
    by (auto simp: same dev1_def c_def split: if_splits)
  have "?level \<noteq> 0 \<Longrightarrow> collection_stack p ! (?level - 1) < length (collection ?dev)"
    using p by (auto simp: parser_ok_def list_all_length)
  then have par: "c_parent_idx c = - 1 \<or> 0 \<le> c_parent_idx c \<and> c_parent_idx c < int (length (collection ?dev))"
    by (auto simp: c_def)
  have "dev_ok cfg (p_device p')"
    by (rule dev_ok_push [of cfg ?dev c]) (use p par croom in \<open>auto simp: p' parser_ok_def cdev\<close>)
  moreover have "Suc 0 \<le> collection_size dev1" using croom by linarith
  ultimately show ?thesis
    using p room unfolding p' parser_ok_def
    by (auto simp: list_all_iff p1_def cdev intro: idx_ok_mono split: if_splits)
qed

lemma close_collection_ok:
  "parser_ok cfg p \<Longrightarrow> close_collection p = (None, p') \<Longrightarrow> parser_ok cfg p'"
  by (auto simp: close_collection_def parser_ok_def list_all_iff split: if_splits)
    (meson in_set_butlastD)

lemma concat_pages_same:
  "length (concat_pages p us) = length us"
  "list_all (\<lambda>u. P (lu_collection u)) (concat_pages p us) \<longleftrightarrow> list_all (\<lambda>u. P (lu_collection u)) us"
  by (induction us) auto

lemma concatenate_ok: "parser_ok cfg p \<Longrightarrow> parser_ok cfg (hid_concatenate_last_usage_page p)"
  unfolding parser_ok_def hid_concatenate_last_usage_page_def
  by (simp add: concat_pages_same list_all_rev)

lemma parser_ok_reset: "parser_ok cfg p \<Longrightarrow> parser_ok cfg (p\<lparr>p_local := zero_local\<rparr>)"
  by (simp add: parser_ok_def zero_local_ok)

lemma main_ok:
  assumes cfg: "cfg_ok cfg" and p: "parser_ok cfg p" and main: "hid_parser_main cfg hk p item = (None, p')"
  shows "parser_ok cfg p'"
proof -
  have c: "parser_ok cfg (hid_concatenate_last_usage_page p)" using p by (rule concatenate_ok)
  have add: "hid_add_field cfg hk (hid_concatenate_last_usage_page p) t fl = (None, q) \<Longrightarrow> t < 3 \<Longrightarrow> parser_ok cfg q" for t fl q
    using add_field_ok [OF cfg c] by blast
  have "\<exists>q. p' = q\<lparr>p_local := zero_local\<rparr> \<and> parser_ok cfg q"
    using main c add open_collection_ok [OF cfg _ c] close_collection_ok [OF c]
    by (auto simp: hid_parser_main_def Let_def HID_INPUT_REPORT_def HID_OUTPUT_REPORT_def HID_FEATURE_REPORT_def
        split: if_splits prod.splits)
  then show ?thesis by (auto intro: parser_ok_reset)
qed

lemma dispatch_ok:
  assumes "cfg_ok cfg" and "parser_ok cfg p" and "dispatch (hid_parser_main cfg hk) cfg hk p item = (None, p')"
  shows "parser_ok cfg p'"
  using assms(3) main_ok [OF assms(1,2), of hk item p'] global_item_ok [OF assms(2), of hk item p']
    local_ok [OF assms(2), of hk item p'] assms(2)
  by (simp add: dispatch_def hid_parser_reserved_def split: if_splits)

lemma parse_loop_ok:
  "cfg_ok cfg \<Longrightarrow> parser_ok cfg p \<Longrightarrow> parse_loop cfg hk p start = (None, p') \<Longrightarrow> parser_ok cfg p'"
proof (induction cfg hk p start rule: parse_loop.induct)
  case (1 cfg hk p start)
  obtain item rest p1 where f: "fetch_item start = Some (item, rest)" and fmt: "item_format item = HID_ITEM_FORMAT_SHORT"
    and d: "dispatch (hid_parser_main cfg hk) cfg hk p item = (None, p1)"
    and r: "(if rest = [] then p' = p1 else parse_loop cfg hk p1 rest = (None, p'))"
    using 1(4) by (subst (asm) parse_loop.simps) (auto split: option.splits prod.splits if_splits)
  have p1: "parser_ok cfg p1" using dispatch_ok [OF 1(2,3) d] .
  show ?case
  proof (cases "rest = []")
    case True then show ?thesis using r p1 by simp
  next
    case False
    then show ?thesis using 1(1) [OF f refl _ d [symmetric] refl False 1(2) p1] fmt r by auto
  qed
qed

section \<open>Changes that keep the layout\<close>

lemma those_map_Some: "those (map h xs) = Some ys \<longleftrightarrow> list_all2 (\<lambda>x y. h x = Some y) xs ys"
  by (induction xs arbitrary: ys) (auto simp: list_all2_Cons1 split: option.splits)

lemma those_map_total: "(\<And>x. x \<in> set xs \<Longrightarrow> \<exists>y. h x = Some y) \<Longrightarrow> \<exists>ys. those (map h xs) = Some ys"
  by (induction xs) (force split: option.splits)+

text \<open>Reporting events and setting multipliers change neither the place nor the room of a field.\<close>

definition same_layout :: "hid_field \<Rightarrow> hid_field \<Rightarrow> bool" where
  "same_layout f g \<longleftrightarrow>
     g = f\<lparr>f_usage := f_usage g, f_value := f_value g\<rparr> \<and> length (f_value g) = length (f_value f) \<and>
     map collection_index (f_usage g) = map collection_index (f_usage f) \<and> map usage_index (f_usage g) = map usage_index (f_usage f)"

lemma same_layout_refl [simp]: "same_layout f f"
  by (simp add: same_layout_def)

lemma same_layout_place:
  assumes "same_layout f g"
  shows "f_start g = f_start f" "f_end g = f_end f" "f_report_size g = f_report_size f" "f_report_count g = f_report_count f"
    "f_report_offset g = f_report_offset f" "f_logical_minimum g = f_logical_minimum f" "f_logical_maximum g = f_logical_maximum f"
proof -
  define us vs where "us = f_usage g" and "vs = f_value g"
  have "g = f\<lparr>f_usage := us, f_value := vs\<rparr>" using assms by (simp add: same_layout_def us_def vs_def)
  then show "f_start g = f_start f" "f_end g = f_end f" "f_report_size g = f_report_size f" "f_report_count g = f_report_count f"
    "f_report_offset g = f_report_offset f" "f_logical_minimum g = f_logical_minimum f" "f_logical_maximum g = f_logical_maximum f"
    by (simp_all add: f_start_def f_end_def)
qed

lemma same_layout_ok:
  assumes "same_layout f g" and "field_ok cfg nc f"
  shows "field_ok cfg nc g"
proof -
  have m: "map collection_index (f_usage g) = map collection_index (f_usage f)"
    and i: "map usage_index (f_usage g) = map usage_index (f_usage f)" and v: "length (f_value g) = length (f_value f)"
    using assms(1) by (auto simp: same_layout_def)
  have "length (f_usage g) = length (f_usage f)" using m map_eq_imp_length_eq by blast
  moreover have "list_all (idx_ok nc) (map collection_index (f_usage g))"
    using assms(2) unfolding m by (simp add: field_ok_def list_all_iff)
  then have "list_all (\<lambda>u. idx_ok nc (collection_index u)) (f_usage g)" by (simp add: list_all_iff)
  moreover have "f_usage g \<noteq> []" using m assms(2) by (auto simp: field_ok_def)
  ultimately show ?thesis
    using assms(2) v i unfolding field_ok_def same_layout_place [OF assms(1)] by simp
qed

lemma list_all2_set2: "list_all2 P xs ys \<Longrightarrow> \<forall>y \<in> set ys. \<exists>x \<in> set xs. P x y"
  by (induction rule: list_all2_induct) auto

lemma report_ok_layout:
  assumes "list_all2 same_layout (r_field r) fs" and "report_ok cfg nc r"
  shows "report_ok cfg nc (r\<lparr>r_field := fs\<rparr>)"
proof -
  have place: "map (\<lambda>f. (f_start f, f_end f)) fs = map (\<lambda>f. (f_start f, f_end f)) (r_field r)"
    using assms(1) by (auto simp: list_all2_conv_all_nth same_layout_place intro: nth_equalityI)
  have "sorted_wrt (\<lambda>f g. f_end f \<le> f_start g) xs = sorted_wrt (\<lambda>a b. snd a \<le> fst b) (map (\<lambda>f. (f_start f, f_end f)) xs)" for xs
    by (simp add: sorted_wrt_map)
  moreover have "list_all (\<lambda>f. f_end f \<le> k) xs = list_all (\<lambda>a. snd a \<le> k) (map (\<lambda>f. (f_start f, f_end f)) xs)" for k xs
    by (simp add: list_all_iff)
  moreover have "list_all (field_ok cfg nc) fs"
    using assms same_layout_ok by (fastforce simp: report_ok_def list_all_length list_all2_conv_all_nth)
  ultimately show ?thesis
    using assms(2) list_all2_lengthD [OF assms(1)] unfolding report_ok_def by (auto simp: place)
qed

section \<open>Resolution multipliers\<close>

lemma parent_below:
  assumes "coll_ok (collection dev)" and "i < length (collection dev)" and "c_parent_idx (coll_at dev i) \<noteq> - 1"
  shows "nat (c_parent_idx (coll_at dev i)) < i"
  using assms by (auto simp: coll_ok_def coll_at_def)

lemma climb_to_ends: "coll_ok (collection dev) \<Longrightarrow> i < length (collection dev) \<Longrightarrow> \<exists>j. climb_to dev target i = Some j"
proof (induction i rule: less_induct)
  case (less i)
  show ?case
  proof (cases "c_parent_idx (coll_at dev i) \<noteq> - 1 \<and> Some i \<noteq> target")
    case True
    then have "nat (c_parent_idx (coll_at dev i)) < i" using parent_below less.prems by blast
    then show ?thesis using less.IH less.prems True by (subst climb_to.simps) simp
  qed (subst climb_to.simps, auto)
qed

lemma climb_logical_ends: "coll_ok (collection dev) \<Longrightarrow> i < length (collection dev) \<Longrightarrow> \<exists>j. climb_logical dev i = Some j"
proof (induction i rule: less_induct)
  case (less i)
  show ?case
  proof (cases "c_parent_idx (coll_at dev i) \<noteq> - 1 \<and> c_type (coll_at dev i) \<noteq> HID_COLLECTION_LOGICAL")
    case True
    then have "nat (c_parent_idx (coll_at dev i)) < i" using parent_below less.prems by blast
    then show ?thesis using less.IH less.prems True by (subst climb_logical.simps) simp
  qed (subst climb_logical.simps, auto)
qed

text \<open>Without collections the climb stays at the zeroed entry 0 forever.\<close>

lemma climb_logical_stuck:
  assumes "collection dev = []"
  shows "climb_logical dev i = None"
proof -
  have "collection dev \<noteq> []" if c: "climb_logical dev i = Some j" for j
  proof (rule climb_logical.raw_induct [where P = "\<lambda>dev i j. collection dev \<noteq> []", OF _ c])
    fix climb :: "hid_device \<Rightarrow> nat \<Rightarrow> nat option" and d k y
    assume "\<And>d k y. climb d k = Some y \<Longrightarrow> collection d \<noteq> []"
      and "(if c_parent_idx (coll_at d k) \<noteq> - 1 \<and> c_type (coll_at d k) \<noteq> HID_COLLECTION_LOGICAL
        then climb d (nat (c_parent_idx (coll_at d k))) else Some k) = Some y"
    then show "collection d \<noteq> []"
      by (auto simp: coll_at_def HID_COLLECTION_LOGICAL_def split: if_splits)
  qed
  then show ?thesis using assms by (cases "climb_logical dev i") auto
qed

lemma multiply_usage_idx:
  "multiply_usage dev mc m u = Some u' \<Longrightarrow> collection_index u' = collection_index u \<and> usage_index u' = usage_index u"
  by (auto simp: multiply_usage_def)

lemma apply_field_layout:
  assumes "hid_apply_multiplier_to_field dev mc m f = Some g"
  shows "same_layout f g"
proof -
  obtain us where us: "list_all2 (\<lambda>u v. multiply_usage dev mc m u = Some v) (f_usage f) us" and g: "g = f\<lparr>f_usage := us\<rparr>"
    using assms by (auto simp: hid_apply_multiplier_to_field_def those_map_Some)
  have "list_all2 (\<lambda>u v. collection_index v = collection_index u \<and> usage_index v = usage_index u) (f_usage f) us"
    by (rule list_all2_mono [OF us]) (rule multiply_usage_idx)
  then have "map collection_index us = map collection_index (f_usage f) \<and> map usage_index us = map usage_index (f_usage f)"
    by induction auto
  then show ?thesis by (simp add: g same_layout_def)
qed

lemma reports_mem:
  assumes "enum_ok cfg nc t (report_enum dev t)"
  shows "r \<in> set (reports dev t) \<longleftrightarrow> report_id_hash (report_enum dev t) (r_id r) = Some r"
proof -
  let ?h = "report_id_hash (report_enum dev t)"
  have d: "set (report_list (report_enum dev t)) = dom ?h" using assms by (simp add: enum_ok_def)
  have "r \<in> set (reports dev t) \<longleftrightarrow> (\<exists>i. ?h i = Some r)" unfolding reports_def set_map d by (auto simp: image_iff) force
  then show ?thesis using enum_report(1) [OF assms] by metis
qed

lemma fold_put_ok:
  assumes "dev_ok cfg dev"
    and "\<And>q. q \<in> set qs \<Longrightarrow> report_ok cfg (length (collection dev)) q \<and> report_id_hash (report_enum dev (r_type q)) (r_id q) \<noteq> None"
  shows "dev_ok cfg (fold put_report qs dev) \<and> collection (fold put_report qs dev) = collection dev"
  using assms
proof (induction qs arbitrary: dev)
  case (Cons q qs)
  have "dev_ok cfg (put_report q dev)" using Cons.prems by (intro put_report_ok) auto
  moreover have "report_id_hash (report_enum (put_report q dev) (r_type x)) (r_id x) \<noteq> None" if "x \<in> set qs" for x
    using Cons.prems(2) [of x] that by (auto simp: put_report_def Let_def)
  ultimately show ?case using Cons.IH [of "put_report q dev"] Cons.prems(2) by simp
qed simp

lemma apply_multiplier_keeps:
  assumes dev: "dev_ok cfg dev" and ap: "hid_apply_multiplier dev f = Some dev'"
  shows "dev_ok cfg dev'" and "collection dev' = collection dev"
proof -
  let ?nc = "length (collection dev)"
  let ?ap = "\<lambda>mc f' g. hid_apply_multiplier_to_field dev (Some mc) (hid_calculate_multiplier f) f' = Some g"
  obtain mc reps where reps: "list_all2 (\<lambda>rep q. \<exists>fs. list_all2 (?ap mc) (r_field rep) fs \<and> rep\<lparr>r_field := fs\<rparr> = q)
        (reports dev HID_INPUT_REPORT) reps" and dev': "dev' = fold put_report reps dev"
    using ap by (auto simp: hid_apply_multiplier_def those_map_Some Let_def split: option.splits)
  have e: "enum_ok cfg ?nc HID_INPUT_REPORT (report_enum dev HID_INPUT_REPORT)"
    using dev by (simp add: dev_ok_def HID_INPUT_REPORT_def)
  have "report_ok cfg ?nc q \<and> report_id_hash (report_enum dev (r_type q)) (r_id q) \<noteq> None" if q: "q \<in> set reps" for q
  proof -
    obtain rep fs where rep: "rep \<in> set (reports dev HID_INPUT_REPORT)" and qq: "q = rep\<lparr>r_field := fs\<rparr>"
      and "list_all2 (?ap mc) (r_field rep) fs"
      using list_all2_set2 [OF reps] q by metis
    then have "list_all2 same_layout (r_field rep) fs" by (auto elim!: list_all2_mono dest: apply_field_layout)
    moreover have h: "report_id_hash (report_enum dev HID_INPUT_REPORT) (r_id rep) = Some rep" using rep reports_mem [OF e] by simp
    ultimately show ?thesis using enum_report [OF e h] h by (simp add: qq report_ok_layout)
  qed
  then show "dev_ok cfg dev'" "collection dev' = collection dev" using fold_put_ok [OF dev] unfolding dev' by blast+
qed

lemma apply_multiplier_returns:
  assumes dev: "dev_ok cfg dev" and ne: "collection dev \<noteq> []" and f: "field_ok cfg (length (collection dev)) f"
  shows "\<exists>dev'. hid_apply_multiplier dev f = Some dev'"
proof -
  have cs: "coll_ok (collection dev)" using dev by (simp add: dev_ok_def)
  have idx: "collection_index u < length (collection dev)" if "u \<in> set (f_usage g)" "field_ok cfg (length (collection dev)) g" for u g
    using that ne by (auto simp: field_ok_def list_all_iff idx_ok_def)
  have "collection_index (hd (f_usage f)) < length (collection dev)" using idx [OF _ f] f by (simp add: field_ok_def)
  then obtain mc where mc: "climb_logical dev (collection_index (hd (f_usage f))) = Some mc" using climb_logical_ends [OF cs] by blast
  have fld: "\<exists>g'. hid_apply_multiplier_to_field dev (Some mc) m g = Some g'" if g: "field_ok cfg (length (collection dev)) g" for g m
  proof -
    have "\<exists>us. those (map (multiply_usage dev (Some mc) m) (f_usage g)) = Some us"
      by (rule those_map_total) (use climb_to_ends [OF cs] idx [OF _ g] in \<open>force simp: multiply_usage_def\<close>)
    then show ?thesis by (auto simp: hid_apply_multiplier_to_field_def)
  qed
  have e: "enum_ok cfg (length (collection dev)) HID_INPUT_REPORT (report_enum dev HID_INPUT_REPORT)"
    using dev by (simp add: dev_ok_def HID_INPUT_REPORT_def)
  have "\<exists>q. map_option (\<lambda>fs. rep\<lparr>r_field := fs\<rparr>)
      (those (map (hid_apply_multiplier_to_field dev (Some mc) (hid_calculate_multiplier f)) (r_field rep))) = Some q"
    if rep: "rep \<in> set (reports dev HID_INPUT_REPORT)" for rep
  proof -
    have "report_ok cfg (length (collection dev)) rep" using rep reports_mem [OF e] enum_report(4) [OF e] by blast
    then have "\<exists>fs. those (map (hid_apply_multiplier_to_field dev (Some mc) (hid_calculate_multiplier f)) (r_field rep)) = Some fs"
      by (intro those_map_total fld) (auto simp: report_ok_def list_all_iff)
    then show ?thesis by auto
  qed
  then have "\<exists>reps. those (map (\<lambda>rep. map_option (\<lambda>fs. rep\<lparr>r_field := fs\<rparr>)
      (those (map (hid_apply_multiplier_to_field dev (Some mc) (hid_calculate_multiplier f)) (r_field rep))))
      (reports dev HID_INPUT_REPORT)) = Some reps"
    by (intro those_map_total)
  then show ?thesis using mc by (auto simp: hid_apply_multiplier_def Let_def)
qed

lemma apply_multipliers_ok:
  "dev_ok cfg dev \<Longrightarrow> apply_multipliers fs dev = Some dev' \<Longrightarrow> dev_ok cfg dev' \<and> collection dev' = collection dev"
proof (induction fs arbitrary: dev)
  case (Cons f fs)
  then obtain dev1 where ap: "hid_apply_multiplier dev f = Some dev1" and "apply_multipliers fs dev1 = Some dev'"
    by (auto split: option.splits)
  then show ?case using Cons.IH apply_multiplier_keeps [OF Cons.prems(1) ap] by simp
qed simp

lemma apply_multipliers_return:
  "dev_ok cfg dev \<Longrightarrow> collection dev \<noteq> [] \<Longrightarrow> \<forall>f \<in> set fs. field_ok cfg (length (collection dev)) f \<Longrightarrow>
   \<exists>dev'. apply_multipliers fs dev = Some dev'"
proof (induction fs arbitrary: dev)
  case (Cons f fs)
  then obtain dev1 where ap: "hid_apply_multiplier dev f = Some dev1" using apply_multiplier_returns [of cfg dev f] by auto
  note apply_multiplier_keeps [OF Cons.prems(1) ap]
  then show ?case using Cons ap by auto
qed simp

lemma multiplier_fields_ok:
  assumes "dev_ok cfg dev" and "f \<in> set (multiplier_fields dev)"
  shows "field_ok cfg (length (collection dev)) f"
proof -
  have e: "enum_ok cfg (length (collection dev)) HID_FEATURE_REPORT (report_enum dev HID_FEATURE_REPORT)"
    using assms(1) by (simp add: dev_ok_def HID_FEATURE_REPORT_def)
  obtain rep where "rep \<in> set (reports dev HID_FEATURE_REPORT)" "f \<in> set (r_field rep)"
    using assms(2) by (auto simp: multiplier_fields_def)
  then show ?thesis using reports_mem [OF e] enum_report(4) [OF e] by (fastforce simp: report_ok_def list_all_iff)
qed

text \<open>Exactly when setting up the multipliers returns.\<close>

lemma setup_multiplier_returns:
  assumes "dev_ok cfg dev"
  shows "(\<exists>dev'. hid_setup_resolution_multiplier dev = Some dev') \<longleftrightarrow> collection dev \<noteq> [] \<or> multiplier_fields dev = []"
proof (cases "multiplier_fields dev")
  case (Cons f fs)
  show ?thesis
  proof (cases "collection dev = []")
    case True
    then show ?thesis using Cons climb_logical_stuck [OF True]
      by (simp add: hid_setup_resolution_multiplier_def hid_apply_multiplier_def)
  next
    case False
    then show ?thesis
      using apply_multipliers_return [OF assms False] multiplier_fields_ok [OF assms]
      by (auto simp: hid_setup_resolution_multiplier_def)
  qed
qed (simp add: hid_setup_resolution_multiplier_def)

section \<open>Opening, scanning and closing\<close>

lemma close_report_closed: "dev_closed (hid_close_report dev)" "\<not> stat_parsed (hid_close_report dev)"
  by (simp_all add: dev_closed_def hid_close_report_def)

lemma closed_ok: "dev_closed dev \<Longrightarrow> dev_ok cfg dev"
  by (simp add: dev_closed_def dev_ok_def coll_ok_def empty_enum_ok)

text \<open>The parser as \<open>hid_open_report\<close> starts it.\<close>

abbreviation first_parser :: "hid_cfg \<Rightarrow> hid_device \<Rightarrow> u8 list \<Rightarrow> hid_parser" where
  "first_parser cfg dev start \<equiv> zero_parser (dev\<lparr>rdesc := Some start, collection_size := HID_DEFAULT_NUM_COLLECTIONS cfg\<rparr>)"

lemma first_parser_ok: "cfg_ok cfg \<Longrightarrow> dev_closed dev \<Longrightarrow> parser_ok cfg (first_parser cfg dev start)"
  by (simp add: parser_ok_def zero_parser_def zero_local_ok global_ok_def zero_global_def dev_closed_def dev_ok_def coll_ok_def
      empty_enum_ok cfg_ok_def)

lemma open_report_inv:
  assumes cfg: "cfg_ok cfg" and inv: "dev_inv cfg dev" and op: "hid_open_report cfg hk dev = Some (r, dev')"
  shows "dev_inv cfg dev'"
proof (cases "dev' = dev \<or> (\<exists>d. dev' = hid_close_report d)")
  case True
  then show ?thesis using inv close_report_closed by (auto simp: dev_inv_def)
next
  case False
  define start where "start = report_fixup hk (the (dev_rdesc dev))"
  obtain p dev3 where closed: "\<not> stat_parsed dev" and pl: "parse_loop cfg hk (first_parser cfg dev start) start = (None, p)"
    and su: "hid_setup_resolution_multiplier (p_device p) = Some dev3" and d: "dev' = dev3\<lparr>stat_parsed := True\<rparr>"
    using op False by (auto simp: hid_open_report_def Let_def start_def split: if_splits option.splits prod.splits)
  have "dev_closed dev" using inv closed by (simp add: dev_inv_def)
  then have "parser_ok cfg p" using parse_loop_ok [OF cfg first_parser_ok [OF cfg] pl] by simp
  then have "dev_ok cfg dev3" using apply_multipliers_ok su by (auto simp: parser_ok_def hid_setup_resolution_multiplier_def)
  then show ?thesis by (simp add: d dev_inv_def dev_ok_def)
qed

text \<open>The scan looks at the descriptor and changes nothing of the device but its group.\<close>

definition only_group :: "hid_device \<Rightarrow> hid_device \<Rightarrow> bool" where
  "only_group dev dev' \<longleftrightarrow> dev'\<lparr>dev_group := HID_GROUP_ANY\<rparr> = dev\<lparr>dev_group := HID_GROUP_ANY\<rparr>"

lemma only_group_refl [simp]: "only_group dev dev" "only_group dev (dev\<lparr>dev_group := g\<rparr>)"
  by (simp_all add: only_group_def)

lemma only_group_trans: "only_group a b \<Longrightarrow> only_group b c \<Longrightarrow> only_group a c"
  by (simp add: only_group_def)

lemma add_usage_device: "hid_add_usage cfg p u k = (e, p') \<Longrightarrow> p_device p' = p_device p"
  by (auto simp: hid_add_usage_def Let_def split: if_splits)

lemma usage_range_device: "usage_range cfg n data k p = (e, p') \<Longrightarrow> p_device p' = p_device p"
proof (induction cfg n data k p rule: usage_range.induct)
  case (1 cfg n data k p)
  obtain e1 p1 where a: "hid_add_usage cfg p n k = (e1, p1)" by fastforce
  show ?case
    using 1(2) 1(1) [OF _ a [symmetric]] add_usage_device [OF a]
    by (subst (asm) usage_range.simps) (auto simp: a split: if_splits option.splits)
qed

lemma local_device: "hid_parser_local cfg hk p item = (e, p') \<Longrightarrow> p_device p' = p_device p"
  by (auto simp: hid_parser_local_def Let_def add_usage_device usage_range_device split: if_splits)

lemma global_device: "hid_parser_global cfg hk p item = (e, p') \<Longrightarrow> p_device p' = p_device p"
  by (auto simp: hid_parser_global_def Let_def split: if_splits)

lemma fold_device: "(\<And>u p. only_group (p_device p) (p_device (f u p))) \<Longrightarrow> only_group (p_device p) (p_device (fold f us p))"
  by (induction us arbitrary: p) (auto intro: only_group_trans)

lemma scan_main_device: "hid_scan_main cfg hk p item = (e, p') \<Longrightarrow> only_group (p_device p) (p_device p')"
proof -
  assume s: "hid_scan_main cfg hk p item = (e, p')"
  let ?p1 = "hid_concatenate_last_usage_page p"
  have p1: "p_device ?p1 = p_device p" by (simp add: hid_concatenate_last_usage_page_def)
  have "only_group (p_device q) (p_device (hid_scan_input_usage u q))" for u q by (simp add: hid_scan_input_usage_def)
  moreover have "only_group (p_device q) (p_device (hid_scan_feature_usage u q))" for u q
    by (simp add: hid_scan_feature_usage_def Let_def)
  moreover have "only_group (p_device q) (p_device (hid_scan_collection cfg q t))" for q t
    unfolding only_group_def hid_scan_collection_def Let_def by (simp split del: if_split add: if_distrib [of p_device] if_distrib [of "dev_group_update f" for f] cong: if_cong)
  ultimately show ?thesis
    using s fold_device [of hid_scan_input_usage] fold_device [of hid_scan_feature_usage] unfolding p1 [symmetric]
    by (auto simp: hid_scan_main_def Let_def)
qed

lemma scan_loop_device: "only_group (p_device p) (p_device (scan_loop cfg hk p start))"
proof (induction cfg hk p start rule: scan_loop.induct)
  case (1 cfg hk p start)
  show ?case
  proof (cases "fetch_item start")
    case (Some it)
    obtain item rest where it: "it = (item, rest)" by fastforce
    obtain e p1 where d: "dispatch (hid_scan_main cfg hk) cfg hk p item = (e, p1)" by fastforce
    have "only_group (p_device p) (p_device p1)"
      using d scan_main_device [of cfg hk p item e p1] global_device [of cfg hk p item e p1] local_device [of cfg hk p item e p1]
      by (auto simp: dispatch_def hid_parser_reserved_def split: if_splits)
    then show ?thesis
      using 1 [OF Some it [symmetric]] Some it d by (subst scan_loop.simps) (auto intro: only_group_trans)
  qed (subst scan_loop.simps, simp)
qed

lemma scan_report_group: "hid_scan_report cfg hk dev = (e, dev') \<Longrightarrow> only_group dev dev'"
proof -
  assume s: "hid_scan_report cfg hk dev = (e, dev')"
  let ?p = "scan_loop cfg hk (zero_parser (dev\<lparr>dev_group := HID_GROUP_GENERIC\<rparr>)) (case dev_rdesc dev of None \<Rightarrow> [] | Some d \<Rightarrow> d)"
  have "only_group dev (p_device ?p)"
    using scan_loop_device [of "zero_parser (dev\<lparr>dev_group := HID_GROUP_GENERIC\<rparr>)" cfg hk] only_group_trans only_group_refl(2)
    by (fastforce simp: zero_parser_def)
  then show ?thesis using s only_group_trans [OF _ only_group_refl(2)]
    by (auto simp: hid_scan_report_def Let_def split: if_splits)
qed

lemma only_group_inv:
  assumes "only_group dev dev'" and "dev_inv cfg dev"
  shows "dev_inv cfg dev'"
proof -
  define g where "g = dev_group dev'"
  have "dev' = dev\<lparr>dev_group := g\<rparr>" using assms(1) unfolding only_group_def g_def by (cases dev; cases dev') simp
  then show ?thesis using assms(2) by (auto simp: dev_inv_def dev_ok_def dev_closed_def split: if_splits)
qed

section \<open>Input and setting values\<close>

lemma read_values_length: "read_values f data ns = Some (Some vs) \<Longrightarrow> length vs = length ns"
  by (induction ns arbitrary: vs) (auto split: option.splits if_splits)

lemma input_field_layout: "hid_input_field env f data irq = Some (g, evs) \<Longrightarrow> same_layout f g"
  by (auto simp: hid_input_field_def Let_def same_layout_def dest: read_values_length split: if_splits option.splits)

lemma input_fields_layout: "input_fields env data irq fs = Some (gs, evs) \<Longrightarrow> list_all2 same_layout fs gs"
  by (induction fs arbitrary: gs evs) (auto split: option.splits prod.splits dest: input_field_layout)

lemma put_same_layout:
  assumes inv: "dev_inv cfg dev" and t: "t < 3" and h: "report_id_hash (report_enum dev t) i = Some r"
    and l: "list_all2 same_layout (r_field r) fs"
  shows "dev_inv cfg (put_report (r\<lparr>r_field := fs\<rparr>) dev)"
proof (cases "stat_parsed dev")
  case True
  then have dev: "dev_ok cfg dev" using inv by (simp add: dev_inv_def)
  then have e: "enum_ok cfg (length (collection dev)) t (report_enum dev t)" using t by (simp add: dev_ok_def)
  note R = enum_report [OF e h]
  have "dev_ok cfg (put_report (r\<lparr>r_field := fs\<rparr>) dev)"
    by (rule put_report_ok [OF dev]) (use R h report_ok_layout [OF l R(4)] in simp_all)
  then show ?thesis using True by (simp add: dev_inv_def)
next
  case False
  then show ?thesis using inv t h by (simp add: dev_inv_def dev_closed_def empty_enum_def)
qed

lemma raw_event_inv:
  assumes inv: "dev_inv cfg dev" and t: "t < 3" and ev: "hid_report_raw_event cfg env dev t data n irq = Some (ret, dev', evs)"
  shows "dev_inv cfg dev'"
proof (cases "dev' = dev")
  case False
  then obtain r cdata fs ev3 where "hid_get_report (report_enum dev t) data = Some (Some r)"
    and i: "input_fields env cdata irq (r_field r) = Some (fs, ev3)" and d: "dev' = put_report (r\<lparr>r_field := fs\<rparr>) dev"
    using ev by (auto simp: hid_report_raw_event_def Let_def split: if_splits option.splits prod.splits)
  then obtain i where "report_id_hash (report_enum dev t) i = Some r"
    by (auto simp: hid_get_report_def split: if_splits list.splits)
  then show ?thesis unfolding d using put_same_layout [OF inv t _ input_fields_layout [OF i]] by simp
qed (use inv in simp)

lemma input_report_inv:
  assumes inv: "dev_inv cfg dev" and t: "t < 3"
    and ev: "hid_input_report cfg env (Some dev) t data n irq = Some (ret, Some dev', evs)"
  shows "dev_inv cfg dev'"
  using ev inv raw_event_inv [OF inv t]
  by (auto simp: hid_input_report_def Let_def split: if_splits option.splits prod.splits)

lemma set_field_layout: "hid_set_field dbg (Some f) k v = Some (e, Some g, evs) \<Longrightarrow> same_layout f g"
  by (auto simp: hid_set_field_def Let_def same_layout_def split: if_splits option.splits)

section \<open>The life of a device\<close>

datatype hid_call =
    ParseReport hid_hooks "u8 list" | ScanReport hid_hooks | OpenReport hid_hooks | CloseReport
  | InputArrives hid_env nat "u8 list" u32 bool | SetField nat nat nat nat s32

inductive hid_step :: "hid_cfg \<Rightarrow> hid_device \<Rightarrow> hid_call \<Rightarrow> hid_device \<Rightarrow> bool" for cfg where
  step_parse: "hid_parse_report hk dev start = (e, dev') \<Longrightarrow> hid_step cfg dev (ParseReport hk start) dev'"
| step_scan: "hid_scan_report cfg hk dev = (e, dev') \<Longrightarrow> hid_step cfg dev (ScanReport hk) dev'"
| step_open: "hid_open_report cfg hk dev = Some (e, dev') \<Longrightarrow> hid_step cfg dev (OpenReport hk) dev'"
| step_close: "hid_step cfg dev CloseReport (hid_close_report dev)"
| step_input: "t < 3 \<Longrightarrow> hid_input_report cfg env (Some dev) t data n irq = Some (ret, Some dev', evs) \<Longrightarrow>
     hid_step cfg dev (InputArrives env t data n irq) dev'"
| step_set: "t < 3 \<Longrightarrow> report_id_hash (report_enum dev t) i = Some r \<Longrightarrow> k < length (r_field r) \<Longrightarrow>
     hid_set_field dbg (Some (r_field r ! k)) offset v = Some (e, Some f, evs) \<Longrightarrow>
     hid_step cfg dev (SetField t i k offset v) (put_report (r\<lparr>r_field := (r_field r)[k := f]\<rparr>) dev)"

definition hid_start :: "hid_device \<Rightarrow> bool" where
  "hid_start dev \<longleftrightarrow> (\<exists>v q. dev = hid_allocate_device\<lparr>dev_vendor := v, dev_product := q\<rparr>)"

lemma hid_start_inv: "hid_start dev \<Longrightarrow> dev_inv cfg dev"
  using close_report_closed by (auto simp: hid_start_def hid_allocate_device_def dev_inv_def dev_closed_def)

lemma hid_step_inv: "hid_step cfg dev c dev' \<Longrightarrow> cfg_ok cfg \<Longrightarrow> dev_inv cfg dev \<Longrightarrow> dev_inv cfg dev'"
proof (induction rule: hid_step.induct)
  case (step_parse hk dev start e dev')
  then show ?case by (auto simp: hid_parse_report_def dev_inv_def dev_ok_def dev_closed_def split: if_splits)
next
  case (step_scan hk dev e dev')
  then show ?case using only_group_inv scan_report_group by blast
next
  case (step_open hk dev e dev')
  then show ?case using open_report_inv by blast
next
  case (step_close dev)
  then show ?case using close_report_closed by (simp add: dev_inv_def)
next
  case (step_input t env dev data n irq ret dev' evs)
  then show ?case using input_report_inv by blast
next
  case (step_set t dev i r k dbg offset v e f evs)
  have "list_all2 same_layout (r_field r) ((r_field r)[k := f])"
    using set_field_layout [OF step_set(4)] by (auto simp: list_all2_conv_all_nth nth_list_update_if)
  then show ?case using put_same_layout step_set by blast
qed

text \<open>The limits that the kernel headers have.\<close>

definition linux_cfg :: hid_cfg where
  "linux_cfg = \<lparr>HID_MAX_IDS = 256, HID_MAX_FIELDS = 256, HID_MAX_USAGES = 12288, HID_MAX_BUFFER_SIZE = 16384,
     HID_COLLECTION_STACK_SIZE = 16, HID_GLOBAL_STACK_SIZE = 16, HID_DEFAULT_NUM_COLLECTIONS = 16,
     USB_VENDOR_ID_MICROSOFT = 0x045e, USB_DEVICE_ID_MS_POWER_COVER = 0x07da, USB_VENDOR_ID_WACOM = 0x056a,
     USB_VENDOR_ID_SYNAPTICS = 0x06cb\<rparr>"

lemma linux_cfg_ok: "cfg_ok linux_cfg"
  by (simp add: cfg_ok_def linux_cfg_def)

interpretation hid_sys: inv_system hid_start "\<lambda>dev c dev'. cfg_ok cfg \<and> hid_step cfg dev c dev'" "dev_inv cfg" for cfg
  by unfold_locales (auto intro: hid_start_inv hid_step_inv)

end
