(* ===== verification/Hid_IO.thy ===== *)
theory Hid_IO
  imports Hid_Inv
begin

text \<open>
  What the input and output of a report do to the bits of its buffer and to the events that are told, for
  fields that are well-formed in the sense of \<open>field_ok\<close> and lie within the buffer.
\<close>

section \<open>Slots\<close>

definition slot :: "hid_field \<Rightarrow> nat \<Rightarrow> nat" where
  "slot f n = f_start f + n * unat (f_report_size f)"

definition width :: "hid_field \<Rightarrow> nat" where
  "width f = min (unat (f_report_size f)) 32"

definition in_slot :: "hid_field \<Rightarrow> nat \<Rightarrow> nat \<Rightarrow> bool" where
  "in_slot f n k \<longleftrightarrow> slot f n \<le> k \<and> k < slot f n + width f"

lemma slot_bound: "n < unat (f_report_count f) \<Longrightarrow> slot f n + unat (f_report_size f) \<le> f_end f"
proof -
  assume "n < unat (f_report_count f)"
  then have "(n + 1) * unat (f_report_size f) \<le> unat (f_report_count f) * unat (f_report_size f)" by (intro mult_right_mono) auto
  then show ?thesis by (simp add: slot_def f_end_def f_start_def algebra_simps)
qed

lemma slot_fits: "n < unat (f_report_count f) \<Longrightarrow> slot f n + width f \<le> f_end f"
  using slot_bound [of n f] by (simp add: width_def min_def)

lemma slot_word:
  assumes "n < unat (f_report_count f)" and "f_end f < 2 ^ 32"
  shows "unat (f_report_offset f + of_nat n * f_report_size f) = slot f n"
proof -
  have s: "slot f n < 2 ^ LENGTH(32)" using slot_bound [OF assms(1)] assms(2) by simp
  have n: "unat (of_nat n :: u32) = n"
    using assms(1) unsigned_less [of "f_report_count f", where 'a = nat] by (simp add: unat_of_nat)
  have p: "n * unat (f_report_size f) < 2 ^ LENGTH(32)" using s by (simp add: slot_def f_start_def)
  have m: "unat (of_nat n * f_report_size f) = n * unat (f_report_size f)"
    using unat_mult_lem [THEN iffD1, of "of_nat n" "f_report_size f"] p n by simp
  have "unat (f_report_offset f) + unat (of_nat n * f_report_size f) < 2 ^ LENGTH(32)" using s by (simp add: m slot_def f_start_def)
  from unat_add_lem [THEN iffD1, OF this] show ?thesis using m by (simp add: slot_def f_start_def)
qed

lemma in_slot_unique: "in_slot f n k \<Longrightarrow> in_slot f m k \<Longrightarrow> n = m"
proof -
  have le: "a \<le> b" if "in_slot f a k" "in_slot f b k" for a b
  proof (rule ccontr)
    assume "\<not> a \<le> b"
    then have "(b + 1) * unat (f_report_size f) \<le> a * unat (f_report_size f)" by (intro mult_right_mono) auto
    then show False using that by (auto simp: in_slot_def slot_def width_def algebra_simps)
  qed
  assume "in_slot f n k" "in_slot f m k"
  then show "n = m" using le by (metis le_antisym)
qed

lemma in_slot_range: "in_slot f n k \<Longrightarrow> n < unat (f_report_count f) \<Longrightarrow> f_start f \<le> k \<and> k < f_end f"
  using slot_fits [of n f] by (auto simp: in_slot_def slot_def)

section \<open>Reading\<close>

lemma read_value_bits:
  assumes n: "n < unat (f_report_count f)" and fits: "f_end f \<le> 8 * length data" and small: "f_end f < 2 ^ 32"
  obtains w where "hid_field_extract data (unat (f_report_offset f + of_nat n * f_report_size f)) (unat (f_report_size f)) = Some w"
    and "\<And>i. bit w i \<longleftrightarrow> i < width f \<and> rbit data (slot f n + i)"
proof -
  have "slot f n + min (unat (f_report_size f)) 32 \<le> 8 * length data" using slot_fits [OF n] fits by (simp add: width_def)
  from hid_field_extract_bits [OF this] show ?thesis using that unfolding slot_word [OF n small] width_def by blast
qed

text \<open>The conversion of signed values is defined up to 32 bits.\<close>

definition readable :: "hid_field \<Rightarrow> bool" where
  "readable f \<longleftrightarrow> (sint (f_logical_minimum f) < 0 \<longrightarrow> unat (f_report_size f) \<le> 32)"

lemma read_value_defined:
  assumes "n < unat (f_report_count f)" "f_end f \<le> 8 * length data" "f_end f < 2 ^ 32" "readable f"
  shows "read_value f data n \<noteq> None"
proof -
  obtain w where w: "hid_field_extract data (unat (f_report_offset f + of_nat n * f_report_size f)) (unat (f_report_size f)) = Some w"
    using read_value_bits [OF assms(1-3)] by blast
  show ?thesis using assms(4) snto32_undefined [of w "unat (f_report_size f)"] by (auto simp: read_value_def w readable_def Let_def)
qed

lemma read_values_defined:
  "(\<And>n. n \<in> set ns \<Longrightarrow> read_value f data n \<noteq> None) \<Longrightarrow> read_values f data ns \<noteq> None"
  by (induction ns) (force split: option.splits)+

lemma input_field_defined:
  assumes f: "field_ok cfg nc f" "readable f" and fits: "f_end f \<le> 8 * length data" and small: "f_end f < 2 ^ 32"
  shows "hid_input_field env f data irq \<noteq> None"
proof -
  let ?count = "unat (f_report_count f)"
  have rv: "read_values f data [0..<?count] \<noteq> None"
    by (rule read_values_defined) (use read_value_defined [OF _ fits small f(2)] in simp)
  have len: "?count \<le> length (f_value f)" "length (f_usage f) = length (f_value f)" using f(1) by (auto simp: field_ok_def)
  have "\<exists>evs. those (map (report_value env f irq (f_value f) new) [0..<?count]) = Some evs" for new
    by (rule those_map_total) (use len in \<open>auto simp: report_value_def\<close>)
  then obtain evs where evs: "\<And>new. those (map (report_value env f irq (f_value f) new) [0..<?count]) = Some (evs new)" by metis
  then show ?thesis using rv len by (auto simp: hid_input_field_def Let_def evs split: option.splits)
qed

lemma input_fields_defined:
  "\<forall>f \<in> set fs. field_ok cfg nc f \<and> readable f \<and> f_end f \<le> 8 * length data \<and> f_end f < 2 ^ 32 \<Longrightarrow>
   input_fields env data irq fs \<noteq> None"
proof (induction fs)
  case (Cons f fs)
  then have "hid_input_field env f data irq \<noteq> None" by (intro input_field_defined) auto
  then show ?case using Cons by (auto split: option.splits)
qed simp

section \<open>Sizes of reports\<close>

lemma report_size_covers: "unat (r_size r) \<le> 8 * hid_compute_report_size r" "hid_compute_report_size r \<le> (unat (r_size r) + 7) div 8"
proof -
  have "unat (drop_bit 3 (r_size r - 1)) = (unat (r_size r) - 1) div 8" if "r_size r \<noteq> 0"
    unfolding unat_drop_bit_eq unat_minus_one [OF that] by (simp add: drop_bit_eq_div)
  moreover have "s \<noteq> 0 \<Longrightarrow> s \<le> 8 * ((s - 1) div 8 + 1)" "s \<noteq> 0 \<Longrightarrow> (s - 1) div 8 + 1 \<le> (s + 7) div 8" for s :: nat
    by auto
  moreover have "r_size r \<noteq> 0 \<Longrightarrow> unat (r_size r) \<noteq> 0" by (simp add: unat_eq_0)
  ultimately show "unat (r_size r) \<le> 8 * hid_compute_report_size r" "hid_compute_report_size r \<le> (unat (r_size r) + 7) div 8"
    by (auto simp: hid_compute_report_size_def)
qed

lemma report_size_bound:
  assumes "report_ok cfg nc r"
  shows "hid_compute_report_size r \<le> HID_MAX_BUFFER_SIZE cfg - 1"
  using assms report_size_covers(2) [of r] by (auto simp: report_ok_def)

lemma report_fields:
  assumes "report_ok cfg nc r" and "f \<in> set (r_field r)"
  shows "field_ok cfg nc f" "f_end f \<le> 8 * hid_compute_report_size r" "f_end f < 2 ^ 32"
proof -
  have f: "field_ok cfg nc f" "f_end f \<le> unat (r_size r)" using assms by (auto simp: report_ok_def list_all_iff)
  then show "field_ok cfg nc f" "f_end f \<le> 8 * hid_compute_report_size r" using report_size_covers(1) [of r] by auto
  show "f_end f < 2 ^ 32" using f(2) unsigned_less [of "r_size r", where 'a = nat] by simp
qed

lemma pad_report_length: "pad_report data c n = Some data' \<Longrightarrow> length data' = length data"
  by (auto simp: pad_report_def split: if_splits)

text \<open>The bytes that a report of the type takes in a buffer, with its number in front where the type has numbers.\<close>

definition report_bytes :: "hid_report_enum \<Rightarrow> hid_report \<Rightarrow> nat" where
  "report_bytes e r = (if numbered e then 1 else 0) + (unat (r_size r) + 7) div 8"

definition numbered_report :: "hid_report_enum \<Rightarrow> u8 list \<Rightarrow> hid_report option" where
  "numbered_report e data = report_id_hash e (if numbered e then unat (hd data) else 0)"

lemma report_size_bytes: "hid_compute_report_size r = (unat (r_size r) + 7) div 8"
  using report_size_covers [of r] by linarith

lemma get_report_numbered: "data \<noteq> [] \<Longrightarrow> hid_get_report e data = Some (numbered_report e data)"
  by (cases data) (simp_all add: hid_get_report_def numbered_report_def)

text \<open>
  The bytes behind a short report are cleared up to the size of the report that its first byte selects, so the
  event is processed exactly if the buffer reaches that far.
\<close>

lemma raw_event_exact:
  assumes e: "enum_ok cfg nc t (report_enum dev t)" and cfg: "cfg_ok cfg" and n: "n \<noteq> 0" "unat n \<le> length data"
    and rd: "\<And>r f. numbered_report (report_enum dev t) data = Some r \<Longrightarrow> f \<in> set (r_field r) \<Longrightarrow> readable f"
  shows "hid_report_raw_event cfg env dev t data n irq = None \<longleftrightarrow>
    (\<exists>r. numbered_report (report_enum dev t) data = Some r \<and> length data < report_bytes (report_enum dev t) r)"
proof -
  let ?e = "report_enum dev t"
  have n1: "1 \<le> unat n" using n(1) by (simp add: Suc_le_eq unat_gt_0)
  have ne: "data \<noteq> []" using n n1 by auto
  note get = get_report_numbered [OF ne, of ?e]
  show ?thesis
  proof (cases "numbered_report ?e data")
    case (Some r)
    have r: "report_ok cfg nc r" using enum_report(4) [OF e] Some by (auto simp: numbered_report_def)
    note sz = report_size_bound [OF r]
    define cdata where "cdata = (if numbered ?e then tl data else data)"
    define csize where "csize = unat (if numbered ?e then n - 1 else n)"
    have big: "\<not> HID_MAX_BUFFER_SIZE cfg \<le> hid_compute_report_size r" using sz cfg by (auto simp: cfg_ok_def)
    have cs: "csize \<le> length cdata"
      using n n1 unat_minus_one [OF n(1)] by (auto simp: csize_def cdata_def)
    have room: "length data < report_bytes ?e r \<longleftrightarrow> length cdata < hid_compute_report_size r"
      using ne by (cases data) (auto simp: report_bytes_def cdata_def report_size_bytes)
    show ?thesis
    proof (cases "length cdata < hid_compute_report_size r")
      case True
      then have "pad_report cdata csize (hid_compute_report_size r) = None" using cs by (simp add: pad_report_def)
      then show ?thesis using True Some big room
        unfolding hid_report_raw_event_def Let_def get Some option.case cdata_def [symmetric] csize_def [symmetric] by simp
    next
      case False
      then obtain cdata1 where pad: "pad_report cdata csize (hid_compute_report_size r) = Some cdata1"
        by (cases "csize < hid_compute_report_size r") (simp_all add: pad_report_def)
      have "input_fields env cdata1 irq (r_field r) \<noteq> None"
        using False pad_report_length [OF pad] report_fields [OF r] rd [OF Some] by (intro input_fields_defined) fastforce
      then obtain fs evs where inp: "input_fields env cdata1 irq (r_field r) = Some (fs, evs)" by auto
      then show ?thesis using pad False Some big room
        unfolding hid_report_raw_event_def Let_def get Some option.case cdata_def [symmetric] csize_def [symmetric] by simp
    qed
  qed (simp add: hid_report_raw_event_def get Let_def)
qed

section \<open>Writing\<close>

text \<open>Writing signed values is defined for sizes from 1 to 31.\<close>

definition writable :: "hid_field \<Rightarrow> bool" where
  "writable f \<longleftrightarrow> (sint (f_logical_minimum f) < 0 \<longrightarrow> 1 \<le> unat (f_report_size f) \<and> unat (f_report_size f) \<le> 31)"

definition stored :: "hid_field \<Rightarrow> s32 \<Rightarrow> u32" where
  "stored f v =
     (if sint (f_logical_minimum f) < 0
      then word_of_int (take_bit (unat (f_report_size f)) (clamp (unat (f_report_size f)) (sint v))) else v)"

text \<open>What a value becomes when it goes through a report.\<close>

definition transmitted :: "hid_field \<Rightarrow> s32 \<Rightarrow> s32" where
  "transmitted f v =
     (if sint (f_logical_minimum f) < 0 then word_of_int (clamp (unat (f_report_size f)) (sint v))
      else take_bit (unat (f_report_size f)) v)"

lemma output_values_bits:
  assumes "\<forall>n \<in> set ns. n < unat (f_report_count f)" and "distinct ns" and "f_end f \<le> 8 * length data" and "f_end f < 2 ^ 32"
    and "writable f" and "unat (f_report_count f) \<le> length (f_value f)"
  shows "\<exists>d. output_values f ns data = Some d \<and> length d = length data \<and>
    (\<forall>n \<in> set ns. \<forall>k. in_slot f n k \<longrightarrow> rbit d k = bit (stored f (f_value f ! n)) (k - slot f n)) \<and>
    (\<forall>k. (\<forall>n \<in> set ns. \<not> in_slot f n k) \<longrightarrow> rbit d k = rbit data k)"
  using assms
proof (induction ns arbitrary: data)
  case (Cons n ns)
  let ?off = "unat (f_report_offset f + of_nat n * f_report_size f)" and ?sz = "unat (f_report_size f)"
  have n: "n < unat (f_report_count f)" using Cons.prems by simp
  have off: "?off = slot f n" by (rule slot_word [OF n Cons.prems(4)])
  have "?off + min ?sz 32 \<le> 8 * length data" using slot_fits [OF n] Cons.prems(3) by (simp add: off width_def)
  from implement_bits [OF this, of "stored f (f_value f ! n)"] obtain d1 where
    imp: "implement data ?off ?sz (stored f (f_value f ! n)) = Some d1" and len: "length d1 = length data"
    and b: "\<And>k. rbit d1 k \<longleftrightarrow> (if in_slot f n k then bit (stored f (f_value f ! n)) (k - slot f n) else rbit data k)"
    unfolding off in_slot_def width_def by blast
  have conv: "(if sint (f_logical_minimum f) < 0 then s32ton (f_value f ! n) ?sz else Some (f_value f ! n)) = Some (stored f (f_value f ! n))"
    using Cons.prems(5) by (simp add: writable_def stored_def s32ton_clamps)
  obtain d where d: "output_values f ns d1 = Some d" "length d = length d1"
    and in_: "\<forall>m \<in> set ns. \<forall>k. in_slot f m k \<longrightarrow> rbit d k = bit (stored f (f_value f ! m)) (k - slot f m)"
    and out: "\<forall>k. (\<forall>m \<in> set ns. \<not> in_slot f m k) \<longrightarrow> rbit d k = rbit d1 k"
    using Cons.IH [of d1] Cons.prems(1,2,4-6) Cons.prems(3) [folded len] unfolding len [symmetric] by auto
  have "output_values f (n # ns) data = Some d"
    using conv imp d(1) n Cons.prems(6) by (simp add: Let_def)
  moreover have "rbit d k = bit (stored f (f_value f ! n)) (k - slot f n)" if "in_slot f n k" for k
  proof -
    have "\<forall>m \<in> set ns. \<not> in_slot f m k" using in_slot_unique [OF that] Cons.prems(2) by (metis distinct.simps(2))
    then show ?thesis using out b [of k] that by simp
  qed
  moreover have "rbit d k = rbit data k" if "\<forall>m \<in> set (n # ns). \<not> in_slot f m k" for k
    using that out b [of k] by simp
  moreover have "length d = length data" using d(2) len by simp
  ultimately show ?case using in_ by (intro exI [of _ d]) (auto simp del: output_values.simps)
qed simp

lemma output_field_bits:
  assumes "field_ok cfg nc f" and "writable f" and "f_end f \<le> 8 * length data" and "f_end f < 2 ^ 32"
  shows "\<exists>d. hid_output_field f data = Some d \<and> length d = length data \<and>
    (\<forall>n < unat (f_report_count f). \<forall>k. in_slot f n k \<longrightarrow> rbit d k = bit (stored f (f_value f ! n)) (k - slot f n)) \<and>
    (\<forall>k. \<not> (f_start f \<le> k \<and> k < f_end f) \<longrightarrow> rbit d k = rbit data k)"
proof -
  have "unat (f_report_count f) \<le> length (f_value f)" using assms(1) by (simp add: field_ok_def)
  from output_values_bits [OF _ _ assms(3,4,2) this, of "[0..<unat (f_report_count f)]"] obtain d where
    d: "hid_output_field f data = Some d" "length d = length data"
      "\<forall>n < unat (f_report_count f). \<forall>k. in_slot f n k \<longrightarrow> rbit d k = bit (stored f (f_value f ! n)) (k - slot f n)"
    and o: "\<forall>k. (\<forall>n < unat (f_report_count f). \<not> in_slot f n k) \<longrightarrow> rbit d k = rbit data k"
    by (auto simp: hid_output_field_def)
  have "rbit d k = rbit data k" if "\<not> (f_start f \<le> k \<and> k < f_end f)" for k
    using o in_slot_range that by blast
  then show ?thesis using d by blast
qed

lemma output_fields_bits:
  "sorted_wrt (\<lambda>f g. f_end f \<le> f_start g) fs \<Longrightarrow>
   \<forall>f \<in> set fs. field_ok cfg nc f \<and> writable f \<and> f_end f \<le> 8 * length data \<and> f_end f < 2 ^ 32 \<Longrightarrow>
   \<exists>d. output_fields fs data = Some d \<and> length d = length data \<and>
     (\<forall>f \<in> set fs. \<forall>n < unat (f_report_count f). \<forall>k. in_slot f n k \<longrightarrow> rbit d k = bit (stored f (f_value f ! n)) (k - slot f n)) \<and>
     (\<forall>k. (\<forall>f \<in> set fs. \<not> (f_start f \<le> k \<and> k < f_end f)) \<longrightarrow> rbit d k = rbit data k)"
proof (induction fs arbitrary: data)
  case (Cons f fs)
  obtain d1 where d1: "hid_output_field f data = Some d1" "length d1 = length data"
    and in1: "\<forall>n < unat (f_report_count f). \<forall>k. in_slot f n k \<longrightarrow> rbit d1 k = bit (stored f (f_value f ! n)) (k - slot f n)"
    and out1: "\<forall>k. \<not> (f_start f \<le> k \<and> k < f_end f) \<longrightarrow> rbit d1 k = rbit data k"
    using output_field_bits [of cfg nc f data] Cons.prems(2) by auto
  obtain d where d: "output_fields fs d1 = Some d" "length d = length d1"
    and in2: "\<forall>g \<in> set fs. \<forall>n < unat (f_report_count g). \<forall>k. in_slot g n k \<longrightarrow> rbit d k = bit (stored g (f_value g ! n)) (k - slot g n)"
    and out2: "\<forall>k. (\<forall>g \<in> set fs. \<not> (f_start g \<le> k \<and> k < f_end g)) \<longrightarrow> rbit d k = rbit d1 k"
    using Cons.IH [of d1] Cons.prems d1(2) by auto
  have "rbit d k = bit (stored f (f_value f ! n)) (k - slot f n)" if "n < unat (f_report_count f)" "in_slot f n k" for n k
  proof -
    have "k < f_end f" using in_slot_range that by blast
    then have "\<forall>g \<in> set fs. \<not> (f_start g \<le> k \<and> k < f_end g)" using Cons.prems(1) by fastforce
    then show ?thesis using out2 in1 that by simp
  qed
  then show ?case using d d1 in2 out1 out2 by auto
qed simp

text \<open>Reading a slot that holds a stored value.\<close>

lemma read_stored:
  assumes n: "n < unat (f_report_count f)" and fits: "f_end f \<le> 8 * length data" and small: "f_end f < 2 ^ 32" and w: "writable f"
    and bits: "\<forall>k. in_slot f n k \<longrightarrow> rbit data k = bit (stored f v) (k - slot f n)"
  shows "read_value f data n = Some (transmitted f v)"
proof -
  let ?sz = "unat (f_report_size f)"
  obtain x where x: "hid_field_extract data (unat (f_report_offset f + of_nat n * f_report_size f)) ?sz = Some x"
    and xb: "\<And>i. bit x i \<longleftrightarrow> i < width f \<and> rbit data (slot f n + i)"
    using read_value_bits [OF n fits small] by blast
  have xs: "bit x i \<longleftrightarrow> i < width f \<and> bit (stored f v) i" for i
    using xb [of i] bits by (auto simp: in_slot_def)
  have t: "x = take_bit ?sz (stored f v)"
    by (rule bit_word_eqI) (use xs in \<open>auto simp: bit_take_bit_iff width_def\<close>)
  show ?thesis
  proof (cases "sint (f_logical_minimum f) < 0")
    case True
    then have sz: "1 \<le> ?sz" "?sz \<le> 31" using w by (auto simp: writable_def)
    have "x = word_of_int (take_bit ?sz (clamp ?sz (sint v)))"
      by (rule bit_word_eqI) (use sz in \<open>auto simp: t stored_def True bit_take_bit_iff bit_word_of_int_iff\<close>)
    then have "s32ton v ?sz = Some x" using s32ton_clamps [OF sz] by simp
    then have "snto32 x ?sz = Some (transmitted f v)" using snto32_s32ton [OF sz, of v] True by (auto simp: transmitted_def)
    then show ?thesis using x True by (simp add: read_value_def Let_def)
  next
    case False
    then show ?thesis using x t by (simp add: read_value_def Let_def stored_def transmitted_def)
  qed
qed

section \<open>Events of array fields\<close>

text \<open>The keys that a list of values selects, and what events make of a set of keys that are down.\<close>

definition keys_of :: "hid_field \<Rightarrow> s32 list \<Rightarrow> hid_usage set" where
  "keys_of f vs = {u. \<exists>v \<in> set vs. usage_slot f v = Some u \<and> hid u \<noteq> 0}"

fun replay :: "hid_event list \<Rightarrow> hid_usage set \<Rightarrow> hid_usage set" where
  "replay [] keys = keys"
| "replay (InputEvent u v # es) keys = replay es (if v = 0 then keys - {u} else insert u keys)"
| "replay (e # es) keys = replay es keys"

text \<open>The input layer listens and the driver does not swallow events.\<close>

definition listens :: "hid_env \<Rightarrow> hid_field \<Rightarrow> bool" where
  "listens env f \<longleftrightarrow> has_flag (claimed env) HID_CLAIMED_INPUT \<and>
     (\<forall>drv event u v. hdriver env = Some drv \<longrightarrow> drv_event drv = Some event \<longrightarrow> 0 \<le> event f u v)"

lemma replay_released:
  "(\<And>v. InputEvent u v \<in> set es \<Longrightarrow> v = 0) \<Longrightarrow> u \<in> replay es keys \<longleftrightarrow> u \<in> keys \<and> InputEvent u 0 \<notin> set es"
  by (induction es keys rule: replay.induct) auto

lemma replay_pressed:
  "InputEvent u 0 \<notin> set es \<Longrightarrow> u \<in> replay es keys \<longleftrightarrow> u \<in> keys \<or> (\<exists>v. InputEvent u v \<in> set es)"
  by (induction es keys rule: replay.induct) auto

lemma search_mem: "search xs v \<longleftrightarrow> v \<in> set xs"
  by (induction xs) auto

lemma process_event_input:
  "listens env f \<Longrightarrow> InputEvent u x \<in> set (hid_process_event env f w v irq) \<longleftrightarrow> u = w \<and> x = v"
proof -
  assume l: "listens env f"
  have c: "has_flag (claimed env) HID_CLAIMED_INPUT" using l by (simp add: listens_def)
  have "\<not> event f w v < 0" if "hdriver env = Some drv" "drv_event drv = Some event" for drv event
    using l that by (simp add: listens_def not_less)
  then have "\<exists>dump told rest. hid_process_event env f w v irq = dump @ told @ InputEvent w v # rest \<and>
      (\<forall>x. InputEvent u x \<notin> set dump) \<and> (\<forall>x. InputEvent u x \<notin> set told) \<and> (\<forall>x. InputEvent u x \<notin> set rest)"
    unfolding hid_process_event_def Let_def using c
    by (intro exI [of _ "if debug_open env then [DumpInput w v] else []"]
        exI [of _ "case hdriver env of None \<Rightarrow> [] | Some drv \<Rightarrow> (case drv_event drv of None \<Rightarrow> []
           | Some event \<Rightarrow> if hid_match_usage drv w then [DriverEvent w v] else [])"]
        exI [of _ "if has_flag (claimed env) HID_CLAIMED_HIDDEV \<and> irq \<and> hiddev_event_set env then [HiddevEvent w v] else []"])
      (simp split: option.splits)
  then show ?thesis by auto
qed

lemma key_event_input:
  "listens env f \<Longrightarrow> InputEvent u x \<in> set (key_event env f irq others v what) \<longleftrightarrow>
   usage_slot f v = Some u \<and> hid u \<noteq> 0 \<and> v \<notin> set others \<and> x = what"
  by (auto simp: key_event_def search_mem process_event_input split: option.splits)

lemma usage_slot_inj:
  assumes "field_ok cfg nc f" and v: "usage_slot f v = Some u" and w: "usage_slot f w = Some u"
  shows "v = w"
proof -
  let ?i = "\<lambda>v. unat (v - f_logical_minimum f)"
  have idx: "usage_index (f_usage f ! k) = k" if "k < length (f_usage f)" for k
  proof -
    have "map usage_index (f_usage f) ! k = [0..<length (f_usage f)] ! k" using assms(1) by (simp add: field_ok_def)
    then show ?thesis using that by simp
  qed
  have in_: "?i x < length (f_usage f) \<and> u = f_usage f ! ?i x" if "usage_slot f x = Some u" for x
  proof -
    have "x - f_logical_minimum f < of_nat (length (f_usage f))" "u = f_usage f ! ?i x"
      using that by (auto simp: usage_slot_def Let_def split: if_splits)
    moreover from this(1) have "?i x < unat (of_nat (length (f_usage f)) :: u32)" by (simp add: word_less_nat_alt)
    moreover have "unat (of_nat k :: u32) \<le> k" for k by (simp add: unat_of_nat)
    ultimately show ?thesis by (meson less_le_trans)
  qed
  have "?i v = ?i w" using in_ [OF v] in_ [OF w] idx by metis
  then have "v - f_logical_minimum f = w - f_logical_minimum f" by (rule unsigned_word_eqI)
  then show ?thesis by simp
qed

lemma report_value_events:
  assumes "\<not> has_flag (f_flags f) HID_MAIN_ITEM_VARIABLE" and "listens env f"
    and "those (map (report_value env f irq old new) [0..<length new]) = Some evs"
  shows "InputEvent u x \<in> set (concat evs) \<longleftrightarrow>
     (x = 0 \<and> (\<exists>v \<in> set (take (length new) old). v \<notin> set new \<and> usage_slot f v = Some u \<and> hid u \<noteq> 0)) \<or>
     (x = 1 \<and> (\<exists>v \<in> set new. v \<notin> set (take (length new) old) \<and> usage_slot f v = Some u \<and> hid u \<noteq> 0))"
proof -
  let ?n = "length new" and ?old = "take (length new) old"
  let ?ev = "\<lambda>n. key_event env f irq new (old ! n) 0 @ key_event env f irq ?old (new ! n) 1"
  have l: "list_all2 (\<lambda>n e. n < length old \<and> e = ?ev n) [0..<?n] evs"
    using assms(3) unfolding those_map_Some
    by (rule list_all2_mono) (use assms(1) in \<open>auto simp: report_value_def split: if_splits\<close>)
  have len: "?n \<le> length old"
  proof (rule ccontr)
    assume "\<not> ?n \<le> length old"
    then have "length old < length [0..<?n]" by simp
    from list_all2_nthD [OF l this] show False using \<open>\<not> ?n \<le> length old\<close> by simp
  qed
  have ev: "evs = map ?ev [0..<?n]"
    using l by (intro nth_equalityI) (auto simp: list_all2_conv_all_nth)
  have so: "set ?old = (!) old ` {..<?n}" using nth_image [OF len] by (simp add: lessThan_atLeast0)
  have sn: "set new = (!) new ` {..<?n}" using nth_image [of ?n new] by (simp add: lessThan_atLeast0)
  have "InputEvent u x \<in> set (concat evs) \<longleftrightarrow> (\<exists>n < ?n. InputEvent u x \<in> set (?ev n))" by (auto simp: ev)
  also have "\<dots> \<longleftrightarrow> (\<exists>n < ?n. (usage_slot f (old ! n) = Some u \<and> hid u \<noteq> 0 \<and> old ! n \<notin> set new \<and> x = 0) \<or>
      (usage_slot f (new ! n) = Some u \<and> hid u \<noteq> 0 \<and> new ! n \<notin> set ?old \<and> x = 1))"
    by (simp add: key_event_input [OF assms(2)])
  also have "\<dots> \<longleftrightarrow> (x = 0 \<and> (\<exists>v \<in> (!) old ` {..<?n}. v \<notin> set new \<and> usage_slot f v = Some u \<and> hid u \<noteq> 0)) \<or>
      (x = 1 \<and> (\<exists>v \<in> (!) new ` {..<?n}. v \<notin> set ?old \<and> usage_slot f v = Some u \<and> hid u \<noteq> 0))"
    by blast
  finally show ?thesis unfolding so [symmetric] sn [symmetric] .
qed

lemma input_field_result:
  assumes inp: "hid_input_field env f data irq = Some (g, evs)"
  shows "g = f \<and> evs = [] \<or>
    (\<exists>vs es. read_values f data [0..<unat (f_report_count f)] = Some (Some vs) \<and>
       those (map (report_value env f irq (f_value f) vs) [0..<unat (f_report_count f)]) = Some es \<and>
       g = f\<lparr>f_value := vs @ drop (unat (f_report_count f)) (f_value f)\<rparr> \<and> evs = concat es)"
proof (cases "alloc_values_ok env (unat (f_report_count f))")
  case True
  then show ?thesis
    using inp by (cases "read_values f data [0..<unat (f_report_count f)]"; cases "the (read_values f data [0..<unat (f_report_count f)])")
      (auto simp: hid_input_field_def Let_def split: option.split_asm if_split_asm)
qed (use inp in \<open>simp add: hid_input_field_def\<close>)

lemma array_field_events:
  assumes ok: "field_ok cfg nc f" and arr: "\<not> has_flag (f_flags f) HID_MAIN_ITEM_VARIABLE" and li: "listens env f"
    and inp: "hid_input_field env f data irq = Some (g, evs)"
  defines "old \<equiv> keys_of f (take (unat (f_report_count f)) (f_value f))"
    and "new \<equiv> keys_of g (take (unat (f_report_count g)) (f_value g))"
  shows "replay evs old = new" and "InputEvent u x \<in> set evs \<Longrightarrow> (u \<in> old \<longleftrightarrow> x = 0) \<and> (u \<in> new \<longleftrightarrow> x = 1)"
proof -
  have "replay evs old = new \<and> (\<forall>u x. InputEvent u x \<in> set evs \<longrightarrow> (u \<in> old \<longleftrightarrow> x = 0) \<and> (u \<in> new \<longleftrightarrow> x = 1))"
  proof (cases "g = f \<and> evs = []")
    case True then show ?thesis by (simp add: old_def new_def)
  next
    case False
    let ?count = "unat (f_report_count f)"
    obtain vs es where rv: "read_values f data [0..<?count] = Some (Some vs)"
      and th: "those (map (report_value env f irq (f_value f) vs) [0..<?count]) = Some es"
      and g: "g = f\<lparr>f_value := vs @ drop ?count (f_value f)\<rparr>" and e: "evs = concat es"
      using input_field_result [OF inp] False by blast
    have len: "length vs = ?count" using read_values_length [OF rv] by simp
    let ?old = "take (length vs) (f_value f)"
    have o: "old = {u. \<exists>v \<in> set ?old. usage_slot f v = Some u \<and> hid u \<noteq> 0}" by (simp add: old_def keys_of_def len)
    have n: "new = {u. \<exists>v \<in> set vs. usage_slot f v = Some u \<and> hid u \<noteq> 0}"
    proof -
      have "usage_slot g v = usage_slot f v" for v by (simp add: usage_slot_def g Let_def)
      then show ?thesis using len by (simp add: new_def keys_of_def) (simp add: g)
    qed
    note inj = usage_slot_inj [OF ok]
    have ev: "InputEvent u x \<in> set evs \<longleftrightarrow> (x = 0 \<and> u \<in> old \<and> u \<notin> new) \<or> (x = 1 \<and> u \<in> new \<and> u \<notin> old)" for u x
    proof -
      have "(\<exists>v \<in> A. v \<notin> B \<and> usage_slot f v = Some u \<and> hid u \<noteq> 0) \<longleftrightarrow>
          (\<exists>v \<in> A. usage_slot f v = Some u \<and> hid u \<noteq> 0) \<and> \<not> (\<exists>v \<in> B. usage_slot f v = Some u \<and> hid u \<noteq> 0)" for A B
        using inj by blast
      then show ?thesis unfolding e report_value_events [OF arr li th [folded len]] o n by simp
    qed
    have "u \<in> replay evs old \<longleftrightarrow> u \<in> new" for u
    proof (cases "u \<in> old \<and> u \<notin> new")
      case True then show ?thesis using replay_released [of u evs old] ev by auto
    next
      case False then show ?thesis using replay_pressed [of u evs old] ev by auto
    qed
    then show ?thesis using ev by auto
  qed
  then show "replay evs old = new" "InputEvent u x \<in> set evs \<Longrightarrow> (u \<in> old \<longleftrightarrow> x = 0) \<and> (u \<in> new \<longleftrightarrow> x = 1)" by blast+
qed

end
