(* ===== verification/Hid_Props.thy ===== *)
theory Hid_Props
  imports Hid_IO
begin

text \<open>
  Properties of the HID core: fields as slices of a number, saturation of signed values, the layout of every
  reachable device, what a report written and read back gives, input without stray accesses, the events of
  array fields, and when opening a device returns.
\<close>

section \<open>Slices\<close>

text \<open>A report is a number, least significant byte first.\<close>

definition report_int :: "u8 list \<Rightarrow> int" where
  "report_int report = horner_sum uint (2 ^ 8) report"

lemma bit_report_int: "bit (report_int report) k \<longleftrightarrow> k < 8 * length report \<and> rbit report k"
proof -
  have "bit (report_int report) k \<longleftrightarrow> k div 8 < length report \<and> bit (report ! (k div 8)) (k mod 8)"
    using bit_horner_sum_uint_exp_iff [of report k] by (simp add: report_int_def)
  moreover have "k div 8 < length report \<longleftrightarrow> k < 8 * length report" by (simp add: div_less_iff_less_mult mult.commute)
  ultimately show ?thesis by (simp add: rbit_def)
qed

text \<open>
  C35. Reading a field of \<open>n\<close> bits at bit \<open>offset\<close> gives the slice of \<open>n\<close> bits (at most 32) of the report as a
  number, and writing a value there replaces this slice by the low bits of the value and nothing else, for
  every field that lies within the buffer.
\<close>

theorem fields_are_slices:
  assumes "offset + min n 32 \<le> 8 * length report"
  shows "hid_field_extract report offset n = Some (word_of_int (take_bit (min n 32) (drop_bit offset (report_int report)))) \<and>
    (\<exists>report'. implement report offset n v = Some report' \<and> length report' = length report \<and>
       report_int report' = take_bit offset (report_int report) OR push_bit offset (take_bit (min n 32) (uint v)) OR
         push_bit (offset + min n 32) (drop_bit (offset + min n 32) (report_int report)))"
proof -
  define m where "m = min n 32"
  obtain w where w: "hid_field_extract report offset n = Some w" and wb: "\<And>i. bit w i \<longleftrightarrow> i < min n 32 \<and> rbit report (offset + i)"
    using hid_field_extract_bits [OF assms] by blast
  obtain report' where r: "implement report offset n v = Some report'" "length report' = length report"
    and rb: "\<And>k. rbit report' k \<longleftrightarrow> (if offset \<le> k \<and> k < offset + min n 32 then bit v (k - offset) else rbit report k)"
    using implement_bits [OF assms] by blast
  have "w = word_of_int (take_bit (min n 32) (drop_bit offset (report_int report)))"
    by (rule bit_word_eqI) (use assms in \<open>auto simp: wb bit_word_of_int_iff bit_take_bit_iff bit_drop_bit_eq bit_report_int\<close>)
  moreover have "report_int report' = take_bit offset (report_int report) OR push_bit offset (take_bit m (uint v)) OR
       push_bit (offset + m) (drop_bit (offset + m) (report_int report))"
  proof (rule bit_eqI)
    fix k
    show "bit (report_int report') k \<longleftrightarrow> bit (take_bit offset (report_int report) OR push_bit offset (take_bit m (uint v)) OR
       push_bit (offset + m) (drop_bit (offset + m) (report_int report))) k"
      using assms rb [of k] r(2) unfolding m_def [symmetric]
      by (auto simp: bit_report_int bit_or_iff bit_take_bit_iff bit_push_bit_iff bit_drop_bit_eq bit_uint_iff dest: bit_imp_le_length)
  qed
  ultimately show ?thesis using w r by (auto simp: m_def)
qed

lemma fields_are_slices_witness:
  "hid_field_extract [0x34, 0x12, 0x00] 4 8 = Some (word_of_int (take_bit (min 8 32) (drop_bit 4 (report_int [0x34, 0x12, 0x00])))) \<and>
   (\<exists>report'. implement [0x34, 0x12, 0x00] 4 8 0xAB = Some report' \<and> length report' = length [0x34, 0x12, 0x00 :: u8] \<and>
       report_int report' = take_bit 4 (report_int [0x34, 0x12, 0x00]) OR push_bit 4 (take_bit (min 8 32) (uint (0xAB :: u32))) OR
         push_bit (4 + min 8 32) (drop_bit (4 + min 8 32) (report_int [0x34, 0x12, 0x00])))"
  by (rule fields_are_slices) simp

lemma clamp_word: "n \<le> 31 \<Longrightarrow> sint (word_of_int (clamp n x) :: s32) = clamp n x"
proof -
  assume n: "n \<le> 31"
  have p: "(2 :: int) ^ (n - 1) \<le> 2 ^ 30" using n by (intro power_increasing) auto
  have c: "- (2 ^ (n - 1)) \<le> clamp n x" "clamp n x < 2 ^ (n - 1)" by (auto simp: clamp_def)
  then show ?thesis using p by (simp add: sint_sbintrunc' signed_take_bit_int_eq_self)
qed

lemma clamp_id: "clamp n x = x \<longleftrightarrow> - (2 ^ (n - 1)) \<le> x \<and> x < 2 ^ (n - 1)"
proof -
  have "max (- P) (min (P - 1) x) = x \<longleftrightarrow> - P \<le> x \<and> x < P" if "0 < P" for P :: int
    using that by (auto simp: max_def min_def)
  then show ?thesis by (simp add: clamp_def)
qed

text \<open>
  Converting a signed value to \<open>n\<close> bits and back, for 1 to 31 bits, gives the nearest value that \<open>n\<close> bits
  can hold; the value comes back unchanged exactly when it is in range.
\<close>

theorem signed_values_saturate:
  assumes "1 \<le> n" and "n \<le> 31"
  shows "\<exists>u. s32ton v n = Some u \<and> snto32 u n = Some (word_of_int (clamp n (sint v))) \<and>
    (snto32 u n = Some v \<longleftrightarrow> - (2 ^ (n - 1)) \<le> sint v \<and> sint v < 2 ^ (n - 1))"
proof -
  let ?c = "clamp n (sint v)"
  obtain u where u: "s32ton v n = Some u" "snto32 u n = Some (word_of_int ?c)" using snto32_s32ton [OF assms] by blast
  have "word_of_int ?c = v \<longleftrightarrow> ?c = sint v" using clamp_word [OF assms(2)] by (metis signed_word_eqI)
  then show ?thesis using u clamp_id [of n "sint v"] by auto
qed

lemma signed_values_saturate_witness:
  "\<exists>u. s32ton 200 8 = Some u \<and> snto32 u 8 = Some (word_of_int (clamp 8 (sint (200 :: s32)))) \<and>
    (snto32 u 8 = Some 200 \<longleftrightarrow> - (2 ^ (8 - 1)) \<le> sint (200 :: s32) \<and> sint (200 :: s32) < 2 ^ (8 - 1))"
  by (rule signed_values_saturate) simp_all

section \<open>The layout of reachable devices\<close>

abbreviation hid_reach :: "hid_cfg \<Rightarrow> hid_device \<Rightarrow> bool" where
  "hid_reach cfg \<equiv> reach hid_start (\<lambda>dev c dev'. cfg_ok cfg \<and> hid_step cfg dev c dev')"

lemma reach_report:
  assumes "hid_reach cfg dev" and "t < 3" and "report_id_hash (report_enum dev t) i = Some r"
  shows "dev_ok cfg dev" and "enum_ok cfg (length (collection dev)) t (report_enum dev t)"
    and "report_ok cfg (length (collection dev)) r"
proof -
  have "dev_inv cfg dev" using hid_sys.reach_inv [OF assms(1)] .
  then show "dev_ok cfg dev" using closed_ok by (auto simp: dev_inv_def split: if_splits)
  then show e: "enum_ok cfg (length (collection dev)) t (report_enum dev t)" using assms(2) by (simp add: dev_ok_def)
  show "report_ok cfg (length (collection dev)) r" using enum_report(4) [OF e assms(3)] .
qed

text \<open>
  C6. In every device that the operations can reach (parsing any descriptor, with allocations that may fail,
  scanning, input, setting values, closing and opening again) the reports of a type carry their number and type
  and fit into the largest buffer; every field lies within its report, has room for the values it reports and
  as many usages as values, each usage refers to a collection that exists or to none; the fields of a
  report follow each other without overlap; and the parents of collections come before them.
\<close>

theorem reachable_layout:
  assumes "hid_reach cfg dev" and "t < 3" and "report_id_hash (report_enum dev t) i = Some r"
  shows "r_id r = i \<and> r_type r = t \<and> unat (r_size r) \<le> (HID_MAX_BUFFER_SIZE cfg - 1) * 8 \<and>
    list_all (\<lambda>f. unat (f_report_offset f) + unat (f_report_size f) * unat (f_report_count f) \<le> unat (r_size r) \<and>
      unat (f_report_count f) \<le> length (f_value f) \<and> length (f_usage f) = length (f_value f) \<and>
      list_all (\<lambda>u. collection_index u < length (collection dev) \<or> collection_index u = 0) (f_usage f)) (r_field r) \<and>
    sorted_wrt (\<lambda>f g. unat (f_report_offset f) + unat (f_report_size f) * unat (f_report_count f) \<le> unat (f_report_offset g))
      (r_field r) \<and>
    list_all (\<lambda>k. c_parent_idx (collection dev ! k) = - 1 \<or>
      0 \<le> c_parent_idx (collection dev ! k) \<and> c_parent_idx (collection dev ! k) < int k) [0..<length (collection dev)]"
proof -
  note R = reach_report [OF assms]
  have "r_id r = i" "r_type r = t" using enum_report [OF R(2) assms(3)] by simp_all
  moreover have "coll_ok (collection dev)" using R(1) by (simp add: dev_ok_def)
  ultimately show ?thesis
    using R(3) by (auto simp: report_ok_def field_ok_def idx_ok_def f_end_def f_start_def coll_ok_def list_all_iff)
qed

section \<open>A concrete device\<close>

text \<open>A small keyboard: an array of three keys and two signed values of two bits; every allocation succeeds.\<close>

definition plain_hooks :: hid_hooks where
  "plain_hooks = \<lparr>alloc_report_ok = (\<lambda>_ _. True), alloc_field_ok = (\<lambda>_ _. True), krealloc_stack_ok = (\<lambda>_. True),
     alloc_collection_ok = (\<lambda>_. True), alloc_parser_ok = True, kmemdup_ok = (\<lambda>_ _. True), report_fixup = (\<lambda>d. d),
     dev_name_set = True, longdata_bits = (\<lambda>_. 0)\<rparr>"

definition keyboard_rdesc :: "u8 list" where
  "keyboard_rdesc = [0x05, 0x01, 0x09, 0x06, 0xA1, 0x01, 0x05, 0x07, 0x15, 0x00, 0x25, 0x03, 0x75, 0x08, 0x95, 0x03,
     0x19, 0x04, 0x29, 0x07, 0x81, 0x00, 0x15, 0xFF, 0x25, 0x01, 0x75, 0x02, 0x95, 0x02, 0x09, 0x30, 0x09, 0x31, 0x81, 0x02, 0xC0]"

definition new_keyboard :: hid_device where
  "new_keyboard = snd (hid_parse_report plain_hooks hid_allocate_device keyboard_rdesc)"

text \<open>What evaluates the parser on a descriptor that is written out.\<close>

lemmas hid_eval = parse_loop.simps fetch_item_def Let_def HID_ITEM_TAG_LONG_def dispatch_def hid_parser_global_def hid_parser_local_def
  hid_parser_main_def item_udata_def item_sdata_def zero_parser_def zero_global_def zero_local_def hid_allocate_device_def
  hid_close_report_def linux_cfg_def HID_MAIN_ITEM_TAG_BEGIN_COLLECTION_def HID_MAIN_ITEM_TAG_END_COLLECTION_def
  HID_MAIN_ITEM_TAG_INPUT_def HID_MAIN_ITEM_TAG_OUTPUT_def HID_MAIN_ITEM_TAG_FEATURE_def plain_hooks_def hid_add_usage_def
  complete_usage_def hid_concatenate_last_usage_page_def hid_add_field_def hid_register_report_def hid_register_field_def
  new_field_def field_usage_def hid_lookup_collection_def put_report_def empty_enum_def open_collection_def close_collection_def
  HID_INPUT_REPORT_def HID_FEATURE_REPORT_def HID_COLLECTION_APPLICATION_def HID_COLLECTION_PHYSICAL_def HID_COLLECTION_LOGICAL_def
  usage_range.simps hid_parse_report_def

definition keyboard_report :: hid_report where
  "keyboard_report =
     (let usage = (\<lambda>h i. \<lparr>hid = h, collection_index = 0, usage_index = i, u_code = 0, u_type = 0, resolution_multiplier = 1\<rparr>);
          keys = \<lparr>f_physical = 0, f_logical = 0, f_application = 0x10006,
            f_usage = [usage 0x70004 0, usage 0x70005 1, usage 0x70006 2, usage 0x70007 3], f_value = [0, 0, 0, 0], f_flags = 0,
            f_report_offset = 0, f_report_type = 0, f_report_size = 8, f_report_count = 3, f_logical_minimum = 0,
            f_logical_maximum = 3, f_physical_minimum = 0, f_physical_maximum = 0, f_unit_exponent = 0, f_unit = 0\<rparr>
      in \<lparr>r_id = 0, r_type = 0, r_size = 28, r_application = 0x10006,
          r_field = [keys, keys\<lparr>f_usage := [usage 0x70030 0, usage 0x70031 1], f_value := [0, 0], f_flags := 2, f_report_offset := 24,
            f_report_size := 2, f_report_count := 2, f_logical_minimum := - 1, f_logical_maximum := 1\<rparr>]\<rparr>)"

definition keyboard :: hid_device where
  "keyboard = (case hid_open_report linux_cfg plain_hooks new_keyboard of Some (None, dev) \<Rightarrow> dev | _ \<Rightarrow> new_keyboard)"

lemma keyboard_opens:
  "hid_open_report linux_cfg plain_hooks new_keyboard = Some (None, keyboard)" and
  keyboard_report: "report_id_hash (report_enum keyboard 0) 0 = Some keyboard_report" and
  keyboard_numbered: "numbered (report_enum keyboard 0) = False" and
  keyboard_list: "report_list (report_enum keyboard 0) = [0]"
proof -
  obtain dev where d: "hid_open_report linux_cfg plain_hooks new_keyboard = Some (None, dev)"
      "report_id_hash (report_enum dev 0) 0 = Some keyboard_report" "numbered (report_enum dev 0) = False"
      "report_list (report_enum dev 0) = [0]"
    by (simp add: hid_open_report_def new_keyboard_def keyboard_rdesc_def hid_eval)
      (simp add: hid_setup_resolution_multiplier_def multiplier_fields_def reports_def hid_eval keyboard_report_def)
  then have "keyboard = dev" by (simp add: keyboard_def)
  then show "hid_open_report linux_cfg plain_hooks new_keyboard = Some (None, keyboard)"
      "report_id_hash (report_enum keyboard 0) 0 = Some keyboard_report" "numbered (report_enum keyboard 0) = False"
      "report_list (report_enum keyboard 0) = [0]"
    using d by simp_all
qed

lemma keyboard_reached: "hid_reach linux_cfg keyboard"
proof -
  have "hid_start hid_allocate_device"
    unfolding hid_start_def by (rule exI [of _ 0], rule exI [of _ 0]) (simp add: hid_allocate_device_def hid_close_report_def)
  then have "hid_reach linux_cfg hid_allocate_device" by (rule reach_start)
  moreover have "hid_step linux_cfg hid_allocate_device (ParseReport plain_hooks keyboard_rdesc) new_keyboard"
    by (rule step_parse [of _ _ _ "fst (hid_parse_report plain_hooks hid_allocate_device keyboard_rdesc)"])
      (simp add: new_keyboard_def)
  ultimately have "hid_reach linux_cfg new_keyboard" using linux_cfg_ok by (auto intro: reach_step)
  then show ?thesis using linux_cfg_ok step_open [OF keyboard_opens] by (auto intro: reach_step)
qed

lemma reachable_layout_witness:
  "unat (r_size keyboard_report) \<le> (HID_MAX_BUFFER_SIZE linux_cfg - 1) * 8 \<and> length (r_field keyboard_report) = 2 \<and>
   sorted_wrt (\<lambda>f g. unat (f_report_offset f) + unat (f_report_size f) * unat (f_report_count f) \<le> unat (f_report_offset g))
      (r_field keyboard_report)"
  using reachable_layout [OF keyboard_reached _ keyboard_report] by (simp add: keyboard_report_def Let_def)

section \<open>Input\<close>

text \<open>The report that data is processed as: the one of its number after the driver's raw event hook had the bytes.\<close>

definition processed :: "hid_env \<Rightarrow> hid_report_enum \<Rightarrow> u8 list \<Rightarrow> u32 \<Rightarrow> hid_report option" where
  "processed env e data n =
     (if \<not> input_lock_free env \<or> n = 0 then None
      else case (hdriver env, numbered_report e data) of
             (Some drv, Some r) \<Rightarrow>
               (case drv_raw_event drv of
                  None \<Rightarrow> Some r
                | Some hook \<Rightarrow>
                    if \<not> hid_match_report drv r then Some r
                    else if fst (hook r data n) < 0 then None else numbered_report e (snd (hook r data n)))
           | _ \<Rightarrow> None)"

text \<open>
  C7. On every device that the operations can reach, data of any length and with any contents, whatever the driver's
  raw event hook makes of the bytes, is processed without an access outside a buffer or an array, and leaves a device
  of the same kind, exactly if the buffer has room for the whole report that its first byte selects; a shorter buffer,
  which a device gets by announcing less than the report has, is overrun when the missing bytes are
  cleared.  The signed fields of the report have to have at most 32 bits, since wider ones are an undefined shift.
\<close>

theorem input_stays_inside:
  assumes re: "hid_reach cfg dev" and cfg: "cfg_ok cfg" and t: "t < 3"
    and drv: "\<And>drv hook r d k. hdriver env = Some drv \<Longrightarrow> drv_raw_event drv = Some hook \<Longrightarrow> length (snd (hook r d k)) = length d"
    and len: "unat n \<le> length data"
    and rd: "\<And>r f. processed env (report_enum dev t) data n = Some r \<Longrightarrow> f \<in> set (r_field r) \<Longrightarrow>
       sint (f_logical_minimum f) < 0 \<Longrightarrow> unat (f_report_size f) \<le> 32"
  shows "if \<exists>r. processed env (report_enum dev t) data n = Some r \<and> length data < report_bytes (report_enum dev t) r
    then hid_input_report cfg env (Some dev) t data n irq = None
    else \<exists>ret dev' evs. hid_input_report cfg env (Some dev) t data n irq = Some (ret, Some dev', evs) \<and> hid_reach cfg dev'"
proof -
  let ?e = "report_enum dev t"
  have "dev_ok cfg dev" using hid_sys.reach_inv [OF re] closed_ok by (auto simp: dev_inv_def split: if_splits)
  then have e: "enum_ok cfg (length (collection dev)) t ?e" using t by (simp add: dev_ok_def)
  have ex: "(hid_input_report cfg env (Some dev) t data n irq = None \<longleftrightarrow>
      (\<exists>r. processed env ?e data n = Some r \<and> length data < report_bytes ?e r)) \<and>
    (\<forall>x. hid_input_report cfg env (Some dev) t data n irq = Some x \<longrightarrow> fst (snd x) \<noteq> None)"
  proof (cases "input_lock_free env \<and> n \<noteq> 0")
    case True
    then have "1 \<le> unat n" by (simp add: Suc_le_eq unat_gt_0)
    then have "data \<noteq> []" using len by auto
    note get = get_report_numbered [OF this, of ?e]
    show ?thesis
    proof (cases "hdriver env")
      case d: (Some d)
      show ?thesis
      proof (cases "numbered_report ?e data")
        case r: (Some r)
        define out where "out = (case drv_raw_event d of None \<Rightarrow> (0, data)
            | Some raw_event \<Rightarrow> if hid_match_report d r then raw_event r data n else (0, data))"
        have l: "length (snd out) = length data" using drv [OF d] by (auto simp: out_def split: option.splits)
        have p: "processed env ?e data n = (if fst out < 0 then None else numbered_report ?e (snd out))"
          using True d r by (auto simp: processed_def out_def split: option.split)
        show ?thesis
        proof (cases "fst out < 0")
          case neg: True
          then show ?thesis using True d r p unfolding hid_input_report_def Let_def get
            by (cases out) (simp add: out_def [symmetric] get)
        next
          case False
          have "hid_report_raw_event cfg env dev t (snd out) n irq = None \<longleftrightarrow>
              (\<exists>r. numbered_report ?e (snd out) = Some r \<and> length (snd out) < report_bytes ?e r)"
            by (rule raw_event_exact [OF e cfg]) (use True len l rd p False in \<open>auto simp: readable_def\<close>)
          then show ?thesis using True d r p False l unfolding hid_input_report_def Let_def get
            by (cases out) (auto simp: out_def [symmetric] get split: option.splits)
        qed
      qed (use True d in \<open>simp add: hid_input_report_def processed_def Let_def get\<close>)
    qed (use True in \<open>simp add: hid_input_report_def processed_def\<close>)
  next
    case False
    then show ?thesis by (auto simp: hid_input_report_def processed_def split: option.split)
  qed
  show ?thesis
  proof (cases "\<exists>r. processed env ?e data n = Some r \<and> length data < report_bytes ?e r")
    case False
    then obtain ret dev' evs where i: "hid_input_report cfg env (Some dev) t data n irq = Some (ret, Some dev', evs)"
      using ex by fastforce
    then show ?thesis using False reach_step [OF re] cfg step_input [OF t i] by auto
  qed (use ex in simp)
qed

definition plain_env :: hid_env where
  "plain_env = \<lparr>debug_open = False,
     hdriver = Some \<lparr>report_table = None, usage_table = None, drv_event = None, drv_raw_event = None, drv_report = False\<rparr>,
     claimed = HID_CLAIMED_INPUT, hiddev_event_set = False, hiddev_report_set = False, hidraw_report_event = (\<lambda>_ _. 0),
     alloc_values_ok = (\<lambda>_. True), input_lock_free = True\<rparr>"

lemma keyboard_hash: "report_id_hash (report_enum keyboard 0) i = Some r \<Longrightarrow> r = keyboard_report"
proof -
  assume h: "report_id_hash (report_enum keyboard 0) i = Some r"
  have "dom (report_id_hash (report_enum keyboard 0)) = {0}"
    using reach_report(2) [OF keyboard_reached _ h] by (simp add: enum_ok_def keyboard_list)
  then have "i = 0" using h by (auto simp: domI)
  then show ?thesis using h keyboard_report by simp
qed

lemma keyboard_sizes: "f \<in> set (r_field keyboard_report) \<Longrightarrow> unat (f_report_size f) \<le> 31 \<and> 1 \<le> unat (f_report_size f)"
  by (auto simp: keyboard_report_def Let_def)

lemma keyboard_processed: "n \<noteq> 0 \<Longrightarrow> processed plain_env (report_enum keyboard 0) data n = Some keyboard_report"
  by (simp add: processed_def plain_env_def numbered_report_def keyboard_numbered keyboard_report)

text \<open>A report of four bytes, of which two arrive: in a buffer of four bytes it is padded, a buffer of two bytes is overrun.\<close>

lemma input_stays_inside_witness:
  "(\<exists>ret dev' evs. hid_input_report linux_cfg plain_env (Some keyboard) 0 [1, 2, 7, 7] 2 True = Some (ret, Some dev', evs) \<and>
     hid_reach linux_cfg dev') \<and>
   hid_input_report linux_cfg plain_env (Some keyboard) 0 [1, 2] 2 True = None"
proof -
  have sz: "report_bytes (report_enum keyboard 0) keyboard_report = 4"
    by (simp add: report_bytes_def keyboard_numbered keyboard_report_def Let_def)
  have drv: "length (snd (hook r d k)) = length d" if "hdriver plain_env = Some drv" "drv_raw_event drv = Some hook" for drv hook r d k
    using that by (auto simp: plain_env_def)
  have rd: "unat (f_report_size f) \<le> 32"
    if "processed plain_env (report_enum keyboard 0) data 2 = Some r" "f \<in> set (r_field r)" for data r f
    using that keyboard_processed [of 2 data] keyboard_sizes by fastforce
  have th: "unat (2 :: u32) \<le> length data \<Longrightarrow>
      if \<exists>r. processed plain_env (report_enum keyboard 0) data 2 = Some r \<and> length data < report_bytes (report_enum keyboard 0) r
      then hid_input_report linux_cfg plain_env (Some keyboard) 0 data 2 True = None
      else \<exists>ret dev' evs. hid_input_report linux_cfg plain_env (Some keyboard) 0 data 2 True = Some (ret, Some dev', evs) \<and>
        hid_reach linux_cfg dev'" for data
    using drv rd by (intro input_stays_inside [OF keyboard_reached linux_cfg_ok]) auto
  show ?thesis using th [of "[1, 2, 7, 7]"] th [of "[1, 2]"] by (simp add: keyboard_processed sz)
qed

text \<open>
  C21. An array field tells the input layer differences: replaying the events that one report causes on the keys
  that the previous report held down gives the keys that this report holds down, a release is told only of a key
  that was down and is not any more, and a press only of a key that was not.
\<close>

theorem array_fields_track_keys:
  assumes re: "hid_reach cfg dev" and t: "t < 3" and h: "report_id_hash (report_enum dev t) i = Some r" and f: "f \<in> set (r_field r)"
    and arr: "\<not> has_flag (f_flags f) HID_MAIN_ITEM_VARIABLE" and li: "listens env f"
    and inp: "hid_input_field env f data irq = Some (g, evs)"
  shows "replay evs (keys_of f (take (unat (f_report_count f)) (f_value f))) = keys_of g (take (unat (f_report_count f)) (f_value g)) \<and>
    (\<forall>u x. InputEvent u x \<in> set evs \<longrightarrow>
       (u \<in> keys_of f (take (unat (f_report_count f)) (f_value f)) \<longleftrightarrow> x = 0) \<and>
       (u \<in> keys_of g (take (unat (f_report_count f)) (f_value g)) \<longleftrightarrow> x = 1))"
proof -
  have ok: "field_ok cfg (length (collection dev)) f" using reach_report(3) [OF re t h] f by (auto simp: report_ok_def list_all_iff)
  have "f_report_count g = f_report_count f" using input_field_layout [OF inp] by (rule same_layout_place)
  then show ?thesis using array_field_events [OF ok arr li inp] by simp
qed

lemma array_fields_track_keys_witness:
  "\<exists>g evs. hid_input_field plain_env (r_field keyboard_report ! 0) [1, 2, 0] True = Some (g, evs) \<and>
     replay evs (keys_of (r_field keyboard_report ! 0) (take 3 [0, 0, 0, 0])) = keys_of g (take 3 (f_value g))"
proof -
  let ?f = "r_field keyboard_report ! 0"
  have f: "?f \<in> set (r_field keyboard_report)" by (simp add: keyboard_report_def Let_def)
  have v: "f_value ?f = [0, 0, 0, 0]" "unat (f_report_count ?f) = 3" "f_flags ?f = 0" "f_logical_minimum ?f = 0" "f_end ?f = 24"
    by (simp_all add: keyboard_report_def Let_def f_end_def)
  have "field_ok linux_cfg (length (collection keyboard)) ?f"
    using reach_report(3) [OF keyboard_reached _ keyboard_report] f by (auto simp: report_ok_def list_all_iff)
  then obtain g evs where i: "hid_input_field plain_env ?f [1, 2, 0] True = Some (g, evs)"
    using input_field_defined [of linux_cfg _ ?f "[1, 2, 0]"] v by (fastforce simp: readable_def)
  have l: "listens plain_env ?f" by (simp add: listens_def plain_env_def has_flag_def HID_CLAIMED_INPUT_def)
  show ?thesis
    using array_fields_track_keys [OF keyboard_reached _ keyboard_report f _ l i] i v by (auto simp: has_flag_def)
qed

section \<open>Output\<close>



definition representable :: "hid_field \<Rightarrow> s32 \<Rightarrow> bool" where
  "representable f v \<longleftrightarrow> (sint (f_logical_minimum f) < 0 \<longrightarrow>
     - (2 ^ (unat (f_report_size f) - 1)) \<le> sint v \<and> sint v < 2 ^ (unat (f_report_size f) - 1))"

text \<open>
  \<open>hid_set_field\<close> stores a value exactly when the position is one that the field reports and, for a signed field,
  the value is one the field can hold; it fails with \<open>EPERM\<close> and changes nothing otherwise.  A signed value
  that it stored is transmitted unchanged.  With the debug code compiled in, a position without a usage is a read behind
  the usages of the field.
\<close>

theorem set_field_checks:
  assumes re: "hid_reach cfg dev" and t: "t < 3" and h: "report_id_hash (report_enum dev t) i = Some r" and f: "f \<in> set (r_field r)"
    and w: "sint (f_logical_minimum f) < 0 \<Longrightarrow> 1 \<le> unat (f_report_size f) \<and> unat (f_report_size f) \<le> 31"
  shows "hid_set_field dbg (Some f) k v =
      (if dbg \<and> length (f_usage f) \<le> k then None
       else let dump = if dbg then [DumpInput (f_usage f ! k) v] else []
         in Some (if k < unat (f_report_count f) \<and> representable f v then (None, Some (f\<lparr>f_value := (f_value f)[k := v]\<rparr>), dump)
              else (Some EPERM, Some f, dump))) \<and>
    (sint (f_logical_minimum f) < 0 \<and> representable f v \<longrightarrow> transmitted f v = v)"
proof -
  let ?sz = "unat (f_report_size f)"
  have "field_ok cfg (length (collection dev)) f" using reach_report(3) [OF re t h] f by (auto simp: report_ok_def list_all_iff)
  then have len: "unat (f_report_count f) \<le> length (f_value f)" by (simp add: field_ok_def)
  show ?thesis
  proof (cases "sint (f_logical_minimum f) < 0")
    case True
    then have sz: "1 \<le> ?sz" "?sz \<le> 31" using w by auto
    obtain u where u: "s32ton v ?sz = Some u" "snto32 u ?sz = Some (transmitted f v)"
      using snto32_s32ton [OF sz, of v] True by (auto simp: transmitted_def)
    have eq: "transmitted f v = v \<longleftrightarrow> representable f v"
    proof -
      have "sint (transmitted f v) = clamp ?sz (sint v)" using True clamp_word [OF sz(2)] by (simp add: transmitted_def)
      then have "transmitted f v = v \<longleftrightarrow> clamp ?sz (sint v) = sint v" by (metis signed_word_eqI)
      then show ?thesis using True clamp_id [of ?sz "sint v"] by (simp add: representable_def)
    qed
    show ?thesis using u eq len True by (auto simp: hid_set_field_def Let_def)
  next
    case False
    then show ?thesis using len by (auto simp: hid_set_field_def Let_def representable_def)
  qed
qed

lemma set_field_checks_witness:
  "hid_set_field False (Some (r_field keyboard_report ! 1)) 1 2 = Some (Some EPERM, Some (r_field keyboard_report ! 1), []) \<and>
   hid_set_field True (Some (r_field keyboard_report ! 1)) 2 1 = None"
proof -
  have f: "r_field keyboard_report ! 1 \<in> set (r_field keyboard_report)" "sint (f_logical_minimum (r_field keyboard_report ! 1)) < 0"
    "unat (f_report_size (r_field keyboard_report ! 1)) = 2" "length (f_usage (r_field keyboard_report ! 1)) = 2"
    by (simp_all add: keyboard_report_def Let_def)
  note c = set_field_checks [OF keyboard_reached _ keyboard_report f(1)]
  show ?thesis using c [of False 1 2] c [of True 2 1] f(2-) by (simp add: representable_def)
qed

section \<open>Opening\<close>

text \<open>
  C26. Opening any device that the operations can reach returns, with one exception: it does not return exactly
  when the descriptor is accepted, has a Resolution Multiplier among its feature fields and has no collection.
\<close>

theorem hid_open_report_returns:
  assumes re: "hid_reach cfg dev" and cfg: "cfg_ok cfg"
  shows "hid_open_report cfg hk dev = None \<longleftrightarrow>
    (\<exists>buf p. \<not> stat_parsed dev \<and> dev_rdesc dev = Some buf \<and> kmemdup_ok hk 0 buf \<and> kmemdup_ok hk 1 (report_fixup hk buf) \<and>
       alloc_parser_ok hk \<and> alloc_collection_ok hk (HID_DEFAULT_NUM_COLLECTIONS cfg) \<and>
       parse_loop cfg hk (first_parser cfg dev (report_fixup hk buf)) (report_fixup hk buf) = (None, p) \<and>
       multiplier_fields (p_device p) \<noteq> [] \<and> collection (p_device p) = [])"
proof -
  have mult: "hid_setup_resolution_multiplier (p_device p) = None \<longleftrightarrow> multiplier_fields (p_device p) \<noteq> [] \<and> collection (p_device p) = []"
    if "\<not> stat_parsed dev" "parse_loop cfg hk (first_parser cfg dev start) start = (None, p)" for start p
  proof -
    have "dev_closed dev" using hid_sys.reach_inv [OF re] that(1) by (simp add: dev_inv_def)
    then have "parser_ok cfg p" using parse_loop_ok [OF cfg first_parser_ok [OF cfg] that(2)] by simp
    then have "dev_ok cfg (p_device p)" by (simp add: parser_ok_def)
    from setup_multiplier_returns [OF this] show ?thesis by (metis option.distinct(1) option.exhaust)
  qed
  show ?thesis
  proof (cases "stat_parsed dev \<or> dev_rdesc dev = None")
    case True then show ?thesis by (auto simp: hid_open_report_def)
  next
    case False
    then obtain buf where b: "dev_rdesc dev = Some buf" and ns: "\<not> stat_parsed dev" by auto
    obtain e p where pl: "parse_loop cfg hk (first_parser cfg dev (report_fixup hk buf)) (report_fixup hk buf) = (e, p)" by fastforce
    have "hid_open_report cfg hk dev = None \<longleftrightarrow> kmemdup_ok hk 0 buf \<and> kmemdup_ok hk 1 (report_fixup hk buf) \<and> alloc_parser_ok hk \<and>
        alloc_collection_ok hk (HID_DEFAULT_NUM_COLLECTIONS cfg) \<and> e = None \<and> hid_setup_resolution_multiplier (p_device p) = None"
      using pl by (simp add: hid_open_report_def Let_def b ns split: option.splits)
    then show ?thesis using mult [OF ns] pl b ns by auto
  qed
qed

text \<open>A feature of one byte whose usage is Resolution Multiplier, outside every collection.\<close>

definition loose_multiplier :: "u8 list" where
  "loose_multiplier = [0x05, 0x01, 0x09, 0x48, 0x75, 0x08, 0x95, 0x01, 0xB1, 0x02]"

lemma hid_open_report_returns_witness:
  "hid_open_report linux_cfg plain_hooks (snd (hid_parse_report plain_hooks hid_allocate_device loose_multiplier)) = None"
proof -
  let ?dev = "snd (hid_parse_report plain_hooks hid_allocate_device loose_multiplier)"
  have "hid_start hid_allocate_device"
    unfolding hid_start_def by (rule exI [of _ 0], rule exI [of _ 0]) (simp add: hid_allocate_device_def hid_close_report_def)
  then have "hid_reach linux_cfg hid_allocate_device" by (rule reach_start)
  then have re: "hid_reach linux_cfg ?dev"
    by (rule reach_step [where e = "ParseReport plain_hooks loose_multiplier"])
      (auto simp: linux_cfg_ok intro: step_parse [of _ _ _ "fst (hid_parse_report plain_hooks hid_allocate_device loose_multiplier)"])
  have "\<exists>p. parse_loop linux_cfg plain_hooks (first_parser linux_cfg ?dev loose_multiplier) loose_multiplier = (None, p) \<and>
      multiplier_fields (p_device p) \<noteq> [] \<and> collection (p_device p) = []"
    by (simp add: loose_multiplier_def hid_eval) (simp add: multiplier_fields_def reports_def hid_eval HID_GD_RESOLUTION_MULTIPLIER_def)
  moreover have "\<not> stat_parsed ?dev" "dev_rdesc ?dev = Some loose_multiplier" "\<And>k b. kmemdup_ok plain_hooks k b"
    "report_fixup plain_hooks loose_multiplier = loose_multiplier" "alloc_parser_ok plain_hooks" "\<And>n. alloc_collection_ok plain_hooks n"
    by (simp_all add: hid_eval)
  ultimately show ?thesis unfolding hid_open_report_returns [OF re linux_cfg_ok] by auto
qed

end
