(* ===== verification/Dma_Fence.thy ===== *)
theory Dma_Fence
  imports Kernel_Prelude
begin

text \<open>
  Fences (\<open>drivers/dma-buf/dma-fence.c\<close>, \<open>include/linux/dma-fence.h\<close>): a fence goes once from unsignaled to
  signaled; callbacks can be added until then and are run by whoever signals it; tasks wait by adding a callback
  that wakes them.

  A callback is the address of its structure with the function it holds; its node is linked exactly when it is in the
  list of the fence.  What runs between taking and releasing the lock of the fence is one function; a function that
  reads the signaled bit before it takes the lock is split into this test and the locked part.  The operations
  return the callbacks they called, in order.  The answers of the hooks of the driver are arguments: \<open>None\<close> is an
  absent hook.
\<close>

section \<open>Data\<close>

abbreviation EDEADLK :: int where "EDEADLK \<equiv> 35"
abbreviation ERESTARTSYS :: int where "ERESTARTSYS \<equiv> 512"

text \<open>A callback either wakes a waiting task or is one of the user's, which may drop references of the fence.\<close>

datatype cb_func = WakeTask task | UserFunc nat

type_synonym dma_fence_cb = "nat \<times> cb_func"

record dma_fence =
  signaled_bit :: bool
  timestamp_bit :: bool
  enable_signal_bit :: bool
  cb_list :: "dma_fence_cb list"
  timestamp :: int
  fence_context :: u64
  fence_seqno :: u64
  refcount :: nat
  fence_error :: int

text \<open>The fields of the union that are not in use do not matter; \<open>timestamp\<close> is kept apart from the list.\<close>

definition dma_fence_init :: "u64 \<Rightarrow> u64 \<Rightarrow> dma_fence" where
  "dma_fence_init context seqno =
     \<lparr>signaled_bit = False, timestamp_bit = False, enable_signal_bit = False, cb_list = [], timestamp = 0,
      fence_context = context, fence_seqno = seqno, refcount = 1, fence_error = 0\<rparr>"

definition dma_fence_context_alloc :: "u32 \<Rightarrow> u64 \<Rightarrow> u64 \<times> u64" where
  "dma_fence_context_alloc num counter = (counter, counter + ucast num)"

section \<open>References\<close>

definition dma_fence_get :: "dma_fence option \<Rightarrow> dma_fence option" where
  "dma_fence_get fence = map_option (\<lambda>f. f\<lparr>refcount := refcount f + 1\<rparr>) fence"

definition dma_fence_get_rcu :: "dma_fence \<Rightarrow> dma_fence option" where
  "dma_fence_get_rcu f = (if refcount f = 0 then None else Some (f\<lparr>refcount := refcount f + 1\<rparr>))"

section \<open>Signaling\<close>

definition dma_fence_signal_timestamp_locked :: "dma_fence \<Rightarrow> int \<Rightarrow> errno option \<times> dma_fence \<times> dma_fence_cb list" where
  "dma_fence_signal_timestamp_locked f ts =
     (if signaled_bit f then (Some EINVAL, f, [])
      else (None, f\<lparr>signaled_bit := True, cb_list := [], timestamp := ts, timestamp_bit := True\<rparr>, cb_list f))"

definition dma_fence_signal_timestamp :: "dma_fence option \<Rightarrow> int \<Rightarrow> errno option \<times> dma_fence option \<times> dma_fence_cb list" where
  "dma_fence_signal_timestamp fence ts =
     (case fence of
        None \<Rightarrow> (Some EINVAL, None, [])
      | Some f \<Rightarrow> let (r, f1, called) = dma_fence_signal_timestamp_locked f ts in (r, Some f1, called))"

definition dma_fence_signal_locked :: "dma_fence \<Rightarrow> int \<Rightarrow> errno option \<times> dma_fence \<times> dma_fence_cb list" where
  "dma_fence_signal_locked f now = dma_fence_signal_timestamp_locked f now"

definition dma_fence_signal :: "dma_fence option \<Rightarrow> int \<Rightarrow> errno option \<times> dma_fence option \<times> dma_fence_cb list" where
  "dma_fence_signal fence now =
     (case fence of
        None \<Rightarrow> (Some EINVAL, None, [])
      | Some f \<Rightarrow> let (r, f1, called) = dma_fence_signal_timestamp_locked f now in (r, Some f1, called))"

text \<open>\<open>_dma_fence_enable_signaling\<close>: \<open>hook\<close> is what the driver's hook answers if it is called.\<close>

definition enable_signaling_locked :: "bool option \<Rightarrow> dma_fence \<Rightarrow> int \<Rightarrow> bool \<times> dma_fence \<times> dma_fence_cb list" where
  "enable_signaling_locked hook f now =
     (let was_set = enable_signal_bit f; f1 = f\<lparr>enable_signal_bit := True\<rparr>
      in if signaled_bit f then (False, f1, [])
         else if \<not> was_set \<and> hook = Some False
         then let (r, f2, called) = dma_fence_signal_locked f1 now in (False, f2, called)
         else (True, f1, []))"

definition dma_fence_enable_sw_signaling :: "bool option \<Rightarrow> dma_fence \<Rightarrow> int \<Rightarrow> dma_fence \<times> dma_fence_cb list" where
  "dma_fence_enable_sw_signaling hook f now =
     (if signaled_bit f then (f, []) else let (b, f1, called) = enable_signaling_locked hook f now in (f1, called))"

section \<open>Callbacks\<close>

text \<open>The part of \<open>dma_fence_add_callback\<close> under the lock, and the whole when nothing comes in between.\<close>

definition add_callback_locked ::
    "bool option \<Rightarrow> dma_fence \<Rightarrow> dma_fence_cb \<Rightarrow> int \<Rightarrow> errno option \<times> dma_fence \<times> dma_fence_cb list" where
  "add_callback_locked hook f cb now =
     (let (enabled, f1, called) = enable_signaling_locked hook f now
      in if enabled then (None, f1\<lparr>cb_list := cb_list f1 @ [cb]\<rparr>, called) else (Some ENOENT, f1, called))"

definition dma_fence_add_callback ::
    "bool option \<Rightarrow> dma_fence option \<Rightarrow> (nat \<times> cb_func option) \<Rightarrow> int \<Rightarrow> errno option \<times> dma_fence option \<times> dma_fence_cb list" where
  "dma_fence_add_callback hook fence cb now =
     (case (fence, snd cb) of
        (Some f, Some func) \<Rightarrow>
          if signaled_bit f then (Some ENOENT, fence, [])
          else let (r, f1, called) = add_callback_locked hook f (fst cb, func) now in (r, Some f1, called)
      | _ \<Rightarrow> (Some EINVAL, fence, []))"

definition linked :: "dma_fence \<Rightarrow> nat \<Rightarrow> bool" where
  "linked f c \<longleftrightarrow> c \<in> fst ` set (cb_list f)"

definition unlink_cb :: "dma_fence \<Rightarrow> nat \<Rightarrow> dma_fence" where
  "unlink_cb f c = f\<lparr>cb_list := filter (\<lambda>x. fst x \<noteq> c) (cb_list f)\<rparr>"

definition dma_fence_remove_callback :: "dma_fence \<Rightarrow> nat \<Rightarrow> bool \<times> dma_fence" where
  "dma_fence_remove_callback f c = (if linked f c then (True, unlink_cb f c) else (False, f))"

section \<open>Status\<close>

text \<open>\<open>peek\<close> is what the \<open>signaled\<close> hook answers.\<close>

definition dma_fence_is_signaled_locked :: "bool option \<Rightarrow> dma_fence \<Rightarrow> int \<Rightarrow> bool \<times> dma_fence \<times> dma_fence_cb list" where
  "dma_fence_is_signaled_locked peek f now =
     (if signaled_bit f then (True, f, [])
      else if peek = Some True then let (r, f1, called) = dma_fence_signal_locked f now in (True, f1, called)
      else (False, f, []))"

definition dma_fence_get_status_locked :: "bool option \<Rightarrow> dma_fence \<Rightarrow> int \<Rightarrow> int \<times> dma_fence \<times> dma_fence_cb list" where
  "dma_fence_get_status_locked peek f now =
     (let (b, f1, called) = dma_fence_is_signaled_locked peek f now
      in (if b then if fence_error f1 \<noteq> 0 then fence_error f1 else 1 else 0, f1, called))"

text \<open>Without the lock: the bit, the hook, and \<open>dma_fence_signal\<close>.\<close>

definition dma_fence_is_signaled :: "bool option \<Rightarrow> dma_fence \<Rightarrow> int \<Rightarrow> bool \<times> dma_fence \<times> dma_fence_cb list" where
  "dma_fence_is_signaled peek f now =
     (if signaled_bit f then (True, f, [])
      else if peek = Some True then let (r, f1, called) = dma_fence_signal (Some f) now in (True, the f1, called)
      else (False, f, []))"

definition dma_fence_get_status :: "bool option \<Rightarrow> dma_fence \<Rightarrow> int \<Rightarrow> int \<times> dma_fence \<times> dma_fence_cb list" where
  "dma_fence_get_status peek f now = dma_fence_get_status_locked peek f now"

definition dma_fence_set_error :: "dma_fence \<Rightarrow> int \<Rightarrow> dma_fence" where
  "dma_fence_set_error f e = f\<lparr>fence_error := e\<rparr>"

text \<open>\<open>__dma_fence_is_later\<close>\<close>

definition is_later :: "bool \<Rightarrow> u64 \<Rightarrow> u64 \<Rightarrow> bool" where
  "is_later use_64bit_seqno f1 f2 =
     (if use_64bit_seqno then f1 > f2 else sint ((ucast f1 :: u32) - (ucast f2 :: u32)) > 0)"

definition dma_fence_is_later :: "bool \<Rightarrow> dma_fence \<Rightarrow> dma_fence \<Rightarrow> bool" where
  "dma_fence_is_later use_64bit_seqno f1 f2 =
     (if fence_context f1 \<noteq> fence_context f2 then False else is_later use_64bit_seqno (fence_seqno f1) (fence_seqno f2))"

definition dma_fence_later ::
    "bool \<Rightarrow> bool option \<Rightarrow> bool option \<Rightarrow> dma_fence \<Rightarrow> dma_fence \<Rightarrow> int \<Rightarrow> dma_fence option \<times> dma_fence \<times> dma_fence" where
  "dma_fence_later use_64bit_seqno peek1 peek2 f1 f2 now =
     (if fence_context f1 \<noteq> fence_context f2 then (None, f1, f2)
      else if dma_fence_is_later use_64bit_seqno f1 f2
      then let (b, g, called) = dma_fence_is_signaled peek1 f1 now in (if b then None else Some g, g, f2)
      else let (b, g, called) = dma_fence_is_signaled peek2 f2 now in (if b then None else Some g, f1, g))"

text \<open>The fence that is signaled from the start: \<open>None\<close> before the first use.\<close>

definition dma_fence_get_stub :: "dma_fence option \<Rightarrow> int \<Rightarrow> dma_fence" where
  "dma_fence_get_stub stub now =
     (let f = (case stub of
                 None \<Rightarrow> let (r, f1, called) = dma_fence_signal_locked (dma_fence_init 0 0) now in f1
               | Some f1 \<Rightarrow> f1)
      in the (dma_fence_get (Some f)))"

text \<open>The last reference is gone: callbacks that are still there are run with an error.\<close>

definition dma_fence_release :: "dma_fence \<Rightarrow> int \<Rightarrow> dma_fence \<times> dma_fence_cb list" where
  "dma_fence_release f now =
     (if cb_list f \<noteq> [] \<and> \<not> signaled_bit f
      then let (r, f1, called) = dma_fence_signal_locked (f\<lparr>fence_error := - EDEADLK\<rparr>) now in (f1, called)
      else (f, []))"

definition dma_fence_put :: "dma_fence \<Rightarrow> int \<Rightarrow> dma_fence \<times> dma_fence_cb list" where
  "dma_fence_put f now =
     (let f1 = f\<lparr>refcount := refcount f - 1\<rparr> in if refcount f1 = 0 then dma_fence_release f1 now else (f1, []))"

section \<open>Waiting\<close>

text \<open>
  \<open>dma_fence_default_wait\<close> is split where it sleeps: the first section under the lock up to the first call of
  \<open>schedule_timeout\<close>, and what follows each return of that call.  \<open>Inl\<close> is the return value; \<open>Inr\<close> is the time for
  which the task goes to sleep (again).  The new callback is put in front of the list.
\<close>

definition default_wait_locked ::
    "bool option \<Rightarrow> dma_fence \<Rightarrow> bool \<Rightarrow> int \<Rightarrow> bool \<Rightarrow> nat \<Rightarrow> task \<Rightarrow> int \<Rightarrow> (int + int) \<times> dma_fence \<times> dma_fence_cb list" where
  "default_wait_locked hook f intr timeout sigpending c tsk now =
     (let ret = (if timeout \<noteq> 0 then timeout else 1)
      in if intr \<and> sigpending then (Inl (- ERESTARTSYS), f, [])
         else
           let (enabled, f1, called) = enable_signaling_locked hook f now
           in if \<not> enabled then (Inl ret, f1, called)
              else if timeout = 0 then (Inl 0, f1, called)
              else if ret > 0 then (Inr ret, f1\<lparr>cb_list := (c, WakeTask tsk) # cb_list f1\<rparr>, called)
              else (Inl ret, f1, called))"

definition default_wait_turn :: "dma_fence \<Rightarrow> bool \<Rightarrow> int \<Rightarrow> bool \<Rightarrow> nat \<Rightarrow> (int + int) \<times> dma_fence" where
  "default_wait_turn f intr slept sigpending c =
     (let ret = (if slept > 0 \<and> intr \<and> sigpending then - ERESTARTSYS else slept)
      in if \<not> signaled_bit f \<and> ret > 0 then (Inr ret, f) else (Inl ret, if linked f c then unlink_cb f c else f))"

text \<open>With the test before the lock, when nothing comes in between.\<close>

definition dma_fence_default_wait ::
    "bool option \<Rightarrow> dma_fence \<Rightarrow> bool \<Rightarrow> int \<Rightarrow> bool \<Rightarrow> nat \<Rightarrow> task \<Rightarrow> int \<Rightarrow> (int + int) \<times> dma_fence \<times> dma_fence_cb list" where
  "dma_fence_default_wait hook f intr timeout sigpending c tsk now =
     (if signaled_bit f then (Inl (if timeout \<noteq> 0 then timeout else 1), f, [])
      else default_wait_locked hook f intr timeout sigpending c tsk now)"

definition dma_fence_wait_timeout ::
    "(bool \<Rightarrow> int \<Rightarrow> int) option \<Rightarrow> bool option \<Rightarrow> dma_fence \<Rightarrow> bool \<Rightarrow> int \<Rightarrow> bool \<Rightarrow> nat \<Rightarrow> task \<Rightarrow> int
       \<Rightarrow> (int + int) \<times> dma_fence \<times> dma_fence_cb list" where
  "dma_fence_wait_timeout wait_hook hook f intr timeout sigpending c tsk now =
     (if timeout < 0 then (Inl (- 22), f, [])
      else case wait_hook of
        Some wait \<Rightarrow> (Inl (wait intr timeout), f, [])
      | None \<Rightarrow> dma_fence_default_wait hook f intr timeout sigpending c tsk now)"

text \<open>\<open>MAX_SCHEDULE_TIMEOUT\<close> is \<open>LONG_MAX\<close>.  \<open>wait_result\<close> is what follows the wait.\<close>

definition MAX_SCHEDULE_TIMEOUT :: int where "MAX_SCHEDULE_TIMEOUT = 2 ^ 63 - 1"

definition wait_result :: "int \<Rightarrow> int" where
  "wait_result ret = (if ret < 0 then ret else 0)"

definition dma_fence_wait ::
    "(bool \<Rightarrow> int \<Rightarrow> int) option \<Rightarrow> bool option \<Rightarrow> dma_fence \<Rightarrow> bool \<Rightarrow> bool \<Rightarrow> nat \<Rightarrow> task \<Rightarrow> int
       \<Rightarrow> (int + int) \<times> dma_fence \<times> dma_fence_cb list" where
  "dma_fence_wait wait_hook hook f intr sigpending c tsk now =
     (case dma_fence_wait_timeout wait_hook hook f intr MAX_SCHEDULE_TIMEOUT sigpending c tsk now of
        (Inl ret, f1, called) \<Rightarrow> (Inl (wait_result ret), f1, called)
      | (Inr tm, f1, called) \<Rightarrow> (Inr tm, f1, called))"

section \<open>Waiting for one of several fences\<close>

text \<open>
  The fences of the array are found in a store; \<open>cb i\<close> is the address of the \<open>i\<close>-th callback structure.
  \<open>want_idx\<close> says whether the caller gave a place for the index, \<open>idx\<close> is what is stored there.
\<close>

type_synonym fence_store = "nat \<Rightarrow> dma_fence"

definition dma_fence_test_signaled_any :: "fence_store \<Rightarrow> nat list \<Rightarrow> nat option" where
  "dma_fence_test_signaled_any h fences = find (\<lambda>i. signaled_bit (h (fences ! i))) [0..<length fences]"

text \<open>The loop for a timeout of 0; the return value is 1 or 0.\<close>

fun wait_any_poll ::
    "(nat \<Rightarrow> bool option) \<Rightarrow> bool \<Rightarrow> int \<Rightarrow> fence_store \<Rightarrow> nat list \<Rightarrow> nat \<Rightarrow> int \<times> nat option \<times> fence_store" where
  "wait_any_poll peek want_idx now h [] i = (0, None, h)"
| "wait_any_poll peek want_idx now h (f # fs) i =
     (let (b, f1, called) = dma_fence_is_signaled (peek f) (h f) now; h1 = h(f := f1)
      in if b \<and> want_idx then (1, Some i, h1) else wait_any_poll peek want_idx now h1 fs (i + 1))"

text \<open>Adding the callbacks: \<open>Some i\<close> is the position whose fence is signaled already.\<close>

fun wait_any_add ::
    "(nat \<Rightarrow> bool option) \<Rightarrow> (nat \<Rightarrow> nat) \<Rightarrow> task \<Rightarrow> int \<Rightarrow> fence_store \<Rightarrow> nat list \<Rightarrow> nat \<Rightarrow> nat option \<times> fence_store" where
  "wait_any_add hook cb tsk now h [] i = (None, h)"
| "wait_any_add hook cb tsk now h (f # fs) i =
     (case dma_fence_add_callback (hook f) (Some (h f)) (cb i, Some (WakeTask tsk)) now of
        (r, Some f1, called) \<Rightarrow>
          if r \<noteq> None then (Some i, h(f := f1)) else wait_any_add hook cb tsk now (h(f := f1)) fs (i + 1)
      | (r, None, called) \<Rightarrow> (Some i, h))"

text \<open>The removal runs from the last position that was added down to the first.\<close>

fun wait_any_remove :: "(nat \<Rightarrow> nat) \<Rightarrow> nat list \<Rightarrow> nat \<Rightarrow> fence_store \<Rightarrow> fence_store" where
  "wait_any_remove cb fences 0 h = h"
| "wait_any_remove cb fences (Suc i) h =
     wait_any_remove cb fences i (h(fences ! i := snd (dma_fence_remove_callback (h (fences ! i)) (cb i))))"

text \<open>The top of the loop: leaving it with an index, or going to sleep.\<close>

definition wait_any_loop ::
    "(nat \<Rightarrow> nat) \<Rightarrow> fence_store \<Rightarrow> nat list \<Rightarrow> bool \<Rightarrow> int \<Rightarrow> ((int \<times> nat option) + int) \<times> fence_store" where
  "wait_any_loop cb h fences want_idx ret =
     (if ret > 0
      then case dma_fence_test_signaled_any h fences of
             Some i \<Rightarrow> (Inl (ret, if want_idx then Some i else None), wait_any_remove cb fences (length fences) h)
           | None \<Rightarrow> (Inr ret, h)
      else (Inl (ret, None), wait_any_remove cb fences (length fences) h))"

definition wait_any_turn ::
    "(nat \<Rightarrow> nat) \<Rightarrow> fence_store \<Rightarrow> nat list \<Rightarrow> bool \<Rightarrow> bool \<Rightarrow> int \<Rightarrow> bool \<Rightarrow> ((int \<times> nat option) + int) \<times> fence_store" where
  "wait_any_turn cb h fences intr want_idx slept sigpending =
     wait_any_loop cb h fences want_idx (if slept > 0 \<and> intr \<and> sigpending then - ERESTARTSYS else slept)"

definition dma_fence_wait_any_timeout ::
    "(nat \<Rightarrow> bool option) \<Rightarrow> (nat \<Rightarrow> bool option) \<Rightarrow> bool \<Rightarrow> (nat \<Rightarrow> nat) \<Rightarrow> task \<Rightarrow> int \<Rightarrow> fence_store \<Rightarrow> nat list \<Rightarrow> int \<Rightarrow> bool
       \<Rightarrow> ((int \<times> nat option) + int) \<times> fence_store" where
  "dma_fence_wait_any_timeout peek hook kcalloc_ok cb tsk now h fences timeout want_idx =
     (if fences = [] \<or> timeout < 0 then (Inl (- 22, None), h)
      else if timeout = 0
      then let (r, idx, h1) = wait_any_poll peek want_idx now h fences 0 in (Inl (r, idx), h1)
      else if \<not> kcalloc_ok then (Inl (- 12, None), h)
      else case wait_any_add hook cb tsk now h fences 0 of
             (Some i, h1) \<Rightarrow> (Inl (timeout, if want_idx then Some i else None), wait_any_remove cb fences i h1)
           | (None, h1) \<Rightarrow> wait_any_loop cb h1 fences want_idx timeout)"

end
