(* ===== verification/Fence_System.thy ===== *)
theory Fence_System
  imports Dma_Fence "HOL-Library.Multiset"
begin

text \<open>
  One fence with the threads that use it, as a transition system: signaling, adding and removing callbacks, and
  tasks that wait.  A step is what one thread does while it holds the lock of the fence, or a test of the signaled
  bit without it, so that all interleavings are there.
\<close>

section \<open>States and steps\<close>

text \<open>
  \<open>fs_called\<close> and \<open>fs_added\<close> record which callbacks were run and accepted, in order, \<open>fs_removed\<close> which were taken
  off the list again.  \<open>fs_sleep t\<close> is the callback of a sleeping task, whether its sleep can be interrupted, and
  for how long it sleeps; \<open>fs_runnable\<close> are the sleepers that were woken.
\<close>

record fence_sys =
  fs_fence :: dma_fence
  fs_called :: "nat list"
  fs_added :: "nat list"
  fs_removed :: "nat list"
  fs_sleep :: "task \<Rightarrow> (nat \<times> bool \<times> int) option"
  fs_runnable :: "task set"

definition deliver :: "dma_fence_cb list \<Rightarrow> fence_sys \<Rightarrow> fence_sys" where
  "deliver cs s = s\<lparr>fs_called := fs_called s @ map fst cs, fs_runnable := fs_runnable s \<union> {t. WakeTask t \<in> snd ` set cs}\<rparr>"

datatype fence_call =
    SignalAt int | AddFast nat | AddLocked "bool option" nat nat int | RemoveCb nat | EnableSw "bool option" int
  | GetStatus "bool option" int | SetError int | WaitFast task int | WaitLocked "bool option" task bool int bool nat int
  | WaitTurn task int bool

inductive fence_step :: "fence_sys \<Rightarrow> fence_call \<Rightarrow> fence_sys \<Rightarrow> bool" where
  fs_signal: "dma_fence_signal_timestamp (Some (fs_fence s)) ts = (r, Some f, cs) \<Longrightarrow>
     fence_step s (SignalAt ts) (deliver cs (s\<lparr>fs_fence := f\<rparr>))"
| fs_add_fast: "signaled_bit (fs_fence s) \<Longrightarrow> fence_step s (AddFast c) s"
| fs_add: "c \<notin> set (fs_added s) \<Longrightarrow> add_callback_locked hook (fs_fence s) (c, UserFunc n) now = (r, f, cs) \<Longrightarrow>
     fence_step s (AddLocked hook c n now)
       (deliver cs (s\<lparr>fs_fence := f, fs_added := if r = None then fs_added s @ [c] else fs_added s\<rparr>))"
| fs_remove: "c \<in> set (fs_added s) \<Longrightarrow> \<forall>t i tm. fs_sleep s t \<noteq> Some (c, i, tm) \<Longrightarrow>
     dma_fence_remove_callback (fs_fence s) c = (b, f) \<Longrightarrow>
     fence_step s (RemoveCb c) (s\<lparr>fs_fence := f, fs_removed := if b then fs_removed s @ [c] else fs_removed s\<rparr>)"
| fs_enable: "dma_fence_enable_sw_signaling hook (fs_fence s) now = (f, cs) \<Longrightarrow>
     fence_step s (EnableSw hook now) (deliver cs (s\<lparr>fs_fence := f\<rparr>))"
| fs_status: "dma_fence_get_status_locked peek (fs_fence s) now = (st, f, cs) \<Longrightarrow>
     fence_step s (GetStatus peek now) (deliver cs (s\<lparr>fs_fence := f\<rparr>))"
| fs_error: "fence_step s (SetError e) (s\<lparr>fs_fence := dma_fence_set_error (fs_fence s) e\<rparr>)"
| fs_wait_fast: "signaled_bit (fs_fence s) \<Longrightarrow> fence_step s (WaitFast t timeout) s"
| fs_wait_done: "fs_sleep s t = None \<Longrightarrow>
     default_wait_locked hook (fs_fence s) intr timeout sigpending c t now = (Inl ret, f, cs) \<Longrightarrow>
     fence_step s (WaitLocked hook t intr timeout sigpending c now) (deliver cs (s\<lparr>fs_fence := f\<rparr>))"
| fs_wait_sleep: "fs_sleep s t = None \<Longrightarrow> c \<notin> set (fs_added s) \<Longrightarrow>
     default_wait_locked hook (fs_fence s) intr timeout sigpending c t now = (Inr tm, f, cs) \<Longrightarrow>
     fence_step s (WaitLocked hook t intr timeout sigpending c now)
       ((deliver cs (s\<lparr>fs_fence := f, fs_added := fs_added s @ [c]\<rparr>))
         \<lparr>fs_sleep := (fs_sleep s)(t \<mapsto> (c, intr, tm)), fs_runnable := fs_runnable s - {t}\<rparr>)"
| fs_turn_done: "fs_sleep s t = Some (c, intr, tm) \<Longrightarrow> 0 \<le> slept \<Longrightarrow> slept \<le> tm \<Longrightarrow>
     default_wait_turn (fs_fence s) intr slept sigpending c = (Inl ret, f) \<Longrightarrow>
     fence_step s (WaitTurn t slept sigpending)
       (s\<lparr>fs_fence := f, fs_removed := if linked (fs_fence s) c then fs_removed s @ [c] else fs_removed s,
          fs_sleep := (fs_sleep s)(t := None), fs_runnable := fs_runnable s - {t}\<rparr>)"
| fs_turn_again: "fs_sleep s t = Some (c, intr, tm) \<Longrightarrow> 0 \<le> slept \<Longrightarrow> slept \<le> tm \<Longrightarrow>
     default_wait_turn (fs_fence s) intr slept sigpending c = (Inr tm', f) \<Longrightarrow>
     fence_step s (WaitTurn t slept sigpending)
       (s\<lparr>fs_fence := f, fs_sleep := (fs_sleep s)(t \<mapsto> (c, intr, tm')), fs_runnable := fs_runnable s - {t}\<rparr>)"

inductive_cases fence_turn_elim: "fence_step s (WaitTurn t slept sigpending) s'"

definition fence_start :: "fence_sys \<Rightarrow> bool" where
  "fence_start s \<longleftrightarrow> (\<exists>context seqno. s = \<lparr>fs_fence = dma_fence_init context seqno, fs_called = [], fs_added = [], fs_removed = [],
     fs_sleep = (\<lambda>_. None), fs_runnable = {}\<rparr>)"

section \<open>The invariant\<close>

definition fence_inv :: "fence_sys \<Rightarrow> bool" where
  "fence_inv s \<longleftrightarrow>
     distinct (fs_added s) \<and>
     mset (fs_added s) = mset (fs_called s) + mset (fs_removed s) + mset (map fst (cb_list (fs_fence s))) \<and>
     (signaled_bit (fs_fence s) \<longrightarrow> cb_list (fs_fence s) = []) \<and>
     (\<not> signaled_bit (fs_fence s) \<longrightarrow> fs_called s = []) \<and>
     (\<forall>t c i tm. fs_sleep s t = Some (c, i, tm) \<longrightarrow>
        0 < tm \<and> (if signaled_bit (fs_fence s) then t \<in> fs_runnable s else (c, WakeTask t) \<in> set (cb_list (fs_fence s))))"

lemma inv_partsD:
  assumes "fence_inv s"
  shows "distinct (fs_added s)" "mset (fs_added s) = mset (fs_called s) + mset (fs_removed s) + mset (map fst (cb_list (fs_fence s)))"
    "signaled_bit (fs_fence s) \<Longrightarrow> cb_list (fs_fence s) = []" "\<not> signaled_bit (fs_fence s) \<Longrightarrow> fs_called s = []"
    "distinct (fs_called s @ fs_removed s @ map fst (cb_list (fs_fence s)))"
proof -
  show d: "distinct (fs_added s)"
    and m: "mset (fs_added s) = mset (fs_called s) + mset (fs_removed s) + mset (map fst (cb_list (fs_fence s)))"
    and "signaled_bit (fs_fence s) \<Longrightarrow> cb_list (fs_fence s) = []" "\<not> signaled_bit (fs_fence s) \<Longrightarrow> fs_called s = []"
    using assms by (simp_all add: fence_inv_def)
  have "mset (fs_called s @ fs_removed s @ map fst (cb_list (fs_fence s))) = mset (fs_added s)" by (simp add: m)
  from mset_eq_imp_distinct_iff [OF this] d
  show "distinct (fs_called s @ fs_removed s @ map fst (cb_list (fs_fence s)))" by simp
qed

lemma inv_waiters:
  "fence_inv s \<Longrightarrow> fs_sleep s t = Some (c, i, tm) \<Longrightarrow>
   0 < tm \<and> (if signaled_bit (fs_fence s) then t \<in> fs_runnable s else (c, WakeTask t) \<in> set (cb_list (fs_fence s)))"
  by (simp add: fence_inv_def)

lemma fence_invI:
  assumes "distinct (fs_added s)" "mset (fs_added s) = mset (fs_called s) + mset (fs_removed s) + mset (map fst (cb_list (fs_fence s)))"
    "signaled_bit (fs_fence s) \<Longrightarrow> cb_list (fs_fence s) = []" "\<not> signaled_bit (fs_fence s) \<Longrightarrow> fs_called s = []"
    "\<And>t c i tm. fs_sleep s t = Some (c, i, tm) \<Longrightarrow>
       0 < tm \<and> (if signaled_bit (fs_fence s) then t \<in> fs_runnable s else (c, WakeTask t) \<in> set (cb_list (fs_fence s)))"
  shows "fence_inv s"
  using assms unfolding fence_inv_def by blast

text \<open>What every operation on the fence does: it keeps the list and runs nothing, or runs all of it and signals.\<close>

definition keeps_or_signals :: "dma_fence \<Rightarrow> dma_fence \<Rightarrow> dma_fence_cb list \<Rightarrow> bool" where
  "keeps_or_signals f f' cs \<longleftrightarrow>
     (signaled_bit f' = signaled_bit f \<and> cb_list f' = cb_list f \<and> cs = []) \<or>
     (\<not> signaled_bit f \<and> signaled_bit f' \<and> cb_list f' = [] \<and> cs = cb_list f)"

lemma keeps_refl [simp]: "keeps_or_signals f f []"
  by (simp add: keeps_or_signals_def)

lemma signal_keeps: "dma_fence_signal_timestamp_locked f ts = (r, f', cs) \<Longrightarrow> keeps_or_signals f f' cs"
  by (auto simp: dma_fence_signal_timestamp_locked_def keeps_or_signals_def split: if_splits)

lemma signal_locked_keeps: "dma_fence_signal_locked f ts = (r, f', cs) \<Longrightarrow> keeps_or_signals f f' cs"
  by (simp add: dma_fence_signal_locked_def signal_keeps)

lemma enable_keeps:
  assumes "enable_signaling_locked hook f now = (b, f', cs)"
  shows "keeps_or_signals f f' cs" and "b \<longleftrightarrow> \<not> signaled_bit f'"
  using assms
  by (auto simp: enable_signaling_locked_def Let_def dma_fence_signal_locked_def dma_fence_signal_timestamp_locked_def
      keeps_or_signals_def split: if_splits prod.splits)

lemma enable_sw_keeps: "dma_fence_enable_sw_signaling hook f now = (f', cs) \<Longrightarrow> keeps_or_signals f f' cs"
  by (auto simp: dma_fence_enable_sw_signaling_def split: if_splits prod.splits intro: enable_keeps(1))

lemma is_signaled_keeps: "dma_fence_is_signaled_locked peek f now = (b, f', cs) \<Longrightarrow> keeps_or_signals f f' cs"
  by (auto simp: dma_fence_is_signaled_locked_def split: if_splits prod.splits intro: signal_locked_keeps)

lemma status_keeps: "dma_fence_get_status_locked peek f now = (st, f', cs) \<Longrightarrow> keeps_or_signals f f' cs"
  by (auto simp: dma_fence_get_status_locked_def split: prod.splits intro: is_signaled_keeps)

lemma inv_deliver:
  assumes inv: "fence_inv s" and k: "keeps_or_signals (fs_fence s) f cs"
  shows "fence_inv (deliver cs (s\<lparr>fs_fence := f\<rparr>))"
proof -
  consider (keep) "signaled_bit f = signaled_bit (fs_fence s)" "cb_list f = cb_list (fs_fence s)" "cs = []"
    | (sig) "\<not> signaled_bit (fs_fence s)" "signaled_bit f" "cb_list f = []" "cs = cb_list (fs_fence s)"
    using k unfolding keeps_or_signals_def by blast
  then show ?thesis
  proof cases
    case keep
    then show ?thesis
      using inv_partsD [OF inv] inv_waiters [OF inv] by (intro fence_invI) (auto simp: deliver_def)
  next
    case sig
    have "WakeTask t \<in> snd ` set (cb_list (fs_fence s))" if "fs_sleep s t = Some (c, i, tm)" for t c i tm
      using inv_waiters [OF inv that] sig(1) by force
    then show ?thesis
      using inv_partsD [OF inv] inv_waiters [OF inv] sig by (intro fence_invI) (auto simp: deliver_def)
  qed
qed

lemma fence_start_inv: "fence_start s \<Longrightarrow> fence_inv s"
  by (auto simp: fence_start_def fence_inv_def dma_fence_init_def)

text \<open>Appending or prepending an accepted callback, and taking one off.\<close>

lemma inv_added:
  assumes inv: "fence_inv s" and c: "c \<notin> set (fs_added s)" and ns: "\<not> signaled_bit (fs_fence s)"
    and l: "mset l = add_mset (c, func) (mset (cb_list (fs_fence s)))"
  shows "fence_inv (s\<lparr>fs_fence := (fs_fence s)\<lparr>cb_list := l\<rparr>, fs_added := fs_added s @ [c]\<rparr>)"
proof -
  have "set l = insert (c, func) (set (cb_list (fs_fence s)))" using l by (metis set_mset_add_mset_insert set_mset_mset)
  moreover have "mset (map fst l) = add_mset c (mset (map fst (cb_list (fs_fence s))))" by (simp add: l)
  ultimately show ?thesis using inv_partsD [OF inv] inv_waiters [OF inv] c ns by (intro fence_invI) auto
qed

lemma inv_unlinked:
  assumes inv: "fence_inv s" and c: "linked (fs_fence s) c" and ns: "\<forall>t i tm. fs_sleep s t \<noteq> Some (c, i, tm)"
  shows "fence_inv (s\<lparr>fs_fence := unlink_cb (fs_fence s) c, fs_removed := fs_removed s @ [c]\<rparr>)"
proof -
  let ?l = "map fst (cb_list (fs_fence s))"
  note P = inv_partsD [OF inv]
  have "map fst (cb_list (unlink_cb (fs_fence s) c)) = removeAll c ?l"
    unfolding unlink_cb_def by (simp add: removeAll_filter_not_eq filter_map o_def) metis
  also have "\<dots> = remove1 c ?l" using P(5) by (simp add: distinct_remove1_removeAll)
  finally have "mset (map fst (cb_list (unlink_cb (fs_fence s) c))) = mset ?l - {#c#}" by (simp flip: mset_map)
  moreover have "c \<in># mset ?l" using c by (simp add: linked_def)
  ultimately have m: "mset (fs_added s) = mset (fs_called s) + mset (fs_removed s @ [c]) + mset (map fst (cb_list (unlink_cb (fs_fence s) c)))"
    using P(2) by simp
  have "(d, WakeTask t) \<in> set (cb_list (unlink_cb (fs_fence s) c))"
    if "fs_sleep s t = Some (d, i, tm)" "(d, WakeTask t) \<in> set (cb_list (fs_fence s))" for t d i tm
    using that ns by (auto simp: unlink_cb_def)
  then show ?thesis
    using P m inv_waiters [OF inv] by (intro fence_invI) (auto simp: unlink_cb_def)
qed

lemma deliver_nil [simp]: "deliver [] s = s"
  by (simp add: deliver_def)

lemma inv_fence_kept:
  assumes inv: "fence_inv s" and "enable_signaling_locked hook (fs_fence s) now = (True, f, cs)"
  shows "cs = []" and "\<not> signaled_bit f" and "fence_inv (s\<lparr>fs_fence := f\<rparr>)"
proof -
  have k: "keeps_or_signals (fs_fence s) f cs" and ns: "\<not> signaled_bit f" using enable_keeps [OF assms(2)] by auto
  then show "cs = []" "\<not> signaled_bit f" by (auto simp: keeps_or_signals_def)
  then show "fence_inv (s\<lparr>fs_fence := f\<rparr>)" using inv_deliver [OF inv k] by simp
qed

lemma add_inv:
  assumes inv: "fence_inv s" and c: "c \<notin> set (fs_added s)"
    and add: "add_callback_locked hook (fs_fence s) (c, UserFunc n) now = (r, f, cs)"
  shows "fence_inv (deliver cs (s\<lparr>fs_fence := f, fs_added := if r = None then fs_added s @ [c] else fs_added s\<rparr>))"
proof -
  obtain b f1 cs1 where en: "enable_signaling_locked hook (fs_fence s) now = (b, f1, cs1)" by (metis prod_cases3)
  show ?thesis
  proof (cases b)
    case True
    from en True have en1: "enable_signaling_locked hook (fs_fence s) now = (True, f1, cs1)" by simp
    from True have e: "r = None" "f = f1\<lparr>cb_list := cb_list f1 @ [(c, UserFunc n)]\<rparr>" "cs = cs1"
      using add en by (auto simp: add_callback_locked_def)
    note K = inv_fence_kept [OF inv en1]
    from inv_added [OF K(3), of c "cb_list f1 @ [(c, UserFunc n)]" "UserFunc n"] show ?thesis
      using c K by (simp add: e)
  next
    case False
    then have "r = Some ENOENT" "f = f1" "cs = cs1" using add en by (auto simp: add_callback_locked_def)
    then show ?thesis using inv_deliver [OF inv enable_keeps(1) [OF en]] by simp
  qed
qed

lemma wait_done_keeps:
  assumes "default_wait_locked hook f intr timeout sigpending c t now = (Inl ret, f', cs)"
  shows "keeps_or_signals f f' cs"
proof (cases "intr \<and> sigpending")
  case True then show ?thesis using assms by (simp add: default_wait_locked_def Let_def)
next
  case False
  obtain b f1 cs1 where en: "enable_signaling_locked hook f now = (b, f1, cs1)" by (metis prod_cases3)
  then have "f' = f1" "cs = cs1" using assms False by (auto simp: default_wait_locked_def Let_def split: if_splits)
  then show ?thesis using enable_keeps(1) [OF en] by simp
qed

lemma wait_sleep_inv:
  assumes inv: "fence_inv s" and sl: "fs_sleep s t = None" and c: "c \<notin> set (fs_added s)"
    and w: "default_wait_locked hook (fs_fence s) intr timeout sigpending c t now = (Inr tm, f, cs)"
  shows "fence_inv ((deliver cs (s\<lparr>fs_fence := f, fs_added := fs_added s @ [c]\<rparr>))
         \<lparr>fs_sleep := (fs_sleep s)(t \<mapsto> (c, intr, tm)), fs_runnable := fs_runnable s - {t}\<rparr>)"
proof -
  obtain b f1 cs1 where en: "enable_signaling_locked hook (fs_fence s) now = (b, f1, cs1)" by (metis prod_cases3)
  have e: "b" "cs = cs1" "0 < tm" "f = f1\<lparr>cb_list := (c, WakeTask t) # cb_list f1\<rparr>"
    using w en by (auto simp: default_wait_locked_def Let_def split: if_splits)
  from en e(1) have "enable_signaling_locked hook (fs_fence s) now = (True, f1, cs1)" by simp
  note K = inv_fence_kept [OF inv this]
  have i: "fence_inv (s\<lparr>fs_fence := f, fs_added := fs_added s @ [c]\<rparr>)"
    using inv_added [OF K(3), of c "(c, WakeTask t) # cb_list f1" "WakeTask t"] c K(2) by (simp add: e(4))
  have cs: "cs = []" using K(1) e(2) by simp
  have w: "0 < tm' \<and> (d, WakeTask t') \<in> set (cb_list f)" if "fs_sleep s t' = Some (d, i, tm')" for t' d i tm'
    using inv_waiters [OF i, of t' d i tm'] that K(2) e(4) by simp
  show ?thesis
    using inv_partsD [OF i] w K(2) e(3,4) by (intro fence_invI) (auto simp: cs split: if_splits)
qed

lemma turn_done_inv:
  assumes inv: "fence_inv s" and sl: "fs_sleep s t = Some (c, intr, tm)"
    and w: "default_wait_turn (fs_fence s) intr slept sigpending c = (Inl ret, f)"
  shows "fence_inv (s\<lparr>fs_fence := f, fs_removed := if linked (fs_fence s) c then fs_removed s @ [c] else fs_removed s,
          fs_sleep := (fs_sleep s)(t := None), fs_runnable := fs_runnable s - {t}\<rparr>)"
proof -
  let ?s = "s\<lparr>fs_sleep := (fs_sleep s)(t := None), fs_runnable := fs_runnable s - {t}\<rparr>"
  have i: "fence_inv ?s"
    using inv_partsD [OF inv] inv_waiters [OF inv] by (intro fence_invI) (auto split: if_splits)
  show ?thesis
  proof (cases "linked (fs_fence s) c")
    case True
    then have ns: "\<not> signaled_bit (fs_fence s)" using inv_partsD(3) [OF inv] by (auto simp: linked_def)
    have single: "t' = t" if "fs_sleep s t' = Some (c, i, tm')" for t' i tm'
    proof -
      have "(c, WakeTask t) \<in> set (cb_list (fs_fence s))" "(c, WakeTask t') \<in> set (cb_list (fs_fence s))"
        using inv_waiters [OF inv sl] inv_waiters [OF inv that] ns by auto
      moreover have "distinct (map fst (cb_list (fs_fence s)))" using inv_partsD(5) [OF inv] by simp
      ultimately show ?thesis by (metis cb_func.inject(1) eq_key_imp_eq_value)
    qed
    have fu: "f = unlink_cb (fs_fence s) c" using w True by (auto simp: default_wait_turn_def Let_def split: if_splits)
    have "\<forall>t' i tm'. fs_sleep ?s t' \<noteq> Some (c, i, tm')" using single by auto
    moreover have "linked (fs_fence ?s) c" using True by simp
    ultimately have "fence_inv (?s\<lparr>fs_fence := unlink_cb (fs_fence ?s) c, fs_removed := fs_removed ?s @ [c]\<rparr>)"
      using inv_unlinked [OF i] by blast
    moreover have "?s\<lparr>fs_fence := unlink_cb (fs_fence ?s) c, fs_removed := fs_removed ?s @ [c]\<rparr> =
        s\<lparr>fs_fence := f, fs_removed := fs_removed s @ [c], fs_sleep := (fs_sleep s)(t := None), fs_runnable := fs_runnable s - {t}\<rparr>"
      by (simp add: fu)
    ultimately show ?thesis using True by simp
  next
    case False
    then have "f = fs_fence s" using w by (auto simp: default_wait_turn_def Let_def split: if_splits)
    then show ?thesis using i False by simp
  qed
qed

lemma turn_again_inv:
  assumes inv: "fence_inv s" and sl: "fs_sleep s t = Some (c, intr, tm)"
    and w: "default_wait_turn (fs_fence s) intr slept sigpending c = (Inr tm', f)"
  shows "fence_inv (s\<lparr>fs_fence := f, fs_sleep := (fs_sleep s)(t \<mapsto> (c, intr, tm')), fs_runnable := fs_runnable s - {t}\<rparr>)"
proof -
  have f: "f = fs_fence s" "\<not> signaled_bit f" "0 < tm'" using w by (auto simp: default_wait_turn_def Let_def split: if_splits)
  then show ?thesis using inv_partsD [OF inv] inv_waiters [OF inv] inv_waiters [OF inv sl]
    by (intro fence_invI) (auto split: if_splits)
qed

lemma fence_step_inv: "fence_step s e s' \<Longrightarrow> fence_inv s \<Longrightarrow> fence_inv s'"
proof (induction rule: fence_step.induct)
  case (fs_signal s ts r f cs)
  then show ?case using inv_deliver signal_keeps by (fastforce simp: dma_fence_signal_timestamp_def split: prod.splits)
next
  case (fs_add c s hook n now r f cs)
  then show ?case using add_inv by blast
next
  case (fs_remove c s b f)
  show ?case
  proof (cases "linked (fs_fence s) c")
    case True
    then show ?thesis using fs_remove inv_unlinked by (auto simp: dma_fence_remove_callback_def)
  qed (use fs_remove in \<open>auto simp: dma_fence_remove_callback_def\<close>)
next
  case (fs_enable hook s now f cs)
  then show ?case using inv_deliver enable_sw_keeps by blast
next
  case (fs_status peek s now st f cs)
  then show ?case using inv_deliver status_keeps by blast
next
  case (fs_error s e)
  then show ?case using inv_deliver [of s "dma_fence_set_error (fs_fence s) e" "[]"]
    by (simp add: dma_fence_set_error_def keeps_or_signals_def)
next
  case (fs_wait_done s t hook intr timeout sigpending c now ret f cs)
  then show ?case using inv_deliver wait_done_keeps by blast
next
  case (fs_wait_sleep s t c hook intr timeout sigpending now tm f cs)
  then show ?case using wait_sleep_inv by blast
next
  case (fs_turn_done s t c intr tm slept sigpending ret f)
  then show ?case using turn_done_inv by blast
next
  case (fs_turn_again s t c intr tm slept sigpending tm' f)
  then show ?case using turn_again_inv by blast
qed auto

interpretation fence_sys: inv_system fence_start fence_step fence_inv
  by unfold_locales (auto intro: fence_start_inv fence_step_inv)

end
