(* ===== verification/Sync_Timeline.thy ===== *)
theory Sync_Timeline
  imports Dma_Fence "HOL-Library.Tree"
begin

text \<open>
  Software timelines (\<open>drivers/dma-buf/sw_sync.c\<close>, \<open>sync_debug.h\<close>): a timeline is a counter of 32 bits that wraps; a fence
  on it has a number and is signaled when the counter passes the number.  The fences that are not signaled are in a
  list, ordered by number, and in a search tree.

  A \<open>sync_pt\<close> is named by its address, and the tree and the list hold addresses.  The balanced trees of the kernel's
  library are the record \<open>rb_lib\<close>.  A function result \<open>None\<close> is a deadlock: taking the lock of the timeline while it is
  held by the same thread.  A user's callback \<open>UserFunc n\<close> drops \<open>n\<close> references of the fence.
\<close>

section \<open>Data\<close>

record rb_lib =
  rb_insert_color :: "nat tree \<Rightarrow> nat tree"
  rb_erase :: "nat \<Rightarrow> nat tree \<Rightarrow> nat tree"

record sync_timeline =
  tl_kref :: nat
  tl_context :: u64
  tl_value :: u32
  pt_tree :: "nat tree"
  pt_list :: "nat list"

record sync_state =
  sw_tl :: sync_timeline
  sw_pt :: "nat \<Rightarrow> dma_fence option"

definition INT_MAX :: u32 where "INT_MAX = 0x7FFFFFFF"

section \<open>Timelines\<close>

definition sync_timeline_create :: "u64 \<Rightarrow> sync_timeline \<times> u64" where
  "sync_timeline_create counter =
     (let (context, counter1) = dma_fence_context_alloc 1 counter
      in (\<lparr>tl_kref = 1, tl_context = context, tl_value = 0, pt_tree = Leaf, pt_list = []\<rparr>, counter1))"

definition sync_timeline_get :: "sync_timeline \<Rightarrow> sync_timeline" where
  "sync_timeline_get obj = obj\<lparr>tl_kref := tl_kref obj + 1\<rparr>"

text \<open>A timeline without references is gone.\<close>

definition sync_timeline_put :: "sync_timeline \<Rightarrow> sync_timeline" where
  "sync_timeline_put obj = obj\<lparr>tl_kref := tl_kref obj - 1\<rparr>"

text \<open>The value is an \<open>int\<close> that is converted to 64 bits.\<close>

definition timeline_fence_signaled :: "sync_timeline \<Rightarrow> dma_fence \<Rightarrow> bool" where
  "timeline_fence_signaled obj f = (\<not> is_later False (fence_seqno f) (scast (tl_value obj)))"

definition timeline_fence_enable_signaling :: "bool option" where
  "timeline_fence_enable_signaling = Some True"

definition unlink_pt :: "rb_lib \<Rightarrow> nat \<Rightarrow> sync_timeline \<Rightarrow> sync_timeline" where
  "unlink_pt lib pt obj = obj\<lparr>pt_list := remove1 pt (pt_list obj), pt_tree := rb_erase lib pt (pt_tree obj)\<rparr>"

definition timeline_fence_release :: "rb_lib \<Rightarrow> bool \<Rightarrow> nat \<Rightarrow> sync_state \<Rightarrow> sync_state option" where
  "timeline_fence_release lib lock_held pt st =
     (if lock_held then None
      else
        let obj = (if pt \<in> set (pt_list (sw_tl st)) then unlink_pt lib pt (sw_tl st) else sw_tl st)
        in Some (st\<lparr>sw_tl := sync_timeline_put obj, sw_pt := (sw_pt st)(pt := None)\<rparr>))"

section \<open>Signaling\<close>

definition cb_puts :: "dma_fence_cb \<Rightarrow> nat" where
  "cb_puts cb = (case snd cb of WakeTask t \<Rightarrow> 0 | UserFunc n \<Rightarrow> n)"

text \<open>
  \<open>dma_fence_signal_locked\<close> on a fence of the timeline, with the lock of the timeline held: when a callback drops the
  last reference the fence is released right there.
\<close>

definition signal_pt :: "rb_lib \<Rightarrow> int \<Rightarrow> nat \<Rightarrow> dma_fence \<Rightarrow> sync_state \<Rightarrow> (sync_state \<times> dma_fence_cb list) option" where
  "signal_pt lib now pt f st =
     (let (r, f1, called) = dma_fence_signal_locked f now; puts = sum_list (map cb_puts called)
      in if puts > 0 \<and> puts \<ge> refcount f1
         then map_option (\<lambda>st1. (st1, called)) (timeline_fence_release lib True pt st)
         else Some (st\<lparr>sw_pt := (sw_pt st)(pt \<mapsto> f1\<lparr>refcount := refcount f1 - puts\<rparr>)\<rparr>, called))"

fun signal_loop :: "rb_lib \<Rightarrow> int \<Rightarrow> nat list \<Rightarrow> sync_state \<Rightarrow> (sync_state \<times> dma_fence_cb list) option" where
  "signal_loop lib now [] st = Some (st, [])"
| "signal_loop lib now (pt # next) st =
     (case sw_pt st pt of
        None \<Rightarrow> Some (st, [])
      | Some f \<Rightarrow>
          if \<not> timeline_fence_signaled (sw_tl st) f then Some (st, [])
          else (case signal_pt lib now pt f (st\<lparr>sw_tl := unlink_pt lib pt (sw_tl st)\<rparr>) of
                  None \<Rightarrow> None
                | Some (st1, c1) \<Rightarrow>
                    (case signal_loop lib now next st1 of None \<Rightarrow> None | Some (st2, c2) \<Rightarrow> Some (st2, c1 @ c2))))"

definition sync_timeline_signal :: "rb_lib \<Rightarrow> int \<Rightarrow> u32 \<Rightarrow> sync_state \<Rightarrow> (sync_state \<times> dma_fence_cb list) option" where
  "sync_timeline_signal lib now inc st =
     (let st1 = st\<lparr>sw_tl := (sw_tl st)\<lparr>tl_value := tl_value (sw_tl st) + inc\<rparr>\<rparr>
      in signal_loop lib now (pt_list (sw_tl st1)) st1)"

section \<open>Creating a fence\<close>

text \<open>
  The descent in the tree: \<open>Inl\<close> is a fence of the same number of which a reference could be taken, \<open>Inr\<close> the tree with
  the new node at its place.  The difference is taken in 64 bits and kept in an \<open>int\<close>.
\<close>

fun pt_descend :: "(nat \<Rightarrow> dma_fence option) \<Rightarrow> u32 \<Rightarrow> nat \<Rightarrow> nat tree \<Rightarrow> nat + nat tree" where
  "pt_descend fs val new Leaf = Inr (Node Leaf new Leaf)"
| "pt_descend fs val new (Node l pt r) =
     (let f = the (fs pt); cmp = sint (ucast (ucast val - fence_seqno f) :: u32)
      in if cmp > 0 then (case pt_descend fs val new r of Inl q \<Rightarrow> Inl q | Inr r' \<Rightarrow> Inr (Node l pt r'))
         else if cmp < 0 then (case pt_descend fs val new l of Inl q \<Rightarrow> Inl q | Inr l' \<Rightarrow> Inr (Node l' pt r))
         else if dma_fence_get_rcu f \<noteq> None then Inl pt
         else (case pt_descend fs val new l of Inl q \<Rightarrow> Inl q | Inr l' \<Rightarrow> Inr (Node l' pt r)))"

text \<open>The successor in the order of the tree, and insertion before an element of a list, \<open>list_add_tail\<close>.\<close>

fun rb_next :: "nat \<Rightarrow> nat list \<Rightarrow> nat option" where
  "rb_next x [] = None"
| "rb_next x (y # ys) = (if x = y then (case ys of [] \<Rightarrow> None | z # zs \<Rightarrow> Some z) else rb_next x ys)"

fun list_add_before :: "nat \<Rightarrow> nat option \<Rightarrow> nat list \<Rightarrow> nat list" where
  "list_add_before x at [] = [x]"
| "list_add_before x at (y # ys) = (if at = Some y then x # y # ys else y # list_add_before x at ys)"

definition sync_pt_create :: "rb_lib \<Rightarrow> bool \<Rightarrow> nat \<Rightarrow> u32 \<Rightarrow> int \<Rightarrow> sync_state \<Rightarrow> nat option \<times> sync_state" where
  "sync_pt_create lib alloc_ok new val now st =
     (if \<not> alloc_ok then (None, st)
      else
        let obj = sync_timeline_get (sw_tl st);
            f = dma_fence_init (tl_context obj) (ucast val);
            (signaled, f1, called) = dma_fence_is_signaled_locked (Some (timeline_fence_signaled obj f)) f now
        in if signaled then (Some new, st\<lparr>sw_tl := obj, sw_pt := (sw_pt st)(new \<mapsto> f1)\<rparr>)
           else case pt_descend (sw_pt st) val new (pt_tree obj) of
             Inl other \<Rightarrow> (Some other, st\<lparr>sw_tl := sync_timeline_put obj,
                 sw_pt := (sw_pt st)(other := dma_fence_get_rcu (the (sw_pt st other)))\<rparr>)
           | Inr t \<Rightarrow>
               let t1 = rb_insert_color lib t
               in (Some new, st\<lparr>sw_tl := obj\<lparr>pt_tree := t1, pt_list := list_add_before new (rb_next new (inorder t1)) (pt_list obj)\<rparr>,
                     sw_pt := (sw_pt st)(new \<mapsto> f1)\<rparr>))"

section \<open>References of a fence\<close>

definition pt_get :: "nat \<Rightarrow> sync_state \<Rightarrow> sync_state" where
  "pt_get pt st = st\<lparr>sw_pt := (sw_pt st)(pt := dma_fence_get (sw_pt st pt))\<rparr>"

text \<open>Dropping a reference, and what follows when it was the last: \<open>dma_fence_release\<close> with the hook of the timeline.\<close>

definition pt_put_ref :: "nat \<Rightarrow> sync_state \<Rightarrow> sync_state" where
  "pt_put_ref pt st = st\<lparr>sw_pt := (sw_pt st)(pt := map_option (\<lambda>f. f\<lparr>refcount := refcount f - 1\<rparr>) (sw_pt st pt))\<rparr>"

definition pt_release :: "rb_lib \<Rightarrow> bool \<Rightarrow> int \<Rightarrow> nat \<Rightarrow> sync_state \<Rightarrow> (sync_state \<times> dma_fence_cb list) option" where
  "pt_release lib lock_held now pt st =
     (let (f1, called) = dma_fence_release (the (sw_pt st pt)) now
      in map_option (\<lambda>st1. (st1, called)) (timeline_fence_release lib lock_held pt (st\<lparr>sw_pt := (sw_pt st)(pt \<mapsto> f1)\<rparr>)))"

definition pt_put :: "rb_lib \<Rightarrow> bool \<Rightarrow> int \<Rightarrow> nat \<Rightarrow> sync_state \<Rightarrow> (sync_state \<times> dma_fence_cb list) option" where
  "pt_put lib lock_held now pt st =
     (let st1 = pt_put_ref pt st
      in if refcount (the (sw_pt st1 pt)) = 0 then pt_release lib lock_held now pt st1 else Some (st1, []))"

section \<open>The file of a timeline\<close>

definition sw_sync_debugfs_open :: "u64 \<Rightarrow> bool \<Rightarrow> errno + sync_state" where
  "sw_sync_debugfs_open counter alloc_ok =
     (if \<not> alloc_ok then Inl ENOMEM else Inr \<lparr>sw_tl = fst (sync_timeline_create counter), sw_pt = (\<lambda>_. None)\<rparr>)"

fun release_loop :: "rb_lib \<Rightarrow> int \<Rightarrow> nat list \<Rightarrow> sync_state \<Rightarrow> (sync_state \<times> dma_fence_cb list) option" where
  "release_loop lib now [] st = Some (st, [])"
| "release_loop lib now (pt # next) st =
     (case sw_pt st pt of
        None \<Rightarrow> Some (st, [])
      | Some f \<Rightarrow>
          (case signal_pt lib now pt (dma_fence_set_error f (- 2)) st of
             None \<Rightarrow> None
           | Some (st1, c1) \<Rightarrow>
               (case release_loop lib now next st1 of None \<Rightarrow> None | Some (st2, c2) \<Rightarrow> Some (st2, c1 @ c2))))"

definition sw_sync_debugfs_release :: "rb_lib \<Rightarrow> int \<Rightarrow> sync_state \<Rightarrow> (sync_state \<times> dma_fence_cb list) option" where
  "sw_sync_debugfs_release lib now st =
     map_option (\<lambda>(st1, called). (st1\<lparr>sw_tl := sync_timeline_put (sw_tl st1)\<rparr>, called))
       (release_loop lib now (pt_list (sw_tl st)) st)"

text \<open>
  Making a fence and a file for it: \<open>fd\<close> is the descriptor or an error, \<open>copy_in\<close> and \<open>copy_out\<close> say what the copies
  from and to the user do, and \<open>file_ok\<close> whether \<open>sync_file_create\<close> succeeds, which takes a reference then.  The
  negative error numbers are returned.
\<close>

definition sw_sync_ioctl_create_fence ::
    "rb_lib \<Rightarrow> int \<Rightarrow> int \<Rightarrow> u32 option \<Rightarrow> bool \<Rightarrow> nat \<Rightarrow> bool \<Rightarrow> bool \<Rightarrow> sync_state \<Rightarrow> (int \<times> sync_state) option" where
  "sw_sync_ioctl_create_fence lib now fd copy_in alloc_ok new file_ok copy_out st =
     (if fd < 0 then Some (fd, st)
      else case copy_in of
        None \<Rightarrow> Some (- 14, st)
      | Some val \<Rightarrow>
          (case sync_pt_create lib alloc_ok new val now st of
             (None, st1) \<Rightarrow> Some (- 12, st1)
           | (Some pt, st1) \<Rightarrow>
               (case pt_put lib False now pt (if file_ok then pt_get pt st1 else st1) of
                  None \<Rightarrow> None
                | Some (st2, called) \<Rightarrow>
                    if \<not> file_ok then Some (- 12, st2)
                    else if \<not> copy_out then map_option (\<lambda>(st3, called). (- 14, st3)) (pt_put lib False now pt st2)
                    else Some (0, st2))))"

text \<open>Large increments are split so that the counter does not pass half of its range at once.\<close>

function inc_loop :: "rb_lib \<Rightarrow> int \<Rightarrow> u32 \<Rightarrow> sync_state \<Rightarrow> (sync_state \<times> dma_fence_cb list) option" where
  "inc_loop lib now val st =
     (if val > INT_MAX
      then case sync_timeline_signal lib now INT_MAX st of
             None \<Rightarrow> None
           | Some (st1, c1) \<Rightarrow> map_option (\<lambda>(st2, c2). (st2, c1 @ c2)) (inc_loop lib now (val - INT_MAX) st1)
      else sync_timeline_signal lib now val st)"
  by pat_completeness auto
termination
  by (relation "measure (\<lambda>(lib, now, val, st). unat val)") (auto simp: INT_MAX_def word_less_nat_alt unat_sub word_le_nat_alt)

declare inc_loop.simps [simp del]

definition sw_sync_ioctl_inc ::
    "rb_lib \<Rightarrow> int \<Rightarrow> u32 option \<Rightarrow> sync_state \<Rightarrow> (errno option \<times> sync_state \<times> dma_fence_cb list) option" where
  "sw_sync_ioctl_inc lib now copy_in st =
     (case copy_in of
        None \<Rightarrow> Some (Some EFAULT, st, [])
      | Some val \<Rightarrow> map_option (\<lambda>(st1, called). (None, st1, called)) (inc_loop lib now val st))"

datatype sw_sync_cmd = SW_SYNC_IOC_CREATE_FENCE | SW_SYNC_IOC_INC | SwSyncOther int

text \<open>
  The result is the return value, with negative error numbers.  \<open>copy_in\<close> is the number that both commands read from
  the user; the other arguments are those of \<open>sw_sync_ioctl_create_fence\<close>.
\<close>

definition sw_sync_ioctl ::
    "rb_lib \<Rightarrow> int \<Rightarrow> sw_sync_cmd \<Rightarrow> int \<Rightarrow> u32 option \<Rightarrow> bool \<Rightarrow> nat \<Rightarrow> bool \<Rightarrow> bool \<Rightarrow> sync_state \<Rightarrow> (int \<times> sync_state) option" where
  "sw_sync_ioctl lib now cmd fd copy_in alloc_ok new file_ok copy_out st =
     (case cmd of
        SW_SYNC_IOC_CREATE_FENCE \<Rightarrow> sw_sync_ioctl_create_fence lib now fd copy_in alloc_ok new file_ok copy_out st
      | SW_SYNC_IOC_INC \<Rightarrow>
          map_option (\<lambda>(r, st1, called). (case r of None \<Rightarrow> 0 | Some e \<Rightarrow> - 14, st1)) (sw_sync_ioctl_inc lib now copy_in st)
      | SwSyncOther n \<Rightarrow> Some (- 25, st))"

end
