(* ===== verification/Sync_Inv.thy ===== *)
theory Sync_Inv
  imports Sync_Timeline
begin

text \<open>
  A timeline as a transition system: its file creates fences and advances the counter until it is closed, holders of
  references get, drop, watch and release fences.  The invariant \<open>sync_inv\<close> says what the list and the tree
  hold; closed forms of the signaling loops and of the descent in the tree carry its proof.
\<close>

section \<open>Distances\<close>

lemma ucast_scast_word: "ucast (scast v :: u64) = (v :: u32)"
  by (rule bit_word_eqI) (auto simp: bit_simps)

lemma ucast_ucast_word: "ucast (ucast v :: u64) = (v :: u32)"
  by (rule bit_word_eqI) (auto simp: bit_simps)

lemma ucast_minus_word: "(ucast (x - y :: u64) :: u32) = ucast x - ucast y"
proof transfer
  fix x y :: int
  have "take_bit 32 (take_bit 64 x - take_bit 64 y) = take_bit 32 (take_bit 32 (take_bit 64 x) - take_bit 32 (take_bit 64 y))"
    by (rule take_bit_diff [symmetric])
  also have "\<dots> = take_bit 32 (take_bit 32 x - take_bit 32 y)" by simp
  also have "\<dots> = take_bit 32 (x - y)" by (rule take_bit_diff)
  finally show "take_bit LENGTH(32) (take_bit LENGTH(64) (x - y)) = take_bit LENGTH(32) (take_bit LENGTH(64) x - take_bit LENGTH(64) y)"
    by simp
qed

lemma sint_bounds32: "- (2 ^ 31) \<le> sint w" "sint w < 2 ^ 31" for w :: u32
  using sint_ge [of w] sint_lt [of w] by simp_all

lemma sint_diff32:
  fixes a b :: u32
  assumes "- (2 ^ 31) \<le> sint a - sint b" "sint a - sint b < 2 ^ 31"
  shows "sint (a - b) = sint a - sint b"
  using assms by (simp add: sint_word_ariths signed_take_bit_int_eq_self)

lemma sint_small:
  assumes "w \<le> INT_MAX"
  shows "sint w = uint w"
proof -
  have "uint w \<le> 2147483647" using assms by (simp add: INT_MAX_def word_le_def)
  moreover have "- 2147483648 \<le> uint w" using uint_ge_0 [of w] by linarith
  ultimately show ?thesis by (simp add: sint_uint signed_take_bit_int_eq_self)
qed

text \<open>How far the counter has to go until it reaches a fence.\<close>

definition seq_dist :: "u32 \<Rightarrow> dma_fence \<Rightarrow> int" where
  "seq_dist v f = sint ((ucast (fence_seqno f) :: u32) - v)"

abbreviation pt_dist :: "sync_state \<Rightarrow> nat \<Rightarrow> int" where
  "pt_dist st pt \<equiv> seq_dist (tl_value (sw_tl st)) (the (sw_pt st pt))"

lemma timeline_signaled_iff: "timeline_fence_signaled obj f \<longleftrightarrow> seq_dist (tl_value obj) f \<le> 0"
  by (auto simp: timeline_fence_signaled_def is_later_def ucast_scast_word seq_dist_def)

lemma seq_dist_less: "seq_dist v f < 2 ^ 31"
  unfolding seq_dist_def by (rule sint_bounds32)

text \<open>While the fence is ahead, advancing the counter by at most \<open>INT_MAX\<close> brings it nearer by this amount.\<close>

lemma seq_dist_advance:
  assumes "0 < seq_dist v f" and "inc \<le> INT_MAX"
  shows "seq_dist (v + inc) f = seq_dist v f - uint inc"
proof -
  have i: "uint inc < 2147483648" "0 \<le> uint inc" "sint inc = uint inc"
    using assms(2) uint_ge_0 [of inc] by (simp_all add: INT_MAX_def word_le_def sint_small)
  have d: "0 < sint ((ucast (fence_seqno f) :: u32) - v)" "sint ((ucast (fence_seqno f) :: u32) - v) < 2147483648"
    using assms(1) sint_bounds32(2) [of "ucast (fence_seqno f) - v"] by (simp_all add: seq_dist_def)
  have "- 2147483648 \<le> sint ((ucast (fence_seqno f) :: u32) - v) - sint inc" "sint ((ucast (fence_seqno f) :: u32) - v) - sint inc < 2147483648"
    using i d by linarith+
  then have "sint ((ucast (fence_seqno f) :: u32) - v - inc) = sint ((ucast (fence_seqno f) :: u32) - v) - sint inc"
    by (intro sint_diff32) simp_all
  then show ?thesis using i(3) by (simp add: seq_dist_def diff_diff_eq)
qed

text \<open>The comparison of the descent in the tree compares distances.\<close>

lemma cmp_dist:
  fixes val :: u32
  assumes "0 < seq_dist v f" and "0 < sint (val - v)"
  shows "sint (ucast (ucast val - fence_seqno f) :: u32) = sint (val - v) - seq_dist v f"
proof -
  have "(ucast (ucast val - fence_seqno f) :: u32) = (val - v) - (ucast (fence_seqno f) - v)"
    by (simp add: ucast_minus_word ucast_ucast_word)
  moreover have "sint ((val - v) - (ucast (fence_seqno f) - v)) = sint (val - v) - sint (ucast (fence_seqno f) - v :: u32)"
    using assms sint_bounds32(2) [of "val - v"] sint_bounds32(2) [of "ucast (fence_seqno f) - v"]
    by (intro sint_diff32) (auto simp: seq_dist_def)
  ultimately show ?thesis by (simp add: seq_dist_def)
qed

section \<open>Closed form of the signaling loop\<close>

definition cb_total :: "dma_fence \<Rightarrow> nat" where
  "cb_total f = sum_list (map cb_puts (cb_list f))"

text \<open>The callbacks of the fence drop its last reference.\<close>

definition last_put :: "dma_fence \<Rightarrow> bool" where
  "last_put f \<longleftrightarrow> \<not> signaled_bit f \<and> 0 < cb_total f \<and> refcount f \<le> cb_total f"

definition after_signal :: "int \<Rightarrow> dma_fence \<Rightarrow> dma_fence" where
  "after_signal now f =
     (if signaled_bit f then f
      else f\<lparr>signaled_bit := True, cb_list := [], timestamp := now, timestamp_bit := True, refcount := refcount f - cb_total f\<rparr>)"

definition pending_cbs :: "dma_fence \<Rightarrow> dma_fence_cb list" where
  "pending_cbs f = (if signaled_bit f then [] else cb_list f)"

lemma after_signal_simps [simp]:
  "signaled_bit (after_signal now f)"
  "fence_seqno (after_signal now f) = fence_seqno f"
  "seq_dist v (after_signal now f) = seq_dist v f"
  "pending_cbs (after_signal now f) = []"
  "\<not> last_put (after_signal now f)"
  by (simp_all add: after_signal_def seq_dist_def pending_cbs_def last_put_def)

lemma after_signal_dead: "\<not> last_put f \<Longrightarrow> refcount (after_signal now f) = 0 \<longleftrightarrow> refcount f = 0"
  by (auto simp: after_signal_def last_put_def)

lemma signal_pt_eq:
  "signal_pt lib now pt f st =
     (if last_put f then None else Some (st\<lparr>sw_pt := (sw_pt st)(pt \<mapsto> after_signal now f)\<rparr>, pending_cbs f))"
proof (cases "signaled_bit f")
  case True
  then show ?thesis
    by (simp add: signal_pt_def dma_fence_signal_locked_def dma_fence_signal_timestamp_locked_def last_put_def
        after_signal_def pending_cbs_def)
next
  case False
  then show ?thesis
    by (simp add: signal_pt_def dma_fence_signal_locked_def dma_fence_signal_timestamp_locked_def last_put_def
        after_signal_def pending_cbs_def timeline_fence_release_def Let_def flip: cb_total_def)
qed
text \<open>What the loops do to the fences of a list, and to the list and the tree.\<close>

definition signal_all :: "int \<Rightarrow> (dma_fence \<Rightarrow> dma_fence) \<Rightarrow> nat list \<Rightarrow> (nat \<Rightarrow> dma_fence option) \<Rightarrow> nat \<Rightarrow> dma_fence option" where
  "signal_all now g pts fs p = (if p \<in> set pts then map_option (\<lambda>f. after_signal now (g f)) (fs p) else fs p)"

definition all_cbs :: "(nat \<Rightarrow> dma_fence option) \<Rightarrow> nat list \<Rightarrow> dma_fence_cb list" where
  "all_cbs fs pts = concat (map (\<lambda>p. pending_cbs (the (fs p))) pts)"

definition due :: "sync_state \<Rightarrow> nat list \<Rightarrow> nat list" where
  "due st pts = takeWhile (\<lambda>p. pt_dist st p \<le> 0) pts"

lemma unlink_pt_fields [simp]:
  "tl_value (unlink_pt lib pt obj) = tl_value obj" "tl_kref (unlink_pt lib pt obj) = tl_kref obj"
  "tl_context (unlink_pt lib pt obj) = tl_context obj"
  by (simp_all add: unlink_pt_def)

lemma takeWhile_cong_set: "(\<And>x. x \<in> set xs \<Longrightarrow> P x = Q x) \<Longrightarrow> takeWhile P xs = takeWhile Q xs"
  by (induction xs) auto

lemma all_cbs_cong: "(\<And>p. p \<in> set pts \<Longrightarrow> fs p = fs' p) \<Longrightarrow> all_cbs fs pts = all_cbs fs' pts"
  unfolding all_cbs_def by (auto intro: arg_cong [of _ _ concat])

lemma signal_loop_eq:
  assumes "distinct pts" and "\<And>p. p \<in> set pts \<Longrightarrow> sw_pt st p \<noteq> None"
  shows "signal_loop lib now pts st =
     (if \<exists>p\<in>set (due st pts). last_put (the (sw_pt st p)) then None
      else Some (st\<lparr>sw_tl := fold (unlink_pt lib) (due st pts) (sw_tl st), sw_pt := signal_all now (\<lambda>f. f) (due st pts) (sw_pt st)\<rparr>,
                 all_cbs (sw_pt st) (due st pts)))"
  using assms
proof (induction pts arbitrary: st)
  case Nil
  then show ?case by (simp add: due_def signal_all_def [abs_def] all_cbs_def)
next
  case (Cons p pts)
  obtain f where f: "sw_pt st p = Some f" using Cons.prems(2) [of p] by auto
  show ?case
  proof (cases "timeline_fence_signaled (sw_tl st) f \<and> \<not> last_put f")
    case False
    then show ?thesis
      by (auto simp: f due_def signal_pt_eq timeline_signaled_iff signal_all_def [abs_def] all_cbs_def)
  next
    case True
    let ?st = "st\<lparr>sw_tl := unlink_pt lib p (sw_tl st), sw_pt := (sw_pt st)(p \<mapsto> after_signal now f)\<rparr>"
    have fresh: "p \<notin> set pts" using Cons.prems(1) by simp
    then have "due ?st pts = due st pts" unfolding due_def by (intro takeWhile_cong_set) auto
    then have d: "due st (p # pts) = p # due ?st pts" using True f by (simp add: due_def timeline_signaled_iff)
    have sub: "set (due ?st pts) \<subseteq> set pts" by (auto simp: due_def dest: set_takeWhileD)
    have same: "sw_pt ?st q = sw_pt st q" if "q \<in> set (due ?st pts)" for q using that sub fresh by auto
    have lp: "(\<exists>q\<in>set (due ?st pts). last_put (the (sw_pt ?st q))) = (\<exists>q\<in>set (due st (p # pts)). last_put (the (sw_pt st q)))"
      using True same f unfolding d by auto
    have sa: "signal_all now (\<lambda>f. f) (due ?st pts) (sw_pt ?st) = signal_all now (\<lambda>f. f) (due st (p # pts)) (sw_pt st)"
      using sub fresh f unfolding d by (auto simp: signal_all_def fun_eq_iff)
    have cb: "pending_cbs f @ all_cbs (sw_pt ?st) (due ?st pts) = all_cbs (sw_pt st) (due st (p # pts))"
      using all_cbs_cong [OF same] f unfolding d by (simp add: all_cbs_def)
    have "signal_loop lib now (p # pts) st =
        (case signal_loop lib now pts ?st of None \<Rightarrow> None | Some (st2, c2) \<Rightarrow> Some (st2, pending_cbs f @ c2))"
      using True f by (simp add: signal_pt_eq)
    also have "signal_loop lib now pts ?st =
       (if \<exists>q\<in>set (due ?st pts). last_put (the (sw_pt ?st q)) then None
        else Some (?st\<lparr>sw_tl := fold (unlink_pt lib) (due ?st pts) (sw_tl ?st), sw_pt := signal_all now (\<lambda>f. f) (due ?st pts) (sw_pt ?st)\<rparr>,
                   all_cbs (sw_pt ?st) (due ?st pts)))"
      using Cons.prems fresh by (intro Cons.IH) auto
    finally show ?thesis using lp sa cb d by simp
  qed
qed
lemma set_error_simps [simp]:
  "last_put (dma_fence_set_error f e) = last_put f" "pending_cbs (dma_fence_set_error f e) = pending_cbs f"
  "signaled_bit (dma_fence_set_error f e) = signaled_bit f" "refcount (dma_fence_set_error f e) = refcount f"
  by (simp_all add: dma_fence_set_error_def last_put_def cb_total_def pending_cbs_def)

lemma release_loop_eq:
  assumes "distinct pts" and "\<And>p. p \<in> set pts \<Longrightarrow> sw_pt st p \<noteq> None"
  shows "release_loop lib now pts st =
     (if \<exists>p\<in>set pts. last_put (the (sw_pt st p)) then None
      else Some (st\<lparr>sw_pt := signal_all now (\<lambda>f. dma_fence_set_error f (- 2)) pts (sw_pt st)\<rparr>, all_cbs (sw_pt st) pts))"
  using assms
proof (induction pts arbitrary: st)
  case Nil
  then show ?case by (simp add: signal_all_def [abs_def] all_cbs_def)
next
  case (Cons p pts)
  obtain f where f: "sw_pt st p = Some f" using Cons.prems(2) [of p] by auto
  show ?case
  proof (cases "last_put f")
    case True
    then show ?thesis by (simp add: f signal_pt_eq)
  next
    case False
    let ?g = "\<lambda>f. dma_fence_set_error f (- 2)"
    let ?st = "st\<lparr>sw_pt := (sw_pt st)(p \<mapsto> after_signal now (?g f))\<rparr>"
    have fresh: "p \<notin> set pts" using Cons.prems(1) by simp
    then have same: "sw_pt ?st q = sw_pt st q" if "q \<in> set pts" for q using that by auto
    have lp: "(\<exists>q\<in>set pts. last_put (the (sw_pt ?st q))) = (\<exists>q\<in>set (p # pts). last_put (the (sw_pt st q)))"
      using False same f by auto
    have sa: "signal_all now ?g pts (sw_pt ?st) = signal_all now ?g (p # pts) (sw_pt st)"
      using fresh f by (auto simp: signal_all_def fun_eq_iff)
    have cb: "pending_cbs f @ all_cbs (sw_pt ?st) pts = all_cbs (sw_pt st) (p # pts)"
      using all_cbs_cong [OF same] f by (simp add: all_cbs_def)
    have "release_loop lib now (p # pts) st =
        (case release_loop lib now pts ?st of None \<Rightarrow> None | Some (st2, c2) \<Rightarrow> Some (st2, pending_cbs f @ c2))"
      using False f by (simp add: signal_pt_eq)
    also have "release_loop lib now pts ?st =
       (if \<exists>q\<in>set pts. last_put (the (sw_pt ?st q)) then None
        else Some (?st\<lparr>sw_pt := signal_all now ?g pts (sw_pt ?st)\<rparr>, all_cbs (sw_pt ?st) pts))"
      using Cons.prems fresh by (intro Cons.IH) auto
    finally show ?thesis using lp sa cb by simp
  qed
qed

section \<open>The tree and the list\<close>

text \<open>What the code relies on from the balanced trees of the kernel: they keep the order of the nodes.\<close>

definition rb_lib_ok :: "rb_lib \<Rightarrow> bool" where
  "rb_lib_ok lib \<longleftrightarrow>
     (\<forall>t. inorder (rb_insert_color lib t) = inorder t) \<and> (\<forall>x t. inorder (rb_erase lib x t) = remove1 x (inorder t))"

lemma unlink_order:
  "rb_lib_ok lib \<Longrightarrow> inorder (pt_tree obj) = pt_list obj \<Longrightarrow>
   inorder (pt_tree (unlink_pt lib pt obj)) = pt_list (unlink_pt lib pt obj) \<and> pt_list (unlink_pt lib pt obj) = remove1 pt (pt_list obj)"
  by (simp add: unlink_pt_def rb_lib_ok_def)

lemma fold_unlink_order:
  "rb_lib_ok lib \<Longrightarrow> inorder (pt_tree obj) = pt_list obj \<Longrightarrow>
   inorder (pt_tree (fold (unlink_pt lib) ps obj)) = pt_list (fold (unlink_pt lib) ps obj) \<and>
   pt_list (fold (unlink_pt lib) ps obj) = fold remove1 ps (pt_list obj)"
  by (induction ps arbitrary: obj) (use unlink_order in auto)

lemma fold_unlink_fields [simp]:
  "tl_value (fold (unlink_pt lib) ps obj) = tl_value obj" "tl_kref (fold (unlink_pt lib) ps obj) = tl_kref obj"
  by (induction ps arbitrary: obj) simp_all

lemma fold_remove1_takeWhile: "fold remove1 (takeWhile P xs) xs = dropWhile P xs"
  by (induction xs) auto

text \<open>A predicate that holds up to some point of a list and not afterwards.\<close>

lemma takeWhile_filter: "sorted_wrt (\<lambda>a b. P b \<longrightarrow> P a) xs \<Longrightarrow> takeWhile P xs = filter P xs \<and> dropWhile P xs = filter (\<lambda>x. \<not> P x) xs"
proof (induction xs)
  case (Cons x xs)
  then have "\<not> P x \<Longrightarrow> filter P xs = [] \<and> filter (\<lambda>x. \<not> P x) xs = xs" by (auto simp: filter_empty_conv)
  then show ?case using Cons by auto
qed simp

lemma list_add_before_mid:
  "distinct (xs @ new # ys) \<Longrightarrow> list_add_before new (rb_next new (xs @ new # ys)) (xs @ ys) = xs @ new # ys"
proof (induction xs)
  case Nil
  then show ?case by (cases ys) auto
next
  case (Cons x xs)
  have "rb_next new (xs @ new # ys) \<noteq> Some x"
  proof -
    have "rb_next new (xs @ new # ys) = (case ys of [] \<Rightarrow> None | z # zs \<Rightarrow> Some z)" if "new \<notin> set xs" for xs
      using that by (induction xs) auto
    then show ?thesis using Cons.prems by (auto split: list.splits)
  qed
  then show ?case using Cons by auto
qed
section \<open>The descent in the tree\<close>

text \<open>Two fences in order: the second is farther, or as far but without references.\<close>

definition pt_less :: "(nat \<Rightarrow> int) \<Rightarrow> (nat \<Rightarrow> dma_fence option) \<Rightarrow> nat \<Rightarrow> nat \<Rightarrow> bool" where
  "pt_less key fs a b \<longleftrightarrow> key a < key b \<or> key a = key b \<and> refcount (the (fs b)) = 0"

lemma pt_less_mono: "pt_less key fs a b \<Longrightarrow> key a \<le> key b"
  by (auto simp: pt_less_def)

lemma descend_Inl:
  assumes "pt_descend fs val new t = Inl q"
    and "\<And>p. p \<in> set (inorder t) \<Longrightarrow> sint (ucast (ucast val - fence_seqno (the (fs p))) :: u32) = k - key p"
  shows "q \<in> set (inorder t) \<and> key q = k \<and> refcount (the (fs q)) \<noteq> 0"
  using assms
proof (induction t)
  case (Node l pt r)
  then show ?case
    by (auto simp: Let_def dma_fence_get_rcu_def split: if_splits sum.splits)
qed simp

lemma descend_Inr:
  assumes "pt_descend fs val new t = Inr t'"
    and "\<And>p. p \<in> set (inorder t) \<Longrightarrow> sint (ucast (ucast val - fence_seqno (the (fs p))) :: u32) = k - key p"
    and "sorted_wrt (pt_less key fs) (inorder t)"
  shows "\<exists>xs ys. inorder t = xs @ ys \<and> inorder t' = xs @ new # ys \<and> (\<forall>x\<in>set xs. key x < k) \<and>
           (\<forall>y\<in>set ys. k < key y \<or> key y = k \<and> refcount (the (fs y)) = 0)"
  using assms
proof (induction t arbitrary: t')
  case Leaf
  then show ?case by auto
next
  case (Node l pt r)
  have cmp: "sint (ucast (ucast val - fence_seqno (the (fs pt))) :: u32) = k - key pt" using Node.prems(2) by simp
  have sl: "sorted_wrt (pt_less key fs) (inorder l)" and sr: "sorted_wrt (pt_less key fs) (inorder r)"
    and lpt: "\<And>x. x \<in> set (inorder l) \<Longrightarrow> key x \<le> key pt" and ptr: "\<And>y. y \<in> set (inorder r) \<Longrightarrow> pt_less key fs pt y"
    using Node.prems(3) pt_less_mono by (auto simp: sorted_wrt_append)
  show ?case
  proof (cases "key pt < k")
    case True
    then obtain r' where d: "pt_descend fs val new r = Inr r'" "t' = Node l pt r'"
      using Node.prems(1) cmp by (auto simp: Let_def split: sum.splits)
    have "\<And>p. p \<in> set (inorder r) \<Longrightarrow> sint (ucast (ucast val - fence_seqno (the (fs p))) :: u32) = k - key p"
      using Node.prems(2) by simp
    from Node.IH(2) [OF d(1) this sr] obtain xs ys where e: "inorder r = xs @ ys" "inorder r' = xs @ new # ys"
      "\<forall>x\<in>set xs. key x < k" "\<forall>y\<in>set ys. k < key y \<or> key y = k \<and> refcount (the (fs y)) = 0" by blast
    show ?thesis
      by (rule exI [of _ "inorder l @ pt # xs"], rule exI [of _ ys]) (use d e True lpt in force)
  next
    case False
    then obtain l' where d: "pt_descend fs val new l = Inr l'" "t' = Node l' pt r"
      and dead: "k < key pt \<or> key pt = k \<and> refcount (the (fs pt)) = 0"
      using Node.prems(1) cmp by (auto simp: Let_def dma_fence_get_rcu_def split: sum.splits if_splits)
    have "\<And>p. p \<in> set (inorder l) \<Longrightarrow> sint (ucast (ucast val - fence_seqno (the (fs p))) :: u32) = k - key p"
      using Node.prems(2) by simp
    from Node.IH(1) [OF d(1) this sl] obtain xs ys where e: "inorder l = xs @ ys" "inorder l' = xs @ new # ys"
      "\<forall>x\<in>set xs. key x < k" "\<forall>y\<in>set ys. k < key y \<or> key y = k \<and> refcount (the (fs y)) = 0" by blast
    have "\<forall>y\<in>set (inorder r). k < key y \<or> key y = k \<and> refcount (the (fs y)) = 0"
      using ptr dead by (force simp: pt_less_def)
    then show ?thesis
      by (intro exI [of _ xs] exI [of _ "ys @ pt # inorder r"]) (use d e dead in auto)
  qed
qed

section \<open>The invariant\<close>

text \<open>\<open>open\<close> says whether the file of the timeline is open.\<close>

record sync_sys =
  ss_state :: sync_state
  ss_open :: bool

definition fences_ok :: "bool \<Rightarrow> sync_state \<Rightarrow> bool" where
  "fences_ok op st \<longleftrightarrow>
     (\<forall>pt f. sw_pt st pt = Some f \<longrightarrow>
        (signaled_bit f \<longrightarrow> cb_list f = []) \<and> (\<not> signaled_bit f \<longleftrightarrow> op \<and> pt \<in> set (pt_list (sw_tl st))))"

definition list_ok :: "sync_state \<Rightarrow> bool" where
  "list_ok st \<longleftrightarrow>
     inorder (pt_tree (sw_tl st)) = pt_list (sw_tl st) \<and> distinct (pt_list (sw_tl st)) \<and>
     (\<forall>pt\<in>set (pt_list (sw_tl st)). sw_pt st pt \<noteq> None)"

definition order_ok :: "sync_state \<Rightarrow> bool" where
  "order_ok st \<longleftrightarrow>
     (\<forall>pt\<in>set (pt_list (sw_tl st)). 0 < pt_dist st pt) \<and>
     sorted_wrt (pt_less (pt_dist st) (sw_pt st)) (pt_list (sw_tl st))"

definition kref_ok :: "bool \<Rightarrow> sync_state \<Rightarrow> bool" where
  "kref_ok op st \<longleftrightarrow> finite (dom (sw_pt st)) \<and> tl_kref (sw_tl st) = (if op then 1 else 0) + card (dom (sw_pt st))"

definition sync_inv :: "sync_sys \<Rightarrow> bool" where
  "sync_inv s \<longleftrightarrow>
     fences_ok (ss_open s) (ss_state s) \<and> list_ok (ss_state s) \<and> kref_ok (ss_open s) (ss_state s) \<and>
     (ss_open s \<longrightarrow> order_ok (ss_state s))"
section \<open>Every operation keeps the invariant\<close>

text \<open>Advancing the counter: which fences it reaches, and what is left.\<close>

definition reached :: "u32 \<Rightarrow> sync_state \<Rightarrow> nat list" where
  "reached inc st = filter (\<lambda>p. pt_dist st p \<le> uint inc) (pt_list (sw_tl st))"

definition advanced :: "rb_lib \<Rightarrow> int \<Rightarrow> u32 \<Rightarrow> sync_state \<Rightarrow> sync_state" where
  "advanced lib now inc st =
     \<lparr>sw_tl = fold (unlink_pt lib) (reached inc st) ((sw_tl st)\<lparr>tl_value := tl_value (sw_tl st) + inc\<rparr>),
      sw_pt = signal_all now (\<lambda>f. f) (reached inc st) (sw_pt st)\<rparr>"

lemma pt_less_rel_mono:
  "sorted_wrt (pt_less key fs) xs \<Longrightarrow>
   (\<And>x y. x \<in> set xs \<Longrightarrow> y \<in> set xs \<Longrightarrow> pt_less key fs x y \<Longrightarrow> R x y) \<Longrightarrow> sorted_wrt R xs"
  by (rule sorted_wrt_mono_rel)

lemma sorted_same:
  "sorted_wrt (pt_less (pt_dist st) (sw_pt st)) xs \<Longrightarrow> tl_value (sw_tl st') = tl_value (sw_tl st) \<Longrightarrow>
   (\<And>p. p \<in> set xs \<Longrightarrow> sw_pt st' p = sw_pt st p) \<Longrightarrow> sorted_wrt (pt_less (pt_dist st') (sw_pt st')) xs"
  by (erule pt_less_rel_mono) (simp add: pt_less_def)

lemma timeline_signal_eq:
  assumes l: "list_ok st" and o: "order_ok st" and inc: "inc \<le> INT_MAX"
  shows "sync_timeline_signal lib now inc st =
     (if \<exists>p\<in>set (reached inc st). last_put (the (sw_pt st p)) then None
      else Some (advanced lib now inc st, all_cbs (sw_pt st) (reached inc st)))"
proof -
  let ?v = "tl_value (sw_tl st)" and ?L = "pt_list (sw_tl st)"
  let ?st = "st\<lparr>sw_tl := (sw_tl st)\<lparr>tl_value := ?v + inc\<rparr>\<rparr>"
  have "due ?st ?L = takeWhile (\<lambda>p. pt_dist st p \<le> uint inc) ?L"
    using o inc seq_dist_advance unfolding due_def order_ok_def by (intro takeWhile_cong_set) auto
  also have "sorted_wrt (\<lambda>a b. pt_dist st b \<le> uint inc \<longrightarrow> pt_dist st a \<le> uint inc) ?L"
    using o unfolding order_ok_def by (auto elim!: pt_less_rel_mono dest: pt_less_mono)
  then have "takeWhile (\<lambda>p. pt_dist st p \<le> uint inc) ?L = reached inc st"
    unfolding reached_def by (simp add: takeWhile_filter)
  finally have d: "due ?st ?L = reached inc st" .
  have "sync_timeline_signal lib now inc st = signal_loop lib now ?L ?st"
    by (simp add: sync_timeline_signal_def)
  also have "\<dots> = (if \<exists>p\<in>set (due ?st ?L). last_put (the (sw_pt ?st p)) then None
      else Some (?st\<lparr>sw_tl := fold (unlink_pt lib) (due ?st ?L) (sw_tl ?st), sw_pt := signal_all now (\<lambda>f. f) (due ?st ?L) (sw_pt ?st)\<rparr>,
                 all_cbs (sw_pt ?st) (due ?st ?L)))"
    using l by (intro signal_loop_eq) (auto simp: list_ok_def)
  finally show ?thesis by (simp add: d advanced_def)
qed

lemma fold_remove1_filter: "distinct xs \<Longrightarrow> fold remove1 (filter P xs) xs = filter (\<lambda>x. \<not> P x) xs"
proof -
  have *: "fold remove1 ps ys = filter (\<lambda>x. x \<notin> set ps) ys" if "distinct ys" for ps ys :: "'a list"
    using that by (induction ps arbitrary: ys) (auto simp: distinct_remove1_removeAll removeAll_filter_not_eq intro: filter_cong)
  show "distinct xs \<Longrightarrow> ?thesis" unfolding * by (auto intro: filter_cong)
qed

lemma advanced_fields:
  assumes "rb_lib_ok lib" and "list_ok st"
  shows "pt_list (sw_tl (advanced lib now inc st)) = filter (\<lambda>p. uint inc < pt_dist st p) (pt_list (sw_tl st))"
    and "inorder (pt_tree (sw_tl (advanced lib now inc st))) = pt_list (sw_tl (advanced lib now inc st))"
    and "tl_value (sw_tl (advanced lib now inc st)) = tl_value (sw_tl st) + inc"
    and "tl_kref (sw_tl (advanced lib now inc st)) = tl_kref (sw_tl st)"
    and "sw_pt (advanced lib now inc st) = signal_all now (\<lambda>f. f) (reached inc st) (sw_pt st)"
proof -
  let ?obj = "(sw_tl st)\<lparr>tl_value := tl_value (sw_tl st) + inc\<rparr>"
  have "inorder (pt_tree ?obj) = pt_list ?obj" "distinct (pt_list ?obj)" using assms(2) by (simp_all add: list_ok_def)
  from fold_unlink_order [OF assms(1) this(1), of "reached inc st"] this(2)
  show "pt_list (sw_tl (advanced lib now inc st)) = filter (\<lambda>p. uint inc < pt_dist st p) (pt_list (sw_tl st))"
    "inorder (pt_tree (sw_tl (advanced lib now inc st))) = pt_list (sw_tl (advanced lib now inc st))"
    by (simp_all add: advanced_def reached_def fold_remove1_filter not_le)
qed (simp_all add: advanced_def)

lemma signal_all_dom [simp]: "dom (signal_all now g pts fs) = dom fs"
  by (auto simp: signal_all_def dom_def)

lemma after_signal_cbs: "(signaled_bit f \<longrightarrow> cb_list f = []) \<Longrightarrow> cb_list (after_signal now f) = []"
  by (simp add: after_signal_def)

lemma advanced_inv:
  assumes lib: "rb_lib_ok lib" and inc: "inc \<le> INT_MAX" and f: "fences_ok True st" and l: "list_ok st" and k: "kref_ok True st" and o: "order_ok st"
  shows "sync_inv \<lparr>ss_state = advanced lib now inc st, ss_open = True\<rparr>"
proof -
  let ?s = "advanced lib now inc st"
  note A = advanced_fields [OF lib l, where now = now and inc = inc]
  have rest: "sw_pt ?s p = sw_pt st p" "seq_dist (tl_value (sw_tl ?s)) (the (sw_pt st p)) = pt_dist st p - uint inc" if "p \<in> set (pt_list (sw_tl ?s))" for p
  proof -
    have p: "uint inc < pt_dist st p" using that A(1) by auto
    then show e: "sw_pt ?s p = sw_pt st p" by (simp add: A(5) signal_all_def reached_def)
    have "0 < pt_dist st p" using p uint_ge_0 [of inc] by linarith
    then show "seq_dist (tl_value (sw_tl ?s)) (the (sw_pt st p)) = pt_dist st p - uint inc"
      using seq_dist_advance [OF _ inc] by (simp add: A(3))
  qed
  have "fences_ok True ?s"
    using f unfolding fences_ok_def A(1,5) signal_all_def
    by (auto simp: reached_def after_signal_cbs split: if_splits)
  moreover have "list_ok ?s" using l A(1,2) rest(1) by (auto simp: list_ok_def)
  moreover have "kref_ok True ?s" using k A(4,5) by (simp add: kref_ok_def)
  moreover have "order_ok ?s"
  proof -
    have "sorted_wrt (pt_less (pt_dist st) (sw_pt st)) (pt_list (sw_tl ?s))"
      using o unfolding order_ok_def A(1) by (blast intro: sorted_wrt_filter)
    then have "sorted_wrt (pt_less (pt_dist ?s) (sw_pt ?s)) (pt_list (sw_tl ?s))"
      by (rule pt_less_rel_mono) (simp add: pt_less_def rest)
    moreover have "\<forall>p\<in>set (pt_list (sw_tl ?s)). 0 < pt_dist ?s p" using rest A(1) by auto
    ultimately show ?thesis by (simp add: order_ok_def)
  qed
  ultimately show ?thesis by (simp add: sync_inv_def)
qed
text \<open>Closing the file.\<close>

lemma release_all_inv:
  assumes f: "fences_ok True st" and l: "list_ok st" and k: "kref_ok True st"
    and r: "release_loop lib now (pt_list (sw_tl st)) st = Some (st1, cs)"
  shows "sync_inv \<lparr>ss_state = st1\<lparr>sw_tl := sync_timeline_put (sw_tl st1)\<rparr>, ss_open = False\<rparr>"
proof -
  let ?L = "pt_list (sw_tl st)" and ?g = "\<lambda>f. dma_fence_set_error f (- 2)"
  have "release_loop lib now ?L st =
     (if \<exists>p\<in>set ?L. last_put (the (sw_pt st p)) then None
      else Some (st\<lparr>sw_pt := signal_all now ?g ?L (sw_pt st)\<rparr>, all_cbs (sw_pt st) ?L))"
    using l by (intro release_loop_eq) (auto simp: list_ok_def)
  with r have e: "st1 = st\<lparr>sw_pt := signal_all now ?g ?L (sw_pt st)\<rparr>" by (auto split: if_splits)
  have "cb_list (after_signal now (?g f)) = []" if "sw_pt st p = Some f" for p f
    using that f by (intro after_signal_cbs) (auto simp: fences_ok_def dma_fence_set_error_def)
  then have "fences_ok False (st1\<lparr>sw_tl := sync_timeline_put (sw_tl st1)\<rparr>)"
    using f by (auto simp: fences_ok_def e signal_all_def sync_timeline_put_def split: if_splits)
  moreover have "list_ok (st1\<lparr>sw_tl := sync_timeline_put (sw_tl st1)\<rparr>)"
    using l by (auto simp: list_ok_def e signal_all_def sync_timeline_put_def)
  moreover have "kref_ok False (st1\<lparr>sw_tl := sync_timeline_put (sw_tl st1)\<rparr>)"
    using k by (simp add: kref_ok_def e sync_timeline_put_def)
  ultimately show ?thesis by (simp add: sync_inv_def)
qed

text \<open>An operation of the holder of a reference that does not signal.\<close>

lemma fence_update_inv:
  assumes inv: "sync_inv s" and f: "sw_pt (ss_state s) pt = Some f"
    and same: "signaled_bit f' = signaled_bit f" "fence_seqno f' = fence_seqno f" "signaled_bit f \<Longrightarrow> cb_list f' = []"
    and ref: "refcount f = 0 \<Longrightarrow> refcount f' = 0"
  shows "sync_inv (s\<lparr>ss_state := (ss_state s)\<lparr>sw_pt := (sw_pt (ss_state s))(pt \<mapsto> f')\<rparr>\<rparr>)"
proof -
  let ?st = "ss_state s" let ?st' = "?st\<lparr>sw_pt := (sw_pt ?st)(pt \<mapsto> f')\<rparr>"
  have d: "pt_dist ?st' p = pt_dist ?st p" for p using f same(2) by (simp add: seq_dist_def)
  have dead: "refcount (the (sw_pt ?st p)) = 0 \<Longrightarrow> refcount (the (sw_pt ?st' p)) = 0" for p using f ref by (cases "p = pt") auto
  have "fences_ok (ss_open s) ?st'"
    using inv f same unfolding sync_inv_def fences_ok_def by (auto split: if_splits)
  moreover have "list_ok ?st'" using inv by (auto simp: sync_inv_def list_ok_def)
  moreover have "kref_ok (ss_open s) ?st'" using inv f by (simp add: sync_inv_def kref_ok_def insert_absorb domI)
  moreover have "order_ok ?st'" if "ss_open s"
  proof -
    have o: "order_ok ?st" using inv that by (simp add: sync_inv_def)
    have "pt_less (pt_dist ?st') (sw_pt ?st') x y" if "pt_less (pt_dist ?st) (sw_pt ?st) x y" for x y
      using that dead unfolding pt_less_def d by blast
    then have "sorted_wrt (pt_less (pt_dist ?st') (sw_pt ?st')) (pt_list (sw_tl ?st'))"
      using o pt_less_rel_mono unfolding order_ok_def by fastforce
    moreover have "\<forall>p\<in>set (pt_list (sw_tl ?st')). 0 < pt_dist ?st' p"
      using o d unfolding order_ok_def by auto
    ultimately show ?thesis by (simp only: order_ok_def)
  qed
  ultimately show ?thesis by (simp add: sync_inv_def)
qed

text \<open>Releasing a fence.\<close>

lemma fence_gone_inv:
  assumes lib: "rb_lib_ok lib" and inv: "sync_inv s" and f: "sw_pt (ss_state s) pt = Some f"
    and r: "pt_release lib False now pt (ss_state s) = Some (st1, cs)"
  shows "sync_inv (s\<lparr>ss_state := st1\<rparr>)"
    and "pt_list (sw_tl st1) = remove1 pt (pt_list (sw_tl (ss_state s)))" and "sw_pt st1 = (sw_pt (ss_state s))(pt := None)"
    and "tl_value (sw_tl st1) = tl_value (sw_tl (ss_state s))" and "tl_kref (sw_tl st1) = tl_kref (sw_tl (ss_state s)) - 1"
proof -
  let ?st = "ss_state s"
  have l: "list_ok ?st" using inv by (simp add: sync_inv_def)
  have e: "st1 = ?st\<lparr>sw_tl := sync_timeline_put (if pt \<in> set (pt_list (sw_tl ?st)) then unlink_pt lib pt (sw_tl ?st) else sw_tl ?st),
             sw_pt := (sw_pt ?st)(pt := None)\<rparr>"
    using r by (auto simp: pt_release_def timeline_fence_release_def Let_def split: prod.splits)
  show pl: "pt_list (sw_tl st1) = remove1 pt (pt_list (sw_tl ?st))" and pt: "sw_pt st1 = (sw_pt ?st)(pt := None)"
    and v: "tl_value (sw_tl st1) = tl_value (sw_tl ?st)" and kr: "tl_kref (sw_tl st1) = tl_kref (sw_tl ?st) - 1"
    by (simp_all add: e sync_timeline_put_def unlink_pt_def remove1_idem)
  have io: "inorder (pt_tree (sw_tl st1)) = pt_list (sw_tl st1)"
    using l unlink_order [OF lib] by (simp add: e sync_timeline_put_def list_ok_def)
  have sub: "set (pt_list (sw_tl st1)) = set (pt_list (sw_tl ?st)) - {pt}" using l by (simp add: pl list_ok_def)
  have "fences_ok (ss_open s) st1"
    using inv unfolding sync_inv_def fences_ok_def by (auto simp: pt sub split: if_splits)
  moreover have "list_ok st1" using l io by (auto simp: list_ok_def pl pt)
  moreover have "kref_ok (ss_open s) st1"
  proof -
    have "pt \<in> dom (sw_pt ?st)" using f by (simp add: domI)
    then show ?thesis using inv card_gt_0_iff [of "dom (sw_pt ?st)"]
      by (auto simp: sync_inv_def kref_ok_def kr pt card_Diff_singleton_if)
  qed
  moreover have "order_ok st1" if "ss_open s"
  proof -
    have o: "order_ok ?st" using inv that by (simp add: sync_inv_def)
    have same: "sw_pt st1 p = sw_pt ?st p" if "p \<in> set (pt_list (sw_tl st1))" for p using that by (simp add: pt sub)
    have "sorted_wrt (pt_less (pt_dist ?st) (sw_pt ?st)) (pt_list (sw_tl st1))"
      using o l unfolding order_ok_def list_ok_def pl
      by (auto simp: distinct_remove1_removeAll removeAll_filter_not_eq intro: sorted_wrt_filter)
    then have "sorted_wrt (pt_less (pt_dist st1) (sw_pt st1)) (pt_list (sw_tl st1))"
      by (rule sorted_same [OF _ v]) (rule same)
    moreover have "\<forall>p\<in>set (pt_list (sw_tl st1)). 0 < pt_dist st1 p" using o same sub by (auto simp: order_ok_def v)
    ultimately show ?thesis by (simp only: order_ok_def)
  qed
  ultimately show "sync_inv (s\<lparr>ss_state := st1\<rparr>)" by (simp add: sync_inv_def)
qed
text \<open>Creating a fence: it is reached already, or there is one of the same number, or it is inserted in order.\<close>

definition new_fence :: "sync_state \<Rightarrow> u32 \<Rightarrow> dma_fence" where
  "new_fence st val = dma_fence_init (tl_context (sw_tl st)) (ucast val)"

lemma new_fence_simps [simp]:
  "seq_dist v (new_fence st val) = sint (val - v)" "signaled_bit (new_fence st val) = False" "cb_list (new_fence st val) = []"
  "refcount (new_fence st val) = 1" "pending_cbs (new_fence st val) = []"
  by (simp_all add: new_fence_def seq_dist_def dma_fence_init_def ucast_ucast_word pending_cbs_def)

lemma create_reached:
  assumes "sint (val - tl_value (sw_tl st)) \<le> 0"
  shows "sync_pt_create lib True new val now st =
     (Some new, st\<lparr>sw_tl := sync_timeline_get (sw_tl st), sw_pt := (sw_pt st)(new \<mapsto> after_signal now (new_fence st val))\<rparr>)"
proof -
  have "seq_dist (tl_value (sw_tl st)) (new_fence st val) \<le> 0" using assms by simp
  then have "timeline_fence_signaled (sync_timeline_get (sw_tl st)) (new_fence st val)"
    by (simp add: timeline_signaled_iff sync_timeline_get_def)
  then show ?thesis
    by (simp add: sync_pt_create_def new_fence_def sync_timeline_get_def dma_fence_is_signaled_locked_def
        dma_fence_signal_locked_def dma_fence_signal_timestamp_locked_def after_signal_def dma_fence_init_def cb_total_def)
qed

lemma create_ahead:
  assumes "0 < sint (val - tl_value (sw_tl st))"
  shows "sync_pt_create lib True new val now st =
     (case pt_descend (sw_pt st) val new (pt_tree (sw_tl st)) of
        Inl q \<Rightarrow> (Some q, st\<lparr>sw_pt := (sw_pt st)(q := dma_fence_get_rcu (the (sw_pt st q)))\<rparr>)
      | Inr t \<Rightarrow> (Some new,
          st\<lparr>sw_tl := (sync_timeline_get (sw_tl st))\<lparr>pt_tree := rb_insert_color lib t,
                 pt_list := list_add_before new (rb_next new (inorder (rb_insert_color lib t))) (pt_list (sw_tl st))\<rparr>,
              sw_pt := (sw_pt st)(new \<mapsto> new_fence st val)\<rparr>))"
proof -
  have "0 < seq_dist (tl_value (sw_tl st)) (new_fence st val)" using assms by simp
  then have "\<not> timeline_fence_signaled (sync_timeline_get (sw_tl st)) (new_fence st val)"
    by (simp add: timeline_signaled_iff sync_timeline_get_def)
  then show ?thesis
    by (auto simp: sync_pt_create_def new_fence_def sync_timeline_get_def sync_timeline_put_def
        dma_fence_is_signaled_locked_def dma_fence_init_def Let_def split: sum.splits)
qed

lemma descend_cmp:
  assumes l: "list_ok st" and o: "order_ok st" and ahead: "0 < sint (val - tl_value (sw_tl st))"
    and p: "p \<in> set (inorder (pt_tree (sw_tl st)))"
  shows "sint (ucast (ucast val - fence_seqno (the (sw_pt st p))) :: u32) = sint (val - tl_value (sw_tl st)) - pt_dist st p"
  using assms by (intro cmp_dist) (auto simp: list_ok_def order_ok_def)

lemma create_found:
  assumes l: "list_ok st" and o: "order_ok st" and ahead: "0 < sint (val - tl_value (sw_tl st))"
    and d: "pt_descend (sw_pt st) val new (pt_tree (sw_tl st)) = Inl q"
  obtains f where "sw_pt st q = Some f" "q \<in> set (pt_list (sw_tl st))" "refcount f \<noteq> 0"
    "pt_dist st q = sint (val - tl_value (sw_tl st))" "dma_fence_get_rcu (the (sw_pt st q)) = Some (f\<lparr>refcount := refcount f + 1\<rparr>)"
proof -
  have q: "q \<in> set (pt_list (sw_tl st))" "pt_dist st q = sint (val - tl_value (sw_tl st))" "refcount (the (sw_pt st q)) \<noteq> 0"
    using descend_Inl [OF d, of "sint (val - tl_value (sw_tl st))" "pt_dist st"] descend_cmp [OF l o ahead] l
    by (auto simp: list_ok_def simp del: set_inorder)
  then obtain f where "sw_pt st q = Some f" using l by (auto simp: list_ok_def)
  with q that show ?thesis by (simp add: dma_fence_get_rcu_def)
qed

lemma create_inserted:
  assumes lib: "rb_lib_ok lib" and l: "list_ok st" and o: "order_ok st" and ahead: "0 < sint (val - tl_value (sw_tl st))"
    and new: "new \<notin> set (pt_list (sw_tl st))"
    and d: "pt_descend (sw_pt st) val new (pt_tree (sw_tl st)) = Inr t"
  obtains xs ys where "pt_list (sw_tl st) = xs @ ys" "inorder (rb_insert_color lib t) = xs @ new # ys"
    "list_add_before new (rb_next new (inorder (rb_insert_color lib t))) (pt_list (sw_tl st)) = xs @ new # ys"
    "\<forall>x\<in>set xs. pt_dist st x < sint (val - tl_value (sw_tl st))"
    "\<forall>y\<in>set ys. sint (val - tl_value (sw_tl st)) < pt_dist st y \<or>
       pt_dist st y = sint (val - tl_value (sw_tl st)) \<and> refcount (the (sw_pt st y)) = 0"
proof -
  have io: "inorder (pt_tree (sw_tl st)) = pt_list (sw_tl st)" using l by (simp add: list_ok_def)
  have "sorted_wrt (pt_less (pt_dist st) (sw_pt st)) (inorder (pt_tree (sw_tl st)))"
    using o by (simp add: io order_ok_def)
  from descend_Inr [OF d descend_cmp [OF l o ahead] this] obtain xs ys where e: "pt_list (sw_tl st) = xs @ ys"
    "inorder t = xs @ new # ys" "\<forall>x\<in>set xs. pt_dist st x < sint (val - tl_value (sw_tl st))"
    "\<forall>y\<in>set ys. sint (val - tl_value (sw_tl st)) < pt_dist st y \<or>
       pt_dist st y = sint (val - tl_value (sw_tl st)) \<and> refcount (the (sw_pt st y)) = 0"
    unfolding io by blast
  have "distinct (xs @ new # ys)" using l new e(1) by (auto simp: list_ok_def)
  from list_add_before_mid [OF this] have
    "list_add_before new (rb_next new (inorder (rb_insert_color lib t))) (pt_list (sw_tl st)) = xs @ new # ys"
    using lib e(1,2) by (simp add: rb_lib_ok_def)
  with e lib that show ?thesis by (simp add: rb_lib_ok_def)
qed
lemma card_insert_new: "finite (dom m) \<Longrightarrow> m x = None \<Longrightarrow> card (insert x (dom m)) = Suc (card (dom m))"
  by (simp add: domIff)

lemma create_inv:
  assumes lib: "rb_lib_ok lib" and inv: "sync_inv s" and op: "ss_open s" and new: "sw_pt (ss_state s) new = None"
    and c: "sync_pt_create lib alloc_ok new val now (ss_state s) = (r, st')"
  shows "sync_inv (s\<lparr>ss_state := st'\<rparr>)"
proof -
  let ?st = "ss_state s" let ?k = "sint (val - tl_value (sw_tl ?st))"
  have f: "fences_ok True ?st" and l: "list_ok ?st" and k: "kref_ok True ?st" and o: "order_ok ?st"
    using inv op by (simp_all add: sync_inv_def)
  have nl: "new \<notin> set (pt_list (sw_tl ?st))" using l new by (auto simp: list_ok_def)
  have kr: "tl_kref (sw_tl ?st) + 1 = 1 + card (insert new (dom (sw_pt ?st)))"
    using k new by (simp add: kref_ok_def card_insert_new)
  consider (noalloc) "\<not> alloc_ok" | (reached) "alloc_ok" "?k \<le> 0"
    | (found) q where "alloc_ok" "0 < ?k" "pt_descend (sw_pt ?st) val new (pt_tree (sw_tl ?st)) = Inl q"
    | (inserted) t where "alloc_ok" "0 < ?k" "pt_descend (sw_pt ?st) val new (pt_tree (sw_tl ?st)) = Inr t"
    by (cases "pt_descend (sw_pt ?st) val new (pt_tree (sw_tl ?st))") force+
  then show ?thesis
  proof cases
    case noalloc
    then have "st' = ?st" using c by (simp add: sync_pt_create_def)
    then show ?thesis using inv by simp
  next
    case reached
    let ?f = "after_signal now (new_fence ?st val)"
    have e: "st' = ?st\<lparr>sw_tl := sync_timeline_get (sw_tl ?st), sw_pt := (sw_pt ?st)(new \<mapsto> ?f)\<rparr>"
      using create_reached [OF reached(2)] c reached(1) by simp
    have pl: "pt_list (sw_tl st') = pt_list (sw_tl ?st)" and v: "tl_value (sw_tl st') = tl_value (sw_tl ?st)"
      and same: "\<And>p. p \<in> set (pt_list (sw_tl ?st)) \<Longrightarrow> sw_pt st' p = sw_pt ?st p"
      using nl by (auto simp: e sync_timeline_get_def)
    have "fences_ok True st'" using f nl by (auto simp: e fences_ok_def sync_timeline_get_def after_signal_cbs)
    moreover have "list_ok st'" using l by (auto simp: e list_ok_def sync_timeline_get_def)
    moreover have "kref_ok True st'" using k kr by (simp add: e kref_ok_def sync_timeline_get_def)
    moreover have "order_ok st'"
      using o same sorted_same [OF _ v same] by (auto simp: order_ok_def pl v)
    ultimately show ?thesis using op by (simp add: sync_inv_def)
  next
    case (found q)
    from create_found [OF l o found(2,3)] obtain g where g: "sw_pt ?st q = Some g" "q \<in> set (pt_list (sw_tl ?st))" "refcount g \<noteq> 0"
      "dma_fence_get_rcu (the (sw_pt ?st q)) = Some (g\<lparr>refcount := refcount g + 1\<rparr>)" by metis
    have e: "st' = ?st\<lparr>sw_pt := (sw_pt ?st)(q \<mapsto> g\<lparr>refcount := refcount g + 1\<rparr>)\<rparr>"
      using create_ahead [OF found(2)] c found(1,3) g(4) by simp
    show ?thesis unfolding e
      using f g by (intro fence_update_inv [OF inv g(1)]) (auto simp: fences_ok_def)
  next
    case (inserted t)
    from create_inserted [OF lib l o inserted(2) nl inserted(3)] obtain xs ys where x:
      "pt_list (sw_tl ?st) = xs @ ys" "inorder (rb_insert_color lib t) = xs @ new # ys"
      "list_add_before new (rb_next new (inorder (rb_insert_color lib t))) (pt_list (sw_tl ?st)) = xs @ new # ys"
      "\<forall>x\<in>set xs. pt_dist ?st x < ?k"
      "\<forall>y\<in>set ys. ?k < pt_dist ?st y \<or> pt_dist ?st y = ?k \<and> refcount (the (sw_pt ?st y)) = 0" by metis
    have e: "st' = ?st\<lparr>sw_tl := (sync_timeline_get (sw_tl ?st))\<lparr>pt_tree := rb_insert_color lib t, pt_list := xs @ new # ys\<rparr>,
              sw_pt := (sw_pt ?st)(new \<mapsto> new_fence ?st val)\<rparr>"
      using create_ahead [OF inserted(2)] c inserted(1,3) x(3) by simp
    have pl: "pt_list (sw_tl st') = xs @ new # ys" and pt: "sw_pt st' = (sw_pt ?st)(new \<mapsto> new_fence ?st val)"
      and v: "tl_value (sw_tl st') = tl_value (sw_tl ?st)" and tr: "inorder (pt_tree (sw_tl st')) = xs @ new # ys"
      by (simp_all add: e x(2) sync_timeline_get_def)
    have "fences_ok True st'" using f nl unfolding fences_ok_def pl pt x(1) by auto
    moreover have "list_ok st'" using l nl unfolding list_ok_def pl pt x(1) tr by auto
    moreover have "kref_ok True st'" using k kr by (simp add: e kref_ok_def sync_timeline_get_def)
    moreover have "order_ok st'"
    proof -
      have n: "new \<notin> set xs" "new \<notin> set ys" using nl x(1) by auto
      then have same: "sw_pt st' p = sw_pt ?st p" if "p \<in> set xs \<union> set ys" for p using that by (auto simp: pt)
      have new_dist: "pt_dist st' new = ?k" by (simp add: pt v)
      have "sorted_wrt (pt_less (pt_dist ?st) (sw_pt ?st)) (xs @ ys)" using o by (simp add: order_ok_def x(1))
      then have "sorted_wrt (pt_less (pt_dist st') (sw_pt st')) (xs @ ys)"
        by (rule sorted_same [OF _ v]) (simp add: same)
      moreover have "\<forall>p\<in>set xs. pt_less (pt_dist st') (sw_pt st') p new"
        using x(4) same new_dist by (simp add: pt_less_def v)
      moreover have "\<forall>p\<in>set ys. pt_less (pt_dist st') (sw_pt st') new p"
        using x(5) same new_dist by (auto simp: pt_less_def v)
      ultimately have "sorted_wrt (pt_less (pt_dist st') (sw_pt st')) (xs @ new # ys)" by (auto simp: sorted_wrt_append)
      moreover have "\<forall>p\<in>set (xs @ new # ys). 0 < pt_dist st' p"
        using o same new_dist inserted(2) by (auto simp: order_ok_def x(1) v)
      ultimately show ?thesis by (simp only: order_ok_def pl)
    qed
    ultimately show ?thesis using op by (simp add: sync_inv_def)
  qed
qed
section \<open>The transition system\<close>

text \<open>
  A step is one section under the lock of the timeline.  A fence whose last reference was dropped (\<open>PutPt\<close>) stays in
  the list until its release gets the lock (\<open>FreePt\<close>).  A step of a thread that deadlocks does not happen.
\<close>

datatype sync_call =
    CreatePt bool nat u32 int | IncTl u32 int | GetPt nat | PutPt nat | FreePt nat int
  | AddPtCb nat nat cb_func int | RemovePtCb nat nat | PeekPt nat int | CloseTl int

definition set_pt :: "nat \<Rightarrow> dma_fence \<Rightarrow> sync_sys \<Rightarrow> sync_sys" where
  "set_pt pt f s = s\<lparr>ss_state := (ss_state s)\<lparr>sw_pt := (sw_pt (ss_state s))(pt \<mapsto> f)\<rparr>\<rparr>"

inductive sync_step :: "rb_lib \<Rightarrow> sync_sys \<Rightarrow> sync_call \<Rightarrow> sync_sys \<Rightarrow> bool" for lib :: rb_lib where
  st_create: "ss_open s \<Longrightarrow> sw_pt (ss_state s) new = None \<Longrightarrow> sync_pt_create lib alloc_ok new val now (ss_state s) = (r, st) \<Longrightarrow>
     sync_step lib s (CreatePt alloc_ok new val now) (s\<lparr>ss_state := st\<rparr>)"
| st_inc: "ss_open s \<Longrightarrow> inc \<le> INT_MAX \<Longrightarrow> sync_timeline_signal lib now inc (ss_state s) = Some (st, cs) \<Longrightarrow>
     sync_step lib s (IncTl inc now) (s\<lparr>ss_state := st\<rparr>)"
| st_get: "sw_pt (ss_state s) pt = Some f \<Longrightarrow> 0 < refcount f \<Longrightarrow> sync_step lib s (GetPt pt) (s\<lparr>ss_state := pt_get pt (ss_state s)\<rparr>)"
| st_put: "sw_pt (ss_state s) pt = Some f \<Longrightarrow> 0 < refcount f \<Longrightarrow> sync_step lib s (PutPt pt) (s\<lparr>ss_state := pt_put_ref pt (ss_state s)\<rparr>)"
| st_free: "sw_pt (ss_state s) pt = Some f \<Longrightarrow> refcount f = 0 \<Longrightarrow> pt_release lib False now pt (ss_state s) = Some (st, cs) \<Longrightarrow>
     sync_step lib s (FreePt pt now) (s\<lparr>ss_state := st\<rparr>)"
| st_add: "sw_pt (ss_state s) pt = Some f \<Longrightarrow> 0 < refcount f \<Longrightarrow>
     dma_fence_add_callback timeline_fence_enable_signaling (Some f) (c, Some func) now = (r, Some f1, cs) \<Longrightarrow>
     sync_step lib s (AddPtCb pt c func now) (set_pt pt f1 s)"
| st_remove: "sw_pt (ss_state s) pt = Some f \<Longrightarrow> 0 < refcount f \<Longrightarrow> dma_fence_remove_callback f c = (b, f1) \<Longrightarrow>
     sync_step lib s (RemovePtCb pt c) (set_pt pt f1 s)"
| st_peek: "sw_pt (ss_state s) pt = Some f \<Longrightarrow> 0 < refcount f \<Longrightarrow>
     dma_fence_is_signaled_locked (Some (timeline_fence_signaled (sw_tl (ss_state s)) f)) f now = (b, f1, cs) \<Longrightarrow>
     sync_step lib s (PeekPt pt now) (set_pt pt f1 s)"
| st_close: "ss_open s \<Longrightarrow> sw_sync_debugfs_release lib now (ss_state s) = Some (st, cs) \<Longrightarrow>
     sync_step lib s (CloseTl now) (s\<lparr>ss_state := st, ss_open := False\<rparr>)"

definition sync_start :: "sync_sys \<Rightarrow> bool" where
  "sync_start s \<longleftrightarrow> (\<exists>counter. sw_sync_debugfs_open counter True = Inr (ss_state s)) \<and> ss_open s"

lemma start_inv:
  assumes "sync_start s"
  shows "sync_inv s"
proof -
  obtain counter where "ss_state s = \<lparr>sw_tl = fst (sync_timeline_create counter), sw_pt = (\<lambda>_. None)\<rparr>" "ss_open s"
    using assms unfolding sync_start_def sw_sync_debugfs_open_def by (auto dest!: sym [of _ "ss_state s"])
  then show ?thesis
    by (simp add: sync_timeline_create_def dma_fence_context_alloc_def sync_inv_def fences_ok_def list_ok_def kref_ok_def order_ok_def)
qed

lemma set_pt_inv:
  "sync_inv s \<Longrightarrow> sw_pt (ss_state s) pt = Some f \<Longrightarrow> 0 < refcount f \<Longrightarrow> signaled_bit f' = signaled_bit f \<Longrightarrow>
   fence_seqno f' = fence_seqno f \<Longrightarrow> (signaled_bit f \<Longrightarrow> cb_list f' = []) \<Longrightarrow> sync_inv (set_pt pt f' s)"
  unfolding set_pt_def by (rule fence_update_inv [of s pt f]) simp_all

lemma signaled_cbs: "sync_inv s \<Longrightarrow> sw_pt (ss_state s) pt = Some f \<Longrightarrow> signaled_bit f \<Longrightarrow> cb_list f = []"
  by (simp add: sync_inv_def fences_ok_def)

text \<open>A fence that the counter has reached is signaled already, so that looking at a fence never signals it.\<close>

lemma peek_finds_signaled:
  assumes inv: "sync_inv s" and f: "sw_pt (ss_state s) pt = Some f" and p: "timeline_fence_signaled (sw_tl (ss_state s)) f"
  shows "signaled_bit f"
proof (rule ccontr)
  assume "\<not> signaled_bit f"
  then have "ss_open s" "pt \<in> set (pt_list (sw_tl (ss_state s)))" using inv f by (auto simp: sync_inv_def fences_ok_def)
  then have "0 < pt_dist (ss_state s) pt" using inv by (simp add: sync_inv_def order_ok_def)
  then show False using p f by (simp add: timeline_signaled_iff)
qed

lemma sync_step_inv: "sync_step lib s e s' \<Longrightarrow> rb_lib_ok lib \<Longrightarrow> sync_inv s \<Longrightarrow> sync_inv s'"
proof (induction rule: sync_step.induct)
  case (st_create s new alloc_ok val now r st)
  then show ?case using create_inv by blast
next
  case (st_inc s inc now st cs)
  then have "st = advanced lib now inc (ss_state s)"
    using timeline_signal_eq [of "ss_state s" inc lib now] by (auto simp: sync_inv_def split: if_splits)
  then show ?case
    using st_inc advanced_inv [of lib inc "ss_state s" now] by (simp add: sync_inv_def)
next
  case (st_get s pt f)
  then have "s\<lparr>ss_state := pt_get pt (ss_state s)\<rparr> = set_pt pt (f\<lparr>refcount := refcount f + 1\<rparr>) s"
    by (simp add: pt_get_def set_pt_def dma_fence_get_def)
  then show ?case using st_get signaled_cbs [of s pt f] set_pt_inv [of s pt f] by simp
next
  case (st_put s pt f)
  then have "s\<lparr>ss_state := pt_put_ref pt (ss_state s)\<rparr> = set_pt pt (f\<lparr>refcount := refcount f - 1\<rparr>) s"
    by (simp add: pt_put_ref_def set_pt_def)
  then show ?case using st_put signaled_cbs [of s pt f] set_pt_inv [of s pt f] by simp
next
  case (st_free s pt f now st cs)
  then show ?case using fence_gone_inv(1) by blast
next
  case (st_add s pt f c func now r f1 cs)
  then have "signaled_bit f1 = signaled_bit f \<and> fence_seqno f1 = fence_seqno f \<and> (signaled_bit f \<longrightarrow> f1 = f)"
    by (auto simp: dma_fence_add_callback_def add_callback_locked_def enable_signaling_locked_def
        timeline_fence_enable_signaling_def Let_def split: if_splits)
  then show ?case using st_add signaled_cbs [of s pt f] set_pt_inv [of s pt f f1] by auto
next
  case (st_remove s pt f c b f1)
  then have "signaled_bit f1 = signaled_bit f \<and> fence_seqno f1 = fence_seqno f \<and> (cb_list f = [] \<longrightarrow> cb_list f1 = [])"
    by (auto simp: dma_fence_remove_callback_def unlink_cb_def split: if_splits)
  then show ?case using st_remove signaled_cbs [of s pt f] set_pt_inv [of s pt f f1] by auto
next
  case (st_peek s pt f now b f1 cs)
  then have "f1 = f" using peek_finds_signaled [of s pt f] by (auto simp: dma_fence_is_signaled_locked_def split: if_splits)
  then show ?case using st_peek signaled_cbs [of s pt f] set_pt_inv [of s pt f f1] by auto
next
  case (st_close s now st cs)
  then obtain st1 where r: "release_loop lib now (pt_list (sw_tl (ss_state s))) (ss_state s) = Some (st1, cs)"
    "st = st1\<lparr>sw_tl := sync_timeline_put (sw_tl st1)\<rparr>" by (auto simp: sw_sync_debugfs_release_def)
  with st_close release_all_inv [OF _ _ _ r(1)] show ?case by (simp add: sync_inv_def)
qed

interpretation timeline: inv_system "\<lambda>s. rb_lib_ok lib \<and> sync_start s" "sync_step lib" "\<lambda>s. rb_lib_ok lib \<and> sync_inv s"
  for lib
  by unfold_locales (auto intro: start_inv sync_step_inv)

end
