(* ===== verification/Fence_Props.thy ===== *)
theory Fence_Props
  imports Fence_System Sync_Inv
begin

text \<open>
  The properties of fences and timelines: callbacks run once, waiting tasks are woken, the counter of a timeline signals
  exactly the fences it reaches, the fences of a timeline are in order and unique, failed requests leave nothing
  behind, and when advancing the counter locks up.
\<close>

section \<open>One fence\<close>

text \<open>
  C8. In every reachable state of a fence each accepted callback was run once, or taken off once, or is still in
  the list, and only one of the three; none is run before the fence is signaled, and none is left in the list after it.
\<close>

theorem callbacks_called_once:
  assumes "reach fence_start fence_step s"
  shows "distinct (fs_called s @ fs_removed s @ map fst (cb_list (fs_fence s))) \<and>
         set (fs_added s) = set (fs_called s) \<union> set (fs_removed s) \<union> fst ` set (cb_list (fs_fence s)) \<and>
         (if signaled_bit (fs_fence s) then cb_list (fs_fence s) = [] else fs_called s = [])"
proof -
  note P = inv_partsD [OF fence_sys.reach_inv [OF assms]]
  have "set (fs_added s) = set (fs_called s) \<union> set (fs_removed s) \<union> fst ` set (cb_list (fs_fence s))"
    using arg_cong [OF P(2), of set_mset] by simp
  then show ?thesis using P(3,4,5) by simp
qed

definition example_fence :: fence_sys where
  "example_fence = \<lparr>fs_fence = dma_fence_init 1 2, fs_called = [], fs_added = [], fs_removed = [], fs_sleep = (\<lambda>_. None), fs_runnable = {}\<rparr>"

definition example_added :: fence_sys where
  "example_added = \<lparr>fs_fence = (dma_fence_init 1 2)\<lparr>enable_signal_bit := True, cb_list := [(10, UserFunc 0)]\<rparr>, fs_called = [],
     fs_added = [10], fs_removed = [], fs_sleep = (\<lambda>_. None), fs_runnable = {}\<rparr>"

definition example_waiting :: fence_sys where
  "example_waiting = \<lparr>fs_fence = (dma_fence_init 1 2)\<lparr>enable_signal_bit := True, cb_list := [(11, WakeTask 4), (10, UserFunc 0)]\<rparr>,
     fs_called = [], fs_added = [10, 11], fs_removed = [], fs_sleep = [4 \<mapsto> (11, True, 100)], fs_runnable = {}\<rparr>"

definition example_signaled :: fence_sys where
  "example_signaled = \<lparr>fs_fence = (dma_fence_init 1 2)\<lparr>signaled_bit := True, timestamp_bit := True, timestamp := 9, enable_signal_bit := True\<rparr>,
     fs_called = [11, 10], fs_added = [10, 11], fs_removed = [], fs_sleep = [4 \<mapsto> (11, True, 100)], fs_runnable = {4}\<rparr>"

lemma example_start: "reach fence_start fence_step example_fence"
  by (rule reach_start) (auto simp: fence_start_def example_fence_def)

lemma example_add: "fence_step example_fence (AddLocked (Some True) 10 0 5) example_added"
  using fs_add [of 10 example_fence "Some True" 0 5 None "(dma_fence_init 1 2)\<lparr>enable_signal_bit := True, cb_list := [(10, UserFunc 0)]\<rparr>" "[]"]
  by (simp add: example_fence_def example_added_def add_callback_locked_def enable_signaling_locked_def dma_fence_init_def)

lemma example_wait: "fence_step example_added (WaitLocked None 4 True 100 False 11 6) example_waiting"
  using fs_wait_sleep [of example_added 4 11 None True 100 False 6 100
      "(dma_fence_init 1 2)\<lparr>enable_signal_bit := True, cb_list := [(11, WakeTask 4), (10, UserFunc 0)]\<rparr>" "[]"]
  by (simp add: example_added_def example_waiting_def default_wait_locked_def enable_signaling_locked_def dma_fence_init_def)

lemma example_signal: "fence_step example_waiting (SignalAt 9) example_signaled"
proof -
  have "dma_fence_signal_timestamp (Some (fs_fence example_waiting)) 9 = (None, Some (fs_fence example_signaled), [(11, WakeTask 4), (10, UserFunc 0)])"
    by (simp add: example_waiting_def example_signaled_def dma_fence_signal_timestamp_def dma_fence_signal_timestamp_locked_def dma_fence_init_def)
  from fs_signal [OF this] show ?thesis by (simp add: example_waiting_def example_signaled_def deliver_def)
qed

lemma example_reach: "reach fence_start fence_step example_waiting" "reach fence_start fence_step example_signaled"
  by (blast intro: reach_step example_start example_add example_wait example_signal)+

theorem callbacks_called_once_witness:
  "fs_added example_signaled = [10, 11] \<and> fs_called example_signaled = [11, 10] \<and>
   distinct (fs_called example_signaled @ fs_removed example_signaled @ map fst (cb_list (fs_fence example_signaled)))"
  using callbacks_called_once [OF example_reach(2)] by (simp add: example_signaled_def)

text \<open>
  C9. No wakeup is lost: whenever a fence is signaled, every task that sleeps on it is runnable afterwards, whatever
  threads did before, and however its next turn begins, the wait ends in it, the callback is not in the list any more,
  and the result is the remaining time or the interruption.
\<close>

theorem waiters_woken:
  assumes "reach fence_start fence_step s" and "fs_sleep s t = Some (c, intr, tm)" and "fence_step s (SignalAt ts) s'"
    and "0 \<le> slept" and "slept \<le> tm"
  shows "t \<in> fs_runnable s' \<and>
         (\<exists>s''. fence_step s' (WaitTurn t slept sigpending) s'') \<and>
         (\<forall>s''. fence_step s' (WaitTurn t slept sigpending) s'' \<longrightarrow>
            fs_sleep s'' t = None \<and> \<not> linked (fs_fence s'') c \<and>
            default_wait_turn (fs_fence s') intr slept sigpending c =
              (Inl (if 0 < slept \<and> intr \<and> sigpending then - ERESTARTSYS else slept), fs_fence s''))"
proof -
  have "reach fence_start fence_step s'" using assms(1,3) by (rule reach_step)
  note inv = fence_sys.reach_inv [OF this]
  have sl: "fs_sleep s' t = Some (c, intr, tm)" and sig: "signaled_bit (fs_fence s')"
    using assms(2,3)
    by (auto elim!: fence_step.cases simp: deliver_def dma_fence_signal_timestamp_def dma_fence_signal_timestamp_locked_def split: if_splits)
  have empty: "cb_list (fs_fence s') = []" using inv_partsD(3) [OF inv sig] .
  have run: "t \<in> fs_runnable s'" using inv_waiters [OF inv sl] sig by simp
  let ?ret = "if 0 < slept \<and> intr \<and> sigpending then - ERESTARTSYS else slept"
  have w: "default_wait_turn (fs_fence s') intr slept sigpending c = (Inl ?ret, fs_fence s')"
    using sig empty by (simp add: default_wait_turn_def Let_def linked_def)
  have "fs_sleep s'' t = None \<and> fs_fence s'' = fs_fence s'" if "fence_step s' (WaitTurn t slept sigpending) s''" for s''
    using that w sl by (auto elim!: fence_turn_elim)
  then show ?thesis using run w empty fs_turn_done [OF sl assms(4,5) w] by (auto simp: linked_def)
qed

theorem waiters_woken_witness:
  "4 \<in> fs_runnable example_signaled \<and> (\<exists>s''. fence_step example_signaled (WaitTurn 4 60 False) s'')"
proof -
  have "fs_sleep example_waiting 4 = Some (11, True, 100)" by (simp add: example_waiting_def)
  from waiters_woken [OF example_reach(1) this example_signal, of 60 False] show ?thesis by simp
qed

text \<open>A wait that returns a positive number has seen the fence signaled.\<close>

lemma wait_result_signaled:
  "dma_fence_default_wait hook f intr timeout sigpending c t now = (Inl ret, f', cs) \<Longrightarrow> 0 < ret \<Longrightarrow> signaled_bit f'"
  "default_wait_turn f intr slept sigpending c = (Inl ret, f') \<Longrightarrow> 0 < ret \<Longrightarrow> signaled_bit f'"
  by (auto simp: dma_fence_default_wait_def default_wait_locked_def default_wait_turn_def enable_signaling_locked_def
      dma_fence_signal_locked_def dma_fence_signal_timestamp_locked_def unlink_cb_def Let_def split: if_splits)

text \<open>Asking several fences without waiting and without a place for the index never finds a signaled one.\<close>

lemma poll_without_index: "wait_any_poll peek False now h fences i = (r, idx, h') \<Longrightarrow> r = 0"
  by (induction fences arbitrary: h i) (auto simp: Let_def split: prod.splits)
section \<open>Several fences\<close>

lemma remove_links:
  "linked (wait_any_remove cb fences n h x) d \<Longrightarrow> linked (h x) d" "signaled_bit (wait_any_remove cb fences n h x) = signaled_bit (h x)"
  by (induction cb fences n h rule: wait_any_remove.induct)
    (auto simp: dma_fence_remove_callback_def unlink_cb_def linked_def split: if_splits)

lemma removed_links: "i < n \<Longrightarrow> \<not> linked (wait_any_remove cb fences n h (fences ! i)) (cb i)"
proof (induction cb fences n h rule: wait_any_remove.induct)
  case (2 cb fences n h)
  have "\<not> linked (snd (dma_fence_remove_callback (h (fences ! n)) (cb n))) (cb n)"
    by (auto simp: dma_fence_remove_callback_def unlink_cb_def linked_def)
  then have "\<not> linked ((h(fences ! n := snd (dma_fence_remove_callback (h (fences ! n)) (cb n)))) (fences ! n)) (cb n)" by simp
  then show ?case using 2 remove_links(1) unfolding wait_any_remove.simps by (metis less_SucE)
qed simp

lemma add_callback_links:
  assumes "dma_fence_add_callback hook (Some f) (c, Some func) now = (r, g, cs)"
  shows "\<exists>f1. g = Some f1 \<and> (r \<noteq> None \<longrightarrow> signaled_bit f1) \<and> (\<forall>d. linked f1 d \<longrightarrow> linked f d \<or> r = None \<and> d = c)"
  using assms
  by (auto simp: dma_fence_add_callback_def add_callback_locked_def enable_signaling_locked_def Let_def linked_def
      dma_fence_signal_locked_def dma_fence_signal_timestamp_locked_def split: if_splits prod.splits)

lemma add_links:
  "wait_any_add hook cb t now h fs i = (r, h1) \<Longrightarrow>
   (\<forall>x d. linked (h1 x) d \<longrightarrow> linked (h x) d \<or> (\<exists>k<(case r of None \<Rightarrow> length fs | Some j \<Rightarrow> j - i). d = cb (i + k) \<and> x = fs ! k)) \<and>
   (case r of None \<Rightarrow> True | Some j \<Rightarrow> i \<le> j \<and> j < i + length fs \<and> signaled_bit (h1 (fs ! (j - i))))"
proof (induction fs arbitrary: h i)
  case (Cons f fs)
  obtain r1 g cs where a: "dma_fence_add_callback (hook f) (Some (h f)) (cb i, Some (WakeTask t)) now = (r1, g, cs)"
    by (metis prod_cases3)
  from add_callback_links [OF this] obtain f1 where f1: "g = Some f1" "r1 \<noteq> None \<Longrightarrow> signaled_bit f1"
    "\<And>d. linked f1 d \<Longrightarrow> linked (h f) d \<or> r1 = None \<and> d = cb i" by blast
  show ?case
  proof (cases "r1 = None")
    case False
    then have "r = Some i" "h1 = h(f := f1)" using Cons.prems a f1(1) by auto
    then show ?thesis using False f1(2,3) by auto
  next
    case True
    then have rest: "wait_any_add hook cb t now (h(f := f1)) fs (i + 1) = (r, h1)" using Cons.prems a f1(1) by auto
    note IH = Cons.IH [OF rest]
    define m where "m = (case r of None \<Rightarrow> length fs | Some j \<Rightarrow> j - (i + 1))"
    have m: "(case r of None \<Rightarrow> length (f # fs) | Some j \<Rightarrow> j - i) = Suc m"
      using IH by (auto simp: m_def split: option.splits)
    have "linked (h x) d \<or> (\<exists>k<Suc m. d = cb (i + k) \<and> x = (f # fs) ! k)" if l: "linked (h1 x) d" for x d
    proof -
      have "linked ((h(f := f1)) x) d \<or> (\<exists>k<m. d = cb (i + 1 + k) \<and> x = fs ! k)" using IH l unfolding m_def by blast
      then show ?thesis
      proof
        assume "linked ((h(f := f1)) x) d"
        then have "linked (h x) d \<or> x = f \<and> d = cb i" using f1(3) by (auto split: if_splits)
        then show ?thesis by fastforce
      next
        assume "\<exists>k<m. d = cb (i + 1 + k) \<and> x = fs ! k"
        then obtain k where "k < m" "d = cb (i + 1 + k)" "x = fs ! k" by blast
        then show ?thesis by (intro disjI2 exI [of _ "Suc k"]) simp
      qed
    qed
    moreover have "case r of None \<Rightarrow> True | Some j \<Rightarrow> i \<le> j \<and> j < i + length (f # fs) \<and> signaled_bit (h1 ((f # fs) ! (j - i)))"
      using IH by (auto simp: nth_Cons' split: option.splits)
    ultimately show ?thesis unfolding m by blast
  qed
qed simp

text \<open>What the calls have in common: how the loop ends.\<close>

lemma any_loop_ends:
  assumes "wait_any_loop cb h fences want_idx ret = (Inl (r, idx), h')"
  shows "(\<forall>i<length fences. \<not> linked (h' (fences ! i)) (cb i)) \<and>
    (0 < r \<longrightarrow> (\<exists>i<length fences. signaled_bit (h' (fences ! i)) \<and> (want_idx \<longrightarrow> idx = Some i)))"
proof -
  have h': "h' = wait_any_remove cb fences (length fences) h" and
    "0 < r \<Longrightarrow> \<exists>i. dma_fence_test_signaled_any h fences = Some i \<and> (want_idx \<longrightarrow> idx = Some i)"
    using assms by (auto simp: wait_any_loop_def split: if_splits option.splits)
  moreover have "i < length fences \<and> signaled_bit (h (fences ! i))" if "dma_fence_test_signaled_any h fences = Some i" for i
    using that by (auto simp: dma_fence_test_signaled_any_def find_Some_iff)
  ultimately show ?thesis using removed_links [of _ "length fences" cb fences h] remove_links(2) by metis
qed

lemma any_poll_ends:
  "wait_any_poll peek want_idx now h fences k = (r, idx, h') \<Longrightarrow>
   (\<forall>x d. linked (h' x) d \<longrightarrow> linked (h x) d) \<and>
   (0 < r \<longrightarrow> (\<exists>i<length fences. signaled_bit (h' (fences ! i)) \<and> idx = Some (k + i)))"
proof (induction fences arbitrary: h k)
  case (Cons f fs)
  obtain b f1 cs where p: "dma_fence_is_signaled (peek f) (h f) now = (b, f1, cs)" by (metis prod_cases3)
  have f1: "b \<Longrightarrow> signaled_bit f1" "linked f1 d \<Longrightarrow> linked (h f) d" for d
    using p by (auto simp: dma_fence_is_signaled_def dma_fence_signal_def dma_fence_signal_timestamp_locked_def linked_def
        split: if_splits)
  show ?case
  proof (cases "b \<and> want_idx")
    case True
    then show ?thesis using Cons.prems p f1 by (auto simp: Let_def split: if_splits)
  next
    case False
    then have "wait_any_poll peek want_idx now (h(f := f1)) fs (k + 1) = (r, idx, h')"
      using Cons.prems p by (simp add: Let_def split: if_splits)
    from Cons.IH [OF this] f1(2) show ?thesis
      by (intro conjI impI) (fastforce split: if_splits, metis add.assoc add.commute Suc_eq_plus1 Suc_mono length_Cons nth_Cons_Suc)
  qed
qed simp

text \<open>
  C22. However a wait for one of several fences ends, at once or after any number of turns in which the fences changed,
  none of its callbacks is left in a list: their memory is freed.  A positive result means that one of the fences is
  signaled, and the index that is stored, if it is asked for, is one of a signaled fence.
\<close>

theorem wait_any_ends_cleanly:
  assumes "(\<forall>i<length fences. \<not> linked (h (fences ! i)) (cb i)) \<and>
             dma_fence_wait_any_timeout peek hook kcalloc_ok cb t now h fences timeout want_idx = (Inl (r, idx), h') \<or>
           wait_any_turn cb h fences intr want_idx slept sigpending = (Inl (r, idx), h')"
  shows "(\<forall>i<length fences. \<not> linked (h' (fences ! i)) (cb i)) \<and>
         (0 < r \<longrightarrow> (\<exists>i<length fences. signaled_bit (h' (fences ! i)) \<and> (want_idx \<longrightarrow> idx = Some i)))"
  using assms
proof
  assume "wait_any_turn cb h fences intr want_idx slept sigpending = (Inl (r, idx), h')"
  then show ?thesis unfolding wait_any_turn_def by (rule any_loop_ends)
next
  assume A: "(\<forall>i<length fences. \<not> linked (h (fences ! i)) (cb i)) \<and>
    dma_fence_wait_any_timeout peek hook kcalloc_ok cb t now h fences timeout want_idx = (Inl (r, idx), h')"
  obtain s h1 where a: "wait_any_add hook cb t now h fences 0 = (s, h1)" by (metis surj_pair)
  note L = add_links [OF a]
  consider (early) "fences = [] \<or> timeout < 0 \<or> 0 < timeout \<and> \<not> kcalloc_ok" | (poll) "fences \<noteq> []" "timeout = 0"
    | (known) j where "fences \<noteq> []" "0 < timeout" "kcalloc_ok" "s = Some j" | (loop) "fences \<noteq> []" "0 < timeout" "kcalloc_ok" "s = None"
    by (cases s) force+
  then show ?thesis
  proof cases
    case early
    then show ?thesis using A by (auto simp: dma_fence_wait_any_timeout_def split: if_splits)
  next
    case poll
    then have "wait_any_poll peek want_idx now h fences 0 = (r, idx, h')"
      using A by (auto simp: dma_fence_wait_any_timeout_def split: prod.splits)
    from any_poll_ends [OF this] A show ?thesis by fastforce
  next
    case (known j)
    then have e: "h' = wait_any_remove cb fences j h1" "want_idx \<Longrightarrow> idx = Some j"
      using A a by (auto simp: dma_fence_wait_any_timeout_def)
    have j: "j < length fences" "signaled_bit (h1 (fences ! j))"
      and links: "\<And>x d. linked (h1 x) d \<Longrightarrow> linked (h x) d \<or> (\<exists>k<j. d = cb k \<and> x = fences ! k)"
      using L known(4) by auto
    have "\<not> linked (h' (fences ! i)) (cb i)" if "i < length fences" for i
      using that A links remove_links(1) removed_links unfolding e(1) by metis
    then show ?thesis using j e remove_links(2) by metis
  next
    case loop
    then have "wait_any_loop cb h1 fences want_idx timeout = (Inl (r, idx), h')"
      using A a by (simp add: dma_fence_wait_any_timeout_def)
    then show ?thesis by (rule any_loop_ends)
  qed
qed

definition ex_store :: fence_store where
  "ex_store = (\<lambda>a. if a = 3 then (dma_fence_init 1 1)\<lparr>signaled_bit := True\<rparr> else dma_fence_init 1 2)"

theorem wait_any_ends_cleanly_witness:
  "\<exists>h'. dma_fence_wait_any_timeout (\<lambda>_. None) (\<lambda>_. None) True (\<lambda>i. 100 + i) 4 0 ex_store [2, 3] 10 True = (Inl (10, Some 1), h') \<and>
     \<not> linked (h' 2) 100"
proof -
  have "fst (dma_fence_wait_any_timeout (\<lambda>_. None) (\<lambda>_. None) True (\<lambda>i. 100 + i) 4 0 ex_store [2, 3] 10 True) = Inl (10, Some 1)"
    by (simp add: dma_fence_wait_any_timeout_def dma_fence_add_callback_def add_callback_locked_def enable_signaling_locked_def
        ex_store_def dma_fence_init_def Let_def)
  then obtain h' where e: "dma_fence_wait_any_timeout (\<lambda>_. None) (\<lambda>_. None) True (\<lambda>i. 100 + i) 4 0 ex_store [2, 3] 10 True = (Inl (10, Some 1), h')"
    by (cases "dma_fence_wait_any_timeout (\<lambda>_. None) (\<lambda>_. None) True (\<lambda>i. 100 + i) 4 0 ex_store [2, 3] 10 True")
      (simp only: fst_conv)
  have "cb_list (ex_store a) = []" for a by (simp add: ex_store_def dma_fence_init_def)
  then have "\<not> linked (ex_store a) c" for a c by (simp add: linked_def)
  with e have "(\<forall>i<length [2, 3]. \<not> linked (ex_store ([2, 3] ! i)) (100 + i)) \<and>
      dma_fence_wait_any_timeout (\<lambda>_. None) (\<lambda>_. None) True (\<lambda>i. 100 + i) 4 0 ex_store [2, 3] 10 True = (Inl (10, Some 1), h') \<or>
      wait_any_turn (\<lambda>i. 100 + i) ex_store [2, 3] True True 0 False = (Inl (10, Some 1), h')" by blast
  from wait_any_ends_cleanly [OF this] have "\<not> linked (h' 2) 100" by (auto dest: spec [of _ 0])
  with e show ?thesis by blast
qed

section \<open>The fences of a timeline\<close>

abbreviation timeline_reach :: "rb_lib \<Rightarrow> sync_sys \<Rightarrow> bool" where
  "timeline_reach lib \<equiv> reach (\<lambda>s. rb_lib_ok lib \<and> sync_start s) (sync_step lib)"

lemma reachD:
  assumes "timeline_reach lib s"
  shows "rb_lib_ok lib" "sync_inv s" "list_ok (ss_state s)" "fences_ok (ss_open s) (ss_state s)" "kref_ok (ss_open s) (ss_state s)"
    "ss_open s \<Longrightarrow> order_ok (ss_state s)"
  using timeline.reach_inv [OF assms] by (auto simp: sync_inv_def)

lemma same_dist_same_number: "seq_dist v f = seq_dist v g \<longleftrightarrow> (ucast (fence_seqno f) :: u32) = ucast (fence_seqno g)"
  by (simp add: seq_dist_def flip: word_eq_iff_signed)

lemma live_unique:
  assumes "distinct xs" and "sorted_wrt (pt_less key fs) xs" and "p \<in> set xs" and "q \<in> set xs" and "key p = key q"
    and "0 < refcount (the (fs p))" and "0 < refcount (the (fs q))"
  shows "p = q"
  using assms
proof (induction xs)
  case (Cons x xs)
  have later: "key y \<noteq> key x" if "y \<in> set xs" "0 < refcount (the (fs y))" for y
    using that Cons.prems(2) by (force simp: pt_less_def)
  have "sorted_wrt (pt_less key fs) xs" "distinct xs" using Cons.prems(1,2) by simp_all
  then have "p = q" if "p \<in> set xs" "q \<in> set xs" using Cons.IH that Cons.prems(5,6,7) by blast
  moreover have "p \<noteq> x \<or> q \<notin> set xs" "q \<noteq> x \<or> p \<notin> set xs" using later Cons.prems(5,6,7) by metis+
  ultimately show ?case using Cons.prems(3,4) by (metis set_ConsD)
qed simp

text \<open>
  C14. In every reachable state of a timeline the tree and the list hold the same fences in the same order, each
  once; while the file is open these are exactly the fences that are not signaled, all of them lie ahead of the
  counter, in the order in which it reaches them, and no two fences with references have the same number.  The timeline
  has a reference for its file and one for each fence, so that it is never freed under a fence.
\<close>

theorem timeline_reachable:
  assumes "timeline_reach lib s"
  shows "inorder (pt_tree (sw_tl (ss_state s))) = pt_list (sw_tl (ss_state s)) \<and> distinct (pt_list (sw_tl (ss_state s))) \<and>
         tl_kref (sw_tl (ss_state s)) = (if ss_open s then 1 else 0) + card {p. sw_pt (ss_state s) p \<noteq> None} \<and>
         (ss_open s \<longrightarrow>
            set (pt_list (sw_tl (ss_state s))) = {p. \<exists>f. sw_pt (ss_state s) p = Some f \<and> \<not> signaled_bit f} \<and>
            (\<forall>p\<in>set (pt_list (sw_tl (ss_state s))). 0 < pt_dist (ss_state s) p) \<and>
            sorted (map (pt_dist (ss_state s)) (pt_list (sw_tl (ss_state s)))) \<and>
            (\<forall>p q f g. p \<in> set (pt_list (sw_tl (ss_state s))) \<and> q \<in> set (pt_list (sw_tl (ss_state s))) \<and>
               sw_pt (ss_state s) p = Some f \<and> sw_pt (ss_state s) q = Some g \<and> 0 < refcount f \<and> 0 < refcount g \<and>
               (ucast (fence_seqno f) :: u32) = ucast (fence_seqno g) \<longrightarrow> p = q))"
proof -
  note R = reachD [OF assms]
  let ?st = "ss_state s"
  have "sorted_wrt (\<lambda>a b. pt_dist ?st a \<le> pt_dist ?st b) (pt_list (sw_tl ?st))" if "ss_open s"
    using R(6) [OF that] unfolding order_ok_def by (auto elim!: pt_less_rel_mono dest: pt_less_mono)
  then have "sorted (map (pt_dist ?st) (pt_list (sw_tl ?st)))" if "ss_open s" using that by (simp add: sorted_wrt_map)
  moreover have "p = q" if "ss_open s" "p \<in> set (pt_list (sw_tl ?st))" "q \<in> set (pt_list (sw_tl ?st))"
      "sw_pt ?st p = Some f" "sw_pt ?st q = Some g" "0 < refcount f" "0 < refcount g"
      "(ucast (fence_seqno f) :: u32) = ucast (fence_seqno g)" for p q f g
    using that R(3) R(6) [OF that(1)] live_unique [of "pt_list (sw_tl ?st)" "pt_dist ?st" "sw_pt ?st" p q]
    by (auto simp: order_ok_def list_ok_def same_dist_same_number)
  moreover have "set (pt_list (sw_tl ?st)) = {p. \<exists>f. sw_pt ?st p = Some f \<and> \<not> signaled_bit f}" if "ss_open s"
    using that R(3,4) by (auto simp: list_ok_def fences_ok_def)
  moreover have "inorder (pt_tree (sw_tl ?st)) = pt_list (sw_tl ?st)" "distinct (pt_list (sw_tl ?st))" using R(3) by (simp_all add: list_ok_def)
  moreover have "tl_kref (sw_tl ?st) = (if ss_open s then 1 else 0) + card {p. sw_pt ?st p \<noteq> None}"
    using R(5) by (simp add: kref_ok_def dom_def)
  moreover have "\<forall>p\<in>set (pt_list (sw_tl ?st)). 0 < pt_dist ?st p" if "ss_open s" using R(6) [OF that] by (simp add: order_ok_def)
  ultimately show ?thesis by (intro conjI impI allI) (blast | simp)+
qed

section \<open>Advancing the counter\<close>

lemma inc_loop_empty: "pt_list (sw_tl st) = [] \<Longrightarrow>
  inc_loop lib now val st = Some (st\<lparr>sw_tl := (sw_tl st)\<lparr>tl_value := tl_value (sw_tl st) + val\<rparr>\<rparr>, [])"
proof (induction lib now val st rule: inc_loop.induct)
  case (1 lib now val st)
  have s: "sync_timeline_signal lib now inc st = Some (st\<lparr>sw_tl := (sw_tl st)\<lparr>tl_value := tl_value (sw_tl st) + inc\<rparr>\<rparr>, [])" for inc
    using 1(2) by (simp add: sync_timeline_signal_def)
  show ?case
  proof (cases "val > INT_MAX")
    case True
    from 1(1) [OF True s] 1(2) show ?thesis using True by (subst inc_loop.simps) (simp add: s)
  next
    case False
    then show ?thesis by (subst inc_loop.simps) (simp add: s)
  qed
qed

lemma fold_unlink_value:
  "fold (unlink_pt lib) ps (obj\<lparr>tl_value := v\<rparr>) = (fold (unlink_pt lib) ps obj)\<lparr>tl_value := v\<rparr>"
proof (induction ps arbitrary: obj)
  case (Cons p ps)
  have "unlink_pt lib p (obj\<lparr>tl_value := v\<rparr>) = (unlink_pt lib p obj)\<lparr>tl_value := v\<rparr>" by (simp add: unlink_pt_def)
  then show ?case using Cons by simp
qed simp

text \<open>The split of large increments does not show: the loop does what one increment would do.\<close>

lemma inc_loop_eq:
  assumes lib: "rb_lib_ok lib" and l: "list_ok st" and o: "order_ok st"
  shows "inc_loop lib now val st =
     (if \<exists>p\<in>set (reached val st). last_put (the (sw_pt st p)) then None
      else Some (advanced lib now val st, all_cbs (sw_pt st) (reached val st)))"
proof (cases "val > INT_MAX")
  case False
  then show ?thesis using timeline_signal_eq [OF l o] by (subst inc_loop.simps) simp
next
  case True
  have big: "2147483647 < uint val" using True by (simp add: INT_MAX_def word_less_def)
  have "pt_dist st p \<le> uint INT_MAX" "pt_dist st p \<le> uint val" for p
    using seq_dist_less [of "tl_value (sw_tl st)" "the (sw_pt st p)"] big by (simp_all add: INT_MAX_def)
  then have all: "reached INT_MAX st = pt_list (sw_tl st)" "reached val st = pt_list (sw_tl st)" by (simp_all add: reached_def)
  let ?st = "advanced lib now INT_MAX st"
  have "pt_list (sw_tl ?st) = []"
    using all(1) unfolding advanced_fields(1) [OF lib l] reached_def by (metis (no_types, lifting) filter_False filter_id_conv not_le)
  from inc_loop_empty [OF this] have rest: "inc_loop lib now (val - INT_MAX) ?st =
      Some (?st\<lparr>sw_tl := (sw_tl ?st)\<lparr>tl_value := tl_value (sw_tl ?st) + (val - INT_MAX)\<rparr>\<rparr>, [])" .
  have "?st\<lparr>sw_tl := (sw_tl ?st)\<lparr>tl_value := tl_value (sw_tl ?st) + (val - INT_MAX)\<rparr>\<rparr> = advanced lib now val st"
    unfolding advanced_def all by (simp add: fold_unlink_value)
  with rest timeline_signal_eq [OF l o, of INT_MAX lib now] True show ?thesis
    by (subst inc_loop.simps) (simp add: all)
qed
lemma reached_inv:
  assumes "timeline_reach lib s" and "ss_open s"
  shows "inc_loop lib now val (ss_state s) =
     (if \<exists>p\<in>set (reached val (ss_state s)). last_put (the (sw_pt (ss_state s) p)) then None
      else Some (advanced lib now val (ss_state s), all_cbs (sw_pt (ss_state s)) (reached val (ss_state s))))"
  using inc_loop_eq [OF reachD(1) [OF assms(1)] reachD(3) [OF assms(1)] reachD(6) [OF assms]] .

text \<open>
  C15. When advancing the counter by any number of 32 bits returns, it has signaled exactly the fences that lie at
  most that far ahead, in their order, each with its callbacks in the order of its list, and has taken them off the
  list; the others are as they were.  This holds also where the counter wraps and where the increment is larger than
  \<open>INT_MAX\<close> and is done in pieces.
\<close>

theorem timeline_inc_exact:
  assumes "timeline_reach lib s" and "ss_open s" and "sw_sync_ioctl_inc lib now (Some val) (ss_state s) = Some (r, st', cs)"
  shows "r = None \<and> tl_value (sw_tl st') = tl_value (sw_tl (ss_state s)) + val \<and>
         cs = concat (map (\<lambda>p. cb_list (the (sw_pt (ss_state s) p)))
                (filter (\<lambda>p. pt_dist (ss_state s) p \<le> uint val) (pt_list (sw_tl (ss_state s))))) \<and>
         pt_list (sw_tl st') = filter (\<lambda>p. uint val < pt_dist (ss_state s) p) (pt_list (sw_tl (ss_state s))) \<and>
         (\<forall>p. if p \<in> set (pt_list (sw_tl (ss_state s))) \<and> pt_dist (ss_state s) p \<le> uint val
              then \<exists>f. sw_pt st' p = Some f \<and> signaled_bit f else sw_pt st' p = sw_pt (ss_state s) p)"
proof -
  let ?st = "ss_state s"
  note R = reachD [OF assms(1)]
  have e: "r = None" "st' = advanced lib now val ?st" "cs = all_cbs (sw_pt ?st) (reached val ?st)"
    using assms(3) reached_inv [OF assms(1,2), of now val] by (auto simp: sw_sync_ioctl_inc_def split: if_splits)
  have "pending_cbs (the (sw_pt ?st p)) = cb_list (the (sw_pt ?st p))" if p: "p \<in> set (reached val ?st)" for p
  proof -
    obtain f where f: "sw_pt ?st p = Some f" using p R(3) by (auto simp: reached_def list_ok_def)
    with p R(4) assms(2) have "\<not> signaled_bit f" by (auto simp: reached_def fences_ok_def)
    then show ?thesis by (simp add: f pending_cbs_def)
  qed
  then have "cs = concat (map (\<lambda>p. cb_list (the (sw_pt ?st p))) (reached val ?st))"
    unfolding e(3) all_cbs_def by (intro arg_cong [of _ _ concat] map_cong refl)
  moreover have "if p \<in> set (pt_list (sw_tl ?st)) \<and> pt_dist ?st p \<le> uint val
      then \<exists>f. sw_pt st' p = Some f \<and> signaled_bit f else sw_pt st' p = sw_pt ?st p" for p
    using R(3) unfolding e(2) advanced_fields(5) [OF R(1,3)] by (auto simp: signal_all_def reached_def list_ok_def)
  ultimately show ?thesis
    using e(1) unfolding e(2) advanced_fields(1,3) [OF R(1,3)] reached_def by blast
qed

fun list_tree :: "nat list \<Rightarrow> nat tree" where
  "list_tree [] = Leaf"
| "list_tree (x # xs) = Node Leaf x (list_tree xs)"

lemma inorder_list_tree [simp]: "inorder (list_tree xs) = xs"
  by (induction xs) auto

definition list_lib :: rb_lib where
  "list_lib = \<lparr>rb_insert_color = (\<lambda>t. t), rb_erase = (\<lambda>x t. list_tree (remove1 x (inorder t)))\<rparr>"

lemma list_lib_ok: "rb_lib_ok list_lib"
  by (simp add: rb_lib_ok_def list_lib_def)

definition ex_fence :: "u64 \<Rightarrow> dma_fence" where
  "ex_fence n = dma_fence_init 1 n"

definition ex_start :: sync_sys where
  "ex_start = \<lparr>ss_state = \<lparr>sw_tl = \<lparr>tl_kref = 1, tl_context = 1, tl_value = 0, pt_tree = Leaf, pt_list = []\<rparr>, sw_pt = (\<lambda>_. None)\<rparr>, ss_open = True\<rparr>"

definition ex_one :: sync_sys where
  "ex_one = \<lparr>ss_state = \<lparr>sw_tl = \<lparr>tl_kref = 2, tl_context = 1, tl_value = 0, pt_tree = Node Leaf 7 Leaf, pt_list = [7]\<rparr>,
     sw_pt = [7 \<mapsto> ex_fence 5]\<rparr>, ss_open = True\<rparr>"

definition ex_two :: sync_sys where
  "ex_two = \<lparr>ss_state = \<lparr>sw_tl = \<lparr>tl_kref = 3, tl_context = 1, tl_value = 0, pt_tree = Node (Node Leaf 8 Leaf) 7 Leaf, pt_list = [8, 7]\<rparr>,
     sw_pt = [7 \<mapsto> ex_fence 5, 8 \<mapsto> ex_fence 3]\<rparr>, ss_open = True\<rparr>"

definition ex_watched :: sync_sys where
  "ex_watched = \<lparr>ss_state = \<lparr>sw_tl = \<lparr>tl_kref = 3, tl_context = 1, tl_value = 0, pt_tree = Node (Node Leaf 8 Leaf) 7 Leaf, pt_list = [8, 7]\<rparr>,
     sw_pt = [7 \<mapsto> (ex_fence 5)\<lparr>enable_signal_bit := True, cb_list := [(20, UserFunc 1)]\<rparr>, 8 \<mapsto> ex_fence 3]\<rparr>, ss_open = True\<rparr>"

lemmas ex_defs = ex_start_def ex_one_def ex_two_def ex_watched_def ex_fence_def list_lib_def

lemma ex_create_one: "sync_pt_create list_lib True 7 5 0 (ss_state ex_start) = (Some 7, ss_state ex_one)"
  by (simp add: create_ahead ex_defs new_fence_def sync_timeline_get_def)

lemma ex_create_two: "sync_pt_create list_lib True 8 3 0 (ss_state ex_one) = (Some 8, ss_state ex_two)"
  by (simp add: create_ahead ex_defs new_fence_def sync_timeline_get_def dma_fence_init_def)

lemma ex_reach:
  "timeline_reach list_lib ex_one" "timeline_reach list_lib ex_two" "timeline_reach list_lib ex_watched"
proof -
  have "sync_start ex_start"
    by (auto simp: sync_start_def sw_sync_debugfs_open_def sync_timeline_create_def dma_fence_context_alloc_def ex_start_def)
  then have "timeline_reach list_lib ex_start" by (intro reach_start) (simp add: list_lib_ok)
  moreover have "sync_step list_lib ex_start (CreatePt True 7 5 0) ex_one"
    using st_create [of ex_start 7 list_lib True 5 0] ex_create_one by (simp add: ex_start_def ex_one_def)
  ultimately show one: "timeline_reach list_lib ex_one" by (rule reach_step)
  have "sync_step list_lib ex_one (CreatePt True 8 3 0) ex_two"
    using st_create [of ex_one 8 list_lib True 3 0] ex_create_two by (simp add: ex_one_def ex_two_def)
  with one show two: "timeline_reach list_lib ex_two" by (rule reach_step)
  have "sync_step list_lib ex_two (AddPtCb 7 20 (UserFunc 1) 0) (set_pt 7 ((ex_fence 5)\<lparr>enable_signal_bit := True, cb_list := [(20, UserFunc 1)]\<rparr>) ex_two)"
    by (rule st_add [where f = "ex_fence 5" and r = None and cs = "[]"])
      (simp_all add: ex_two_def ex_fence_def dma_fence_init_def dma_fence_add_callback_def add_callback_locked_def
        enable_signaling_locked_def timeline_fence_enable_signaling_def)
  moreover have "set_pt 7 ((ex_fence 5)\<lparr>enable_signal_bit := True, cb_list := [(20, UserFunc 1)]\<rparr>) ex_two = ex_watched"
    by (simp add: set_pt_def ex_two_def ex_watched_def fun_eq_iff)
  ultimately show "timeline_reach list_lib ex_watched" using two by (metis reach_step)
qed
theorem timeline_inc_exact_witness:
  "\<exists>st' cs. sw_sync_ioctl_inc list_lib 9 (Some 3) (ss_state ex_two) = Some (None, st', cs) \<and> pt_list (sw_tl st') = [7] \<and>
     tl_value (sw_tl st') = 3"
proof -
  have d: "pt_dist (ss_state ex_two) 8 = 3" "pt_dist (ss_state ex_two) 7 = 5" "pt_list (sw_tl (ss_state ex_two)) = [8, 7]"
    by (simp_all add: ex_two_def ex_fence_def dma_fence_init_def seq_dist_def)
  have op: "ss_open ex_two" by (simp add: ex_two_def)
  have "reached 3 (ss_state ex_two) = [8]" by (simp add: reached_def d)
  moreover have "\<not> last_put (the (sw_pt (ss_state ex_two) 8))"
    by (simp add: ex_two_def ex_fence_def dma_fence_init_def last_put_def cb_total_def)
  ultimately obtain st' cs where e: "sw_sync_ioctl_inc list_lib 9 (Some 3) (ss_state ex_two) = Some (None, st', cs)"
    using reached_inv [OF ex_reach(2) op, of 9 3] by (simp add: sw_sync_ioctl_inc_def)
  from timeline_inc_exact [OF ex_reach(2) op this] have "pt_list (sw_tl st') = [7]" "tl_value (sw_tl st') = 3"
    by (simp_all add: d) (simp add: ex_two_def)
  with e show ?thesis by blast
qed

text \<open>
  C23. Advancing the counter locks up in exactly one case: a fence that it reaches has callbacks that drop the last
  reference, so that the release of the fence waits for the lock of the timeline that the same thread holds.
\<close>

theorem timeline_signal_deadlocks:
  assumes "timeline_reach lib s" and "ss_open s"
  shows "sw_sync_ioctl_inc lib now (Some val) (ss_state s) = None \<longleftrightarrow>
         (\<exists>p f. p \<in> set (pt_list (sw_tl (ss_state s))) \<and> sw_pt (ss_state s) p = Some f \<and> pt_dist (ss_state s) p \<le> uint val \<and>
            0 < sum_list (map cb_puts (cb_list f)) \<and> refcount f \<le> sum_list (map cb_puts (cb_list f)))"
proof -
  note R = reachD [OF assms(1)]
  have "sw_sync_ioctl_inc lib now (Some val) (ss_state s) = None \<longleftrightarrow>
      (\<exists>p\<in>set (reached val (ss_state s)). last_put (the (sw_pt (ss_state s) p)))"
    using reached_inv [OF assms, of now val] by (simp add: sw_sync_ioctl_inc_def)
  also have "\<dots> \<longleftrightarrow> (\<exists>p f. p \<in> set (reached val (ss_state s)) \<and> sw_pt (ss_state s) p = Some f \<and> last_put f)"
    using R(3) by (force simp: reached_def list_ok_def)
  also have "\<dots> \<longleftrightarrow> (\<exists>p f. p \<in> set (reached val (ss_state s)) \<and> sw_pt (ss_state s) p = Some f \<and> 0 < cb_total f \<and> refcount f \<le> cb_total f)"
    using R(4) assms(2) by (auto simp: last_put_def reached_def fences_ok_def)
  finally show ?thesis by (auto simp: reached_def simp flip: cb_total_def)
qed

theorem timeline_signal_deadlocks_witness: "sw_sync_ioctl_inc list_lib 9 (Some 5) (ss_state ex_watched) = None"
proof -
  have op: "ss_open ex_watched" by (simp add: ex_watched_def)
  let ?f = "(ex_fence 5)\<lparr>enable_signal_bit := True, cb_list := [(20, UserFunc 1)]\<rparr>"
  have p: "7 \<in> set (pt_list (sw_tl (ss_state ex_watched)))" "sw_pt (ss_state ex_watched) 7 = Some ?f"
    "pt_dist (ss_state ex_watched) 7 \<le> uint (5 :: u32)"
    by (simp_all add: ex_watched_def ex_fence_def dma_fence_init_def seq_dist_def)
  have f: "sum_list (map cb_puts (cb_list ?f)) = 1" "refcount ?f = 1"
    by (simp_all add: cb_puts_def ex_fence_def dma_fence_init_def)
  have "0 < sum_list (map cb_puts (cb_list ?f))" "refcount ?f \<le> sum_list (map cb_puts (cb_list ?f))"
    unfolding f by simp_all
  with p timeline_signal_deadlocks [OF ex_reach(3) op, of 9 5] show ?thesis by blast
qed

theorem timeline_reachable_witness:
  "pt_list (sw_tl (ss_state ex_two)) = [8, 7] \<and> sorted (map (pt_dist (ss_state ex_two)) (pt_list (sw_tl (ss_state ex_two))))"
proof -
  have "ss_open ex_two" by (simp add: ex_two_def)
  with timeline_reachable [OF ex_reach(2)] have "sorted (map (pt_dist (ss_state ex_two)) (pt_list (sw_tl (ss_state ex_two))))" by blast
  moreover have "pt_list (sw_tl (ss_state ex_two)) = [8, 7]" by (simp add: ex_two_def)
  ultimately show ?thesis by blast
qed

section \<open>Creating a fence\<close>

text \<open>
  C24. Creating a fence with a number always gives a fence of that number with a reference: a signaled one
  exactly if the counter has reached the number; otherwise a fence with references that is ahead already, whenever
  there is one, and else the new one.
\<close>

theorem sync_pt_create_spec:
  assumes "timeline_reach lib s" and "ss_open s" and "sw_pt (ss_state s) new = None"
    and "sync_pt_create lib True new val now (ss_state s) = (r, st')"
  shows "\<exists>pt f. r = Some pt \<and> sw_pt st' pt = Some f \<and> ucast (fence_seqno f) = val \<and> 0 < refcount f \<and>
           (signaled_bit f \<longleftrightarrow> sint (val - tl_value (sw_tl (ss_state s))) \<le> 0) \<and>
           (pt \<noteq> new \<longleftrightarrow> 0 < sint (val - tl_value (sw_tl (ss_state s))) \<and>
              (\<exists>q g. q \<in> set (pt_list (sw_tl (ss_state s))) \<and> sw_pt (ss_state s) q = Some g \<and> ucast (fence_seqno g) = val \<and> 0 < refcount g))"
proof -
  let ?st = "ss_state s" let ?k = "sint (val - tl_value (sw_tl ?st))"
  note R = reachD [OF assms(1)]
  have l: "list_ok ?st" and o: "order_ok ?st" using R(3) R(6) [OF assms(2)] by simp_all
  have nl: "new \<notin> set (pt_list (sw_tl ?st))" using l assms(3) by (auto simp: list_ok_def)
  have num: "ucast (fence_seqno (new_fence ?st val)) = val" by (simp add: new_fence_def dma_fence_init_def ucast_ucast_word)
  have dist: "ucast (fence_seqno g) = val \<longleftrightarrow> seq_dist (tl_value (sw_tl ?st)) g = ?k" for g
    by (simp add: seq_dist_def flip: word_eq_iff_signed)
  consider (reached) "?k \<le> 0"
    | (found) q where "0 < ?k" "pt_descend (sw_pt ?st) val new (pt_tree (sw_tl ?st)) = Inl q"
    | (inserted) t where "0 < ?k" "pt_descend (sw_pt ?st) val new (pt_tree (sw_tl ?st)) = Inr t"
    by (cases "pt_descend (sw_pt ?st) val new (pt_tree (sw_tl ?st))") force+
  then show ?thesis
  proof cases
    case reached
    then show ?thesis using create_reached [OF reached] assms(4) num by (auto simp: after_signal_def cb_total_def)
  next
    case (found q)
    from create_found [OF l o found] obtain g where g: "sw_pt ?st q = Some g" "q \<in> set (pt_list (sw_tl ?st))" "refcount g \<noteq> 0"
      "pt_dist ?st q = ?k" "dma_fence_get_rcu (the (sw_pt ?st q)) = Some (g\<lparr>refcount := refcount g + 1\<rparr>)" by metis
    have "r = Some q" "st' = ?st\<lparr>sw_pt := (sw_pt ?st)(q \<mapsto> g\<lparr>refcount := refcount g + 1\<rparr>)\<rparr>"
      using create_ahead [OF found(1)] found(2) g(5) assms(4) by simp_all
    moreover have "ucast (fence_seqno g) = val" using g(1,4) dist by simp
    moreover have "\<not> signaled_bit g" using R(4) assms(2) g(1,2) by (auto simp: fences_ok_def)
    ultimately show ?thesis using g(1,2,3) found(1) nl by auto
  next
    case (inserted t)
    from create_inserted [OF R(1) l o inserted(1) nl inserted(2)] obtain xs ys where x: "pt_list (sw_tl ?st) = xs @ ys"
      "\<forall>x\<in>set xs. pt_dist ?st x < ?k" "\<forall>y\<in>set ys. ?k < pt_dist ?st y \<or> pt_dist ?st y = ?k \<and> refcount (the (sw_pt ?st y)) = 0" by metis
    have "r = Some new" "sw_pt st' new = Some (new_fence ?st val)"
      using create_ahead [OF inserted(1)] inserted(2) assms(4) by auto
    moreover have "\<not> (\<exists>q g. q \<in> set (pt_list (sw_tl ?st)) \<and> sw_pt ?st q = Some g \<and> ucast (fence_seqno g) = val \<and> 0 < refcount g)"
      using x unfolding dist by (force simp: x(1))
    ultimately show ?thesis using num inserted(1) by auto
  qed
qed

theorem sync_pt_create_spec_witness:
  "\<exists>st' f. sync_pt_create list_lib True 9 5 0 (ss_state ex_two) = (Some 7, st') \<and> sw_pt st' 7 = Some f \<and> refcount f = 2"
proof -
  have op: "ss_open ex_two" and fresh: "sw_pt (ss_state ex_two) 9 = None" by (simp_all add: ex_two_def)
  have ahead: "0 < sint (5 - tl_value (sw_tl (ss_state ex_two)))" by (simp add: ex_two_def)
  have e: "sync_pt_create list_lib True 9 5 0 (ss_state ex_two) =
      (Some 7, (ss_state ex_two)\<lparr>sw_pt := (sw_pt (ss_state ex_two))(7 \<mapsto> (ex_fence 5)\<lparr>refcount := Suc 1\<rparr>)\<rparr>)"
    unfolding create_ahead [OF ahead] by (simp add: ex_two_def ex_fence_def dma_fence_init_def dma_fence_get_rcu_def)
  from sync_pt_create_spec [OF ex_reach(2) op fresh e] obtain f where
    "sw_pt ((ss_state ex_two)\<lparr>sw_pt := (sw_pt (ss_state ex_two))(7 \<mapsto> (ex_fence 5)\<lparr>refcount := Suc 1\<rparr>)\<rparr>) 7 = Some f" by auto
  then show ?thesis using e by auto
qed
section \<open>Requests for a fence\<close>

lemma pt_put_more:
  "sw_pt st pt = Some f \<Longrightarrow> 1 < refcount f \<Longrightarrow>
   pt_put lib held now pt st = Some (st\<lparr>sw_pt := (sw_pt st)(pt \<mapsto> f\<lparr>refcount := refcount f - 1\<rparr>)\<rparr>, [])"
  by (simp add: pt_put_def pt_put_ref_def)

lemma pt_put_last:
  "sw_pt st pt = Some f \<Longrightarrow> refcount f = 1 \<Longrightarrow> cb_list f = [] \<Longrightarrow>
   pt_put lib False now pt st =
     Some (st\<lparr>sw_tl := sync_timeline_put (if pt \<in> set (pt_list (sw_tl st)) then unlink_pt lib pt (sw_tl st) else sw_tl st),
              sw_pt := (sw_pt st)(pt := None)\<rparr>, [])"
  by (simp add: pt_put_def pt_put_ref_def pt_release_def dma_fence_release_def timeline_fence_release_def Let_def)

text \<open>Two references are dropped again, or the file keeps one.\<close>

definition same_timeline :: "sync_state \<Rightarrow> sync_state \<Rightarrow> bool" where
  "same_timeline st st' \<longleftrightarrow>
     pt_list (sw_tl st') = pt_list (sw_tl st) \<and> sw_pt st' = sw_pt st \<and> tl_value (sw_tl st') = tl_value (sw_tl st) \<and>
     tl_kref (sw_tl st') = tl_kref (sw_tl st)"

text \<open>What \<open>sync_pt_create\<close> did can be undone by dropping the one reference it took.\<close>

lemma create_undo:
  assumes reach: "timeline_reach lib s" and op: "ss_open s" and new: "sw_pt (ss_state s) new = None"
    and c: "sync_pt_create lib True new val now (ss_state s) = (Some pt, st1)"
  obtains f st2 where "sw_pt st1 pt = Some f" "0 < refcount f" "pt_put lib False now pt st1 = Some (st2, [])" "same_timeline (ss_state s) st2"
proof -
  let ?st = "ss_state s" let ?k = "sint (val - tl_value (sw_tl ?st))"
  note R = reachD [OF reach]
  have l: "list_ok ?st" and o: "order_ok ?st" using R(3) R(6) [OF op] by simp_all
  have nl: "new \<notin> set (pt_list (sw_tl ?st))" using l new by (auto simp: list_ok_def)
  have back1: "(sw_pt ?st)(new := None) = sw_pt ?st" using new by auto
  consider (reached) "?k \<le> 0"
    | (found) q where "0 < ?k" "pt_descend (sw_pt ?st) val new (pt_tree (sw_tl ?st)) = Inl q"
    | (inserted) t where "0 < ?k" "pt_descend (sw_pt ?st) val new (pt_tree (sw_tl ?st)) = Inr t"
    by (cases "pt_descend (sw_pt ?st) val new (pt_tree (sw_tl ?st))") force+
  then show ?thesis
  proof cases
    case reached
    let ?f = "after_signal now (new_fence ?st val)"
    have f: "refcount ?f = 1" "cb_list ?f = []" by (simp_all add: after_signal_def cb_total_def)
    have e: "pt = new" "st1 = ?st\<lparr>sw_tl := sync_timeline_get (sw_tl ?st), sw_pt := (sw_pt ?st)(new \<mapsto> ?f)\<rparr>"
      using create_reached [OF reached] c by auto
    have p: "sw_pt st1 pt = Some ?f" by (simp add: e)
    show ?thesis
      by (rule that [OF p _ pt_put_last [OF p f]])
        (use f nl back1 in \<open>simp_all add: e same_timeline_def sync_timeline_get_def sync_timeline_put_def\<close>)
  next
    case (found q)
    from create_found [OF l o found] obtain g where g: "sw_pt ?st q = Some g" "refcount g \<noteq> 0"
      "dma_fence_get_rcu (the (sw_pt ?st q)) = Some (g\<lparr>refcount := refcount g + 1\<rparr>)" by metis
    let ?f = "g\<lparr>refcount := refcount g + 1\<rparr>"
    have e: "pt = q" "st1 = ?st\<lparr>sw_pt := (sw_pt ?st)(q \<mapsto> ?f)\<rparr>"
      using create_ahead [OF found(1)] found(2) g(3) c by auto
    have p: "sw_pt st1 pt = Some ?f" "1 < refcount ?f" using g(2) by (simp_all add: e)
    have "(sw_pt ?st)(q \<mapsto> g) = sw_pt ?st" using g(1) by auto
    then show ?thesis
      by (intro that [OF p(1) _ pt_put_more [OF p]]) (simp_all add: e same_timeline_def)
  next
    case (inserted t)
    from create_inserted [OF R(1) l o inserted(1) nl inserted(2)] obtain xs ys where x: "pt_list (sw_tl ?st) = xs @ ys"
      "list_add_before new (rb_next new (inorder (rb_insert_color lib t))) (pt_list (sw_tl ?st)) = xs @ new # ys" by metis
    have e: "pt = new" "st1 = ?st\<lparr>sw_tl := (sync_timeline_get (sw_tl ?st))\<lparr>pt_tree := rb_insert_color lib t, pt_list := xs @ new # ys\<rparr>,
              sw_pt := (sw_pt ?st)(new \<mapsto> new_fence ?st val)\<rparr>"
      using create_ahead [OF inserted(1)] inserted(2) x(2) c by auto
    have p: "sw_pt st1 pt = Some (new_fence ?st val)" by (simp add: e)
    have r: "remove1 new (xs @ new # ys) = xs @ ys" using nl x(1) by (simp add: remove1_append)
    show ?thesis
      by (rule that [OF p _ pt_put_last [OF p]])
        (use back1 r x(1) in \<open>simp_all add: e same_timeline_def sync_timeline_get_def sync_timeline_put_def unlink_pt_def\<close>)
  qed
qed
lemma get_then_put:
  assumes f: "sw_pt st pt = Some f" and r: "0 < refcount f"
  shows "pt_put lib False now pt (pt_get pt st) = Some (st, [])"
proof -
  have p: "sw_pt (pt_get pt st) pt = Some (f\<lparr>refcount := refcount f + 1\<rparr>)" "1 < refcount (f\<lparr>refcount := refcount f + 1\<rparr>)"
    using r by (simp_all add: pt_get_def dma_fence_get_def f)
  have "(sw_pt st)(pt \<mapsto> f) = sw_pt st" using f by auto
  then show ?thesis unfolding pt_put_more [OF p] by (simp add: pt_get_def)
qed

text \<open>
  C25. A request for a fence that nothing comes in between always returns.  When it fails, for whatever reason and in whatever step, the timeline is
  as it was: no fence is left over, no reference is lost, and the counter and the list are the same.  When it
  succeeds, the file holds a reference of a fence with the requested number.
\<close>

theorem failed_create_leaves_nothing:
  assumes "timeline_reach lib s" and "ss_open s" and "sw_pt (ss_state s) new = None"
  shows "\<exists>r st'. sw_sync_ioctl_create_fence lib now fd copy_in alloc_ok new file_ok copy_out (ss_state s) = Some (r, st') \<and>
           (if r = 0 then \<exists>pt f val. copy_in = Some val \<and> sw_pt st' pt = Some f \<and> 0 < refcount f \<and> ucast (fence_seqno f) = val
            else same_timeline (ss_state s) st')"
proof -
  let ?st = "ss_state s" and ?io = "sw_sync_ioctl_create_fence lib now fd copy_in alloc_ok new file_ok copy_out (ss_state s)"
  consider (early) "fd < 0 \<or> copy_in = None \<or> \<not> alloc_ok" | (made) val where "0 \<le> fd" "copy_in = Some val" "alloc_ok"
    by fastforce
  then show ?thesis
  proof cases
    case early
    then have "\<exists>r. ?io = Some (r, ?st) \<and> r \<noteq> 0"
      by (auto simp: sw_sync_ioctl_create_fence_def sync_pt_create_def split: option.split)
    then show ?thesis by (auto simp: same_timeline_def)
  next
    case made
    obtain r st1 where c0: "sync_pt_create lib True new val now ?st = (r, st1)" by (metis surj_pair)
    from sync_pt_create_spec [OF assms c0] obtain pt f where c: "sync_pt_create lib True new val now ?st = (Some pt, st1)"
      "sw_pt st1 pt = Some f" "ucast (fence_seqno f) = val" "0 < refcount f" using c0 by auto
    from create_undo [OF assms c(1)] obtain st2 where u: "pt_put lib False now pt st1 = Some (st2, [])" "same_timeline ?st st2" by metis
    have "?io = (if \<not> file_ok then Some (- 12, st2) else if \<not> copy_out then Some (- 14, st2) else Some (0, st1))"
      using made c(1) u(1) get_then_put [OF c(2,4)] by (simp add: sw_sync_ioctl_create_fence_def)
    then show ?thesis using u(2) c made(2) by auto
  qed
qed

theorem failed_create_leaves_nothing_witness:
  "\<exists>st'. sw_sync_ioctl_create_fence list_lib 0 3 (Some 5) True 9 False True (ss_state ex_two) = Some (- 12, st') \<and>
     pt_list (sw_tl st') = [8, 7]"
proof -
  have "ss_open ex_two" "sw_pt (ss_state ex_two) 9 = None" by (simp_all add: ex_two_def)
  from failed_create_leaves_nothing [OF ex_reach(2) this, of 0 3 "Some 5" True False True] obtain r st' where
    e: "sw_sync_ioctl_create_fence list_lib 0 3 (Some 5) True 9 False True (ss_state ex_two) = Some (r, st')"
    and n: "r \<noteq> 0 \<Longrightarrow> same_timeline (ss_state ex_two) st'" by (metis (full_types))
  have "r = - 12" using e by (auto simp: sw_sync_ioctl_create_fence_def split: prod.splits option.splits)
  then show ?thesis using e n by (simp add: same_timeline_def) (simp add: ex_two_def)
qed

end
