(* ===== verification/Bpf_Reg.thy ===== *)
theory Bpf_Reg
  imports Kernel_Prelude
begin

text \<open>
  The register states of the BPF verifier (\<open>kernel/bpf/verifier.c\<close>): what is known of a scalar at a point of a program,
  as ranges of the 64 bit value and of its low half, signed and unsigned, and as a number some of whose bits are known
  (\<open>struct tnum\<close>).

  Signed fields are words that are compared through \<open>sint\<close>.  The operations on \<open>struct tnum\<close> are in a library outside
  the repository: they are the record \<open>tnum_lib\<close>, an argument \<open>T\<close> of everything that uses them.
\<close>

section \<open>Data\<close>

text \<open>A number of which the bits in \<open>t_mask\<close> are unknown and the others are those of \<open>t_value\<close>.\<close>

record tnum =
  t_value :: u64
  t_mask :: u64

record tnum_lib =
  tnum_unknown :: tnum
  tnum_const :: "u64 \<Rightarrow> tnum"
  tnum_range :: "u64 \<Rightarrow> u64 \<Rightarrow> tnum"
  tnum_lshift :: "tnum \<Rightarrow> u64 \<Rightarrow> tnum"
  tnum_rshift :: "tnum \<Rightarrow> u64 \<Rightarrow> tnum"
  tnum_arshift :: "tnum \<Rightarrow> u64 \<Rightarrow> nat \<Rightarrow> tnum"
  tnum_add :: "tnum \<Rightarrow> tnum \<Rightarrow> tnum"
  tnum_sub :: "tnum \<Rightarrow> tnum \<Rightarrow> tnum"
  tnum_mul :: "tnum \<Rightarrow> tnum \<Rightarrow> tnum"
  tnum_and :: "tnum \<Rightarrow> tnum \<Rightarrow> tnum"
  tnum_or :: "tnum \<Rightarrow> tnum \<Rightarrow> tnum"
  tnum_xor :: "tnum \<Rightarrow> tnum \<Rightarrow> tnum"
  tnum_intersect :: "tnum \<Rightarrow> tnum \<Rightarrow> tnum"
  tnum_cast :: "tnum \<Rightarrow> nat \<Rightarrow> tnum"
  tnum_subreg :: "tnum \<Rightarrow> tnum"
  tnum_clear_subreg :: "tnum \<Rightarrow> tnum"
  tnum_const_subreg :: "tnum \<Rightarrow> u64 \<Rightarrow> tnum"
  tnum_is_const :: "tnum \<Rightarrow> bool"
  tnum_equals_const :: "tnum \<Rightarrow> u64 \<Rightarrow> bool"
  tnum_subreg_is_const :: "tnum \<Rightarrow> bool"
  tnum_in :: "tnum \<Rightarrow> tnum \<Rightarrow> bool"

datatype bpf_reg_type =
    NOT_INIT | SCALAR_VALUE | PTR_TO_SOCKET | PTR_TO_TCP_SOCK | PTR_TO_MAP_VALUE | PTR_TO_SOCK_COMMON | OtherPtr nat

text \<open>\<open>r_raw\<close> is the union of map pointer and packet range.\<close>

record bpf_reg_state =
  r_type :: bpf_reg_type
  r_off :: u32
  r_raw :: u64
  r_id :: u32
  var_off :: tnum
  smin_value :: u64
  smax_value :: u64
  umin_value :: u64
  umax_value :: u64
  s32_min_value :: u32
  s32_max_value :: u32
  u32_min_value :: u32
  u32_max_value :: u32
  frameno :: u32
  precise :: bool

abbreviation S64_MIN :: u64 where "S64_MIN \<equiv> 0x8000000000000000"
abbreviation S64_MAX :: u64 where "S64_MAX \<equiv> 0x7FFFFFFFFFFFFFFF"
abbreviation U64_MAX :: u64 where "U64_MAX \<equiv> 0xFFFFFFFFFFFFFFFF"
abbreviation S32_MIN :: u32 where "S32_MIN \<equiv> 0x80000000"
abbreviation S32_MAX :: u32 where "S32_MAX \<equiv> 0x7FFFFFFF"
abbreviation U32_MAX :: u32 where "U32_MAX \<equiv> 0xFFFFFFFF"

text \<open>\<open>max_t\<close> and \<open>min_t\<close> at a signed type; at an unsigned type they are \<open>max\<close> and \<open>min\<close>.\<close>

definition smax_t :: "'a::len word \<Rightarrow> 'a word \<Rightarrow> 'a word" where
  "smax_t a b = (if sint a > sint b then a else b)"

definition smin_t :: "'a::len word \<Rightarrow> 'a word \<Rightarrow> 'a word" where
  "smin_t a b = (if sint a < sint b then a else b)"

section \<open>Marking a register\<close>

definition verifier2_mark_reg_known :: "tnum_lib \<Rightarrow> u64 \<Rightarrow> bpf_reg_state \<Rightarrow> bpf_reg_state" where
  "verifier2_mark_reg_known T imm reg =
     reg\<lparr>var_off := tnum_const T imm, smin_value := imm, smax_value := imm, umin_value := imm, umax_value := imm,
         s32_min_value := ucast imm, s32_max_value := ucast imm, u32_min_value := ucast imm, u32_max_value := ucast imm\<rparr>"

definition verifier_mark_reg_known :: "tnum_lib \<Rightarrow> u64 \<Rightarrow> bpf_reg_state \<Rightarrow> bpf_reg_state" where
  "verifier_mark_reg_known T imm reg = verifier2_mark_reg_known T imm (reg\<lparr>r_off := 0, r_raw := 0, r_id := 0\<rparr>)"

definition verifier_mark_reg32_known :: "tnum_lib \<Rightarrow> u64 \<Rightarrow> bpf_reg_state \<Rightarrow> bpf_reg_state" where
  "verifier_mark_reg32_known T imm reg =
     reg\<lparr>var_off := tnum_const_subreg T (var_off reg) imm,
         s32_min_value := ucast imm, s32_max_value := ucast imm, u32_min_value := ucast imm, u32_max_value := ucast imm\<rparr>"

definition verifier_mark_reg64_unbounded :: "bpf_reg_state \<Rightarrow> bpf_reg_state" where
  "verifier_mark_reg64_unbounded reg = reg\<lparr>smin_value := S64_MIN, smax_value := S64_MAX, umin_value := 0, umax_value := U64_MAX\<rparr>"

definition verifier_mark_reg32_unbounded :: "bpf_reg_state \<Rightarrow> bpf_reg_state" where
  "verifier_mark_reg32_unbounded reg =
     reg\<lparr>s32_min_value := S32_MIN, s32_max_value := S32_MAX, u32_min_value := 0, u32_max_value := U32_MAX\<rparr>"

definition verifier_mark_reg_unbounded :: "bpf_reg_state \<Rightarrow> bpf_reg_state" where
  "verifier_mark_reg_unbounded reg =
     reg\<lparr>smin_value := S64_MIN, smax_value := S64_MAX, umin_value := 0, umax_value := U64_MAX,
         s32_min_value := S32_MIN, s32_max_value := S32_MAX, u32_min_value := 0, u32_max_value := U32_MAX\<rparr>"

text \<open>\<open>prec\<close> is \<open>env->subprog_cnt > 1 || !env->bpf_capable\<close>.\<close>

definition mark_reg_unknown :: "tnum_lib \<Rightarrow> bool \<Rightarrow> bpf_reg_state \<Rightarrow> bpf_reg_state" where
  "mark_reg_unknown T prec reg =
     verifier_mark_reg_unbounded
       (reg\<lparr>r_off := 0, r_raw := 0, r_id := 0, r_type := SCALAR_VALUE, var_off := tnum_unknown T, frameno := 0, precise := prec\<rparr>)"

definition verifier_mark_reg_not_init :: "tnum_lib \<Rightarrow> bool \<Rightarrow> bpf_reg_state \<Rightarrow> bpf_reg_state" where
  "verifier_mark_reg_not_init T prec reg = (mark_reg_unknown T prec reg)\<lparr>r_type := NOT_INIT\<rparr>"

definition verifier_mark_reg_const_zero :: "tnum_lib \<Rightarrow> bpf_reg_state \<Rightarrow> bpf_reg_state" where
  "verifier_mark_reg_const_zero T reg = (verifier_mark_reg_known T 0 reg)\<lparr>r_type := SCALAR_VALUE\<rparr>"

section \<open>Exchanging knowledge between the fields\<close>

definition verifier_update_reg32_bounds :: "tnum_lib \<Rightarrow> bpf_reg_state \<Rightarrow> bpf_reg_state" where
  "verifier_update_reg32_bounds T reg =
     (let var32_off = tnum_subreg T (var_off reg)
      in reg\<lparr>s32_min_value := smax_t (s32_min_value reg) (ucast (t_value var32_off OR (t_mask var32_off AND 0xFFFFFFFF80000000))),
             s32_max_value := smin_t (s32_max_value reg) (ucast (t_value var32_off OR (t_mask var32_off AND 0x7FFFFFFF))),
             u32_min_value := max (u32_min_value reg) (ucast (t_value var32_off)),
             u32_max_value := min (u32_max_value reg) (ucast (t_value var32_off OR t_mask var32_off))\<rparr>)"

definition verifier_update_reg64_bounds :: "bpf_reg_state \<Rightarrow> bpf_reg_state" where
  "verifier_update_reg64_bounds reg =
     reg\<lparr>smin_value := smax_t (smin_value reg) (t_value (var_off reg) OR (t_mask (var_off reg) AND S64_MIN)),
         smax_value := smin_t (smax_value reg) (t_value (var_off reg) OR (t_mask (var_off reg) AND S64_MAX)),
         umin_value := max (umin_value reg) (t_value (var_off reg)),
         umax_value := min (umax_value reg) (t_value (var_off reg) OR t_mask (var_off reg))\<rparr>"

definition verifier_update_reg_bounds :: "tnum_lib \<Rightarrow> bpf_reg_state \<Rightarrow> bpf_reg_state" where
  "verifier_update_reg_bounds T reg = verifier_update_reg64_bounds (verifier_update_reg32_bounds T reg)"

definition verifier_reg32_deduce_bounds :: "bpf_reg_state \<Rightarrow> bpf_reg_state" where
  "verifier_reg32_deduce_bounds reg =
     (if sint (s32_min_value reg) \<ge> 0 \<or> sint (s32_max_value reg) < 0
      then let lo = max (s32_min_value reg) (u32_min_value reg); hi = min (s32_max_value reg) (u32_max_value reg)
           in reg\<lparr>s32_min_value := lo, u32_min_value := lo, s32_max_value := hi, u32_max_value := hi\<rparr>
      else if sint (u32_max_value reg) \<ge> 0
      then let hi = min (s32_max_value reg) (u32_max_value reg)
           in reg\<lparr>s32_min_value := u32_min_value reg, s32_max_value := hi, u32_max_value := hi\<rparr>
      else if sint (u32_min_value reg) < 0
      then let lo = max (s32_min_value reg) (u32_min_value reg)
           in reg\<lparr>s32_min_value := lo, u32_min_value := lo, s32_max_value := u32_max_value reg\<rparr>
      else reg)"

definition verifier_reg64_deduce_bounds :: "bpf_reg_state \<Rightarrow> bpf_reg_state" where
  "verifier_reg64_deduce_bounds reg =
     (if sint (smin_value reg) \<ge> 0 \<or> sint (smax_value reg) < 0
      then let lo = max (smin_value reg) (umin_value reg); hi = min (smax_value reg) (umax_value reg)
           in reg\<lparr>smin_value := lo, umin_value := lo, smax_value := hi, umax_value := hi\<rparr>
      else if sint (umax_value reg) \<ge> 0
      then let hi = min (smax_value reg) (umax_value reg)
           in reg\<lparr>smin_value := umin_value reg, smax_value := hi, umax_value := hi\<rparr>
      else if sint (umin_value reg) < 0
      then let lo = max (smin_value reg) (umin_value reg)
           in reg\<lparr>smin_value := lo, umin_value := lo, smax_value := umax_value reg\<rparr>
      else reg)"

definition verifier_reg_deduce_bounds :: "bpf_reg_state \<Rightarrow> bpf_reg_state" where
  "verifier_reg_deduce_bounds reg = verifier_reg64_deduce_bounds (verifier_reg32_deduce_bounds reg)"

definition verifier_reg_bound_offset :: "tnum_lib \<Rightarrow> bpf_reg_state \<Rightarrow> bpf_reg_state" where
  "verifier_reg_bound_offset T reg =
     (let var64_off = tnum_intersect T (var_off reg) (tnum_range T (umin_value reg) (umax_value reg));
          var32_off = tnum_intersect T (tnum_subreg T (var_off reg))
                        (tnum_range T (ucast (u32_min_value reg)) (ucast (u32_max_value reg)))
      in reg\<lparr>var_off := tnum_or T (tnum_clear_subreg T var64_off) var32_off\<rparr>)"

definition reg_bounds_sync :: "tnum_lib \<Rightarrow> bpf_reg_state \<Rightarrow> bpf_reg_state" where
  "reg_bounds_sync T reg =
     verifier_update_reg_bounds T (verifier_reg_bound_offset T (verifier_reg_deduce_bounds (verifier_update_reg_bounds T reg)))"

section \<open>Between 32 and 64 bits\<close>

definition verifier_reg32_bound_s64 :: "u32 \<Rightarrow> bool" where
  "verifier_reg32_bound_s64 a \<longleftrightarrow> sint a \<ge> 0 \<and> sint a \<le> 0x7FFFFFFF"

definition verifier_reg_assign_32_into_64 :: "bpf_reg_state \<Rightarrow> bpf_reg_state" where
  "verifier_reg_assign_32_into_64 reg =
     (let reg1 = reg\<lparr>umin_value := ucast (u32_min_value reg), umax_value := ucast (u32_max_value reg)\<rparr>
      in if verifier_reg32_bound_s64 (s32_min_value reg1) \<and> verifier_reg32_bound_s64 (s32_max_value reg1)
         then reg1\<lparr>smin_value := scast (s32_min_value reg1), smax_value := scast (s32_max_value reg1)\<rparr>
         else reg1\<lparr>smin_value := 0, smax_value := 0xFFFFFFFF\<rparr>)"

definition verifier_reg_combine_32_into_64 :: "tnum_lib \<Rightarrow> bpf_reg_state \<Rightarrow> bpf_reg_state" where
  "verifier_reg_combine_32_into_64 T reg =
     reg_bounds_sync T
       (if tnum_equals_const T (tnum_clear_subreg T (var_off reg)) 0 then verifier_reg_assign_32_into_64 reg
        else verifier_update_reg_bounds T (verifier_mark_reg64_unbounded reg))"

definition verifier_reg64_bound_s32 :: "u64 \<Rightarrow> bool" where
  "verifier_reg64_bound_s32 a \<longleftrightarrow> sint a > - 0x80000000 \<and> sint a < 0x7FFFFFFF"

definition verifier_reg64_bound_u32 :: "u64 \<Rightarrow> bool" where
  "verifier_reg64_bound_u32 a \<longleftrightarrow> a > 0 \<and> a < 0xFFFFFFFF"

definition reg_combine_64_into_32 :: "tnum_lib \<Rightarrow> bpf_reg_state \<Rightarrow> bpf_reg_state" where
  "reg_combine_64_into_32 T reg =
     (let reg1 = verifier_mark_reg32_unbounded reg;
          reg2 = (if verifier_reg64_bound_s32 (smin_value reg1) \<and> verifier_reg64_bound_s32 (smax_value reg1)
                  then reg1\<lparr>s32_min_value := ucast (smin_value reg1), s32_max_value := ucast (smax_value reg1)\<rparr> else reg1);
          reg3 = (if verifier_reg64_bound_u32 (umin_value reg2) \<and> verifier_reg64_bound_u32 (umax_value reg2)
                  then reg2\<lparr>u32_min_value := ucast (umin_value reg2), u32_max_value := ucast (umax_value reg2)\<rparr> else reg2)
      in reg_bounds_sync T reg3)"

definition zext_32_to_64 :: "tnum_lib \<Rightarrow> bpf_reg_state \<Rightarrow> bpf_reg_state" where
  "zext_32_to_64 T reg = verifier_reg_assign_32_into_64 (reg\<lparr>var_off := tnum_subreg T (var_off reg)\<rparr>)"

text \<open>\<open>sz\<close> is in bytes and less than 8.\<close>

definition coerce_reg_to_size :: "tnum_lib \<Rightarrow> nat \<Rightarrow> bpf_reg_state \<Rightarrow> bpf_reg_state" where
  "coerce_reg_to_size T sz reg =
     (let reg1 = reg\<lparr>var_off := tnum_cast T (var_off reg) sz\<rparr>;
          msk = push_bit (sz * 8) 1 - 1;
          reg2 = (if umin_value reg1 AND NOT msk = umax_value reg1 AND NOT msk
                  then reg1\<lparr>umin_value := umin_value reg1 AND msk, umax_value := umax_value reg1 AND msk\<rparr>
                  else reg1\<lparr>umin_value := 0, umax_value := msk\<rparr>);
          reg3 = reg2\<lparr>smin_value := umin_value reg2, smax_value := umax_value reg2\<rparr>
      in if sz \<ge> 4 then reg3 else reg_combine_64_into_32 T reg3)"

end
