(* ===== verification/Bpf_Branch.thy ===== *)
theory Bpf_Branch
  imports Bpf_Reg
begin

text \<open>
  What the BPF verifier learns of scalars from a conditional jump (\<open>kernel/bpf/verifier.c\<close>): whether the jump is taken
  (\<open>is_branch_taken\<close>), how the state of a register that is compared with a constant is refined on both ways
  (\<open>reg_set_min_max\<close>) and how two registers that are compared for equality share what is known, the registers that are
  copies of each other (\<open>find_equal_scalars\<close>), and the comparison of two states by which exploration is cut off.

  \<open>is_power_of_2\<close> is a function of the kernel library: the argument \<open>pow2\<close>.
\<close>

section \<open>Is the jump taken?\<close>

text \<open>\<open>BPF_JA\<close> stands for the codes that are not conditional jumps.\<close>

datatype bpf_jmp_op =
    BPF_JA | BPF_JEQ | BPF_JGT | BPF_JGE | BPF_JSET | BPF_JNE | BPF_JSGT | BPF_JSGE | BPF_JLT | BPF_JLE | BPF_JSLT | BPF_JSLE

text \<open>The answer: taken, not taken, or not known (1, 0 and -1 in the code).\<close>

definition is_branch32_taken :: "tnum_lib \<Rightarrow> bpf_reg_state \<Rightarrow> u32 \<Rightarrow> bpf_jmp_op \<Rightarrow> int" where
  "is_branch32_taken T reg val opcode =
     (let subreg = tnum_subreg T (var_off reg); val64 = (ucast val :: u64); sval = sint val
      in case opcode of
        BPF_JEQ \<Rightarrow> if tnum_is_const T subreg then (if tnum_equals_const T subreg val64 then 1 else 0) else - 1
      | BPF_JNE \<Rightarrow> if tnum_is_const T subreg then (if tnum_equals_const T subreg val64 then 0 else 1) else - 1
      | BPF_JSET \<Rightarrow>
          if (NOT (t_mask subreg) AND t_value subreg) AND val64 \<noteq> 0 then 1
          else if (t_mask subreg OR t_value subreg) AND val64 = 0 then 0 else - 1
      | BPF_JGT \<Rightarrow> if u32_min_value reg > val then 1 else if u32_max_value reg \<le> val then 0 else - 1
      | BPF_JSGT \<Rightarrow> if sint (s32_min_value reg) > sval then 1 else if sint (s32_max_value reg) \<le> sval then 0 else - 1
      | BPF_JLT \<Rightarrow> if u32_max_value reg < val then 1 else if u32_min_value reg \<ge> val then 0 else - 1
      | BPF_JSLT \<Rightarrow> if sint (s32_max_value reg) < sval then 1 else if sint (s32_min_value reg) \<ge> sval then 0 else - 1
      | BPF_JGE \<Rightarrow> if u32_min_value reg \<ge> val then 1 else if u32_max_value reg < val then 0 else - 1
      | BPF_JSGE \<Rightarrow> if sint (s32_min_value reg) \<ge> sval then 1 else if sint (s32_max_value reg) < sval then 0 else - 1
      | BPF_JLE \<Rightarrow> if u32_max_value reg \<le> val then 1 else if u32_min_value reg > val then 0 else - 1
      | BPF_JSLE \<Rightarrow> if sint (s32_max_value reg) \<le> sval then 1 else if sint (s32_min_value reg) > sval then 0 else - 1
      | BPF_JA \<Rightarrow> - 1)"

definition is_branch64_taken :: "tnum_lib \<Rightarrow> bpf_reg_state \<Rightarrow> u64 \<Rightarrow> bpf_jmp_op \<Rightarrow> int" where
  "is_branch64_taken T reg val opcode =
     (let off = var_off reg; sval = sint val
      in case opcode of
        BPF_JEQ \<Rightarrow> if tnum_is_const T off then (if tnum_equals_const T off val then 1 else 0) else - 1
      | BPF_JNE \<Rightarrow> if tnum_is_const T off then (if tnum_equals_const T off val then 0 else 1) else - 1
      | BPF_JSET \<Rightarrow>
          if (NOT (t_mask off) AND t_value off) AND val \<noteq> 0 then 1
          else if (t_mask off OR t_value off) AND val = 0 then 0 else - 1
      | BPF_JGT \<Rightarrow> if umin_value reg > val then 1 else if umax_value reg \<le> val then 0 else - 1
      | BPF_JSGT \<Rightarrow> if sint (smin_value reg) > sval then 1 else if sint (smax_value reg) \<le> sval then 0 else - 1
      | BPF_JLT \<Rightarrow> if umax_value reg < val then 1 else if umin_value reg \<ge> val then 0 else - 1
      | BPF_JSLT \<Rightarrow> if sint (smax_value reg) < sval then 1 else if sint (smin_value reg) \<ge> sval then 0 else - 1
      | BPF_JGE \<Rightarrow> if umin_value reg \<ge> val then 1 else if umax_value reg < val then 0 else - 1
      | BPF_JSGE \<Rightarrow> if sint (smin_value reg) \<ge> sval then 1 else if sint (smax_value reg) < sval then 0 else - 1
      | BPF_JLE \<Rightarrow> if umax_value reg \<le> val then 1 else if umin_value reg > val then 0 else - 1
      | BPF_JSLE \<Rightarrow> if sint (smax_value reg) \<le> sval then 1 else if sint (smin_value reg) > sval then 0 else - 1
      | BPF_JA \<Rightarrow> - 1)"

definition verifier_is_pointer_value :: "bool \<Rightarrow> bpf_reg_state \<Rightarrow> bool" where
  "verifier_is_pointer_value allow_ptr_leaks reg \<longleftrightarrow> \<not> allow_ptr_leaks \<and> r_type reg \<noteq> SCALAR_VALUE"

definition reg_type_not_null :: "bpf_reg_type \<Rightarrow> bool" where
  "reg_type_not_null ty \<longleftrightarrow> ty = PTR_TO_SOCKET \<or> ty = PTR_TO_TCP_SOCK \<or> ty = PTR_TO_MAP_VALUE \<or> ty = PTR_TO_SOCK_COMMON"

definition is_branch_taken :: "tnum_lib \<Rightarrow> bpf_reg_state \<Rightarrow> u64 \<Rightarrow> bpf_jmp_op \<Rightarrow> bool \<Rightarrow> int" where
  "is_branch_taken T reg val opcode is_jmp32 =
     (if verifier_is_pointer_value False reg
      then if \<not> reg_type_not_null (r_type reg) then - 1
           else if val \<noteq> 0 then - 1
           else case opcode of BPF_JEQ \<Rightarrow> 0 | BPF_JNE \<Rightarrow> 1 | _ \<Rightarrow> - 1
      else if is_jmp32 then is_branch32_taken T reg (ucast val) opcode
      else is_branch64_taken T reg val opcode)"

section \<open>Refining the state of a register\<close>

text \<open>
  One register on one way: its state and what the comparison says of the bits of the value and of the low half
  (\<open>true_64off\<close> and \<open>true_32off\<close>, \<open>false_64off\<close> and \<open>false_32off\<close> in the code).
\<close>

type_synonym refined = "bpf_reg_state \<times> tnum \<times> tnum"

definition refined :: "tnum_lib \<Rightarrow> bpf_reg_state \<Rightarrow> refined" where
  "refined T reg = (reg, var_off reg, tnum_subreg T (var_off reg))"

text \<open>The cases of the switch, for jumps on 32 bits and on 64 bits: the state where the jump is taken, and where it is not.\<close>

definition set_min_max32 ::
    "tnum_lib \<Rightarrow> (u64 \<Rightarrow> bool) \<Rightarrow> bpf_reg_state \<Rightarrow> bpf_reg_state \<Rightarrow> u32 \<Rightarrow> bpf_jmp_op \<Rightarrow> (refined \<times> refined) option" where
  "set_min_max32 T pow2 tr fr val opcode =
     (let t = refined T tr; f = refined T fr; known = verifier_mark_reg32_known T (ucast val);
          t32 = tnum_subreg T (var_off tr); f32 = tnum_subreg T (var_off fr)
      in case opcode of
        BPF_JEQ \<Rightarrow> Some ((known tr, var_off tr, tnum_subreg T (var_off (known tr))), f)
      | BPF_JNE \<Rightarrow> Some (t, (known fr, var_off fr, tnum_subreg T (var_off (known fr))))
      | BPF_JSET \<Rightarrow>
          Some ((tr, var_off tr, if pow2 (ucast val) then tnum_or T t32 (tnum_const T (ucast val)) else t32),
                (fr, var_off fr, tnum_and T f32 (tnum_const T (ucast (NOT val)))))
      | BPF_JGE \<Rightarrow>
          Some (refined T (tr\<lparr>u32_min_value := max (u32_min_value tr) val\<rparr>), refined T (fr\<lparr>u32_max_value := min (u32_max_value fr) (val - 1)\<rparr>))
      | BPF_JGT \<Rightarrow>
          Some (refined T (tr\<lparr>u32_min_value := max (u32_min_value tr) (val + 1)\<rparr>), refined T (fr\<lparr>u32_max_value := min (u32_max_value fr) val\<rparr>))
      | BPF_JSGE \<Rightarrow>
          Some (refined T (tr\<lparr>s32_min_value := smax_t (s32_min_value tr) val\<rparr>), refined T (fr\<lparr>s32_max_value := smin_t (s32_max_value fr) (val - 1)\<rparr>))
      | BPF_JSGT \<Rightarrow>
          Some (refined T (tr\<lparr>s32_min_value := smax_t (s32_min_value tr) (val + 1)\<rparr>), refined T (fr\<lparr>s32_max_value := smin_t (s32_max_value fr) val\<rparr>))
      | BPF_JLE \<Rightarrow>
          Some (refined T (tr\<lparr>u32_max_value := min (u32_max_value tr) val\<rparr>), refined T (fr\<lparr>u32_min_value := max (u32_min_value fr) (val + 1)\<rparr>))
      | BPF_JLT \<Rightarrow>
          Some (refined T (tr\<lparr>u32_max_value := min (u32_max_value tr) (val - 1)\<rparr>), refined T (fr\<lparr>u32_min_value := max (u32_min_value fr) val\<rparr>))
      | BPF_JSLE \<Rightarrow>
          Some (refined T (tr\<lparr>s32_max_value := smin_t (s32_max_value tr) val\<rparr>), refined T (fr\<lparr>s32_min_value := smax_t (s32_min_value fr) (val + 1)\<rparr>))
      | BPF_JSLT \<Rightarrow>
          Some (refined T (tr\<lparr>s32_max_value := smin_t (s32_max_value tr) (val - 1)\<rparr>), refined T (fr\<lparr>s32_min_value := smax_t (s32_min_value fr) val\<rparr>))
      | BPF_JA \<Rightarrow> None)"

definition set_min_max64 ::
    "tnum_lib \<Rightarrow> (u64 \<Rightarrow> bool) \<Rightarrow> bpf_reg_state \<Rightarrow> bpf_reg_state \<Rightarrow> u64 \<Rightarrow> bpf_jmp_op \<Rightarrow> (refined \<times> refined) option" where
  "set_min_max64 T pow2 tr fr val opcode =
     (let t = refined T tr; f = refined T fr; known = verifier2_mark_reg_known T val;
          t32 = tnum_subreg T (var_off tr); f32 = tnum_subreg T (var_off fr)
      in case opcode of
        BPF_JEQ \<Rightarrow> Some ((known tr, var_off (known tr), t32), f)
      | BPF_JNE \<Rightarrow> Some (t, (known fr, var_off (known fr), f32))
      | BPF_JSET \<Rightarrow>
          Some ((tr, if pow2 val then tnum_or T (var_off tr) (tnum_const T val) else var_off tr, t32),
                (fr, tnum_and T (var_off fr) (tnum_const T (NOT val)), f32))
      | BPF_JGE \<Rightarrow>
          Some (refined T (tr\<lparr>umin_value := max (umin_value tr) val\<rparr>), refined T (fr\<lparr>umax_value := min (umax_value fr) (val - 1)\<rparr>))
      | BPF_JGT \<Rightarrow>
          Some (refined T (tr\<lparr>umin_value := max (umin_value tr) (val + 1)\<rparr>), refined T (fr\<lparr>umax_value := min (umax_value fr) val\<rparr>))
      | BPF_JSGE \<Rightarrow>
          Some (refined T (tr\<lparr>smin_value := smax_t (smin_value tr) val\<rparr>), refined T (fr\<lparr>smax_value := smin_t (smax_value fr) (val - 1)\<rparr>))
      | BPF_JSGT \<Rightarrow>
          Some (refined T (tr\<lparr>smin_value := smax_t (smin_value tr) (val + 1)\<rparr>), refined T (fr\<lparr>smax_value := smin_t (smax_value fr) val\<rparr>))
      | BPF_JLE \<Rightarrow>
          Some (refined T (tr\<lparr>umax_value := min (umax_value tr) val\<rparr>), refined T (fr\<lparr>umin_value := max (umin_value fr) (val + 1)\<rparr>))
      | BPF_JLT \<Rightarrow>
          Some (refined T (tr\<lparr>umax_value := min (umax_value tr) (val - 1)\<rparr>), refined T (fr\<lparr>umin_value := max (umin_value fr) val\<rparr>))
      | BPF_JSLE \<Rightarrow>
          Some (refined T (tr\<lparr>smax_value := smin_t (smax_value tr) val\<rparr>), refined T (fr\<lparr>smin_value := smax_t (smin_value fr) (val + 1)\<rparr>))
      | BPF_JSLT \<Rightarrow>
          Some (refined T (tr\<lparr>smax_value := smin_t (smax_value tr) (val - 1)\<rparr>), refined T (fr\<lparr>smin_value := smax_t (smin_value fr) val\<rparr>))
      | BPF_JA \<Rightarrow> None)"

text \<open>The end of the function, for one register.\<close>

definition set_min_max_finish :: "tnum_lib \<Rightarrow> bool \<Rightarrow> refined \<Rightarrow> bpf_reg_state" where
  "set_min_max_finish T is_jmp32 = (\<lambda>(reg, off64, off32).
     if is_jmp32
     then verifier_reg_combine_32_into_64 T (reg\<lparr>var_off := tnum_or T (tnum_clear_subreg T off64) (tnum_subreg T off32)\<rparr>)
     else reg_combine_64_into_32 T (reg\<lparr>var_off := off64\<rparr>))"

definition reg_set_min_max ::
    "tnum_lib \<Rightarrow> (u64 \<Rightarrow> bool) \<Rightarrow> bpf_reg_state \<Rightarrow> bpf_reg_state \<Rightarrow> u64 \<Rightarrow> u32 \<Rightarrow> bpf_jmp_op \<Rightarrow> bool \<Rightarrow> bpf_reg_state \<times> bpf_reg_state" where
  "reg_set_min_max T pow2 true_reg false_reg val val32 opcode is_jmp32 =
     (if verifier_is_pointer_value False false_reg then (true_reg, false_reg)
      else case (if is_jmp32 then set_min_max32 T pow2 true_reg false_reg val32 opcode else set_min_max64 T pow2 true_reg false_reg val opcode) of
        None \<Rightarrow> (true_reg, false_reg)
      | Some (t, f) \<Rightarrow> (set_min_max_finish T is_jmp32 t, set_min_max_finish T is_jmp32 f))"

fun opcode_flip :: "bpf_jmp_op \<Rightarrow> bpf_jmp_op option" where
  "opcode_flip BPF_JEQ = Some BPF_JEQ"
| "opcode_flip BPF_JNE = Some BPF_JNE"
| "opcode_flip BPF_JSET = Some BPF_JSET"
| "opcode_flip BPF_JGE = Some BPF_JLE"
| "opcode_flip BPF_JGT = Some BPF_JLT"
| "opcode_flip BPF_JLE = Some BPF_JGE"
| "opcode_flip BPF_JLT = Some BPF_JGT"
| "opcode_flip BPF_JSGE = Some BPF_JSLE"
| "opcode_flip BPF_JSGT = Some BPF_JSLT"
| "opcode_flip BPF_JSLE = Some BPF_JSGE"
| "opcode_flip BPF_JSLT = Some BPF_JSGT"
| "opcode_flip BPF_JA = None"

definition reg_set_min_max_inv ::
    "tnum_lib \<Rightarrow> (u64 \<Rightarrow> bool) \<Rightarrow> bpf_reg_state \<Rightarrow> bpf_reg_state \<Rightarrow> u64 \<Rightarrow> u32 \<Rightarrow> bpf_jmp_op \<Rightarrow> bool \<Rightarrow> bpf_reg_state \<times> bpf_reg_state" where
  "reg_set_min_max_inv T pow2 true_reg false_reg val val32 opcode is_jmp32 =
     (case opcode_flip opcode of
        None \<Rightarrow> (true_reg, false_reg)
      | Some flipped \<Rightarrow> reg_set_min_max T pow2 true_reg false_reg val val32 flipped is_jmp32)"
section \<open>The registers of a state\<close>

text \<open>
  The frames of a state, the current one last: registers, and the spilled registers of the stack (no entry where the slot
  holds none).
\<close>

record bpf_func_state =
  regs :: "bpf_reg_state list"
  spilled :: "bpf_reg_state option list"

type_synonym bpf_verifier_state = "bpf_func_state list"

definition cur_reg :: "bpf_verifier_state \<Rightarrow> nat \<Rightarrow> bpf_reg_state" where
  "cur_reg st i = regs (last st) ! i"

definition set_cur_reg :: "nat \<Rightarrow> bpf_reg_state \<Rightarrow> bpf_verifier_state \<Rightarrow> bpf_verifier_state" where
  "set_cur_reg i r st = butlast st @ [(last st)\<lparr>regs := (regs (last st))[i := r]\<rparr>]"

definition equal_scalar :: "bpf_reg_state \<Rightarrow> bpf_reg_state \<Rightarrow> bpf_reg_state" where
  "equal_scalar known_reg reg = (if r_type reg = SCALAR_VALUE \<and> r_id reg = r_id known_reg then known_reg else reg)"

definition find_equal_scalars :: "bpf_reg_state \<Rightarrow> bpf_verifier_state \<Rightarrow> bpf_verifier_state" where
  "find_equal_scalars known_reg vstate =
     map (\<lambda>frame. frame\<lparr>regs := map (equal_scalar known_reg) (regs frame),
                        spilled := map (map_option (equal_scalar known_reg)) (spilled frame)\<rparr>) vstate"

definition combined :: "tnum_lib \<Rightarrow> bpf_reg_state \<Rightarrow> bpf_reg_state \<Rightarrow> bpf_reg_state \<Rightarrow> bpf_reg_state" where
  "combined T src dst reg =
     reg\<lparr>umin_value := max (umin_value src) (umin_value dst), umax_value := min (umax_value src) (umax_value dst),
         smin_value := smax_t (smin_value src) (smin_value dst), smax_value := smin_t (smax_value src) (smax_value dst),
         var_off := tnum_intersect T (var_off src) (var_off dst)\<rparr>"

text \<open>The two registers may be the same one.\<close>

definition verifier_reg_combine_min_max :: "tnum_lib \<Rightarrow> nat \<Rightarrow> nat \<Rightarrow> bpf_verifier_state \<Rightarrow> bpf_verifier_state" where
  "verifier_reg_combine_min_max T i j st =
     (let src = cur_reg st i; dst = cur_reg st j;
          st1 = set_cur_reg i (combined T src dst src) st;
          st2 = set_cur_reg j (combined T src dst (cur_reg st1 j)) st1;
          st3 = set_cur_reg i (reg_bounds_sync T (cur_reg st2 i)) st2
      in set_cur_reg j (reg_bounds_sync T (cur_reg st3 j)) st3)"

definition reg_combine_min_max ::
    "tnum_lib \<Rightarrow> nat \<Rightarrow> nat \<Rightarrow> bpf_jmp_op \<Rightarrow> bpf_verifier_state \<times> bpf_verifier_state \<Rightarrow> bpf_verifier_state \<times> bpf_verifier_state" where
  "reg_combine_min_max T src dst opcode = (\<lambda>(true_st, false_st).
     case opcode of
       BPF_JEQ \<Rightarrow> (verifier_reg_combine_min_max T src dst true_st, false_st)
     | BPF_JNE \<Rightarrow> (true_st, verifier_reg_combine_min_max T src dst false_st)
     | _ \<Rightarrow> (true_st, false_st))"

section \<open>A conditional jump\<close>

text \<open>The second operand: a constant of the instruction, or a register.\<close>

datatype bpf_operand = BPF_K u32 | BPF_X nat

definition jmp_pred :: "tnum_lib \<Rightarrow> bpf_verifier_state \<Rightarrow> bpf_jmp_op \<Rightarrow> bool \<Rightarrow> nat \<Rightarrow> bpf_operand \<Rightarrow> int" where
  "jmp_pred T st opcode is_jmp32 dst operand =
     (case operand of
        BPF_K imm \<Rightarrow> is_branch_taken T (cur_reg st dst) (scast imm) opcode is_jmp32
      | BPF_X src \<Rightarrow>
          let src_reg = cur_reg st src; sub = tnum_subreg T (var_off src_reg)
          in if r_type src_reg = SCALAR_VALUE \<and> is_jmp32 \<and> tnum_is_const T sub
             then is_branch_taken T (cur_reg st dst) (t_value sub) opcode is_jmp32
             else if r_type src_reg = SCALAR_VALUE \<and> \<not> is_jmp32 \<and> tnum_is_const T (var_off src_reg)
             then is_branch_taken T (cur_reg st dst) (t_value (var_off src_reg)) opcode is_jmp32
             else - 1)"

text \<open>Register \<open>i\<close> on both ways is given the states \<open>reg_set_min_max\<close> made.\<close>

definition set_both :: "nat \<Rightarrow> bpf_reg_state \<times> bpf_reg_state \<Rightarrow> bpf_verifier_state \<times> bpf_verifier_state \<Rightarrow> bpf_verifier_state \<times> bpf_verifier_state" where
  "set_both i = (\<lambda>(t, f) (other, this). (set_cur_reg i t other, set_cur_reg i f this))"

text \<open>Copies of register \<open>i\<close> are given its new state, on both ways; the identifiers must still agree.\<close>

definition find_equal_both :: "nat \<Rightarrow> bpf_verifier_state \<times> bpf_verifier_state \<Rightarrow> bpf_verifier_state \<times> bpf_verifier_state" where
  "find_equal_both i = (\<lambda>(other, this).
     if r_id (cur_reg this i) \<noteq> 0 \<and> r_id (cur_reg this i) = r_id (cur_reg other i)
     then (find_equal_scalars (cur_reg other i) other, find_equal_scalars (cur_reg this i) this) else (other, this))"

text \<open>The two operands are compared: \<open>BPF_X\<close>, with scalars.\<close>

definition jmp_refine_regs ::
    "tnum_lib \<Rightarrow> (u64 \<Rightarrow> bool) \<Rightarrow> bpf_verifier_state \<Rightarrow> bpf_jmp_op \<Rightarrow> bool \<Rightarrow> nat \<Rightarrow> nat \<Rightarrow> bpf_verifier_state \<times> bpf_verifier_state" where
  "jmp_refine_regs T pow2 st opcode is_jmp32 dst src =
     (let dst_reg = cur_reg st dst; src_reg = cur_reg st src;
          dst_sub = tnum_subreg T (var_off dst_reg); src_sub = tnum_subreg T (var_off src_reg)
      in if tnum_is_const T (var_off src_reg) \<or> is_jmp32 \<and> tnum_is_const T src_sub
         then set_both dst (reg_set_min_max T pow2 dst_reg dst_reg (t_value (var_off src_reg)) (ucast (t_value src_sub)) opcode is_jmp32) (st, st)
         else if tnum_is_const T (var_off dst_reg) \<or> is_jmp32 \<and> tnum_is_const T dst_sub
         then set_both src (reg_set_min_max_inv T pow2 src_reg src_reg (t_value (var_off dst_reg)) (ucast (t_value dst_sub)) opcode is_jmp32) (st, st)
         else if \<not> is_jmp32 \<and> (opcode = BPF_JEQ \<or> opcode = BPF_JNE)
         then reg_combine_min_max T src dst opcode (st, st)
         else (st, st))"

text \<open>The states on the two ways, the one with the jump taken first, where the answer of \<open>jmp_pred\<close> is negative.\<close>

definition jmp_branches ::
    "tnum_lib \<Rightarrow> (u64 \<Rightarrow> bool) \<Rightarrow> bpf_verifier_state \<Rightarrow> bpf_jmp_op \<Rightarrow> bool \<Rightarrow> nat \<Rightarrow> bpf_operand \<Rightarrow> bpf_verifier_state \<times> bpf_verifier_state" where
  "jmp_branches T pow2 st opcode is_jmp32 dst operand =
     (let scalar = (\<lambda>st i. r_type (cur_reg st i) = SCALAR_VALUE);
          (other, this) =
            (case operand of
               BPF_X src \<Rightarrow>
                 if scalar st dst \<and> scalar st src then find_equal_both src (jmp_refine_regs T pow2 st opcode is_jmp32 dst src) else (st, st)
             | BPF_K imm \<Rightarrow>
                 if scalar st dst
                 then set_both dst (reg_set_min_max T pow2 (cur_reg st dst) (cur_reg st dst) (scast imm) imm opcode is_jmp32) (st, st)
                 else (st, st))
      in if scalar this dst then find_equal_both dst (other, this) else (other, this))"

section \<open>Comparing two states of a register\<close>

definition range_within :: "bpf_reg_state \<Rightarrow> bpf_reg_state \<Rightarrow> bool" where
  "range_within old cur \<longleftrightarrow>
     umin_value old \<le> umin_value cur \<and> umax_value old \<ge> umax_value cur \<and>
     sint (smin_value old) \<le> sint (smin_value cur) \<and> sint (smax_value old) \<ge> sint (smax_value cur) \<and>
     u32_min_value old \<le> u32_min_value cur \<and> u32_max_value old \<ge> u32_max_value cur \<and>
     sint (s32_min_value old) \<le> sint (s32_min_value cur) \<and> sint (s32_max_value old) \<ge> sint (s32_max_value cur)"

text \<open>The array that maps old identifiers to new ones; 0 marks an empty slot.\<close>

fun check_ids :: "u32 \<Rightarrow> u32 \<Rightarrow> (u32 \<times> u32) list \<Rightarrow> bool \<times> (u32 \<times> u32) list" where
  "check_ids old_id cur_id [] = (False, [])"
| "check_ids old_id cur_id ((a, b) # idmap) =
     (if a = 0 then (True, (old_id, cur_id) # idmap)
      else if a = old_id then (b = cur_id, (a, b) # idmap)
      else let (ok, rest) = check_ids old_id cur_id idmap in (ok, (a, b) # rest))"

end
