(* ===== verification/Bpf_Alu.thy ===== *)
theory Bpf_Alu
  imports Bpf_Reg
begin

text \<open>
  What an arithmetic instruction does to the register states: the functions \<open>scalar32_min_max_*\<close> and \<open>scalar_min_max_*\<close>
  of \<open>kernel/bpf/verifier.c\<close>, and \<open>adjust_scalar_min_max_vals\<close> which selects among them.
\<close>

section \<open>Addition, subtraction, multiplication\<close>

definition signed_add_overflows :: "u64 \<Rightarrow> u64 \<Rightarrow> bool" where
  "signed_add_overflows a b = (let res = a + b in if sint b < 0 then sint res > sint a else sint res < sint a)"

definition signed_add32_overflows :: "u32 \<Rightarrow> u32 \<Rightarrow> bool" where
  "signed_add32_overflows a b = (let res = a + b in if sint b < 0 then sint res > sint a else sint res < sint a)"

definition signed_sub_overflows :: "u64 \<Rightarrow> u64 \<Rightarrow> bool" where
  "signed_sub_overflows a b = (let res = a - b in if sint b < 0 then sint res < sint a else sint res > sint a)"

definition signed_sub32_overflows :: "u32 \<Rightarrow> u32 \<Rightarrow> bool" where
  "signed_sub32_overflows a b = (let res = a - b in if sint b < 0 then sint res < sint a else sint res > sint a)"

definition scalar32_min_max_add :: "bpf_reg_state \<Rightarrow> bpf_reg_state \<Rightarrow> bpf_reg_state" where
  "scalar32_min_max_add dst src =
     (let smin_val = s32_min_value src; smax_val = s32_max_value src; umin_val = u32_min_value src; umax_val = u32_max_value src;
          dst1 = (if signed_add32_overflows (s32_min_value dst) smin_val \<or> signed_add32_overflows (s32_max_value dst) smax_val
                  then dst\<lparr>s32_min_value := S32_MIN, s32_max_value := S32_MAX\<rparr>
                  else dst\<lparr>s32_min_value := s32_min_value dst + smin_val, s32_max_value := s32_max_value dst + smax_val\<rparr>)
      in if u32_min_value dst1 + umin_val < umin_val \<or> u32_max_value dst1 + umax_val < umax_val
         then dst1\<lparr>u32_min_value := 0, u32_max_value := U32_MAX\<rparr>
         else dst1\<lparr>u32_min_value := u32_min_value dst1 + umin_val, u32_max_value := u32_max_value dst1 + umax_val\<rparr>)"

definition scalar_min_max_add :: "bpf_reg_state \<Rightarrow> bpf_reg_state \<Rightarrow> bpf_reg_state" where
  "scalar_min_max_add dst src =
     (let smin_val = smin_value src; smax_val = smax_value src; umin_val = umin_value src; umax_val = umax_value src;
          dst1 = (if signed_add_overflows (smin_value dst) smin_val \<or> signed_add_overflows (smax_value dst) smax_val
                  then dst\<lparr>smin_value := S64_MIN, smax_value := S64_MAX\<rparr>
                  else dst\<lparr>smin_value := smin_value dst + smin_val, smax_value := smax_value dst + smax_val\<rparr>)
      in if umin_value dst1 + umin_val < umin_val \<or> umax_value dst1 + umax_val < umax_val
         then dst1\<lparr>umin_value := 0, umax_value := U64_MAX\<rparr>
         else dst1\<lparr>umin_value := umin_value dst1 + umin_val, umax_value := umax_value dst1 + umax_val\<rparr>)"

definition scalar32_min_max_sub :: "bpf_reg_state \<Rightarrow> bpf_reg_state \<Rightarrow> bpf_reg_state" where
  "scalar32_min_max_sub dst src =
     (let smin_val = s32_min_value src; smax_val = s32_max_value src; umin_val = u32_min_value src; umax_val = u32_max_value src;
          dst1 = (if signed_sub32_overflows (s32_min_value dst) smax_val \<or> signed_sub32_overflows (s32_max_value dst) smin_val
                  then dst\<lparr>s32_min_value := S32_MIN, s32_max_value := S32_MAX\<rparr>
                  else dst\<lparr>s32_min_value := s32_min_value dst - smax_val, s32_max_value := s32_max_value dst - smin_val\<rparr>)
      in if u32_min_value dst1 < umax_val
         then dst1\<lparr>u32_min_value := 0, u32_max_value := U32_MAX\<rparr>
         else dst1\<lparr>u32_min_value := u32_min_value dst1 - umax_val, u32_max_value := u32_max_value dst1 - umin_val\<rparr>)"

definition scalar_min_max_sub :: "bpf_reg_state \<Rightarrow> bpf_reg_state \<Rightarrow> bpf_reg_state" where
  "scalar_min_max_sub dst src =
     (let smin_val = smin_value src; smax_val = smax_value src; umin_val = umin_value src; umax_val = umax_value src;
          dst1 = (if signed_sub_overflows (smin_value dst) smax_val \<or> signed_sub_overflows (smax_value dst) smin_val
                  then dst\<lparr>smin_value := S64_MIN, smax_value := S64_MAX\<rparr>
                  else dst\<lparr>smin_value := smin_value dst - smax_val, smax_value := smax_value dst - smin_val\<rparr>)
      in if umin_value dst1 < umax_val
         then dst1\<lparr>umin_value := 0, umax_value := U64_MAX\<rparr>
         else dst1\<lparr>umin_value := umin_value dst1 - umax_val, umax_value := umax_value dst1 - umin_val\<rparr>)"

definition scalar32_min_max_mul :: "bpf_reg_state \<Rightarrow> bpf_reg_state \<Rightarrow> bpf_reg_state" where
  "scalar32_min_max_mul dst src =
     (let smin_val = s32_min_value src; umin_val = u32_min_value src; umax_val = u32_max_value src
      in if sint smin_val < 0 \<or> sint (s32_min_value dst) < 0 then verifier_mark_reg32_unbounded dst
         else if umax_val > 0xFFFF \<or> u32_max_value dst > 0xFFFF then verifier_mark_reg32_unbounded dst
         else
           let dst1 = dst\<lparr>u32_min_value := u32_min_value dst * umin_val, u32_max_value := u32_max_value dst * umax_val\<rparr>
           in if u32_max_value dst1 > S32_MAX then dst1\<lparr>s32_min_value := S32_MIN, s32_max_value := S32_MAX\<rparr>
              else dst1\<lparr>s32_min_value := u32_min_value dst1, s32_max_value := u32_max_value dst1\<rparr>)"

definition scalar_min_max_mul :: "bpf_reg_state \<Rightarrow> bpf_reg_state \<Rightarrow> bpf_reg_state" where
  "scalar_min_max_mul dst src =
     (let smin_val = smin_value src; umin_val = umin_value src; umax_val = umax_value src
      in if sint smin_val < 0 \<or> sint (smin_value dst) < 0 then verifier_mark_reg64_unbounded dst
         else if umax_val > 0xFFFFFFFF \<or> umax_value dst > 0xFFFFFFFF then verifier_mark_reg64_unbounded dst
         else
           let dst1 = dst\<lparr>umin_value := umin_value dst * umin_val, umax_value := umax_value dst * umax_val\<rparr>
           in if umax_value dst1 > S64_MAX then dst1\<lparr>smin_value := S64_MIN, smax_value := S64_MAX\<rparr>
              else dst1\<lparr>smin_value := umin_value dst1, smax_value := umax_value dst1\<rparr>)"

section \<open>Bitwise operations\<close>

text \<open>Here the field \<open>var_off\<close> of \<open>dst\<close> has been updated already.\<close>

definition scalar32_min_max_and :: "tnum_lib \<Rightarrow> bpf_reg_state \<Rightarrow> bpf_reg_state \<Rightarrow> bpf_reg_state" where
  "scalar32_min_max_and T dst src =
     (let src_known = tnum_subreg_is_const T (var_off src); dst_known = tnum_subreg_is_const T (var_off dst);
          var32_off = tnum_subreg T (var_off dst); smin_val = s32_min_value src; umax_val = u32_max_value src
      in if src_known \<and> dst_known then verifier_mark_reg32_known T (t_value var32_off) dst
         else
           let dst1 = dst\<lparr>u32_min_value := ucast (t_value var32_off), u32_max_value := min (u32_max_value dst) umax_val\<rparr>
           in if sint (s32_min_value dst1) < 0 \<or> sint smin_val < 0
              then dst1\<lparr>s32_min_value := S32_MIN, s32_max_value := S32_MAX\<rparr>
              else dst1\<lparr>s32_min_value := u32_min_value dst1, s32_max_value := u32_max_value dst1\<rparr>)"

definition scalar_min_max_and :: "tnum_lib \<Rightarrow> bpf_reg_state \<Rightarrow> bpf_reg_state \<Rightarrow> bpf_reg_state" where
  "scalar_min_max_and T dst src =
     (let src_known = tnum_is_const T (var_off src); dst_known = tnum_is_const T (var_off dst);
          smin_val = smin_value src; umax_val = umax_value src
      in if src_known \<and> dst_known then verifier_mark_reg_known T (t_value (var_off dst)) dst
         else
           let dst1 = dst\<lparr>umin_value := t_value (var_off dst), umax_value := min (umax_value dst) umax_val\<rparr>;
               dst2 = (if sint (smin_value dst1) < 0 \<or> sint smin_val < 0
                       then dst1\<lparr>smin_value := S64_MIN, smax_value := S64_MAX\<rparr>
                       else dst1\<lparr>smin_value := umin_value dst1, smax_value := umax_value dst1\<rparr>)
           in verifier_update_reg_bounds T dst2)"

definition scalar32_min_max_or :: "tnum_lib \<Rightarrow> bpf_reg_state \<Rightarrow> bpf_reg_state \<Rightarrow> bpf_reg_state" where
  "scalar32_min_max_or T dst src =
     (let src_known = tnum_subreg_is_const T (var_off src); dst_known = tnum_subreg_is_const T (var_off dst);
          var32_off = tnum_subreg T (var_off dst); smin_val = s32_min_value src; umin_val = u32_min_value src
      in if src_known \<and> dst_known then verifier_mark_reg32_known T (t_value var32_off) dst
         else
           let dst1 = dst\<lparr>u32_min_value := max (u32_min_value dst) umin_val,
                          u32_max_value := ucast (t_value var32_off OR t_mask var32_off)\<rparr>
           in if sint (s32_min_value dst1) < 0 \<or> sint smin_val < 0
              then dst1\<lparr>s32_min_value := S32_MIN, s32_max_value := S32_MAX\<rparr>
              else dst1\<lparr>s32_min_value := u32_min_value dst1, s32_max_value := u32_max_value dst1\<rparr>)"

definition scalar_min_max_or :: "tnum_lib \<Rightarrow> bpf_reg_state \<Rightarrow> bpf_reg_state \<Rightarrow> bpf_reg_state" where
  "scalar_min_max_or T dst src =
     (let src_known = tnum_is_const T (var_off src); dst_known = tnum_is_const T (var_off dst);
          smin_val = smin_value src; umin_val = umin_value src
      in if src_known \<and> dst_known then verifier_mark_reg_known T (t_value (var_off dst)) dst
         else
           let dst1 = dst\<lparr>umin_value := max (umin_value dst) umin_val, umax_value := t_value (var_off dst) OR t_mask (var_off dst)\<rparr>;
               dst2 = (if sint (smin_value dst1) < 0 \<or> sint smin_val < 0
                       then dst1\<lparr>smin_value := S64_MIN, smax_value := S64_MAX\<rparr>
                       else dst1\<lparr>smin_value := umin_value dst1, smax_value := umax_value dst1\<rparr>)
           in verifier_update_reg_bounds T dst2)"

definition scalar32_min_max_xor :: "tnum_lib \<Rightarrow> bpf_reg_state \<Rightarrow> bpf_reg_state \<Rightarrow> bpf_reg_state" where
  "scalar32_min_max_xor T dst src =
     (let src_known = tnum_subreg_is_const T (var_off src); dst_known = tnum_subreg_is_const T (var_off dst);
          var32_off = tnum_subreg T (var_off dst); smin_val = s32_min_value src
      in if src_known \<and> dst_known then verifier_mark_reg32_known T (t_value var32_off) dst
         else
           let dst1 = dst\<lparr>u32_min_value := ucast (t_value var32_off), u32_max_value := ucast (t_value var32_off OR t_mask var32_off)\<rparr>
           in if sint (s32_min_value dst1) \<ge> 0 \<and> sint smin_val \<ge> 0
              then dst1\<lparr>s32_min_value := u32_min_value dst1, s32_max_value := u32_max_value dst1\<rparr>
              else dst1\<lparr>s32_min_value := S32_MIN, s32_max_value := S32_MAX\<rparr>)"

definition scalar_min_max_xor :: "tnum_lib \<Rightarrow> bpf_reg_state \<Rightarrow> bpf_reg_state \<Rightarrow> bpf_reg_state" where
  "scalar_min_max_xor T dst src =
     (let src_known = tnum_is_const T (var_off src); dst_known = tnum_is_const T (var_off dst); smin_val = smin_value src
      in if src_known \<and> dst_known then verifier_mark_reg_known T (t_value (var_off dst)) dst
         else
           let dst1 = dst\<lparr>umin_value := t_value (var_off dst), umax_value := t_value (var_off dst) OR t_mask (var_off dst)\<rparr>;
               dst2 = (if sint (smin_value dst1) \<ge> 0 \<and> sint smin_val \<ge> 0
                       then dst1\<lparr>smin_value := umin_value dst1, smax_value := umax_value dst1\<rparr>
                       else dst1\<lparr>smin_value := S64_MIN, smax_value := S64_MAX\<rparr>)
           in verifier_update_reg_bounds T dst2)"

section \<open>Shifts\<close>

definition scalar32_min_max_lsh_bounds :: "bpf_reg_state \<Rightarrow> u64 \<Rightarrow> u64 \<Rightarrow> bpf_reg_state" where
  "scalar32_min_max_lsh_bounds dst umin_val umax_val =
     (let dst1 = dst\<lparr>s32_min_value := S32_MIN, s32_max_value := S32_MAX\<rparr>
      in if umax_val > 31 \<or> ucast (u32_max_value dst1) > (push_bit (unat (31 - umax_val)) 1 :: u64)
         then dst1\<lparr>u32_min_value := 0, u32_max_value := U32_MAX\<rparr>
         else dst1\<lparr>u32_min_value := push_bit (unat umin_val) (u32_min_value dst1),
                   u32_max_value := push_bit (unat umax_val) (u32_max_value dst1)\<rparr>)"

definition scalar32_min_max_lsh :: "tnum_lib \<Rightarrow> bpf_reg_state \<Rightarrow> bpf_reg_state \<Rightarrow> bpf_reg_state" where
  "scalar32_min_max_lsh T dst src =
     (let umax_val = u32_max_value src; umin_val = u32_min_value src; subreg = tnum_subreg T (var_off dst);
          dst1 = scalar32_min_max_lsh_bounds dst (ucast umin_val) (ucast umax_val);
          dst2 = dst1\<lparr>var_off := tnum_subreg T (tnum_lshift T subreg (ucast umin_val))\<rparr>
      in verifier_update_reg32_bounds T (verifier_mark_reg64_unbounded dst2))"

definition scalar64_min_max_lsh_bounds :: "bpf_reg_state \<Rightarrow> u64 \<Rightarrow> u64 \<Rightarrow> bpf_reg_state" where
  "scalar64_min_max_lsh_bounds dst umin_val umax_val =
     (let dst1 = (if umin_val = 0x20 \<and> umax_val = 0x20 \<and> sint (s32_max_value dst) \<ge> 0
                  then dst\<lparr>smax_value := push_bit 0x20 (scast (s32_max_value dst))\<rparr> else dst\<lparr>smax_value := S64_MAX\<rparr>);
          dst2 = (if umin_val = 0x20 \<and> umax_val = 0x20 \<and> sint (s32_min_value dst1) \<ge> 0
                  then dst1\<lparr>smin_value := push_bit 0x20 (scast (s32_min_value dst1))\<rparr> else dst1\<lparr>smin_value := S64_MIN\<rparr>)
      in if umax_value dst2 > push_bit (unat (0x3F - umax_val)) 1
         then dst2\<lparr>umin_value := 0, umax_value := U64_MAX\<rparr>
         else dst2\<lparr>umin_value := push_bit (unat umin_val) (umin_value dst2), umax_value := push_bit (unat umax_val) (umax_value dst2)\<rparr>)"

definition scalar_min_max_lsh :: "tnum_lib \<Rightarrow> bpf_reg_state \<Rightarrow> bpf_reg_state \<Rightarrow> bpf_reg_state" where
  "scalar_min_max_lsh T dst src =
     (let umax_val = umax_value src; umin_val = umin_value src;
          dst1 = scalar32_min_max_lsh_bounds (scalar64_min_max_lsh_bounds dst umin_val umax_val) umin_val umax_val
      in verifier_update_reg_bounds T (dst1\<lparr>var_off := tnum_lshift T (var_off dst1) umin_val\<rparr>))"

definition scalar32_min_max_rsh :: "tnum_lib \<Rightarrow> bpf_reg_state \<Rightarrow> bpf_reg_state \<Rightarrow> bpf_reg_state" where
  "scalar32_min_max_rsh T dst src =
     (let subreg = tnum_subreg T (var_off dst); umax_val = u32_max_value src; umin_val = u32_min_value src;
          dst1 = dst\<lparr>s32_min_value := S32_MIN, s32_max_value := S32_MAX, var_off := tnum_rshift T subreg (ucast umin_val),
                     u32_min_value := drop_bit (unat umax_val) (u32_min_value dst),
                     u32_max_value := drop_bit (unat umin_val) (u32_max_value dst)\<rparr>
      in verifier_update_reg32_bounds T (verifier_mark_reg64_unbounded dst1))"

definition scalar_min_max_rsh :: "tnum_lib \<Rightarrow> bpf_reg_state \<Rightarrow> bpf_reg_state \<Rightarrow> bpf_reg_state" where
  "scalar_min_max_rsh T dst src =
     (let umax_val = umax_value src; umin_val = umin_value src;
          dst1 = dst\<lparr>smin_value := S64_MIN, smax_value := S64_MAX, var_off := tnum_rshift T (var_off dst) umin_val,
                     umin_value := drop_bit (unat umax_val) (umin_value dst), umax_value := drop_bit (unat umin_val) (umax_value dst)\<rparr>
      in verifier_update_reg_bounds T (verifier_mark_reg32_unbounded dst1))"

definition scalar32_min_max_arsh :: "tnum_lib \<Rightarrow> bpf_reg_state \<Rightarrow> bpf_reg_state \<Rightarrow> bpf_reg_state" where
  "scalar32_min_max_arsh T dst src =
     (let umin_val = (ucast (u32_min_value src) :: u64);
          dst1 = dst\<lparr>s32_min_value := signed_drop_bit (unat umin_val) (s32_min_value dst),
                     s32_max_value := signed_drop_bit (unat umin_val) (s32_max_value dst),
                     var_off := tnum_arshift T (tnum_subreg T (var_off dst)) umin_val 32,
                     u32_min_value := 0, u32_max_value := U32_MAX\<rparr>
      in verifier_update_reg32_bounds T (verifier_mark_reg64_unbounded dst1))"

definition scalar_min_max_arsh :: "tnum_lib \<Rightarrow> bpf_reg_state \<Rightarrow> bpf_reg_state \<Rightarrow> bpf_reg_state" where
  "scalar_min_max_arsh T dst src =
     (let umin_val = umin_value src;
          dst1 = dst\<lparr>smin_value := signed_drop_bit (unat umin_val) (smin_value dst),
                     smax_value := signed_drop_bit (unat umin_val) (smax_value dst),
                     var_off := tnum_arshift T (var_off dst) umin_val 64, umin_value := 0, umax_value := U64_MAX\<rparr>
      in verifier_update_reg_bounds T (verifier_mark_reg32_unbounded dst1))"

section \<open>One instruction\<close>

datatype bpf_op = BPF_ADD | BPF_SUB | BPF_MUL | BPF_DIV | BPF_OR | BPF_AND | BPF_LSH | BPF_RSH | BPF_MOD | BPF_XOR | BPF_ARSH

definition sanitize_needed :: "bpf_op \<Rightarrow> bool" where
  "sanitize_needed opcode \<longleftrightarrow> opcode = BPF_ADD \<or> opcode = BPF_SUB"

text \<open>The taint check: the bounds of the source contradict each other.\<close>

definition src_invalid :: "bool \<Rightarrow> bool \<Rightarrow> bpf_reg_state \<Rightarrow> bool" where
  "src_invalid alu32 src_known src =
     (if alu32
      then (src_known \<and> (s32_min_value src \<noteq> s32_max_value src \<or> u32_min_value src \<noteq> u32_max_value src)) \<or>
           sint (s32_min_value src) > sint (s32_max_value src) \<or> u32_min_value src > u32_max_value src
      else (src_known \<and> (smin_value src \<noteq> smax_value src \<or> umin_value src \<noteq> umax_value src)) \<or>
           sint (smin_value src) > sint (smax_value src) \<or> umin_value src > umax_value src)"

definition scalar_alu :: "tnum_lib \<Rightarrow> bool \<Rightarrow> bool \<Rightarrow> bpf_op \<Rightarrow> bpf_reg_state \<Rightarrow> bpf_reg_state \<Rightarrow> bpf_reg_state" where
  "scalar_alu T prec alu32 opcode dst src =
     (let bitness = (if alu32 then 32 else 64); unknown = mark_reg_unknown T prec dst
      in case opcode of
        BPF_ADD \<Rightarrow>
          let dst1 = scalar_min_max_add (scalar32_min_max_add dst src) src in dst1\<lparr>var_off := tnum_add T (var_off dst1) (var_off src)\<rparr>
      | BPF_SUB \<Rightarrow>
          let dst1 = scalar_min_max_sub (scalar32_min_max_sub dst src) src in dst1\<lparr>var_off := tnum_sub T (var_off dst1) (var_off src)\<rparr>
      | BPF_MUL \<Rightarrow> scalar_min_max_mul (scalar32_min_max_mul (dst\<lparr>var_off := tnum_mul T (var_off dst) (var_off src)\<rparr>) src) src
      | BPF_AND \<Rightarrow> scalar_min_max_and T (scalar32_min_max_and T (dst\<lparr>var_off := tnum_and T (var_off dst) (var_off src)\<rparr>) src) src
      | BPF_OR \<Rightarrow> scalar_min_max_or T (scalar32_min_max_or T (dst\<lparr>var_off := tnum_or T (var_off dst) (var_off src)\<rparr>) src) src
      | BPF_XOR \<Rightarrow> scalar_min_max_xor T (scalar32_min_max_xor T (dst\<lparr>var_off := tnum_xor T (var_off dst) (var_off src)\<rparr>) src) src
      | BPF_LSH \<Rightarrow>
          if umax_value src \<ge> bitness then unknown
          else if alu32 then scalar32_min_max_lsh T dst src else scalar_min_max_lsh T dst src
      | BPF_RSH \<Rightarrow>
          if umax_value src \<ge> bitness then unknown
          else if alu32 then scalar32_min_max_rsh T dst src else scalar_min_max_rsh T dst src
      | BPF_ARSH \<Rightarrow>
          if umax_value src \<ge> bitness then unknown
          else if alu32 then scalar32_min_max_arsh T dst src else scalar_min_max_arsh T dst src
      | BPF_DIV \<Rightarrow> unknown
      | BPF_MOD \<Rightarrow> unknown)"

text \<open>\<open>sanitize\<close> is what the check against speculative execution answers, if it is asked.  The result is 0 or an error.\<close>

definition adjust_scalar_min_max_vals ::
    "tnum_lib \<Rightarrow> bool \<Rightarrow> int \<Rightarrow> bool \<Rightarrow> bpf_op \<Rightarrow> bpf_reg_state \<Rightarrow> bpf_reg_state \<Rightarrow> int \<times> bpf_reg_state" where
  "adjust_scalar_min_max_vals T prec sanitize alu32 opcode dst src =
     (let src_known = (if alu32 then tnum_subreg_is_const T (var_off src) else tnum_is_const T (var_off src))
      in if src_invalid alu32 src_known src then (0, mark_reg_unknown T prec dst)
         else if \<not> src_known \<and> opcode \<noteq> BPF_ADD \<and> opcode \<noteq> BPF_SUB \<and> opcode \<noteq> BPF_AND then (0, mark_reg_unknown T prec dst)
         else if sanitize_needed opcode \<and> sanitize < 0 then (sanitize, dst)
         else
           let dst1 = scalar_alu T prec alu32 opcode dst src;
               dst2 = (if alu32 then zext_32_to_64 T dst1 else dst1)
           in (0, reg_bounds_sync T dst2))"

end
