(* ===== verification/Bpf_Words.thy ===== *)
theory Bpf_Words
  imports Kernel_Prelude
begin

text \<open>
  Facts on machine words of any width that carry the ranges of the BPF verifier: signed against unsigned order, numbers of
  which some bits are known, and bounds of sums, differences, products, bitwise operations and shifts.
\<close>

section \<open>Signed and unsigned order\<close>

definition neg :: "'a::len word \<Rightarrow> bool" where
  "neg w \<longleftrightarrow> sint w < 0"

lemma uint_sint: "uint w = (if neg w then sint w + 2 ^ LENGTH('a) else sint w)" for w :: "'a::len word"
proof -
  have "uint w = sint w mod 2 ^ LENGTH('a)" by (metis take_bit_eq_mod uint_sint)
  moreover have "- (2 ^ LENGTH('a)) \<le> sint w" "sint w < 2 ^ LENGTH('a)"
  proof -
    have p: "(2::int) ^ (LENGTH('a) - 1) \<le> 2 ^ LENGTH('a)" by (simp add: power_increasing)
    show "- (2 ^ LENGTH('a)) \<le> sint w" using sint_ge [of w] p by linarith
    show "sint w < 2 ^ LENGTH('a)" using sint_lt [of w] p by linarith
  qed
  ultimately show ?thesis
    by (auto simp: neg_def mod_pos_pos_trivial) (smt (verit) mod_add_self2 mod_pos_pos_trivial)
qed

lemma sle_iff: "sint a \<le> sint b \<longleftrightarrow> neg a \<and> \<not> neg b \<or> neg a = neg b \<and> a \<le> b" for a b :: "'a::len word"
proof -
  have "- (2 ^ (LENGTH('a) - 1)) \<le> sint a" "sint b < 2 ^ (LENGTH('a) - 1)" by (rule sint_ge, rule sint_lt)
  then show ?thesis using uint_sint [of a] uint_sint [of b] by (auto simp: neg_def word_le_def split: if_splits)
qed

lemma sless_iff: "sint a < sint b \<longleftrightarrow> \<not> sint b \<le> sint a" for a b :: "'a::len word"
  by linarith

lemma neg_mono: "a \<le> b \<Longrightarrow> neg a \<Longrightarrow> neg b" for a b :: "'a::len word"
proof -
  assume "a \<le> b" "neg a"
  then have u: "uint a \<le> uint b" "uint a = sint a + 2 ^ LENGTH('a)" using uint_sint [of a] by (simp_all add: word_le_def)
  have "(2::int) ^ LENGTH('a) = 2 * 2 ^ (LENGTH('a) - 1)"
    by (metis Suc_diff_1 len_gt_0 power_Suc)
  moreover have "- (2 ^ (LENGTH('a) - 1)) \<le> sint a" "sint b < 2 ^ (LENGTH('a) - 1)" by (rule sint_ge, rule sint_lt)
  ultimately show "neg b" using u uint_sint [of b] by (auto split: if_splits)
qed

lemma neg_bit: "neg w \<longleftrightarrow> bit w (LENGTH('a) - 1)" for w :: "'a::len word"
  by (simp add: neg_def bit_last_iff)

lemma neg_and: "neg (a AND b) \<longleftrightarrow> neg a \<and> neg b" and neg_or: "neg (a OR b) \<longleftrightarrow> neg a \<or> neg b"
  and neg_xor: "neg (a XOR b) \<longleftrightarrow> neg a \<noteq> neg b" and neg_not: "neg (NOT a) \<longleftrightarrow> \<not> neg a" for a b :: "'a::len word"
  by (simp_all add: neg_bit bit_simps)

text \<open>Ranges.\<close>

definition in_s :: "'a::len word \<Rightarrow> 'a word \<Rightarrow> 'a word \<Rightarrow> bool" where
  "in_s lo hi x \<longleftrightarrow> sint lo \<le> sint x \<and> sint x \<le> sint hi"

definition in_u :: "'a::len word \<Rightarrow> 'a word \<Rightarrow> 'a word \<Rightarrow> bool" where
  "in_u lo hi x \<longleftrightarrow> lo \<le> x \<and> x \<le> hi"

text \<open>What signed bounds say about unsigned ones, and the other way round.\<close>

lemma deduce_sign:
  assumes "in_s slo shi x" and "in_u ulo uhi x" and "\<not> neg slo \<or> neg shi"
  shows "in_s (max slo ulo) (min shi uhi) x" "in_u (max slo ulo) (min shi uhi) x"
proof -
  have n: "neg x \<longleftrightarrow> neg slo" "neg x \<longleftrightarrow> neg shi" "slo \<le> x" "x \<le> shi"
    using assms unfolding in_s_def sle_iff by auto
  then show "in_u (max slo ulo) (min shi uhi) x" using assms(2) by (simp add: in_u_def)
  have m: "neg ulo \<Longrightarrow> neg x" "neg x \<Longrightarrow> neg uhi" "slo \<le> ulo \<Longrightarrow> neg slo \<Longrightarrow> neg ulo" "uhi \<le> shi \<Longrightarrow> neg uhi \<Longrightarrow> neg shi"
    using assms(2) neg_mono unfolding in_u_def by blast+
  have "neg (max slo ulo) \<longleftrightarrow> neg x" using m n by (cases "slo \<le> ulo") (auto simp: max_def)
  moreover have "neg (min shi uhi) \<longleftrightarrow> neg x" using m n using linear [of shi uhi] by (cases "shi \<le> uhi") (auto simp: min_def)
  ultimately show "in_s (max slo ulo) (min shi uhi) x" using n assms(2) unfolding in_s_def sle_iff in_u_def by simp
qed

lemma deduce_positive:
  assumes "in_s slo shi x" and "in_u ulo uhi x" and "\<not> neg uhi"
  shows "in_s ulo (min shi uhi) x" "in_u ulo (min shi uhi) x"
proof -
  have n: "\<not> neg x" "\<not> neg ulo" using assms(2,3) neg_mono unfolding in_u_def by blast+
  moreover have "\<not> neg shi" "x \<le> shi" using assms(1) n(1) unfolding in_s_def sle_iff by auto
  ultimately show "in_s ulo (min shi uhi) x" "in_u ulo (min shi uhi) x"
    using assms(2,3) unfolding in_s_def in_u_def sle_iff by (auto simp: min_def)
qed

lemma deduce_negative:
  assumes "in_s slo shi x" and "in_u ulo uhi x" and "neg ulo"
  shows "in_s (max slo ulo) uhi x" "in_u (max slo ulo) uhi x"
proof -
  have n: "neg x" "neg uhi" using assms(2,3) neg_mono unfolding in_u_def by blast+
  moreover have "neg slo" "slo \<le> x" using assms(1) n(1) unfolding in_s_def sle_iff by auto
  ultimately show "in_s (max slo ulo) uhi x" "in_u (max slo ulo) uhi x"
    using assms(2,3) unfolding in_s_def in_u_def sle_iff by (auto simp: max_def)
qed

lemma in_s_nonneg: "in_u lo hi x \<Longrightarrow> \<not> neg hi \<Longrightarrow> in_s lo hi x"
  unfolding in_s_def in_u_def sle_iff using neg_mono by blast
section \<open>Numbers with unknown bits\<close>

lemma known_bits_u:
  fixes x :: "'a::len word"
  assumes "x AND NOT m = v"
  shows "in_u v (v OR m) x"
proof -
  have "v = x AND NOT m" "v OR m = x OR m" unfolding assms [symmetric] by (auto intro!: bit_word_eqI simp: bit_simps)
  then show ?thesis by (metis in_u_def word_and_le2 word_and_le1 le_word_or1 le_word_or2)
qed

lemma known_bits_s:
  fixes x :: "'a::len word"
  assumes "x AND NOT m = v" and "msb = push_bit (LENGTH('a) - 1) 1"
  shows "in_s (v OR (m AND msb)) (v OR (m AND NOT msb)) x"
proof -
  have b: "bit msb i \<longleftrightarrow> i = LENGTH('a) - 1" if "i < LENGTH('a)" for i
    using that by (auto simp: assms(2) bit_simps)
  have nv: "neg v \<longleftrightarrow> neg x \<and> \<not> neg m" using assms(1) neg_and neg_not by metis
  have nb: "neg msb" by (simp add: neg_bit b)
  have low: "v OR (m AND msb) \<le> x" if "neg x \<or> \<not> neg m"
  proof -
    have "(v OR (m AND msb)) AND x = v OR (m AND msb)"
      using that b unfolding neg_bit assms(1) [symmetric] by (auto intro!: bit_word_eqI simp: bit_simps)
    then show ?thesis by (metis word_and_le1)
  qed
  have high: "x \<le> v OR (m AND NOT msb)" if "\<not> neg x \<or> \<not> neg m"
  proof -
    have "x OR (v OR (m AND NOT msb)) = v OR (m AND NOT msb)"
      using that b unfolding neg_bit assms(1) [symmetric] by (auto intro!: bit_word_eqI simp: bit_simps)
    then show ?thesis by (metis le_word_or1 le_word_or2)
  qed
  show ?thesis
    unfolding in_s_def sle_iff using low high nb nv by (auto simp: neg_or neg_and neg_not)
qed

section \<open>Sums and differences\<close>

lemma add_u:
  fixes x y :: "'a::len word"
  assumes "in_u a1 a2 x" and "in_u b1 b2 y" and "\<not> a1 + b1 < b1" and "\<not> a2 + b2 < b2"
  shows "in_u (a1 + b1) (a2 + b2) (x + y)"
proof -
  have "unat a2 + unat b2 < 2 ^ LENGTH('a)" using assms(4) by (metis no_olen_add_nat not_less olen_add_eqv add.commute)
  then have "unat (a2 + b2) = unat a2 + unat b2" by (simp add: unat_add_lem)
  moreover have "unat x \<le> unat a2" "unat y \<le> unat b2" "unat a1 \<le> unat x" "unat b1 \<le> unat y"
    using assms(1,2) by (simp_all add: in_u_def word_le_nat_alt)
  moreover from this \<open>unat a2 + unat b2 < 2 ^ LENGTH('a)\<close> have "unat (x + y) = unat x + unat y" "unat (a1 + b1) = unat a1 + unat b1"
    by (simp_all add: unat_add_lem [symmetric])
  ultimately show ?thesis by (simp add: in_u_def word_le_nat_alt)
qed

lemma sub_u:
  fixes x y :: "'a::len word"
  assumes "in_u a1 a2 x" and "in_u b1 b2 y" and "\<not> a1 < b2"
  shows "in_u (a1 - b2) (a2 - b1) (x - y)"
proof -
  have l: "b2 \<le> a1" "a1 \<le> x" "x \<le> a2" "b1 \<le> y" "y \<le> b2" using assms by (auto simp: in_u_def)
  then have "b1 \<le> a2" "y \<le> x" by (meson order_trans)+
  then show ?thesis using l unfolding in_u_def word_le_nat_alt by (simp add: unat_sub word_le_nat_alt) linarith
qed
lemma sint_range: "- (2 ^ (LENGTH('a) - 1)) \<le> sint w" "sint w < 2 ^ (LENGTH('a) - 1)" for w :: "'a::len word"
  using sint_ge [of w] sint_lt [of w] by simp_all

lemma sint_eq_if_fits:
  fixes w :: "'a::len word"
  assumes "w = word_of_int k" and "- (2 ^ (LENGTH('a) - 1)) \<le> k" and "k < 2 ^ (LENGTH('a) - 1)"
  shows "sint w = k"
  using assms by (simp add: sint_sbintrunc' signed_take_bit_int_eq_self)

text \<open>The signed value of a word differs from the number it was made from by a multiple of the range.\<close>

lemma sint_cases:
  fixes w :: "'a::len word"
  assumes w: "w = word_of_int k" and k: "- (2 ^ LENGTH('a)) \<le> k" "k < 2 ^ LENGTH('a)"
  obtains "sint w = k"
    | "sint w = k - 2 ^ LENGTH('a)" "2 ^ (LENGTH('a) - 1) \<le> k"
    | "sint w = k + 2 ^ LENGTH('a)" "k < - (2 ^ (LENGTH('a) - 1))"
proof -
  have p: "(2::int) ^ LENGTH('a) = 2 * 2 ^ (LENGTH('a) - 1)" by (metis Suc_diff_1 len_gt_0 power_Suc)
  have w': "w = word_of_int (k + j * 2 ^ LENGTH('a))" for j using w by simp
  consider "2 ^ (LENGTH('a) - 1) \<le> k" | "k < - (2 ^ (LENGTH('a) - 1))"
    | "- (2 ^ (LENGTH('a) - 1)) \<le> k" "k < 2 ^ (LENGTH('a) - 1)" by linarith
  then show ?thesis
  proof cases
    case 1
    have "sint w = k + (- 1) * 2 ^ LENGTH('a)" by (rule sint_eq_if_fits [OF w' [of "- 1"]]) (use 1 k p in linarith)+
    then show ?thesis using 1 that(2) by simp
  next
    case 2
    have "sint w = k + 1 * 2 ^ LENGTH('a)" by (rule sint_eq_if_fits [OF w' [of 1]]) (use 2 k p in linarith)+
    then show ?thesis using 2 that(3) by simp
  next
    case 3
    then show ?thesis using that(1) sint_eq_if_fits [OF w] by blast
  qed
qed

lemma two_halves: "(2::int) ^ LENGTH('a::len) = 2 * 2 ^ (LENGTH('a) - 1)"
  by (metis Suc_diff_1 len_gt_0 power_Suc)

text \<open>The tests of the code for signed overflow are exact.\<close>

lemma add_overflow_test:
  "\<not> (if sint b < 0 then sint (a + b) > sint a else sint (a + b) < sint a) \<longleftrightarrow> sint (a + b) = sint a + sint b" for a b :: "'a::len word"
proof -
  have w: "a + b = word_of_int (sint a + sint b)" by simp
  have k: "- (2 ^ LENGTH('a)) \<le> sint a + sint b" "sint a + sint b < 2 ^ LENGTH('a)"
    using sint_range [of a] sint_range [of b] two_halves [where 'a = 'a] by linarith+
  show ?thesis using sint_range [of a] sint_range [of b] two_halves [where 'a = 'a] by (cases rule: sint_cases [OF w k]) auto
qed

lemma sub_overflow_test:
  "\<not> (if sint b < 0 then sint (a - b) < sint a else sint (a - b) > sint a) \<longleftrightarrow> sint (a - b) = sint a - sint b" for a b :: "'a::len word"
proof -
  have w: "a - b = word_of_int (sint a - sint b)" by simp
  have k: "- (2 ^ LENGTH('a)) \<le> sint a - sint b" "sint a - sint b < 2 ^ LENGTH('a)"
    using sint_range [of a] sint_range [of b] two_halves [where 'a = 'a] by linarith+
  show ?thesis using sint_range [of a] sint_range [of b] two_halves [where 'a = 'a] by (cases rule: sint_cases [OF w k]) auto
qed

lemma add_s:
  fixes x y :: "'a::len word"
  assumes "in_s a1 a2 x" and "in_s b1 b2 y" and "sint (a1 + b1) = sint a1 + sint b1" and "sint (a2 + b2) = sint a2 + sint b2"
  shows "in_s (a1 + b1) (a2 + b2) (x + y)"
proof -
  have "sint (x + y) = sint x + sint y"
  proof (rule sint_eq_if_fits)
    show "x + y = word_of_int (sint x + sint y)" by simp
    show "- (2 ^ (LENGTH('a) - 1)) \<le> sint x + sint y" "sint x + sint y < 2 ^ (LENGTH('a) - 1)"
      using assms sint_range(1) [of "a1 + b1"] sint_range(2) [of "a2 + b2"] unfolding in_s_def by linarith+
  qed
  then show ?thesis using assms by (simp add: in_s_def)
qed

lemma sub_s:
  fixes x y :: "'a::len word"
  assumes "in_s a1 a2 x" and "in_s b1 b2 y" and "sint (a1 - b2) = sint a1 - sint b2" and "sint (a2 - b1) = sint a2 - sint b1"
  shows "in_s (a1 - b2) (a2 - b1) (x - y)"
proof -
  have "sint (x - y) = sint x - sint y"
  proof (rule sint_eq_if_fits)
    show "x - y = word_of_int (sint x - sint y)" by simp
    show "- (2 ^ (LENGTH('a) - 1)) \<le> sint x - sint y" "sint x - sint y < 2 ^ (LENGTH('a) - 1)"
      using assms sint_range(1) [of "a1 - b2"] sint_range(2) [of "a2 - b1"] unfolding in_s_def by linarith+
  qed
  then show ?thesis using assms by (simp add: in_s_def)
qed

section \<open>Products, bits and shifts\<close>

lemma mul_u:
  fixes x y :: "'a::len word"
  assumes "in_u a1 a2 x" and "in_u b1 b2 y" and "unat a2 * unat b2 < 2 ^ LENGTH('a)"
  shows "in_u (a1 * b1) (a2 * b2) (x * y)"
proof -
  have l: "unat a1 \<le> unat x" "unat x \<le> unat a2" "unat b1 \<le> unat y" "unat y \<le> unat b2"
    using assms(1,2) by (simp_all add: in_u_def word_le_nat_alt)
  then have le: "unat a1 * unat b1 \<le> unat x * unat y" "unat x * unat y \<le> unat a2 * unat b2" by (simp_all add: mult_le_mono)
  then have "unat (x * y) = unat x * unat y" "unat (a1 * b1) = unat a1 * unat b1" "unat (a2 * b2) = unat a2 * unat b2"
    using assms(3) by (simp_all add: unat_mult_lem [symmetric])
  then show ?thesis using le by (simp add: in_u_def word_le_nat_alt)
qed

lemma and_u: "x \<le> a2 \<Longrightarrow> y \<le> b2 \<Longrightarrow> x AND y \<le> min a2 b2" for x y :: "'a::len word"
  by (meson min.boundedI order_trans word_and_le1 word_and_le2)

lemma or_u: "a1 \<le> x \<Longrightarrow> b1 \<le> y \<Longrightarrow> max a1 b1 \<le> x OR y" for x y :: "'a::len word"
  by (meson max.boundedI order_trans le_word_or1 le_word_or2)

lemma unat_push_bit: "unat w * 2 ^ k < 2 ^ LENGTH('a) \<Longrightarrow> unat (push_bit k w) = unat w * 2 ^ k" for w :: "'a::len word"
  by (simp add: unsigned_push_bit_eq [where 'b = 'a] push_bit_eq_mult [of k "unat w"] take_bit_nat_eq_self)

lemma lsh_u:
  fixes x :: "'a::len word"
  assumes x: "in_u a1 a2 x" and k: "k < LENGTH('a)" and a2: "unat a2 \<le> 2 ^ (LENGTH('a) - 1 - k)"
  shows "in_u (push_bit k a1) (push_bit k a2) (push_bit k x)"
proof -
  have "unat a2 * 2 ^ k \<le> 2 ^ (LENGTH('a) - 1 - k) * 2 ^ k" using a2 by simp
  also have "\<dots> = 2 ^ (LENGTH('a) - 1)" using k by (simp flip: power_add)
  also have "\<dots> < 2 ^ LENGTH('a)" by simp
  finally have "unat a2 * 2 ^ k < 2 ^ LENGTH('a)" .
  moreover have "unat a1 * 2 ^ k \<le> unat x * 2 ^ k" "unat x * 2 ^ k \<le> unat a2 * 2 ^ k"
    using x by (simp_all add: in_u_def word_le_nat_alt)
  ultimately show ?thesis unfolding in_u_def word_le_nat_alt using unat_push_bit by (metis le_less_trans)
qed

lemma rsh_u: "in_u a1 a2 x \<Longrightarrow> in_u (drop_bit k a1) (drop_bit k a2) (drop_bit k x)" for x :: "'a::len word"
  by (simp only: in_u_def word_le_nat_alt unat_drop_bit_eq) (simp add: drop_bit_eq_div div_le_mono)

lemma arsh_s: "in_s a1 a2 x \<Longrightarrow> in_s (signed_drop_bit k a1) (signed_drop_bit k a2) (signed_drop_bit k x)" for x :: "'a::len word"
  by (simp only: in_s_def sint_signed_drop_bit_eq) (simp add: drop_bit_eq_div zdiv_mono1)

end
