(* ===== verification/Bpf_Bounds.thy ===== *)
theory Bpf_Bounds
  imports Bpf_Reg Bpf_Words
begin

text \<open>
  What a register state says: the set of values it allows.  Every function that only exchanges knowledge between the
  fields keeps the values it describes, and \<open>reg_bounds_sync\<close> brings the fields into a shape (\<open>reg_signs\<close>) on which the
  bitwise operations rely.
\<close>

section \<open>The values of a state\<close>

abbreviation low :: "u64 \<Rightarrow> u32" where "low \<equiv> ucast"

definition tnum_has :: "tnum \<Rightarrow> u64 \<Rightarrow> bool" where
  "tnum_has t x \<longleftrightarrow> x AND NOT (t_mask t) = t_value t"

definition reg_has :: "bpf_reg_state \<Rightarrow> u64 \<Rightarrow> bool" where
  "reg_has r x \<longleftrightarrow>
     tnum_has (var_off r) x \<and> in_s (smin_value r) (smax_value r) x \<and> in_u (umin_value r) (umax_value r) x \<and>
     in_s (s32_min_value r) (s32_max_value r) (low x) \<and> in_u (u32_min_value r) (u32_max_value r) (low x)"

text \<open>A value that is known to be nonnegative has this sign in all fields.\<close>

definition reg_signs :: "bpf_reg_state \<Rightarrow> bool" where
  "reg_signs r \<longleftrightarrow>
     (\<not> neg (smin_value r) \<longrightarrow> (\<forall>y. tnum_has (var_off r) y \<longrightarrow> \<not> neg y) \<and> \<not> neg (umax_value r)) \<and>
     (\<not> neg (s32_min_value r) \<longrightarrow> (\<forall>y. tnum_has (var_off r) y \<longrightarrow> \<not> neg (low y)) \<and> \<not> neg (u32_max_value r))"

section \<open>What is relied on of the library\<close>

text \<open>
  Every operation returns a number that has the results of the operation on the values of its arguments; those that work
  bit by bit return one that has nothing else.  An argument without values may give anything.
\<close>

definition tnum_ranges_ok :: "tnum_lib \<Rightarrow> bool" where
  "tnum_ranges_ok T \<longleftrightarrow>
     (\<forall>x. tnum_has (tnum_unknown T) x) \<and>
     (\<forall>c x. tnum_has (tnum_const T c) x \<longleftrightarrow> x = c) \<and>
     (\<forall>lo hi x. in_u lo hi x \<longrightarrow> tnum_has (tnum_range T lo hi) x) \<and>
     (\<forall>lo hi k y. lo \<le> hi \<longrightarrow> unat hi < 2 ^ k \<longrightarrow> tnum_has (tnum_range T lo hi) y \<longrightarrow> unat y < 2 ^ k)"

definition tnum_shifts_ok :: "tnum_lib \<Rightarrow> bool" where
  "tnum_shifts_ok T \<longleftrightarrow>
     (\<forall>a x n. tnum_has a x \<longrightarrow> n < 64 \<longrightarrow> tnum_has (tnum_lshift T a n) (push_bit (unat n) x)) \<and>
     (\<forall>a x n. tnum_has a x \<longrightarrow> n < 64 \<longrightarrow> tnum_has (tnum_rshift T a n) (drop_bit (unat n) x)) \<and>
     (\<forall>a x n. tnum_has a x \<longrightarrow> n < 64 \<longrightarrow> tnum_has (tnum_arshift T a n 64) (signed_drop_bit (unat n) x)) \<and>
     (\<forall>a x n. tnum_has a x \<longrightarrow> n < 32 \<longrightarrow> tnum_has (tnum_arshift T a n 32) (ucast (signed_drop_bit (unat n) (low x))))"

definition tnum_arith_ok :: "tnum_lib \<Rightarrow> bool" where
  "tnum_arith_ok T \<longleftrightarrow>
     (\<forall>a b x y. tnum_has a x \<longrightarrow> tnum_has b y \<longrightarrow> tnum_has (tnum_add T a b) (x + y)) \<and>
     (\<forall>a b x y. tnum_has a x \<longrightarrow> tnum_has b y \<longrightarrow> tnum_has (tnum_sub T a b) (x - y)) \<and>
     (\<forall>a b x y. tnum_has a x \<longrightarrow> tnum_has b y \<longrightarrow> tnum_has (tnum_mul T a b) (x * y))"

text \<open>\<open>bitwise g f\<close>: the values of \<open>g a b\<close> are exactly the results of \<open>f\<close>.\<close>

definition bitwise :: "(tnum \<Rightarrow> tnum \<Rightarrow> tnum) \<Rightarrow> (u64 \<Rightarrow> u64 \<Rightarrow> u64) \<Rightarrow> bool" where
  "bitwise g f \<longleftrightarrow>
     (\<forall>a b x y. tnum_has a x \<longrightarrow> tnum_has b y \<longrightarrow>
        tnum_has (g a b) (f x y) \<and> (\<forall>z. tnum_has (g a b) z \<longrightarrow> (\<exists>p q. tnum_has a p \<and> tnum_has b q \<and> z = f p q)))"

definition bitwise1 :: "(tnum \<Rightarrow> tnum) \<Rightarrow> (u64 \<Rightarrow> u64) \<Rightarrow> bool" where
  "bitwise1 g f \<longleftrightarrow>
     (\<forall>a x. tnum_has a x \<longrightarrow> tnum_has (g a) (f x) \<and> (\<forall>z. tnum_has (g a) z \<longrightarrow> (\<exists>p. tnum_has a p \<and> z = f p)))"

definition tnum_bits_ok :: "tnum_lib \<Rightarrow> bool" where
  "tnum_bits_ok T \<longleftrightarrow>
     bitwise (tnum_and T) (AND) \<and> bitwise (tnum_or T) (OR) \<and> bitwise (tnum_xor T) (XOR) \<and>
     (\<forall>a b x. tnum_has a x \<longrightarrow> tnum_has b x \<longrightarrow>
        tnum_has (tnum_intersect T a b) x \<and> (\<forall>y. tnum_has (tnum_intersect T a b) y \<longrightarrow> tnum_has a y \<and> tnum_has b y))"

text \<open>The high half of a number, with zeros below.\<close>

definition high :: "u64 \<Rightarrow> u64" where
  "high x = push_bit 32 (drop_bit 32 x)"

definition tnum_parts_ok :: "tnum_lib \<Rightarrow> bool" where
  "tnum_parts_ok T \<longleftrightarrow>
     (\<forall>n<8. bitwise1 (\<lambda>a. tnum_cast T a n) (take_bit (8 * n))) \<and>
     bitwise1 (tnum_subreg T) (take_bit 32) \<and> bitwise1 (tnum_clear_subreg T) high \<and>
     (\<forall>c. bitwise1 (\<lambda>a. tnum_const_subreg T a c) (\<lambda>x. high x OR take_bit 32 c))"

definition tnum_tests_ok :: "tnum_lib \<Rightarrow> bool" where
  "tnum_tests_ok T \<longleftrightarrow>
     (\<forall>a x y. tnum_is_const T a \<longrightarrow> tnum_has a x \<longrightarrow> tnum_has a y \<longrightarrow> y = x) \<and>
     (\<forall>a x c. tnum_has a x \<longrightarrow> (tnum_equals_const T a c \<longleftrightarrow> tnum_is_const T a \<and> c = x)) \<and>
     (\<forall>a x y. tnum_subreg_is_const T a \<longrightarrow> tnum_has a x \<longrightarrow> tnum_has a y \<longrightarrow> low y = low x) \<and>
     (\<forall>a b x. tnum_in T a b \<longrightarrow> tnum_has b x \<longrightarrow> tnum_has a x)"

definition tnum_ok :: "tnum_lib \<Rightarrow> bool" where
  "tnum_ok T \<longleftrightarrow> tnum_ranges_ok T \<and> tnum_shifts_ok T \<and> tnum_arith_ok T \<and> tnum_bits_ok T \<and> tnum_parts_ok T \<and> tnum_tests_ok T"

lemma tnum_rangesD:
  assumes "tnum_ok T"
  shows "tnum_has (tnum_unknown T) x" "tnum_has (tnum_const T c) x \<longleftrightarrow> x = c"
    "in_u lo hi x \<Longrightarrow> tnum_has (tnum_range T lo hi) x"
    "lo \<le> hi \<Longrightarrow> unat hi < 2 ^ k \<Longrightarrow> tnum_has (tnum_range T lo hi) y \<Longrightarrow> unat y < 2 ^ k"
proof -
  have "tnum_ranges_ok T" using assms by (simp add: tnum_ok_def)
  then show "tnum_has (tnum_unknown T) x" "tnum_has (tnum_const T c) x \<longleftrightarrow> x = c"
    "in_u lo hi x \<Longrightarrow> tnum_has (tnum_range T lo hi) x"
    "lo \<le> hi \<Longrightarrow> unat hi < 2 ^ k \<Longrightarrow> tnum_has (tnum_range T lo hi) y \<Longrightarrow> unat y < 2 ^ k"
    unfolding tnum_ranges_ok_def by blast+
qed

lemma tnum_shiftsD:
  assumes "tnum_ok T" and "tnum_has a x"
  shows "n < 64 \<Longrightarrow> tnum_has (tnum_lshift T a n) (push_bit (unat n) x)"
    "n < 64 \<Longrightarrow> tnum_has (tnum_rshift T a n) (drop_bit (unat n) x)"
    "n < 64 \<Longrightarrow> tnum_has (tnum_arshift T a n 64) (signed_drop_bit (unat n) x)"
    "n < 32 \<Longrightarrow> tnum_has (tnum_arshift T a n 32) (ucast (signed_drop_bit (unat n) (low x)))"
  using assms by (simp_all add: tnum_ok_def tnum_shifts_ok_def)

lemma tnum_arithD:
  assumes "tnum_ok T" and "tnum_has a x" and "tnum_has b y"
  shows "tnum_has (tnum_add T a b) (x + y)" "tnum_has (tnum_sub T a b) (x - y)" "tnum_has (tnum_mul T a b) (x * y)"
  using assms by (simp_all add: tnum_ok_def tnum_arith_ok_def)

lemma bitwiseD:
  assumes "bitwise g f" and "tnum_has a x" and "tnum_has b y"
  shows "tnum_has (g a b) (f x y)" "tnum_has (g a b) z \<Longrightarrow> \<exists>p q. tnum_has a p \<and> tnum_has b q \<and> z = f p q"
  using assms unfolding bitwise_def by blast+

lemma bitwise1D:
  assumes "bitwise1 g f" and "tnum_has a x"
  shows "tnum_has (g a) (f x)" "tnum_has (g a) z \<Longrightarrow> \<exists>p. tnum_has a p \<and> z = f p"
  using assms unfolding bitwise1_def by blast+

lemma tnum_bitsD:
  assumes "tnum_ok T" and "tnum_has a x" and "tnum_has b y"
  shows "tnum_has (tnum_and T a b) (x AND y)" "tnum_has (tnum_or T a b) (x OR y)" "tnum_has (tnum_xor T a b) (x XOR y)"
    "tnum_has (tnum_and T a b) z \<Longrightarrow> \<exists>p q. tnum_has a p \<and> tnum_has b q \<and> z = p AND q"
    "tnum_has (tnum_or T a b) z \<Longrightarrow> \<exists>p q. tnum_has a p \<and> tnum_has b q \<and> z = p OR q"
    "tnum_has (tnum_xor T a b) z \<Longrightarrow> \<exists>p q. tnum_has a p \<and> tnum_has b q \<and> z = p XOR q"
proof -
  have "bitwise (tnum_and T) (AND)" "bitwise (tnum_or T) (OR)" "bitwise (tnum_xor T) (XOR)"
    using assms(1) by (simp_all add: tnum_ok_def tnum_bits_ok_def)
  note B = this [THEN bitwiseD(1), OF assms(2,3)] this [THEN bitwiseD(2), OF assms(2,3)]
  show "tnum_has (tnum_and T a b) (x AND y)" "tnum_has (tnum_or T a b) (x OR y)" "tnum_has (tnum_xor T a b) (x XOR y)"
    "tnum_has (tnum_and T a b) z \<Longrightarrow> \<exists>p q. tnum_has a p \<and> tnum_has b q \<and> z = p AND q"
    "tnum_has (tnum_or T a b) z \<Longrightarrow> \<exists>p q. tnum_has a p \<and> tnum_has b q \<and> z = p OR q"
    "tnum_has (tnum_xor T a b) z \<Longrightarrow> \<exists>p q. tnum_has a p \<and> tnum_has b q \<and> z = p XOR q"
    by (rule B(1), rule B(2), rule B(3), erule B(4), erule B(5), erule B(6))
qed

lemma tnum_intersectD:
  assumes "tnum_ok T" and "tnum_has a x" and "tnum_has b x"
  shows "tnum_has (tnum_intersect T a b) x" "tnum_has (tnum_intersect T a b) y \<Longrightarrow> tnum_has a y" "tnum_has (tnum_intersect T a b) y \<Longrightarrow> tnum_has b y"
  using assms unfolding tnum_ok_def tnum_bits_ok_def by blast+

lemma tnum_partsD:
  assumes "tnum_ok T" and "tnum_has a x"
  shows "n < 8 \<Longrightarrow> tnum_has (tnum_cast T a n) (take_bit (8 * n) x)" "tnum_has (tnum_subreg T a) (take_bit 32 x)"
    "tnum_has (tnum_clear_subreg T a) (high x)" "tnum_has (tnum_const_subreg T a c) (high x OR take_bit 32 c)"
    "n < 8 \<Longrightarrow> tnum_has (tnum_cast T a n) z \<Longrightarrow> \<exists>p. tnum_has a p \<and> z = take_bit (8 * n) p"
    "tnum_has (tnum_subreg T a) z \<Longrightarrow> \<exists>p. tnum_has a p \<and> z = take_bit 32 p"
    "tnum_has (tnum_clear_subreg T a) z \<Longrightarrow> \<exists>p. tnum_has a p \<and> z = high p"
    "tnum_has (tnum_const_subreg T a c) z \<Longrightarrow> \<exists>p. tnum_has a p \<and> z = high p OR take_bit 32 c"
proof -
  have "n < 8 \<Longrightarrow> bitwise1 (\<lambda>a. tnum_cast T a n) (take_bit (8 * n))" "bitwise1 (tnum_subreg T) (take_bit 32)"
    "bitwise1 (tnum_clear_subreg T) high" "bitwise1 (\<lambda>a. tnum_const_subreg T a c) (\<lambda>x. high x OR take_bit 32 c)"
    using assms(1) by (simp_all add: tnum_ok_def tnum_parts_ok_def)
  note B = bitwise1D [OF this(1) assms(2)] bitwise1D [OF this(2) assms(2)] bitwise1D [OF this(3) assms(2)] bitwise1D [OF this(4) assms(2)]
  show "n < 8 \<Longrightarrow> tnum_has (tnum_cast T a n) (take_bit (8 * n) x)" "tnum_has (tnum_subreg T a) (take_bit 32 x)"
    "tnum_has (tnum_clear_subreg T a) (high x)" "tnum_has (tnum_const_subreg T a c) (high x OR take_bit 32 c)"
    "n < 8 \<Longrightarrow> tnum_has (tnum_cast T a n) z \<Longrightarrow> \<exists>p. tnum_has a p \<and> z = take_bit (8 * n) p"
    "tnum_has (tnum_subreg T a) z \<Longrightarrow> \<exists>p. tnum_has a p \<and> z = take_bit 32 p"
    "tnum_has (tnum_clear_subreg T a) z \<Longrightarrow> \<exists>p. tnum_has a p \<and> z = high p"
    "tnum_has (tnum_const_subreg T a c) z \<Longrightarrow> \<exists>p. tnum_has a p \<and> z = high p OR take_bit 32 c"
    by (rule B(1), assumption, rule B(3), rule B(5), rule B(7), erule (1) B(2), erule B(4), erule B(6), erule B(8))
qed

lemma tnum_testsD:
  assumes "tnum_ok T" and "tnum_has a x"
  shows "tnum_is_const T a \<Longrightarrow> tnum_has a y \<Longrightarrow> y = x" "tnum_equals_const T a c \<longleftrightarrow> tnum_is_const T a \<and> c = x"
    "tnum_subreg_is_const T a \<Longrightarrow> tnum_has a y \<Longrightarrow> low y = low x" "tnum_in T b a \<Longrightarrow> tnum_has b x"
  using assms unfolding tnum_ok_def tnum_tests_ok_def by blast+
section \<open>Numbers with unknown bits and ranges\<close>

lemma neg64 [simp]: "neg (S64_MIN :: u64)" "\<not> neg (S64_MAX :: u64)" "\<not> neg (0 :: u64)"
  and neg32 [simp]: "neg (S32_MIN :: u32)" "\<not> neg (S32_MAX :: u32)" "\<not> neg (0 :: u32)"
  by (simp_all add: neg_def)

lemma full_ranges [simp]:
  "in_s S64_MIN S64_MAX (x :: u64)" "in_u 0 U64_MAX (x :: u64)" "in_s S32_MIN S32_MAX (w :: u32)" "in_u 0 U32_MAX (w :: u32)"
proof -
  have "(U64_MAX :: u64) = - 1" "(U32_MAX :: u32) = - 1" by simp_all
  then show "in_u 0 U64_MAX x" "in_u 0 U32_MAX w" by (simp_all only: in_u_def word_n1_ge word_zero_le simp_thms)
  show "in_s S64_MIN S64_MAX x" "in_s S32_MIN S32_MAX w"
    using sint_range [of x] sint_range [of w] by (simp_all add: in_s_def)
qed

lemma in_s_both: "in_s a b x \<Longrightarrow> in_s c d x \<Longrightarrow> in_s (smax_t a c) (smin_t b d) x"
  by (simp add: in_s_def smax_t_def smin_t_def)

lemma in_u_both: "in_u a b x \<Longrightarrow> in_u c d x \<Longrightarrow> in_u (max a c) (min b d) x"
  by (simp add: in_u_def)

lemma in_s_refl [simp]: "in_s x x x" and in_u_refl [simp]: "in_u x x x"
  by (simp_all add: in_s_def in_u_def)

lemma tnum_u: "tnum_has t x \<Longrightarrow> in_u (t_value t) (t_value t OR t_mask t) x"
  by (rule known_bits_u) (simp add: tnum_has_def)

lemma sign_masks:
  "NOT (S64_MIN :: u64) = S64_MAX" "NOT (S32_MIN :: u32) = S32_MAX" "low 0xFFFFFFFF80000000 = S32_MIN" "low 0x7FFFFFFF = S32_MAX"
  "push_bit (LENGTH(64) - 1) 1 = (S64_MIN :: u64)" "push_bit (LENGTH(32) - 1) 1 = (S32_MIN :: u32)"
  by simp_all

lemma tnum_s: "tnum_has t x \<Longrightarrow> in_s (t_value t OR (t_mask t AND S64_MIN)) (t_value t OR (t_mask t AND S64_MAX)) x"
  using known_bits_s [of x "t_mask t" "t_value t" S64_MIN, unfolded sign_masks] by (simp only: tnum_has_def simp_thms)

text \<open>The largest value is one.\<close>

lemma tnum_max: "tnum_has t x \<Longrightarrow> tnum_has t (t_value t OR t_mask t)"
  unfolding tnum_has_def by (metis and.right_idem bit.conj_cancel_right bit.conj_disj_distrib2 or.right_neutral)

lemma tnum_min: "tnum_has t x \<Longrightarrow> tnum_has t (t_value t)"
  unfolding tnum_has_def by (metis and.right_idem)

text \<open>The low half.\<close>

lemma low_simps [simp]:
  "low (a AND b) = low a AND low b" "low (a OR b) = low a OR low b" "low (a XOR b) = low a XOR low b" "low (NOT a) = NOT (low a)"
  "low (take_bit 32 a) = low a" "low (high a) = 0"
  by (auto intro!: bit_word_eqI simp: bit_simps high_def)

lemma low_arith: "low (a + b) = low a + low b" "low (a - b) = low a - low b" "low (a * b) = low a * low b"
proof -
  have "take_bit 32 (take_bit 64 (x + y)) = take_bit 32 (take_bit 64 x + take_bit 64 y)" for x y :: int
  proof -
    have "take_bit 32 (take_bit 64 x + take_bit 64 y) = take_bit 32 (take_bit 32 (take_bit 64 x) + take_bit 32 (take_bit 64 y))"
      by (rule take_bit_add [symmetric])
    also have "\<dots> = take_bit 32 (take_bit 32 x + take_bit 32 y)" by simp
    also have "\<dots> = take_bit 32 (x + y)" by (rule take_bit_add)
    finally show ?thesis by simp
  qed
  then show "low (a + b) = low a + low b" by transfer simp
  have "take_bit 32 (take_bit 64 (x - y)) = take_bit 32 (take_bit 64 x - take_bit 64 y)" for x y :: int
  proof -
    have "take_bit 32 (take_bit 64 x - take_bit 64 y) = take_bit 32 (take_bit 32 (take_bit 64 x) - take_bit 32 (take_bit 64 y))"
      by (rule take_bit_diff [symmetric])
    also have "\<dots> = take_bit 32 (take_bit 32 x - take_bit 32 y)" by simp
    also have "\<dots> = take_bit 32 (x - y)" by (rule take_bit_diff)
    finally show ?thesis by simp
  qed
  then show "low (a - b) = low a - low b" by transfer simp
  have "take_bit 32 (take_bit 64 (x * y)) = take_bit 32 (take_bit 64 x * take_bit 64 y)" for x y :: int
  proof -
    have "take_bit 32 (take_bit 64 x * take_bit 64 y) = take_bit 32 (take_bit 32 (take_bit 64 x) * take_bit 32 (take_bit 64 y))"
      by (rule take_bit_mult [symmetric])
    also have "\<dots> = take_bit 32 (take_bit 32 x * take_bit 32 y)" by simp
    also have "\<dots> = take_bit 32 (x * y)" by (rule take_bit_mult)
    finally show ?thesis by simp
  qed
  then show "low (a * b) = low a * low b" by transfer simp
qed

lemma high_low: "high x OR take_bit 32 x = x" "take_bit 32 x = ucast (low x)" "high x OR take_bit 32 c = high x + take_bit 32 c"
proof -
  show "high x OR take_bit 32 x = x" "take_bit 32 x = ucast (low x)" by (auto intro!: bit_word_eqI simp: bit_simps high_def)
  have "high x AND take_bit 32 c = 0" by (auto intro!: bit_word_eqI simp: bit_simps high_def)
  then show "high x OR take_bit 32 c = high x + take_bit 32 c" by (simp add: disjunctive_add_eq_or)
qed

text \<open>The known bits of the low half.\<close>

lemma low_known:
  assumes T: "tnum_ok T" and x: "tnum_has a x"
  shows "low x AND NOT (low (t_mask (tnum_subreg T a))) = low (t_value (tnum_subreg T a))"
proof -
  have "take_bit 32 x AND NOT (t_mask (tnum_subreg T a)) = t_value (tnum_subreg T a)"
    using tnum_partsD(2) [OF T x] by (simp add: tnum_has_def)
  then have "low (take_bit 32 x AND NOT (t_mask (tnum_subreg T a))) = low (t_value (tnum_subreg T a))" by simp
  then show ?thesis by (simp only: low_simps)
qed

lemma low_u: "tnum_ok T \<Longrightarrow> tnum_has a x \<Longrightarrow>
    in_u (low (t_value (tnum_subreg T a))) (low (t_value (tnum_subreg T a) OR t_mask (tnum_subreg T a))) (low x)"
  using known_bits_u [OF low_known] by (simp only: low_simps)

lemma low_s: "tnum_ok T \<Longrightarrow> tnum_has a x \<Longrightarrow>
    in_s (low (t_value (tnum_subreg T a) OR (t_mask (tnum_subreg T a) AND 0xFFFFFFFF80000000)))
         (low (t_value (tnum_subreg T a) OR (t_mask (tnum_subreg T a) AND 0x7FFFFFFF))) (low x)"
  using known_bits_s [OF low_known, of T a x S32_MIN, unfolded sign_masks] by (simp only: low_simps sign_masks simp_thms)
section \<open>Functions that exchange knowledge keep the values\<close>

lemma reg_hasD:
  assumes "reg_has r x"
  shows "tnum_has (var_off r) x" "in_s (smin_value r) (smax_value r) x" "in_u (umin_value r) (umax_value r) x"
    "in_s (s32_min_value r) (s32_max_value r) (low x)" "in_u (u32_min_value r) (u32_max_value r) (low x)"
  using assms by (simp_all add: reg_has_def)

lemma update32_has:
  assumes T: "tnum_ok T" and h: "reg_has r x"
  shows "reg_has (verifier_update_reg32_bounds T r) x"
proof -
  note H = reg_hasD [OF h]
  show ?thesis
    using H(1-3) in_s_both [OF H(4) low_s [OF T H(1)]] in_u_both [OF H(5) low_u [OF T H(1)]]
    by (simp add: reg_has_def verifier_update_reg32_bounds_def Let_def)
qed

lemma update64_has:
  assumes h: "reg_has r x"
  shows "reg_has (verifier_update_reg64_bounds r) x"
proof -
  note H = reg_hasD [OF h]
  show ?thesis
    using H(1,4,5) in_s_both [OF H(2) tnum_s [OF H(1)]] in_u_both [OF H(3) tnum_u [OF H(1)]]
    by (simp add: reg_has_def verifier_update_reg64_bounds_def)
qed

lemma update_has: "tnum_ok T \<Longrightarrow> reg_has r x \<Longrightarrow> reg_has (verifier_update_reg_bounds T r) x"
  by (simp add: verifier_update_reg_bounds_def update32_has update64_has)

lemma deduce32_has: "reg_has r x \<Longrightarrow> reg_has (verifier_reg32_deduce_bounds r) x"
proof -
  assume h: "reg_has r x"
  note s = reg_hasD(4) [OF h] and u = reg_hasD(5) [OF h]
  show ?thesis
    using deduce_sign [OF s u] deduce_positive [OF s u] deduce_negative [OF s u] reg_hasD [OF h]
    by (auto simp: reg_has_def verifier_reg32_deduce_bounds_def Let_def neg_def)
qed

lemma deduce64_has: "reg_has r x \<Longrightarrow> reg_has (verifier_reg64_deduce_bounds r) x"
proof -
  assume h: "reg_has r x"
  note s = reg_hasD(2) [OF h] and u = reg_hasD(3) [OF h]
  show ?thesis
    using deduce_sign [OF s u] deduce_positive [OF s u] deduce_negative [OF s u] reg_hasD [OF h]
    by (auto simp: reg_has_def verifier_reg64_deduce_bounds_def Let_def neg_def)
qed

lemma deduce_has: "reg_has r x \<Longrightarrow> reg_has (verifier_reg_deduce_bounds r) x"
  by (simp add: verifier_reg_deduce_bounds_def deduce32_has deduce64_has)

lemma in_s_nonneg_top: "in_s lo hi x \<Longrightarrow> \<not> neg lo \<Longrightarrow> \<not> neg hi"
  by (auto simp: in_s_def neg_def)

text \<open>Deduction leaves no nonnegative range with an upper bound that is negative when it is read signed.\<close>

lemma deduce_signs:
  assumes "reg_has r x"
  shows "\<not> neg (smin_value (verifier_reg_deduce_bounds r)) \<Longrightarrow> \<not> neg (umax_value (verifier_reg_deduce_bounds r))"
    "\<not> neg (s32_min_value (verifier_reg_deduce_bounds r)) \<Longrightarrow> \<not> neg (u32_max_value (verifier_reg_deduce_bounds r))"
proof -
  let ?d = "verifier_reg_deduce_bounds r"
  have h: "reg_has ?d x" using assms by (rule deduce_has)
  have "smax_value ?d = umax_value ?d \<or> neg (smin_value ?d)"
    by (auto simp: verifier_reg_deduce_bounds_def verifier_reg64_deduce_bounds_def verifier_reg32_deduce_bounds_def Let_def neg_def)
  then show "\<not> neg (smin_value ?d) \<Longrightarrow> \<not> neg (umax_value ?d)" using in_s_nonneg_top [OF reg_hasD(2) [OF h]] by auto
  have "s32_max_value ?d = u32_max_value ?d \<or> neg (s32_min_value ?d)"
    by (auto simp: verifier_reg_deduce_bounds_def verifier_reg64_deduce_bounds_def verifier_reg32_deduce_bounds_def Let_def neg_def)
  then show "\<not> neg (s32_min_value ?d) \<Longrightarrow> \<not> neg (u32_max_value ?d)" using in_s_nonneg_top [OF reg_hasD(4) [OF h]] by auto
qed

lemma unat_ucast_word: "unat (ucast w :: u64) = unat (w :: u32)"
proof -
  have "unat w < 2 ^ LENGTH(32)" by (rule unsigned_less)
  then show ?thesis by (simp add: unsigned_ucast_eq take_bit_nat_eq_self)
qed

lemma unsigned_range32: "in_u lo hi (low x) \<Longrightarrow> in_u (ucast lo) (ucast hi) (take_bit 32 x)"
  by (simp add: in_u_def high_low(2) word_le_nat_alt unat_ucast_word)

lemma bound_offset_var:
  assumes T: "tnum_ok T" and h: "reg_has r x"
  shows "tnum_has (var_off (verifier_reg_bound_offset T r)) x"
    and "tnum_has (var_off (verifier_reg_bound_offset T r)) y \<Longrightarrow>
      \<exists>p q. y = high p OR q \<and> tnum_has (tnum_range T (umin_value r) (umax_value r)) p \<and>
        tnum_has (tnum_range T (ucast (u32_min_value r)) (ucast (u32_max_value r))) q \<and> take_bit 32 q = q"
proof -
  let ?i = "tnum_intersect T (var_off r) (tnum_range T (umin_value r) (umax_value r))"
  let ?j = "tnum_intersect T (tnum_subreg T (var_off r)) (tnum_range T (ucast (u32_min_value r)) (ucast (u32_max_value r)))"
  note H = reg_hasD [OF h]
  have i: "tnum_has (var_off r) x" "tnum_has (tnum_range T (umin_value r) (umax_value r)) x"
    using H(1) tnum_rangesD(3) [OF T H(3)] by auto
  have j: "tnum_has (tnum_subreg T (var_off r)) (take_bit 32 x)"
    "tnum_has (tnum_range T (ucast (u32_min_value r)) (ucast (u32_max_value r))) (take_bit 32 x)"
    using tnum_partsD(2) [OF T H(1)] tnum_rangesD(3) [OF T unsigned_range32 [OF H(5)]] by auto
  note I = tnum_intersectD [OF T i] and J = tnum_intersectD [OF T j]
  have c: "tnum_has (tnum_clear_subreg T ?i) (high x)" using tnum_partsD(3) [OF T I(1)] .
  show "tnum_has (var_off (verifier_reg_bound_offset T r)) x"
    using tnum_bitsD(2) [OF T c J(1)] by (simp add: verifier_reg_bound_offset_def high_low(1))
  assume "tnum_has (var_off (verifier_reg_bound_offset T r)) y"
  then have "tnum_has (tnum_or T (tnum_clear_subreg T ?i) ?j) y" by (simp add: verifier_reg_bound_offset_def Let_def)
  from tnum_bitsD(5) [OF T c J(1) this] obtain a q where aq: "tnum_has (tnum_clear_subreg T ?i) a" "tnum_has ?j q" "y = a OR q" by blast
  from tnum_partsD(7) [OF T I(1) aq(1)] obtain p where p: "tnum_has ?i p" "a = high p" by blast
  from tnum_partsD(6) [OF T H(1) J(2) [OF aq(2)]] obtain q' where "q = take_bit 32 q'" by blast
  then have "take_bit 32 q = q" by simp
  with aq(3) p I(3) [OF p(1)] J(3) [OF aq(2)] show "\<exists>p q. y = high p OR q \<and> tnum_has (tnum_range T (umin_value r) (umax_value r)) p \<and>
        tnum_has (tnum_range T (ucast (u32_min_value r)) (ucast (u32_max_value r))) q \<and> take_bit 32 q = q" by blast
qed

lemma bound_offset_has:
  assumes T: "tnum_ok T" and h: "reg_has r x"
  shows "reg_has (verifier_reg_bound_offset T r) x"
proof -
  have "\<exists>v. verifier_reg_bound_offset T r = r\<lparr>var_off := v\<rparr>" unfolding verifier_reg_bound_offset_def Let_def by (rule exI, rule refl)
  then obtain v where "verifier_reg_bound_offset T r = r\<lparr>var_off := v\<rparr>" by blast
  then show ?thesis using bound_offset_var(1) [OF T h] reg_hasD [OF h] by (simp add: reg_has_def)
qed

lemma sync_has: "tnum_ok T \<Longrightarrow> reg_has r x \<Longrightarrow> reg_has (reg_bounds_sync T r) x"
  by (simp add: reg_bounds_sync_def update_has deduce_has bound_offset_has)
text \<open>After \<open>reg_bounds_sync\<close> the signs agree, whatever was there before.\<close>

lemma neg_high_or: "neg (high p OR q) \<longleftrightarrow> neg p \<or> neg q" for p q :: u64
  by (auto simp: neg_bit high_def bit_simps)

lemma not_neg_unat: "\<not> neg (w :: u64) \<longleftrightarrow> unat w < 2 ^ 63" "\<not> neg (v :: u32) \<longleftrightarrow> unat v < 2 ^ 31"
proof -
  have "unat w < 2 ^ 63 \<longleftrightarrow> uint w < 2 ^ 63" "unat v < 2 ^ 31 \<longleftrightarrow> uint v < 2 ^ 31"
    by (simp_all flip: of_nat_less_iff [where 'a = int])
  then show "\<not> neg w \<longleftrightarrow> unat w < 2 ^ 63" "\<not> neg v \<longleftrightarrow> unat v < 2 ^ 31"
    using uint_sint [of w] uint_sint [of v] sint_range [of w] sint_range [of v] by (auto simp: neg_def split: if_splits)
qed

lemma neg_smax: "\<not> neg (smax_t a b) \<Longrightarrow> \<not> neg a \<or> \<not> neg b"
  by (auto simp: smax_t_def split: if_splits)

lemma tnum_negs:
  assumes "tnum_has t y" and "neg y"
  shows "neg (t_value t OR (t_mask t AND S64_MIN))"
proof -
  have "neg (t_value t) \<longleftrightarrow> neg y \<and> \<not> neg (t_mask t)" using assms(1) neg_and neg_not unfolding tnum_has_def by metis
  then show ?thesis using assms(2) by (simp add: neg_or neg_and)
qed

lemma tnum_negs_low:
  assumes "tnum_ok T" and "tnum_has a y" and "neg (low y)"
  shows "neg (low (t_value (tnum_subreg T a) OR (t_mask (tnum_subreg T a) AND 0xFFFFFFFF80000000)))"
proof -
  have "neg (low (t_value (tnum_subreg T a))) \<longleftrightarrow> neg (low y) \<and> \<not> neg (low (t_mask (tnum_subreg T a)))"
    using low_known [OF assms(1,2)] neg_and neg_not by metis
  then show ?thesis using assms(3) by (simp only: low_simps sign_masks neg_or neg_and neg32) blast
qed

lemma update_fields:
  "var_off (verifier_update_reg_bounds T r) = var_off r"
  "smin_value (verifier_update_reg_bounds T r) = smax_t (smin_value r) (t_value (var_off r) OR (t_mask (var_off r) AND S64_MIN))"
  "umax_value (verifier_update_reg_bounds T r) = min (umax_value r) (t_value (var_off r) OR t_mask (var_off r))"
  "s32_min_value (verifier_update_reg_bounds T r) =
     smax_t (s32_min_value r) (low (t_value (tnum_subreg T (var_off r)) OR (t_mask (tnum_subreg T (var_off r)) AND 0xFFFFFFFF80000000)))"
  "u32_max_value (verifier_update_reg_bounds T r) =
     min (u32_max_value r) (low (t_value (tnum_subreg T (var_off r)) OR t_mask (tnum_subreg T (var_off r))))"
  by (simp_all add: verifier_update_reg_bounds_def verifier_update_reg64_bounds_def verifier_update_reg32_bounds_def Let_def)

lemma sync_signs:
  assumes T: "tnum_ok T" and h: "reg_has r x"
  shows "reg_signs (reg_bounds_sync T r)"
proof -
  define r2 where "r2 = verifier_reg_deduce_bounds (verifier_update_reg_bounds T r)"
  define r3 where "r3 = verifier_reg_bound_offset T r2"
  have h1: "reg_has (verifier_update_reg_bounds T r) x" using update_has [OF T h] .
  have h2: "reg_has r2 x" using deduce_has [OF h1] by (simp add: r2_def)
  have h3: "reg_has r3 x" using bound_offset_has [OF T h2] by (simp add: r3_def)
  note d = deduce_signs [OF h1, folded r2_def]
  note B = bound_offset_var(2) [OF T h2, folded r3_def]
  have r3: "smin_value r3 = smin_value r2" "umax_value r3 = umax_value r2" "s32_min_value r3 = s32_min_value r2" "u32_max_value r3 = u32_max_value r2"
    by (simp_all add: r3_def verifier_reg_bound_offset_def Let_def)
  have range64: "umin_value r2 \<le> umax_value r2" and range32: "ucast (u32_min_value r2) \<le> (ucast (u32_max_value r2) :: u64)"
    using reg_hasD(3,5) [OF h2] by (auto simp: in_u_def word_le_nat_alt unat_ucast_word)
  have v64: "\<not> neg y" if "\<not> neg (umax_value r2)" and y: "tnum_has (var_off r3) y" for y
  proof -
    from B [OF y] obtain p q where "y = high p OR q" "tnum_has (tnum_range T (umin_value r2) (umax_value r2)) p" "take_bit 32 q = q" by blast
    moreover from this(2) have "\<not> neg p" using tnum_rangesD(4) [OF T range64, of 63 p] that(1) by (simp add: not_neg_unat)
    moreover have "\<not> neg (take_bit 32 q)" by (simp add: neg_bit bit_take_bit_iff)
    with calculation(3) have "\<not> neg q" by simp
    ultimately show ?thesis by (simp add: neg_high_or)
  qed
  have v32: "\<not> neg (low y)" if "\<not> neg (u32_max_value r2)" and y: "tnum_has (var_off r3) y" for y
  proof -
    from B [OF y] obtain p q where "y = high p OR q" "tnum_has (tnum_range T (ucast (u32_min_value r2)) (ucast (u32_max_value r2))) q" "take_bit 32 q = q"
      by blast
    moreover from this(2) have "unat q < 2 ^ 31"
      using tnum_rangesD(4) [OF T range32, of 31 q] that(1) by (simp add: not_neg_unat unat_ucast_word)
    moreover from calculation(3) have "unat (low q) = unat q" by (metis high_low(2) unat_ucast_word)
    ultimately show ?thesis by (simp add: not_neg_unat)
  qed
  let ?s = "reg_bounds_sync T r" and ?m = "t_value (var_off r3) OR t_mask (var_off r3)"
    and ?lo = "t_value (var_off r3) OR (t_mask (var_off r3) AND S64_MIN)"
  define lo32 hi32 where "lo32 = low (t_value (tnum_subreg T (var_off r3)) OR (t_mask (tnum_subreg T (var_off r3)) AND 0xFFFFFFFF80000000))"
    and "hi32 = low (t_value (tnum_subreg T (var_off r3)) OR t_mask (tnum_subreg T (var_off r3)))"
  have s: "?s = verifier_update_reg_bounds T r3" by (simp add: reg_bounds_sync_def r2_def r3_def)
  have f: "var_off ?s = var_off r3" "smin_value ?s = smax_t (smin_value r2) ?lo" "umax_value ?s = min (umax_value r2) ?m"
    "s32_min_value ?s = smax_t (s32_min_value r2) lo32" "u32_max_value ?s = min (u32_max_value r2) hi32"
    unfolding s lo32_def hi32_def update_fields r3 by (rule refl)+
  have t3: "tnum_has (var_off r3) x" using reg_hasD(1) [OF h3] .
  have "(\<forall>y. tnum_has (var_off r3) y \<longrightarrow> \<not> neg y) \<and> \<not> neg (umax_value ?s)" if "\<not> neg (smin_value ?s)"
  proof -
    from that consider "\<not> neg (smin_value r2)" | "\<not> neg ?lo" using neg_smax f(2) by metis
    then show ?thesis
    proof cases
      case 1
      then have "\<not> neg (umax_value r2)" using d(1) by blast
      moreover have "umax_value ?s \<le> umax_value r2" unfolding f(3) by simp
      ultimately show ?thesis using v64 neg_mono by blast
    next
      case 2
      then have "\<not> neg y" if "tnum_has (var_off r3) y" for y using tnum_negs that by blast
      moreover have "umax_value ?s \<le> ?m" unfolding f(3) by simp
      ultimately show ?thesis using tnum_max [OF t3] neg_mono by blast
    qed
  qed
  moreover have "(\<forall>y. tnum_has (var_off r3) y \<longrightarrow> \<not> neg (low y)) \<and> \<not> neg (u32_max_value ?s)" if "\<not> neg (s32_min_value ?s)"
  proof -
    from that consider "\<not> neg (s32_min_value r2)" | "\<not> neg lo32" using neg_smax f(4) by metis
    then show ?thesis
    proof cases
      case 1
      then have "\<not> neg (u32_max_value r2)" using d(2) by blast
      moreover have "u32_max_value ?s \<le> u32_max_value r2" unfolding f(5) by simp
      ultimately show ?thesis using v32 neg_mono by blast
    next
      case 2
      then have n: "\<not> neg (low y)" if "tnum_has (var_off r3) y" for y using tnum_negs_low [OF T that] unfolding lo32_def by blast
      from tnum_max [OF tnum_partsD(2) [OF T t3]] tnum_partsD(6) [OF T t3] obtain p where
        "tnum_has (var_off r3) p" "t_value (tnum_subreg T (var_off r3)) OR t_mask (tnum_subreg T (var_off r3)) = take_bit 32 p" by blast
      then have "\<not> neg hi32" using n by (simp add: hi32_def del: low_simps(2))
      moreover have "u32_max_value ?s \<le> hi32" unfolding f(5) by simp
      ultimately show ?thesis using n neg_mono by blast
    qed
  qed
  ultimately show ?thesis by (simp add: reg_signs_def f(1))
qed

end
