(* ===== verification/Bpf_Sound.thy ===== *)
theory Bpf_Sound
  imports Bpf_Alu Bpf_Bounds
begin

text \<open>
  What an arithmetic instruction computes (\<open>bpf_alu\<close>), and that the functions of \<open>Bpf_Alu\<close> describe it: if the states of
  the operands allow their values, the new state of the destination allows the result.  The two halves of a state are
  treated one after the other, as the code does.
\<close>

section \<open>The instructions\<close>

definition bpf_alu_word :: "bpf_op \<Rightarrow> 'a::len word \<Rightarrow> 'a word \<Rightarrow> 'a word" where
  "bpf_alu_word opcode x y =
     (case opcode of
        BPF_ADD \<Rightarrow> x + y | BPF_SUB \<Rightarrow> x - y | BPF_MUL \<Rightarrow> x * y
      | BPF_DIV \<Rightarrow> (if y = 0 then 0 else x div y) | BPF_MOD \<Rightarrow> (if y = 0 then x else x mod y)
      | BPF_OR \<Rightarrow> x OR y | BPF_AND \<Rightarrow> x AND y | BPF_XOR \<Rightarrow> x XOR y
      | BPF_LSH \<Rightarrow> push_bit (unat y mod LENGTH('a)) x | BPF_RSH \<Rightarrow> drop_bit (unat y mod LENGTH('a)) x
      | BPF_ARSH \<Rightarrow> signed_drop_bit (unat y mod LENGTH('a)) x)"

definition bpf_alu :: "bool \<Rightarrow> bpf_op \<Rightarrow> u64 \<Rightarrow> u64 \<Rightarrow> u64" where
  "bpf_alu alu32 opcode x y = (if alu32 then ucast (bpf_alu_word opcode (low x) (low y)) else bpf_alu_word opcode x y)"

section \<open>The two halves of a state\<close>

definition has64 :: "bpf_reg_state \<Rightarrow> u64 \<Rightarrow> bool" where
  "has64 r x \<longleftrightarrow> in_s (smin_value r) (smax_value r) x \<and> in_u (umin_value r) (umax_value r) x"

definition has32 :: "bpf_reg_state \<Rightarrow> u32 \<Rightarrow> bool" where
  "has32 r w \<longleftrightarrow> in_s (s32_min_value r) (s32_max_value r) w \<and> in_u (u32_min_value r) (u32_max_value r) w"

lemma reg_has_halves: "reg_has r x \<longleftrightarrow> tnum_has (var_off r) x \<and> has64 r x \<and> has32 r (low x)"
  by (auto simp: reg_has_def has64_def has32_def)

lemma halves_var_off [simp]: "has64 (r\<lparr>var_off := t\<rparr>) x = has64 r x" "has32 (r\<lparr>var_off := t\<rparr>) w = has32 r w"
  by (simp_all add: has64_def has32_def)

lemma unbounded_has [simp]:
  "has64 (verifier_mark_reg64_unbounded r) x" "has32 (verifier_mark_reg64_unbounded r) w = has32 r w"
  "has32 (verifier_mark_reg32_unbounded r) w" "has64 (verifier_mark_reg32_unbounded r) x = has64 r x"
  "var_off (verifier_mark_reg64_unbounded r) = var_off r" "var_off (verifier_mark_reg32_unbounded r) = var_off r"
  by (simp_all add: has64_def has32_def verifier_mark_reg64_unbounded_def verifier_mark_reg32_unbounded_def)

lemma unknown_has: "tnum_ok T \<Longrightarrow> reg_has (mark_reg_unknown T prec r) x"
  by (simp add: reg_has_def mark_reg_unknown_def verifier_mark_reg_unbounded_def tnum_rangesD(1))

lemma unknown_signs: "reg_signs (mark_reg_unknown T prec r)"
  by (simp add: reg_signs_def mark_reg_unknown_def verifier_mark_reg_unbounded_def)

lemma known_has: "tnum_ok T \<Longrightarrow> reg_has (verifier_mark_reg_known T c r) c" "tnum_ok T \<Longrightarrow> reg_has (verifier2_mark_reg_known T c r) c"
  by (simp_all add: reg_has_def verifier_mark_reg_known_def verifier2_mark_reg_known_def tnum_rangesD(2))

section \<open>Addition and subtraction\<close>

lemma add32_has:
  assumes "has32 dst w" and "has32 src v"
  shows "has32 (scalar32_min_max_add dst src) (w + v)"
proof -
  have s: "in_s (s32_min_value dst + s32_min_value src) (s32_max_value dst + s32_max_value src) (w + v)"
    if "\<not> signed_add32_overflows (s32_min_value dst) (s32_min_value src)" "\<not> signed_add32_overflows (s32_max_value dst) (s32_max_value src)"
    using that assms unfolding signed_add32_overflows_def Let_def add_overflow_test has32_def by (blast intro: add_s)
  have u: "in_u (u32_min_value dst + u32_min_value src) (u32_max_value dst + u32_max_value src) (w + v)"
    if "\<not> u32_min_value dst + u32_min_value src < u32_min_value src" "\<not> u32_max_value dst + u32_max_value src < u32_max_value src"
    using that assms unfolding has32_def by (blast intro: add_u)
  show ?thesis using s u unfolding scalar32_min_max_add_def Let_def has32_def by simp
qed

lemma add64_has:
  assumes "has64 dst x" and "has64 src y"
  shows "has64 (scalar_min_max_add dst src) (x + y)"
proof -
  have s: "in_s (smin_value dst + smin_value src) (smax_value dst + smax_value src) (x + y)"
    if "\<not> signed_add_overflows (smin_value dst) (smin_value src)" "\<not> signed_add_overflows (smax_value dst) (smax_value src)"
    using that assms unfolding signed_add_overflows_def Let_def add_overflow_test has64_def by (blast intro: add_s)
  have u: "in_u (umin_value dst + umin_value src) (umax_value dst + umax_value src) (x + y)"
    if "\<not> umin_value dst + umin_value src < umin_value src" "\<not> umax_value dst + umax_value src < umax_value src"
    using that assms unfolding has64_def by (blast intro: add_u)
  show ?thesis using s u unfolding scalar_min_max_add_def Let_def has64_def by simp
qed

lemma sub32_has:
  assumes "has32 dst w" and "has32 src v"
  shows "has32 (scalar32_min_max_sub dst src) (w - v)"
proof -
  have s: "in_s (s32_min_value dst - s32_max_value src) (s32_max_value dst - s32_min_value src) (w - v)"
    if "\<not> signed_sub32_overflows (s32_min_value dst) (s32_max_value src)" "\<not> signed_sub32_overflows (s32_max_value dst) (s32_min_value src)"
    using that assms unfolding signed_sub32_overflows_def Let_def sub_overflow_test has32_def by (blast intro: sub_s)
  have u: "in_u (u32_min_value dst - u32_max_value src) (u32_max_value dst - u32_min_value src) (w - v)"
    if "\<not> u32_min_value dst < u32_max_value src"
    using that assms unfolding has32_def by (blast intro: sub_u)
  show ?thesis using s u unfolding scalar32_min_max_sub_def Let_def has32_def by simp
qed

lemma sub64_has:
  assumes "has64 dst x" and "has64 src y"
  shows "has64 (scalar_min_max_sub dst src) (x - y)"
proof -
  have s: "in_s (smin_value dst - smax_value src) (smax_value dst - smin_value src) (x - y)"
    if "\<not> signed_sub_overflows (smin_value dst) (smax_value src)" "\<not> signed_sub_overflows (smax_value dst) (smin_value src)"
    using that assms unfolding signed_sub_overflows_def Let_def sub_overflow_test has64_def by (blast intro: sub_s)
  have u: "in_u (umin_value dst - umax_value src) (umax_value dst - umin_value src) (x - y)"
    if "\<not> umin_value dst < umax_value src"
    using that assms unfolding has64_def by (blast intro: sub_u)
  show ?thesis using s u unfolding scalar_min_max_sub_def Let_def has64_def by simp
qed

section \<open>Multiplication\<close>

lemma mul32_has:
  assumes "has32 dst w" and "has32 src v"
  shows "has32 (scalar32_min_max_mul dst src) (w * v)"
proof -
  have u: "in_u (u32_min_value dst * u32_min_value src) (u32_max_value dst * u32_max_value src) (w * v)"
    if "\<not> u32_max_value src > 0xFFFF" "\<not> u32_max_value dst > 0xFFFF"
  proof -
    have "unat (u32_max_value dst) \<le> 0xFFFF" "unat (u32_max_value src) \<le> 0xFFFF"
      using that by (simp_all add: not_less word_le_nat_alt)
    then have "unat (u32_max_value dst) * unat (u32_max_value src) \<le> 0xFFFF * 0xFFFF" by (rule mult_le_mono)
    then have "unat (u32_max_value dst) * unat (u32_max_value src) < 2 ^ LENGTH(32)" by simp
    then show ?thesis using assms unfolding has32_def by (blast intro: mul_u)
  qed
  have s: "\<not> neg z" if "\<not> z > S32_MAX" for z :: u32 using that neg32(2) neg_mono not_less by metis
  show ?thesis
    using u s in_s_nonneg unfolding scalar32_min_max_mul_def Let_def has32_def
    by (simp add: verifier_mark_reg32_unbounded_def) blast
qed

lemma mul64_has:
  assumes "has64 dst x" and "has64 src y"
  shows "has64 (scalar_min_max_mul dst src) (x * y)"
proof -
  have u: "in_u (umin_value dst * umin_value src) (umax_value dst * umax_value src) (x * y)"
    if "\<not> umax_value src > 0xFFFFFFFF" "\<not> umax_value dst > 0xFFFFFFFF"
  proof -
    have "unat (umax_value dst) \<le> 0xFFFFFFFF" "unat (umax_value src) \<le> 0xFFFFFFFF"
      using that by (simp_all add: not_less word_le_nat_alt)
    then have "unat (umax_value dst) * unat (umax_value src) \<le> 0xFFFFFFFF * 0xFFFFFFFF" by (rule mult_le_mono)
    then have "unat (umax_value dst) * unat (umax_value src) < 2 ^ LENGTH(64)" by simp
    then show ?thesis using assms unfolding has64_def by (blast intro: mul_u)
  qed
  have s: "\<not> neg z" if "\<not> z > S64_MAX" for z :: u64 using that neg64(2) neg_mono not_less by metis
  show ?thesis
    using u s in_s_nonneg unfolding scalar_min_max_mul_def Let_def has64_def
    by (simp add: verifier_mark_reg64_unbounded_def) blast
qed

text \<open>Each function keeps to its half.\<close>

lemma arith_frames [simp]:
  "has64 (scalar32_min_max_add dst src) x = has64 dst x" "has32 (scalar_min_max_add dst src) w = has32 dst w"
  "has64 (scalar32_min_max_sub dst src) x = has64 dst x" "has32 (scalar_min_max_sub dst src) w = has32 dst w"
  "has64 (scalar32_min_max_mul dst src) x = has64 dst x" "has32 (scalar_min_max_mul dst src) w = has32 dst w"
  "var_off (scalar32_min_max_add dst src) = var_off dst" "var_off (scalar_min_max_add dst src) = var_off dst"
  "var_off (scalar32_min_max_sub dst src) = var_off dst" "var_off (scalar_min_max_sub dst src) = var_off dst"
  "var_off (scalar32_min_max_mul dst src) = var_off dst" "var_off (scalar_min_max_mul dst src) = var_off dst"
  by (simp_all add: has64_def has32_def Let_def scalar32_min_max_add_def scalar_min_max_add_def scalar32_min_max_sub_def
      scalar_min_max_sub_def scalar32_min_max_mul_def scalar_min_max_mul_def verifier_mark_reg32_unbounded_def verifier_mark_reg64_unbounded_def)
section \<open>Bitwise operations\<close>

text \<open>
  \<open>halves_kept dst z r\<close>: from \<open>dst\<close> to \<open>r\<close> the 64 bit ranges did not change, and what is known of the bits still has \<open>z\<close>
  and nothing of a new sign.
\<close>

definition halves_kept :: "bpf_reg_state \<Rightarrow> u64 \<Rightarrow> bpf_reg_state \<Rightarrow> bool" where
  "halves_kept dst z r \<longleftrightarrow>
     tnum_has (var_off r) z \<and> (\<forall>p. tnum_has (var_off r) p \<longrightarrow> (\<exists>q. tnum_has (var_off dst) q \<and> neg p = neg q)) \<and>
     smin_value r = smin_value dst \<and> smax_value r = smax_value dst \<and> umin_value r = umin_value dst \<and> umax_value r = umax_value dst"

lemma halves_kept_refl: "tnum_has (var_off dst) z \<Longrightarrow> halves_kept dst z dst"
  by (auto simp: halves_kept_def)

lemma halves_kept_has64: "halves_kept dst z r \<Longrightarrow> has64 r x = has64 dst x"
  by (simp add: halves_kept_def has64_def)

lemma subreg_known:
  assumes T: "tnum_ok T" and z: "tnum_has a z" and c: "tnum_subreg_is_const T a"
  shows "take_bit 32 (t_value (tnum_subreg T a)) = take_bit 32 z"
proof -
  have "tnum_has (tnum_subreg T a) (t_value (tnum_subreg T a))" using tnum_min [OF tnum_partsD(2) [OF T z]] .
  from tnum_partsD(6) [OF T z this] obtain p where p: "tnum_has a p" "t_value (tnum_subreg T a) = take_bit 32 p" by blast
  then have "low p = low z" using tnum_testsD(3) [OF T z c] by blast
  then have "take_bit 32 p = take_bit 32 z" unfolding high_low(2) by simp
  then show ?thesis using p(2) by simp
qed

lemma known32_has:
  fixes dst :: bpf_reg_state
  defines "r \<equiv> \<lambda>T. verifier_mark_reg32_known T (t_value (tnum_subreg T (var_off dst))) dst"
  assumes T: "tnum_ok T" and z: "tnum_has (var_off dst) z" and c: "tnum_subreg_is_const T (var_off dst)"
  shows "has32 (r T) (low z) \<and> halves_kept dst z (r T)"
proof -
  let ?c = "t_value (tnum_subreg T (var_off dst))"
  note t = subreg_known [OF T z c]
  then have l: "low ?c = low z" by (metis low_simps(5))
  have has: "tnum_has (tnum_const_subreg T (var_off dst) ?c) z"
    using tnum_partsD(4) [OF T z, of ?c] by (simp add: t high_low(1))
  have "\<exists>q. tnum_has (var_off dst) q \<and> neg p = neg q" if "tnum_has (tnum_const_subreg T (var_off dst) ?c) p" for p
  proof -
    from tnum_partsD(8) [OF T z that] obtain q where q: "tnum_has (var_off dst) q" "p = high q OR take_bit 32 ?c" by blast
    have "\<not> neg (take_bit 32 ?c)" by (simp add: neg_bit bit_take_bit_iff)
    then have "neg p = neg q" using q(2) by (simp add: neg_high_or)
    with q(1) show ?thesis by blast
  qed
  with has show ?thesis by (simp add: r_def verifier_mark_reg32_known_def has32_def halves_kept_def l)
qed

lemma known64_has:
  assumes T: "tnum_ok T" and z: "tnum_has (var_off dst) z" and c: "tnum_is_const T (var_off dst)"
  shows "reg_has (verifier_mark_reg_known T (t_value (var_off dst)) dst) z"
  using tnum_testsD(1) [OF T z c tnum_min [OF z]] known_has(1) [OF T] by simp

lemma and32_has:
  assumes T: "tnum_ok T" and z: "tnum_has (var_off dst) z" "low z = w AND v" and h: "has32 dst w" "has32 src v"
    and n: "neg (s32_min_value dst) \<or> neg (s32_min_value src) \<or> \<not> neg (min (u32_max_value dst) (u32_max_value src))"
  shows "has32 (scalar32_min_max_and T dst src) (low z)" "halves_kept dst z (scalar32_min_max_and T dst src)"
proof -
  have u: "in_u (low (t_value (tnum_subreg T (var_off dst)))) (min (u32_max_value dst) (u32_max_value src)) (low z)"
    using low_u [OF T z(1)] and_u h unfolding z(2) in_u_def has32_def by blast
  note K = known32_has [OF T z(1)] and S = in_s_nonneg [OF u] n
  show "has32 (scalar32_min_max_and T dst src) (low z)"
    using K u S unfolding scalar32_min_max_and_def Let_def has32_def neg_def by simp blast
  show "halves_kept dst z (scalar32_min_max_and T dst src)"
    using K halves_kept_refl [OF z(1)] unfolding scalar32_min_max_and_def Let_def by (simp add: halves_kept_def)
qed

lemma or32_has:
  assumes T: "tnum_ok T" and z: "tnum_has (var_off dst) z" "low z = w OR v" and h: "has32 dst w" "has32 src v"
    and n: "neg (s32_min_value dst) \<or> neg (s32_min_value src) \<or>
      \<not> neg (low (t_value (tnum_subreg T (var_off dst)) OR t_mask (tnum_subreg T (var_off dst))))"
  shows "has32 (scalar32_min_max_or T dst src) (low z)" "halves_kept dst z (scalar32_min_max_or T dst src)"
proof -
  have u: "in_u (max (u32_min_value dst) (u32_min_value src))
      (low (t_value (tnum_subreg T (var_off dst)) OR t_mask (tnum_subreg T (var_off dst)))) (low z)"
    using low_u [OF T z(1)] or_u h unfolding z(2) in_u_def has32_def by blast
  note K = known32_has [OF T z(1)] and S = in_s_nonneg [OF u] n
  show "has32 (scalar32_min_max_or T dst src) (low z)"
    using K u S unfolding scalar32_min_max_or_def Let_def has32_def neg_def by simp blast
  show "halves_kept dst z (scalar32_min_max_or T dst src)"
    using K halves_kept_refl [OF z(1)] unfolding scalar32_min_max_or_def Let_def by (simp add: halves_kept_def)
qed

lemma xor32_has:
  assumes T: "tnum_ok T" and z: "tnum_has (var_off dst) z"
    and n: "neg (s32_min_value dst) \<or> neg (s32_min_value src) \<or>
      \<not> neg (low (t_value (tnum_subreg T (var_off dst)) OR t_mask (tnum_subreg T (var_off dst))))"
  shows "has32 (scalar32_min_max_xor T dst src) (low z)" "halves_kept dst z (scalar32_min_max_xor T dst src)"
proof -
  note K = known32_has [OF T z] and u = low_u [OF T z] and S = in_s_nonneg [OF low_u [OF T z]] n
  show "has32 (scalar32_min_max_xor T dst src) (low z)"
    using K u S unfolding scalar32_min_max_xor_def Let_def has32_def neg_def by (simp add: not_less) (metis not_less)
  show "halves_kept dst z (scalar32_min_max_xor T dst src)"
    using K halves_kept_refl [OF z] unfolding scalar32_min_max_xor_def Let_def by (simp add: halves_kept_def)
qed
text \<open>The 64 bit functions finish with the exchange of knowledge; the low half is described already.\<close>

lemma and64_has:
  assumes T: "tnum_ok T" and z: "tnum_has (var_off dst) z" "z = x AND y" and h: "has64 dst x" "has64 src y" "has32 dst (low z)"
    and n: "neg (smin_value dst) \<or> neg (smin_value src) \<or> \<not> neg (min (umax_value dst) (umax_value src))"
  shows "reg_has (scalar_min_max_and T dst src) z"
proof (cases "tnum_is_const T (var_off src) \<and> tnum_is_const T (var_off dst)")
  case True
  then show ?thesis using known64_has [OF T z(1)] by (simp add: scalar_min_max_and_def)
next
  case False
  have u: "in_u (t_value (var_off dst)) (min (umax_value dst) (umax_value src)) z"
    using tnum_u [OF z(1)] and_u h unfolding z(2) in_u_def has64_def by blast
  show ?thesis
    using False u in_s_nonneg [OF u] n z(1) h(3)
    unfolding scalar_min_max_and_def Let_def neg_def
    by simp (intro update_has [OF T] conjI impI; simp add: reg_has_halves has64_def has32_def; blast)
qed

lemma or64_has:
  assumes T: "tnum_ok T" and z: "tnum_has (var_off dst) z" "z = x OR y" and h: "has64 dst x" "has64 src y" "has32 dst (low z)"
    and n: "neg (smin_value dst) \<or> neg (smin_value src) \<or> \<not> neg (t_value (var_off dst) OR t_mask (var_off dst))"
  shows "reg_has (scalar_min_max_or T dst src) z"
proof (cases "tnum_is_const T (var_off src) \<and> tnum_is_const T (var_off dst)")
  case True
  then show ?thesis using known64_has [OF T z(1)] by (simp add: scalar_min_max_or_def)
next
  case False
  have u: "in_u (max (umin_value dst) (umin_value src)) (t_value (var_off dst) OR t_mask (var_off dst)) z"
    using tnum_u [OF z(1)] or_u h unfolding z(2) in_u_def has64_def by blast
  show ?thesis
    using False u in_s_nonneg [OF u] n z(1) h(3)
    unfolding scalar_min_max_or_def Let_def neg_def
    by simp (intro update_has [OF T] conjI impI; simp add: reg_has_halves has64_def has32_def; blast)
qed

lemma xor64_has:
  assumes T: "tnum_ok T" and z: "tnum_has (var_off dst) z" and h: "has32 dst (low z)"
    and n: "neg (smin_value dst) \<or> neg (smin_value src) \<or> \<not> neg (t_value (var_off dst) OR t_mask (var_off dst))"
  shows "reg_has (scalar_min_max_xor T dst src) z"
proof (cases "tnum_is_const T (var_off src) \<and> tnum_is_const T (var_off dst)")
  case True
  then show ?thesis using known64_has [OF T z(1)] by (simp add: scalar_min_max_xor_def)
next
  case False
  note u = tnum_u [OF z]
  show ?thesis
    using False u in_s_nonneg [OF u] n z(1) h
    unfolding scalar_min_max_xor_def Let_def neg_def not_less [symmetric]
    by simp (intro update_has [OF T] conjI impI; simp add: reg_has_halves has64_def has32_def; blast)
qed

text \<open>The signs of the upper ends, which is what the signed ranges are set from.\<close>

lemma upper32_nonneg:
  assumes T: "tnum_ok T" and z: "tnum_has a z" and all: "\<And>p. tnum_has a p \<Longrightarrow> \<not> neg (low p)"
  shows "\<not> neg (low (t_value (tnum_subreg T a) OR t_mask (tnum_subreg T a)))"
proof -
  from tnum_partsD(6) [OF T z tnum_max [OF tnum_partsD(2) [OF T z]]] obtain p where
    "tnum_has a p" "t_value (tnum_subreg T a) OR t_mask (tnum_subreg T a) = take_bit 32 p" by blast
  then show ?thesis using all by (metis low_simps(5))
qed

lemma signsD:
  assumes "reg_signs r"
  shows "tnum_has (var_off r) y \<Longrightarrow> neg y \<Longrightarrow> neg (smin_value r)" "neg (umax_value r) \<Longrightarrow> neg (smin_value r)"
    "tnum_has (var_off r) y \<Longrightarrow> neg (low y) \<Longrightarrow> neg (s32_min_value r)" "neg (u32_max_value r) \<Longrightarrow> neg (s32_min_value r)"
  using assms unfolding reg_signs_def by blast+

lemma bitwise_signs:
  assumes b: "bitwise g f" and f: "\<And>p q. neg (f p q) \<Longrightarrow> neg p \<or> neg q" "\<And>p q. neg (low (f p q)) \<Longrightarrow> neg (low p) \<or> neg (low q)"
    and s: "reg_signs dst" "reg_signs src" and x: "tnum_has (var_off dst) x" "tnum_has (var_off src) y"
    and p: "tnum_has (g (var_off dst) (var_off src)) p"
  shows "neg p \<Longrightarrow> neg (smin_value dst) \<or> neg (smin_value src)" "neg (low p) \<Longrightarrow> neg (s32_min_value dst) \<or> neg (s32_min_value src)"
proof -
  from bitwiseD(2) [OF b x p] obtain a c where "tnum_has (var_off dst) a" "tnum_has (var_off src) c" "p = f a c" by blast
  then show "neg p \<Longrightarrow> neg (smin_value dst) \<or> neg (smin_value src)" "neg (low p) \<Longrightarrow> neg (s32_min_value dst) \<or> neg (s32_min_value src)"
    using f s [THEN signsD(1)] s [THEN signsD(3)] by blast+
qed

lemma halves_kept_upper:
  assumes k: "halves_kept dst z r" and all: "\<And>p. tnum_has (var_off dst) p \<Longrightarrow> neg p \<Longrightarrow> c"
  shows "neg (t_value (var_off r) OR t_mask (var_off r)) \<Longrightarrow> c"
  using k tnum_max [of "var_off r" z] all unfolding halves_kept_def by blast

lemma alu_and:
  assumes T: "tnum_ok T" and h: "reg_has dst x" "reg_has src y" and s: "reg_signs dst" "reg_signs src"
  shows "reg_has (scalar_alu T prec alu32 BPF_AND dst src) (x AND y)"
proof -
  define d where "d = dst\<lparr>var_off := tnum_and T (var_off dst) (var_off src)\<rparr>"
  define e where "e = scalar32_min_max_and T d src"
  note H = h [unfolded reg_has_halves]
  have z: "tnum_has (var_off d) (x AND y)" using tnum_bitsD(1) [OF T] H by (simp add: d_def)
  have n: "neg (s32_min_value d) \<or> neg (s32_min_value src) \<or> \<not> neg (min (u32_max_value d) (u32_max_value src))"
    using signsD(4) [OF s(1)] neg_mono [of "min (u32_max_value dst) (u32_max_value src)" "u32_max_value dst"] by (auto simp: d_def)
  have e: "has32 e (low (x AND y))" "halves_kept d (x AND y) e"
    using and32_has [OF T z _ _ _ n, of "low x" "low y"] H by (simp_all add: e_def d_def)
  have n': "neg (smin_value e) \<or> neg (smin_value src) \<or> \<not> neg (min (umax_value e) (umax_value src))"
    using signsD(2) [OF s(1)] e(2) neg_mono [of "min (umax_value dst) (umax_value src)" "umax_value dst"] by (auto simp: halves_kept_def d_def)
  have "reg_has (scalar_min_max_and T e src) (x AND y)"
    using and64_has [OF T _ refl _ _ e(1) n'] e(2) H halves_kept_has64 [OF e(2)] by (simp add: halves_kept_def d_def)
  then show ?thesis by (simp add: scalar_alu_def Let_def e_def d_def)
qed

lemma alu_or:
  assumes T: "tnum_ok T" and h: "reg_has dst x" "reg_has src y" and s: "reg_signs dst" "reg_signs src"
  shows "reg_has (scalar_alu T prec alu32 BPF_OR dst src) (x OR y)"
proof -
  define d where "d = dst\<lparr>var_off := tnum_or T (var_off dst) (var_off src)\<rparr>"
  define e where "e = scalar32_min_max_or T d src"
  note H = h [unfolded reg_has_halves]
  have z: "tnum_has (var_off d) (x OR y)" using tnum_bitsD(2) [OF T] H by (simp add: d_def)
  have b: "bitwise (tnum_or T) (OR)" using T by (simp add: tnum_ok_def tnum_bits_ok_def)
  have S: "tnum_has (var_off d) p \<Longrightarrow> neg p \<Longrightarrow> neg (smin_value dst) \<or> neg (smin_value src)"
    "tnum_has (var_off d) p \<Longrightarrow> neg (low p) \<Longrightarrow> neg (s32_min_value dst) \<or> neg (s32_min_value src)" for p
    using bitwise_signs [OF b _ _ s, where x = x and y = y and p = p] H by (simp_all add: d_def neg_or)
  have n: "neg (s32_min_value d) \<or> neg (s32_min_value src) \<or>
      \<not> neg (low (t_value (tnum_subreg T (var_off d)) OR t_mask (tnum_subreg T (var_off d))))"
    using upper32_nonneg [OF T z] S(2) by (auto simp: d_def)
  have e: "has32 e (low (x OR y))" "halves_kept d (x OR y) e"
    using or32_has [OF T z _ _ _ n, of "low x" "low y"] H by (simp_all add: e_def d_def)
  have n': "neg (smin_value e) \<or> neg (smin_value src) \<or> \<not> neg (t_value (var_off e) OR t_mask (var_off e))"
    using halves_kept_upper [OF e(2) S(1)] e(2) by (auto simp: halves_kept_def d_def)
  have "reg_has (scalar_min_max_or T e src) (x OR y)"
    using or64_has [OF T _ refl _ _ e(1) n'] e(2) H halves_kept_has64 [OF e(2)] by (simp add: halves_kept_def d_def)
  then show ?thesis by (simp add: scalar_alu_def Let_def e_def d_def)
qed

lemma alu_xor:
  assumes T: "tnum_ok T" and h: "reg_has dst x" "reg_has src y" and s: "reg_signs dst" "reg_signs src"
  shows "reg_has (scalar_alu T prec alu32 BPF_XOR dst src) (x XOR y)"
proof -
  define d where "d = dst\<lparr>var_off := tnum_xor T (var_off dst) (var_off src)\<rparr>"
  define e where "e = scalar32_min_max_xor T d src"
  note H = h [unfolded reg_has_halves]
  have z: "tnum_has (var_off d) (x XOR y)" using tnum_bitsD(3) [OF T] H by (simp add: d_def)
  have b: "bitwise (tnum_xor T) (XOR)" using T by (simp add: tnum_ok_def tnum_bits_ok_def)
  have S: "tnum_has (var_off d) p \<Longrightarrow> neg p \<Longrightarrow> neg (smin_value dst) \<or> neg (smin_value src)"
    "tnum_has (var_off d) p \<Longrightarrow> neg (low p) \<Longrightarrow> neg (s32_min_value dst) \<or> neg (s32_min_value src)" for p
    using bitwise_signs [OF b _ _ s, where x = x and y = y and p = p] H by (auto simp: d_def neg_xor)
  have n: "neg (s32_min_value d) \<or> neg (s32_min_value src) \<or>
      \<not> neg (low (t_value (tnum_subreg T (var_off d)) OR t_mask (tnum_subreg T (var_off d))))"
    using upper32_nonneg [OF T z] S(2) by (auto simp: d_def)
  have e: "has32 e (low (x XOR y))" "halves_kept d (x XOR y) e"
    using xor32_has [OF T z n] by (simp_all add: e_def)
  have n': "neg (smin_value e) \<or> neg (smin_value src) \<or> \<not> neg (t_value (var_off e) OR t_mask (var_off e))"
    using halves_kept_upper [OF e(2) S(1)] e(2) by (auto simp: halves_kept_def d_def)
  have "reg_has (scalar_min_max_xor T e src) (x XOR y)"
    using xor64_has [OF T _ e(1) n'] e(2) by (simp add: halves_kept_def)
  then show ?thesis by (simp add: scalar_alu_def Let_def e_def d_def)
qed
section \<open>Shifts by a known amount\<close>

lemma unat_shift_amounts: "unat (31 - k) = 31 - unat k" if "\<not> k > 31" for k :: u64
  using that by (simp add: not_less unat_sub)

lemma unat_power_word: "m < 64 \<Longrightarrow> unat (push_bit m 1 :: u64) = 2 ^ m"
  by (subst unat_push_bit) (use power_strict_increasing [of m 64 "2 :: nat"] in simp_all)

lemma lsh32_bounds_has:
  assumes h: "has32 dst w"
  shows "has32 (scalar32_min_max_lsh_bounds dst k k) (push_bit (unat k) w)"
proof (cases "k > 31 \<or> ucast (u32_max_value dst) > (push_bit (unat (31 - k)) 1 :: u64)")
  case True
  then show ?thesis by (auto simp: scalar32_min_max_lsh_bounds_def has32_def)
next
  case False
  then have k: "unat k \<le> 31" by (simp add: not_less word_le_nat_alt)
  have "unat (ucast (u32_max_value dst) :: u64) \<le> unat (push_bit (unat (31 - k)) 1 :: u64)"
    using False by (simp add: not_less word_le_nat_alt)
  then have "unat (u32_max_value dst) \<le> 2 ^ (LENGTH(32) - 1 - unat k)"
    using False unat_shift_amounts [of k] unat_power_word [of "31 - unat k"] by (simp add: unat_ucast_word)
  then have "in_u (push_bit (unat k) (u32_min_value dst)) (push_bit (unat k) (u32_max_value dst)) (push_bit (unat k) w)"
    using h k by (intro lsh_u) (auto simp: has32_def)
  with False show ?thesis by (simp add: scalar32_min_max_lsh_bounds_def has32_def)
qed

lemma sint_push32: "sint (push_bit 32 x :: u64) = sint (low x) * 2 ^ 32"
proof (rule sint_eq_if_fits)
  have "push_bit 32 x = push_bit 32 (scast (low x) :: u64)" by (rule bit_word_eqI) (auto simp: bit_simps)
  also have "\<dots> = word_of_int (sint (low x)) * 2 ^ 32" by (simp only: push_bit_eq_mult of_int_sint)
  finally show "push_bit 32 x = word_of_int (sint (low x) * 2 ^ 32)" by simp
  show "- (2 ^ (LENGTH(64) - 1)) \<le> sint (low x) * 2 ^ 32" "sint (low x) * 2 ^ 32 < 2 ^ (LENGTH(64) - 1)"
    using sint_range [of "low x"] by simp_all
qed

lemma low_scast: "low (scast w) = w"
  by (rule bit_word_eqI) (auto simp: bit_simps)

lemma lsh64_bounds_has:
  assumes h: "has64 dst x" "has32 dst (low x)" and k: "k < 64"
  shows "has64 (scalar64_min_max_lsh_bounds dst k k) (push_bit (unat k) x)"
proof -
  let ?z = "push_bit (unat k) x"
  have k': "unat k \<le> 63" using k by (simp add: word_less_nat_alt)
  have top: "sint ?z \<le> sint (push_bit 0x20 (scast (s32_max_value dst)) :: u64)"
    and bot: "sint (push_bit 0x20 (scast (s32_min_value dst)) :: u64) \<le> sint ?z" if "k = 0x20"
    using h(2) that by (simp_all add: sint_push32 low_scast has32_def in_s_def)
  have "in_u (push_bit (unat k) (umin_value dst)) (push_bit (unat k) (umax_value dst)) ?z"
    if "\<not> umax_value dst > push_bit (unat (0x3F - k)) 1"
  proof (rule lsh_u)
    show "in_u (umin_value dst) (umax_value dst) x" using h(1) by (simp add: has64_def)
    show "unat k < LENGTH(64)" using k' by simp
    have "unat (0x3F - k) = 0x3F - unat k" using k' by (simp add: unat_sub word_le_nat_alt)
    then show "unat (umax_value dst) \<le> 2 ^ (LENGTH(64) - 1 - unat k)"
      using that unat_power_word [of "0x3F - unat k"] by (simp add: not_less word_le_nat_alt)
  qed
  then have u: "has64 (if umax_value dst > push_bit (unat (0x3F - k)) 1 then r\<lparr>umin_value := 0, umax_value := U64_MAX\<rparr>
      else r\<lparr>umin_value := push_bit (unat k) (umin_value dst), umax_value := push_bit (unat k) (umax_value dst)\<rparr>) ?z"
    if "in_s (smin_value r) (smax_value r) ?z" for r
    using that by (simp add: has64_def)
  have full: "sint ?z \<le> sint S64_MAX" "sint S64_MIN \<le> sint ?z" using full_ranges(1) [of ?z] unfolding in_s_def by blast+
  define r1 where "r1 = (if k = 0x20 \<and> k = 0x20 \<and> sint (s32_max_value dst) \<ge> 0
    then dst\<lparr>smax_value := push_bit 0x20 (scast (s32_max_value dst))\<rparr> else dst\<lparr>smax_value := S64_MAX\<rparr>)"
  define r where "r = (if k = 0x20 \<and> k = 0x20 \<and> sint (s32_min_value r1) \<ge> 0
    then r1\<lparr>smin_value := push_bit 0x20 (scast (s32_min_value r1))\<rparr> else r1\<lparr>smin_value := S64_MIN\<rparr>)"
  have f: "s32_min_value r1 = s32_min_value dst" "umax_value r = umax_value dst" "umin_value r = umin_value dst" "smax_value r = smax_value r1"
    by (simp_all add: r_def r1_def)
  have hi: "sint ?z \<le> sint (smax_value r1)" unfolding r1_def using top full(1) by (cases "k = 0x20 \<and> sint (s32_max_value dst) \<ge> 0") simp_all
  have lo: "sint (smin_value r) \<le> sint ?z" unfolding r_def f using bot full(2) by (cases "k = 0x20 \<and> sint (s32_min_value dst) \<ge> 0") simp_all
  have "in_s (smin_value r) (smax_value r) ?z" unfolding in_s_def f using hi lo by blast
  from u [OF this] show ?thesis
    unfolding scalar64_min_max_lsh_bounds_def Let_def r1_def [symmetric] unfolding r_def [symmetric] unfolding f .
qed

lemma shift_frames [simp]:
  "has64 (scalar32_min_max_lsh_bounds dst a b) x = has64 dst x" "has32 (scalar64_min_max_lsh_bounds dst a b) w = has32 dst w"
  "var_off (scalar32_min_max_lsh_bounds dst a b) = var_off dst" "var_off (scalar64_min_max_lsh_bounds dst a b) = var_off dst"
  by (simp_all add: has64_def has32_def Let_def scalar32_min_max_lsh_bounds_def scalar64_min_max_lsh_bounds_def)

lemma low_push_bit: "low (push_bit n x) = push_bit n (low x)"
  by (rule bit_word_eqI) (auto simp: bit_simps)

lemma lsh64_has:
  assumes T: "tnum_ok T" and h: "reg_has dst x" and k: "umin_value src = k" "umax_value src = k" "k < 64"
  shows "reg_has (scalar_min_max_lsh T dst src) (push_bit (unat k) x)"
proof -
  note H = h [unfolded reg_has_halves]
  show ?thesis
    unfolding scalar_min_max_lsh_def Let_def k(1,2)
    by (rule update_has [OF T])
      (use H lsh32_bounds_has [of "scalar64_min_max_lsh_bounds dst k k" "low x" k] lsh64_bounds_has [of dst x k] k(3) tnum_shiftsD(1) [OF T, of "var_off dst" x k]
       in \<open>simp add: reg_has_halves low_push_bit\<close>)
qed

lemma rsh64_has:
  assumes T: "tnum_ok T" and h: "reg_has dst x" and k: "umin_value src = k" "umax_value src = k" "k < 64"
  shows "reg_has (scalar_min_max_rsh T dst src) (drop_bit (unat k) x)"
proof -
  note H = h [unfolded reg_has_halves]
  show ?thesis
    unfolding scalar_min_max_rsh_def Let_def k(1,2)
    by (rule update_has [OF T])
      (use H rsh_u [of "umin_value dst" "umax_value dst" x "unat k"] k(3) tnum_shiftsD(2) [OF T, of "var_off dst" x k]
       in \<open>simp add: reg_has_halves has64_def has32_def verifier_mark_reg32_unbounded_def\<close>)
qed
lemma arsh64_has:
  assumes T: "tnum_ok T" and h: "reg_has dst x" and k: "umin_value src = k" "k < 64"
  shows "reg_has (scalar_min_max_arsh T dst src) (signed_drop_bit (unat k) x)"
proof -
  note H = h [unfolded reg_has_halves]
  show ?thesis
    unfolding scalar_min_max_arsh_def Let_def k(1)
    by (rule update_has [OF T])
      (use H arsh_s [of "smin_value dst" "smax_value dst" x "unat k"] k(2) tnum_shiftsD(3) [OF T, of "var_off dst" x k]
       in \<open>simp add: reg_has_halves has64_def has32_def verifier_mark_reg32_unbounded_def\<close>)
qed

text \<open>The 32 bit shifts leave a state of some value with the right low half; the zero extension follows.\<close>

lemma low_shifts:
  "low (take_bit 32 (push_bit n (take_bit 32 x))) = push_bit n (low x)" "low (drop_bit n (take_bit 32 x)) = drop_bit n (low x)"
  "low (ucast w :: u64) = w"
  by (rule bit_word_eqI; auto simp: bit_simps)+

lemma lsh32_has:
  assumes T: "tnum_ok T" and h: "reg_has dst x" and k: "u32_min_value src = k" "u32_max_value src = k" "k < 32"
  shows "\<exists>z. reg_has (scalar32_min_max_lsh T dst src) z \<and> low z = push_bit (unat k) (low x)"
proof -
  note H = h [unfolded reg_has_halves]
  let ?k = "ucast k :: u64" and ?z = "take_bit 32 (push_bit (unat k) (take_bit 32 x))"
  have t: "tnum_has (tnum_subreg T (tnum_lshift T (tnum_subreg T (var_off dst)) ?k)) ?z"
    using H k(3) tnum_partsD(2) [OF T tnum_shiftsD(1) [OF T tnum_partsD(2) [OF T]], of "var_off dst" x ?k]
    by (simp add: unat_ucast_word word_less_nat_alt)
  have b: "has32 (scalar32_min_max_lsh_bounds dst ?k ?k) (push_bit (unat k) (low x))"
    using lsh32_bounds_has [of dst "low x" ?k] H by (simp add: unat_ucast_word)
  have "reg_has (scalar32_min_max_lsh T dst src) ?z"
    unfolding scalar32_min_max_lsh_def Let_def k(1,2)
    by (rule update32_has [OF T]) (use t b in \<open>simp add: reg_has_halves low_shifts(1) del: low_simps(5)\<close>)
  then show ?thesis using low_shifts(1) by blast
qed

lemma rsh32_has:
  assumes T: "tnum_ok T" and h: "reg_has dst x" and k: "u32_min_value src = k" "u32_max_value src = k" "k < 32"
  shows "\<exists>z. reg_has (scalar32_min_max_rsh T dst src) z \<and> low z = drop_bit (unat k) (low x)"
proof -
  note H = h [unfolded reg_has_halves]
  let ?k = "ucast k :: u64" and ?z = "drop_bit (unat k) (take_bit 32 x)"
  have t: "tnum_has (tnum_rshift T (tnum_subreg T (var_off dst)) ?k) ?z"
    using H k(3) tnum_shiftsD(2) [OF T tnum_partsD(2) [OF T], of "var_off dst" x ?k]
    by (simp add: unat_ucast_word word_less_nat_alt)
  have b: "in_u (drop_bit (unat k) (u32_min_value dst)) (drop_bit (unat k) (u32_max_value dst)) (drop_bit (unat k) (low x))"
    using H by (intro rsh_u) (simp add: has32_def)
  have "reg_has (scalar32_min_max_rsh T dst src) ?z"
    unfolding scalar32_min_max_rsh_def Let_def k(1,2)
    by (rule update32_has [OF T]) (use t b in \<open>simp add: reg_has_def low_shifts(2) verifier_mark_reg64_unbounded_def\<close>)
  then show ?thesis using low_shifts(2) by blast
qed

lemma arsh32_has:
  assumes T: "tnum_ok T" and h: "reg_has dst x" and k: "u32_min_value src = k" "k < 32"
  shows "\<exists>z. reg_has (scalar32_min_max_arsh T dst src) z \<and> low z = signed_drop_bit (unat k) (low x)"
proof -
  note H = h [unfolded reg_has_halves]
  let ?k = "ucast k :: u64" and ?z = "ucast (signed_drop_bit (unat k) (low x)) :: u64"
  have t: "tnum_has (tnum_arshift T (tnum_subreg T (var_off dst)) ?k 32) ?z"
    using H k(2) tnum_shiftsD(4) [OF T tnum_partsD(2) [OF T], of "var_off dst" x ?k]
    by (simp add: unat_ucast_word word_less_nat_alt)
  have b: "in_s (signed_drop_bit (unat k) (s32_min_value dst)) (signed_drop_bit (unat k) (s32_max_value dst)) (signed_drop_bit (unat k) (low x))"
    using H by (intro arsh_s) (simp add: has32_def)
  have "reg_has (scalar32_min_max_arsh T dst src) ?z"
    unfolding scalar32_min_max_arsh_def Let_def k(1)
    by (rule update32_has [OF T]) (use t b in \<open>simp add: reg_has_def low_shifts(3) unat_ucast_word verifier_mark_reg64_unbounded_def\<close>)
  then show ?thesis using low_shifts(3) by blast
qed

section \<open>Zero extension\<close>

lemma neg_zext: "\<not> neg (ucast (w :: u32) :: u64)"
  using bit_imp_le_length [of w 63] by (auto simp: neg_bit bit_simps)

lemma scast_ucast: "\<not> neg w \<Longrightarrow> (scast w :: u64) = ucast w" for w :: u32
proof (rule bit_word_eqI)
  fix n assume "\<not> neg w" "n < LENGTH(64)"
  then show "bit (scast w :: u64) n = bit (ucast w :: u64) n"
    using bit_imp_le_length [of w n] by (cases "n = 31") (auto simp: neg_bit bit_simps min_def)
qed

lemma ucast_in_u: "in_u lo hi w \<Longrightarrow> in_u (ucast lo :: u64) (ucast hi) (ucast w)" for w :: u32
  by (simp add: in_u_def word_le_nat_alt unat_ucast_word)

lemma assign_has:
  assumes t: "tnum_has (var_off r) (ucast w)" and h: "has32 r w"
  shows "reg_has (verifier_reg_assign_32_into_64 r) (ucast w)"
proof -
  have u: "in_u (ucast (u32_min_value r)) (ucast (u32_max_value r)) (ucast w :: u64)" using h by (simp add: has32_def ucast_in_u)
  have s: "in_s (scast (s32_min_value r)) (scast (s32_max_value r)) (ucast w :: u64)"
    if p: "verifier_reg32_bound_s64 (s32_min_value r)" "verifier_reg32_bound_s64 (s32_max_value r)"
  proof -
    have n: "\<not> neg (s32_min_value r)" "\<not> neg (s32_max_value r)" using p by (simp_all add: verifier_reg32_bound_s64_def neg_def)
    then have "in_u (s32_min_value r) (s32_max_value r) w" using h unfolding has32_def in_s_def sle_iff in_u_def by auto
    then show ?thesis using in_s_nonneg [OF ucast_in_u] neg_zext by (simp add: scast_ucast n)
  qed
  have "in_u (ucast (0 :: u32)) (ucast (0xFFFFFFFF :: u32)) (ucast w :: u64)" by (rule ucast_in_u) simp
  moreover have "\<not> neg (0xFFFFFFFF :: u64)" by (simp add: neg_def)
  ultimately have full: "in_s 0 0xFFFFFFFF (ucast w :: u64)" using in_s_nonneg [of 0 "0xFFFFFFFF" "ucast w :: u64"] by simp
  show ?thesis using t h u s full by (simp add: reg_has_def has32_def verifier_reg_assign_32_into_64_def Let_def low_shifts(3))
qed

lemma zext_has:
  assumes T: "tnum_ok T" and h: "reg_has r x"
  shows "reg_has (zext_32_to_64 T r) (ucast (low x))"
  unfolding zext_32_to_64_def
  by (rule assign_has) (use h tnum_partsD(2) [OF T, of "var_off r" x] in \<open>simp_all add: reg_has_halves high_low(2) [symmetric]\<close>)
section \<open>One instruction\<close>

lemma known_range:
  assumes h: "reg_has src y" and "\<not> src_invalid alu32 True src"
  shows "\<not> alu32 \<Longrightarrow> umin_value src = y \<and> umax_value src = y" "alu32 \<Longrightarrow> u32_min_value src = low y \<and> u32_max_value src = low y"
proof -
  note H = reg_hasD(3,5) [OF h]
  show "\<not> alu32 \<Longrightarrow> umin_value src = y \<and> umax_value src = y" "alu32 \<Longrightarrow> u32_min_value src = low y \<and> u32_max_value src = low y"
    using assms(2) H by (auto simp: src_invalid_def in_u_def)
qed

lemma alu_arith:
  assumes T: "tnum_ok T" and h: "reg_has dst x" "reg_has src y"
  shows "reg_has (scalar_alu T prec alu32 BPF_ADD dst src) (x + y)" "reg_has (scalar_alu T prec alu32 BPF_SUB dst src) (x - y)"
    "reg_has (scalar_alu T prec alu32 BPF_MUL dst src) (x * y)"
proof -
  note H = h [unfolded reg_has_halves]
  show "reg_has (scalar_alu T prec alu32 BPF_ADD dst src) (x + y)" "reg_has (scalar_alu T prec alu32 BPF_SUB dst src) (x - y)"
    "reg_has (scalar_alu T prec alu32 BPF_MUL dst src) (x * y)"
    using H tnum_arithD [OF T, of "var_off dst" x "var_off src" y]
    by (simp_all add: scalar_alu_def Let_def reg_has_halves low_arith add64_has add32_has sub64_has sub32_has mul64_has mul32_has)
qed

lemma alu64_has:
  assumes T: "tnum_ok T" and h: "reg_has dst x" "reg_has src y" and s: "reg_signs dst" "reg_signs src"
    and known: "opcode \<in> {BPF_ADD, BPF_SUB, BPF_AND} \<or> \<not> src_invalid False True src"
  shows "reg_has (scalar_alu T prec False opcode dst src) (bpf_alu_word opcode x y)"
proof -
  note u = unknown_has [OF T] and k = known_range(1) [of src y False, OF h(2), simplified]
  have n: "k < 64 \<Longrightarrow> unat k mod 64 = unat k" for k :: u64 by (simp add: word_less_nat_alt)
  show ?thesis
  proof (cases opcode)
    case BPF_AND then show ?thesis using alu_and [OF T h s] by (simp add: bpf_alu_word_def)
  next
    case BPF_OR then show ?thesis using alu_or [OF T h s] by (simp add: bpf_alu_word_def)
  next
    case BPF_XOR then show ?thesis using alu_xor [OF T h s] by (simp add: bpf_alu_word_def)
  next
    case BPF_LSH
    then have "umin_value src = y" "umax_value src = y" using known k by auto
    with BPF_LSH show ?thesis using lsh64_has [OF T h(1), of src y] u n [of y] by (simp add: scalar_alu_def Let_def bpf_alu_word_def not_le)
  next
    case BPF_RSH
    then have "umin_value src = y" "umax_value src = y" using known k by auto
    with BPF_RSH show ?thesis using rsh64_has [OF T h(1), of src y] u n [of y] by (simp add: scalar_alu_def Let_def bpf_alu_word_def not_le)
  next
    case BPF_ARSH
    then have "umin_value src = y" "umax_value src = y" using known k by auto
    with BPF_ARSH show ?thesis using arsh64_has [OF T h(1), of src y] u n [of y] by (simp add: scalar_alu_def Let_def bpf_alu_word_def not_le)
  qed (use alu_arith [OF T h, of prec False] u in \<open>simp_all add: bpf_alu_word_def\<close>, simp_all add: scalar_alu_def)
qed

lemma low_le: "y \<le> m \<Longrightarrow> m < 32 \<Longrightarrow> low y < 32 \<and> unat (low y) mod 32 = unat (low y)" for m y :: u64
proof -
  assume "y \<le> m" "m < 32"
  then have y: "unat y < 32" unfolding word_le_nat_alt word_less_nat_alt by simp
  then have "unat (low y) = unat y" by (simp add: unsigned_ucast_eq take_bit_nat_eq_self)
  with y show ?thesis by (simp add: word_less_nat_alt)
qed

lemma alu32_has:
  assumes T: "tnum_ok T" and h: "reg_has dst x" "reg_has src y" and s: "reg_signs dst" "reg_signs src"
    and known: "opcode \<in> {BPF_ADD, BPF_SUB, BPF_AND} \<or> \<not> src_invalid True True src"
  shows "\<exists>z. reg_has (scalar_alu T prec True opcode dst src) z \<and> low z = bpf_alu_word opcode (low x) (low y)"
proof -
  have u: "\<exists>z. reg_has (mark_reg_unknown T prec dst) z \<and> low z = w" for w
    using unknown_has [OF T] low_shifts(3) by blast
  note k = known_range(2) [of src y True, OF h(2), simplified]
  note n = low_le [OF in_u_def [THEN iffD1, THEN conjunct2, OF reg_hasD(3) [OF h(2)]]]
  have *: "reg_has r z \<Longrightarrow> low z = w \<Longrightarrow> \<exists>z. reg_has r z \<and> low z = w" for r z w by blast
  show ?thesis
  proof (cases opcode)
    case BPF_ADD then show ?thesis using * [OF alu_arith(1) [OF T h]] by (simp add: bpf_alu_word_def low_arith)
  next
    case BPF_SUB then show ?thesis using * [OF alu_arith(2) [OF T h]] by (simp add: bpf_alu_word_def low_arith)
  next
    case BPF_MUL then show ?thesis using * [OF alu_arith(3) [OF T h]] by (simp add: bpf_alu_word_def low_arith)
  next
    case BPF_AND then show ?thesis using * [OF alu_and [OF T h s]] by (simp add: bpf_alu_word_def)
  next
    case BPF_OR then show ?thesis using * [OF alu_or [OF T h s]] by (simp add: bpf_alu_word_def)
  next
    case BPF_XOR then show ?thesis using * [OF alu_xor [OF T h s]] by (simp add: bpf_alu_word_def)
  next
    case BPF_LSH
    then have "u32_min_value src = low y" "u32_max_value src = low y" using known k by auto
    with BPF_LSH show ?thesis using lsh32_has [OF T h(1), of src "low y"] u n by (simp add: scalar_alu_def Let_def bpf_alu_word_def not_le)
  next
    case BPF_RSH
    then have "u32_min_value src = low y" "u32_max_value src = low y" using known k by auto
    with BPF_RSH show ?thesis using rsh32_has [OF T h(1), of src "low y"] u n by (simp add: scalar_alu_def Let_def bpf_alu_word_def not_le)
  next
    case BPF_ARSH
    then have "u32_min_value src = low y" "u32_max_value src = low y" using known k by auto
    with BPF_ARSH show ?thesis using arsh32_has [OF T h(1), of src "low y"] u n by (simp add: scalar_alu_def Let_def bpf_alu_word_def not_le)
  qed (use u in \<open>simp_all add: scalar_alu_def\<close>)
qed

theorem adjust_scalar_ok:
  assumes T: "tnum_ok T" and h: "reg_has dst x" "reg_has src y" and s: "reg_signs dst" "reg_signs src"
    and r: "adjust_scalar_min_max_vals T prec sanitize alu32 opcode dst src = (0, dst')"
  shows "reg_has dst' (bpf_alu alu32 opcode x y) \<and> reg_signs dst'"
proof -
  define known where "known = (if alu32 then tnum_subreg_is_const T (var_off src) else tnum_is_const T (var_off src))"
  define d where "d = scalar_alu T prec alu32 opcode dst src"
  define e where "e = (if alu32 then zext_32_to_64 T d else d)"
  let ?u = "src_invalid alu32 known src \<or> \<not> known \<and> opcode \<noteq> BPF_ADD \<and> opcode \<noteq> BPF_SUB \<and> opcode \<noteq> BPF_AND"
  have dst': "dst' = (if ?u then mark_reg_unknown T prec dst else reg_bounds_sync T e)"
    using r unfolding adjust_scalar_min_max_vals_def Let_def known_def [symmetric] d_def [symmetric] e_def [symmetric]
    by (auto split: if_splits)
  show ?thesis
  proof (cases ?u)
    case True
    then show ?thesis using dst' unknown_has [OF T] unknown_signs by simp
  next
    case False
    then have k: "opcode \<in> {BPF_ADD, BPF_SUB, BPF_AND} \<or> \<not> src_invalid alu32 True src" by (cases known) auto
    have "reg_has e (bpf_alu alu32 opcode x y)"
    proof (cases alu32)
      case True
      with k alu32_has [OF T h s] obtain z where "reg_has d z" "low z = bpf_alu_word opcode (low x) (low y)"
        unfolding d_def by auto
      then show ?thesis using True zext_has [OF T, of d z] by (simp add: e_def bpf_alu_def)
    next
      case False
      with k show ?thesis using alu64_has [OF T h s, of opcode prec] by (simp add: e_def d_def bpf_alu_def)
    qed
    moreover have "dst' = reg_bounds_sync T e" using dst' by (simp only: False if_False)
    ultimately show ?thesis using sync_has [OF T] sync_signs [OF T] by simp
  qed
qed

end
