(* ===== verification/Bpf_Branch_Sound.thy ===== *)
theory Bpf_Branch_Sound
  imports Bpf_Branch Bpf_Sound
begin

text \<open>
  A conditional jump is decided and refined in the right direction: the verifier answers only what holds of every value
  the state allows, and the value is still allowed on the way it takes.
\<close>

section \<open>Conditions\<close>

definition bpf_jmp_word :: "bpf_jmp_op \<Rightarrow> 'a::len word \<Rightarrow> 'a word \<Rightarrow> bool" where
  "bpf_jmp_word opcode x v =
     (case opcode of
        BPF_JEQ \<Rightarrow> x = v | BPF_JNE \<Rightarrow> x \<noteq> v | BPF_JSET \<Rightarrow> x AND v \<noteq> 0
      | BPF_JGT \<Rightarrow> x > v | BPF_JGE \<Rightarrow> x \<ge> v | BPF_JLT \<Rightarrow> x < v | BPF_JLE \<Rightarrow> x \<le> v
      | BPF_JSGT \<Rightarrow> sint x > sint v | BPF_JSGE \<Rightarrow> sint x \<ge> sint v | BPF_JSLT \<Rightarrow> sint x < sint v | BPF_JSLE \<Rightarrow> sint x \<le> sint v
      | BPF_JA \<Rightarrow> True)"

definition bpf_jmp :: "bool \<Rightarrow> bpf_jmp_op \<Rightarrow> u64 \<Rightarrow> u64 \<Rightarrow> bool" where
  "bpf_jmp is_jmp32 opcode x y = (if is_jmp32 then bpf_jmp_word opcode (low x) (low y) else bpf_jmp_word opcode x y)"

lemma jmp_flip: "opcode_flip opcode = Some flipped \<Longrightarrow> bpf_jmp_word flipped y x = bpf_jmp_word opcode x y"
  by (cases opcode) (auto simp: bpf_jmp_word_def and.commute)

section \<open>Deciding\<close>

lemma known_ones: "tnum_has t x \<Longrightarrow> (NOT (t_mask t) AND t_value t) AND v \<noteq> 0 \<Longrightarrow> x AND v \<noteq> 0"
proof -
  assume t: "tnum_has t x" and n: "(NOT (t_mask t) AND t_value t) AND v \<noteq> 0"
  have "(NOT (t_mask t) AND t_value t) AND v = (x AND v) AND NOT (t_mask t)"
    using t unfolding tnum_has_def by (auto intro!: bit_word_eqI simp: bit_simps dest: arg_cong [of _ _ "\<lambda>w. bit w _"])
  with n show "x AND v \<noteq> 0" by auto
qed

lemma known_zeros: "tnum_has t x \<Longrightarrow> (t_mask t OR t_value t) AND v = 0 \<Longrightarrow> x AND v = 0"
proof -
  assume t: "tnum_has t x" and z: "(t_mask t OR t_value t) AND v = 0"
  have "x AND v = x AND ((t_mask t OR t_value t) AND v)"
    unfolding tnum_has_def [THEN iffD1, OF t, symmetric] by (auto intro!: bit_word_eqI simp: bit_simps)
  with z show "x AND v = 0" by simp
qed

lemma branch64_ok:
  assumes T: "tnum_ok T" and h: "reg_has r x"
  shows "is_branch64_taken T r v opcode = 1 \<Longrightarrow> bpf_jmp_word opcode x v" "is_branch64_taken T r v opcode = 0 \<Longrightarrow> \<not> bpf_jmp_word opcode x v"
proof -
  note t = reg_hasD(1) [OF h] and R = reg_hasD(2,3) [OF h, unfolded in_s_def in_u_def]
  note K = tnum_testsD(2) [OF T t, of v] and B = known_ones [OF t, of v] known_zeros [OF t, of v]
  have *: "(is_branch64_taken T r v opcode = 1 \<longrightarrow> bpf_jmp_word opcode x v) \<and> (is_branch64_taken T r v opcode = 0 \<longrightarrow> \<not> bpf_jmp_word opcode x v)"
    by (cases opcode) (use K B R in \<open>auto simp: is_branch64_taken_def Let_def bpf_jmp_word_def split: if_splits\<close>)
  then show "is_branch64_taken T r v opcode = 1 \<Longrightarrow> bpf_jmp_word opcode x v" "is_branch64_taken T r v opcode = 0 \<Longrightarrow> \<not> bpf_jmp_word opcode x v"
    by blast+
qed

lemma take_bit_eqs: "take_bit 32 x = (ucast (w :: u32) :: u64) \<longleftrightarrow> low x = w" "take_bit 32 x AND ucast w = 0 \<longleftrightarrow> low x AND w = 0"
proof -
  show e: "take_bit 32 x = (ucast w :: u64) \<longleftrightarrow> low x = w" for w by (metis high_low(2) low_shifts(3))
  have "take_bit 32 x AND ucast w = (ucast (low x AND w) :: u64)" by (rule bit_word_eqI) (auto simp: bit_simps)
  then show "take_bit 32 x AND ucast w = 0 \<longleftrightarrow> low x AND w = 0" by (metis low_shifts(3) unsigned_0)
qed

lemma branch32_ok:
  assumes T: "tnum_ok T" and h: "reg_has r x"
  shows "is_branch32_taken T r v opcode = 1 \<Longrightarrow> bpf_jmp_word opcode (low x) v" "is_branch32_taken T r v opcode = 0 \<Longrightarrow> \<not> bpf_jmp_word opcode (low x) v"
proof -
  note t = tnum_partsD(2) [OF T reg_hasD(1) [OF h]] and R = reg_hasD(4,5) [OF h, unfolded in_s_def in_u_def]
  have K: "tnum_equals_const T (tnum_subreg T (var_off r)) (ucast v) \<longleftrightarrow> tnum_is_const T (tnum_subreg T (var_off r)) \<and> low x = v"
    using tnum_testsD(2) [OF T t, of "ucast v"] take_bit_eqs(1) [of x v] by metis
  have B: "(NOT (t_mask (tnum_subreg T (var_off r))) AND t_value (tnum_subreg T (var_off r))) AND ucast v \<noteq> 0 \<Longrightarrow> low x AND v \<noteq> 0"
    "(t_mask (tnum_subreg T (var_off r)) OR t_value (tnum_subreg T (var_off r))) AND ucast v = 0 \<Longrightarrow> low x AND v = 0"
    using known_ones [OF t, of "ucast v"] known_zeros [OF t, of "ucast v"] take_bit_eqs(2) [of x v] by blast+
  have *: "(is_branch32_taken T r v opcode = 1 \<longrightarrow> bpf_jmp_word opcode (low x) v) \<and> (is_branch32_taken T r v opcode = 0 \<longrightarrow> \<not> bpf_jmp_word opcode (low x) v)"
    by (cases opcode) (use K B R in \<open>auto simp: is_branch32_taken_def Let_def bpf_jmp_word_def split: if_splits\<close>)
  then show "is_branch32_taken T r v opcode = 1 \<Longrightarrow> bpf_jmp_word opcode (low x) v" "is_branch32_taken T r v opcode = 0 \<Longrightarrow> \<not> bpf_jmp_word opcode (low x) v"
    by blast+
qed

lemma branch_taken_ok:
  assumes T: "tnum_ok T" and s: "r_type r = SCALAR_VALUE" and h: "reg_has r x"
  shows "is_branch_taken T r y opcode is_jmp32 = 1 \<Longrightarrow> bpf_jmp is_jmp32 opcode x y"
    "is_branch_taken T r y opcode is_jmp32 = 0 \<Longrightarrow> \<not> bpf_jmp is_jmp32 opcode x y"
  using branch64_ok [OF T h] branch32_ok [OF T h] s
  by (auto simp: is_branch_taken_def verifier_is_pointer_value_def bpf_jmp_def split: if_splits)
section \<open>Between the halves\<close>

lemma combine_32_has:
  assumes T: "tnum_ok T" and h: "reg_has r x"
  shows "reg_has (verifier_reg_combine_32_into_64 T r) x" "reg_signs (verifier_reg_combine_32_into_64 T r)"
proof -
  note t = reg_hasD(1) [OF h]
  have "reg_has (if tnum_equals_const T (tnum_clear_subreg T (var_off r)) 0 then verifier_reg_assign_32_into_64 r
        else verifier_update_reg_bounds T (verifier_mark_reg64_unbounded r)) x"
  proof (cases "tnum_equals_const T (tnum_clear_subreg T (var_off r)) 0")
    case True
    then have "high x = 0" using tnum_testsD(2) [OF T tnum_partsD(3) [OF T t], of 0] by auto
    then have "x = ucast (low x)" using high_low(1,2) [of x] by simp
    then have "reg_has (verifier_reg_assign_32_into_64 r) x" using assign_has [of r "low x"] t h by (simp add: reg_has_halves)
    with True show ?thesis by simp
  next
    case False
    have "reg_has (verifier_mark_reg64_unbounded r) x" using h by (simp add: reg_has_halves)
    with False show ?thesis using update_has [OF T] by simp
  qed
  note this [THEN sync_has [OF T]] this [THEN sync_signs [OF T]]
  then show "reg_has (verifier_reg_combine_32_into_64 T r) x" "reg_signs (verifier_reg_combine_32_into_64 T r)"
    by (simp_all only: verifier_reg_combine_32_into_64_def)
qed

lemma sint_low: "verifier_reg64_bound_s32 a \<Longrightarrow> sint (low a) = sint a"
proof (rule sint_eq_if_fits)
  show "low a = word_of_int (sint a)" by (rule bit_word_eqI) (auto simp: bit_simps)
qed (simp_all add: verifier_reg64_bound_s32_def)

lemma low_s_range:
  assumes "in_s a b x" and "verifier_reg64_bound_s32 a" and "verifier_reg64_bound_s32 b"
  shows "in_s (low a) (low b) (low x)"
proof -
  have "verifier_reg64_bound_s32 x" using assms by (auto simp: in_s_def verifier_reg64_bound_s32_def)
  then show ?thesis using assms by (simp add: in_s_def sint_low)
qed

lemma unat_low: "unat a < 2 ^ 32 \<Longrightarrow> unat (low a) = unat a"
  by (simp add: unsigned_ucast_eq take_bit_nat_eq_self)

lemma low_u_range:
  assumes "in_u a b x" and "verifier_reg64_bound_u32 b"
  shows "in_u (low a) (low b) (low x)"
proof -
  have "unat b < 2 ^ 32" using assms(2) by (simp add: verifier_reg64_bound_u32_def word_less_nat_alt)
  moreover have "unat a \<le> unat x" "unat x \<le> unat b" using assms(1) by (simp_all add: in_u_def word_le_nat_alt)
  ultimately show ?thesis by (simp add: in_u_def word_le_nat_alt unat_low)
qed

lemma combine_64_has:
  assumes T: "tnum_ok T" and t: "tnum_has (var_off r) x" and h: "has64 r x"
  shows "reg_has (reg_combine_64_into_32 T r) x" "reg_signs (reg_combine_64_into_32 T r)"
proof -
  define r1 where "r1 = verifier_mark_reg32_unbounded r"
  define r2 where "r2 = (if verifier_reg64_bound_s32 (smin_value r1) \<and> verifier_reg64_bound_s32 (smax_value r1)
      then r1\<lparr>s32_min_value := ucast (smin_value r1), s32_max_value := ucast (smax_value r1)\<rparr> else r1)"
  define r3 where "r3 = (if verifier_reg64_bound_u32 (umin_value r2) \<and> verifier_reg64_bound_u32 (umax_value r2)
      then r2\<lparr>u32_min_value := ucast (umin_value r2), u32_max_value := ucast (umax_value r2)\<rparr> else r2)"
  have 1: "reg_has r1 x" using t h by (simp add: r1_def reg_has_halves)
  have 2: "reg_has r2 x" using 1 low_s_range [OF reg_hasD(2) [OF 1]] by (simp add: r2_def reg_has_def)
  have 3: "reg_has r3 x" using 2 low_u_range [OF reg_hasD(3) [OF 2]] by (simp add: r3_def reg_has_def)
  have "reg_combine_64_into_32 T r = reg_bounds_sync T r3"
    unfolding reg_combine_64_into_32_def Let_def r1_def [symmetric] r2_def [symmetric] r3_def [symmetric] by (rule refl)
  then show "reg_has (reg_combine_64_into_32 T r) x" "reg_signs (reg_combine_64_into_32 T r)"
    using sync_has [OF T 3] sync_signs [OF T 3] by simp_all
qed

section \<open>Refining\<close>

definition refined_ok :: "refined \<Rightarrow> u64 \<Rightarrow> bool" where
  "refined_ok = (\<lambda>(r, off64, off32) x.
     tnum_has off64 x \<and> (\<exists>z. tnum_has off32 z \<and> take_bit 32 z = take_bit 32 x) \<and> has64 r x \<and> has32 r (low x))"

lemma refined_ok_refined: "tnum_ok T \<Longrightarrow> reg_has r x \<Longrightarrow> refined_ok (refined T r) x"
  using tnum_partsD(2) [of T "var_off r" x] by (auto simp: refined_ok_def refined_def reg_has_halves)

lemma refined_okI:
  "tnum_has off64 x \<Longrightarrow> tnum_has off32 (take_bit 32 x) \<Longrightarrow> has64 r x \<Longrightarrow> has32 r (low x) \<Longrightarrow> refined_ok (r, off64, off32) x"
  unfolding refined_ok_def prod.case by (intro conjI exI [of _ "take_bit 32 x"]) simp_all

lemma finish_has:
  assumes T: "tnum_ok T" and f: "refined_ok f x"
  shows "reg_has (set_min_max_finish T is_jmp32 f) x \<and> reg_signs (set_min_max_finish T is_jmp32 f)"
proof -
  obtain r off64 off32 where f': "f = (r, off64, off32)" by (metis prod_cases3)
  from f [unfolded f'] obtain z where z: "tnum_has off64 x" "tnum_has off32 z" "take_bit 32 z = take_bit 32 x" "has64 r x" "has32 r (low x)"
    by (auto simp: refined_ok_def)
  have "tnum_has (tnum_or T (tnum_clear_subreg T off64) (tnum_subreg T off32)) x"
    using tnum_bitsD(2) [OF T tnum_partsD(3) [OF T z(1)] tnum_partsD(2) [OF T z(2)]] by (simp add: z(3) high_low(1))
  with z have "reg_has (r\<lparr>var_off := tnum_or T (tnum_clear_subreg T off64) (tnum_subreg T off32)\<rparr>) x" by (simp add: reg_has_halves)
  then show ?thesis
    using combine_32_has [OF T] combine_64_has [OF T, of "r\<lparr>var_off := off64\<rparr>" x] z by (simp add: set_min_max_finish_def f')
qed

text \<open>Words next to a bound.\<close>

lemma beside_u: "x < v \<Longrightarrow> x \<le> v - 1" "v < x \<Longrightarrow> v + 1 \<le> x" for x v :: "'a::len word"
proof -
  assume l: "x < v"
  then have "v \<noteq> 0" by auto
  then have "unat (v - 1) = unat v - 1" by (rule unat_minus_one)
  then show "x \<le> v - 1" using l by (simp add: word_le_nat_alt word_less_nat_alt)
qed (rule inc_le)

lemma beside_s: "sint x < sint v \<Longrightarrow> sint x \<le> sint (v - 1)" "sint v < sint x \<Longrightarrow> sint (v + 1) \<le> sint x" for x v :: "'a::len word"
proof -
  assume l: "sint x < sint v"
  have "sint (v - 1) = sint v - 1"
    by (rule sint_eq_if_fits) (use l sint_range [of x] sint_range [of v] in simp_all)
  then show "sint x \<le> sint (v - 1)" using l by simp
next
  assume l: "sint v < sint x"
  have "sint (v + 1) = sint v + 1"
    by (rule sint_eq_if_fits) (use l sint_range [of x] sint_range [of v] in simp_all)
  then show "sint (v + 1) \<le> sint x" using l by simp
qed

lemma smax_le: "sint (smax_t a b) \<le> sint x \<longleftrightarrow> sint a \<le> sint x \<and> sint b \<le> sint x"
  and le_smin: "sint x \<le> sint (smin_t a b) \<longleftrightarrow> sint x \<le> sint a \<and> sint x \<le> sint b"
  by (auto simp: smax_t_def smin_t_def)

text \<open>What is relied on of \<open>is_power_of_2\<close>.\<close>

definition pow2_ok :: "(u64 \<Rightarrow> bool) \<Rightarrow> bool" where
  "pow2_ok pow2 \<longleftrightarrow> (\<forall>v. pow2 v \<longrightarrow> (\<exists>k<64. v = push_bit k 1))"

lemma pow2_or: "pow2_ok pow2 \<Longrightarrow> pow2 v \<Longrightarrow> x AND v \<noteq> 0 \<Longrightarrow> x OR v = x"
proof -
  assume "pow2_ok pow2" "pow2 v" and n: "x AND v \<noteq> 0"
  then obtain k where k: "k < 64" "v = push_bit k 1" by (auto simp: pow2_ok_def)
  have "bit x k"
  proof (rule ccontr)
    assume "\<not> bit x k"
    then have "x AND v = 0" by (auto intro!: bit_word_eqI simp: bit_simps k)
    with n show False by simp
  qed
  then show "x OR v = x" by (auto intro!: bit_word_eqI simp: bit_simps k)
qed

lemma and_not_zero: "x AND v = 0 \<Longrightarrow> x AND NOT v = x" for x v :: "'a::len word"
  by (metis and.right_neutral bit.conj_disj_distrib bit.disj_cancel_right or.left_neutral)

lemma set64_ok:
  assumes T: "tnum_ok T" and p: "pow2_ok pow2" and s: "set_min_max64 T pow2 tr fr v opcode = Some (t, f)"
  shows "reg_has tr x \<Longrightarrow> bpf_jmp_word opcode x v \<Longrightarrow> refined_ok t x" "reg_has fr x \<Longrightarrow> \<not> bpf_jmp_word opcode x v \<Longrightarrow> refined_ok f x"
proof -
  show "refined_ok t x" if h: "reg_has tr x" and c: "bpf_jmp_word opcode x v"
  proof -
    note H = h [unfolded reg_has_halves]
    have sub: "\<exists>z. tnum_has (tnum_subreg T (var_off tr)) z \<and> take_bit 32 z = take_bit 32 x" using tnum_partsD(2) [OF T, of "var_off tr" x] H by auto
    show ?thesis
    proof (cases opcode)
      case BPF_JEQ
      with c have "x = v" by (simp add: bpf_jmp_word_def)
      then show ?thesis
        using s BPF_JEQ sub H known_has(2) [OF T, of v tr] by (auto simp: set_min_max64_def Let_def refined_ok_def reg_has_halves)
    next
      case BPF_JSET
      with c have "x AND v \<noteq> 0" by (simp add: bpf_jmp_word_def)
      then have "pow2 v \<Longrightarrow> tnum_has (tnum_or T (var_off tr) (tnum_const T v)) x"
        using tnum_bitsD(2) [OF T, of "var_off tr" x "tnum_const T v" v] tnum_rangesD(2) [OF T] H pow2_or [OF p] by auto
      then show ?thesis using s BPF_JSET sub H by (auto simp: set_min_max64_def Let_def refined_ok_def)
    qed (use s c h H in \<open>auto simp: set_min_max64_def Let_def bpf_jmp_word_def has64_def has32_def in_u_def in_s_def smax_le le_smin
         beside_u beside_s reg_has_def intro!: refined_ok_refined [OF T]\<close>)
  qed
  show "refined_ok f x" if h: "reg_has fr x" and c: "\<not> bpf_jmp_word opcode x v"
  proof -
    note H = h [unfolded reg_has_halves]
    have sub: "\<exists>z. tnum_has (tnum_subreg T (var_off fr)) z \<and> take_bit 32 z = take_bit 32 x" using tnum_partsD(2) [OF T, of "var_off fr" x] H by auto
    show ?thesis
    proof (cases opcode)
      case BPF_JNE
      with c have "x = v" by (simp add: bpf_jmp_word_def)
      then show ?thesis
        using s BPF_JNE sub H known_has(2) [OF T, of v fr] by (auto simp: set_min_max64_def Let_def refined_ok_def reg_has_halves)
    next
      case BPF_JSET
      with c have "x AND NOT v = x" by (simp add: bpf_jmp_word_def and_not_zero)
      then have "tnum_has (tnum_and T (var_off fr) (tnum_const T (NOT v))) x"
        using tnum_bitsD(1) [OF T, of "var_off fr" x "tnum_const T (NOT v)" "NOT v"] tnum_rangesD(2) [OF T] H by auto
      then show ?thesis using s BPF_JSET sub H by (auto simp: set_min_max64_def Let_def refined_ok_def)
    qed (use s c h H in \<open>auto simp: set_min_max64_def Let_def bpf_jmp_word_def has64_def has32_def in_u_def in_s_def smax_le le_smin not_le not_less
         beside_u beside_s reg_has_def intro!: refined_ok_refined [OF T]\<close>)
  qed
qed
lemma set32_ok:
  assumes T: "tnum_ok T" and p: "pow2_ok pow2" and s: "set_min_max32 T pow2 tr fr v opcode = Some (t, f)"
  shows "reg_has tr x \<Longrightarrow> bpf_jmp_word opcode (low x) v \<Longrightarrow> refined_ok t x" "reg_has fr x \<Longrightarrow> \<not> bpf_jmp_word opcode (low x) v \<Longrightarrow> refined_ok f x"
proof -
  have known: "refined_ok (verifier_mark_reg32_known T (ucast v) r, var_off r, tnum_subreg T (var_off (verifier_mark_reg32_known T (ucast v) r))) x"
    if "reg_has r x" "low x = v" for r
  proof -
    note H = that(1) [unfolded reg_has_halves]
    have "take_bit 32 (ucast v :: u64) = take_bit 32 x" unfolding high_low(2) by (simp add: that(2) low_shifts(3))
    then have "tnum_has (tnum_const_subreg T (var_off r) (ucast v)) x"
      using tnum_partsD(4) [OF T, of "var_off r" x "ucast v"] H by (simp add: high_low(1))
    from tnum_partsD(2) [OF T this] H that(2) show ?thesis
      by (auto simp: refined_ok_def verifier_mark_reg32_known_def has64_def has32_def low_shifts(3))
  qed
  show "refined_ok t x" if h: "reg_has tr x" and c: "bpf_jmp_word opcode (low x) v"
  proof -
    note H = h [unfolded reg_has_halves]
    have sub: "tnum_has (tnum_subreg T (var_off tr)) (take_bit 32 x)" using tnum_partsD(2) [OF T, of "var_off tr" x] H by auto
    show ?thesis
    proof (cases opcode)
      case BPF_JEQ
      then show ?thesis using s c known [OF h] by (auto simp: set_min_max32_def Let_def bpf_jmp_word_def)
    next
      case BPF_JSET
      with c have "take_bit 32 x AND ucast v \<noteq> 0" by (simp add: bpf_jmp_word_def take_bit_eqs(2))
      then have "pow2 (ucast v) \<Longrightarrow> tnum_has (tnum_or T (tnum_subreg T (var_off tr)) (tnum_const T (ucast v))) (take_bit 32 x)"
        using tnum_bitsD(2) [OF T sub, of "tnum_const T (ucast v)" "ucast v"] tnum_rangesD(2) [OF T] pow2_or [OF p] by auto
      then show ?thesis using s BPF_JSET sub H by (auto simp: set_min_max32_def Let_def intro!: refined_okI)
    qed (use s c h H in \<open>auto simp: set_min_max32_def Let_def bpf_jmp_word_def has64_def has32_def in_u_def in_s_def smax_le le_smin
         beside_u beside_s reg_has_def intro!: refined_ok_refined [OF T]\<close>)
  qed
  show "refined_ok f x" if h: "reg_has fr x" and c: "\<not> bpf_jmp_word opcode (low x) v"
  proof -
    note H = h [unfolded reg_has_halves]
    have sub: "tnum_has (tnum_subreg T (var_off fr)) (take_bit 32 x)" using tnum_partsD(2) [OF T, of "var_off fr" x] H by auto
    show ?thesis
    proof (cases opcode)
      case BPF_JNE
      then show ?thesis using s c known [OF h] by (auto simp: set_min_max32_def Let_def bpf_jmp_word_def)
    next
      case BPF_JSET
      with c have "low x AND NOT v = low x" by (simp add: bpf_jmp_word_def and_not_zero)
      then have "take_bit 32 (take_bit 32 x AND ucast (NOT v)) = take_bit 32 x" unfolding high_low(2) by (simp add: low_shifts(3))
      moreover have "tnum_has (tnum_and T (tnum_subreg T (var_off fr)) (tnum_const T (ucast (NOT v)))) (take_bit 32 x AND ucast (NOT v))"
        using tnum_bitsD(1) [OF T sub, of "tnum_const T (ucast (NOT v))" "ucast (NOT v)"] tnum_rangesD(2) [OF T] by auto
      ultimately show ?thesis using s BPF_JSET H by (auto simp: set_min_max32_def Let_def refined_ok_def)
    qed (use s c h H in \<open>auto simp: set_min_max32_def Let_def bpf_jmp_word_def has64_def has32_def in_u_def in_s_def smax_le le_smin not_le not_less
         beside_u beside_s reg_has_def intro!: refined_ok_refined [OF T]\<close>)
  qed
qed

text \<open>The register that is refined, on both ways.\<close>

lemma set_min_max_ok:
  assumes T: "tnum_ok T" and p: "pow2_ok pow2" and s: "r_type fr = SCALAR_VALUE"
    and r: "reg_set_min_max T pow2 tr fr v v32 opcode is_jmp32 = (tr', fr')" and sig: "reg_signs tr" "reg_signs fr"
    and c: "c \<longleftrightarrow> (if is_jmp32 then bpf_jmp_word opcode (low x) v32 else bpf_jmp_word opcode x v)"
  shows "reg_has tr x \<Longrightarrow> c \<Longrightarrow> reg_has tr' x \<and> reg_signs tr'" "reg_has fr x \<Longrightarrow> \<not> c \<Longrightarrow> reg_has fr' x \<and> reg_signs fr'"
proof -
  define m where "m = (if is_jmp32 then set_min_max32 T pow2 tr fr v32 opcode else set_min_max64 T pow2 tr fr v opcode)"
  have r': "(tr', fr') = (case m of None \<Rightarrow> (tr, fr) | Some (t, f) \<Rightarrow> (set_min_max_finish T is_jmp32 t, set_min_max_finish T is_jmp32 f))"
    using r s unfolding reg_set_min_max_def m_def [symmetric] by (simp add: verifier_is_pointer_value_def)
  have ok: "reg_has tr x \<Longrightarrow> c \<Longrightarrow> refined_ok t x" "reg_has fr x \<Longrightarrow> \<not> c \<Longrightarrow> refined_ok f x" if "m = Some (t, f)" for t f
    using that set32_ok [OF T p, of tr fr v32 opcode t f x] set64_ok [OF T p, of tr fr v opcode t f x] c
    unfolding m_def by (auto split: if_splits)
  show "reg_has tr x \<Longrightarrow> c \<Longrightarrow> reg_has tr' x \<and> reg_signs tr'" "reg_has fr x \<Longrightarrow> \<not> c \<Longrightarrow> reg_has fr' x \<and> reg_signs fr'"
    using r' ok finish_has [OF T] sig by (auto split: option.splits)
qed
section \<open>Narrowing, and comparing states\<close>

text \<open>Between two words that agree above \<open>k\<close> bits, the low \<open>k\<close> bits are in order.\<close>

lemma between_high:
  fixes a b x :: u64
  assumes "a \<le> x" and "x \<le> b" and e: "drop_bit k a = drop_bit k b"
  shows "take_bit k a \<le> take_bit k x" "take_bit k x \<le> take_bit k b"
proof -
  have l: "unat a \<le> unat x" "unat x \<le> unat b" using assms by (simp_all add: word_le_nat_alt)
  have d: "unat a div 2 ^ k = unat b div 2 ^ k"
    using arg_cong [OF e, of unat] unfolding unat_drop_bit_eq by (simp add: drop_bit_eq_div)
  then have d': "unat x div 2 ^ k = unat a div 2 ^ k" "unat x div 2 ^ k = unat b div 2 ^ k"
    using div_le_mono [OF l(1), of "2 ^ k"] div_le_mono [OF l(2), of "2 ^ k"] by simp_all
  have s: "unat w = unat w div 2 ^ k * 2 ^ k + unat w mod 2 ^ k" for w :: u64 by (rule div_mult_mod_eq [symmetric])
  have "unat a mod 2 ^ k \<le> unat x mod 2 ^ k" "unat x mod 2 ^ k \<le> unat b mod 2 ^ k"
    using l s [of a] s [of x] s [of b] d' by (metis add_le_cancel_left)+
  then show "take_bit k a \<le> take_bit k x" "take_bit k x \<le> take_bit k b"
    unfolding word_le_nat_alt unsigned_take_bit_eq take_bit_eq_mod [of k "unat _"] .
qed

lemma push_mask: "k < 64 \<Longrightarrow> push_bit k 1 - 1 = (mask k :: u64)" "x AND mask k = take_bit k x"
    "x AND NOT (mask k) = y AND NOT (mask k) \<Longrightarrow> drop_bit k x = drop_bit k y" for x y :: u64
proof -
  show "push_bit k 1 - 1 = (mask k :: u64)" by (simp add: mask_eq_exp_minus_1 push_bit_eq_mult)
  show "x AND mask k = take_bit k x" by (simp add: take_bit_eq_mask)
  assume e: "x AND NOT (mask k) = y AND NOT (mask k)"
  show "drop_bit k x = drop_bit k y"
  proof (rule bit_word_eqI)
    fix n assume "n < LENGTH(64)"
    have "bit (x AND NOT (mask k)) (k + n) = bit (y AND NOT (mask k)) (k + n)" by (simp only: e)
    then show "bit (drop_bit k x) n = bit (drop_bit k y) n"
      using bit_imp_le_length [of x "k + n"] bit_imp_le_length [of y "k + n"] by (auto simp: bit_simps)
  qed
qed

lemma coerce_ok:
  assumes T: "tnum_ok T" and h: "reg_has r x" and sz: "sz < 8"
  shows "reg_has (coerce_reg_to_size T sz r) (take_bit (8 * sz) x)"
proof -
  let ?z = "take_bit (8 * sz) x" and ?m = "mask (8 * sz) :: u64"
  have m: "push_bit (sz * 8) 1 - 1 = ?m" using push_mask(1) [of "8 * sz"] sz by (simp add: mult.commute)
  define r1 where "r1 = r\<lparr>var_off := tnum_cast T (var_off r) sz\<rparr>"
  define r2 where "r2 = (if umin_value r1 AND NOT ?m = umax_value r1 AND NOT ?m
      then r1\<lparr>umin_value := umin_value r1 AND ?m, umax_value := umax_value r1 AND ?m\<rparr>
      else r1\<lparr>umin_value := 0, umax_value := ?m\<rparr>)"
  define r3 where "r3 = r2\<lparr>smin_value := umin_value r2, smax_value := umax_value r2\<rparr>"
  note H = h [unfolded reg_has_halves]
  have u1: "in_u (umin_value r1) (umax_value r1) x" using reg_hasD(3) [OF h] by (simp add: r1_def)
  have zm: "?z \<le> ?m" unfolding push_mask(2) [symmetric] by (rule word_and_le1)
  have u: "in_u (umin_value r2) (umax_value r2) ?z \<and> umax_value r2 \<le> ?m"
  proof (cases "umin_value r1 AND NOT ?m = umax_value r1 AND NOT ?m")
    case True
    then have "umin_value r2 = take_bit (8 * sz) (umin_value r1)" "umax_value r2 = take_bit (8 * sz) (umax_value r1)" by (simp_all add: r2_def push_mask(2))
    moreover have "take_bit (8 * sz) w \<le> ?m" for w :: u64 unfolding push_mask(2) [symmetric] by (rule word_and_le1)
    ultimately show ?thesis using between_high [OF _ _ push_mask(3) [OF True]] u1 by (simp add: in_u_def)
  next
    case False
    then show ?thesis using zm by (simp add: r2_def in_u_def)
  qed
  have "\<not> neg ?m" using sz by (simp add: neg_bit bit_mask_iff)
  then have "\<not> neg (umax_value r2)" using u neg_mono by blast
  then have 64: "has64 r3 ?z" using u in_s_nonneg [of "umin_value r2" "umax_value r2" ?z] by (simp add: r3_def has64_def)
  have v: "tnum_has (var_off r3) ?z" using tnum_partsD(1) [OF T, of "var_off r" x sz] H sz by (simp add: r3_def r2_def r1_def)
  have 32: "has32 r3 w = has32 r w" for w by (simp add: r3_def r2_def r1_def has32_def)
  have c: "coerce_reg_to_size T sz r = (if sz \<ge> 4 then r3 else reg_combine_64_into_32 T r3)"
    unfolding coerce_reg_to_size_def Let_def m r1_def [symmetric] r2_def [symmetric] r3_def [symmetric] by (rule refl)
  show ?thesis
  proof (cases "sz \<ge> 4")
    case True
    then have "low ?z = low x" by (auto intro!: bit_word_eqI simp: bit_simps)
    then show ?thesis using True 64 v 32 H by (simp add: c reg_has_halves)
  next
    case False
    then show ?thesis using combine_64_has(1) [OF T v 64] by (simp add: c)
  qed
qed

lemma within_ok:
  assumes T: "tnum_ok T" and w: "range_within old cur" and t: "tnum_in T (var_off old) (var_off cur)" and h: "reg_has cur x"
  shows "reg_has old x"
proof -
  note H = h [unfolded reg_has_def in_s_def in_u_def]
  show ?thesis
    using H w tnum_testsD(4) [OF T, of "var_off cur" x "var_off old"] t unfolding range_within_def reg_has_def in_s_def in_u_def by auto
qed

end
