(* ===== verification/Bpf_Jump.thy ===== *)
theory Bpf_Jump
  imports Bpf_Branch_Sound
begin

text \<open>
  A conditional jump on a whole state: registers and spilled registers of all frames.  A state describes an assignment of
  values to the registers if it allows the value of every scalar, and if scalars with the same identifier have the same
  value.
\<close>

section \<open>What a state describes\<close>

text \<open>A place: frame and register (\<open>Inl\<close>) or stack slot (\<open>Inr\<close>).\<close>

type_synonym place = "nat \<times> (nat + nat)"

definition slot :: "bpf_verifier_state \<Rightarrow> place \<Rightarrow> bpf_reg_state option" where
  "slot st = (\<lambda>(f, p).
     if f < length st
     then case p of
       Inl i \<Rightarrow> if i < length (regs (st ! f)) then Some (regs (st ! f) ! i) else None
     | Inr i \<Rightarrow> if i < length (spilled (st ! f)) then spilled (st ! f) ! i else None
     else None)"

definition cur_place :: "bpf_verifier_state \<Rightarrow> nat \<Rightarrow> place" where
  "cur_place st i = (length st - 1, Inl i)"

definition state_has :: "bpf_verifier_state \<Rightarrow> (place \<Rightarrow> u64) \<Rightarrow> bool" where
  "state_has st v \<longleftrightarrow> (\<forall>l r. slot st l = Some r \<longrightarrow> r_type r = SCALAR_VALUE \<longrightarrow> reg_has r (v l) \<and> reg_signs r)"

definition ids_agree :: "bpf_verifier_state \<Rightarrow> (place \<Rightarrow> u64) \<Rightarrow> bool" where
  "ids_agree st v \<longleftrightarrow>
     (\<forall>l l' r r'. slot st l = Some r \<longrightarrow> slot st l' = Some r' \<longrightarrow> r_type r = SCALAR_VALUE \<longrightarrow> r_type r' = SCALAR_VALUE \<longrightarrow>
        r_id r \<noteq> 0 \<longrightarrow> r_id r = r_id r' \<longrightarrow> v l = v l')"

text \<open>Two states with the same types and identifiers everywhere.\<close>

definition reg_tag :: "bpf_reg_state \<Rightarrow> bpf_reg_type \<times> u32" where
  "reg_tag r = (r_type r, r_id r)"

definition same_slots :: "bpf_verifier_state \<Rightarrow> bpf_verifier_state \<Rightarrow> bool" where
  "same_slots st st' \<longleftrightarrow> length st' = length st \<and> (\<forall>l. map_option reg_tag (slot st' l) = map_option reg_tag (slot st l))"

definition has_reg :: "bpf_verifier_state \<Rightarrow> nat \<Rightarrow> bool" where
  "has_reg st i \<longleftrightarrow> st \<noteq> [] \<and> i < length (regs (last st))"

lemma slot_cur: "has_reg st i \<Longrightarrow> slot st (cur_place st i) = Some (cur_reg st i)"
  by (auto simp: has_reg_def slot_def cur_place_def cur_reg_def last_conv_nth)

lemma state_hasD:
  assumes "state_has st v" and "has_reg st i" and "r_type (cur_reg st i) = SCALAR_VALUE"
  shows "reg_has (cur_reg st i) (v (cur_place st i))" "reg_signs (cur_reg st i)"
  using assms(1,3) slot_cur [OF assms(2)] unfolding state_has_def by blast+

lemma same_slots_refl [simp]: "same_slots st st" and same_slots_trans: "same_slots a b \<Longrightarrow> same_slots b c \<Longrightarrow> same_slots a c"
  by (simp_all add: same_slots_def)

lemma same_slots_ids:
  assumes s: "same_slots st st'" and i: "ids_agree st v"
  shows "ids_agree st' v"
proof -
  have "\<exists>r. slot st l = Some r \<and> r_type r = r_type r' \<and> r_id r = r_id r'" if "slot st' l = Some r'" for l r'
  proof -
    have "map_option reg_tag (slot st l) = Some (reg_tag r')" using s that unfolding same_slots_def by (metis option.map(2))
    then show ?thesis by (auto simp: reg_tag_def)
  qed
  then show ?thesis using i unfolding ids_agree_def by metis
qed

section \<open>Writing a register\<close>

lemma slot_set:
  assumes "has_reg st i"
  shows "slot (set_cur_reg i r st) l = (if l = cur_place st i then Some r else slot st l)"
proof -
  obtain xs fr where st: "st = xs @ [fr]" using assms by (metis has_reg_def append_butlast_last_id)
  obtain f p where l: "l = (f, p)" by (cases l)
  show ?thesis
    using assms by (auto simp: st l slot_def set_cur_reg_def cur_place_def has_reg_def nth_append nth_list_update split: sum.splits)
qed

lemma set_frame:
  assumes "has_reg st i"
  shows "length (set_cur_reg i r st) = length st" "has_reg (set_cur_reg i r st) j = has_reg st j"
    "cur_place (set_cur_reg i r st) j = cur_place st j" "cur_reg (set_cur_reg i r st) j = (if j = i then r else cur_reg st j)"
  using assms by (auto simp: has_reg_def set_cur_reg_def cur_place_def cur_reg_def nth_list_update)

lemma set_state_has: "has_reg st i \<Longrightarrow> state_has st v \<Longrightarrow> (r_type r = SCALAR_VALUE \<Longrightarrow> reg_has r (v (cur_place st i)) \<and> reg_signs r) \<Longrightarrow>
    state_has (set_cur_reg i r st) v"
  by (auto simp: state_has_def slot_set split: if_splits)

lemma set_same_slots: "has_reg st i \<Longrightarrow> reg_tag r = reg_tag (cur_reg st i) \<Longrightarrow> same_slots st (set_cur_reg i r st)"
  unfolding same_slots_def by (simp add: slot_set set_frame slot_cur del: split_paired_All)

section \<open>Copies\<close>

lemma slot_find_equal: "slot (find_equal_scalars k st) l = map_option (equal_scalar k) (slot st l)"
  by (cases l) (auto simp: slot_def find_equal_scalars_def split: sum.splits)

lemma find_equal_frame: "has_reg (find_equal_scalars k st) i = has_reg st i" "cur_place (find_equal_scalars k st) i = cur_place st i"
  "has_reg st i \<Longrightarrow> cur_reg (find_equal_scalars k st) i = equal_scalar k (cur_reg st i)"
  by (auto simp: has_reg_def find_equal_scalars_def cur_place_def cur_reg_def last_map)

lemma equal_scalar_same: "r_type k = SCALAR_VALUE \<Longrightarrow> reg_tag (equal_scalar k r) = reg_tag r"
  by (simp add: equal_scalar_def reg_tag_def)

lemma find_equal_shape: "r_type k = SCALAR_VALUE \<Longrightarrow> same_slots st (find_equal_scalars k st)"
  unfolding same_slots_def slot_find_equal
  by (simp add: option.map_comp comp_def equal_scalar_same del: split_paired_All) (simp add: find_equal_scalars_def)

lemma find_equal_has:
  assumes h: "state_has st v" and i: "ids_agree st v" and r: "has_reg st i" "r_type (cur_reg st i) = SCALAR_VALUE" "r_id (cur_reg st i) \<noteq> 0"
  shows "state_has (find_equal_scalars (cur_reg st i) st) v"
proof -
  let ?k = "cur_reg st i"
  have k: "reg_has ?k (v (cur_place st i))" "reg_signs ?k" using state_hasD [OF h r(1,2)] .
  have "reg_has (equal_scalar ?k s) (v l) \<and> reg_signs (equal_scalar ?k s)" if "slot st l = Some s" "r_type (equal_scalar ?k s) = SCALAR_VALUE" for l s
  proof (cases "r_type s = SCALAR_VALUE \<and> r_id s = r_id ?k")
    case True
    then have "v l = v (cur_place st i)" using i that(1) slot_cur [OF r(1)] r(2,3) unfolding ids_agree_def by metis
    then show ?thesis using k True by (simp add: equal_scalar_def)
  next
    case False
    then have e: "equal_scalar ?k s = s" unfolding equal_scalar_def by (rule if_not_P)
    show ?thesis using h that unfolding e state_has_def by blast
  qed
  then show ?thesis unfolding state_has_def slot_find_equal map_option_eq_Some by blast
qed
section \<open>Types and identifiers stay\<close>

lemma tag_of_update [simp]:
  "reg_tag (r\<lparr>var_off := t\<rparr>) = reg_tag r" "reg_tag (r\<lparr>smin_value := a\<rparr>) = reg_tag r" "reg_tag (r\<lparr>smax_value := a\<rparr>) = reg_tag r"
  "reg_tag (r\<lparr>umin_value := a\<rparr>) = reg_tag r" "reg_tag (r\<lparr>umax_value := a\<rparr>) = reg_tag r"
  "reg_tag (r\<lparr>s32_min_value := b\<rparr>) = reg_tag r" "reg_tag (r\<lparr>s32_max_value := b\<rparr>) = reg_tag r"
  "reg_tag (r\<lparr>u32_min_value := b\<rparr>) = reg_tag r" "reg_tag (r\<lparr>u32_max_value := b\<rparr>) = reg_tag r"
  by (simp_all add: reg_tag_def)

lemma tag_exchange [simp]:
  "reg_tag (verifier_update_reg32_bounds T r) = reg_tag r" "reg_tag (verifier_update_reg64_bounds r) = reg_tag r"
  "reg_tag (verifier_reg32_deduce_bounds r) = reg_tag r" "reg_tag (verifier_reg64_deduce_bounds r) = reg_tag r"
  "reg_tag (verifier_reg_bound_offset T r) = reg_tag r" "reg_tag (verifier_mark_reg32_unbounded r) = reg_tag r"
  "reg_tag (verifier_mark_reg64_unbounded r) = reg_tag r" "reg_tag (verifier_reg_assign_32_into_64 r) = reg_tag r"
  "reg_tag (verifier2_mark_reg_known T c r) = reg_tag r" "reg_tag (verifier_mark_reg32_known T c r) = reg_tag r"
  by (simp_all add: verifier_update_reg32_bounds_def verifier_update_reg64_bounds_def verifier_reg32_deduce_bounds_def
      verifier_reg64_deduce_bounds_def verifier_reg_bound_offset_def verifier_mark_reg32_unbounded_def verifier_mark_reg64_unbounded_def
      verifier_reg_assign_32_into_64_def verifier2_mark_reg_known_def verifier_mark_reg32_known_def Let_def)

lemma tag_sync [simp]: "reg_tag (reg_bounds_sync T r) = reg_tag r"
  by (simp add: reg_bounds_sync_def verifier_update_reg_bounds_def verifier_reg_deduce_bounds_def)

lemma tag_finish [simp]: "reg_tag (set_min_max_finish T is_jmp32 (r, a, b)) = reg_tag r"
  by (simp add: set_min_max_finish_def verifier_reg_combine_32_into_64_def reg_combine_64_into_32_def verifier_update_reg_bounds_def Let_def)

lemma tag_set_min_max:
  assumes "reg_set_min_max T pow2 r r v v32 opcode is_jmp32 = (t, f)"
  shows "reg_tag t = reg_tag r" "reg_tag f = reg_tag r"
proof -
  have "reg_tag (fst a) = reg_tag r \<and> reg_tag (fst b) = reg_tag r"
    if "set_min_max32 T pow2 r r v32 opcode = Some (a, b) \<or> set_min_max64 T pow2 r r v opcode = Some (a, b)" for a b
    using that by (cases opcode) (auto simp: set_min_max32_def set_min_max64_def refined_def Let_def)
  then show "reg_tag t = reg_tag r" "reg_tag f = reg_tag r"
    using assms by (fastforce simp: reg_set_min_max_def split: if_splits option.splits)+
qed

lemma tag_scalar: "reg_tag r' = reg_tag r \<Longrightarrow> r_type r' = SCALAR_VALUE \<longleftrightarrow> r_type r = SCALAR_VALUE"
  by (simp add: reg_tag_def)

section \<open>Registers compared for equality\<close>

lemma combined_has:
  assumes T: "tnum_ok T" and h: "reg_has src x" "reg_has dst x" "reg_has r x"
  shows "reg_has (combined T src dst r) x"
proof -
  note H = h [unfolded reg_has_def]
  show ?thesis
    using H tnum_intersectD(1) [OF T, of "var_off src" x "var_off dst"] in_s_both [of _ _ x] in_u_both [of _ _ x]
    by (simp add: combined_def reg_has_def)
qed

lemma tag_combined [simp]: "reg_tag (combined T a b r) = reg_tag r"
  by (simp add: combined_def)

lemma if_both: "reg_has a x \<Longrightarrow> reg_has b x \<Longrightarrow> reg_has (if c then a else b) x"
  by simp

lemma combine_effect:
  assumes i: "has_reg st i" and j: "has_reg st j"
  obtains r s where
    "verifier_reg_combine_min_max T i j st = set_cur_reg j s (set_cur_reg i r (set_cur_reg j (combined T (cur_reg st i) (cur_reg st j)
       (if i = j then combined T (cur_reg st i) (cur_reg st j) (cur_reg st i) else cur_reg st j)) (set_cur_reg i (combined T (cur_reg st i) (cur_reg st j) (cur_reg st i)) st)))"
    "\<And>x. tnum_ok T \<Longrightarrow> reg_has (cur_reg st i) x \<Longrightarrow> reg_has (cur_reg st j) x \<Longrightarrow> reg_has r x \<and> reg_signs r \<and> reg_has s x \<and> reg_signs s"
    "reg_tag r = reg_tag (cur_reg st i)" "reg_tag s = reg_tag (cur_reg st j)"
proof -
  let ?c = "combined T (cur_reg st i) (cur_reg st j)"
  let ?r = "reg_bounds_sync T (if i = j then ?c (?c (cur_reg st i)) else ?c (cur_reg st i))"
  let ?s = "reg_bounds_sync T (if i = j then ?r else ?c (cur_reg st j))"
  show thesis
  proof (rule that [of ?s ?r])
    show "verifier_reg_combine_min_max T i j st = set_cur_reg j ?s (set_cur_reg i ?r (set_cur_reg j
       (?c (if i = j then ?c (cur_reg st i) else cur_reg st j)) (set_cur_reg i (?c (cur_reg st i)) st)))"
      unfolding verifier_reg_combine_min_max_def Let_def using i j by (simp add: set_frame)
    fix x assume T: "tnum_ok T" and h: "reg_has (cur_reg st i) x" "reg_has (cur_reg st j) x"
    have c: "reg_has (?c r) x" if "reg_has r x" for r using combined_has [OF T h that] .
    have r: "reg_has (if i = j then ?c (?c (cur_reg st i)) else ?c (cur_reg st i)) x"
      using c [OF c [OF h(1)]] c [OF h(1)] by (rule if_both)
    have r': "reg_has ?r x" using sync_has [OF T r] .
    have s: "reg_has (if i = j then ?r else ?c (cur_reg st j)) x" using r' c [OF h(2)] by (rule if_both)
    show "reg_has ?r x \<and> reg_signs ?r \<and> reg_has ?s x \<and> reg_signs ?s"
      using sync_has [OF T r] sync_signs [OF T r] sync_has [OF T s] sync_signs [OF T s] by blast
  qed simp_all
qed

lemma combine_ok:
  assumes ij: "has_reg st i" "has_reg st j"
  shows "same_slots st (verifier_reg_combine_min_max T i j st)"
    and "tnum_ok T \<Longrightarrow> state_has st v \<Longrightarrow> r_type (cur_reg st i) = SCALAR_VALUE \<Longrightarrow> r_type (cur_reg st j) = SCALAR_VALUE \<Longrightarrow>
      v (cur_place st i) = v (cur_place st j) \<Longrightarrow> state_has (verifier_reg_combine_min_max T i j st) v"
proof -
  from combine_effect [OF ij, of T] obtain r s where
    e: "verifier_reg_combine_min_max T i j st = set_cur_reg j s (set_cur_reg i r (set_cur_reg j (combined T (cur_reg st i) (cur_reg st j)
       (if i = j then combined T (cur_reg st i) (cur_reg st j) (cur_reg st i) else cur_reg st j)) (set_cur_reg i (combined T (cur_reg st i) (cur_reg st j) (cur_reg st i)) st)))"
    and h: "\<And>x. tnum_ok T \<Longrightarrow> reg_has (cur_reg st i) x \<Longrightarrow> reg_has (cur_reg st j) x \<Longrightarrow> reg_has r x \<and> reg_signs r \<and> reg_has s x \<and> reg_signs s"
    and t: "reg_tag r = reg_tag (cur_reg st i)" "reg_tag s = reg_tag (cur_reg st j)" by blast
  have l: "slot (verifier_reg_combine_min_max T i j st) l =
      (if l = cur_place st j then Some s else if l = cur_place st i then Some r else slot st l)" for l
    unfolding e using ij by (simp add: slot_set set_frame)
  show "same_slots st (verifier_reg_combine_min_max T i j st)"
    unfolding same_slots_def l using ij t by (simp add: slot_cur del: split_paired_All) (simp add: e set_frame)
  assume T: "tnum_ok T" and st: "state_has st v" and sc: "r_type (cur_reg st i) = SCALAR_VALUE" "r_type (cur_reg st j) = SCALAR_VALUE"
    and v: "v (cur_place st i) = v (cur_place st j)"
  have "reg_has r (v (cur_place st j)) \<and> reg_signs r \<and> reg_has s (v (cur_place st j)) \<and> reg_signs s"
    using h [OF T] state_hasD(1) [OF st ij(1) sc(1)] state_hasD(1) [OF st ij(2) sc(2)] v by simp
  then show "state_has (verifier_reg_combine_min_max T i j st) v"
    using st v unfolding state_has_def l by (metis option.inject)
qed
section \<open>The jump\<close>

definition operand_value :: "bpf_verifier_state \<Rightarrow> (place \<Rightarrow> u64) \<Rightarrow> bpf_operand \<Rightarrow> u64" where
  "operand_value st v operand = (case operand of BPF_K imm \<Rightarrow> scast imm | BPF_X src \<Rightarrow> v (cur_place st src))"

text \<open>The two states after a jump with the condition \<open>c\<close>, which have the registers of \<open>st\<close>.\<close>

definition ways_ok :: "bpf_verifier_state \<Rightarrow> (place \<Rightarrow> u64) \<Rightarrow> bool \<Rightarrow> bpf_verifier_state \<times> bpf_verifier_state \<Rightarrow> bool" where
  "ways_ok st v c = (\<lambda>(other, this).
     same_slots st other \<and> same_slots st this \<and> (c \<longrightarrow> state_has other v) \<and> (\<not> c \<longrightarrow> state_has this v))"

lemma ways_ok_refl: "state_has st v \<Longrightarrow> ways_ok st v c (st, st)"
  by (simp add: ways_ok_def)

lemma const_values:
  assumes T: "tnum_ok T" and y: "tnum_has a y"
  shows "tnum_is_const T a \<Longrightarrow> t_value a = y" "tnum_is_const T (tnum_subreg T a) \<Longrightarrow> t_value (tnum_subreg T a) = take_bit 32 y"
    "tnum_is_const T a \<Longrightarrow> t_value (tnum_subreg T a) = take_bit 32 y"
proof -
  note s = tnum_partsD(2) [OF T y]
  show "tnum_is_const T a \<Longrightarrow> t_value a = y" using tnum_testsD(1) [OF T y _ tnum_min [OF y]] .
  show "tnum_is_const T (tnum_subreg T a) \<Longrightarrow> t_value (tnum_subreg T a) = take_bit 32 y" using tnum_testsD(1) [OF T s _ tnum_min [OF s]] .
  from tnum_partsD(6) [OF T y tnum_min [OF s]] obtain p where p: "tnum_has a p" "t_value (tnum_subreg T a) = take_bit 32 p" by blast
  show "tnum_is_const T a \<Longrightarrow> t_value (tnum_subreg T a) = take_bit 32 y" using tnum_testsD(1) [OF T y _ p(1)] p(2) by simp
qed

theorem jmp_pred_ok:
  assumes T: "tnum_ok T" and st: "state_has st v" and d: "has_reg st dst" "r_type (cur_reg st dst) = SCALAR_VALUE"
    and src: "\<And>src. operand = BPF_X src \<Longrightarrow> has_reg st src"
  shows "jmp_pred T st opcode is_jmp32 dst operand = 1 \<Longrightarrow> bpf_jmp is_jmp32 opcode (v (cur_place st dst)) (operand_value st v operand)"
    "jmp_pred T st opcode is_jmp32 dst operand = 0 \<Longrightarrow> \<not> bpf_jmp is_jmp32 opcode (v (cur_place st dst)) (operand_value st v operand)"
proof -
  note B = branch_taken_ok [OF T d(2) state_hasD(1) [OF st d]]
  have *: "(jmp_pred T st opcode is_jmp32 dst operand = 1 \<longrightarrow> bpf_jmp is_jmp32 opcode (v (cur_place st dst)) (operand_value st v operand)) \<and>
      (jmp_pred T st opcode is_jmp32 dst operand = 0 \<longrightarrow> \<not> bpf_jmp is_jmp32 opcode (v (cur_place st dst)) (operand_value st v operand))"
  proof (cases operand)
    case (BPF_K imm)
    then show ?thesis using B [of "scast imm" opcode is_jmp32] by (simp add: jmp_pred_def operand_value_def)
  next
    case (BPF_X src)
    let ?a = "var_off (cur_reg st src)" and ?y = "v (cur_place st src)"
    have y: "tnum_has ?a ?y" if "r_type (cur_reg st src) = SCALAR_VALUE"
      using reg_hasD(1) [OF state_hasD(1) [OF st src [OF BPF_X] that]] .
    have j: "bpf_jmp True opcode x (take_bit 32 y) = bpf_jmp True opcode x y" for x y by (simp add: bpf_jmp_def)
    show ?thesis
      using BPF_X B [of "t_value (tnum_subreg T ?a)" opcode is_jmp32] B [of "t_value ?a" opcode is_jmp32]
        const_values(1,2) [OF T y] j [of "v (cur_place st dst)" ?y]
      by (cases is_jmp32) (auto simp: jmp_pred_def operand_value_def Let_def)
  qed
  then show "jmp_pred T st opcode is_jmp32 dst operand = 1 \<Longrightarrow> bpf_jmp is_jmp32 opcode (v (cur_place st dst)) (operand_value st v operand)"
    "jmp_pred T st opcode is_jmp32 dst operand = 0 \<Longrightarrow> \<not> bpf_jmp is_jmp32 opcode (v (cur_place st dst)) (operand_value st v operand)"
    by blast+
qed

lemma set_both_ok:
  assumes T: "tnum_ok T" and p: "pow2_ok pow2" and st: "state_has st v" and i: "has_reg st i" "r_type (cur_reg st i) = SCALAR_VALUE"
    and c: "c \<longleftrightarrow> (if is_jmp32 then bpf_jmp_word opcode (low (v (cur_place st i))) v32 else bpf_jmp_word opcode (v (cur_place st i)) w)"
  shows "ways_ok st v c (set_both i (reg_set_min_max T pow2 (cur_reg st i) (cur_reg st i) w v32 opcode is_jmp32) (st, st))"
proof -
  obtain t f where tf: "reg_set_min_max T pow2 (cur_reg st i) (cur_reg st i) w v32 opcode is_jmp32 = (t, f)" by (metis surj_pair)
  note h = state_hasD [OF st i]
  note ok = set_min_max_ok [OF T p i(2) tf h(2) h(2) c, OF h(1)]
  note shapes = tag_set_min_max [OF tf, THEN set_same_slots [OF i(1)]]
  show ?thesis using ok shapes set_state_has [OF i(1) st] by (simp add: ways_ok_def set_both_def tf)
qed

lemma set_both_inv_ok:
  assumes T: "tnum_ok T" and p: "pow2_ok pow2" and st: "state_has st v" and i: "has_reg st i" "r_type (cur_reg st i) = SCALAR_VALUE"
    and c: "c \<longleftrightarrow> (if is_jmp32 then bpf_jmp_word opcode v32 (low (v (cur_place st i))) else bpf_jmp_word opcode w (v (cur_place st i)))"
  shows "ways_ok st v c (set_both i (reg_set_min_max_inv T pow2 (cur_reg st i) (cur_reg st i) w v32 opcode is_jmp32) (st, st))"
proof (cases "opcode_flip opcode")
  case None
  have "set_cur_reg i (cur_reg st i) st = st" using i(1) by (simp add: set_cur_reg_def cur_reg_def has_reg_def)
  then show ?thesis using ways_ok_refl [OF st] None by (simp add: reg_set_min_max_inv_def set_both_def)
next
  case (Some flipped)
  have "ways_ok st v c (set_both i (reg_set_min_max T pow2 (cur_reg st i) (cur_reg st i) w v32 flipped is_jmp32) (st, st))"
    by (rule set_both_ok [OF T p st i]) (simp add: c jmp_flip [OF Some])
  then show ?thesis by (simp add: reg_set_min_max_inv_def Some)
qed

lemma jmp_refine_regs_ok:
  assumes T: "tnum_ok T" and p: "pow2_ok pow2" and st: "state_has st v"
    and d: "has_reg st dst" "r_type (cur_reg st dst) = SCALAR_VALUE" and s: "has_reg st src" "r_type (cur_reg st src) = SCALAR_VALUE"
  shows "ways_ok st v (bpf_jmp is_jmp32 opcode (v (cur_place st dst)) (v (cur_place st src))) (jmp_refine_regs T pow2 st opcode is_jmp32 dst src)"
proof -
  let ?x = "v (cur_place st dst)" and ?y = "v (cur_place st src)" and ?a = "var_off (cur_reg st dst)" and ?b = "var_off (cur_reg st src)"
  note X = const_values [OF T reg_hasD(1) [OF state_hasD(1) [OF st d]]] and Y = const_values [OF T reg_hasD(1) [OF state_hasD(1) [OF st s]]]
  consider (src) "tnum_is_const T ?b \<or> is_jmp32 \<and> tnum_is_const T (tnum_subreg T ?b)"
    | (dst) "\<not> (tnum_is_const T ?b \<or> is_jmp32 \<and> tnum_is_const T (tnum_subreg T ?b))" "tnum_is_const T ?a \<or> is_jmp32 \<and> tnum_is_const T (tnum_subreg T ?a)"
    | (none) "\<not> (tnum_is_const T ?b \<or> is_jmp32 \<and> tnum_is_const T (tnum_subreg T ?b))" "\<not> (tnum_is_const T ?a \<or> is_jmp32 \<and> tnum_is_const T (tnum_subreg T ?a))"
    by blast
  then show ?thesis
  proof cases
    case src
    have "bpf_jmp is_jmp32 opcode ?x ?y \<longleftrightarrow> (if is_jmp32 then bpf_jmp_word opcode (low ?x) (low (t_value (tnum_subreg T ?b))) else bpf_jmp_word opcode ?x (t_value ?b))"
      using src Y by (auto simp: bpf_jmp_def)
    from set_both_ok [OF T p st d this] show ?thesis using src by (simp add: jmp_refine_regs_def Let_def)
  next
    case dst
    have "bpf_jmp is_jmp32 opcode ?x ?y \<longleftrightarrow> (if is_jmp32 then bpf_jmp_word opcode (low (t_value (tnum_subreg T ?a))) (low ?y) else bpf_jmp_word opcode (t_value ?a) ?y)"
      using dst X by (auto simp: bpf_jmp_def)
    from set_both_inv_ok [OF T p st s this] show ?thesis unfolding jmp_refine_regs_def Let_def if_not_P [OF dst(1)] if_P [OF dst(2)] .
  next
    case none
    note C = combine_ok [OF s(1) d(1), of T]
    have "ways_ok st v (bpf_jmp False opcode ?x ?y) (reg_combine_min_max T src dst opcode (st, st))"
      using C(1) C(2) [OF T st s(2) d(2)] st by (cases opcode) (auto simp: reg_combine_min_max_def ways_ok_def bpf_jmp_def bpf_jmp_word_def)
    then show ?thesis
      unfolding jmp_refine_regs_def Let_def if_not_P [OF none(1)] if_not_P [OF none(2)] using ways_ok_refl [OF st] by auto
  qed
qed

lemma shape_regs:
  assumes "same_slots st st'" and "has_reg st i" and "st' \<noteq> []"
  shows "has_reg st' i" "cur_place st' i = cur_place st i" "reg_tag (cur_reg st' i) = reg_tag (cur_reg st i)"
proof -
  have p: "cur_place st' i = cur_place st i" using assms(1) by (simp add: same_slots_def cur_place_def)
  then show "cur_place st' i = cur_place st i" .
  have m: "map_option reg_tag (slot st' (cur_place st' i)) = Some (reg_tag (cur_reg st i))"
    using assms(1) slot_cur [OF assms(2)] unfolding same_slots_def p by (metis option.map(2))
  then show h: "has_reg st' i" using assms(3) by (auto simp: slot_def cur_place_def has_reg_def last_conv_nth split: if_splits)
  show "reg_tag (cur_reg st' i) = reg_tag (cur_reg st i)" using m slot_cur [OF h] by simp
qed

lemma find_equal_both_ok:
  assumes w: "ways_ok st v c (other, this)" and ids: "ids_agree st v" and i: "has_reg st i" "r_type (cur_reg st i) = SCALAR_VALUE"
  shows "ways_ok st v c (find_equal_both i (other, this))"
proof -
  have sh: "same_slots st other" "same_slots st this" using w by (simp_all add: ways_ok_def)
  have ne: "other \<noteq> []" "this \<noteq> []" using sh i(1) by (auto simp: same_slots_def has_reg_def)
  note O = shape_regs [OF sh(1) i(1) ne(1)] and H = shape_regs [OF sh(2) i(1) ne(2)]
  have ty: "r_type (cur_reg other i) = SCALAR_VALUE" "r_type (cur_reg this i) = SCALAR_VALUE" using O(3) H(3) i(2) tag_scalar by blast+
  note find_equal_shape [OF ty(1), of other] find_equal_shape [OF ty(2), of this]
  note shapes = same_slots_trans [OF sh(1) this(1)] same_slots_trans [OF sh(2) this(2)]
  note find = find_equal_has [OF _ same_slots_ids [OF sh(1) ids] O(1) ty(1)] find_equal_has [OF _ same_slots_ids [OF sh(2) ids] H(1) ty(2)]
  show ?thesis using w shapes find by (auto simp: ways_ok_def find_equal_both_def)
qed

theorem jmp_branches_ok:
  assumes T: "tnum_ok T" and p: "pow2_ok pow2" and st: "state_has st v" and ids: "ids_agree st v" and d: "has_reg st dst"
    and src: "\<And>src. operand = BPF_X src \<Longrightarrow> has_reg st src"
  shows "ways_ok st v (bpf_jmp is_jmp32 opcode (v (cur_place st dst)) (operand_value st v operand)) (jmp_branches T pow2 st opcode is_jmp32 dst operand)"
proof -
  let ?c = "bpf_jmp is_jmp32 opcode (v (cur_place st dst)) (operand_value st v operand)"
  define first where "first =
      (case operand of
         BPF_X src \<Rightarrow>
           if r_type (cur_reg st dst) = SCALAR_VALUE \<and> r_type (cur_reg st src) = SCALAR_VALUE
           then find_equal_both src (jmp_refine_regs T pow2 st opcode is_jmp32 dst src) else (st, st)
       | BPF_K imm \<Rightarrow>
           if r_type (cur_reg st dst) = SCALAR_VALUE
           then set_both dst (reg_set_min_max T pow2 (cur_reg st dst) (cur_reg st dst) (scast imm) imm opcode is_jmp32) (st, st)
           else (st, st))"
  have w: "ways_ok st v ?c first"
  proof (cases operand)
    case (BPF_K imm)
    have c: "?c \<longleftrightarrow> (if is_jmp32 then bpf_jmp_word opcode (low (v (cur_place st dst))) imm else bpf_jmp_word opcode (v (cur_place st dst)) (scast imm))"
      by (simp add: BPF_K operand_value_def bpf_jmp_def low_scast)
    show ?thesis
    proof (cases "r_type (cur_reg st dst) = SCALAR_VALUE")
      case True
      from set_both_ok [OF T p st d this c] show ?thesis unfolding first_def BPF_K bpf_operand.case if_P [OF True] .
    next
      case False
      then show ?thesis using ways_ok_refl [OF st] by (simp add: first_def BPF_K)
    qed
  next
    case (BPF_X src)
    obtain other this where o: "jmp_refine_regs T pow2 st opcode is_jmp32 dst src = (other, this)" by (metis surj_pair)
    show ?thesis
      using find_equal_both_ok [OF jmp_refine_regs_ok [OF T p st d _ assms(6) [OF BPF_X], of is_jmp32 opcode, unfolded o] ids assms(6) [OF BPF_X]]
        ways_ok_refl [OF st] BPF_X
      by (simp add: first_def operand_value_def o)
  qed
  obtain other this where f: "first = (other, this)" by (metis surj_pair)
  have jb: "jmp_branches T pow2 st opcode is_jmp32 dst operand =
      (if r_type (cur_reg this dst) = SCALAR_VALUE then find_equal_both dst first else first)"
    unfolding jmp_branches_def Let_def first_def [symmetric] by (simp add: f)
  have sh: "same_slots st this" using w by (simp add: f ways_ok_def)
  moreover have "this \<noteq> []" using sh d by (auto simp: same_slots_def has_reg_def)
  ultimately have "r_type (cur_reg this dst) = r_type (cur_reg st dst)" using shape_regs(3) [OF _ d] by (simp add: reg_tag_def)
  then show ?thesis using w find_equal_both_ok [OF w [unfolded f] ids d] unfolding jb f by simp
qed

end
