(* ===== verification/Bpf_Step.thy ===== *)
theory Bpf_Step
  imports Bpf_Jump
begin

text \<open>
  Arithmetic instructions and moves on the registers of a state (\<open>check_alu_op\<close> and \<open>adjust_reg_min_max_vals\<close> of
  \<open>kernel/bpf/verifier.c\<close>, for scalars), and runs: whatever a machine computes along a sequence of these instructions and
  conditional jumps, the verifier has a state that describes it.
\<close>

section \<open>Moves and arithmetic\<close>

text \<open>The part of \<open>struct bpf_verifier_env\<close> that is used here.\<close>

record bpf_env =
  cur_state :: bpf_verifier_state
  id_gen :: u32

definition check_mov :: "tnum_lib \<Rightarrow> bool \<Rightarrow> bool \<Rightarrow> bool \<Rightarrow> nat \<Rightarrow> bpf_operand \<Rightarrow> bpf_env \<Rightarrow> int \<times> bpf_env" where
  "check_mov T prec allow_ptr_leaks alu32 dst operand env =
     (let st = cur_state env in
      case operand of
        BPF_X src \<Rightarrow>
          let src_reg = cur_reg st src in
          if \<not> alu32
          then let fresh = (r_type src_reg = SCALAR_VALUE \<and> r_id src_reg = 0);
                   new_id = (if fresh then id_gen env + 1 else id_gen env);
                   s = (if fresh then src_reg\<lparr>r_id := new_id\<rparr> else src_reg)
               in (0, env\<lparr>cur_state := set_cur_reg dst s (set_cur_reg src s st), id_gen := new_id\<rparr>)
          else if verifier_is_pointer_value allow_ptr_leaks src_reg then (- 13, env)
          else let d = (if r_type src_reg = SCALAR_VALUE then src_reg\<lparr>r_id := 0\<rparr> else mark_reg_unknown T prec (cur_reg st dst))
               in (0, env\<lparr>cur_state := set_cur_reg dst (reg_bounds_sync T (zext_32_to_64 T d)) st\<rparr>)
      | BPF_K imm \<Rightarrow>
          let d = (mark_reg_unknown T prec (cur_reg st dst))\<lparr>r_type := SCALAR_VALUE\<rparr>
          in (0, env\<lparr>cur_state := set_cur_reg dst (verifier_mark_reg_known T (if alu32 then ucast imm else scast imm) d) st\<rparr>))"

text \<open>The operand of an instruction with a constant: \<open>off_reg\<close>, which starts with zeros.\<close>

definition off_reg :: "tnum_lib \<Rightarrow> u32 \<Rightarrow> bpf_reg_state" where
  "off_reg T imm = verifier_mark_reg_known T (scast imm)
     \<lparr>r_type = SCALAR_VALUE, r_off = 0, r_raw = 0, r_id = 0, var_off = \<lparr>t_value = 0, t_mask = 0\<rparr>, smin_value = 0, smax_value = 0,
      umin_value = 0, umax_value = 0, s32_min_value = 0, s32_max_value = 0, u32_min_value = 0, u32_max_value = 0, frameno = 0,
      precise = False\<rparr>"

text \<open>No result where an operand is a pointer: \<open>adjust_ptr_min_max_vals\<close> is not part of the model.\<close>

definition adjust_reg_min_max_vals ::
    "tnum_lib \<Rightarrow> bool \<Rightarrow> int \<Rightarrow> bool \<Rightarrow> bpf_op \<Rightarrow> nat \<Rightarrow> bpf_operand \<Rightarrow> bpf_env \<Rightarrow> (int \<times> bpf_env) option" where
  "adjust_reg_min_max_vals T prec sanitize alu32 opcode dst operand env =
     (let st = cur_state env; dst_reg = cur_reg st dst in
      if r_type dst_reg \<noteq> SCALAR_VALUE then None
      else
        let st1 = set_cur_reg dst (dst_reg\<lparr>r_id := 0\<rparr>) st;
            src_reg = (case operand of BPF_X src \<Rightarrow> cur_reg st1 src | BPF_K imm \<Rightarrow> off_reg T imm)
        in if r_type src_reg \<noteq> SCALAR_VALUE then None
           else let (ret, d) = adjust_scalar_min_max_vals T prec sanitize alu32 opcode (cur_reg st1 dst) src_reg
                in Some (ret, env\<lparr>cur_state := set_cur_reg dst d st1\<rparr>))"

definition check_alu ::
    "tnum_lib \<Rightarrow> bool \<Rightarrow> int \<Rightarrow> bool \<Rightarrow> bpf_op \<Rightarrow> nat \<Rightarrow> bpf_operand \<Rightarrow> bpf_env \<Rightarrow> (int \<times> bpf_env) option" where
  "check_alu T prec sanitize alu32 opcode dst operand env =
     (case operand of
        BPF_K imm \<Rightarrow>
          if (opcode = BPF_MOD \<or> opcode = BPF_DIV) \<and> imm = 0 then Some (- 22, env)
          else if (opcode = BPF_LSH \<or> opcode = BPF_RSH \<or> opcode = BPF_ARSH) \<and> (sint imm < 0 \<or> sint imm \<ge> (if alu32 then 32 else 64))
          then Some (- 22, env)
          else adjust_reg_min_max_vals T prec sanitize alu32 opcode dst operand env
      | BPF_X src \<Rightarrow> adjust_reg_min_max_vals T prec sanitize alu32 opcode dst operand env)"

text \<open>
  What other parts of the verifier answer: the marking of registers as precise for the two operands (an error or 0), the
  permission to leave out speculative paths, whether they and the other branch could be queued, and the check of an
  arithmetic instruction against speculative execution.  None of them changes what is known of scalars.
\<close>

record bpf_answers =
  ans_precise_dst :: int
  ans_precise_src :: int
  ans_bypass_spec_v1 :: bool
  ans_speculative :: bool
  ans_push_stack :: bool
  ans_sanitize :: int

text \<open>A conditional jump with a scalar on the left: an error, or the ways that are explored, with the state on each.\<close>

definition check_cond_jmp ::
    "tnum_lib \<Rightarrow> (u64 \<Rightarrow> bool) \<Rightarrow> bpf_answers \<Rightarrow> bool \<Rightarrow> bpf_jmp_op \<Rightarrow> nat \<Rightarrow> bpf_operand \<Rightarrow> bpf_env \<Rightarrow> int + (bool \<times> bpf_env) list" where
  "check_cond_jmp T pow2 ans is_jmp32 opcode dst operand env =
     (let pred = jmp_pred T (cur_state env) opcode is_jmp32 dst operand;
          e = (if verifier_is_pointer_value False (cur_reg (cur_state env) dst) then 0 else ans_precise_dst ans);
          err = (case operand of BPF_X _ \<Rightarrow> if e = 0 then ans_precise_src ans else e | BPF_K _ \<Rightarrow> e)
      in if pred \<ge> 0 \<and> err \<noteq> 0 then Inl err
         else if pred = 1
         then if \<not> ans_bypass_spec_v1 ans \<and> \<not> ans_speculative ans then Inl (- 14) else Inr [(True, env)]
         else if pred = 0
         then if \<not> ans_bypass_spec_v1 ans \<and> \<not> ans_speculative ans then Inl (- 14) else Inr [(False, env)]
         else if \<not> ans_push_stack ans then Inl (- 14)
         else let (other, this) = jmp_branches T pow2 (cur_state env) opcode is_jmp32 dst operand
              in Inr [(True, env\<lparr>cur_state := other\<rparr>), (False, env\<lparr>cur_state := this\<rparr>)])"

section \<open>What the verifier knows of a machine\<close>

text \<open>Identifiers that are handed out from now on are new.\<close>

definition describes :: "bpf_env \<Rightarrow> (place \<Rightarrow> u64) \<Rightarrow> bool" where
  "describes env v \<longleftrightarrow>
     state_has (cur_state env) v \<and> ids_agree (cur_state env) v \<and> (\<forall>l r. slot (cur_state env) l = Some r \<longrightarrow> r_id r \<le> id_gen env)"

text \<open>One register gets a new value and a state without identifier.\<close>

lemma describes_write:
  assumes d: "describes env v" and i: "has_reg (cur_state env) i" and r: "r_id r = 0" "reg_has r x" "reg_signs r"
  shows "describes (env\<lparr>cur_state := set_cur_reg i r (cur_state env)\<rparr>) (v(cur_place (cur_state env) i := x))"
proof -
  let ?st = "cur_state env" and ?v = "v(cur_place (cur_state env) i := x)"
  let ?st' = "set_cur_reg i r ?st"
  have h: "state_has ?st v" and a: "ids_agree ?st v" and b: "\<And>l r. slot ?st l = Some r \<Longrightarrow> r_id r \<le> id_gen env"
    using d unfolding describes_def by blast+
  have "state_has ?st' ?v" using h r(2,3) unfolding state_has_def slot_set [OF i] by (metis fun_upd_apply option.inject)
  moreover have "ids_agree ?st' ?v"
    using a r(1) unfolding ids_agree_def slot_set [OF i] by (metis fun_upd_apply option.inject)
  moreover have "r_id r' \<le> id_gen env" if "slot ?st' l = Some r'" for l r'
    using that b [of l r'] r(1) by (auto simp: slot_set [OF i] split: if_splits)
  ultimately show ?thesis by (simp add: describes_def)
qed

lemma known_signs: "tnum_ok T \<Longrightarrow> reg_signs (verifier_mark_reg_known T c r)"
  by (simp add: reg_signs_def verifier_mark_reg_known_def verifier2_mark_reg_known_def tnum_rangesD(2))

lemma off_reg_ok:
  assumes "tnum_ok T"
  shows "reg_has (off_reg T imm) (scast imm)" "reg_signs (off_reg T imm)" "r_type (off_reg T imm) = SCALAR_VALUE"
  using known_has(1) [OF assms] known_signs [OF assms]
  by (simp_all add: off_reg_def) (simp add: verifier_mark_reg_known_def verifier2_mark_reg_known_def)
section \<open>Steps\<close>

lemma tag_arith [simp]:
  "reg_tag (scalar32_min_max_add d s) = reg_tag d" "reg_tag (scalar_min_max_add d s) = reg_tag d"
  "reg_tag (scalar32_min_max_sub d s) = reg_tag d" "reg_tag (scalar_min_max_sub d s) = reg_tag d"
  "reg_tag (scalar32_min_max_mul d s) = reg_tag d" "reg_tag (scalar_min_max_mul d s) = reg_tag d"
  "reg_tag (scalar32_min_max_and T d s) = reg_tag d" "reg_tag (scalar32_min_max_or T d s) = reg_tag d" "reg_tag (scalar32_min_max_xor T d s) = reg_tag d"
  "reg_tag (scalar32_min_max_lsh_bounds d a b) = reg_tag d" "reg_tag (scalar64_min_max_lsh_bounds d a b) = reg_tag d"
  "reg_tag (scalar32_min_max_lsh T d s) = reg_tag d" "reg_tag (scalar_min_max_lsh T d s) = reg_tag d"
  "reg_tag (scalar32_min_max_rsh T d s) = reg_tag d" "reg_tag (scalar_min_max_rsh T d s) = reg_tag d"
  "reg_tag (scalar32_min_max_arsh T d s) = reg_tag d" "reg_tag (scalar_min_max_arsh T d s) = reg_tag d"
  by (simp_all add: Let_def verifier_update_reg_bounds_def scalar32_min_max_add_def scalar_min_max_add_def scalar32_min_max_sub_def
      scalar_min_max_sub_def scalar32_min_max_mul_def scalar_min_max_mul_def scalar32_min_max_and_def scalar32_min_max_or_def
      scalar32_min_max_xor_def scalar32_min_max_lsh_bounds_def scalar64_min_max_lsh_bounds_def scalar32_min_max_lsh_def
      scalar_min_max_lsh_def scalar32_min_max_rsh_def scalar_min_max_rsh_def scalar32_min_max_arsh_def scalar_min_max_arsh_def)

lemma tag_known: "reg_tag (verifier_mark_reg_known T c d) = (r_type d, 0)" "reg_tag (mark_reg_unknown T prec d) = (SCALAR_VALUE, 0)"
  by (simp_all add: reg_tag_def verifier_mark_reg_known_def verifier2_mark_reg_known_def mark_reg_unknown_def verifier_mark_reg_unbounded_def)

lemma tag_bits:
  assumes "reg_tag d = (SCALAR_VALUE, 0)"
  shows "reg_tag (scalar_min_max_and T d s) = (SCALAR_VALUE, 0)" "reg_tag (scalar_min_max_or T d s) = (SCALAR_VALUE, 0)"
    "reg_tag (scalar_min_max_xor T d s) = (SCALAR_VALUE, 0)"
proof -
  have "r_type d = SCALAR_VALUE" using assms by (simp add: reg_tag_def)
  then show "reg_tag (scalar_min_max_and T d s) = (SCALAR_VALUE, 0)" "reg_tag (scalar_min_max_or T d s) = (SCALAR_VALUE, 0)"
    "reg_tag (scalar_min_max_xor T d s) = (SCALAR_VALUE, 0)"
    using assms by (simp_all add: scalar_min_max_and_def scalar_min_max_or_def scalar_min_max_xor_def tag_known verifier_update_reg_bounds_def Let_def)
qed

lemma tag_scalar_alu:
  assumes "reg_tag d = (SCALAR_VALUE, 0)"
  shows "reg_tag (scalar_alu T prec alu32 opcode d s) = (SCALAR_VALUE, 0)"
  using assms by (cases opcode) (simp_all add: scalar_alu_def Let_def tag_known tag_bits)

lemma tag_adjust:
  assumes "reg_tag d = (SCALAR_VALUE, 0)" and "adjust_scalar_min_max_vals T prec sanitize alu32 opcode d s = (ret, d')"
  shows "reg_tag d' = (SCALAR_VALUE, 0)"
  using assms tag_scalar_alu [OF assms(1), of T prec alu32 opcode s]
  by (auto simp: adjust_scalar_min_max_vals_def Let_def tag_known zext_32_to_64_def split: if_splits)

lemma id_irrelevant [simp]: "reg_has (r\<lparr>r_id := k\<rparr>) x = reg_has r x" "reg_signs (r\<lparr>r_id := k\<rparr>) = reg_signs r"
  "reg_has (r\<lparr>r_type := t\<rparr>) x = reg_has r x" "reg_signs (r\<lparr>r_type := t\<rparr>) = reg_signs r"
  by (simp_all add: reg_has_def reg_signs_def)

lemma operand_has:
  assumes T: "tnum_ok T" and st: "state_has st v" and s: "\<And>src. operand = BPF_X src \<Longrightarrow> has_reg st src"
    and ty: "r_type (case operand of BPF_X src \<Rightarrow> cur_reg st src | BPF_K imm \<Rightarrow> off_reg T imm) = SCALAR_VALUE"
  shows "reg_has (case operand of BPF_X src \<Rightarrow> cur_reg st src | BPF_K imm \<Rightarrow> off_reg T imm) (operand_value st v operand)"
    "reg_signs (case operand of BPF_X src \<Rightarrow> cur_reg st src | BPF_K imm \<Rightarrow> off_reg T imm)"
  using state_hasD [OF st s] off_reg_ok [OF T] ty by (auto simp: operand_value_def split: bpf_operand.splits)

theorem adjust_reg_ok:
  assumes T: "tnum_ok T" and e: "describes env v" and d: "has_reg (cur_state env) dst"
    and s: "\<And>src. operand = BPF_X src \<Longrightarrow> has_reg (cur_state env) src"
    and r: "adjust_reg_min_max_vals T prec sanitize alu32 opcode dst operand env = Some (0, env')"
  shows "describes env' (v(cur_place (cur_state env) dst := bpf_alu alu32 opcode (v (cur_place (cur_state env) dst)) (operand_value (cur_state env) v operand)))"
proof -
  let ?st = "cur_state env" and ?r = "cur_reg (cur_state env) dst"
  let ?st1 = "set_cur_reg dst (?r\<lparr>r_id := 0\<rparr>) ?st"
  let ?src = "case operand of BPF_X src \<Rightarrow> cur_reg ?st1 src | BPF_K imm \<Rightarrow> off_reg T imm"
  from r obtain d' where ty: "r_type ?r = SCALAR_VALUE" "r_type ?src = SCALAR_VALUE"
    and a: "adjust_scalar_min_max_vals T prec sanitize alu32 opcode (cur_reg ?st1 dst) ?src = (0, d')"
    and env': "env' = env\<lparr>cur_state := set_cur_reg dst d' ?st1\<rparr>"
    unfolding adjust_reg_min_max_vals_def Let_def by (auto split: if_splits prod.splits)
  have st: "state_has ?st v" using e by (simp add: describes_def)
  note h = state_hasD [OF st d ty(1)]
  have e1: "describes (env\<lparr>cur_state := ?st1\<rparr>) v"
    using describes_write [OF e d, of "?r\<lparr>r_id := 0\<rparr>" "v (cur_place ?st dst)"] h by simp
  have s1: "\<And>src. operand = BPF_X src \<Longrightarrow> has_reg ?st1 src" using s by (simp add: set_frame [OF d])
  have st1: "state_has ?st1 v" using e1 by (simp add: describes_def)
  have y: "operand_value ?st1 v operand = operand_value ?st v operand"
    by (simp add: operand_value_def set_frame [OF d] split: bpf_operand.split)
  note o = operand_has [OF T st1 s1 ty(2), unfolded y]
  have c: "cur_reg ?st1 dst = ?r\<lparr>r_id := 0\<rparr>" by (simp add: set_frame [OF d])
  have dst: "reg_has (cur_reg ?st1 dst) (v (cur_place ?st dst))" "reg_signs (cur_reg ?st1 dst)" unfolding c using h by simp_all
  note ok = adjust_scalar_ok [OF T dst(1) o(1) dst(2) o(2) a]
  have "reg_tag d' = (SCALAR_VALUE, 0)" by (rule tag_adjust [OF _ a]) (simp add: c reg_tag_def ty)
  then have "r_id d' = 0" by (simp add: reg_tag_def)
  moreover have "has_reg (cur_state (env\<lparr>cur_state := ?st1\<rparr>)) dst" using d by (simp add: set_frame [OF d])
  ultimately show ?thesis using describes_write [OF e1 _ _ ok [THEN conjunct1] ok [THEN conjunct2]] by (simp add: env' set_frame [OF d])
qed
theorem check_alu_ok:
  assumes T: "tnum_ok T" and e: "describes env v" and d: "has_reg (cur_state env) dst"
    and s: "\<And>src. operand = BPF_X src \<Longrightarrow> has_reg (cur_state env) src"
    and r: "check_alu T prec sanitize alu32 opcode dst operand env = Some (0, env')"
  shows "describes env' (v(cur_place (cur_state env) dst := bpf_alu alu32 opcode (v (cur_place (cur_state env) dst)) (operand_value (cur_state env) v operand)))"
proof -
  have "adjust_reg_min_max_vals T prec sanitize alu32 opcode dst operand env = Some (0, env')"
    using r by (auto simp: check_alu_def split: bpf_operand.splits if_splits)
  from adjust_reg_ok [OF T e d s this] show ?thesis .
qed

text \<open>A move between registers makes both copies of one scalar.\<close>

lemma describes_copy:
  assumes e: "describes env v" and d: "has_reg (cur_state env) dst" and s: "has_reg (cur_state env) src"
    and q: "q = cur_reg (cur_state env) src" and gen: "id_gen env < 0xFFFFFFFF"
    and f: "fresh \<longleftrightarrow> r_type q = SCALAR_VALUE \<and> r_id q = 0" and k: "k = (if fresh then id_gen env + 1 else id_gen env)"
    and q': "q' = (if fresh then q\<lparr>r_id := k\<rparr> else q)"
  shows "describes (env\<lparr>cur_state := set_cur_reg dst q' (set_cur_reg src q' (cur_state env)), id_gen := k\<rparr>)
     (v(cur_place (cur_state env) dst := v (cur_place (cur_state env) src)))"
proof -
  let ?st = "cur_state env" and ?a = "cur_place (cur_state env) dst" and ?b = "cur_place (cur_state env) src"
  let ?st' = "set_cur_reg dst q' (set_cur_reg src q' ?st)" and ?v = "v(?a := v ?b)"
  have l: "slot ?st' l = (if l = ?a \<or> l = ?b then Some q' else slot ?st l)" for l
    using d s by (simp add: slot_set set_frame)
  have bq: "slot ?st ?b = Some q" using slot_cur [OF s] q by simp
  have vb: "?v l = v ?b" if "l = ?a \<or> l = ?b" for l using that by auto
  have vo: "?v l = v l" if "\<not> (l = ?a \<or> l = ?b)" for l using that by auto
  have ids: "r_id r \<le> id_gen env" if "slot ?st l = Some r" for l r using e that unfolding describes_def by blast
  have "unat (id_gen env) + unat (1 :: u32) < 2 ^ LENGTH(32)" using gen by (simp add: word_less_nat_alt)
  then have "unat (id_gen env + 1) = unat (id_gen env) + unat (1 :: u32)" by (rule unat_add_lem [THEN iffD1])
  then have up: "id_gen env < k" if fresh using that by (simp add: k word_less_nat_alt)
  have new: "r_id r \<noteq> k" if fresh "slot ?st l = Some r" for l r using up [OF that(1)] ids [OF that(2)] by auto
  have q'f: "r_type q' = r_type q" "r_id q' = (if fresh then k else r_id q)" "reg_has q' x = reg_has q x" "reg_signs q' = reg_signs q" for x
    by (simp_all add: q')
  have h: "state_has ?st v" and ag: "ids_agree ?st v" using e unfolding describes_def by blast+
  have "state_has ?st' ?v"
    unfolding state_has_def
  proof (intro allI impI)
    fix l r assume lr: "slot ?st' l = Some r" "r_type r = SCALAR_VALUE"
    show "reg_has r (?v l) \<and> reg_signs r"
    proof (cases "l = ?a \<or> l = ?b")
      case True
      then have r: "r = q'" using lr(1) l by simp
      then have "r_type q = SCALAR_VALUE" using lr(2) q'f(1) by simp
      then have "reg_has q (v ?b) \<and> reg_signs q" using h bq unfolding state_has_def by blast
      then show ?thesis unfolding vb [OF True] r q'f(3,4) .
    next
      case False
      then have "slot ?st l = Some r" using lr(1) l by simp
      then show ?thesis using h lr(2) unfolding vo [OF False] state_has_def by blast
    qed
  qed
  moreover have "ids_agree ?st' ?v"
    unfolding ids_agree_def
  proof (intro allI impI)
    fix l m r t
    assume lr: "slot ?st' l = Some r" "r_type r = SCALAR_VALUE" and mt: "slot ?st' m = Some t" "r_type t = SCALAR_VALUE"
      and id: "r_id r \<noteq> 0" "r_id r = r_id t"
    have old: "v ?b = v n" if "\<not> (n = ?a \<or> n = ?b)" "slot ?st' n = Some u" "r_type u = SCALAR_VALUE" "r_id q' = r_id u" "r_type q' = SCALAR_VALUE" "r_id u \<noteq> 0" for n u
    proof -
      have u: "slot ?st n = Some u" using that(1,2) l by simp
      have "\<not> fresh" using new [OF _ u] that(4) q'f(2) by auto
      then show ?thesis using ag bq u that(3-6) q'f(1,2) unfolding ids_agree_def by (metis (full_types))
    qed
    show "?v l = ?v m"
    proof (cases "l = ?a \<or> l = ?b"; cases "m = ?a \<or> m = ?b")
      assume A: "l = ?a \<or> l = ?b" "m = ?a \<or> m = ?b"
      then show ?thesis by auto
    next
      assume A: "l = ?a \<or> l = ?b" "\<not> (m = ?a \<or> m = ?b)"
      then have "r = q'" using lr(1) l by simp
      then show ?thesis using old [OF A(2) mt] id lr(2) unfolding vb [OF A(1)] vo [OF A(2)] by simp
    next
      assume A: "\<not> (l = ?a \<or> l = ?b)" "m = ?a \<or> m = ?b"
      then have "t = q'" using mt(1) l by simp
      then show ?thesis using old [OF A(1) lr] id mt(2) unfolding vb [OF A(2)] vo [OF A(1)] by simp
    next
      assume A: "\<not> (l = ?a \<or> l = ?b)" "\<not> (m = ?a \<or> m = ?b)"
      then have "slot ?st l = Some r" "slot ?st m = Some t" using lr(1) mt(1) l by simp_all
      then show ?thesis using ag lr(2) mt(2) id unfolding vo [OF A(1)] vo [OF A(2)] ids_agree_def by blast
    qed
  qed
  moreover have "r_id r \<le> k" if "slot ?st' l = Some r" for l r
    using that l ids [of l r] ids [OF bq] up q'f(2) k by (cases "l = ?a \<or> l = ?b") (auto split: if_splits)
  ultimately show ?thesis unfolding describes_def by simp
qed

theorem check_mov_ok:
  assumes T: "tnum_ok T" and e: "describes env v" and d: "has_reg (cur_state env) dst" and gen: "id_gen env < 0xFFFFFFFF"
    and s: "\<And>src. operand = BPF_X src \<Longrightarrow> has_reg (cur_state env) src"
    and r: "check_mov T prec allow_ptr_leaks alu32 dst operand env = (0, env')"
  shows "describes env' (v(cur_place (cur_state env) dst :=
     (if alu32 then ucast (low (operand_value (cur_state env) v operand)) else operand_value (cur_state env) v operand)))"
proof (cases operand)
  case (BPF_K imm)
  let ?d = "(mark_reg_unknown T prec (cur_reg (cur_state env) dst))\<lparr>r_type := SCALAR_VALUE\<rparr>"
  have tag: "r_id (verifier_mark_reg_known T c ?d) = 0" for c using tag_known(1) by (simp add: reg_tag_def)
  have env': "env' = env\<lparr>cur_state := set_cur_reg dst (verifier_mark_reg_known T (if alu32 then ucast imm else scast imm) ?d) (cur_state env)\<rparr>"
    using r by (simp add: check_mov_def BPF_K Let_def)
  show ?thesis unfolding env'
    using describes_write [OF e d tag known_has(1) [OF T] known_signs [OF T]] by (simp add: BPF_K operand_value_def low_scast)
next
  case (BPF_X src)
  let ?q = "cur_reg (cur_state env) src"
  show ?thesis
  proof (cases alu32)
    case False
    show ?thesis
      using describes_copy [OF e d s [OF BPF_X] refl gen refl refl refl] r False
      by (simp add: BPF_X check_mov_def Let_def operand_value_def)
  next
    case True
    let ?d = "if r_type ?q = SCALAR_VALUE then ?q\<lparr>r_id := 0\<rparr> else mark_reg_unknown T prec (cur_reg (cur_state env) dst)"
    have env': "env' = env\<lparr>cur_state := set_cur_reg dst (reg_bounds_sync T (zext_32_to_64 T ?d)) (cur_state env)\<rparr>"
      using r True by (auto simp: BPF_X check_mov_def Let_def split: if_splits)
    have st: "state_has (cur_state env) v" using e by (simp add: describes_def)
    have "reg_has ?d (v (cur_place (cur_state env) src))" using state_hasD(1) [OF st s [OF BPF_X]] unknown_has [OF T] by simp
    note z = zext_has [OF T this]
    have "snd (reg_tag ?d) = 0" using tag_known(2) [of T prec] by (auto simp: reg_tag_def)
    then have "r_id (reg_bounds_sync T (zext_32_to_64 T ?d)) = 0"
      using tag_sync [of T "zext_32_to_64 T ?d"] tag_exchange(8) [of "?d\<lparr>var_off := tnum_subreg T (var_off ?d)\<rparr>"]
      unfolding zext_32_to_64_def reg_tag_def by simp
    from describes_write [OF e d this sync_has [OF T z] sync_signs [OF T z]] show ?thesis
      unfolding env' by (simp add: True BPF_X operand_value_def)
  qed
qed
section \<open>Runs\<close>

datatype bpf_insn = Mov bool nat bpf_operand | Alu bool bpf_op nat bpf_operand | Jmp bool bpf_jmp_op nat bpf_operand

fun insn_regs :: "bpf_insn \<Rightarrow> nat list" where
  "insn_regs (Mov alu32 dst operand) = dst # (case operand of BPF_X src \<Rightarrow> [src] | BPF_K imm \<Rightarrow> [])"
| "insn_regs (Alu alu32 opcode dst operand) = dst # (case operand of BPF_X src \<Rightarrow> [src] | BPF_K imm \<Rightarrow> [])"
| "insn_regs (Jmp is_jmp32 opcode dst operand) = dst # (case operand of BPF_X src \<Rightarrow> [src] | BPF_K imm \<Rightarrow> [])"

text \<open>The machine, with the registers of frame \<open>f\<close>: the new values, and whether a jump is taken.\<close>

definition machine_operand :: "nat \<Rightarrow> (place \<Rightarrow> u64) \<Rightarrow> bpf_operand \<Rightarrow> u64" where
  "machine_operand f v operand = (case operand of BPF_K imm \<Rightarrow> scast imm | BPF_X src \<Rightarrow> v (f, Inl src))"

fun bpf_exec :: "nat \<Rightarrow> bpf_insn \<Rightarrow> (place \<Rightarrow> u64) \<Rightarrow> bool \<times> (place \<Rightarrow> u64)" where
  "bpf_exec f (Mov alu32 dst operand) v =
     (False, v((f, Inl dst) := (if alu32 then ucast (low (machine_operand f v operand)) else machine_operand f v operand)))"
| "bpf_exec f (Alu alu32 opcode dst operand) v = (False, v((f, Inl dst) := bpf_alu alu32 opcode (v (f, Inl dst)) (machine_operand f v operand)))"
| "bpf_exec f (Jmp is_jmp32 opcode dst operand) v = (bpf_jmp is_jmp32 opcode (v (f, Inl dst)) (machine_operand f v operand), v)"

fun bpf_run :: "nat \<Rightarrow> bpf_insn list \<Rightarrow> (place \<Rightarrow> u64) \<Rightarrow> bool list \<times> (place \<Rightarrow> u64)" where
  "bpf_run f [] v = ([], v)"
| "bpf_run f (i # is) v = (let (taken, w) = bpf_exec f i v; (ts, u) = bpf_run f is w in (taken # ts, u))"

text \<open>The verifier on the same way: it refuses the program (or leaves the model), does not explore this way, or follows.\<close>

datatype follow = Refused | Dropped | Follows bpf_env

fun follow_insn ::
    "tnum_lib \<Rightarrow> (u64 \<Rightarrow> bool) \<Rightarrow> bool \<Rightarrow> bool \<Rightarrow> bpf_answers \<Rightarrow> bpf_env \<Rightarrow> bpf_insn \<Rightarrow> bool \<Rightarrow> follow" where
  "follow_insn T pow2 prec leaks ans env (Mov alu32 dst operand) taken =
     (case check_mov T prec leaks alu32 dst operand env of
        (ret, env') \<Rightarrow> if ret \<noteq> 0 then Refused else if taken then Dropped else Follows env')"
| "follow_insn T pow2 prec leaks ans env (Alu alu32 opcode dst operand) taken =
     (case check_alu T prec (ans_sanitize ans) alu32 opcode dst operand env of
        None \<Rightarrow> Refused
      | Some (ret, env') \<Rightarrow> if ret \<noteq> 0 then Refused else if taken then Dropped else Follows env')"
| "follow_insn T pow2 prec leaks ans env (Jmp is_jmp32 opcode dst operand) taken =
     (if r_type (cur_reg (cur_state env) dst) \<noteq> SCALAR_VALUE then Refused
      else case check_cond_jmp T pow2 ans is_jmp32 opcode dst operand env of
        Inl err \<Rightarrow> Refused
      | Inr ways \<Rightarrow> (case find (\<lambda>(t, _). t = taken) ways of None \<Rightarrow> Dropped | Some (_, env') \<Rightarrow> Follows env'))"

fun follow_run ::
    "tnum_lib \<Rightarrow> (u64 \<Rightarrow> bool) \<Rightarrow> bool \<Rightarrow> bool \<Rightarrow> bpf_answers \<Rightarrow> bpf_env \<Rightarrow> (bpf_insn \<times> bool) list \<Rightarrow> follow" where
  "follow_run T pow2 prec leaks ans env [] = Follows env"
| "follow_run T pow2 prec leaks ans env ((i, taken) # is) =
     (case follow_insn T pow2 prec leaks ans env i taken of
        Follows env' \<Rightarrow> follow_run T pow2 prec leaks ans env' is | r \<Rightarrow> r)"

text \<open>The registers there are, and how far the identifiers have got.\<close>

definition env_fits :: "nat \<Rightarrow> bpf_env \<Rightarrow> bool" where
  "env_fits n env \<longleftrightarrow> (\<forall>i<11. has_reg (cur_state env) i) \<and> unat (id_gen env) + n < 2 ^ 32 - 1"

lemma cond_jmp_ok:
  assumes T: "tnum_ok T" and p: "pow2_ok pow2" and e: "describes env v" and d: "has_reg (cur_state env) dst" "r_type (cur_reg (cur_state env) dst) = SCALAR_VALUE"
    and s: "\<And>src. operand = BPF_X src \<Longrightarrow> has_reg (cur_state env) src"
    and c: "c \<longleftrightarrow> bpf_jmp is_jmp32 opcode (v (cur_place (cur_state env) dst)) (operand_value (cur_state env) v operand)"
    and w: "check_cond_jmp T pow2 ans is_jmp32 opcode dst operand env = Inr ws"
  shows "\<exists>env'. find (\<lambda>(t, _). t = c) ws = Some (c, env') \<and>
    describes env' v \<and> same_slots (cur_state env) (cur_state env') \<and> id_gen env' = id_gen env"
proof -
  let ?st = "cur_state env" and ?p = "jmp_pred T (cur_state env) opcode is_jmp32 dst operand"
  have st: "state_has ?st v" and ids: "ids_agree ?st v" and b: "\<And>l r. slot ?st l = Some r \<Longrightarrow> r_id r \<le> id_gen env"
    using e unfolding describes_def by blast+
  have P: "?p = 1 \<Longrightarrow> bpf_jmp is_jmp32 opcode (v (cur_place ?st dst)) (operand_value ?st v operand)"
    "?p = 0 \<Longrightarrow> \<not> bpf_jmp is_jmp32 opcode (v (cur_place ?st dst)) (operand_value ?st v operand)"
    using jmp_pred_ok [OF T st d] s by blast+
  consider "?p = 1" | "?p = 0" | "?p \<noteq> 1" "?p \<noteq> 0" by blast
  then show ?thesis
  proof cases
    case 1 then have c unfolding c by (rule P(1)) then show ?thesis using e 1 w by (auto simp: check_cond_jmp_def Let_def split: if_splits)
  next
    case 2 then have "\<not> c" unfolding c by (rule P(2)) then show ?thesis using e 2 w by (auto simp: check_cond_jmp_def Let_def split: if_splits)
  next
    case 3
    obtain other this where o: "jmp_branches T pow2 ?st opcode is_jmp32 dst operand = (other, this)" by (metis surj_pair)
    have ws: "ws = [(True, env\<lparr>cur_state := other\<rparr>), (False, env\<lparr>cur_state := this\<rparr>)]"
      using w 3 by (auto simp: check_cond_jmp_def Let_def o split: if_splits)
    have ok: "ways_ok ?st v c (other, this)" using jmp_branches_ok [OF T p st ids d(1), of operand is_jmp32 opcode] s unfolding o c by blast
    have desc: "describes (env\<lparr>cur_state := x\<rparr>) v" if "same_slots ?st x" "state_has x v" for x
    proof -
      have "r_id r \<le> id_gen env" if "slot x l = Some r" for l r
      proof -
        have "map_option reg_tag (slot ?st l) = Some (reg_tag r)" using \<open>same_slots ?st x\<close> that unfolding same_slots_def by (metis option.map(2))
        then obtain r0 where "slot ?st l = Some r0" "r_id r0 = r_id r" by (auto simp: reg_tag_def)
        then show ?thesis using b by metis
      qed
      then show ?thesis using that same_slots_ids [OF that(1) ids] by (simp add: describes_def)
    qed
    show ?thesis using ok desc [of other] desc [of this] by (cases c) (auto simp: ways_ok_def ws)
  qed
qed
text \<open>Writing keeps the registers that are there.\<close>

lemma fits_write: "env_fits n env \<Longrightarrow> i < 11 \<Longrightarrow> env_fits n (env\<lparr>cur_state := set_cur_reg i r (cur_state env)\<rparr>)"
  by (auto simp: env_fits_def set_frame)

lemma fits_less: "env_fits (Suc n) env \<Longrightarrow> env_fits n env"
  by (simp add: env_fits_def)

lemma fits_mov:
  assumes f: "env_fits (Suc n) env" and r: "dst < 11" "\<And>src. operand = BPF_X src \<Longrightarrow> src < 11"
    and m: "check_mov T prec leaks alu32 dst operand env = (0, env')"
  shows "env_fits n env'" "length (cur_state env') = length (cur_state env)"
proof -
  have gen: "unat (id_gen env + 1) \<le> unat (id_gen env) + 1" by (simp add: unat_word_ariths)
  have regs: "has_reg (cur_state env) i" if "i < 11" for i using f that by (simp add: env_fits_def)
  have "env_fits n env' \<and> length (cur_state env') = length (cur_state env)"
    using m f regs [OF r(1)] regs [OF r(2)] gen
    by (cases operand) (auto simp: check_mov_def Let_def env_fits_def set_frame split: if_splits)
  then show "env_fits n env'" "length (cur_state env') = length (cur_state env)" by blast+
qed

lemma fits_alu:
  assumes f: "env_fits (Suc n) env" and r: "dst < 11" and m: "check_alu T prec sanitize alu32 opcode dst operand env = Some (ret, env')"
  shows "env_fits n env'" "length (cur_state env') = length (cur_state env)"
proof -
  have regs: "has_reg (cur_state env) dst" using f r by (simp add: env_fits_def)
  have "env_fits n env' \<and> length (cur_state env') = length (cur_state env)"
    using m f regs unfolding check_alu_def adjust_reg_min_max_vals_def Let_def
    by (auto simp: env_fits_def set_frame split: bpf_operand.splits if_splits prod.splits)
  then show "env_fits n env'" "length (cur_state env') = length (cur_state env)" by blast+
qed

lemma fits_shape: "env_fits (Suc n) env \<Longrightarrow> same_slots (cur_state env) (cur_state env') \<Longrightarrow> id_gen env' = id_gen env \<Longrightarrow> env_fits n env'"
proof -
  assume f: "env_fits (Suc n) env" and s: "same_slots (cur_state env) (cur_state env')" and g: "id_gen env' = id_gen env"
  have "has_reg (cur_state env) 0" using f by (simp add: env_fits_def)
  then have "cur_state env' \<noteq> []" using s by (auto simp: same_slots_def has_reg_def)
  then show "env_fits n env'" using shape_regs(1) [OF s] f g by (simp add: env_fits_def)
qed

definition insn_fits :: "bpf_insn \<Rightarrow> bool" where
  "insn_fits i \<longleftrightarrow> list_all (\<lambda>r. r < 11) (insn_regs i)"

lemma follow_insn_ok:
  assumes T: "tnum_ok T" and p: "pow2_ok pow2" and e: "describes env v" and f: "env_fits (Suc n) env" and i: "insn_fits i"
    and x: "bpf_exec (length (cur_state env) - 1) i v = (taken, w)"
    and r: "follow_insn T pow2 prec leaks ans env i taken \<noteq> Refused"
  shows "\<exists>env'. follow_insn T pow2 prec leaks ans env i taken = Follows env' \<and> describes env' w \<and> env_fits n env' \<and>
    length (cur_state env') = length (cur_state env)"
proof -
  have regs: "has_reg (cur_state env) j" if "j < 11" for j using f that by (simp add: env_fits_def)
  have mo: "machine_operand (length (cur_state env) - 1) v operand = operand_value (cur_state env) v operand" for operand
    by (cases operand) (simp_all add: machine_operand_def operand_value_def cur_place_def)
  have gen: "id_gen env < 0xFFFFFFFF" using f by (simp add: env_fits_def word_less_nat_alt)
  show ?thesis
  proof (cases i)
    case (Mov alu32 dst operand)
    have d: "dst < 11" "\<And>src. operand = BPF_X src \<Longrightarrow> src < 11" using i Mov by (auto simp: insn_fits_def split: bpf_operand.splits)
    have tk: "\<not> taken" and w: "w = v(cur_place (cur_state env) dst :=
       (if alu32 then ucast (low (operand_value (cur_state env) v operand)) else operand_value (cur_state env) v operand))"
      using x unfolding Mov bpf_exec.simps mo cur_place_def by auto
    obtain env' where m: "check_mov T prec leaks alu32 dst operand env = (0, env')"
      using r Mov by (cases "check_mov T prec leaks alu32 dst operand env") (auto split: if_splits)
    have "describes env' w" unfolding w by (rule check_mov_ok [OF T e regs [OF d(1)] gen regs [OF d(2)] m])
    then show ?thesis using fits_mov [OF f d m] tk by (simp add: Mov m)
  next
    case (Alu alu32 opcode dst operand)
    have d: "dst < 11" "\<And>src. operand = BPF_X src \<Longrightarrow> src < 11" using i Alu by (auto simp: insn_fits_def split: bpf_operand.splits)
    have tk: "\<not> taken" and w: "w = v(cur_place (cur_state env) dst := bpf_alu alu32 opcode (v (cur_place (cur_state env) dst)) (operand_value (cur_state env) v operand))"
      using x unfolding Alu bpf_exec.simps mo cur_place_def by auto
    obtain env' where m: "check_alu T prec (ans_sanitize ans) alu32 opcode dst operand env = Some (0, env')"
      using r Alu by (cases "check_alu T prec (ans_sanitize ans) alu32 opcode dst operand env") (auto split: if_splits)
    have "describes env' w" unfolding w by (rule check_alu_ok [OF T e regs [OF d(1)] regs [OF d(2)] m])
    then show ?thesis using fits_alu [OF f d(1) m] tk by (simp add: Alu m)
  next
    case (Jmp is_jmp32 opcode dst operand)
    have d: "dst < 11" "\<And>src. operand = BPF_X src \<Longrightarrow> src < 11" using i Jmp by (auto simp: insn_fits_def split: bpf_operand.splits)
    have w: "w = v" and tk: "taken \<longleftrightarrow> bpf_jmp is_jmp32 opcode (v (cur_place (cur_state env) dst)) (operand_value (cur_state env) v operand)"
      using x unfolding Jmp bpf_exec.simps mo cur_place_def by auto
    have ty: "r_type (cur_reg (cur_state env) dst) = SCALAR_VALUE" using r Jmp by (auto split: if_splits)
    have sr: "\<And>src. operand = BPF_X src \<Longrightarrow> has_reg (cur_state env) src" using regs d(2) by blast
    obtain ws where c: "check_cond_jmp T pow2 ans is_jmp32 opcode dst operand env = Inr ws"
      using r Jmp ty by (cases "check_cond_jmp T pow2 ans is_jmp32 opcode dst operand env") auto
    from cond_jmp_ok [OF T p e regs [OF d(1)] ty sr tk c] obtain env' where
      j: "find (\<lambda>(t, _). t = taken) ws = Some (taken, env')"
      and k: "describes env' v" "same_slots (cur_state env) (cur_state env')" "id_gen env' = id_gen env" by blast
    show ?thesis using k fits_shape [OF f k(2,3)] by (simp add: Jmp ty c j w same_slots_def)
  qed
qed

theorem follow_run_ok:
  assumes T: "tnum_ok T" and p: "pow2_ok pow2"
  shows "describes env v \<Longrightarrow> env_fits (length is) env \<Longrightarrow> list_all insn_fits is \<Longrightarrow>
    bpf_run (length (cur_state env) - 1) is v = (ts, w) \<Longrightarrow>
    follow_run T pow2 prec leaks ans env (zip is ts) = Refused \<or>
    (\<exists>env'. follow_run T pow2 prec leaks ans env (zip is ts) = Follows env' \<and> describes env' w)"
proof (induction "is" arbitrary: env v ts)
  case Nil then show ?case by simp
next
  case (Cons i "is")
  obtain taken u where x: "bpf_exec (length (cur_state env) - 1) i v = (taken, u)" by (metis surj_pair)
  obtain ts' where ts: "bpf_run (length (cur_state env) - 1) is u = (ts', w)" "ts = taken # ts'"
    using Cons.prems(4) unfolding bpf_run.simps x Let_def prod.case by (auto split: prod.splits)
  show ?case
  proof (cases "follow_insn T pow2 prec leaks ans env i taken = Refused")
    case True then show ?thesis by (simp add: ts(2))
  next
    case False
    have "insn_fits i" "env_fits (Suc (length is)) env" using Cons.prems by simp_all
    from follow_insn_ok [OF T p Cons.prems(1) this(2,1) x False] obtain env' where
      f: "follow_insn T pow2 prec leaks ans env i taken = Follows env'" "describes env' u" "env_fits (length is) env'"
        "length (cur_state env') = length (cur_state env)" by blast
    show ?thesis using Cons.IH [OF f(2,3), of ts'] Cons.prems(3) ts f(1,4) by simp
  qed
qed

end
