(* ===== verification/Bpf_Tnum.thy ===== *)
theory Bpf_Tnum
  imports Bpf_Bounds
begin

text \<open>
  An instance of the operations on numbers with unknown bits, for which everything holds that the BPF theories rely on:
  bit by bit where that is exact, and otherwise a number of which nothing is known.
\<close>

fun bit_length :: "nat \<Rightarrow> nat" where
  "bit_length n = (if n = 0 then 0 else Suc (bit_length (n div 2)))"

declare bit_length.simps [simp del]

definition no_bits :: tnum where "no_bits = \<lparr>t_value = 0, t_mask = - 1\<rparr>"

text \<open>Exact on constants.\<close>

definition on_const :: "(u64 \<Rightarrow> u64) \<Rightarrow> tnum \<Rightarrow> tnum" where
  "on_const f a = (if t_mask a = 0 then \<lparr>t_value = f (t_value a), t_mask = 0\<rparr> else no_bits)"

definition on_consts :: "(u64 \<Rightarrow> u64 \<Rightarrow> u64) \<Rightarrow> tnum \<Rightarrow> tnum \<Rightarrow> tnum" where
  "on_consts f a b = (if t_mask a = 0 \<and> t_mask b = 0 then \<lparr>t_value = f (t_value a) (t_value b), t_mask = 0\<rparr> else no_bits)"

definition tn_and :: "tnum \<Rightarrow> tnum \<Rightarrow> tnum" where
  "tn_and a b = \<lparr>t_value = t_value a AND t_value b,
     t_mask = ((t_value a OR t_mask a) AND (t_value b OR t_mask b)) AND NOT (t_value a AND t_value b)\<rparr>"

definition tn_or :: "tnum \<Rightarrow> tnum \<Rightarrow> tnum" where
  "tn_or a b = \<lparr>t_value = t_value a OR t_value b, t_mask = (t_mask a OR t_mask b) AND NOT (t_value a OR t_value b)\<rparr>"

definition tn_xor :: "tnum \<Rightarrow> tnum \<Rightarrow> tnum" where
  "tn_xor a b = \<lparr>t_value = (t_value a XOR t_value b) AND NOT (t_mask a OR t_mask b), t_mask = t_mask a OR t_mask b\<rparr>"

definition tn_intersect :: "tnum \<Rightarrow> tnum \<Rightarrow> tnum" where
  "tn_intersect a b = \<lparr>t_value = (t_value a OR t_value b) AND NOT (t_mask a AND t_mask b), t_mask = t_mask a AND t_mask b\<rparr>"

definition tn_map :: "(u64 \<Rightarrow> u64) \<Rightarrow> tnum \<Rightarrow> tnum" where
  "tn_map f a = \<lparr>t_value = f (t_value a), t_mask = f (t_mask a)\<rparr>"

definition tn_lib :: tnum_lib where
  "tn_lib =
     \<lparr>tnum_unknown = no_bits,
      tnum_const = (\<lambda>c. \<lparr>t_value = c, t_mask = 0\<rparr>),
      tnum_range = (\<lambda>lo hi. \<lparr>t_value = 0, t_mask = mask (bit_length (unat hi))\<rparr>),
      tnum_lshift = (\<lambda>a n. tn_map (push_bit (unat n)) a),
      tnum_rshift = (\<lambda>a n. tn_map (drop_bit (unat n)) a),
      tnum_arshift = (\<lambda>a n w. on_const (\<lambda>x. if w = 32 then ucast (signed_drop_bit (unat n) (low x)) else signed_drop_bit (unat n) x) a),
      tnum_add = on_consts (+), tnum_sub = on_consts (-), tnum_mul = on_consts (*),
      tnum_and = tn_and, tnum_or = tn_or, tnum_xor = tn_xor, tnum_intersect = tn_intersect,
      tnum_cast = (\<lambda>a n. tn_map (take_bit (8 * n)) a), tnum_subreg = tn_map (take_bit 32),
      tnum_clear_subreg = tn_map high,
      tnum_const_subreg = (\<lambda>a c. \<lparr>t_value = high (t_value a) OR take_bit 32 c, t_mask = high (t_mask a)\<rparr>),
      tnum_is_const = (\<lambda>a. t_mask a = 0),
      tnum_equals_const = (\<lambda>a c. t_mask a = 0 \<and> t_value a = c),
      tnum_subreg_is_const = (\<lambda>a. take_bit 32 (t_mask a) = 0),
      tnum_in = (\<lambda>a b. t_mask b AND NOT (t_mask a) = 0 \<and> t_value b AND NOT (t_mask a) = t_value a)\<rparr>"

lemma tnum_has_bits: "tnum_has t x \<longleftrightarrow> (\<forall>i<64. bit (t_value t) i \<longleftrightarrow> bit x i \<and> \<not> bit (t_mask t) i)"
proof
  assume h: "tnum_has t x"
  show "\<forall>i<64. bit (t_value t) i \<longleftrightarrow> bit x i \<and> \<not> bit (t_mask t) i"
    unfolding tnum_has_def [THEN iffD1, OF h, symmetric] by (simp add: bit_simps)
next
  assume "\<forall>i<64. bit (t_value t) i \<longleftrightarrow> bit x i \<and> \<not> bit (t_mask t) i"
  then show "tnum_has t x" unfolding tnum_has_def by (auto intro!: bit_word_eqI simp: bit_simps)
qed

lemma eq_bits: "x = y \<longleftrightarrow> (\<forall>i<64. bit x i \<longleftrightarrow> bit y i)" for x y :: u64
  by (auto intro!: bit_word_eqI)

lemma no_bits_has [simp]: "tnum_has no_bits x"
  by (simp add: tnum_has_def no_bits_def)

lemma on_const_has: "tnum_has a x \<Longrightarrow> tnum_has (on_const f a) (f x)"
  by (cases "t_mask a = 0") (simp_all add: on_const_def, simp add: tnum_has_def)

lemma on_consts_has: "tnum_has a x \<Longrightarrow> tnum_has b y \<Longrightarrow> tnum_has (on_consts f a b) (f x y)"
  by (cases "t_mask a = 0 \<and> t_mask b = 0") (simp add: on_consts_def tnum_has_def, simp only: on_consts_def if_False no_bits_has)

section \<open>Bit by bit\<close>

lemma tn_and_bitwise: "bitwise tn_and (AND)"
  unfolding bitwise_def
proof (intro allI impI conjI)
  fix a b x y assume a: "tnum_has a x" and b: "tnum_has b y"
  show "tnum_has (tn_and a b) (x AND y)" using a b by (auto simp: tnum_has_bits tn_and_def bit_simps)
  fix z assume z: "tnum_has (tn_and a b) z"
  show "\<exists>p q. tnum_has a p \<and> tnum_has b q \<and> z = p AND q"
    by (rule exI [of _ "t_value a OR (t_mask a AND z)"], rule exI [of _ "t_value b OR (t_mask b AND z)"])
      (use a b z in \<open>auto simp: tnum_has_bits eq_bits tn_and_def bit_simps\<close>)
qed

lemma tn_or_bitwise: "bitwise tn_or (OR)"
  unfolding bitwise_def
proof (intro allI impI conjI)
  fix a b x y assume a: "tnum_has a x" and b: "tnum_has b y"
  show "tnum_has (tn_or a b) (x OR y)" using a b by (auto simp: tnum_has_bits tn_or_def bit_simps)
  fix z assume z: "tnum_has (tn_or a b) z"
  show "\<exists>p q. tnum_has a p \<and> tnum_has b q \<and> z = p OR q"
    by (rule exI [of _ "t_value a OR (t_mask a AND z)"], rule exI [of _ "t_value b OR (t_mask b AND z)"])
      (use a b z in \<open>auto simp: tnum_has_bits eq_bits tn_or_def bit_simps\<close>)
qed

lemma tn_xor_bitwise: "bitwise tn_xor (XOR)"
  unfolding bitwise_def
proof (intro allI impI conjI)
  fix a b x y assume a: "tnum_has a x" and b: "tnum_has b y"
  show "tnum_has (tn_xor a b) (x XOR y)" using a b by (auto simp: tnum_has_bits tn_xor_def bit_simps)
  fix z assume z: "tnum_has (tn_xor a b) z"
  show "\<exists>p q. tnum_has a p \<and> tnum_has b q \<and> z = p XOR q"
    by (rule exI [of _ "t_value a OR (t_mask a AND (z XOR t_value b))"], rule exI [of _ "t_value b OR (t_mask b AND NOT (t_mask a) AND (z XOR t_value a))"])
      (use a b z in \<open>auto simp: tnum_has_bits eq_bits tn_xor_def bit_simps\<close>)
qed

lemma tn_intersect_has:
  assumes a: "tnum_has a x" and b: "tnum_has b x"
  shows "tnum_has (tn_intersect a b) x" "tnum_has (tn_intersect a b) y \<Longrightarrow> tnum_has a y \<and> tnum_has b y"
  using a b by (auto simp: tnum_has_bits tn_intersect_def bit_simps)

text \<open>A function that clears the bits outside of \<open>k\<close> and keeps the others.\<close>

lemma tn_map_bitwise1:
  assumes f: "\<And>x i. i < 64 \<Longrightarrow> bit (f x) i \<longleftrightarrow> bit x i \<and> P i"
  shows "bitwise1 (tn_map f) f"
  unfolding bitwise1_def
proof (intro allI impI conjI)
  fix a x assume a: "tnum_has a x"
  show "tnum_has (tn_map f a) (f x)" using a f by (auto simp: tnum_has_bits tn_map_def)
  fix z assume z: "tnum_has (tn_map f a) z"
  show "\<exists>p. tnum_has a p \<and> z = f p"
    by (rule exI [of _ "t_value a OR (t_mask a AND z)"]) (use a z f in \<open>auto simp: tnum_has_bits eq_bits tn_map_def bit_simps\<close>)
qed

lemma tn_const_subreg_bitwise1:
  "bitwise1 (\<lambda>a. \<lparr>t_value = high (t_value a) OR take_bit 32 c, t_mask = high (t_mask a)\<rparr>) (\<lambda>x. high x OR take_bit 32 c)"
  unfolding bitwise1_def
proof (intro allI impI conjI)
  fix a x assume a: "tnum_has a x"
  show "tnum_has \<lparr>t_value = high (t_value a) OR take_bit 32 c, t_mask = high (t_mask a)\<rparr> (high x OR take_bit 32 c)"
    using a by (auto simp: tnum_has_bits high_def bit_simps)
  fix z assume z: "tnum_has \<lparr>t_value = high (t_value a) OR take_bit 32 c, t_mask = high (t_mask a)\<rparr> z"
  show "\<exists>p. tnum_has a p \<and> z = high p OR take_bit 32 c"
    by (rule exI [of _ "t_value a OR (t_mask a AND z)"]) (use a z in \<open>auto simp: tnum_has_bits eq_bits high_def bit_simps\<close>)
qed

section \<open>Ranges\<close>

lemma bit_length_bounds: "n < 2 ^ bit_length n" "n < 2 ^ k \<Longrightarrow> bit_length n \<le> k"
proof -
  show "n < 2 ^ bit_length n"
    by (induction n rule: bit_length.induct) (subst bit_length.simps, auto)
  show "n < 2 ^ k \<Longrightarrow> bit_length n \<le> k"
  proof (induction n arbitrary: k rule: bit_length.induct)
    case (1 n)
    show ?case
    proof (cases "n = 0")
      case False
      with 1(2) obtain j where k: "k = Suc j" by (cases k) auto
      with 1(2) have "n div 2 < 2 ^ j" by (simp add: less_mult_imp_div_less mult.commute)
      then show ?thesis using 1(1) [OF False] k False by (subst bit_length.simps) simp
    qed (subst bit_length.simps, simp)
  qed
qed

lemma mask_has: "tnum_has \<lparr>t_value = 0, t_mask = mask k\<rparr> x \<longleftrightarrow> unat x < 2 ^ k"
proof -
  have "tnum_has \<lparr>t_value = 0, t_mask = mask k\<rparr> x \<longleftrightarrow> take_bit k x = x"
    by (auto simp: tnum_has_bits eq_bits bit_simps)
  also have "\<dots> \<longleftrightarrow> take_bit k (unat x) = unat x" unfolding unsigned_take_bit_eq [symmetric] by (rule word_unat_eq_iff)
  also have "\<dots> \<longleftrightarrow> unat x < 2 ^ k" by (simp add: take_bit_nat_eq_self_iff)
  finally show ?thesis .
qed

theorem tn_lib_ok: "tnum_ok tn_lib"
  unfolding tnum_ok_def
proof (intro conjI)
  show "tnum_ranges_ok tn_lib"
    unfolding tnum_ranges_ok_def tn_lib_def tnum_lib.simps mask_has
  proof (intro conjI allI impI)
    fix lo hi x :: u64 assume "in_u lo hi x"
    then have "unat x \<le> unat hi" by (simp add: in_u_def word_le_nat_alt)
    then show "unat x < 2 ^ bit_length (unat hi)" using bit_length_bounds(1) le_less_trans by blast
  next
    fix lo hi y :: u64 and k :: nat assume "unat hi < 2 ^ k" "unat y < 2 ^ bit_length (unat hi)"
    then show "unat y < 2 ^ k" using bit_length_bounds(2) by (meson less_le_trans one_le_numeral power_increasing)
  qed (auto simp: tnum_has_def no_bits_def)
  show "tnum_shifts_ok tn_lib"
    unfolding tnum_shifts_ok_def tn_lib_def tnum_lib.simps
  proof (intro conjI allI impI)
    fix a x n assume a: "tnum_has a x"
    show "tnum_has (tn_map (push_bit (unat n)) a) (push_bit (unat n) x)" using a by (auto simp: tnum_has_bits tn_map_def bit_simps)
    show "tnum_has (tn_map (drop_bit (unat n)) a) (drop_bit (unat n) x)"
      using a bit_imp_le_length [of x] bit_imp_le_length [of "t_value a"] by (auto simp: tnum_has_bits tn_map_def bit_simps)
    show "tnum_has (on_const (\<lambda>x. if (64::nat) = 32 then ucast (signed_drop_bit (unat n) (low x)) else signed_drop_bit (unat n) x) a)
        (signed_drop_bit (unat n) x)"
      using on_const_has [OF a, of "signed_drop_bit (unat n)"] by simp
    show "tnum_has (on_const (\<lambda>x. if (32::nat) = 32 then ucast (signed_drop_bit (unat n) (low x)) else signed_drop_bit (unat n) x) a)
        (ucast (signed_drop_bit (unat n) (low x)))"
      using on_const_has [OF a, of "\<lambda>x. ucast (signed_drop_bit (unat n) (low x))"] by simp
  qed
  show "tnum_arith_ok tn_lib" by (simp add: tnum_arith_ok_def tn_lib_def on_consts_has)
  show "tnum_bits_ok tn_lib"
    using tn_and_bitwise tn_or_bitwise tn_xor_bitwise tn_intersect_has unfolding tnum_bits_ok_def tn_lib_def tnum_lib.simps by blast
  show "tnum_parts_ok tn_lib"
    unfolding tnum_parts_ok_def tn_lib_def tnum_lib.simps
  proof (intro conjI allI impI)
    fix n :: nat
    show "bitwise1 (tn_map (take_bit (8 * n))) (take_bit (8 * n))"
      by (rule tn_map_bitwise1 [where P = "\<lambda>i. i < 8 * n"]) (auto simp: bit_simps)
    show "bitwise1 (tn_map (take_bit 32)) (take_bit 32)" by (rule tn_map_bitwise1 [where P = "\<lambda>i. i < 32"]) (auto simp: bit_simps)
    show "bitwise1 (tn_map high) high" by (rule tn_map_bitwise1 [where P = "\<lambda>i. i \<ge> 32"]) (auto simp: high_def bit_simps)
  qed (rule tn_const_subreg_bitwise1)
  show "tnum_tests_ok tn_lib"
    unfolding tnum_tests_ok_def tn_lib_def tnum_lib.simps
  proof (intro conjI allI impI)
    fix a :: tnum and x y :: u64 assume m: "take_bit 32 (t_mask a) = 0" and x: "tnum_has a x" and y: "tnum_has a y"
    have "bit y i = bit x i" if "i < 32" for i
    proof -
      have i: "i < 64" using that by simp
      have "\<not> bit (t_mask a) i" using m [THEN arg_cong, of "\<lambda>w. bit w i"] that by (simp add: bit_simps)
      then show ?thesis using x [unfolded tnum_has_bits, rule_format, OF i] y [unfolded tnum_has_bits, rule_format, OF i] by simp
    qed
    then show "low y = low x" by (auto intro!: bit_word_eqI simp: bit_simps)
  next
    fix a b :: tnum and x :: u64 assume "t_mask b AND NOT (t_mask a) = 0 \<and> t_value b AND NOT (t_mask a) = t_value a" "tnum_has b x"
    then show "tnum_has a x" by (auto simp: tnum_has_bits eq_bits bit_simps)
  qed (auto simp: tnum_has_def)
qed

end
