(* ===== verification/Bpf_Props.thy ===== *)
theory Bpf_Props
  imports Bpf_Step Bpf_Tnum
begin

text \<open>
  The properties of the BPF verifier: what it knows of scalars after an exchange of knowledge, an arithmetic instruction, a
  narrowing load, a conditional jump and a whole run holds of the values a machine computes, and a state that is covered
  by an explored one allows nothing new.

  The hypothesis \<open>tnum_ok\<close> is what the operations on numbers with unknown bits promise, \<open>pow2_ok\<close> what \<open>is_power_of_2\<close>
  does; the witnesses use \<open>tn_lib\<close> and \<open>ex_pow2\<close>.
\<close>

definition ex_pow2 :: "u64 \<Rightarrow> bool" where
  "ex_pow2 v \<longleftrightarrow> list_ex (\<lambda>k. v = push_bit k 1) [0..<64]"

lemma ex_pow2_ok: "pow2_ok ex_pow2"
  by (auto simp: pow2_ok_def ex_pow2_def list_ex_iff)

text \<open>A scalar between 1 and 5, and one that is 3.\<close>

definition ex_range :: bpf_reg_state where
  "ex_range = \<lparr>r_type = SCALAR_VALUE, r_off = 0, r_raw = 0, r_id = 0, var_off = \<lparr>t_value = 0, t_mask = 7\<rparr>, smin_value = 1, smax_value = 5,
     umin_value = 1, umax_value = 5, s32_min_value = 1, s32_max_value = 5, u32_min_value = 1, u32_max_value = 5, frameno = 0, precise = False\<rparr>"

lemma ex_range_has: "reg_has ex_range 4" "reg_has ex_range 5" "reg_signs ex_range"
proof -
  show "reg_has ex_range 4" "reg_has ex_range 5" by (simp_all add: ex_range_def reg_has_def tnum_has_def in_s_def in_u_def)
  have m: "(7 :: u64) = mask 3" by (simp add: mask_eq_exp_minus_1)
  have n: "\<not> neg y" "\<not> neg (low y)" if "tnum_has \<lparr>t_value = 0, t_mask = 7\<rparr> y" for y
  proof -
    have "unat y < 2 ^ 3" using that unfolding m mask_has .
    then show "\<not> neg y" "\<not> neg (low y)" by (simp_all add: not_neg_unat unat_low)
  qed
  show "reg_signs ex_range" using n by (auto simp: reg_signs_def ex_range_def neg_def)
qed

section \<open>One register\<close>

text \<open>
  C13. Exchanging knowledge between the ranges and the known bits (\<open>reg_bounds_sync\<close>) never loses a value the register
  can have, whatever the ranges were; afterwards a register that is known not to be negative is so by its bits and its
  unsigned range too, which the bitwise operations rely on.
\<close>

theorem bounds_sync_sound:
  assumes "tnum_ok T" and "reg_has r x"
  shows "reg_has (reg_bounds_sync T r) x \<and> reg_signs (reg_bounds_sync T r)"
  using sync_has sync_signs assms by blast

theorem bounds_sync_sound_witness: "reg_has (reg_bounds_sync tn_lib ex_range) 4 \<and> reg_signs (reg_bounds_sync tn_lib ex_range)"
  using bounds_sync_sound [OF tn_lib_ok ex_range_has(1)] .

text \<open>
  C11. When an arithmetic instruction on scalars is accepted, in 64 or in 32 bits, the new state of the destination allows
  the result of the instruction on any two values that the states of the operands allow, and has consistent signs
  again. This includes wrap-around, shifts, division by zero and the taint for operands whose ranges are contradictory.
\<close>

theorem alu_sound:
  assumes "tnum_ok T" and "reg_has dst x" and "reg_has src y" and "reg_signs dst" and "reg_signs src"
    and "adjust_scalar_min_max_vals T prec sanitize alu32 opcode dst src = (0, dst')"
  shows "reg_has dst' (bpf_alu alu32 opcode x y) \<and> reg_signs dst'"
  using adjust_scalar_ok assms by blast

theorem alu_sound_witness:
  "reg_has (snd (adjust_scalar_min_max_vals tn_lib False 0 True BPF_SUB ex_range ex_range)) 0xFFFFFFFF \<and>
   reg_signs (snd (adjust_scalar_min_max_vals tn_lib False 0 True BPF_SUB ex_range ex_range))"
proof -
  obtain ret d where a: "adjust_scalar_min_max_vals tn_lib False 0 True BPF_SUB ex_range ex_range = (ret, d)" by (metis surj_pair)
  then have "ret = 0" by (auto simp: adjust_scalar_min_max_vals_def Let_def split: if_splits)
  with a have a: "adjust_scalar_min_max_vals tn_lib False 0 True BPF_SUB ex_range ex_range = (0, d)" by simp
  have "bpf_alu True BPF_SUB 4 5 = 0xFFFFFFFF" by code_simp
  then show ?thesis using alu_sound [OF tn_lib_ok ex_range_has(1,2,3,3) a] a by simp
qed

text \<open>
  C33. A load of fewer than 8 bytes leaves the low bytes of a value: \<open>coerce_reg_to_size\<close> turns a state that allows a
  value into one that allows it cut to that size.
\<close>

theorem coerce_sound:
  assumes "tnum_ok T" and "reg_has r x" and "sz < 8"
  shows "reg_has (coerce_reg_to_size T sz r) (take_bit (8 * sz) x)"
  using coerce_ok assms .

theorem coerce_sound_witness: "reg_has (coerce_reg_to_size tn_lib 2 (verifier_mark_reg_known tn_lib 0x12345 ex_range)) 0x2345"
  using coerce_sound [OF tn_lib_ok known_has(1) [OF tn_lib_ok], of 2 "0x12345" ex_range] by simp

text \<open>
  C34. Exploration stops at a state that an explored one covers: when the ranges of the new state lie within those of the
  old one and the known bits of the old one are known in the new one, every value the new state allows was
  allowed before.
\<close>

theorem pruning_sound:
  assumes "tnum_ok T" and "range_within old cur" and "tnum_in T (var_off old) (var_off cur)" and "reg_has cur x"
  shows "reg_has old x"
  using within_ok assms .

theorem pruning_sound_witness: "reg_has ex_range 4"
proof -
  let ?r = "verifier_mark_reg_known tn_lib 4 ex_range"
  have "range_within ex_range ?r" "tnum_in tn_lib (var_off ex_range) (var_off ?r)"
    by (simp_all add: range_within_def ex_range_def verifier_mark_reg_known_def verifier2_mark_reg_known_def tn_lib_def)
  from pruning_sound [OF tn_lib_ok this known_has(1) [OF tn_lib_ok]] show ?thesis .
qed

section \<open>Jumps\<close>

text \<open>Eleven registers of this kind.\<close>

definition ex_env :: bpf_env where
  "ex_env = \<lparr>cur_state = [\<lparr>regs = replicate 11 ex_range, spilled = []\<rparr>], id_gen = 0\<rparr>"

lemma ex_env_regs: "i < 11 \<Longrightarrow> has_reg (cur_state ex_env) i" "i < 11 \<Longrightarrow> cur_reg (cur_state ex_env) i = ex_range"
  by (simp_all add: ex_env_def has_reg_def cur_reg_def)

lemma ex_env_describes: "describes ex_env (\<lambda>_. 4)"
proof -
  have s: "slot (cur_state ex_env) l = Some r \<Longrightarrow> r = ex_range" for l r
    by (cases l) (auto simp: slot_def ex_env_def split: sum.splits if_splits)
  have i: "r_id ex_range = 0" by (simp add: ex_range_def)
  have "r_id r \<le> id_gen ex_env" if "slot (cur_state ex_env) l = Some r" for l r using s [OF that] i by simp
  then show ?thesis using s i ex_range_has(1,3) unfolding describes_def state_has_def ids_agree_def by blast
qed

text \<open>
  C31. When the verifier decides a conditional jump it is right: a jump it takes for taken is taken with all values of the
  operands that the state allows, and one it takes for not taken is not.
\<close>

theorem branch_decided:
  assumes "tnum_ok T" and "state_has st v" and "has_reg st dst" and "r_type (cur_reg st dst) = SCALAR_VALUE"
    and "case operand of BPF_X src \<Rightarrow> has_reg st src | BPF_K imm \<Rightarrow> True"
    and "jmp_pred T st opcode is_jmp32 dst operand \<in> {0, 1}"
  shows "jmp_pred T st opcode is_jmp32 dst operand = 1 \<longleftrightarrow> bpf_jmp is_jmp32 opcode (v (cur_place st dst)) (operand_value st v operand)"
proof -
  have "\<And>src. operand = BPF_X src \<Longrightarrow> has_reg st src" using assms(5) by simp
  from jmp_pred_ok [OF assms(1-4) this] assms(6) show ?thesis by auto
qed

theorem branch_decided_witness:
  "jmp_pred tn_lib (cur_state ex_env) BPF_JGT False 0 (BPF_K 5) = 0 \<and> \<not> bpf_jmp False BPF_JGT 4 (operand_value (cur_state ex_env) (\<lambda>_. 4) (BPF_K 5))"
proof -
  have p: "jmp_pred tn_lib (cur_state ex_env) BPF_JGT False 0 (BPF_K 5) = 0"
    by (simp add: jmp_pred_def ex_env_regs is_branch_taken_def verifier_is_pointer_value_def is_branch64_taken_def ex_range_def)
  have "state_has (cur_state ex_env) (\<lambda>_. 4)" using ex_env_describes by (simp add: describes_def)
  from branch_decided [OF tn_lib_ok this, of 0 "BPF_K 5" BPF_JGT False] p show ?thesis
    by (simp add: ex_env_regs) (simp add: ex_range_def)
qed

text \<open>
  C12. Where the verifier follows both ways of a conditional jump, the values of a machine are still described on the way
  the machine goes, for all registers and stack slots: the operands, whose states are refined by the comparison, and
  their copies, which get the same knowledge through their identifier. Types and identifiers stay.
\<close>

theorem branch_refined:
  assumes "tnum_ok T" and "pow2_ok pow2" and "state_has st v" and "ids_agree st v" and "has_reg st dst"
    and "case operand of BPF_X src \<Rightarrow> has_reg st src | BPF_K imm \<Rightarrow> True"
    and "jmp_branches T pow2 st opcode is_jmp32 dst operand = (other, this)"
  shows "same_slots st other \<and> same_slots st this \<and>
    state_has (if bpf_jmp is_jmp32 opcode (v (cur_place st dst)) (operand_value st v operand) then other else this) v"
proof -
  have "\<And>src. operand = BPF_X src \<Longrightarrow> has_reg st src" using assms(6) by simp
  with jmp_branches_ok [OF assms(1-5), of operand is_jmp32 opcode] show ?thesis unfolding assms(7) by (simp add: ways_ok_def)
qed

theorem branch_refined_witness:
  "state_has (snd (jmp_branches tn_lib ex_pow2 (cur_state ex_env) BPF_JGT True 1 (BPF_X 2))) (\<lambda>_. 4)"
proof -
  have d: "state_has (cur_state ex_env) (\<lambda>_. 4)" "ids_agree (cur_state ex_env) (\<lambda>_. 4)" using ex_env_describes by (simp_all add: describes_def)
  obtain other this where b: "jmp_branches tn_lib ex_pow2 (cur_state ex_env) BPF_JGT True 1 (BPF_X 2) = (other, this)" by (metis surj_pair)
  from branch_refined [OF tn_lib_ok ex_pow2_ok d _ _ b] b show ?thesis
    by (simp add: ex_env_regs operand_value_def bpf_jmp_def bpf_jmp_word_def)
qed

section \<open>Runs\<close>

text \<open>
  C10. Safety of the exploration along any run of moves, arithmetic instructions and conditional jumps on scalars: from a
  state that describes the values of a machine, the verifier either refuses the program, or it explores the way the
  machine goes, and its state at the end describes the values of the machine there. No way is dropped that a machine
  can go. The bound on the length keeps the 32 bit counter of identifiers from wrapping.
\<close>

theorem run_covered:
  assumes "tnum_ok T" and "pow2_ok pow2" and "describes env v" and "env_fits (length insns) env" and "list_all insn_fits insns"
    and "bpf_run (length (cur_state env) - 1) insns v = (ways, w)"
  shows "case follow_run T pow2 prec leaks ans env (zip insns ways) of
      Refused \<Rightarrow> True | Dropped \<Rightarrow> False | Follows env' \<Rightarrow> describes env' w"
  using follow_run_ok [OF assms] by (metis follow.simps(8,10))

text \<open>Register 3 gets a copy of register 2, is doubled, and compared.\<close>

definition ex_ans :: bpf_answers where
  "ex_ans = \<lparr>ans_precise_dst = 0, ans_precise_src = 0, ans_bypass_spec_v1 = False, ans_speculative = True, ans_push_stack = True, ans_sanitize = 0\<rparr>"

definition ex_insns :: "bpf_insn list" where
  "ex_insns = [Mov False 3 (BPF_X 2), Alu False BPF_ADD 3 (BPF_X 3), Jmp False BPF_JSGT 3 (BPF_K 7)]"

lemma ex_not_refused: "follow_run tn_lib ex_pow2 False False ex_ans ex_env (zip ex_insns [False, False, True]) \<noteq> Refused"
proof -
  let ?s = "ex_range\<lparr>r_id := 1\<rparr>"
  let ?st = "set_cur_reg 3 ?s (set_cur_reg 2 ?s (cur_state ex_env))"
  define e1 where "e1 = \<lparr>cur_state = ?st, id_gen = 1\<rparr>"
  have m: "check_mov tn_lib False False False 3 (BPF_X 2) ex_env = (0, e1)"
    by (simp add: check_mov_def ex_env_regs e1_def Let_def) (simp add: ex_range_def ex_env_def)
  have h: "has_reg (cur_state e1) 3" by (simp add: e1_def set_frame ex_env_regs)
  have c1: "cur_reg (cur_state e1) 3 = ?s" by (simp add: e1_def set_frame ex_env_regs)
  let ?d = "?s\<lparr>r_id := 0\<rparr>"
  obtain ret d where a: "adjust_scalar_min_max_vals tn_lib False 0 False BPF_ADD ?d ?d = (ret, d)" by (metis surj_pair)
  have ret: "ret = 0" using a by (auto simp: adjust_scalar_min_max_vals_def Let_def split: if_splits)
  have "r_type d = SCALAR_VALUE" using tag_adjust [OF _ a] by (simp add: reg_tag_def ex_range_def)
  moreover have "check_alu tn_lib False 0 False BPF_ADD 3 (BPF_X 3) e1 = Some (0, e1\<lparr>cur_state := set_cur_reg 3 d (set_cur_reg 3 ?d (cur_state e1))\<rparr>)"
    unfolding check_alu_def adjust_reg_min_max_vals_def Let_def
    using a ret by (simp add: c1 set_frame [OF h]) (simp add: ex_range_def)
  ultimately show ?thesis using m by (simp add: ex_insns_def ex_ans_def set_frame h check_cond_jmp_def Let_def split: option.splits bpf_operand.splits prod.splits)
qed

theorem run_covered_witness:
  "case follow_run tn_lib ex_pow2 False False ex_ans ex_env (zip ex_insns [False, False, True]) of
     Refused \<Rightarrow> False | Dropped \<Rightarrow> False | Follows env' \<Rightarrow> describes env' ((\<lambda>_. 4)((0, Inl 3) := 8))"
proof -
  have f: "env_fits (length ex_insns) ex_env" "list_all insn_fits ex_insns"
    by (simp_all add: env_fits_def ex_env_regs) (simp_all add: ex_env_def ex_insns_def insn_fits_def)
  have r: "bpf_run (length (cur_state ex_env) - 1) ex_insns (\<lambda>_. 4) = ([False, False, True], (\<lambda>_. 4)((0, Inl 3) := 8))"
    by (simp add: ex_insns_def ex_env_def machine_operand_def bpf_alu_def bpf_alu_word_def bpf_jmp_def bpf_jmp_word_def)
  have n: "follow_run tn_lib ex_pow2 False False ex_ans ex_env (zip ex_insns [False, False, True]) \<noteq> Refused"
    by (rule ex_not_refused)
  from run_covered [OF tn_lib_ok ex_pow2_ok ex_env_describes f r, of False False ex_ans] n show ?thesis
    by (auto split: follow.splits)
qed

end
